(* ===== verification/Prelude.thy ===== *)
theory Prelude
  imports Main "HOL-Library.AList" "HOL-Library.Multiset" "HOL-Library.Monad_Syntax"
begin

text \<open>
  Shared vocabulary of the development: JavaScript's insertion-ordered \<open>Map\<close> and \<open>Set\<close>,
  \<open>Array.sort\<close> with a comparator, \<open>bigint\<close> division, and the generic lemmas about them that
  the component theories use.

  \<^item> A \<open>Map\<close> is an association list in insertion order. \<open>map.set\<close> keeps the position of a
    key it already holds and appends a new one, which is exactly the library's
    \<^theory_text>\<open>AList.update\<close>; \<open>map.get\<close> is \<^const>\<open>map_of\<close>.
  \<^item> A \<open>Set\<close> is a duplicate-free list in insertion order.
  \<^item> \<open>bigint\<close> is \<^typ>\<open>int\<close>; its \<open>/\<close> truncates towards zero (\<open>bdiv\<close>) and \<open>%\<close> takes
    the sign of the dividend (\<open>bmod\<close>). Division by \<open>0n\<close> throws: it is \<^const>\<open>None\<close> in the functions
    that return an option (\<open>checked_bdiv\<close>) and \<^const>\<open>undefined\<close> elsewhere, so that a bound on a
    quotient can only be proved where the divisor is not zero.
  \<^item> An exception that leaves a function is \<^const>\<open>None\<close> of an \<open>option\<close> result, or \<open>Inl\<close> of a
    sum where the code's error text matters.
\<close>

named_theorems js_simps "evaluation rules of the JavaScript library model"

section \<open>Insertion-ordered maps\<close>

type_synonym ('k, 'v) jsmap = "('k \<times> 'v) list"

abbreviation map_set :: "'k \<Rightarrow> 'v \<Rightarrow> ('k, 'v) jsmap \<Rightarrow> ('k, 'v) jsmap" where
  "map_set \<equiv> AList.update"

abbreviation map_keys :: "('k, 'v) jsmap \<Rightarrow> 'k list" where
  "map_keys m \<equiv> map fst m"

definition map_has :: "('k, 'v) jsmap \<Rightarrow> 'k \<Rightarrow> bool" where
  "map_has m k \<longleftrightarrow> k \<in> fst ` set m"

definition map_delete :: "'k \<Rightarrow> ('k, 'v) jsmap \<Rightarrow> ('k, 'v) jsmap" where
  "map_delete k m = filter (\<lambda>p. fst p \<noteq> k) m"

abbreviation map_wf :: "('k, 'v) jsmap \<Rightarrow> bool" where
  "map_wf m \<equiv> distinct (map fst m)"

lemma map_get_set [simp]: "map_of (map_set k v m) k' = (if k' = k then Some v else map_of m k')"
  by (simp add: update_conv')

lemma map_has_iff: "map_has m k \<longleftrightarrow> map_of m k \<noteq> None"
  by (auto simp: map_has_def map_of_eq_None_iff)

lemma map_has_set [simp]: "map_has (map_set k v m) k' \<longleftrightarrow> k' = k \<or> map_has m k'"
  by (auto simp: map_has_def dom_update)

lemma map_has_Nil [simp]: "\<not> map_has [] k"
  by (simp add: map_has_def)

lemma map_has_Cons [simp]: "map_has (p # m) k \<longleftrightarrow> fst p = k \<or> map_has m k"
  by (auto simp: map_has_def)

lemma map_get_delete [simp]: "map_of (map_delete k m) k' = (if k' = k then None else map_of m k')"
  by (induction m) (auto simp: map_delete_def)

lemma map_wf_set [simp]: "map_wf m \<Longrightarrow> map_wf (map_set k v m)"
  by (rule distinct_update)

lemma map_wf_delete [simp]: "map_wf m \<Longrightarrow> map_wf (map_delete k m)"
  unfolding map_delete_def by (rule distinct_map_filter)

lemma map_set_keys_set [simp]: "set (map_keys (map_set k v m)) = insert k (set (map_keys m))"
  by (auto simp: dom_update)

lemma map_set_keys_image [simp]: "fst ` set (map_set k v m) = insert k (fst ` set m)"
  by (simp add: dom_update)

lemma map_set_entries: "set (map_set k v m) \<subseteq> insert (k, v) (set m)"
  by (induction m) auto

lemma map_set_new: "\<not> map_has m k \<Longrightarrow> map_set k v m = m @ [(k, v)]"
  by (induction m) auto

lemma map_of_in_set: "map_of m k = Some v \<Longrightarrow> (k, v) \<in> set m"
  by (rule map_of_SomeD)

section \<open>Insertion-ordered sets\<close>

definition set_add :: "'a \<Rightarrow> 'a list \<Rightarrow> 'a list" where
  "set_add x xs = (if x \<in> set xs then xs else xs @ [x])"

text \<open>\<open>[...new Set(xs)]\<close>: the first occurrence of each element, in order.\<close>

definition js_unique :: "'a list \<Rightarrow> 'a list" where
  "js_unique xs = foldl (\<lambda>acc x. set_add x acc) [] xs"

lemma set_set_add [simp]: "set (set_add x xs) = insert x (set xs)"
  by (auto simp: set_add_def)

lemma distinct_set_add [simp]: "distinct xs \<Longrightarrow> distinct (set_add x xs)"
  by (simp add: set_add_def)

lemma foldl_set_add:
  "set (foldl (\<lambda>acc x. set_add x acc) acc xs) = set acc \<union> set xs"
  "distinct acc \<Longrightarrow> distinct (foldl (\<lambda>acc x. set_add x acc) acc xs)"
  by (induction xs arbitrary: acc) auto

lemma set_js_unique [simp]: "set (js_unique xs) = set xs"
  by (simp add: js_unique_def foldl_set_add)

lemma distinct_js_unique [simp]: "distinct (js_unique xs)"
  by (simp add: js_unique_def foldl_set_add)

section \<open>Sorting with a comparator\<close>

text \<open>
  \<open>Array.prototype.sort\<close> is stable, so for a comparator that is a total preorder its result is
  the one stable insertion sort computes. The comparator is translated literally as an
  integer-valued function (negative: the first argument goes first).
\<close>

fun insert_cmp :: "('a \<Rightarrow> 'a \<Rightarrow> int) \<Rightarrow> 'a \<Rightarrow> 'a list \<Rightarrow> 'a list" where
  "insert_cmp cmp x [] = [x]"
| "insert_cmp cmp x (y # ys) = (if cmp x y \<le> 0 then x # y # ys else y # insert_cmp cmp x ys)"

fun sort_cmp :: "('a \<Rightarrow> 'a \<Rightarrow> int) \<Rightarrow> 'a list \<Rightarrow> 'a list" where
  "sort_cmp cmp [] = []"
| "sort_cmp cmp (x # xs) = insert_cmp cmp x (sort_cmp cmp xs)"

lemma mset_insert_cmp [simp]: "mset (insert_cmp cmp x xs) = add_mset x (mset xs)"
  by (induction xs) auto

lemma mset_sort_cmp [simp]: "mset (sort_cmp cmp xs) = mset xs"
  by (induction xs) auto

lemma set_sort_cmp [simp]: "set (sort_cmp cmp xs) = set xs"
  by (metis mset_sort_cmp set_mset_mset)

lemma set_insert_cmp [simp]: "set (insert_cmp cmp x xs) = insert x (set xs)"
  by (induction xs) auto

lemma length_sort_cmp [simp]: "length (sort_cmp cmp xs) = length xs"
  by (metis mset_sort_cmp size_mset)

lemma sort_cmp_Nil_iff [simp]: "sort_cmp cmp xs = [] \<longleftrightarrow> xs = []"
  by (metis length_0_conv length_sort_cmp)

text \<open>The contract \<open>Array.sort\<close> asks of a comparator, and what the sort then promises.\<close>

locale js_comparator =
  fixes cmp :: "'a \<Rightarrow> 'a \<Rightarrow> int"
  assumes cmp_total: "cmp x y \<le> 0 \<or> cmp y x \<le> 0"
    and cmp_trans: "cmp x y \<le> 0 \<Longrightarrow> cmp y z \<le> 0 \<Longrightarrow> cmp x z \<le> 0"
begin

abbreviation le :: "'a \<Rightarrow> 'a \<Rightarrow> bool" where
  "le x y \<equiv> cmp x y \<le> 0"

lemma sorted_insert: "sorted_wrt le xs \<Longrightarrow> sorted_wrt le (insert_cmp cmp x xs)"
proof (induction xs)
  case Nil
  then show ?case by simp
next
  case (Cons y ys)
  show ?case
  proof (cases "cmp x y \<le> 0")
    case True
    with Cons.prems show ?thesis by (auto intro: cmp_trans)
  next
    case False
    then have "cmp y x \<le> 0" using cmp_total by blast
    with False Cons show ?thesis by auto
  qed
qed

lemma sorted_sort: "sorted_wrt le (sort_cmp cmp xs)"
  by (induction xs) (auto intro: sorted_insert)

lemma sort_head_least:
  assumes "sort_cmp cmp xs = y # ys" and "x \<in> set xs"
  shows "cmp y x \<le> 0"
proof -
  have s: "sorted_wrt le (y # ys)" using sorted_sort [of xs] assms(1) by simp
  have "x \<in> set (y # ys)" using assms set_sort_cmp [of cmp xs] by simp
  moreover have "cmp y y \<le> 0" using cmp_total by blast
  ultimately show ?thesis using s by auto
qed

lemma insert_front: "\<forall>y \<in> set ys. cmp x y \<le> 0 \<Longrightarrow> insert_cmp cmp x ys = x # ys"
  by (cases ys) auto

lemma sort_sorted: "sorted_wrt le xs \<Longrightarrow> sort_cmp cmp xs = xs"
  by (induction xs) (auto intro: insert_front)

end

text \<open>\<open>(a, b) => key(a) - key(b)\<close>, the comparator of a numeric key.\<close>

definition cmp_by :: "('a \<Rightarrow> int) \<Rightarrow> 'a \<Rightarrow> 'a \<Rightarrow> int" where
  "cmp_by f x y = f x - f y"

interpretation cmp_by: js_comparator "cmp_by f" for f :: "'a \<Rightarrow> int"
  by unfold_locales (auto simp: cmp_by_def)

text \<open>\<open>c1 || c2\<close>: the second comparator decides where the first says the arguments are equal.\<close>

definition cmp_or :: "('a \<Rightarrow> 'a \<Rightarrow> int) \<Rightarrow> ('a \<Rightarrow> 'a \<Rightarrow> int) \<Rightarrow> 'a \<Rightarrow> 'a \<Rightarrow> int" where
  "cmp_or c1 c2 x y = (if c1 x y \<noteq> 0 then c1 x y else c2 x y)"

section \<open>Big integers\<close>

definition bdiv :: "int \<Rightarrow> int \<Rightarrow> int" where
  "bdiv a b = (if b = 0 then undefined a else sgn a * sgn b * (\<bar>a\<bar> div \<bar>b\<bar>))"

definition bmod :: "int \<Rightarrow> int \<Rightarrow> int" where
  "bmod a b = (if b = 0 then undefined a else a - bdiv a b * b)"

text \<open>
  The quotient where the caller returns an option: \<^const>\<open>None\<close> is the \<open>RangeError\<close> that the
  program's division throws at zero.
\<close>

definition checked_bdiv :: "int \<Rightarrow> int \<Rightarrow> int option" where
  "checked_bdiv a b = (if b = 0 then None else Some (bdiv a b))"

lemma checked_bdiv_simps [simp]:
  "b \<noteq> 0 \<Longrightarrow> checked_bdiv a b = Some (bdiv a b)"
  "checked_bdiv a 0 = None"
  by (simp_all add: checked_bdiv_def)

lemma bdiv_nonneg_eq: "0 \<le> a \<Longrightarrow> 0 < b \<Longrightarrow> bdiv a b = a div b"
  by (cases "a = 0") (auto simp: bdiv_def)

lemma bdiv_nonneg [simp]: "0 \<le> a \<Longrightarrow> 0 < b \<Longrightarrow> 0 \<le> bdiv a b"
  by (auto simp: bdiv_nonneg_eq pos_imp_zdiv_nonneg_iff)

lemma bdiv_nonneg_guarded [simp]: "0 \<le> a \<Longrightarrow> 0 \<le> b \<Longrightarrow> b \<noteq> 0 \<Longrightarrow> 0 \<le> bdiv a b"
  by (rule bdiv_nonneg) auto

lemma bmod_nonneg_eq: "0 \<le> a \<Longrightarrow> 0 < b \<Longrightarrow> bmod a b = a mod b"
  by (simp add: bmod_def bdiv_nonneg_eq minus_div_mult_eq_mod)

lemma bdiv_0 [simp]: "b \<noteq> 0 \<Longrightarrow> bdiv 0 b = 0"
  by (simp add: bdiv_def)

definition min_bigint :: "int \<Rightarrow> int \<Rightarrow> int" where
  "min_bigint l r = (if l < r then l else r)"

definition max_bigint :: "int \<Rightarrow> int \<Rightarrow> int" where
  "max_bigint l r = (if l > r then l else r)"

lemma min_bigint_eq [simp]: "min_bigint l r = min l r"
  by (simp add: min_bigint_def min_def)

lemma max_bigint_eq [simp]: "max_bigint l r = max l r"
  by (simp add: max_bigint_def max_def)

text \<open>\<open>Number.isSafeInteger\<close> on a whole number.\<close>

definition MAX_SAFE_INTEGER :: int where
  "MAX_SAFE_INTEGER = 9007199254740991"

definition is_safe_integer :: "int \<Rightarrow> bool" where
  "is_safe_integer n \<longleftrightarrow> \<bar>n\<bar> \<le> MAX_SAFE_INTEGER"

section \<open>Sums over lists of big integers\<close>

lemma sum_list_nonneg_int: "\<forall>x \<in> set xs. 0 \<le> x \<Longrightarrow> 0 \<le> sum_list (xs :: int list)"
  by (induction xs) auto

lemma foldl_add_conv: "foldl (\<lambda>acc x. acc + f x) (a :: int) xs = a + sum_list (map f xs)"
  by (induction xs arbitrary: a) auto

end
