(* ===== verification/Chain_Time.thy ===== *)
theory Chain_Time
  imports Prelude
begin

text \<open>
  \<^verbatim>\<open>src/util/chainTimeCadence.ts\<close>: periodic work clocked by the chain's own timestamps. The
  module has two shapes, an elapsed-time stopwatch and an absolute grid; the second must fire
  on the same blocks for every worker, which is what the lemmas here establish. The grid is also
  the interface the money-market cadence relies on, stated as the locale \<open>chain_clock\<close>.

  A timestamp of type \<open>number | null | undefined\<close> is a \<open>js_num option\<close>; a finite timestamp is a
  whole number of milliseconds. \<open>Math.floor(a / b)\<close> is exact there (the quotient of two integers
  below \<open>2\<^sup>5\<^sup>3\<close> never rounds up to an integer), so it is \<open>a div b\<close>.
\<close>

datatype js_num = Num int | NaN | Infinity

definition is_finite_num :: "js_num \<Rightarrow> bool" where
  "is_finite_num n = (case n of Num _ \<Rightarrow> True | _ \<Rightarrow> False)"

fun num_val :: "js_num \<Rightarrow> int" where
  "num_val (Num n) = n"
| "num_val NaN = 0"
| "num_val Infinity = 0"

definition MS_PER_MINUTE :: int where
  "MS_PER_MINUTE = 60000"

text \<open>The stopwatch. \<open>lastRun\<close> is only ever set to a finite block timestamp.\<close>

definition shouldRunOnElapsedChainTime :: "int option \<Rightarrow> js_num option \<Rightarrow> int \<Rightarrow> bool" where
  "shouldRunOnElapsedChainTime lastRun block interval =
     (case lastRun of None \<Rightarrow> True
      | Some l \<Rightarrow>
          (case block of None \<Rightarrow> False
           | Some b \<Rightarrow> if \<not> is_finite_num b then False else num_val b - l \<ge> interval))"

definition crossedChainTimeBoundary :: "js_num option \<Rightarrow> js_num option \<Rightarrow> int \<Rightarrow> bool" where
  "crossedChainTimeBoundary previous block interval =
     (case (previous, block) of
        (Some p, Some b) \<Rightarrow>
          if \<not> is_finite_num p \<or> \<not> is_finite_num b then False
          else if interval \<le> 0 then False
          else if num_val b \<le> num_val p then False
          else num_val b div interval \<noteq> num_val p div interval
      | _ \<Rightarrow> False)"

lemma crossed_Num:
  "crossedChainTimeBoundary (Some (Num p)) (Some (Num b)) i \<longleftrightarrow> 0 < i \<and> p < b \<and> b div i \<noteq> p div i"
  by (auto simp: crossedChainTimeBoundary_def is_finite_num_def)

lemma crossed_NumE:
  assumes "crossedChainTimeBoundary previous block i"
  obtains p b where "previous = Some (Num p)" and "block = Some (Num b)" and "0 < i" and "p < b"
  using assms
  by (auto simp: crossedChainTimeBoundary_def is_finite_num_def split: option.splits js_num.splits if_splits)

lemma div_between:
  fixes p b i :: int
  assumes "0 < i" and "p < b"
  shows "b div i \<noteq> p div i \<longleftrightarrow> (\<exists>m. p < m * i \<and> m * i \<le> b)"
proof
  assume "b div i \<noteq> p div i"
  then have "p div i < b div i" using zdiv_mono1 [of p b i] assms by simp
  moreover have "p < (p div i + 1) * i" using assms(1)
    by (metis add.commute add_diff_cancel_left' distrib_right div_mult_mod_eq less_diff_eq
        mult_1 pos_mod_bound add_less_cancel_left)
  moreover have "(b div i) * i \<le> b" using assms(1)
    by (metis div_mult_mod_eq le_add_same_cancel1 pos_mod_sign)
  ultimately have "p < (b div i) * i" using assms(1)
    by (meson less_le_trans mult_right_mono zless_imp_add1_zle less_imp_le)
  with \<open>(b div i) * i \<le> b\<close> show "\<exists>m. p < m * i \<and> m * i \<le> b" by blast
next
  assume "\<exists>m. p < m * i \<and> m * i \<le> b"
  then obtain m where m: "p < m * i" "m * i \<le> b" by blast
  have "m \<le> b div i" using zdiv_mono1 [OF m(2), of i] assms(1) by simp
  moreover have "p div i < m"
  proof (rule ccontr)
    assume "\<not> p div i < m"
    then have "m * i \<le> (p div i) * i" using assms(1) by (simp add: mult_right_mono)
    also have "\<dots> \<le> p" using assms(1) by (metis div_mult_mod_eq le_add_same_cancel1 pos_mod_sign)
    finally show False using m(1) by simp
  qed
  ultimately show "b div i \<noteq> p div i" by simp
qed

text \<open>
  The contract the cadence planner relies on: a clock says whether a multiple of the interval lies
  in the half-open span between two blocks' timestamps, and stays silent when it cannot know.
\<close>

locale chain_clock =
  fixes crossed :: "js_num option \<Rightarrow> js_num option \<Rightarrow> int \<Rightarrow> bool"
  assumes crossed_iff: "crossed (Some (Num p)) (Some (Num b)) i \<longleftrightarrow>
      0 < i \<and> p < b \<and> (\<exists>m. p < m * i \<and> m * i \<le> b)"
    and crossed_known: "crossed x y i \<Longrightarrow> \<exists>p b. x = Some (Num p) \<and> y = Some (Num b)"
begin

lemma no_previous [simp]: "\<not> crossed None y i"
  using crossed_known by blast

lemma no_current [simp]: "\<not> crossed x None i"
  using crossed_known by blast

lemma nonpositive_interval: "i \<le> 0 \<Longrightarrow> \<not> crossed x y i"
  by (metis crossed_iff crossed_known linorder_not_less)

text \<open>Splitting a span at any block between: the span fires exactly when one of its parts does.\<close>

lemma split_span:
  assumes "p < q" and "q < b"
  shows "crossed (Some (Num p)) (Some (Num b)) i \<longleftrightarrow>
    crossed (Some (Num p)) (Some (Num q)) i \<or> crossed (Some (Num q)) (Some (Num b)) i"
  using assms unfolding crossed_iff by (meson leI less_le_trans less_trans less_imp_le order_trans)

text \<open>The finer of two nested grids fires wherever the coarser one does.\<close>

lemma nested_grid:
  assumes "crossed x y (k * i)" and "0 < k" and "0 < i"
  shows "crossed x y i"
proof -
  obtain p b where xy: "x = Some (Num p)" "y = Some (Num b)" using crossed_known assms(1) by blast
  with assms(1) obtain m where "p < m * (k * i)" "m * (k * i) \<le> b" "p < b"
    unfolding xy crossed_iff by blast
  then have "p < (m * k) * i \<and> (m * k) * i \<le> b" by (simp add: mult.assoc)
  with \<open>p < b\<close> assms(3) show ?thesis unfolding xy crossed_iff by blast
qed

end

interpretation grid: chain_clock crossedChainTimeBoundary
proof
  show "crossedChainTimeBoundary (Some (Num p)) (Some (Num b)) i \<longleftrightarrow>
      0 < i \<and> p < b \<and> (\<exists>m. p < m * i \<and> m * i \<le> b)" for p b i
    using div_between [of i p b] by (auto simp: crossed_Num)
  show "crossedChainTimeBoundary x y i \<Longrightarrow> \<exists>p b. x = Some (Num p) \<and> y = Some (Num b)" for x y i
    by (auto elim: crossed_NumE)
qed

section \<open>A worker's run over consecutive blocks\<close>

text \<open>Indices \<open>k + 1\<close> of the blocks of a run at which the grid fires.\<close>

definition fires_at :: "int \<Rightarrow> int list \<Rightarrow> nat \<Rightarrow> bool" where
  "fires_at i ts k \<longleftrightarrow> Suc k < length ts \<and>
     crossedChainTimeBoundary (Some (Num (ts ! k))) (Some (Num (ts ! Suc k))) i"

lemma increasing_nth_mono:
  "sorted_wrt (<) (ts :: int list) \<Longrightarrow> j < k \<Longrightarrow> k < length ts \<Longrightarrow> ts ! Suc j \<le> ts ! k"
  by (cases "Suc j = k") (auto simp: sorted_wrt_iff_nth_less intro: less_imp_le)

lemma boundary_pair_unique:
  fixes x :: int
  assumes "sorted_wrt (<) ts" and "Suc j < length ts" and "Suc k < length ts"
    and "ts ! j < x" and "x \<le> ts ! Suc j" and "ts ! k < x" and "x \<le> ts ! Suc k"
  shows "j = k"
proof (rule linorder_cases [of j k])
  assume "j < k"
  then have "ts ! Suc j \<le> ts ! k" using increasing_nth_mono [OF assms(1)] assms(3) by simp
  with assms show ?thesis by simp
next
  assume "k < j"
  then have "ts ! Suc k \<le> ts ! j" using increasing_nth_mono [OF assms(1)] assms(2) by simp
  with assms show ?thesis by simp
qed

lemma boundary_pair_exists:
  fixes x :: int
  assumes "ts \<noteq> []" and "hd ts < x" and "x \<le> last ts"
  shows "\<exists>k. Suc k < length ts \<and> ts ! k < x \<and> x \<le> ts ! Suc k"
  using assms
proof (induction ts)
  case Nil
  then show ?case by simp
next
  case (Cons t ts)
  then have ne: "ts \<noteq> []" by auto
  show ?case
  proof (cases "hd ts < x")
    case True
    with Cons ne obtain k where "Suc k < length ts \<and> ts ! k < x \<and> x \<le> ts ! Suc k" by auto
    then show ?thesis by (intro exI [of _ "Suc k"]) simp
  next
    case False
    with Cons.prems ne show ?thesis by (intro exI [of _ 0]) (auto simp: hd_conv_nth)
  qed
qed

text \<open>Every grid boundary inside a run of blocks with increasing timestamps is answered by
  exactly one block, and that block fires: however the run is split between workers, a boundary
  is neither lost nor served twice.\<close>

lemma every_boundary_fires_once:
  assumes "sorted_wrt (<) ts" and "ts \<noteq> []" and "0 < i"
    and "hd ts < m * i" and "m * i \<le> last ts"
  shows "\<exists>!k. fires_at i ts k \<and> ts ! k < m * i \<and> m * i \<le> ts ! Suc k"
proof -
  obtain k where k: "Suc k < length ts" "ts ! k < m * i" "m * i \<le> ts ! Suc k"
    using boundary_pair_exists [OF assms(2,4,5)] by blast
  then have "fires_at i ts k" using assms(3) unfolding fires_at_def grid.crossed_iff by auto
  with k show ?thesis
    using boundary_pair_unique [OF assms(1)] unfolding fires_at_def by blast
qed

end
