(* ===== verification/Batching.thy ===== *)
theory Batching
  imports Prelude
begin

text \<open>
  How work is cut into pieces: \<^verbatim>\<open>src/util/collections.ts\<close> (\<open>chunk\<close>) and
  \<^verbatim>\<open>src/store/batch.ts\<close> (the insert buffer).
\<close>

section \<open>Slices and chunks\<close>

text \<open>\<open>xs.slice(a, b)\<close>: a negative bound counts from the end, both are clamped to the array.\<close>

definition slice_bound :: "nat \<Rightarrow> int \<Rightarrow> nat" where
  "slice_bound n a = nat (if a < 0 then max (int n + a) 0 else min a (int n))"

definition js_slice :: "'a list \<Rightarrow> int \<Rightarrow> int \<Rightarrow> 'a list" where
  "js_slice xs a b =
     (let f = slice_bound (length xs) a; t = slice_bound (length xs) b in take (t - f) (drop f xs))"

lemma js_slice_nonneg:
  assumes "0 \<le> a" and "0 \<le> k"
  shows "js_slice xs a (a + k) = take (nat k) (drop (nat a) xs)"
proof -
  have f: "slice_bound (length xs) a = min (nat a) (length xs)"
    using assms by (simp add: slice_bound_def)
  have t: "slice_bound (length xs) (a + k) = min (nat a + nat k) (length xs)"
    using assms by (simp add: slice_bound_def nat_add_distrib)
  show ?thesis unfolding js_slice_def Let_def f t
    by (cases "nat a \<le> length xs") (auto simp: min_def)
qed

text \<open>
  The \<open>for\<close> loop of \<open>chunk\<close> and \<open>chunkRows\<close>; \<^const>\<open>None\<close> is a loop that never ends (a step of
  zero or less on a non-empty array).
\<close>

partial_function (option) chunk_from :: "'a list \<Rightarrow> int \<Rightarrow> int \<Rightarrow> 'a list list option" where
  "chunk_from items sz index =
     (if index < int (length items)
      then Option.bind (chunk_from items sz (index + sz))
             (\<lambda>rest. Some (js_slice items index (index + sz) # rest))
      else Some [])"

definition chunk :: "'a list \<Rightarrow> int \<Rightarrow> 'a list list option" where
  "chunk items sz = chunk_from items sz 0"

fun slices :: "nat \<Rightarrow> 'a list \<Rightarrow> 'a list list" where
  "slices n [] = []"
| "slices n (x # xs) = (if n = 0 then [] else take n (x # xs) # slices n (drop n (x # xs)))"

lemma chunk_from_slices:
  assumes "0 < sz" and "0 \<le> index"
  shows "chunk_from items sz index = Some (slices (nat sz) (drop (nat index) items))"
  using assms(2)
proof (induction "nat (int (length items) - index)" arbitrary: index rule: less_induct)
  case less
  show ?case
  proof (cases "index < int (length items)")
    case True
    have rec: "chunk_from items sz (index + sz) =
        Some (slices (nat sz) (drop (nat (index + sz)) items))"
      using True less.prems assms(1) by (intro less.hyps) auto
    from True less.prems obtain x xs where d: "drop (nat index) items = x # xs"
      by (metis drop_eq_Nil2 list.exhaust nat_less_iff not_le)
    have "drop (nat (index + sz)) items = drop (nat sz) (x # xs)"
      using less.prems assms(1) by (simp add: nat_add_distrib add.commute flip: d)
    then show ?thesis
      using True rec d less.prems assms(1) js_slice_nonneg [of index sz items]
      by (simp add: chunk_from.simps [of items sz index])
  next
    case False
    then show ?thesis by (simp add: chunk_from.simps [of items sz index])
  qed
qed

lemma concat_slices: "0 < n \<Longrightarrow> concat (slices n xs) = xs"
  by (induction n xs rule: slices.induct) (auto simp del: take_Cons drop_Cons append_take_drop_id
      simp add: append_take_drop_id)

lemma slices_bounds: "c \<in> set (slices n xs) \<Longrightarrow> c \<noteq> [] \<and> length c \<le> n"
  by (induction n xs rule: slices.induct) (auto split: if_splits)

text \<open>A step of zero or less on a non-empty array is the loop that never ends.\<close>

lemma chunk_from_diverges:
  assumes ret: "chunk_from items sz index = Some cs" and "sz \<le> 0"
  shows "\<not> index < int (length items)"
proof -
  have "sz \<le> 0 \<longrightarrow> \<not> index < int (length items)"
  proof (rule chunk_from.raw_induct
      [where P = "\<lambda>items sz index cs. sz \<le> 0 \<longrightarrow> \<not> index < int (length items)", OF _ ret])
    fix f :: "'a list \<Rightarrow> int \<Rightarrow> int \<Rightarrow> 'a list list option" and items sz index cs
    assume IH: "\<And>items sz index cs. f items sz index = Some cs \<Longrightarrow>
        sz \<le> 0 \<longrightarrow> \<not> index < int (length items)"
      and eq: "(if index < int (length items)
        then Option.bind (f items sz (index + sz)) (\<lambda>rest. Some (js_slice items index (index + sz) # rest))
        else Some []) = Some cs"
    show "sz \<le> 0 \<longrightarrow> \<not> index < int (length items)"
    proof (cases "index < int (length items)")
      case True
      with eq obtain rest where "f items sz (index + sz) = Some rest"
        by (auto simp: Option.bind_eq_Some_conv)
      from IH [OF this] True show ?thesis by auto
    qed simp
  qed
  with assms(2) show ?thesis by blast
qed

lemma chunk_diverges: "sz \<le> 0 \<Longrightarrow> items \<noteq> [] \<Longrightarrow> chunk items sz = None"
  using chunk_from_diverges [of items sz 0] unfolding chunk_def
  by (metis length_greater_0_conv not_None_eq of_nat_0_less_iff)

text \<open>\<open>chunk\<close> with a positive size returns, its pieces concatenate to the input, and every
  piece is non-empty and no longer than the size.\<close>

lemma chunk_partitions:
  assumes "0 < sz"
  shows "\<exists>cs. chunk items sz = Some cs \<and> concat cs = items
    \<and> (\<forall>c \<in> set cs. c \<noteq> [] \<and> int (length c) \<le> sz)"
  using assms chunk_from_slices [of sz 0 items] concat_slices [of "nat sz" items]
  by (auto simp: chunk_def dest: slices_bounds)

section \<open>The insert buffer\<close>

datatype range_error = RangeError

definition assertPositiveChunkSize :: "int \<Rightarrow> range_error + unit" where
  "assertPositiveChunkSize n = (if \<not> is_safe_integer n \<or> n \<le> 0 then Inl RangeError else Inr ())"

definition chunkRows :: "'a list \<Rightarrow> int \<Rightarrow> range_error + 'a list list option" where
  "chunkRows rows sz =
     (case assertPositiveChunkSize sz of Inl e \<Rightarrow> Inl e | Inr _ \<Rightarrow> Inr (chunk_from rows sz 0))"

record 'a batch_accumulator =
  buffer :: "'a list"
  flushThreshold :: int

definition new_batch :: "int \<Rightarrow> range_error + 'a batch_accumulator" where
  "new_batch threshold =
     (case assertPositiveChunkSize threshold of Inl e \<Rightarrow> Inl e
      | Inr _ \<Rightarrow> Inr \<lparr>buffer = [], flushThreshold = threshold\<rparr>)"

definition batch_add :: "'a list \<Rightarrow> 'a batch_accumulator \<Rightarrow> 'a batch_accumulator" where
  "batch_add rows b = b\<lparr>buffer := foldl (\<lambda>buf row. buf @ [row]) (buffer b) rows\<rparr>"

definition batch_flush :: "'a batch_accumulator \<Rightarrow> 'a list \<times> 'a batch_accumulator" where
  "batch_flush b = (buffer b, b\<lparr>buffer := []\<rparr>)"

definition batch_flushChunks ::
  "'a batch_accumulator \<Rightarrow> (range_error + 'a list list option) \<times> 'a batch_accumulator" where
  "batch_flushChunks b = (let (rows, b') = batch_flush b in (chunkRows rows (flushThreshold b), b'))"

definition batch_size :: "'a batch_accumulator \<Rightarrow> nat" where
  "batch_size b = length (buffer b)"

lemma batch_add_buffer: "buffer (batch_add rows b) = buffer b @ rows"
proof -
  have "foldl (\<lambda>buf row. buf @ [row]) acc rows = acc @ rows" for acc
    by (induction rows arbitrary: acc) auto
  then show ?thesis by (simp add: batch_add_def)
qed

lemma batch_add_threshold [simp]: "flushThreshold (batch_add rows b) = flushThreshold b"
  by (simp add: batch_add_def)

text \<open>The rows added since the last flush, in order.\<close>

definition batch_run :: "'a list list \<Rightarrow> 'a batch_accumulator \<Rightarrow> 'a batch_accumulator" where
  "batch_run adds b = foldl (\<lambda>b rows. batch_add rows b) b adds"

lemma batch_run_buffer: "buffer (batch_run adds b) = buffer b @ concat adds"
  "flushThreshold (batch_run adds b) = flushThreshold b"
  unfolding batch_run_def
  by (induction adds arbitrary: b) (auto simp: batch_add_buffer)

text \<open>Whatever is added to a fresh accumulator comes out of \<open>flushChunks\<close> exactly once and in
  order, in chunks no longer than the threshold, and leaves the buffer empty.\<close>

lemma batch_conserves_rows:
  assumes "new_batch threshold = Inr b"
  shows "\<exists>cs b'. batch_flushChunks (batch_run adds b) = (Inr (Some cs), b')
    \<and> concat cs = concat adds \<and> (\<forall>c \<in> set cs. int (length c) \<le> threshold) \<and> batch_size b' = 0"
proof -
  have t: "assertPositiveChunkSize threshold = Inr ()" "0 < threshold"
    and b: "b = \<lparr>buffer = [], flushThreshold = threshold\<rparr>"
    using assms by (auto simp: new_batch_def assertPositiveChunkSize_def split: if_splits)
  have "chunkRows (concat adds) threshold = Inr (Some (slices (nat threshold) (concat adds)))"
    using t chunk_from_slices [of threshold 0 "concat adds"] by (simp add: chunkRows_def)
  then show ?thesis
    using t concat_slices [of "nat threshold" "concat adds"]
    by (auto simp: batch_flushChunks_def batch_flush_def batch_run_buffer b batch_size_def
        dest: slices_bounds)
qed

end
