(* ===== verification/Worker_Pool.thy ===== *)
theory Worker_Pool
  imports Prelude
begin

text \<open>
  \<open>forEachConcurrent\<close> of \<^verbatim>\<open>src/util/collections.ts\<close>: a fixed number of asynchronous workers
  share one counter. A worker runs \<open>nextIndex++\<close>, returns when the index is past the end, and
  otherwise awaits the handler. JavaScript interleaves the workers only at an \<open>await\<close>, so one
  step of the relation is what a worker does between two awaits: take the next index and call the
  handler, or return; and the environment settles a pending handler, by success or by rejection
  (which ends that worker, as the exception leaves its loop).
\<close>

datatype worker = Ready | Handling nat | Done | Failed

record pool =
  nextIndex :: nat
  workers :: "worker list"
  handled :: "nat list"  \<comment> \<open>indices the handler was called with, in call order\<close>

definition workerCount :: "int \<Rightarrow> nat \<Rightarrow> nat" where
  "workerCount concurrency n = nat (min concurrency (int n))"

definition pool_start :: "int \<Rightarrow> nat \<Rightarrow> pool" where
  "pool_start concurrency n =
     \<lparr>nextIndex = 0, workers = replicate (workerCount concurrency n) Ready, handled = []\<rparr>"

inductive pool_step :: "nat \<Rightarrow> pool \<Rightarrow> pool \<Rightarrow> bool" for n :: nat where
  take_item: "i < length (workers s) \<Longrightarrow> workers s ! i = Ready \<Longrightarrow> nextIndex s < n \<Longrightarrow>
     pool_step n s (s\<lparr>nextIndex := Suc (nextIndex s), workers := (workers s)[i := Handling (nextIndex s)],
       handled := handled s @ [nextIndex s]\<rparr>)"
| no_more: "i < length (workers s) \<Longrightarrow> workers s ! i = Ready \<Longrightarrow> nextIndex s \<ge> n \<Longrightarrow>
     pool_step n s (s\<lparr>nextIndex := Suc (nextIndex s), workers := (workers s)[i := Done]\<rparr>)"
| settle: "i < length (workers s) \<Longrightarrow> workers s ! i = Handling k \<Longrightarrow>
     pool_step n s (s\<lparr>workers := (workers s)[i := Ready]\<rparr>)"
| reject: "i < length (workers s) \<Longrightarrow> workers s ! i = Handling k \<Longrightarrow>
     pool_step n s (s\<lparr>workers := (workers s)[i := Failed]\<rparr>)"

inductive pool_reachable :: "int \<Rightarrow> nat \<Rightarrow> pool \<Rightarrow> bool" for c :: int and n :: nat where
  start: "pool_reachable c n (pool_start c n)"
| step: "pool_reachable c n s \<Longrightarrow> pool_step n s t \<Longrightarrow> pool_reachable c n t"

inductive_cases pool_stepE: "pool_step n s t"

text \<open>The invariant: the indices handed out are exactly the counter's initial segment.\<close>

definition pool_inv :: "int \<Rightarrow> nat \<Rightarrow> pool \<Rightarrow> bool" where
  "pool_inv c n s \<longleftrightarrow> handled s = [0..<min (nextIndex s) n]
     \<and> length (workers s) = workerCount c n
     \<and> (\<forall>w \<in> set (workers s). w = Done \<longrightarrow> n \<le> nextIndex s)"

lemma pool_inv_start: "pool_inv c n (pool_start c n)"
  by (auto simp: pool_inv_def pool_start_def)

lemma pool_inv_step:
  assumes "pool_step n s t" and "pool_inv c n s"
  shows "pool_inv c n t"
  using assms
proof (cases rule: pool_step.cases)
  case (take_item i)
  then show ?thesis using assms(2)
    by (auto simp: pool_inv_def min_def dest: set_update_subset_insert [THEN subsetD])
next
  case (no_more i)
  then show ?thesis using assms(2)
    by (auto simp: pool_inv_def min_def)
next
  case (settle i k)
  then show ?thesis using assms(2)
    by (auto simp: pool_inv_def dest: set_update_subset_insert [THEN subsetD])
next
  case (reject i k)
  then show ?thesis using assms(2)
    by (auto simp: pool_inv_def dest: set_update_subset_insert [THEN subsetD])
qed

lemma pool_reachable_inv: "pool_reachable c n s \<Longrightarrow> pool_inv c n s"
  by (induction rule: pool_reachable.induct) (auto intro: pool_inv_start pool_inv_step)

text \<open>Every step uses up some of a finite budget, whatever the interleaving.\<close>

fun worker_work :: "worker \<Rightarrow> nat" where
  "worker_work Ready = 1"
| "worker_work (Handling k) = 2"
| "worker_work Done = 0"
| "worker_work Failed = 0"

definition pool_work :: "nat \<Rightarrow> pool \<Rightarrow> nat" where
  "pool_work n s = 2 * (n - nextIndex s) + sum_list (map worker_work (workers s))"

lemma work_update:
  assumes "i < length ws"
  shows "sum_list (map worker_work (ws[i := w])) + worker_work (ws ! i)
    = sum_list (map worker_work ws) + worker_work w"
  using assms
proof (induction ws arbitrary: i)
  case Nil
  then show ?case by simp
next
  case (Cons v vs)
  then show ?case by (cases i) auto
qed

lemma pool_step_work:
  assumes "pool_step n s t"
  shows "pool_work n t < pool_work n s"
  using assms
proof (cases rule: pool_step.cases)
  case (take_item i)
  then show ?thesis using work_update [of i "workers s" "Handling (nextIndex s)"]
    by (simp add: pool_work_def)
next
  case (no_more i)
  then show ?thesis using work_update [of i "workers s" Done] by (simp add: pool_work_def)
next
  case (settle i k)
  then show ?thesis using work_update [of i "workers s" Ready] by (simp add: pool_work_def)
next
  case (reject i k)
  then show ?thesis using work_update [of i "workers s" Failed] by (simp add: pool_work_def)
qed

text \<open>A state no step leaves has no worker waiting for anything.\<close>

lemma pool_stuck_workers:
  assumes "\<And>t. \<not> pool_step n s t" and "w \<in> set (workers s)"
  shows "w = Done \<or> w = Failed"
proof -
  obtain i where i: "i < length (workers s)" "workers s ! i = w"
    using assms(2) by (auto simp: in_set_conv_nth)
  show ?thesis
  proof (cases w)
    case Ready
    then show ?thesis using i assms(1) take_item [of i s n] no_more [of i s n] by (meson not_le)
  next
    case (Handling k)
    then show ?thesis using i assms(1) settle [of i s k n] by blast
  qed auto
qed

definition is_handling :: "worker \<Rightarrow> bool" where
  "is_handling w = (case w of Handling _ \<Rightarrow> True | _ \<Rightarrow> False)"

text \<open>The number of handlers that are pending at once.\<close>

definition pending :: "pool \<Rightarrow> nat" where
  "pending s = length (filter is_handling (workers s))"

lemma pending_bounded:
  assumes "pool_inv c n s"
  shows "pending s \<le> nat c \<and> pending s \<le> n"
proof -
  have "pending s \<le> workerCount c n"
    using assms length_filter_le [of is_handling "workers s"] by (simp add: pending_def pool_inv_def)
  then show ?thesis unfolding workerCount_def by linarith
qed

text \<open>C33: In every state of every interleaving of the workers the handler has been called at most once per item, in the
  order of the items, and no more handlers are pending than the given concurrency allows. Every interleaving is finite.
  When it stops with at least one worker that was not ended by a rejected handler, every item was handled exactly once.\<close>

theorem forEachConcurrent_each_once:
  assumes "pool_reachable c n s"
  shows "distinct (handled s) \<and> handled s = take (length (handled s)) [0..<n]
    \<and> pending s \<le> nat c
    \<and> (\<forall>t. pool_step n s t \<longrightarrow> pool_work n t < pool_work n s)
    \<and> ((\<forall>t. \<not> pool_step n s t) \<and> (\<exists>w \<in> set (workers s). w \<noteq> Failed) \<longrightarrow> handled s = [0..<n])"
proof -
  have inv: "handled s = [0..<min (nextIndex s) n]" "pending s \<le> nat c"
      "\<forall>w \<in> set (workers s). w = Done \<longrightarrow> n \<le> nextIndex s"
    using pool_reachable_inv [OF assms] pending_bounded by (auto simp: pool_inv_def)
  have "handled s = [0..<n]"
    if "\<forall>t. \<not> pool_step n s t" and "w \<in> set (workers s)" and "w \<noteq> Failed" for w
    using that inv pool_stuck_workers [of n s w] by (auto simp: min_def)
  then show ?thesis using inv pool_step_work by (auto simp: take_upt min_def)
qed

theorem forEachConcurrent_each_once_witness:
  "let s = \<lparr>nextIndex = 2, workers = [Done], handled = [0]\<rparr> in
   pool_reachable 4 1 s \<and> (\<forall>t. \<not> pool_step 1 s t) \<and> handled s = [0..<1]"
proof -
  let ?s0 = "pool_start 4 1"
  let ?s1 = "\<lparr>nextIndex = 1, workers = [Handling 0], handled = [0]\<rparr>"
  let ?s2 = "\<lparr>nextIndex = 1, workers = [Ready], handled = [0]\<rparr>"
  let ?s3 = "\<lparr>nextIndex = 2, workers = [Done], handled = [0]\<rparr>"
  have s0: "?s0 = \<lparr>nextIndex = 0, workers = [Ready], handled = []\<rparr>"
    by (simp add: pool_start_def workerCount_def)
  have "pool_step 1 ?s0 ?s1" unfolding s0
    using take_item [of 0 "\<lparr>nextIndex = 0, workers = [Ready], handled = []\<rparr>" 1] by simp
  moreover have "pool_step 1 ?s1 ?s2" using settle [of 0 ?s1 0 1] by simp
  moreover have "pool_step 1 ?s2 ?s3" using no_more [of 0 ?s2 1] by (simp add: numeral_2_eq_2)
  ultimately have r: "pool_reachable 4 1 ?s3" by (meson start step)
  moreover have st: "\<forall>t. \<not> pool_step 1 ?s3 t" by (auto elim: pool_stepE)
  ultimately show ?thesis using forEachConcurrent_each_once [OF r] by (auto simp: Let_def)
qed

end
