(* ===== verification/Js_Strings.thy ===== *)
theory Js_Strings
  imports Prelude "HOL-Library.List_Lexorder" "HOL-Library.Char_ord"
begin

text \<open>
  The string operations of the source, on ASCII strings as \<^typ>\<open>string\<close> (a character list):
  \<open>slice\<close>, \<open>padStart\<close>, \<open>padEnd\<close>, \<open>split\<close>, \<open>startsWith\<close>, \<open>toLowerCase\<close>, decimal and
  hexadecimal printing and parsing, and the fixed-point price strings with twelve decimals that
  the whole price pipeline stores. \<open>BigInt(s)\<close> is \<open>parse_bigint\<close>: \<^const>\<open>None\<close> is the
  \<open>SyntaxError\<close> it throws. It covers the strings the code passes to it: an optional sign and
  decimal digits, or the empty string, which is \<open>0n\<close>.
\<close>

section \<open>Slicing and padding\<close>

definition pad_start :: "nat \<Rightarrow> char \<Rightarrow> string \<Rightarrow> string" where
  "pad_start n c s = replicate (n - length s) c @ s"

definition pad_end :: "nat \<Rightarrow> char \<Rightarrow> string \<Rightarrow> string" where
  "pad_end n c s = s @ replicate (n - length s) c"

text \<open>\<open>s.slice(0, -n)\<close> and \<open>s.slice(-n)\<close> for a positive \<open>n\<close>.\<close>

definition drop_last :: "nat \<Rightarrow> string \<Rightarrow> string" where
  "drop_last n s = take (length s - n) s"

definition take_last :: "nat \<Rightarrow> string \<Rightarrow> string" where
  "take_last n s = drop (length s - n) s"

definition starts_with :: "string \<Rightarrow> string \<Rightarrow> bool" where
  "starts_with p s \<longleftrightarrow> take (length p) s = p"

fun split_on :: "char \<Rightarrow> string \<Rightarrow> string list" where
  "split_on c [] = [[]]"
| "split_on c (x # xs) =
     (if x = c then [] # split_on c xs
      else (case split_on c xs of [] \<Rightarrow> [[x]] | s # ss \<Rightarrow> (x # s) # ss))"

fun join_with :: "string \<Rightarrow> string list \<Rightarrow> string" where
  "join_with sep [] = []"
| "join_with sep [s] = s"
| "join_with sep (s # t # ss) = s @ sep @ join_with sep (t # ss)"

definition or_default :: "string \<Rightarrow> string \<Rightarrow> string" where
  "or_default s d = (if s = [] then d else s)"

lemma length_pad_start [simp]: "length (pad_start n c s) = max n (length s)"
  by (simp add: pad_start_def max_def)

lemma length_pad_end [simp]: "length (pad_end n c s) = max n (length s)"
  by (simp add: pad_end_def max_def)

lemma drop_take_last [simp]: "drop_last n s @ take_last n s = s"
  by (simp add: drop_last_def take_last_def)

lemma length_take_last [simp]: "length (take_last n s) = min n (length s)"
  by (simp add: take_last_def)

lemma length_drop_last [simp]: "length (drop_last n s) = length s - n"
  by (simp add: drop_last_def)

lemma set_drop_take_last:
  "set (drop_last n s) \<subseteq> set s" "set (take_last n s) \<subseteq> set s"
  by (auto simp: drop_last_def take_last_def dest: in_set_takeD in_set_dropD)

lemma split_on_none: "c \<notin> set s \<Longrightarrow> split_on c s = [s]"
  by (induction s) auto

lemma split_on_append:
  "c \<notin> set s \<Longrightarrow> c \<notin> set t \<Longrightarrow> split_on c (s @ c # t) = [s, t]"
  by (induction s) (auto simp: split_on_none)

section \<open>Case\<close>

definition lower_char :: "char \<Rightarrow> char" where
  "lower_char c = (let n = of_char c in if 65 \<le> n \<and> n \<le> 90 then char_of (n + 32 :: nat) else c)"

definition to_lower :: "string \<Rightarrow> string" where
  "to_lower = map lower_char"

lemma of_char_lower:
  "of_char (lower_char c) = (if 65 \<le> (of_char c :: nat) \<and> (of_char c :: nat) \<le> 90
     then of_char c + 32 else (of_char c :: nat))"
  by (auto simp: lower_char_def Let_def take_bit_eq_mod of_char_of)

lemma lower_char_idem [simp]: "lower_char (lower_char c) = lower_char c"
  unfolding lower_char_def [of "lower_char c"]
  by (auto simp: of_char_lower Let_def lower_char_def)

lemma to_lower_idem [simp]: "to_lower (to_lower s) = to_lower s"
  by (simp add: to_lower_def)

lemma length_to_lower [simp]: "length (to_lower s) = length s"
  by (simp add: to_lower_def)

lemma to_lower_append [simp]: "to_lower (s @ t) = to_lower s @ to_lower t"
  by (simp add: to_lower_def)

section \<open>Digits\<close>

definition digit_char :: "nat \<Rightarrow> char" where
  "digit_char d = char_of (if d < 10 then 48 + d else 87 + d)"

text \<open>The value of a decimal or hexadecimal digit (either case), or \<^const>\<open>None\<close>.\<close>

definition digit_val :: "char \<Rightarrow> nat option" where
  "digit_val c =
     (let n = of_char c in
      if 48 \<le> n \<and> n \<le> 57 then Some (n - 48)
      else if 97 \<le> n \<and> n \<le> 102 then Some (n - 87)
      else if 65 \<le> n \<and> n \<le> 70 then Some (n - 55)
      else None)"

definition is_dec_digit :: "char \<Rightarrow> bool" where
  "is_dec_digit c = (let n = of_char c in 48 \<le> n \<and> n \<le> (57 :: nat))"

definition is_hex_digit :: "char \<Rightarrow> bool" where
  "is_hex_digit c = (digit_val c \<noteq> None)"

lemma digit_val_digit_char [simp]: "d < 16 \<Longrightarrow> digit_val (digit_char d) = Some d"
  by (auto simp: digit_val_def digit_char_def Let_def of_char_of)

lemma is_dec_digit_char [simp]: "d < 10 \<Longrightarrow> is_dec_digit (digit_char d)"
  by (auto simp: is_dec_digit_def digit_char_def Let_def of_char_of)

lemma is_dec_digit_val: "is_dec_digit c \<Longrightarrow> \<exists>d < 10. digit_val c = Some d"
  by (auto simp: is_dec_digit_def digit_val_def Let_def)

lemma not_dec_digit_sep [simp]:
  "\<not> is_dec_digit (CHR ''.'')" "\<not> is_dec_digit (CHR ''-'')" "\<not> is_dec_digit (CHR ''|'')"
  "\<not> is_dec_digit (CHR '':'')" "\<not> is_dec_digit (CHR '','')" "\<not> is_dec_digit (CHR ''x'')"
  "\<not> is_dec_digit (CHR ''+'')"
  by (auto simp: is_dec_digit_def Let_def)

text \<open>Positional value in a base, most significant digit first.\<close>

fun digits_value :: "nat \<Rightarrow> nat \<Rightarrow> string \<Rightarrow> nat option" where
  "digits_value b acc [] = Some acc"
| "digits_value b acc (c # cs) =
     (case digit_val c of None \<Rightarrow> None
      | Some d \<Rightarrow> if d < b then digits_value b (b * acc + d) cs else None)"

lemma digits_value_append:
  "digits_value b acc (s @ t) = (case digits_value b acc s of None \<Rightarrow> None | Some v \<Rightarrow> digits_value b v t)"
  by (induction s arbitrary: acc) (auto split: option.split)

lemma digits_value_zeros [simp]: "1 < b \<Longrightarrow> digits_value b 0 (replicate k (CHR ''0'')) = Some 0"
  by (induction k) (auto simp: digit_val_def)

lemma digits_value_dec: "\<forall>c \<in> set s. is_dec_digit c \<Longrightarrow> \<exists>v. digits_value 10 acc s = Some v"
proof (induction s arbitrary: acc)
  case Nil
  then show ?case by simp
next
  case (Cons c cs)
  then obtain d where "d < 10" "digit_val c = Some d" using is_dec_digit_val by force
  with Cons show ?case by simp
qed

text \<open>\<open>n.toString(b)\<close>.\<close>

function nat_to_base :: "nat \<Rightarrow> nat \<Rightarrow> string" where
  "nat_to_base b n =
     (if n < b \<or> b < 2 then [digit_char n] else nat_to_base b (n div b) @ [digit_char (n mod b)])"
  by pat_completeness auto
termination
  by (relation "measure snd") auto

declare nat_to_base.simps [simp del]

abbreviation nat_to_string :: "nat \<Rightarrow> string" where
  "nat_to_string \<equiv> nat_to_base 10"

definition int_to_string :: "int \<Rightarrow> string" where
  "int_to_string i = (if i < 0 then CHR ''-'' # nat_to_string (nat (- i)) else nat_to_string (nat i))"

lemma digits_value_nat_to_base:
  "1 < b \<Longrightarrow> b \<le> 16 \<Longrightarrow> digits_value b 0 (nat_to_base b n) = Some n"
proof (induction b n rule: nat_to_base.induct)
  case (1 b n)
  show ?case
  proof (cases "n < b")
    case True
    with 1 show ?thesis by (subst nat_to_base.simps) simp
  next
    case False
    with 1 have "digits_value b 0 (nat_to_base b (n div b)) = Some (n div b)" by simp
    moreover have lt: "n mod b < b" using 1(2) by simp
    moreover have "n mod b < 16" using lt 1(3) by linarith
    ultimately show ?thesis using False 1(2,3)
      by (subst nat_to_base.simps) (simp add: digits_value_append)
  qed
qed

lemma nat_to_string_digits: "c \<in> set (nat_to_string n) \<Longrightarrow> is_dec_digit c"
proof (induction n rule: less_induct)
  case (less n)
  show ?case
  proof (cases "n < 10")
    case True
    with less.prems show ?thesis by (simp add: nat_to_base.simps [of 10 n])
  next
    case False
    with less.prems have "c \<in> set (nat_to_string (n div 10)) \<or> c = digit_char (n mod 10)"
      by (auto simp add: nat_to_base.simps [of 10 n])
    moreover have "n div 10 < n" using False by simp
    ultimately show ?thesis by (auto intro: less.IH)
  qed
qed

lemma nat_to_base_nonempty [simp]: "nat_to_base b n \<noteq> []"
  by (subst nat_to_base.simps) simp

lemma digits_value_nat_to_string [simp]: "digits_value 10 0 (nat_to_string n) = Some n"
  by (rule digits_value_nat_to_base) simp_all

lemma nat_to_string_inj: "nat_to_string m = nat_to_string n \<Longrightarrow> m = n"
  by (metis digits_value_nat_to_string option.inject)

section \<open>\<open>BigInt(s)\<close>\<close>

definition parse_dec :: "string \<Rightarrow> int option" where
  "parse_dec s = map_option int (digits_value 10 0 s)"

definition parse_bigint :: "string \<Rightarrow> int option" where
  "parse_bigint s =
     (if s = [] then Some 0
      else if hd s = CHR ''-'' then (if tl s = [] then None else map_option uminus (parse_dec (tl s)))
      else if hd s = CHR ''+'' then (if tl s = [] then None else parse_dec (tl s))
      else parse_dec s)"

lemma parse_bigint_digits:
  assumes "\<forall>c \<in> set s. is_dec_digit c"
  shows "parse_bigint s = map_option int (digits_value 10 0 s)"
proof (cases s)
  case Nil
  then show ?thesis by (simp add: parse_bigint_def)
next
  case (Cons c cs)
  with assms have "is_dec_digit c" by simp
  then have "c \<noteq> CHR ''-''" "c \<noteq> CHR ''+''" by auto
  with Cons show ?thesis by (simp add: parse_bigint_def parse_dec_def)
qed

lemma parse_bigint_digits_total:
  assumes "\<forall>c \<in> set s. is_dec_digit c"
  shows "\<exists>v \<ge> 0. parse_bigint s = Some v"
  using digits_value_dec [OF assms, of 0] parse_bigint_digits [OF assms] by auto

text \<open>Printing a \<open>bigint\<close> and reading it back is the identity.\<close>

lemma parse_bigint_int_to_string [simp]: "parse_bigint (int_to_string i) = Some i"
proof (cases "i < 0")
  case True
  then show ?thesis
    by (simp add: int_to_string_def parse_bigint_def parse_dec_def)
next
  case False
  have "parse_bigint (nat_to_string (nat i)) = Some (int (nat i))"
    by (subst parse_bigint_digits) (auto intro: nat_to_string_digits)
  with False show ?thesis by (simp add: int_to_string_def)
qed

lemma int_to_string_inj [simp]: "int_to_string i = int_to_string j \<longleftrightarrow> i = j"
  by (metis parse_bigint_int_to_string option.inject)

text \<open>Texts joined by a separator the first of them does not have are apart.\<close>

lemma sep_inj:
  assumes "c \<notin> set s" and "c \<notin> set s'" and "s @ c # t = s' @ c # t'"
  shows "s = s' \<and> t = t'"
  using assms
proof (induction s arbitrary: s')
  case Nil
  then show ?case by (cases s') auto
next
  case (Cons x xs)
  then show ?case by (cases s') auto
qed

lemma int_to_string_no_colon: "CHR '':'' \<notin> set (int_to_string i)"
proof -
  have "CHR '':'' \<notin> set (nat_to_string n)" for n
    using nat_to_string_digits [of "CHR '':''" n] by auto
  then show ?thesis by (simp add: int_to_string_def)
qed

end
