(* ===== verification/Ingest_Policy.thy ===== *)
theory Ingest_Policy
  imports Complex_Main Js_Strings
begin

text \<open>
  The small decision procedures of ingestion: block ranges from the command line
  (\<^verbatim>\<open>src/blockRange.ts\<close>), when the raw pipeline flushes (\<^verbatim>\<open>src/raw/flushPolicy.ts\<close>) and
  which heights keep their snapshot row (\<^verbatim>\<open>src/raw/snapshotCadence.ts\<close>).
\<close>

section \<open>Block heights and ranges\<close>

datatype option_error = NotABlockHeight string | RangeReversed int int

definition MAX_BLOCK_HEIGHT :: int where
  "MAX_BLOCK_HEIGHT = 4294967295"

record block_range_options =
  fromBlock :: "int option"
  toBlock :: "int option"

definition assertBlockHeight :: "int \<Rightarrow> string \<Rightarrow> option_error + unit" where
  "assertBlockHeight v option_name =
     (if \<not> is_safe_integer v \<or> v < 0 \<or> v > MAX_BLOCK_HEIGHT then Inl (NotABlockHeight option_name)
      else Inr ())"

text \<open>
  \<open>Number(raw)\<close> on a digit string is its value, rounded to a double above \<open>2\<^sup>5\<^sup>3\<close>; rounding never
  brings such a value back under the limit, so the exact value decides the same way.
\<close>

definition parseBlockHeight :: "string \<Rightarrow> string \<Rightarrow> option_error + int" where
  "parseBlockHeight raw option_name =
     (if raw = [] \<or> \<not> list_all is_dec_digit raw then Inl (NotABlockHeight option_name)
      else (case digits_value 10 0 raw of
              None \<Rightarrow> Inl (NotABlockHeight option_name)
            | Some v \<Rightarrow>
                (case assertBlockHeight (int v) option_name of
                   Inl e \<Rightarrow> Inl e | Inr _ \<Rightarrow> Inr (int v))))"

definition validateBlockRange :: "block_range_options \<Rightarrow> option_error + unit" where
  "validateBlockRange opts =
     (let f = (case fromBlock opts of None \<Rightarrow> Inr () | Some v \<Rightarrow> assertBlockHeight v ''--from-block'');
          t = (case toBlock opts of None \<Rightarrow> Inr () | Some v \<Rightarrow> assertBlockHeight v ''--to-block'')
      in case f of Inl e \<Rightarrow> Inl e
         | Inr _ \<Rightarrow>
           (case t of Inl e \<Rightarrow> Inl e
            | Inr _ \<Rightarrow>
              (case (fromBlock opts, toBlock opts) of
                 (Some a, Some b) \<Rightarrow> if b < a then Inl (RangeReversed a b) else Inr ()
               | _ \<Rightarrow> Inr ())))"

text \<open>\<open>boundedRawRangeFromOptions\<close> of the raw indexer: a bounded run needs both ends.\<close>

datatype bounded_range_error = BadOptions option_error | FromBlockRequired

definition boundedRawRangeFromOptions ::
  "block_range_options \<Rightarrow> bounded_range_error + (int \<times> int) option" where
  "boundedRawRangeFromOptions opts =
     (case validateBlockRange opts of Inl e \<Rightarrow> Inl (BadOptions e)
      | Inr _ \<Rightarrow>
        (case toBlock opts of None \<Rightarrow> Inr None
         | Some t \<Rightarrow>
           (case fromBlock opts of None \<Rightarrow> Inl FromBlockRequired
            | Some f \<Rightarrow> Inr (Some (f, t)))))"

text \<open>A decimal height up to the 32-bit limit is read back exactly as it is printed, and nothing
  else is accepted as one.\<close>

lemma parseBlockHeight_roundtrip:
  "parseBlockHeight (int_to_string v) opt = Inr v \<longleftrightarrow> 0 \<le> v \<and> v \<le> 4294967295"
proof (cases "0 \<le> v")
  case True
  then have "list_all is_dec_digit (int_to_string v)" "int_to_string v \<noteq> []"
    "digits_value 10 0 (int_to_string v) = Some (nat v)"
    by (auto simp: int_to_string_def list_all_iff intro: nat_to_string_digits)
  then show ?thesis using True
    by (auto simp: parseBlockHeight_def assertBlockHeight_def MAX_BLOCK_HEIGHT_def
        is_safe_integer_def MAX_SAFE_INTEGER_def)
next
  case False
  then have "\<not> list_all is_dec_digit (int_to_string v)" by (simp add: int_to_string_def)
  with False show ?thesis by (simp add: parseBlockHeight_def)
qed

text \<open>A bounded raw range that is accepted is a non-empty, ordered range of valid heights.\<close>

lemma boundedRawRange_valid:
  assumes "boundedRawRangeFromOptions opts = Inr (Some (f, t))"
  shows "0 \<le> f \<and> f \<le> t \<and> t \<le> 4294967295 \<and> fromBlock opts = Some f \<and> toBlock opts = Some t"
  using assms
  by (auto simp: boundedRawRangeFromOptions_def validateBlockRange_def assertBlockHeight_def
      MAX_BLOCK_HEIGHT_def Let_def split: option.splits sum.splits if_splits)

section \<open>When the raw pipeline flushes\<close>

record raw_flush_limits =
  limit_blocks :: int
  limit_rows :: int
  limit_elapsedMs :: int

record raw_flush_state =
  pendingBlocks :: int
  pendingRows :: int
  msSinceLastFlush :: int
  atChainHead :: bool
  reachedRangeEnd :: bool

definition shouldFlushRaw :: "raw_flush_state \<Rightarrow> raw_flush_limits \<Rightarrow> bool" where
  "shouldFlushRaw st limits =
     (if atChainHead st \<or> reachedRangeEnd st then True
      else pendingBlocks st \<ge> limit_blocks limits
         \<or> pendingRows st \<ge> limit_rows limits
         \<or> msSinceLastFlush st \<ge> limit_elapsedMs limits)"

lemma no_flush_bounds:
  "\<not> shouldFlushRaw st limits \<Longrightarrow>
     pendingBlocks st < limit_blocks limits \<and> pendingRows st < limit_rows limits
     \<and> msSinceLastFlush st < limit_elapsedMs limits \<and> \<not> atChainHead st \<and> \<not> reachedRangeEnd st"
  by (auto simp: shouldFlushRaw_def split: if_splits)

section \<open>Which heights keep a snapshot\<close>

definition MV_SNAPSHOT_GRID_BLOCKS :: int where
  "MV_SNAPSHOT_GRID_BLOCKS = 600"

definition isMvSnapshotGridHeight :: "int \<Rightarrow> bool" where
  "isMvSnapshotGridHeight height \<longleftrightarrow> bmod height MV_SNAPSHOT_GRID_BLOCKS = 0"

definition validSnapshotCadences :: "int list" where
  "validSnapshotCadences =
     filter (\<lambda>n. bmod MV_SNAPSHOT_GRID_BLOCKS n = 0) (map int [1..<Suc (nat MV_SNAPSHOT_GRID_BLOCKS)])"

datatype cadence_error = NotPositiveInteger rat | NotADivisor int "int list"

text \<open>The argument is a JavaScript number, so it may carry a fraction.\<close>

definition assertSnapshotEveryNBlocks :: "rat \<Rightarrow> cadence_error + int" where
  "assertSnapshotEveryNBlocks v =
     (let n = \<lfloor>v\<rfloor> in
      if \<not> (rat_of_int n = v \<and> is_safe_integer n) \<or> v < 1 then Inl (NotPositiveInteger v)
      else if bmod MV_SNAPSHOT_GRID_BLOCKS n \<noteq> 0 then Inl (NotADivisor n validSnapshotCadences)
      else Inr n)"

text \<open>
  The environment variable: absent or empty means every block. \<open>to_number\<close> is JavaScript's
  \<open>Number(string)\<close>, \<^const>\<open>None\<close> for a result that is not finite.
\<close>

datatype cadence_env_error = NotANumber string | BadCadence cadence_error

definition snapshotEveryNBlocksFromEnvironment ::
  "(string \<Rightarrow> rat option) \<Rightarrow> string option \<Rightarrow> cadence_env_error + int" where
  "snapshotEveryNBlocksFromEnvironment to_number v =
     (case v of None \<Rightarrow> Inr 1
      | Some s \<Rightarrow>
          if s = [] then Inr 1
          else (case to_number s of None \<Rightarrow> Inl (NotANumber s)
                | Some x \<Rightarrow>
                    (case assertSnapshotEveryNBlocks x of
                       Inl e \<Rightarrow> Inl (BadCadence e) | Inr n \<Rightarrow> Inr n)))"

definition retainsSnapshotAtHeight :: "int \<Rightarrow> int \<Rightarrow> bool" where
  "retainsSnapshotAtHeight height everyN \<longleftrightarrow> everyN \<le> 1 \<or> bmod height everyN = 0"

lemma bmod_sgn: "0 < b \<Longrightarrow> bmod a b = sgn a * (\<bar>a\<bar> mod b)"
proof -
  assume b: "0 < b"
  have "\<bar>a\<bar> = \<bar>a\<bar> div b * b + \<bar>a\<bar> mod b" by simp
  then have "sgn a * \<bar>a\<bar> = sgn a * (\<bar>a\<bar> div b) * b + sgn a * (\<bar>a\<bar> mod b)"
    by (metis distrib_left mult.assoc)
  moreover have "sgn a * \<bar>a\<bar> = a" by (simp add: sgn_mult_abs)
  ultimately show ?thesis using b by (simp add: bmod_def bdiv_def)
qed

lemma bmod_eq_0_iff: "0 < b \<Longrightarrow> bmod a b = 0 \<longleftrightarrow> b dvd a"
  by (auto simp: bmod_sgn sgn_0_0 dvd_eq_mod_eq_0 [of b "\<bar>a\<bar>", symmetric])

lemma validSnapshotCadences_iff: "n \<in> set validSnapshotCadences \<longleftrightarrow> 1 \<le> n \<and> n dvd 600"
proof -
  have range: "set (map int [1..<Suc (nat 600)]) = {1..600}"
    using image_int_atLeastLessThan [of 1 "Suc (nat 600)"]
    by (simp only: set_map set_upt) (auto simp: atLeastLessThanPlusOne_atLeastAtMost_int)
  show ?thesis
    unfolding validSnapshotCadences_def MV_SNAPSHOT_GRID_BLOCKS_def set_filter range
    by (auto simp: bmod_eq_0_iff dest: zdvd_imp_le)
qed

lemma assertSnapshot_accepts:
  "assertSnapshotEveryNBlocks v = Inr n \<Longrightarrow> 1 \<le> n \<and> n dvd 600 \<and> v = rat_of_int n"
  by (auto simp: assertSnapshotEveryNBlocks_def Let_def MV_SNAPSHOT_GRID_BLOCKS_def bmod_eq_0_iff
      split: if_splits)

text \<open>Any snapshot cadence the configuration accepts keeps the snapshot of every height the
  pool-history views sample, and the accepted cadences are exactly the listed divisors.\<close>

lemma accepted_cadence_keeps_grid:
  assumes "assertSnapshotEveryNBlocks v = Inr n"
  shows "n \<in> set validSnapshotCadences
    \<and> (isMvSnapshotGridHeight h \<longrightarrow> retainsSnapshotAtHeight h n)"
proof -
  have n: "1 \<le> n" "n dvd 600" using assertSnapshot_accepts [OF assms] by auto
  have "isMvSnapshotGridHeight h \<longrightarrow> n dvd h"
    using n by (auto simp: isMvSnapshotGridHeight_def MV_SNAPSHOT_GRID_BLOCKS_def bmod_eq_0_iff
        intro: dvd_trans)
  then show ?thesis using n
    by (simp add: validSnapshotCadences_iff retainsSnapshotAtHeight_def bmod_eq_0_iff)
qed

end
