(* ===== verification/Raw_Ranges.thy ===== *)
theory Raw_Ranges
  imports Js_Strings
begin

text \<open>
  \<^verbatim>\<open>src/raw/ranges.ts\<close>: the life cycle of a historical raw range and the coverage checks built
  on it.

  The database is a record of the three tables the module touches. \<open>raw_blocks\<close> and
  \<open>raw_ingestion_ranges\<close> are ReplacingMergeTree tables read with \<open>FINAL\<close>: one row per key, so
  they are maps keyed by height and by range id, and an insert replaces the row of its key (each
  insert carries a newer \<open>updated_at\<close>). \<open>raw_ingestion_range_failures\<close> is append-only. Each SQL
  statement of the module is one definition over these tables; a \<open>LIMIT 1\<close> read without an
  order takes the first matching row in table order.

  A thrown \<open>Error\<close> is its message in the left summand. The clock readings of one operation are
  one argument (the text at second precision and at millisecond precision).
\<close>

section \<open>The tables\<close>

datatype raw_range_status = Running | Completed | FailedStatus | Blocked

record raw_block =
  block_height :: int
  block_hash :: string
  parent_hash :: string

record range_row =
  range_id :: string
  pipeline_id :: string
  from_block :: int
  to_block :: int
  status :: raw_range_status
  first_hash :: string
  first_parent_hash :: string
  last_hash :: string
  block_count :: int
  expected_block_count :: int
  broken_parent_links :: int
  range_error_text :: "string option"
  started_at :: string
  completed_at :: "string option"
  updated_at :: string

record failure_row =
  fail_range_id :: string
  fail_pipeline_id :: string
  fail_from_block :: int
  fail_to_block :: int
  fail_reason :: string
  failed_at :: string

record raw_db =
  raw_blocks :: "(int, raw_block) jsmap"
  raw_ingestion_ranges :: "(string, range_row) jsmap"
  range_failures :: "failure_row list"

record clock =
  date_time :: string
  date_time64 :: string

record completed_raw_range =
  rangeFrom :: int
  rangeTo :: int

record raw_range_stats =
  stat_blockCount :: int
  stat_minBlock :: int
  stat_maxBlock :: int
  stat_firstHash :: string
  stat_firstParentHash :: string
  stat_lastHash :: string
  stat_brokenParentLinks :: int

definition rawRangeId :: "string \<Rightarrow> int \<Rightarrow> int \<Rightarrow> string" where
  "rawRangeId pipeline f t = pipeline @ '':'' @ int_to_string f @ ''-'' @ int_to_string t"

definition expectedBlockCount :: "int \<Rightarrow> int \<Rightarrow> int" where
  "expectedBlockCount f t = (if t \<ge> f then t - f + 1 else 0)"

text \<open>The optional fields of \<open>insertRangeState\<close>'s input, and the row it writes.\<close>

record range_state_input =
  in_pipelineId :: string
  in_fromBlock :: int
  in_toBlock :: int
  in_status :: raw_range_status
  in_firstHash :: "string option"
  in_firstParentHash :: "string option"
  in_lastHash :: "string option"
  in_blockCount :: "int option"
  in_expectedBlockCount :: "int option"
  in_brokenParentLinks :: "int option"
  in_error :: "string option"
  in_startedAt :: "string option"
  in_completedAt :: "string option"

abbreviation or_else :: "'a option \<Rightarrow> 'a \<Rightarrow> 'a" where
  "or_else x d \<equiv> (case x of None \<Rightarrow> d | Some v \<Rightarrow> v)"

definition range_state_row :: "range_state_input \<Rightarrow> clock \<Rightarrow> range_row" where
  "range_state_row i now =
     \<lparr>range_id = rawRangeId (in_pipelineId i) (in_fromBlock i) (in_toBlock i),
      pipeline_id = in_pipelineId i,
      from_block = in_fromBlock i,
      to_block = in_toBlock i,
      status = in_status i,
      first_hash = or_else (in_firstHash i) [],
      first_parent_hash = or_else (in_firstParentHash i) [],
      last_hash = or_else (in_lastHash i) [],
      block_count = or_else (in_blockCount i) 0,
      expected_block_count =
        or_else (in_expectedBlockCount i) (expectedBlockCount (in_fromBlock i) (in_toBlock i)),
      broken_parent_links = or_else (in_brokenParentLinks i) 0,
      range_error_text = in_error i,
      started_at = or_else (in_startedAt i) (date_time now),
      completed_at = in_completedAt i,
      updated_at = date_time64 now\<rparr>"

definition insertRangeState :: "range_state_input \<Rightarrow> clock \<Rightarrow> raw_db \<Rightarrow> raw_db" where
  "insertRangeState i now db =
     (let row = range_state_row i now
      in db\<lparr>raw_ingestion_ranges := map_set (range_id row) row (raw_ingestion_ranges db)\<rparr>)"

definition insertRangeFailure ::
  "string \<Rightarrow> int \<Rightarrow> int \<Rightarrow> string \<Rightarrow> clock \<Rightarrow> raw_db \<Rightarrow> raw_db" where
  "insertRangeFailure pipeline f t reason now db =
     db\<lparr>range_failures := range_failures db @
       [\<lparr>fail_range_id = rawRangeId pipeline f t, fail_pipeline_id = pipeline,
         fail_from_block = f, fail_to_block = t, fail_reason = reason, failed_at = date_time now\<rparr>]\<rparr>"

definition loadExistingStartedAt :: "raw_db \<Rightarrow> string \<Rightarrow> int \<Rightarrow> int \<Rightarrow> string option" where
  "loadExistingStartedAt db pipeline f t =
     map_option started_at (map_of (raw_ingestion_ranges db) (rawRangeId pipeline f t))"

definition loadExistingRangeStatus :: "raw_db \<Rightarrow> string \<Rightarrow> int \<Rightarrow> int \<Rightarrow> raw_range_status option" where
  "loadExistingRangeStatus db pipeline f t =
     map_option status (map_of (raw_ingestion_ranges db) (rawRangeId pipeline f t))"

definition range_input :: "string \<Rightarrow> int \<Rightarrow> int \<Rightarrow> raw_range_status \<Rightarrow> string option \<Rightarrow> range_state_input" where
  "range_input pipeline f t st started =
     \<lparr>in_pipelineId = pipeline, in_fromBlock = f, in_toBlock = t, in_status = st,
      in_firstHash = None, in_firstParentHash = None, in_lastHash = None, in_blockCount = None,
      in_expectedBlockCount = None, in_brokenParentLinks = None, in_error = None,
      in_startedAt = started, in_completedAt = None\<rparr>"

section \<open>Status transitions\<close>

definition markRawRangeRunning :: "string \<Rightarrow> int \<Rightarrow> int \<Rightarrow> clock \<Rightarrow> raw_db \<Rightarrow> raw_db" where
  "markRawRangeRunning pipeline f t now db =
     (if loadExistingRangeStatus db pipeline f t = Some Completed then db
      else insertRangeState
             (range_input pipeline f t Running (loadExistingStartedAt db pipeline f t)) now db)"

definition markRawRangeFailed :: "string \<Rightarrow> int \<Rightarrow> int \<Rightarrow> string \<Rightarrow> clock \<Rightarrow> raw_db \<Rightarrow> raw_db" where
  "markRawRangeFailed pipeline f t message now db =
     (if loadExistingRangeStatus db pipeline f t = Some Completed then db
      else insertRangeFailure pipeline f t message now
             (insertRangeState
                ((range_input pipeline f t FailedStatus (loadExistingStartedAt db pipeline f t))
                   \<lparr>in_error := Some message\<rparr>) now db))"

section \<open>Validation against the raw blocks\<close>

definition blocks_in :: "raw_db \<Rightarrow> int \<Rightarrow> int \<Rightarrow> raw_block list" where
  "blocks_in db lo hi = filter (\<lambda>b. lo \<le> block_height b \<and> block_height b \<le> hi) (map snd (raw_blocks db))"

text \<open>\<open>argMin\<close> and \<open>argMax\<close> over the height; an empty set gives the type's default.\<close>

definition arg_min_block :: "raw_block list \<Rightarrow> raw_block option" where
  "arg_min_block bs = (case sort_cmp (cmp_by block_height) bs of [] \<Rightarrow> None | b # _ \<Rightarrow> Some b)"

definition arg_max_block :: "raw_block list \<Rightarrow> raw_block option" where
  "arg_max_block bs =
     (case sort_cmp (cmp_by (\<lambda>b. - block_height b)) bs of [] \<Rightarrow> None | b # _ \<Rightarrow> Some b)"

definition brokenParentLinks :: "raw_db \<Rightarrow> int \<Rightarrow> int \<Rightarrow> int" where
  "brokenParentLinks db f t =
     int (length (filter (\<lambda>(parent, child). block_height child = block_height parent + 1
                                \<and> parent_hash child \<noteq> block_hash parent)
        (List.product (blocks_in db f (t - 1)) (blocks_in db (f + 1) t))))"

definition readRawRangeStats :: "raw_db \<Rightarrow> int \<Rightarrow> int \<Rightarrow> raw_range_stats" where
  "readRawRangeStats db f t =
     (let bs = blocks_in db f t; first = arg_min_block bs; final = arg_max_block bs in
      \<lparr>stat_blockCount = int (length (remdups (map block_height bs))),
       stat_minBlock = (case first of None \<Rightarrow> 0 | Some b \<Rightarrow> block_height b),
       stat_maxBlock = (case final of None \<Rightarrow> 0 | Some b \<Rightarrow> block_height b),
       stat_firstHash = (case first of None \<Rightarrow> [] | Some b \<Rightarrow> block_hash b),
       stat_firstParentHash = (case first of None \<Rightarrow> [] | Some b \<Rightarrow> parent_hash b),
       stat_lastHash = (case final of None \<Rightarrow> [] | Some b \<Rightarrow> block_hash b),
       stat_brokenParentLinks = brokenParentLinks db f t\<rparr>)"

definition previous_range :: "raw_db \<Rightarrow> int \<Rightarrow> range_row option" where
  "previous_range db f =
     List.find (\<lambda>r. status r = Completed \<and> to_block r = f - 1) (map snd (raw_ingestion_ranges db))"

definition next_range :: "raw_db \<Rightarrow> int \<Rightarrow> range_row option" where
  "next_range db t =
     List.find (\<lambda>r. status r = Completed \<and> from_block r = t + 1) (map snd (raw_ingestion_ranges db))"

definition validateAdjacentRanges :: "raw_db \<Rightarrow> int \<Rightarrow> int \<Rightarrow> raw_range_stats \<Rightarrow> string list" where
  "validateAdjacentRanges db f t stats =
     (if f > 0 then
        (case previous_range db f of
           Some r \<Rightarrow> if last_hash r \<noteq> stat_firstParentHash stats
             then [''previous completed range boundary mismatch: expected first parent '' @ last_hash r
                   @ '', got '' @ stat_firstParentHash stats]
             else []
         | None \<Rightarrow> [])
      else [])
     @ (case next_range db t of
          Some r \<Rightarrow> if first_parent_hash r \<noteq> stat_lastHash stats
            then [''next completed range boundary mismatch: expected next parent '' @ stat_lastHash stats
                  @ '', got '' @ first_parent_hash r]
            else []
        | None \<Rightarrow> [])"

definition range_validation_errors :: "raw_db \<Rightarrow> int \<Rightarrow> int \<Rightarrow> raw_range_stats \<Rightarrow> string list" where
  "range_validation_errors db f t stats =
     (let expected = expectedBlockCount f t in
      (if stat_blockCount stats \<noteq> expected
       then [''expected '' @ int_to_string expected @ '' raw blocks, found ''
             @ int_to_string (stat_blockCount stats)] else [])
      @ (if stat_minBlock stats \<noteq> f
         then [''expected min block '' @ int_to_string f @ '', got '' @ int_to_string (stat_minBlock stats)]
         else [])
      @ (if stat_maxBlock stats \<noteq> t
         then [''expected max block '' @ int_to_string t @ '', got '' @ int_to_string (stat_maxBlock stats)]
         else [])
      @ (if stat_brokenParentLinks stats > 0
         then [int_to_string (stat_brokenParentLinks stats) @ '' parent hash link(s) are broken inside range'']
         else [])
      @ validateAdjacentRanges db f t stats)"

definition finalizeRawRange ::
  "string \<Rightarrow> int \<Rightarrow> int \<Rightarrow> clock \<Rightarrow> raw_db \<Rightarrow> (string + unit) \<times> raw_db" where
  "finalizeRawRange pipeline f t now db =
     (let expected = expectedBlockCount f t;
          range_text = int_to_string f @ ''-'' @ int_to_string t in
      if expected \<le> 0 then (Inl (''Invalid raw range '' @ range_text), db)
      else
        (let stats = readRawRangeStats db f t; errors = range_validation_errors db f t stats in
         if errors \<noteq> [] then
           (let message = ''Raw range '' @ range_text @ '' failed validation: '' @ join_with ''; '' errors
            in (Inl message, markRawRangeFailed pipeline f t message now db))
         else
           (Inr (),
            insertRangeState
              ((range_input pipeline f t Completed (loadExistingStartedAt db pipeline f t))
                 \<lparr>in_firstHash := Some (stat_firstHash stats),
                  in_firstParentHash := Some (stat_firstParentHash stats),
                  in_lastHash := Some (stat_lastHash stats),
                  in_blockCount := Some (stat_blockCount stats),
                  in_expectedBlockCount := Some expected,
                  in_brokenParentLinks := Some (stat_brokenParentLinks stats),
                  in_completedAt := Some (date_time now)\<rparr>) now db)))"

section \<open>Coverage\<close>

definition cmp_range :: "completed_raw_range \<Rightarrow> completed_raw_range \<Rightarrow> int" where
  "cmp_range = cmp_or (cmp_by rangeFrom) (cmp_by rangeTo)"

definition merge_step :: "completed_raw_range list \<Rightarrow> completed_raw_range \<Rightarrow> completed_raw_range list" where
  "merge_step merged r =
     (if merged = [] \<or> rangeFrom r > rangeTo (last merged) + 1 then merged @ [r]
      else if rangeTo r > rangeTo (last merged)
      then butlast merged @ [(last merged)\<lparr>rangeTo := rangeTo r\<rparr>]
      else merged)"

definition mergeRawRanges :: "completed_raw_range list \<Rightarrow> completed_raw_range list" where
  "mergeRawRanges ranges = foldl merge_step [] (sort_cmp cmp_range ranges)"

definition completed_between :: "raw_db \<Rightarrow> int \<Rightarrow> int \<Rightarrow> range_row list" where
  "completed_between db f t =
     sort_cmp (cmp_or (cmp_by from_block) (cmp_by to_block))
       (filter (\<lambda>r. status r = Completed \<and> to_block r \<ge> f \<and> from_block r \<le> t)
          (map snd (raw_ingestion_ranges db)))"

definition getCompletedRawRanges :: "raw_db \<Rightarrow> int \<Rightarrow> int \<Rightarrow> completed_raw_range list" where
  "getCompletedRawRanges db f t =
     mergeRawRanges (map (\<lambda>row. \<lparr>rangeFrom = max f (from_block row), rangeTo = min t (to_block row)\<rparr>)
       (completed_between db f t))"

fun missing_loop :: "int \<Rightarrow> completed_raw_range list \<Rightarrow> int \<Rightarrow> completed_raw_range list
    \<Rightarrow> completed_raw_range list \<times> int" where
  "missing_loop t [] cursor missing = (missing, cursor)"
| "missing_loop t (r # rs) cursor missing =
     (if rangeTo r < cursor then missing_loop t rs cursor missing
      else
        (let missing' = (if rangeFrom r > cursor
               then missing @ [\<lparr>rangeFrom = cursor, rangeTo = min (rangeFrom r - 1) t\<rparr>] else missing);
             cursor' = max cursor (rangeTo r + 1)
         in if cursor' > t then (missing', cursor') else missing_loop t rs cursor' missing'))"

definition missingRawCoverage ::
  "int \<Rightarrow> int \<Rightarrow> completed_raw_range list \<Rightarrow> completed_raw_range list" where
  "missingRawCoverage f t completed =
     (let (missing, cursor) = missing_loop t (mergeRawRanges completed) f []
      in if cursor \<le> t then missing @ [\<lparr>rangeFrom = cursor, rangeTo = t\<rparr>] else missing)"

definition assertFinalizedRawCoverage :: "raw_db \<Rightarrow> int \<Rightarrow> int \<Rightarrow> string + unit" where
  "assertFinalizedRawCoverage db f t =
     (let missing = missingRawCoverage f t (getCompletedRawRanges db f t) in
      if missing = [] then Inr ()
      else
        (let preview = join_with '', ''
               (map (\<lambda>r. int_to_string (rangeFrom r) @ ''-'' @ int_to_string (rangeTo r)) (take 5 missing));
             suffix = (if length missing > 5
               then '', ... '' @ int_to_string (int (length missing) - 5) @ '' more'' else [])
         in Inl (''Missing finalized raw coverage for '' @ int_to_string f @ ''-'' @ int_to_string t
                 @ '': '' @ preview @ suffix)))"

section \<open>Histories of a raw store\<close>

text \<open>
  The steps of an ingest process on the store: a block arrives at a height that holds none yet
  (or is written again unchanged, the at-least-once replay after a restart), and the three range
  operations.
\<close>

inductive range_step :: "raw_db \<Rightarrow> raw_db \<Rightarrow> bool" where
  ingest: "map_of (raw_blocks db) (block_height b) \<in> {None, Some b} \<Longrightarrow>
    range_step db (db\<lparr>raw_blocks := map_set (block_height b) b (raw_blocks db)\<rparr>)"
| running: "range_step db (markRawRangeRunning pipeline f t now db)"
| failed: "range_step db (markRawRangeFailed pipeline f t message now db)"
| finalize: "range_step db (snd (finalizeRawRange pipeline f t now db))"

inductive range_reachable :: "raw_db \<Rightarrow> bool" where
  start: "range_reachable \<lparr>raw_blocks = [], raw_ingestion_ranges = [], range_failures = []\<rparr>"
| step: "range_reachable db \<Longrightarrow> range_step db db' \<Longrightarrow> range_reachable db'"

inductive_cases range_stepE: "range_step db db'"

abbreviation range_at :: "raw_db \<Rightarrow> string \<Rightarrow> range_row option" where
  "range_at db \<equiv> map_of (raw_ingestion_ranges db)"

abbreviation block_at :: "raw_db \<Rightarrow> int \<Rightarrow> raw_block option" where
  "block_at db \<equiv> map_of (raw_blocks db)"

text \<open>Both tables hold at most one row of a key, under the key the row itself carries.\<close>

definition keyed_tables :: "raw_db \<Rightarrow> bool" where
  "keyed_tables db \<longleftrightarrow>
     map_wf (raw_blocks db) \<and> (\<forall>(k, b) \<in> set (raw_blocks db). block_height b = k) \<and>
     map_wf (raw_ingestion_ranges db) \<and> (\<forall>(k, r) \<in> set (raw_ingestion_ranges db). range_id r = k)"

text \<open>A range is backed when the store holds each of its heights and its inner parent links hold.\<close>

definition backed :: "raw_db \<Rightarrow> int \<Rightarrow> int \<Rightarrow> bool" where
  "backed db f t \<longleftrightarrow> f \<le> t \<and> (\<forall>h \<in> {f..t}. block_at db h \<noteq> None)
     \<and> (\<forall>h \<in> {f..<t}. \<forall>b c. block_at db h = Some b \<longrightarrow> block_at db (h + 1) = Some c
          \<longrightarrow> parent_hash c = block_hash b)"

definition completed_rows_backed :: "raw_db \<Rightarrow> bool" where
  "completed_rows_backed db \<longleftrightarrow>
     (\<forall>r \<in> snd ` set (raw_ingestion_ranges db). status r = Completed \<longrightarrow> backed db (from_block r) (to_block r))"

lemma insertRangeState_simps [simp]:
  "raw_blocks (insertRangeState i now db) = raw_blocks db"
  "range_at (insertRangeState i now db) k =
     (if k = rawRangeId (in_pipelineId i) (in_fromBlock i) (in_toBlock i)
      then Some (range_state_row i now) else range_at db k)"
  "raw_ingestion_ranges (insertRangeState i now db) =
     map_set (rawRangeId (in_pipelineId i) (in_fromBlock i) (in_toBlock i)) (range_state_row i now)
       (raw_ingestion_ranges db)"
  "range_failures (insertRangeState i now db) = range_failures db"
  by (simp_all add: insertRangeState_def Let_def range_state_row_def)

lemma insertRangeFailure_simps [simp]:
  "raw_blocks (insertRangeFailure p f t m now db) = raw_blocks db"
  "raw_ingestion_ranges (insertRangeFailure p f t m now db) = raw_ingestion_ranges db"
  by (simp_all add: insertRangeFailure_def)

lemma raw_blocks_ops [simp]:
  "raw_blocks (markRawRangeRunning p f t now db) = raw_blocks db"
  "raw_blocks (markRawRangeFailed p f t m now db) = raw_blocks db"
  "raw_blocks (snd (finalizeRawRange p f t now db)) = raw_blocks db"
  by (simp_all add: markRawRangeRunning_def markRawRangeFailed_def finalizeRawRange_def Let_def)

lemma backed_cong: "raw_blocks db = raw_blocks db' \<Longrightarrow> backed db f t = backed db' f t"
  by (simp add: backed_def)

lemma map_set_keyed:
  "\<forall>(k, v) \<in> set m. g v = k \<Longrightarrow> \<forall>(k, v) \<in> set (map_set (g x) x m). g v = k"
  using map_set_entries by fastforce

lemma range_id_row [simp]:
  "range_id (range_state_row i now) = rawRangeId (in_pipelineId i) (in_fromBlock i) (in_toBlock i)"
  by (simp add: range_state_row_def)

lemma keyed_tables_insert: "keyed_tables db \<Longrightarrow> keyed_tables (insertRangeState i now db)"
  using map_set_keyed [of "raw_ingestion_ranges db" range_id "range_state_row i now"]
  by (simp add: keyed_tables_def)

lemma keyed_tables_failure [simp]: "keyed_tables (insertRangeFailure p f t m now db) = keyed_tables db"
  by (simp add: keyed_tables_def)

lemma keyed_tables_step: "range_step db db' \<Longrightarrow> keyed_tables db \<Longrightarrow> keyed_tables db'"
proof (induction rule: range_step.induct)
  case (ingest db b)
  then show ?case using map_set_keyed [of "raw_blocks db" block_height b]
    by (simp add: keyed_tables_def)
qed (auto simp: markRawRangeRunning_def markRawRangeFailed_def finalizeRawRange_def Let_def keyed_tables_insert)

subsection \<open>What a clean validation means\<close>

lemma blocks_in_iff:
  assumes "keyed_tables db"
  shows "b \<in> set (blocks_in db lo hi) \<longleftrightarrow>
    block_at db (block_height b) = Some b \<and> lo \<le> block_height b \<and> block_height b \<le> hi"
proof -
  have "b \<in> snd ` set (raw_blocks db) \<longleftrightarrow> block_at db (block_height b) = Some b"
    using assms by (force simp: keyed_tables_def intro: map_of_is_SomeI dest: map_of_SomeD)
  then show ?thesis by (simp add: blocks_in_def)
qed

lemma block_at_height: "keyed_tables db \<Longrightarrow> block_at db h = Some b \<Longrightarrow> block_height b = h"
  by (auto simp: keyed_tables_def dest: map_of_SomeD)

lemma full_count_covers:
  assumes "keyed_tables db" and "f \<le> t"
    and "int (length (remdups (map block_height (blocks_in db f t)))) = expectedBlockCount f t"
    and "h \<in> {f..t}"
  shows "block_at db h \<noteq> None"
proof -
  let ?hs = "block_height ` set (blocks_in db f t)"
  have "int (card ?hs) = t - f + 1"
    using assms by (simp add: expectedBlockCount_def length_remdups_card_conv)
  moreover have "?hs \<subseteq> {f..t}" using assms by (auto simp: blocks_in_iff)
  ultimately have "?hs = {f..t}" using assms(2) by (intro card_subset_eq) auto
  with assms(4) obtain b where "b \<in> set (blocks_in db f t)" "block_height b = h"
    by (metis imageE)
  with assms(1) show ?thesis by (auto simp: blocks_in_iff)
qed

lemma no_broken_links:
  assumes "keyed_tables db" and "\<not> brokenParentLinks db f t > 0"
    and "block_at db h = Some b" and "block_at db (h + 1) = Some c" and "f \<le> h" "h < t"
  shows "parent_hash c = block_hash b"
proof -
  have eq: "block_height b = h" "block_height c = h + 1"
    using assms by (auto intro: block_at_height)
  have "(b, c) \<in> set (List.product (blocks_in db f (t - 1)) (blocks_in db (f + 1) t))"
    using assms eq by (simp add: blocks_in_iff)
  with assms(2) eq show ?thesis
    unfolding brokenParentLinks_def by (auto simp: filter_empty_conv)
qed

lemma clean_validation_backed:
  assumes "keyed_tables db" and "f \<le> t"
    and "range_validation_errors db f t (readRawRangeStats db f t) = []"
  shows "backed db f t"
proof -
  have c: "int (length (remdups (map block_height (blocks_in db f t)))) = expectedBlockCount f t"
    and l: "\<not> brokenParentLinks db f t > 0"
    using assms(3) by (auto simp: range_validation_errors_def readRawRangeStats_def Let_def split: if_splits)
  show ?thesis unfolding backed_def
    using assms(2) full_count_covers [OF assms(1,2) c] no_broken_links [OF assms(1) l] by auto
qed

lemma finalize_ok_cases:
  assumes "finalizeRawRange pipeline f t now db = (Inr (), db')"
  obtains "f \<le> t" "range_validation_errors db f t (readRawRangeStats db f t) = []"
proof -
  have "f \<le> t" using assms by (auto simp: finalizeRawRange_def Let_def expectedBlockCount_def split: if_splits)
  moreover have "range_validation_errors db f t (readRawRangeStats db f t) = []"
    using assms by (auto simp: finalizeRawRange_def Let_def split: if_splits)
  ultimately show ?thesis by (rule that)
qed

lemma finalize_failed:
  assumes "finalizeRawRange pipeline f t now db = (Inl e, db')"
  shows "db' = db \<or> db' = markRawRangeFailed pipeline f t e now db"
  using assms by (auto simp: finalizeRawRange_def Let_def split: if_splits)

lemma backed_mono_ingest:
  assumes "keyed_tables db" "block_at db (block_height b) \<in> {None, Some b}" "backed db f t"
  shows "backed (db\<lparr>raw_blocks := map_set (block_height b) b (raw_blocks db)\<rparr>) f t"
proof -
  have same: "block_at (db\<lparr>raw_blocks := map_set (block_height b) b (raw_blocks db)\<rparr>) h = block_at db h"
    if "h \<in> {f..t}" for h
  proof (cases "h = block_height b")
    case True
    moreover have "block_at db h \<noteq> None" using assms(3) that by (simp add: backed_def)
    ultimately have "block_at db h = Some b" using assms(2) by (elim insertE) simp_all
    with True show ?thesis by simp
  qed simp
  show ?thesis unfolding backed_def
  proof (intro conjI ballI allI impI)
    show "f \<le> t" using assms(3) by (simp add: backed_def)
  next
    fix h assume "h \<in> {f..t}"
    with same [of h] assms(3) show "block_at (db\<lparr>raw_blocks := map_set (block_height b) b (raw_blocks db)\<rparr>) h \<noteq> None"
      unfolding backed_def by simp
  next
    fix h p c assume h: "h \<in> {f..<t}"
      and at: "block_at (db\<lparr>raw_blocks := map_set (block_height b) b (raw_blocks db)\<rparr>) h = Some p"
        "block_at (db\<lparr>raw_blocks := map_set (block_height b) b (raw_blocks db)\<rparr>) (h + 1) = Some c"
    have "block_at db h = Some p" "block_at db (h + 1) = Some c"
      using h at same [of h] same [of "h + 1"] by (simp_all del: map_get_set)
    with h assms(3) show "parent_hash c = block_hash p" unfolding backed_def by blast
  qed
qed

lemma range_input_simps [simp]:
  "in_pipelineId (range_input p f t st started) = p"
  "in_fromBlock (range_input p f t st started) = f"
  "in_toBlock (range_input p f t st started) = t"
  "in_status (range_input p f t st started) = st"
  by (simp_all add: range_input_def)

lemma range_state_row_simps [simp]:
  "status (range_state_row i now) = in_status i"
  "from_block (range_state_row i now) = in_fromBlock i"
  "to_block (range_state_row i now) = in_toBlock i"
  by (simp_all add: range_state_row_def)

lemma rows_backed_insert:
  assumes "completed_rows_backed db"
    and "in_status i = Completed \<Longrightarrow> backed db (in_fromBlock i) (in_toBlock i)"
  shows "completed_rows_backed (insertRangeState i now db)"
  unfolding completed_rows_backed_def
proof (intro ballI impI)
  fix r assume r: "r \<in> snd ` set (raw_ingestion_ranges (insertRangeState i now db))" "status r = Completed"
  have same: "backed (insertRangeState i now db) = backed db"
    by (intro ext backed_cong) simp
  from r(1) have "r = range_state_row i now \<or> r \<in> snd ` set (raw_ingestion_ranges db)"
    using map_set_entries by fastforce
  then show "backed (insertRangeState i now db) (from_block r) (to_block r)"
    using r(2) assms unfolding same by (auto simp: completed_rows_backed_def)
qed

lemma rows_backed_failure [simp]:
  "completed_rows_backed (insertRangeFailure p f t m now db) = completed_rows_backed db"
  by (simp add: completed_rows_backed_def backed_def)

lemma rows_backed_mark:
  "completed_rows_backed db \<Longrightarrow> completed_rows_backed (markRawRangeRunning p f t now db)"
  "completed_rows_backed db \<Longrightarrow> completed_rows_backed (markRawRangeFailed p f t m now db)"
  by (auto simp: markRawRangeRunning_def markRawRangeFailed_def intro!: rows_backed_insert)

lemma rows_backed_finalize:
  assumes "keyed_tables db" "completed_rows_backed db"
  shows "completed_rows_backed (snd (finalizeRawRange p f t now db))"
proof (cases "finalizeRawRange p f t now db")
  case (Pair res db')
  show ?thesis
  proof (cases res)
    case (Inl e)
    with Pair finalize_failed [of p f t now db e db'] assms(2) show ?thesis
      by (auto intro: rows_backed_mark)
  next
    case (Inr u)
    with Pair have ok: "finalizeRawRange p f t now db = (Inr (), db')" by simp
    from finalize_ok_cases [OF ok] have "backed db f t"
      using clean_validation_backed [OF assms(1)] by metis
    moreover from ok obtain i where "db' = insertRangeState i now db" "in_fromBlock i = f" "in_toBlock i = t"
      by (auto simp: finalizeRawRange_def Let_def split: if_splits)
    ultimately show ?thesis using ok assms(2) by (simp add: rows_backed_insert)
  qed
qed

lemma reachable_invariant: "range_reachable db \<Longrightarrow> keyed_tables db \<and> completed_rows_backed db"
proof (induction rule: range_reachable.induct)
  case start
  then show ?case by (simp add: keyed_tables_def completed_rows_backed_def)
next
  case (step db db')
  then have "keyed_tables db'" using keyed_tables_step by blast
  moreover have "completed_rows_backed db'" using step.hyps(2) step.IH
  proof (cases rule: range_step.cases)
    case (ingest b)
    with step.IH show ?thesis
      by (auto simp: completed_rows_backed_def intro!: backed_mono_ingest)
  qed (auto simp: rows_backed_mark rows_backed_finalize)
  ultimately show ?case ..
qed

section \<open>Coverage arithmetic\<close>

interpretation cmp_range: js_comparator cmp_range
  by unfold_locales (auto simp: cmp_range_def cmp_or_def cmp_by_def split: if_splits)

definition covers :: "completed_raw_range list \<Rightarrow> int \<Rightarrow> bool" where
  "covers rs h \<longleftrightarrow> (\<exists>r \<in> set rs. rangeFrom r \<le> h \<and> h \<le> rangeTo r)"

definition gapped :: "completed_raw_range list \<Rightarrow> bool" where
  "gapped = sorted_wrt (\<lambda>a b. rangeTo a + 1 < rangeFrom b)"

abbreviation proper :: "completed_raw_range list \<Rightarrow> bool" where
  "proper rs \<equiv> \<forall>r \<in> set rs. rangeFrom r \<le> rangeTo r"

lemma covers_simps [simp]:
  "\<not> covers [] h"
  "covers (r # rs) h \<longleftrightarrow> rangeFrom r \<le> h \<and> h \<le> rangeTo r \<or> covers rs h"
  "covers (rs @ rs') h \<longleftrightarrow> covers rs h \<or> covers rs' h"
  by (auto simp: covers_def)

lemma gapped_simps [simp]:
  "gapped []"
  "gapped (r # rs) \<longleftrightarrow> (\<forall>b \<in> set rs. rangeTo r + 1 < rangeFrom b) \<and> gapped rs"
  "gapped (rs @ rs') \<longleftrightarrow> gapped rs \<and> gapped rs' \<and> (\<forall>a \<in> set rs. \<forall>b \<in> set rs'. rangeTo a + 1 < rangeFrom b)"
  by (auto simp: gapped_def sorted_wrt_append)

lemma merge_step_ok:
  assumes "gapped merged" "proper merged" "\<forall>m \<in> set merged. rangeFrom m \<le> rangeFrom r"
    "rangeFrom r \<le> rangeTo r"
  shows "gapped (merge_step merged r) \<and> proper (merge_step merged r)
    \<and> (\<forall>m \<in> set (merge_step merged r). rangeFrom m \<le> rangeFrom r)
    \<and> (\<forall>h. covers (merge_step merged r) h \<longleftrightarrow> covers merged h \<or> rangeFrom r \<le> h \<and> h \<le> rangeTo r)"
proof (cases merged rule: rev_cases)
  case Nil
  with assms show ?thesis by (simp add: merge_step_def)
next
  case (snoc ms m)
  with assms have ms: "gapped ms" "proper ms" "\<forall>a \<in> set ms. rangeTo a + 1 < rangeFrom m"
    "rangeFrom m \<le> rangeFrom r" "rangeFrom m \<le> rangeTo m" "\<forall>a \<in> set ms. rangeFrom a \<le> rangeFrom r"
    by simp_all
  consider "rangeFrom r > rangeTo m + 1" | "rangeFrom r \<le> rangeTo m + 1" "rangeTo r > rangeTo m"
    | "rangeFrom r \<le> rangeTo m + 1" "rangeTo r \<le> rangeTo m" by linarith
  then show ?thesis
  proof cases
    case 1
    then have far: "\<forall>a \<in> set ms. rangeTo a + 1 < rangeFrom r" using ms(3-5) by force
    from 1 have "merge_step merged r = merged @ [r]" using snoc by (simp add: merge_step_def)
    with 1 far snoc ms assms(4) show ?thesis by auto
  next
    case 2
    with snoc ms assms(4) show ?thesis by (auto simp: merge_step_def)
  next
    case 3
    with snoc ms assms(4) show ?thesis by (auto simp: merge_step_def)
  qed
qed

lemma merge_fold_ok:
  assumes "sorted_wrt (\<lambda>a b. rangeFrom a \<le> rangeFrom b) rs" "proper rs" "gapped merged" "proper merged"
    "\<forall>m \<in> set merged. \<forall>r \<in> set rs. rangeFrom m \<le> rangeFrom r"
  shows "gapped (foldl merge_step merged rs) \<and> proper (foldl merge_step merged rs)
    \<and> (\<forall>h. covers (foldl merge_step merged rs) h \<longleftrightarrow> covers merged h \<or> covers rs h)"
  using assms
proof (induction rs arbitrary: merged)
  case (Cons r rs)
  have "\<forall>m \<in> set merged. rangeFrom m \<le> rangeFrom r" using Cons.prems(5) by simp
  note step = merge_step_ok [OF Cons.prems(3,4) this, OF bspec [OF Cons.prems(2)], simplified]
  have "\<forall>m \<in> set (merge_step merged r). \<forall>x \<in> set rs. rangeFrom m \<le> rangeFrom x"
    using step Cons.prems(1) by fastforce
  from Cons.IH [of "merge_step merged r", OF _ _ _ _ this] step Cons.prems show ?case by auto
qed simp

lemma merge_ranges_ok:
  assumes "proper rs"
  shows "gapped (mergeRawRanges rs) \<and> proper (mergeRawRanges rs)
    \<and> (\<forall>h. covers (mergeRawRanges rs) h \<longleftrightarrow> covers rs h)"
proof -
  have "sorted_wrt (\<lambda>a b. rangeFrom a \<le> rangeFrom b) (sort_cmp cmp_range rs)"
    by (rule sorted_wrt_mono_rel [OF _ cmp_range.sorted_sort])
      (auto simp: cmp_range_def cmp_or_def cmp_by_def split: if_splits)
  from merge_fold_ok [OF this, of "[]"] assms show ?thesis
    by (simp add: mergeRawRanges_def covers_def)
qed

definition missing_tail :: "int \<Rightarrow> completed_raw_range list \<times> int \<Rightarrow> completed_raw_range list" where
  "missing_tail t r = (if snd r \<le> t then fst r @ [\<lparr>rangeFrom = snd r, rangeTo = t\<rparr>] else fst r)"

lemma missing_loop_ok:
  assumes "gapped rs" "proper rs" "cursor \<le> t"
  shows "\<exists>new. missing_tail t (missing_loop t rs cursor missing) = missing @ new \<and> proper new \<and> gapped new \<and>
    (\<forall>r \<in> set new. cursor \<le> rangeFrom r \<and> rangeTo r \<le> t) \<and>
    (\<forall>h. covers new h \<longleftrightarrow> cursor \<le> h \<and> h \<le> t \<and> \<not> covers rs h)"
  using assms
proof (induction t rs cursor missing rule: missing_loop.induct)
  case (1 t cursor missing)
  then show ?case by (auto simp: missing_tail_def)
next
  case (2 t r rs cursor missing)
  show ?case
  proof (cases "rangeTo r < cursor")
    case True
    with 2 show ?thesis by fastforce
  next
    case False
    define m1 where "m1 = (if rangeFrom r > cursor
      then [\<lparr>rangeFrom = cursor, rangeTo = min (rangeFrom r - 1) t\<rparr>] else [])"
    define c1 where "c1 = max cursor (rangeTo r + 1)"
    have r: "rangeFrom r \<le> rangeTo r" and c1_eq: "c1 = rangeTo r + 1" and "cursor \<le> rangeTo r"
      using 2(4) False by (auto simp: c1_def)
    have m1: "proper m1" "gapped m1" "\<forall>x \<in> set m1. cursor \<le> rangeFrom x \<and> rangeTo x \<le> t \<and> rangeTo x + 1 < c1"
      "covers m1 h \<longleftrightarrow> cursor \<le> h \<and> h < rangeFrom r \<and> h \<le> t" for h
      using 2(4,5) False by (auto simp: m1_def c1_def)
    have later: "covers rs h \<Longrightarrow> c1 < h" for h using 2(3) False by (auto simp: covers_def c1_def)
    have unfold: "missing_loop t (r # rs) cursor missing =
        (if c1 > t then (missing @ m1, c1) else missing_loop t rs c1 (missing @ m1))"
      using False by (simp add: m1_def c1_def Let_def)
    show ?thesis
    proof (cases "c1 > t")
      case True
      with unfold have "missing_tail t (missing_loop t (r # rs) cursor missing) = missing @ m1"
        by (simp add: missing_tail_def)
      moreover have "covers m1 h \<longleftrightarrow> cursor \<le> h \<and> h \<le> t \<and> \<not> covers (r # rs) h" for h
        unfolding m1(4) covers_simps using True later [of h] c1_eq by linarith
      moreover have "\<forall>x \<in> set m1. cursor \<le> rangeFrom x \<and> rangeTo x \<le> t" using m1(3) by blast
      ultimately show ?thesis using m1(1,2) by blast
    next
      case c1: False
      have mm: "missing @ m1 = (if rangeFrom r > cursor
          then missing @ [\<lparr>rangeFrom = cursor, rangeTo = min (rangeFrom r - 1) t\<rparr>] else missing)"
        by (simp add: m1_def)
      have rs: "gapped rs" "proper rs" "c1 \<le> t" using 2(3,4) c1 by simp_all
      from 2(2) [OF False mm c1_def c1 rs] obtain new where new: "missing_tail t (missing_loop t rs c1 (missing @ m1)) = (missing @ m1) @ new"
        "proper new" "gapped new" "\<forall>x \<in> set new. c1 \<le> rangeFrom x \<and> rangeTo x \<le> t"
        "\<forall>h. covers new h \<longleftrightarrow> c1 \<le> h \<and> h \<le> t \<and> \<not> covers rs h"
        by blast
      have "covers (m1 @ new) h \<longleftrightarrow> cursor \<le> h \<and> h \<le> t \<and> \<not> covers (r # rs) h" for h
        unfolding covers_simps m1(4) new(5) [rule_format]
        using later [of h] r c1_eq \<open>cursor \<le> rangeTo r\<close> by linarith
      moreover have "gapped (m1 @ new)"
        using m1(2,3) new(3,4) by (fastforce simp: gapped_def sorted_wrt_append)
      ultimately show ?thesis using unfold c1 new m1 by (intro exI [of _ "m1 @ new"]) (auto simp: c1_def)
    qed
  qed
qed

lemma missing_coverage_ok:
  assumes "proper completed" "f \<le> t"
  shows "proper (missingRawCoverage f t completed) \<and> gapped (missingRawCoverage f t completed) \<and>
    (\<forall>r \<in> set (missingRawCoverage f t completed). f \<le> rangeFrom r \<and> rangeTo r \<le> t) \<and>
    (\<forall>h. covers (missingRawCoverage f t completed) h \<longleftrightarrow> f \<le> h \<and> h \<le> t \<and> \<not> covers completed h)"
proof -
  have "missingRawCoverage f t completed = missing_tail t (missing_loop t (mergeRawRanges completed) f [])"
    by (simp add: missingRawCoverage_def missing_tail_def split: prod.splits)
  with missing_loop_ok [of "mergeRawRanges completed" f t "[]"] merge_ranges_ok [OF assms(1)] assms(2)
  show ?thesis by auto
qed

lemma completed_between_covers:
  assumes "\<forall>r \<in> snd ` set (raw_ingestion_ranges db). status r = Completed \<longrightarrow> from_block r \<le> to_block r"
    and "f \<le> t"
  shows "proper (getCompletedRawRanges db f t)"
    and "covers (getCompletedRawRanges db f t) h \<longleftrightarrow> f \<le> h \<and> h \<le> t \<and>
      (\<exists>r \<in> snd ` set (raw_ingestion_ranges db). status r = Completed \<and> from_block r \<le> h \<and> h \<le> to_block r)"
proof -
  let ?cut = "map (\<lambda>row. \<lparr>rangeFrom = max f (from_block row), rangeTo = min t (to_block row)\<rparr>)
    (completed_between db f t)"
  have p: "proper ?cut" using assms by (auto simp: completed_between_def)
  then show "proper (getCompletedRawRanges db f t)"
    using merge_ranges_ok unfolding getCompletedRawRanges_def by blast
  have "covers (getCompletedRawRanges db f t) h \<longleftrightarrow> covers ?cut h"
    using merge_ranges_ok [OF p] by (simp add: getCompletedRawRanges_def)
  also have "\<dots> \<longleftrightarrow> f \<le> h \<and> h \<le> t \<and>
      (\<exists>r \<in> snd ` set (raw_ingestion_ranges db). status r = Completed \<and> from_block r \<le> h \<and> h \<le> to_block r)"
    by (auto simp: covers_def completed_between_def)
  finally show "covers (getCompletedRawRanges db f t) h \<longleftrightarrow> f \<le> h \<and> h \<le> t \<and>
      (\<exists>r \<in> snd ` set (raw_ingestion_ranges db). status r = Completed \<and> from_block r \<le> h \<and> h \<le> to_block r)" .
qed

lemma proper_gapless_empty: "proper rs \<Longrightarrow> (\<forall>h. \<not> covers rs h) \<longleftrightarrow> rs = []"
  by (cases rs) auto

lemma assert_coverage_iff:
  assumes "range_reachable db" "f \<le> t"
  shows "assertFinalizedRawCoverage db f t = Inr () \<longleftrightarrow>
    (\<forall>h \<in> {f..t}. \<exists>r \<in> snd ` set (raw_ingestion_ranges db).
       status r = Completed \<and> from_block r \<le> h \<and> h \<le> to_block r)"
proof -
  have "\<forall>r \<in> snd ` set (raw_ingestion_ranges db). status r = Completed \<longrightarrow> from_block r \<le> to_block r"
    using reachable_invariant [OF assms(1)] by (auto simp: completed_rows_backed_def backed_def)
  note cov = completed_between_covers [OF this assms(2)]
  note miss = missing_coverage_ok [OF cov(1) assms(2)]
  have "assertFinalizedRawCoverage db f t = Inr () \<longleftrightarrow>
      missingRawCoverage f t (getCompletedRawRanges db f t) = []"
    by (simp add: assertFinalizedRawCoverage_def Let_def)
  also have "\<dots> \<longleftrightarrow> (\<forall>h. \<not> covers (missingRawCoverage f t (getCompletedRawRanges db f t)) h)"
    using proper_gapless_empty miss by blast
  also have "\<dots> \<longleftrightarrow> (\<forall>h \<in> {f..t}. covers (getCompletedRawRanges db f t) h)"
    using miss by auto
  finally show ?thesis using cov(2) by auto
qed

lemma completed_kept:
  "range_step db db' \<Longrightarrow> map_option status (range_at db k) = Some Completed \<Longrightarrow>
    map_option status (range_at db' k) = Some Completed"
  by (erule range_stepE)
    (auto simp: markRawRangeRunning_def markRawRangeFailed_def loadExistingRangeStatus_def
      finalizeRawRange_def Let_def insertRangeFailure_def split: if_splits)

lemma blocks_sorted_first:
  assumes "keyed_tables db" "backed db f t"
  shows "\<exists>b. arg_min_block (blocks_in db f t) = Some b \<and> block_at db f = Some b"
    and "\<exists>b. arg_max_block (blocks_in db f t) = Some b \<and> block_at db t = Some b"
proof -
  obtain b c where at: "block_at db f = Some b" "block_at db t = Some c" and "f \<le> t"
    using assms(2) unfolding backed_def by (metis atLeastAtMost_iff not_Some_eq order_refl)
  then have mem: "b \<in> set (blocks_in db f t)" "c \<in> set (blocks_in db f t)"
    using assms(1) block_at_height [OF assms(1)] by (simp_all add: blocks_in_iff)
  obtain x xs where x: "sort_cmp (cmp_by block_height) (blocks_in db f t) = x # xs"
    using mem(1) by (metis list.exhaust list.set_cases sort_cmp_Nil_iff list.distinct(1))
  then have "x \<in> set (blocks_in db f t)" using set_sort_cmp [of "cmp_by block_height" "blocks_in db f t"]
    by (metis list.set_intros(1))
  moreover have "block_height x \<le> block_height b"
    using cmp_by.sort_head_least [OF x mem(1)] by (simp add: cmp_by_def)
  ultimately have "block_height x = f" "block_at db (block_height x) = Some x"
    using block_at_height [OF assms(1) at(1)] assms(1) by (auto simp: blocks_in_iff)
  then show "\<exists>b. arg_min_block (blocks_in db f t) = Some b \<and> block_at db f = Some b"
    using x by (auto simp: arg_min_block_def)
  obtain y ys where y: "sort_cmp (cmp_by (\<lambda>b. - block_height b)) (blocks_in db f t) = y # ys"
    using mem(1) by (metis list.exhaust list.set_cases sort_cmp_Nil_iff list.distinct(1))
  then have "y \<in> set (blocks_in db f t)"
    using set_sort_cmp [of "cmp_by (\<lambda>b. - block_height b)" "blocks_in db f t"]
    by (metis list.set_intros(1))
  moreover have "block_height c \<le> block_height y"
    using cmp_by.sort_head_least [OF y mem(2)] by (simp add: cmp_by_def)
  ultimately have "block_height y = t" "block_at db (block_height y) = Some y"
    using block_at_height [OF assms(1) at(2)] assms(1) by (auto simp: blocks_in_iff)
  then show "\<exists>b. arg_max_block (blocks_in db f t) = Some b \<and> block_at db t = Some b"
    using y by (auto simp: arg_max_block_def)
qed

section \<open>Properties\<close>

text \<open>
  C22: \<open>finalizeRawRange\<close> succeeds only on a range whose every height has a raw block and whose
  inner parent-hash links all hold. It then leaves a \<open>completed\<close> row with the exact block
  count and the boundary hashes of the first and last block, and those agree with the completed
  neighbours on both sides.
\<close>

theorem finalize_validates:
  assumes "range_reachable db" and "finalizeRawRange pipeline f t now db = (Inr (), db')"
  shows "backed db f t
    \<and> (\<exists>r b c. range_at db' (rawRangeId pipeline f t) = Some r \<and> status r = Completed
        \<and> from_block r = f \<and> to_block r = t \<and> block_count r = t - f + 1
        \<and> block_at db f = Some b \<and> first_hash r = block_hash b \<and> first_parent_hash r = parent_hash b
        \<and> block_at db t = Some c \<and> last_hash r = block_hash c
        \<and> (\<forall>p. f > 0 \<and> previous_range db f = Some p \<longrightarrow> last_hash p = first_parent_hash r)
        \<and> (\<forall>n. next_range db t = Some n \<longrightarrow> first_parent_hash n = last_hash r))"
proof -
  note inv = reachable_invariant [OF assms(1)]
  from finalize_ok_cases [OF assms(2)] have ft: "f \<le> t"
    and clean: "range_validation_errors db f t (readRawRangeStats db f t) = []" by metis+
  have b: "backed db f t" using clean_validation_backed inv ft clean by blast
  from blocks_sorted_first [of db f t] inv b obtain x y where
    x: "arg_min_block (blocks_in db f t) = Some x" "block_at db f = Some x" and
    y: "arg_max_block (blocks_in db f t) = Some y" "block_at db t = Some y" by blast
  have db': "db' = snd (finalizeRawRange pipeline f t now db)" using assms(2) by simp
  from clean have adj: "validateAdjacentRanges db f t (readRawRangeStats db f t) = []"
    and cnt: "stat_blockCount (readRawRangeStats db f t) = t - f + 1"
    using ft by (auto simp: range_validation_errors_def expectedBlockCount_def Let_def split: if_splits)
  have stats: "stat_firstHash (readRawRangeStats db f t) = block_hash x"
    "stat_firstParentHash (readRawRangeStats db f t) = parent_hash x"
    "stat_lastHash (readRawRangeStats db f t) = block_hash y"
    using x y by (simp_all add: readRawRangeStats_def Let_def)
  show ?thesis
  proof (intro conjI exI)
    show "range_at db' (rawRangeId pipeline f t) = Some (range_state_row
        ((range_input pipeline f t Completed (loadExistingStartedAt db pipeline f t))
                 \<lparr>in_firstHash := Some (block_hash x), in_firstParentHash := Some (parent_hash x),
                  in_lastHash := Some (block_hash y), in_blockCount := Some (t - f + 1),
                  in_expectedBlockCount := Some (expectedBlockCount f t),
                  in_brokenParentLinks := Some (stat_brokenParentLinks (readRawRangeStats db f t)),
                  in_completedAt := Some (date_time now)\<rparr>) now)"
      using ft clean cnt stats by (simp add: db' finalizeRawRange_def Let_def expectedBlockCount_def)
  qed (use b x y adj stats in \<open>auto simp: range_state_row_def validateAdjacentRanges_def split: if_splits\<close>)
qed

theorem finalize_validates_witness:
  "\<exists>db'. finalizeRawRange ''main'' 7 7 \<lparr>date_time = ''t0'', date_time64 = ''t0.0''\<rparr>
     \<lparr>raw_blocks = [(7, \<lparr>block_height = 7, block_hash = ''b'', parent_hash = ''a''\<rparr>)],
      raw_ingestion_ranges = [], range_failures = []\<rparr> = (Inr (), db')
   \<and> backed \<lparr>raw_blocks = [(7, \<lparr>block_height = 7, block_hash = ''b'', parent_hash = ''a''\<rparr>)],
      raw_ingestion_ranges = [], range_failures = []\<rparr> 7 7"
proof -
  let ?b = "\<lparr>block_height = 7, block_hash = ''b'', parent_hash = ''a''\<rparr> :: raw_block"
  let ?db = "\<lparr>raw_blocks = [(7, ?b)], raw_ingestion_ranges = [], range_failures = []\<rparr> :: raw_db"
  let ?now = "\<lparr>date_time = ''t0'', date_time64 = ''t0.0''\<rparr> :: clock"
  have reach: "range_reachable ?db"
    using range_reachable.step [OF range_reachable.start range_step.ingest [of _ ?b]] by simp
  have "fst (finalizeRawRange ''main'' 7 7 ?now ?db) = Inr ()" by code_simp
  then have run: "finalizeRawRange ''main'' 7 7 ?now ?db = (Inr (), snd (finalizeRawRange ''main'' 7 7 ?now ?db))"
    by (metis prod.collapse)
  from finalize_validates [OF reach run] run show ?thesis by blast
qed

text \<open>
  C24: a range that was finalized stays \<open>completed\<close>: no sequence of ingests, restarts
  (\<open>markRawRangeRunning\<close>), failures or repeated finalizations, even of a range with the same id,
  ever moves its row to another status.
\<close>

theorem completed_is_final:
  assumes "range_step\<^sup>*\<^sup>* db db'" and "loadExistingRangeStatus db pipeline f t = Some Completed"
  shows "loadExistingRangeStatus db' pipeline f t = Some Completed"
  using assms unfolding loadExistingRangeStatus_def
  by (induction rule: rtranclp_induct) (auto dest: completed_kept)

theorem completed_is_final_witness:
  "let now = \<lparr>date_time = ''t0'', date_time64 = ''t0.0''\<rparr>;
       db = snd (finalizeRawRange ''main'' 7 7 now
         \<lparr>raw_blocks = [(7, \<lparr>block_height = 7, block_hash = ''b'', parent_hash = ''a''\<rparr>)],
          raw_ingestion_ranges = [], range_failures = []\<rparr>)
   in loadExistingRangeStatus (markRawRangeFailed ''main'' 7 7 ''late'' now db) ''main'' 7 7 = Some Completed"
proof -
  let ?now = "\<lparr>date_time = ''t0'', date_time64 = ''t0.0''\<rparr> :: clock"
  let ?db = "snd (finalizeRawRange ''main'' 7 7 ?now
         \<lparr>raw_blocks = [(7, \<lparr>block_height = 7, block_hash = ''b'', parent_hash = ''a''\<rparr>)],
          raw_ingestion_ranges = [], range_failures = []\<rparr>)"
  have "loadExistingRangeStatus ?db ''main'' 7 7 = Some Completed" by code_simp
  from completed_is_final [OF r_into_rtranclp [of range_step, OF range_step.failed] this] show ?thesis
    by (simp add: Let_def)
qed

text \<open>\<open>mergeRawRanges\<close> keeps exactly the covered heights and returns the ranges sorted and
  separated by at least one uncovered height.
\<close>

lemma mergeRawRanges_normalizes:
  assumes "proper ranges"
  shows "gapped (mergeRawRanges ranges) \<and> proper (mergeRawRanges ranges)
    \<and> (\<forall>h. covers (mergeRawRanges ranges) h \<longleftrightarrow> covers ranges h)"
  using merge_ranges_ok [OF assms] .

text \<open>\<open>missingRawCoverage\<close> is the exact complement of the completed ranges inside the requested
  one: its ranges are proper, sorted, separated and inside \<open>[f, t]\<close>, and they hold precisely the
  heights no completed range covers.
\<close>

lemma missingRawCoverage_exact:
  assumes "proper completed" and "f \<le> t"
  shows "gapped (missingRawCoverage f t completed) \<and> proper (missingRawCoverage f t completed)
    \<and> (\<forall>h. covers (missingRawCoverage f t completed) h \<longleftrightarrow> f \<le> h \<and> h \<le> t \<and> \<not> covers completed h)"
  using missing_coverage_ok [OF assms] by blast

text \<open>
  C27: \<open>assertFinalizedRawCoverage\<close> passes exactly when each requested height lies in a completed
  range, and in every history of the store that means each requested height really has its raw
  block, so a derived run that the check admits never reads a hole.
\<close>

theorem coverage_assertion_sound:
  assumes "range_reachable db" and "f \<le> t"
  shows "(assertFinalizedRawCoverage db f t = Inr () \<longleftrightarrow>
      (\<forall>h \<in> {f..t}. \<exists>r \<in> snd ` set (raw_ingestion_ranges db).
         status r = Completed \<and> from_block r \<le> h \<and> h \<le> to_block r))
    \<and> (assertFinalizedRawCoverage db f t = Inr () \<longrightarrow> (\<forall>h \<in> {f..t}. block_at db h \<noteq> None))"
proof (intro conjI impI ballI)
  show iff: "assertFinalizedRawCoverage db f t = Inr () \<longleftrightarrow>
      (\<forall>h \<in> {f..t}. \<exists>r \<in> snd ` set (raw_ingestion_ranges db).
         status r = Completed \<and> from_block r \<le> h \<and> h \<le> to_block r)"
    using assert_coverage_iff [OF assms] .
  fix h assume "assertFinalizedRawCoverage db f t = Inr ()" "h \<in> {f..t}"
  with iff obtain r where "r \<in> snd ` set (raw_ingestion_ranges db)" "status r = Completed"
    "from_block r \<le> h" "h \<le> to_block r" by blast
  with reachable_invariant [OF assms(1)] show "block_at db h \<noteq> None"
    by (auto simp: completed_rows_backed_def backed_def)
qed

theorem coverage_assertion_sound_witness:
  "\<exists>e. assertFinalizedRawCoverage \<lparr>raw_blocks = [], raw_ingestion_ranges = [], range_failures = []\<rparr> 3 4 = Inl e"
proof -
  let ?db = "\<lparr>raw_blocks = [], raw_ingestion_ranges = [], range_failures = []\<rparr> :: raw_db"
  have "assertFinalizedRawCoverage ?db 3 4 \<noteq> Inr ()"
    using coverage_assertion_sound [OF range_reachable.start, of 3 4] by auto
  then show ?thesis by (cases "assertFinalizedRawCoverage ?db 3 4") auto
qed

end
