(* ===== verification/Raw_Store.thy ===== *)
theory Raw_Store
  imports Raw_Ranges Batching Ingest_Policy
begin

text \<open>
  The raw ingestion store: \<^verbatim>\<open>src/raw/store.ts\<close> (one insert buffer per raw table and the order in
  which they are written), \<^verbatim>\<open>src/raw/checkpoint.ts\<close> and \<^verbatim>\<open>src/raw/database.ts\<close> (when a batch is
  flushed and when the resume point moves), with the crash-recovery argument of the pipeline.

  The ClickHouse client is modelled by what the store uses of it: an \<open>insert\<close> appends rows to a
  table, and may also fail, before or after the rows became durable (\<open>insert_outcome\<close>, one per
  insert of the run). A failed insert is an exception: it leaves \<open>transact\<close>, and the processor
  stops. The raw tables are append-only here; their ReplacingMergeTree keys only matter for
  \<open>raw_blocks\<close>, which the range operations read.
\<close>

section \<open>Tables, rows and the client\<close>

text \<open>The tables in the order \<open>flushAll\<close> writes them.\<close>

datatype raw_table =
    Blocks | Extrinsics | Calls | Events | Snapshots | AccountAliases | BalanceObservations | EvmLogs
  | MoneyMarketEvents | MoneyMarketPositions | MoneyMarketReserves | XcmActivity | LmFarmEntries
  | AccountState | MoneyMarketOraclePrices | MoneyMarketCollateralAnchors | ParserWarnings

text \<open>A row of \<open>raw_blocks\<close> carries the columns the range checks read; other rows are opaque.\<close>

datatype 'r raw_row = BlockRow raw_block | OtherRow 'r

datatype insert_outcome = Stored | Dropped | StoredThenFailed

record raw_ingestion_row =
  last_block :: int
  last_hash_of :: string
  mode :: string

record 'r click_house =
  table_rows :: "raw_table \<Rightarrow> 'r raw_row list"
  raw_ingestion_state :: "(string, raw_ingestion_row) jsmap"
  range_tables :: raw_db
  insert_count :: nat
  outcome_of :: "nat \<Rightarrow> insert_outcome"

datatype store_error =
  InsertFailed | BadChunkSize | EndlessChunks | NotConnected | RangeInvalid string | CallbackFailed

definition ingest_block :: "raw_db \<Rightarrow> 'r raw_row \<Rightarrow> raw_db" where
  "ingest_block db row =
     (case row of BlockRow b \<Rightarrow> db\<lparr>raw_blocks := map_set (block_height b) b (raw_blocks db)\<rparr>
      | OtherRow _ \<Rightarrow> db)"

definition store_rows :: "raw_table \<Rightarrow> 'r raw_row list \<Rightarrow> 'r click_house \<Rightarrow> 'r click_house" where
  "store_rows table rows ch =
     ch\<lparr>table_rows := (table_rows ch)(table := table_rows ch table @ rows),
        range_tables := (if table = Blocks then foldl ingest_block (range_tables ch) rows
                         else range_tables ch)\<rparr>"

text \<open>\<open>client.insert\<close>, for whatever effect the statement has on the tables.\<close>

definition client_insert ::
  "('r click_house \<Rightarrow> 'r click_house) \<Rightarrow> 'r click_house \<Rightarrow> (store_error + unit) \<times> 'r click_house" where
  "client_insert effect ch =
     (let ch' = ch\<lparr>insert_count := insert_count ch + 1\<rparr> in
      case outcome_of ch (insert_count ch) of
        Stored \<Rightarrow> (Inr (), effect ch')
      | Dropped \<Rightarrow> (Inl InsertFailed, ch')
      | StoredThenFailed \<Rightarrow> (Inl InsertFailed, effect ch'))"

fun insert_chunks ::
  "raw_table \<Rightarrow> 'r raw_row list list \<Rightarrow> 'r click_house \<Rightarrow> (store_error + unit) \<times> 'r click_house" where
  "insert_chunks table [] ch = (Inr (), ch)"
| "insert_chunks table (rows # later) ch =
     (case client_insert (store_rows table rows) ch of
        (Inl e, ch') \<Rightarrow> (Inl e, ch')
      | (Inr _, ch') \<Rightarrow> insert_chunks table later ch')"

section \<open>The checkpoint\<close>

record raw_checkpoint_state =
  cp_height :: int
  cp_hash :: string
  hasCheckpoint :: bool

definition getRawIngestionState :: "'r click_house \<Rightarrow> string \<Rightarrow> raw_checkpoint_state" where
  "getRawIngestionState ch pipeline =
     (case map_of (raw_ingestion_state ch) pipeline of
        None \<Rightarrow> \<lparr>cp_height = 0, cp_hash = ''0x'', hasCheckpoint = False\<rparr>
      | Some row \<Rightarrow> \<lparr>cp_height = last_block row, cp_hash = last_hash_of row, hasCheckpoint = True\<rparr>)"

definition checkpoint_effect ::
  "string \<Rightarrow> int \<Rightarrow> string \<Rightarrow> string \<Rightarrow> 'r click_house \<Rightarrow> 'r click_house" where
  "checkpoint_effect pipeline height hash m ch =
     ch\<lparr>raw_ingestion_state :=
          map_set pipeline \<lparr>last_block = height, last_hash_of = hash, mode = m\<rparr> (raw_ingestion_state ch)\<rparr>"

definition saveRawCheckpoint ::
  "string \<Rightarrow> int \<Rightarrow> string \<Rightarrow> string \<Rightarrow> 'r click_house \<Rightarrow> (store_error + unit) \<times> 'r click_house" where
  "saveRawCheckpoint pipeline height hash m ch =
     client_insert (checkpoint_effect pipeline height hash m) ch"

section \<open>The store\<close>

type_synonym 'r raw_store = "raw_table \<Rightarrow> 'r raw_row batch_accumulator"

definition new_raw_store :: "int \<Rightarrow> store_error + 'r raw_store" where
  "new_raw_store threshold =
     (case new_batch threshold of Inl _ \<Rightarrow> Inl BadChunkSize | Inr b \<Rightarrow> Inr (\<lambda>_. b))"

text \<open>The seventeen \<open>add...\<close> methods.\<close>

definition add_rows :: "raw_table \<Rightarrow> 'r raw_row list \<Rightarrow> 'r raw_store \<Rightarrow> 'r raw_store" where
  "add_rows table rows st = st(table := batch_add rows (st table))"

text \<open>
  \<open>integerFromEnvironment\<close>: \<^const>\<open>None\<close> for a variable that is unset or empty; its reading as a
  number is \<^const>\<open>None\<close> inside when \<open>Number(value)\<close> is not finite.
\<close>

definition integerFromEnvironment :: "rat option option \<Rightarrow> int \<Rightarrow> int \<Rightarrow> int \<Rightarrow> int" where
  "integerFromEnvironment value fallback lo hi =
     (case value of None \<Rightarrow> fallback
      | Some None \<Rightarrow> fallback
      | Some (Some parsed) \<Rightarrow>
          (let n = \<lfloor>parsed\<rfloor> in
           if rat_of_int n = parsed \<and> is_safe_integer n \<and> n \<ge> lo \<and> n \<le> hi then n else fallback))"

record insert_environment =
  RAW_BALANCE_INSERT_CHUNK_SIZE :: "rat option option"
  RAW_BALANCE_INSERT_MAX_BYTES :: "rat option option"

definition chunkSizeForBalanceObservations :: "insert_environment \<Rightarrow> int" where
  "chunkSizeForBalanceObservations env =
     min (integerFromEnvironment (RAW_BALANCE_INSERT_CHUNK_SIZE env) 5000 1 MAX_SAFE_INTEGER) 50000"

definition maxBytesForBalanceObservationInsert :: "insert_environment \<Rightarrow> int" where
  "maxBytesForBalanceObservationInsert env =
     integerFromEnvironment (RAW_BALANCE_INSERT_MAX_BYTES env) (64 * 1024 * 1024) 1 MAX_SAFE_INTEGER"

text \<open>The splitting loop of \<open>flushBalanceObservations\<close>: the chunks so far, the open chunk, its bytes.\<close>

fun balance_chunk_loop ::
  "('a \<Rightarrow> int) \<Rightarrow> int \<Rightarrow> int \<Rightarrow> 'a list \<Rightarrow> 'a list list \<Rightarrow> 'a list \<Rightarrow> int \<Rightarrow> 'a list list" where
  "balance_chunk_loop jsonRowBytes chunkSize maxBytes [] chunks open_chunk chunkBytes =
     (if length open_chunk > 0 then chunks @ [open_chunk] else chunks)"
| "balance_chunk_loop jsonRowBytes chunkSize maxBytes (row # rows) chunks open_chunk chunkBytes =
     (let rowBytes = jsonRowBytes row in
      if length open_chunk > 0
         \<and> (int (length open_chunk) \<ge> chunkSize \<or> chunkBytes + rowBytes > maxBytes)
      then balance_chunk_loop jsonRowBytes chunkSize maxBytes rows (chunks @ [open_chunk]) [row] rowBytes
      else balance_chunk_loop jsonRowBytes chunkSize maxBytes rows chunks (open_chunk @ [row])
             (chunkBytes + rowBytes))"

definition balance_chunks :: "('a \<Rightarrow> int) \<Rightarrow> int \<Rightarrow> int \<Rightarrow> 'a list \<Rightarrow> 'a list list" where
  "balance_chunks jsonRowBytes chunkSize maxBytes rows =
     balance_chunk_loop jsonRowBytes chunkSize maxBytes rows [] [] 0"

text \<open>
  Both flushes empty the buffer before the first insert, so a failing insert loses the rest of the
  buffer from memory. \<open>jsonRowBytes\<close> (the length of a row's JSON text) is a parameter.
\<close>

definition flushBatch ::
  "raw_table \<Rightarrow> 'r raw_store \<Rightarrow> 'r click_house \<Rightarrow> (store_error + unit) \<times> 'r raw_store \<times> 'r click_house" where
  "flushBatch table st ch =
     (let (chunks, b) = batch_flushChunks (st table); st' = st(table := b) in
      case chunks of
        Inl _ \<Rightarrow> (Inl BadChunkSize, st', ch)
      | Inr None \<Rightarrow> (Inl EndlessChunks, st', ch)
      | Inr (Some cs) \<Rightarrow> (let (res, ch') = insert_chunks table cs ch in (res, st', ch')))"

definition flushBalanceObservations ::
  "insert_environment \<Rightarrow> ('r raw_row \<Rightarrow> int) \<Rightarrow> 'r raw_store \<Rightarrow> 'r click_house
    \<Rightarrow> (store_error + unit) \<times> 'r raw_store \<times> 'r click_house" where
  "flushBalanceObservations env jsonRowBytes st ch =
     (let (rows, b) = batch_flush (st BalanceObservations); st' = st(BalanceObservations := b) in
      if length rows = 0 then (Inr (), st', ch)
      else
        (let (res, ch') = insert_chunks BalanceObservations
               (balance_chunks jsonRowBytes (chunkSizeForBalanceObservations env)
                  (maxBytesForBalanceObservationInsert env) rows) ch
         in (res, st', ch')))"

definition flushTable ::
  "insert_environment \<Rightarrow> ('r raw_row \<Rightarrow> int) \<Rightarrow> raw_table \<Rightarrow> 'r raw_store \<Rightarrow> 'r click_house
    \<Rightarrow> (store_error + unit) \<times> 'r raw_store \<times> 'r click_house" where
  "flushTable env jsonRowBytes table st ch =
     (if table = BalanceObservations then flushBalanceObservations env jsonRowBytes st ch
      else flushBatch table st ch)"

definition flush_order :: "raw_table list" where
  "flush_order =
     [Blocks, Extrinsics, Calls, Events, Snapshots, AccountAliases, BalanceObservations, EvmLogs,
      MoneyMarketEvents, MoneyMarketPositions, MoneyMarketReserves, XcmActivity, LmFarmEntries,
      AccountState, MoneyMarketOraclePrices, MoneyMarketCollateralAnchors, ParserWarnings]"

fun flush_tables ::
  "insert_environment \<Rightarrow> ('r raw_row \<Rightarrow> int) \<Rightarrow> raw_table list \<Rightarrow> 'r raw_store \<Rightarrow> 'r click_house
    \<Rightarrow> (store_error + unit) \<times> 'r raw_store \<times> 'r click_house" where
  "flush_tables env jsonRowBytes [] st ch = (Inr (), st, ch)"
| "flush_tables env jsonRowBytes (table # tables) st ch =
     (case flushTable env jsonRowBytes table st ch of
        (Inl e, st', ch') \<Rightarrow> (Inl e, st', ch')
      | (Inr _, st', ch') \<Rightarrow> flush_tables env jsonRowBytes tables st' ch')"

definition flushAll ::
  "insert_environment \<Rightarrow> ('r raw_row \<Rightarrow> int) \<Rightarrow> 'r raw_store \<Rightarrow> 'r click_house
    \<Rightarrow> (store_error + unit) \<times> 'r raw_store \<times> 'r click_house" where
  "flushAll env jsonRowBytes st ch = flush_tables env jsonRowBytes flush_order st ch"

definition store_pendingBlocks :: "'r raw_store \<Rightarrow> int" where
  "store_pendingBlocks st = int (batch_size (st Blocks))"

definition store_pendingRows :: "'r raw_store \<Rightarrow> int" where
  "store_pendingRows st = Max (set (map (\<lambda>table. int (batch_size (st table))) flush_order))"

section \<open>The processor's database\<close>

record hash_and_height =
  head_height :: int
  head_hash :: string

definition rawResumeHead :: "raw_checkpoint_state \<Rightarrow> (int \<times> int) option \<Rightarrow> hash_and_height" where
  "rawResumeHead state bounds =
     (if map_option fst bounds = Some 0 \<and> \<not> hasCheckpoint state
      then \<lparr>head_height = -1, head_hash = ''0x''\<rparr>
      else \<lparr>head_height = cp_height state, head_hash = cp_hash state\<rparr>)"

record final_tx_info =
  nextHead :: hash_and_height
  isOnTop :: bool

text \<open>What a process reads from outside: environment, row sizes and the clocks of one call.\<close>

record 'r surroundings =
  insert_env :: insert_environment
  json_row_bytes :: "'r raw_row \<Rightarrow> int"
  now_before :: int
  now_after :: int
  finalize_clock :: clock

record 'r raw_database =
  db_store :: "'r raw_store option"
  db_pipelineId :: string
  finalizeRangeBounds :: "(int \<times> int) option"
  rangeFinalized :: bool
  flushLimits :: raw_flush_limits
  lastFlushAt :: int

definition new_raw_database :: "string \<Rightarrow> (int \<times> int) option \<Rightarrow> raw_flush_limits \<Rightarrow> int \<Rightarrow> 'r raw_database" where
  "new_raw_database pipeline bounds limits started =
     \<lparr>db_store = None, db_pipelineId = pipeline, finalizeRangeBounds = bounds, rangeFinalized = False,
      flushLimits = limits, lastFlushAt = started\<rparr>"

definition connect ::
  "int \<Rightarrow> 'r raw_database \<Rightarrow> 'r click_house \<Rightarrow> (store_error + hash_and_height) \<times> 'r raw_database" where
  "connect batchSize db ch =
     (case new_raw_store batchSize of
        Inl e \<Rightarrow> (Inl e, db)
      | Inr st \<Rightarrow>
          (Inr (rawResumeHead (getRawIngestionState ch (db_pipelineId db)) (finalizeRangeBounds db)),
           db\<lparr>db_store := Some st\<rparr>))"

definition finalizeRange ::
  "int \<Rightarrow> int \<Rightarrow> clock \<Rightarrow> 'r raw_database \<Rightarrow> 'r click_house
    \<Rightarrow> (store_error + unit) \<times> 'r raw_database \<times> 'r click_house" where
  "finalizeRange f t now db ch =
     (if rangeFinalized db then (Inr (), db, ch)
      else if db_store db = None then (Inl NotConnected, db, ch)
      else
        (case finalizeRawRange (db_pipelineId db) f t now (range_tables ch) of
           (Inl message, tabs) \<Rightarrow> (Inl (RangeInvalid message), db, ch\<lparr>range_tables := tabs\<rparr>)
         | (Inr _, tabs) \<Rightarrow> (Inr (), db\<lparr>rangeFinalized := True\<rparr>, ch\<lparr>range_tables := tabs\<rparr>)))"

definition database_markRangeRunning ::
  "int \<Rightarrow> int \<Rightarrow> clock \<Rightarrow> 'r raw_database \<Rightarrow> 'r click_house \<Rightarrow> (store_error + unit) \<times> 'r click_house" where
  "database_markRangeRunning f t now db ch =
     (if db_store db = None then (Inl NotConnected, ch)
      else (Inr (), ch\<lparr>range_tables := markRawRangeRunning (db_pipelineId db) f t now (range_tables ch)\<rparr>))"

definition database_markRangeFailed ::
  "int \<Rightarrow> int \<Rightarrow> string \<Rightarrow> clock \<Rightarrow> 'r raw_database \<Rightarrow> 'r click_house \<Rightarrow> (store_error + unit) \<times> 'r click_house" where
  "database_markRangeFailed f t message now db ch =
     (if db_store db = None then (Inl NotConnected, ch)
      else (Inr (), ch\<lparr>range_tables :=
              markRawRangeFailed (db_pipelineId db) f t message now (range_tables ch)\<rparr>))"

definition range_end_reached :: "'r raw_database \<Rightarrow> final_tx_info \<Rightarrow> bool" where
  "range_end_reached db info =
     (case finalizeRangeBounds db of None \<Rightarrow> False | Some (f, t) \<Rightarrow> head_height (nextHead info) \<ge> t)"

definition flush_due :: "'r surroundings \<Rightarrow> final_tx_info \<Rightarrow> 'r raw_database \<Rightarrow> 'r raw_store \<Rightarrow> bool" where
  "flush_due out info db st =
     shouldFlushRaw
       \<lparr>pendingBlocks = store_pendingBlocks st, pendingRows = store_pendingRows st,
        msSinceLastFlush = now_before out - lastFlushAt db, atChainHead = isOnTop info,
        reachedRangeEnd = range_end_reached db info\<rparr> (flushLimits db)"

text \<open>\<open>transact\<close> from the flush on.\<close>

definition flush_and_checkpoint ::
  "'r surroundings \<Rightarrow> final_tx_info \<Rightarrow> 'r raw_database \<Rightarrow> 'r raw_store \<Rightarrow> 'r click_house
    \<Rightarrow> (store_error + unit) \<times> 'r raw_database \<times> 'r click_house" where
  "flush_and_checkpoint out info db st ch =
     (case flushAll (insert_env out) (json_row_bytes out) st ch of
        (Inl e, st1, ch1) \<Rightarrow> (Inl e, db\<lparr>db_store := Some st1\<rparr>, ch1)
      | (Inr _, st1, ch1) \<Rightarrow>
          (let db1 = db\<lparr>db_store := Some st1, lastFlushAt := now_after out\<rparr> in
           case saveRawCheckpoint (db_pipelineId db) (head_height (nextHead info)) (head_hash (nextHead info))
                  (if isOnTop info then ''live'' else ''archive'') ch1 of
             (Inl e, ch2) \<Rightarrow> (Inl e, db1, ch2)
           | (Inr _, ch2) \<Rightarrow>
               (case finalizeRangeBounds db of
                  Some (f, t) \<Rightarrow>
                    if \<not> rangeFinalized db \<and> range_end_reached db info
                    then finalizeRange f t (finalize_clock out) db1 ch2
                    else (Inr (), db1, ch2)
                | None \<Rightarrow> (Inr (), db1, ch2))))"

definition transact ::
  "'r surroundings \<Rightarrow> final_tx_info \<Rightarrow> ('r raw_store \<Rightarrow> (store_error + unit) \<times> 'r raw_store)
    \<Rightarrow> 'r raw_database \<Rightarrow> 'r click_house \<Rightarrow> (store_error + unit) \<times> 'r raw_database \<times> 'r click_house" where
  "transact out info cb db ch =
     (case db_store db of
        None \<Rightarrow> (Inl NotConnected, db, ch)
      | Some st \<Rightarrow>
          (case cb st of
             (Inl e, st1) \<Rightarrow> (Inl e, db\<lparr>db_store := Some st1\<rparr>, ch)
           | (Inr _, st1) \<Rightarrow>
               if \<not> flush_due out info db st1 then (Inr (), db\<lparr>db_store := Some st1\<rparr>, ch)
               else flush_and_checkpoint out info db st1 ch))"

section \<open>Splitting the balance rows\<close>

lemma chunk_bytes_ok_append:
  "0 < k \<Longrightarrow> \<not> (0 < length xs \<and> (k \<le> int (length xs) \<or> m < b + (n :: int))) \<Longrightarrow>
     xs = [] \<or> int (length xs) \<le> k - 1 \<and> b + n \<le> m"
  by (cases xs) auto

text \<open>A chunk is within the limits, or holds a single row.\<close>

definition chunk_within :: "('a \<Rightarrow> int) \<Rightarrow> int \<Rightarrow> int \<Rightarrow> 'a list \<Rightarrow> bool" where
  "chunk_within bytes k m c \<longleftrightarrow>
     c \<noteq> [] \<and> int (length c) \<le> k \<and> (length c = 1 \<or> sum_list (map bytes c) \<le> m)"

lemma balance_chunk_loop_ok:
  assumes "0 < k" and "b = sum_list (map bytes xs)" and "xs = [] \<or> chunk_within bytes k m xs"
    and "\<forall>c \<in> set chunks. chunk_within bytes k m c"
  shows "concat (balance_chunk_loop bytes k m rows chunks xs b) = concat chunks @ xs @ rows
    \<and> (\<forall>c \<in> set (balance_chunk_loop bytes k m rows chunks xs b). chunk_within bytes k m c)"
  using assms
proof (induction bytes k m rows chunks xs b rule: balance_chunk_loop.induct)
  case (1 bytes k m chunks xs b)
  then show ?case by auto
next
  case (2 bytes k m row rows chunks xs b)
  have single: "chunk_within bytes k m [row]" using "2.prems"(1) by (simp add: chunk_within_def)
  show ?case
  proof (cases "length xs > 0 \<and> (int (length xs) \<ge> k \<or> b + bytes row > m)")
    case True
    with "2.prems" single have "\<forall>c \<in> set (chunks @ [xs]). chunk_within bytes k m c" by auto
    from "2.IH"(1) [OF refl True "2.prems"(1) _ _ this] single True show ?thesis
      by (simp add: Let_def)
  next
    case False
    have "chunk_within bytes k m (xs @ [row])"
      using chunk_bytes_ok_append [OF "2.prems"(1) False] "2.prems"(2) single
      by (auto simp: chunk_within_def)
    with "2.IH"(2) [OF refl False "2.prems"(1) _ _ "2.prems"(4)] "2.prems"(2)
    have "concat (balance_chunk_loop bytes k m rows chunks (xs @ [row]) (b + bytes row)) =
        concat chunks @ xs @ row # rows \<and>
      (\<forall>c \<in> set (balance_chunk_loop bytes k m rows chunks (xs @ [row]) (b + bytes row)).
        chunk_within bytes k m c)" by simp
    then show ?thesis unfolding balance_chunk_loop.simps(2) Let_def if_not_P [OF False] .
  qed
qed

lemma integerFromEnvironment_range:
  "lo \<le> fallback \<Longrightarrow> lo \<le> integerFromEnvironment value fallback lo hi"
  by (auto simp: integerFromEnvironment_def Let_def split: option.splits)

lemma chunkSize_bounds:
  "0 < chunkSizeForBalanceObservations env" "chunkSizeForBalanceObservations env \<le> 50000"
  using integerFromEnvironment_range [of 1 5000 "RAW_BALANCE_INSERT_CHUNK_SIZE env" MAX_SAFE_INTEGER]
  by (auto simp: chunkSizeForBalanceObservations_def)

lemma balance_chunks_within:
  "concat (balance_chunks bytes (chunkSizeForBalanceObservations env) m rows) = rows \<and>
   (\<forall>c \<in> set (balance_chunks bytes (chunkSizeForBalanceObservations env) m rows).
      chunk_within bytes (chunkSizeForBalanceObservations env) m c)"
  unfolding balance_chunks_def
  using balance_chunk_loop_ok [OF chunkSize_bounds(1), of 0 bytes "[]" env m "[]" rows] by simp

text \<open>Whatever the environment says, the balance rows are split into inserts that together hold
  every row once and in order, none empty, none above 50,000 rows, and none above the byte limit
  unless a single row already is.\<close>

lemma balance_inserts_bounded:
  assumes "cs = balance_chunks bytes (chunkSizeForBalanceObservations env)
             (maxBytesForBalanceObservationInsert env) rows"
  shows "concat cs = rows \<and> (\<forall>c \<in> set cs. c \<noteq> [] \<and> length c \<le> 50000 \<and>
    (length c = 1 \<or> sum_list (map bytes c) \<le> maxBytesForBalanceObservationInsert env))"
  using balance_chunks_within [of bytes env "maxBytesForBalanceObservationInsert env" rows]
    chunkSize_bounds(2) [of env]
  unfolding assms chunk_within_def by force

section \<open>What a flush does\<close>

definition store_wf :: "'r raw_store \<Rightarrow> bool" where
  "store_wf st \<longleftrightarrow> (\<forall>table. assertPositiveChunkSize (flushThreshold (st table)) = Inr ())"

lemma new_raw_store_wf: "new_raw_store n = Inr st \<Longrightarrow> store_wf st \<and> (\<forall>table. buffer (st table) = [])"
  by (auto simp: new_raw_store_def new_batch_def store_wf_def assertPositiveChunkSize_def
      split: sum.splits if_splits)

lemma add_rows_wf [simp]: "store_wf (add_rows table rows st) = store_wf st"
  by (auto simp: store_wf_def add_rows_def)

lemma add_rows_buffer [simp]:
  "buffer (add_rows table rows st table') = buffer (st table') @ (if table' = table then rows else [])"
  by (simp add: add_rows_def batch_add_buffer)

text \<open>Growth of the tables by inserts; the checkpoint does not move.\<close>

definition tables_grow :: "'r click_house \<Rightarrow> 'r click_house \<Rightarrow> bool" where
  "tables_grow ch ch' \<longleftrightarrow> (\<forall>table. \<exists>more. table_rows ch' table = table_rows ch table @ more)
     \<and> raw_ingestion_state ch' = raw_ingestion_state ch"

lemma tables_grow_refl [simp]: "tables_grow ch ch"
  by (simp add: tables_grow_def)

lemma tables_grow_trans: "tables_grow a b \<Longrightarrow> tables_grow b c \<Longrightarrow> tables_grow a c"
  unfolding tables_grow_def by (metis append.assoc)

lemma store_rows_simps [simp]:
  "table_rows (store_rows table rows ch) table' =
     table_rows ch table' @ (if table' = table then rows else [])"
  "raw_ingestion_state (store_rows table rows ch) = raw_ingestion_state ch"
  by (simp_all add: store_rows_def)

lemma insert_chunks_grow:
  "insert_chunks table cs ch = (res, ch') \<Longrightarrow> tables_grow ch ch' \<and>
     (res = Inr () \<longrightarrow> (\<forall>table'. table_rows ch' table' =
        table_rows ch table' @ (if table' = table then concat cs else [])))"
proof (induction table cs ch arbitrary: ch' rule: insert_chunks.induct)
  case (2 table rows more ch)
  obtain r ch1 where step: "client_insert (store_rows table rows) ch = (r, ch1)" by fastforce
  have one: "tables_grow ch ch1" "r = Inr () \<Longrightarrow> table_rows ch1 table' =
      table_rows ch table' @ (if table' = table then rows else [])" for table'
    using step by (auto simp: client_insert_def tables_grow_def Let_def split: insert_outcome.splits)
  show ?case
  proof (cases r)
    case (Inl e)
    then have "res = Inl e" "ch' = ch1" using 2(2) step by auto
    with one show ?thesis by simp
  next
    case (Inr u)
    have rest: "insert_chunks table more ch1 = (res, ch')" using 2(2) step Inr by simp
    have r: "r = Inr ()" using Inr by simp
    from 2(1) [OF step [symmetric] r rest] one(2) [OF r] one(1) show ?thesis
      by (auto intro: tables_grow_trans)
  qed
qed simp

lemma flushTable_cases:
  assumes "store_wf st" and "flushTable env bytes table st ch = (res, st', ch')"
  shows "st' = st(table := (st table)\<lparr>buffer := []\<rparr>) \<and> tables_grow ch ch' \<and>
    (res = Inr () \<longrightarrow> (\<forall>table'. table_rows ch' table' =
       table_rows ch table' @ (if table' = table then buffer (st table) else [])))"
proof (cases "table = BalanceObservations")
  case True
  show ?thesis
  proof (cases "buffer (st table) = []")
    case empty: True
    with assms True show ?thesis
      by (auto simp: flushTable_def flushBalanceObservations_def batch_flush_def)
  next
    case False
    with True assms obtain ins where
      "insert_chunks BalanceObservations (balance_chunks bytes (chunkSizeForBalanceObservations env)
         (maxBytesForBalanceObservationInsert env) (buffer (st table))) ch = (res, ch')"
      "st' = st(table := (st table)\<lparr>buffer := []\<rparr>)"
      by (auto simp: flushTable_def flushBalanceObservations_def batch_flush_def split: prod.splits)
    with insert_chunks_grow [OF this(1)] True balance_chunks_within [of bytes env
        "maxBytesForBalanceObservationInsert env" "buffer (st table)"] show ?thesis by simp
  qed
next
  case False
  have t: "assertPositiveChunkSize (flushThreshold (st table)) = Inr ()"
    using assms(1) by (simp add: store_wf_def)
  then have pos: "0 < flushThreshold (st table)" by (simp add: assertPositiveChunkSize_def split: if_splits)
  let ?cs = "slices (nat (flushThreshold (st table))) (buffer (st table))"
  have "batch_flushChunks (st table) = (Inr (Some ?cs), (st table)\<lparr>buffer := []\<rparr>)"
    using t pos chunk_from_slices [of "flushThreshold (st table)" 0 "buffer (st table)"]
    by (simp add: batch_flushChunks_def batch_flush_def chunkRows_def)
  with False assms(2) have "insert_chunks table ?cs ch = (res, ch')"
    "st' = st(table := (st table)\<lparr>buffer := []\<rparr>)"
    by (auto simp: flushTable_def flushBatch_def split: prod.splits)
  with insert_chunks_grow [OF this(1)] concat_slices [of "nat (flushThreshold (st table))" "buffer (st table)"]
    pos show ?thesis by simp
qed

lemma flush_tables_cases:
  assumes "flush_tables env bytes tables st ch = (res, st', ch')" and "store_wf st"
  shows "store_wf st' \<and> tables_grow ch ch' \<and>
    (\<forall>table. buffer (st table) = [] \<longrightarrow> buffer (st' table) = []) \<and>
    (res = Inr () \<longrightarrow> (\<forall>table \<in> set tables. buffer (st' table) = [] \<and>
       set (buffer (st table)) \<subseteq> set (table_rows ch' table)))"
  using assms
proof (induction tables arbitrary: st ch)
  case (Cons table tables)
  obtain r st1 ch1 where step: "flushTable env bytes table st ch = (r, st1, ch1)"
    by (metis prod_cases3)
  note one = flushTable_cases [OF Cons.prems(2) step]
  have wf1: "store_wf st1" using one Cons.prems(2) by (auto simp: store_wf_def)
  have emptied: "\<forall>t. buffer (st1 t) = (if t = table then [] else buffer (st t))" using one by simp
  show ?case
  proof (cases r)
    case (Inl e)
    then have "res = Inl e" "st' = st1" "ch' = ch1" using Cons.prems(1) step by auto
    with one wf1 emptied show ?thesis by (auto simp del: fun_upd_apply)
  next
    case (Inr u)
    have rest: "flush_tables env bytes tables st1 ch1 = (res, st', ch')"
      using Cons.prems(1) step Inr by simp
    note ih = Cons.IH [OF rest wf1]
    have "set (buffer (st table)) \<subseteq> set (table_rows ch1 table)" using one Inr by simp
    then have kept: "set (buffer (st table)) \<subseteq> set (table_rows ch' table)"
      using ih unfolding tables_grow_def by (metis Un_iff set_append subset_iff)
    have "set (buffer (st t)) \<subseteq> set (table_rows ch' t)" if "res = Inr ()" "t \<in> set tables" for t
    proof (cases "t = table")
      case False
      with that ih have "set (buffer (st1 t)) \<subseteq> set (table_rows ch' t)" by blast
      with False emptied show ?thesis by simp
    qed (simp add: kept)
    moreover have "buffer (st' table) = []" using ih emptied by simp
    ultimately show ?thesis using ih kept emptied one tables_grow_trans by auto
  qed
qed simp

lemma flush_order_complete: "table \<in> set flush_order"
  by (cases table) (simp_all add: flush_order_def)

lemma flushAll_cases:
  assumes "flushAll env bytes st ch = (res, st', ch')" and "store_wf st"
  shows "store_wf st' \<and> tables_grow ch ch' \<and> (res = Inr () \<longrightarrow> (\<forall>table. buffer (st' table) = [] \<and>
       set (buffer (st table)) \<subseteq> set (table_rows ch' table)))"
  using flush_tables_cases [OF assms(1) [unfolded flushAll_def] assms(2)] flush_order_complete by blast

section \<open>Crash recovery\<close>

text \<open>
  A run of the pipeline over a finalized chain. \<open>chain h\<close> lists the rows of height \<open>h\<close>. A process
  is absent, or up with its database and the height the processor has delivered; the processor
  resumes at the head \<open>connect\<close> returns and delivers each later height in order (the heights before
  the configured start excepted). A batch adds, among others, the rows of the heights it delivers.
\<close>

record 'r pipeline =
  chain :: "int \<Rightarrow> (raw_table \<times> 'r raw_row) list"
  start_height :: int
  run_pipelineId :: string
  run_bounds :: "(int \<times> int) option"
  run_limits :: raw_flush_limits
  batch_size_config :: int

definition add_all :: "(raw_table \<times> 'r raw_row list) list \<Rightarrow> 'r raw_store \<Rightarrow> 'r raw_store" where
  "add_all adds st = foldl (\<lambda>st (table, rows). add_rows table rows st) st adds"

definition delivers :: "'r pipeline \<Rightarrow> int \<Rightarrow> int \<Rightarrow> (raw_table \<times> 'r raw_row list) list \<Rightarrow> bool" where
  "delivers p head till adds \<longleftrightarrow>
     (\<forall>h \<in> {max (head + 1) (start_height p)..till}. \<forall>(table, row) \<in> set (chain p h).
        \<exists>rows. (table, rows) \<in> set adds \<and> row \<in> set rows)"

inductive pipeline_step ::
  "'r pipeline \<Rightarrow> ('r raw_database \<times> int) option \<times> 'r click_house
    \<Rightarrow> ('r raw_database \<times> int) option \<times> 'r click_house \<Rightarrow> bool"
  for p :: "'r pipeline" where
  boot: "connect (batch_size_config p)
           (new_raw_database (run_pipelineId p) (run_bounds p) (run_limits p) now) ch = (Inr head, db) \<Longrightarrow>
    pipeline_step p (None, ch) (Some (db, head_height head), ch)"
| batch: "head < head_height (nextHead info) \<Longrightarrow>
    delivers p head (head_height (nextHead info)) adds \<Longrightarrow>
    transact out info (\<lambda>st. (Inr (), add_all adds st)) db ch = (Inr (), db', ch') \<Longrightarrow>
    pipeline_step p (Some (db, head), ch) (Some (db', head_height (nextHead info)), ch')"
| stopped: "head < head_height (nextHead info) \<Longrightarrow>
    delivers p head (head_height (nextHead info)) adds \<Longrightarrow>
    transact out info (\<lambda>st. (Inr (), add_all adds st)) db ch = (Inl e, db', ch') \<Longrightarrow>
    pipeline_step p (Some (db, head), ch) (None, ch')"
| crash: "pipeline_step p (Some up, ch) (None, ch)"
| elsewhere: "(\<forall>table. set (table_rows ch table) \<subseteq> set (table_rows ch' table)) \<Longrightarrow>
    map_of (raw_ingestion_state ch') (run_pipelineId p) = map_of (raw_ingestion_state ch) (run_pipelineId p) \<Longrightarrow>
    pipeline_step p (up, ch) (up, ch')"

inductive pipeline_reachable ::
  "'r pipeline \<Rightarrow> ('r raw_database \<times> int) option \<times> 'r click_house \<Rightarrow> bool"
  for p :: "'r pipeline" where
  fresh: "map_of (raw_ingestion_state ch) (run_pipelineId p) = None \<Longrightarrow> pipeline_reachable p (None, ch)"
| later: "pipeline_reachable p s \<Longrightarrow> pipeline_step p s s' \<Longrightarrow> pipeline_reachable p s'"

inductive_cases pipeline_stepE: "pipeline_step p s s'"

text \<open>The first height a run is responsible for: block zero only for a range that starts there.\<close>

definition first_height :: "'r pipeline \<Rightarrow> int" where
  "first_height p = (if map_option fst (run_bounds p) = Some 0 then max 0 (start_height p)
                     else max 1 (start_height p))"

definition durable :: "'r pipeline \<Rightarrow> 'r click_house \<Rightarrow> int \<Rightarrow> bool" where
  "durable p ch till \<longleftrightarrow> (\<forall>h \<in> {first_height p..till}. \<forall>(table, row) \<in> set (chain p h).
     row \<in> set (table_rows ch table))"

definition safe_in :: "'r pipeline \<Rightarrow> 'r raw_store \<Rightarrow> 'r click_house \<Rightarrow> int \<Rightarrow> bool" where
  "safe_in p st ch till \<longleftrightarrow> (\<forall>h \<in> {first_height p..till}. \<forall>(table, row) \<in> set (chain p h).
     row \<in> set (table_rows ch table) \<or> row \<in> set (buffer (st table)))"

definition checkpoint_durable :: "'r pipeline \<Rightarrow> 'r click_house \<Rightarrow> bool" where
  "checkpoint_durable p ch \<longleftrightarrow>
     (\<forall>row. map_of (raw_ingestion_state ch) (run_pipelineId p) = Some row \<longrightarrow> durable p ch (last_block row))"

definition process_ok :: "'r pipeline \<Rightarrow> ('r raw_database \<times> int) option \<times> 'r click_house \<Rightarrow> bool" where
  "process_ok p s \<longleftrightarrow> checkpoint_durable p (snd s) \<and>
     (case fst s of None \<Rightarrow> True
      | Some (db, head) \<Rightarrow>
          \<exists>st. db_store db = Some st \<and> store_wf st \<and> db_pipelineId db = run_pipelineId p
             \<and> safe_in p st (snd s) head)"

lemma add_all_simps [simp]:
  "add_all [] st = st"
  "add_all ((table, rows) # adds) st = add_all adds (add_rows table rows st)"
  by (simp_all add: add_all_def)

lemma add_all_wf: "store_wf (add_all adds st) = store_wf st"
proof (induction adds arbitrary: st)
  case (Cons a adds)
  show ?case by (cases a) (simp add: Cons.IH)
qed simp

lemma add_all_grow: "set (buffer (st table)) \<subseteq> set (buffer (add_all adds st table))"
proof (induction adds arbitrary: st)
  case (Cons a adds)
  obtain t rs where a: "a = (t, rs)" by (cases a)
  have "set (buffer (st table)) \<subseteq> set (buffer (add_rows t rs st table))" by simp
  with Cons.IH [of "add_rows t rs st"] a show ?case by simp
qed simp

lemma add_all_added:
  "(table, rows) \<in> set adds \<Longrightarrow> set rows \<subseteq> set (buffer (add_all adds st table))"
proof (induction adds arbitrary: st)
  case (Cons a adds)
  obtain t rs where a: "a = (t, rs)" by (cases a)
  show ?case
  proof (cases "a = (table, rows)")
    case True
    have "set rows \<subseteq> set (buffer (add_rows table rows st table))" by simp
    also have "\<dots> \<subseteq> set (buffer (add_all adds (add_rows table rows st) table))" by (rule add_all_grow)
    finally show ?thesis using True by simp
  next
    case False
    with Cons.prems have "(table, rows) \<in> set adds" by simp
    from Cons.IH [OF this] a show ?thesis by simp
  qed
qed simp

lemmas add_all_ok = add_all_wf add_all_grow add_all_added

lemma durable_grow:
  "durable p ch n \<Longrightarrow> (\<And>table. set (table_rows ch table) \<subseteq> set (table_rows ch' table)) \<Longrightarrow> durable p ch' n"
  unfolding durable_def by (fastforce split: prod.splits)

lemma tables_grow_set: "tables_grow ch ch' \<Longrightarrow> set (table_rows ch table) \<subseteq> set (table_rows ch' table)"
  unfolding tables_grow_def by (metis Un_upper1 set_append)

lemma delivers_safe:
  assumes "safe_in p st ch head" and "delivers p head till adds"
  shows "safe_in p (add_all adds st) ch till"
  unfolding safe_in_def
proof (intro ballI, clarify)
  fix h table row
  assume h: "h \<in> {first_height p..till}" and r: "(table, row) \<in> set (chain p h)"
    and new: "row \<notin> set (buffer (add_all adds st table))"
  show "row \<in> set (table_rows ch table)"
  proof (cases "h \<le> head")
    case True
    with h r assms(1) have "row \<in> set (table_rows ch table) \<or> row \<in> set (buffer (st table))"
      unfolding safe_in_def by fastforce
    with new add_all_ok(2) show ?thesis by blast
  next
    case False
    with h have "h \<in> {max (head + 1) (start_height p)..till}" by (auto simp: first_height_def split: if_splits)
    with assms(2) r obtain rows where "(table, rows) \<in> set adds" "row \<in> set rows"
      unfolding delivers_def by fastforce
    with add_all_ok(3) new show ?thesis by blast
  qed
qed

lemma safe_durable:
  "safe_in p st ch n \<Longrightarrow> (\<And>table. set (buffer (st table)) \<subseteq> set (table_rows ch' table)) \<Longrightarrow>
   tables_grow ch ch' \<Longrightarrow> durable p ch' n"
  using tables_grow_set unfolding safe_in_def durable_def by (fastforce split: prod.splits)

lemma durable_safe: "durable p ch n \<Longrightarrow> safe_in p st ch n"
  unfolding safe_in_def durable_def by blast

lemma saveRawCheckpoint_cases:
  assumes "saveRawCheckpoint pipeline n hash m ch = (res, ch')"
  shows "table_rows ch' = table_rows ch"
    and "map_of (raw_ingestion_state ch') pipeline \<in>
           {map_of (raw_ingestion_state ch) pipeline, Some \<lparr>last_block = n, last_hash_of = hash, mode = m\<rparr>}"
  using assms
  by (auto simp: saveRawCheckpoint_def client_insert_def checkpoint_effect_def Let_def
      split: insert_outcome.splits)

lemma finalizeRange_cases:
  assumes "finalizeRange f t now db ch = (res, db', ch')"
  shows "table_rows ch' = table_rows ch" and "raw_ingestion_state ch' = raw_ingestion_state ch"
    and "db_store db' = db_store db" and "db_pipelineId db' = db_pipelineId db"
  using assms by (auto simp: finalizeRange_def split: if_splits prod.splits sum.splits)

lemma checkpoint_durable_move:
  assumes "checkpoint_durable p ch" and "durable p ch' n"
    and "\<And>table. set (table_rows ch table) \<subseteq> set (table_rows ch' table)"
    and "map_of (raw_ingestion_state ch') (run_pipelineId p) \<in>
      {map_of (raw_ingestion_state ch) (run_pipelineId p), Some \<lparr>last_block = n, last_hash_of = hash, mode = m\<rparr>}"
  shows "checkpoint_durable p ch'"
  unfolding checkpoint_durable_def
proof (intro allI impI)
  fix row assume at: "map_of (raw_ingestion_state ch') (run_pipelineId p) = Some row"
  from assms(4) consider "map_of (raw_ingestion_state ch) (run_pipelineId p) = Some row" | "last_block row = n"
    unfolding at by auto
  then show "durable p ch' (last_block row)"
  proof cases
    case 1
    with assms(1) have "durable p ch (last_block row)" unfolding checkpoint_durable_def by blast
    from durable_grow [OF this assms(3)] show ?thesis .
  next
    case 2
    with assms(2) show ?thesis by simp
  qed
qed

lemma flush_and_checkpoint_ok:
  assumes "flush_and_checkpoint out info db st ch = (res, db', ch')"
    and "store_wf st" and "db_pipelineId db = run_pipelineId p"
    and "safe_in p st ch (head_height (nextHead info))" and "checkpoint_durable p ch"
  shows "checkpoint_durable p ch' \<and> (res = Inr () \<longrightarrow> durable p ch' (head_height (nextHead info)) \<and>
    (\<exists>st'. db_store db' = Some st' \<and> store_wf st' \<and> (\<forall>table. buffer (st' table) = []))
    \<and> db_pipelineId db' = run_pipelineId p)"
proof -
  obtain r1 st1 ch1 where fl: "flushAll (insert_env out) (json_row_bytes out) st ch = (r1, st1, ch1)"
    by (metis prod_cases3)
  note flushed = flushAll_cases [OF fl assms(2)]
  have kept: "checkpoint_durable p ch1"
  proof -
    have "raw_ingestion_state ch1 = raw_ingestion_state ch" using flushed by (simp add: tables_grow_def)
    moreover have "durable p ch n \<Longrightarrow> durable p ch1 n" for n
      using flushed by (elim durable_grow) (simp add: tables_grow_set)
    ultimately show ?thesis using assms(5) by (simp add: checkpoint_durable_def)
  qed
  show ?thesis
  proof (cases r1)
    case (Inl e)
    with fl assms(1) kept show ?thesis by (auto simp: flush_and_checkpoint_def)
  next
    case (Inr u)
    have all: "durable p ch1 (head_height (nextHead info))"
      using flushed Inr by (intro safe_durable [OF assms(4)]) auto
    define mo where "mo = (if isOnTop info then ''live'' else ''archive'')"
    define n where "n = head_height (nextHead info)"
    obtain r2 ch2 where sv: "saveRawCheckpoint (db_pipelineId db) n (head_hash (nextHead info)) mo ch1 = (r2, ch2)"
      by fastforce
    note cp = saveRawCheckpoint_cases [OF sv]
    have cp2: "checkpoint_durable p ch2" "durable p ch2 n"
      using checkpoint_durable_move [OF kept, of ch2 n "head_hash (nextHead info)" mo] all cp assms(3)
        durable_grow [of p ch1 n ch2] by (auto simp: n_def)
    let ?db1 = "db\<lparr>db_store := Some st1, lastFlushAt := now_after out\<rparr>"
    have same: "checkpoint_durable p c = checkpoint_durable p ch2 \<and> durable p c k = durable p ch2 k"
      if "table_rows c = table_rows ch2" "raw_ingestion_state c = raw_ingestion_state ch2" for c k
      using that by (simp add: checkpoint_durable_def durable_def)
    consider e where "r2 = Inl e" "res = Inl e" "ch' = ch2"
      | "res = Inr ()" "db' = ?db1" "ch' = ch2"
      | f t where "finalizeRange f t (finalize_clock out) ?db1 ch2 = (res, db', ch')"
    proof (cases r2)
      case err: (Inl e)
      then have "res = Inl e" "ch' = ch2"
        using assms(1) fl Inr sv by (simp_all add: flush_and_checkpoint_def n_def mo_def)
      with err that(1) show ?thesis by blast
    next
      case ok: (Inr u)
      have rest: "(case finalizeRangeBounds db of
          Some (f, t) \<Rightarrow>
            if \<not> rangeFinalized db \<and> range_end_reached db info
            then finalizeRange f t (finalize_clock out) ?db1 ch2 else (Inr (), ?db1, ch2)
        | None \<Rightarrow> (Inr (), ?db1, ch2)) = (res, db', ch')"
        using assms(1) fl Inr sv ok by (simp add: flush_and_checkpoint_def n_def mo_def Let_def)
      show ?thesis
      proof (cases "finalizeRangeBounds db")
        case None
        with rest that(2) show ?thesis by simp
      next
        case (Some ft)
        obtain f t where "ft = (f, t)" by (cases ft)
        with Some rest that(2) that(3) [of f t] show ?thesis
          by (cases "\<not> rangeFinalized db \<and> range_end_reached db info") auto
      qed
    qed
    then show ?thesis
    proof cases
      case 1 with cp2 show ?thesis by simp
    next
      case 2
      with cp2 flushed Inr assms(3) show ?thesis by (simp add: n_def)
    next
      case 3
      note fin = finalizeRange_cases [OF this]
      from same [OF fin(1,2)] cp2 fin(3,4) flushed Inr assms(3) show ?thesis by (simp add: n_def)
    qed
  qed
qed

lemma transact_ok:
  assumes "transact out info (\<lambda>st. (Inr (), add_all adds st)) db ch = (res, db', ch')"
    and "process_ok p (Some (db, head), ch)" and "delivers p head (head_height (nextHead info)) adds"
  shows "checkpoint_durable p ch'"
    and "res = Inr () \<Longrightarrow> process_ok p (Some (db', head_height (nextHead info)), ch')"
proof -
  from assms(2) obtain st where st: "db_store db = Some st" "store_wf st"
    "db_pipelineId db = run_pipelineId p" "safe_in p st ch head" "checkpoint_durable p ch"
    by (auto simp: process_ok_def)
  let ?st1 = "add_all adds st"
  have safe: "safe_in p ?st1 ch (head_height (nextHead info))" by (rule delivers_safe [OF st(4) assms(3)])
  have wf: "store_wf ?st1" using st(2) add_all_ok(1) by blast
  have "checkpoint_durable p ch' \<and>
    (res = Inr () \<longrightarrow> process_ok p (Some (db', head_height (nextHead info)), ch'))"
  proof (cases "flush_due out info db ?st1")
    case False
    with assms(1) st safe wf show ?thesis by (auto simp: transact_def process_ok_def)
  next
    case True
    with assms(1) st(1) have "flush_and_checkpoint out info db ?st1 ch = (res, db', ch')"
      by (simp add: transact_def)
    from flush_and_checkpoint_ok [OF this wf st(3) safe st(5)] show ?thesis
      by (auto simp: process_ok_def intro: durable_safe)
  qed
  then show "checkpoint_durable p ch'"
    and "res = Inr () \<Longrightarrow> process_ok p (Some (db', head_height (nextHead info)), ch')" by blast+
qed

lemma boot_ok:
  assumes "connect n (new_raw_database (run_pipelineId p) (run_bounds p) limits now) ch = (Inr head, db)"
    and "checkpoint_durable p ch"
  shows "process_ok p (Some (db, head_height head), ch)"
proof -
  from assms(1) obtain st where st: "new_raw_store n = Inr st"
    and db: "db_store db = Some st" "db_pipelineId db = run_pipelineId p"
    and head: "head = rawResumeHead (getRawIngestionState ch (run_pipelineId p)) (run_bounds p)"
    by (auto simp: connect_def new_raw_database_def split: sum.splits)
  have "safe_in p st ch (head_height head)"
  proof (cases "map_of (raw_ingestion_state ch) (run_pipelineId p)")
    case None
    then show ?thesis
      by (auto simp: safe_in_def head rawResumeHead_def getRawIngestionState_def first_height_def)
  next
    case (Some row)
    with assms(2) have "durable p ch (last_block row)" by (simp add: checkpoint_durable_def)
    with Some show ?thesis
      by (simp add: head rawResumeHead_def getRawIngestionState_def durable_safe)
  qed
  with st db assms(2) new_raw_store_wf show ?thesis unfolding process_ok_def by fastforce
qed

lemma process_ok_step: "pipeline_step p s s' \<Longrightarrow> process_ok p s \<Longrightarrow> process_ok p s'"
proof (induction rule: pipeline_step.induct)
  case (boot now ch head db)
  then show ?case by (intro boot_ok) (auto simp: process_ok_def)
next
  case (batch head info adds out db ch db' ch')
  then show ?case using transact_ok(2) by blast
next
  case (stopped head info adds out db ch e db' ch')
  then show ?case using transact_ok(1) [OF stopped.hyps(3) stopped.prems stopped.hyps(2)]
    by (simp add: process_ok_def)
next
  case (crash up ch)
  then show ?case by (simp add: process_ok_def)
next
  case (elsewhere ch ch' up)
  then have "checkpoint_durable p ch'"
    by (auto simp: process_ok_def checkpoint_durable_def intro: durable_grow)
  moreover have "safe_in p st ch n \<Longrightarrow> safe_in p st ch' n" for st n
    using elsewhere.hyps(1) unfolding safe_in_def by (fastforce split: prod.splits)
  ultimately show ?case using elsewhere.prems by (auto simp: process_ok_def split: option.splits)
qed

lemma process_ok_reachable: "pipeline_reachable p s \<Longrightarrow> process_ok p s"
proof (induction rule: pipeline_reachable.induct)
  case (fresh ch)
  then show ?case by (simp add: process_ok_def checkpoint_durable_def)
next
  case (later s s')
  then show ?case using process_ok_step by blast
qed

text \<open>C11: In every run of the raw pipeline, whatever inserts fail (before or after becoming durable) and
  wherever the process dies, the stored checkpoint never runs ahead of the data: the raw tables hold
  every row of every height up to it, from the first height the run is responsible for.\<close>

theorem checkpoint_never_ahead:
  assumes "pipeline_reachable p (up, ch)"
    and "map_of (raw_ingestion_state ch) (run_pipelineId p) = Some row"
    and "first_height p \<le> h" and "h \<le> last_block row" and "(table, r) \<in> set (chain p h)"
  shows "r \<in> set (table_rows ch table)"
  using process_ok_reachable [OF assms(1)] assms(2-5)
  by (fastforce simp: process_ok_def checkpoint_durable_def durable_def)

definition sample_block :: raw_block where
  "sample_block = \<lparr>block_height = 0, block_hash = ''0xaa'', parent_hash = ''0x00''\<rparr>"

definition sample_pipeline :: "int pipeline" where
  "sample_pipeline =
     \<lparr>chain = (\<lambda>h. if h = 0 then [(Blocks, BlockRow sample_block)] else []), start_height = 0,
      run_pipelineId = ''raw'', run_bounds = Some (0, 5),
      run_limits = \<lparr>limit_blocks = 10, limit_rows = 10, limit_elapsedMs = 10\<rparr>, batch_size_config = 100\<rparr>"

definition sample_house :: "int click_house" where
  "sample_house =
     \<lparr>table_rows = (\<lambda>_. []), raw_ingestion_state = [],
      range_tables = \<lparr>raw_blocks = [], raw_ingestion_ranges = [], range_failures = []\<rparr>,
      insert_count = 0, outcome_of = (\<lambda>_. Stored)\<rparr>"

definition sample_surroundings :: "int surroundings" where
  "sample_surroundings =
     \<lparr>insert_env = \<lparr>RAW_BALANCE_INSERT_CHUNK_SIZE = None, RAW_BALANCE_INSERT_MAX_BYTES = None\<rparr>,
      json_row_bytes = (\<lambda>_. 1), now_before = 1, now_after = 2,
      finalize_clock = \<lparr>date_time = ''d'', date_time64 = ''d.0''\<rparr>\<rparr>"

definition sample_info :: "int \<Rightarrow> final_tx_info" where
  "sample_info h = \<lparr>nextHead = \<lparr>head_height = h, head_hash = ''0xaa''\<rparr>, isOnTop = True\<rparr>"

lemma sample_batch: "new_batch 100 = Inr \<lparr>buffer = [], flushThreshold = 100\<rparr>"
  by (simp add: new_batch_def assertPositiveChunkSize_def is_safe_integer_def MAX_SAFE_INTEGER_def)

lemma sample_flushChunks:
  "batch_flushChunks \<lparr>buffer = [], flushThreshold = 100\<rparr> = (Inr (Some []), \<lparr>buffer = [], flushThreshold = 100\<rparr>)"
  "batch_flushChunks \<lparr>buffer = [x], flushThreshold = 100\<rparr> = (Inr (Some [[x]]), \<lparr>buffer = [], flushThreshold = 100\<rparr>)"
  by (simp_all add: batch_flushChunks_def batch_flush_def chunkRows_def chunk_from_slices
      assertPositiveChunkSize_def is_safe_integer_def MAX_SAFE_INTEGER_def)

lemma sample_run:
  "\<exists>db ch. pipeline_reachable sample_pipeline (Some (db, 0), ch) \<and>
     map_of (raw_ingestion_state ch) ''raw'' = Some \<lparr>last_block = 0, last_hash_of = ''0xaa'', mode = ''live''\<rparr>"
proof -
  let ?new = "new_raw_database ''raw'' (Some (0, 5)) \<lparr>limit_blocks = 10, limit_rows = 10, limit_elapsedMs = 10\<rparr> 0"
  let ?db = "?new\<lparr>db_store := Some (\<lambda>_. \<lparr>buffer = [], flushThreshold = 100\<rparr>)\<rparr> :: int raw_database"
  let ?adds = "[(Blocks, [BlockRow sample_block])]"
  have r0: "pipeline_reachable sample_pipeline (None, sample_house)"
    by (rule pipeline_reachable.fresh) (simp add: sample_house_def)
  have "connect 100 ?new sample_house = (Inr \<lparr>head_height = -1, head_hash = ''0x''\<rparr>, ?db)"
    by (simp add: connect_def new_raw_store_def sample_batch rawResumeHead_def getRawIngestionState_def
        new_raw_database_def sample_house_def)
  then have "pipeline_step sample_pipeline (None, sample_house) (Some (?db, -1), sample_house)"
    using pipeline_step.boot [of sample_pipeline 0 sample_house] by (simp add: sample_pipeline_def)
  with r0 have r1: "pipeline_reachable sample_pipeline (Some (?db, -1), sample_house)"
    by (rule pipeline_reachable.later)
  have d: "delivers sample_pipeline (-1) 0 ?adds"
    by (auto simp: delivers_def sample_pipeline_def)
  obtain db' ch' where t: "transact sample_surroundings (sample_info 0) (\<lambda>st. (Inr (), add_all ?adds st)) ?db sample_house
      = (Inr (), db', ch')"
    and c: "map_of (raw_ingestion_state ch') ''raw'' = Some \<lparr>last_block = 0, last_hash_of = ''0xaa'', mode = ''live''\<rparr>"
    by (simp add: transact_def flush_due_def shouldFlushRaw_def sample_info_def flush_and_checkpoint_def
        flushAll_def flush_order_def flushTable_def flushBatch_def flushBalanceObservations_def
        add_rows_def batch_add_def sample_flushChunks batch_flush_def client_insert_def sample_house_def
        saveRawCheckpoint_def checkpoint_effect_def new_raw_database_def range_end_reached_def store_rows_def)
  have "pipeline_step sample_pipeline (Some (?db, -1), sample_house) (Some (db', 0), ch')"
    using pipeline_step.batch [OF _ _ t, of "-1" sample_pipeline] d by (simp add: sample_info_def)
  with r1 c show ?thesis using pipeline_reachable.later by blast
qed

theorem checkpoint_never_ahead_witness:
  "\<exists>up ch. pipeline_reachable sample_pipeline (up, ch) \<and> BlockRow sample_block \<in> set (table_rows ch Blocks)"
proof -
  from sample_run obtain db ch where r: "pipeline_reachable sample_pipeline (Some (db, 0), ch)"
    and c: "map_of (raw_ingestion_state ch) (run_pipelineId sample_pipeline) =
      Some \<lparr>last_block = 0, last_hash_of = ''0xaa'', mode = ''live''\<rparr>"
    by (auto simp: sample_pipeline_def)
  have "BlockRow sample_block \<in> set (table_rows ch Blocks)"
    by (rule checkpoint_never_ahead [OF r c, of 0]) (simp_all add: sample_pipeline_def first_height_def)
  with r show ?thesis by blast
qed

section \<open>The end of a bounded range\<close>

lemma finalize_marks_completed:
  assumes "finalizeRawRange pipeline f t now db = (Inr (), db')"
  shows "loadExistingRangeStatus db' pipeline f t = Some Completed"
  using assms by (auto simp: finalizeRawRange_def Let_def loadExistingRangeStatus_def split: if_splits)

lemma saveRawCheckpoint_saved:
  assumes "saveRawCheckpoint pipeline n hash m ch = (Inr u, ch')"
  shows "getRawIngestionState ch' pipeline = \<lparr>cp_height = n, cp_hash = hash, hasCheckpoint = True\<rparr>"
  using assms
  by (auto simp: saveRawCheckpoint_def client_insert_def checkpoint_effect_def Let_def
      getRawIngestionState_def split: insert_outcome.splits)

text \<open>C23: When the batch that reaches the end of a bounded range is processed without an error, everything
  buffered is in the raw tables, the checkpoint is the batch's head, and the range is recorded as
  completed, once, after its validation.\<close>

theorem range_end_flushes_then_finalizes:
  assumes "transact out info cb db ch = (Inr (), db', ch')"
    and "db_store db = Some st" and "cb st = (Inr (), st1)" and "store_wf st1"
    and "finalizeRangeBounds db = Some (f, t)" and "t \<le> head_height (nextHead info)"
    and "\<not> rangeFinalized db"
  shows "(\<exists>st'. db_store db' = Some st' \<and> (\<forall>table. buffer (st' table) = [] \<and>
      set (buffer (st1 table)) \<subseteq> set (table_rows ch' table)))
    \<and> getRawIngestionState ch' (db_pipelineId db) =
        \<lparr>cp_height = head_height (nextHead info), cp_hash = head_hash (nextHead info), hasCheckpoint = True\<rparr>
    \<and> rangeFinalized db' \<and> loadExistingRangeStatus (range_tables ch') (db_pipelineId db) f t = Some Completed"
proof -
  have due: "flush_due out info db st1" "range_end_reached db info"
    using assms(5,6) by (simp_all add: flush_due_def range_end_reached_def shouldFlushRaw_def)
  obtain r1 st2 ch1 where fl: "flushAll (insert_env out) (json_row_bytes out) st1 ch = (r1, st2, ch1)"
    by (metis prod_cases3)
  have run: "flush_and_checkpoint out info db st1 ch = (Inr (), db', ch')"
    using assms(1-3) due by (simp add: transact_def)
  then have r1: "r1 = Inr ()" using fl by (cases r1) (simp_all add: flush_and_checkpoint_def)
  let ?db1 = "db\<lparr>db_store := Some st2, lastFlushAt := now_after out\<rparr>"
  obtain r2 ch2 where sv: "saveRawCheckpoint (db_pipelineId db) (head_height (nextHead info))
      (head_hash (nextHead info)) (if isOnTop info then ''live'' else ''archive'') ch1 = (r2, ch2)"
    by fastforce
  have r2: "r2 = Inr ()" using run fl r1 sv by (cases r2) (simp_all add: flush_and_checkpoint_def)
  have fin: "finalizeRange f t (finalize_clock out) ?db1 ch2 = (Inr (), db', ch')"
    using run fl r1 sv r2 assms(5,7) due(2) by (simp add: flush_and_checkpoint_def Let_def)
  obtain tabs where tabs: "finalizeRawRange (db_pipelineId db) f t (finalize_clock out) (range_tables ch2) = (Inr (), tabs)"
    and out: "db' = ?db1\<lparr>rangeFinalized := True\<rparr>" "ch' = ch2\<lparr>range_tables := tabs\<rparr>"
    using fin assms(7) by (auto simp: finalizeRange_def split: prod.splits sum.splits if_splits)
  show ?thesis
    using flushAll_cases [OF fl assms(4)] r1 saveRawCheckpoint_cases(1) [OF sv] out
      saveRawCheckpoint_saved [OF sv [unfolded r2]] finalize_marks_completed [OF tabs]
    by (simp add: getRawIngestionState_def)
qed

definition sample_range_database :: "int raw_database" where
  "sample_range_database =
     (new_raw_database ''raw'' (Some (0, 0)) \<lparr>limit_blocks = 10, limit_rows = 10, limit_elapsedMs = 10\<rparr> 0)
       \<lparr>db_store := Some (\<lambda>_. \<lparr>buffer = [], flushThreshold = 100\<rparr>)\<rparr>"

lemma sample_finalize:
  "fst (finalizeRawRange ''raw'' 0 0 now
     \<lparr>raw_blocks = [(0, sample_block)], raw_ingestion_ranges = [], range_failures = []\<rparr>) = Inr ()"
  by (simp add: finalizeRawRange_def expectedBlockCount_def Let_def range_validation_errors_def
      readRawRangeStats_def blocks_in_def arg_min_block_def arg_max_block_def brokenParentLinks_def
      validateAdjacentRanges_def next_range_def sample_block_def)

lemma sample_height: "block_height sample_block = 0"
  by (simp add: sample_block_def)

theorem range_end_flushes_then_finalizes_witness:
  "\<exists>db' ch'. transact sample_surroundings (sample_info 0)
       (\<lambda>st. (Inr (), add_all [(Blocks, [BlockRow sample_block])] st)) sample_range_database sample_house
       = (Inr (), db', ch')
     \<and> rangeFinalized db' \<and> loadExistingRangeStatus (range_tables ch') ''raw'' 0 0 = Some Completed"
proof -
  let ?adds = "[(Blocks, [BlockRow sample_block])] :: (raw_table \<times> int raw_row list) list"
  let ?st = "\<lambda>_. \<lparr>buffer = [], flushThreshold = 100\<rparr> :: int raw_row batch_accumulator"
  obtain tabs where fin: "finalizeRawRange ''raw'' 0 0 (finalize_clock sample_surroundings)
      \<lparr>raw_blocks = [(0, sample_block)], raw_ingestion_ranges = [], range_failures = []\<rparr> = (Inr (), tabs)"
    using sample_finalize [of "finalize_clock sample_surroundings"] by (metis prod.collapse)
  have wf: "store_wf (add_all ?adds ?st)"
    by (simp add: store_wf_def add_rows_def assertPositiveChunkSize_def is_safe_integer_def MAX_SAFE_INTEGER_def)
  obtain db' ch' where t: "transact sample_surroundings (sample_info 0) (\<lambda>st. (Inr (), add_all ?adds st))
      sample_range_database sample_house = (Inr (), db', ch')"
    by (simp add: transact_def flush_due_def shouldFlushRaw_def sample_info_def flush_and_checkpoint_def
        flushAll_def flush_order_def flushTable_def flushBatch_def flushBalanceObservations_def
        add_rows_def batch_add_def sample_flushChunks batch_flush_def client_insert_def sample_house_def
        saveRawCheckpoint_def checkpoint_effect_def new_raw_database_def range_end_reached_def store_rows_def
        sample_range_database_def finalizeRange_def ingest_block_def sample_height fin)
  from range_end_flushes_then_finalizes [OF t, of ?st "add_all ?adds ?st" 0 0] wf t show ?thesis
    by (simp add: sample_range_database_def new_raw_database_def sample_info_def)
qed

end
