(* ===== verification/Price_Types.thy ===== *)
theory Price_Types
  imports Js_Strings
begin

text \<open>
  The data of the price engine, \<^verbatim>\<open>src/price/types.ts\<close>, and its fixed-point price strings, the
  first helpers of \<^verbatim>\<open>src/price/graph.ts\<close>.

  Asset and pool ids are whole numbers. A \<open>Map\<close> is an insertion-ordered association list
  (\<^typ>\<open>('k, 'v) jsmap\<close>), because the engine iterates over its maps and the order of the
  iteration reaches its results. A \<open>bigint\<close> is \<^typ>\<open>int\<close>; \<open>/\<close> on it is \<^const>\<open>bdiv\<close>. Decimal
  counts are natural numbers (the engine raises ten to them). \<open>BigInt\<close> of a text that is not a
  number throws: \<^const>\<open>None\<close>.
\<close>

section \<open>Data\<close>

record omnipool_asset_state =
  hubReserve :: int
  reserve :: int
  shares :: int
  protocolShares :: int
  cap :: int
  tradable :: int

record xyk_pool =
  assetA :: int
  assetB :: int
  reserveA :: int
  reserveB :: int

record uniswap_v3_pool_edge = xyk_pool +
  poolAddress :: string

record stableswap_pool =
  ss_poolId :: int
  pool_assets :: "int list"
  pool_reserves :: "int list"
  amplification :: int
  ss_fee :: int
  totalIssuance :: "int option"
  pegMultipliers :: "(int \<times> int) list option"

type_synonym asset_decimals = "(int, nat) jsmap"

type_synonym price_map = "(int, string) jsmap"

datatype edge_kind = Xyk | Stableswap | Atoken | UniswapV3

record graph_edge =
  toAsset :: int
  edge_poolId :: "int option"
  edge_kind_of :: edge_kind
  edge_liquidity :: int
  computePrice :: "int \<Rightarrow> int \<Rightarrow> int"
  computeLiquidityUsd :: "(int \<Rightarrow> int \<Rightarrow> int) option"

type_synonym price_graph = "(int, graph_edge list) jsmap"

record queue_entry =
  q_assetId :: int
  q_priceBigint :: int
  q_hopCount :: int

record resolved_prices =
  res_prices :: price_map
  res_hopCounts :: "(int, int) jsmap"
  res_unpricedConnected :: "int list"

section \<open>Scales\<close>

definition PRICE_SCALE :: int where "PRICE_SCALE = 10 ^ 12"
definition PRICE_24_SCALE :: int where "PRICE_24_SCALE = 10 ^ 24"
definition USD_LIQUIDITY_SCALE :: int where "USD_LIQUIDITY_SCALE = 10 ^ 18"
definition UNBOUNDED_PATH_LIQUIDITY :: int where "UNBOUNDED_PATH_LIQUIDITY = 10 ^ 60"
definition DEFAULT_MAX_OBSERVATIONS_PER_ASSET :: int where "DEFAULT_MAX_OBSERVATIONS_PER_ASSET = 64"
definition MAX_HOPS :: int where "MAX_HOPS = 3"
definition BFS_PRECISION :: int where "BFS_PRECISION = 24"

section \<open>Price strings\<close>

text \<open>\<open>const [intPart, decPart = ''] = price.split('.')\<close>: further parts are dropped.\<close>

definition split_price :: "string \<Rightarrow> string \<times> string" where
  "split_price price =
     (case split_on (CHR ''.'') price of
        [] \<Rightarrow> ([], [])
      | [i] \<Rightarrow> (i, [])
      | i # d # _ \<Rightarrow> (i, d))"

definition priceStringTo12 :: "string \<Rightarrow> int option" where
  "priceStringTo12 price =
     (let (intPart, decPart) = split_price price
      in parse_bigint (intPart @ pad_end 12 (CHR ''0'') decPart))"

definition price12ToString :: "int \<Rightarrow> string" where
  "price12ToString v =
     (let s = pad_start 13 (CHR ''0'') (int_to_string v)
      in or_default (drop_last 12 s) ''0'' @ ''.'' @ take_last 12 s)"

definition multiplyPriceStrings :: "string \<Rightarrow> string \<Rightarrow> string option" where
  "multiplyPriceStrings l r =
     (case priceStringTo12 l of None \<Rightarrow> None
      | Some x \<Rightarrow> (case priceStringTo12 r of None \<Rightarrow> None
        | Some y \<Rightarrow> Some (price12ToString (bdiv (x * y) PRICE_SCALE))))"

definition priceTo24 :: "string \<Rightarrow> int option" where
  "priceTo24 price =
     (let (intPart, decPart) = split_price price
      in map_option (\<lambda>v. v * 10 ^ 12) (parse_bigint (intPart @ pad_end 12 (CHR ''0'') decPart)))"

definition price24ToString :: "int \<Rightarrow> string" where
  "price24ToString p =
     (let truncated = bdiv p (10 ^ 12); s = pad_start 13 (CHR ''0'') (int_to_string truncated)
      in or_default (drop_last 12 s) ''0'' @ ''.'' @ take_last 12 s)"

lemma price24ToString_eq: "price24ToString p = price12ToString (bdiv p (10 ^ 12))"
  by (simp add: price24ToString_def price12ToString_def Let_def)

lemma priceTo24_eq: "priceTo24 s = map_option (\<lambda>v. v * 10 ^ 12) (priceStringTo12 s)"
  by (simp add: priceTo24_def priceStringTo12_def split: prod.split)

text \<open>The shape of a printed price: at least one digit, a point, exactly twelve digits.\<close>

lemma price12ToString_shape:
  assumes "0 \<le> v"
  obtains i d where "price12ToString v = i @ CHR ''.'' # d" "length d = 12" "i \<noteq> []"
    "\<forall>c \<in> set (i @ d). is_dec_digit c" "digits_value 10 0 (i @ d) = Some (nat v)"
proof -
  define s where "s = pad_start 13 (CHR ''0'') (nat_to_string (nat v))"
  have dig: "\<forall>c \<in> set s. is_dec_digit c"
    by (auto simp: s_def pad_start_def is_dec_digit_def dest: nat_to_string_digits)
  have len: "13 \<le> length s" by (simp add: s_def)
  have val: "digits_value 10 0 s = Some (nat v)"
    by (simp add: s_def pad_start_def digits_value_append)
  have ne: "drop_last 12 s \<noteq> []" using len by (simp flip: length_0_conv)
  have "price12ToString v = drop_last 12 s @ CHR ''.'' # take_last 12 s"
    using assms ne by (simp add: price12ToString_def s_def int_to_string_def or_default_def Let_def)
  moreover have "length (take_last 12 s) = 12" using len by simp
  moreover have "\<forall>c \<in> set (drop_last 12 s @ take_last 12 s). is_dec_digit c" using dig by simp
  ultimately show thesis using that ne val by (metis drop_take_last)
qed

lemma priceStringTo12_print [simp]:
  assumes "0 \<le> v"
  shows "priceStringTo12 (price12ToString v) = Some v"
proof -
  obtain i d where *: "price12ToString v = i @ CHR ''.'' # d" "length d = 12"
    "\<forall>c \<in> set (i @ d). is_dec_digit c" "digits_value 10 0 (i @ d) = Some (nat v)"
    using price12ToString_shape [OF assms] by metis
  have "CHR ''.'' \<notin> set (i @ d)" using *(3) not_dec_digit_sep(1) by blast
  then have "split_price (price12ToString v) = (i, d)"
    by (simp add: *(1) split_price_def split_on_append)
  then show ?thesis using *(2-4) assms
    by (simp add: priceStringTo12_def pad_end_def parse_bigint_digits)
qed

lemma price12ToString_nonempty [simp]: "price12ToString v \<noteq> []"
  by (simp add: price12ToString_def Let_def)

lemma price12ToString_inj: "0 \<le> v \<Longrightarrow> 0 \<le> w \<Longrightarrow> price12ToString v = price12ToString w \<Longrightarrow> v = w"
  by (metis option.inject priceStringTo12_print)

text \<open>A well-formed price string is one the printer produces from a non-negative value.\<close>

definition price_text :: "string \<Rightarrow> bool" where
  "price_text s \<longleftrightarrow> (case priceStringTo12 s of None \<Rightarrow> False | Some v \<Rightarrow> 0 \<le> v \<and> s = price12ToString v)"

lemma price_text_print [simp]: "0 \<le> v \<Longrightarrow> price_text (price12ToString v)"
  by (simp add: price_text_def)

lemma price_text_print24 [simp]: "0 \<le> p \<Longrightarrow> price_text (price24ToString p)"
  by (simp add: price24ToString_eq)

lemma price_text_parse: "price_text s \<Longrightarrow> \<exists>v \<ge> 0. priceStringTo12 s = Some v"
  by (auto simp: price_text_def split: option.splits)

lemma price_text_nonempty: "price_text s \<Longrightarrow> s \<noteq> []"
  by (auto simp: price_text_def split: option.splits)

text \<open>
  C32: reading back a printed price gives the value again at twelve decimals, and at twenty-four
  decimals exactly its truncation to twelve: storing a search price loses less than one unit of
  the last stored digit and never rounds up.
\<close>

theorem price_string_roundtrip:
  assumes "0 \<le> p"
  shows "priceStringTo12 (price12ToString p) = Some p
    \<and> priceTo24 (price24ToString p) = Some (p - p mod 10 ^ 12)
    \<and> priceTo24 (price12ToString p) = Some (p * 10 ^ 12)"
proof -
  have "p div 10 ^ 12 * 10 ^ 12 = p - p mod 10 ^ 12" by (simp add: minus_mod_eq_div_mult)
  then show ?thesis using assms
    by (simp add: priceTo24_eq price24ToString_eq bdiv_nonneg_eq pos_imp_zdiv_nonneg_iff)
qed

theorem price_string_roundtrip_witness:
  "priceTo24 (price24ToString 1234567890123456789012345) = Some 1234567890123000000000000"
  using price_string_roundtrip [of 1234567890123456789012345] by simp

end
