(* ===== verification/Stableswap_Price.thy ===== *)
theory Stableswap_Price
  imports Price_Types
begin

text \<open>
  \<^verbatim>\<open>src/price/stableswap.ts\<close>: the spot price of a stableswap pair, and the reserve arithmetic of
  \<^verbatim>\<open>src/price/graph.ts\<close> that rests on it. The curve itself is the function
  \<open>calculate_spot_price_with_fee\<close> of the package \<^verbatim>\<open>@galacticcouncil/math-stableswap\<close>, which the
  repository does not contain: every definition that reaches it takes it as its first argument,
  from the eight texts the code passes to the text it returns, \<^const>\<open>None\<close> where it throws.

  A pool lists its reserves in the order of its assets; the snapshot reader builds both lists from
  the same entries, so they have the same length.
\<close>

type_synonym spot_package =
  "string \<Rightarrow> string \<Rightarrow> string \<Rightarrow> string \<Rightarrow> string \<Rightarrow> string \<Rightarrow> string \<Rightarrow> string \<Rightarrow> string option"

definition SPOT_PRICE_SCALE :: int where "SPOT_PRICE_SCALE = 10 ^ 12"
definition PACKAGE_SPOT_SCALE :: int where "PACKAGE_SPOT_SCALE = 10 ^ 18"

section \<open>The texts passed to the package\<close>

definition decimals_or :: "asset_decimals \<Rightarrow> int \<Rightarrow> nat \<Rightarrow> nat" where
  "decimals_or decimals assetId d = (case map_of decimals assetId of None \<Rightarrow> d | Some n \<Rightarrow> n)"

definition json_quote :: "string \<Rightarrow> string" where
  "json_quote s = CHR 0x22 # s @ [CHR 0x22]"

definition json_array :: "string list \<Rightarrow> string" where
  "json_array xs = ''['' @ join_with '','' xs @ '']''"

definition reserve_json :: "int \<Rightarrow> int \<Rightarrow> nat \<Rightarrow> string" where
  "reserve_json assetId amount dec =
     ''{'' @ json_quote ''asset_id'' @ '':'' @ int_to_string assetId @ '',''
     @ json_quote ''amount'' @ '':'' @ json_quote (int_to_string amount) @ '',''
     @ json_quote ''decimals'' @ '':'' @ nat_to_string dec @ ''}''"

definition serializePoolReserves :: "stableswap_pool \<Rightarrow> asset_decimals \<Rightarrow> string" where
  "serializePoolReserves pool decimals =
     json_array (map (\<lambda>(index, assetId).
         reserve_json assetId (pool_reserves pool ! index) (decimals_or decimals assetId 12))
       (enumerate 0 (pool_assets pool)))"

definition serializePoolPegs :: "stableswap_pool \<Rightarrow> string" where
  "serializePoolPegs pool =
     (let pegs = (case pegMultipliers pool of None \<Rightarrow> map (\<lambda>_. (1, 1)) (pool_assets pool) | Some ps \<Rightarrow> ps)
      in json_array (map (\<lambda>(num, den).
           json_array [json_quote (int_to_string num), json_quote (int_to_string den)]) pegs))"

section \<open>Spot price\<close>

definition calculateSpotPrice ::
  "spot_package \<Rightarrow> stableswap_pool \<Rightarrow> nat \<Rightarrow> nat \<Rightarrow> asset_decimals \<Rightarrow> int" where
  "calculateSpotPrice spot pool assetInIndex assetOutIndex decimals =
     (let assetInId = pool_assets pool ! assetInIndex; assetOutId = pool_assets pool ! assetOutIndex in
      (case spot (int_to_string (ss_poolId pool))
                 (serializePoolReserves pool decimals)
                 (int_to_string (amplification pool))
                 (int_to_string assetInId)
                 (int_to_string assetOutId)
                 (int_to_string (case totalIssuance pool of None \<Rightarrow> 1 | Some v \<Rightarrow> v))
                 ''0''
                 (serializePoolPegs pool) of
         None \<Rightarrow> 0
       | Some text \<Rightarrow>
           (case parse_bigint text of
              None \<Rightarrow> 0
            | Some rawSpot \<Rightarrow>
                if rawSpot \<le> 0 then 0 else bdiv rawSpot (bdiv PACKAGE_SPOT_SCALE SPOT_PRICE_SCALE))))"

lemma calculateSpotPrice_nonneg [simp]: "0 \<le> calculateSpotPrice spot pool i j decimals"
proof -
  have "bdiv PACKAGE_SPOT_SCALE SPOT_PRICE_SCALE = 10 ^ 6"
    by (simp add: bdiv_nonneg_eq PACKAGE_SPOT_SCALE_def SPOT_PRICE_SCALE_def)
  then show ?thesis by (auto simp: calculateSpotPrice_def Let_def split: option.split)
qed

section \<open>Reserves in common units\<close>

definition normalizeReserve :: "int \<Rightarrow> int \<Rightarrow> asset_decimals \<Rightarrow> int" where
  "normalizeReserve r assetId decimals =
     (let assetDecimals = decimals_or decimals assetId 12 in
      if assetDecimals = 18 then r
      else if assetDecimals < 18 then r * 10 ^ (18 - assetDecimals)
      else bdiv r (10 ^ (assetDecimals - 18)))"

definition usdValue18 :: "int \<Rightarrow> int \<Rightarrow> int" where
  "usdValue18 normalizedReserve price24 = bdiv (normalizedReserve * price24) PRICE_24_SCALE"

definition conservativePoolLiquidityUsd :: "int \<Rightarrow> int \<Rightarrow> int \<Rightarrow> int \<Rightarrow> int" where
  "conservativePoolLiquidityUsd knownNormalizedReserve unknownNormalizedReserve knownPrice24 computedPrice24 =
     (let knownSideUsd = usdValue18 knownNormalizedReserve knownPrice24;
          unknownSideUsd = usdValue18 unknownNormalizedReserve computedPrice24
      in min_bigint knownSideUsd unknownSideUsd)"

text \<open>The loop of \<open>poolValueInAssetUnits\<close>: an unquotable leg makes the whole value zero.\<close>

fun pool_value_loop ::
  "spot_package \<Rightarrow> stableswap_pool \<Rightarrow> nat \<Rightarrow> asset_decimals \<Rightarrow> int \<Rightarrow> nat list \<Rightarrow> int \<Rightarrow> int" where
  "pool_value_loop spot pool targetIndex decimals targetScale [] tot = tot"
| "pool_value_loop spot pool targetIndex decimals targetScale (i # is) tot =
     (let assetScale = 10 ^ decimals_or decimals (pool_assets pool ! i) 12 in
      if i = targetIndex then
        pool_value_loop spot pool targetIndex decimals targetScale is
          (tot + bdiv (pool_reserves pool ! i * targetScale) assetScale)
      else
        (let spotPrice = calculateSpotPrice spot pool i targetIndex decimals in
         if spotPrice = 0 then 0
         else pool_value_loop spot pool targetIndex decimals targetScale is
           (tot + bdiv (pool_reserves pool ! i * spotPrice * targetScale) (assetScale * PRICE_SCALE))))"

definition poolValueInAssetUnits ::
  "spot_package \<Rightarrow> stableswap_pool \<Rightarrow> nat \<Rightarrow> asset_decimals \<Rightarrow> int" where
  "poolValueInAssetUnits spot pool targetIndex decimals =
     (let targetAsset = pool_assets pool ! targetIndex; targetScale = 10 ^ decimals_or decimals targetAsset 12
      in pool_value_loop spot pool targetIndex decimals targetScale [0..<length (pool_assets pool)] 0)"

definition wf_pool :: "stableswap_pool \<Rightarrow> bool" where
  "wf_pool pool \<longleftrightarrow> length (pool_reserves pool) = length (pool_assets pool) \<and> (\<forall>r \<in> set (pool_reserves pool). 0 \<le> r)"

lemma wf_pool_reserve [simp]:
  "wf_pool pool \<Longrightarrow> i < length (pool_assets pool) \<Longrightarrow> 0 \<le> pool_reserves pool ! i"
  by (simp add: wf_pool_def)

lemma normalizeReserve_nonneg [simp]: "0 \<le> r \<Longrightarrow> 0 \<le> normalizeReserve r a decimals"
  by (simp add: normalizeReserve_def Let_def)

lemma usdValue18_nonneg [simp]: "0 \<le> r \<Longrightarrow> 0 \<le> p \<Longrightarrow> 0 \<le> usdValue18 r p"
  by (simp add: usdValue18_def PRICE_24_SCALE_def)

lemma conservative_nonneg [simp]:
  "0 \<le> r \<Longrightarrow> 0 \<le> s \<Longrightarrow> 0 \<le> p \<Longrightarrow> 0 \<le> q \<Longrightarrow> 0 \<le> conservativePoolLiquidityUsd r s p q"
  by (simp add: conservativePoolLiquidityUsd_def Let_def)

lemma pool_value_loop_nonneg:
  "wf_pool pool \<Longrightarrow> 0 \<le> tot \<Longrightarrow> 0 \<le> targetScale \<Longrightarrow> set is \<subseteq> {..<length (pool_assets pool)} \<Longrightarrow>
    0 \<le> pool_value_loop spot pool t decimals targetScale is tot"
  by (induction spot pool t decimals targetScale "is" tot rule: pool_value_loop.induct)
    (auto simp: Let_def PRICE_SCALE_def)

lemma poolValue_nonneg [simp]: "wf_pool pool \<Longrightarrow> 0 \<le> poolValueInAssetUnits spot pool t decimals"
  by (simp add: poolValueInAssetUnits_def Let_def pool_value_loop_nonneg lessThan_atLeast0)

text \<open>The reference: the sum of the legs, each converted at its spot price, when all can be.\<close>

definition leg_value :: "spot_package \<Rightarrow> stableswap_pool \<Rightarrow> nat \<Rightarrow> asset_decimals \<Rightarrow> int \<Rightarrow> nat \<Rightarrow> int" where
  "leg_value spot pool t decimals targetScale i =
     (let assetScale = 10 ^ decimals_or decimals (pool_assets pool ! i) 12 in
      if i = t then bdiv (pool_reserves pool ! i * targetScale) assetScale
      else bdiv (pool_reserves pool ! i * calculateSpotPrice spot pool i t decimals * targetScale)
             (assetScale * PRICE_SCALE))"

lemma pool_value_loop_Cons:
  "pool_value_loop spot pool t decimals targetScale (i # is) tot =
     (if i \<noteq> t \<and> calculateSpotPrice spot pool i t decimals = 0 then 0
      else pool_value_loop spot pool t decimals targetScale is (tot + leg_value spot pool t decimals targetScale i))"
  by (simp add: leg_value_def Let_def)

lemma pool_value_loop_eq:
  "pool_value_loop spot pool t decimals targetScale is tot =
     (if \<exists>i \<in> set is. i \<noteq> t \<and> calculateSpotPrice spot pool i t decimals = 0 then 0
      else tot + sum_list (map (leg_value spot pool t decimals targetScale) is))"
proof (induction "is" arbitrary: tot)
  case (Cons i "is")
  show ?case unfolding pool_value_loop_Cons Cons.IH by auto
qed simp

text \<open>\<open>poolValueInAssetUnits\<close> is the sum of all legs converted to the target asset at the pool's
  own spot prices, or zero as soon as one leg has no quote: it never values a pool by part of its
  reserves.
\<close>

lemma pool_value_all_or_nothing:
  "poolValueInAssetUnits spot pool t decimals =
     (if \<exists>i < length (pool_assets pool). i \<noteq> t \<and> calculateSpotPrice spot pool i t decimals = 0 then 0
      else sum_list (map (leg_value spot pool t decimals (10 ^ decimals_or decimals (pool_assets pool ! t) 12))
             [0..<length (pool_assets pool)]))"
  by (auto simp: poolValueInAssetUnits_def pool_value_loop_eq Let_def)

end
