(* ===== verification/Weighted_Median.thy ===== *)
theory Weighted_Median
  imports Price_Types
begin

text \<open>
  The two weighted medians of \<^verbatim>\<open>src/price/graph.ts\<close>: \<open>weightedMedian\<close> over bridge
  quotes of the hub price and \<open>weightedMedianPathObservation\<close> over the routes that reach an
  asset. Both sort, add up the weights and return the element at which the running weight reaches
  half of the total; the loop they share is \<open>weighted_pick\<close>. What makes the result a median is
  proved once, in the locale \<open>median_order\<close>.
\<close>

section \<open>Definitions\<close>

record weighted_observation =
  wo_value :: int
  wo_weight :: int

record price_path_observation =
  obs_priceBigint :: int
  obs_hopCount :: int
  obs_pathLiquidityUsd :: int
  obs_path :: "int list"

fun weighted_pick :: "('a \<Rightarrow> int) \<Rightarrow> int \<Rightarrow> int \<Rightarrow> 'a list \<Rightarrow> 'a option" where
  "weighted_pick weight threshold runningWeight [] = None"
| "weighted_pick weight threshold runningWeight (x # xs) =
     (let runningWeight' = runningWeight + weight x in
      if runningWeight' \<ge> threshold then Some x else weighted_pick weight threshold runningWeight' xs)"

text \<open>The common part: total, threshold, scan, and the last element when the scan ends.\<close>

definition median_of_sorted :: "('a \<Rightarrow> int) \<Rightarrow> 'a list \<Rightarrow> 'a" where
  "median_of_sorted weight srt =
     (let totalWeight = foldl (\<lambda>acc x. acc + weight x) 0 srt;
          threshold = bdiv (totalWeight + 1) 2
      in case weighted_pick weight threshold 0 srt of Some x \<Rightarrow> x | None \<Rightarrow> last srt)"

definition bridge_weight :: "weighted_observation \<Rightarrow> int" where
  "bridge_weight x = (if wo_weight x > 0 then wo_weight x else 1)"

definition cmp_value :: "weighted_observation \<Rightarrow> weighted_observation \<Rightarrow> int" where
  "cmp_value l r = (if wo_value l < wo_value r then -1 else if wo_value l > wo_value r then 1 else 0)"

definition weightedMedian :: "weighted_observation list \<Rightarrow> int option" where
  "weightedMedian observations =
     (if observations = [] then None
      else Some (wo_value (median_of_sorted bridge_weight (sort_cmp cmp_value observations))))"

definition path_weight :: "price_path_observation \<Rightarrow> int" where
  "path_weight x = max_bigint (obs_pathLiquidityUsd x) 1"

definition cmp_path_observation :: "price_path_observation \<Rightarrow> price_path_observation \<Rightarrow> int" where
  "cmp_path_observation l r =
     (if obs_priceBigint l < obs_priceBigint r then -1
      else if obs_priceBigint l > obs_priceBigint r then 1
      else if obs_hopCount l \<noteq> obs_hopCount r then obs_hopCount l - obs_hopCount r
      else if obs_pathLiquidityUsd l \<noteq> obs_pathLiquidityUsd r
        then (if obs_pathLiquidityUsd l > obs_pathLiquidityUsd r then -1 else 1)
      else 0)"

definition weightedMedianPathObservation ::
  "price_path_observation list \<Rightarrow> price_path_observation option" where
  "weightedMedianPathObservation observations =
     (if observations = [] then None
      else Some (median_of_sorted path_weight (sort_cmp cmp_path_observation observations)))"

section \<open>What a weighted median is\<close>

definition weight_where :: "('a \<Rightarrow> int) \<Rightarrow> ('a \<Rightarrow> bool) \<Rightarrow> 'a list \<Rightarrow> int" where
  "weight_where weight P xs = sum_list (map weight (filter P xs))"

lemma weight_where_mset: "mset xs = mset ys \<Longrightarrow> weight_where w P xs = weight_where w P ys"
  unfolding weight_where_def by (metis mset_filter mset_map sum_mset_sum_list)

lemma weight_where_append [simp]:
  "weight_where w P (xs @ ys) = weight_where w P xs + weight_where w P ys"
  "weight_where w P (x # xs) = (if P x then w x else 0) + weight_where w P xs"
  "weight_where w P [] = 0"
  by (simp_all add: weight_where_def)

lemma weighted_pick_split:
  assumes "\<forall>x. 0 < w x" and "threshold \<le> running + sum_list (map w xs)" and "running < threshold"
  shows "\<exists>us x vs. xs = us @ x # vs \<and> weighted_pick w threshold running xs = Some x
    \<and> running + sum_list (map w us) < threshold \<and> threshold \<le> running + sum_list (map w us) + w x"
  using assms(2,3)
proof (induction xs arbitrary: running)
  case (Cons y ys)
  show ?case
  proof (cases "running + w y \<ge> threshold")
    case True
    with Cons.prems show ?thesis by (intro exI [of _ "[]"]) auto
  next
    case False
    with Cons.IH [of "running + w y"] Cons.prems obtain us x vs where
      "ys = us @ x # vs" "weighted_pick w threshold (running + w y) ys = Some x"
      "running + w y + sum_list (map w us) < threshold"
      "threshold \<le> running + w y + sum_list (map w us) + w x" by auto
    with False show ?thesis by (intro exI [of _ "y # us"]) auto
  qed
qed simp

text \<open>
  The contract the two callers meet: a comparator that orders by a value first, and weights that
  are positive after the clamp.
\<close>

locale median_order = js_comparator cmp for cmp :: "'a \<Rightarrow> 'a \<Rightarrow> int" +
  fixes weight :: "'a \<Rightarrow> int" and val :: "'a \<Rightarrow> int"
  assumes weight_pos: "0 < weight x"
    and val_mono: "cmp x y \<le> 0 \<Longrightarrow> val x \<le> val y"
begin

definition median :: "'a list \<Rightarrow> 'a" where
  "median xs = median_of_sorted weight (sort_cmp cmp xs)"

lemma weights_nonneg: "0 \<le> sum_list (map weight xs)"
  using weight_pos by (intro sum_list_nonneg_int) (auto intro: less_imp_le)

lemma median_split:
  assumes "xs \<noteq> []"
  shows "\<exists>us vs. sort_cmp cmp xs = us @ median xs # vs
    \<and> 2 * sum_list (map weight us) < sum_list (map weight xs)
    \<and> sum_list (map weight xs) \<le> 2 * (sum_list (map weight us) + weight (median xs))"
proof -
  let ?s = "sort_cmp cmp xs"
  define T where "T = sum_list (map weight xs)"
  have T: "sum_list (map weight ?s) = T" unfolding T_def by (metis mset_map mset_sort_cmp sum_mset_sum_list)
  have "0 < T" unfolding T_def using assms weight_pos weights_nonneg by (cases xs) (auto intro: add_pos_nonneg)
  then have thr: "bdiv (T + 1) 2 = (T + 1) div 2" "0 < (T + 1) div 2" "(T + 1) div 2 \<le> T"
    by (auto simp: bdiv_nonneg_eq)
  obtain us x vs where s: "?s = us @ x # vs" and pick: "weighted_pick weight ((T + 1) div 2) 0 ?s = Some x"
    and b: "sum_list (map weight us) < (T + 1) div 2" "(T + 1) div 2 \<le> sum_list (map weight us) + weight x"
    using weighted_pick_split [of weight "(T + 1) div 2" 0 ?s] weight_pos thr T by auto
  have "median xs = x" using pick T thr(1)
    by (simp add: median_def median_of_sorted_def foldl_add_conv Let_def)
  moreover have "2 * sum_list (map weight us) < T \<and> T \<le> 2 * (sum_list (map weight us) + weight x)"
  proof -
    define k where "k = (T + 1) div 2"
    have "T \<le> 2 * k" "2 * k \<le> T + 1" unfolding k_def by presburger+
    with b [folded k_def] show ?thesis by (simp add: algebra_simps)
  qed
  ultimately show ?thesis using s unfolding T_def [symmetric] by blast
qed

lemma median_in: "xs \<noteq> [] \<Longrightarrow> median xs \<in> set xs"
  using median_split [of xs] set_sort_cmp [of cmp xs] by (metis in_set_conv_decomp)

lemma median_halves:
  assumes "xs \<noteq> []"
  shows "2 * weight_where weight (\<lambda>x. val x < val (median xs)) xs < sum_list (map weight xs)"
    and "sum_list (map weight xs) \<le> 2 * weight_where weight (\<lambda>x. val x \<le> val (median xs)) xs"
proof -
  obtain us vs where s: "sort_cmp cmp xs = us @ median xs # vs"
    and b: "2 * sum_list (map weight us) < sum_list (map weight xs)"
      "sum_list (map weight xs) \<le> 2 * (sum_list (map weight us) + weight (median xs))"
    using median_split [OF assms] by blast
  have ord: "\<forall>u \<in> set us. val u \<le> val (median xs)" "\<forall>v \<in> set vs. val (median xs) \<le> val v"
    using sorted_sort [of xs] val_mono unfolding s by (auto simp: sorted_wrt_append)
  have eq: "weight_where weight P xs = weight_where weight P (us @ median xs # vs)" for P
    by (rule weight_where_mset) (metis s mset_sort_cmp)
  have sub: "weight_where weight P ys \<le> sum_list (map weight ys)" "0 \<le> weight_where weight P ys" for P ys
    using weight_pos by (induction ys) (auto intro: add_nonneg_nonneg less_imp_le add_increasing)
  have "filter (\<lambda>x. val x < val (median xs)) vs = []" using ord(2) by (auto simp: filter_empty_conv)
  then have "weight_where weight (\<lambda>x. val x < val (median xs)) xs
      = weight_where weight (\<lambda>x. val x < val (median xs)) us"
    unfolding eq by (simp add: weight_where_def)
  with sub(1) [of "\<lambda>x. val x < val (median xs)" us] b(1)
  show "2 * weight_where weight (\<lambda>x. val x < val (median xs)) xs < sum_list (map weight xs)" by linarith
  have "weight_where weight (\<lambda>x. val x \<le> val (median xs)) us = sum_list (map weight us)"
    using ord(1) by (simp add: weight_where_def filter_True)
  with sub(2) [of "\<lambda>x. val x \<le> val (median xs)" vs] b(2)
  show "sum_list (map weight xs) \<le> 2 * weight_where weight (\<lambda>x. val x \<le> val (median xs)) xs"
    unfolding eq by simp
qed

end

interpretation bridge_median: median_order cmp_value bridge_weight wo_value
  by unfold_locales (auto simp: cmp_value_def bridge_weight_def split: if_splits)

interpretation path_median: median_order cmp_path_observation path_weight obs_priceBigint
  by unfold_locales (auto simp: cmp_path_observation_def path_weight_def split: if_splits)

lemma weightedMedian_eq: "xs \<noteq> [] \<Longrightarrow> weightedMedian xs = Some (wo_value (bridge_median.median xs))"
  by (simp add: weightedMedian_def bridge_median.median_def)

lemma weightedMedianPath_eq: "xs \<noteq> [] \<Longrightarrow> weightedMedianPathObservation xs = Some (path_median.median xs)"
  by (simp add: weightedMedianPathObservation_def path_median.median_def)

lemma weightedMedianPath_in: "weightedMedianPathObservation xs = Some x \<Longrightarrow> x \<in> set xs"
  by (cases "xs = []") (auto simp: weightedMedianPath_eq weightedMedianPathObservation_def [of "[]"]
      path_median.median_in)

section \<open>Properties\<close>

text \<open>the hub price chosen among the bridges is one of the quotes, the quotes below it carry less
  than half of the total weight and the quotes up to it at least half, where a quote without
  weight counts as one. No quotes give no price.
\<close>

lemma weightedMedian_halves:
  "weightedMedian [] = None \<and> (xs \<noteq> [] \<longrightarrow> (\<exists>m. weightedMedian xs = Some m
    \<and> m \<in> wo_value ` set xs
    \<and> 2 * weight_where bridge_weight (\<lambda>x. wo_value x < m) xs < sum_list (map bridge_weight xs)
    \<and> sum_list (map bridge_weight xs) \<le> 2 * weight_where bridge_weight (\<lambda>x. wo_value x \<le> m) xs))"
  using bridge_median.median_in [of xs] bridge_median.median_halves [of xs]
  by (auto simp: weightedMedian_eq weightedMedian_def [of "[]"])

text \<open>the price of a graph-priced asset is the liquidity-weighted median of its route
  observations: it is an actual observation, the cheaper routes carry less than half of the
  liquidity and the routes up to it at least half.
\<close>

lemma weightedMedianPath_halves:
  assumes "weightedMedianPathObservation xs = Some m"
  shows "m \<in> set xs
    \<and> 2 * weight_where path_weight (\<lambda>x. obs_priceBigint x < obs_priceBigint m) xs
        < sum_list (map path_weight xs)
    \<and> sum_list (map path_weight xs)
        \<le> 2 * weight_where path_weight (\<lambda>x. obs_priceBigint x \<le> obs_priceBigint m) xs"
proof -
  have "xs \<noteq> []" using assms by (auto simp: weightedMedianPathObservation_def)
  then show ?thesis using assms path_median.median_in path_median.median_halves
    by (auto simp: weightedMedianPath_eq)
qed

end
