(* ===== verification/Price_Search.thy ===== *)
theory Price_Search
  imports Complex_Main Stableswap_Price Weighted_Median
begin

text \<open>
  The two graph searches of \<^verbatim>\<open>src/price/graph.ts\<close>: the multi-source breadth-first search
  \<open>bfsResolvePrices\<close>, where the first arrival wins, and
  \<open>resolveGraphPricesByWeightedMedian\<close>, which collects bounded lists of route observations per
  asset and takes their liquidity-weighted median.

  A \<open>while (head < queue.length)\<close> loop with a growing queue is a recursion over the rest of the
  queue. Both recursions are total functions: the first by the number of unresolved edge targets,
  the second because routes are simple, so the weight \<open>(B + 1) ^ (targets not on the route)\<close> of an
  entry exceeds that of its at most \<open>B\<close> successors together.

  \<open>addObservation\<close> keeps, beside the list of an asset, a map from the text
  \<open>price:hops:path\<close> to the observation object in the list, and deletes the key of every
  observation it drops. That map is an index of the list: the keys of the list are distinct
  (\<open>observation_keys_distinct\<close>), so looking a key up is finding the observation of the
  list with these three values, and adding to \<open>existing.pathLiquidityUsd\<close> updates the list in
  place. Queue entries are copies, so they keep the liquidity they were pushed with.
\<close>

section \<open>Common parts\<close>

definition edges_of :: "price_graph \<Rightarrow> int \<Rightarrow> graph_edge list" where
  "edges_of graph assetId = (case map_of graph assetId of None \<Rightarrow> [] | Some edges \<Rightarrow> edges)"

definition nextHopCount :: "graph_edge \<Rightarrow> int \<Rightarrow> int" where
  "nextHopCount edge hopCount = (if edge_kind_of edge = Atoken then hopCount else hopCount + 1)"

definition targets :: "price_graph \<Rightarrow> int set" where
  "targets graph = toAsset ` (\<Union>p \<in> set graph. set (snd p))"

lemma finite_targets [simp]: "finite (targets graph)"
  by (simp add: targets_def)

lemma edge_target [intro]:
  assumes "e \<in> set (edges_of graph a)"
  shows "toAsset e \<in> targets graph"
proof -
  obtain es where "map_of graph a = Some es" "e \<in> set es"
    using assms by (cases "map_of graph a") (auto simp: edges_of_def)
  then have "e \<in> (\<Union>p \<in> set graph. set (snd p))" by (force dest: map_of_SomeD)
  then show ?thesis unfolding targets_def by (rule imageI)
qed

text \<open>A route: simple, never entering an asset whose price is authoritative, within the hops.\<close>

inductive route :: "price_graph \<Rightarrow> int list \<Rightarrow> int \<Rightarrow> (int, int) jsmap \<Rightarrow> int \<Rightarrow> int \<Rightarrow> int \<Rightarrow> int list \<Rightarrow> bool"
  for graph :: price_graph and omni :: "int list" and maxHops :: int and seeds :: "(int, int) jsmap" where
  route_seed: "(a, p) \<in> set seeds \<Longrightarrow> route graph omni maxHops seeds a p 0 [a]"
| route_edge: "route graph omni maxHops seeds a p h path \<Longrightarrow> e \<in> set (edges_of graph a) \<Longrightarrow>
    toAsset e \<notin> set omni \<Longrightarrow> toAsset e \<notin> set path \<Longrightarrow> nextHopCount e h \<le> maxHops \<Longrightarrow>
    computePrice e p BFS_PRECISION \<noteq> 0 \<Longrightarrow>
    route graph omni maxHops seeds (toAsset e) (computePrice e p BFS_PRECISION) (nextHopCount e h) (path @ [toAsset e])"

lemma route_path: "route graph omni maxHops seeds a p h path \<Longrightarrow> distinct path \<and> path \<noteq> [] \<and> last path = a"
  by (induction rule: route.induct) auto

lemma route_hops: "route graph omni maxHops seeds a p h path \<Longrightarrow> 0 \<le> h \<and> (0 \<le> maxHops \<longrightarrow> h \<le> maxHops)"
  by (induction rule: route.induct) (auto simp: nextHopCount_def)

section \<open>\<open>bfsResolvePrices\<close>\<close>

record resolved_price =
  rp_priceBigint :: int
  rp_hopCount :: int

fun bfs_edges ::
  "int list \<Rightarrow> int \<Rightarrow> queue_entry \<Rightarrow> graph_edge list \<Rightarrow> (int, resolved_price) jsmap
    \<Rightarrow> (int, resolved_price) jsmap \<times> queue_entry list" where
  "bfs_edges omnipoolPricedAssets maxHops entry [] resolved = (resolved, [])"
| "bfs_edges omnipoolPricedAssets maxHops entry (edge # edges) resolved =
     (if toAsset edge \<in> set omnipoolPricedAssets \<or> map_has resolved (toAsset edge)
        \<or> nextHopCount edge (q_hopCount entry) > maxHops
        \<or> computePrice edge (q_priceBigint entry) BFS_PRECISION = 0
      then bfs_edges omnipoolPricedAssets maxHops entry edges resolved
      else
        (let nextHop = nextHopCount edge (q_hopCount entry);
             nextPrice = computePrice edge (q_priceBigint entry) BFS_PRECISION;
             (resolved', pushed) = bfs_edges omnipoolPricedAssets maxHops entry edges
               (map_set (toAsset edge) \<lparr>rp_priceBigint = nextPrice, rp_hopCount = nextHop\<rparr> resolved)
         in (resolved', \<lparr>q_assetId = toAsset edge, q_priceBigint = nextPrice, q_hopCount = nextHop\<rparr> # pushed)))"

abbreviation unresolved :: "price_graph \<Rightarrow> (int, 'v) jsmap \<Rightarrow> int set" where
  "unresolved graph resolved \<equiv> targets graph - set (map_keys resolved)"

lemma bfs_edges_measure:
  assumes "\<forall>e \<in> set edges. toAsset e \<in> targets graph"
    and "bfs_edges omni maxHops entry edges resolved = (resolved', pushed)"
  shows "length pushed + card (unresolved graph resolved') \<le> card (unresolved graph resolved)"
  using assms
proof (induction omni maxHops entry edges resolved arbitrary: resolved' pushed rule: bfs_edges.induct)
  case (2 omni maxHops entry edge edges resolved)
  show ?case
  proof (cases "toAsset edge \<in> set omni \<or> map_has resolved (toAsset edge)
        \<or> nextHopCount edge (q_hopCount entry) > maxHops
        \<or> computePrice edge (q_priceBigint entry) BFS_PRECISION = 0")
    case True
    with 2 show ?thesis by auto
  next
    case False
    let ?v = "\<lparr>rp_priceBigint = computePrice edge (q_priceBigint entry) BFS_PRECISION,
      rp_hopCount = nextHopCount edge (q_hopCount entry)\<rparr>"
    obtain r ps where r: "bfs_edges omni maxHops entry edges (map_set (toAsset edge) ?v resolved) = (r, ps)"
      by fastforce
    have out: "resolved' = r" "length pushed = Suc (length ps)" using "2.prems"(2) r False by (auto simp: Let_def)
    have "length ps + card (unresolved graph r) \<le> card (unresolved graph (map_set (toAsset edge) ?v resolved))"
      using "2.IH"(2) [OF False refl refl, of r ps] r "2.prems"(1) by simp
    moreover have "unresolved graph (map_set (toAsset edge) ?v resolved) = unresolved graph resolved - {toAsset edge}"
      by (auto simp: dom_update)
    moreover have "toAsset edge \<in> unresolved graph resolved"
      using False "2.prems"(1) by (auto simp: map_has_def)
    ultimately show ?thesis using out card_Suc_Diff1 [of "unresolved graph resolved" "toAsset edge"] by simp
  qed
qed simp

function bfs_loop ::
  "price_graph \<Rightarrow> int list \<Rightarrow> int \<Rightarrow> queue_entry list \<Rightarrow> (int, resolved_price) jsmap
    \<Rightarrow> (int, resolved_price) jsmap" where
  "bfs_loop graph omnipoolPricedAssets maxHops [] resolved = resolved"
| "bfs_loop graph omnipoolPricedAssets maxHops (entry # queue) resolved =
     (let step = bfs_edges omnipoolPricedAssets maxHops entry (edges_of graph (q_assetId entry)) resolved
      in bfs_loop graph omnipoolPricedAssets maxHops (queue @ snd step) (fst step))"
  by pat_completeness auto
termination
proof (relation "measure (\<lambda>(graph, omni, maxHops, queue, resolved). length queue + card (unresolved graph resolved))",
    goal_cases)
  case (2 graph omni maxHops entry queue resolved step)
  have "length (snd step) + card (unresolved graph (fst step)) \<le> card (unresolved graph resolved)"
    by (rule bfs_edges_measure [where edges = "edges_of graph (q_assetId entry)"]) (auto simp: 2)
  then show ?case by simp
qed simp

definition bfsResolvePrices ::
  "(int, int) jsmap \<Rightarrow> int list \<Rightarrow> price_graph \<Rightarrow> int \<Rightarrow> (int, resolved_price) jsmap" where
  "bfsResolvePrices seeds omnipoolPricedAssets graph maxHops =
     bfs_loop graph omnipoolPricedAssets maxHops
       (map (\<lambda>(a, p). \<lparr>q_assetId = a, q_priceBigint = p, q_hopCount = 0\<rparr>) seeds)
       (foldl (\<lambda>m (a, p). map_set a \<lparr>rp_priceBigint = p, rp_hopCount = 0\<rparr> m) [] seeds)"

section \<open>\<open>resolveGraphPricesByWeightedMedian\<close>\<close>

record path_queue_entry = price_path_observation +
  pq_assetId :: int

datatype usd_threshold = ThresholdBigint int | ThresholdNumber rat | ThresholdNotFinite

definition usdThresholdTo18 :: "usd_threshold option \<Rightarrow> int" where
  "usdThresholdTo18 v =
     (case v of
        None \<Rightarrow> 0
      | Some (ThresholdBigint n) \<Rightarrow> (if n \<le> 0 then 0 else n * USD_LIQUIDITY_SCALE)
      | Some ThresholdNotFinite \<Rightarrow> 0
      | Some (ThresholdNumber x) \<Rightarrow> (if x \<le> 0 then 0 else \<lfloor>x\<rfloor> * USD_LIQUIDITY_SCALE))"

record search_options =
  minGraphPathLiquidityUsd :: "usd_threshold option"
  maxObservationsPerAsset :: "int option"
  lpEquivalences :: "(int \<times> int) list"
  opt_uniswapV3Pools :: "uniswap_v3_pool_edge list"

record search_limits =
  lim_minPathLiquidityUsd :: int
  lim_maxObservations :: nat
  lim_omnipoolPriced :: "int list"
  lim_maxHops :: int

definition search_limits_of :: "search_options \<Rightarrow> int list \<Rightarrow> int \<Rightarrow> search_limits" where
  "search_limits_of options omnipoolPricedAssets maxHops =
     \<lparr>lim_minPathLiquidityUsd = usdThresholdTo18 (minGraphPathLiquidityUsd options),
      lim_maxObservations = nat (max 1 (case maxObservationsPerAsset options of
          None \<Rightarrow> DEFAULT_MAX_OBSERVATIONS_PER_ASSET | Some n \<Rightarrow> n)),
      lim_omnipoolPriced = omnipoolPricedAssets,
      lim_maxHops = maxHops\<rparr>"

type_synonym observation_map = "(int, price_path_observation list) jsmap"

definition same_key :: "price_path_observation \<Rightarrow> price_path_observation \<Rightarrow> bool" where
  "same_key x y \<longleftrightarrow> obs_priceBigint x = obs_priceBigint y \<and> obs_hopCount x = obs_hopCount y \<and> obs_path x = obs_path y"

definition cmp_kept :: "price_path_observation \<Rightarrow> price_path_observation \<Rightarrow> int" where
  "cmp_kept l r =
     (if obs_pathLiquidityUsd l \<noteq> obs_pathLiquidityUsd r
        then (if obs_pathLiquidityUsd l > obs_pathLiquidityUsd r then -1 else 1)
      else if obs_hopCount l \<noteq> obs_hopCount r then obs_hopCount l - obs_hopCount r
      else if obs_priceBigint l < obs_priceBigint r then -1
      else if obs_priceBigint l > obs_priceBigint r then 1
      else 0)"

definition observations_of :: "observation_map \<Rightarrow> int \<Rightarrow> price_path_observation list" where
  "observations_of observations assetId = (case map_of observations assetId of None \<Rightarrow> [] | Some l \<Rightarrow> l)"

definition addObservation ::
  "search_limits \<Rightarrow> int \<Rightarrow> price_path_observation \<Rightarrow> observation_map \<Rightarrow> observation_map \<times> bool" where
  "addObservation limits assetId observation observations =
     (let lst = observations_of observations assetId in
      if \<exists>x \<in> set lst. same_key x observation then
        (map_set assetId
           (map (\<lambda>x. if same_key x observation
              then x\<lparr>obs_pathLiquidityUsd := obs_pathLiquidityUsd x + obs_pathLiquidityUsd observation\<rparr> else x) lst)
           observations, False)
      else
        (let srt = sort_cmp cmp_kept (lst @ [observation]) in
         if length srt > lim_maxObservations limits then
           (map_set assetId (take (lim_maxObservations limits) srt) observations,
            observation \<notin> set (drop (lim_maxObservations limits) srt))
         else (map_set assetId srt observations, True)))"

definition edge_path_liquidity :: "graph_edge \<Rightarrow> path_queue_entry \<Rightarrow> int" where
  "edge_path_liquidity edge entry =
     min_bigint (obs_pathLiquidityUsd entry)
       (case computeLiquidityUsd edge of
          None \<Rightarrow> UNBOUNDED_PATH_LIQUIDITY
        | Some f \<Rightarrow> f (obs_priceBigint entry) (computePrice edge (obs_priceBigint entry) BFS_PRECISION))"

definition edge_skipped :: "search_limits \<Rightarrow> path_queue_entry \<Rightarrow> graph_edge \<Rightarrow> bool" where
  "edge_skipped limits entry edge \<longleftrightarrow>
     toAsset edge \<in> set (lim_omnipoolPriced limits)
     \<or> toAsset edge \<in> set (obs_path entry)
     \<or> nextHopCount edge (obs_hopCount entry) > lim_maxHops limits
     \<or> computePrice edge (obs_priceBigint entry) BFS_PRECISION = 0
     \<or> edge_path_liquidity edge entry < lim_minPathLiquidityUsd limits"

definition edge_observation :: "path_queue_entry \<Rightarrow> graph_edge \<Rightarrow> price_path_observation" where
  "edge_observation entry edge =
     \<lparr>obs_priceBigint = computePrice edge (obs_priceBigint entry) BFS_PRECISION,
      obs_hopCount = nextHopCount edge (obs_hopCount entry),
      obs_pathLiquidityUsd = edge_path_liquidity edge entry,
      obs_path = obs_path entry @ [toAsset edge]\<rparr>"

definition entry_of :: "int \<Rightarrow> price_path_observation \<Rightarrow> path_queue_entry" where
  "entry_of assetId x =
     \<lparr>obs_priceBigint = obs_priceBigint x, obs_hopCount = obs_hopCount x,
      obs_pathLiquidityUsd = obs_pathLiquidityUsd x, obs_path = obs_path x, pq_assetId = assetId\<rparr>"

fun expand_edges ::
  "search_limits \<Rightarrow> path_queue_entry \<Rightarrow> graph_edge list \<Rightarrow> observation_map
    \<Rightarrow> observation_map \<times> path_queue_entry list" where
  "expand_edges limits entry [] observations = (observations, [])"
| "expand_edges limits entry (edge # edges) observations =
     (if edge_skipped limits entry edge then expand_edges limits entry edges observations
      else
        (let observation = edge_observation entry edge;
             (observations', added) = addObservation limits (toAsset edge) observation observations;
             (observations'', pushed) = expand_edges limits entry edges observations'
         in (observations'', if added then entry_of (toAsset edge) observation # pushed else pushed)))"

subsection \<open>The search ends\<close>

definition fan_out :: "price_graph \<Rightarrow> nat" where
  "fan_out graph = sum_list (map (\<lambda>p. length (snd p)) graph)"

definition route_weight :: "price_graph \<Rightarrow> path_queue_entry \<Rightarrow> nat" where
  "route_weight graph entry = (fan_out graph + 1) ^ card (targets graph - set (obs_path entry))"

lemma length_edges_fan_out: "length (edges_of graph a) \<le> fan_out graph"
proof (cases "map_of graph a")
  case (Some es)
  then have "(a, es) \<in> set graph" by (rule map_of_SomeD)
  then have "length es \<le> fan_out graph" unfolding fan_out_def
    using member_le_sum_list [of "length es" "map (\<lambda>p. length (snd p)) graph"] by force
  with Some show ?thesis by (simp add: edges_of_def)
qed (simp add: edges_of_def)

lemma expand_edges_weight:
  assumes "\<forall>e \<in> set edges. toAsset e \<in> targets graph"
  shows "sum_list (map (route_weight graph) (snd (expand_edges limits entry edges observations))) * (fan_out graph + 1)
    \<le> length edges * route_weight graph entry"
  using assms
proof (induction limits entry edges observations rule: expand_edges.induct)
  case (2 limits entry edge edges observations)
  show ?case
  proof (cases "edge_skipped limits entry edge")
    case True
    with 2 show ?thesis by auto
  next
    case False
    let ?o = "edge_observation entry edge"
    obtain obs added where a: "addObservation limits (toAsset edge) ?o observations = (obs, added)" by fastforce
    obtain obs2 pushed where p: "expand_edges limits entry edges obs = (obs2, pushed)" by fastforce
    have IH: "sum_list (map (route_weight graph) pushed) * (fan_out graph + 1) \<le> length edges * route_weight graph entry"
      using "2.IH"(2) [OF False refl a [symmetric] refl] "2.prems" p by simp
    have x: "toAsset edge \<in> targets graph - set (obs_path entry)" using False "2.prems" by (auto simp: edge_skipped_def)
    have "targets graph - set (obs_path (entry_of (toAsset edge) ?o))
        = (targets graph - set (obs_path entry)) - {toAsset edge}"
      by (auto simp: entry_of_def edge_observation_def)
    then have "card (targets graph - set (obs_path entry))
        = Suc (card (targets graph - set (obs_path (entry_of (toAsset edge) ?o))))"
      using x card_Suc_Diff1 [of "targets graph - set (obs_path entry)" "toAsset edge"] by simp
    then have "route_weight graph (entry_of (toAsset edge) ?o) * (fan_out graph + 1) = route_weight graph entry"
      by (simp add: route_weight_def)
    with IH False a p show ?thesis by (auto simp: Let_def add_mult_distrib)
  qed
qed simp

function path_loop :: "search_limits \<Rightarrow> price_graph \<Rightarrow> path_queue_entry list \<Rightarrow> observation_map \<Rightarrow> observation_map" where
  "path_loop limits graph [] observations = observations"
| "path_loop limits graph (entry # queue) observations =
     (let step = expand_edges limits entry (edges_of graph (pq_assetId entry)) observations
      in path_loop limits graph (queue @ snd step) (fst step))"
  by pat_completeness auto
termination
proof (relation "measure (\<lambda>(limits, graph, queue, observations). sum_list (map (route_weight graph) queue))",
    goal_cases)
  case (2 limits graph entry queue observations step)
  let ?new = "sum_list (map (route_weight graph) (snd step))"
  have "?new * (fan_out graph + 1) \<le> length (edges_of graph (pq_assetId entry)) * route_weight graph entry"
    unfolding 2 by (rule expand_edges_weight) auto
  also have "\<dots> \<le> fan_out graph * route_weight graph entry"
    using length_edges_fan_out by (rule mult_le_mono1)
  also have "\<dots> < (fan_out graph + 1) * route_weight graph entry" by (simp add: route_weight_def)
  finally have "(fan_out graph + 1) * ?new < (fan_out graph + 1) * route_weight graph entry"
    by (simp only: mult.commute)
  then have "?new < route_weight graph entry" unfolding mult_less_cancel1 by simp
  then show ?case by simp
qed simp

record graph_price =
  gp_priceBigint :: int
  gp_hopCount :: int
  gp_pathLiquidityUsd :: int

definition seed_entry :: "int \<times> int \<Rightarrow> path_queue_entry" where
  "seed_entry = (\<lambda>(assetId, price). \<lparr>obs_priceBigint = price, obs_hopCount = 0,
     obs_pathLiquidityUsd = UNBOUNDED_PATH_LIQUIDITY, obs_path = [assetId], pq_assetId = assetId\<rparr>)"

definition select_medians :: "observation_map \<Rightarrow> (int, graph_price) jsmap" where
  "select_medians observations =
     foldl (\<lambda>resolved (assetId, assetObservations).
        case weightedMedianPathObservation assetObservations of
          None \<Rightarrow> resolved
        | Some selected \<Rightarrow> map_set assetId
            \<lparr>gp_priceBigint = obs_priceBigint selected, gp_hopCount = obs_hopCount selected,
             gp_pathLiquidityUsd = obs_pathLiquidityUsd selected\<rparr> resolved) [] observations"

definition resolveGraphPricesByWeightedMedian ::
  "(int, int) jsmap \<Rightarrow> int list \<Rightarrow> price_graph \<Rightarrow> search_options \<Rightarrow> int \<Rightarrow> (int, graph_price) jsmap" where
  "resolveGraphPricesByWeightedMedian seeds omnipoolPricedAssets graph options maxHops =
     (let limits = search_limits_of options omnipoolPricedAssets maxHops;
          observations = path_loop limits graph (map seed_entry seeds) [];
          resolved = select_medians observations
      in foldl (\<lambda>m (assetId, price). map_set assetId
           \<lparr>gp_priceBigint = price, gp_hopCount = 0, gp_pathLiquidityUsd = UNBOUNDED_PATH_LIQUIDITY\<rparr> m)
           resolved seeds)"

section \<open>Invariants of the breadth-first search\<close>

text \<open>Everything resolved or queued is the end of a route.\<close>

definition bfs_sound ::
  "price_graph \<Rightarrow> int list \<Rightarrow> int \<Rightarrow> (int, int) jsmap \<Rightarrow> queue_entry list \<Rightarrow> (int, resolved_price) jsmap \<Rightarrow> bool" where
  "bfs_sound graph omni maxHops seeds queue resolved \<longleftrightarrow>
     (\<forall>q \<in> set queue. \<exists>path. route graph omni maxHops seeds (q_assetId q) (q_priceBigint q) (q_hopCount q) path
        \<and> set path \<subseteq> set (map_keys resolved)) \<and>
     (\<forall>a r. map_of resolved a = Some r \<longrightarrow>
        (\<exists>path. route graph omni maxHops seeds a (rp_priceBigint r) (rp_hopCount r) path))"

lemma bfs_edges_sound:
  assumes "bfs_sound graph omni maxHops seeds (entry # queue) resolved"
    and "set edges \<subseteq> set (edges_of graph (q_assetId entry))"
    and "bfs_edges omni maxHops entry edges resolved = (resolved', pushed)"
  shows "bfs_sound graph omni maxHops seeds (entry # queue @ pushed) resolved'
    \<and> (\<forall>a. map_has resolved a \<longrightarrow> map_of resolved' a = map_of resolved a)"
  using assms
proof (induction omni maxHops entry edges resolved arbitrary: resolved' pushed queue rule: bfs_edges.induct)
  case (2 omni maxHops entry edge edges resolved)
  show ?case
  proof (cases "toAsset edge \<in> set omni \<or> map_has resolved (toAsset edge)
        \<or> nextHopCount edge (q_hopCount entry) > maxHops
        \<or> computePrice edge (q_priceBigint entry) BFS_PRECISION = 0")
    case True
    with 2 show ?thesis by auto
  next
    case False
    let ?p = "computePrice edge (q_priceBigint entry) BFS_PRECISION"
    let ?h = "nextHopCount edge (q_hopCount entry)"
    let ?m = "map_set (toAsset edge) \<lparr>rp_priceBigint = ?p, rp_hopCount = ?h\<rparr> resolved"
    let ?e = "\<lparr>q_assetId = toAsset edge, q_priceBigint = ?p, q_hopCount = ?h\<rparr>"
    obtain ps where r: "bfs_edges omni maxHops entry edges ?m = (resolved', ps)" "pushed = ?e # ps"
      using "2.prems"(3) False by (auto simp: Let_def split: prod.splits)
    obtain path where path: "route graph omni maxHops seeds (q_assetId entry) (q_priceBigint entry) (q_hopCount entry) path"
      "set path \<subseteq> set (map_keys resolved)"
      using "2.prems"(1) by (auto simp: bfs_sound_def)
    have "toAsset edge \<notin> set path" using False path(2) by (auto simp: map_has_def)
    with path False "2.prems"(2) have new: "route graph omni maxHops seeds (toAsset edge) ?p ?h (path @ [toAsset edge])"
      by (intro route_edge) auto
    have "bfs_sound graph omni maxHops seeds (entry # queue @ [?e]) ?m"
      unfolding bfs_sound_def
    proof (intro conjI ballI allI impI)
      fix q assume q: "q \<in> set (entry # queue @ [?e])"
      show "\<exists>path. route graph omni maxHops seeds (q_assetId q) (q_priceBigint q) (q_hopCount q) path
          \<and> set path \<subseteq> set (map_keys ?m)"
      proof (cases "q = ?e")
        case True
        then show ?thesis using new path(2) unfolding map_set_keys_set by fastforce
      next
        case False
        with q "2.prems"(1) obtain pa where "route graph omni maxHops seeds (q_assetId q) (q_priceBigint q) (q_hopCount q) pa"
          "set pa \<subseteq> set (map_keys resolved)" unfolding bfs_sound_def by auto
        then show ?thesis unfolding map_set_keys_set by blast
      qed
    next
      fix a r assume "map_of ?m a = Some r"
      then show "\<exists>path. route graph omni maxHops seeds a (rp_priceBigint r) (rp_hopCount r) path"
        using new "2.prems"(1) by (auto simp: bfs_sound_def split: if_splits)
    qed
    then have "bfs_sound graph omni maxHops seeds (entry # (queue @ [?e]) @ ps) resolved'
        \<and> (\<forall>a. map_has ?m a \<longrightarrow> map_of resolved' a = map_of ?m a)"
      using "2.IH"(2) [OF False refl refl, of "queue @ [?e]" resolved' ps] "2.prems"(2) r(1) by simp
    with r(2) False show ?thesis by auto
  qed
qed simp

lemma bfs_loop_sound:
  assumes "bfs_sound graph omni maxHops seeds queue resolved"
  shows "bfs_sound graph omni maxHops seeds [] (bfs_loop graph omni maxHops queue resolved)
    \<and> (\<forall>a. map_has resolved a \<longrightarrow> map_of (bfs_loop graph omni maxHops queue resolved) a = map_of resolved a)"
  using assms
proof (induction graph omni maxHops queue resolved rule: bfs_loop.induct)
  case (1 graph omni maxHops resolved)
  then show ?case by simp
next
  case (2 graph omni maxHops entry queue resolved)
  define step where "step = bfs_edges omni maxHops entry (edges_of graph (q_assetId entry)) resolved"
  have s: "bfs_edges omni maxHops entry (edges_of graph (q_assetId entry)) resolved = (fst step, snd step)"
    by (simp add: step_def)
  have "bfs_sound graph omni maxHops seeds (entry # queue @ snd step) (fst step)
      \<and> (\<forall>a. map_has resolved a \<longrightarrow> map_of (fst step) a = map_of resolved a)"
    by (rule bfs_edges_sound [OF "2.prems" subset_refl s])
  moreover from this have "bfs_sound graph omni maxHops seeds (queue @ snd step) (fst step)"
    by (auto simp: bfs_sound_def)
  ultimately show ?case using "2.IH" [OF step_def] by (auto simp: step_def Let_def map_has_iff)
qed

lemma seeds_map:
  "map_wf seeds \<Longrightarrow> map_of (foldl (\<lambda>m (a, p). map_set a (f p) m) m0 seeds) a =
     (case map_of seeds a of None \<Rightarrow> map_of m0 a | Some p \<Rightarrow> Some (f p))"
proof (induction seeds arbitrary: m0)
  case (Cons s seeds)
  obtain b p where s: "s = (b, p)" by (cases s)
  have "map_of seeds b = None" using Cons.prems s by (simp add: map_of_eq_None_iff)
  with Cons s show ?case by (simp split: option.split)
qed simp

text \<open>the breadth-first search always ends; every seed keeps its price at hop zero, and each other
  asset it prices is the end of a simple route from a seed that avoids authoritative assets and
  crosses at most \<open>maxHops\<close> pools, with the price the edges of that route compute.
\<close>

lemma bfs_prices_are_routes:
  assumes "map_wf seeds" and "map_of (bfsResolvePrices seeds omni graph maxHops) a = Some r"
  shows "(\<exists>path. route graph omni maxHops seeds a (rp_priceBigint r) (rp_hopCount r) path)
    \<and> 0 \<le> rp_hopCount r \<and> (0 \<le> maxHops \<longrightarrow> rp_hopCount r \<le> maxHops)
    \<and> (\<forall>p. map_of seeds a = Some p \<longrightarrow> rp_priceBigint r = p \<and> rp_hopCount r = 0)"
proof -
  let ?start = "foldl (\<lambda>m (a, p). map_set a \<lparr>rp_priceBigint = p, rp_hopCount = 0\<rparr> m) [] seeds"
  let ?queue = "map (\<lambda>(a, p). \<lparr>q_assetId = a, q_priceBigint = p, q_hopCount = 0\<rparr>) seeds"
  have start: "map_of ?start b = (case map_of seeds b of None \<Rightarrow> None
      | Some p \<Rightarrow> Some \<lparr>rp_priceBigint = p, rp_hopCount = 0\<rparr>)" for b
    using seeds_map [OF assms(1), of "\<lambda>p. \<lparr>rp_priceBigint = p, rp_hopCount = 0\<rparr>" "[]" b]
    by (cases "map_of seeds b") simp_all
  have keys: "b \<in> set (map_keys ?start)" if "(b, p) \<in> set seeds" for b p
    using start [of b] map_of_is_SomeI [OF assms(1) that] by (force dest: map_of_SomeD)
  have "bfs_sound graph omni maxHops seeds ?queue ?start"
    unfolding bfs_sound_def
  proof (intro conjI ballI allI impI)
    fix q assume "q \<in> set ?queue"
    then obtain b p where "(b, p) \<in> set seeds" "q = \<lparr>q_assetId = b, q_priceBigint = p, q_hopCount = 0\<rparr>" by auto
    then show "\<exists>path. route graph omni maxHops seeds (q_assetId q) (q_priceBigint q) (q_hopCount q) path
        \<and> set path \<subseteq> set (map_keys ?start)"
      using keys by (intro exI [of _ "[b]"]) (simp add: route_seed)
  next
    fix b r assume "map_of ?start b = Some r"
    then obtain p where "map_of seeds b = Some p" "r = \<lparr>rp_priceBigint = p, rp_hopCount = 0\<rparr>"
      using start [of b] by (auto split: option.splits)
    then show "\<exists>path. route graph omni maxHops seeds b (rp_priceBigint r) (rp_hopCount r) path"
      using route_seed [OF map_of_SomeD [of seeds b p]] by auto
  qed
  from bfs_loop_sound [OF this] have sound: "bfs_sound graph omni maxHops seeds [] (bfsResolvePrices seeds omni graph maxHops)"
    "\<forall>a. map_has ?start a \<longrightarrow> map_of (bfsResolvePrices seeds omni graph maxHops) a = map_of ?start a"
    by (simp_all add: bfsResolvePrices_def)
  then obtain path where path: "route graph omni maxHops seeds a (rp_priceBigint r) (rp_hopCount r) path"
    using assms(2) unfolding bfs_sound_def by blast
  have "rp_priceBigint r = p \<and> rp_hopCount r = 0" if "map_of seeds a = Some p" for p
    using sound(2) assms(2) that start [of a] by (auto simp: map_has_iff)
  with path route_hops [OF path] show ?thesis by blast
qed

text \<open>A concrete graph: one wrapper edge and one pool edge that doubles the price.\<close>

definition copy_edge :: "int \<Rightarrow> graph_edge" where
  "copy_edge target = \<lparr>toAsset = target, edge_poolId = None, edge_kind_of = Atoken, edge_liquidity = 1,
     computePrice = (\<lambda>p _. p), computeLiquidityUsd = None\<rparr>"

definition doubling_edge :: "int \<Rightarrow> graph_edge" where
  "doubling_edge target = \<lparr>toAsset = target, edge_poolId = None, edge_kind_of = Xyk, edge_liquidity = 1,
     computePrice = (\<lambda>p _. 2 * p), computeLiquidityUsd = None\<rparr>"

definition sample_graph :: price_graph where
  "sample_graph = [(1, [copy_edge 2]), (2, [doubling_edge 3])]"

lemma sample_bfs:
  "bfsResolvePrices [(1, 7)] [1] sample_graph 3 =
     [(1, \<lparr>rp_priceBigint = 7, rp_hopCount = 0\<rparr>), (2, \<lparr>rp_priceBigint = 7, rp_hopCount = 0\<rparr>),
      (3, \<lparr>rp_priceBigint = 14, rp_hopCount = 1\<rparr>)]"
  by (simp add: bfsResolvePrices_def sample_graph_def copy_edge_def doubling_edge_def edges_of_def
      nextHopCount_def Let_def)

section \<open>Invariants of the route search\<close>

interpretation cmp_kept: js_comparator cmp_kept
  by unfold_locales (auto simp: cmp_kept_def split: if_splits)

definition kept_ok ::
  "price_graph \<Rightarrow> search_limits \<Rightarrow> (int, int) jsmap \<Rightarrow> int \<Rightarrow> price_path_observation list \<Rightarrow> bool" where
  "kept_ok graph limits seeds a lst \<longleftrightarrow>
     lst \<noteq> [] \<and> length lst \<le> lim_maxObservations limits \<and> a \<notin> set (lim_omnipoolPriced limits)
     \<and> distinct (map (\<lambda>x. (obs_priceBigint x, obs_hopCount x, obs_path x)) lst)
     \<and> (\<forall>x \<in> set lst. route graph (lim_omnipoolPriced limits) (lim_maxHops limits) seeds a
          (obs_priceBigint x) (obs_hopCount x) (obs_path x) \<and> 1 < length (obs_path x)
          \<and> lim_minPathLiquidityUsd limits \<le> obs_pathLiquidityUsd x)"

definition observations_ok :: "price_graph \<Rightarrow> search_limits \<Rightarrow> (int, int) jsmap \<Rightarrow> observation_map \<Rightarrow> bool" where
  "observations_ok graph limits seeds observations \<longleftrightarrow>
     map_wf observations \<and> (\<forall>a lst. map_of observations a = Some lst \<longrightarrow> kept_ok graph limits seeds a lst)"

definition queue_ok :: "price_graph \<Rightarrow> search_limits \<Rightarrow> (int, int) jsmap \<Rightarrow> path_queue_entry list \<Rightarrow> bool" where
  "queue_ok graph limits seeds queue \<longleftrightarrow>
     (\<forall>q \<in> set queue. route graph (lim_omnipoolPriced limits) (lim_maxHops limits) seeds (pq_assetId q)
        (obs_priceBigint q) (obs_hopCount q) (obs_path q))"

definition new_observation_ok ::
  "price_graph \<Rightarrow> search_limits \<Rightarrow> (int, int) jsmap \<Rightarrow> int \<Rightarrow> price_path_observation \<Rightarrow> bool" where
  "new_observation_ok graph limits seeds a x \<longleftrightarrow> a \<notin> set (lim_omnipoolPriced limits)
     \<and> route graph (lim_omnipoolPriced limits) (lim_maxHops limits) seeds a
          (obs_priceBigint x) (obs_hopCount x) (obs_path x) \<and> 1 < length (obs_path x)
     \<and> lim_minPathLiquidityUsd limits \<le> obs_pathLiquidityUsd x"

definition limits_ok :: "search_limits \<Rightarrow> bool" where
  "limits_ok limits \<longleftrightarrow> 0 < lim_maxObservations limits \<and> 0 \<le> lim_minPathLiquidityUsd limits"

lemma usdThresholdTo18_nonneg [simp]: "0 \<le> usdThresholdTo18 v"
  by (auto simp: usdThresholdTo18_def USD_LIQUIDITY_SCALE_def split: option.split usd_threshold.split)

lemma limits_ok_of [simp]: "limits_ok (search_limits_of options omni maxHops)"
  by (simp add: limits_ok_def search_limits_of_def)

abbreviation obs_key :: "price_path_observation \<Rightarrow> int \<times> int \<times> int list" where
  "obs_key x \<equiv> (obs_priceBigint x, obs_hopCount x, obs_path x)"

lemma same_key_iff: "same_key x y \<longleftrightarrow> obs_key x = obs_key y"
  by (auto simp: same_key_def)

lemma kept_merge:
  assumes "kept_ok graph limits seeds a lst" "0 \<le> obs_pathLiquidityUsd x"
  shows "kept_ok graph limits seeds a (map (\<lambda>y. if same_key y x
     then y\<lparr>obs_pathLiquidityUsd := obs_pathLiquidityUsd y + obs_pathLiquidityUsd x\<rparr> else y) lst)"
proof -
  define f where "f = (\<lambda>y. if same_key y x
     then y\<lparr>obs_pathLiquidityUsd := obs_pathLiquidityUsd y + obs_pathLiquidityUsd x\<rparr> else y)"
  have f: "obs_priceBigint (f y) = obs_priceBigint y" "obs_hopCount (f y) = obs_hopCount y"
    "obs_path (f y) = obs_path y" "obs_pathLiquidityUsd y \<le> obs_pathLiquidityUsd (f y)" for y
    using assms(2) by (auto simp: f_def)
  show ?thesis unfolding f_def [symmetric]
    using assms(1) f order_trans unfolding kept_ok_def by (auto simp: o_def intro: order_trans)
qed

lemma kept_insert:
  assumes "lst = [] \<or> kept_ok graph limits seeds a lst" "new_observation_ok graph limits seeds a x"
    and "limits_ok limits" and "\<not> (\<exists>y \<in> set lst. same_key y x)"
  shows "kept_ok graph limits seeds a (take (lim_maxObservations limits) (sort_cmp cmp_kept (lst @ [x])))"
proof -
  let ?s = "sort_cmp cmp_kept (lst @ [x])"
  have "distinct (map obs_key (lst @ [x]))" using assms(1,4) by (auto simp: kept_ok_def same_key_iff)
  moreover have "mset (map obs_key ?s) = mset (map obs_key (lst @ [x]))"
    unfolding mset_map mset_sort_cmp by simp
  ultimately have d: "distinct (map obs_key ?s)" using mset_eq_imp_distinct_iff by blast
  have sub: "set (take (lim_maxObservations limits) ?s) \<subseteq> insert x (set lst)"
    using set_take_subset [of "lim_maxObservations limits" ?s] by simp
  have ne: "take (lim_maxObservations limits) ?s \<noteq> []" using assms(3) by (simp add: limits_ok_def)
  have dt: "distinct (map obs_key (take (lim_maxObservations limits) ?s))"
    using d by (simp only: take_map [symmetric] distinct_take)
  have a: "a \<notin> set (lim_omnipoolPriced limits)" using assms(2) by (simp add: new_observation_ok_def)
  have "\<forall>y \<in> insert x (set lst). route graph (lim_omnipoolPriced limits) (lim_maxHops limits) seeds a
          (obs_priceBigint y) (obs_hopCount y) (obs_path y) \<and> 1 < length (obs_path y)
          \<and> lim_minPathLiquidityUsd limits \<le> obs_pathLiquidityUsd y"
    using assms(1,2) by (auto simp: kept_ok_def new_observation_ok_def)
  with sub ne dt a show ?thesis unfolding kept_ok_def by auto
qed

lemma addObservation_ok:
  assumes "observations_ok graph limits seeds observations" "new_observation_ok graph limits seeds a x"
    and "limits_ok limits" and "addObservation limits a x observations = (observations', added)"
  shows "observations_ok graph limits seeds observations' \<and> map_has observations' a
    \<and> (\<forall>b. map_has observations b \<longrightarrow> map_has observations' b)"
proof -
  define lst where "lst = observations_of observations a"
  have lst: "lst = [] \<or> kept_ok graph limits seeds a lst"
    using assms(1) by (auto simp: lst_def observations_of_def observations_ok_def split: option.splits)
  have set_ok: "observations_ok graph limits seeds (map_set a l observations)"
    if "kept_ok graph limits seeds a l" for l
    using assms(1) that by (auto simp: observations_ok_def)
  show ?thesis
  proof (cases "\<exists>y \<in> set lst. same_key y x")
    case True
    have "kept_ok graph limits seeds a (map (\<lambda>y. if same_key y x
       then y\<lparr>obs_pathLiquidityUsd := obs_pathLiquidityUsd y + obs_pathLiquidityUsd x\<rparr> else y) lst)"
      using True lst assms(2,3) by (intro kept_merge) (auto simp: new_observation_ok_def limits_ok_def)
    with True set_ok assms(4) show ?thesis
      by (auto simp: addObservation_def lst_def [symmetric] Let_def)
  next
    case False
    let ?s = "sort_cmp cmp_kept (lst @ [x])"
    have "observations' = map_set a (take (lim_maxObservations limits) ?s) observations"
      using False assms(4) unfolding addObservation_def lst_def [symmetric] Let_def
      by (auto split: if_splits)
    with set_ok [OF kept_insert [OF lst assms(2,3) False]] show ?thesis by simp
  qed
qed

lemma edge_observation_ok:
  assumes "queue_ok graph limits seeds [entry]" "edge \<in> set (edges_of graph (pq_assetId entry))"
    and "\<not> edge_skipped limits entry edge"
  shows "new_observation_ok graph limits seeds (toAsset edge) (edge_observation entry edge)"
proof -
  have r: "route graph (lim_omnipoolPriced limits) (lim_maxHops limits) seeds (pq_assetId entry)
      (obs_priceBigint entry) (obs_hopCount entry) (obs_path entry)"
    using assms(1) by (simp add: queue_ok_def)
  then have "obs_path entry \<noteq> []" using route_path by blast
  with r assms(2,3) show ?thesis
    by (auto simp: new_observation_ok_def edge_observation_def edge_skipped_def Suc_lessI intro!: route_edge)
qed

lemma expand_edges_ok:
  assumes "observations_ok graph limits seeds observations" "queue_ok graph limits seeds [entry]"
    and "limits_ok limits" and "set edges \<subseteq> set (edges_of graph (pq_assetId entry))"
    and "expand_edges limits entry edges observations = (observations', pushed)"
  shows "observations_ok graph limits seeds observations' \<and> queue_ok graph limits seeds pushed
    \<and> (\<forall>b. map_has observations b \<longrightarrow> map_has observations' b)
    \<and> (\<forall>e \<in> set edges. \<not> edge_skipped limits entry e \<longrightarrow> map_has observations' (toAsset e))"
  using assms
proof (induction limits entry edges observations arbitrary: observations' pushed rule: expand_edges.induct)
  case (1 limits entry observations)
  then show ?case by (simp add: queue_ok_def)
next
  case (2 limits entry edge edges observations)
  show ?case
  proof (cases "edge_skipped limits entry edge")
    case True
    with "2.IH"(1) [OF True, of observations' pushed] "2.prems" show ?thesis by auto
  next
    case False
    let ?o = "edge_observation entry edge"
    obtain obs added where a: "addObservation limits (toAsset edge) ?o observations = (obs, added)" by fastforce
    obtain ps where p: "expand_edges limits entry edges obs = (observations', ps)"
      "pushed = (if added then entry_of (toAsset edge) ?o # ps else ps)"
      using "2.prems"(5) False a by (auto simp: Let_def split: prod.splits)
    have new: "new_observation_ok graph limits seeds (toAsset edge) ?o"
      using edge_observation_ok [OF "2.prems"(2) _ False] "2.prems"(4) by simp
    note add = addObservation_ok [OF "2.prems"(1) new "2.prems"(3) a]
    have "observations_ok graph limits seeds observations' \<and> queue_ok graph limits seeds ps
      \<and> (\<forall>b. map_has obs b \<longrightarrow> map_has observations' b)
      \<and> (\<forall>e \<in> set edges. \<not> edge_skipped limits entry e \<longrightarrow> map_has observations' (toAsset e))"
      using "2.IH"(2) [OF False refl a [symmetric] refl, of observations' ps] add "2.prems"(2-4) p(1) by simp
    moreover have "queue_ok graph limits seeds [entry_of (toAsset edge) ?o]"
      using new by (simp add: queue_ok_def entry_of_def new_observation_ok_def)
    ultimately show ?thesis using add p(2) by (auto simp: queue_ok_def)
  qed
qed

lemma path_loop_ok:
  assumes "observations_ok graph limits seeds observations" "queue_ok graph limits seeds queue" "limits_ok limits"
  shows "observations_ok graph limits seeds (path_loop limits graph queue observations)
    \<and> (\<forall>b. map_has observations b \<longrightarrow> map_has (path_loop limits graph queue observations) b)
    \<and> (\<forall>q \<in> set queue. \<forall>e \<in> set (edges_of graph (pq_assetId q)). \<not> edge_skipped limits q e \<longrightarrow>
         map_has (path_loop limits graph queue observations) (toAsset e))"
  using assms
proof (induction limits graph queue observations rule: path_loop.induct)
  case (2 limits graph entry queue observations)
  define step where "step = expand_edges limits entry (edges_of graph (pq_assetId entry)) observations"
  have s: "expand_edges limits entry (edges_of graph (pq_assetId entry)) observations = (fst step, snd step)"
    by (simp add: step_def)
  have e: "queue_ok graph limits seeds [entry]" "queue_ok graph limits seeds queue"
    using "2.prems"(2) by (simp_all add: queue_ok_def)
  note x = expand_edges_ok [OF "2.prems"(1) e(1) "2.prems"(3) subset_refl s]
  have "queue_ok graph limits seeds (queue @ snd step)" using x e(2) by (auto simp: queue_ok_def)
  with "2.IH" [OF step_def] x "2.prems"(3) show ?case by (auto simp: step_def [symmetric] Let_def)
qed simp

definition graph_price_of :: "price_path_observation \<Rightarrow> graph_price" where
  "graph_price_of x = \<lparr>gp_priceBigint = obs_priceBigint x, gp_hopCount = obs_hopCount x,
     gp_pathLiquidityUsd = obs_pathLiquidityUsd x\<rparr>"

lemma select_medians_get:
  assumes "map_wf observations"
  shows "map_of (select_medians observations) a =
    map_option graph_price_of (Option.bind (map_of observations a) weightedMedianPathObservation)"
proof -
  define step where "step = (\<lambda>resolved (assetId :: int, assetObservations).
        case weightedMedianPathObservation assetObservations of
          None \<Rightarrow> resolved
        | Some selected \<Rightarrow> map_set assetId (graph_price_of selected) resolved)"
  have "map_of (foldl step m observations) a = (case map_of observations a of None \<Rightarrow> map_of m a
     | Some lst \<Rightarrow> (case weightedMedianPathObservation lst of None \<Rightarrow> map_of m a
         | Some x \<Rightarrow> Some (graph_price_of x)))" for m
    using assms
  proof (induction observations arbitrary: m)
    case (Cons o1 observations)
    obtain b lst where o1: "o1 = (b, lst)" by (cases o1)
    have "map_of observations b = None" using Cons.prems o1 by (simp add: map_of_eq_None_iff)
    with Cons o1 show ?case by (simp add: step_def split: option.split)
  qed simp
  moreover have "select_medians observations = foldl step [] observations"
    unfolding select_medians_def step_def graph_price_of_def ..
  ultimately show ?thesis by (simp split: option.split)
qed

lemma seed_queue_ok: "queue_ok graph limits seeds (map seed_entry seeds)"
  by (auto simp: queue_ok_def seed_entry_def intro: route_seed)

abbreviation search_observations ::
  "(int, int) jsmap \<Rightarrow> int list \<Rightarrow> price_graph \<Rightarrow> search_options \<Rightarrow> int \<Rightarrow> observation_map" where
  "search_observations seeds omni graph options maxHops \<equiv>
     path_loop (search_limits_of options omni maxHops) graph (map seed_entry seeds) []"

lemma search_observations_ok:
  "observations_ok graph (search_limits_of options omni maxHops) seeds
     (search_observations seeds omni graph options maxHops)"
  using path_loop_ok [of graph "search_limits_of options omni maxHops" seeds "[]" "map seed_entry seeds"]
  by (simp add: seed_queue_ok observations_ok_def)

lemma resolve_graph_get:
  assumes "map_wf seeds"
  shows "map_of (resolveGraphPricesByWeightedMedian seeds omni graph options maxHops) a =
    (case map_of seeds a of
       Some p \<Rightarrow> Some \<lparr>gp_priceBigint = p, gp_hopCount = 0, gp_pathLiquidityUsd = UNBOUNDED_PATH_LIQUIDITY\<rparr>
     | None \<Rightarrow> map_option graph_price_of (Option.bind
         (map_of (search_observations seeds omni graph options maxHops) a) weightedMedianPathObservation))"
  using search_observations_ok [of graph options omni maxHops seeds]
  unfolding resolveGraphPricesByWeightedMedian_def Let_def
    seeds_map [OF assms, of "\<lambda>p. \<lparr>gp_priceBigint = p, gp_hopCount = 0, gp_pathLiquidityUsd = UNBOUNDED_PATH_LIQUIDITY\<rparr>"]
  by (simp add: select_medians_get observations_ok_def split: option.split)

lemma resolve_graph_keys_wf: "map_wf (resolveGraphPricesByWeightedMedian seeds omni graph options maxHops)"
proof -
  have 1: "map_wf m \<Longrightarrow> map_wf (foldl (\<lambda>m (a, p). map_set a (f p) m) m xs)" for m :: "(int, graph_price) jsmap" and f xs
    by (induction xs arbitrary: m) auto
  have 2: "map_wf (foldl (\<lambda>resolved (assetId :: int, assetObservations).
        case weightedMedianPathObservation assetObservations of
          None \<Rightarrow> resolved
        | Some selected \<Rightarrow> map_set assetId
            \<lparr>gp_priceBigint = obs_priceBigint selected, gp_hopCount = obs_hopCount selected,
             gp_pathLiquidityUsd = obs_pathLiquidityUsd selected\<rparr> resolved) m xs)" if "map_wf m" for m xs
    using that by (induction xs arbitrary: m) (auto split: option.split)
  show ?thesis unfolding resolveGraphPricesByWeightedMedian_def Let_def select_medians_def
    by (intro 1 2) simp
qed

lemma resolve_graph_cases:
  assumes "map_wf seeds" and "map_of (resolveGraphPricesByWeightedMedian seeds omni graph options maxHops) a = Some g"
  obtains (seed) p where "map_of seeds a = Some p" "gp_priceBigint g = p" "gp_hopCount g = 0"
    "gp_pathLiquidityUsd g = UNBOUNDED_PATH_LIQUIDITY"
  | (route) path where "map_of seeds a = None" "a \<notin> set omni" "1 < length path"
    "route graph omni maxHops seeds a (gp_priceBigint g) (gp_hopCount g) path"
    "usdThresholdTo18 (minGraphPathLiquidityUsd options) \<le> gp_pathLiquidityUsd g"
proof (cases "map_of seeds a")
  case (Some p)
  with assms seed show ?thesis by (simp add: resolve_graph_get [OF assms(1)]) (metis graph_price.select_convs)
next
  case None
  with assms obtain lst x where "map_of (search_observations seeds omni graph options maxHops) a = Some lst"
    "weightedMedianPathObservation lst = Some x" "g = graph_price_of x"
    by (auto simp: resolve_graph_get [OF assms(1)] bind_eq_Some_conv)
  moreover from this have "kept_ok graph (search_limits_of options omni maxHops) seeds a lst"
    using search_observations_ok [of graph options omni maxHops seeds] by (simp add: observations_ok_def)
  ultimately show ?thesis using None route [of "obs_path x"] weightedMedianPath_in
    by (force simp: kept_ok_def search_limits_of_def graph_price_of_def)
qed

section \<open>Properties of the route search\<close>

text \<open>
  C21: the route search always ends (the definition is total), and what it returns for an asset is
  either its seed, untouched, or the price of an actual simple route: the route starts at a seed,
  never enters an asset with an authoritative price, crosses at most \<open>maxHops\<close> pools, the price is
  the one its edges compute, and its liquidity clears the configured threshold.
\<close>

theorem graph_prices_are_routes:
  assumes "map_wf seeds" and "0 \<le> maxHops"
    and "map_of (resolveGraphPricesByWeightedMedian seeds omni graph options maxHops) a = Some g"
  shows "(case map_of seeds a of
      Some p \<Rightarrow> gp_priceBigint g = p \<and> gp_hopCount g = 0
    | None \<Rightarrow> a \<notin> set omni \<and> 0 \<le> gp_hopCount g \<and> gp_hopCount g \<le> maxHops
        \<and> usdThresholdTo18 (minGraphPathLiquidityUsd options) \<le> gp_pathLiquidityUsd g
        \<and> (\<exists>path. distinct path \<and> last path = a
             \<and> route graph omni maxHops seeds a (gp_priceBigint g) (gp_hopCount g) path))"
  using assms(1,3)
proof (cases rule: resolve_graph_cases)
  case (route path)
  with route_path [OF route(4)] route_hops [OF route(4)] assms(2) show ?thesis by auto
qed simp

lemma sample_search:
  "resolveGraphPricesByWeightedMedian [(1, 7)] [1] sample_graph
     \<lparr>minGraphPathLiquidityUsd = None, maxObservationsPerAsset = None, lpEquivalences = [], opt_uniswapV3Pools = []\<rparr> 3 =
     [(2, \<lparr>gp_priceBigint = 7, gp_hopCount = 0, gp_pathLiquidityUsd = 10 ^ 60\<rparr>),
      (3, \<lparr>gp_priceBigint = 14, gp_hopCount = 1, gp_pathLiquidityUsd = 10 ^ 60\<rparr>),
      (1, \<lparr>gp_priceBigint = 7, gp_hopCount = 0, gp_pathLiquidityUsd = 10 ^ 60\<rparr>)]"
  by (simp add: resolveGraphPricesByWeightedMedian_def sample_graph_def copy_edge_def doubling_edge_def
      edges_of_def nextHopCount_def search_limits_of_def usdThresholdTo18_def seed_entry_def
      DEFAULT_MAX_OBSERVATIONS_PER_ASSET_def edge_skipped_def edge_path_liquidity_def
      edge_observation_def addObservation_def observations_of_def entry_of_def select_medians_def
      weightedMedianPathObservation_def median_of_sorted_def path_weight_def bdiv_def
      UNBOUNDED_PATH_LIQUIDITY_def Let_def)

theorem graph_prices_are_routes_witness:
  "\<exists>path. distinct path \<and> last path = 3 \<and> route sample_graph [1] 3 [(1, 7)] 3 14 1 path"
  using graph_prices_are_routes [of "[(1, 7)]" 3 "[1]" sample_graph
      "\<lparr>minGraphPathLiquidityUsd = None, maxObservationsPerAsset = None, lpEquivalences = [], opt_uniswapV3Pools = []\<rparr>"
      3 "\<lparr>gp_priceBigint = 14, gp_hopCount = 1, gp_pathLiquidityUsd = 10 ^ 60\<rparr>"]
  by (simp add: sample_search)

text \<open>a usable edge out of a seed is never lost: if the search does not skip it (its target is not
  authoritative, it fits the hops, has a price and clears the liquidity threshold), the target is
  priced in the result, whatever the order of the edges and however many observations compete.
\<close>

lemma seed_neighbours_priced:
  assumes "map_wf seeds" and "(a, p) \<in> set seeds" and "e \<in> set (edges_of graph a)"
    and "\<not> edge_skipped (search_limits_of options omni maxHops) (seed_entry (a, p)) e"
  shows "\<exists>g. map_of (resolveGraphPricesByWeightedMedian seeds omni graph options maxHops) (toAsset e) = Some g"
proof -
  let ?obs = "search_observations seeds omni graph options maxHops"
  have "seed_entry (a, p) \<in> set (map seed_entry seeds)" "pq_assetId (seed_entry (a, p)) = a"
    using assms(2) by (auto simp: seed_entry_def image_iff intro!: bexI [of _ "(a, p)"])
  then have "map_has ?obs (toAsset e)"
    using path_loop_ok [of graph "search_limits_of options omni maxHops" seeds "[]" "map seed_entry seeds"] assms(3,4)
    by (auto simp: seed_queue_ok observations_ok_def)
  then obtain lst where lst: "map_of ?obs (toAsset e) = Some lst" by (auto simp: map_has_iff)
  then have "lst \<noteq> []" using search_observations_ok [of graph options omni maxHops seeds]
    by (auto simp: observations_ok_def kept_ok_def)
  then show ?thesis using lst
    by (auto simp: resolve_graph_get [OF assms(1)] weightedMedianPath_eq split: option.split)
qed

text \<open>the search keeps at most \<open>maxObservationsPerAsset\<close> observations of an asset, at least
  one, no two of them for the same price, hop count and route; so the key map of the code is an
  index of that list.
\<close>

lemma observation_keys_distinct:
  assumes "map_of (search_observations seeds omni graph options maxHops) a = Some lst"
  shows "0 < length lst
    \<and> int (length lst) \<le> max 1 (case maxObservationsPerAsset options of
          None \<Rightarrow> DEFAULT_MAX_OBSERVATIONS_PER_ASSET | Some n \<Rightarrow> n)
    \<and> distinct (map obs_key lst)"
proof -
  have "kept_ok graph (search_limits_of options omni maxHops) seeds a lst"
    using assms search_observations_ok [of graph options omni maxHops seeds] unfolding observations_ok_def by blast
  then have "lst \<noteq> []" "length lst \<le> lim_maxObservations (search_limits_of options omni maxHops)"
    "distinct (map obs_key lst)"
    unfolding kept_ok_def by blast+
  then show ?thesis by (simp add: search_limits_of_def)
qed

end
