(* ===== verification/Price_Graph.thy ===== *)
theory Price_Graph
  imports Price_Search
begin

text \<open>
  \<open>buildGraph\<close> of \<^verbatim>\<open>src/price/graph.ts\<close>: the adjacency lists the route search walks. Each
  family of edges is one definition that adds its edges to the graph state in the order of the
  source; the state carries \<open>maxPoolLiquidity\<close>, from which the wrapper edges take a liquidity
  above every market edge. An edge holds its price function as a value, as the closure of the
  source does; the lazily cached spot price of a stableswap edge is a pure function of the pool,
  so the cache does not show.
\<close>

section \<open>Edges\<close>

record graph_state =
  gs_graph :: price_graph
  gs_maxPoolLiquidity :: int

definition addEdge :: "int \<Rightarrow> graph_edge \<Rightarrow> price_graph \<Rightarrow> price_graph" where
  "addEdge source edge graph = map_set source (edges_of graph source @ [edge]) graph"

definition add_edges :: "(int \<times> graph_edge) list \<Rightarrow> price_graph \<Rightarrow> price_graph" where
  "add_edges es graph = foldl (\<lambda>g (source, edge). addEdge source edge g) graph es"

definition constant_product_price :: "int \<Rightarrow> int \<Rightarrow> nat \<Rightarrow> nat \<Rightarrow> int \<Rightarrow> int \<Rightarrow> int" where
  "constant_product_price knownReserve unknownReserve knownDecimals unknownDecimals knownPrice precision =
     (if knownReserve = 0 \<or> unknownReserve = 0 then 0
      else (let knownScale = 10 ^ knownDecimals; unknownScale = 10 ^ unknownDecimals in
            bdiv (knownReserve * unknownScale * knownPrice) (unknownReserve * knownScale)))"

definition constant_product_edges ::
  "asset_decimals \<Rightarrow> edge_kind \<Rightarrow> 'a xyk_pool_scheme \<Rightarrow> nat \<Rightarrow> nat \<Rightarrow> (int \<times> graph_edge) list" where
  "constant_product_edges decimals kind pool decimalsA decimalsB =
     (let normA = normalizeReserve (reserveA pool) (assetA pool) decimals;
          normB = normalizeReserve (reserveB pool) (assetB pool) decimals;
          liquidity = normA + normB
      in [(assetA pool,
           \<lparr>toAsset = assetB pool, edge_poolId = None, edge_kind_of = kind, edge_liquidity = liquidity,
            computePrice = constant_product_price (reserveA pool) (reserveB pool) decimalsA decimalsB,
            computeLiquidityUsd = Some (conservativePoolLiquidityUsd normA normB)\<rparr>),
          (assetB pool,
           \<lparr>toAsset = assetA pool, edge_poolId = None, edge_kind_of = kind, edge_liquidity = liquidity,
            computePrice = constant_product_price (reserveB pool) (reserveA pool) decimalsB decimalsA,
            computeLiquidityUsd = Some (conservativePoolLiquidityUsd normB normA)\<rparr>)])"

definition raise_max :: "int \<Rightarrow> graph_state \<Rightarrow> graph_state" where
  "raise_max liquidity st =
     (if liquidity > gs_maxPoolLiquidity st then st\<lparr>gs_maxPoolLiquidity := liquidity\<rparr> else st)"

definition addConstantProductEdges ::
  "asset_decimals \<Rightarrow> edge_kind \<Rightarrow> graph_state \<Rightarrow> 'a xyk_pool_scheme \<Rightarrow> graph_state" where
  "addConstantProductEdges decimals kind st pool =
     (if reserveA pool = 0 \<or> reserveB pool = 0 then st
      else (case (map_of decimals (assetA pool), map_of decimals (assetB pool)) of
              (Some decimalsA, Some decimalsB) \<Rightarrow>
                (let st' = raise_max (normalizeReserve (reserveA pool) (assetA pool) decimals
                       + normalizeReserve (reserveB pool) (assetB pool) decimals) st
                 in st'\<lparr>gs_graph := add_edges (constant_product_edges decimals kind pool decimalsA decimalsB)
                       (gs_graph st')\<rparr>)
            | _ \<Rightarrow> st))"

definition pool_liquidity_sum :: "stableswap_pool \<Rightarrow> asset_decimals \<Rightarrow> int" where
  "pool_liquidity_sum pool decimals =
     foldl (\<lambda>acc i. acc + normalizeReserve (pool_reserves pool ! i) (pool_assets pool ! i) decimals) 0
       [0..<length (pool_assets pool)]"

definition stableswap_edge_price ::
  "spot_package \<Rightarrow> stableswap_pool \<Rightarrow> asset_decimals \<Rightarrow> nat \<Rightarrow> nat \<Rightarrow> int \<Rightarrow> int \<Rightarrow> int" where
  "stableswap_edge_price spot pool decimals fromIndex toIndex knownPrice precision =
     (let spotPrice = calculateSpotPrice spot pool toIndex fromIndex decimals in
      if spotPrice = 0 then 0 else bdiv (knownPrice * spotPrice) (10 ^ 12))"

definition stableswap_edge ::
  "spot_package \<Rightarrow> stableswap_pool \<Rightarrow> asset_decimals \<Rightarrow> nat \<Rightarrow> nat \<Rightarrow> int \<times> graph_edge" where
  "stableswap_edge spot pool decimals i j =
     (let fromAsset = pool_assets pool ! i; toA = pool_assets pool ! j;
          fromNormalizedReserve = normalizeReserve (pool_reserves pool ! i) fromAsset decimals;
          toNormalizedReserve = normalizeReserve (pool_reserves pool ! j) toA decimals
      in (fromAsset,
          \<lparr>toAsset = toA, edge_poolId = Some (ss_poolId pool), edge_kind_of = Stableswap,
           edge_liquidity = pool_liquidity_sum pool decimals,
           computePrice = stableswap_edge_price spot pool decimals i j,
           computeLiquidityUsd = Some (conservativePoolLiquidityUsd fromNormalizedReserve toNormalizedReserve)\<rparr>))"

definition ordered_pairs :: "nat \<Rightarrow> (nat \<times> nat) list" where
  "ordered_pairs n = concat (map (\<lambda>i. map (\<lambda>j. (i, j)) (filter (\<lambda>j. i \<noteq> j) [0..<n])) [0..<n])"

definition has_zero_reserve :: "stableswap_pool \<Rightarrow> bool" where
  "has_zero_reserve pool \<longleftrightarrow> 0 \<in> set (pool_reserves pool)"

definition addStableswapEdges ::
  "spot_package \<Rightarrow> asset_decimals \<Rightarrow> graph_state \<Rightarrow> stableswap_pool \<Rightarrow> graph_state" where
  "addStableswapEdges spot decimals st pool =
     (if has_zero_reserve pool then st
      else
        (let st' = raise_max (pool_liquidity_sum pool decimals) st
         in st'\<lparr>gs_graph := add_edges (map (\<lambda>(i, j). stableswap_edge spot pool decimals i j)
                  (ordered_pairs (length (pool_assets pool)))) (gs_graph st')\<rparr>))"

definition lp_edge_price :: "int \<Rightarrow> nat \<Rightarrow> int \<Rightarrow> nat \<Rightarrow> int \<Rightarrow> int \<Rightarrow> int" where
  "lp_edge_price totalSupply underlyingDec totalUnderlyingEquivalent lpDec knownPrice precision =
     bdiv (knownPrice * totalSupply * 10 ^ underlyingDec) (totalUnderlyingEquivalent * 10 ^ lpDec)"

definition lp_edge ::
  "spot_package \<Rightarrow> stableswap_pool \<Rightarrow> asset_decimals \<Rightarrow> int \<Rightarrow> nat \<Rightarrow> (int \<times> graph_edge) option" where
  "lp_edge spot pool decimals totalSupply i =
     (let lpAssetId = ss_poolId pool;
          lpDec = decimals_or decimals lpAssetId 18;
          underlyingAsset = pool_assets pool ! i;
          underlyingDec = decimals_or decimals underlyingAsset 12;
          totalUnderlyingEquivalent = poolValueInAssetUnits spot pool i decimals
      in if totalUnderlyingEquivalent = 0 then None
         else
           (let normalizedSupply = normalizeReserve totalSupply lpAssetId decimals;
                normalizedUnderlyingReserve = normalizeReserve (pool_reserves pool ! i) underlyingAsset decimals
            in Some (lpAssetId,
                 \<lparr>toAsset = underlyingAsset, edge_poolId = Some (ss_poolId pool), edge_kind_of = Stableswap,
                  edge_liquidity = pool_liquidity_sum pool decimals,
                  computePrice = lp_edge_price totalSupply underlyingDec totalUnderlyingEquivalent lpDec,
                  computeLiquidityUsd =
                    Some (conservativePoolLiquidityUsd normalizedSupply normalizedUnderlyingReserve)\<rparr>)))"

definition addLpEdges ::
  "spot_package \<Rightarrow> asset_decimals \<Rightarrow> (int, int) jsmap \<Rightarrow> graph_state \<Rightarrow> stableswap_pool \<Rightarrow> graph_state" where
  "addLpEdges spot decimals totalIssuances st pool =
     (case map_of totalIssuances (ss_poolId pool) of
        None \<Rightarrow> st
      | Some totalSupply \<Rightarrow>
          if totalSupply = 0 \<or> has_zero_reserve pool then st
          else st\<lparr>gs_graph := add_edges
            (List.map_filter (lp_edge spot pool decimals totalSupply) [0..<length (pool_assets pool)])
            (gs_graph st)\<rparr>)"

definition atoken_edge :: "int \<Rightarrow> int \<Rightarrow> graph_edge" where
  "atoken_edge atokenLiquidity target =
     \<lparr>toAsset = target, edge_poolId = None, edge_kind_of = Atoken, edge_liquidity = atokenLiquidity,
      computePrice = (\<lambda>knownPrice precision. knownPrice), computeLiquidityUsd = None\<rparr>"

definition addAtokenEdges :: "int \<Rightarrow> price_graph \<Rightarrow> int \<times> int \<Rightarrow> price_graph" where
  "addAtokenEdges atokenLiquidity graph = (\<lambda>(base, aToken).
     add_edges [(base, atoken_edge atokenLiquidity aToken), (aToken, atoken_edge atokenLiquidity base)] graph)"

fun kindRank :: "edge_kind \<Rightarrow> int" where
  "kindRank Atoken = 0"
| "kindRank Stableswap = 1"
| "kindRank Xyk = 2"
| "kindRank UniswapV3 = 2"

definition cmp_edge :: "graph_edge \<Rightarrow> graph_edge \<Rightarrow> int" where
  "cmp_edge a b =
     (if edge_liquidity b \<noteq> edge_liquidity a then (if edge_liquidity b > edge_liquidity a then 1 else -1)
      else kindRank (edge_kind_of a) - kindRank (edge_kind_of b))"

definition market_edges ::
  "spot_package \<Rightarrow> xyk_pool list \<Rightarrow> stableswap_pool list \<Rightarrow> asset_decimals \<Rightarrow> (int, int) jsmap
    \<Rightarrow> uniswap_v3_pool_edge list \<Rightarrow> graph_state" where
  "market_edges spot xykPools stableswapPools decimals totalIssuances uniswapV3Pools =
     (let s0 = \<lparr>gs_graph = [], gs_maxPoolLiquidity = 0\<rparr>;
          s1 = foldl (addConstantProductEdges decimals Xyk) s0 xykPools;
          s2 = foldl (addConstantProductEdges decimals UniswapV3) s1 uniswapV3Pools;
          s3 = foldl (addStableswapEdges spot decimals) s2 stableswapPools
      in foldl (addLpEdges spot decimals totalIssuances) s3 stableswapPools)"

definition buildGraph ::
  "spot_package \<Rightarrow> xyk_pool list \<Rightarrow> stableswap_pool list \<Rightarrow> (int \<times> int) list \<Rightarrow> asset_decimals
    \<Rightarrow> (int, int) jsmap \<Rightarrow> uniswap_v3_pool_edge list \<Rightarrow> price_graph" where
  "buildGraph spot xykPools stableswapPools atokenEquivalences decimals totalIssuances uniswapV3Pools =
     (let st = market_edges spot xykPools stableswapPools decimals totalIssuances uniswapV3Pools;
          atokenLiquidity = gs_maxPoolLiquidity st + 1;
          graph = foldl (addAtokenEdges atokenLiquidity) (gs_graph st) atokenEquivalences
      in map (\<lambda>(a, es). (a, sort_cmp cmp_edge es)) graph)"

section \<open>Which edges the graph has\<close>

interpretation cmp_edge: js_comparator cmp_edge
  by unfold_locales (auto simp: cmp_edge_def split: if_splits)

lemma edges_of_addEdge: "edges_of (addEdge s e g) a = (if a = s then edges_of g a @ [e] else edges_of g a)"
  by (auto simp: addEdge_def edges_of_def)

lemma edges_of_add_edges: "edges_of (add_edges es g) a = edges_of g a @ map snd (filter (\<lambda>p. fst p = a) es)"
  by (induction es arbitrary: g) (auto simp: add_edges_def edges_of_addEdge)

lemma map_wf_add_edges [simp]: "map_wf g \<Longrightarrow> map_wf (add_edges es g)"
  by (induction es arbitrary: g) (auto simp: add_edges_def addEdge_def)

text \<open>A predicate on edges holds in a graph when it holds for every source and edge of it.\<close>

definition all_edges :: "(int \<Rightarrow> graph_edge \<Rightarrow> bool) \<Rightarrow> price_graph \<Rightarrow> bool" where
  "all_edges P g \<longleftrightarrow> (\<forall>a. \<forall>e \<in> set (edges_of g a). P a e)"

lemma all_edges_add [simp]:
  "all_edges P (add_edges es g) \<longleftrightarrow> all_edges P g \<and> (\<forall>p \<in> set es. P (fst p) (snd p))"
proof -
  have "(\<forall>a. \<forall>e \<in> set (map snd (filter (\<lambda>p. fst p = a) es)). P a e) \<longleftrightarrow> (\<forall>p \<in> set es. P (fst p) (snd p))"
    by auto
  then show ?thesis unfolding all_edges_def edges_of_add_edges by auto
qed

lemma all_edges_Nil [simp]: "all_edges P []"
  by (simp add: all_edges_def edges_of_def)

lemma edges_of_sorted [simp]:
  "edges_of (map (\<lambda>(a, es). (a, sort_cmp cmp_edge es)) g) a = sort_cmp cmp_edge (edges_of g a)"
  by (induction g) (auto simp: edges_of_def)

lemma foldl_inv: "P s \<Longrightarrow> (\<And>s x. x \<in> set xs \<Longrightarrow> P s \<Longrightarrow> P (f s x)) \<Longrightarrow> P (foldl f s xs)"
  by (induction xs arbitrary: s) auto

lemma constant_product_step:
  assumes "all_edges P (gs_graph st)" "reserveA pool \<noteq> 0 \<Longrightarrow> reserveB pool \<noteq> 0 \<Longrightarrow>
      \<forall>dA dB. \<forall>p \<in> set (constant_product_edges decimals kind pool dA dB). P (fst p) (snd p)"
  shows "all_edges P (gs_graph (addConstantProductEdges decimals kind (st :: graph_state) pool))"
  using assms by (auto simp: addConstantProductEdges_def raise_max_def Let_def split: option.split)

text \<open>
  The invariant of the construction for a predicate that ignores nothing but holds of each family
  of edges the code adds.
\<close>

lemma market_edges_inv:
  assumes cp: "\<And>kind pool dA dB. (kind = Xyk \<and> pool \<in> set xykPools
        \<or> kind = UniswapV3 \<and> pool \<in> xyk_pool.truncate ` set uniswapV3Pools) \<Longrightarrow>
      reserveA pool \<noteq> 0 \<Longrightarrow> reserveB pool \<noteq> 0 \<Longrightarrow>
      \<forall>p \<in> set (constant_product_edges decimals kind pool dA dB). P (fst p) (snd p)"
    and ss: "\<And>pool i j. pool \<in> set stableswapPools \<Longrightarrow> \<not> has_zero_reserve pool \<Longrightarrow>
      i < length (pool_assets pool) \<Longrightarrow> j < length (pool_assets pool) \<Longrightarrow> i \<noteq> j \<Longrightarrow>
      P (fst (stableswap_edge spot pool decimals i j)) (snd (stableswap_edge spot pool decimals i j))"
    and lp: "\<And>pool issued i p. pool \<in> set stableswapPools \<Longrightarrow> \<not> has_zero_reserve pool \<Longrightarrow>
      map_of totalIssuances (ss_poolId pool) = Some issued \<Longrightarrow> issued \<noteq> 0 \<Longrightarrow>
      i < length (pool_assets pool) \<Longrightarrow> lp_edge spot pool decimals issued i = Some p \<Longrightarrow> P (fst p) (snd p)"
  shows "all_edges P (gs_graph (market_edges spot xykPools stableswapPools decimals totalIssuances uniswapV3Pools))"
proof -
  let ?I = "\<lambda>st :: graph_state. all_edges P (gs_graph st)"
  have trunc: "constant_product_edges decimals kind (xyk_pool.truncate pool) dA dB
      = constant_product_edges decimals kind pool dA dB" for kind dA dB and pool :: uniswap_v3_pool_edge
    by (simp add: constant_product_edges_def xyk_pool.truncate_def)
  have sel: "reserveA (xyk_pool.truncate pool) = reserveA pool" "reserveB (xyk_pool.truncate pool) = reserveB pool"
    for pool :: uniswap_v3_pool_edge by (simp_all add: xyk_pool.truncate_def)
  show ?thesis unfolding market_edges_def Let_def
  proof (intro foldl_inv [where P = ?I])
    fix st :: graph_state and pool :: xyk_pool assume "pool \<in> set xykPools" "?I st"
    then show "?I (addConstantProductEdges decimals Xyk st pool)"
      using cp by (intro constant_product_step) blast+
  next
    fix st :: graph_state and pool :: uniswap_v3_pool_edge assume "pool \<in> set uniswapV3Pools" "?I st"
    then show "?I (addConstantProductEdges decimals UniswapV3 st pool)"
      using cp [of UniswapV3 "xyk_pool.truncate pool", unfolded trunc sel]
      by (intro constant_product_step) blast+
  next
    fix st :: graph_state and pool assume "pool \<in> set stableswapPools" "?I st"
    then show "?I (addStableswapEdges spot decimals st pool)"
      using ss by (auto simp: addStableswapEdges_def raise_max_def Let_def ordered_pairs_def)
  next
    fix st :: graph_state and pool assume "pool \<in> set stableswapPools" "?I st"
    then show "?I (addLpEdges spot decimals totalIssuances st pool)"
      using lp by (auto simp: addLpEdges_def List.map_filter_def split: option.split)
  qed simp
qed

section \<open>Liquidity bounds of the market edges\<close>

lemma raise_max_simps [simp]:
  "gs_graph (raise_max l st) = gs_graph st"
  "gs_maxPoolLiquidity (raise_max l st) = max l (gs_maxPoolLiquidity st)"
  by (auto simp: raise_max_def)

definition market_bounded :: "graph_state \<Rightarrow> bool" where
  "market_bounded st \<longleftrightarrow>
     all_edges (\<lambda>_ e. edge_kind_of e \<noteq> Atoken \<and> edge_liquidity e \<le> gs_maxPoolLiquidity st) (gs_graph st)"

lemma all_edges_mono: "all_edges P g \<Longrightarrow> (\<And>a e. P a e \<Longrightarrow> Q a e) \<Longrightarrow> all_edges Q g"
  unfolding all_edges_def by blast

lemma market_bounded_add:
  assumes "market_bounded st" "gs_maxPoolLiquidity st \<le> gs_maxPoolLiquidity st'"
    and "gs_graph st' = add_edges es (gs_graph st)"
    and "\<forall>p \<in> set es. edge_kind_of (snd p) \<noteq> Atoken \<and> edge_liquidity (snd p) \<le> gs_maxPoolLiquidity st'"
  shows "market_bounded st'"
  using assms unfolding market_bounded_def by (auto elim!: all_edges_mono)

lemma constant_product_bounded:
  assumes "market_bounded st" "kind \<noteq> Atoken"
  shows "market_bounded (addConstantProductEdges decimals kind st pool)"
proof (cases "reserveA pool = 0 \<or> reserveB pool = 0 \<or> map_of decimals (assetA pool) = None
    \<or> map_of decimals (assetB pool) = None")
  case True
  then have "addConstantProductEdges decimals kind st pool = st"
    by (auto simp: addConstantProductEdges_def split: option.split)
  with assms(1) show ?thesis by simp
next
  case False
  then obtain dA dB where d: "map_of decimals (assetA pool) = Some dA" "map_of decimals (assetB pool) = Some dB" by auto
  let ?l = "normalizeReserve (reserveA pool) (assetA pool) decimals + normalizeReserve (reserveB pool) (assetB pool) decimals"
  have eq: "addConstantProductEdges decimals kind st pool = (raise_max ?l st)\<lparr>gs_graph :=
      add_edges (constant_product_edges decimals kind pool dA dB) (gs_graph st)\<rparr>"
    using False d by (simp add: addConstantProductEdges_def Let_def)
  show ?thesis unfolding eq
    by (rule market_bounded_add [OF assms(1)]) (auto simp: constant_product_edges_def Let_def assms(2))
qed

lemma stableswap_bounded:
  assumes "market_bounded st"
  shows "market_bounded (addStableswapEdges spot decimals st pool)"
proof (cases "has_zero_reserve pool")
  case False
  then have eq: "addStableswapEdges spot decimals st pool = (raise_max (pool_liquidity_sum pool decimals) st)\<lparr>gs_graph :=
      add_edges (map (\<lambda>(i, j). stableswap_edge spot pool decimals i j)
        (ordered_pairs (length (pool_assets pool)))) (gs_graph st)\<rparr>"
    by (simp add: addStableswapEdges_def Let_def)
  show ?thesis unfolding eq
    by (rule market_bounded_add [OF assms]) (auto simp: stableswap_edge_def Let_def)
qed (use assms in \<open>simp add: addStableswapEdges_def\<close>)

lemma stableswap_fold_max:
  "gs_maxPoolLiquidity st \<le> gs_maxPoolLiquidity (foldl (addStableswapEdges spot decimals) st pools)
   \<and> (\<forall>p \<in> set pools. \<not> has_zero_reserve p \<longrightarrow>
        pool_liquidity_sum p decimals \<le> gs_maxPoolLiquidity (foldl (addStableswapEdges spot decimals) st pools))"
  by (induction pools rule: rev_induct) (auto simp: addStableswapEdges_def Let_def)

lemma lp_bounded:
  assumes "market_bounded st" "\<not> has_zero_reserve pool \<longrightarrow> pool_liquidity_sum pool decimals \<le> gs_maxPoolLiquidity st"
  shows "market_bounded (addLpEdges spot decimals totalIssuances st pool)
    \<and> gs_maxPoolLiquidity (addLpEdges spot decimals totalIssuances st pool) = gs_maxPoolLiquidity st"
proof (cases "map_of totalIssuances (ss_poolId pool)")
  case (Some issued)
  show ?thesis
  proof (cases "issued = 0 \<or> has_zero_reserve pool")
    case False
    then have eq: "addLpEdges spot decimals totalIssuances st pool = st\<lparr>gs_graph := add_edges
        (List.map_filter (lp_edge spot pool decimals issued) [0..<length (pool_assets pool)]) (gs_graph st)\<rparr>"
      using Some by (simp add: addLpEdges_def)
    have "market_bounded (addLpEdges spot decimals totalIssuances st pool)" unfolding eq
      by (rule market_bounded_add [OF assms(1)])
        (use assms(2) False in \<open>auto simp: List.map_filter_def lp_edge_def Let_def split: if_splits\<close>)
    then show ?thesis by (simp add: eq)
  qed (use assms Some in \<open>simp add: addLpEdges_def\<close>)
qed (use assms in \<open>simp add: addLpEdges_def\<close>)

lemma market_edges_bounded:
  "market_bounded (market_edges spot xykPools stableswapPools decimals totalIssuances uniswapV3Pools)"
proof -
  define s2 where "s2 = foldl (addConstantProductEdges decimals UniswapV3)
    (foldl (addConstantProductEdges decimals Xyk) \<lparr>gs_graph = [], gs_maxPoolLiquidity = 0\<rparr> xykPools) uniswapV3Pools"
  define s3 where "s3 = foldl (addStableswapEdges spot decimals) s2 stableswapPools"
  have "market_bounded s2" unfolding s2_def
    by (intro foldl_inv [where P = market_bounded] constant_product_bounded) (simp_all add: market_bounded_def)
  then have s3: "market_bounded s3" unfolding s3_def
    by (intro foldl_inv [where P = market_bounded] stableswap_bounded)
  let ?I = "\<lambda>st. market_bounded st \<and> gs_maxPoolLiquidity st = gs_maxPoolLiquidity s3"
  have "?I (foldl (addLpEdges spot decimals totalIssuances) s3 stableswapPools)"
  proof (rule foldl_inv [where P = ?I])
    fix st pool assume "pool \<in> set stableswapPools" "?I st"
    with lp_bounded [of st pool decimals] stableswap_fold_max [of s2 spot decimals stableswapPools]
    show "?I (addLpEdges spot decimals totalIssuances st pool)" by (auto simp: s3_def)
  qed (simp add: s3)
  then show ?thesis by (simp add: market_edges_def s2_def s3_def Let_def)
qed

lemma edges_of_addAtoken:
  "edges_of (addAtokenEdges l g p) a = edges_of g a @ map snd (filter (\<lambda>q. fst q = a)
     [(fst p, atoken_edge l (snd p)), (snd p, atoken_edge l (fst p))])"
  by (cases p) (simp add: addAtokenEdges_def edges_of_add_edges)

lemma atoken_fold_edges:
  "e \<in> set (edges_of (foldl (addAtokenEdges l) g eqs) a) \<Longrightarrow>
    e \<in> set (edges_of g a) \<or> (\<exists>b. e = atoken_edge l b \<and> ((a, b) \<in> set eqs \<or> (b, a) \<in> set eqs))"
proof (induction eqs arbitrary: g)
  case (Cons p eqs)
  obtain x y where p: "p = (x, y)" by (cases p)
  from Cons.IH [of "addAtokenEdges l g p"] Cons.prems show ?case
    unfolding edges_of_addAtoken p by (auto split: if_splits)
qed simp

lemma buildGraph_edges:
  assumes "e \<in> set (edges_of (buildGraph spot xyk ss eqs decimals iss uni) a)"
  shows "e \<in> set (edges_of (gs_graph (market_edges spot xyk ss decimals iss uni)) a)
    \<or> (\<exists>b. e = atoken_edge (gs_maxPoolLiquidity (market_edges spot xyk ss decimals iss uni) + 1) b
          \<and> ((a, b) \<in> set eqs \<or> (b, a) \<in> set eqs))"
  using assms by (auto simp: buildGraph_def Let_def dest: atoken_fold_edges)

section \<open>Properties\<close>

text \<open>the adjacency lists are searched best first: each list is sorted by falling liquidity, and a
  wrapper edge outranks every market edge strictly, whatever the pools hold.
\<close>

lemma wrapper_edges_outrank:
  "sorted_wrt (\<lambda>x y. edge_liquidity y \<le> edge_liquidity x) (edges_of (buildGraph spot xyk ss eqs decimals iss uni) a)
   \<and> (\<forall>x y. x \<in> set (edges_of (buildGraph spot xyk ss eqs decimals iss uni) a)
        \<and> y \<in> set (edges_of (buildGraph spot xyk ss eqs decimals iss uni) a)
        \<and> edge_kind_of x = Atoken \<and> edge_kind_of y \<noteq> Atoken \<longrightarrow> edge_liquidity y < edge_liquidity x)"
proof (intro conjI allI impI)
  show "sorted_wrt (\<lambda>x y. edge_liquidity y \<le> edge_liquidity x) (edges_of (buildGraph spot xyk ss eqs decimals iss uni) a)"
    unfolding buildGraph_def Let_def edges_of_sorted
    by (rule sorted_wrt_mono_rel [OF _ cmp_edge.sorted_sort]) (auto simp: cmp_edge_def split: if_splits)
next
  let ?st = "market_edges spot xyk ss decimals iss uni"
  fix x y assume xy: "x \<in> set (edges_of (buildGraph spot xyk ss eqs decimals iss uni) a)
        \<and> y \<in> set (edges_of (buildGraph spot xyk ss eqs decimals iss uni) a)
        \<and> edge_kind_of x = Atoken \<and> edge_kind_of y \<noteq> Atoken"
  have m: "\<forall>e \<in> set (edges_of (gs_graph ?st) a). edge_kind_of e \<noteq> Atoken \<and> edge_liquidity e \<le> gs_maxPoolLiquidity ?st"
    using market_edges_bounded [of spot xyk ss decimals iss uni] by (auto simp: market_bounded_def all_edges_def)
  from xy m have "edge_liquidity x = gs_maxPoolLiquidity ?st + 1"
    using buildGraph_edges [of x spot xyk ss eqs decimals iss uni a] by (auto simp: atoken_edge_def)
  moreover from xy m have "edge_liquidity y \<le> gs_maxPoolLiquidity ?st"
    using buildGraph_edges [of y spot xyk ss eqs decimals iss uni a] by (auto simp: atoken_edge_def)
  ultimately show "edge_liquidity y < edge_liquidity x" by simp
qed

text \<open>A witness: one deep pool between assets 1 and 2, and the wrapper pair (1, 3).\<close>

lemma floor_back:
  assumes "0 < x" "0 < y" "0 \<le> (p :: int)"
  shows "y * (x * p div y) div x \<le> p"
proof -
  have "y * (x * p div y) \<le> x * p"
    using assms(2) mult_div_mod_eq [of y "x * p"] pos_mod_sign [of y "x * p"] by linarith
  then have "y * (x * p div y) div x \<le> x * p div x" using assms(1) by (intro zdiv_mono1)
  then show ?thesis using assms(1) by simp
qed

text \<open>going through a constant-product pool and back never gains: pricing B from A and A again
  from that price returns at most the price one started from.
\<close>

lemma pool_round_trip_no_gain:
  assumes "0 < rA" and "0 < rB" and "0 \<le> p"
  shows "constant_product_price rB rA dB dA (constant_product_price rA rB dA dB p prec) prec \<le> p
    \<and> 0 \<le> constant_product_price rA rB dA dB p prec"
proof -
  define x where "x = rA * 10 ^ dB"
  define y where "y = rB * 10 ^ dA"
  have xy: "0 < x" "0 < y" using assms by (simp_all add: x_def y_def)
  have nn: "0 \<le> x * p div y" using xy assms(3) by (simp add: pos_imp_zdiv_nonneg_iff)
  have fwd: "constant_product_price rA rB dA dB p prec = x * p div y"
    using assms xy by (simp add: constant_product_price_def x_def y_def bdiv_nonneg_eq)
  have "constant_product_price rB rA dB dA (x * p div y) prec = y * (x * p div y) div x"
    using assms xy nn unfolding x_def y_def by (simp add: constant_product_price_def bdiv_nonneg_eq)
  with fwd floor_back [OF xy assms(3)] nn show ?thesis by simp
qed

end
