(* ===== verification/Omnipool_Price.thy ===== *)
theory Omnipool_Price
  imports Price_Types
begin

text \<open>
  \<^verbatim>\<open>src/price/omnipool.ts\<close>: the USD price of the hub asset (H2O) from the state of the USD
  anchor, and the USD price of each Omnipool asset from it. \<open>bigintDivide\<close> is only called with
  its default precision of twelve, so its negative slices never degenerate to \<open>slice(-0)\<close>.
\<close>

section \<open>The two formulas\<close>

datatype price_error = DivisionByZero | ZeroHubReserve

definition bigintDivide :: "int \<Rightarrow> int \<Rightarrow> nat \<Rightarrow> price_error + string" where
  "bigintDivide numerator denominator precision =
     (if denominator = 0 then Inl DivisionByZero
      else
        (let scaleFactor = 10 ^ precision;
             scaledResult = bdiv (numerator * scaleFactor) denominator;
             resultStr = pad_start (precision + 1) (CHR ''0'') (int_to_string scaledResult);
             integerPart = or_default (drop_last precision resultStr) ''0'';
             decimalPart = take_last precision resultStr
         in Inr (integerPart @ ''.'' @ decimalPart)))"

definition calculateH2OPrice :: "omnipool_asset_state \<Rightarrow> nat \<Rightarrow> price_error + string" where
  "calculateH2OPrice usdState usdDecimals =
     (if hubReserve usdState = 0 then Inl ZeroHubReserve
      else
        (let h2oScale = 10 ^ 12; usdScale = 10 ^ usdDecimals
         in bigintDivide (reserve usdState * h2oScale) (hubReserve usdState * usdScale) 12))"

definition omnipool_asset_price :: "omnipool_asset_state \<Rightarrow> nat \<Rightarrow> string \<Rightarrow> string option" where
  "omnipool_asset_price state assetDecimals h2oPrice =
     (let assetScale = 10 ^ assetDecimals; h2oScale = 10 ^ 12;
          (intPart, decPart) = split_price h2oPrice
      in (case parse_bigint (intPart @ pad_end 12 (CHR ''0'') decPart) of
            None \<Rightarrow> None
          | Some h2oPriceBigint \<Rightarrow>
              (case checked_bdiv (hubReserve state * assetScale * h2oPriceBigint) (reserve state * h2oScale) of
                 None \<Rightarrow> None
               | Some result \<Rightarrow>
                   (let resultStr = pad_start 13 (CHR ''0'') (int_to_string result)
                    in Some (or_default (drop_last 12 resultStr) ''0'' @ ''.'' @ take_last 12 resultStr)))))"

fun omnipool_loop ::
  "string \<Rightarrow> asset_decimals \<Rightarrow> price_map \<Rightarrow> (int, omnipool_asset_state) jsmap \<Rightarrow> price_map option" where
  "omnipool_loop h2oPrice decimals prices [] = Some prices"
| "omnipool_loop h2oPrice decimals prices ((assetId, state) # rest) =
     (if reserve state = 0 \<or> hubReserve state = 0 then omnipool_loop h2oPrice decimals prices rest
      else (case map_of decimals assetId of
              None \<Rightarrow> omnipool_loop h2oPrice decimals prices rest
            | Some assetDecimals \<Rightarrow>
                (case omnipool_asset_price state assetDecimals h2oPrice of
                   None \<Rightarrow> None
                 | Some price \<Rightarrow> omnipool_loop h2oPrice decimals (map_set assetId price prices) rest)))"

definition calculateOmnipoolPrices ::
  "(int, omnipool_asset_state) jsmap \<Rightarrow> string \<Rightarrow> asset_decimals \<Rightarrow> price_map option" where
  "calculateOmnipoolPrices assets h2oPrice decimals = omnipool_loop h2oPrice decimals [] assets"

section \<open>What they compute\<close>

lemma bigintDivide_12:
  "d \<noteq> 0 \<Longrightarrow> bigintDivide n d 12 = Inr (price12ToString (bdiv (n * 10 ^ 12) d))"
  by (simp add: bigintDivide_def price12ToString_def Let_def)

lemma calculateH2OPrice_eq:
  "hubReserve st \<noteq> 0 \<Longrightarrow> calculateH2OPrice st d =
     Inr (price12ToString (bdiv (reserve st * 10 ^ 24) (hubReserve st * 10 ^ d)))"
  by (simp add: calculateH2OPrice_def bigintDivide_12 mult.assoc flip: power_add)

lemma omnipool_asset_price_eq:
  "reserve st \<noteq> 0 \<Longrightarrow> omnipool_asset_price st d s = map_option
     (\<lambda>h. price12ToString (bdiv (hubReserve st * 10 ^ d * h) (reserve st * 10 ^ 12))) (priceStringTo12 s)"
  by (simp add: omnipool_asset_price_def priceStringTo12_def price12ToString_def Let_def
      split: prod.split option.split)

text \<open>The price of an asset the pool can price, at the given hub price.\<close>

definition omnipool_price :: "int \<Rightarrow> asset_decimals \<Rightarrow> int \<Rightarrow> omnipool_asset_state \<Rightarrow> int option" where
  "omnipool_price h decimals assetId st =
     (if reserve st = 0 \<or> hubReserve st = 0 then None
      else map_option (\<lambda>d. bdiv (hubReserve st * 10 ^ d * h) (reserve st * 10 ^ 12)) (map_of decimals assetId))"

lemma omnipool_loop_ok:
  assumes "0 \<le> h" and "map_wf assets" and "\<forall>k \<in> fst ` set assets. \<not> map_has prices k"
  shows "\<exists>out. omnipool_loop (price12ToString h) decimals prices assets = Some out \<and>
    (\<forall>k. map_of out k = (case map_of assets k of None \<Rightarrow> map_of prices k
       | Some st \<Rightarrow> map_option price12ToString (omnipool_price h decimals k st)))"
  using assms(2,3)
proof (induction "price12ToString h" decimals prices assets rule: omnipool_loop.induct)
  case (2 decimals prices assetId state rest)
  have none: "map_of rest assetId = None" using "2.prems"(1) by (simp add: map_of_eq_None_iff)
  have nop: "map_of prices assetId = None" using "2.prems"(2) by (simp add: map_has_iff)
  show ?case
  proof (cases "omnipool_price h decimals assetId state")
    case None
    then have "omnipool_loop (price12ToString h) decimals prices ((assetId, state) # rest)
        = omnipool_loop (price12ToString h) decimals prices rest"
      by (auto simp: omnipool_price_def)
    moreover from None have "\<exists>out. omnipool_loop (price12ToString h) decimals prices rest = Some out \<and>
        (\<forall>k. map_of out k = (case map_of rest k of None \<Rightarrow> map_of prices k
           | Some st \<Rightarrow> map_option price12ToString (omnipool_price h decimals k st)))"
      using 2 by (fastforce simp: omnipool_price_def split: if_splits)
    ultimately show ?thesis using None none nop by auto
  next
    case (Some p)
    then obtain d where d: "reserve state \<noteq> 0" "hubReserve state \<noteq> 0" "map_of decimals assetId = Some d"
      "p = bdiv (hubReserve state * 10 ^ d * h) (reserve state * 10 ^ 12)"
      by (auto simp: omnipool_price_def split: if_splits)
    have price: "omnipool_asset_price state d (price12ToString h) = Some (price12ToString p)"
      using d assms(1) by (simp add: omnipool_asset_price_eq)
    have "\<forall>k \<in> fst ` set rest. \<not> map_has (map_set assetId (price12ToString p) prices) k"
      using "2.prems" by auto
    then obtain out where "omnipool_loop (price12ToString h) decimals
          (map_set assetId (price12ToString p) prices) rest = Some out"
      "\<forall>k. map_of out k = (case map_of rest k of
          None \<Rightarrow> map_of (map_set assetId (price12ToString p) prices) k
        | Some st \<Rightarrow> map_option price12ToString (omnipool_price h decimals k st))"
      using 2(3) [OF _ d(3) price] "2.prems"(1) d(1,2) by auto
    then show ?thesis using d price none Some by (auto split: option.split)
  qed
qed simp

text \<open>an asset of the Omnipool gets exactly the truncation, to twelve decimals, of
  \<open>(hubReserve / reserve) * h2oPrice\<close> normalised for decimals; assets with an empty side or
  unknown decimals get none; the pass never throws on a price the engine printed.
\<close>

lemma omnipool_prices_exact:
  assumes "map_wf assets" and "0 \<le> h"
  shows "\<exists>out. calculateOmnipoolPrices assets (price12ToString h) decimals = Some out \<and>
    (\<forall>k. map_of out k = (case map_of assets k of None \<Rightarrow> None
       | Some st \<Rightarrow> map_option price12ToString (omnipool_price h decimals k st)))"
  using omnipool_loop_ok [OF assms(2,1), of "[]" decimals]
  by (simp add: calculateOmnipoolPrices_def cong: option.case_cong)

text \<open>the anchor is priced at par. When H2O is priced through a dollar asset of the pool, that
  asset's own Omnipool price comes back at most one dollar, and it misses one dollar by at most
  what two truncations lose.
\<close>

lemma anchor_priced_at_par:
  assumes "0 < reserve st" and "0 < hubReserve st" and "map_of decimals a = Some d"
    and "calculateH2OPrice st d = Inr h2o" and "priceStringTo12 h2o = Some h"
  shows "\<exists>p. omnipool_price h decimals a st = Some p \<and> p \<le> 10 ^ 12
    \<and> 10 ^ 12 - p \<le> hubReserve st * 10 ^ d div (reserve st * 10 ^ 12) + 1"
proof -
  define D where "D = hubReserve st * 10 ^ d"
  define R where "R = reserve st * 10 ^ 12"
  have pos: "0 < D" "0 < R" using assms by (simp_all add: D_def R_def)
  have N: "reserve st * 10 ^ 24 = R * 10 ^ 12" by (simp add: R_def)
  have "h2o = price12ToString (R * 10 ^ 12 div D)"
    using assms(1,2,4) pos by (simp add: calculateH2OPrice_eq bdiv_nonneg_eq D_def N del: power_numeral)
  then have h: "h = R * 10 ^ 12 div D" using assms(5) pos by (simp add: pos_imp_zdiv_nonneg_iff)
  have "0 \<le> h" using h pos by (simp add: pos_imp_zdiv_nonneg_iff)
  define p where "p = D * h div R"
  have price: "omnipool_price h decimals a st = Some p"
    using assms(1-3) pos \<open>0 \<le> h\<close> by (simp add: omnipool_price_def p_def D_def R_def bdiv_nonneg_eq)
  define N where "N = R * 10 ^ 12"
  have "D * h + N mod D = N" "0 \<le> N mod D" "N mod D < D" using pos(1) by (simp_all add: h N_def)
  then have hD: "D * h \<le> R * 10 ^ 12" "R * 10 ^ 12 - D < D * h" unfolding N_def by linarith+
  have "p \<le> R * 10 ^ 12 div R" unfolding p_def using hD(1) pos(2) by (rule zdiv_mono1)
  then have up: "p \<le> 10 ^ 12" using pos by simp
  have "(R * 10 ^ 12 - D) div R \<le> p" unfolding p_def using hD(2) pos(2) by (intro zdiv_mono1) simp_all
  moreover have "(R * 10 ^ 12 - D) div R \<ge> 10 ^ 12 - D div R - 1"
  proof -
    have "D < (D div R + 1) * R"
    proof -
      have "R * (D div R) + D mod R = D" "D mod R < R" using pos(2) by simp_all
      then have "D < R * (D div R) + R" by linarith
      then show ?thesis by (simp add: algebra_simps)
    qed
    then have "(10 ^ 12 - D div R - 1) * R \<le> R * 10 ^ 12 - D" by (simp add: algebra_simps)
    from zdiv_mono1 [OF this pos(2)] show ?thesis using pos(2) by simp
  qed
  ultimately have "10 ^ 12 - p \<le> D div R + 1" by linarith
  with price up show ?thesis by (auto simp: D_def R_def)
qed

end
