(* ===== verification/Usd_Reference.thy ===== *)
theory Usd_Reference
  imports Stableswap_Price Weighted_Median Omnipool_Price
begin

text \<open>
  The dollar side of \<^verbatim>\<open>src/price/graph.ts\<close>: which Omnipool asset anchors the dollar
  (\<open>findBestOmnipoolBridge\<close>, \<open>selectUsdAnchor\<close>), what the members of the reference basket are
  worth (\<open>buildUsdReferencePrices\<close>), and the USD quotes of other assets through stable pools
  (\<open>getBestStableQuote\<close>, \<open>getUsdObservationsFromReferences\<close>, \<open>getUsdPriceFromReferences\<close>,
  \<open>getStableLpUsdQuote\<close>). A \<^const>\<open>None\<close> around the result of a function is the exception that
  leaves it (a price text that is not a number).
\<close>

section \<open>The anchor\<close>

definition bridge_step ::
  "(int, omnipool_asset_state) jsmap \<Rightarrow> (int \<times> omnipool_asset_state) option \<Rightarrow> int
    \<Rightarrow> (int \<times> omnipool_asset_state) option" where
  "bridge_step omnipoolAssets best assetId =
     (case map_of omnipoolAssets assetId of
        None \<Rightarrow> best
      | Some state \<Rightarrow>
          if hubReserve state = 0 then best
          else (case best of
                  None \<Rightarrow> Some (assetId, state)
                | Some (_, best_state) \<Rightarrow>
                    if hubReserve state > hubReserve best_state then Some (assetId, state) else best))"

definition findBestOmnipoolBridge ::
  "(int, omnipool_asset_state) jsmap \<Rightarrow> int list \<Rightarrow> (int \<times> omnipool_asset_state) option" where
  "findBestOmnipoolBridge omnipoolAssets bridgeIds = foldl (bridge_step omnipoolAssets) None bridgeIds"

fun anchor_loop ::
  "(int, omnipool_asset_state) jsmap \<Rightarrow> int list list \<Rightarrow> (int list \<times> (int \<times> omnipool_asset_state)) option" where
  "anchor_loop omnipoolAssets [] = None"
| "anchor_loop omnipoolAssets (basket # baskets) =
     (case findBestOmnipoolBridge omnipoolAssets basket of
        Some bridge \<Rightarrow> Some (basket, bridge)
      | None \<Rightarrow> anchor_loop omnipoolAssets baskets)"

definition selectUsdAnchor ::
  "(int, omnipool_asset_state) jsmap \<Rightarrow> int list list \<Rightarrow> int list \<times> (int \<times> omnipool_asset_state) option" where
  "selectUsdAnchor omnipoolAssets usdReferenceBaskets =
     (case anchor_loop omnipoolAssets usdReferenceBaskets of
        Some (basket, bridge) \<Rightarrow> (basket, Some bridge)
      | None \<Rightarrow> (case usdReferenceBaskets of [] \<Rightarrow> [] | b # _ \<Rightarrow> b, None))"

definition findStableLpOmnipoolBridgeIds ::
  "stableswap_pool list \<Rightarrow> (int, omnipool_asset_state) jsmap \<Rightarrow> int list \<Rightarrow> int list" where
  "findStableLpOmnipoolBridgeIds stableswapPools omnipoolAssets referenceAssetIds =
     map ss_poolId (filter (\<lambda>pool. map_has omnipoolAssets (ss_poolId pool)
         \<and> list_ex (\<lambda>a. a \<in> set referenceAssetIds) (pool_assets pool)) stableswapPools)"

section \<open>Stable quotes\<close>

record spot_quote =
  quote_price :: int
  quote_liquidity :: int

fun index_of :: "'a \<Rightarrow> 'a list \<Rightarrow> nat option" where
  "index_of x [] = None"
| "index_of x (y # ys) = (if x = y then Some 0 else map_option Suc (index_of x ys))"

definition stable_quote_step ::
  "int \<Rightarrow> int \<Rightarrow> asset_decimals \<Rightarrow> stableswap_pool option \<times> int \<Rightarrow> stableswap_pool
    \<Rightarrow> stableswap_pool option \<times> int" where
  "stable_quote_step assetInId assetOutId decimals acc pool =
     (case (index_of assetInId (pool_assets pool), index_of assetOutId (pool_assets pool)) of
        (Some i, Some j) \<Rightarrow>
          if pool_reserves pool ! i = 0 \<or> pool_reserves pool ! j = 0 then acc
          else
            (let liq = normalizeReserve (pool_reserves pool ! j) assetOutId decimals in
             if liq > snd acc then (Some pool, liq) else acc)
      | _ \<Rightarrow> acc)"

definition getBestStableQuote ::
  "spot_package \<Rightarrow> int \<Rightarrow> int \<Rightarrow> stableswap_pool list \<Rightarrow> asset_decimals \<Rightarrow> spot_quote option" where
  "getBestStableQuote spot assetInId assetOutId stableswapPools decimals =
     (case foldl (stable_quote_step assetInId assetOutId decimals) (None, 0) stableswapPools of
        (None, _) \<Rightarrow> None
      | (Some bestPool, bestLiquidity) \<Rightarrow>
          (case (index_of assetInId (pool_assets bestPool), index_of assetOutId (pool_assets bestPool)) of
             (Some i, Some j) \<Rightarrow>
               (let spotPrice = calculateSpotPrice spot bestPool i j decimals in
                if spotPrice = 0 then None
                else Some \<lparr>quote_price = spotPrice, quote_liquidity = bestLiquidity\<rparr>)
           | _ \<Rightarrow> None))"

text \<open>The two wrapper aliases of one equivalence, each side starting from itself.\<close>

definition alias_of :: "int \<Rightarrow> (int, int list) jsmap \<Rightarrow> int list" where
  "alias_of a m = (case map_of m a of None \<Rightarrow> [a] | Some s \<Rightarrow> s)"

definition alias_step :: "(int, int list) jsmap \<Rightarrow> int \<times> int \<Rightarrow> (int, int list) jsmap" where
  "alias_step m = (\<lambda>(baseId, aTokenId).
     let m1 = (if map_has m baseId then m else map_set baseId [baseId] m);
         m2 = (if map_has m1 aTokenId then m1 else map_set aTokenId [aTokenId] m1);
         m3 = map_set baseId (set_add aTokenId (alias_of baseId m2)) m2
     in map_set aTokenId (set_add baseId (alias_of aTokenId m3)) m3)"

definition candidate_quotes ::
  "spot_package \<Rightarrow> int \<Rightarrow> int \<Rightarrow> stableswap_pool list \<Rightarrow> asset_decimals \<Rightarrow> int list \<Rightarrow> spot_quote list" where
  "candidate_quotes spot assetId referenceUsdPrice12 stableswapPools decimals candidates =
     map (\<lambda>q. \<lparr>quote_price = bdiv (quote_price q * referenceUsdPrice12) PRICE_SCALE,
               quote_liquidity = quote_liquidity q\<rparr>)
       (List.map_filter (\<lambda>c. getBestStableQuote spot assetId c stableswapPools decimals) candidates)"

text \<open>The reference price is only parsed when a quote exists, so only then can it throw.\<close>

fun observation_loop ::
  "spot_package \<Rightarrow> int \<Rightarrow> stableswap_pool list \<Rightarrow> asset_decimals \<Rightarrow> (int, int list) jsmap \<Rightarrow> price_map
    \<Rightarrow> spot_quote list option" where
  "observation_loop spot assetId stableswapPools decimals aliases [] = Some []"
| "observation_loop spot assetId stableswapPools decimals aliases ((referenceId, referenceUsdPrice) # rest) =
     (let candidates = alias_of referenceId aliases;
          quoted = (List.map_filter (\<lambda>c. getBestStableQuote spot assetId c stableswapPools decimals) candidates \<noteq> [])
      in (case (if quoted then priceStringTo12 referenceUsdPrice else Some 0) of
            None \<Rightarrow> None
          | Some p \<Rightarrow>
              map_option (\<lambda>obs. candidate_quotes spot assetId p stableswapPools decimals candidates @ obs)
                (observation_loop spot assetId stableswapPools decimals aliases rest)))"

definition getUsdObservationsFromReferences ::
  "spot_package \<Rightarrow> int \<Rightarrow> price_map \<Rightarrow> stableswap_pool list \<Rightarrow> asset_decimals \<Rightarrow> (int \<times> int) list
    \<Rightarrow> spot_quote list option" where
  "getUsdObservationsFromReferences spot assetId referenceUsdPrices stableswapPools decimals atokenEquivalences =
     (case map_of referenceUsdPrices assetId of
        Some directPrice \<Rightarrow>
          if directPrice \<noteq> [] then
            map_option (\<lambda>p. [\<lparr>quote_price = p, quote_liquidity = 0\<rparr>]) (priceStringTo12 directPrice)
          else observation_loop spot assetId stableswapPools decimals
                 (foldl alias_step [] atokenEquivalences) referenceUsdPrices
      | None \<Rightarrow> observation_loop spot assetId stableswapPools decimals
                 (foldl alias_step [] atokenEquivalences) referenceUsdPrices)"

definition buildUsdReferencePrices ::
  "spot_package \<Rightarrow> int list \<Rightarrow> stableswap_pool list \<Rightarrow> asset_decimals \<Rightarrow> price_map" where
  "buildUsdReferencePrices spot referenceIds stableswapPools decimals =
     (let uniqueIds = js_unique referenceIds;
          prices = foldl (\<lambda>m i. map_set i ''1.000000000000'' m) [] uniqueIds
      in case uniqueIds of
           primaryId # secondaryId # _ \<Rightarrow>
             (case getBestStableQuote spot primaryId secondaryId stableswapPools decimals of
                None \<Rightarrow> prices
              | Some quote \<Rightarrow>
                  (let denominator = PRICE_SCALE + quote_price quote in
                   if denominator = 0 then prices
                   else
                     (let primaryPrice = bdiv (2 * quote_price quote * PRICE_SCALE) denominator;
                          secondaryPrice = bdiv (2 * PRICE_SCALE * PRICE_SCALE) denominator
                      in map_set secondaryId (price12ToString secondaryPrice)
                           (map_set primaryId (price12ToString primaryPrice) prices))))
         | _ \<Rightarrow> prices)"

definition averaged_price :: "spot_quote list \<Rightarrow> string option" where
  "averaged_price observations =
     (case observations of
        [] \<Rightarrow> None
      | [q] \<Rightarrow> Some (price12ToString (quote_price q))
      | q # _ \<Rightarrow>
          (let weightedSum = foldl (\<lambda>acc x. acc + quote_price x * quote_liquidity x) 0 observations;
               totalLiquidity = foldl (\<lambda>acc x. acc + quote_liquidity x) 0 observations
           in if totalLiquidity = 0 then Some (price12ToString (quote_price q))
              else Some (price12ToString (bdiv weightedSum totalLiquidity))))"

definition getUsdPriceFromReferences ::
  "spot_package \<Rightarrow> int \<Rightarrow> price_map \<Rightarrow> stableswap_pool list \<Rightarrow> asset_decimals \<Rightarrow> (int \<times> int) list
    \<Rightarrow> string option option" where
  "getUsdPriceFromReferences spot assetId referenceUsdPrices stableswapPools decimals atokenEquivalences =
     map_option averaged_price
       (getUsdObservationsFromReferences spot assetId referenceUsdPrices stableswapPools decimals atokenEquivalences)"

text \<open>
  The valuation loop of \<open>getStableLpUsdQuote\<close>: outer \<^const>\<open>None\<close> is an exception, inner
  \<^const>\<open>None\<close> the early \<open>return null\<close> for an underlying without a price.
\<close>

fun lp_value_loop ::
  "spot_package \<Rightarrow> stableswap_pool \<Rightarrow> price_map \<Rightarrow> stableswap_pool list \<Rightarrow> asset_decimals \<Rightarrow> (int \<times> int) list
    \<Rightarrow> nat list \<Rightarrow> int \<Rightarrow> int option option" where
  "lp_value_loop spot pool refs stableswapPools decimals atokens [] totalValue = Some (Some totalValue)"
| "lp_value_loop spot pool refs stableswapPools decimals atokens (index # rest) totalValue =
     (let underlyingAssetId = pool_assets pool ! index in
      case getUsdPriceFromReferences spot underlyingAssetId refs stableswapPools decimals atokens of
        None \<Rightarrow> None
      | Some None \<Rightarrow> Some None
      | Some (Some underlyingPrice) \<Rightarrow>
          if underlyingPrice = [] then Some None
          else (case priceStringTo12 underlyingPrice of
                  None \<Rightarrow> None
                | Some p \<Rightarrow>
                    lp_value_loop spot pool refs stableswapPools decimals atokens rest
                      (totalValue + normalizeReserve (pool_reserves pool ! index) underlyingAssetId decimals * p)))"

definition getStableLpUsdQuote ::
  "spot_package \<Rightarrow> int \<Rightarrow> price_map \<Rightarrow> stableswap_pool list \<Rightarrow> asset_decimals \<Rightarrow> (int \<times> int) list
    \<Rightarrow> spot_quote option option" where
  "getStableLpUsdQuote spot assetId refs stableswapPools decimals atokens =
     (case List.find (\<lambda>candidate. ss_poolId candidate = assetId) stableswapPools of
        None \<Rightarrow> Some None
      | Some pool \<Rightarrow>
          (let lpDecimals = decimals_or decimals assetId 18;
               normalizedTotalSupply = normalizeReserve
                 (case totalIssuance pool of None \<Rightarrow> 0 | Some v \<Rightarrow> v) assetId [(assetId, lpDecimals)]
           in if normalizedTotalSupply = 0 then Some None
              else (case lp_value_loop spot pool refs stableswapPools decimals atokens
                           [0..<length (pool_assets pool)] 0 of
                      None \<Rightarrow> None
                    | Some None \<Rightarrow> Some None
                    | Some (Some totalValue) \<Rightarrow>
                        if totalValue = 0 then Some None
                        else Some (Some \<lparr>quote_price = bdiv totalValue normalizedTotalSupply,
                                         quote_liquidity = bdiv totalValue PRICE_SCALE\<rparr>))))"

section \<open>The anchor is the deepest member of the preferred basket\<close>

text \<open>What a basket's best bridge is: a member with hub liquidity that no other member exceeds.\<close>

definition usable_bridge :: "(int, omnipool_asset_state) jsmap \<Rightarrow> int \<Rightarrow> omnipool_asset_state \<Rightarrow> bool" where
  "usable_bridge omni a st \<longleftrightarrow> map_of omni a = Some st \<and> hubReserve st \<noteq> 0"

definition deepest_bridge ::
  "(int, omnipool_asset_state) jsmap \<Rightarrow> int list \<Rightarrow> (int \<times> omnipool_asset_state) option \<Rightarrow> bool" where
  "deepest_bridge omni ids best \<longleftrightarrow>
     (case best of
        None \<Rightarrow> \<forall>i \<in> set ids. \<forall>st. \<not> usable_bridge omni i st
      | Some (a, st) \<Rightarrow> a \<in> set ids \<and> usable_bridge omni a st
          \<and> (\<forall>i \<in> set ids. \<forall>st'. usable_bridge omni i st' \<longrightarrow> hubReserve st' \<le> hubReserve st))"

lemma findBest_deepest: "deepest_bridge omni ids (findBestOmnipoolBridge omni ids)"
proof (induction ids rule: rev_induct)
  case Nil
  then show ?case by (simp add: findBestOmnipoolBridge_def deepest_bridge_def)
next
  case (snoc i ids)
  then show ?case
    by (fastforce simp: findBestOmnipoolBridge_def deepest_bridge_def bridge_step_def usable_bridge_def
        split: option.splits)
qed

lemma findBest_None: "findBestOmnipoolBridge omni b = None \<Longrightarrow> i \<in> set b \<Longrightarrow> \<not> usable_bridge omni i st"
  using findBest_deepest [of omni b] by (simp add: deepest_bridge_def)

lemma anchor_loop_None:
  "anchor_loop omni baskets = None \<Longrightarrow> \<forall>b \<in> set baskets. \<forall>i \<in> set b. \<forall>st. \<not> usable_bridge omni i st"
  by (induction baskets) (auto simp: findBest_None split: option.splits)

lemma anchor_loop_Some:
  "anchor_loop omni baskets = Some (b, best) \<Longrightarrow> \<exists>earlier later. baskets = earlier @ b # later
     \<and> (\<forall>b' \<in> set earlier. \<forall>i \<in> set b'. \<forall>st. \<not> usable_bridge omni i st) \<and> deepest_bridge omni b (Some best)"
proof (induction baskets)
  case (Cons basket baskets)
  show ?case
  proof (cases "findBestOmnipoolBridge omni basket")
    case None
    with Cons obtain earlier later where "baskets = earlier @ b # later"
      "\<forall>b' \<in> set earlier. \<forall>i \<in> set b'. \<forall>st. \<not> usable_bridge omni i st" "deepest_bridge omni b (Some best)"
      by auto
    then show ?thesis using findBest_None [OF None]
      by (intro exI [of _ "basket # earlier"] exI [of _ later]) auto
  next
    case (Some x)
    with Cons.prems findBest_deepest [of omni basket] show ?thesis
      by (intro exI [of _ "[]"] exI [of _ baskets]) auto
  qed
qed simp

text \<open>the dollar anchor is the deepest Omnipool member of the first reference basket that has a
  member with hub liquidity, and that basket is the reference set of the block. There is no anchor
  exactly when no basket has such a member; then the canonical first basket is the reference set.
\<close>

lemma usd_anchor_deepest:
  "case selectUsdAnchor omni baskets of
     (ids, Some best) \<Rightarrow> (\<exists>earlier later. baskets = earlier @ ids # later
        \<and> (\<forall>b \<in> set earlier. \<forall>i \<in> set b. \<forall>st. \<not> usable_bridge omni i st) \<and> deepest_bridge omni ids (Some best))
   | (ids, None) \<Rightarrow> (\<forall>b \<in> set baskets. \<forall>i \<in> set b. \<forall>st. \<not> usable_bridge omni i st)
        \<and> ids = (case baskets of [] \<Rightarrow> [] | b # _ \<Rightarrow> b)"
  using anchor_loop_None [of omni baskets] anchor_loop_Some [of omni baskets]
  by (cases "anchor_loop omni baskets") (auto simp: selectUsdAnchor_def)

section \<open>The stable quote comes from the deepest pool\<close>

lemma index_of_lt: "index_of x xs = Some i \<Longrightarrow> i < length xs \<and> xs ! i = x"
  by (induction xs arbitrary: i) (auto split: if_splits)

text \<open>Depth of a pool for a pair: its normalised out-reserve, when both sides hold something.\<close>

definition pair_depth :: "int \<Rightarrow> int \<Rightarrow> asset_decimals \<Rightarrow> stableswap_pool \<Rightarrow> int option" where
  "pair_depth a b decimals pool =
     (case (index_of a (pool_assets pool), index_of b (pool_assets pool)) of
        (Some i, Some j) \<Rightarrow> if pool_reserves pool ! i = 0 \<or> pool_reserves pool ! j = 0 then None
          else Some (normalizeReserve (pool_reserves pool ! j) b decimals)
      | _ \<Rightarrow> None)"

lemma stable_quote_step_eq:
  "stable_quote_step a b decimals acc pool =
     (case pair_depth a b decimals pool of None \<Rightarrow> acc
      | Some d \<Rightarrow> if d > snd acc then (Some pool, d) else acc)"
  by (auto simp: stable_quote_step_def pair_depth_def Let_def split: option.split)

definition deepest_pool ::
  "int \<Rightarrow> int \<Rightarrow> asset_decimals \<Rightarrow> stableswap_pool list \<Rightarrow> stableswap_pool option \<times> int \<Rightarrow> bool" where
  "deepest_pool a b decimals pools acc \<longleftrightarrow> 0 \<le> snd acc
     \<and> (\<forall>p \<in> set pools. \<forall>d. pair_depth a b decimals p = Some d \<longrightarrow> d \<le> snd acc)
     \<and> (\<forall>p. fst acc = Some p \<longrightarrow> 0 < snd acc \<and> p \<in> set pools \<and> pair_depth a b decimals p = Some (snd acc))
     \<and> (fst acc = None \<longrightarrow> snd acc = 0)"

lemma stable_fold_deepest:
  "deepest_pool a b decimals pools (foldl (stable_quote_step a b decimals) (None, 0) pools)"
proof (induction pools rule: rev_induct)
  case Nil
  then show ?case by (simp add: deepest_pool_def)
next
  case (snoc p pools)
  then show ?case unfolding foldl_append foldl.simps stable_quote_step_eq
    by (auto simp: deepest_pool_def split: option.split)
qed

lemma getBestStableQuote_cases:
  assumes "getBestStableQuote spot a b pools decimals = Some q"
  obtains p i j where "foldl (stable_quote_step a b decimals) (None, 0) pools = (Some p, quote_liquidity q)"
    "index_of a (pool_assets p) = Some i" "index_of b (pool_assets p) = Some j"
    "quote_price q = calculateSpotPrice spot p i j decimals" "quote_price q \<noteq> 0"
proof -
  obtain po liq where f: "foldl (stable_quote_step a b decimals) (None, 0) pools = (po, liq)" by fastforce
  obtain p where p: "po = Some p" using assms f by (cases po) (auto simp: getBestStableQuote_def)
  obtain i where i: "index_of a (pool_assets p) = Some i"
    using assms f p by (cases "index_of a (pool_assets p)") (auto simp: getBestStableQuote_def)
  obtain j where j: "index_of b (pool_assets p) = Some j"
    using assms f p i by (cases "index_of b (pool_assets p)") (auto simp: getBestStableQuote_def)
  have "calculateSpotPrice spot p i j decimals \<noteq> 0"
    "q = \<lparr>quote_price = calculateSpotPrice spot p i j decimals, quote_liquidity = liq\<rparr>"
    using assms f p i j by (auto simp: getBestStableQuote_def Let_def split: if_splits)
  then show thesis using that f p i j by simp
qed

text \<open>a stable quote is the positive spot price of the pool with the deepest out-side among those
  that hold both assets, and reports that depth as its liquidity.
\<close>

lemma best_stable_quote_deepest:
  assumes "getBestStableQuote spot a b pools decimals = Some q"
  shows "\<exists>p i j. p \<in> set pools \<and> index_of a (pool_assets p) = Some i \<and> index_of b (pool_assets p) = Some j
    \<and> quote_price q = calculateSpotPrice spot p i j decimals \<and> 0 < quote_price q
    \<and> pair_depth a b decimals p = Some (quote_liquidity q) \<and> 0 < quote_liquidity q
    \<and> (\<forall>p' \<in> set pools. \<forall>d. pair_depth a b decimals p' = Some d \<longrightarrow> d \<le> quote_liquidity q)"
proof -
  obtain p i j where f: "foldl (stable_quote_step a b decimals) (None, 0) pools = (Some p, quote_liquidity q)"
    and ij: "index_of a (pool_assets p) = Some i" "index_of b (pool_assets p) = Some j"
      "quote_price q = calculateSpotPrice spot p i j decimals" "quote_price q \<noteq> 0"
    using assms by (rule getBestStableQuote_cases)
  have d: "deepest_pool a b decimals pools (Some p, quote_liquidity q)"
    using stable_fold_deepest [of a b decimals pools] f by simp
  have "0 < quote_price q" using ij calculateSpotPrice_nonneg [of spot p i j decimals] by linarith
  with d ij show ?thesis unfolding deepest_pool_def fst_conv snd_conv by blast
qed

section \<open>The reference basket is worth its dollars\<close>

lemma one_dollar: "''1.000000000000'' = price12ToString (10 ^ 12)"
proof -
  have step: "nat_to_string (1000000000000) = ''1000000000000''"
    by (simp add: nat_to_base.simps digit_char_def char_of_def bit_0)
  show ?thesis
    by (simp add: price12ToString_def int_to_string_def step pad_start_def drop_last_def take_last_def
        or_default_def)
qed

lemma two_dollar_split:
  assumes "0 \<le> q" and "0 < S"
  shows "2 * S - 1 \<le> (2 * q * S) div (S + q) + (2 * S * S) div (S + q)"
    and "(2 * q * S) div (S + q) + (2 * S * S) div (S + q) \<le> 2 * (S :: int)"
proof -
  define D where "D = S + q"
  define A where "A = (2 * q * S) div D"
  define B where "B = (2 * S * S) div D"
  have pos: "0 < D" using assms by (simp add: D_def)
  have "D * A + (2 * q * S) mod D = 2 * q * S" "D * B + (2 * S * S) mod D = 2 * S * S"
    unfolding A_def B_def by simp_all
  moreover have "0 \<le> (2 * q * S) mod D" "(2 * q * S) mod D < D" "0 \<le> (2 * S * S) mod D" "(2 * S * S) mod D < D"
    using pos by simp_all
  moreover have "2 * q * S + 2 * S * S = D * (2 * S)" by (simp add: D_def algebra_simps)
  ultimately have "D * A + D * B \<le> D * (2 * S)" "D * (2 * S) < D * A + D * B + D + D" by linarith+
  then have "D * (A + B) \<le> D * (2 * S)" "D * (2 * S) < D * (A + B + 2)" by (simp_all add: distrib_left)
  then have "A + B \<le> 2 * S" "2 * S < A + B + 2" using pos by (simp_all add: mult_le_cancel_left mult_less_cancel_left)
  then show "2 * S - 1 \<le> (2 * q * S) div (S + q) + (2 * S * S) div (S + q)"
    "(2 * q * S) div (S + q) + (2 * S * S) div (S + q) \<le> 2 * S"
    unfolding A_def B_def D_def by linarith+
qed

lemma ones_map:
  "map_of (foldl (\<lambda>m i. map_set i v m) m ids) k = (if k \<in> set ids then Some v else map_of m k)"
  by (induction ids arbitrary: m) auto

text \<open>the first two members of the basket split two dollars at the ratio of their stable quote:
  their prices add up to two dollars, up to one unit of the last digit. Every further member is at
  exactly one dollar, and no other asset is seeded.
\<close>

lemma reference_pair_sums_to_two:
  assumes "js_unique ids = a # b # rest"
  shows "\<exists>pa pb. map_of (buildUsdReferencePrices spot ids pools decimals) a = Some (price12ToString pa)
    \<and> map_of (buildUsdReferencePrices spot ids pools decimals) b = Some (price12ToString pb)
    \<and> 0 \<le> pa \<and> 0 \<le> pb \<and> 2 * 10 ^ 12 - 1 \<le> pa + pb \<and> pa + pb \<le> 2 * 10 ^ 12
    \<and> (\<forall>c. c \<notin> {a, b} \<longrightarrow> map_of (buildUsdReferencePrices spot ids pools decimals) c
         = (if c \<in> set ids then Some ''1.000000000000'' else None))"
proof -
  have ab: "a \<noteq> b" "a \<in> set ids" "b \<in> set ids"
    using distinct_js_unique [of ids] set_js_unique [of ids] unfolding assms by auto
  show ?thesis
  proof (cases "getBestStableQuote spot a b pools decimals")
    case None
    then have "buildUsdReferencePrices spot ids pools decimals
        = foldl (\<lambda>m i. map_set i ''1.000000000000'' m) [] (js_unique ids)"
      unfolding buildUsdReferencePrices_def Let_def assms by simp
    then show ?thesis using ab one_dollar
      by (intro exI [of _ "10 ^ 12"]) (simp add: ones_map)
  next
    case (Some quote)
    define q where "q = quote_price quote"
    have q: "0 \<le> q" using getBestStableQuote_cases [OF Some] calculateSpotPrice_nonneg unfolding q_def by metis
    have nz: "0 < 10 ^ 12 + q" "10 ^ 12 + q \<noteq> 0" using q by (simp_all add: add_pos_nonneg)
    have eq: "buildUsdReferencePrices spot ids pools decimals =
        map_set b (price12ToString (2 * 10 ^ 12 * 10 ^ 12 div (10 ^ 12 + q)))
          (map_set a (price12ToString (2 * q * 10 ^ 12 div (10 ^ 12 + q)))
            (foldl (\<lambda>m i. map_set i ''1.000000000000'' m) [] (js_unique ids)))"
      using Some q nz unfolding buildUsdReferencePrices_def Let_def assms
      by (simp add: q_def [symmetric] PRICE_SCALE_def bdiv_nonneg_eq del: power_numeral)
    have "2 * 10 ^ 12 - 1 \<le> 2 * q * 10 ^ 12 div (10 ^ 12 + q) + 2 * 10 ^ 12 * 10 ^ 12 div (10 ^ 12 + q)"
      "2 * q * 10 ^ 12 div (10 ^ 12 + q) + 2 * 10 ^ 12 * 10 ^ 12 div (10 ^ 12 + q) \<le> 2 * 10 ^ 12"
      using two_dollar_split [OF q, of "10 ^ 12"] by simp_all
    moreover have "0 \<le> 2 * q * 10 ^ 12 div (10 ^ 12 + q)" "0 \<le> 2 * 10 ^ 12 * 10 ^ 12 div (10 ^ 12 + q)"
      using q by (simp_all add: pos_imp_zdiv_nonneg_iff)
    ultimately show ?thesis using ab unfolding eq
      by (intro exI [of _ "2 * q * 10 ^ 12 div (10 ^ 12 + q)"]
            exI [of _ "2 * 10 ^ 12 * 10 ^ 12 div (10 ^ 12 + q)"]) (simp add: ones_map)
  qed
qed

section \<open>Averaging the quotes of an asset\<close>

lemma weighted_sum_bounds:
  assumes "\<forall>q \<in> set obs. lo \<le> quote_price q \<and> quote_price q \<le> hi \<and> 0 \<le> quote_liquidity q"
  shows "lo * sum_list (map quote_liquidity obs) \<le> sum_list (map (\<lambda>q. quote_price q * quote_liquidity q) obs)
    \<and> sum_list (map (\<lambda>q. quote_price q * quote_liquidity q) obs) \<le> hi * sum_list (map quote_liquidity obs)"
  using assms
proof (induction obs)
  case (Cons q obs)
  have "lo * quote_liquidity q \<le> quote_price q * quote_liquidity q"
    "quote_price q * quote_liquidity q \<le> hi * quote_liquidity q"
    using Cons.prems by (auto intro: mult_right_mono)
  with Cons show ?case by (auto simp: distrib_left)
qed simp

text \<open>the USD price averaged over several stable quotes lies between the lowest and the highest
  of them; without quotes there is no price.
\<close>

lemma averaged_price_between:
  assumes "obs \<noteq> []"
    and "\<forall>q \<in> set obs. 0 \<le> lo \<and> lo \<le> quote_price q \<and> quote_price q \<le> hi \<and> 0 \<le> quote_liquidity q"
  shows "\<exists>v. averaged_price obs = Some (price12ToString v) \<and> lo \<le> v \<and> v \<le> hi"
proof -
  obtain q qs where obs: "obs = q # qs" using assms(1) by (cases obs) auto
  define L where "L = sum_list (map quote_liquidity obs)"
  define W where "W = sum_list (map (\<lambda>q. quote_price q * quote_liquidity q) obs)"
  show ?thesis
  proof (cases "qs = [] \<or> L = 0")
    case True
    then have "averaged_price obs = Some (price12ToString (quote_price q))"
      by (auto simp: averaged_price_def obs L_def foldl_add_conv Let_def split: list.split)
    with assms(2) obs show ?thesis by auto
  next
    case False
    have avg: "averaged_price obs = Some (price12ToString (bdiv W L))"
      using False by (auto simp: averaged_price_def obs L_def W_def foldl_add_conv Let_def split: list.split)
    have b: "lo * L \<le> W" "W \<le> hi * L" using weighted_sum_bounds [of obs lo hi] assms(2) by (auto simp: L_def W_def)
    have "0 \<le> L" unfolding L_def using assms(2) by (intro sum_list_nonneg_int) auto
    with False have L: "0 < L" by simp
    moreover have "0 \<le> lo" using assms(2) obs by simp
    then have "0 \<le> lo * L" using L by simp
    then have "0 \<le> W" using b(1) by linarith
    ultimately have "bdiv W L = W div L" using \<open>0 \<le> W\<close> by (simp add: bdiv_nonneg_eq)
    moreover have "lo \<le> W div L" "W div L \<le> hi"
      using zdiv_mono1 [OF b(1) L] zdiv_mono1 [OF b(2) L] L by simp_all
    ultimately show ?thesis using avg by auto
  qed
qed

end
