(* ===== verification/Resolve_Prices.thy ===== *)
theory Resolve_Prices
  imports Price_Graph Usd_Reference
begin

text \<open>
  The top of \<^verbatim>\<open>src/price/graph.ts\<close>: \<open>computeLpNavPrices\<close> (stableswap shares priced by their
  net asset value), \<open>collectUnpricedConnectedAssets\<close> and \<open>resolvePrices\<close>, which runs the whole
  engine for one block. \<^const>\<open>None\<close> is an exception that leaves the function; the bodies of the
  two \<open>try\<close> blocks are case distinctions on it. The two maps \<open>prices\<close> and \<open>hopCounts\<close>, which the
  source mutates, are threaded as one state.
\<close>

section \<open>The state\<close>

record price_state =
  st_prices :: price_map
  st_hopCounts :: "(int, int) jsmap"

definition put_price :: "int \<Rightarrow> string \<Rightarrow> price_state \<Rightarrow> price_state" where
  "put_price a p st = st\<lparr>st_prices := map_set a p (st_prices st)\<rparr>"

definition put_hop :: "int \<Rightarrow> int \<Rightarrow> price_state \<Rightarrow> price_state" where
  "put_hop a h st = st\<lparr>st_hopCounts := map_set a h (st_hopCounts st)\<rparr>"

section \<open>Net asset value of a pool share\<close>

definition peg_or_one :: "(int \<times> int) list \<Rightarrow> nat \<Rightarrow> int \<times> int" where
  "peg_or_one pegs i = (if i < length pegs then pegs ! i else (1, 1))"

definition base_index_step :: "(int \<times> int) list \<Rightarrow> nat \<times> int \<times> int \<Rightarrow> nat \<Rightarrow> nat \<times> int \<times> int" where
  "base_index_step pegs = (\<lambda>(baseIndex, bestNum, bestDen) i.
     let (num, den) = peg_or_one pegs i in
     if den \<le> 0 \<or> bestDen \<le> 0 then (baseIndex, bestNum, bestDen)
     else if num * bestDen < bestNum * den then (i, num, den)
     else (baseIndex, bestNum, bestDen))"

definition peg_base_index :: "stableswap_pool \<Rightarrow> (int \<times> int) list \<Rightarrow> nat" where
  "peg_base_index pool pegs =
     fst (foldl (base_index_step pegs) (0, peg_or_one pegs 0) [1..<length (pool_assets pool)])"

definition base_equivalent ::
  "spot_package \<Rightarrow> stableswap_pool \<Rightarrow> asset_decimals \<Rightarrow> nat \<Rightarrow> int \<Rightarrow> int" where
  "base_equivalent spot pool decimals baseIndex baseDecScale =
     foldl (\<lambda>totalBaseEquiv i.
       if i = baseIndex then
         totalBaseEquiv + bdiv (pool_reserves pool ! i * baseDecScale)
           (10 ^ decimals_or decimals (pool_assets pool ! i) 12)
       else
         (let spotPrice = calculateSpotPrice spot pool i baseIndex decimals in
          if spotPrice = 0 then totalBaseEquiv
          else totalBaseEquiv + bdiv (pool_reserves pool ! i * spotPrice * baseDecScale)
            (10 ^ decimals_or decimals (pool_assets pool ! i) 12 * 10 ^ 12))) 0
       [0..<length (pool_assets pool)]"

definition price24_of :: "price_map \<Rightarrow> int \<Rightarrow> int option" where
  "price24_of prices a = Option.bind (map_of prices a) priceTo24"

fun tvl_loop ::
  "stableswap_pool \<Rightarrow> price_map \<Rightarrow> asset_decimals \<Rightarrow> nat list \<Rightarrow> int \<Rightarrow> int option" where
  "tvl_loop pool prices decimals [] tvl24 = Some tvl24"
| "tvl_loop pool prices decimals (i # is) tvl24 =
     (case price24_of prices (pool_assets pool ! i) of
        None \<Rightarrow> None
      | Some price24 \<Rightarrow> tvl_loop pool prices decimals is
          (tvl24 + bdiv (pool_reserves pool ! i * price24)
             (10 ^ decimals_or decimals (pool_assets pool ! i) 12)))"

definition lp_nav_price24 ::
  "spot_package \<Rightarrow> stableswap_pool \<Rightarrow> price_map \<Rightarrow> asset_decimals \<Rightarrow> int \<Rightarrow> int option" where
  "lp_nav_price24 spot pool prices decimals totalSupply =
     (let lpDecScale = 10 ^ decimals_or decimals (ss_poolId pool) 18 in
      case pegMultipliers pool of
        Some (peg # pegs) \<Rightarrow>
          (let baseIndex = peg_base_index pool (peg # pegs);
               baseAsset = pool_assets pool ! baseIndex;
               baseDecScale = 10 ^ decimals_or decimals baseAsset 12
           in case price24_of prices baseAsset of
                None \<Rightarrow> None
              | Some basePrice24 \<Rightarrow>
                  (let totalBaseEquiv = base_equivalent spot pool decimals baseIndex baseDecScale in
                   checked_bdiv (totalBaseEquiv * basePrice24 * lpDecScale) (totalSupply * baseDecScale)))
      | _ \<Rightarrow>
          (case tvl_loop pool prices decimals [0..<length (pool_assets pool)] 0 of
             None \<Rightarrow> None
           | Some tvl24 \<Rightarrow> checked_bdiv (tvl24 * lpDecScale) totalSupply))"

definition lp_nav_step ::
  "spot_package \<Rightarrow> (int, int) jsmap \<Rightarrow> asset_decimals \<Rightarrow> price_state \<times> (int, int) jsmap \<Rightarrow> stableswap_pool
    \<Rightarrow> (price_state \<times> (int, int) jsmap) option" where
  "lp_nav_step spot totalIssuances decimals acc pool =
     (let (st, newLpSeeds) = acc; lpAssetId = ss_poolId pool in
      if map_has (st_prices st) lpAssetId then Some acc
      else if \<not> list_all (map_has (st_prices st)) (pool_assets pool) then Some acc
      else (case map_of totalIssuances lpAssetId of
              None \<Rightarrow> Some acc
            | Some totalSupply \<Rightarrow>
                if totalSupply = 0 then Some acc
                else (case lp_nav_price24 spot pool (st_prices st) decimals totalSupply of
                        None \<Rightarrow> None
                      | Some lpPrice24 \<Rightarrow>
                          if lpPrice24 = 0 then Some acc
                          else Some (put_hop lpAssetId 0 (put_price lpAssetId (price24ToString lpPrice24) st),
                                     map_set lpAssetId lpPrice24 newLpSeeds))))"

fun lp_nav_loop ::
  "spot_package \<Rightarrow> (int, int) jsmap \<Rightarrow> asset_decimals \<Rightarrow> stableswap_pool list
    \<Rightarrow> price_state \<times> (int, int) jsmap \<Rightarrow> (price_state \<times> (int, int) jsmap) option" where
  "lp_nav_loop spot totalIssuances decimals [] acc = Some acc"
| "lp_nav_loop spot totalIssuances decimals (pool # pools) acc =
     Option.bind (lp_nav_step spot totalIssuances decimals acc pool)
       (lp_nav_loop spot totalIssuances decimals pools)"

text \<open>Writing the results of a search back: only assets that have no price yet.\<close>

definition write_back :: "int list \<Rightarrow> (int, graph_price) jsmap \<Rightarrow> price_state \<Rightarrow> price_state" where
  "write_back omnipoolPricedAssets results st =
     foldl (\<lambda>s (assetId, g).
        if assetId \<notin> set omnipoolPricedAssets \<and> \<not> map_has (st_prices s) assetId
        then put_hop assetId (gp_hopCount g) (put_price assetId (price24ToString (gp_priceBigint g)) s)
        else s) st results"

definition computeLpNavPrices ::
  "spot_package \<Rightarrow> stableswap_pool list \<Rightarrow> (int, int) jsmap \<Rightarrow> asset_decimals \<Rightarrow> price_graph \<Rightarrow> int list
    \<Rightarrow> search_options \<Rightarrow> price_state \<Rightarrow> price_state option" where
  "computeLpNavPrices spot stableswapPools totalIssuances decimals graph omnipoolPricedAssets options st =
     (case lp_nav_loop spot totalIssuances decimals stableswapPools (st, []) of
        None \<Rightarrow> None
      | Some (st', newLpSeeds) \<Rightarrow>
          Some (if newLpSeeds \<noteq> []
                then write_back omnipoolPricedAssets
                       (resolveGraphPricesByWeightedMedian newLpSeeds omnipoolPricedAssets graph options MAX_HOPS) st'
                else st'))"

definition collectUnpricedConnectedAssets :: "price_graph \<Rightarrow> price_map \<Rightarrow> int list" where
  "collectUnpricedConnectedAssets graph prices =
     sort_cmp (cmp_by id) (filter (\<lambda>a. \<not> map_has prices a) (map_keys graph))"

section \<open>Equal prices for exact pairs\<close>

text \<open>
  One pair of \<open>canonicalizeExactWrapperPairs\<close> (preferring the base) or of
  \<open>canonicalizeLpAliasPairs\<close> (preferring the display asset). At most one side is new to the
  maps, so the order of the two \<open>set\<close> calls does not show.
\<close>

definition canonical_of :: "'a option \<Rightarrow> 'a option \<Rightarrow> 'a option" where
  "canonical_of x y = (case x of Some v \<Rightarrow> Some v | None \<Rightarrow> y)"

definition canonical_hop :: "int option \<Rightarrow> int option \<Rightarrow> int option" where
  "canonical_hop x y = (case (x, y) of (Some a, Some b) \<Rightarrow> Some (min a b) | _ \<Rightarrow> canonical_of x y)"

definition canonicalize_pair :: "int \<Rightarrow> int \<Rightarrow> price_state \<Rightarrow> price_state" where
  "canonicalize_pair preferred other st =
     (case canonical_of (map_of (st_prices st) preferred) (map_of (st_prices st) other) of
        None \<Rightarrow> st
      | Some canonicalPrice \<Rightarrow>
          if canonicalPrice = [] then st
          else
            (let st' = put_price other canonicalPrice (put_price preferred canonicalPrice st) in
             case canonical_hop (map_of (st_hopCounts st) preferred) (map_of (st_hopCounts st) other) of
               None \<Rightarrow> st'
             | Some h \<Rightarrow> put_hop other h (put_hop preferred h st')))"

definition canonicalizeExactWrapperPairs :: "(int \<times> int) list \<Rightarrow> price_state \<Rightarrow> price_state" where
  "canonicalizeExactWrapperPairs atokenEquivalences st =
     foldl (\<lambda>s (baseId, aTokenId). canonicalize_pair baseId aTokenId s) st atokenEquivalences"

definition canonicalizeLpAliasPairs :: "(int \<times> int) list \<Rightarrow> price_state \<Rightarrow> price_state" where
  "canonicalizeLpAliasPairs lpAliasEntries st =
     foldl (\<lambda>s (lpId, displayId). canonicalize_pair displayId lpId s) st lpAliasEntries"

definition canonicalize_all :: "(int \<times> int) list \<Rightarrow> (int \<times> int) list \<Rightarrow> price_state \<Rightarrow> price_state" where
  "canonicalize_all atokens lps st = canonicalizeLpAliasPairs lps (canonicalizeExactWrapperPairs atokens st)"

section \<open>The hub price\<close>

text \<open>
  The first \<open>try\<close> block. \<open>h2oPrice\<close> is assigned before it is multiplied by the bridge's own
  price, so an exception of the multiplication leaves the unmultiplied price.
\<close>

definition direct_h2o_price ::
  "asset_decimals \<Rightarrow> price_map \<Rightarrow> int \<times> omnipool_asset_state \<Rightarrow> string option" where
  "direct_h2o_price decimals referenceUsdPrices = (\<lambda>(assetId, state).
     let bridgeDecimals = decimals_or decimals assetId 6;
         bridgeUsdPrice = (case map_of referenceUsdPrices assetId of None \<Rightarrow> ''1.000000000000'' | Some p \<Rightarrow> p)
     in case calculateH2OPrice state bridgeDecimals of
          Inl _ \<Rightarrow> None
        | Inr h2o \<Rightarrow> (case multiplyPriceStrings h2o bridgeUsdPrice of None \<Rightarrow> Some h2o | Some m \<Rightarrow> Some m))"

definition candidate_bridge_ids ::
  "stableswap_pool list \<Rightarrow> (int, omnipool_asset_state) jsmap \<Rightarrow> int list \<Rightarrow> int list \<Rightarrow> int list" where
  "candidate_bridge_ids stableswapPools omnipoolAssets omnipoolBridgeIds usdReferenceIds =
     (let nonReferenceBridgeIds = filter (\<lambda>i. i \<notin> set usdReferenceIds) omnipoolBridgeIds;
          stableLpBridgeIds = findStableLpOmnipoolBridgeIds stableswapPools omnipoolAssets usdReferenceIds
      in js_unique ((if nonReferenceBridgeIds \<noteq> [] then nonReferenceBridgeIds else omnipoolBridgeIds)
           @ stableLpBridgeIds))"

text \<open>
  The body of the second \<open>try\<close> block for one bridge: \<^const>\<open>None\<close> when it continues or throws,
  otherwise the candidate it pushes and the bridge's own USD price.
\<close>

definition candidate_quotes_of ::
  "spot_package \<Rightarrow> int \<Rightarrow> price_map \<Rightarrow> stableswap_pool list \<Rightarrow> asset_decimals \<Rightarrow> (int \<times> int) list
    \<Rightarrow> spot_quote list option" where
  "candidate_quotes_of spot assetId refs stableswapPools decimals atokens =
     (case getUsdObservationsFromReferences spot assetId refs stableswapPools decimals atokens of
        None \<Rightarrow> None
      | Some [] \<Rightarrow>
          (case getStableLpUsdQuote spot assetId refs stableswapPools decimals atokens of
             None \<Rightarrow> None | Some None \<Rightarrow> Some [] | Some (Some q) \<Rightarrow> Some [q])
      | Some obs \<Rightarrow> Some obs)"

definition quoted_usd_price :: "spot_quote list \<Rightarrow> int" where
  "quoted_usd_price observations =
     (let weightedUsdSum = foldl (\<lambda>acc x. acc + quote_price x * quote_liquidity x) 0 observations;
          totalExternalLiquidity = foldl (\<lambda>acc x. acc + quote_liquidity x) 0 observations
      in if totalExternalLiquidity > 0 then bdiv weightedUsdSum totalExternalLiquidity
         else quote_price (hd observations))"

definition anchor_weight :: "spot_quote list \<Rightarrow> int \<Rightarrow> int" where
  "anchor_weight observations assetReserveUsd =
     (let totalExternalLiquidityUsd =
        foldl (\<lambda>acc x. acc + bdiv (quote_liquidity x * quote_price x) PRICE_SCALE) 0 observations
      in if totalExternalLiquidityUsd > 0 then
           (if assetReserveUsd < totalExternalLiquidityUsd then assetReserveUsd else totalExternalLiquidityUsd)
         else assetReserveUsd)"

definition bridge_candidate ::
  "spot_package \<Rightarrow> price_map \<Rightarrow> stableswap_pool list \<Rightarrow> asset_decimals \<Rightarrow> (int \<times> int) list
    \<Rightarrow> int \<Rightarrow> omnipool_asset_state \<Rightarrow> (weighted_observation \<times> string) option" where
  "bridge_candidate spot refs stableswapPools decimals atokens assetId state =
     (case candidate_quotes_of spot assetId refs stableswapPools decimals atokens of
        None \<Rightarrow> None
      | Some observations \<Rightarrow>
          if observations = [] then None
          else
            (let assetUsdPrice = quoted_usd_price observations;
                 assetReserveUsd = bdiv (normalizeReserve (reserve state) assetId decimals * assetUsdPrice) PRICE_SCALE;
                 weight = anchor_weight observations assetReserveUsd;
                 bridgeDecimals = decimals_or decimals assetId
                   (if list_ex (\<lambda>pool. ss_poolId pool = assetId) stableswapPools then 18 else 6)
             in if weight = 0 then None
                else case calculateH2OPrice state bridgeDecimals of
                       Inl _ \<Rightarrow> None
                     | Inr h2o \<Rightarrow> (case priceStringTo12 h2o of
                         None \<Rightarrow> None
                       | Some bridgeH2oPrice \<Rightarrow>
                           Some (\<lparr>wo_value = bdiv (bridgeH2oPrice * assetUsdPrice) PRICE_SCALE, wo_weight = weight\<rparr>,
                                 price12ToString assetUsdPrice))))"

definition bridge_step_candidates ::
  "spot_package \<Rightarrow> (int, omnipool_asset_state) jsmap \<Rightarrow> price_map \<Rightarrow> stableswap_pool list \<Rightarrow> asset_decimals
    \<Rightarrow> (int \<times> int) list \<Rightarrow> weighted_observation list \<times> price_map \<Rightarrow> int \<Rightarrow> weighted_observation list \<times> price_map" where
  "bridge_step_candidates spot omnipoolAssets refs stableswapPools decimals atokens acc assetId =
     (case map_of omnipoolAssets assetId of
        None \<Rightarrow> acc
      | Some state \<Rightarrow>
          if hubReserve state = 0 \<or> reserve state = 0 then acc
          else (case bridge_candidate spot refs stableswapPools decimals atokens assetId state of
                  None \<Rightarrow> acc
                | Some (candidate, price) \<Rightarrow> (fst acc @ [candidate], map_set assetId price (snd acc))))"

definition bridged_h2o_price ::
  "spot_package \<Rightarrow> (int, omnipool_asset_state) jsmap \<Rightarrow> price_map \<Rightarrow> stableswap_pool list \<Rightarrow> asset_decimals
    \<Rightarrow> (int \<times> int) list \<Rightarrow> int list \<Rightarrow> int list \<Rightarrow> (string \<times> price_map) option" where
  "bridged_h2o_price spot omnipoolAssets refs stableswapPools decimals atokens omnipoolBridgeIds usdReferenceIds =
     (let (bridgeCandidates, selectedBridgePrices) =
        foldl (bridge_step_candidates spot omnipoolAssets refs stableswapPools decimals atokens) ([], [])
          (candidate_bridge_ids stableswapPools omnipoolAssets omnipoolBridgeIds usdReferenceIds)
      in case weightedMedian bridgeCandidates of
           None \<Rightarrow> None
         | Some medianH2oPrice \<Rightarrow> Some (price12ToString medianH2oPrice, selectedBridgePrices))"

section \<open>\<open>resolvePrices\<close>\<close>

definition put_prices :: "price_map \<Rightarrow> price_map \<Rightarrow> price_map" where
  "put_prices new prices = foldl (\<lambda>m (a, p). map_set a p m) prices new"

definition put_missing_prices :: "price_map \<Rightarrow> price_map \<Rightarrow> price_map" where
  "put_missing_prices new prices = foldl (\<lambda>m (a, p). if map_has m a then m else map_set a p m) prices new"

record price_inputs =
  pi_omnipoolAssets :: "(int, omnipool_asset_state) jsmap"
  pi_xykPools :: "xyk_pool list"
  pi_stableswapPools :: "stableswap_pool list"
  pi_decimals :: asset_decimals
  pi_h2oAssetId :: int
  pi_omnipoolBridgeIds :: "int list"
  pi_atokenEquivalences :: "(int \<times> int) list"
  pi_totalIssuances :: "(int, int) jsmap"
  pi_usdReferenceBaskets :: "int list list"
  pi_options :: search_options

text \<open>The prices known before the pool graph is searched: references, bridges, H2O, Omnipool.\<close>

definition anchored_prices :: "spot_package \<Rightarrow> price_inputs \<Rightarrow> price_map option" where
  "anchored_prices spot i =
     (let (usdReferenceIds, directReferenceBridge) = selectUsdAnchor (pi_omnipoolAssets i) (pi_usdReferenceBaskets i);
          referenceUsdPrices = buildUsdReferencePrices spot usdReferenceIds (pi_stableswapPools i) (pi_decimals i);
          prices0 = put_prices referenceUsdPrices [];
          direct = Option.bind directReferenceBridge (direct_h2o_price (pi_decimals i) referenceUsdPrices);
          needs_bridges = (case direct of None \<Rightarrow> True | Some h \<Rightarrow> h = []);
          (h2oPrice, prices1) =
            (if needs_bridges then
               (case bridged_h2o_price spot (pi_omnipoolAssets i) referenceUsdPrices (pi_stableswapPools i)
                       (pi_decimals i) (pi_atokenEquivalences i) (pi_omnipoolBridgeIds i) usdReferenceIds of
                  None \<Rightarrow> (direct, prices0)
                | Some (h, selectedBridgePrices) \<Rightarrow> (Some h, put_prices selectedBridgePrices prices0))
             else (direct, prices0))
      in case h2oPrice of
           None \<Rightarrow> Some prices1
         | Some h \<Rightarrow>
             if h = [] then Some prices1
             else (case calculateOmnipoolPrices (pi_omnipoolAssets i) h (pi_decimals i) of
                     None \<Rightarrow> None
                   | Some omnipoolPrices \<Rightarrow>
                       Some (put_missing_prices omnipoolPrices (map_set (pi_h2oAssetId i) h prices1))))"

definition seeded_state :: "price_inputs \<Rightarrow> price_map \<Rightarrow> price_state" where
  "seeded_state i prices =
     (let pass = canonicalize_all (pi_atokenEquivalences i) (lpEquivalences (pi_options i));
          st1 = pass \<lparr>st_prices = prices, st_hopCounts = []\<rparr>;
          st2 = foldl (\<lambda>s a. put_hop a 0 s) st1 (map_keys (st_prices st1))
      in pass st2)"

fun seeds_of_prices :: "price_map \<Rightarrow> (int, int) jsmap \<Rightarrow> (int, int) jsmap option" where
  "seeds_of_prices [] seeds = Some seeds"
| "seeds_of_prices ((a, p) # rest) seeds =
     (case priceTo24 p of None \<Rightarrow> None | Some v \<Rightarrow> seeds_of_prices rest (map_set a v seeds))"

definition graph_of_inputs :: "spot_package \<Rightarrow> price_inputs \<Rightarrow> price_graph" where
  "graph_of_inputs spot i =
     buildGraph spot (pi_xykPools i) (pi_stableswapPools i) (pi_atokenEquivalences i) (pi_decimals i)
       (pi_totalIssuances i) (opt_uniswapV3Pools (pi_options i))"

definition resolvePrices :: "spot_package \<Rightarrow> price_inputs \<Rightarrow> resolved_prices option" where
  "resolvePrices spot i =
     (case anchored_prices spot i of
        None \<Rightarrow> None
      | Some prices \<Rightarrow>
          (let st = seeded_state i prices;
               omnipoolPricedAssets = map_keys (st_prices st);
               graph = graph_of_inputs spot i
           in case seeds_of_prices (st_prices st) [] of
                None \<Rightarrow> None
              | Some seeds \<Rightarrow>
                  (let st1 = write_back omnipoolPricedAssets
                         (resolveGraphPricesByWeightedMedian seeds omnipoolPricedAssets graph (pi_options i) MAX_HOPS) st;
                       st2 = canonicalize_all (pi_atokenEquivalences i) (lpEquivalences (pi_options i)) st1
                   in case computeLpNavPrices spot (pi_stableswapPools i) (pi_totalIssuances i) (pi_decimals i) graph
                             omnipoolPricedAssets (pi_options i) st2 of
                        None \<Rightarrow> None
                      | Some st3 \<Rightarrow>
                          (let st4 = canonicalizeLpAliasPairs (lpEquivalences (pi_options i)) st3 in
                           Some \<lparr>res_prices = st_prices st4, res_hopCounts = st_hopCounts st4,
                                 res_unpricedConnected = collectUnpricedConnectedAssets graph (st_prices st4)\<rparr>))))"

section \<open>Non-negative inputs give printable prices\<close>

definition price_map_ok :: "price_map \<Rightarrow> bool" where
  "price_map_ok m \<longleftrightarrow> map_wf m \<and> (\<forall>(a, p) \<in> set m. price_text p)"

definition or_zero :: "int option \<Rightarrow> int" where
  "or_zero v = (case v of None \<Rightarrow> 0 | Some n \<Rightarrow> n)"

definition inputs_ok :: "price_inputs \<Rightarrow> bool" where
  "inputs_ok i \<longleftrightarrow>
     (\<forall>(a, s) \<in> set (pi_omnipoolAssets i). 0 \<le> reserve s \<and> 0 \<le> hubReserve s) \<and>
     (\<forall>p \<in> set (pi_xykPools i). 0 \<le> reserveA p \<and> 0 \<le> reserveB p) \<and>
     (\<forall>p \<in> set (opt_uniswapV3Pools (pi_options i)). 0 \<le> reserveA p \<and> 0 \<le> reserveB p) \<and>
     (\<forall>p \<in> set (pi_stableswapPools i). wf_pool p \<and> pool_assets p \<noteq> [] \<and> 0 \<le> or_zero (totalIssuance p)) \<and>
     (\<forall>(a, v) \<in> set (pi_totalIssuances i). 0 \<le> v)"

lemma price_map_ok_Nil [simp]: "price_map_ok []"
  by (simp add: price_map_ok_def)

lemma price_map_ok_set [intro]: "price_map_ok m \<Longrightarrow> price_text p \<Longrightarrow> price_map_ok (map_set a p m)"
  unfolding price_map_ok_def using map_set_entries by fastforce

lemma price_map_ok_get: "price_map_ok m \<Longrightarrow> map_of m a = Some p \<Longrightarrow> price_text p"
  by (auto simp: price_map_ok_def dest: map_of_SomeD)

lemma price_map_ok_puts:
  "price_map_ok new \<Longrightarrow> price_map_ok m \<Longrightarrow> price_map_ok (put_prices new m)"
  "price_map_ok new \<Longrightarrow> price_map_ok m \<Longrightarrow> price_map_ok (put_missing_prices new m)"
proof -
  assume new: "price_map_ok new" and m: "price_map_ok m"
  have texts: "(a, p) \<in> set new \<Longrightarrow> price_text p" for a p using new by (auto simp: price_map_ok_def)
  show "price_map_ok (put_prices new m)" unfolding put_prices_def
    by (rule foldl_inv [where P = price_map_ok]) (auto simp: m intro!: price_map_ok_set intro: texts)
  show "price_map_ok (put_missing_prices new m)" unfolding put_missing_prices_def
    by (rule foldl_inv [where P = price_map_ok]) (auto simp: m intro!: price_map_ok_set intro: texts)
qed

lemma price_text_one [simp]: "price_text ''1.000000000000''"
  by (simp add: one_dollar)

lemma reference_prices_ok: "price_map_ok (buildUsdReferencePrices spot ids pools decimals)"
proof -
  define U where "U = js_unique ids"
  define M where "M = foldl (\<lambda>m i. map_set i ''1.000000000000'' m) [] U"
  have M: "price_map_ok M" unfolding M_def
    by (rule foldl_inv [where P = price_map_ok]) auto
  have ratio: "price_text (price12ToString (bdiv (2 * quote_price q * PRICE_SCALE) (PRICE_SCALE + quote_price q)))"
    "price_text (price12ToString (bdiv (2 * PRICE_SCALE * PRICE_SCALE) (PRICE_SCALE + quote_price q)))"
    if "getBestStableQuote spot a b pools decimals = Some q" for a b q
  proof -
    have "0 \<le> quote_price q" using getBestStableQuote_cases [OF that] calculateSpotPrice_nonneg by metis
    then show "price_text (price12ToString (bdiv (2 * quote_price q * PRICE_SCALE) (PRICE_SCALE + quote_price q)))"
      "price_text (price12ToString (bdiv (2 * PRICE_SCALE * PRICE_SCALE) (PRICE_SCALE + quote_price q)))"
      by (auto intro!: price_text_print bdiv_nonneg simp: PRICE_SCALE_def)
  qed
  show ?thesis using M
    unfolding buildUsdReferencePrices_def Let_def U_def [symmetric] M_def [symmetric]
    by (auto split: list.split option.split intro!: price_map_ok_set ratio)
qed

lemma h2o_price_ok:
  assumes "0 \<le> reserve st" "0 \<le> hubReserve st" "calculateH2OPrice st d = Inr h"
  shows "price_text h"
proof -
  have "hubReserve st \<noteq> 0" using assms(3) by (auto simp: calculateH2OPrice_def)
  with assms show ?thesis by (auto simp: calculateH2OPrice_eq)
qed

lemma multiply_ok:
  assumes "price_text a" "price_text b"
  shows "\<exists>c. multiplyPriceStrings a b = Some c \<and> price_text c"
  using price_text_parse [OF assms(1)] price_text_parse [OF assms(2)]
  by (auto simp: multiplyPriceStrings_def PRICE_SCALE_def)

lemma direct_h2o_ok:
  assumes "0 \<le> reserve (snd b)" "0 \<le> hubReserve (snd b)" "price_map_ok refs"
    and "direct_h2o_price decimals refs b = Some h"
  shows "price_text h"
proof -
  obtain a st where b: "b = (a, st)" by (cases b)
  let ?u = "case map_of refs a of None \<Rightarrow> ''1.000000000000'' | Some p \<Rightarrow> p"
  have u: "price_text ?u" using price_map_ok_get [OF assms(3)] by (auto split: option.split)
  obtain h0 where h0: "calculateH2OPrice st (decimals_or decimals a 6) = Inr h0"
    using assms(4) b by (auto simp: direct_h2o_price_def Let_def split: sum.splits)
  with assms b have "price_text h0" by (auto intro: h2o_price_ok)
  with multiply_ok [OF this u] assms(4) b h0 show ?thesis by (auto simp: direct_h2o_price_def Let_def)
qed

section \<open>Quotes are non-negative\<close>

abbreviation quotes_ok :: "spot_quote list \<Rightarrow> bool" where
  "quotes_ok qs \<equiv> \<forall>q \<in> set qs. 0 \<le> quote_price q \<and> 0 \<le> quote_liquidity q"

lemma best_quote_nonneg:
  assumes "getBestStableQuote spot a b pools decimals = Some q"
  shows "0 \<le> quote_price q \<and> 0 \<le> quote_liquidity q"
proof -
  obtain p i j where "foldl (stable_quote_step a b decimals) (None, 0) pools = (Some p, quote_liquidity q)"
    "quote_price q = calculateSpotPrice spot p i j decimals"
    using getBestStableQuote_cases [OF assms] by metis
  then show ?thesis using stable_fold_deepest [of a b decimals pools] by (simp add: deepest_pool_def)
qed

lemma observation_loop_ok:
  assumes "\<forall>(a, p) \<in> set refs. price_text p"
  shows "\<exists>obs. observation_loop spot a pools decimals aliases refs = Some obs \<and> quotes_ok obs"
  using assms
proof (induction refs)
  case (Cons r refs)
  obtain rid price where r: "r = (rid, price)" by (cases r)
  then obtain p where p: "0 \<le> p" "priceStringTo12 price = Some p" using Cons.prems price_text_parse by auto
  obtain obs where obs: "observation_loop spot a pools decimals aliases refs = Some obs" "quotes_ok obs"
    using Cons by auto
  have "quotes_ok (candidate_quotes spot a p' pools decimals cands)" if "0 \<le> p'" for p' cands
    using that best_quote_nonneg by (fastforce simp: candidate_quotes_def List.map_filter_def PRICE_SCALE_def)
  with obs p show ?case by (auto simp: r Let_def)
qed simp

lemma observations_ok_refs:
  assumes "price_map_ok refs"
  shows "\<exists>obs. getUsdObservationsFromReferences spot a refs pools decimals atokens = Some obs \<and> quotes_ok obs"
proof -
  have l: "\<exists>obs. observation_loop spot a pools decimals (foldl alias_step [] atokens) refs = Some obs \<and> quotes_ok obs"
    using assms by (intro observation_loop_ok) (simp add: price_map_ok_def)
  show ?thesis
  proof (cases "map_of refs a")
    case (Some p)
    then have "price_text p" using assms by (rule price_map_ok_get [rotated])
    from price_text_parse [OF this] price_text_nonempty [OF this] Some show ?thesis
      by (auto simp: getUsdObservationsFromReferences_def)
  qed (use l in \<open>simp add: getUsdObservationsFromReferences_def\<close>)
qed

lemma averaged_ok: "quotes_ok obs \<Longrightarrow> averaged_price obs = Some p \<Longrightarrow> price_text p"
proof -
  assume ok: "quotes_ok obs" and avg: "averaged_price obs = Some p"
  have L: "0 \<le> sum_list (map quote_liquidity obs)"
    and W: "0 \<le> sum_list (map (\<lambda>x. quote_price x * quote_liquidity x) obs)"
    using ok by (auto intro!: sum_list_nonneg_int)
  obtain q qs where obs: "obs = q # qs" using avg by (cases obs) (auto simp: averaged_price_def)
  have q: "0 \<le> quote_price q" using ok by (simp add: obs)
  show "price_text p"
  proof (cases "qs = [] \<or> sum_list (map quote_liquidity obs) = 0")
    case True
    then have "p = price12ToString (quote_price q)"
      using avg by (cases qs) (auto simp: averaged_price_def obs foldl_add_conv Let_def add.assoc)
    with q show ?thesis by (simp add: price_text_print)
  next
    case False
    then have "p = price12ToString (bdiv (sum_list (map (\<lambda>x. quote_price x * quote_liquidity x) obs))
        (sum_list (map quote_liquidity obs)))"
      using avg by (cases qs) (auto simp: averaged_price_def obs foldl_add_conv Let_def add.assoc)
    with False L W show ?thesis by (simp add: price_text_print)
  qed
qed

lemma usd_price_ok:
  assumes "price_map_ok refs"
  shows "\<exists>r. getUsdPriceFromReferences spot a refs pools decimals atokens = Some r \<and> (\<forall>p. r = Some p \<longrightarrow> price_text p)"
  using observations_ok_refs [OF assms, of spot a pools decimals atokens] averaged_ok
  by (auto simp: getUsdPriceFromReferences_def)

lemma lp_value_loop_ok:
  assumes "price_map_ok refs" "wf_pool pool" "set is \<subseteq> {..<length (pool_assets pool)}" "0 \<le> tv"
  shows "\<exists>r. lp_value_loop spot pool refs pools decimals atokens is tv = Some r \<and> (\<forall>v. r = Some v \<longrightarrow> 0 \<le> v)"
  using assms(3,4)
proof (induction "is" arbitrary: tv)
  case (Cons i "is")
  obtain r where r: "getUsdPriceFromReferences spot (pool_assets pool ! i) refs pools decimals atokens = Some r"
    "\<forall>p. r = Some p \<longrightarrow> price_text p" using usd_price_ok [OF assms(1)] by metis
  show ?case
  proof (cases r)
    case (Some p)
    then obtain v where v: "0 \<le> v" "priceStringTo12 p = Some v" "p \<noteq> []"
      using r(2) price_text_parse price_text_nonempty by metis
    have "0 \<le> tv + normalizeReserve (pool_reserves pool ! i) (pool_assets pool ! i) decimals * v"
      using Cons.prems assms(2) v(1) by simp
    from Cons.IH [OF _ this] Cons.prems(1) r(1) Some v show ?thesis by (simp add: Let_def)
  qed (use r in simp)
qed simp

lemma stable_lp_quote_ok:
  assumes "price_map_ok refs" "\<forall>p \<in> set pools. wf_pool p \<and> 0 \<le> or_zero (totalIssuance p)"
  shows "\<exists>r. getStableLpUsdQuote spot a refs pools decimals atokens = Some r
    \<and> (\<forall>q. r = Some q \<longrightarrow> 0 \<le> quote_price q \<and> 0 \<le> quote_liquidity q)"
proof (cases "List.find (\<lambda>candidate. ss_poolId candidate = a) pools")
  case (Some pool)
  then have "pool \<in> set pools" by (auto simp: find_Some_iff)
  then have pool: "wf_pool pool" "0 \<le> or_zero (totalIssuance pool)" using assms(2) by auto
  let ?n = "normalizeReserve (or_zero (totalIssuance pool)) a [(a, decimals_or decimals a 18)]"
  obtain r where "lp_value_loop spot pool refs pools decimals atokens [0..<length (pool_assets pool)] 0 = Some r"
    "\<forall>v. r = Some v \<longrightarrow> 0 \<le> v"
    using lp_value_loop_ok [OF assms(1) pool(1), of "[0..<length (pool_assets pool)]" 0 spot pools decimals atokens]
    by (auto simp: lessThan_atLeast0)
  then show ?thesis using Some pool
    by (cases r) (auto simp: getStableLpUsdQuote_def Let_def or_zero_def PRICE_SCALE_def)
qed (simp add: getStableLpUsdQuote_def)

lemma quoted_usd_price_nonneg:
  assumes "quotes_ok obs" "obs \<noteq> []"
  shows "0 \<le> quoted_usd_price obs"
proof -
  have "0 \<le> sum_list (map (\<lambda>x. quote_price x * quote_liquidity x) obs)"
    using assms(1) by (intro sum_list_nonneg_int) auto
  moreover have "0 \<le> quote_price (hd obs)" using assms by simp
  ultimately show ?thesis by (simp add: quoted_usd_price_def foldl_add_conv Let_def)
qed

lemma candidate_quotes_ok:
  assumes "price_map_ok refs" "\<forall>p \<in> set pools. wf_pool p \<and> 0 \<le> or_zero (totalIssuance p)"
    and "candidate_quotes_of spot a refs pools decimals atokens = Some obs"
  shows "quotes_ok obs"
proof -
  obtain obs0 where o: "getUsdObservationsFromReferences spot a refs pools decimals atokens = Some obs0" "quotes_ok obs0"
    using observations_ok_refs [OF assms(1)] by metis
  obtain r where r: "getStableLpUsdQuote spot a refs pools decimals atokens = Some r"
    "\<forall>q. r = Some q \<longrightarrow> 0 \<le> quote_price q \<and> 0 \<le> quote_liquidity q"
    using stable_lp_quote_ok [OF assms(1,2)] by metis
  show ?thesis using assms(3) o r
    by (cases obs0; cases r) (auto simp: candidate_quotes_of_def)
qed

lemma bridge_candidate_ok:
  assumes "price_map_ok refs" "\<forall>p \<in> set pools. wf_pool p \<and> 0 \<le> or_zero (totalIssuance p)"
    and "0 \<le> reserve st" "0 \<le> hubReserve st"
    and "bridge_candidate spot refs pools decimals atokens a st = Some (c, p)"
  shows "price_text p \<and> 0 \<le> wo_value c"
proof -
  obtain obs where obs: "candidate_quotes_of spot a refs pools decimals atokens = Some obs" "obs \<noteq> []"
    using assms(5) by (auto simp: bridge_candidate_def split: option.splits if_splits)
  obtain d h v where h: "calculateH2OPrice st d = Inr h" "priceStringTo12 h = Some v"
    and c: "wo_value c = bdiv (v * quoted_usd_price obs) PRICE_SCALE" "p = price12ToString (quoted_usd_price obs)"
    using assms(5) obs by (auto simp: bridge_candidate_def Let_def split: if_splits sum.splits option.splits)
  have "0 \<le> v" using price_text_parse [OF h2o_price_ok [OF assms(3,4) h(1)]] h(2) by auto
  with c quoted_usd_price_nonneg [OF candidate_quotes_ok [OF assms(1,2) obs(1)] obs(2)] show ?thesis
    by (simp add: PRICE_SCALE_def)
qed

lemma weighted_median_nonneg:
  assumes "\<forall>c \<in> set cs. 0 \<le> wo_value c" "weightedMedian cs = Some v"
  shows "0 \<le> v"
proof -
  have "cs \<noteq> []" using assms(2) by (auto simp: weightedMedian_def)
  with assms bridge_median.median_in [of cs] show ?thesis by (auto simp: weightedMedian_eq)
qed

lemma bridged_h2o_ok:
  assumes "price_map_ok refs" "\<forall>p \<in> set pools. wf_pool p \<and> 0 \<le> or_zero (totalIssuance p)"
    and "\<forall>(a, s) \<in> set omni. 0 \<le> reserve s \<and> 0 \<le> hubReserve s"
    and "bridged_h2o_price spot omni refs pools decimals atokens bridgeIds refIds = Some (h, sel)"
  shows "price_text h \<and> price_map_ok sel"
proof -
  let ?I = "\<lambda>acc :: weighted_observation list \<times> price_map.
    (\<forall>c \<in> set (fst acc). 0 \<le> wo_value c) \<and> price_map_ok (snd acc)"
  have inv: "?I (foldl (bridge_step_candidates spot omni refs pools decimals atokens) ([], []) ids)" for ids
  proof (rule foldl_inv [where P = ?I])
    fix acc a assume acc: "?I acc"
    show "?I (bridge_step_candidates spot omni refs pools decimals atokens acc a)"
    proof (cases "map_of omni a")
      case (Some st)
      then have st: "0 \<le> reserve st" "0 \<le> hubReserve st" using assms(3) by (auto dest: map_of_SomeD)
      show ?thesis
      proof (cases "bridge_candidate spot refs pools decimals atokens a st")
        case b: (Some cp)
        obtain c p where cp: "cp = (c, p)" by (cases cp)
        with bridge_candidate_ok [OF assms(1,2) st] b acc Some show ?thesis
          by (auto simp: bridge_step_candidates_def)
      qed (use acc Some in \<open>simp add: bridge_step_candidates_def\<close>)
    qed (use acc in \<open>simp add: bridge_step_candidates_def\<close>)
  qed simp
  obtain cs m where f: "foldl (bridge_step_candidates spot omni refs pools decimals atokens) ([], [])
      (candidate_bridge_ids pools omni bridgeIds refIds) = (cs, m)" by fastforce
  then obtain v where v: "weightedMedian cs = Some v" "h = price12ToString v" "sel = m"
    using assms(4) by (auto simp: bridged_h2o_price_def Let_def split: option.splits)
  with inv [of "candidate_bridge_ids pools omni bridgeIds refIds"] f weighted_median_nonneg show ?thesis by auto
qed

lemma omnipool_loop_total:
  assumes "price_text h" "\<forall>(a, s) \<in> set omni. 0 \<le> reserve s \<and> 0 \<le> hubReserve s" "price_map_ok m"
  shows "\<exists>out. omnipool_loop h decimals m omni = Some out \<and> price_map_ok out"
  using assms(2,3)
proof (induction omni arbitrary: m)
  case (Cons x omni)
  obtain a st where x: "x = (a, st)" by (cases x)
  obtain v where v: "0 \<le> v" "priceStringTo12 h = Some v" using price_text_parse [OF assms(1)] by metis
  have p: "omnipool_asset_price st d h = Some (price12ToString (bdiv (hubReserve st * 10 ^ d * v) (reserve st * 10 ^ 12)))
      \<and> price_text (price12ToString (bdiv (hubReserve st * 10 ^ d * v) (reserve st * 10 ^ 12)))"
    if "reserve st \<noteq> 0" for d
    using that v Cons.prems(1) x by (simp add: omnipool_asset_price_eq)
  show ?case
  proof (cases "reserve st = 0 \<or> hubReserve st = 0 \<or> map_of decimals a = None")
    case True
    with Cons x show ?thesis by auto
  next
    case False
    then obtain d where d: "map_of decimals a = Some d" by auto
    from Cons.IH [of "map_set a (price12ToString (bdiv (hubReserve st * 10 ^ d * v) (reserve st * 10 ^ 12))) m"]
      Cons.prems p [of d] False d x show ?thesis by auto
  qed
qed simp

lemma anchored_prices_ok:
  assumes "inputs_ok i"
  shows "\<exists>m. anchored_prices spot i = Some m \<and> price_map_ok m"
proof -
  obtain ids bridge where sel: "selectUsdAnchor (pi_omnipoolAssets i) (pi_usdReferenceBaskets i) = (ids, bridge)" by fastforce
  define refs where "refs = buildUsdReferencePrices spot ids (pi_stableswapPools i) (pi_decimals i)"
  define direct where "direct = Option.bind bridge (direct_h2o_price (pi_decimals i) refs)"
  define bridged where "bridged = bridged_h2o_price spot (pi_omnipoolAssets i) refs (pi_stableswapPools i)
    (pi_decimals i) (pi_atokenEquivalences i) (pi_omnipoolBridgeIds i) ids"
  have refs: "price_map_ok refs" unfolding refs_def by (rule reference_prices_ok)
  have omni: "\<forall>(a, s) \<in> set (pi_omnipoolAssets i). 0 \<le> reserve s \<and> 0 \<le> hubReserve s"
    and pools: "\<forall>p \<in> set (pi_stableswapPools i). wf_pool p \<and> 0 \<le> or_zero (totalIssuance p)"
    using assms by (auto simp: inputs_ok_def)
  have direct: "price_text h" if "direct = Some h" for h
  proof -
    from that obtain b where b: "bridge = Some b" "direct_h2o_price (pi_decimals i) refs b = Some h"
      by (auto simp: direct_def bind_eq_Some_conv)
    have "anchor_loop (pi_omnipoolAssets i) (pi_usdReferenceBaskets i) = Some (ids, b)"
      using sel b(1) by (auto simp: selectUsdAnchor_def split: option.splits)
    then have "deepest_bridge (pi_omnipoolAssets i) ids (Some b)" using anchor_loop_Some by blast
    then have "(fst b, snd b) \<in> set (pi_omnipoolAssets i)"
      by (auto simp: deepest_bridge_def usable_bridge_def dest: map_of_SomeD)
    with omni have "0 \<le> reserve (snd b)" "0 \<le> hubReserve (snd b)" by auto
    then show ?thesis using direct_h2o_ok refs b(2) by blast
  qed
  have bridged: "price_text h \<and> price_map_ok sel" if "bridged = Some (h, sel)" for h sel
    using bridged_h2o_ok [OF refs pools omni] that unfolding bridged_def by blast
  define needs where "needs = (case direct of None \<Rightarrow> True | Some h \<Rightarrow> h = [])"
  define stage where "stage = (if needs then (case bridged of None \<Rightarrow> (direct, put_prices refs [])
      | Some (h, sel) \<Rightarrow> (Some h, put_prices sel (put_prices refs []))) else (direct, put_prices refs []))"
  have stage: "price_map_ok (snd stage)" "\<forall>h. fst stage = Some h \<longrightarrow> price_text h"
    using refs direct bridged by (auto simp: stage_def intro!: price_map_ok_puts split: option.splits)
  have eq: "anchored_prices spot i = (case fst stage of None \<Rightarrow> Some (snd stage)
      | Some h \<Rightarrow> if h = [] then Some (snd stage) else
          (case calculateOmnipoolPrices (pi_omnipoolAssets i) h (pi_decimals i) of None \<Rightarrow> None
           | Some out \<Rightarrow> Some (put_missing_prices out (map_set (pi_h2oAssetId i) h (snd stage)))))"
    unfolding anchored_prices_def sel Let_def stage_def needs_def bridged_def direct_def refs_def
      case_prod_beta fst_conv snd_conv ..
  show ?thesis
  proof (cases "fst stage")
    case (Some h)
    then have h: "price_text h" using stage(2) by blast
    obtain out where "calculateOmnipoolPrices (pi_omnipoolAssets i) h (pi_decimals i) = Some out" "price_map_ok out"
      using omnipool_loop_total [OF h omni, of "[]"] by (auto simp: calculateOmnipoolPrices_def)
    with eq Some stage(1) h price_text_nonempty [OF h] show ?thesis by (auto intro!: price_map_ok_puts)
  qed (use eq stage(1) in simp)
qed

section \<open>The invariant of the two maps\<close>

definition state_ok :: "price_state \<Rightarrow> bool" where
  "state_ok st \<longleftrightarrow> price_map_ok (st_prices st) \<and> map_wf (st_hopCounts st)
     \<and> set (map_keys (st_prices st)) = set (map_keys (st_hopCounts st))
     \<and> (\<forall>(a, h) \<in> set (st_hopCounts st). 0 \<le> h \<and> h \<le> MAX_HOPS)"

lemma put_simps [simp]:
  "st_prices (put_price a p st) = map_set a p (st_prices st)" "st_hopCounts (put_price a p st) = st_hopCounts st"
  "st_prices (put_hop a h st) = st_prices st" "st_hopCounts (put_hop a h st) = map_set a h (st_hopCounts st)"
  by (simp_all add: put_price_def put_hop_def)

lemma hops_set:
  "\<forall>(a, h) \<in> set m. P h \<Longrightarrow> P h' \<Longrightarrow> \<forall>(a, h) \<in> set (map_set a' h' m). P h"
  using map_set_entries by fastforce

lemma state_ok_put:
  assumes "state_ok st" "price_text p" "0 \<le> h" "h \<le> MAX_HOPS"
  shows "state_ok (put_hop a h (put_price a p st))"
  using assms hops_set [of "st_hopCounts st" "\<lambda>h. 0 \<le> h \<and> h \<le> MAX_HOPS" h a]
  unfolding state_ok_def put_simps map_set_keys_set by auto

lemma state_ok_get:
  assumes "state_ok st"
  shows "map_of (st_prices st) a = Some p \<Longrightarrow> price_text p \<and> (\<exists>h. map_of (st_hopCounts st) a = Some h)"
    and "map_of (st_hopCounts st) a = Some h \<Longrightarrow> 0 \<le> h \<and> h \<le> MAX_HOPS \<and> (\<exists>p. map_of (st_prices st) a = Some p)"
proof -
  assume p: "map_of (st_prices st) a = Some p"
  then have "a \<in> set (map_keys (st_hopCounts st))" using assms by (force simp: state_ok_def dest: map_of_SomeD)
  then show "price_text p \<and> (\<exists>h. map_of (st_hopCounts st) a = Some h)"
    using assms p price_map_ok_get map_has_iff [of "st_hopCounts st" a] by (auto simp: state_ok_def map_has_def)
next
  assume h: "map_of (st_hopCounts st) a = Some h"
  then have "a \<in> set (map_keys (st_prices st))" using assms by (force simp: state_ok_def dest: map_of_SomeD)
  then show "0 \<le> h \<and> h \<le> MAX_HOPS \<and> (\<exists>p. map_of (st_prices st) a = Some p)"
    using assms h map_has_iff [of "st_prices st" a] by (auto simp: state_ok_def map_has_def dest!: map_of_SomeD)
qed

lemma canonicalize_pair_ok:
  assumes "state_ok st"
  shows "state_ok (canonicalize_pair x y st)"
proof (cases "canonical_of (map_of (st_prices st) x) (map_of (st_prices st) y)")
  case (Some p)
  then have p: "price_text p" using state_ok_get(1) [OF assms] by (auto simp: canonical_of_def split: option.splits)
  have "\<exists>h. canonical_hop (map_of (st_hopCounts st) x) (map_of (st_hopCounts st) y) = Some h \<and> 0 \<le> h \<and> h \<le> MAX_HOPS"
  proof -
    from Some consider (x) q where "map_of (st_prices st) x = Some q" | (y) q where "map_of (st_prices st) y = Some q"
      by (auto simp: canonical_of_def split: option.splits)
    then obtain z h where z: "z \<in> {x, y}" "map_of (st_hopCounts st) z = Some h"
      using state_ok_get(1) [OF assms] by cases (metis insert_iff)+
    then show ?thesis using state_ok_get(2) [OF assms]
      by (cases "map_of (st_hopCounts st) x"; cases "map_of (st_hopCounts st) y")
        (auto simp: canonical_hop_def canonical_of_def min_def)
  qed
  then obtain h where h: "canonical_hop (map_of (st_hopCounts st) x) (map_of (st_hopCounts st) y) = Some h"
    "0 \<le> h" "h \<le> MAX_HOPS" by blast
  have "canonicalize_pair x y st = put_hop y h (put_price y p (put_hop x h (put_price x p st)))"
    using Some p h price_text_nonempty by (simp add: canonicalize_pair_def Let_def put_price_def put_hop_def)
  then show ?thesis using assms p h(2,3) by (simp add: state_ok_put)
qed (use assms in \<open>simp add: canonicalize_pair_def\<close>)

lemma canonicalize_ok:
  "state_ok st \<Longrightarrow> state_ok (canonicalizeExactWrapperPairs eqs st)"
  "state_ok st \<Longrightarrow> state_ok (canonicalizeLpAliasPairs lps st)"
  "state_ok st \<Longrightarrow> state_ok (canonicalize_all eqs lps st)"
  unfolding canonicalize_all_def canonicalizeExactWrapperPairs_def canonicalizeLpAliasPairs_def
  by (auto intro!: foldl_inv [where P = state_ok] canonicalize_pair_ok)

end
