(* ===== verification/Price_Engine.thy ===== *)
theory Price_Engine
  imports Resolve_Prices
begin

text \<open>
  The guarantees of \<open>resolvePrices\<close> as a whole: on non-negative chain state it returns a result, and
  what it returns is well formed, complete about what it could not price, and respects the prices
  that were authoritative before the graph was searched.
\<close>

section \<open>Edges keep prices non-negative\<close>

definition nonneg_edge :: "int \<Rightarrow> graph_edge \<Rightarrow> bool" where
  "nonneg_edge a e \<longleftrightarrow> (\<forall>p prec. 0 \<le> p \<longrightarrow> 0 \<le> computePrice e p prec)"

lemma constant_product_nonneg:
  "0 \<le> r \<Longrightarrow> 0 \<le> s \<Longrightarrow> 0 \<le> p \<Longrightarrow> 0 \<le> constant_product_price r s d e p prec"
  by (simp add: constant_product_price_def Let_def)

lemma graph_nonneg:
  assumes "inputs_ok i"
  shows "all_edges nonneg_edge (graph_of_inputs spot i)"
proof -
  let ?st = "market_edges spot (pi_xykPools i) (pi_stableswapPools i) (pi_decimals i) (pi_totalIssuances i)
    (opt_uniswapV3Pools (pi_options i))"
  have pool: "wf_pool p" if "p \<in> set (pi_stableswapPools i)" for p using assms that by (auto simp: inputs_ok_def)
  have "all_edges nonneg_edge (gs_graph ?st)"
  proof (rule market_edges_inv)
    fix kind and p :: xyk_pool and dA dB
    assume "kind = Xyk \<and> p \<in> set (pi_xykPools i)
      \<or> kind = UniswapV3 \<and> p \<in> xyk_pool.truncate ` set (opt_uniswapV3Pools (pi_options i))"
    then have "0 \<le> reserveA p" "0 \<le> reserveB p" using assms by (auto simp: inputs_ok_def xyk_pool.truncate_def)
    then show "\<forall>q \<in> set (constant_product_edges (pi_decimals i) kind p dA dB). nonneg_edge (fst q) (snd q)"
      by (simp add: constant_product_edges_def Let_def nonneg_edge_def constant_product_nonneg)
  next
    fix p j k assume "p \<in> set (pi_stableswapPools i)"
    then show "nonneg_edge (fst (stableswap_edge spot p (pi_decimals i) j k)) (snd (stableswap_edge spot p (pi_decimals i) j k))"
      by (simp add: stableswap_edge_def Let_def nonneg_edge_def stableswap_edge_price_def)
  next
    fix p v j q assume p: "p \<in> set (pi_stableswapPools i)" and v: "map_of (pi_totalIssuances i) (ss_poolId p) = Some v"
      and q: "lp_edge spot p (pi_decimals i) v j = Some q"
    have "0 \<le> v" using assms v by (auto simp: inputs_ok_def dest: map_of_SomeD)
    with q pool [OF p] show "nonneg_edge (fst q) (snd q)"
      by (auto simp: lp_edge_def Let_def nonneg_edge_def lp_edge_price_def split: if_splits)
  qed
  then show ?thesis unfolding all_edges_def graph_of_inputs_def
    by (auto simp: nonneg_edge_def atoken_edge_def dest!: buildGraph_edges)
qed

lemma route_nonneg:
  "route graph omni maxHops seeds a p h path \<Longrightarrow> all_edges nonneg_edge graph \<Longrightarrow> \<forall>(b, q) \<in> set seeds. 0 \<le> q \<Longrightarrow> 0 \<le> p"
  by (induction rule: route.induct) (auto simp: all_edges_def nonneg_edge_def)

lemma search_result_ok:
  assumes "map_wf seeds" "all_edges nonneg_edge graph" "\<forall>(b, q) \<in> set seeds. 0 \<le> q"
    and "(a, g) \<in> set (resolveGraphPricesByWeightedMedian seeds omni graph options MAX_HOPS)"
  shows "0 \<le> gp_priceBigint g \<and> 0 \<le> gp_hopCount g \<and> gp_hopCount g \<le> MAX_HOPS"
proof -
  have "map_of (resolveGraphPricesByWeightedMedian seeds omni graph options MAX_HOPS) a = Some g"
    using assms(4) resolve_graph_keys_wf by (intro map_of_is_SomeI)
  with assms(1) show ?thesis
  proof (cases rule: resolve_graph_cases)
    case (seed p)
    with assms(3) show ?thesis by (auto simp: MAX_HOPS_def dest: map_of_SomeD)
  next
    case (route path)
    with route_nonneg [OF route(4) assms(2,3)] route_hops [OF route(4)] show ?thesis by (simp add: MAX_HOPS_def)
  qed
qed

lemma write_back_ok:
  assumes "state_ok st" "\<forall>(a, g) \<in> set results. 0 \<le> gp_priceBigint g \<and> 0 \<le> gp_hopCount g \<and> gp_hopCount g \<le> MAX_HOPS"
  shows "state_ok (write_back omni results st)"
  unfolding write_back_def
proof (rule foldl_inv [where P = state_ok, OF assms(1)])
  fix s r assume r: "r \<in> set results" and s: "state_ok s"
  obtain a g where "r = (a, g)" by (cases r)
  with r s assms(2) show "state_ok ((\<lambda>(assetId, g).
        if assetId \<notin> set omni \<and> \<not> map_has (st_prices s) assetId
        then put_hop assetId (gp_hopCount g) (put_price assetId (price24ToString (gp_priceBigint g)) s)
        else s) r)"
    by (auto intro!: state_ok_put)
qed

section \<open>The stages\<close>

lemma seeded_state_ok:
  assumes "price_map_ok prices"
  shows "state_ok (seeded_state i prices)"
proof -
  let ?pass = "canonicalize_all (pi_atokenEquivalences i) (lpEquivalences (pi_options i))"
  have pair: "price_map_ok (st_prices (canonicalize_pair x y s)) \<and> st_hopCounts (canonicalize_pair x y s) = []"
    if "price_map_ok (st_prices s)" "st_hopCounts s = []" for x y s
  proof -
    have "price_text p" if "canonical_of (map_of (st_prices s) x) (map_of (st_prices s) y) = Some p" for p
      using that \<open>price_map_ok (st_prices s)\<close> price_map_ok_get by (auto simp: canonical_of_def split: option.splits)
    with that show ?thesis
      by (auto simp: canonicalize_pair_def canonical_hop_def [of None None] canonical_of_def [of None None] Let_def
          split: option.split)
  qed
  let ?I = "\<lambda>s. price_map_ok (st_prices s) \<and> st_hopCounts s = []"
  have "?I (?pass \<lparr>st_prices = prices, st_hopCounts = []\<rparr>)"
    unfolding canonicalize_all_def canonicalizeExactWrapperPairs_def canonicalizeLpAliasPairs_def
    using assms by (intro foldl_inv [where P = ?I]) (auto simp: pair)
  moreover have "state_ok (foldl (\<lambda>s a. put_hop a 0 s) s (map_keys (st_prices s)))" if s: "?I s" for s
  proof -
    have "st_prices (foldl (\<lambda>s a. put_hop a 0 s) s ks) = st_prices s
      \<and> map_wf (st_hopCounts (foldl (\<lambda>s a. put_hop a 0 s) s ks))
      \<and> set (map_keys (st_hopCounts (foldl (\<lambda>s a. put_hop a 0 s) s ks))) = set ks
      \<and> (\<forall>(a, h) \<in> set (st_hopCounts (foldl (\<lambda>s a. put_hop a 0 s) s ks)). 0 \<le> h \<and> h \<le> MAX_HOPS)" for ks
    proof (induction ks rule: rev_induct)
      case Nil
      then show ?case using s by simp
    next
      case (snoc k ks)
      then show ?case
        using hops_set [of "st_hopCounts (foldl (\<lambda>s a. put_hop a 0 s) s ks)" "\<lambda>h. 0 \<le> h \<and> h \<le> MAX_HOPS" 0 k]
        by (simp add: MAX_HOPS_def)
    qed
    then show ?thesis using s by (auto simp: state_ok_def)
  qed
  ultimately show ?thesis unfolding seeded_state_def Let_def by (intro canonicalize_ok) blast
qed

lemma seeds_total:
  assumes "\<forall>(a, p) \<in> set prices. price_text p" "map_wf seeds" "\<forall>(a, v) \<in> set seeds. 0 \<le> v"
  shows "\<exists>out. seeds_of_prices prices seeds = Some out \<and> map_wf out \<and> (\<forall>(a, v) \<in> set out. 0 \<le> v)
    \<and> set (map_keys out) = set (map_keys seeds) \<union> set (map_keys prices)"
  using assms
proof (induction prices arbitrary: seeds)
  case (Cons x prices)
  obtain a p where x: "x = (a, p)" by (cases x)
  then obtain v where v: "0 \<le> v" "priceStringTo12 p = Some v" using Cons.prems(1) price_text_parse by auto
  have "\<forall>(b, w) \<in> set (map_set a (v * 10 ^ 12) seeds). 0 \<le> w"
    using hops_set [of seeds "\<lambda>w. 0 \<le> w" "v * 10 ^ 12" a] Cons.prems(3) v(1) by simp
  with Cons.IH [of "map_set a (v * 10 ^ 12) seeds"] Cons.prems v x show ?case
    unfolding map_set_keys_set by (auto simp: priceTo24_eq)
qed simp

lemma price24_total: "price_map_ok m \<Longrightarrow> map_has m a \<Longrightarrow> \<exists>v \<ge> 0. price24_of m a = Some v"
  using price_map_ok_get [of m a] price_text_parse by (fastforce simp: price24_of_def map_has_iff priceTo24_eq)

lemma tvl_total:
  assumes "price_map_ok m" "wf_pool pool" "\<forall>a \<in> set (pool_assets pool). map_has m a"
    and "set is \<subseteq> {..<length (pool_assets pool)}" "0 \<le> t"
  shows "\<exists>v \<ge> 0. tvl_loop pool m decimals is t = Some v"
  using assms(4,5)
proof (induction "is" arbitrary: t)
  case (Cons i "is")
  then have i: "i < length (pool_assets pool)" by simp
  then obtain p where p: "0 \<le> p" "price24_of m (pool_assets pool ! i) = Some p"
    using price24_total [OF assms(1)] assms(3) nth_mem by metis
  have "0 \<le> t + bdiv (pool_reserves pool ! i * p) (10 ^ decimals_or decimals (pool_assets pool ! i) 12)"
    using Cons.prems(2) p(1) assms(2) i by simp
  from Cons.IH [OF _ this] Cons.prems(1) p(2) show ?case by simp
qed simp

lemma base_index_bound:
  assumes "pool_assets pool \<noteq> []"
  shows "peg_base_index pool pegs < length (pool_assets pool)"
proof -
  have "fst (foldl (base_index_step pegs) (0, peg_or_one pegs 0) [1..<length (pool_assets pool)])
      < length (pool_assets pool)"
    by (rule foldl_inv [where P = "\<lambda>s. fst s < length (pool_assets pool)"])
      (use assms in \<open>auto simp: base_index_step_def Let_def split: prod.splits if_splits\<close>)
  then show ?thesis by (simp add: peg_base_index_def)
qed

lemma base_equivalent_nonneg:
  "wf_pool pool \<Longrightarrow> 0 \<le> s \<Longrightarrow> 0 \<le> base_equivalent spot pool decimals b s"
  unfolding base_equivalent_def
  by (rule foldl_inv [where P = "\<lambda>v. 0 \<le> v"]) (auto simp: Let_def)

lemma lp_nav_price_ok:
  assumes "price_map_ok m" "wf_pool pool" "\<forall>a \<in> set (pool_assets pool). map_has m a" "0 \<le> v" "v \<noteq> 0"
    and "pool_assets pool \<noteq> []"
  shows "\<exists>p \<ge> 0. lp_nav_price24 spot pool m decimals v = Some p"
proof -
  obtain t where t: "0 \<le> t" "tvl_loop pool m decimals [0..<length (pool_assets pool)] 0 = Some t"
    using tvl_total [OF assms(1-3), of "[0..<length (pool_assets pool)]" 0 decimals] by (auto simp: lessThan_atLeast0)
  have base: "\<exists>q \<ge> 0. price24_of m (pool_assets pool ! peg_base_index pool pegs) = Some q" for pegs
    using price24_total [OF assms(1)] assms(3) base_index_bound [OF assms(6)] nth_mem by metis
  show ?thesis
  proof (cases "pegMultipliers pool = None \<or> pegMultipliers pool = Some []")
    case True
    with t assms(4,5) show ?thesis by (auto simp: lp_nav_price24_def Let_def)
  next
    case False
    then obtain peg pegs where pegs: "pegMultipliers pool = Some (peg # pegs)" by (metis list.exhaust option.exhaust)
    obtain q where "0 \<le> q" "price24_of m (pool_assets pool ! peg_base_index pool (peg # pegs)) = Some q"
      using base by blast
    with pegs assms(2,4,5) show ?thesis by (simp add: lp_nav_price24_def Let_def base_equivalent_nonneg)
  qed
qed

definition seeds_ok :: "(int, int) jsmap \<Rightarrow> bool" where
  "seeds_ok seeds \<longleftrightarrow> map_wf seeds \<and> (\<forall>(a, v) \<in> set seeds. 0 \<le> v)"

lemma seeds_ok_set: "seeds_ok seeds \<Longrightarrow> 0 \<le> v \<Longrightarrow> seeds_ok (map_set a v seeds)"
  using hops_set [of seeds "\<lambda>w. 0 \<le> w" v a] by (simp add: seeds_ok_def)

lemma lp_nav_step_ok:
  assumes "state_ok (fst acc)" "seeds_ok (snd acc)" "wf_pool pool" "pool_assets pool \<noteq> []"
    and "\<forall>(a, v) \<in> set issued. 0 \<le> v"
  shows "\<exists>acc'. lp_nav_step spot issued decimals acc pool = Some acc' \<and> state_ok (fst acc') \<and> seeds_ok (snd acc')
    \<and> (\<forall>a. map_has (st_prices (fst acc)) a \<longrightarrow>
         map_of (st_prices (fst acc')) a = map_of (st_prices (fst acc)) a)"
proof -
  obtain st seeds where acc: "acc = (st, seeds)" by (cases acc)
  show ?thesis
  proof (cases "map_has (st_prices st) (ss_poolId pool) \<or> \<not> list_all (map_has (st_prices st)) (pool_assets pool)
      \<or> map_of issued (ss_poolId pool) = None \<or> map_of issued (ss_poolId pool) = Some 0")
    case True
    then have "lp_nav_step spot issued decimals acc pool = Some acc"
      by (auto simp: lp_nav_step_def acc Let_def split: option.split)
    with assms(1,2) show ?thesis by blast
  next
    case False
    then obtain v where v: "map_of issued (ss_poolId pool) = Some v" "v \<noteq> 0" by auto
    with assms(5) have "0 \<le> v" by (auto dest: map_of_SomeD)
    obtain p where p: "0 \<le> p" "lp_nav_price24 spot pool (st_prices st) decimals v = Some p"
      using lp_nav_price_ok [of "st_prices st" pool v spot decimals] assms(1,3,4) False \<open>0 \<le> v\<close> v(2)
      by (auto simp: acc state_ok_def list_all_iff)
    have step: "lp_nav_step spot issued decimals acc pool = (if p = 0 then Some acc else
        Some (put_hop (ss_poolId pool) 0 (put_price (ss_poolId pool) (price24ToString p) st),
              map_set (ss_poolId pool) p seeds))"
      using False v p by (simp add: lp_nav_step_def acc Let_def)
    have "state_ok (put_hop (ss_poolId pool) 0 (put_price (ss_poolId pool) (price24ToString p) st))"
      using assms(1) p(1) by (intro state_ok_put) (simp_all add: acc MAX_HOPS_def)
    with step assms(1,2) p(1) False show ?thesis by (auto simp: acc seeds_ok_set)
  qed
qed

lemma lp_nav_loop_ok:
  assumes "\<forall>p \<in> set pools. wf_pool p \<and> pool_assets p \<noteq> []" "\<forall>(a, v) \<in> set issued. 0 \<le> v"
    and "state_ok (fst acc)" "seeds_ok (snd acc)"
  shows "\<exists>acc'. lp_nav_loop spot issued decimals pools acc = Some acc' \<and> state_ok (fst acc') \<and> seeds_ok (snd acc')
    \<and> (\<forall>a. map_has (st_prices (fst acc)) a \<longrightarrow>
         map_of (st_prices (fst acc')) a = map_of (st_prices (fst acc)) a)"
  using assms
proof (induction pools arbitrary: acc)
  case (Cons pool pools)
  obtain acc1 where a1: "lp_nav_step spot issued decimals acc pool = Some acc1" "state_ok (fst acc1)" "seeds_ok (snd acc1)"
    "\<forall>a. map_has (st_prices (fst acc)) a \<longrightarrow> map_of (st_prices (fst acc1)) a = map_of (st_prices (fst acc)) a"
    using lp_nav_step_ok [of acc pool issued spot decimals] Cons.prems by auto
  moreover obtain acc2 where "lp_nav_loop spot issued decimals pools acc1 = Some acc2" "state_ok (fst acc2)" "seeds_ok (snd acc2)"
    "\<forall>a. map_has (st_prices (fst acc1)) a \<longrightarrow> map_of (st_prices (fst acc2)) a = map_of (st_prices (fst acc1)) a"
    using Cons.IH [OF _ Cons.prems(2) a1(2,3)] Cons.prems(1) by auto
  ultimately show ?case by (auto simp: map_has_iff)
qed simp

lemma write_back_keeps:
  "map_has (st_prices st) a \<Longrightarrow> map_of (st_prices (write_back omni results st)) a = map_of (st_prices st) a"
  unfolding write_back_def
  by (rule foldl_inv [where P = "\<lambda>s. map_of (st_prices s) a = map_of (st_prices st) a"])
    (auto simp: map_has_iff split: prod.split)

lemma compute_lp_ok:
  assumes "inputs_ok i" "state_ok st"
  shows "\<exists>st'. computeLpNavPrices spot (pi_stableswapPools i) (pi_totalIssuances i) (pi_decimals i)
      (graph_of_inputs spot i) omni (pi_options i) st = Some st' \<and> state_ok st'
    \<and> (\<forall>a. map_has (st_prices st) a \<longrightarrow> map_of (st_prices st') a = map_of (st_prices st) a)"
proof -
  have pools: "\<forall>p \<in> set (pi_stableswapPools i). wf_pool p \<and> pool_assets p \<noteq> []"
    "\<forall>(a, v) \<in> set (pi_totalIssuances i). 0 \<le> v" using assms(1) by (auto simp: inputs_ok_def)
  obtain st1 seeds where l: "lp_nav_loop spot (pi_totalIssuances i) (pi_decimals i) (pi_stableswapPools i) (st, []) = Some (st1, seeds)"
    "state_ok st1" "seeds_ok seeds"
    "\<forall>a. map_has (st_prices st) a \<longrightarrow> map_of (st_prices st1) a = map_of (st_prices st) a"
    using lp_nav_loop_ok [OF pools, of "(st, [])" spot "pi_decimals i"] assms(2) by (auto simp: seeds_ok_def)
  let ?r = "resolveGraphPricesByWeightedMedian seeds omni (graph_of_inputs spot i) (pi_options i) MAX_HOPS"
  have "state_ok (write_back omni ?r st1)"
    using l(2,3) graph_nonneg [OF assms(1)] search_result_ok [of seeds "graph_of_inputs spot i" _ _ omni "pi_options i"]
    by (intro write_back_ok) (auto simp: seeds_ok_def)
  moreover have "map_of (st_prices (write_back omni ?r st1)) a = map_of (st_prices st) a" if "map_has (st_prices st) a" for a
    using that l(4) write_back_keeps [of st1 a] by (auto simp: map_has_iff)
  ultimately show ?thesis using l by (auto simp: computeLpNavPrices_def)
qed

text \<open>The stages of a successful run, for the properties below.\<close>

lemma resolve_stages:
  assumes "inputs_ok i"
  obtains prices seeds st1 st2 st3 st4 r where
    "anchored_prices spot i = Some prices" "price_map_ok prices"
    "st1 = write_back (map_keys (st_prices (seeded_state i prices)))
        (resolveGraphPricesByWeightedMedian seeds (map_keys (st_prices (seeded_state i prices)))
           (graph_of_inputs spot i) (pi_options i) MAX_HOPS) (seeded_state i prices)"
    "st2 = canonicalize_all (pi_atokenEquivalences i) (lpEquivalences (pi_options i)) st1"
    "\<forall>a. map_has (st_prices st2) a \<longrightarrow> map_of (st_prices st3) a = map_of (st_prices st2) a"
    "st4 = canonicalizeLpAliasPairs (lpEquivalences (pi_options i)) st3" "state_ok st4"
    "resolvePrices spot i = Some r" "res_prices r = st_prices st4" "res_hopCounts r = st_hopCounts st4"
    "res_unpricedConnected r = collectUnpricedConnectedAssets (graph_of_inputs spot i) (st_prices st4)"
proof -
  obtain prices where p: "anchored_prices spot i = Some prices" "price_map_ok prices"
    using anchored_prices_ok [OF assms] by metis
  let ?st = "seeded_state i prices"
  let ?omni = "map_keys (st_prices ?st)"
  have st: "state_ok ?st" by (rule seeded_state_ok [OF p(2)])
  obtain seeds where seeds: "seeds_of_prices (st_prices ?st) [] = Some seeds" "map_wf seeds" "\<forall>(a, v) \<in> set seeds. 0 \<le> v"
    using seeds_total [of "st_prices ?st" "[]"] st by (auto simp: state_ok_def price_map_ok_def)
  define st1 where "st1 = write_back ?omni
    (resolveGraphPricesByWeightedMedian seeds ?omni (graph_of_inputs spot i) (pi_options i) MAX_HOPS) ?st"
  have "state_ok st1" unfolding st1_def
    using st seeds graph_nonneg [OF assms] search_result_ok [of seeds "graph_of_inputs spot i" _ _ ?omni "pi_options i"]
    by (intro write_back_ok) auto
  define st2 where "st2 = canonicalize_all (pi_atokenEquivalences i) (lpEquivalences (pi_options i)) st1"
  have "state_ok st2" unfolding st2_def using \<open>state_ok st1\<close> by (rule canonicalize_ok)
  then obtain st3 where st3: "computeLpNavPrices spot (pi_stableswapPools i) (pi_totalIssuances i) (pi_decimals i)
      (graph_of_inputs spot i) ?omni (pi_options i) st2 = Some st3" "state_ok st3"
    "\<forall>a. map_has (st_prices st2) a \<longrightarrow> map_of (st_prices st3) a = map_of (st_prices st2) a"
    using compute_lp_ok [OF assms] by metis
  define st4 where "st4 = canonicalizeLpAliasPairs (lpEquivalences (pi_options i)) st3"
  have "state_ok st4" unfolding st4_def using st3(2) by (rule canonicalize_ok)
  moreover have "resolvePrices spot i = Some \<lparr>res_prices = st_prices st4, res_hopCounts = st_hopCounts st4,
      res_unpricedConnected = collectUnpricedConnectedAssets (graph_of_inputs spot i) (st_prices st4)\<rparr>"
    using p(1) seeds(1) st3(1)
    unfolding resolvePrices_def Let_def st1_def [symmetric] st2_def [symmetric] by (simp add: st1_def st2_def st4_def)
  ultimately show thesis
    by (rule that [OF p st1_def st2_def st3(3) st4_def]) simp_all
qed

section \<open>Properties\<close>

text \<open>
  C1: On chain state whose reserves and issuances are not negative (and whose pools list a reserve per asset)
  \<open>resolvePrices\<close> returns a result, whatever the stableswap package answers: no price text fails to parse, and no
  division by an Omnipool reserve or a share issuance is by zero (each would be \<^const>\<open>None\<close>). The edges of the pool graph
  turn non-negative prices into non-negative prices and every returned price is a printed non-negative amount, which could not be
  shown of a quotient by zero, undefined in the model. Prices and hop counts are given for the same assets, and
  no hop count exceeds three pools.
\<close>

theorem resolvePrices_total:
  assumes "inputs_ok i"
  shows "\<exists>r. resolvePrices spot i = Some r \<and> map_wf (res_prices r)
    \<and> (\<forall>a p. map_of (res_prices r) a = Some p \<longrightarrow> price_text p)
    \<and> set (map_keys (res_prices r)) = set (map_keys (res_hopCounts r))
    \<and> (\<forall>a h. map_of (res_hopCounts r) a = Some h \<longrightarrow> 0 \<le> h \<and> h \<le> 3)
    \<and> all_edges nonneg_edge (graph_of_inputs spot i)"
proof -
  obtain st r where r: "resolvePrices spot i = Some r" "res_prices r = st_prices st" "res_hopCounts r = st_hopCounts st"
    and st: "state_ok st" using resolve_stages [OF assms] by metis
  show ?thesis
  proof (intro exI conjI allI impI)
    show "map_wf (res_prices r)" "set (map_keys (res_prices r)) = set (map_keys (res_hopCounts r))"
      using st r by (simp_all add: state_ok_def price_map_ok_def)
    show "price_text p" if "map_of (res_prices r) a = Some p" for a p
      using state_ok_get(1) [OF st] that r by simp
    show "0 \<le> h" "h \<le> 3" if "map_of (res_hopCounts r) a = Some h" for a h
      using state_ok_get(2) [OF st] that r by (simp_all add: MAX_HOPS_def)
  qed (rule r(1) graph_nonneg [OF assms])+
qed

definition sample_inputs :: price_inputs where
  "sample_inputs = \<lparr>pi_omnipoolAssets =
       [(5, \<lparr>hubReserve = 2 * 10 ^ 12, reserve = 10 ^ 10, shares = 0, protocolShares = 0, cap = 0, tradable = 0\<rparr>)],
     pi_xykPools = [\<lparr>assetA = 5, assetB = 7, reserveA = 10 ^ 10, reserveB = 2 * 10 ^ 10\<rparr>],
     pi_stableswapPools = [], pi_decimals = [(5, 10), (7, 10)], pi_h2oAssetId = 1,
     pi_omnipoolBridgeIds = [], pi_atokenEquivalences = [], pi_totalIssuances = [],
     pi_usdReferenceBaskets = [[5]],
     pi_options = \<lparr>minGraphPathLiquidityUsd = None, maxObservationsPerAsset = None, lpEquivalences = [],
       opt_uniswapV3Pools = []\<rparr>\<rparr>"

lemma sample_inputs_ok: "inputs_ok sample_inputs"
  by (simp add: inputs_ok_def sample_inputs_def)

theorem resolvePrices_total_witness:
  "\<exists>r. resolvePrices (\<lambda>_ _ _ _ _ _ _ _. None) sample_inputs = Some r \<and> map_wf (res_prices r)"
  using resolvePrices_total [OF sample_inputs_ok] by blast

lemma map_wf_graph: "map_wf (graph_of_inputs spot i)"
proof -
  have 1: "map_wf (gs_graph (market_edges spot xyk ss d iss uni))" for xyk ss d iss uni
    unfolding market_edges_def Let_def
    by (intro foldl_inv [where P = "\<lambda>s. map_wf (gs_graph s)"])
      (auto simp: addConstantProductEdges_def addStableswapEdges_def addLpEdges_def Let_def split: option.split)
  have 2: "map_wf (foldl (addAtokenEdges l) g eqs)" if "map_wf g" for l g eqs
    using that by (intro foldl_inv [where P = map_wf]) (auto simp: addAtokenEdges_def split: prod.split)
  have 3: "map fst (map (\<lambda>(a, es). (a, sort_cmp cmp_edge es)) g) = map fst g" for g
    by (induction g) auto
  show ?thesis unfolding graph_of_inputs_def buildGraph_def Let_def 3 by (intro 2 1)
qed

text \<open>the result reports exactly what it could not price: \<open>unpricedConnected\<close> lists, in ascending
  order and without repetition, the assets that have an edge in the pool graph and no price in
  the returned map.
\<close>

lemma unpriced_connected_exact:
  assumes "resolvePrices spot i = Some r"
  shows "set (res_unpricedConnected r) = {a \<in> set (map_keys (graph_of_inputs spot i)). \<not> map_has (res_prices r) a}
    \<and> sorted_wrt (<) (res_unpricedConnected r)"
proof -
  have r: "res_unpricedConnected r = collectUnpricedConnectedAssets (graph_of_inputs spot i) (res_prices r)"
    using assms by (auto simp: resolvePrices_def Let_def split: option.splits)
  let ?xs = "filter (\<lambda>a. \<not> map_has (res_prices r) a) (map_keys (graph_of_inputs spot i))"
  have "distinct ?xs" using map_wf_graph by (rule distinct_filter)
  then have d: "distinct (sort_cmp (cmp_by id) ?xs)"
    using mset_eq_imp_distinct_iff [OF mset_sort_cmp [of "cmp_by id" ?xs]] by blast
  have "sorted_wrt (\<lambda>x y. cmp_by id x y \<le> 0) (sort_cmp (cmp_by id) ?xs)" by (rule cmp_by.sorted_sort)
  then have "sorted_wrt (\<le>) (sort_cmp (cmp_by id) ?xs)" by (simp add: cmp_by_def)
  then have "sorted_wrt (<) (sort_cmp (cmp_by id) ?xs)" using d strict_sorted_iff by blast
  then show ?thesis unfolding r collectUnpricedConnectedAssets_def by auto
qed

lemma canonicalize_pair_other:
  "a \<noteq> x \<Longrightarrow> a \<noteq> y \<Longrightarrow> map_of (st_prices (canonicalize_pair x y st)) a = map_of (st_prices st) a"
  by (auto simp: canonicalize_pair_def Let_def split: option.split)

lemma canonicalize_other:
  assumes "\<forall>(x, y) \<in> set eqs. a \<noteq> x \<and> a \<noteq> y" "\<forall>(x, y) \<in> set lps. a \<noteq> x \<and> a \<noteq> y"
  shows "map_of (st_prices (canonicalizeLpAliasPairs lps st)) a = map_of (st_prices st) a"
    and "map_of (st_prices (canonicalize_all eqs lps st)) a = map_of (st_prices st) a"
proof -
  show lp: "map_of (st_prices (canonicalizeLpAliasPairs lps s)) a = map_of (st_prices s) a" for s
    unfolding canonicalizeLpAliasPairs_def
    by (rule foldl_inv [where P = "\<lambda>u. map_of (st_prices u) a = map_of (st_prices s) a"])
      (use assms(2) in \<open>auto simp: canonicalize_pair_other\<close>)
  have "map_of (st_prices (canonicalizeExactWrapperPairs eqs st)) a = map_of (st_prices st) a"
    unfolding canonicalizeExactWrapperPairs_def
    by (rule foldl_inv [where P = "\<lambda>u. map_of (st_prices u) a = map_of (st_prices st) a"])
      (use assms(1) in \<open>auto simp: canonicalize_pair_other\<close>)
  with lp show "map_of (st_prices (canonicalize_all eqs lps st)) a = map_of (st_prices st) a"
    by (simp add: canonicalize_all_def)
qed

lemma seeded_state_other:
  assumes "\<forall>(x, y) \<in> set (pi_atokenEquivalences i). a \<noteq> x \<and> a \<noteq> y"
    and "\<forall>(x, y) \<in> set (lpEquivalences (pi_options i)). a \<noteq> x \<and> a \<noteq> y"
  shows "map_of (st_prices (seeded_state i prices)) a = map_of prices a"
proof -
  have "st_prices (foldl (\<lambda>s a. put_hop a 0 s) s ks) = st_prices s" for s ks
    by (induction ks arbitrary: s) auto
  then show ?thesis by (simp add: seeded_state_def Let_def canonicalize_other(2) [OF assms])
qed

text \<open>
  C2: prices known before the pool graph is searched are authoritative. The price an asset has
  from the dollar references, the bridges or the Omnipool is the price the engine returns for it,
  unless the configuration ties the asset to another one.
\<close>

theorem anchored_prices_authoritative:
  assumes "inputs_ok i" and "anchored_prices spot i = Some prices" and "map_of prices a = Some p"
    and "\<forall>(x, y) \<in> set (pi_atokenEquivalences i). a \<noteq> x \<and> a \<noteq> y"
    and "\<forall>(x, y) \<in> set (lpEquivalences (pi_options i)). a \<noteq> x \<and> a \<noteq> y"
  shows "\<exists>r. resolvePrices spot i = Some r \<and> map_of (res_prices r) a = Some p"
proof (rule resolve_stages [OF assms(1), of spot])
  fix prices' seeds st1 st2 st3 st4 r
  assume p: "anchored_prices spot i = Some prices'"
    and st1: "st1 = write_back (map_keys (st_prices (seeded_state i prices')))
        (resolveGraphPricesByWeightedMedian seeds (map_keys (st_prices (seeded_state i prices')))
           (graph_of_inputs spot i) (pi_options i) MAX_HOPS) (seeded_state i prices')"
    and st2: "st2 = canonicalize_all (pi_atokenEquivalences i) (lpEquivalences (pi_options i)) st1"
    and st3: "\<forall>a. map_has (st_prices st2) a \<longrightarrow> map_of (st_prices st3) a = map_of (st_prices st2) a"
    and st4: "st4 = canonicalizeLpAliasPairs (lpEquivalences (pi_options i)) st3"
    and r: "resolvePrices spot i = Some r" "res_prices r = st_prices st4"
  have "map_of (st_prices (seeded_state i prices')) a = Some p"
    using p assms(2,3) seeded_state_other [OF assms(4,5)] by simp
  then have "map_of (st_prices st1) a = Some p" unfolding st1 by (simp add: write_back_keeps map_has_iff)
  then have "map_of (st_prices st2) a = Some p" unfolding st2 by (simp add: canonicalize_other(2) [OF assms(4,5)])
  then have "map_of (st_prices st3) a = Some p" using st3 by (simp add: map_has_iff)
  then have "map_of (st_prices st4) a = Some p" unfolding st4 by (simp add: canonicalize_other(1) [OF assms(4,5)])
  with r show ?thesis by simp
qed

theorem anchored_prices_authoritative_witness:
  "\<exists>r. resolvePrices (\<lambda>_ _ _ _ _ _ _ _. None) (sample_inputs\<lparr>pi_omnipoolAssets := []\<rparr>) = Some r
     \<and> map_of (res_prices r) 5 = Some ''1.000000000000''"
proof -
  let ?spot = "\<lambda>_ _ _ _ _ _ _ _. None"
  let ?i = "sample_inputs\<lparr>pi_omnipoolAssets := []\<rparr>"
  have ok: "inputs_ok ?i" by (simp add: inputs_ok_def sample_inputs_def)
  have p: "anchored_prices ?spot ?i = Some [(5, ''1.000000000000'')]"
    by (simp add: anchored_prices_def sample_inputs_def selectUsdAnchor_def findBestOmnipoolBridge_def
        bridge_step_def bridged_h2o_price_def candidate_bridge_ids_def findStableLpOmnipoolBridgeIds_def
        weightedMedian_def buildUsdReferencePrices_def put_prices_def js_unique_def set_add_def Let_def)
  show ?thesis
    by (rule anchored_prices_authoritative [OF ok p]) (simp_all add: sample_inputs_def)
qed

end
