(* ===== verification/Evm_Hex.thy ===== *)
theory Evm_Hex
  imports Js_Strings "HOL-Library.Word"
begin

text \<open>
  EVM values in the block stream: decoded JSON arguments, hexadecimal addresses and 32-byte ABI
  words (\<^verbatim>\<open>src/price/uniswapV3.ts\<close>, helpers), the account form of an EVM address and the
  identity of a call (\<^verbatim>\<open>src/raw/json.ts\<close>), and the asset precompile addresses
  (\<^verbatim>\<open>src/registry/atokenReserves.ts\<close>).

  A decoded argument is a JSON value; a missing property is \<open>JUndefined\<close>, a number (whole in
  chain data) \<open>JNum\<close> and a \<open>bigint\<close> of the typed decoders \<open>JBig\<close>.
\<close>

section \<open>JSON values\<close>

datatype json =
    JUndefined | JNull | JBool bool | JNum int | JBig int | JStr string | JArr "json list"
  | JObj "(string \<times> json) list"

definition get_prop :: "json \<Rightarrow> string \<Rightarrow> json" where
  "get_prop v key =
     (case v of JObj ps \<Rightarrow> (case map_of ps key of None \<Rightarrow> JUndefined | Some x \<Rightarrow> x) | _ \<Rightarrow> JUndefined)"

definition is_nullish :: "json \<Rightarrow> bool" where
  "is_nullish v \<longleftrightarrow> v = JUndefined \<or> v = JNull"

definition js_typeof_object :: "json \<Rightarrow> bool" where
  "js_typeof_object v = (case v of JObj _ \<Rightarrow> True | JArr _ \<Rightarrow> True | JNull \<Rightarrow> True | _ \<Rightarrow> False)"

section \<open>Hexadecimal text\<close>

definition strip_0x :: "string \<Rightarrow> string" where
  "strip_0x s = (if starts_with ''0x'' s then drop 2 s else s)"

definition hexBody :: "json \<Rightarrow> string option" where
  "hexBody v =
     (case v of JStr s \<Rightarrow> let body = strip_0x s in
        if list_all is_hex_digit body then Some (to_lower body) else None
      | _ \<Rightarrow> None)"

definition normalizeEvmAddress :: "json \<Rightarrow> string option" where
  "normalizeEvmAddress v =
     (case hexBody v of None \<Rightarrow> None
      | Some body \<Rightarrow> if length body = 40 then Some (''0x'' @ body) else None)"

definition is_lower_hex :: "char \<Rightarrow> bool" where
  "is_lower_hex c \<longleftrightarrow> is_hex_digit c \<and> lower_char c = c"

definition evmAccountForm :: "json \<Rightarrow> string option" where
  "evmAccountForm v =
     (case v of JStr s \<Rightarrow>
        let h = strip_0x (to_lower s) in
        if length h = 40 \<and> list_all is_lower_hex h
        then Some (''0x45544800'' @ h @ ''0000000000000000'') else None
      | _ \<Rightarrow> None)"

text \<open>\<open>s.trim()\<close> on ASCII text.\<close>

definition is_space :: "char \<Rightarrow> bool" where
  "is_space c = (let n = of_char c :: nat in n = 32 \<or> (9 \<le> n \<and> n \<le> 13))"

definition js_trim :: "string \<Rightarrow> string" where
  "js_trim s = rev (dropWhile is_space (rev (dropWhile is_space s)))"

definition underlyingAssetIdFromReserveAddress :: "string \<Rightarrow> int option" where
  "underlyingAssetIdFromReserveAddress assetAddress =
     (let hex = to_lower (js_trim assetAddress) in
      if take 34 hex = ''0x'' @ replicate 31 (CHR ''0'') @ ''1'' \<and> length hex = 42
         \<and> list_all is_lower_hex (drop 34 hex)
      then map_option int (digits_value 16 0 (take_last 8 hex)) else None)"

section \<open>The identity of a call\<close>

definition callAddressToString :: "int list option \<Rightarrow> string option" where
  "callAddressToString address =
     (case address of None \<Rightarrow> None
      | Some a \<Rightarrow> Some (if a = [] then ''root'' else join_with ''.'' (map int_to_string a)))"

record call_identity =
  call_address :: "int list option"
  call_extrinsicIndex :: "int option"
  call_id :: string

definition callSourceIndex :: "call_identity \<Rightarrow> string" where
  "callSourceIndex c =
     (case callAddressToString (call_address c) of
        None \<Rightarrow> call_id c
      | Some a \<Rightarrow> (case call_extrinsicIndex c of None \<Rightarrow> ''none'' | Some i \<Rightarrow> int_to_string i)
                  @ '':'' @ a)"

section \<open>ABI words\<close>

text \<open>
  A word is 32 bytes, big-endian, at hexadecimal offset \<open>64 * i\<close>. The outer \<^const>\<open>None\<close> is the
  \<open>SyntaxError\<close> of \<open>BigInt\<close> on text that is not hexadecimal, the inner one a missing word.
\<close>

definition abiWord :: "string \<Rightarrow> nat \<Rightarrow> int option option" where
  "abiWord data index =
     (let body = strip_0x data; start = index * 64 in
      if length body < start + 64 then Some None
      else map_option (\<lambda>v. Some (int v)) (digits_value 16 0 (take 64 (drop start body))))"

definition signedWord :: "string \<Rightarrow> nat \<Rightarrow> int option option" where
  "signedWord data index =
     map_option (map_option (\<lambda>value. if value \<ge> 2 ^ 255 then value - 2 ^ 256 else value)) (abiWord data index)"

definition addressFromText :: "string \<Rightarrow> string" where
  "addressFromText word = ''0x'' @ to_lower (drop 24 (pad_start 64 (CHR ''0'') (strip_0x word)))"

definition addressFromBigint :: "int \<Rightarrow> string" where
  "addressFromBigint word = ''0x'' @ to_lower (drop 24 (pad_start 64 (CHR ''0'') (nat_to_base 16 (nat word))))"

definition int24 :: "int \<Rightarrow> int" where
  "int24 value = (let low = take_bit 24 value in if low \<ge> 2 ^ 23 then low - 2 ^ 24 else low)"

definition topicWord :: "string list \<Rightarrow> nat \<Rightarrow> int option option" where
  "topicWord topics index =
     (if index < length topics
      then map_option (\<lambda>v. Some (int v)) (digits_value 16 0 (strip_0x (topics ! index)))
      else Some None)"

lemma strip_0x_prefix [simp]: "strip_0x (CHR ''0'' # CHR ''x'' # s) = s"
  by (simp add: strip_0x_def starts_with_def)

lemma int24_range: "- (2 ^ 23) \<le> int24 v \<and> int24 v < 2 ^ 23"
proof -
  have "0 \<le> l \<Longrightarrow> l < 2 ^ 24 \<Longrightarrow>
      - (2 ^ 23) \<le> (if l \<ge> 2 ^ 23 then l - 2 ^ 24 else l) \<and> (if l \<ge> 2 ^ 23 then l - 2 ^ 24 else l) < 2 ^ 23"
    for l :: int by simp
  from this [OF take_bit_nonnegative [of 24 v] take_bit_int_less_exp [of 24 v]] show ?thesis
    by (simp only: int24_def Let_def)
qed

lemma mod_signed: "0 < m \<Longrightarrow> - m \<le> v \<Longrightarrow> v < m \<Longrightarrow> v mod m = (if 0 \<le> v then v else v + (m :: int))"
  using mod_add_self2 [of v m] mod_pos_pos_trivial [of "v + m" m] by auto

lemma int24_small: "- (2 ^ 23) \<le> v \<Longrightarrow> v < 2 ^ 23 \<Longrightarrow> int24 (v mod 2 ^ 256) = v"
proof -
  assume v: "- (2 ^ 23) \<le> v" "v < (2 :: int) ^ 23"
  have "take_bit 24 (v mod 2 ^ 256) = v mod 2 ^ 24"
    by (simp add: take_bit_eq_mod mod_mod_cancel)
  moreover have "v mod 2 ^ 24 = (if 0 \<le> v then v else v + 2 ^ 24)"
    using v by (intro mod_signed) auto
  ultimately show ?thesis using v by (simp add: int24_def)
qed

text \<open>Writing a word: the value modulo \<open>2\<^sup>2\<^sup>5\<^sup>6\<close>, 64 hexadecimal digits.\<close>

definition abi_encode :: "int \<Rightarrow> string" where
  "abi_encode v = pad_start 64 (CHR ''0'') (nat_to_base 16 (nat (v mod 2 ^ 256)))"

lemma length_nat_to_base: "1 < b \<Longrightarrow> n < b ^ k \<Longrightarrow> 0 < k \<Longrightarrow> length (nat_to_base b n) \<le> k"
proof (induction k arbitrary: n)
  case (Suc k)
  show ?case
  proof (cases "n < b \<or> k = 0")
    case True
    with Suc.prems show ?thesis by (subst nat_to_base.simps) auto
  next
    case False
    have "n div b < b ^ k" using Suc.prems by (simp add: less_mult_imp_div_less mult.commute)
    with False Suc.IH [of "n div b"] Suc.prems(1) show ?thesis
      by (subst nat_to_base.simps) simp
  qed
qed simp

lemma length_abi_encode [simp]: "length (abi_encode v) = 64"
proof -
  have "nat (v mod 2 ^ 256) < 16 ^ 64" by (simp add: nat_less_iff)
  from length_nat_to_base [OF _ this] show ?thesis by (simp add: abi_encode_def)
qed

lemma digits_abi_encode: "digits_value 16 0 (abi_encode v) = Some (nat (v mod 2 ^ 256))"
  by (simp add: abi_encode_def pad_start_def digits_value_append digits_value_nat_to_base)

lemma abiWord_encode:
  assumes "i < length vs"
  shows "abiWord (''0x'' @ concat (map abi_encode vs)) i = Some (Some (vs ! i mod 2 ^ 256))"
proof -
  have len: "length (concat (map abi_encode ws)) = 64 * length ws" for ws
    by (induction ws) auto
  have "take 64 (drop (i * 64) (concat (map abi_encode vs))) = abi_encode (vs ! i)"
    using assms
  proof (induction vs arbitrary: i)
    case (Cons w ws)
    then show ?case by (cases i) (auto simp: algebra_simps)
  qed simp
  moreover have "i * 64 + 64 \<le> length vs * 64" using assms by linarith
  ultimately show ?thesis using assms
    by (simp add: abiWord_def Let_def len digits_abi_encode mult.commute)
qed

lemma signedWord_encode:
  assumes "i < length vs" and "- (2 ^ 255) \<le> vs ! i" and "vs ! i < 2 ^ 255"
  shows "signedWord (''0x'' @ concat (map abi_encode vs)) i = Some (Some (vs ! i))"
proof -
  have "vs ! i mod 2 ^ 256 = (if 0 \<le> vs ! i then vs ! i else vs ! i + 2 ^ 256)"
    using assms(2,3) by (intro mod_signed) auto
  then show ?thesis using abiWord_encode [OF assms(1)] assms(2,3) by (simp add: signedWord_def)
qed

text \<open>The signed reading of a word is its value as a 256-bit two's complement machine word.\<close>

lemma signedWord_sint:
  assumes "abiWord data i = Some (Some v)"
  shows "signedWord data i = Some (Some (sint (word_of_int v :: 256 word)))"
proof -
  have b: "digits_value 16 acc s = Some n \<Longrightarrow> n < (acc + 1) * 16 ^ length s" for acc s n
  proof (induction s arbitrary: acc)
    case (Cons c cs)
    then obtain d where d: "d < 16" "digits_value 16 (16 * acc + d) cs = Some n"
      by (auto split: option.splits if_splits)
    from Cons.IH [OF d(2)] have "n < (16 * acc + d + 1) * 16 ^ length cs" .
    also have "\<dots> \<le> (16 * acc + 16) * 16 ^ length cs" using d(1) by (intro mult_right_mono) auto
    finally show ?case by (simp add: algebra_simps)
  qed simp
  have "0 \<le> v \<and> v < 2 ^ 256"
    using assms b [of 0] by (auto simp: abiWord_def Let_def split: if_splits) fastforce
  then have "(v + 2 ^ 255) mod 2 ^ 256 - 2 ^ 255 = (if v \<ge> 2 ^ 255 then v - 2 ^ 256 else v)"
    using mod_pos_pos_trivial [of "v - 2 ^ 255" "2 ^ 256"] mod_add_self2 [of "v - 2 ^ 255" "2 ^ 256"]
      mod_pos_pos_trivial [of "v + 2 ^ 255" "2 ^ 256"] by (auto simp: algebra_simps)
  moreover have "sint (word_of_int v :: 256 word) = signed_take_bit 255 v" by (simp add: signed_of_int)
  ultimately have "sint (word_of_int v :: 256 word) = (if v \<ge> 2 ^ 255 then v - 2 ^ 256 else v)"
    by (simp add: signed_take_bit_eq_take_bit_shift take_bit_eq_mod)
  with assms show ?thesis by (simp add: signedWord_def)
qed

end
