(* ===== verification/Uniswap_V3.thy ===== *)
theory Uniswap_V3
  imports Evm_Hex Price_Types
begin

text \<open>
  Concentrated-liquidity pools (\<^verbatim>\<open>src/price/uniswapV3.ts\<close>): the decoder of the five pool events,
  the state a pool folds them into, the tracker of all pools, its edges for the price graph, the
  trade a swap log stands for, and the reload from the indexed tables after a restart.

  A \<open>bigint\<close> is \<^typ>\<open>int\<close>. The fee, a \<open>uint24\<close> topic, is read as a number without rounding. The
  decoder and the reload can throw \<open>SyntaxError\<close> (\<^const>\<open>None\<close>) on text \<open>BigInt\<close> rejects. The two
  ClickHouse tables the reload reads are lists of rows, and its two queries are definitions over them.
\<close>

section \<open>Logs and events\<close>

definition topic_poolCreated :: string where
  "topic_poolCreated = ''0x783cca1c0412dd0d695e784568c96da2e9c22ff989357a2e8b1d9b2b4e6b7118''"

definition topic_initialize :: string where
  "topic_initialize = ''0x98636036cb66a9c19a37435efc1e90142190214e8abeb821bdba3f2990dd4c95''"

definition topic_swap :: string where
  "topic_swap = ''0xc42079f94a6350d7e6235f29174924f928cc2ac818eb64fed8004e115fbcca67''"

definition topic_mint :: string where
  "topic_mint = ''0x7a53080ba414158be7ec69b987b5fb7d07dee101fe85488f0853ae16239d0bde''"

definition topic_burn :: string where
  "topic_burn = ''0x0c396cd989a39f4459b5fa1aed6a9a8dcdbc45908acfd67e028cd568da98982c''"

definition Q96 :: int where
  "Q96 = 2 ^ 96"

record evm_log =
  log_address :: string
  log_topics :: "string list"
  log_data :: string

record uniswap_v3_pool =
  v3_address :: string
  v3_token0 :: string
  v3_token1 :: string
  v3_fee :: int
  v3_tickSpacing :: int

record uniswap_v3_pool_state =
  sqrtPriceX96 :: int
  v3_tick :: int
  v3_liquidity :: int

text \<open>The events, with the source's fields in the source's order.\<close>

datatype uniswap_v3_log_event =
    PoolCreated string uniswap_v3_pool
  | Initialize (ev_pool: string) int int
  | Swap (ev_pool: string) string string int int int int int
  | Mint (ev_pool: string) string int int int int int
  | Burn (ev_pool: string) string int int int int int

record uniswap_v3_pool_tokens =
  token0AssetId :: int
  token1AssetId :: int

fun topics_of :: "json list \<Rightarrow> string list option" where
  "topics_of [] = Some []"
| "topics_of (topic # rest) =
     (case hexBody topic of None \<Rightarrow> None
      | Some body \<Rightarrow> if length body \<noteq> 64 then None
          else map_option (\<lambda>ts. (''0x'' @ body) # ts) (topics_of rest))"

definition evmLogOf :: "json \<Rightarrow> evm_log option" where
  "evmLogOf args =
     (let log = get_prop args ''log'' in
      if is_nullish log \<or> \<not> js_typeof_object log then None
      else (case (normalizeEvmAddress (get_prop log ''address''), hexBody (get_prop log ''data''),
                  get_prop log ''topics'') of
              (Some address, Some data, JArr topics) \<Rightarrow>
                map_option (\<lambda>ts. \<lparr>log_address = address, log_topics = ts, log_data = ''0x'' @ data\<rparr>)
                  (topics_of topics)
            | _ \<Rightarrow> None))"

definition decodeUniswapV3Log :: "evm_log \<Rightarrow> uniswap_v3_log_event option option" where
  "decodeUniswapV3Log log =
     (let topics = log_topics log; data = log_data log in
      if topics = [] then Some None
      else if topics ! 0 = topic_poolCreated then
        (if length topics \<noteq> 4 then Some None
         else do {
           fee \<leftarrow> topicWord topics 3;
           tickSpacing \<leftarrow> abiWord data 0;
           pool \<leftarrow> abiWord data 1;
           Some (case (fee, tickSpacing, pool) of
             (Some fee, Some tickSpacing, Some pool) \<Rightarrow>
               Some (PoolCreated (log_address log)
                 \<lparr>v3_address = addressFromBigint pool, v3_token0 = addressFromText (topics ! 1),
                  v3_token1 = addressFromText (topics ! 2), v3_fee = fee,
                  v3_tickSpacing = int24 tickSpacing\<rparr>)
           | _ \<Rightarrow> None)
         })
      else if topics ! 0 = topic_initialize then
        do {
          sqrtPrice \<leftarrow> abiWord data 0;
          tick \<leftarrow> abiWord data 1;
          Some (case (sqrtPrice, tick) of
            (Some sqrtPrice, Some tick) \<Rightarrow> Some (Initialize (log_address log) sqrtPrice (int24 tick))
          | _ \<Rightarrow> None)
        }
      else if topics ! 0 = topic_swap then
        (if length topics \<noteq> 3 then Some None
         else do {
           amount0 \<leftarrow> signedWord data 0;
           amount1 \<leftarrow> signedWord data 1;
           sqrtPrice \<leftarrow> abiWord data 2;
           liquidity \<leftarrow> abiWord data 3;
           tick \<leftarrow> abiWord data 4;
           Some (case (amount0, amount1, sqrtPrice, liquidity, tick) of
             (Some amount0, Some amount1, Some sqrtPrice, Some liquidity, Some tick) \<Rightarrow>
               Some (Swap (log_address log) (addressFromText (topics ! 1)) (addressFromText (topics ! 2))
                 amount0 amount1 sqrtPrice liquidity (int24 tick))
           | _ \<Rightarrow> None)
         })
      else if topics ! 0 = topic_mint \<or> topics ! 0 = topic_burn then
        (if length topics \<noteq> 4 then Some None
         else do {
           tickLower \<leftarrow> topicWord topics 2;
           tickUpper \<leftarrow> topicWord topics 3;
           let offset = (if topics ! 0 = topic_mint then 1 else 0);
           amount \<leftarrow> abiWord data offset;
           amount0 \<leftarrow> abiWord data (offset + 1);
           amount1 \<leftarrow> abiWord data (offset + 2);
           Some (case (tickLower, tickUpper, amount, amount0, amount1) of
             (Some tickLower, Some tickUpper, Some amount, Some amount0, Some amount1) \<Rightarrow>
               Some ((if topics ! 0 = topic_mint then Mint else Burn) (log_address log)
                 (addressFromText (topics ! 1)) (int24 tickLower) (int24 tickUpper) amount amount0 amount1)
           | _ \<Rightarrow> None)
         })
      else Some None)"

section \<open>The state of a pool\<close>

definition tickInRange :: "int \<Rightarrow> int \<Rightarrow> int \<Rightarrow> bool" where
  "tickInRange tick lower upper \<longleftrightarrow> lower \<le> tick \<and> tick < upper"

definition virtualReserves :: "int \<Rightarrow> int \<Rightarrow> (int \<times> int) option" where
  "virtualReserves sqrtPrice liquidity =
     (if sqrtPrice \<le> 0 \<or> liquidity \<le> 0 then None
      else
        (let reserve0 = bdiv (liquidity * Q96) sqrtPrice; reserve1 = bdiv (liquidity * sqrtPrice) Q96 in
         if reserve0 = 0 \<or> reserve1 = 0 then None else Some (reserve0, reserve1)))"

definition emptyPoolState :: uniswap_v3_pool_state where
  "emptyPoolState = \<lparr>sqrtPriceX96 = 0, v3_tick = 0, v3_liquidity = 0\<rparr>"

fun applyPoolEvent :: "uniswap_v3_pool_state \<Rightarrow> uniswap_v3_log_event \<Rightarrow> uniswap_v3_pool_state \<times> bool" where
  "applyPoolEvent s (Initialize _ sqrtPrice tick) =
     (s\<lparr>sqrtPriceX96 := sqrtPrice, v3_tick := tick\<rparr>, True)"
| "applyPoolEvent s (Swap _ _ _ _ _ sqrtPrice liquidity tick) =
     (s\<lparr>sqrtPriceX96 := sqrtPrice, v3_tick := tick, v3_liquidity := liquidity\<rparr>, True)"
| "applyPoolEvent s (Mint _ _ tickLower tickUpper amount _ _) =
     (if amount = 0 \<or> \<not> tickInRange (v3_tick s) tickLower tickUpper then (s, False)
      else (s\<lparr>v3_liquidity := v3_liquidity s + amount\<rparr>, True))"
| "applyPoolEvent s (Burn _ _ tickLower tickUpper amount _ _) =
     (if amount = 0 \<or> \<not> tickInRange (v3_tick s) tickLower tickUpper then (s, False)
      else (s\<lparr>v3_liquidity := if v3_liquidity s > amount then v3_liquidity s - amount else 0\<rparr>, True))"
| "applyPoolEvent s (PoolCreated _ _) = (s, False)"

section \<open>Tokens and trades\<close>

definition invertErc20Contracts :: "(int, string) jsmap \<Rightarrow> (string, int) jsmap" where
  "invertErc20Contracts contracts =
     foldl (\<lambda>m (assetId, contract).
        case normalizeEvmAddress (JStr contract) of None \<Rightarrow> m | Some address \<Rightarrow> map_set address assetId m)
       [] contracts"

definition resolveEvmTokenAssetId :: "string \<Rightarrow> (string, int) jsmap \<Rightarrow> int option" where
  "resolveEvmTokenAssetId address assetsByContract =
     (case normalizeEvmAddress (JStr address) of None \<Rightarrow> None
      | Some normalized \<Rightarrow>
          (case map_of assetsByContract normalized of
             Some assetId \<Rightarrow> Some assetId
           | None \<Rightarrow> underlyingAssetIdFromReserveAddress normalized))"

record uniswap_v3_swap_trade =
  trade_account :: "string option"
  trade_inputs :: "(int \<times> int) list"
  trade_outputs :: "(int \<times> int) list"

text \<open>The argument of \<open>uniswapV3SwapTrade\<close> is a swap by its type.\<close>

definition uniswapV3SwapTrade ::
  "uniswap_v3_log_event \<Rightarrow> (string, uniswap_v3_pool_tokens) jsmap \<Rightarrow> uniswap_v3_swap_trade option" where
  "uniswapV3SwapTrade ev pools =
     (case ev of
        Swap pool sender recipient amount0 amount1 _ _ _ \<Rightarrow>
          (case map_of pools pool of None \<Rightarrow> None
           | Some tokens \<Rightarrow>
               (let legs = [(token0AssetId tokens, amount0), (token1AssetId tokens, amount1)];
                    inputs = filter (\<lambda>leg. snd leg > 0) legs;
                    outputs = map (\<lambda>leg. (fst leg, - snd leg)) (filter (\<lambda>leg. snd leg < 0) legs)
                in if length inputs \<noteq> 1 \<or> length outputs \<noteq> 1 then None
                   else Some \<lparr>trade_account = evmAccountForm (JStr recipient),
                              trade_inputs = inputs, trade_outputs = outputs\<rparr>))
      | _ \<Rightarrow> None)"

definition UNISWAP_V3_FILLER :: string where
  "UNISWAP_V3_FILLER = ''UniswapV3''"

record fill_trade =
  trade_filler :: "string option"
  trade_extrinsicIndex :: "int option"

definition routedUniswapV3Extrinsics :: "fill_trade list \<Rightarrow> int list" where
  "routedUniswapV3Extrinsics trades =
     foldl (\<lambda>routed trade.
        case trade_extrinsicIndex trade of
          Some i \<Rightarrow> if trade_filler trade = Some UNISWAP_V3_FILLER then set_add i routed else routed
        | None \<Rightarrow> routed) [] trades"

section \<open>The tracker\<close>

record tracked_pool =
  tracked :: uniswap_v3_pool
  tracked_state :: uniswap_v3_pool_state

record v3_tracker =
  v3_pools :: "(string, tracked_pool) jsmap"
  assetsByContract :: "(string, int) jsmap"

definition new_v3_tracker :: v3_tracker where
  "new_v3_tracker = \<lparr>v3_pools = [], assetsByContract = []\<rparr>"

definition setErc20Contracts :: "(int, string) jsmap \<Rightarrow> v3_tracker \<Rightarrow> v3_tracker" where
  "setErc20Contracts contracts tr = tr\<lparr>assetsByContract := invertErc20Contracts contracts\<rparr>"

definition normalized_or :: "string \<Rightarrow> string" where
  "normalized_or s = (case normalizeEvmAddress (JStr s) of None \<Rightarrow> s | Some a \<Rightarrow> a)"

definition addPool :: "uniswap_v3_pool \<Rightarrow> v3_tracker \<Rightarrow> bool \<times> v3_tracker" where
  "addPool pool tr =
     (case normalizeEvmAddress (JStr (v3_address pool)) of None \<Rightarrow> (False, tr)
      | Some address \<Rightarrow>
          if map_has (v3_pools tr) address then (False, tr)
          else (True, tr\<lparr>v3_pools := map_set address
                 \<lparr>tracked = pool\<lparr>v3_address := address, v3_token0 := normalized_or (v3_token0 pool),
                                 v3_token1 := normalized_or (v3_token1 pool)\<rparr>,
                  tracked_state = emptyPoolState\<rparr> (v3_pools tr)\<rparr>))"

definition is_swap :: "uniswap_v3_log_event \<Rightarrow> bool" where
  "is_swap ev = (case ev of Swap _ _ _ _ _ _ _ _ \<Rightarrow> True | _ \<Rightarrow> False)"

text \<open>\<open>applyEvent\<close>: whether an edge moved, whether it was a swap, and the tracker.\<close>

definition applyEvent :: "uniswap_v3_log_event \<Rightarrow> v3_tracker \<Rightarrow> (bool \<times> bool) \<times> v3_tracker" where
  "applyEvent ev tr =
     (case ev of
        PoolCreated factory pool \<Rightarrow> ((False, False), snd (addPool pool tr))
      | _ \<Rightarrow>
          (case map_of (v3_pools tr) (ev_pool ev) of None \<Rightarrow> ((False, False), tr)
           | Some tp \<Rightarrow>
               (let (s, changed) = applyPoolEvent (tracked_state tp) ev in
                ((changed, is_swap ev),
                 tr\<lparr>v3_pools := map_set (ev_pool ev) (tp\<lparr>tracked_state := s\<rparr>) (v3_pools tr)\<rparr>))))"

record block_event =
  event_name :: string
  event_args :: json

text \<open>\<open>processEvents\<close>: \<^const>\<open>None\<close> is a \<open>SyntaxError\<close> of the decoder.\<close>

fun processEvents :: "block_event list \<Rightarrow> nat \<Rightarrow> bool \<Rightarrow> v3_tracker \<Rightarrow> ((nat \<times> bool) \<times> v3_tracker) option" where
  "processEvents [] swaps changed tr = Some ((swaps, changed), tr)"
| "processEvents (e # es) swaps changed tr =
     (if event_name e \<noteq> ''EVM.Log'' then processEvents es swaps changed tr
      else
        (case evmLogOf (event_args e) of None \<Rightarrow> processEvents es swaps changed tr
         | Some log \<Rightarrow>
             (case decodeUniswapV3Log log of
                None \<Rightarrow> None
              | Some None \<Rightarrow> processEvents es swaps changed tr
              | Some (Some ev) \<Rightarrow>
                  (let ((moved, swap), tr') = applyEvent ev tr in
                   processEvents es (if swap then swaps + 1 else swaps) (changed \<or> moved) tr'))))"

definition resolveTokens :: "uniswap_v3_pool \<Rightarrow> v3_tracker \<Rightarrow> uniswap_v3_pool_tokens option" where
  "resolveTokens pool tr =
     (case (resolveEvmTokenAssetId (v3_token0 pool) (assetsByContract tr),
            resolveEvmTokenAssetId (v3_token1 pool) (assetsByContract tr)) of
        (Some a, Some b) \<Rightarrow> if a = b then None else Some \<lparr>token0AssetId = a, token1AssetId = b\<rparr>
      | _ \<Rightarrow> None)"

definition poolIndex :: "v3_tracker \<Rightarrow> (string, uniswap_v3_pool_tokens) jsmap" where
  "poolIndex tr =
     foldl (\<lambda>index (address, tp).
        case resolveTokens (tracked tp) tr of None \<Rightarrow> index | Some tokens \<Rightarrow> map_set address tokens index)
       [] (v3_pools tr)"

definition pool_edge :: "v3_tracker \<Rightarrow> string \<times> tracked_pool \<Rightarrow> uniswap_v3_pool_edge list" where
  "pool_edge tr entry =
     (let (address, tp) = entry; s = tracked_state tp in
      case (resolveTokens (tracked tp) tr, virtualReserves (sqrtPriceX96 s) (v3_liquidity s)) of
        (Some tokens, Some (reserve0, reserve1)) \<Rightarrow>
          [\<lparr>assetA = token0AssetId tokens, assetB = token1AssetId tokens,
            reserveA = reserve0, reserveB = reserve1, poolAddress = address\<rparr>]
      | _ \<Rightarrow> [])"

definition edges :: "v3_tracker \<Rightarrow> uniswap_v3_pool_edge list" where
  "edges tr = concat (map (pool_edge tr) (v3_pools tr))"

section \<open>The reload after a restart\<close>

record v3_pool_row =
  row_pool_address :: string
  row_token0 :: string
  row_token1 :: string
  row_fee :: int
  row_tick_spacing :: int
  row_pool_height :: int

record v3_event_row =
  row_contract :: string
  row_kind :: string
  row_event_name :: string
  row_tick :: int
  row_tick_lower :: int
  row_tick_upper :: int
  row_liquidity :: int
  row_sqrt_price :: int
  row_height :: int
  row_index :: int

record v3_tables =
  uniswap_v3_pools :: "v3_pool_row list"
  uniswap_v3_events :: "v3_event_row list"

text \<open>The two queries: the pools up to a height, and each pool's events from its anchor block on.\<close>

definition pool_rows_upto :: "int \<Rightarrow> v3_tables \<Rightarrow> v3_pool_row list" where
  "pool_rows_upto H db = sort_key row_pool_address (filter (\<lambda>r. row_pool_height r \<le> H) (uniswap_v3_pools db))"

definition is_anchor_row :: "int \<Rightarrow> v3_event_row \<Rightarrow> bool" where
  "is_anchor_row H r \<longleftrightarrow> row_kind r = ''pool'' \<and> row_event_name r \<in> {''Initialize'', ''Swap''} \<and> row_height r \<le> H"

definition anchor_block :: "int \<Rightarrow> v3_tables \<Rightarrow> string \<Rightarrow> int option" where
  "anchor_block H db contract =
     (let heights = map row_height
            (filter (\<lambda>r. is_anchor_row H r \<and> row_contract r = contract) (uniswap_v3_events db))
      in if heights = [] then None else Some (Max (set heights)))"

definition cmp_event_row :: "v3_event_row \<Rightarrow> v3_event_row \<Rightarrow> int" where
  "cmp_event_row = cmp_or (cmp_by row_height) (cmp_by row_index)"

definition event_rows_upto :: "int \<Rightarrow> v3_tables \<Rightarrow> v3_event_row list" where
  "event_rows_upto H db =
     sort_cmp cmp_event_row
       (filter (\<lambda>r. row_kind r = ''pool''
            \<and> row_event_name r \<in> {''Initialize'', ''Swap'', ''Mint'', ''Burn''}
            \<and> (case anchor_block H db (row_contract r) of None \<Rightarrow> False | Some b \<Rightarrow> row_height r \<ge> b)
            \<and> row_height r \<le> H)
          (uniswap_v3_events db))"

text \<open>The numbers arrive as decimal text; \<open>BigInt\<close> reads them back.\<close>

definition storedPoolEventToLogEvent :: "v3_event_row \<Rightarrow> uniswap_v3_log_event option option" where
  "storedPoolEventToLogEvent r =
     (case normalizeEvmAddress (JStr (row_contract r)) of None \<Rightarrow> Some None
      | Some pool \<Rightarrow> do {
          liquidity \<leftarrow> parse_bigint (int_to_string (row_liquidity r));
          sqrtPrice \<leftarrow> parse_bigint (int_to_string (row_sqrt_price r));
          Some (if row_event_name r = ''Initialize'' then Some (Initialize pool sqrtPrice (row_tick r))
                else if row_event_name r = ''Swap'' then
                  Some (Swap pool [] [] 0 0 sqrtPrice liquidity (row_tick r))
                else if row_event_name r = ''Mint'' then
                  Some (Mint pool [] (row_tick_lower r) (row_tick_upper r) liquidity 0 0)
                else if row_event_name r = ''Burn'' then
                  Some (Burn pool [] (row_tick_lower r) (row_tick_upper r) liquidity 0 0)
                else None)
        })"

text \<open>An error inside the loop is caught outside it: what was replayed before stays.\<close>

fun replay_rows :: "v3_event_row list \<Rightarrow> v3_tracker \<Rightarrow> v3_tracker" where
  "replay_rows [] tr = tr"
| "replay_rows (r # rs) tr =
     (case storedPoolEventToLogEvent r of
        None \<Rightarrow> tr
      | Some None \<Rightarrow> replay_rows rs tr
      | Some (Some ev) \<Rightarrow> replay_rows rs (snd (applyEvent ev tr)))"

definition add_pool_row :: "v3_tracker \<Rightarrow> v3_pool_row \<Rightarrow> v3_tracker" where
  "add_pool_row tr r =
     snd (addPool \<lparr>v3_address = row_pool_address r, v3_token0 = row_token0 r, v3_token1 = row_token1 r,
                   v3_fee = row_fee r, v3_tickSpacing = row_tick_spacing r\<rparr> tr)"

text \<open>\<open>pools_ok\<close> and \<open>events_ok\<close> tell whether the two queries answer.\<close>

definition loadFromClickHouse :: "bool \<Rightarrow> bool \<Rightarrow> int \<Rightarrow> v3_tables \<Rightarrow> v3_tracker \<Rightarrow> v3_tracker" where
  "loadFromClickHouse pools_ok events_ok H db tr =
     (if \<not> pools_ok then tr
      else
        (let tr1 = foldl add_pool_row tr (pool_rows_upto H db) in
         if pool_rows_upto H db = [] then tr1
         else if \<not> events_ok then tr1
         else replay_rows (event_rows_upto H db) tr1))"

section \<open>Reading what a contract wrote\<close>

definition address_topic :: "string \<Rightarrow> string" where
  "address_topic body = ''0x'' @ replicate 24 (CHR ''0'') @ body"

lemma addressFromText_topic:
  "length body = 40 \<Longrightarrow> addressFromText (address_topic body) = ''0x'' @ to_lower body"
  by (simp add: addressFromText_def address_topic_def pad_start_def)

text \<open>A swap log laid out as the pool contract lays it out decodes to exactly the values the contract
  emitted, signs of the amounts and of the tick included.\<close>

lemma swap_log_roundtrip:
  assumes "length from_addr = 40" and "length to_addr = 40"
    and "- (2 ^ 255) \<le> amount0" "amount0 < 2 ^ 255" and "- (2 ^ 255) \<le> amount1" "amount1 < 2 ^ 255"
    and "0 \<le> sqrtPrice" "sqrtPrice < 2 ^ 160" and "0 \<le> liquidity" "liquidity < 2 ^ 128"
    and "- (2 ^ 23) \<le> tick" "tick < 2 ^ 23"
  shows "decodeUniswapV3Log
      \<lparr>log_address = pool, log_topics = [topic_swap, address_topic from_addr, address_topic to_addr],
       log_data = ''0x'' @ concat (map abi_encode [amount0, amount1, sqrtPrice, liquidity, tick])\<rparr>
    = Some (Some (Swap pool (''0x'' @ to_lower from_addr) (''0x'' @ to_lower to_addr)
        amount0 amount1 sqrtPrice liquidity tick))"
proof -
  let ?vs = "[amount0, amount1, sqrtPrice, liquidity, tick]"
  define data where "data = ''0x'' @ concat (map abi_encode ?vs)"
  have s: "signedWord data 0 = Some (Some amount0)" "signedWord data 1 = Some (Some amount1)"
    using signedWord_encode [of 0 ?vs] signedWord_encode [of 1 ?vs] assms(3-6)
    unfolding data_def by simp_all
  have w: "abiWord data 2 = Some (Some sqrtPrice)" "abiWord data 3 = Some (Some liquidity)"
      "abiWord data 4 = Some (Some (tick mod 2 ^ 256))"
    using abiWord_encode [of 2 ?vs] abiWord_encode [of 3 ?vs] abiWord_encode [of 4 ?vs] assms(7-10)
    unfolding data_def by (simp_all add: mod_pos_pos_trivial)
  have t: "int24 (tick mod 2 ^ 256) = tick" using assms(11,12) by (rule int24_small)
  have d: "topic_swap \<noteq> topic_poolCreated" "topic_swap \<noteq> topic_initialize"
    by (simp_all add: topic_swap_def topic_poolCreated_def topic_initialize_def)
  show ?thesis
    unfolding data_def [symmetric]
    by (simp add: decodeUniswapV3Log_def d s [simplified] w [simplified] t [simplified]
        addressFromText_topic assms(1,2))
qed

section \<open>The tangent pool\<close>

lemma div_bracket: "0 < (b :: int) \<Longrightarrow> a div b * b \<le> a \<and> a < (a div b + 1) * b"
proof -
  assume b: "0 < b"
  define q where "q = a div b"
  have "q * b + a mod b = a" by (simp add: q_def)
  moreover have "0 \<le> a mod b" "a mod b < b" using b by simp_all
  ultimately have "q * b \<le> a" "a < q * b + b" by linarith+
  then show ?thesis by (simp add: q_def algebra_simps)
qed

text \<open>The virtual reserves of a pool are those of a constant-product pool at its price and depth: their
  product is the squared liquidity and their ratio the squared root price, both up to the truncation
  of each reserve to a whole unit.\<close>

lemma virtual_reserves_tangent:
  assumes "virtualReserves P L = Some (r0, r1)"
  shows "0 < r0 \<and> 0 < r1 \<and> r0 * r1 \<le> L * L \<and> L * L < (r0 + 1) * (r1 + 1)
    \<and> r1 * (Q96 * Q96) < (r0 + 1) * (P * P) \<and> r0 * (P * P) < (r1 + 1) * (Q96 * Q96)"
proof -
  have q: "0 < Q96" by (simp add: Q96_def)
  have pos: "0 < P" "0 < L" and eq: "r0 = L * Q96 div P" "r1 = L * P div Q96" and nz: "r0 \<noteq> 0" "r1 \<noteq> 0"
    using assms q by (auto simp: virtualReserves_def Let_def bdiv_nonneg_eq split: if_splits)
  have b0: "r0 * P \<le> L * Q96" "L * Q96 < (r0 + 1) * P" using div_bracket [OF pos(1)] eq by simp_all
  have b1: "r1 * Q96 \<le> L * P" "L * P < (r1 + 1) * Q96" using div_bracket [OF q] eq by simp_all
  have "0 \<le> r0" "0 \<le> r1" using pos q eq by (simp_all add: pos_imp_zdiv_nonneg_iff)
  with nz have r: "0 < r0" "0 < r1" by simp_all
  have pq: "0 < P * Q96" using pos q by simp
  have "(r0 * P) * (r1 * Q96) \<le> (L * Q96) * (L * P)" using r pos q by (intro mult_mono [OF b0(1) b1(1)]) auto
  then have "(P * Q96) * (r0 * r1) \<le> (P * Q96) * (L * L)" by (simp add: algebra_simps)
  then have low: "r0 * r1 \<le> L * L" using pq by (simp only: mult_le_cancel_left_pos)
  have "(L * Q96) * (L * P) < ((r0 + 1) * P) * ((r1 + 1) * Q96)"
    using r pos q by (intro mult_strict_mono [OF b0(2) b1(2)]) auto
  then have "(P * Q96) * (L * L) < (P * Q96) * ((r0 + 1) * (r1 + 1))" by (simp add: algebra_simps)
  then have high: "L * L < (r0 + 1) * (r1 + 1)" using pq by (simp only: mult_less_cancel_left_pos)
  have "r1 * Q96 * Q96 \<le> L * P * Q96" using b1(1) q by simp
  also have "\<dots> < (r0 + 1) * P * P" using mult_strict_right_mono [OF b0(2) pos(1)] by (simp add: algebra_simps)
  finally have ratio1: "r1 * (Q96 * Q96) < (r0 + 1) * (P * P)" by (simp add: algebra_simps)
  have "r0 * P * P \<le> L * Q96 * P" using b0(1) pos by simp
  also have "\<dots> < (r1 + 1) * Q96 * Q96" using mult_strict_right_mono [OF b1(2) q] by (simp add: algebra_simps)
  finally have ratio2: "r0 * (P * P) < (r1 + 1) * (Q96 * Q96)" by (simp add: algebra_simps)
  from r low high ratio1 ratio2 show ?thesis by blast
qed

text \<open>A swap's trade is one positive amount in and one positive amount out, of the pool's two assets.\<close>

lemma swap_trade_sides:
  assumes "uniswapV3SwapTrade (Swap pool sender to a0 a1 P L t) pools = Some trade"
    and "map_of pools pool = Some tokens"
  shows "(a0 > 0 \<and> a1 < 0 \<and> trade_inputs trade = [(token0AssetId tokens, a0)]
            \<and> trade_outputs trade = [(token1AssetId tokens, - a1)])
       \<or> (a1 > 0 \<and> a0 < 0 \<and> trade_inputs trade = [(token1AssetId tokens, a1)]
            \<and> trade_outputs trade = [(token0AssetId tokens, - a0)])"
  using assms by (auto simp: uniswapV3SwapTrade_def Let_def split: if_splits)

section \<open>The reload sees what the live tracker saw\<close>

record v3_hist =
  h_block :: int
  h_index :: int
  h_event :: uniswap_v3_log_event

definition hist_less :: "v3_hist \<Rightarrow> v3_hist \<Rightarrow> bool" where
  "hist_less a b \<longleftrightarrow> h_block a < h_block b \<or> h_block a = h_block b \<and> h_index a < h_index b"

fun creates :: "string \<Rightarrow> uniswap_v3_log_event \<Rightarrow> bool" where
  "creates a (PoolCreated _ pool) \<longleftrightarrow> v3_address pool = a"
| "creates a _ \<longleftrightarrow> False"

fun concerns :: "string \<Rightarrow> uniswap_v3_log_event \<Rightarrow> bool" where
  "concerns a (PoolCreated _ _) \<longleftrightarrow> False"
| "concerns a ev \<longleftrightarrow> ev_pool ev = a"

fun is_initialize :: "uniswap_v3_log_event \<Rightarrow> bool" where
  "is_initialize (Initialize _ _ _) \<longleftrightarrow> True"
| "is_initialize _ \<longleftrightarrow> False"

definition normal_address :: "string \<Rightarrow> bool" where
  "normal_address a \<longleftrightarrow> normalizeEvmAddress (JStr a) = Some a"

fun normal_event :: "uniswap_v3_log_event \<Rightarrow> bool" where
  "normal_event (PoolCreated _ pool) \<longleftrightarrow> normal_address (v3_address pool)"
| "normal_event ev \<longleftrightarrow> normal_address (ev_pool ev)"

text \<open>
  How a pool contract behaves: its logs follow its creation, the first of them is its only
  \<open>Initialize\<close>.
\<close>

definition pool_lifecycle :: "v3_hist list \<Rightarrow> string \<Rightarrow> bool" where
  "pool_lifecycle hist a \<longleftrightarrow>
     (\<forall>e \<in> set hist. concerns a (h_event e) \<longrightarrow>
        (\<exists>c \<in> set hist. creates a (h_event c) \<and> hist_less c e) \<and>
        (\<exists>i \<in> set hist. concerns a (h_event i) \<and> is_initialize (h_event i) \<and> (i = e \<or> hist_less i e))) \<and>
     (\<forall>e \<in> set hist. \<forall>i \<in> set hist. concerns a (h_event e) \<and> is_initialize (h_event e) \<and>
        concerns a (h_event i) \<and> is_initialize (h_event i) \<longrightarrow> e = i)"

definition live_tracker :: "int \<Rightarrow> v3_hist list \<Rightarrow> v3_tracker" where
  "live_tracker H hist =
     foldl (\<lambda>tr e. snd (applyEvent (h_event e) tr)) new_v3_tracker (filter (\<lambda>e. h_block e \<le> H) hist)"

text \<open>The row the materialized view writes for a pool event.\<close>

definition indexed_row :: "v3_hist \<Rightarrow> v3_event_row" where
  "indexed_row e =
     (case h_event e of
        Initialize pool P t \<Rightarrow>
          \<lparr>row_contract = pool, row_kind = ''pool'', row_event_name = ''Initialize'', row_tick = t,
           row_tick_lower = 0, row_tick_upper = 0, row_liquidity = 0, row_sqrt_price = P,
           row_height = h_block e, row_index = h_index e\<rparr>
      | Swap pool _ _ _ _ P L t \<Rightarrow>
          \<lparr>row_contract = pool, row_kind = ''pool'', row_event_name = ''Swap'', row_tick = t,
           row_tick_lower = 0, row_tick_upper = 0, row_liquidity = L, row_sqrt_price = P,
           row_height = h_block e, row_index = h_index e\<rparr>
      | Mint pool _ lo hi amount _ _ \<Rightarrow>
          \<lparr>row_contract = pool, row_kind = ''pool'', row_event_name = ''Mint'', row_tick = 0,
           row_tick_lower = lo, row_tick_upper = hi, row_liquidity = amount, row_sqrt_price = 0,
           row_height = h_block e, row_index = h_index e\<rparr>
      | Burn pool _ lo hi amount _ _ \<Rightarrow>
          \<lparr>row_contract = pool, row_kind = ''pool'', row_event_name = ''Burn'', row_tick = 0,
           row_tick_lower = lo, row_tick_upper = hi, row_liquidity = amount, row_sqrt_price = 0,
           row_height = h_block e, row_index = h_index e\<rparr>
      | PoolCreated _ _ \<Rightarrow> undefined)"

fun is_creation :: "uniswap_v3_log_event \<Rightarrow> bool" where
  "is_creation (PoolCreated _ _) \<longleftrightarrow> True"
| "is_creation _ \<longleftrightarrow> False"

definition indexed :: "v3_hist list \<Rightarrow> v3_tables \<Rightarrow> bool" where
  "indexed hist db \<longleftrightarrow>
     filter (\<lambda>r. row_kind r = ''pool'' \<and> row_event_name r \<in> {''Initialize'', ''Swap'', ''Mint'', ''Burn''})
       (uniswap_v3_events db) = map indexed_row (filter (\<lambda>e. \<not> is_creation (h_event e)) hist) \<and>
     (\<forall>a H. (\<exists>r \<in> set (uniswap_v3_pools db). row_pool_address r = a \<and> row_pool_height r \<le> H) \<longleftrightarrow>
            (\<exists>e \<in> set hist. creates a (h_event e) \<and> h_block e \<le> H))"

definition pool_state_of :: "v3_tracker \<Rightarrow> string \<Rightarrow> uniswap_v3_pool_state option" where
  "pool_state_of tr a = map_option tracked_state (map_of (v3_pools tr) a)"

definition fold_events :: "uniswap_v3_pool_state \<Rightarrow> uniswap_v3_log_event list \<Rightarrow> uniswap_v3_pool_state" where
  "fold_events = foldl (\<lambda>s ev. fst (applyPoolEvent s ev))"

lemma fold_events_simps [simp]:
  "fold_events s [] = s"
  "fold_events s (ev # evs) = fold_events (fst (applyPoolEvent s ev)) evs"
  "fold_events s (evs @ evs') = fold_events (fold_events s evs) evs'"
  by (simp_all add: fold_events_def)

lemma addPool_state:
  assumes "normal_address (v3_address pool)"
  shows "pool_state_of (snd (addPool pool tr)) a =
    (if a = v3_address pool \<and> pool_state_of tr a = None then Some emptyPoolState else pool_state_of tr a)"
  using assms by (auto simp: addPool_def pool_state_of_def normal_address_def map_has_iff)

lemma applyEvent_state:
  assumes "normal_event ev"
  shows "pool_state_of (snd (applyEvent ev tr)) a =
    (if creates a ev \<and> pool_state_of tr a = None then Some emptyPoolState
     else if concerns a ev then map_option (\<lambda>s. fst (applyPoolEvent s ev)) (pool_state_of tr a)
     else pool_state_of tr a)"
  using assms addPool_state
  by (cases ev) (auto simp: applyEvent_def pool_state_of_def split: option.splits prod.splits)

lemma swap_pins: "\<exists>ev \<in> set evs. is_swap ev \<Longrightarrow> fold_events s evs = fold_events s' evs"
proof (induction evs arbitrary: s s')
  case (Cons ev evs)
  show ?case
  proof (cases "\<exists>ev \<in> set evs. is_swap ev")
    case True
    with Cons.IH show ?thesis by simp
  next
    case False
    with Cons.prems have "is_swap ev" by simp
    then have "fst (applyPoolEvent s ev) = fst (applyPoolEvent s' ev)"
      by (cases ev) (simp_all add: is_swap_def)
    then show ?thesis by simp
  qed
qed simp

text \<open>The state the live tracker holds for a pool.\<close>

lemma live_state:
  assumes "\<forall>ev \<in> set evs. normal_event ev"
    and "\<And>pre ev post. evs = pre @ ev # post \<Longrightarrow> concerns a ev \<Longrightarrow> \<exists>c \<in> set pre. creates a c"
  shows "pool_state_of (foldl (\<lambda>tr ev. snd (applyEvent ev tr)) new_v3_tracker evs) a =
    (if \<exists>c \<in> set evs. creates a c then Some (fold_events emptyPoolState (filter (concerns a) evs)) else None)"
  using assms
proof (induction evs rule: rev_induct)
  case Nil
  then show ?case by (simp add: pool_state_of_def new_v3_tracker_def)
next
  case (snoc ev evs)
  have IH: "pool_state_of (foldl (\<lambda>tr ev. snd (applyEvent ev tr)) new_v3_tracker evs) a =
    (if \<exists>c \<in> set evs. creates a c then Some (fold_events emptyPoolState (filter (concerns a) evs)) else None)"
  proof (rule snoc.IH)
    show "\<forall>ev \<in> set evs. normal_event ev" using snoc.prems(1) by simp
    show "\<exists>c \<in> set pre. creates a c" if "evs = pre @ e # post" "concerns a e" for pre e post
      using snoc.prems(2) [of pre e "post @ [ev]"] that by simp
  qed
  have one: "normal_event ev" using snoc.prems(1) by simp
  have created: "concerns a ev \<Longrightarrow> \<exists>c \<in> set evs. creates a c" using snoc.prems(2) [of evs ev "[]"] by simp
  have excl: "\<not> (creates a ev \<and> concerns a ev)" by (cases ev) auto
  have none: "filter (concerns a) evs = []" if no: "\<not> (\<exists>c \<in> set evs. creates a c)"
  proof (rule ccontr)
    assume "filter (concerns a) evs \<noteq> []"
    then obtain e where "e \<in> set evs" "concerns a e" by (auto simp: filter_empty_conv)
    then obtain pre post where "evs = pre @ e # post" by (meson split_list)
    with snoc.prems(2) [of pre e "post @ [ev]"] \<open>concerns a e\<close> no show False by auto
  qed
  show ?case using excl created none by (auto simp: applyEvent_state [OF one] IH)
qed

subsection \<open>The rows of the two queries\<close>

definition stored_event :: "uniswap_v3_log_event \<Rightarrow> uniswap_v3_log_event" where
  "stored_event ev =
     (case ev of
        Swap pool _ _ _ _ P L t \<Rightarrow> Swap pool [] [] 0 0 P L t
      | Mint pool _ lo hi amount _ _ \<Rightarrow> Mint pool [] lo hi amount 0 0
      | Burn pool _ lo hi amount _ _ \<Rightarrow> Burn pool [] lo hi amount 0 0
      | _ \<Rightarrow> ev)"

lemma stored_event_simps:
  "fst (applyPoolEvent s (stored_event ev)) = fst (applyPoolEvent s ev)"
  "concerns a (stored_event ev) = concerns a ev"
  "creates a (stored_event ev) = creates a ev"
  "normal_event (stored_event ev) = normal_event ev"
  by (cases ev; simp add: stored_event_def)+

lemma stored_row_event:
  assumes "\<not> is_creation (h_event e)" and "normal_event (h_event e)"
  shows "storedPoolEventToLogEvent (indexed_row e) = Some (Some (stored_event (h_event e)))"
  using assms
  by (cases "h_event e") (simp_all add: indexed_row_def storedPoolEventToLogEvent_def normal_address_def stored_event_def)

lemma indexed_row_fields:
  assumes "\<not> is_creation (h_event e)"
  shows "row_height (indexed_row e) = h_block e" "row_index (indexed_row e) = h_index e"
    "concerns a (h_event e) \<longleftrightarrow> row_contract (indexed_row e) = a" "row_kind (indexed_row e) = ''pool''"
    "row_event_name (indexed_row e) \<in> {''Initialize'', ''Swap''} \<longleftrightarrow>
       is_initialize (h_event e) \<or> is_swap (h_event e)"
    "row_event_name (indexed_row e) \<in> {''Initialize'', ''Swap'', ''Mint'', ''Burn''}"
  using assms by (cases "h_event e"; simp add: indexed_row_def is_swap_def)+

interpretation cmp_event_row: js_comparator cmp_event_row
  by unfold_locales (auto simp: cmp_event_row_def cmp_or_def cmp_by_def split: if_splits)

lemma concerns_not_creation: "concerns a ev \<Longrightarrow> \<not> is_creation ev"
  by (cases ev) auto

definition hist_anchor :: "int \<Rightarrow> v3_hist list \<Rightarrow> string \<Rightarrow> v3_hist \<Rightarrow> bool" where
  "hist_anchor H hist a e \<longleftrightarrow> e \<in> set hist \<and> concerns a (h_event e) \<and> h_block e \<le> H
     \<and> (is_initialize (h_event e) \<or> is_swap (h_event e))"

lemma indexed_events:
  assumes "indexed hist db"
  shows "r \<in> set (uniswap_v3_events db) \<and> row_kind r = ''pool''
       \<and> row_event_name r \<in> {''Initialize'', ''Swap'', ''Mint'', ''Burn''} \<longleftrightarrow>
     (\<exists>e \<in> set hist. \<not> is_creation (h_event e) \<and> r = indexed_row e)"
proof -
  have "set (filter (\<lambda>r. row_kind r = ''pool'' \<and> row_event_name r \<in> {''Initialize'', ''Swap'', ''Mint'', ''Burn''})
       (uniswap_v3_events db)) = indexed_row ` {e \<in> set hist. \<not> is_creation (h_event e)}"
    using assms unfolding indexed_def by simp
  then show ?thesis by (auto simp: set_eq_iff)
qed

lemma anchor_heights:
  assumes "indexed hist db"
  shows "set (map row_height (filter (\<lambda>r. is_anchor_row H r \<and> row_contract r = a) (uniswap_v3_events db)))
    = h_block ` {e. hist_anchor H hist a e}"
proof -
  have "r \<in> set (uniswap_v3_events db) \<and> is_anchor_row H r \<and> row_contract r = a \<longleftrightarrow>
      (\<exists>e. hist_anchor H hist a e \<and> r = indexed_row e)" for r
  proof
    assume l: "r \<in> set (uniswap_v3_events db) \<and> is_anchor_row H r \<and> row_contract r = a"
    then obtain e where e: "e \<in> set hist" "\<not> is_creation (h_event e)" "r = indexed_row e"
      using indexed_events [OF assms, of r] by (auto simp: is_anchor_row_def)
    with l show "\<exists>e. hist_anchor H hist a e \<and> r = indexed_row e"
      using indexed_row_fields [OF e(2)] by (intro exI [of _ e]) (simp add: is_anchor_row_def hist_anchor_def)
  next
    assume "\<exists>e. hist_anchor H hist a e \<and> r = indexed_row e"
    then obtain e where e: "hist_anchor H hist a e" "r = indexed_row e" by blast
    then have c: "\<not> is_creation (h_event e)" by (auto simp: hist_anchor_def dest: concerns_not_creation)
    have "r \<in> set (uniswap_v3_events db)"
      using indexed_events [OF assms, of r] e c by (auto simp: hist_anchor_def)
    with e show "r \<in> set (uniswap_v3_events db) \<and> is_anchor_row H r \<and> row_contract r = a"
      using indexed_row_fields [OF c] by (simp add: is_anchor_row_def hist_anchor_def)
  qed
  then have "{r \<in> set (uniswap_v3_events db). is_anchor_row H r \<and> row_contract r = a} =
      indexed_row ` {e. hist_anchor H hist a e}" by blast
  then have "set (map row_height (filter (\<lambda>r. is_anchor_row H r \<and> row_contract r = a) (uniswap_v3_events db)))
      = (\<lambda>e. row_height (indexed_row e)) ` {e. hist_anchor H hist a e}"
    by (simp add: image_image)
  also have "\<dots> = h_block ` {e. hist_anchor H hist a e}"
    by (intro image_cong) (auto simp: hist_anchor_def indexed_row_fields dest: concerns_not_creation)
  finally show ?thesis .
qed

definition replayed :: "int \<Rightarrow> v3_hist list \<Rightarrow> v3_hist \<Rightarrow> bool" where
  "replayed H hist e \<longleftrightarrow> \<not> is_creation (h_event e) \<and> h_block e \<le> H \<and>
     (\<exists>i. hist_anchor H hist (row_contract (indexed_row e)) i) \<and>
     (\<forall>i. hist_anchor H hist (row_contract (indexed_row e)) i \<longrightarrow> h_block i \<le> h_block e)"

lemma anchor_block_after:
  assumes "indexed hist db"
  shows "(case anchor_block H db a of None \<Rightarrow> False | Some b \<Rightarrow> h \<ge> b) \<longleftrightarrow>
    (\<exists>i. hist_anchor H hist a i) \<and> (\<forall>i. hist_anchor H hist a i \<longrightarrow> h_block i \<le> h)"
proof -
  let ?l = "map row_height (filter (\<lambda>r. is_anchor_row H r \<and> row_contract r = a) (uniswap_v3_events db))"
  have s: "set ?l = h_block ` {e. hist_anchor H hist a e}" by (rule anchor_heights [OF assms])
  have "?l = [] \<longleftrightarrow> \<not> (\<exists>i. hist_anchor H hist a i)" using s by (metis (mono_tags) Collect_empty_eq image_is_empty set_empty)
  moreover have "?l \<noteq> [] \<Longrightarrow> Max (set ?l) \<le> h \<longleftrightarrow> (\<forall>i. hist_anchor H hist a i \<longrightarrow> h_block i \<le> h)"
  proof -
    assume "?l \<noteq> []"
    then have "Max (set ?l) \<le> h \<longleftrightarrow> (\<forall>x \<in> set ?l. x \<le> h)" by (intro Max_le_iff) (simp_all only: finite_set set_empty not_False_eq_True)
    then show ?thesis unfolding s by auto
  qed
  ultimately show ?thesis unfolding anchor_block_def Let_def by (cases "?l = []") auto
qed

lemma event_rows_hist:
  assumes ix: "indexed hist db" and s: "sorted_wrt hist_less hist"
  shows "event_rows_upto H db = map indexed_row (filter (replayed H hist) hist)"
proof -
  let ?four = "\<lambda>r. row_kind r = ''pool'' \<and> row_event_name r \<in> {''Initialize'', ''Swap'', ''Mint'', ''Burn''}"
  let ?late = "\<lambda>r. (case anchor_block H db (row_contract r) of None \<Rightarrow> False | Some b \<Rightarrow> row_height r \<ge> b)
      \<and> row_height r \<le> H"
  have four: "filter ?four (uniswap_v3_events db) = map indexed_row (filter (\<lambda>e. \<not> is_creation (h_event e)) hist)"
    using ix unfolding indexed_def by simp
  have "filter (\<lambda>r. row_kind r = ''pool''
            \<and> row_event_name r \<in> {''Initialize'', ''Swap'', ''Mint'', ''Burn''}
            \<and> (case anchor_block H db (row_contract r) of None \<Rightarrow> False | Some b \<Rightarrow> row_height r \<ge> b)
            \<and> row_height r \<le> H) (uniswap_v3_events db) = filter ?late (filter ?four (uniswap_v3_events db))"
    unfolding filter_filter by (rule filter_cong) (rule refl, blast)
  also have "\<dots> = map indexed_row (filter (replayed H hist) hist)"
    unfolding four filter_map filter_filter o_def
    by (rule arg_cong [where f = "map indexed_row"], rule filter_cong, rule refl)
      (auto simp: replayed_def indexed_row_fields anchor_block_after [OF ix])
  finally have eq: "event_rows_upto H db =
      sort_cmp cmp_event_row (map indexed_row (filter (replayed H hist) hist))"
    by (simp add: event_rows_upto_def)
  have "sorted_wrt (\<lambda>x y. cmp_event_row (indexed_row x) (indexed_row y) \<le> 0) (filter (replayed H hist) hist)"
    by (rule sorted_wrt_mono_rel [OF _ sorted_wrt_filter [OF s]])
      (auto simp: cmp_event_row_def cmp_or_def cmp_by_def hist_less_def replayed_def indexed_row_fields)
  then show ?thesis unfolding eq by (intro cmp_event_row.sort_sorted) (simp add: sorted_wrt_map)
qed

subsection \<open>Equality of the pool states\<close>

lemma replay_fold:
  "\<forall>e \<in> set es. \<not> is_creation (h_event e) \<and> normal_event (h_event e) \<Longrightarrow>
     replay_rows (map indexed_row es) tr = foldl (\<lambda>tr e. snd (applyEvent (stored_event (h_event e)) tr)) tr es"
  by (induction es arbitrary: tr) (auto simp: stored_row_event)

lemma replay_state:
  assumes "\<forall>e \<in> set es. \<not> is_creation (h_event e) \<and> normal_event (h_event e)"
  shows "pool_state_of (foldl (\<lambda>tr e. snd (applyEvent (stored_event (h_event e)) tr)) tr es) a =
    map_option (\<lambda>s. fold_events s (filter (concerns a) (map h_event es))) (pool_state_of tr a)"
  using assms
proof (induction es arbitrary: tr)
  case Nil
  then show ?case by (simp add: option.map_ident)
next
  case (Cons e es)
  have n: "normal_event (stored_event (h_event e))" and c: "\<not> creates a (h_event e)"
    using Cons.prems by (auto simp: stored_event_simps) (cases "h_event e"; simp)
  show ?case using Cons
    by (simp add: applyEvent_state [OF n] stored_event_simps c option.map_comp o_def)
qed

lemma add_rows_state:
  "(\<forall>r \<in> set rows. normal_address (row_pool_address r)) \<Longrightarrow>
   pool_state_of (foldl add_pool_row tr rows) a =
     (if pool_state_of tr a = None \<and> a \<in> row_pool_address ` set rows then Some emptyPoolState
      else pool_state_of tr a)"
  by (induction rows arbitrary: tr) (auto simp: add_pool_row_def addPool_state)

lemma fresh_state [simp]: "pool_state_of new_v3_tracker a = None"
  by (simp add: pool_state_of_def new_v3_tracker_def)

lemma normal_created:
  "normal_event ev \<Longrightarrow> creates a ev \<Longrightarrow> normal_address a"
  by (cases ev) auto

text \<open>The events of a pool: an \<open>Initialize\<close> first, no other later.\<close>

lemma lifecycle_shape:
  assumes "sorted_wrt hist_less hist" and "pool_lifecycle hist a"
    and "filter (\<lambda>e. concerns a (h_event e) \<and> h_block e \<le> H) hist = e # es"
  shows "is_initialize (h_event e) \<and> (\<forall>x \<in> set es. \<not> is_initialize (h_event x))"
proof -
  let ?own = "filter (\<lambda>e. concerns a (h_event e) \<and> h_block e \<le> H) hist"
  have srt: "sorted_wrt hist_less (e # es)" using sorted_wrt_filter [OF assms(1)] assms(3) by metis
  have own: "x \<in> set (e # es) \<longleftrightarrow> x \<in> set hist \<and> concerns a (h_event x) \<and> h_block x \<le> H" for x
    unfolding assms(3) [symmetric] by auto
  from own [of e] obtain i where i: "i \<in> set hist" "concerns a (h_event i)" "is_initialize (h_event i)"
      "i = e \<or> hist_less i e"
    using assms(2) unfolding pool_lifecycle_def by auto
  have "h_block i \<le> H" using i(4) own [of e] by (auto simp: hist_less_def)
  then have "i \<in> set (e # es)" using i own by blast
  then have "i = e" using i(4) srt by (auto simp: hist_less_def)
  have "\<not> is_initialize (h_event x)" if x: "x \<in> set es" for x
  proof
    assume "is_initialize (h_event x)"
    moreover have "x \<in> set hist" "concerns a (h_event x)" using own [of x] x by simp_all
    ultimately have "x = i" using i assms(2) unfolding pool_lifecycle_def by blast
    with \<open>i = e\<close> x srt show False by (auto simp: hist_less_def)
  qed
  with i \<open>i = e\<close> show ?thesis by blast
qed

lemma filter_upward:
  assumes "sorted_wrt R xs" and up: "\<And>x y. P x \<Longrightarrow> R x y \<Longrightarrow> P y"
  shows "filter P xs = dropWhile (\<lambda>x. \<not> P x) xs"
  using assms(1)
proof (induction xs)
  case (Cons x xs)
  show ?case
  proof (cases "P x")
    case True
    with Cons.prems up [OF True] have "filter P xs = xs" by (intro filter_True ballI) auto
    with True show ?thesis by simp
  next
    case False
    with Cons show ?thesis by simp
  qed
qed simp

lemma dropWhile_hit: "P x \<Longrightarrow> dropWhile (\<lambda>x. \<not> P x) (x # xs) = x # xs"
  by simp

lemma replayed_own:
  assumes "concerns a (h_event e)"
  shows "replayed H hist e \<longleftrightarrow> h_block e \<le> H \<and> (\<exists>i. hist_anchor H hist a i) \<and>
    (\<forall>i. hist_anchor H hist a i \<longrightarrow> h_block i \<le> h_block e)"
  using assms indexed_row_fields(3) [OF concerns_not_creation [OF assms]] concerns_not_creation [OF assms]
  by (auto simp: replayed_def)

lemma fold_from_anchor:
  assumes s: "sorted_wrt hist_less hist" and l: "pool_lifecycle hist a"
  shows "fold_events emptyPoolState (map h_event (filter (\<lambda>e. replayed H hist e \<and> concerns a (h_event e)) hist))
    = fold_events emptyPoolState (map h_event (filter (\<lambda>e. concerns a (h_event e) \<and> h_block e \<le> H) hist))"
proof -
  define own where "own = filter (\<lambda>e. concerns a (h_event e) \<and> h_block e \<le> H) hist"
  have mem: "e \<in> set own \<longleftrightarrow> e \<in> set hist \<and> concerns a (h_event e) \<and> h_block e \<le> H" for e
    by (auto simp: own_def)
  have srt: "sorted_wrt hist_less own" unfolding own_def by (rule sorted_wrt_filter [OF s])
  let ?late = "\<lambda>e. (\<exists>i. hist_anchor H hist a i) \<and> (\<forall>i. hist_anchor H hist a i \<longrightarrow> h_block i \<le> h_block e)"
  have suf: "filter (\<lambda>e. replayed H hist e \<and> concerns a (h_event e)) hist = filter ?late own"
    unfolding own_def filter_filter by (rule filter_cong) (auto simp: replayed_own)
  have "fold_events emptyPoolState (map h_event (filter ?late own)) = fold_events emptyPoolState (map h_event own)"
  proof (cases own)
    case (Cons e es)
    note shape = lifecycle_shape [OF s l Cons [unfolded own_def]]
    have anchor: "hist_anchor H hist a e" using shape Cons mem [of e] by (simp add: hist_anchor_def)
    let ?early = "takeWhile (\<lambda>x. \<not> ?late x) own"
    have split: "filter ?late own = dropWhile (\<lambda>x. \<not> ?late x) own"
      by (rule filter_upward [OF srt]) (fastforce simp: hist_less_def)
    show ?thesis
    proof (cases "?late e")
      case True
      then have "dropWhile (\<lambda>x. \<not> ?late x) (e # es) = e # es" by (rule dropWhile_hit)
      then have "filter ?late own = own" using split Cons by (simp only:)
      then show ?thesis by simp
    next
      case False
      let ?B = "Max (h_block ` {i \<in> set own. is_initialize (h_event i) \<or> is_swap (h_event i)})"
      have anchors: "{i. hist_anchor H hist a i} = {i \<in> set own. is_initialize (h_event i) \<or> is_swap (h_event i)}"
        using mem by (auto simp: hist_anchor_def)
      have isa: "hist_anchor H hist a i" if "i \<in> set own" "is_initialize (h_event i) \<or> is_swap (h_event i)" for i
        using that mem by (simp add: hist_anchor_def)
      obtain i where i: "hist_anchor H hist a i" "h_block i = ?B"
      proof -
        have "?B \<in> h_block ` {i \<in> set own. is_initialize (h_event i) \<or> is_swap (h_event i)}"
          using anchor anchors by (intro Max_in) auto
        with that isa show thesis by fastforce
      qed
      have top: "hist_anchor H hist a j \<Longrightarrow> h_block j \<le> ?B" for j
        using anchors by (intro Max_ge) auto
      then have late: "?late i" using i by metis
      with False have "i \<noteq> e" by auto
      moreover have "i \<in> set own" using i(1) mem by (auto simp: hist_anchor_def)
      ultimately have "\<not> is_initialize (h_event i)" using shape Cons by auto
      with i(1) have "is_swap (h_event i)" by (simp add: hist_anchor_def)
      with late \<open>i \<in> set own\<close> have sw: "\<exists>ev \<in> set (map h_event (filter ?late own)). is_swap ev" by auto
      have "own = ?early @ filter ?late own" unfolding split by simp
      then have "map h_event own = map h_event ?early @ map h_event (filter ?late own)"
        by (simp only: map_append [symmetric])
      then have "fold_events emptyPoolState (map h_event own) =
          fold_events (fold_events emptyPoolState (map h_event ?early)) (map h_event (filter ?late own))"
        by (simp only: fold_events_simps(3))
      also have "\<dots> = fold_events emptyPoolState (map h_event (filter ?late own))"
        by (rule swap_pins [OF sw])
      finally show ?thesis by simp
    qed
  qed simp
  then show ?thesis unfolding suf own_def .
qed

lemma replayed_normal:
  assumes "\<forall>e \<in> set hist. normal_event (h_event e)"
  shows "\<forall>e \<in> set (filter (replayed H hist) hist). \<not> is_creation (h_event e) \<and> normal_event (h_event e)"
  using assms by (auto simp: replayed_def)

lemma map_filter_concerns:
  "filter (concerns a) (map h_event (filter P hist)) = map h_event (filter (\<lambda>e. P e \<and> concerns a (h_event e)) hist)"
  by (induction hist) auto

lemma live_tracker_state:
  assumes s: "sorted_wrt hist_less hist" and l: "pool_lifecycle hist a"
    and n: "\<forall>e \<in> set hist. normal_event (h_event e)"
  shows "pool_state_of (live_tracker H hist) a =
    (if \<exists>e \<in> set hist. creates a (h_event e) \<and> h_block e \<le> H
     then Some (fold_events emptyPoolState (map h_event (filter (\<lambda>e. concerns a (h_event e) \<and> h_block e \<le> H) hist)))
     else None)"
proof -
  let ?evs = "filter (\<lambda>e. h_block e \<le> H) hist"
  have "live_tracker H hist = foldl (\<lambda>tr ev. snd (applyEvent ev tr)) new_v3_tracker (map h_event ?evs)"
    unfolding live_tracker_def foldl_map ..
  moreover have "pool_state_of (foldl (\<lambda>tr ev. snd (applyEvent ev tr)) new_v3_tracker (map h_event ?evs)) a =
    (if \<exists>c \<in> set (map h_event ?evs). creates a c
     then Some (fold_events emptyPoolState (filter (concerns a) (map h_event ?evs))) else None)"
  proof (rule live_state)
    show "\<forall>ev \<in> set (map h_event ?evs). normal_event ev" using n by auto
    fix pre ev post assume split: "map h_event ?evs = pre @ ev # post" and own: "concerns a ev"
    then obtain ps e qs where ps: "?evs = ps @ e # qs" "map h_event ps = pre" "h_event e = ev"
      by (auto simp: map_eq_append_conv map_eq_Cons_conv)
    then have e: "e \<in> set hist" "h_block e \<le> H" by (metis (mono_tags) filter_set in_set_conv_decomp mem_Collect_eq set_filter)+
    with own ps l obtain c where c: "c \<in> set hist" "creates a (h_event c)" "hist_less c e"
      unfolding pool_lifecycle_def by blast
    have "c \<in> set ?evs" using c e by (auto simp: hist_less_def)
    moreover have "c \<notin> set (e # qs)"
    proof -
      have "sorted_wrt hist_less (e # qs)" using sorted_wrt_filter [OF s] ps(1) by (metis sorted_wrt_append)
      then show ?thesis using c(3) by (auto simp: hist_less_def)
    qed
    ultimately have "c \<in> set ps" unfolding ps(1) by simp
    then show "\<exists>c \<in> set pre. creates a c" using c(2) ps(2) by auto
  qed
  ultimately show ?thesis by (auto simp: map_filter_concerns conj_commute)
qed

text \<open>Once a pool has swapped, what is replayed has a swap, which pins every field.\<close>

lemma replayed_swap:
  assumes l: "pool_lifecycle hist a"
    and e: "e \<in> set hist" "concerns a (h_event e)" "is_swap (h_event e)" "h_block e \<le> H"
  shows "\<exists>x \<in> set hist. replayed H hist x \<and> concerns a (h_event x) \<and> is_swap (h_event x)"
proof -
  let ?A = "{i. hist_anchor H hist a i}"
  have fin: "finite (h_block ` ?A)" by (rule finite_imageI, rule finite_subset [of _ "set hist"]) (auto simp: hist_anchor_def)
  have ea: "e \<in> ?A" using e by (simp add: hist_anchor_def)
  then have "Max (h_block ` ?A) \<in> h_block ` ?A" using fin by (intro Max_in) auto
  then obtain i where i: "hist_anchor H hist a i" "h_block i = Max (h_block ` ?A)" by auto
  have top: "h_block j \<le> h_block i" if "hist_anchor H hist a j" for j
    unfolding i(2) using that fin by (intro Max_ge) auto
  show ?thesis
  proof (cases "is_swap (h_event i)")
    case True
    have "concerns a (h_event i)" using i(1) by (simp add: hist_anchor_def)
    moreover have "replayed H hist i" unfolding replayed_own [OF \<open>concerns a (h_event i)\<close>] using i(1) top by (auto simp: hist_anchor_def)
    ultimately show ?thesis using True i(1) by (auto simp: hist_anchor_def)
  next
    case False
    with i(1) have init: "i \<in> set hist" "concerns a (h_event i)" "is_initialize (h_event i)" by (auto simp: hist_anchor_def)
    obtain j where j: "j \<in> set hist" "concerns a (h_event j)" "is_initialize (h_event j)" "j = e \<or> hist_less j e"
      using l e(1,2) unfolding pool_lifecycle_def by blast
    then have "j = i" using l init unfolding pool_lifecycle_def by blast
    then have "h_block i \<le> h_block e" using j(4) by (auto simp: hist_less_def)
    then have "h_block e = h_block i" using top ea by fastforce
    then have "replayed H hist e" unfolding replayed_own [OF e(2)] using i(1) top e(4) by auto
    then show ?thesis using e by blast
  qed
qed

text \<open>C28: Reloading gives the live state, into a new tracker always and into a used one for every pool that has swapped.
  Suppose both queries answer, the tables hold the rows of a pool contract's history (created first, then its only
  \<open>Initialize\<close>, then its other logs), and addresses are written in full. Then loading into a new tracker up to a block
  gives the pool exactly the state the live tracker had after that block, although only the events from the newest
  anchor block on are replayed; and if the pool has swapped by that block, loading into any tracker, whatever it
  held of the pool, gives it that state too.\<close>

theorem reload_equals_live:
  assumes s: "sorted_wrt hist_less hist" and l: "pool_lifecycle hist a"
    and n: "\<forall>e \<in> set hist. normal_event (h_event e)" and ix: "indexed hist db"
  shows "pool_state_of (loadFromClickHouse True True H db new_v3_tracker) a = pool_state_of (live_tracker H hist) a
    \<and> (\<forall>tr. (\<exists>e \<in> set hist. concerns a (h_event e) \<and> is_swap (h_event e) \<and> h_block e \<le> H) \<longrightarrow>
         pool_state_of (loadFromClickHouse True True H db tr) a = pool_state_of (live_tracker H hist) a)"
proof -
  let ?rows = "pool_rows_upto H db"
  let ?evs = "map h_event (filter (\<lambda>e. replayed H hist e \<and> concerns a (h_event e)) hist)"
  let ?created = "\<exists>e \<in> set hist. creates a (h_event e) \<and> h_block e \<le> H"
  have row: "b \<in> row_pool_address ` set ?rows \<longleftrightarrow> (\<exists>e \<in> set hist. creates b (h_event e) \<and> h_block e \<le> H)" for b
    using ix unfolding indexed_def pool_rows_upto_def by (auto simp: image_iff) metis+
  have norm: "\<forall>r \<in> set ?rows. normal_address (row_pool_address r)"
  proof
    fix r assume "r \<in> set ?rows"
    then obtain e where "e \<in> set hist" "creates (row_pool_address r) (h_event e)" using row by blast
    with n normal_created show "normal_address (row_pool_address r)" by blast
  qed
  have tr1: "pool_state_of (foldl add_pool_row tr ?rows) a =
      (if pool_state_of tr a = None \<and> ?created then Some emptyPoolState else pool_state_of tr a)" for tr
    using add_rows_state [OF norm, of tr a] row [of a] by simp
  have replay: "pool_state_of (replay_rows (event_rows_upto H db) tr) a = map_option (\<lambda>s. fold_events s ?evs) (pool_state_of tr a)" for tr
    unfolding event_rows_hist [OF ix s] replay_fold [OF replayed_normal [OF n]]
      replay_state [OF replayed_normal [OF n]] map_filter_concerns ..
  have loaded: "pool_state_of (loadFromClickHouse True True H db tr) a =
      map_option (\<lambda>s. fold_events s ?evs) (pool_state_of (foldl add_pool_row tr ?rows) a)"
    if "?rows = [] \<longrightarrow> pool_state_of tr a = None" for tr
    using that replay by (cases "?rows = []") (simp_all add: loadFromClickHouse_def)
  have new: "pool_state_of (loadFromClickHouse True True H db new_v3_tracker) a = pool_state_of (live_tracker H hist) a"
    unfolding loaded [of new_v3_tracker, simplified] tr1 live_tracker_state [OF s l n]
    using fold_from_anchor [OF s l, of H] by simp
  have "pool_state_of (loadFromClickHouse True True H db tr) a = pool_state_of (live_tracker H hist) a"
    if sw: "\<exists>e \<in> set hist. concerns a (h_event e) \<and> is_swap (h_event e) \<and> h_block e \<le> H" for tr
  proof -
    obtain e where e: "e \<in> set hist" "concerns a (h_event e)" "is_swap (h_event e)" "h_block e \<le> H" using sw by blast
    then obtain c where "c \<in> set hist" "creates a (h_event c)" "hist_less c e" using l unfolding pool_lifecycle_def by blast
    with e(4) have created: ?created by (auto simp: hist_less_def)
    then have "?rows \<noteq> []" using row [of a] by auto
    then have load: "pool_state_of (loadFromClickHouse True True H db tr) a =
        map_option (\<lambda>s. fold_events s ?evs) (pool_state_of (foldl add_pool_row tr ?rows) a)" by (rule loaded [OF impI, OF notE])
    obtain t where t: "pool_state_of (foldl add_pool_row tr ?rows) a = Some t" using created unfolding tr1 by (cases "pool_state_of tr a") auto
    have "\<exists>ev \<in> set ?evs. is_swap ev" using replayed_swap [OF l e] by auto
    then have "fold_events t ?evs = fold_events emptyPoolState ?evs" by (rule swap_pins)
    then show ?thesis unfolding load t live_tracker_state [OF s l n] using created fold_from_anchor [OF s l, of H] by simp
  qed
  with new show ?thesis by blast
qed

definition sample_address :: string where
  "sample_address = ''0x'' @ replicate 40 (CHR ''a'')"

definition sample_pool :: uniswap_v3_pool where
  "sample_pool = \<lparr>v3_address = sample_address, v3_token0 = sample_address, v3_token1 = sample_address,
     v3_fee = 3000, v3_tickSpacing = 60\<rparr>"

definition sample_hist :: "v3_hist list" where
  "sample_hist =
     [\<lparr>h_block = 1, h_index = 0, h_event = PoolCreated sample_address sample_pool\<rparr>,
      \<lparr>h_block = 1, h_index = 1, h_event = Initialize sample_address 7 0\<rparr>,
      \<lparr>h_block = 2, h_index = 0, h_event = Mint sample_address [] (- 60) 60 500 1 1\<rparr>,
      \<lparr>h_block = 3, h_index = 0, h_event = Swap sample_address [] [] 5 (- 4) 8 500 1\<rparr>]"

definition sample_tables :: v3_tables where
  "sample_tables =
     \<lparr>uniswap_v3_pools = [\<lparr>row_pool_address = sample_address, row_token0 = [], row_token1 = [], row_fee = 3000,
        row_tick_spacing = 60, row_pool_height = 1\<rparr>],
      uniswap_v3_events = map indexed_row (tl sample_hist)\<rparr>"

theorem reload_equals_live_witness:
  "pool_state_of (loadFromClickHouse True True 2 sample_tables new_v3_tracker) sample_address =
     pool_state_of (live_tracker 2 sample_hist) sample_address \<and>
   pool_state_of (live_tracker 2 sample_hist) sample_address =
     Some \<lparr>sqrtPriceX96 = 7, v3_tick = 0, v3_liquidity = 500\<rparr> \<and>
   pool_state_of (loadFromClickHouse True True 3 sample_tables (live_tracker 2 sample_hist)) sample_address =
     pool_state_of (live_tracker 3 sample_hist) sample_address"
proof -
  have a: "normal_address sample_address"
    by (simp add: normal_address_def sample_address_def normalizeEvmAddress_def hexBody_def is_hex_digit_def
        digit_val_def to_lower_def lower_char_def numeral_eq_Suc)
  have s: "sorted_wrt hist_less sample_hist" by (simp add: sample_hist_def hist_less_def)
  have l: "pool_lifecycle sample_hist sample_address"
    by (simp add: pool_lifecycle_def sample_hist_def sample_pool_def hist_less_def)
  have n: "\<forall>e \<in> set sample_hist. normal_event (h_event e)"
    using a by (simp add: sample_hist_def sample_pool_def)
  have ix: "indexed sample_hist sample_tables"
    by (simp add: indexed_def sample_hist_def sample_tables_def indexed_row_def sample_pool_def)
  have "pool_state_of (live_tracker 2 sample_hist) sample_address =
      Some \<lparr>sqrtPriceX96 = 7, v3_tick = 0, v3_liquidity = 500\<rparr>"
    unfolding live_tracker_state [OF s l n]
    by (simp add: sample_hist_def sample_pool_def emptyPoolState_def tickInRange_def)
  moreover have "\<exists>e \<in> set sample_hist. concerns sample_address (h_event e) \<and> is_swap (h_event e) \<and> h_block e \<le> 3"
    by (simp add: sample_hist_def is_swap_def)
  ultimately show ?thesis
    using reload_equals_live [OF s l n ix, of 2] reload_equals_live [OF s l n ix, of 3] by blast
qed

text \<open>Before its first swap a pool's liquidity is not pinned: the tracker that has seen the mint of block 2 and reloads up
  to block 1 keeps the minted 500, where it had none after block 1.\<close>

lemma reload_keeps_stale_liquidity:
  "pool_state_of (loadFromClickHouse True True 1 sample_tables (live_tracker 2 sample_hist)) sample_address =
     Some \<lparr>sqrtPriceX96 = 7, v3_tick = 0, v3_liquidity = 500\<rparr>"
  "pool_state_of (live_tracker 1 sample_hist) sample_address = Some \<lparr>sqrtPriceX96 = 7, v3_tick = 0, v3_liquidity = 0\<rparr>"
  by code_simp+

end
