(* ===== verification/Balance_Reconcile.thy ===== *)
theory Balance_Reconcile
  imports Js_Strings
begin

text \<open>
  The diff-only reconcile of the balance sweep (\<^verbatim>\<open>src/raw/balanceReconcile.ts\<close>): which rows of a
  full storage read at a pinned block are written, and which vanished pairs are zeroed.

  A balance row carries the fields the reconcile reads; a NULL column is \<^const>\<open>None\<close>. The object's
  mutable members are the state threaded through its operations.
\<close>

section \<open>The reconciler\<close>

record balance_row =
  account_id :: string
  asset_id :: string
  total_balance :: "string option"
  free_balance :: "string option"
  reserved_balance :: "string option"

record projected_balance =
  sig :: string
  lastBlock :: int

datatype balance_diff_kind = Changed | Missing | Absent

record balance_diff_example =
  ex_kind :: balance_diff_kind
  ex_account :: string
  ex_asset :: string
  ex_projected :: "string option"
  ex_storage :: string
  ex_projected_block :: "int option"

record balance_reconcile_stats =
  compared :: nat
  unchanged :: nat
  superseded :: nat
  changed_count :: nat
  missing_count :: nat
  absent_count :: nat

record balance_reconciler =
  projection :: "(string, projected_balance) jsmap"
  anchorBlock :: int
  maxExamples :: nat
  seen :: "string list"
  stats :: balance_reconcile_stats
  examples :: "balance_diff_example list"

definition NATIVE_ASSET_ID :: string where
  "NATIVE_ASSET_ID = ''0''"

definition ZERO_SIGNATURE :: string where
  "ZERO_SIGNATURE = ''0|0|0''"

definition balanceSignature :: "string option \<Rightarrow> string option \<Rightarrow> string option \<Rightarrow> string" where
  "balanceSignature tot free reserved =
     (let text = (\<lambda>v. case v of None \<Rightarrow> [] | Some s \<Rightarrow> s)
      in text tot @ ''|'' @ text free @ ''|'' @ text reserved)"

definition pairKey :: "string \<Rightarrow> string \<Rightarrow> string" where
  "pairKey account asset = account @ ''|'' @ asset"

definition new_reconciler :: "(string, projected_balance) jsmap \<Rightarrow> int \<Rightarrow> nat \<Rightarrow> balance_reconciler" where
  "new_reconciler proj anchor limit =
     \<lparr>projection = proj, anchorBlock = anchor, maxExamples = limit, seen = [],
      stats = \<lparr>compared = 0, unchanged = 0, superseded = 0, changed_count = 0, missing_count = 0, absent_count = 0\<rparr>,
      examples = []\<rparr>"

definition add_example ::
  "balance_diff_kind \<Rightarrow> string \<Rightarrow> string \<Rightarrow> projected_balance option \<Rightarrow> string
    \<Rightarrow> balance_reconciler \<Rightarrow> balance_reconciler" where
  "add_example kind account asset projected storage r =
     (if length (examples r) \<ge> maxExamples r then r
      else r\<lparr>examples := examples r @
        [\<lparr>ex_kind = kind, ex_account = account, ex_asset = asset,
          ex_projected = map_option sig projected, ex_storage = storage,
          ex_projected_block = map_option lastBlock projected\<rparr>]\<rparr>)"

definition row_key :: "balance_row \<Rightarrow> string" where
  "row_key row = pairKey (account_id row) (asset_id row)"

definition row_sig :: "balance_row \<Rightarrow> string" where
  "row_sig row = balanceSignature (total_balance row) (free_balance row) (reserved_balance row)"

text \<open>One row of \<open>filter\<close>: whether it is kept.\<close>

definition filter_row :: "balance_row \<Rightarrow> balance_reconciler \<Rightarrow> bool \<times> balance_reconciler" where
  "filter_row row r0 =
     (let key = row_key row;
          r = r0\<lparr>seen := set_add key (seen r0), stats := (stats r0)\<lparr>compared := compared (stats r0) + 1\<rparr>\<rparr>;
          projected = map_of (projection r) key in
      if (case projected of None \<Rightarrow> False | Some p \<Rightarrow> lastBlock p > anchorBlock r)
      then (False, r\<lparr>stats := (stats r)\<lparr>superseded := superseded (stats r) + 1\<rparr>\<rparr>)
      else
        (let s = row_sig row in
         case projected of
           None \<Rightarrow>
             (True, add_example Missing (account_id row) (asset_id row) projected s
                (r\<lparr>stats := (stats r)\<lparr>missing_count := missing_count (stats r) + 1\<rparr>\<rparr>))
         | Some p \<Rightarrow>
             if sig p = s then (False, r\<lparr>stats := (stats r)\<lparr>unchanged := unchanged (stats r) + 1\<rparr>\<rparr>)
             else
               (True, add_example Changed (account_id row) (asset_id row) projected s
                  (r\<lparr>stats := (stats r)\<lparr>changed_count := changed_count (stats r) + 1\<rparr>\<rparr>))))"

fun filter_rows :: "balance_row list \<Rightarrow> balance_reconciler \<Rightarrow> balance_row list \<times> balance_reconciler" where
  "filter_rows [] r = ([], r)"
| "filter_rows (row # rows) r =
     (let (keep, r1) = filter_row row r; (out, r2) = filter_rows rows r1
      in (if keep then row # out else out, r2))"

text \<open>\<open>key.lastIndexOf('|')\<close>, with \<open>slice\<close> reading \<open>-1\<close> as the last position.\<close>

definition split_last_bar :: "string \<Rightarrow> string \<times> string" where
  "split_last_bar key =
     (if CHR ''|'' \<in> set key
      then (let asset = rev (takeWhile (\<lambda>c. c \<noteq> CHR ''|'') (rev key))
            in (take (length key - length asset - 1) key, asset))
      else (take (length key - 1) key, key))"

record absent_scope =
  scope_native :: bool
  scope_tokens :: bool

definition absent_candidate :: "absent_scope \<Rightarrow> balance_reconciler \<Rightarrow> string \<times> projected_balance \<Rightarrow> bool" where
  "absent_candidate scope r entry =
     (let (key, p) = entry; (account, asset) = split_last_bar key in
      \<not> (key \<in> set (seen r) \<or> lastBlock p > anchorBlock r \<or> sig p = ZERO_SIGNATURE)
      \<and> (if asset = NATIVE_ASSET_ID then scope_native scope else scope_tokens scope))"

fun absent_loop ::
  "absent_scope \<Rightarrow> (string \<times> projected_balance) list \<Rightarrow> balance_reconciler
    \<Rightarrow> (string \<times> string) list \<times> balance_reconciler" where
  "absent_loop scope [] r = ([], r)"
| "absent_loop scope ((key, p) # entries) r =
     (if absent_candidate scope r (key, p)
      then
        (let (account, asset) = split_last_bar key;
             r1 = add_example Absent account asset (Some p) ZERO_SIGNATURE
                    (r\<lparr>stats := (stats r)\<lparr>absent_count := absent_count (stats r) + 1\<rparr>\<rparr>);
             (out, r2) = absent_loop scope entries r1
         in ((account, asset) # out, r2))
      else absent_loop scope entries r)"

definition absentPairs :: "absent_scope \<Rightarrow> balance_reconciler \<Rightarrow> (string \<times> string) list \<times> balance_reconciler" where
  "absentPairs scope r = absent_loop scope (projection r) r"

definition diffCount :: "balance_reconciler \<Rightarrow> nat" where
  "diffCount r = changed_count (stats r) + missing_count (stats r) + absent_count (stats r)"

datatype balance_sweep_mode = Seed | Reconcile

definition balanceSweepMode :: "bool \<Rightarrow> bool \<Rightarrow> balance_sweep_mode" where
  "balanceSweepMode reconcile seeded = (if reconcile \<and> seeded then Reconcile else Seed)"

section \<open>A whole sweep\<close>

text \<open>Every page is filtered, then the absent pairs are collected.\<close>

fun filter_pages :: "balance_row list list \<Rightarrow> balance_reconciler \<Rightarrow> balance_row list \<times> balance_reconciler" where
  "filter_pages [] r = ([], r)"
| "filter_pages (page # pages) r =
     (let (out, r1) = filter_rows page r; (rest, r2) = filter_pages pages r1 in (out @ rest, r2))"

definition sweep ::
  "absent_scope \<Rightarrow> balance_row list list \<Rightarrow> balance_reconciler
    \<Rightarrow> balance_row list \<times> (string \<times> string) list \<times> balance_reconciler" where
  "sweep scope pages r =
     (let (rows, r1) = filter_pages pages r; (absent, r2) = absentPairs scope r1 in (rows, absent, r2))"

lemma add_example_simps [simp]:
  "projection (add_example k a b p s r) = projection r"
  "anchorBlock (add_example k a b p s r) = anchorBlock r"
  "seen (add_example k a b p s r) = seen r"
  "stats (add_example k a b p s r) = stats r"
  by (simp_all add: add_example_def)

definition row_kept :: "balance_reconciler \<Rightarrow> balance_row \<Rightarrow> bool" where
  "row_kept r row \<longleftrightarrow>
     (case map_of (projection r) (row_key row) of None \<Rightarrow> True
      | Some p \<Rightarrow> lastBlock p \<le> anchorBlock r \<and> sig p \<noteq> row_sig row)"

lemma row_kept_cong:
  "projection r' = projection r \<Longrightarrow> anchorBlock r' = anchorBlock r \<Longrightarrow> row_kept r' = row_kept r"
  by (intro ext) (simp add: row_kept_def split: option.split)

lemma filter_row_result:
  "filter_row row r = (keep, r') \<Longrightarrow> keep = row_kept r row \<and> projection r' = projection r
     \<and> anchorBlock r' = anchorBlock r \<and> set (seen r') = insert (row_key row) (set (seen r))
     \<and> diffCount r' = diffCount r + (if keep then 1 else 0)"
  by (auto simp: filter_row_def row_kept_def Let_def diffCount_def split: option.splits if_splits)

lemma filter_rows_result:
  "filter_rows rows r = (out, r') \<Longrightarrow> out = filter (row_kept r) rows \<and> projection r' = projection r
     \<and> anchorBlock r' = anchorBlock r \<and> set (seen r') = row_key ` set rows \<union> set (seen r)
     \<and> diffCount r' = diffCount r + length out"
proof (induction rows r arbitrary: out r' rule: filter_rows.induct)
  case (2 row rows r)
  obtain keep r1 out1 r2 where s: "filter_row row r = (keep, r1)" "filter_rows rows r1 = (out1, r2)"
    by (metis prod.collapse)
  note one = filter_row_result [OF s(1)]
  have same: "row_kept r1 = row_kept r" using one row_kept_cong by blast
  from "2.IH" [OF s(1) [symmetric] refl s(2), unfolded same] one "2.prems" s show ?case by auto
qed simp

lemma filter_pages_result:
  "filter_pages pages r = (out, r') \<Longrightarrow> out = filter (row_kept r) (concat pages)
     \<and> projection r' = projection r \<and> anchorBlock r' = anchorBlock r
     \<and> set (seen r') = row_key ` set (concat pages) \<union> set (seen r) \<and> diffCount r' = diffCount r + length out"
proof (induction pages r arbitrary: out r' rule: filter_pages.induct)
  case (2 page pages r)
  obtain o1 r1 o2 r2 where s: "filter_rows page r = (o1, r1)" "filter_pages pages r1 = (o2, r2)"
    by (metis prod.collapse)
  note one = filter_rows_result [OF s(1)]
  have same: "row_kept r1 = row_kept r" using one row_kept_cong by blast
  from "2.IH" [OF s(1) [symmetric] refl s(2), unfolded same] one "2.prems" s show ?case by auto
qed simp

lemma split_last_bar_key:
  assumes "CHR ''|'' \<in> set key"
  shows "pairKey (fst (split_last_bar key)) (snd (split_last_bar key)) = key"
proof -
  from split_list_last [OF assms] obtain ys zs where k: "key = ys @ CHR ''|'' # zs" "CHR ''|'' \<notin> set zs"
    by blast
  have "takeWhile (\<lambda>c. c \<noteq> CHR ''|'') (rev zs @ CHR ''|'' # rev ys) = rev zs"
    using k(2) by (subst takeWhile_append2) auto
  with k assms show ?thesis by (simp add: split_last_bar_def Let_def pairKey_def)
qed

lemma absent_loop_result:
  "absent_loop scope entries r = (out, r') \<Longrightarrow>
     out = map (split_last_bar o fst) (filter (absent_candidate scope r) entries)
     \<and> diffCount r' = diffCount r + length out"
proof (induction entries arbitrary: r out r')
  case (Cons e entries)
  obtain key p where e: "e = (key, p)" by (cases e)
  show ?case
  proof (cases "absent_candidate scope r (key, p)")
    case True
    obtain account asset where sp: "split_last_bar key = (account, asset)" by fastforce
    define r1 where "r1 = add_example Absent account asset (Some p) ZERO_SIGNATURE
      (r\<lparr>stats := (stats r)\<lparr>absent_count := absent_count (stats r) + 1\<rparr>\<rparr>)"
    obtain o1 r2 where s: "absent_loop scope entries r1 = (o1, r2)" by fastforce
    have same: "absent_candidate scope r1 = absent_candidate scope r"
      by (auto simp: r1_def absent_candidate_def fun_eq_iff)
    have d: "diffCount r1 = diffCount r + 1" by (simp add: r1_def diffCount_def)
    have "out = (account, asset) # o1" "r' = r2"
      using Cons.prems True sp s by (simp_all add: e r1_def)
    with Cons.IH [OF s] same d True sp show ?thesis by (simp add: e)
  next
    case False
    with Cons.prems have "absent_loop scope entries r = (out, r')" by (simp add: e)
    from Cons.IH [OF this] False show ?thesis by (simp add: e)
  qed
qed simp

text \<open>
  What the projection reads once the written rows are in: a kept row, a zeroed pair, or as before. The rows are written
  at the anchor, and the projection keeps a pair's row of the greatest height (\<open>argMax\<close> in
  \<^verbatim>\<open>003_materialized_views.sql\<close>), so they replace every row of an earlier block; where the row it holds is of the
  anchor block itself the two tie, and the written one is taken to win.
\<close>

definition projected_after ::
  "balance_reconciler \<Rightarrow> balance_row list \<Rightarrow> (string \<times> string) list \<Rightarrow> string \<Rightarrow> string" where
  "projected_after r rows absent key =
     (case List.find (\<lambda>row. row_key row = key) rows of
        Some row \<Rightarrow> row_sig row
      | None \<Rightarrow>
          if key \<in> (\<lambda>(a, b). pairKey a b) ` set absent then ZERO_SIGNATURE
          else (case map_of (projection r) key of None \<Rightarrow> ZERO_SIGNATURE | Some p \<Rightarrow> sig p))"

definition storage_sig :: "balance_row list list \<Rightarrow> string \<Rightarrow> string" where
  "storage_sig pages key =
     (case List.find (\<lambda>row. row_key row = key) (concat pages) of None \<Rightarrow> ZERO_SIGNATURE | Some row \<Rightarrow> row_sig row)"

lemma find_filter_key:
  assumes "distinct (map k xs)"
  shows "List.find (\<lambda>x. k x = a) (filter P xs) =
    (case List.find (\<lambda>x. k x = a) xs of None \<Rightarrow> None | Some x \<Rightarrow> if P x then Some x else None)"
  using assms
proof (induction xs)
  case (Cons x xs)
  show ?case
  proof (cases "k x = a")
    case True
    have "List.find (\<lambda>y. k y = a) xs = None"
    proof -
      have "k x \<notin> k ` set xs" using Cons.prems by simp
      then have "\<forall>y \<in> set xs. k y \<noteq> a" using True by (metis image_eqI)
      then show ?thesis by (auto simp: find_None_iff)
    qed
    with Cons True show ?thesis by (cases "P x") (auto simp: find_None_iff)
  qed (use Cons in auto)
qed simp

text \<open>C36: A full sweep that reads both storage maps brings the projection to storage: for every pair whose
  projection is not already newer than the pinned block, the newest balance after the written rows is
  the one storage holds (zero for a pair storage does not hold), and exactly the reported number of
  differences is written.\<close>

theorem reconcile_reaches_storage:
  assumes "sweep \<lparr>scope_native = True, scope_tokens = True\<rparr> pages (new_reconciler proj anchor limit) = (rows, absent, r')"
    and "distinct (map row_key (concat pages))" and "map_wf proj"
    and "\<And>k. k \<in> fst ` set proj \<Longrightarrow> CHR ''|'' \<in> set k"
    and "\<And>p. map_of proj key = Some p \<Longrightarrow> lastBlock p \<le> anchor"
  shows "projected_after (new_reconciler proj anchor limit) rows absent key = storage_sig pages key
    \<and> diffCount r' = length rows + length absent"
proof -
  let ?r = "new_reconciler proj anchor limit"
  let ?scope = "\<lparr>scope_native = True, scope_tokens = True\<rparr>"
  obtain r1 where f: "filter_pages pages ?r = (rows, r1)" and a: "absentPairs ?scope r1 = (absent, r')"
    using assms(1) by (auto simp: sweep_def split: prod.splits)
  note fr = filter_pages_result [OF f]
  have p: "projection ?r = proj" "anchorBlock ?r = anchor" "seen ?r = []" "diffCount ?r = 0"
    by (simp_all add: new_reconciler_def diffCount_def)
  have r1: "projection r1 = proj" "anchorBlock r1 = anchor" "set (seen r1) = row_key ` set (concat pages)"
    using fr p by auto
  note ar = absent_loop_result [OF a [unfolded absentPairs_def r1(1)]]
  have absent_iff: "key \<in> (\<lambda>(a, b). pairKey a b) ` set absent \<longleftrightarrow>
      (\<exists>q. map_of proj key = Some q \<and> absent_candidate ?scope r1 (key, q))"
  proof -
    have sp: "k \<in> fst ` set proj \<Longrightarrow> (case split_last_bar k of (a, b) \<Rightarrow> pairKey a b) = k" for k
      using split_last_bar_key [OF assms(4)] by (metis case_prod_beta)
    let ?F = "set (filter (absent_candidate ?scope r1) proj)"
    have "(\<lambda>(a, b). pairKey a b) ` set absent = (\<lambda>e. case split_last_bar (fst e) of (a, b) \<Rightarrow> pairKey a b) ` ?F"
      using ar by (simp add: image_image o_def)
    also have "\<dots> = fst ` ?F"
      by (rule image_cong [OF refl]) (auto intro!: sp simp: image_iff)
    finally have img: "(\<lambda>(a, b). pairKey a b) ` set absent = fst ` ?F" .
    have "key \<in> fst ` ?F \<longleftrightarrow> (\<exists>q. (key, q) \<in> set proj \<and> absent_candidate ?scope r1 (key, q))"
      by (auto simp: image_iff)
    then show ?thesis unfolding img using assms(3) by (metis map_of_eq_Some_iff)
  qed
  have "projected_after ?r rows absent key = storage_sig pages key"
  proof (cases "List.find (\<lambda>row. row_key row = key) (concat pages)")
    case (Some row)
    then have row: "row \<in> set (concat pages)" "row_key row = key"
      unfolding find_Some_iff by (metis nth_mem)+
    have "key \<in> set (seen r1)" using r1(3) row by auto
    then have no: "key \<notin> (\<lambda>(a, b). pairKey a b) ` set absent"
      unfolding absent_iff by (simp add: absent_candidate_def split: prod.splits)
    show ?thesis
    proof (cases "row_kept ?r row")
      case True
      with Some fr show ?thesis
        by (simp add: projected_after_def storage_sig_def find_filter_key [OF assms(2)])
    next
      case False
      then obtain q where "map_of proj key = Some q" "sig q = row_sig row"
        using row(2) assms(5) p by (auto simp: row_kept_def split: option.splits)
      with Some False fr no p show ?thesis
        by (simp add: projected_after_def storage_sig_def find_filter_key [OF assms(2)])
    qed
  next
    case None
    then have unseen: "key \<notin> set (seen r1)" using r1(3) by (auto simp: find_None_iff)
    have gone: "List.find (\<lambda>row. row_key row = key) rows = None"
      using None fr by (simp add: find_filter_key [OF assms(2)])
    show ?thesis
    proof (cases "map_of proj key")
      case nothing: None
      with gone None p nothing show ?thesis by (simp add: projected_after_def storage_sig_def)
    next
      case (Some q)
      with assms(5) unseen r1 have "absent_candidate ?scope r1 (key, q) \<longleftrightarrow> sig q \<noteq> ZERO_SIGNATURE"
        by (auto simp: absent_candidate_def split: prod.splits)
      with Some gone None p absent_iff show ?thesis by (auto simp: projected_after_def storage_sig_def)
    qed
  qed
  moreover have "diffCount r' = length rows + length absent" using ar fr p by simp
  ultimately show ?thesis ..
qed

theorem reconcile_reaches_storage_witness:
  "\<exists>rows absent r'. sweep \<lparr>scope_native = True, scope_tokens = True\<rparr>
       [[\<lparr>account_id = ''a'', asset_id = ''0'', total_balance = Some ''5'', free_balance = Some ''5'', reserved_balance = Some ''0''\<rparr>]]
       (new_reconciler [(''b|7'', \<lparr>sig = ''9|9|0'', lastBlock = 3\<rparr>)] 10 20) = (rows, absent, r')
     \<and> absent = [(''b'', ''7'')]
     \<and> projected_after (new_reconciler [(''b|7'', \<lparr>sig = ''9|9|0'', lastBlock = 3\<rparr>)] 10 20) rows absent ''b|7'' = ''0|0|0''"
proof -
  let ?page = "[\<lparr>account_id = ''a'', asset_id = ''0'', total_balance = Some ''5'', free_balance = Some ''5'', reserved_balance = Some ''0''\<rparr>]"
  let ?proj = "[(''b|7'', \<lparr>sig = ''9|9|0'', lastBlock = 3\<rparr>)]"
  obtain rows absent r' where s: "sweep \<lparr>scope_native = True, scope_tokens = True\<rparr> [?page]
      (new_reconciler ?proj 10 20) = (rows, absent, r')"
    by (metis prod_cases3)
  have ab: "absent = [(''b'', ''7'')]"
    using s by (simp add: sweep_def new_reconciler_def filter_row_def row_key_def pairKey_def row_sig_def
        balanceSignature_def absentPairs_def absent_candidate_def Let_def NATIVE_ASSET_ID_def split_last_bar_def ZERO_SIGNATURE_def
        set_add_def add_example_def split: prod.splits)
  have "projected_after (new_reconciler ?proj 10 20) rows absent ''b|7'' = storage_sig [?page] ''b|7''"
    using reconcile_reaches_storage [OF s, of "''b|7''"] by (simp add: row_key_def pairKey_def)
  moreover have "storage_sig [?page] ''b|7'' = ''0|0|0''"
    by (simp add: storage_sig_def row_key_def pairKey_def ZERO_SIGNATURE_def)
  ultimately have "projected_after (new_reconciler ?proj 10 20) rows absent ''b|7'' = ''0|0|0''" by simp
  with s ab show ?thesis by (intro exI conjI)
qed

end
