(* ===== verification/Trade_Sides.thy ===== *)
theory Trade_Sides
  imports Js_Strings
begin

text \<open>
  Whose trade a fill is: folding the two hub hops of an Omnipool route
  (\<^verbatim>\<open>src/blocks/hubHops.ts\<close>), the two sides of an OTC fill (\<^verbatim>\<open>src/blocks/otcCounterparty.ts\<close>)
  and the owner an ICE settlement names (\<^verbatim>\<open>src/blocks/icePotSettlement.ts\<close>). \<open>null\<close> and
  \<open>undefined\<close> are \<^const>\<open>None\<close>; an empty string is falsy.
\<close>

section \<open>Trades\<close>

type_synonym leg = "int \<times> int"

record decoded_trade =
  inputs :: "leg list"
  outputs :: "leg list"
  trader :: "string option"
  filler :: "string option"
  fillerAccount :: "string option"
  counterparty :: "string option"

definition truthy :: "string option \<Rightarrow> bool" where
  "truthy s \<longleftrightarrow> s \<noteq> None \<and> s \<noteq> Some []"

section \<open>Omnipool hub hops\<close>

definition HUB_ASSET_ID :: int where
  "HUB_ASSET_ID = 1"

definition isOmnipoolHop :: "decoded_trade \<Rightarrow> bool" where
  "isOmnipoolHop t \<longleftrightarrow> filler t = Some ''Omnipool'' \<and> length (inputs t) = 1 \<and> length (outputs t) = 1"

definition paysOutHub :: "decoded_trade \<Rightarrow> bool" where
  "paysOutHub t \<longleftrightarrow> isOmnipoolHop t \<and> fst (outputs t ! 0) = HUB_ASSET_ID"

definition takesInHub :: "decoded_trade \<Rightarrow> bool" where
  "takesInHub t \<longleftrightarrow> isOmnipoolHop t \<and> fst (inputs t ! 0) = HUB_ASSET_ID"

definition hub_pair :: "(decoded_trade \<Rightarrow> string option) \<Rightarrow> decoded_trade \<Rightarrow> decoded_trade \<Rightarrow> bool" where
  "hub_pair traderOf t u \<longleftrightarrow>
     paysOutHub t \<and> takesInHub u \<and> truthy (traderOf t) \<and> traderOf t = traderOf u"

fun foldOmnipoolHubHops :: "(decoded_trade \<Rightarrow> string option) \<Rightarrow> decoded_trade list \<Rightarrow> decoded_trade list" where
  "foldOmnipoolHubHops traderOf [] = []"
| "foldOmnipoolHubHops traderOf [t] = [t]"
| "foldOmnipoolHubHops traderOf (t # u # ts) =
     (if hub_pair traderOf t u
      then t\<lparr>inputs := inputs t, outputs := outputs u\<rparr> # foldOmnipoolHubHops traderOf ts
      else t # foldOmnipoolHubHops traderOf (u # ts))"

section \<open>OTC fills\<close>

definition OTC_FILL_EVENT_NAMES :: "string list" where
  "OTC_FILL_EVENT_NAMES = [''OTC.Filled'', ''OTC.PartiallyFilled'']"

definition OTC_FILLER_KIND :: string where
  "OTC_FILLER_KIND = ''OTC''"

definition otcSides :: "string option \<Rightarrow> string option \<Rightarrow> string option \<Rightarrow> (string \<times> string) option" where
  "otcSides swapper fillerAcc taker =
     (case (swapper, fillerAcc, taker) of
        (Some s, Some f, Some t) \<Rightarrow>
          if t = [] \<or> s = [] \<or> f = [] then None
          else if t = s then Some (s, f)
          else if t = f then Some (f, s)
          else None
      | _ \<Rightarrow> None)"

section \<open>ICE settlements\<close>

definition ICE_POT_ACCOUNT :: string where
  "ICE_POT_ACCOUNT = ''0x6d6f646c6963655f696365230000000000000000000000000000000000000000''"

definition FEE_PROCESSOR_ACCOUNT :: string where
  "FEE_PROCESSOR_ACCOUNT = ''0x6d6f646c66656570726f632f0000000000000000000000000000000000000000''"

definition UNATTRIBUTABLE_VOLUME_POTS :: "string list" where
  "UNATTRIBUTABLE_VOLUME_POTS = [FEE_PROCESSOR_ACCOUNT]"

definition ICE_SETTLEMENT_TRANSFER_EVENTS :: "string list" where
  "ICE_SETTLEMENT_TRANSFER_EVENTS = [''Tokens.Transfer'', ''Currencies.Transferred'']"

definition normalize_account :: "string option \<Rightarrow> string option" where
  "normalize_account a = (case a of None \<Rightarrow> None | Some s \<Rightarrow> if length s = 0 then None else Some (to_lower s))"

definition MODULE_ACCOUNT_PREFIX :: string where
  "MODULE_ACCOUNT_PREFIX = ''0x6d6f646c''"

definition isModuleAccount :: "string \<Rightarrow> bool" where
  "isModuleAccount a \<longleftrightarrow> starts_with MODULE_ACCOUNT_PREFIX a"

definition isIcePotSwapper :: "string option \<Rightarrow> bool" where
  "isIcePotSwapper swapper \<longleftrightarrow> normalize_account swapper = Some ICE_POT_ACCOUNT"

definition isUnattributableVolumePot :: "string option \<Rightarrow> bool" where
  "isUnattributableVolumePot a =
     (case normalize_account a of None \<Rightarrow> False | Some i \<Rightarrow> list_ex (\<lambda>pot. pot = i) UNATTRIBUTABLE_VOLUME_POTS)"

definition pot_counterparty :: "string option \<times> string option \<Rightarrow> string option" where
  "pot_counterparty l =
     (let f = normalize_account (fst l); t = normalize_account (snd l) in
      if f = Some ICE_POT_ACCOUNT then t else if t = Some ICE_POT_ACCOUNT then f else None)"

definition owner_step :: "string list \<Rightarrow> string option \<times> string option \<Rightarrow> string list" where
  "owner_step owners l =
     (case pot_counterparty l of None \<Rightarrow> owners
      | Some c \<Rightarrow> if c = ICE_POT_ACCOUNT \<or> isModuleAccount c then owners else set_add c owners)"

definition icePotSettlementOwner :: "(string option \<times> string option) list \<Rightarrow> string option" where
  "icePotSettlementOwner legs =
     (let owners = foldl owner_step [] legs in if length owners = 1 then Some (owners ! 0) else None)"

section \<open>What folding the hub hops keeps\<close>

definition leg_sum :: "int \<Rightarrow> leg list \<Rightarrow> int" where
  "leg_sum a legs = sum_list (map snd (filter (\<lambda>l. fst l = a) legs))"

definition paid_in :: "int \<Rightarrow> decoded_trade list \<Rightarrow> int" where
  "paid_in a ts = sum_list (map (\<lambda>t. leg_sum a (inputs t)) ts)"

definition paid_out :: "int \<Rightarrow> decoded_trade list \<Rightarrow> int" where
  "paid_out a ts = sum_list (map (\<lambda>t. leg_sum a (outputs t)) ts)"

lemma paid_simps [simp]:
  "paid_in a [] = 0" "paid_in a (t # ts) = leg_sum a (inputs t) + paid_in a ts"
  "paid_out a [] = 0" "paid_out a (t # ts) = leg_sum a (outputs t) + paid_out a ts"
  by (simp_all add: paid_in_def paid_out_def)

lemma hub_leg:
  "paysOutHub t \<Longrightarrow> a \<noteq> HUB_ASSET_ID \<Longrightarrow> leg_sum a (outputs t) = 0"
  "takesInHub t \<Longrightarrow> a \<noteq> HUB_ASSET_ID \<Longrightarrow> leg_sum a (inputs t) = 0"
  by (auto simp: paysOutHub_def takesInHub_def isOmnipoolHop_def leg_sum_def length_Suc_conv)

lemma fold_hub_paid:
  assumes "a \<noteq> HUB_ASSET_ID"
  shows "paid_in a (foldOmnipoolHubHops traderOf ts) = paid_in a ts"
    and "paid_out a (foldOmnipoolHubHops traderOf ts) = paid_out a ts"
  by (induction traderOf ts rule: foldOmnipoolHubHops.induct)
    (auto simp: hub_pair_def hub_leg assms)

lemma fold_hub_traders:
  "trader ` set (foldOmnipoolHubHops trader ts) = trader ` set ts"
proof (induction "length ts" arbitrary: ts rule: less_induct)
  case less
  show ?case
  proof (cases ts)
    case (Cons t us)
    show ?thesis
    proof (cases us)
      case (Cons u vs)
      have "trader ` set (foldOmnipoolHubHops trader vs) = trader ` set vs"
        "trader ` set (foldOmnipoolHubHops trader (u # vs)) = trader ` set (u # vs)"
        by (rule less; simp add: \<open>ts = t # us\<close> Cons)+
      then show ?thesis by (auto simp: \<open>ts = t # us\<close> Cons hub_pair_def)
    qed (simp add: \<open>ts = t # us\<close>)
  qed simp
qed

text \<open>The trade at the head of a folded list pays in what the head of the list paid in.\<close>

lemma fold_hub_head:
  "ts \<noteq> [] \<Longrightarrow> foldOmnipoolHubHops traderOf ts \<noteq> [] \<and>
     inputs (hd (foldOmnipoolHubHops traderOf ts)) = inputs (hd ts)"
  by (cases ts; cases "tl ts") (auto simp: hub_pair_def)

section \<open>What the attribution rules name\<close>

lemma otcSides_swapped:
  "otcSides swapper fillerAcc taker = Some (a, b) \<Longrightarrow>
     Some a = taker \<and> {a, b} = {the swapper, the fillerAcc} \<and> a \<noteq> [] \<and> b \<noteq> []"
  by (auto simp: otcSides_def split: option.splits if_splits)

lemma owner_fold:
  "set (foldl owner_step owners legs) = set owners \<union>
     {c. c \<noteq> ICE_POT_ACCOUNT \<and> \<not> isModuleAccount c \<and> Some c \<in> pot_counterparty ` set legs}"
  by (induction legs arbitrary: owners) (auto simp: owner_step_def split: option.split)

lemma owner_fold_distinct: "distinct owners \<Longrightarrow> distinct (foldl owner_step owners legs)"
  by (induction legs arbitrary: owners) (auto simp: owner_step_def split: option.split)

lemma icePotSettlementOwner_iff:
  "icePotSettlementOwner legs = Some w \<longleftrightarrow>
     {c. c \<noteq> ICE_POT_ACCOUNT \<and> \<not> isModuleAccount c \<and> Some c \<in> pot_counterparty ` set legs} = {w}"
proof -
  let ?os = "foldl owner_step [] legs"
  have s: "set ?os = {c. c \<noteq> ICE_POT_ACCOUNT \<and> \<not> isModuleAccount c \<and> Some c \<in> pot_counterparty ` set legs}"
    using owner_fold [of "[]" legs] by simp
  have d: "distinct ?os" by (rule owner_fold_distinct) simp
  have "icePotSettlementOwner legs = Some w \<longleftrightarrow> ?os = [w]"
    by (auto simp: icePotSettlementOwner_def Let_def length_Suc_conv)
  also have "\<dots> \<longleftrightarrow> set ?os = {w}"
  proof
    assume "set ?os = {w}"
    with d have "length ?os = Suc 0" using distinct_card [of ?os] by simp
    then obtain x where "?os = [x]" by (auto simp: length_Suc_conv)
    with \<open>set ?os = {w}\<close> show "?os = [w]" by simp
  qed simp
  finally show ?thesis by (simp add: s)
qed

text \<open>An ICE settlement is booked to an account exactly when that account is the only one, other than
  the pot and the module accounts, that the pot exchanged funds with in the extrinsic.\<close>

lemma ice_owner_unique:
  "icePotSettlementOwner legs = Some w \<longleftrightarrow>
     (\<forall>c. (c \<noteq> ICE_POT_ACCOUNT \<and> \<not> isModuleAccount c
            \<and> (\<exists>l \<in> set legs. (normalize_account (fst l) = Some ICE_POT_ACCOUNT \<and> normalize_account (snd l) = Some c)
                 \<or> (normalize_account (snd l) = Some ICE_POT_ACCOUNT \<and> normalize_account (fst l) = Some c)))
          \<longleftrightarrow> c = w)"
proof -
  have pot: "pot_counterparty l = Some c \<longleftrightarrow>
      normalize_account (fst l) = Some ICE_POT_ACCOUNT \<and> normalize_account (snd l) = Some c
      \<or> normalize_account (snd l) = Some ICE_POT_ACCOUNT \<and> normalize_account (fst l) = Some c"
    if "c \<noteq> ICE_POT_ACCOUNT" for c l
    using that by (cases "normalize_account (fst l) = Some ICE_POT_ACCOUNT") (auto simp: pot_counterparty_def)
  have "Some c \<in> pot_counterparty ` set legs \<longleftrightarrow> (\<exists>l \<in> set legs. pot_counterparty l = Some c)" for c
    by (simp add: image_iff eq_commute [of "Some c"])
  then show ?thesis unfolding icePotSettlementOwner_iff set_eq_iff
    by (simp add: pot cong: conj_cong)
qed

end
