(* ===== verification/Swap_Decoding.thy ===== *)
theory Swap_Decoding
  imports Uniswap_V3 Trade_Sides
begin

text \<open>
  From the events of a block to its trades (\<^verbatim>\<open>src/registry/swapEvents.ts\<close> and the decoding half of
  \<^verbatim>\<open>src/blocks/extractVolume.ts\<close>).

  The runtime of a block belongs to the Subsquid library: whether its metadata match a typegen arm
  (\<open>checkType\<close>, asked for an event name and a spec version) and its JSON decoder are fields of the
  record \<open>chain_runtime\<close>, and the theorems hold for every such runtime. A decoder that is
  not a function is \<^const>\<open>None\<close>; a decoder that throws answers \<^const>\<open>None\<close>. The decoders' own
  exceptions are caught by the source and become \<open>null\<close>, the \<^const>\<open>None\<close> of a decoding result. What an
  arm decodes has the arm's type, so its numbers are read with \<open>typed_num\<close> and \<open>typed_big\<close>. The
  once-per-version console warnings are left out.
\<close>

section \<open>The catalogue of swap events\<close>

definition UNIFIED_SWAP_EVENTS_SPEC_VERSION :: int where
  "UNIFIED_SWAP_EVENTS_SPEC_VERSION = 282"

definition OMNIPOOL_SWAP_EVENTS :: "string list" where
  "OMNIPOOL_SWAP_EVENTS = [''Omnipool.SellExecuted'', ''Omnipool.BuyExecuted'']"

definition XYK_SWAP_EVENTS :: "string list" where
  "XYK_SWAP_EVENTS = [''XYK.SellExecuted'', ''XYK.BuyExecuted'']"

definition STABLESWAP_SWAP_EVENTS :: "string list" where
  "STABLESWAP_SWAP_EVENTS = [''Stableswap.SellExecuted'', ''Stableswap.BuyExecuted'']"

definition LBP_SWAP_EVENTS :: "string list" where
  "LBP_SWAP_EVENTS = [''LBP.SellExecuted'', ''LBP.BuyExecuted'']"

definition LEGACY_SWAP_EVENT_NAMES :: "string list" where
  "LEGACY_SWAP_EVENT_NAMES =
     OMNIPOOL_SWAP_EVENTS @ XYK_SWAP_EVENTS @ STABLESWAP_SWAP_EVENTS @ LBP_SWAP_EVENTS"

definition UNIFIED_SWAP_EVENT_NAMES :: "string list" where
  "UNIFIED_SWAP_EVENT_NAMES = [''Broadcast.Swapped'', ''Broadcast.Swapped2'', ''Broadcast.Swapped3'']"

datatype event_category = SWAP | LIQUIDITY | LIFECYCLE

definition EVENT_CLASSIFICATION :: "(string, event_category) jsmap" where
  "EVENT_CLASSIFICATION =
    [(''Omnipool.SellExecuted'', SWAP), (''Omnipool.BuyExecuted'', SWAP),
     (''Omnipool.TokenAdded'', LIFECYCLE), (''Omnipool.TokenRemoved'', LIFECYCLE),
     (''XYK.SellExecuted'', SWAP), (''XYK.BuyExecuted'', SWAP),
     (''XYK.PoolCreated'', LIFECYCLE), (''XYK.PoolDestroyed'', LIFECYCLE),
     (''Stableswap.SellExecuted'', SWAP), (''Stableswap.BuyExecuted'', SWAP),
     (''LBP.SellExecuted'', SWAP), (''LBP.BuyExecuted'', SWAP),
     (''Broadcast.Swapped'', SWAP), (''Broadcast.Swapped2'', SWAP), (''Broadcast.Swapped3'', SWAP),
     (''Stableswap.PoolCreated'', LIFECYCLE), (''Stableswap.LiquidityAdded'', LIQUIDITY)]"

definition isSwapEvent :: "string \<Rightarrow> int option \<Rightarrow> bool" where
  "isSwapEvent eventName specVersion =
     (case specVersion of
        Some v \<Rightarrow> if v \<ge> UNIFIED_SWAP_EVENTS_SPEC_VERSION then eventName \<in> set UNIFIED_SWAP_EVENT_NAMES
                  else eventName \<in> set LEGACY_SWAP_EVENT_NAMES
      | None \<Rightarrow> map_of EVENT_CLASSIFICATION eventName = Some SWAP)"

section \<open>Events and the runtime that decodes them\<close>

record chain_runtime =
  checkType :: "string \<Rightarrow> nat \<Rightarrow> bool"
  json_decoder :: "(string \<Rightarrow> json \<Rightarrow> json option) option"

record event_like = block_event +
  event_extrinsicIndex :: "int option"
  event_runtime :: "chain_runtime option"

text \<open>\<open>typeof runtime?.decodeJsonEventRecordArguments !== 'function'\<close> is the outer \<^const>\<open>None\<close>.\<close>

definition decodeJson :: "event_like \<Rightarrow> json option option" where
  "decodeJson e =
     (case event_runtime e of None \<Rightarrow> None
      | Some r \<Rightarrow> map_option (\<lambda>d. d (event_name e) (event_args e)) (json_decoder r))"

text \<open>\<open>arm.is(event)\<close>; \<^const>\<open>None\<close> when the event has no runtime to ask.\<close>

definition arm_is :: "event_like \<Rightarrow> string \<Rightarrow> nat \<Rightarrow> bool option" where
  "arm_is e name version =
     (if name \<noteq> event_name e then Some False
      else map_option (\<lambda>r. checkType r name version) (event_runtime e))"

definition arm_decode :: "event_like \<Rightarrow> string \<Rightarrow> nat \<Rightarrow> json option" where
  "arm_decode e name version =
     (if arm_is e name version = Some True
      then (case decodeJson e of None \<Rightarrow> None | Some decoded \<Rightarrow> decoded) else None)"

definition typed_num :: "json \<Rightarrow> string \<Rightarrow> int option" where
  "typed_num v key = (case get_prop v key of JNum n \<Rightarrow> Some n | _ \<Rightarrow> None)"

definition typed_big :: "json \<Rightarrow> string \<Rightarrow> int option" where
  "typed_big v key = (case get_prop v key of JBig n \<Rightarrow> Some n | _ \<Rightarrow> None)"

definition typed_kind :: "json \<Rightarrow> string \<Rightarrow> string option" where
  "typed_kind v key = (case get_prop (get_prop v key) ''__kind'' of JStr s \<Rightarrow> Some s | _ \<Rightarrow> None)"

fun typed_leg_list :: "json list \<Rightarrow> leg list option" where
  "typed_leg_list [] = Some []"
| "typed_leg_list (item # rest) = do {
     asset \<leftarrow> typed_num item ''asset'';
     amount \<leftarrow> typed_big item ''amount'';
     legs \<leftarrow> typed_leg_list rest;
     Some ((asset, amount) # legs)
   }"

definition typed_legs :: "json \<Rightarrow> string \<Rightarrow> leg list option" where
  "typed_legs v key = (case get_prop v key of JArr items \<Rightarrow> typed_leg_list items | _ \<Rightarrow> None)"

text \<open>\<open>BigInt\<close> of a string: blanks around it are ignored, and \<open>0x\<close>, \<open>0o\<close> and \<open>0b\<close> name a base.\<close>

definition radix_digits :: "nat \<Rightarrow> string \<Rightarrow> int option" where
  "radix_digits b s = (if s = [] then None else map_option int (digits_value b 0 s))"

definition bigint_of_string :: "string \<Rightarrow> int option" where
  "bigint_of_string text =
     (let s = js_trim text; p = to_lower (take 2 s) in
      if p = ''0x'' then radix_digits 16 (drop 2 s)
      else if p = ''0o'' then radix_digits 8 (drop 2 s)
      else if p = ''0b'' then radix_digits 2 (drop 2 s)
      else parse_bigint s)"

definition isAmount :: "json \<Rightarrow> bool" where
  "isAmount v = (case v of JStr _ \<Rightarrow> True | JNum _ \<Rightarrow> True | JBig _ \<Rightarrow> True | _ \<Rightarrow> False)"

definition to_bigint :: "json \<Rightarrow> int option" where
  "to_bigint v = (case v of JStr s \<Rightarrow> bigint_of_string s | JNum n \<Rightarrow> Some n | JBig n \<Rightarrow> Some n | _ \<Rightarrow> None)"

definition normalizeAccount :: "json \<Rightarrow> string option" where
  "normalizeAccount v =
     (case v of
        JStr s \<Rightarrow> if s \<noteq> [] then Some s else None
      | JObj _ \<Rightarrow> (case get_prop v ''value'' of JStr s \<Rightarrow> if s \<noteq> [] then Some s else None | _ \<Rightarrow> None)
      | _ \<Rightarrow> None)"

section \<open>Legacy pallet events\<close>

record decoded_swap =
  swap_trader :: "string option"
  assetIn :: int
  assetOut :: int
  amountIn :: int
  amountOut :: int

definition swap_of_fields :: "string \<Rightarrow> string \<Rightarrow> json \<Rightarrow> decoded_swap option" where
  "swap_of_fields inField outField decoded = do {
     a \<leftarrow> typed_num decoded ''assetIn'';
     b \<leftarrow> typed_num decoded ''assetOut'';
     x \<leftarrow> typed_big decoded inField;
     y \<leftarrow> typed_big decoded outField;
     Some \<lparr>swap_trader = normalizeAccount (get_prop decoded ''who''),
           assetIn = a, assetOut = b, amountIn = x, amountOut = y\<rparr>
   }"

fun try_arms :: "event_like \<Rightarrow> string \<Rightarrow> (json \<Rightarrow> 'a option) \<Rightarrow> nat list \<Rightarrow> 'a option" where
  "try_arms e name build [] = None"
| "try_arms e name build (v # vs) =
     (case arm_is e name v of
        None \<Rightarrow> None
      | Some True \<Rightarrow> (case arm_decode e name v of None \<Rightarrow> None | Some decoded \<Rightarrow> build decoded)
      | Some False \<Rightarrow> try_arms e name build vs)"

definition decodeLbpSwap :: "event_like \<Rightarrow> decoded_swap option" where
  "decodeLbpSwap e =
     (case decodeJson e of
        Some (Some (JObj ps)) \<Rightarrow>
          (let args = JObj ps;
               received = (if event_name e = ''LBP.BuyExecuted'' then get_prop args ''buyPrice''
                           else get_prop args ''salePrice'');
               amount = get_prop args ''amount''
           in do {
             a \<leftarrow> typed_num args ''assetIn'';
             b \<leftarrow> typed_num args ''assetOut'';
             x \<leftarrow> (if isAmount amount then to_bigint amount else None);
             y \<leftarrow> (if isAmount received then to_bigint received else None);
             Some \<lparr>swap_trader = normalizeAccount (get_prop args ''who''),
                   assetIn = a, assetOut = b, amountIn = x, amountOut = y\<rparr>
           })
      | _ \<Rightarrow> None)"

definition decodeSwapEvent :: "event_like \<Rightarrow> decoded_swap option" where
  "decodeSwapEvent e =
     (let name = event_name e in
      if name = ''LBP.SellExecuted'' \<or> name = ''LBP.BuyExecuted'' then decodeLbpSwap e
      else if name = ''Omnipool.SellExecuted'' \<or> name = ''Omnipool.BuyExecuted''
        then try_arms e name (swap_of_fields ''amountIn'' ''amountOut'') [201, 170, 115]
      else if name = ''XYK.SellExecuted'' then try_arms e name (swap_of_fields ''amount'' ''salePrice'') [183]
      else if name = ''XYK.BuyExecuted'' then try_arms e name (swap_of_fields ''buyPrice'' ''amount'') [183]
      else if name = ''Stableswap.SellExecuted'' \<or> name = ''Stableswap.BuyExecuted''
        then try_arms e name (swap_of_fields ''amountIn'' ''amountOut'') [183]
      else None)"

section \<open>Broadcast events\<close>

definition broadcastTrade :: "json \<Rightarrow> json \<Rightarrow> string \<Rightarrow> leg list \<Rightarrow> leg list \<Rightarrow> decoded_trade" where
  "broadcastTrade swapper fillerValue fillerKind ins outs =
     \<lparr>inputs = ins, outputs = outs, trader = normalizeAccount swapper, filler = Some fillerKind,
      fillerAccount = normalizeAccount fillerValue, counterparty = None\<rparr>"

definition broadcast_of :: "json \<Rightarrow> decoded_trade option" where
  "broadcast_of decoded = do {
     kind \<leftarrow> typed_kind decoded ''fillerType'';
     ins \<leftarrow> typed_legs decoded ''inputs'';
     outs \<leftarrow> typed_legs decoded ''outputs'';
     Some (broadcastTrade (get_prop decoded ''swapper'') (get_prop decoded ''filler'') kind ins outs)
   }"

definition decorateLegacyBroadcastTrade ::
  "string \<Rightarrow> string option \<Rightarrow> string option \<Rightarrow> string \<Rightarrow> string \<Rightarrow> leg list \<Rightarrow> leg list \<Rightarrow> decoded_trade" where
  "decorateLegacyBroadcastTrade eventName traderAcc fillerAcc fillerType operation ins outs =
     (if eventName = ''Broadcast.Swapped'' \<and> operation = ''ExactOut''
         \<and> (fillerType = ''XYK'' \<or> fillerType = ''LBP'') \<and> length ins = 1 \<and> length outs = 1
      then \<lparr>inputs = [(fst (ins ! 0), snd (outs ! 0))], outputs = [(fst (outs ! 0), snd (ins ! 0))],
             trader = traderAcc, filler = Some fillerType, fillerAccount = fillerAcc, counterparty = None\<rparr>
      else \<lparr>inputs = ins, outputs = outs, trader = traderAcc, filler = Some fillerType,
             fillerAccount = fillerAcc, counterparty = None\<rparr>)"

definition legacy_broadcast_of :: "string \<Rightarrow> json \<Rightarrow> decoded_trade option" where
  "legacy_broadcast_of name decoded = do {
     kind \<leftarrow> typed_kind decoded ''fillerType'';
     operation \<leftarrow> typed_kind decoded ''operation'';
     ins \<leftarrow> typed_legs decoded ''inputs'';
     outs \<leftarrow> typed_legs decoded ''outputs'';
     Some (decorateLegacyBroadcastTrade name (normalizeAccount (get_prop decoded ''swapper''))
             (normalizeAccount (get_prop decoded ''filler'')) kind operation ins outs)
   }"

fun json_leg_list :: "json list \<Rightarrow> leg list option" where
  "json_leg_list [] = Some []"
| "json_leg_list (item # rest) = do {
     asset \<leftarrow> typed_num item ''asset'';
     amount \<leftarrow> (if isAmount (get_prop item ''amount'') then to_bigint (get_prop item ''amount'') else None);
     legs \<leftarrow> json_leg_list rest;
     Some ((asset, amount) # legs)
   }"

definition json_legs :: "json \<Rightarrow> leg list option" where
  "json_legs v = (case v of JArr items \<Rightarrow> json_leg_list items | _ \<Rightarrow> None)"

definition jsonBroadcastTrade :: "event_like \<Rightarrow> decoded_trade option" where
  "jsonBroadcastTrade e =
     (case decodeJson e of
        Some (Some (JObj ps)) \<Rightarrow>
          (let args = JObj ps in
           case (get_prop args ''swapper'', get_prop (get_prop args ''fillerType'') ''__kind'') of
             (JStr swapper, JStr fillerKind) \<Rightarrow> do {
               ins \<leftarrow> json_legs (get_prop args ''inputs'');
               outs \<leftarrow> json_legs (get_prop args ''outputs'');
               Some (broadcastTrade (JStr swapper) (get_prop args ''filler'') fillerKind ins outs)
             }
           | _ \<Rightarrow> None)
      | _ \<Rightarrow> None)"

text \<open>\<open>fallback_arms\<close> is the tail of the cascade: where no arm matches, the metadata's own form decides.\<close>

fun fallback_arms :: "event_like \<Rightarrow> string \<Rightarrow> (json \<Rightarrow> decoded_trade option) \<Rightarrow> nat list \<Rightarrow> decoded_trade option" where
  "fallback_arms e name build [] = jsonBroadcastTrade e"
| "fallback_arms e name build (v # vs) =
     (case arm_is e name v of
        None \<Rightarrow> None
      | Some True \<Rightarrow> (case arm_decode e name v of None \<Rightarrow> None | Some decoded \<Rightarrow> build decoded)
      | Some False \<Rightarrow> fallback_arms e name build vs)"

definition decodeTradeEvent :: "event_like \<Rightarrow> decoded_trade option" where
  "decodeTradeEvent e =
     (case decodeSwapEvent e of
        Some s \<Rightarrow> Some \<lparr>inputs = [(assetIn s, amountIn s)], outputs = [(assetOut s, amountOut s)],
                       trader = swap_trader s, filler = None, fillerAccount = None, counterparty = None\<rparr>
      | None \<Rightarrow>
          (let name = event_name e in
           if name = ''Broadcast.Swapped'' then fallback_arms e name (legacy_broadcast_of name) [282]
           else if name = ''Broadcast.Swapped2'' then fallback_arms e name broadcast_of [305]
           else if name = ''Broadcast.Swapped3'' then fallback_arms e name broadcast_of [443, 323, 313]
           else if starts_with ''Broadcast.Swapped'' name then jsonBroadcastTrade e
           else None))"

section \<open>One family of events per runtime\<close>

text \<open>No fill is read twice: below spec version 282 only the pallets' own events are swaps, from it on only
  the unified ones, and the two families together are exactly the events classified as swaps.\<close>

lemma swap_families_split:
  assumes "old < 282" and "282 \<le> new"
  shows "(isSwapEvent name None \<longleftrightarrow> isSwapEvent name (Some old) \<or> isSwapEvent name (Some new))
    \<and> \<not> (isSwapEvent name (Some old) \<and> isSwapEvent name (Some new))"
proof -
  have legacy: "isSwapEvent name (Some old) \<longleftrightarrow> name \<in> set LEGACY_SWAP_EVENT_NAMES"
    and unified: "isSwapEvent name (Some new) \<longleftrightarrow> name \<in> set UNIFIED_SWAP_EVENT_NAMES"
    using assms by (simp_all add: isSwapEvent_def UNIFIED_SWAP_EVENTS_SPEC_VERSION_def)
  have "map_of EVENT_CLASSIFICATION name = Some SWAP \<longleftrightarrow>
      name \<in> fst ` set (filter (\<lambda>e. snd e = SWAP) EVENT_CLASSIFICATION)"
    by (auto simp: EVENT_CLASSIFICATION_def)
  moreover have "fst ` set (filter (\<lambda>e. snd e = SWAP) EVENT_CLASSIFICATION) =
      set LEGACY_SWAP_EVENT_NAMES \<union> set UNIFIED_SWAP_EVENT_NAMES"
    by code_simp
  ultimately have "isSwapEvent name None \<longleftrightarrow> isSwapEvent name (Some old) \<or> isSwapEvent name (Some new)"
    unfolding legacy unified by (simp add: isSwapEvent_def)
  moreover have "set LEGACY_SWAP_EVENT_NAMES \<inter> set UNIFIED_SWAP_EVENT_NAMES = {}" by code_simp
  ultimately show ?thesis unfolding legacy unified by blast
qed

end
