(* ===== verification/Volume_Math.thy ===== *)
theory Volume_Math
  imports Js_Strings
begin

text \<open>
  Volume rows and their arithmetic (\<^verbatim>\<open>src/blocks/volumeMath.ts\<close>, \<^verbatim>\<open>src/db/schema.ts\<close>): native
  amounts are decimal integer strings, USD amounts decimal strings with twelve places, and rows of
  one key are merged by adding the four fields.

  An absent field is \<^const>\<open>None\<close>; a result \<^const>\<open>None\<close> is a \<open>SyntaxError\<close> of \<open>BigInt\<close>. The merge
  loop of the two row kinds is one fold, \<open>aggregate_by\<close>, and what it guarantees is proved once in
  the locale \<open>keyed_sum\<close>.
\<close>

section \<open>Amount strings\<close>

definition decimalToScaledBigInt :: "string option \<Rightarrow> int option" where
  "decimalToScaledBigInt value =
     (let normalized = (case value of None \<Rightarrow> ''0'' | Some s \<Rightarrow> s);
          sign = (if starts_with ''-'' normalized then ''-'' else []);
          unsigned = (if sign \<noteq> [] then drop 1 normalized else normalized);
          (integerPart, rawFraction) =
            (case split_on (CHR ''.'') unsigned of [] \<Rightarrow> ([], []) | [i] \<Rightarrow> (i, []) | i # d # _ \<Rightarrow> (i, d));
          fraction = take 12 (pad_end 12 (CHR ''0'') rawFraction)
      in parse_bigint (sign @ or_default integerPart ''0'' @ fraction))"

definition formatDecimal128 :: "int \<Rightarrow> string" where
  "formatDecimal128 value =
     (let sign = (if value < 0 then ''-'' else []);
          unsigned = (if value < 0 then - value else value);
          integerPart = bdiv unsigned 1000000000000;
          fractionalPart = bmod unsigned 1000000000000
      in sign @ int_to_string integerPart @ ''.'' @ pad_start 12 (CHR ''0'') (int_to_string fractionalPart))"

definition bigint_field :: "string option \<Rightarrow> int option" where
  "bigint_field s = parse_bigint (case s of None \<Rightarrow> ''0'' | Some x \<Rightarrow> x)"

definition sumBigIntStrings :: "string option \<Rightarrow> string option \<Rightarrow> string option" where
  "sumBigIntStrings l r =
     (case bigint_field l of None \<Rightarrow> None
      | Some x \<Rightarrow> (case bigint_field r of None \<Rightarrow> None | Some y \<Rightarrow> Some (int_to_string (x + y))))"

definition sumDecimal128Strings :: "string option \<Rightarrow> string option \<Rightarrow> string option" where
  "sumDecimal128Strings l r =
     (case decimalToScaledBigInt l of None \<Rightarrow> None
      | Some x \<Rightarrow> (case decimalToScaledBigInt r of None \<Rightarrow> None | Some y \<Rightarrow> Some (formatDecimal128 (x + y))))"

section \<open>Rows\<close>

record volume_fields =
  native_volume_buy :: "string option"
  native_volume_sell :: "string option"
  usd_volume_buy :: "string option"
  usd_volume_sell :: "string option"

record price_row = volume_fields +
  price_asset :: int
  price_block :: int
  price_timestamp :: "string option"
  usd_price :: string
  price_hops :: "int option"

record trade_volume_row = volume_fields +
  trade_asset :: int
  trade_block :: int
  account :: string
  trade_count :: int
  row_counterparty :: "int option"

definition sumVolumeFields ::
  "'a volume_fields_scheme \<Rightarrow> 'b volume_fields_scheme \<Rightarrow> volume_fields option" where
  "sumVolumeFields l r = do {
     nb \<leftarrow> sumBigIntStrings (native_volume_buy l) (native_volume_buy r);
     ns \<leftarrow> sumBigIntStrings (native_volume_sell l) (native_volume_sell r);
     ub \<leftarrow> sumDecimal128Strings (usd_volume_buy l) (usd_volume_buy r);
     us \<leftarrow> sumDecimal128Strings (usd_volume_sell l) (usd_volume_sell r);
     Some \<lparr>native_volume_buy = Some nb, native_volume_sell = Some ns,
           usd_volume_buy = Some ub, usd_volume_sell = Some us\<rparr>
   }"

text \<open>\<open>{ ...existing, ...sums }\<close>.\<close>

definition with_volume :: "volume_fields \<Rightarrow> 'a volume_fields_scheme \<Rightarrow> 'a volume_fields_scheme" where
  "with_volume v r =
     r\<lparr>native_volume_buy := native_volume_buy v, native_volume_sell := native_volume_sell v,
       usd_volume_buy := usd_volume_buy v, usd_volume_sell := usd_volume_sell v\<rparr>"

section \<open>Merging rows by key\<close>

definition aggregate_step ::
  "('r \<Rightarrow> 'k) \<Rightarrow> ('r \<Rightarrow> 'r \<Rightarrow> 'r option) \<Rightarrow> ('k, 'r) jsmap option \<Rightarrow> 'r \<Rightarrow> ('k, 'r) jsmap option" where
  "aggregate_step key merge acc row = do {
     m \<leftarrow> acc;
     case map_of m (key row) of
       None \<Rightarrow> Some (map_set (key row) row m)
     | Some existing \<Rightarrow> do {
         merged \<leftarrow> merge existing row;
         Some (map_set (key row) merged m)
       }
   }"

definition aggregate_by :: "('r \<Rightarrow> 'k) \<Rightarrow> ('r \<Rightarrow> 'r \<Rightarrow> 'r option) \<Rightarrow> 'r list \<Rightarrow> 'r list option" where
  "aggregate_by key merge rows = map_option (map snd) (foldl (aggregate_step key merge) (Some []) rows)"

definition trade_row_key :: "trade_volume_row \<Rightarrow> string" where
  "trade_row_key row =
     int_to_string (trade_asset row) @ '':'' @ int_to_string (trade_block row) @ '':'' @ account row"

definition merge_trade_rows :: "trade_volume_row \<Rightarrow> trade_volume_row \<Rightarrow> trade_volume_row option" where
  "merge_trade_rows existing row = do {
     v \<leftarrow> sumVolumeFields existing row;
     Some ((with_volume v existing)
       \<lparr>trade_count := trade_count existing + trade_count row,
        row_counterparty :=
          Some (if (case row_counterparty existing of None \<Rightarrow> 0 | Some c \<Rightarrow> c) = 1
                   \<and> (case row_counterparty row of None \<Rightarrow> 0 | Some c \<Rightarrow> c) = 1 then 1 else 0)\<rparr>)
   }"

definition aggregateTradeVolumeRows :: "trade_volume_row list \<Rightarrow> trade_volume_row list option" where
  "aggregateTradeVolumeRows rows = aggregate_by trade_row_key merge_trade_rows rows"

definition merge_price_rows :: "price_row \<Rightarrow> price_row \<Rightarrow> price_row option" where
  "merge_price_rows existing row = do {
     v \<leftarrow> sumVolumeFields existing row;
     Some (with_volume v existing)
   }"

definition aggregateVolumeRows :: "price_row list \<Rightarrow> price_row list option" where
  "aggregateVolumeRows rows = aggregate_by price_asset merge_price_rows rows"

subsection \<open>The contract of a merge\<close>

text \<open>The amount of the rows whose key satisfies a predicate.\<close>

definition sum_where :: "('r \<Rightarrow> 'k) \<Rightarrow> ('r \<Rightarrow> int) \<Rightarrow> ('k \<Rightarrow> bool) \<Rightarrow> 'r list \<Rightarrow> int" where
  "sum_where key amount P rows = sum_list (map amount (filter (\<lambda>r. P (key r)) rows))"

lemma sum_where_simps [simp]:
  "sum_where key amount P [] = 0"
  "sum_where key amount P (r # rows) = (if P (key r) then amount r else 0) + sum_where key amount P rows"
  "sum_where key amount P (xs @ ys) = sum_where key amount P xs + sum_where key amount P ys"
  by (simp_all add: sum_where_def)

text \<open>What \<open>map.set\<close> does to a sum over the values of a map.\<close>

lemma weight_map_set:
  fixes w :: "'r \<Rightarrow> int"
  assumes "map_wf m"
  shows "sum_list (map (\<lambda>e. w (snd e)) (map_set k r m)) =
    sum_list (map (\<lambda>e. w (snd e)) m) + w r - (case map_of m k of None \<Rightarrow> 0 | Some old \<Rightarrow> w old)"
  using assms
proof (induction m)
  case (Cons e m)
  show ?case
  proof (cases "fst e = k")
    case True
    with Cons.prems show ?thesis by (cases e) auto
  next
    case False
    with Cons show ?thesis by (cases e) auto
  qed
qed simp

lemma sum_where_map_set:
  assumes "map_wf m"
  shows "sum_where key amount P (map snd (map_set k r m)) = sum_where key amount P (map snd m)
    + (if P (key r) then amount r else 0)
    - (case map_of m k of None \<Rightarrow> 0 | Some old \<Rightarrow> if P (key old) then amount old else 0)"
proof -
  have "sum_where key amount P rows = sum_list (map (\<lambda>r. if P (key r) then amount r else 0) rows)" for rows
    by (induction rows) auto
  then show ?thesis
    using weight_map_set [OF assms, of "\<lambda>r. if P (key r) then amount r else 0" k r] by (simp add: o_def)
qed

abbreviation sum_at :: "('r \<Rightarrow> 'k) \<Rightarrow> ('r \<Rightarrow> int) \<Rightarrow> 'k \<Rightarrow> 'r list \<Rightarrow> int" where
  "sum_at key amount k \<equiv> sum_where key amount (\<lambda>x. x = k)"

locale keyed_sum =
  fixes key :: "'r \<Rightarrow> 'k"
    and merge :: "'r \<Rightarrow> 'r \<Rightarrow> 'r option"
    and ok :: "'r \<Rightarrow> bool"
    and amount :: "'r \<Rightarrow> int"
  assumes merge_adds: "ok a \<Longrightarrow> ok b \<Longrightarrow> key a = key b \<Longrightarrow>
    \<exists>c. merge a b = Some c \<and> ok c \<and> key c = key a \<and> amount c = amount a + amount b"
begin

definition well_keyed :: "('k, 'r) jsmap \<Rightarrow> bool" where
  "well_keyed m \<longleftrightarrow> map_wf m \<and> (\<forall>(k, r) \<in> set m. key r = k \<and> ok r)"

lemma step_ok:
  assumes "well_keyed m" and "ok row"
  shows "\<exists>m'. aggregate_step key merge (Some m) row = Some m' \<and> well_keyed m'
    \<and> fst ` set m' = insert (key row) (fst ` set m)
    \<and> (\<forall>P. sum_where key amount P (map snd m') = sum_where key amount P (map snd m) + (if P (key row) then amount row else 0))"
proof -
  have wf: "map_wf m" "\<forall>(k, r) \<in> set m. key r = k" "\<forall>(k, r) \<in> set m. ok r"
    using assms(1) by (auto simp: well_keyed_def)
  have keep: "well_keyed (map_set (key row) r m)" if "key r = key row" "ok r" for r
    using wf that map_set_entries [of "key row" r m] by (fastforce simp: well_keyed_def)
  show ?thesis
  proof (cases "map_of m (key row)")
    case None
    then have "aggregate_step key merge (Some m) row = Some (map_set (key row) row m)"
      by (simp add: aggregate_step_def)
    moreover have "sum_where key amount P (map snd (map_set (key row) row m)) =
        sum_where key amount P (map snd m) + (if P (key row) then amount row else 0)" for P
      using sum_where_map_set [OF wf(1), of key amount P "key row" row] None by simp
    ultimately show ?thesis using keep [of row] assms(2) by (intro exI [of _ "map_set (key row) row m"]) simp
  next
    case (Some old)
    then have old: "key old = key row" "ok old" using wf by (auto dest: map_of_SomeD)
    from merge_adds [OF old(2) assms(2) old(1)] obtain c where
      c: "merge old row = Some c" "ok c" "key c = key old" "amount c = amount old + amount row" by blast
    have "aggregate_step key merge (Some m) row = Some (map_set (key row) c m)"
      using Some c(1) by (simp add: aggregate_step_def)
    moreover have "sum_where key amount P (map snd (map_set (key row) c m)) =
        sum_where key amount P (map snd m) + (if P (key row) then amount row else 0)" for P
      using sum_where_map_set [OF wf(1), of key amount P "key row" c] Some c old by simp
    ultimately show ?thesis using keep [of c] c old by (intro exI [of _ "map_set (key row) c m"]) simp
  qed
qed

lemma fold_ok:
  assumes "\<forall>r \<in> set rows. ok r" and "well_keyed m"
  shows "\<exists>m'. foldl (aggregate_step key merge) (Some m) rows = Some m' \<and> well_keyed m'
    \<and> fst ` set m' = fst ` set m \<union> key ` set rows
    \<and> (\<forall>P. sum_where key amount P (map snd m') = sum_where key amount P (map snd m) + sum_where key amount P rows)"
  using assms
proof (induction rows arbitrary: m)
  case (Cons row rows)
  from Cons.prems have "ok row" by simp
  from step_ok [OF Cons.prems(2) this] obtain m1 where
    m1: "aggregate_step key merge (Some m) row = Some m1" "well_keyed m1"
      "fst ` set m1 = insert (key row) (fst ` set m)"
      "\<forall>P. sum_where key amount P (map snd m1) = sum_where key amount P (map snd m) + (if P (key row) then amount row else 0)"
    by blast
  from Cons.IH [OF _ m1(2)] Cons.prems(1) m1 show ?case by fastforce
qed simp

theorem aggregate_conserves:
  assumes "\<forall>r \<in> set rows. ok r"
  shows "\<exists>out. aggregate_by key merge rows = Some out \<and> distinct (map key out)
    \<and> key ` set out = key ` set rows \<and> (\<forall>r \<in> set out. ok r)
    \<and> (\<forall>P. sum_where key amount P out = sum_where key amount P rows)"
proof -
  have "well_keyed []" by (simp add: well_keyed_def)
  from fold_ok [OF assms this] obtain m where m: "foldl (aggregate_step key merge) (Some []) rows = Some m"
    "well_keyed m" "fst ` set m = key ` set rows"
    "\<forall>P. sum_where key amount P (map snd m) = sum_where key amount P rows" by auto
  have "map key (map snd m) = map fst m" using m(2) by (auto simp: well_keyed_def)
  moreover from this have "key ` set (map snd m) = fst ` set m" by (metis list.set_map)
  moreover have "distinct (map fst m)" "\<forall>r \<in> set (map snd m). ok r" using m(2) by (auto simp: well_keyed_def)
  ultimately show ?thesis using m(1,3,4)
    by (intro exI [of _ "map snd m"]) (simp add: aggregate_by_def del: map_map set_map)
qed

end

section \<open>Printing and reading USD amounts\<close>

lemma digits_value_acc: "digits_value b 0 s = Some n \<Longrightarrow> digits_value b acc s = Some (acc * b ^ length s + n)"
proof (induction s arbitrary: acc n rule: rev_induct)
  case (snoc c s)
  then obtain v where v: "digits_value b 0 s = Some v"
    by (auto simp: digits_value_append split: option.splits)
  with snoc.prems obtain d where d: "digit_val c = Some d" "d < b" "n = b * v + d"
    by (auto simp: digits_value_append split: option.splits if_splits)
  from snoc.IH [OF v, of acc] d show ?case by (simp add: digits_value_append algebra_simps)
qed simp

lemma formatDecimal128_read [simp]: "decimalToScaledBigInt (Some (formatDecimal128 v)) = Some v"
proof -
  define u where "u = \<bar>v\<bar>"
  define i where "i = nat_to_string (nat (u div 1000000000000))"
  define f where "f = pad_start 12 (CHR ''0'') (nat_to_string (nat (u mod 1000000000000)))"
  have u: "0 \<le> u" by (simp add: u_def)
  have fmt: "formatDecimal128 v = (if v < 0 then ''-'' else []) @ i @ ''.'' @ f"
    using u by (auto simp: formatDecimal128_def Let_def u_def i_def f_def bdiv_nonneg_eq bmod_nonneg_eq
        int_to_string_def pos_imp_zdiv_neg_iff not_less)
  have dig: "\<forall>c \<in> set i. is_dec_digit c" "\<forall>c \<in> set f. is_dec_digit c"
    by (auto simp: i_def f_def pad_start_def is_dec_digit_def dest: nat_to_string_digits)
  have len: "length f = 12"
  proof -
    have "nat (u mod 1000000000000) < 10 ^ 12" by (simp add: nat_less_iff)
    then have "length (nat_to_string (nat (u mod 1000000000000))) \<le> 12"
    proof -
      have "n < 10 ^ k \<Longrightarrow> 0 < k \<Longrightarrow> length (nat_to_string n) \<le> k" for n k
      proof (induction k arbitrary: n)
        case (Suc k)
        show ?case
        proof (cases "n < 10 \<or> k = 0")
          case True
          with Suc.prems show ?thesis by (subst nat_to_base.simps) auto
        next
          case False
          have "n div 10 < 10 ^ k" using Suc.prems by (simp add: less_mult_imp_div_less mult.commute)
          with False Suc.IH [of "n div 10"] show ?thesis by (subst nat_to_base.simps) simp
        qed
      qed simp
      from this [OF \<open>nat (u mod 1000000000000) < 10 ^ 12\<close>] show ?thesis by simp
    qed
    then show ?thesis by (simp add: f_def)
  qed
  have "CHR ''.'' \<notin> set i" "CHR ''.'' \<notin> set f" using dig not_dec_digit_sep(1) by blast+
  then have sp: "split_on (CHR ''.'') (i @ ''.'' @ f) = [i, f]" using split_on_append [of "CHR ''.''" i f] by simp
  have ne: "i \<noteq> []" by (simp add: i_def)
  have first: "hd i \<noteq> CHR ''-''" using dig(1) ne not_dec_digit_sep(2) by (metis list.set_sel(1))
  have fval: "digits_value 10 0 f = Some (nat (u mod 1000000000000))"
    by (simp add: f_def pad_start_def digits_value_append)
  have "digits_value 10 0 (i @ f) = Some (nat (u div 1000000000000) * 10 ^ 12 + nat (u mod 1000000000000))"
    using digits_value_acc [OF fval, of "nat (u div 1000000000000)"] len
    by (simp add: digits_value_append i_def)
  moreover have "nat (u div 1000000000000) * 10 ^ 12 + nat (u mod 1000000000000) = nat u"
    using u by (simp add: nat_div_distrib nat_mod_distrib)
  ultimately have val: "digits_value 10 0 (i @ f) = Some (nat u)" by simp
  have take: "take 12 (pad_end 12 (CHR ''0'') f) = f" using len by (simp add: pad_end_def)
  show ?thesis
  proof (cases "v < 0")
    case True
    then have "decimalToScaledBigInt (Some (formatDecimal128 v)) = parse_bigint (''-'' @ i @ f)"
      using sp ne take by (simp add: decimalToScaledBigInt_def fmt starts_with_def or_default_def)
    also have "\<dots> = Some v" using True ne val u_def by (simp add: parse_bigint_def parse_dec_def)
    finally show ?thesis .
  next
    case False
    have "\<not> starts_with ''-'' (i @ ''.'' @ f)" using ne first by (cases i) (simp_all add: starts_with_def)
    with False have "decimalToScaledBigInt (Some (formatDecimal128 v)) = parse_bigint (i @ f)"
      using sp ne take by (simp add: decimalToScaledBigInt_def fmt or_default_def)
    also have "\<dots> = Some v" using False val dig u_def by (subst parse_bigint_digits) auto
    finally show ?thesis .
  qed
qed

section \<open>The four amounts of a row\<close>

datatype volume_kind = NativeBuy | NativeSell | UsdBuy | UsdSell

fun field_value :: "volume_kind \<Rightarrow> 'a volume_fields_scheme \<Rightarrow> int option" where
  "field_value NativeBuy r = bigint_field (native_volume_buy r)"
| "field_value NativeSell r = bigint_field (native_volume_sell r)"
| "field_value UsdBuy r = decimalToScaledBigInt (usd_volume_buy r)"
| "field_value UsdSell r = decimalToScaledBigInt (usd_volume_sell r)"

definition readable :: "'a volume_fields_scheme \<Rightarrow> bool" where
  "readable r \<longleftrightarrow> (\<forall>kind. field_value kind r \<noteq> None)"

definition amount_of :: "volume_kind \<Rightarrow> 'a volume_fields_scheme \<Rightarrow> int" where
  "amount_of kind r = (case field_value kind r of None \<Rightarrow> 0 | Some v \<Rightarrow> v)"

lemma sumVolumeFields_adds:
  assumes "readable l" and "readable r"
  shows "\<exists>v. sumVolumeFields l r = Some v \<and> readable v
    \<and> (\<forall>kind. amount_of kind v = amount_of kind l + amount_of kind r)"
proof -
  obtain a b c d where l: "field_value NativeBuy l = Some a" "field_value NativeSell l = Some b"
    "field_value UsdBuy l = Some c" "field_value UsdSell l = Some d"
    using assms(1) unfolding readable_def not_None_eq by metis
  obtain a' b' c' d' where r: "field_value NativeBuy r = Some a'" "field_value NativeSell r = Some b'"
    "field_value UsdBuy r = Some c'" "field_value UsdSell r = Some d'"
    using assms(2) unfolding readable_def not_None_eq by metis
  let ?v = "\<lparr>native_volume_buy = Some (int_to_string (a + a')), native_volume_sell = Some (int_to_string (b + b')),
    usd_volume_buy = Some (formatDecimal128 (c + c')), usd_volume_sell = Some (formatDecimal128 (d + d'))\<rparr>"
  have "sumVolumeFields l r = Some ?v"
    using l r by (simp add: sumVolumeFields_def sumBigIntStrings_def sumDecimal128Strings_def)
  moreover have v: "field_value kind ?v = Some (amount_of kind l + amount_of kind r)" for kind
    using l r by (cases kind) (simp_all add: amount_of_def bigint_field_def)
  moreover have "readable ?v" unfolding readable_def v by simp
  moreover have "amount_of kind ?v = amount_of kind l + amount_of kind r" for kind
    unfolding amount_of_def [of kind ?v] v by simp
  ultimately show ?thesis by blast
qed

lemma with_volume_field [simp]: "field_value kind (with_volume v r) = field_value kind v"
  by (cases kind) (simp_all add: with_volume_def)

lemma with_volume_amount [simp]:
  "readable (with_volume v r) = readable v" "amount_of kind (with_volume v r) = amount_of kind v"
  by (simp_all add: readable_def amount_of_def)

interpretation trade_sum: keyed_sum trade_row_key merge_trade_rows readable "amount_of kind"
  for kind
proof unfold_locales
  fix a b :: trade_volume_row
  assume ok: "readable a" "readable b"
  from sumVolumeFields_adds [OF this] obtain v where v: "sumVolumeFields a b = Some v" "readable v"
    "\<forall>kind. amount_of kind v = amount_of kind a + amount_of kind b" by blast
  have extra: "field_value k (r\<lparr>trade_count := x, row_counterparty := y\<rparr>) = field_value k r"
    for k x y and r :: trade_volume_row by (cases k) simp_all
  show "\<exists>c. merge_trade_rows a b = Some c \<and> readable c \<and> trade_row_key c = trade_row_key a
      \<and> amount_of kind c = amount_of kind a + amount_of kind b"
  proof (intro exI conjI)
    let ?c = "(with_volume v a)\<lparr>trade_count := trade_count a + trade_count b,
        row_counterparty := Some (if (case row_counterparty a of None \<Rightarrow> 0 | Some c \<Rightarrow> c) = 1
          \<and> (case row_counterparty b of None \<Rightarrow> 0 | Some c \<Rightarrow> c) = 1 then 1 else 0)\<rparr>"
    show "merge_trade_rows a b = Some ?c" using v(1) by (simp add: merge_trade_rows_def)
    show "readable ?c" using v(2) by (simp add: readable_def extra)
    show "trade_row_key ?c = trade_row_key a" by (simp add: trade_row_key_def with_volume_def)
    show "amount_of kind ?c = amount_of kind a + amount_of kind b"
      using v(3) by (simp add: amount_of_def extra)
  qed
qed

interpretation candle_sum: keyed_sum price_asset merge_price_rows readable "amount_of kind"
  for kind
proof unfold_locales
  fix a b :: price_row
  assume ok: "readable a" "readable b"
  from sumVolumeFields_adds [OF this] obtain v where v: "sumVolumeFields a b = Some v" "readable v"
    "\<forall>kind. amount_of kind v = amount_of kind a + amount_of kind b" by blast
  then show "\<exists>c. merge_price_rows a b = Some c \<and> readable c \<and> price_asset c = price_asset a
      \<and> amount_of kind c = amount_of kind a + amount_of kind b"
    by (auto simp: merge_price_rows_def) (simp add: with_volume_def)
qed

section \<open>Rows of a block\<close>

lemma filter_key_unique: "distinct (map f xs) \<Longrightarrow> x \<in> set xs \<Longrightarrow> filter (\<lambda>y. f y = f x) xs = [x]"
proof (induction xs)
  case (Cons y ys)
  show ?case
  proof (cases "x = y")
    case True
    have "\<forall>z \<in> set ys. f z \<noteq> f y" using Cons.prems(1) by (metis distinct.simps(2) image_eqI list.map(2) list.set_map)
    then show ?thesis using True by simp
  next
    case False
    then have "x \<in> set ys" using Cons.prems(2) by simp
    moreover from this have "f y \<noteq> f x" using Cons.prems(1) by (metis distinct.simps(2) image_eqI list.map(2) list.set_map)
    ultimately show ?thesis using Cons by simp
  qed
qed simp

lemma trade_row_key_inj:
  "trade_row_key r = trade_row_key r' \<longleftrightarrow>
     trade_asset r = trade_asset r' \<and> trade_block r = trade_block r' \<and> account r = account r'"
proof
  assume "trade_row_key r = trade_row_key r'"
  from sep_inj [OF int_to_string_no_colon int_to_string_no_colon, of "trade_asset r" _ "trade_asset r'"]
    this [unfolded trade_row_key_def]
  have "int_to_string (trade_asset r) = int_to_string (trade_asset r')"
    and rest: "int_to_string (trade_block r) @ '':'' @ account r = int_to_string (trade_block r') @ '':'' @ account r'"
    by (metis append_Cons append_Nil)+
  from sep_inj [OF int_to_string_no_colon int_to_string_no_colon, of "trade_block r" _ "trade_block r'"] rest
  have "int_to_string (trade_block r) = int_to_string (trade_block r')" "account r = account r'"
    by (metis append_Cons append_Nil)+
  with \<open>int_to_string (trade_asset r) = int_to_string (trade_asset r')\<close>
  show "trade_asset r = trade_asset r' \<and> trade_block r = trade_block r' \<and> account r = account r'" by simp
qed (simp add: trade_row_key_def)

lemma absent_field_values [simp]:
  "bigint_field None = Some 0" "decimalToScaledBigInt None = Some 0"
  by (simp_all add: bigint_field_def decimalToScaledBigInt_def starts_with_def parse_bigint_def parse_dec_def
      digit_val_def or_default_def pad_end_def numeral_eq_Suc)

end
