(* ===== verification/Extract_Volume.thy ===== *)
theory Extract_Volume
  imports Swap_Decoding Volume_Math
begin

text \<open>
  Volume of a block (\<^verbatim>\<open>src/blocks/extractVolume.ts\<close>): the trades behind its events, the candle rows
  and the per-account rows they are booked to, and the merge of volume with prices.

  A result \<^const>\<open>None\<close> is an exception that leaves the extractor: a price that is not a decimal text or
  a pool log whose words are not hexadecimal. The asset canonicalizer is any function; a price map and
  a decimals map are insertion-ordered maps.
\<close>

section \<open>The trades of a block\<close>

record trade_slot =
  slot_trade :: decoded_trade
  slot_extrinsic :: "int option"
  fromPoolLog :: bool

definition resolveOtcCounterparties :: "decoded_trade \<Rightarrow> event_like option \<Rightarrow> decoded_trade" where
  "resolveOtcCounterparties trade previous =
     (case previous of None \<Rightarrow> trade
      | Some p \<Rightarrow>
          if filler trade \<noteq> Some OTC_FILLER_KIND \<or> event_name p \<notin> set OTC_FILL_EVENT_NAMES then trade
          else
            (case decodeJson p of
               None \<Rightarrow> trade
             | Some None \<Rightarrow> trade
             | Some (Some args) \<Rightarrow>
                 (case otcSides (trader trade) (fillerAccount trade) (normalizeAccount (get_prop args ''who'')) of
                    None \<Rightarrow> trade
                  | Some (t, c) \<Rightarrow> trade\<lparr>trader := Some t, counterparty := Some c\<rparr>)))"

definition pot_leg_step ::
  "int list \<Rightarrow> (int, (string option \<times> string option) list) jsmap \<Rightarrow> event_like
    \<Rightarrow> (int, (string option \<times> string option) list) jsmap" where
  "pot_leg_step extrinsics byExtrinsic e =
     (case event_extrinsicIndex e of None \<Rightarrow> byExtrinsic
      | Some i \<Rightarrow>
          if i \<notin> set extrinsics \<or> event_name e \<notin> set ICE_SETTLEMENT_TRANSFER_EVENTS then byExtrinsic
          else
            (case decodeJson e of
               Some (Some args) \<Rightarrow>
                 (case (normalizeAccount (get_prop args ''from''), normalizeAccount (get_prop args ''to'')) of
                    (Some f, Some t) \<Rightarrow>
                      (case map_of byExtrinsic i of
                         Some legs \<Rightarrow> map_set i (legs @ [(Some f, Some t)]) byExtrinsic
                       | None \<Rightarrow> map_set i [(Some f, Some t)] byExtrinsic)
                  | _ \<Rightarrow> byExtrinsic)
             | _ \<Rightarrow> byExtrinsic))"

definition icePotTransferLegs ::
  "event_like list \<Rightarrow> int list \<Rightarrow> (int, (string option \<times> string option) list) jsmap" where
  "icePotTransferLegs events extrinsics = foldl (pot_leg_step extrinsics) [] events"

definition settled_extrinsics :: "trade_slot list \<Rightarrow> int list" where
  "settled_extrinsics slots =
     foldl (\<lambda>settled slot. case slot_extrinsic slot of
         Some i \<Rightarrow> if isIcePotSwapper (trader (slot_trade slot)) then set_add i settled else settled
       | None \<Rightarrow> settled) [] slots"

definition owner_slot ::
  "(int, (string option \<times> string option) list) jsmap \<Rightarrow> trade_slot \<Rightarrow> trade_slot" where
  "owner_slot legsByExtrinsic slot =
     (case slot_extrinsic slot of None \<Rightarrow> slot
      | Some i \<Rightarrow>
          if \<not> isIcePotSwapper (trader (slot_trade slot)) then slot
          else
            (let owner = icePotSettlementOwner (case map_of legsByExtrinsic i of None \<Rightarrow> [] | Some legs \<Rightarrow> legs)
             in if truthy owner then slot\<lparr>slot_trade := (slot_trade slot)\<lparr>trader := owner\<rparr>\<rparr> else slot))"

definition resolveIceSettlementOwners :: "trade_slot list \<Rightarrow> event_like list \<Rightarrow> trade_slot list" where
  "resolveIceSettlementOwners slots events =
     (let settled = settled_extrinsics slots in
      if settled = [] then slots
      else map (owner_slot (icePotTransferLegs events settled)) slots)"

text \<open>The slots of the events: the outer \<^const>\<open>None\<close> is a pool log whose words do not parse.\<close>

fun collect_slots ::
  "(string, uniswap_v3_pool_tokens) jsmap \<Rightarrow> int \<Rightarrow> event_like option \<Rightarrow> event_like list
    \<Rightarrow> trade_slot list option" where
  "collect_slots pools specVersion previous [] = Some []"
| "collect_slots pools specVersion previous (e # es) =
     (let rest = collect_slots pools specVersion (Some e) es in
      if isSwapEvent (event_name e) (Some specVersion)
      then
        (case decodeTradeEvent e of None \<Rightarrow> rest
         | Some decoded \<Rightarrow>
             map_option (\<lambda>slots. \<lparr>slot_trade = resolveOtcCounterparties decoded previous,
                slot_extrinsic = event_extrinsicIndex e, fromPoolLog = False\<rparr> # slots) rest)
      else if pools = [] \<or> event_name e \<noteq> ''EVM.Log'' then rest
      else
        (case evmLogOf (event_args e) of None \<Rightarrow> rest
         | Some log \<Rightarrow>
             (case decodeUniswapV3Log log of None \<Rightarrow> None
              | Some None \<Rightarrow> rest
              | Some (Some ev) \<Rightarrow>
                  (if \<not> is_swap ev then rest
                   else
                     (case uniswapV3SwapTrade ev pools of None \<Rightarrow> rest
                      | Some swap \<Rightarrow>
                          map_option (\<lambda>slots. \<lparr>slot_trade = \<lparr>inputs = trade_inputs swap,
                               outputs = trade_outputs swap, trader = trade_account swap,
                               filler = Some UNISWAP_V3_FILLER, fillerAccount = None, counterparty = None\<rparr>,
                             slot_extrinsic = event_extrinsicIndex e, fromPoolLog = True\<rparr> # slots) rest)))))"

definition routed_of :: "trade_slot list \<Rightarrow> int list" where
  "routed_of slots =
     routedUniswapV3Extrinsics
       (map (\<lambda>s. \<lparr>trade_filler = filler (slot_trade s), trade_extrinsicIndex = slot_extrinsic s\<rparr>)
         (filter (\<lambda>s. \<not> fromPoolLog s) slots))"

definition slot_kept :: "int list \<Rightarrow> trade_slot \<Rightarrow> bool" where
  "slot_kept routed s \<longleftrightarrow>
     \<not> fromPoolLog s \<or> (case slot_extrinsic s of None \<Rightarrow> True | Some i \<Rightarrow> i \<notin> set routed)"

definition decodeBlockTrades ::
  "event_like list \<Rightarrow> int \<Rightarrow> (string, uniswap_v3_pool_tokens) jsmap \<Rightarrow> decoded_trade list option" where
  "decodeBlockTrades events specVersion pools = do {
     slots0 \<leftarrow> collect_slots pools specVersion None events;
     let slots = resolveIceSettlementOwners slots0 events;
     Some (foldOmnipoolHubHops trader (map slot_trade (filter (slot_kept (routed_of slots)) slots)))
   }"

section \<open>Legs and their dollar value\<close>

record canonical_leg =
  leg_asset :: int
  leg_amount :: int
  canonicalAssetId :: int

definition canonicalTradeLegs :: "(int \<Rightarrow> int) \<Rightarrow> leg list \<Rightarrow> canonical_leg list" where
  "canonicalTradeLegs canon legs =
     map (\<lambda>l. \<lparr>leg_asset = fst l, leg_amount = snd l, canonicalAssetId = canon (fst l)\<rparr>) legs"

definition originalsByCanonicalAsset :: "canonical_leg list \<Rightarrow> (int, int list) jsmap" where
  "originalsByCanonicalAsset legs =
     foldl (\<lambda>result l. map_set (canonicalAssetId l)
         (set_add (leg_asset l) (case map_of result (canonicalAssetId l) of None \<Rightarrow> [] | Some os \<Rightarrow> os)) result)
       [] legs"

definition isCanonicalSelfConversion :: "canonical_leg \<Rightarrow> (int, int list) jsmap \<Rightarrow> bool" where
  "isCanonicalSelfConversion l opposing =
     (case map_of opposing (canonicalAssetId l) of
        None \<Rightarrow> False
      | Some originals \<Rightarrow> list_ex (\<lambda>opposingAssetId. opposingAssetId \<noteq> leg_asset l) originals)"

text \<open>\<open>Number(price) > 0\<close> on the texts a price has: an optional sign, digits and at most one point.\<close>

definition number_positive :: "string \<Rightarrow> bool" where
  "number_positive text =
     (let s = js_trim text; u = (if s \<noteq> [] \<and> hd s = CHR ''+'' then tl s else s) in
      (case split_on (CHR ''.'') u of
         [i] \<Rightarrow> list_all is_dec_digit i \<and> list_ex (\<lambda>c. c \<noteq> CHR ''0'') i
       | [i, f] \<Rightarrow> list_all is_dec_digit (i @ f) \<and> list_ex (\<lambda>c. c \<noteq> CHR ''0'') (i @ f)
       | _ \<Rightarrow> False))"

definition hasPositivePrice :: "price_map \<Rightarrow> int \<Rightarrow> bool" where
  "hasPositivePrice prices assetId =
     (case map_of prices assetId of None \<Rightarrow> False | Some price \<Rightarrow> number_positive price)"

definition priceToDecimal128 :: "string \<Rightarrow> int option" where
  "priceToDecimal128 s =
     (case split_on (CHR ''.'') s of
        [i] \<Rightarrow> if i \<noteq> [] \<and> list_all is_dec_digit i
               then parse_bigint (i @ pad_end 12 (CHR ''0'') []) else None
      | [i, f] \<Rightarrow> if i \<noteq> [] \<and> list_all is_dec_digit i \<and> f \<noteq> [] \<and> length f \<le> 12 \<and> list_all is_dec_digit f
                  then parse_bigint (i @ pad_end 12 (CHR ''0'') f) else None
      | _ \<Rightarrow> None)"

definition calculateUsdVolume :: "int \<Rightarrow> int \<Rightarrow> price_map \<Rightarrow> (int, nat) jsmap \<Rightarrow> string option" where
  "calculateUsdVolume nativeAmount assetId prices decs =
     (if nativeAmount = 0 then Some ''0.000000000000''
      else
        (case map_of prices assetId of
           None \<Rightarrow> Some ''0.000000000000''
         | Some priceStr \<Rightarrow>
             if priceStr = [] then Some ''0.000000000000''
             else
               (case map_of decs assetId of
                  None \<Rightarrow> Some ''0.000000000000''
                | Some assetDecimals \<Rightarrow>
                    (case priceToDecimal128 priceStr of None \<Rightarrow> None
                     | Some priceBigInt \<Rightarrow>
                         (let volume = bdiv (nativeAmount * priceBigInt) (10 ^ assetDecimals);
                              integerPart = bdiv volume 1000000000000;
                              fractionalPart = bmod volume 1000000000000
                          in Some (int_to_string integerPart @ ''.''
                               @ pad_start 12 (CHR ''0'') (int_to_string fractionalPart)))))))"

definition calculateLegUsdVolume :: "canonical_leg \<Rightarrow> price_map \<Rightarrow> (int, nat) jsmap \<Rightarrow> string option" where
  "calculateLegUsdVolume l prices decs =
     (let priceAssetId = (if hasPositivePrice prices (leg_asset l) then leg_asset l else canonicalAssetId l)
      in calculateUsdVolume (leg_amount l) priceAssetId prices decs)"

section \<open>Candle rows\<close>

fun sell_rows :: "price_map \<Rightarrow> (int, nat) jsmap \<Rightarrow> int \<Rightarrow> (int, int list) jsmap \<Rightarrow> canonical_leg list
    \<Rightarrow> price_row list option" where
  "sell_rows prices decs blockHeight opposing [] = Some []"
| "sell_rows prices decs blockHeight opposing (l # ls) =
     (if isCanonicalSelfConversion l opposing then sell_rows prices decs blockHeight opposing ls
      else do {
        usd \<leftarrow> calculateLegUsdVolume l prices decs;
        rest \<leftarrow> sell_rows prices decs blockHeight opposing ls;
        Some (\<lparr>native_volume_buy = Some ''0'', native_volume_sell = Some (int_to_string (leg_amount l)),
               usd_volume_buy = Some ''0.000000000000'', usd_volume_sell = Some usd,
               price_asset = canonicalAssetId l, price_block = blockHeight, price_timestamp = None,
               usd_price = ''0'', price_hops = None\<rparr> # rest)
      })"

fun buy_rows :: "price_map \<Rightarrow> (int, nat) jsmap \<Rightarrow> int \<Rightarrow> (int, int list) jsmap \<Rightarrow> canonical_leg list
    \<Rightarrow> price_row list option" where
  "buy_rows prices decs blockHeight opposing [] = Some []"
| "buy_rows prices decs blockHeight opposing (l # ls) =
     (if isCanonicalSelfConversion l opposing then buy_rows prices decs blockHeight opposing ls
      else do {
        usd \<leftarrow> calculateLegUsdVolume l prices decs;
        rest \<leftarrow> buy_rows prices decs blockHeight opposing ls;
        Some (\<lparr>native_volume_buy = Some (int_to_string (leg_amount l)), native_volume_sell = Some ''0'',
               usd_volume_buy = Some usd, usd_volume_sell = Some ''0.000000000000'',
               price_asset = canonicalAssetId l, price_block = blockHeight, price_timestamp = None,
               usd_price = ''0'', price_hops = None\<rparr> # rest)
      })"

definition tradeToVolumeRows ::
  "price_map \<Rightarrow> (int, nat) jsmap \<Rightarrow> (int \<Rightarrow> int) \<Rightarrow> int \<Rightarrow> decoded_trade \<Rightarrow> price_row list option" where
  "tradeToVolumeRows prices decs canon blockHeight trade =
     (let ins = canonicalTradeLegs canon (inputs trade); outs = canonicalTradeLegs canon (outputs trade) in do {
        sells \<leftarrow> sell_rows prices decs blockHeight (originalsByCanonicalAsset outs) ins;
        buys \<leftarrow> buy_rows prices decs blockHeight (originalsByCanonicalAsset ins) outs;
        Some (sells @ buys)
      })"

fun concat_rows :: "('t \<Rightarrow> 'r list option) \<Rightarrow> 't list \<Rightarrow> 'r list option" where
  "concat_rows f [] = Some []"
| "concat_rows f (t # ts) = do { rows \<leftarrow> f t; rest \<leftarrow> concat_rows f ts; Some (rows @ rest) }"

definition extractVolumeFromSwaps ::
  "event_like list \<Rightarrow> int \<Rightarrow> int \<Rightarrow> price_map \<Rightarrow> (int, nat) jsmap \<Rightarrow> (int \<Rightarrow> int)
    \<Rightarrow> (string, uniswap_v3_pool_tokens) jsmap \<Rightarrow> price_row list option" where
  "extractVolumeFromSwaps events blockHeight specVersion prices decs canon pools = do {
     trades \<leftarrow> decodeBlockTrades events specVersion pools;
     concat_rows (tradeToVolumeRows prices decs canon blockHeight) trades
   }"

section \<open>Account rows\<close>

definition rowForAsset ::
  "int \<Rightarrow> string \<Rightarrow> bool \<Rightarrow> int \<Rightarrow> (int, trade_volume_row) jsmap \<Rightarrow> trade_volume_row" where
  "rowForAsset blockHeight acct mirrored assetId rowsByAsset =
     (case map_of rowsByAsset assetId of
        Some row \<Rightarrow> row
      | None \<Rightarrow>
          \<lparr>native_volume_buy = Some ''0'', native_volume_sell = Some ''0'',
           usd_volume_buy = Some ''0.000000000000'', usd_volume_sell = Some ''0.000000000000'',
           trade_asset = assetId, trade_block = blockHeight, account = acct, trade_count = 1,
           row_counterparty = Some (if mirrored then 1 else 0)\<rparr>)"

definition usd_or_zero :: "string option \<Rightarrow> string option" where
  "usd_or_zero v = Some (case v of None \<Rightarrow> ''0.000000000000'' | Some s \<Rightarrow> s)"

definition addSell ::
  "price_map \<Rightarrow> (int, nat) jsmap \<Rightarrow> trade_volume_row \<Rightarrow> canonical_leg \<Rightarrow> trade_volume_row option" where
  "addSell prices decs row l = do {
     native \<leftarrow> sumBigIntStrings (native_volume_sell row) (Some (int_to_string (leg_amount l)));
     legUsd \<leftarrow> calculateLegUsdVolume l prices decs;
     usd \<leftarrow> sumDecimal128Strings (usd_or_zero (usd_volume_sell row)) (Some legUsd);
     Some (row\<lparr>native_volume_sell := Some native, usd_volume_sell := Some usd\<rparr>)
   }"

definition addBuy ::
  "price_map \<Rightarrow> (int, nat) jsmap \<Rightarrow> trade_volume_row \<Rightarrow> canonical_leg \<Rightarrow> trade_volume_row option" where
  "addBuy prices decs row l = do {
     native \<leftarrow> sumBigIntStrings (native_volume_buy row) (Some (int_to_string (leg_amount l)));
     legUsd \<leftarrow> calculateLegUsdVolume l prices decs;
     usd \<leftarrow> sumDecimal128Strings (usd_or_zero (usd_volume_buy row)) (Some legUsd);
     Some (row\<lparr>native_volume_buy := Some native, usd_volume_buy := Some usd\<rparr>)
   }"

fun book_legs ::
  "(int \<Rightarrow> (int, trade_volume_row) jsmap \<Rightarrow> trade_volume_row)
    \<Rightarrow> (trade_volume_row \<Rightarrow> canonical_leg \<Rightarrow> trade_volume_row option)
    \<Rightarrow> (int, int list) jsmap \<Rightarrow> canonical_leg list \<Rightarrow> (int, trade_volume_row) jsmap
    \<Rightarrow> (int, trade_volume_row) jsmap option" where
  "book_legs rowFor add opposing [] m = Some m"
| "book_legs rowFor add opposing (l # ls) m =
     (if isCanonicalSelfConversion l opposing then book_legs rowFor add opposing ls m
      else do {
        row \<leftarrow> add (rowFor (canonicalAssetId l) m) l;
        book_legs rowFor add opposing ls (map_set (canonicalAssetId l) row m)
      })"

definition accountSideVolumeRows ::
  "price_map \<Rightarrow> (int, nat) jsmap \<Rightarrow> (int \<Rightarrow> int) \<Rightarrow> int \<Rightarrow> decoded_trade \<Rightarrow> string \<Rightarrow> bool
    \<Rightarrow> trade_volume_row list option" where
  "accountSideVolumeRows prices decs canon blockHeight trade acct mirrored =
     (let ins = canonicalTradeLegs canon (inputs trade); outs = canonicalTradeLegs canon (outputs trade);
          rowFor = rowForAsset blockHeight acct mirrored in do {
        m1 \<leftarrow> book_legs rowFor ((if mirrored then addBuy else addSell) prices decs)
                (originalsByCanonicalAsset outs) ins [];
        m2 \<leftarrow> book_legs rowFor ((if mirrored then addSell else addBuy) prices decs)
                (originalsByCanonicalAsset ins) outs m1;
        Some (map snd m2)
      })"

definition present_account :: "string option \<Rightarrow> string option" where
  "present_account a = (case a of None \<Rightarrow> None | Some s \<Rightarrow> normalizeAccount (JStr s))"

definition tradeToAccountVolumeRows ::
  "price_map \<Rightarrow> (int, nat) jsmap \<Rightarrow> (int \<Rightarrow> int) \<Rightarrow> int \<Rightarrow> decoded_trade \<Rightarrow> trade_volume_row list option" where
  "tradeToAccountVolumeRows prices decs canon blockHeight trade =
     (let acct = present_account (trader trade); other = present_account (counterparty trade) in do {
        rows \<leftarrow> (case acct of
            Some a \<Rightarrow> if isUnattributableVolumePot (Some a) then Some []
                      else accountSideVolumeRows prices decs canon blockHeight trade a False
          | None \<Rightarrow> Some []);
        mirror \<leftarrow> (case other of
            Some c \<Rightarrow> if other = acct \<or> isUnattributableVolumePot (Some c) then Some []
                      else accountSideVolumeRows prices decs canon blockHeight trade c True
          | None \<Rightarrow> Some []);
        Some (rows @ mirror)
      })"

definition extractTradeVolumeFromSwaps ::
  "event_like list \<Rightarrow> int \<Rightarrow> int \<Rightarrow> price_map \<Rightarrow> (int, nat) jsmap \<Rightarrow> (int \<Rightarrow> int)
    \<Rightarrow> (string, uniswap_v3_pool_tokens) jsmap \<Rightarrow> trade_volume_row list option" where
  "extractTradeVolumeFromSwaps events blockHeight specVersion prices decs canon pools = do {
     trades \<leftarrow> decodeBlockTrades events specVersion pools;
     tradeRows \<leftarrow> concat_rows (tradeToAccountVolumeRows prices decs canon blockHeight) trades;
     aggregateTradeVolumeRows tradeRows
   }"

section \<open>Prices and volumes\<close>

definition merge_price_row :: "(int, price_row) jsmap \<Rightarrow> price_row \<Rightarrow> price_row" where
  "merge_price_row volumeMap priceRow =
     (case map_of volumeMap (price_asset priceRow) of
        Some v \<Rightarrow> priceRow\<lparr>native_volume_sell := native_volume_sell v, usd_volume_sell := usd_volume_sell v,
                            native_volume_buy := native_volume_buy v, usd_volume_buy := usd_volume_buy v\<rparr>
      | None \<Rightarrow> priceRow)"

definition mergePriceAndVolumeRows :: "price_row list \<Rightarrow> price_row list \<Rightarrow> price_row list option" where
  "mergePriceAndVolumeRows priceRows volumeRows =
     (if volumeRows = [] then Some priceRows
      else if priceRows = [] then aggregateVolumeRows volumeRows
      else do {
        aggregatedVolumes \<leftarrow> aggregateVolumeRows volumeRows;
        let volumeMap = foldl (\<lambda>m row. map_set (price_asset row) row m) [] aggregatedVolumes;
        let processed = map price_asset (filter (\<lambda>p. map_has volumeMap (price_asset p)) priceRows);
        Some (map (merge_price_row volumeMap) priceRows
              @ filter (\<lambda>v. price_asset v \<notin> set processed) aggregatedVolumes)
      })"

end
