(* ===== verification/Volume_Booking.thy ===== *)
theory Volume_Booking
  imports Extract_Volume
begin

text \<open>
  What the volume rows of a block add up to. \<open>usd_value\<close> and \<open>side_volume\<close> say what a leg and a side
  of a trade are worth, over the plain legs; the rows of \<^theory_text>\<open>Extract_Volume\<close> are shown to hold exactly
  those sums. Booking a leg to a row is one contract (locale \<open>leg_booking\<close>), which \<open>addSell\<close> and
  \<open>addBuy\<close> both meet.
\<close>

section \<open>What legs are worth\<close>

definition prices_parse :: "price_map \<Rightarrow> bool" where
  "prices_parse prices \<longleftrightarrow> (\<forall>e \<in> set prices. snd e = [] \<or> priceToDecimal128 (snd e) \<noteq> None)"

definition usd_value :: "price_map \<Rightarrow> (int, nat) jsmap \<Rightarrow> canonical_leg \<Rightarrow> int" where
  "usd_value prices decs l =
     (let i = (if hasPositivePrice prices (leg_asset l) then leg_asset l else canonicalAssetId l) in
      case (Option.bind (map_of prices i) priceToDecimal128, map_of decs i) of
        (Some p, Some d) \<Rightarrow> leg_amount l * p div 10 ^ d
      | _ \<Rightarrow> 0)"

fun leg_value :: "price_map \<Rightarrow> (int, nat) jsmap \<Rightarrow> volume_kind \<Rightarrow> canonical_leg \<Rightarrow> int" where
  "leg_value prices decs NativeBuy l = leg_amount l"
| "leg_value prices decs NativeSell l = leg_amount l"
| "leg_value prices decs UsdBuy l = usd_value prices decs l"
| "leg_value prices decs UsdSell l = usd_value prices decs l"

fun is_sell :: "volume_kind \<Rightarrow> bool" where
  "is_sell NativeSell = True" | "is_sell UsdSell = True" | "is_sell NativeBuy = False" | "is_sell UsdBuy = False"

lemma priceToDecimal128_nonneg: "priceToDecimal128 s = Some p \<Longrightarrow> 0 \<le> p"
proof -
  have dig: "\<forall>c \<in> set (i @ pad_end 12 (CHR ''0'') f). is_dec_digit c"
    if "list_all is_dec_digit i" "list_all is_dec_digit f" for i f
    using that by (auto simp: pad_end_def list_all_iff is_dec_digit_def)
  have "parse_bigint (i @ pad_end 12 (CHR ''0'') f) = Some p \<Longrightarrow> 0 \<le> p"
    if "list_all is_dec_digit i" "list_all is_dec_digit f" for i f
    using parse_bigint_digits_total [OF dig [OF that]] by auto
  from this [of _ "[]"] this show "priceToDecimal128 s = Some p \<Longrightarrow> 0 \<le> p"
    by (auto simp: priceToDecimal128_def split: list.splits if_splits)
qed

lemma zero_usd_text [simp]: "decimalToScaledBigInt (Some ''0.000000000000'') = Some 0"
proof -
  have "nat_to_string 0 = ''0''" by (subst nat_to_base.simps) (simp add: digit_char_def char_of_def bit_0)
  moreover have "replicate 11 c @ [c] = replicate 12 c" for c :: char
    by (simp add: replicate_append_same flip: replicate_Suc)
  ultimately have "formatDecimal128 0 = ''0.'' @ replicate 12 (CHR ''0'')"
    by (simp add: formatDecimal128_def int_to_string_def pad_start_def bmod_def)
  then have "formatDecimal128 0 = ''0.000000000000''" by (simp add: numeral_eq_Suc)
  then show ?thesis using formatDecimal128_read [of 0] by simp
qed

lemma calculateUsdVolume_eq:
  assumes "0 \<le> n" and "map_of prices i = Some s" and "priceToDecimal128 s = Some p" and "map_of decs i = Some d"
  shows "\<exists>v. calculateUsdVolume n i prices decs = Some v \<and> decimalToScaledBigInt (Some v) = Some (n * p div 10 ^ d)"
proof (cases "n = 0")
  case False
  have "0 \<le> p" using assms(3) by (rule priceToDecimal128_nonneg)
  then have v: "bdiv (n * p) (10 ^ d) = n * p div 10 ^ d" "0 \<le> n * p div 10 ^ d"
    using assms(1) by (simp_all add: bdiv_nonneg_eq pos_imp_zdiv_nonneg_iff)
  have "s \<noteq> []" using assms(3) by (auto simp: priceToDecimal128_def)
  then have "calculateUsdVolume n i prices decs = Some (formatDecimal128 (n * p div 10 ^ d))"
    using assms False v by (simp add: calculateUsdVolume_def formatDecimal128_def Let_def)
  then show ?thesis by simp
qed (simp add: calculateUsdVolume_def)

lemma calculateLegUsdVolume_ok:
  assumes "prices_parse prices" and "0 \<le> leg_amount l"
  shows "\<exists>v. calculateLegUsdVolume l prices decs = Some v \<and> decimalToScaledBigInt (Some v) = Some (usd_value prices decs l)"
proof -
  define i where "i = (if hasPositivePrice prices (leg_asset l) then leg_asset l else canonicalAssetId l)"
  have leg: "calculateLegUsdVolume l prices decs = calculateUsdVolume (leg_amount l) i prices decs"
    by (simp add: calculateLegUsdVolume_def i_def)
  have val: "usd_value prices decs l =
      (case (Option.bind (map_of prices i) priceToDecimal128, map_of decs i) of
         (Some p, Some d) \<Rightarrow> leg_amount l * p div 10 ^ d | _ \<Rightarrow> 0)"
    by (simp add: usd_value_def i_def Let_def)
  show ?thesis
  proof (cases "\<exists>s d. map_of prices i = Some s \<and> s \<noteq> [] \<and> map_of decs i = Some d")
    case True
    then obtain s d where s: "map_of prices i = Some s" "s \<noteq> []" "map_of decs i = Some d" by blast
    then obtain p where p: "priceToDecimal128 s = Some p"
      using assms(1) by (fastforce simp: prices_parse_def dest: map_of_SomeD)
    show ?thesis using calculateUsdVolume_eq [OF assms(2) s(1) p s(3)] s p by (simp add: leg val)
  next
    case False
    then have "calculateUsdVolume (leg_amount l) i prices decs = Some ''0.000000000000''"
      by (auto simp: calculateUsdVolume_def split: option.splits)
    moreover have "usd_value prices decs l = 0"
      using False by (cases "map_of prices i") (auto simp: val priceToDecimal128_def split: option.splits)
    ultimately show ?thesis by (simp add: leg)
  qed
qed

section \<open>Booking a leg to a row\<close>

definition row_id :: "trade_volume_row \<Rightarrow> int \<times> int \<times> string" where
  "row_id r = (trade_asset r, trade_block r, account r)"

lemma kind_untouched [simp]:
  fixes row :: trade_volume_row
  shows "\<not> is_sell k \<Longrightarrow> field_value k (row\<lparr>native_volume_sell := a, usd_volume_sell := b\<rparr>) = field_value k row"
    and "is_sell k \<Longrightarrow> field_value k (row\<lparr>native_volume_buy := a, usd_volume_buy := b\<rparr>) = field_value k row"
  by (cases k; simp)+

lemma native_read [simp]: "bigint_field (Some ''0'') = Some 0" "bigint_field (Some (int_to_string n)) = Some n"
  by (simp_all add: bigint_field_def) (simp add: parse_bigint_def parse_dec_def digit_val_def)

lemma usd_or_zero_read [simp]: "decimalToScaledBigInt (usd_or_zero v) = decimalToScaledBigInt v"
  by (cases v) (simp_all add: usd_or_zero_def)

text \<open>The legs a side books: those of the wanted assets that are not mere conversions.\<close>

definition booked_sum :: "(canonical_leg \<Rightarrow> int) \<Rightarrow> (int \<Rightarrow> bool) \<Rightarrow> (int, int list) jsmap \<Rightarrow> canonical_leg list \<Rightarrow> int" where
  "booked_sum worth P opposing legs =
     sum_list (map worth (filter (\<lambda>l. P (canonicalAssetId l) \<and> \<not> isCanonicalSelfConversion l opposing) legs))"

lemma booked_sum_simps [simp]:
  "booked_sum worth P opposing [] = 0"
  "booked_sum worth P opposing (l # ls) =
     (if P (canonicalAssetId l) \<and> \<not> isCanonicalSelfConversion l opposing then worth l else 0)
     + booked_sum worth P opposing ls"
  by (simp_all add: booked_sum_def)

text \<open>The rows one side of a trade is collecting.\<close>

definition side_rows :: "int \<Rightarrow> string \<Rightarrow> (int, trade_volume_row) jsmap \<Rightarrow> bool" where
  "side_rows height acct m \<longleftrightarrow> map_wf m
     \<and> (\<forall>e \<in> set m. row_id (snd e) = (fst e, height, acct) \<and> readable (snd e))"

text \<open>The contract of booking one leg: the amounts of some kinds grow by what the leg is worth.\<close>

locale leg_booking =
  fixes add :: "trade_volume_row \<Rightarrow> canonical_leg \<Rightarrow> trade_volume_row option"
    and hit :: "volume_kind \<Rightarrow> bool"
    and worth :: "volume_kind \<Rightarrow> canonical_leg \<Rightarrow> int"
    and fit :: "canonical_leg \<Rightarrow> bool"
  assumes add_adds: "readable row \<Longrightarrow> fit l \<Longrightarrow>
    \<exists>row'. add row l = Some row' \<and> readable row' \<and> row_id row' = row_id row
      \<and> (\<forall>k. amount_of k row' = amount_of k row + (if hit k then worth k l else 0))"
begin

lemma book_legs_adds:
  assumes "side_rows height acct m" and "\<forall>l \<in> set legs. fit l"
  shows "\<exists>m'. book_legs (rowForAsset height acct mirrored) add opposing legs m = Some m'
    \<and> side_rows height acct m'
    \<and> (\<forall>k P. sum_where row_id (amount_of k) P (map snd m') = sum_where row_id (amount_of k) P (map snd m)
        + (if hit k then booked_sum (worth k) (\<lambda>a. P (a, height, acct)) opposing legs else 0))"
  using assms
proof (induction legs arbitrary: m)
  case (Cons l ls)
  show ?case
  proof (cases "isCanonicalSelfConversion l opposing")
    case True
    then show ?thesis using Cons.IH [OF Cons.prems(1)] Cons.prems(2) by (simp cong: if_cong)
  next
    case False
    let ?a = "canonicalAssetId l"
    let ?row = "rowForAsset height acct mirrored ?a m"
    have row: "readable ?row \<and> row_id ?row = (?a, height, acct)
        \<and> (\<forall>k. amount_of k ?row = (case map_of m ?a of None \<Rightarrow> 0 | Some r \<Rightarrow> amount_of k r))"
    proof (cases "map_of m ?a")
      case None
      have "field_value k ?row = Some 0" for k
        by (cases k) (simp_all add: rowForAsset_def None bigint_field_def parse_bigint_def parse_dec_def digit_val_def)
      then show ?thesis by (simp add: readable_def amount_of_def None row_id_def) (simp add: rowForAsset_def None)
    next
      case (Some r)
      then have "(?a, r) \<in> set m" by (rule map_of_SomeD)
      with Cons.prems(1) show ?thesis by (fastforce simp: side_rows_def rowForAsset_def Some)
    qed
    then obtain r' where r': "add ?row l = Some r'" "readable r'" "row_id r' = (?a, height, acct)"
      "\<forall>k. amount_of k r' = amount_of k ?row + (if hit k then worth k l else 0)"
      using add_adds [of ?row l] Cons.prems(2) by auto
    let ?m = "map_set ?a r' m"
    have wf: "map_wf m" using Cons.prems(1) by (simp add: side_rows_def)
    have "side_rows height acct ?m"
      using Cons.prems(1) r' map_set_entries [of ?a r' m] by (fastforce simp: side_rows_def)
    from Cons.IH [OF this] Cons.prems(2) obtain m' where
      m': "book_legs (rowForAsset height acct mirrored) add opposing ls ?m = Some m'" "side_rows height acct m'"
      "\<forall>k P. sum_where row_id (amount_of k) P (map snd m') = sum_where row_id (amount_of k) P (map snd ?m)
        + (if hit k then booked_sum (worth k) (\<lambda>a. P (a, height, acct)) opposing ls else 0)"
      by auto
    have old: "row_id r = (?a, height, acct)" if "map_of m ?a = Some r" for r
      using Cons.prems(1) map_of_SomeD [OF that] by (fastforce simp: side_rows_def)
    have "sum_where row_id (amount_of k) P (map snd ?m) = sum_where row_id (amount_of k) P (map snd m)
        + (if P (?a, height, acct) \<and> hit k then worth k l else 0)" for k P
      unfolding sum_where_map_set [OF wf] using r'(3,4) row old by (auto split: option.splits)
    with m' r'(1) False show ?thesis by (intro exI [of _ m']) auto
  qed
qed simp

end

definition leg_fit :: "canonical_leg \<Rightarrow> bool" where
  "leg_fit l \<longleftrightarrow> 0 \<le> leg_amount l"

lemma add_native:
  assumes "bigint_field s = Some x"
  shows "sumBigIntStrings s (Some (int_to_string n)) = Some (int_to_string (x + n))"
  using assms by (simp add: sumBigIntStrings_def bigint_field_def [of "Some _"])

lemma add_usd:
  assumes "decimalToScaledBigInt s = Some x" and "decimalToScaledBigInt t = Some y"
  shows "sumDecimal128Strings s t = Some (formatDecimal128 (x + y))"
  using assms by (simp add: sumDecimal128Strings_def)

lemma readable_fields:
  assumes "readable r"
  obtains nb ns ub us where "bigint_field (native_volume_buy r) = Some nb" "bigint_field (native_volume_sell r) = Some ns"
    "decimalToScaledBigInt (usd_volume_buy r) = Some ub" "decimalToScaledBigInt (usd_volume_sell r) = Some us"
  using assms unfolding readable_def not_None_eq by (metis field_value.simps)

lemma readable_kinds:
  "readable r \<longleftrightarrow> bigint_field (native_volume_buy r) \<noteq> None \<and> bigint_field (native_volume_sell r) \<noteq> None
     \<and> decimalToScaledBigInt (usd_volume_buy r) \<noteq> None \<and> decimalToScaledBigInt (usd_volume_sell r) \<noteq> None"
  unfolding readable_def by (metis field_value.simps volume_kind.exhaust)

lemma addSell_adds:
  assumes "prices_parse prices" and "readable row" and "leg_fit l"
  shows "\<exists>row'. addSell prices decs row l = Some row' \<and> readable row' \<and> row_id row' = row_id row
    \<and> (\<forall>k. amount_of k row' = amount_of k row + (if is_sell k then leg_value prices decs k l else 0))"
proof -
  obtain nb ns ub us where f: "bigint_field (native_volume_buy row) = Some nb"
    "bigint_field (native_volume_sell row) = Some ns" "decimalToScaledBigInt (usd_volume_buy row) = Some ub"
    "decimalToScaledBigInt (usd_volume_sell row) = Some us"
    using assms(2) by (rule readable_fields)
  obtain v where v: "calculateLegUsdVolume l prices decs = Some v"
    "decimalToScaledBigInt (Some v) = Some (usd_value prices decs l)"
    using calculateLegUsdVolume_ok [OF assms(1)] assms(3) unfolding leg_fit_def by blast
  let ?row = "row\<lparr>native_volume_sell := Some (int_to_string (ns + leg_amount l)),
    usd_volume_sell := Some (formatDecimal128 (us + usd_value prices decs l))\<rparr>"
  have "addSell prices decs row l = Some ?row"
    using add_native [OF f(2)] add_usd [of "usd_or_zero (usd_volume_sell row)", OF _ v(2)] f(4) v(1)
    by (simp add: addSell_def)
  moreover have "readable ?row" using f by (simp add: readable_kinds bigint_field_def [of "Some _"])
  moreover have "amount_of k ?row = amount_of k row + (if is_sell k then leg_value prices decs k l else 0)" for k
    using f by (cases k) (simp_all add: amount_of_def bigint_field_def [of "Some _"])
  ultimately show ?thesis by (intro exI [of _ ?row]) (simp add: row_id_def)
qed

lemma addBuy_adds:
  assumes "prices_parse prices" and "readable row" and "leg_fit l"
  shows "\<exists>row'. addBuy prices decs row l = Some row' \<and> readable row' \<and> row_id row' = row_id row
    \<and> (\<forall>k. amount_of k row' = amount_of k row + (if \<not> is_sell k then leg_value prices decs k l else 0))"
proof -
  obtain nb ns ub us where f: "bigint_field (native_volume_buy row) = Some nb"
    "bigint_field (native_volume_sell row) = Some ns" "decimalToScaledBigInt (usd_volume_buy row) = Some ub"
    "decimalToScaledBigInt (usd_volume_sell row) = Some us"
    using assms(2) by (rule readable_fields)
  obtain v where v: "calculateLegUsdVolume l prices decs = Some v"
    "decimalToScaledBigInt (Some v) = Some (usd_value prices decs l)"
    using calculateLegUsdVolume_ok [OF assms(1)] assms(3) unfolding leg_fit_def by blast
  let ?row = "row\<lparr>native_volume_buy := Some (int_to_string (nb + leg_amount l)),
    usd_volume_buy := Some (formatDecimal128 (ub + usd_value prices decs l))\<rparr>"
  have "addBuy prices decs row l = Some ?row"
    using add_native [OF f(1)] add_usd [of "usd_or_zero (usd_volume_buy row)", OF _ v(2)] f(3) v(1)
    by (simp add: addBuy_def)
  moreover have "readable ?row" using f by (simp add: readable_kinds bigint_field_def [of "Some _"])
  moreover have "amount_of k ?row = amount_of k row + (if \<not> is_sell k then leg_value prices decs k l else 0)" for k
    using f by (cases k) (simp_all add: amount_of_def bigint_field_def [of "Some _"])
  ultimately show ?thesis by (intro exI [of _ ?row]) (simp add: row_id_def)
qed

text \<open>Both bookings, at prices that parse (at others they throw, and the contract is empty).\<close>

interpretation sell_booking: leg_booking "addSell prices decs" is_sell "leg_value prices decs"
    "\<lambda>l. prices_parse prices \<and> leg_fit l" for prices decs
  by unfold_locales (use addSell_adds in blast)

interpretation buy_booking: leg_booking "addBuy prices decs" "\<lambda>k. \<not> is_sell k" "leg_value prices decs"
    "\<lambda>l. prices_parse prices \<and> leg_fit l" for prices decs
  by unfold_locales (use addBuy_adds in blast)

section \<open>What a trade is worth to its sides\<close>

definition converts :: "canonical_leg \<Rightarrow> canonical_leg list \<Rightarrow> bool" where
  "converts l opposing \<longleftrightarrow>
     (\<exists>q \<in> set opposing. canonicalAssetId q = canonicalAssetId l \<and> leg_asset q \<noteq> leg_asset l)"

definition side_volume ::
  "(canonical_leg \<Rightarrow> int) \<Rightarrow> (int \<Rightarrow> int) \<Rightarrow> (int \<Rightarrow> bool) \<Rightarrow> leg list \<Rightarrow> leg list \<Rightarrow> int" where
  "side_volume worth canon P legs opposing =
     sum_list (map worth (filter (\<lambda>l. P (canonicalAssetId l) \<and> \<not> converts l (canonicalTradeLegs canon opposing))
       (canonicalTradeLegs canon legs)))"

text \<open>A trade sells its inputs and buys its outputs; the passive side of a fill does the reverse.\<close>

definition trade_volume ::
  "price_map \<Rightarrow> (int, nat) jsmap \<Rightarrow> (int \<Rightarrow> int) \<Rightarrow> volume_kind \<Rightarrow> bool \<Rightarrow> (int \<Rightarrow> bool) \<Rightarrow> decoded_trade \<Rightarrow> int" where
  "trade_volume prices decs canon kind mirrored P t =
     (if is_sell kind \<noteq> mirrored
      then side_volume (leg_value prices decs kind) canon P (inputs t) (outputs t)
      else side_volume (leg_value prices decs kind) canon P (outputs t) (inputs t))"

definition trade_nonneg :: "decoded_trade \<Rightarrow> bool" where
  "trade_nonneg t \<longleftrightarrow> (\<forall>l \<in> set (inputs t) \<union> set (outputs t). 0 \<le> snd l)"

lemma originals_fold:
  "(case map_of (foldl (\<lambda>result l. map_set (canonicalAssetId l)
         (set_add (leg_asset l) (case map_of result (canonicalAssetId l) of None \<Rightarrow> [] | Some os \<Rightarrow> os)) result)
       m legs) c of None \<Rightarrow> {} | Some os \<Rightarrow> set os)
   = (case map_of m c of None \<Rightarrow> {} | Some os \<Rightarrow> set os) \<union> leg_asset ` {l \<in> set legs. canonicalAssetId l = c}"
proof (induction legs arbitrary: m)
  case (Cons l ls)
  show ?case unfolding foldl_Cons Cons.IH by (auto split: option.splits)
qed simp

lemma self_conversion_iff:
  "isCanonicalSelfConversion l (originalsByCanonicalAsset opposing) \<longleftrightarrow> converts l opposing"
proof -
  have "isCanonicalSelfConversion l m \<longleftrightarrow>
      (\<exists>a \<in> (case map_of m (canonicalAssetId l) of None \<Rightarrow> {} | Some os \<Rightarrow> set os). a \<noteq> leg_asset l)" for m
    by (auto simp: isCanonicalSelfConversion_def list_ex_iff split: option.split)
  from this [of "originalsByCanonicalAsset opposing"] show ?thesis
    unfolding originalsByCanonicalAsset_def originals_fold by (auto simp: converts_def)
qed

lemma booked_sum_side:
  "booked_sum worth P (originalsByCanonicalAsset (canonicalTradeLegs canon opposing)) (canonicalTradeLegs canon legs)
     = side_volume worth canon P legs opposing"
  by (simp add: booked_sum_def side_volume_def self_conversion_iff)

lemma canonical_fit:
  assumes "trade_nonneg t"
  shows "\<forall>l \<in> set (canonicalTradeLegs canon (inputs t)). leg_fit l"
    and "\<forall>l \<in> set (canonicalTradeLegs canon (outputs t)). leg_fit l"
  using assms by (auto simp: trade_nonneg_def canonicalTradeLegs_def leg_fit_def)

lemma side_rows_Nil: "side_rows height acct []"
  by (simp add: side_rows_def)

lemma accountSideVolumeRows_ok:
  assumes "prices_parse prices" and "trade_nonneg t"
  shows "\<exists>rows. accountSideVolumeRows prices decs canon height t acct mirrored = Some rows
    \<and> (\<forall>r \<in> set rows. readable r)
    \<and> (\<forall>k P. sum_where row_id (amount_of k) P rows =
          trade_volume prices decs canon k mirrored (\<lambda>a. P (a, height, acct)) t)"
proof -
  let ?ins = "canonicalTradeLegs canon (inputs t)"
  let ?outs = "canonicalTradeLegs canon (outputs t)"
  have ins: "\<forall>l \<in> set ?ins. prices_parse prices \<and> leg_fit l" and outs: "\<forall>l \<in> set ?outs. prices_parse prices \<and> leg_fit l"
    using canonical_fit [OF assms(2)] assms(1) by blast+
  have step: "\<exists>m2. book_legs (rowForAsset height acct mirrored) (if b then addBuy prices decs else addSell prices decs)
        opposing legs m1 = Some m2 \<and> side_rows height acct m2
        \<and> (\<forall>k P. sum_where row_id (amount_of k) P (map snd m2) = sum_where row_id (amount_of k) P (map snd m1)
            + (if is_sell k \<noteq> b then booked_sum (leg_value prices decs k) (\<lambda>a. P (a, height, acct)) opposing legs else 0))"
    if "side_rows height acct m1" "\<forall>l \<in> set legs. prices_parse prices \<and> leg_fit l" for b opposing legs m1
    using sell_booking.book_legs_adds [OF that, of mirrored decs opposing]
      buy_booking.book_legs_adds [OF that, of mirrored decs opposing]
    by (cases b) simp_all
  from step [OF side_rows_Nil ins, of mirrored "originalsByCanonicalAsset ?outs"] obtain m1 where
    m1: "book_legs (rowForAsset height acct mirrored) (if mirrored then addBuy prices decs else addSell prices decs)
        (originalsByCanonicalAsset ?outs) ?ins [] = Some m1" "side_rows height acct m1"
      "\<forall>k P. sum_where row_id (amount_of k) P (map snd m1) = (if is_sell k \<noteq> mirrored
         then booked_sum (leg_value prices decs k) (\<lambda>a. P (a, height, acct)) (originalsByCanonicalAsset ?outs) ?ins else 0)"
    by auto
  from step [OF m1(2) outs, of "\<not> mirrored" "originalsByCanonicalAsset ?ins"] obtain m2 where
    m2: "book_legs (rowForAsset height acct mirrored) (if \<not> mirrored then addBuy prices decs else addSell prices decs)
        (originalsByCanonicalAsset ?ins) ?outs m1 = Some m2" "side_rows height acct m2"
      "\<forall>k P. sum_where row_id (amount_of k) P (map snd m2) = sum_where row_id (amount_of k) P (map snd m1)
         + (if is_sell k \<noteq> (\<not> mirrored)
            then booked_sum (leg_value prices decs k) (\<lambda>a. P (a, height, acct)) (originalsByCanonicalAsset ?ins) ?outs else 0)"
    by blast
  have "accountSideVolumeRows prices decs canon height t acct mirrored = Some (map snd m2)"
    using m1(1) m2(1) by (cases mirrored) (simp_all add: accountSideVolumeRows_def)
  moreover have "\<forall>r \<in> set (map snd m2). readable r" using m2(2) by (auto simp: side_rows_def)
  moreover have "sum_where row_id (amount_of k) P (map snd m2) =
      trade_volume prices decs canon k mirrored (\<lambda>a. P (a, height, acct)) t" for k P
    using m1(3) m2(3) by (cases "is_sell k"; cases mirrored) (simp_all add: trade_volume_def booked_sum_side)
  ultimately show ?thesis by blast
qed

section \<open>Whose volume it is\<close>

definition principal_of :: "decoded_trade \<Rightarrow> string option" where
  "principal_of t =
     (case present_account (trader t) of None \<Rightarrow> None
      | Some a \<Rightarrow> if isUnattributableVolumePot (Some a) then None else Some a)"

definition passive_of :: "decoded_trade \<Rightarrow> string option" where
  "passive_of t =
     (case present_account (counterparty t) of None \<Rightarrow> None
      | Some c \<Rightarrow> if present_account (trader t) = Some c \<or> isUnattributableVolumePot (Some c) then None else Some c)"

definition account_share ::
  "price_map \<Rightarrow> (int, nat) jsmap \<Rightarrow> (int \<Rightarrow> int) \<Rightarrow> int \<Rightarrow> volume_kind \<Rightarrow> (int \<times> int \<times> string \<Rightarrow> bool) \<Rightarrow> decoded_trade \<Rightarrow> int" where
  "account_share prices decs canon height kind P t =
     (case principal_of t of None \<Rightarrow> 0
      | Some a \<Rightarrow> trade_volume prices decs canon kind False (\<lambda>i. P (i, height, a)) t)
   + (case passive_of t of None \<Rightarrow> 0
      | Some c \<Rightarrow> trade_volume prices decs canon kind True (\<lambda>i. P (i, height, c)) t)"

lemma tradeToAccountVolumeRows_ok:
  assumes "prices_parse prices" and "trade_nonneg t"
  shows "\<exists>rows. tradeToAccountVolumeRows prices decs canon height t = Some rows \<and> (\<forall>r \<in> set rows. readable r)
    \<and> (\<forall>k P. sum_where row_id (amount_of k) P rows = account_share prices decs canon height k P t)"
proof -
  have side: "\<exists>rows. (case who of None \<Rightarrow> Some []
        | Some a \<Rightarrow> accountSideVolumeRows prices decs canon height t a mirrored) = Some rows \<and> (\<forall>r \<in> set rows. readable r)
      \<and> (\<forall>k P. sum_where row_id (amount_of k) P rows = (case who of None \<Rightarrow> 0
          | Some a \<Rightarrow> trade_volume prices decs canon k mirrored (\<lambda>i. P (i, height, a)) t))" for who mirrored
    using accountSideVolumeRows_ok [OF assms] by (cases who) auto
  have eq: "tradeToAccountVolumeRows prices decs canon height t = do {
      rows \<leftarrow> (case principal_of t of None \<Rightarrow> Some []
        | Some a \<Rightarrow> accountSideVolumeRows prices decs canon height t a False);
      mirror \<leftarrow> (case passive_of t of None \<Rightarrow> Some []
        | Some c \<Rightarrow> accountSideVolumeRows prices decs canon height t c True);
      Some (rows @ mirror) }"
    by (auto simp: tradeToAccountVolumeRows_def principal_of_def passive_of_def Let_def split: option.split)
  from side [where who = "principal_of t" and mirrored = False] side [where who = "passive_of t" and mirrored = True] show ?thesis
    unfolding eq account_share_def by fastforce
qed

lemma concat_rows_ok:
  assumes "\<forall>t \<in> set ts. \<exists>rows. f t = Some rows \<and> (\<forall>r \<in> set rows. ok r) \<and> (\<forall>k P. total_of k P rows = share k P t)"
    and "\<And>k P. total_of k P [] = (0 :: int)"
    and "\<And>k P xs ys. total_of k P (xs @ ys) = total_of k P xs + total_of k P ys"
  shows "\<exists>rows. concat_rows f ts = Some rows \<and> (\<forall>r \<in> set rows. ok r)
    \<and> (\<forall>k P. total_of k P rows = sum_list (map (share k P) ts))"
  using assms(1)
proof (induction ts)
  case (Cons t ts)
  then obtain rows rest where "f t = Some rows" "\<forall>r \<in> set rows. ok r" "\<forall>k P. total_of k P rows = share k P t"
    "concat_rows f ts = Some rest" "\<forall>r \<in> set rest. ok r" "\<forall>k P. total_of k P rest = sum_list (map (share k P) ts)"
    by auto
  then show ?case by (intro exI [of _ "rows @ rest"]) (auto simp: assms(3))
qed (simp add: assms(2))

lemma account_rows_total:
  assumes "prices_parse prices" and "decodeBlockTrades events specVersion pools = Some trades"
    and "\<forall>t \<in> set trades. trade_nonneg t"
  shows "\<exists>rows. extractTradeVolumeFromSwaps events height specVersion prices decs canon pools = Some rows
    \<and> distinct (map row_id rows)
    \<and> (\<forall>k P. sum_where row_id (amount_of k) P rows = sum_list (map (account_share prices decs canon height k P) trades))"
proof -
  have "\<exists>rows. concat_rows (tradeToAccountVolumeRows prices decs canon height) trades = Some rows
      \<and> (\<forall>r \<in> set rows. readable r) \<and> (\<forall>k P. sum_where row_id (amount_of k) P rows =
          sum_list (map (account_share prices decs canon height k P) trades))"
    by (rule concat_rows_ok) (use tradeToAccountVolumeRows_ok [OF assms(1)] assms(3) in auto)
  then obtain rows where rows: "concat_rows (tradeToAccountVolumeRows prices decs canon height) trades = Some rows"
    "\<forall>r \<in> set rows. readable r" "\<forall>k P. sum_where row_id (amount_of k) P rows =
          sum_list (map (account_share prices decs canon height k P) trades)" by blast
  from trade_sum.aggregate_conserves [OF rows(2), of NativeBuy] obtain out where
    out: "aggregateTradeVolumeRows rows = Some out" "distinct (map trade_row_key out)"
    by (auto simp: aggregateTradeVolumeRows_def)
  have key: "(\<exists>r'. trade_row_key r' = trade_row_key r \<and> P (row_id r')) \<longleftrightarrow> P (row_id r)" for P r
    by (metis row_id_def trade_row_key_inj)
  have id: "sum_where trade_row_key f (\<lambda>s. \<exists>r'. trade_row_key r' = s \<and> P (row_id r')) xs = sum_where row_id f P xs"
    for f P and xs :: "trade_volume_row list"
    unfolding sum_where_def key ..
  have "sum_where trade_row_key (amount_of k) P out = sum_where trade_row_key (amount_of k) P rows" for k P
    using trade_sum.aggregate_conserves [OF rows(2), of k] out(1) by (auto simp: aggregateTradeVolumeRows_def)
  note by_key = this
  have "sum_where row_id (amount_of k) P out = sum_where row_id (amount_of k) P rows" for k P
    using by_key [of k "\<lambda>s. \<exists>r'. trade_row_key r' = s \<and> P (row_id r')"] by (simp only: id)
  moreover have "distinct (map row_id out)"
    using out(2) unfolding distinct_map inj_on_def trade_row_key_inj row_id_def by simp
  ultimately show ?thesis using assms(2) rows(1,3) out(1) by (simp add: extractTradeVolumeFromSwaps_def)
qed

section \<open>A block\<close>

definition sample_runtime :: chain_runtime where
  "sample_runtime = \<lparr>checkType = (\<lambda>name version. version = 323), json_decoder = Some (\<lambda>name args. Some args)\<rparr>"

definition sample_swap :: event_like where
  "sample_swap =
     \<lparr>event_name = ''Broadcast.Swapped3'',
      event_args = JObj [(''swapper'', JStr ''0xaa''), (''filler'', JStr ''0xbb''),
        (''fillerType'', JObj [(''__kind'', JStr ''XYK'')]), (''operation'', JObj [(''__kind'', JStr ''ExactIn'')]),
        (''inputs'', JArr [JObj [(''asset'', JNum 5), (''amount'', JBig 300)]]),
        (''outputs'', JArr [JObj [(''asset'', JNum 0), (''amount'', JBig 700)]])],
      event_extrinsicIndex = Some 2, event_runtime = Some sample_runtime\<rparr>"

lemma sample_block_trades:
  "decodeBlockTrades [sample_swap] 323 [] =
     Some [\<lparr>inputs = [(5, 300)], outputs = [(0, 700)], trader = Some ''0xaa'', filler = Some ''XYK'',
            fillerAccount = Some ''0xbb'', counterparty = None\<rparr>]"
  by code_simp

definition sample_prices :: price_map where
  "sample_prices = [(5, ''2.5''), (0, ''1.5'')]"

lemma sample_price_reads:
  "priceToDecimal128 ''2.5'' = Some 2500000000000" "priceToDecimal128 ''1.5'' = Some 1500000000000"
proof -
  have "pad_end 12 (CHR ''0'') ''5'' = ''500000000000''" by (simp add: pad_end_def numeral_eq_Suc)
  then show "priceToDecimal128 ''2.5'' = Some 2500000000000" "priceToDecimal128 ''1.5'' = Some 1500000000000"
    by (simp_all add: priceToDecimal128_def list_all_iff is_dec_digit_def parse_bigint_def parse_dec_def digit_val_def)
qed

abbreviation sample_trade :: decoded_trade where
  "sample_trade \<equiv> \<lparr>inputs = [(5, 300)], outputs = [(0, 700)], trader = Some ''0xaa'', filler = Some ''XYK'',
      fillerAccount = Some ''0xbb'', counterparty = None\<rparr>"

lemma sample_trade_facts:
  "prices_parse sample_prices" "hasPositivePrice sample_prices 5"
  "principal_of sample_trade = Some ''0xaa''" "passive_of sample_trade = None" "trade_nonneg sample_trade"
proof -
  show "prices_parse sample_prices" by (simp add: prices_parse_def sample_prices_def sample_price_reads)
  show "hasPositivePrice sample_prices 5" by code_simp
  show "principal_of sample_trade = Some ''0xaa''" by code_simp
  show "passive_of sample_trade = None" by code_simp
  show "trade_nonneg sample_trade" by code_simp
qed

lemma sample_volume:
  "trade_volume sample_prices [(5, 1)] (\<lambda>i. i) UsdSell False (\<lambda>i. i = 5) sample_trade = 75000000000000"
  by (simp add: trade_volume_def side_volume_def canonicalTradeLegs_def converts_def usd_value_def sample_trade_facts(2))
    (simp add: sample_prices_def sample_price_reads)

text \<open>Account volumes are exact. For every account, asset and block there is at most one row, and each of its
  four fields is the sum over the block's trades of what the account sold or bought there: the inputs and
  outputs of the trades it made, and the legs with sides exchanged of the fills it was the other party of;
  dollar fields are the legs' amounts times the price, truncated at twelve decimals.\<close>

lemma account_volume_exact:
  assumes "prices_parse prices" and "decodeBlockTrades events specVersion pools = Some trades"
    and "\<forall>t \<in> set trades. trade_nonneg t"
  shows "\<exists>rows. extractTradeVolumeFromSwaps events height specVersion prices decs canon pools = Some rows
    \<and> distinct (map (\<lambda>r. (trade_asset r, trade_block r, account r)) rows)
    \<and> (\<forall>kind asset acct.
         sum_list (map (amount_of kind) (filter (\<lambda>r. (trade_asset r, trade_block r, account r) = (asset, height, acct)) rows))
         = sum_list (map (\<lambda>t. (if principal_of t = Some acct
                               then trade_volume prices decs canon kind False (\<lambda>i. i = asset) t else 0)
                           + (if passive_of t = Some acct
                               then trade_volume prices decs canon kind True (\<lambda>i. i = asset) t else 0)) trades))"
proof -
  from account_rows_total [OF assms, of height decs canon] obtain rows where
    rows: "extractTradeVolumeFromSwaps events height specVersion prices decs canon pools = Some rows"
      "distinct (map row_id rows)" "\<forall>k P. sum_where row_id (amount_of k) P rows =
         sum_list (map (account_share prices decs canon height k P) trades)" by blast
  have no: "trade_volume prices decs canon kind m (\<lambda>i. False) t = 0" for kind m t
    by (simp add: trade_volume_def side_volume_def)
  have share: "account_share prices decs canon height kind (\<lambda>i. i = (asset, height, acct)) t =
      (if principal_of t = Some acct then trade_volume prices decs canon kind False (\<lambda>i. i = asset) t else 0)
      + (if passive_of t = Some acct then trade_volume prices decs canon kind True (\<lambda>i. i = asset) t else 0)"
    for kind asset acct t
    by (auto simp: account_share_def no split: option.split)
  show ?thesis
  proof (intro exI [of _ rows] conjI allI)
    fix kind asset acct
    show "sum_list (map (amount_of kind) (filter (\<lambda>r. (trade_asset r, trade_block r, account r) = (asset, height, acct)) rows))
         = sum_list (map (\<lambda>t. (if principal_of t = Some acct
                               then trade_volume prices decs canon kind False (\<lambda>i. i = asset) t else 0)
                           + (if passive_of t = Some acct
                               then trade_volume prices decs canon kind True (\<lambda>i. i = asset) t else 0)) trades)"
      using rows(3) [rule_format, of kind "\<lambda>i. i = (asset, height, acct)"]
      unfolding sum_where_def share row_id_def .
  qed (use rows in \<open>simp_all add: row_id_def [abs_def]\<close>)
qed

section \<open>Candles\<close>

lemma sell_rows_ok:
  assumes "prices_parse prices" and "\<forall>l \<in> set legs. leg_fit l"
  shows "\<exists>rows. sell_rows prices decs height opposing legs = Some rows \<and> (\<forall>r \<in> set rows. readable r)
    \<and> (\<forall>k P. sum_where price_asset (amount_of k) P rows =
        (if is_sell k then booked_sum (leg_value prices decs k) P opposing legs else 0))"
  using assms(2)
proof (induction legs)
  case (Cons l ls)
  then obtain rows where IH: "sell_rows prices decs height opposing ls = Some rows" "\<forall>r \<in> set rows. readable r"
    "\<forall>k P. sum_where price_asset (amount_of k) P rows =
        (if is_sell k then booked_sum (leg_value prices decs k) P opposing ls else 0)" by auto
  from Cons.prems obtain v where v: "calculateLegUsdVolume l prices decs = Some v"
    "decimalToScaledBigInt (Some v) = Some (usd_value prices decs l)"
    using calculateLegUsdVolume_ok [OF assms(1)] unfolding leg_fit_def by (metis list.set_intros(1))
  let ?row = "\<lparr>native_volume_buy = Some ''0'', native_volume_sell = Some (int_to_string (leg_amount l)),
    usd_volume_buy = Some ''0.000000000000'', usd_volume_sell = Some v, price_asset = canonicalAssetId l,
    price_block = height, price_timestamp = None, usd_price = ''0'', price_hops = None\<rparr>"
  have f: "field_value k ?row = Some (if is_sell k then leg_value prices decs k l else 0)" for k
    using v(2) by (cases k) simp_all
  then have "readable ?row" "amount_of k ?row = (if is_sell k then leg_value prices decs k l else 0)" for k
    unfolding readable_def amount_of_def by simp_all
  with IH v(1) show ?case by simp
qed simp

lemma buy_rows_ok:
  assumes "prices_parse prices" and "\<forall>l \<in> set legs. leg_fit l"
  shows "\<exists>rows. buy_rows prices decs height opposing legs = Some rows \<and> (\<forall>r \<in> set rows. readable r)
    \<and> (\<forall>k P. sum_where price_asset (amount_of k) P rows =
        (if \<not> is_sell k then booked_sum (leg_value prices decs k) P opposing legs else 0))"
  using assms(2)
proof (induction legs)
  case (Cons l ls)
  then obtain rows where IH: "buy_rows prices decs height opposing ls = Some rows" "\<forall>r \<in> set rows. readable r"
    "\<forall>k P. sum_where price_asset (amount_of k) P rows =
        (if \<not> is_sell k then booked_sum (leg_value prices decs k) P opposing ls else 0)" by auto
  from Cons.prems obtain v where v: "calculateLegUsdVolume l prices decs = Some v"
    "decimalToScaledBigInt (Some v) = Some (usd_value prices decs l)"
    using calculateLegUsdVolume_ok [OF assms(1)] unfolding leg_fit_def by (metis list.set_intros(1))
  let ?row = "\<lparr>native_volume_buy = Some (int_to_string (leg_amount l)), native_volume_sell = Some ''0'',
    usd_volume_buy = Some v, usd_volume_sell = Some ''0.000000000000'', price_asset = canonicalAssetId l,
    price_block = height, price_timestamp = None, usd_price = ''0'', price_hops = None\<rparr>"
  have f: "field_value k ?row = Some (if \<not> is_sell k then leg_value prices decs k l else 0)" for k
    using v(2) by (cases k) simp_all
  then have "readable ?row" "amount_of k ?row = (if \<not> is_sell k then leg_value prices decs k l else 0)" for k
    unfolding readable_def amount_of_def by simp_all
  with IH v(1) show ?case by simp
qed simp

lemma tradeToVolumeRows_ok:
  assumes "prices_parse prices" and "trade_nonneg t"
  shows "\<exists>rows. tradeToVolumeRows prices decs canon height t = Some rows \<and> (\<forall>r \<in> set rows. readable r)
    \<and> (\<forall>k P. sum_where price_asset (amount_of k) P rows = trade_volume prices decs canon k False P t)"
proof -
  from sell_rows_ok [OF assms(1) canonical_fit(1) [OF assms(2)]] obtain xs where
    xs: "sell_rows prices decs height (originalsByCanonicalAsset (canonicalTradeLegs canon (outputs t)))
        (canonicalTradeLegs canon (inputs t)) = Some xs" "\<forall>r \<in> set xs. readable r"
      "\<forall>k P. sum_where price_asset (amount_of k) P xs = (if is_sell k then
         side_volume (leg_value prices decs k) canon P (inputs t) (outputs t) else 0)"
    unfolding booked_sum_side [symmetric] by blast
  from buy_rows_ok [OF assms(1) canonical_fit(2) [OF assms(2)]] obtain ys where
    ys: "buy_rows prices decs height (originalsByCanonicalAsset (canonicalTradeLegs canon (inputs t)))
        (canonicalTradeLegs canon (outputs t)) = Some ys" "\<forall>r \<in> set ys. readable r"
      "\<forall>k P. sum_where price_asset (amount_of k) P ys = (if \<not> is_sell k then
         side_volume (leg_value prices decs k) canon P (outputs t) (inputs t) else 0)"
    unfolding booked_sum_side [symmetric] by blast
  have "tradeToVolumeRows prices decs canon height t = Some (xs @ ys)"
    using xs(1) ys(1) by (simp add: tradeToVolumeRows_def)
  with xs ys show ?thesis by (intro exI [of _ "xs @ ys"]) (auto simp: trade_volume_def)
qed

lemma candle_rows_total:
  assumes "prices_parse prices" and "decodeBlockTrades events specVersion pools = Some trades"
    and "\<forall>t \<in> set trades. trade_nonneg t"
  shows "\<exists>rows. extractVolumeFromSwaps events height specVersion prices decs canon pools = Some rows
    \<and> (\<forall>r \<in> set rows. readable r)
    \<and> (\<forall>k P. sum_where price_asset (amount_of k) P rows = sum_list (map (trade_volume prices decs canon k False P) trades))"
  unfolding extractVolumeFromSwaps_def assms(2) bind.bind_lunit
  by (rule concat_rows_ok) (use tradeToVolumeRows_ok [OF assms(1)] assms(3) in auto)

text \<open>A block with one of each: an OTC fill, two hub hops, an ICE settlement and a swap of the fee processor.\<close>

definition swap_event :: "int \<Rightarrow> string \<Rightarrow> string \<Rightarrow> string \<Rightarrow> int \<times> int \<Rightarrow> int \<times> int \<Rightarrow> event_like" where
  "swap_event extrinsic swapper fillerAcc kind i out =
     \<lparr>event_name = ''Broadcast.Swapped3'',
      event_args = JObj [(''swapper'', JStr swapper), (''filler'', JStr fillerAcc),
        (''fillerType'', JObj [(''__kind'', JStr kind)]), (''operation'', JObj [(''__kind'', JStr ''ExactIn'')]),
        (''inputs'', JArr [JObj [(''asset'', JNum (fst i)), (''amount'', JBig (snd i))]]),
        (''outputs'', JArr [JObj [(''asset'', JNum (fst out)), (''amount'', JBig (snd out))]])],
      event_extrinsicIndex = Some extrinsic, event_runtime = Some sample_runtime\<rparr>"

definition other_event :: "string \<Rightarrow> int \<Rightarrow> (string \<times> json) list \<Rightarrow> event_like" where
  "other_event name extrinsic args =
     \<lparr>event_name = name, event_args = JObj args, event_extrinsicIndex = Some extrinsic, event_runtime = Some sample_runtime\<rparr>"

definition mixed_block :: "event_like list" where
  "mixed_block =
     [other_event ''OTC.Filled'' 2 [(''who'', JStr ''0xcc'')],
      swap_event 2 ''0xaa'' ''0xcc'' ''OTC'' (5, 300) (0, 700),
      swap_event 3 ''0xdd'' ''0xbb'' ''Omnipool'' (5, 10) (1, 15),
      swap_event 3 ''0xdd'' ''0xbb'' ''Omnipool'' (1, 15) (7, 20),
      other_event ''Tokens.Transfer'' 4 [(''from'', JStr ''0xee''), (''to'', JStr ICE_POT_ACCOUNT)],
      swap_event 4 ICE_POT_ACCOUNT ''0xbb'' ''XYK'' (7, 30) (0, 40),
      swap_event 5 FEE_PROCESSOR_ACCOUNT ''0xbb'' ''XYK'' (0, 5) (5, 6)]"

definition mixed_trades :: "decoded_trade list" where
  "mixed_trades =
     [\<lparr>inputs = [(5, 300)], outputs = [(0, 700)], trader = Some ''0xcc'', filler = Some ''OTC'',
       fillerAccount = Some ''0xcc'', counterparty = Some ''0xaa''\<rparr>,
      \<lparr>inputs = [(5, 10)], outputs = [(7, 20)], trader = Some ''0xdd'', filler = Some ''Omnipool'',
       fillerAccount = Some ''0xbb'', counterparty = None\<rparr>,
      \<lparr>inputs = [(7, 30)], outputs = [(0, 40)], trader = Some ''0xee'', filler = Some ''XYK'',
       fillerAccount = Some ''0xbb'', counterparty = None\<rparr>,
      \<lparr>inputs = [(0, 5)], outputs = [(5, 6)], trader = Some FEE_PROCESSOR_ACCOUNT, filler = Some ''XYK'',
       fillerAccount = Some ''0xbb'', counterparty = None\<rparr>]"

lemma mixed_block_trades: "decodeBlockTrades mixed_block 323 [] = Some mixed_trades"
  by code_simp

text \<open>C34: Candles and accounts differ by what they mean to differ by. In every block, at prices that parse and for
  amounts that are not negative, the volume of an asset over all account rows is the volume of its candle rows, less
  the trades no account can be booked for (no trader, or the fee processor's), plus the mirrored sides of
  the second parties of OTC fills; so it is in each of the four fields. No other leg is lost or booked twice.\<close>

theorem candle_equals_accounts:
  assumes "prices_parse prices" and "decodeBlockTrades events specVersion pools = Some trades"
    and "\<forall>t \<in> set trades. trade_nonneg t"
  shows "\<exists>candle rows. extractVolumeFromSwaps events height specVersion prices decs canon pools = Some candle
    \<and> extractTradeVolumeFromSwaps events height specVersion prices decs canon pools = Some rows
    \<and> (\<forall>kind asset. sum_list (map (amount_of kind) (filter (\<lambda>r. trade_asset r = asset) rows))
         = sum_list (map (amount_of kind) (filter (\<lambda>r. price_asset r = asset) candle))
           - sum_list (map (trade_volume prices decs canon kind False (\<lambda>i. i = asset)) (filter (\<lambda>t. principal_of t = None) trades))
           + sum_list (map (trade_volume prices decs canon kind True (\<lambda>i. i = asset)) (filter (\<lambda>t. passive_of t \<noteq> None) trades)))"
proof -
  from candle_rows_total [OF assms, of height decs canon] obtain candle where
    candle: "extractVolumeFromSwaps events height specVersion prices decs canon pools = Some candle"
      "\<forall>k P. sum_where price_asset (amount_of k) P candle = sum_list (map (trade_volume prices decs canon k False P) trades)"
    by blast
  from account_rows_total [OF assms, of height decs canon] obtain rows where
    rows: "extractTradeVolumeFromSwaps events height specVersion prices decs canon pools = Some rows"
      "\<forall>k P. sum_where row_id (amount_of k) P rows = sum_list (map (account_share prices decs canon height k P) trades)"
    by blast
  have share: "sum_list (map (account_share prices decs canon height kind (\<lambda>i. fst i = asset)) ts) =
      sum_list (map (trade_volume prices decs canon kind False (\<lambda>i. i = asset)) ts)
      - sum_list (map (trade_volume prices decs canon kind False (\<lambda>i. i = asset)) (filter (\<lambda>t. principal_of t = None) ts))
      + sum_list (map (trade_volume prices decs canon kind True (\<lambda>i. i = asset)) (filter (\<lambda>t. passive_of t \<noteq> None) ts))"
    for kind asset ts
    by (induction ts) (auto simp: account_share_def split: option.splits)
  have "sum_list (map (amount_of kind) (filter (\<lambda>r. trade_asset r = asset) rows)) =
      sum_where row_id (amount_of kind) (\<lambda>i. fst i = asset) rows" for kind asset
    by (simp add: sum_where_def row_id_def)
  moreover have "sum_where row_id (amount_of kind) (\<lambda>i. fst i = asset) rows =
      sum_where price_asset (amount_of kind) (\<lambda>i. i = asset) candle
      - sum_list (map (trade_volume prices decs canon kind False (\<lambda>i. i = asset)) (filter (\<lambda>t. principal_of t = None) trades))
      + sum_list (map (trade_volume prices decs canon kind True (\<lambda>i. i = asset)) (filter (\<lambda>t. passive_of t \<noteq> None) trades))"
    for kind asset
    unfolding rows(2) [rule_format] candle(2) [rule_format] by (rule share)
  ultimately show ?thesis
    using candle(1) rows(1) by (intro exI [of _ candle] exI [of _ rows]) (simp add: sum_where_def)
qed

theorem candle_equals_accounts_witness:
  "\<exists>candle rows. extractVolumeFromSwaps mixed_block 7 323 sample_prices [(5, 1)] (\<lambda>i. i) [] = Some candle
    \<and> extractTradeVolumeFromSwaps mixed_block 7 323 sample_prices [(5, 1)] (\<lambda>i. i) [] = Some rows
    \<and> sum_list (map (amount_of NativeSell) (filter (\<lambda>r. trade_asset r = 0) rows))
         = sum_list (map (amount_of NativeSell) (filter (\<lambda>r. price_asset r = 0) candle)) - 5 + 700"
proof -
  have "\<forall>t \<in> set mixed_trades. trade_nonneg t" by (simp add: mixed_trades_def trade_nonneg_def)
  moreover have "sum_list (map (trade_volume sample_prices [(5, 1)] (\<lambda>i. i) NativeSell False (\<lambda>i. i = 0))
      (filter (\<lambda>t. principal_of t = None) mixed_trades)) = 5" by code_simp
  moreover have "sum_list (map (trade_volume sample_prices [(5, 1)] (\<lambda>i. i) NativeSell True (\<lambda>i. i = 0))
      (filter (\<lambda>t. passive_of t \<noteq> None) mixed_trades)) = 700" by code_simp
  ultimately show ?thesis
    using candle_equals_accounts [OF sample_trade_facts(1) mixed_block_trades, of 7 "[(5, 1)]" "\<lambda>i. i"] by metis
qed

section \<open>Attribution\<close>

lemma owner_slot_keeps [simp]:
  "inputs (slot_trade (owner_slot m s)) = inputs (slot_trade s)"
  "outputs (slot_trade (owner_slot m s)) = outputs (slot_trade s)"
  "filler (slot_trade (owner_slot m s)) = filler (slot_trade s)"
  "slot_extrinsic (owner_slot m s) = slot_extrinsic s"
  "fromPoolLog (owner_slot m s) = fromPoolLog s"
  by (auto simp: owner_slot_def Let_def split: option.split)

lemma owner_slot_kept [simp]: "slot_kept routed (owner_slot m s) = slot_kept routed s"
  by (simp add: slot_kept_def)

lemma routed_of_owner [simp]: "routed_of (map (owner_slot m) slots) = routed_of slots"
  by (simp add: routed_of_def filter_map o_def)

lemma resolve_owner_cases:
  obtains "resolveIceSettlementOwners slots events = slots"
  | m where "resolveIceSettlementOwners slots events = map (owner_slot m) slots"
  by (cases "settled_extrinsics slots = []") (auto simp: resolveIceSettlementOwners_def Let_def)

text \<open>What an event alone says: the fill a swap event or a pool's own log decodes to, before any attribution. The outer
  \<^const>\<open>None\<close> is a pool log whose words do not parse.\<close>

definition event_fill ::
  "(string, uniswap_v3_pool_tokens) jsmap \<Rightarrow> int \<Rightarrow> event_like \<Rightarrow> trade_slot option option" where
  "event_fill pools specVersion e =
     (if isSwapEvent (event_name e) (Some specVersion)
      then Some (map_option (\<lambda>t. \<lparr>slot_trade = t, slot_extrinsic = event_extrinsicIndex e, fromPoolLog = False\<rparr>)
             (decodeTradeEvent e))
      else if pools = [] \<or> event_name e \<noteq> ''EVM.Log'' then Some None
      else
        (case evmLogOf (event_args e) of None \<Rightarrow> Some None
         | Some log \<Rightarrow> map_option (\<lambda>decoded. case decoded of None \<Rightarrow> None
             | Some ev \<Rightarrow> if \<not> is_swap ev then None
                 else map_option (\<lambda>swap. \<lparr>slot_trade = \<lparr>inputs = trade_inputs swap, outputs = trade_outputs swap,
                          trader = trade_account swap, filler = Some UNISWAP_V3_FILLER, fillerAccount = None, counterparty = None\<rparr>,
                        slot_extrinsic = event_extrinsicIndex e, fromPoolLog = True\<rparr>) (uniswapV3SwapTrade ev pools))
             (decodeUniswapV3Log log)))"

fun event_fills ::
  "(string, uniswap_v3_pool_tokens) jsmap \<Rightarrow> int \<Rightarrow> event_like list \<Rightarrow> trade_slot list option" where
  "event_fills pools specVersion [] = Some []"
| "event_fills pools specVersion (e # es) =
     (case event_fill pools specVersion e of None \<Rightarrow> None
      | Some fill \<Rightarrow> map_option (\<lambda>fills. (case fill of None \<Rightarrow> fills | Some f \<Rightarrow> f # fills)) (event_fills pools specVersion es))"

definition same_fill :: "trade_slot \<Rightarrow> trade_slot \<Rightarrow> bool" where
  "same_fill s f \<longleftrightarrow>
     inputs (slot_trade s) = inputs (slot_trade f) \<and> outputs (slot_trade s) = outputs (slot_trade f)
     \<and> filler (slot_trade s) = filler (slot_trade f) \<and> slot_extrinsic s = slot_extrinsic f \<and> fromPoolLog s = fromPoolLog f"

lemma resolve_otc_keeps [simp]:
  "inputs (resolveOtcCounterparties t prev) = inputs t" "outputs (resolveOtcCounterparties t prev) = outputs t"
  "filler (resolveOtcCounterparties t prev) = filler t"
  by (auto simp: resolveOtcCounterparties_def split: option.split prod.split)

lemma collect_slots_fill:
  "collect_slots pools specVersion previous (e # es) =
     (case event_fill pools specVersion e of None \<Rightarrow> None
      | Some None \<Rightarrow> collect_slots pools specVersion (Some e) es
      | Some (Some f) \<Rightarrow> map_option (\<lambda>slots. (if fromPoolLog f then f
            else f\<lparr>slot_trade := resolveOtcCounterparties (slot_trade f) previous\<rparr>) # slots)
          (collect_slots pools specVersion (Some e) es))"
  by (simp add: event_fill_def Let_def split: option.split)

lemma collect_slots_fills:
  "collect_slots pools specVersion previous events = Some slots \<Longrightarrow>
     \<exists>fills. event_fills pools specVersion events = Some fills \<and> list_all2 same_fill slots fills"
proof (induction events arbitrary: previous slots)
  case (Cons e es)
  obtain fill where fill: "event_fill pools specVersion e = Some fill"
    using Cons.prems by (cases "event_fill pools specVersion e") (simp_all add: collect_slots_fill del: collect_slots.simps)
  show ?case
  proof (cases fill)
    case None
    then show ?thesis using Cons.IH [of "Some e" slots] Cons.prems fill
      by (simp add: collect_slots_fill del: collect_slots.simps)
  next
    case (Some f)
    then obtain rest where rest: "collect_slots pools specVersion (Some e) es = Some rest"
      "slots = (if fromPoolLog f then f else f\<lparr>slot_trade := resolveOtcCounterparties (slot_trade f) previous\<rparr>) # rest"
      using Cons.prems fill by (auto simp: collect_slots_fill simp del: collect_slots.simps)
    from Cons.IH [OF rest(1)] rest(2) fill Some show ?thesis by (auto simp: same_fill_def)
  qed
qed simp

lemma same_fill_kept: "same_fill s f \<Longrightarrow> slot_kept routed s = slot_kept routed f"
  by (simp add: same_fill_def slot_kept_def)

lemma same_fills_routed:
  assumes "list_all2 same_fill slots fills"
  shows "routed_of slots = routed_of fills"
proof -
  have "map (\<lambda>s. \<lparr>trade_filler = filler (slot_trade s), trade_extrinsicIndex = slot_extrinsic s\<rparr>) (filter (\<lambda>s. \<not> fromPoolLog s) slots)
      = map (\<lambda>s. \<lparr>trade_filler = filler (slot_trade s), trade_extrinsicIndex = slot_extrinsic s\<rparr>) (filter (\<lambda>s. \<not> fromPoolLog s) fills)"
    using assms by (induction rule: list_all2_induct) (auto simp: same_fill_def)
  then show ?thesis by (simp add: routed_of_def)
qed

lemma same_fills_legs:
  assumes "list_all2 same_fill slots fills"
  shows "map (\<lambda>s. inputs (slot_trade s)) (filter (slot_kept routed) slots) = map (\<lambda>s. inputs (slot_trade s)) (filter (slot_kept routed) fills)"
    and "map (\<lambda>s. outputs (slot_trade s)) (filter (slot_kept routed) slots) = map (\<lambda>s. outputs (slot_trade s)) (filter (slot_kept routed) fills)"
  using assms by (induction rule: list_all2_induct) (auto simp: same_fill_kept, auto simp: same_fill_def)

text \<open>C35: Attribution moves no volume. Whatever naming the parties of OTC fills, booking ICE settlements to their owners
  and folding the hub hops make of a block, every asset other than the hub is paid in and paid out in total exactly as
  the block's events decode one by one, each pool log counted unless its extrinsic carries the router's own fill.\<close>

theorem attribution_moves_no_volume:
  assumes "decodeBlockTrades events specVersion pools = Some trades" and "a \<noteq> HUB_ASSET_ID"
  shows "\<exists>fills. event_fills pools specVersion events = Some fills
    \<and> paid_in a trades = sum_list (map (\<lambda>f. leg_sum a (inputs (slot_trade f))) (filter (slot_kept (routed_of fills)) fills))
    \<and> paid_out a trades = sum_list (map (\<lambda>f. leg_sum a (outputs (slot_trade f))) (filter (slot_kept (routed_of fills)) fills))"
proof -
  obtain slots where slots: "collect_slots pools specVersion None events = Some slots"
    using assms(1) by (auto simp: decodeBlockTrades_def bind_eq_Some_conv)
  obtain fills where fills: "event_fills pools specVersion events = Some fills" "list_all2 same_fill slots fills"
    using collect_slots_fills [OF slots] by blast
  let ?slots = "resolveIceSettlementOwners slots events" and ?kept = "filter (slot_kept (routed_of slots)) slots"
  have "trades = foldOmnipoolHubHops trader (map slot_trade (filter (slot_kept (routed_of ?slots)) ?slots))"
    using assms(1) slots by (simp add: decodeBlockTrades_def Let_def)
  then have "paid_in a trades = paid_in a (map slot_trade (filter (slot_kept (routed_of ?slots)) ?slots))"
    "paid_out a trades = paid_out a (map slot_trade (filter (slot_kept (routed_of ?slots)) ?slots))"
    using fold_hub_paid [OF assms(2)] by simp_all
  moreover have "paid_in a (map slot_trade (filter (slot_kept (routed_of ?slots)) ?slots)) =
      sum_list (map (leg_sum a) (map (\<lambda>s. inputs (slot_trade s)) ?kept))"
    by (rule resolve_owner_cases [of slots events]) (simp_all add: paid_in_def filter_map o_def)
  moreover have "paid_out a (map slot_trade (filter (slot_kept (routed_of ?slots)) ?slots)) =
      sum_list (map (leg_sum a) (map (\<lambda>s. outputs (slot_trade s)) ?kept))"
    by (rule resolve_owner_cases [of slots events]) (simp_all add: paid_out_def filter_map o_def)
  moreover note same_fills_routed [OF fills(2)] same_fills_legs [OF fills(2)]
  ultimately show ?thesis using fills(1) by (simp add: o_def)
qed

theorem attribution_moves_no_volume_witness:
  "\<exists>fills. event_fills [] 323 mixed_block = Some fills \<and> length fills = 5 \<and> length mixed_trades = 4
    \<and> paid_out 0 mixed_trades = 740
    \<and> sum_list (map (\<lambda>f. leg_sum 0 (outputs (slot_trade f))) (filter (slot_kept (routed_of fills)) fills)) = 740"
proof -
  have "(0 :: int) \<noteq> HUB_ASSET_ID" by (simp add: HUB_ASSET_ID_def)
  from attribution_moves_no_volume [OF mixed_block_trades this] obtain fills where
    f: "event_fills [] 323 mixed_block = Some fills"
      "paid_out 0 mixed_trades = sum_list (map (\<lambda>f. leg_sum 0 (outputs (slot_trade f))) (filter (slot_kept (routed_of fills)) fills))"
    by blast
  have "map_option length (event_fills [] 323 mixed_block) = Some 5" "length mixed_trades = 4" "paid_out 0 mixed_trades = 740"
    by code_simp+
  with f show ?thesis by simp
qed

section \<open>Arms and fallback\<close>

lemma typed_legs_json:
  "typed_leg_list items = Some legs \<Longrightarrow> json_leg_list items = Some legs"
proof (induction items arbitrary: legs)
  case (Cons i items)
  then show ?case
    by (auto simp: typed_big_def isAmount_def to_bigint_def bind_eq_Some_conv split: json.splits)
qed simp

lemma fallback_arms_any:
  assumes "decodeJson e = Some (Some j)" and "build j = Some t" and "jsonBroadcastTrade e = Some t"
    and "name = event_name e"
  shows "fallback_arms e name build vs = Some t"
proof (induction vs)
  case (Cons v vs)
  have "event_runtime e \<noteq> None" using assms(1) by (cases "event_runtime e") (auto simp: decodeJson_def)
  with Cons assms show ?case by (auto simp: arm_is_def arm_decode_def split: bool.split)
qed (simp add: assms(3))

text \<open>The trade read off a unified swap event does not depend on which typegen arm its runtime matches, or
  on whether any does: where the metadata's decoder yields a well-typed fill with a plain swapper, every
  arm and the JSON fallback build the same trade.\<close>

lemma broadcast_arm_independent:
  assumes "event_name e = ''Broadcast.Swapped2'' \<or> event_name e = ''Broadcast.Swapped3''"
    and "decodeJson e = Some (Some j)" and "broadcast_of j = Some t" and "get_prop j ''swapper'' = JStr s"
  shows "decodeTradeEvent e = Some t"
proof -
  obtain ps where j: "j = JObj ps" using assms(4) by (cases j) (auto simp: get_prop_def)
  have "jsonBroadcastTrade e = Some t"
    using assms(2-4) typed_legs_json
    by (auto simp: jsonBroadcastTrade_def broadcast_of_def typed_kind_def typed_legs_def json_legs_def j
        bind_eq_Some_conv split: json.splits)
  then have "fallback_arms e (event_name e) broadcast_of vs = Some t" for vs
    by (rule fallback_arms_any [where build = broadcast_of, OF assms(2,3)]) simp_all
  moreover have "decodeSwapEvent e = None" using assms(1) by (auto simp: decodeSwapEvent_def)
  ultimately show ?thesis using assms(1)
    by (auto simp: decodeTradeEvent_def Let_def simp del: fallback_arms.simps)
qed

section \<open>Volume beside prices\<close>

lemma volume_map_other:
  "a \<notin> price_asset ` set rows \<Longrightarrow>
     map_of (foldl (\<lambda>m row. map_set (price_asset row) row m) m0 rows) a = map_of m0 a"
  by (induction rows arbitrary: m0) auto

lemma volume_map_get:
  "distinct (map price_asset rows) \<Longrightarrow> r \<in> set rows \<Longrightarrow>
     map_of (foldl (\<lambda>m row. map_set (price_asset row) row m) m0 rows) (price_asset r) = Some r"
proof (induction rows arbitrary: m0)
  case (Cons x xs)
  show ?case
  proof (cases "r = x")
    case True
    with Cons.prems(1) show ?thesis by (simp add: volume_map_other)
  next
    case False
    with Cons show ?thesis by simp
  qed
qed simp

lemma volume_map_has:
  "map_has (foldl (\<lambda>m row. map_set (price_asset row) row m) m0 rows) a \<longleftrightarrow> map_has m0 a \<or> a \<in> price_asset ` set rows"
  by (induction rows arbitrary: m0) auto

lemma merge_price_row_keeps [simp]:
  "price_asset (merge_price_row m p) = price_asset p" "usd_price (merge_price_row m p) = usd_price p"
  "price_hops (merge_price_row m p) = price_hops p" "price_block (merge_price_row m p) = price_block p"
  by (simp_all add: merge_price_row_def split: option.split)

lemma merge_price_row_amount:
  "map_of m (price_asset p) = Some v \<Longrightarrow> amount_of k (merge_price_row m p) = amount_of k v"
  by (cases k) (simp_all add: merge_price_row_def amount_of_def)

lemma aggregated_amount:
  assumes "\<forall>v \<in> set rows. readable v"
  obtains out where "aggregateVolumeRows rows = Some out" "distinct (map price_asset out)"
    "price_asset ` set out = price_asset ` set rows"
    "\<And>k r. r \<in> set out \<Longrightarrow>
       amount_of k r = sum_list (map (amount_of k) (filter (\<lambda>x. price_asset x = price_asset r) rows))"
proof -
  from candle_sum.aggregate_conserves [OF assms, of NativeBuy] obtain out where
    out: "aggregateVolumeRows rows = Some out" "distinct (map price_asset out)"
      "price_asset ` set out = price_asset ` set rows" by (auto simp: aggregateVolumeRows_def)
  have "sum_at price_asset (amount_of k) a out = sum_at price_asset (amount_of k) a rows" for k a
    using candle_sum.aggregate_conserves [OF assms, of k] out(1) by (auto simp: aggregateVolumeRows_def)
  note sums = this
  have "amount_of k r = sum_list (map (amount_of k) (filter (\<lambda>x. price_asset x = price_asset r) rows))"
    if "r \<in> set out" for k r
    using filter_key_unique [OF out(2) that] sums [of k "price_asset r"] by (simp add: sum_where_def)
  with out show ?thesis by (rule that)
qed

text \<open>Merging the volume of a block into its prices gives one row per asset that has a price or traded; every
  price keeps its value and hop count, and every traded asset's row holds the sums of its volume rows.\<close>

lemma merge_keeps_prices_and_volume:
  assumes "distinct (map price_asset priceRows)" and "\<forall>v \<in> set volumeRows. readable v"
  shows "\<exists>out. mergePriceAndVolumeRows priceRows volumeRows = Some out \<and> distinct (map price_asset out)
    \<and> price_asset ` set out = price_asset ` set priceRows \<union> price_asset ` set volumeRows
    \<and> (\<forall>p \<in> set priceRows. \<exists>r \<in> set out. price_asset r = price_asset p \<and> usd_price r = usd_price p
         \<and> price_hops r = price_hops p)
    \<and> (\<forall>kind. \<forall>v \<in> set volumeRows. \<exists>r \<in> set out. price_asset r = price_asset v
         \<and> amount_of kind r = sum_list (map (amount_of kind) (filter (\<lambda>x. price_asset x = price_asset v) volumeRows)))"
proof -
  obtain agg where agg: "aggregateVolumeRows volumeRows = Some agg" "distinct (map price_asset agg)"
    "price_asset ` set agg = price_asset ` set volumeRows"
    "\<And>k r. r \<in> set agg \<Longrightarrow>
       amount_of k r = sum_list (map (amount_of k) (filter (\<lambda>x. price_asset x = price_asset r) volumeRows))"
    using aggregated_amount [OF assms(2)] by blast
  define vm where "vm = foldl (\<lambda>m row. map_set (price_asset row) row m) [] agg"
  have vm: "map_of vm (price_asset r) = Some r" if "r \<in> set agg" for r
    unfolding vm_def by (rule volume_map_get [OF agg(2) that])
  have has: "map_has vm a \<longleftrightarrow> a \<in> price_asset ` set agg" for a by (simp add: vm_def volume_map_has)
  have traded: "\<exists>r \<in> set agg. price_asset r = price_asset v" if "v \<in> set volumeRows" for v
    using that agg(3) by (metis imageE imageI)
  consider "volumeRows = []" | "volumeRows \<noteq> []" "priceRows = []" | "volumeRows \<noteq> []" "priceRows \<noteq> []" by blast
  then show ?thesis
  proof cases
    case 1
    with assms(1) show ?thesis by (auto simp: mergePriceAndVolumeRows_def)
  next
    case 2
    show ?thesis
    proof (intro exI [of _ agg] conjI allI ballI)
      show "\<exists>r \<in> set agg. price_asset r = price_asset v \<and> amount_of kind r =
          sum_list (map (amount_of kind) (filter (\<lambda>x. price_asset x = price_asset v) volumeRows))"
        if v: "v \<in> set volumeRows" for kind v
        using traded [OF v] agg(4) by fastforce
    qed (use 2 agg in \<open>auto simp: mergePriceAndVolumeRows_def\<close>)
  next
    case 3
    define processed where "processed = map price_asset (filter (\<lambda>p. map_has vm (price_asset p)) priceRows)"
    define out where "out = map (merge_price_row vm) priceRows @ filter (\<lambda>v. price_asset v \<notin> set processed) agg"
    have proc: "set processed = price_asset ` set priceRows \<inter> price_asset ` set agg"
      unfolding processed_def has by auto
    have "mergePriceAndVolumeRows priceRows volumeRows = Some out"
      using 3 agg(1) by (simp add: mergePriceAndVolumeRows_def out_def processed_def vm_def Let_def)
    moreover have "distinct (map price_asset out)"
    proof -
      have "distinct (map price_asset (filter (\<lambda>v. price_asset v \<notin> set processed) agg))"
        using agg(2) by (rule distinct_map_filter)
      moreover have "price_asset ` set (filter (\<lambda>v. price_asset v \<notin> set processed) agg) \<inter> price_asset ` set priceRows = {}"
        unfolding proc by auto
      ultimately show ?thesis using assms(1) by (auto simp: out_def o_def)
    qed
    moreover have "price_asset ` set out = price_asset ` set priceRows \<union> price_asset ` set agg"
    proof -
      have "price_asset ` set out = price_asset ` set priceRows \<union> (price_asset ` set agg - set processed)"
        by (simp add: out_def image_Un image_image) auto
      then show ?thesis unfolding proc by auto
    qed
    moreover have "\<exists>r \<in> set out. price_asset r = price_asset p \<and> usd_price r = usd_price p \<and> price_hops r = price_hops p"
      if "p \<in> set priceRows" for p
      using that by (intro bexI [of _ "merge_price_row vm p"]) (simp_all add: out_def)
    moreover have "\<exists>r \<in> set out. price_asset r = price_asset v \<and> amount_of kind r =
        sum_list (map (amount_of kind) (filter (\<lambda>x. price_asset x = price_asset v) volumeRows))"
      if v: "v \<in> set volumeRows" for kind v
    proof -
      from traded [OF v] obtain r where r: "r \<in> set agg" "price_asset r = price_asset v" by blast
      show ?thesis
      proof (cases "price_asset r \<in> price_asset ` set priceRows")
        case True
        then obtain p where p: "p \<in> set priceRows" "price_asset p = price_asset r" by force
        have "amount_of kind (merge_price_row vm p) = amount_of kind r"
          by (rule merge_price_row_amount) (simp add: p(2) vm [OF r(1)])
        with p r agg(4) [OF r(1)] show ?thesis
          by (intro bexI [of _ "merge_price_row vm p"]) (simp_all add: out_def)
      next
        case False
        then have "r \<in> set out" using r(1) proc by (simp add: out_def)
        with r agg(4) [OF r(1)] show ?thesis by (intro bexI [of _ r]) simp_all
      qed
    qed
    ultimately show ?thesis using agg(3) by (intro exI [of _ out]) simp
  qed
qed

definition sample_price_row :: "int \<Rightarrow> string \<Rightarrow> int \<Rightarrow> price_row" where
  "sample_price_row asset price sold =
     \<lparr>native_volume_buy = Some ''0'', native_volume_sell = Some (int_to_string sold),
      usd_volume_buy = None, usd_volume_sell = None, price_asset = asset, price_block = 7,
      price_timestamp = None, usd_price = price, price_hops = Some 1\<rparr>"

lemma sample_price_row_reads:
  "readable (sample_price_row a p n)" "amount_of NativeSell (sample_price_row a p n) = n"
  by (simp_all add: readable_kinds sample_price_row_def amount_of_def)

end
