(* ===== verification/Holder_Index.thy ===== *)
theory Holder_Index
  imports Evm_Hex Chain_Time
begin

text \<open>
  Which positions a block makes the indexer read again (\<^verbatim>\<open>src/raw/moneyMarketSnapshot.ts\<close>): the set of
  open positions, the index of reserve holders in its exact and its superset mode, the chain-time
  cadence and the plan of reads.

  A log carries the value \<open>JSON.parse\<close> gives for its arguments (\<^const>\<open>None\<close> where it throws). A set is a
  duplicate-free list and a map an association list, both in insertion order; \<open>sort()\<close> on strings is
  the library's \<^const>\<open>sort\<close> in lexicographic order.
\<close>

section \<open>Open positions\<close>

definition openPositionKey :: "string \<Rightarrow> string \<Rightarrow> string" where
  "openPositionKey poolProxy userAddress = to_lower poolProxy @ '':'' @ to_lower userAddress"

record mm_position =
  pos_pool :: string
  pos_user :: string
  total_collateral_base :: string
  total_debt_base :: string

definition isZeroPosition :: "mm_position \<Rightarrow> bool" where
  "isZeroPosition p \<longleftrightarrow> total_collateral_base p = ''0'' \<and> total_debt_base p = ''0''"

fun trackOpenPositions :: "string list \<Rightarrow> mm_position list \<Rightarrow> string list" where
  "trackOpenPositions opn [] = opn"
| "trackOpenPositions opn (p # ps) =
     (if pos_user p = [] then trackOpenPositions opn ps
      else
        (let key = openPositionKey (pos_pool p) (pos_user p) in
         if isZeroPosition p then trackOpenPositions (removeAll key opn) ps
         else trackOpenPositions (set_add key opn) ps))"

section \<open>Scaled-balance legs\<close>

definition RAY :: int where
  "RAY = 10 ^ 27"

record scaled_leg =
  leg_contract :: string
  leg_holder :: string
  leg_delta :: int

record log_like =
  contract_address :: string
  log_event_name :: "string option"
  decoded_args :: "json option"
  decode_status :: "string option"

definition uintArg :: "json \<Rightarrow> string \<Rightarrow> int" where
  "uintArg args key =
     (case get_prop args key of
        JStr s \<Rightarrow> if s \<noteq> [] \<and> list_all is_dec_digit s
                  then (case parse_bigint s of Some v \<Rightarrow> v | None \<Rightarrow> 0) else 0
      | JNum n \<Rightarrow> if is_safe_integer n \<and> n \<ge> 0 then n else 0
      | _ \<Rightarrow> 0)"

definition holderArg :: "json \<Rightarrow> string \<Rightarrow> string" where
  "holderArg args key = (case get_prop args key of JStr s \<Rightarrow> to_lower s | _ \<Rightarrow> [])"

definition rayDiv :: "int \<Rightarrow> int \<Rightarrow> int" where
  "rayDiv amount index = bdiv (amount * RAY + bdiv index 2) index"

definition legs_of_args :: "string \<Rightarrow> string \<Rightarrow> json \<Rightarrow> scaled_leg list" where
  "legs_of_args name contract args =
     (let amount = uintArg args ''value'' in
      if name = ''BalanceTransfer'' then
        (let to = holderArg args ''to''; from = holderArg args ''from'' in
         (if to \<noteq> [] then [\<lparr>leg_contract = contract, leg_holder = to, leg_delta = amount\<rparr>] else [])
         @ (if from \<noteq> [] then [\<lparr>leg_contract = contract, leg_holder = from, leg_delta = - amount\<rparr>] else []))
      else
        (let balanceIncrease = uintArg args ''balanceIncrease''; rawIndex = uintArg args ''index'';
             index = (if rawIndex > 1 then rawIndex else 1) in
         if name = ''Mint'' then
           (let holder = holderArg args ''onBehalfOf'';
                delta = (if amount \<ge> balanceIncrease then rayDiv (amount - balanceIncrease) index
                         else - rayDiv (balanceIncrease - amount) index)
            in if holder = [] then []
               else [\<lparr>leg_contract = contract, leg_holder = holder, leg_delta = delta\<rparr>])
         else
           (let holder = holderArg args ''from'' in
            if holder = [] then []
            else [\<lparr>leg_contract = contract, leg_holder = holder,
                   leg_delta = - rayDiv (amount + balanceIncrease) index\<rparr>])))"

definition scaledLegsFromLog :: "log_like \<Rightarrow> scaled_leg list" where
  "scaledLegsFromLog log =
     (case log_event_name log of None \<Rightarrow> []
      | Some name \<Rightarrow>
          if name \<noteq> ''Mint'' \<and> name \<noteq> ''Burn'' \<and> name \<noteq> ''BalanceTransfer'' then []
          else if decode_status log \<noteq> None \<and> decode_status log \<noteq> Some ''decoded'' then []
          else (case decoded_args log of
                  Some (JObj ps) \<Rightarrow> legs_of_args name (to_lower (contract_address log)) (JObj ps)
                | _ \<Rightarrow> []))"

section \<open>The holder index\<close>

definition ZERO_ADDRESS :: string where
  "ZERO_ADDRESS = ''0x0000000000000000000000000000000000000000''"

datatype holder_index_mode = Exact | Superset

record holder_index =
  index_mode :: holder_index_mode
  balances :: "(string, (string, int) jsmap) jsmap"
  firstSeen :: "(string, (string, int) jsmap) jsmap"
  markets :: "(string, (string, string list) jsmap) jsmap"
  negativeBalances :: nat

definition new_index :: "holder_index_mode \<Rightarrow> holder_index" where
  "new_index m = \<lparr>index_mode = m, balances = [], firstSeen = [], markets = [], negativeBalances = 0\<rparr>"

definition inner_map :: "('k, ('l, 'v) jsmap) jsmap \<Rightarrow> 'k \<Rightarrow> ('l, 'v) jsmap" where
  "inner_map m k = (case map_of m k of None \<Rightarrow> [] | Some n \<Rightarrow> n)"

definition addBalance :: "string \<Rightarrow> string \<Rightarrow> int \<Rightarrow> holder_index \<Rightarrow> holder_index" where
  "addBalance token holder delta idx =
     (if delta = 0 \<or> holder = ZERO_ADDRESS then idx
      else
        (let holders = inner_map (balances idx) token;
             nxt = (case map_of holders holder of None \<Rightarrow> 0 | Some b \<Rightarrow> b) + delta;
             holders' = (if nxt = 0 then map_delete holder holders else map_set holder nxt holders)
         in idx\<lparr>balances := map_set token holders' (balances idx),
                negativeBalances := (if nxt < 0 then negativeBalances idx + 1 else negativeBalances idx)\<rparr>))"

definition markSeen :: "string \<Rightarrow> string \<Rightarrow> int \<Rightarrow> holder_index \<Rightarrow> holder_index" where
  "markSeen token holder blockHeight idx =
     (if holder = ZERO_ADDRESS then idx
      else
        (let holders = inner_map (firstSeen idx) token;
             holders' = (case map_of holders holder of
                 None \<Rightarrow> map_set holder blockHeight holders
               | Some first \<Rightarrow> if blockHeight < first then map_set holder blockHeight holders else holders)
         in idx\<lparr>firstSeen := map_set token holders' (firstSeen idx)\<rparr>))"

definition seedBalances :: "scaled_leg list \<Rightarrow> holder_index \<Rightarrow> holder_index" where
  "seedBalances rows idx =
     foldl (\<lambda>i r. addBalance (to_lower (leg_contract r)) (to_lower (leg_holder r)) (leg_delta r) i) idx rows"

record known_holder =
  known_contract :: string
  known_holder :: string
  firstBlock :: int

definition seedHolders :: "known_holder list \<Rightarrow> holder_index \<Rightarrow> holder_index" where
  "seedHolders rows idx =
     foldl (\<lambda>i r. markSeen (to_lower (known_contract r)) (to_lower (known_holder r)) (firstBlock r) i) idx rows"

record reserve_tokens =
  rt_reserve :: string
  rt_tokens :: "string list"

definition setMarket :: "string \<Rightarrow> reserve_tokens list \<Rightarrow> holder_index \<Rightarrow> holder_index" where
  "setMarket pool reserves idx =
     (let m = foldl (\<lambda>m r. map_set (to_lower (rt_reserve r))
                  (filter (\<lambda>t. t \<noteq> [] \<and> t \<noteq> ZERO_ADDRESS) (map to_lower (rt_tokens r))) m) [] reserves
      in idx\<lparr>markets := map_set (to_lower pool) m (markets idx)\<rparr>)"

definition reservesOf :: "holder_index \<Rightarrow> string \<Rightarrow> string list" where
  "reservesOf idx pool = map_keys (inner_map (markets idx) (to_lower pool))"

definition apply_leg :: "int \<Rightarrow> scaled_leg \<Rightarrow> holder_index \<Rightarrow> holder_index" where
  "apply_leg blockHeight l idx =
     (if index_mode idx = Exact then addBalance (leg_contract l) (leg_holder l) (leg_delta l) idx
      else if leg_delta l > 0 then markSeen (leg_contract l) (leg_holder l) blockHeight idx
      else idx)"

definition legs_of_logs :: "log_like list \<Rightarrow> scaled_leg list" where
  "legs_of_logs logs = concat (map scaledLegsFromLog logs)"

text \<open>\<open>apply\<close>: the number of legs folded, and the index.\<close>

definition apply_logs :: "log_like list \<Rightarrow> int \<Rightarrow> holder_index \<Rightarrow> nat \<times> holder_index" where
  "apply_logs logs blockHeight idx =
     (length (legs_of_logs logs), foldl (\<lambda>i l. apply_leg blockHeight l i) idx (legs_of_logs logs))"

definition collectHolders :: "holder_index \<Rightarrow> string \<Rightarrow> int \<Rightarrow> string list \<Rightarrow> string list" where
  "collectHolders idx token blockHeight out =
     (if index_mode idx = Exact
      then foldl (\<lambda>acc (holder, balance). if balance > 0 then set_add holder acc else acc) out
             (inner_map (balances idx) token)
      else foldl (\<lambda>acc (holder, first). if first \<le> blockHeight then set_add holder acc else acc) out
             (inner_map (firstSeen idx) token))"

definition holders_of_tokens :: "holder_index \<Rightarrow> string list \<Rightarrow> int \<Rightarrow> string list" where
  "holders_of_tokens idx tokens blockHeight =
     sort (foldl (\<lambda>out token. collectHolders idx token blockHeight out) [] tokens)"

definition holdersOfReserve :: "holder_index \<Rightarrow> string \<Rightarrow> string \<Rightarrow> int \<Rightarrow> string list" where
  "holdersOfReserve idx pool reserve blockHeight =
     holders_of_tokens idx
       (case map_of (inner_map (markets idx) (to_lower pool)) (to_lower reserve) of None \<Rightarrow> [] | Some ts \<Rightarrow> ts)
       blockHeight"

definition holdersOfMarket :: "holder_index \<Rightarrow> string \<Rightarrow> int \<Rightarrow> string list" where
  "holdersOfMarket idx pool blockHeight =
     holders_of_tokens idx (concat (map snd (inner_map (markets idx) (to_lower pool)))) blockHeight"

definition poolsOfToken :: "holder_index \<Rightarrow> string \<Rightarrow> string list" where
  "poolsOfToken idx token =
     map fst (filter (\<lambda>(pool, reserves). list_ex (\<lambda>(r, ts). to_lower token \<in> set ts) reserves) (markets idx))"

definition scaledBalance :: "holder_index \<Rightarrow> string \<Rightarrow> string \<Rightarrow> int" where
  "scaledBalance idx token holder =
     (case map_of (inner_map (balances idx) (to_lower token)) (to_lower holder) of None \<Rightarrow> 0 | Some b \<Rightarrow> b)"

section \<open>Cadence and plan\<close>

datatype mm_trigger = ConfigTrigger | PriceStepTrigger | CadenceTrigger

definition TRIGGER_ORDER :: "mm_trigger list" where
  "TRIGGER_ORDER = [ConfigTrigger, PriceStepTrigger, CadenceTrigger]"

record mm_market =
  market_key :: string
  market_pool :: string

record mm_cadence =
  allMinutes :: int
  marketMinutes :: "(string, int) jsmap"

definition cadenceDueMarkets ::
  "js_num option \<Rightarrow> js_num option \<Rightarrow> mm_market list \<Rightarrow> mm_cadence
    \<Rightarrow> (js_num option \<Rightarrow> js_num option \<Rightarrow> int \<Rightarrow> bool) \<Rightarrow> string list" where
  "cadenceDueMarkets previousTs blockTs mkts cadence crossed =
     (let everything = allMinutes cadence > 0 \<and> crossed previousTs blockTs (allMinutes cadence * 60000) in
      foldl (\<lambda>due m.
        if everything
           \<or> (case map_of (marketMinutes cadence) (market_key m) of None \<Rightarrow> False
               | Some own \<Rightarrow> own > 0 \<and> crossed previousTs blockTs (own * 60000))
        then set_add (to_lower (market_pool m)) due else due) [] mkts)"

record planned_read =
  read_triggers :: "mm_trigger list"
  read_reserves :: "string list"

type_synonym read_plan = "(string, (string, planned_read) jsmap) jsmap"

definition plan_add ::
  "string list \<Rightarrow> string \<Rightarrow> mm_trigger \<Rightarrow> string option \<Rightarrow> read_plan \<Rightarrow> string \<Rightarrow> read_plan" where
  "plan_add alreadyRead pool trigger reserve plan user =
     (let u = to_lower user in
      if openPositionKey pool u \<in> set alreadyRead then plan
      else
        (let reads = inner_map plan pool;
             r = (case map_of reads u of Some r \<Rightarrow> r | None \<Rightarrow> \<lparr>read_triggers = [], read_reserves = []\<rparr>);
             r1 = r\<lparr>read_triggers := set_add trigger (read_triggers r)\<rparr>;
             r2 = (case reserve of None \<Rightarrow> r1
                   | Some x \<Rightarrow> r1\<lparr>read_reserves := set_add (to_lower x) (read_reserves r1)\<rparr>)
         in map_set pool (map_set u r2 reads) plan))"

record plan_input =
  in_pools :: "string list"
  configChanged :: "string list"
  in_steps :: "(string, string list) jsmap"
  cadenceDue :: "string list"
  holders_of_reserve :: "string \<Rightarrow> string \<Rightarrow> string list"
  holders_of_market :: "string \<Rightarrow> string list"
  cadenceCohort :: "string \<Rightarrow> string list"
  alreadyRead :: "string list"

definition plan_pool :: "plan_input \<Rightarrow> read_plan \<Rightarrow> string \<Rightarrow> read_plan" where
  "plan_pool i plan rawPool =
     (let pool = to_lower rawPool;
          p1 = (if pool \<in> set (configChanged i)
                then foldl (plan_add (alreadyRead i) pool ConfigTrigger None)
                       (foldl (plan_add (alreadyRead i) pool ConfigTrigger None) plan (holders_of_market i pool))
                       (cadenceCohort i pool)
                else plan);
          p2 = foldl (\<lambda>p reserve. foldl (plan_add (alreadyRead i) pool PriceStepTrigger (Some reserve)) p
                         (holders_of_reserve i pool reserve)) p1
                 (case map_of (in_steps i) pool of None \<Rightarrow> [] | Some rs \<Rightarrow> rs)
      in if pool \<in> set (cadenceDue i)
         then foldl (plan_add (alreadyRead i) pool CadenceTrigger None) p2 (cadenceCohort i pool) else p2)"

definition planTriggerReads :: "plan_input \<Rightarrow> read_plan" where
  "planTriggerReads i = foldl (plan_pool i) [] (in_pools i)"

record trigger_evidence =
  evidence_trigger :: mm_trigger
  evidence_triggers :: "mm_trigger list option"
  evidence_reserves :: "string list option"

definition triggerEvidence :: "planned_read \<Rightarrow> trigger_evidence" where
  "triggerEvidence r =
     (let triggers = filter (\<lambda>t. t \<in> set (read_triggers r)) TRIGGER_ORDER in
      \<lparr>evidence_trigger = (if triggers = [] then CadenceTrigger else triggers ! 0),
       evidence_triggers = (if length triggers > 1 then Some triggers else None),
       evidence_reserves = (if read_reserves r = [] then None else Some (sort (read_reserves r)))\<rparr>)"

definition openHoldersOfPool :: "string list \<Rightarrow> string \<Rightarrow> string list" where
  "openHoldersOfPool opn pool =
     (let prefix = to_lower pool @ '':'' in
      sort (map (drop (length prefix)) (filter (starts_with prefix) opn)))"

section \<open>Scaled legs round half up\<close>

lemma half_up_bounds:
  fixes x a h r i :: int
  assumes "x = a + h - r" and "0 \<le> r" and "r < i" and "2 * h \<le> i" and "i \<le> 2 * h + 1"
  shows "2 * \<bar>x - a\<bar> \<le> i"
  using assms by (simp add: abs_if)

text \<open>The scaled amount of a leg is the amount over the index in rays, rounded half up: multiplying it back
  by the index misses the amount by at most half an index.\<close>

lemma rayDiv_half_up:
  assumes "0 \<le> amount" and "0 < index"
  shows "0 \<le> rayDiv amount index \<and> 2 * \<bar>rayDiv amount index * index - amount * RAY\<bar> \<le> index"
proof -
  have eq: "rayDiv amount index = (amount * RAY + index div 2) div index"
    using assms by (simp add: rayDiv_def bdiv_nonneg_eq RAY_def)
  have "rayDiv amount index * index = amount * RAY + index div 2 - (amount * RAY + index div 2) mod index"
    unfolding eq by (simp add: minus_mod_eq_div_mult)
  moreover have "0 \<le> (amount * RAY + index div 2) mod index" "(amount * RAY + index div 2) mod index < index"
    using assms(2) by simp_all
  moreover have "2 * (index div 2) \<le> index" "index \<le> 2 * (index div 2) + 1" by simp_all
  ultimately have "2 * \<bar>rayDiv amount index * index - amount * RAY\<bar> \<le> index" by (rule half_up_bounds)
  moreover have "0 \<le> rayDiv amount index"
    unfolding eq using assms by (simp add: pos_imp_zdiv_nonneg_iff RAY_def)
  ultimately show ?thesis by blast
qed

section \<open>The index holds the sums of the legs\<close>

text \<open>The balance the index holds for a token and a holder, both as they are stored.\<close>

definition held :: "holder_index \<Rightarrow> string \<Rightarrow> string \<Rightarrow> int" where
  "held idx token holder =
     (case map_of (inner_map (balances idx) token) holder of None \<Rightarrow> 0 | Some b \<Rightarrow> b)"

definition delta_at :: "string \<Rightarrow> string \<Rightarrow> scaled_leg list \<Rightarrow> int" where
  "delta_at token holder legs =
     sum_list (map leg_delta (filter (\<lambda>l. leg_contract l = token \<and> leg_holder l = holder) legs))"

lemma delta_at_simps [simp]:
  "delta_at token holder [] = 0"
  "delta_at token holder (l # ls) =
     (if leg_contract l = token \<and> leg_holder l = holder then leg_delta l else 0) + delta_at token holder ls"
  "delta_at token holder (xs @ ys) = delta_at token holder xs + delta_at token holder ys"
  by (simp_all add: delta_at_def)

lemma inner_map_set [simp]: "inner_map (map_set k v m) k' = (if k' = k then v else inner_map m k')"
  by (simp add: inner_map_def)

lemma held_addBalance [simp]:
  "held (addBalance token holder delta idx) t h =
     held idx t h + (if t = token \<and> h = holder \<and> holder \<noteq> ZERO_ADDRESS then delta else 0)"
  by (auto simp: addBalance_def held_def Let_def)

lemma mode_kept [simp]:
  "index_mode (addBalance token holder delta idx) = index_mode idx"
  "index_mode (markSeen token holder b idx) = index_mode idx"
  "index_mode (apply_leg b l idx) = index_mode idx"
  "markets (addBalance token holder delta idx) = markets idx"
  "markets (markSeen token holder b idx) = markets idx"
  "markets (apply_leg b l idx) = markets idx"
  by (simp_all add: addBalance_def markSeen_def apply_leg_def Let_def)

lemma foldl_kept:
  "(\<And>x i. f (g i x) = f i) \<Longrightarrow> f (foldl g i xs) = f i"
  by (induction xs arbitrary: i) auto

definition run_blocks :: "(int \<times> log_like list) list \<Rightarrow> holder_index \<Rightarrow> holder_index" where
  "run_blocks blocks idx = foldl (\<lambda>i (height, logs). snd (apply_logs logs height i)) idx blocks"

lemma run_blocks_simps [simp]:
  "run_blocks [] idx = idx"
  "run_blocks ((height, logs) # blocks) idx = run_blocks blocks (snd (apply_logs logs height idx))"
  by (simp_all add: run_blocks_def)

lemma apply_logs_kept [simp]:
  "index_mode (snd (apply_logs logs height idx)) = index_mode idx"
  "markets (snd (apply_logs logs height idx)) = markets idx"
  by (simp_all add: apply_logs_def foldl_kept)

lemma run_blocks_kept [simp]:
  "index_mode (run_blocks blocks idx) = index_mode idx" "markets (run_blocks blocks idx) = markets idx"
  by (induction blocks arbitrary: idx) auto

lemma held_legs:
  "index_mode idx = Exact \<Longrightarrow> h \<noteq> ZERO_ADDRESS \<Longrightarrow>
     held (foldl (\<lambda>i l. apply_leg height l i) idx legs) t h = held idx t h + delta_at t h legs"
  by (induction legs arbitrary: idx) (auto simp: apply_leg_def)

lemma held_seed:
  "h \<noteq> ZERO_ADDRESS \<Longrightarrow> held (seedBalances rows idx) t h = held idx t h
     + sum_list (map leg_delta (filter (\<lambda>r. to_lower (leg_contract r) = t \<and> to_lower (leg_holder r) = h) rows))"
  unfolding seedBalances_def by (induction rows arbitrary: idx) auto

text \<open>The exact index is the sum of everything it saw: whatever order blocks bring their logs in, the scaled
  balance it answers for a token and a holder is the seed's plus all of the legs', the zero address apart.\<close>

lemma exact_balance_is_sum:
  assumes "to_lower holder \<noteq> ZERO_ADDRESS"
  shows "scaledBalance (run_blocks blocks (seedBalances rows (new_index Exact))) token holder =
    sum_list (map leg_delta (filter (\<lambda>r. to_lower (leg_contract r) = to_lower token
                                        \<and> to_lower (leg_holder r) = to_lower holder) rows))
    + delta_at (to_lower token) (to_lower holder) (legs_of_logs (concat (map snd blocks)))"
proof -
  have blocks: "held (run_blocks blocks idx) t h = held idx t h + delta_at t h (legs_of_logs (concat (map snd blocks)))"
    if "index_mode idx = Exact" "h \<noteq> ZERO_ADDRESS" for idx t h
    using that
  proof (induction blocks arbitrary: idx)
    case (Cons b blocks)
    obtain height logs where b: "b = (height, logs)" by (cases b)
    have "held (snd (apply_logs logs height idx)) t h = held idx t h + delta_at t h (legs_of_logs logs)"
      using Cons.prems by (simp add: apply_logs_def held_legs)
    moreover have "legs_of_logs (logs @ rest) = legs_of_logs logs @ legs_of_logs rest" for rest
      by (simp add: legs_of_logs_def)
    ultimately show ?case using Cons by (simp add: b)
  qed (simp add: legs_of_logs_def)
  have "index_mode (seedBalances rows (new_index Exact)) = Exact"
    by (simp add: seedBalances_def foldl_kept new_index_def)
  moreover have "held (new_index Exact) t h = 0" for t h by (simp add: held_def new_index_def inner_map_def)
  moreover have "scaledBalance idx token holder = held idx (to_lower token) (to_lower holder)" for idx
    by (simp add: scaledBalance_def held_def)
  ultimately show ?thesis using blocks assms held_seed [OF assms] by simp
qed

section \<open>A superset never misses a holder\<close>

definition seen_by :: "int \<Rightarrow> holder_index \<Rightarrow> string \<Rightarrow> string \<Rightarrow> bool" where
  "seen_by b idx token holder \<longleftrightarrow> (\<exists>first \<le> b. map_of (inner_map (firstSeen idx) token) holder = Some first)"

lemma seen_by_markSeen [simp]:
  "seen_by b (markSeen token holder h idx) t a \<longleftrightarrow>
     seen_by b idx t a \<or> t = token \<and> a = holder \<and> holder \<noteq> ZERO_ADDRESS \<and> h \<le> b"
  by (auto simp: markSeen_def seen_by_def Let_def split: option.splits)

lemma seen_by_mono: "seen_by b idx t a \<Longrightarrow> b \<le> c \<Longrightarrow> seen_by c idx t a"
  unfolding seen_by_def by (meson order_trans)

definition inner_wf :: "holder_index \<Rightarrow> bool" where
  "inner_wf idx \<longleftrightarrow> (\<forall>e \<in> set (balances idx). map_wf (snd e))"

text \<open>The simulation: the two indexes agree on the markets, and whoever holds in the exact one was seen.\<close>

definition covers :: "int \<Rightarrow> holder_index \<Rightarrow> holder_index \<Rightarrow> bool" where
  "covers b ex su \<longleftrightarrow> index_mode ex = Exact \<and> index_mode su = Superset \<and> markets ex = markets su
     \<and> inner_wf ex \<and> (\<forall>t a. 0 < held ex t a \<longrightarrow> seen_by b su t a)"

lemma balances_wf:
  assumes "inner_wf ex"
  shows "inner_wf (addBalance token holder delta ex)"
proof -
  note wf = assms [unfolded inner_wf_def]
  have inner: "map_wf (inner_map (balances ex) token)"
    using wf by (auto simp: inner_map_def split: option.split dest!: map_of_SomeD)
  show ?thesis
  proof (cases "delta = 0 \<or> holder = ZERO_ADDRESS")
    case True
    with assms show ?thesis by (simp add: addBalance_def)
  next
    case False
    then obtain m where m: "balances (addBalance token holder delta ex) = map_set token m (balances ex)" "map_wf m"
      using inner by (simp add: addBalance_def Let_def)
    with wf map_set_entries [of token m "balances ex"] show ?thesis unfolding inner_wf_def by fastforce
  qed
qed

lemma covers_leg:
  assumes "covers b ex su" and "b \<le> height"
  shows "covers height (apply_leg height l ex) (apply_leg height l su)"
proof -
  have "seen_by height (apply_leg height l su) t a" if "0 < held (apply_leg height l ex) t a" for t a
  proof -
    have ex: "apply_leg height l ex = addBalance (leg_contract l) (leg_holder l) (leg_delta l) ex"
      using assms(1) by (simp add: apply_leg_def covers_def)
    have su: "apply_leg height l su =
        (if leg_delta l > 0 then markSeen (leg_contract l) (leg_holder l) height su else su)"
      using assms(1) by (simp add: apply_leg_def covers_def)
    from that have "0 < held ex t a \<or> t = leg_contract l \<and> a = leg_holder l \<and> leg_holder l \<noteq> ZERO_ADDRESS \<and> 0 < leg_delta l"
      unfolding ex by (auto split: if_splits)
    then show ?thesis
    proof
      assume "0 < held ex t a"
      then have "seen_by height su t a" using assms by (auto simp: covers_def intro: seen_by_mono)
      then show ?thesis unfolding su by simp
    qed (simp add: su)
  qed
  moreover have "inner_wf (apply_leg height l ex)"
    using assms(1) by (simp add: covers_def apply_leg_def balances_wf)
  ultimately show ?thesis using assms(1) by (simp add: covers_def)
qed

lemma covers_legs:
  "covers b ex su \<Longrightarrow> b \<le> height \<Longrightarrow>
     covers (if legs = [] then b else height) (foldl (\<lambda>i l. apply_leg height l i) ex legs)
       (foldl (\<lambda>i l. apply_leg height l i) su legs)"
proof (induction legs arbitrary: b ex su)
  case (Cons l ls)
  then show ?case using Cons.IH [OF covers_leg [OF Cons.prems] order_refl] by (simp split: if_splits)
qed simp

lemma covers_run:
  assumes "covers start ex su" and "sorted (start # map fst blocks)" and "last (start # map fst blocks) \<le> b"
  shows "covers b (run_blocks blocks ex) (run_blocks blocks su)"
  using assms
proof (induction blocks arbitrary: start ex su)
  case Nil
  then show ?case unfolding covers_def by (auto intro: seen_by_mono [of start])
next
  case (Cons blk blocks)
  obtain height logs where blk: "blk = (height, logs)" by (cases blk)
  have h: "start \<le> height" using Cons.prems(2) by (simp add: blk)
  have "covers (if legs_of_logs logs = [] then start else height) (snd (apply_logs logs height ex)) (snd (apply_logs logs height su))"
    using covers_legs [OF Cons.prems(1) h] by (simp add: apply_logs_def)
  then have "covers height (snd (apply_logs logs height ex)) (snd (apply_logs logs height su))"
    using h unfolding covers_def by (auto intro: seen_by_mono [of start] split: if_splits)
  from Cons.IH [OF this] Cons.prems(2,3) show ?case by (simp add: blk)
qed

lemma collect_exact:
  "set (foldl (\<lambda>acc (holder, balance). if P balance then set_add holder acc else acc) out m) =
     set out \<union> {h. \<exists>b. (h, b) \<in> set m \<and> P b}"
  by (induction m arbitrary: out) auto

lemma set_holders_of_tokens:
  "set (holders_of_tokens idx tokens b) = {h. \<exists>t \<in> set tokens.
     if index_mode idx = Exact then \<exists>bal > 0. (h, bal) \<in> set (inner_map (balances idx) t)
     else \<exists>first \<le> b. (h, first) \<in> set (inner_map (firstSeen idx) t)}"
proof -
  have "set (foldl (\<lambda>out token. collectHolders idx token b out) out tokens) = set out \<union> {h. \<exists>t \<in> set tokens.
     if index_mode idx = Exact then \<exists>bal > 0. (h, bal) \<in> set (inner_map (balances idx) t)
     else \<exists>first \<le> b. (h, first) \<in> set (inner_map (firstSeen idx) t)}" for out
  proof (induction tokens arbitrary: out)
    case (Cons t ts)
    then show ?case by (auto simp: collectHolders_def collect_exact)
  qed simp
  then show ?thesis by (simp add: holders_of_tokens_def)
qed

lemma covers_holders:
  assumes "covers b ex su"
  shows "set (holders_of_tokens ex tokens b) \<subseteq> set (holders_of_tokens su tokens b)"
proof
  fix h assume "h \<in> set (holders_of_tokens ex tokens b)"
  then obtain t bal where t: "t \<in> set tokens" "0 < bal" "(h, bal) \<in> set (inner_map (balances ex) t)"
    using assms by (auto simp: set_holders_of_tokens covers_def)
  have "map_wf (inner_map (balances ex) t)"
    using assms by (auto simp: covers_def inner_wf_def inner_map_def split: option.split dest!: map_of_SomeD)
  with t have "0 < held ex t h" by (simp add: held_def)
  then have "seen_by b su t h" using assms by (simp add: covers_def)
  then obtain first where "first \<le> b" "(h, first) \<in> set (inner_map (firstSeen su) t)"
    by (auto simp: seen_by_def dest: map_of_SomeD)
  with t(1) assms show "h \<in> set (holders_of_tokens su tokens b)"
    by (auto simp: set_holders_of_tokens covers_def)
qed

lemma seeds_cover:
  assumes "\<forall>r \<in> set rows. 0 < leg_delta r \<longrightarrow>
      (\<exists>k \<in> set known. to_lower (known_contract k) = to_lower (leg_contract r)
         \<and> to_lower (known_holder k) = to_lower (leg_holder r) \<and> firstBlock k \<le> start)"
  shows "covers start (seedBalances rows (new_index Exact)) (seedHolders known (new_index Superset))"
proof -
  have seen: "seen_by start (seedHolders ks idx) t a" if "seen_by start idx t a \<or> a \<noteq> ZERO_ADDRESS \<and> (\<exists>k \<in> set ks.
      to_lower (known_contract k) = t \<and> to_lower (known_holder k) = a \<and> firstBlock k \<le> start)" for ks idx t a
    using that unfolding seedHolders_def
  proof (induction ks arbitrary: idx)
    case (Cons k ks)
    show ?case unfolding foldl_Cons by (rule Cons.IH) (use Cons.prems in auto)
  qed simp
  have wf: "inner_wf idx \<Longrightarrow> inner_wf (seedBalances rs idx)" for rs idx
    unfolding seedBalances_def by (induction rs arbitrary: idx) (simp_all add: balances_wf)
  have zero: "held (seedBalances rs idx) t ZERO_ADDRESS = held idx t ZERO_ADDRESS" for rs idx t
    unfolding seedBalances_def by (induction rs arbitrary: idx) auto
  have pos: "\<exists>r \<in> set rs. 0 < leg_delta r \<and> P r" if "0 < sum_list (map leg_delta (filter P rs))" for P rs
    using that by (induction rs) (auto split: if_splits intro: ccontr)
  have new: "held (new_index m) t a = 0" for m t a by (simp add: held_def new_index_def inner_map_def)
  have "seen_by start (seedHolders known (new_index Superset)) t a"
    if held: "0 < held (seedBalances rows (new_index Exact)) t a" for t a
  proof -
    have a: "a \<noteq> ZERO_ADDRESS" using held zero by (auto simp: new)
    then have "0 < sum_list (map leg_delta (filter (\<lambda>r. to_lower (leg_contract r) = t \<and> to_lower (leg_holder r) = a) rows))"
      using held held_seed by (simp add: new)
    from pos [OF this] assms show ?thesis by (intro seen) (use a in fastforce)
  qed
  moreover have "index_mode (seedBalances rows (new_index Exact)) = Exact"
    "index_mode (seedHolders known (new_index Superset)) = Superset"
    "markets (seedBalances rows (new_index Exact)) = markets (seedHolders known (new_index Superset))"
    by (simp_all add: seedBalances_def seedHolders_def foldl_kept new_index_def)
  moreover have "inner_wf (new_index Exact)" by (simp add: new_index_def inner_wf_def)
  ultimately show ?thesis using wf by (simp add: covers_def)
qed

text \<open>C37: A worker on the superset index never misses a read. Seeded with every account the exact seed has a
  balance for, and folding the same blocks, it names at each later block at least the holders the exact
  index names, for every reserve and every market.\<close>

theorem superset_never_misses:
  assumes "\<forall>r \<in> set rows. 0 < leg_delta r \<longrightarrow>
      (\<exists>k \<in> set known. to_lower (known_contract k) = to_lower (leg_contract r)
         \<and> to_lower (known_holder k) = to_lower (leg_holder r) \<and> firstBlock k \<le> start)"
    and "sorted (start # map fst blocks)" and "last (start # map fst blocks) \<le> b"
  shows "let ex = run_blocks blocks (setMarket m reserves (seedBalances rows (new_index Exact)));
             su = run_blocks blocks (setMarket m reserves (seedHolders known (new_index Superset)))
         in set (holdersOfMarket ex pool b) \<subseteq> set (holdersOfMarket su pool b)
            \<and> set (holdersOfReserve ex pool reserve b) \<subseteq> set (holdersOfReserve su pool reserve b)"
proof -
  have "covers start (setMarket m reserves (seedBalances rows (new_index Exact)))
      (setMarket m reserves (seedHolders known (new_index Superset)))"
    using seeds_cover [OF assms(1)] by (simp add: covers_def setMarket_def Let_def held_def seen_by_def inner_wf_def)
  from covers_run [OF this assms(2,3)]
  have c: "covers b (run_blocks blocks (setMarket m reserves (seedBalances rows (new_index Exact))))
      (run_blocks blocks (setMarket m reserves (seedHolders known (new_index Superset))))" .
  then have m: "markets (run_blocks blocks (setMarket m reserves (seedBalances rows (new_index Exact)))) =
      markets (run_blocks blocks (setMarket m reserves (seedHolders known (new_index Superset))))"
    by (simp add: covers_def)
  show ?thesis unfolding Let_def holdersOfMarket_def holdersOfReserve_def m using covers_holders [OF c] by blast
qed

theorem superset_never_misses_witness:
  "set (holdersOfMarket (run_blocks [(9, [])] (setMarket ''p'' [\<lparr>rt_reserve = ''r'', rt_tokens = [''t'']\<rparr>]
       (seedBalances [\<lparr>leg_contract = ''t'', leg_holder = ''h'', leg_delta = 4\<rparr>] (new_index Exact)))) ''p'' 9)
   \<subseteq> set (holdersOfMarket (run_blocks [(9, [])] (setMarket ''p'' [\<lparr>rt_reserve = ''r'', rt_tokens = [''t'']\<rparr>]
       (seedHolders [\<lparr>known_contract = ''T'', known_holder = ''h'', firstBlock = 3\<rparr>] (new_index Superset)))) ''p'' 9)"
proof -
  have "to_lower ''T'' = to_lower ''t''" by code_simp
  then have "\<forall>r \<in> set [\<lparr>leg_contract = ''t'', leg_holder = ''h'', leg_delta = 4\<rparr>]. 0 < leg_delta r \<longrightarrow>
      (\<exists>k \<in> set [\<lparr>known_contract = ''T'', known_holder = ''h'', firstBlock = 3\<rparr>].
         to_lower (known_contract k) = to_lower (leg_contract r)
         \<and> to_lower (known_holder k) = to_lower (leg_holder r) \<and> firstBlock k \<le> 5)" by simp
  from superset_never_misses [OF this, of "[(9, [])]" 9] show ?thesis by (simp add: Let_def)
qed

section \<open>What the plan reads\<close>

text \<open>The users a trigger names, per pool.\<close>

definition named_by :: "plan_input \<Rightarrow> string \<Rightarrow> mm_trigger \<Rightarrow> string list" where
  "named_by i pool trigger =
     (case trigger of
        ConfigTrigger \<Rightarrow> if pool \<in> set (configChanged i) then holders_of_market i pool @ cadenceCohort i pool else []
      | PriceStepTrigger \<Rightarrow> concat (map (holders_of_reserve i pool)
           (case map_of (in_steps i) pool of None \<Rightarrow> [] | Some rs \<Rightarrow> rs))
      | CadenceTrigger \<Rightarrow> if pool \<in> set (cadenceDue i) then cadenceCohort i pool else [])"

definition plan_has :: "read_plan \<Rightarrow> string \<Rightarrow> string \<Rightarrow> mm_trigger \<Rightarrow> bool" where
  "plan_has plan pool user trigger \<longleftrightarrow>
     (case map_of (inner_map plan pool) user of None \<Rightarrow> False | Some r \<Rightarrow> trigger \<in> set (read_triggers r))"

lemma plan_add_has [simp]:
  "plan_has (plan_add already pool t reserve plan user) p u t' \<longleftrightarrow> plan_has plan p u t'
     \<or> p = pool \<and> u = to_lower user \<and> t' = t \<and> openPositionKey pool (to_lower user) \<notin> set already"
  by (auto simp: plan_add_def plan_has_def Let_def split: option.splits)

lemma plan_adds_has [simp]:
  "plan_has (foldl (plan_add already pool t reserve) plan users) p u t' \<longleftrightarrow> plan_has plan p u t'
     \<or> p = pool \<and> t' = t \<and> u \<in> to_lower ` set users \<and> openPositionKey pool u \<notin> set already"
  by (induction users arbitrary: plan) auto

lemma plan_steps_has [simp]:
  "plan_has (foldl (\<lambda>p reserve. foldl (plan_add already pool t (Some reserve)) p (f reserve)) plan rs) p u t' \<longleftrightarrow>
     plan_has plan p u t'
     \<or> p = pool \<and> t' = t \<and> u \<in> to_lower ` set (concat (map f rs)) \<and> openPositionKey pool u \<notin> set already"
  by (induction rs arbitrary: plan) auto

lemma plan_pool_has:
  "plan_has (plan_pool i plan raw) p u t \<longleftrightarrow> plan_has plan p u t
     \<or> p = to_lower raw \<and> u \<in> to_lower ` set (named_by i p t) \<and> openPositionKey p u \<notin> set (alreadyRead i)"
  by (cases t) (auto simp: plan_pool_def named_by_def Let_def image_Un)

lemma plan_add_one:
  "\<forall>p. map_wf (inner_map plan p) \<Longrightarrow> \<forall>p. map_wf (inner_map (plan_add already pool t reserve plan user) p)"
  by (simp add: plan_add_def Let_def)

lemma plan_adds_one:
  "\<forall>p. map_wf (inner_map plan p) \<Longrightarrow> \<forall>p. map_wf (inner_map (foldl (plan_add already pool t reserve) plan users) p)"
  by (induction users arbitrary: plan) (simp_all add: plan_add_one)

lemma plan_steps_one:
  "\<forall>p. map_wf (inner_map plan p) \<Longrightarrow>
     \<forall>p. map_wf (inner_map (foldl (\<lambda>p reserve. foldl (plan_add already pool t (Some reserve)) p (f reserve)) plan rs) p)"
  by (induction rs arbitrary: plan) (simp_all add: plan_adds_one)

lemma plan_pool_one:
  "\<forall>p. map_wf (inner_map plan p) \<Longrightarrow> \<forall>p. map_wf (inner_map (plan_pool i plan raw) p)"
  by (simp add: plan_pool_def Let_def plan_adds_one plan_steps_one)

lemma plan_reads:
  "(plan_has (planTriggerReads i) pool user trigger \<longleftrightarrow>
     pool \<in> to_lower ` set (in_pools i) \<and> user \<in> to_lower ` set (named_by i pool trigger)
     \<and> openPositionKey pool user \<notin> set (alreadyRead i))
   \<and> distinct (map fst (inner_map (planTriggerReads i) pool))"
proof -
  have "\<forall>p. map_wf (inner_map (foldl (plan_pool i) plan pools) p)" if "\<forall>p. map_wf (inner_map plan p)" for plan pools
    using that by (induction pools arbitrary: plan) (simp_all add: plan_pool_one)
  then have "map_wf (inner_map (planTriggerReads i) pool)"
    by (simp add: planTriggerReads_def inner_map_def [of "[]"])
  moreover have "plan_has (foldl (plan_pool i) plan pools) pool user trigger \<longleftrightarrow> plan_has plan pool user trigger
      \<or> pool \<in> to_lower ` set pools \<and> user \<in> to_lower ` set (named_by i pool trigger)
        \<and> openPositionKey pool user \<notin> set (alreadyRead i)" for plan pools
    by (induction pools arbitrary: plan) (auto simp: plan_pool_has)
  moreover have "\<not> plan_has [] pool user trigger" by (simp add: plan_has_def inner_map_def)
  ultimately show ?thesis by (simp add: planTriggerReads_def)
qed

text \<open>The plan reads exactly who a trigger names. A user of a pool is read for a trigger if and only if that
  trigger names them at the block and the block has not read them already; each user of a pool has one
  entry, so no position is read twice in a block.\<close>

lemma plan_reads_exact:
  "(plan_has (planTriggerReads i) pool user trigger \<longleftrightarrow>
     pool \<in> to_lower ` set (in_pools i) \<and> user \<in> to_lower ` set (named_by i pool trigger)
     \<and> openPositionKey pool user \<notin> set (alreadyRead i))
   \<and> distinct (map fst (inner_map (planTriggerReads i) pool))"
  by (rule plan_reads)

end
