(* ===== verification/Oracle_Prices.thy ===== *)
theory Oracle_Prices
  imports Holder_Index
begin

text \<open>
  Oracle prices per block (\<^verbatim>\<open>src/raw/moneyMarketPrices.ts\<close>): the ABI words of the calls, the step rule,
  the resolution of a market's configuration, the price reads and the tracker that compares a block
  with the one before it.

  The node is the argument \<open>call\<close>: a batch of calls at a block gives one answer per call, a failed call
  is \<^const>\<open>None\<close>, and \<open>Inl\<close> is a transport failure, which throws for the whole batch. A thrown error is
  \<open>Inl\<close> of its message; the message of \<open>BigInt\<close>'s \<open>SyntaxError\<close> is a constant, and
  the two messages of the environment reader are shortened to ASCII. Functions that call the
  node also return how many calls they made.
\<close>

section \<open>Calls and words\<close>

record eth_call =
  call_to :: string
  call_data :: string

type_synonym eth_call_batch = "eth_call list \<Rightarrow> int \<Rightarrow> string + string option list"

definition sel_addressesProvider :: string where "sel_addressesProvider = ''0x0542975c''"

definition sel_getPriceOracle :: string where "sel_getPriceOracle = ''0xfca513a8''"

definition sel_getPoolConfigurator :: string where "sel_getPoolConfigurator = ''0x631adfca''"

definition sel_getReservesList :: string where "sel_getReservesList = ''0xd1946dbc''"

definition sel_getReserveData :: string where "sel_getReserveData = ''0x35ea6a75''"

definition sel_getAssetsPrices :: string where "sel_getAssetsPrices = ''0x9d23d9f2''"

definition sel_getAssetPrice :: string where "sel_getAssetPrice = ''0xb3596f07''"

definition pad32 :: "string \<Rightarrow> string" where
  "pad32 hex = pad_start 64 (CHR ''0'') (strip_0x (to_lower hex))"

definition encodeAddressArg :: "string \<Rightarrow> string \<Rightarrow> string" where
  "encodeAddressArg selector address = selector @ pad32 address"

definition encodeGetAssetsPrices :: "string list \<Rightarrow> string" where
  "encodeGetAssetsPrices reserves =
     sel_getAssetsPrices @ pad32 ''20'' @ pad32 (nat_to_base 16 (length reserves)) @ concat (map pad32 reserves)"

function words_of :: "string \<Rightarrow> string list" where
  "words_of body = (if body = [] then [] else take 64 body # words_of (drop 64 body))"
  by pat_completeness auto
termination by (relation "measure length") auto

declare words_of.simps [simp del]

definition abi_words :: "string option \<Rightarrow> string list option" where
  "abi_words result =
     (case result of None \<Rightarrow> None
      | Some r \<Rightarrow>
          if \<not> starts_with ''0x'' r then None
          else (let body = drop 2 r in
                if length body = 0 \<or> length body mod 64 \<noteq> 0 then None else Some (words_of body)))"

definition decodeAddressWord :: "string option \<Rightarrow> string option" where
  "decodeAddressWord result =
     (case abi_words result of None \<Rightarrow> None
      | Some w \<Rightarrow> if length w < 1 then None
          else (let address = ''0x'' @ drop 24 (w ! 0) in
                if address = ''0x'' @ replicate 40 (CHR ''0'') then None else Some address))"

text \<open>The outer \<^const>\<open>None\<close> is the \<open>SyntaxError\<close> of a word that is not hexadecimal.\<close>

definition word_value :: "string \<Rightarrow> int option" where
  "word_value w = map_option int (digits_value 16 0 w)"

definition decodeDynamicArray :: "string option \<Rightarrow> string list option option" where
  "decodeDynamicArray result =
     (case abi_words result of None \<Rightarrow> Some None
      | Some w \<Rightarrow>
          if length w < 2 then Some None
          else do {
            offset \<leftarrow> word_value (w ! 0);
            if offset mod 32 \<noteq> 0 then Some None
            else (let at = offset div 32 in
              if at \<ge> int (length w) then Some None
              else do {
                count \<leftarrow> word_value (w ! nat at);
                Some (if \<not> is_safe_integer count \<or> at + 1 + count > int (length w) then None
                      else Some (take (nat count) (drop (nat at + 1) w)))
              })
          })"

definition decodeAddressArray :: "string option \<Rightarrow> string list option option" where
  "decodeAddressArray result = map_option (map_option (map (\<lambda>w. ''0x'' @ drop 24 w))) (decodeDynamicArray result)"

fun word_values :: "string list \<Rightarrow> int list option" where
  "word_values [] = Some []"
| "word_values (w # ws) = do { v \<leftarrow> word_value w; vs \<leftarrow> word_values ws; Some (v # vs) }"

definition decodeUint256Array :: "string option \<Rightarrow> int list option option" where
  "decodeUint256Array result =
     (case decodeDynamicArray result of
        None \<Rightarrow> None
      | Some None \<Rightarrow> Some None
      | Some (Some ws) \<Rightarrow> map_option Some (word_values ws))"

definition decodeUint256 :: "string option \<Rightarrow> int option option" where
  "decodeUint256 result =
     (case abi_words result of None \<Rightarrow> Some None
      | Some w \<Rightarrow> if length w \<noteq> 1 then Some None else map_option Some (word_value (w ! 0)))"

definition decodeReserveTokens :: "string option \<Rightarrow> (string \<times> string) option" where
  "decodeReserveTokens result =
     (case abi_words result of None \<Rightarrow> None
      | Some w \<Rightarrow> if length w < 11 then None else Some (''0x'' @ drop 24 (w ! 8), ''0x'' @ drop 24 (w ! 10)))"

section \<open>The step rule\<close>

definition priceStepThresholdFromEnvironment :: "string option \<Rightarrow> string + int" where
  "priceStepThresholdFromEnvironment raw =
     (let text = (case raw of None \<Rightarrow> [] | Some r \<Rightarrow> js_trim r) in
      if text = [] then Inr 100
      else
        (let bad = Inl ''RAW_MM_PRICE_STEP_BP must be a non-negative number of basis points'';
             finish = (\<lambda>whole frac.
               case (parse_bigint whole, parse_bigint (pad_end 2 (CHR ''0'') frac)) of
                 (Some w, Some f) \<Rightarrow>
                   if w * 100 + f \<le> 0 then Inl ''RAW_MM_PRICE_STEP_BP must be greater than zero'' else Inr (w * 100 + f)
               | _ \<Rightarrow> bad)
         in case split_on (CHR ''.'') text of
              [whole] \<Rightarrow> if whole \<noteq> [] \<and> list_all is_dec_digit whole then finish whole [] else bad
            | [whole, frac] \<Rightarrow>
                if whole \<noteq> [] \<and> list_all is_dec_digit whole \<and> frac \<noteq> [] \<and> length frac \<le> 2 \<and> list_all is_dec_digit frac
                then finish whole frac else bad
            | _ \<Rightarrow> bad))"

definition isPriceStep :: "int option \<Rightarrow> int option \<Rightarrow> int \<Rightarrow> bool" where
  "isPriceStep prev nxt thresholdBp100 =
     (case (prev, nxt) of
        (Some p, Some n) \<Rightarrow>
          if p = n then False
          else if p = 0 \<or> n = 0 then True
          else (let diff = (if n > p then n - p else p - n) in diff * 1000000 \<ge> thresholdBp100 * p)
      | _ \<Rightarrow> False)"

type_synonym reserve_prices = "(string, int) jsmap"

definition priceSteps :: "reserve_prices \<Rightarrow> reserve_prices \<Rightarrow> int \<Rightarrow> string list" where
  "priceSteps prev nxt thresholdBp100 =
     sort (map fst (filter (\<lambda>(reserve, price). isPriceStep (map_of prev reserve) (Some price) thresholdBp100) nxt))"

section \<open>Market configuration\<close>

record market_oracle_config =
  cfg_key :: string
  cfg_pool :: string
  cfg_provider :: string
  cfg_oracle :: string
  cfg_configurator :: "string option"
  cfg_reserves :: "string list"
  cfg_reserveTokens :: "reserve_tokens list"
  resolvedAt :: int

definition configContracts :: "market_oracle_config \<Rightarrow> string list" where
  "configContracts c =
     cfg_provider c # (case cfg_configurator c of None \<Rightarrow> [] | Some x \<Rightarrow> if x = [] then [] else [x])"

definition answer_at :: "string option list \<Rightarrow> nat \<Rightarrow> string option" where
  "answer_at answers i = (if i < length answers then answers ! i else None)"

definition BIGINT_SYNTAX_ERROR :: string where
  "BIGINT_SYNTAX_ERROR = ''Cannot convert to a BigInt''"

definition at_block :: "int \<Rightarrow> string" where
  "at_block blockHeight = '' at block '' @ int_to_string blockHeight"

fun reserve_tokens_of ::
  "string \<Rightarrow> int \<Rightarrow> string list \<Rightarrow> string option list \<Rightarrow> string + reserve_tokens list" where
  "reserve_tokens_of key blockHeight [] answers = Inr []"
| "reserve_tokens_of key blockHeight (reserve # rest) answers =
     (case decodeReserveTokens (answer_at answers 0) of
        None \<Rightarrow> Inl (''money market '' @ key @ '': getReserveData('' @ reserve @ '') unreadable'' @ at_block blockHeight)
      | Some (a, d) \<Rightarrow>
          map_sum id ((#) \<lparr>rt_reserve = reserve, rt_tokens = [a, d]\<rparr>)
            (reserve_tokens_of key blockHeight rest (drop 1 answers)))"

definition resolveMarketOracleConfig ::
  "mm_market \<Rightarrow> int \<Rightarrow> eth_call_batch \<Rightarrow> (string + market_oracle_config) \<times> nat" where
  "resolveMarketOracleConfig market blockHeight call =
     (let pool = to_lower (market_pool market); key = market_key market in
      case call [\<lparr>call_to = pool, call_data = sel_addressesProvider\<rparr>,
                 \<lparr>call_to = pool, call_data = sel_getReservesList\<rparr>] blockHeight of
        Inl e \<Rightarrow> (Inl e, 2)
      | Inr first \<Rightarrow>
          (case (decodeAddressWord (answer_at first 0), decodeAddressArray (answer_at first 1)) of
             (_, None) \<Rightarrow> (Inl BIGINT_SYNTAX_ERROR, 2)
           | (Some provider, Some (Some reserves)) \<Rightarrow>
               (let requests = [\<lparr>call_to = provider, call_data = sel_getPriceOracle\<rparr>,
                                \<lparr>call_to = provider, call_data = sel_getPoolConfigurator\<rparr>]
                      @ map (\<lambda>r. \<lparr>call_to = pool, call_data = encodeAddressArg sel_getReserveData r\<rparr>) reserves;
                    n = 2 + length requests in
                case call requests blockHeight of
                  Inl e \<Rightarrow> (Inl e, n)
                | Inr second \<Rightarrow>
                    (case decodeAddressWord (answer_at second 0) of
                       None \<Rightarrow> (Inl (''money market '' @ key @ '': provider '' @ provider @ '' names no price oracle'' @ at_block blockHeight), n)
                     | Some oracle \<Rightarrow>
                         (map_sum id (\<lambda>tokens.
                             \<lparr>cfg_key = key, cfg_pool = pool, cfg_provider = provider, cfg_oracle = oracle,
                              cfg_configurator = decodeAddressWord (answer_at second 1), cfg_reserves = reserves,
                              cfg_reserveTokens = tokens, resolvedAt = blockHeight\<rparr>)
                            (reserve_tokens_of key blockHeight reserves (drop 2 second)), n)))
           | _ \<Rightarrow> (Inl (''money market '' @ key @ '': pool '' @ pool @ '' unreadable'' @ at_block blockHeight), 2)))"

section \<open>Price reads\<close>

definition batch_request :: "market_oracle_config \<Rightarrow> eth_call" where
  "batch_request c = \<lparr>call_to = cfg_oracle c, call_data = encodeGetAssetsPrices (cfg_reserves c)\<rparr>"

definition single_request :: "market_oracle_config \<Rightarrow> string \<Rightarrow> eth_call" where
  "single_request c reserve = \<lparr>call_to = cfg_oracle c, call_data = encodeAddressArg sel_getAssetPrice reserve\<rparr>"

definition price_map_of :: "string list \<Rightarrow> int list \<Rightarrow> reserve_prices" where
  "price_map_of reserves prices = foldl (\<lambda>m (r, p). map_set r p m) [] (zip reserves prices)"

type_synonym market_reads = "(string, string + reserve_prices) jsmap"

text \<open>The first pass: the markets whose batch answered, and the ones to read again.\<close>

fun batch_pass ::
  "market_oracle_config list \<Rightarrow> string option list \<Rightarrow> market_reads \<Rightarrow> market_oracle_config list
    \<Rightarrow> (market_reads \<times> market_oracle_config list) option" where
  "batch_pass [] answers out retry = Some (out, retry)"
| "batch_pass (c # cs) answers out retry =
     (case decodeUint256Array (answer_at answers 0) of
        None \<Rightarrow> None
      | Some (Some prices) \<Rightarrow>
          if length prices \<noteq> length (cfg_reserves c) then batch_pass cs (drop 1 answers) out (retry @ [c])
          else batch_pass cs (drop 1 answers)
                 (map_set (cfg_pool c) (Inr (price_map_of (cfg_reserves c) prices)) out) retry
      | Some None \<Rightarrow> batch_pass cs (drop 1 answers) out (retry @ [c]))"

fun single_prices :: "string list \<Rightarrow> string option list \<Rightarrow> reserve_prices \<Rightarrow> reserve_prices option" where
  "single_prices [] answers prices = Some prices"
| "single_prices (r # rs) answers prices =
     (case decodeUint256 (answer_at answers 0) of
        None \<Rightarrow> None
      | Some None \<Rightarrow> single_prices rs (drop 1 answers) prices
      | Some (Some p) \<Rightarrow> single_prices rs (drop 1 answers) (map_set r p prices))"

definition no_price_error :: "market_oracle_config \<Rightarrow> int \<Rightarrow> string" where
  "no_price_error c blockHeight =
     ''money market '' @ cfg_key c @ '': oracle '' @ cfg_oracle c @ '' answered no price'' @ at_block blockHeight"

fun single_pass ::
  "int \<Rightarrow> market_oracle_config list \<Rightarrow> string option list \<Rightarrow> market_reads \<Rightarrow> market_reads option" where
  "single_pass blockHeight [] answers out = Some out"
| "single_pass blockHeight (c # cs) answers out =
     (case single_prices (cfg_reserves c) answers [] of
        None \<Rightarrow> None
      | Some prices \<Rightarrow>
          single_pass blockHeight cs (drop (length (cfg_reserves c)) answers)
            (map_set (cfg_pool c) (if prices \<noteq> [] then Inr prices else Inl (no_price_error c blockHeight)) out))"

definition readMarketPrices ::
  "market_oracle_config list \<Rightarrow> int \<Rightarrow> eth_call_batch \<Rightarrow> (string + market_reads) \<times> nat" where
  "readMarketPrices configs blockHeight call =
     (case call (map batch_request configs) blockHeight of
        Inl e \<Rightarrow> (Inl e, length configs)
      | Inr batch \<Rightarrow>
          (case batch_pass configs batch [] [] of
             None \<Rightarrow> (Inl BIGINT_SYNTAX_ERROR, length configs)
           | Some (out, retry) \<Rightarrow>
               if retry = [] then (Inr out, length configs)
               else
                 (let calls = concat (map (\<lambda>c. map (single_request c) (cfg_reserves c)) retry);
                      n = length configs + length calls in
                  case call calls blockHeight of
                    Inl e \<Rightarrow> (Inl e, n)
                  | Inr single \<Rightarrow>
                      (case single_pass blockHeight retry single out of
                         None \<Rightarrow> (Inl BIGINT_SYNTAX_ERROR, n)
                       | Some out' \<Rightarrow> (Inr out', n)))))"

section \<open>The tracker\<close>

record price_observation =
  obs_steps :: "(string, string list) jsmap"
  obs_configChanged :: "string list"
  obs_failed :: "(string, string) jsmap"
  obs_prices :: "(string, reserve_prices) jsmap"
  obs_previous :: "(string, reserve_prices) jsmap"
  obs_resolved :: "string list"
  obs_calls :: nat

record price_tracker =
  trk_markets :: "mm_market list"
  trk_threshold :: int
  trk_configs :: "(string, market_oracle_config) jsmap"
  trk_last :: "(int \<times> (string, reserve_prices) jsmap) option"
  trk_calls :: nat

definition new_price_tracker :: "mm_market list \<Rightarrow> int \<Rightarrow> price_tracker" where
  "new_price_tracker mkts threshold =
     \<lparr>trk_markets = mkts, trk_threshold = threshold, trk_configs = [], trk_last = None, trk_calls = 0\<rparr>"

fun resolve_loop ::
  "eth_call_batch \<Rightarrow> int \<Rightarrow> string list \<Rightarrow> mm_market list \<Rightarrow> price_tracker \<Rightarrow> string list \<Rightarrow> (string, string) jsmap
    \<Rightarrow> (string list \<times> (string, string) jsmap) \<times> price_tracker" where
  "resolve_loop call blockHeight want [] tr resolved failed = ((resolved, failed), tr)"
| "resolve_loop call blockHeight want (m # ms) tr resolved failed =
     (let pool = to_lower (market_pool m) in
      if map_has (trk_configs tr) pool \<and> pool \<notin> set want
      then resolve_loop call blockHeight want ms tr resolved failed
      else
        (let (result, n) = resolveMarketOracleConfig m blockHeight call;
             tr1 = tr\<lparr>trk_calls := trk_calls tr + n\<rparr> in
         case result of
           Inl e \<Rightarrow> resolve_loop call blockHeight want ms tr1 resolved (map_set pool e failed)
         | Inr c \<Rightarrow> resolve_loop call blockHeight want ms
                     (tr1\<lparr>trk_configs := map_set pool c (trk_configs tr1)\<rparr>) (resolved @ [pool]) failed))"

definition resolve_markets ::
  "eth_call_batch \<Rightarrow> int \<Rightarrow> string list \<Rightarrow> price_tracker \<Rightarrow> (string list \<times> (string, string) jsmap) \<times> price_tracker" where
  "resolve_markets call blockHeight pools tr =
     resolve_loop call blockHeight (map to_lower pools) (trk_markets tr) tr [] []"

definition configLogPools :: "price_tracker \<Rightarrow> log_like list \<Rightarrow> string list" where
  "configLogPools tr logs =
     (let byContract = foldl (\<lambda>m (p, c). foldl (\<lambda>m' x. map_set x (cfg_pool c) m') m (configContracts c)) [] (trk_configs tr)
      in foldl (\<lambda>out log. case map_of byContract (to_lower (contract_address log)) of
                  None \<Rightarrow> out | Some pool \<Rightarrow> set_add pool out) [] logs)"

definition merge_previous :: "market_reads \<Rightarrow> (string, reserve_prices) jsmap \<Rightarrow> (string, reserve_prices) jsmap" where
  "merge_previous reads previous =
     foldl (\<lambda>m (pool, r). case r of Inl _ \<Rightarrow> m | Inr prices \<Rightarrow> map_set pool prices m) previous reads"

fun step_loop ::
  "int \<Rightarrow> market_reads \<Rightarrow> (string, reserve_prices) jsmap \<Rightarrow> market_oracle_config list
    \<Rightarrow> (string, string list) jsmap \<times> (string, reserve_prices) jsmap \<times> (string, string) jsmap
    \<Rightarrow> (string, string list) jsmap \<times> (string, reserve_prices) jsmap \<times> (string, string) jsmap" where
  "step_loop threshold current previous [] acc = acc"
| "step_loop threshold current previous (c # cs) (steps, prices, failed) =
     (case map_of current (cfg_pool c) of
        None \<Rightarrow> step_loop threshold current previous cs (steps, prices, map_set (cfg_pool c) ''no price read'' failed)
      | Some (Inl e) \<Rightarrow> step_loop threshold current previous cs (steps, prices, map_set (cfg_pool c) e failed)
      | Some (Inr now) \<Rightarrow>
          (let stepped = priceSteps (case map_of previous (cfg_pool c) of None \<Rightarrow> [] | Some p \<Rightarrow> p) now threshold in
           step_loop threshold current previous cs
             (if stepped \<noteq> [] then map_set (cfg_pool c) stepped steps else steps,
              map_set (cfg_pool c) now prices, failed)))"

text \<open>\<open>observe\<close>: a thrown error leaves the tracker with what was resolved and counted before it.\<close>

definition observe_prices ::
  "eth_call_batch \<Rightarrow> int \<Rightarrow> log_like list \<Rightarrow> price_tracker \<Rightarrow> (string + price_observation) \<times> price_tracker" where
  "observe_prices call blockHeight logs tr0 =
     (let prior_calls = trk_calls tr0;
          configChanged = configLogPools tr0 logs;
          ((resolved, resolveFailed), tr1) = resolve_markets call blockHeight configChanged tr0;
          configs = map snd (trk_configs tr1);
          (current, n1) = readMarketPrices configs blockHeight call;
          tr2 = tr1\<lparr>trk_calls := trk_calls tr1 + n1\<rparr>
      in case current of
           Inl e \<Rightarrow> (Inl e, tr2)
         | Inr now \<Rightarrow>
             (let previous = (case trk_last tr2 of
                      Some (h, ps) \<Rightarrow> if h = blockHeight - 1 then Some ps else None | None \<Rightarrow> None);
                  held = (case previous of None \<Rightarrow> [] | Some ps \<Rightarrow> ps);
                  needPrevious = filter (\<lambda>c. map_of held (cfg_pool c) = None \<or> cfg_pool c \<in> set resolved) configs;
                  (earlier, n2) = (if needPrevious \<noteq> [] \<and> blockHeight > 0
                     then (let (r, n) = readMarketPrices needPrevious (blockHeight - 1) call in (map_sum id (\<lambda>reads. merge_previous reads held) r, n))
                     else (Inr held, 0));
                  tr3 = tr2\<lparr>trk_calls := trk_calls tr2 + n2\<rparr>
              in case earlier of
                   Inl e \<Rightarrow> (Inl e, tr3)
                 | Inr prior \<Rightarrow>
                     (let (steps, prices, failed) = step_loop (trk_threshold tr3) now prior configs ([], [], resolveFailed) in
                      (Inr \<lparr>obs_steps = steps, obs_configChanged = configChanged, obs_failed = failed, obs_prices = prices,
                            obs_previous = prior, obs_resolved = js_unique resolved, obs_calls = trk_calls tr3 - prior_calls\<rparr>,
                       tr3\<lparr>trk_last := Some (blockHeight, prices)\<rparr>))))"

section \<open>Price rows\<close>

record oracle_price_row =
  opr_block :: int
  opr_timestamp :: string
  opr_pool :: string
  opr_reserve :: string
  opr_oracle :: string
  opr_price :: string
  opr_is_change :: int

definition oracle_row ::
  "int \<Rightarrow> string \<Rightarrow> market_oracle_config \<Rightarrow> reserve_prices option \<Rightarrow> bool \<Rightarrow> string \<times> int \<Rightarrow> oracle_price_row list" where
  "oracle_row height timestamp config previous baseline entry =
     (let (reserve, price) = entry;
          prior = Option.bind previous (\<lambda>m. map_of m reserve);
          changed = (case prior of None \<Rightarrow> False | Some p \<Rightarrow> p \<noteq> price)
      in if \<not> changed \<and> \<not> baseline then []
         else [\<lparr>opr_block = height, opr_timestamp = timestamp, opr_pool = cfg_pool config, opr_reserve = reserve,
                opr_oracle = cfg_oracle config, opr_price = int_to_string price,
                opr_is_change = (if changed then 1 else 0)\<rparr>])"

definition oraclePriceRows ::
  "int \<Rightarrow> string \<Rightarrow> market_oracle_config list \<Rightarrow> (string, reserve_prices) jsmap \<Rightarrow> (string, reserve_prices) jsmap
    \<Rightarrow> string list \<Rightarrow> oracle_price_row list" where
  "oraclePriceRows height timestamp configs previous current baselinePools =
     concat (map (\<lambda>config.
       case map_of current (cfg_pool config) of
         None \<Rightarrow> []
       | Some now \<Rightarrow>
           concat (map (\<lambda>reserve. oracle_row height timestamp config (map_of previous (cfg_pool config))
                                    (cfg_pool config \<in> set baselinePools) (reserve, the (map_of now reserve)))
             (sort (map fst now)))) configs)"

section \<open>Reading what the node encoded\<close>

lemma words_of_concat:
  "\<forall>w \<in> set ws. length w = 64 \<Longrightarrow> words_of (concat ws) = ws"
proof (induction ws)
  case Nil
  then show ?case by (simp add: words_of.simps)
next
  case (Cons w ws)
  then have "w \<noteq> []" by auto
  with Cons show ?case by (subst words_of.simps) simp
qed

lemma word_value_encode: "0 \<le> v \<Longrightarrow> v < 2 ^ 256 \<Longrightarrow> word_value (abi_encode v) = Some v"
  by (simp add: word_value_def digits_abi_encode)

lemma word_values_encode:
  "\<forall>v \<in> set vs. 0 \<le> v \<and> v < 2 ^ 256 \<Longrightarrow> word_values (map abi_encode vs) = Some vs"
  by (induction vs) (simp_all add: word_value_encode)

lemma abi_encode_nonempty [simp]: "abi_encode v \<noteq> []"
  by (metis length_abi_encode list.size(3) zero_neq_numeral)

text \<open>The return data of a function that answers a dynamic array of words.\<close>

definition abi_array :: "int list \<Rightarrow> string" where
  "abi_array vs = ''0x'' @ concat (map abi_encode (32 # int (length vs) # vs))"

text \<open>Every price list the oracle can answer is read back exactly: decoding the ABI encoding of an array of
  256-bit words gives the array.\<close>

lemma uint_array_roundtrip:
  assumes "\<forall>v \<in> set vs. 0 \<le> v \<and> v < 2 ^ 256" and "int (length vs) \<le> MAX_SAFE_INTEGER"
  shows "decodeUint256Array (Some (abi_array vs)) = Some (Some vs)"
proof -
  let ?ws = "map abi_encode (32 # int (length vs) # vs)"
  have len: "length (concat (map abi_encode xs)) = 64 * length xs" for xs by (induction xs) simp_all
  have words: "abi_words (Some (abi_array vs)) = Some ?ws"
    using words_of_concat [of ?ws] len [of vs] by (simp add: abi_words_def abi_array_def starts_with_def)
  have count: "word_value (abi_encode (int (length vs))) = Some (int (length vs))"
    using assms(2) by (intro word_value_encode) (simp_all add: MAX_SAFE_INTEGER_def)
  have "word_value (abi_encode 32) = Some 32" by (rule word_value_encode) simp_all
  then have "decodeDynamicArray (Some (abi_array vs)) = Some (Some (map abi_encode vs))"
    using count assms(2) unfolding decodeDynamicArray_def words
    by (simp add: is_safe_integer_def)
  then show ?thesis using word_values_encode [OF assms(1)] by (simp add: decodeUint256Array_def)
qed

section \<open>Steps are a function of the chain\<close>

text \<open>A node that answers each call from the chain: the same call at the same block, the same answer.\<close>

definition pure_node :: "(eth_call \<Rightarrow> int \<Rightarrow> string option) \<Rightarrow> eth_call_batch" where
  "pure_node answer = (\<lambda>calls blockHeight. Inr (map (\<lambda>c. answer c blockHeight) calls))"

definition hex_answers :: "(eth_call \<Rightarrow> int \<Rightarrow> string option) \<Rightarrow> bool" where
  "hex_answers answer \<longleftrightarrow> (\<forall>c b r. answer c b = Some r \<longrightarrow> list_all is_hex_digit (drop 2 r))"

definition batch_prices :: "(eth_call \<Rightarrow> int \<Rightarrow> string option) \<Rightarrow> market_oracle_config \<Rightarrow> int \<Rightarrow> int list option" where
  "batch_prices answer c b =
     (case decodeUint256Array (answer (batch_request c) b) of
        Some (Some prices) \<Rightarrow> if length prices = length (cfg_reserves c) then Some prices else None
      | _ \<Rightarrow> None)"

definition market_prices ::
  "(eth_call \<Rightarrow> int \<Rightarrow> string option) \<Rightarrow> market_oracle_config \<Rightarrow> int \<Rightarrow> string + reserve_prices" where
  "market_prices answer c b =
     (case batch_prices answer c b of
        Some prices \<Rightarrow> Inr (price_map_of (cfg_reserves c) prices)
      | None \<Rightarrow>
          (case single_prices (cfg_reserves c) (map (\<lambda>r. answer (single_request c r) b) (cfg_reserves c)) [] of
             Some prices \<Rightarrow> if prices \<noteq> [] then Inr prices else Inl (no_price_error c b)
           | None \<Rightarrow> Inl BIGINT_SYNTAX_ERROR))"

lemma answer_at_Cons [simp]: "answer_at (a # as) 0 = a"
  by (simp add: answer_at_def)

lemma hex_digits_value: "list_all is_hex_digit s \<Longrightarrow> digits_value 16 acc s \<noteq> None"
proof (induction s arbitrary: acc)
  case (Cons c s)
  then obtain d where d: "digit_val c = Some d" by (auto simp: is_hex_digit_def)
  then have "d < 16" by (auto simp: digit_val_def Let_def split: if_splits)
  with Cons d show ?case by simp
qed simp

lemma word_value_hex: "list_all is_hex_digit w \<Longrightarrow> word_value w \<noteq> None"
  by (simp add: word_value_def hex_digits_value)

lemma words_of_hex: "list_all is_hex_digit body \<Longrightarrow> \<forall>w \<in> set (words_of body). list_all is_hex_digit w"
proof (induction body rule: words_of.induct)
  case (1 body)
  have "list_all is_hex_digit (take 64 body)" "list_all is_hex_digit (drop 64 body)"
    using 1(2) by (auto simp: list_all_iff dest: in_set_takeD in_set_dropD)
  with 1 show ?case by (subst words_of.simps) auto
qed

lemma abi_words_hex:
  assumes "hex_answers answer" and "abi_words (answer c b) = Some ws" and "w \<in> set ws"
  shows "word_value w \<noteq> None"
proof -
  obtain r where r: "answer c b = Some r" "ws = words_of (drop 2 r)"
    using assms(2) by (auto simp: abi_words_def Let_def split: option.splits if_splits)
  with assms(1) have "list_all is_hex_digit (drop 2 r)" by (auto simp: hex_answers_def)
  then have "list_all is_hex_digit w" using words_of_hex r(2) assms(3) by blast
  then show ?thesis by (rule word_value_hex)
qed

lemma word_values_total: "\<forall>w \<in> set ws. word_value w \<noteq> None \<Longrightarrow> word_values ws \<noteq> None"
  by (induction ws) auto

lemma decode_array_total:
  assumes "hex_answers answer"
  shows "decodeUint256Array (answer c b) \<noteq> None"
proof (cases "abi_words (answer c b)")
  case None
  then show ?thesis by (simp add: decodeUint256Array_def decodeDynamicArray_def)
next
  case (Some ws)
  have hex: "word_value w \<noteq> None" if "w \<in> set ws" for w using abi_words_hex [OF assms Some that] .
  show ?thesis
  proof (cases "length ws < 2")
    case True
    then show ?thesis by (simp add: decodeUint256Array_def decodeDynamicArray_def Some)
  next
    case False
    then have "0 < length ws" by linarith
    then have "ws ! 0 \<in> set ws" by simp
    then obtain off where off: "word_value (ws ! 0) = Some off" using hex by fastforce
    then have "0 \<le> off" by (auto simp: word_value_def)
    define at where "at = off div 32"
    show ?thesis
    proof (cases "off mod 32 \<noteq> 0 \<or> at \<ge> int (length ws)")
      case True
      then show ?thesis using False off
        by (auto simp: decodeUint256Array_def decodeDynamicArray_def Some at_def Let_def)
    next
      case inside: False
      then have "nat at < length ws" using \<open>0 \<le> off\<close> by (simp add: nat_less_iff at_def pos_imp_zdiv_nonneg_iff)
      then have "ws ! nat at \<in> set ws" by simp
      then obtain n where n: "word_value (ws ! nat at) = Some n" using hex by fastforce
      have "word_values (take k (drop j ws)) \<noteq> None" for j k
      proof (rule word_values_total, rule ballI)
        fix w assume "w \<in> set (take k (drop j ws))"
        then have "w \<in> set ws" by (metis in_set_takeD in_set_dropD)
        then show "word_value w \<noteq> None" by (rule hex)
      qed
      then show ?thesis using False off n inside
        by (simp add: decodeUint256Array_def decodeDynamicArray_def Some at_def Let_def)
    qed
  qed
qed

lemma decode_uint_total:
  assumes "hex_answers answer"
  shows "decodeUint256 (answer c b) \<noteq> None"
proof (cases "abi_words (answer c b)")
  case (Some ws)
  show ?thesis
  proof (cases "length ws = 1")
    case True
    then have "ws ! 0 \<in> set ws" by (intro nth_mem) simp
    from abi_words_hex [OF assms Some this] show ?thesis by (simp add: decodeUint256_def Some)
  qed (simp add: decodeUint256_def Some)
qed (simp add: decodeUint256_def)

lemma single_prices_total:
  assumes "hex_answers answer"
  shows "single_prices rs (map (\<lambda>r. answer (f r) b) rs @ more_answers) m
      = single_prices rs (map (\<lambda>r. answer (f r) b) rs) m
    \<and> single_prices rs (map (\<lambda>r. answer (f r) b) rs) m \<noteq> None"
proof (induction rs arbitrary: m)
  case (Cons r rs)
  show ?case using decode_uint_total [OF assms, of "f r" b] Cons by (auto split: option.split)
qed simp

lemma batch_pass_ok:
  assumes "hex_answers answer" and "distinct (map cfg_pool cs)" and "map_wf out"
  shows "\<exists>out'. batch_pass cs (map (\<lambda>c. answer (batch_request c) b) cs) out retry
      = Some (out', retry @ filter (\<lambda>c. batch_prices answer c b = None) cs) \<and> map_wf out'
    \<and> (\<forall>p. p \<notin> cfg_pool ` set (filter (\<lambda>c. batch_prices answer c b \<noteq> None) cs) \<longrightarrow> map_of out' p = map_of out p)
    \<and> (\<forall>c \<in> set (filter (\<lambda>c. batch_prices answer c b \<noteq> None) cs).
         map_of out' (cfg_pool c) = Some (market_prices answer c b))"
  using assms(2,3)
proof (induction cs arbitrary: out retry)
  case (Cons c cs)
  let ?ans = "map (\<lambda>c. answer (batch_request c) b)"
  obtain d where d: "decodeUint256Array (answer (batch_request c) b) = Some d"
    using decode_array_total [OF assms(1)] by fastforce
  show ?case
  proof (cases "batch_prices answer c b")
    case None
    then have "batch_pass (c # cs) (?ans (c # cs)) out retry = batch_pass cs (?ans cs) out (retry @ [c])"
      using d by (auto simp: batch_prices_def split: option.splits if_splits)
    then show ?thesis using Cons.IH [of out "retry @ [c]"] Cons.prems None by simp
  next
    case (Some prices)
    let ?out = "map_set (cfg_pool c) (Inr (price_map_of (cfg_reserves c) prices)) out"
    have step: "batch_pass (c # cs) (?ans (c # cs)) out retry = batch_pass cs (?ans cs) ?out retry"
      using Some d by (auto simp: batch_prices_def split: option.splits if_splits)
    have m: "market_prices answer c b = Inr (price_map_of (cfg_reserves c) prices)"
      using Some by (simp add: market_prices_def)
    have "distinct (map cfg_pool cs)" "map_wf ?out" using Cons.prems by simp_all
    from Cons.IH [OF this, of retry] obtain out' where
      out': "batch_pass cs (?ans cs) ?out retry = Some (out', retry @ filter (\<lambda>c. batch_prices answer c b = None) cs)"
        "map_wf out'"
        "\<forall>p. p \<notin> cfg_pool ` set (filter (\<lambda>c. batch_prices answer c b \<noteq> None) cs) \<longrightarrow> map_of out' p = map_of ?out p"
        "\<forall>c \<in> set (filter (\<lambda>c. batch_prices answer c b \<noteq> None) cs). map_of out' (cfg_pool c) = Some (market_prices answer c b)"
      by blast
    have "cfg_pool c \<notin> cfg_pool ` set (filter (\<lambda>c. batch_prices answer c b \<noteq> None) cs)" using Cons.prems(1) by auto
    then have "map_of out' (cfg_pool c) = Some (market_prices answer c b)" using out'(3) m by simp
    then show ?thesis unfolding step using out' Some
      by (intro exI [of _ out']) (simp del: map_of_eq_Some_iff)
  qed
qed simp

lemma single_pass_ok:
  assumes "hex_answers answer" and "distinct (map cfg_pool cs)" and "map_wf out"
    and "\<forall>c \<in> set cs. batch_prices answer c b = None"
  shows "\<exists>out'. single_pass b cs (concat (map (\<lambda>c. map (\<lambda>r. answer (single_request c r) b) (cfg_reserves c)) cs)) out = Some out'
    \<and> map_wf out' \<and> (\<forall>p. p \<notin> cfg_pool ` set cs \<longrightarrow> map_of out' p = map_of out p)
    \<and> (\<forall>c \<in> set cs. map_of out' (cfg_pool c) = Some (market_prices answer c b))"
  using assms(2,3,4)
proof (induction cs arbitrary: out)
  case (Cons c cs)
  let ?rest = "concat (map (\<lambda>c. map (\<lambda>r. answer (single_request c r) b) (cfg_reserves c)) cs)"
  obtain prices where p: "single_prices (cfg_reserves c) (map (\<lambda>r. answer (single_request c r) b) (cfg_reserves c)) [] = Some prices"
    using single_prices_total [OF assms(1), of "cfg_reserves c" "single_request c" b "[]"] by fastforce
  let ?v = "if prices \<noteq> [] then Inr prices else Inl (no_price_error c b)"
  have v: "market_prices answer c b = ?v" using Cons.prems(3) p by (simp add: market_prices_def)
  have first: "single_prices (cfg_reserves c) (map (\<lambda>r. answer (single_request c r) b) (cfg_reserves c) @ ?rest) [] = Some prices"
    using single_prices_total [OF assms(1), of "cfg_reserves c" "single_request c" b ?rest "[]"] p by simp
  obtain out' where "single_pass b cs ?rest (map_set (cfg_pool c) ?v out) = Some out'" "map_wf out'"
    "\<forall>p. p \<notin> cfg_pool ` set cs \<longrightarrow> map_of out' p = map_of (map_set (cfg_pool c) ?v out) p"
    "\<forall>c \<in> set cs. map_of out' (cfg_pool c) = Some (market_prices answer c b)"
    using Cons.IH [of "map_set (cfg_pool c) ?v out"] Cons.prems by (auto simp del: map_of_eq_Some_iff)
  moreover have "cfg_pool c \<notin> cfg_pool ` set cs" using Cons.prems(1) by simp
  ultimately show ?case using first v by (intro exI [of _ out']) (simp del: map_of_eq_Some_iff)
qed simp

lemma if_eq_either: "map_of y p = map_of x p \<Longrightarrow> map_of (if P then x else y) p = map_of x p"
  by simp

lemma readMarketPrices_ok:
  assumes "hex_answers answer" and "distinct (map cfg_pool cs)"
  shows "\<exists>out n. readMarketPrices cs b (pure_node answer) = (Inr out, n) \<and> map_wf out
    \<and> (\<forall>c \<in> set cs. map_of out (cfg_pool c) = Some (market_prices answer c b))
    \<and> (\<forall>p. p \<notin> cfg_pool ` set cs \<longrightarrow> map_of out p = None)"
proof -
  let ?retry = "filter (\<lambda>c. batch_prices answer c b = None) cs"
  from batch_pass_ok [OF assms, of "[]" b "[]"] obtain out where
    out: "batch_pass cs (map (\<lambda>c. answer (batch_request c) b) cs) [] [] = Some (out, ?retry)" "map_wf out"
      "\<forall>p. p \<notin> cfg_pool ` set (filter (\<lambda>c. batch_prices answer c b \<noteq> None) cs) \<longrightarrow> map_of out p = None"
      "\<forall>c \<in> set (filter (\<lambda>c. batch_prices answer c b \<noteq> None) cs). map_of out (cfg_pool c) = Some (market_prices answer c b)"
    by (auto simp del: map_of_eq_Some_iff)
  have batch: "map ((\<lambda>c. answer c b) \<circ> batch_request) cs = map (\<lambda>c. answer (batch_request c) b) cs" by simp
  have dist: "distinct (map cfg_pool ?retry)" using assms(2) by (rule distinct_map_filter)
  from single_pass_ok [OF assms(1) dist out(2), of b] obtain out' where
    out': "single_pass b ?retry (concat (map (\<lambda>c. map (\<lambda>r. answer (single_request c r) b) (cfg_reserves c)) ?retry)) out = Some out'"
      "map_wf out'" "\<forall>p. p \<notin> cfg_pool ` set ?retry \<longrightarrow> map_of out' p = map_of out p"
      "\<forall>c \<in> set ?retry. map_of out' (cfg_pool c) = Some (market_prices answer c b)"
    by (auto simp del: map_of_eq_Some_iff)
  have flat: "map (\<lambda>c. answer c b) (concat (map (\<lambda>c. map (single_request c) (cfg_reserves c)) ds)) =
      concat (map (\<lambda>c. map (\<lambda>r. answer (single_request c r) b) (cfg_reserves c)) ds)" for ds
    by (simp add: map_concat o_def)
  define res where "res = (if ?retry = [] then out else out')"
  have "\<exists>n. readMarketPrices cs b (pure_node answer) = (Inr res, n)"
    using out(1) out'(1) by (simp add: readMarketPrices_def pure_node_def batch flat Let_def res_def)
  moreover have "map_wf res" using out(2) out'(2) by (simp add: res_def)
  moreover have "map_of res (cfg_pool c) = Some (market_prices answer c b)" if c: "c \<in> set cs" for c
  proof (cases "batch_prices answer c b")
    case None
    with c have inr: "c \<in> set ?retry" by simp
    from this have "?retry \<noteq> []" by (metis empty_iff empty_set)
    then have "res = out'" unfolding res_def by (rule if_not_P)
    with inr out'(4) show ?thesis by blast
  next
    case (Some prices)
    have "cfg_pool c \<notin> cfg_pool ` set ?retry"
    proof
      assume "cfg_pool c \<in> cfg_pool ` set ?retry"
      then obtain d where d: "d \<in> set ?retry" "cfg_pool c = cfg_pool d" by (rule imageE)
      then have "d \<in> set cs" by simp
      with assms(2) c d(2) have "c = d" by (metis distinct_map inj_onD)
      with d(1) Some show False by simp
    qed
    then have "map_of out' (cfg_pool c) = map_of out (cfg_pool c)" using out'(3) by blast
    then have "map_of res (cfg_pool c) = map_of out (cfg_pool c)" unfolding res_def by (rule if_eq_either)
    moreover have "c \<in> set (filter (\<lambda>c. batch_prices answer c b \<noteq> None) cs)" using c Some by simp
    then have "map_of out (cfg_pool c) = Some (market_prices answer c b)" by (rule bspec [OF out(4)])
    ultimately show ?thesis by (rule trans)
  qed
  moreover have "map_of res p = None" if "p \<notin> cfg_pool ` set cs" for p
  proof -
    have sub: "set (filter P cs) \<subseteq> set cs" for P by auto
    have none: "map_of out p = None" using that out(3) sub by (meson image_mono subsetD)
    have "p \<notin> cfg_pool ` set ?retry" using that sub by (meson image_mono subsetD)
    then have "map_of out' p = map_of out p" using out'(3) by blast
    then have "map_of res p = map_of out p" unfolding res_def by (rule if_eq_either)
    from this none show ?thesis by (rule trans)
  qed
  ultimately show ?thesis by blast
qed

lemma merge_previous_at:
  "map_wf reads \<Longrightarrow> map_of (merge_previous reads m) p =
     (case map_of reads p of Some (Inr x) \<Rightarrow> Some x | _ \<Rightarrow> map_of m p)"
proof (induction reads arbitrary: m)
  case (Cons e reads)
  obtain q r where e: "e = (q, r)" by force
  have "q \<notin> fst ` set reads" "map_wf reads" using Cons.prems e by simp_all
  moreover from this have "map_of reads q = None" by (simp add: map_of_eq_None_iff)
  ultimately show ?case using Cons.IH e
    by (cases "p = q") (simp_all add: merge_previous_def split: sum.split option.split)
qed (simp add: merge_previous_def)

definition the_steps :: "int \<Rightarrow> reserve_prices option \<Rightarrow> reserve_prices \<Rightarrow> string list option" where
  "the_steps threshold prior now =
     (let s = priceSteps (case prior of None \<Rightarrow> [] | Some m \<Rightarrow> m) now threshold in if s = [] then None else Some s)"

lemma step_loop_other:
  "p \<notin> cfg_pool ` set cs \<Longrightarrow>
     map_of (fst (step_loop threshold current previous cs acc)) p = map_of (fst acc) p
   \<and> map_of (fst (snd (step_loop threshold current previous cs acc))) p = map_of (fst (snd acc)) p"
proof (induction cs arbitrary: acc)
  case (Cons c cs)
  obtain s q f where acc: "acc = (s, q, f)" by (cases acc)
  show ?case using Cons.prems Cons.IH unfolding acc
    by (auto simp: Let_def simp del: map_of_eq_Some_iff split: option.split sum.split)
qed simp

lemma step_loop_at:
  assumes "distinct (map cfg_pool cs)" and "c \<in> set cs" and "map_of (fst acc) (cfg_pool c) = None"
    and "map_of current (cfg_pool c) = Some (Inr now)"
  shows "map_of (fst (step_loop threshold current previous cs acc)) (cfg_pool c) =
           the_steps threshold (map_of previous (cfg_pool c)) now
       \<and> map_of (fst (snd (step_loop threshold current previous cs acc))) (cfg_pool c) = Some now"
  using assms(1-3)
proof (induction cs arbitrary: acc)
  case (Cons d cs)
  obtain s q f where acc: "acc = (s, q, f)" by (cases acc)
  show ?case
  proof (cases "d = c")
    case True
    then have "cfg_pool c \<notin> cfg_pool ` set cs" using Cons.prems(1) by simp
    from step_loop_other [OF this] show ?thesis using True assms(4) Cons.prems(3) unfolding acc
      by (simp add: the_steps_def Let_def del: map_of_eq_Some_iff)
  next
    case False
    then have "c \<in> set cs" "distinct (map cfg_pool cs)" using Cons.prems by simp_all
    note IH = Cons.IH [OF this(2) this(1)]
    have "cfg_pool d \<noteq> cfg_pool c" using Cons.prems(1) \<open>c \<in> set cs\<close> by auto
    then show ?thesis using IH Cons.prems(3) unfolding acc
      by (simp add: Let_def del: map_of_eq_Some_iff split: option.split sum.split)
  qed
qed simp

lemma step_loop_prices:
  assumes "map_of (fst (snd (step_loop threshold current previous cs acc))) p = Some now"
  shows "map_of (fst (snd acc)) p = Some now \<or> map_of current p = Some (Inr now)"
  using assms
proof (induction cs arbitrary: acc)
  case (Cons d cs)
  obtain s q f where acc: "acc = (s, q, f)" by (cases acc)
  show ?case
  proof (cases "map_of current (cfg_pool d)")
    case None
    with Cons.IH Cons.prems show ?thesis unfolding acc by fastforce
  next
    case (Some r)
    with Cons.IH Cons.prems show ?thesis unfolding acc
      by (cases r) (fastforce simp: Let_def simp del: map_of_eq_Some_iff split: if_splits)+
  qed
qed simp

text \<open>What the tracker holds: one configuration per pool, under that pool.\<close>

definition configs_ok :: "(string, market_oracle_config) jsmap \<Rightarrow> bool" where
  "configs_ok m \<longleftrightarrow> map_wf m \<and> (\<forall>(p, c) \<in> set m. cfg_pool c = p)"

lemma configs_ok_empty [simp]: "configs_ok []"
  by (simp add: configs_ok_def)

lemma configs_ok_set: "configs_ok m \<Longrightarrow> cfg_pool c = p \<Longrightarrow> configs_ok (map_set p c m)"
  using map_set_entries [of p c m] by (auto simp: configs_ok_def)

lemma configs_ok_pools: "configs_ok m \<Longrightarrow> map cfg_pool (map snd m) = map fst m"
  by (auto simp: configs_ok_def)

lemma configs_ok_distinct: "configs_ok m \<Longrightarrow> distinct (map cfg_pool (map snd m))"
  by (simp add: configs_ok_pools configs_ok_def del: map_map)

lemma configs_ok_get: "configs_ok m \<Longrightarrow> map_of m p = Some c \<Longrightarrow> cfg_pool c = p \<and> c \<in> set (map snd m)"
  by (force simp: configs_ok_def dest: map_of_SomeD)

lemma configs_ok_of: "configs_ok m \<Longrightarrow> c \<in> set (map snd m) \<Longrightarrow> map_of m (cfg_pool c) = Some c"
  by (fastforce simp: configs_ok_def)

lemma resolved_config_pool:
  "resolveMarketOracleConfig m b call = (Inr c, n) \<Longrightarrow> cfg_pool c = to_lower (market_pool m)"
proof -
  have pick: "map_sum id f r = Inr c \<Longrightarrow> \<exists>y. c = f y" for f :: "reserve_tokens list \<Rightarrow> market_oracle_config" and r
    by (cases r) auto
  assume "resolveMarketOracleConfig m b call = (Inr c, n)"
  then show ?thesis
    by (auto simp: resolveMarketOracleConfig_def Let_def dest!: pick
        split: sum.splits option.splits prod.splits)
qed

lemma resolve_loop_ok:
  assumes "resolve_loop call b want ms tr rs fs = ((rs', fs'), tr')" and "configs_ok (trk_configs tr)"
  shows "configs_ok (trk_configs tr') \<and> set rs \<subseteq> set rs'
    \<and> (\<forall>p. p \<notin> set rs' \<longrightarrow> map_of (trk_configs tr') p = map_of (trk_configs tr) p)
    \<and> trk_last tr' = trk_last tr \<and> trk_threshold tr' = trk_threshold tr"
  using assms
proof (induction ms arbitrary: tr rs fs)
  case (Cons m ms)
  let ?pool = "to_lower (market_pool m)"
  obtain r n where r: "resolveMarketOracleConfig m b call = (r, n)" by force
  show ?case
  proof (cases "map_has (trk_configs tr) ?pool \<and> ?pool \<notin> set want")
    case True
    then show ?thesis using Cons by (simp del: map_of_eq_Some_iff)
  next
    case False
    show ?thesis
    proof (cases r)
      case (Inl e)
      then show ?thesis using Cons.IH [of "tr\<lparr>trk_calls := trk_calls tr + n\<rparr>" rs] Cons.prems False r
        by (auto simp del: map_of_eq_Some_iff)
    next
      case (Inr c)
      let ?tr = "tr\<lparr>trk_calls := trk_calls tr + n, trk_configs := map_set ?pool c (trk_configs tr)\<rparr>"
      have "configs_ok (trk_configs ?tr)"
        using configs_ok_set [OF Cons.prems(2) resolved_config_pool] r Inr by simp
      moreover have "resolve_loop call b want ms ?tr (rs @ [?pool]) fs = ((rs', fs'), tr')"
        using Cons.prems(1) False r Inr by (simp add: Let_def)
      ultimately show ?thesis using Cons.IH [of ?tr "rs @ [?pool]" fs] by (auto simp del: map_of_eq_Some_iff)
    qed
  qed
qed simp

definition tracker_ok :: "(eth_call \<Rightarrow> int \<Rightarrow> string option) \<Rightarrow> price_tracker \<Rightarrow> bool" where
  "tracker_ok answer tr \<longleftrightarrow> configs_ok (trk_configs tr) \<and>
     (\<forall>h ps p pr. trk_last tr = Some (h, ps) \<longrightarrow> map_of ps p = Some pr \<longrightarrow>
        (\<exists>c. map_of (trk_configs tr) p = Some c \<and> market_prices answer c h = Inr pr))"

text \<open>The trackers a worker can hold: any sequence of observations, in any order and with any gaps.\<close>

inductive tracks :: "(eth_call \<Rightarrow> int \<Rightarrow> string option) \<Rightarrow> mm_market list \<Rightarrow> int \<Rightarrow> price_tracker \<Rightarrow> bool"
  for answer mkts threshold where
  fresh: "tracks answer mkts threshold (new_price_tracker mkts threshold)"
| observed: "tracks answer mkts threshold tr \<Longrightarrow>
    tracks answer mkts threshold (snd (observe_prices (pure_node answer) blockHeight logs tr))"

definition held_at :: "int \<Rightarrow> price_tracker \<Rightarrow> (string, reserve_prices) jsmap" where
  "held_at h tr = (case trk_last tr of Some (h', ps) \<Rightarrow> if h' = h then ps else [] | None \<Rightarrow> [])"

lemma prior_prices:
  assumes "hex_answers answer" and "configs_ok m"
    and "needPrevious = filter (\<lambda>c. map_of hp (cfg_pool c) = None \<or> cfg_pool c \<in> set resolved) (map snd m)"
    and hp: "\<forall>p pr. p \<notin> set resolved \<longrightarrow> map_of hp p = Some pr \<longrightarrow>
      (\<exists>c. map_of m p = Some c \<and> market_prices answer c h = Inr pr)"
  shows "\<exists>reads n. readMarketPrices needPrevious h (pure_node answer) = (Inr reads, n)
    \<and> (\<forall>p c prev. map_of m p = Some c \<longrightarrow> market_prices answer c h = Inr prev \<longrightarrow>
         map_of (merge_previous reads hp) p = Some prev)
    \<and> (needPrevious = [] \<longrightarrow> (\<forall>p c prev. map_of m p = Some c \<longrightarrow> market_prices answer c h = Inr prev \<longrightarrow>
         map_of hp p = Some prev))"
proof -
  have dist: "distinct (map cfg_pool needPrevious)"
    unfolding assms(3) using configs_ok_distinct [OF assms(2)] by (rule distinct_map_filter)
  obtain reads n where reads: "readMarketPrices needPrevious h (pure_node answer) = (Inr reads, n)" "map_wf reads"
    "\<forall>c \<in> set needPrevious. map_of reads (cfg_pool c) = Some (market_prices answer c h)"
    "\<forall>p. p \<notin> cfg_pool ` set needPrevious \<longrightarrow> map_of reads p = None"
    using readMarketPrices_ok [OF assms(1) dist, of h] by (auto simp del: map_of_eq_Some_iff)
  have kept: "map_of hp p = Some prev"
    if "map_of m p = Some c" "market_prices answer c h = Inr prev" "c \<notin> set needPrevious" for p c prev
  proof -
    have "cfg_pool c = p" "c \<in> set (map snd m)" using configs_ok_get [OF assms(2) that(1)] by blast+
    with that(3) obtain pr where pr: "map_of hp p = Some pr" "p \<notin> set resolved"
      unfolding assms(3) by (auto simp del: map_of_eq_Some_iff)
    with hp that(1,2) show ?thesis by fastforce
  qed
  have "map_of (merge_previous reads hp) p = Some prev"
    if "map_of m p = Some c" "market_prices answer c h = Inr prev" for p c prev
  proof (cases "c \<in> set needPrevious")
    case True
    then have "map_of reads p = Some (Inr prev)"
      using reads(3) that configs_ok_get [OF assms(2) that(1)] by (metis (no_types))
    then show ?thesis by (simp add: merge_previous_at [OF reads(2)] del: map_of_eq_Some_iff)
  next
    case False
    have "p \<notin> cfg_pool ` set needPrevious"
    proof
      assume "p \<in> cfg_pool ` set needPrevious"
      then obtain d where d: "d \<in> set needPrevious" "p = cfg_pool d" by (rule imageE)
      then have "d \<in> set (map snd m)" unfolding assms(3) by simp
      then have "map_of m p = Some d" using configs_ok_of [OF assms(2)] d(2) by blast
      with that(1) d(1) False show False by simp
    qed
    with reads(4) have "map_of reads p = None" by blast
    then show ?thesis using kept [OF that False] by (simp add: merge_previous_at [OF reads(2)] del: map_of_eq_Some_iff)
  qed
  then show ?thesis using reads(1) kept by auto
qed

lemma held_at_eq:
  "(case (case trk_last tr of None \<Rightarrow> None | Some (h, ps) \<Rightarrow> if h = x then Some ps else None) of
      None \<Rightarrow> [] | Some ps \<Rightarrow> ps) = held_at x tr"
  by (auto simp: held_at_def split: option.split)

lemma observe_ok:
  assumes hex: "hex_answers answer" and ok: "tracker_ok answer tr"
  shows "\<exists>obs tr'. observe_prices (pure_node answer) b logs tr = (Inr obs, tr') \<and> tracker_ok answer tr'
    \<and> trk_threshold tr' = trk_threshold tr
    \<and> (\<forall>p c now prev. map_of (trk_configs tr') p = Some c \<longrightarrow> market_prices answer c b = Inr now \<longrightarrow> 0 < b \<longrightarrow>
         market_prices answer c (b - 1) = Inr prev \<longrightarrow>
         map_of (obs_steps obs) p = the_steps (trk_threshold tr) (Some prev) now
       \<and> map_of (obs_previous obs) p = Some prev \<and> map_of (obs_prices obs) p = Some now)"
proof -
  let ?call = "pure_node answer"
  obtain rs fs tr1 where res: "resolve_markets ?call b (configLogPools tr logs) tr = ((rs, fs), tr1)"
    by (metis prod.exhaust)
  have cfgs: "configs_ok (trk_configs tr)" using ok by (simp add: tracker_ok_def)
  note kept = resolve_loop_ok [OF res [unfolded resolve_markets_def] cfgs]
  let ?cs = "map snd (trk_configs tr1)"
  have ok1: "configs_ok (trk_configs tr1)" using kept by blast
  obtain now n1 where now: "readMarketPrices ?cs b ?call = (Inr now, n1)" "map_wf now"
    "\<forall>c \<in> set ?cs. map_of now (cfg_pool c) = Some (market_prices answer c b)"
    "\<forall>p. p \<notin> cfg_pool ` set ?cs \<longrightarrow> map_of now p = None"
    using readMarketPrices_ok [OF hex configs_ok_distinct [OF ok1], of b] by (auto simp del: map_of_eq_Some_iff)
  define hp where "hp = held_at (b - 1) tr1"
  define need where "need = filter (\<lambda>c. map_of hp (cfg_pool c) = None \<or> cfg_pool c \<in> set rs) ?cs"
  have "\<forall>p pr. p \<notin> set rs \<longrightarrow> map_of hp p = Some pr \<longrightarrow>
      (\<exists>c. map_of (trk_configs tr1) p = Some c \<and> market_prices answer c (b - 1) = Inr pr)"
    using ok kept by (auto simp: hp_def held_at_def tracker_ok_def simp del: map_of_eq_Some_iff split: option.splits if_splits)
  from prior_prices [OF hex ok1 need_def this] obtain reads n where
    reads: "readMarketPrices need (b - 1) ?call = (Inr reads, n)"
      "\<forall>p c prev. map_of (trk_configs tr1) p = Some c \<longrightarrow> market_prices answer c (b - 1) = Inr prev \<longrightarrow>
         map_of (merge_previous reads hp) p = Some prev"
      "need = [] \<longrightarrow> (\<forall>p c prev. map_of (trk_configs tr1) p = Some c \<longrightarrow> market_prices answer c (b - 1) = Inr prev \<longrightarrow>
         map_of hp p = Some prev)" by blast
  define prior where "prior = (if need \<noteq> [] \<and> b > 0 then merge_previous reads hp else hp)"
  define calls where "calls = trk_calls tr1 + n1 + (if need \<noteq> [] \<and> b > 0 then n else 0)"
  have prior: "map_of prior p = Some prev"
    if "map_of (trk_configs tr1) p = Some c" "market_prices answer c (b - 1) = Inr prev" "0 < b" for p c prev
    using reads(2,3) that by (auto simp: prior_def simp del: map_of_eq_Some_iff)
  obtain steps prices failed where
    loop: "step_loop (trk_threshold tr1) now prior ?cs ([], [], fs) = (steps, prices, failed)"
    by (metis prod.exhaust)
  let ?obs = "\<lparr>obs_steps = steps, obs_configChanged = configLogPools tr logs, obs_failed = failed, obs_prices = prices,
      obs_previous = prior, obs_resolved = js_unique rs, obs_calls = calls - trk_calls tr\<rparr>"
  let ?tr = "tr1\<lparr>trk_calls := calls, trk_last := Some (b, prices)\<rparr>"
  have run: "observe_prices ?call b logs tr = (Inr ?obs, ?tr)"
    using res now(1) reads(1) loop
    by (cases "need = []"; cases "0 < b")
      (simp_all add: observe_prices_def held_at_eq need_def [symmetric] hp_def [symmetric] Let_def prior_def calls_def)
  have at: "map_of steps p = the_steps (trk_threshold tr1) (map_of prior p) nw \<and> map_of prices p = Some nw"
    if "map_of (trk_configs tr1) p = Some c" "market_prices answer c b = Inr nw" for p c nw
  proof -
    have c: "cfg_pool c = p" "c \<in> set ?cs" using configs_ok_get [OF ok1 that(1)] by blast+
    have "map_of now (cfg_pool c) = Some (Inr nw)" using now(3) c(2) that(2) by (metis (no_types))
    from step_loop_at [OF configs_ok_distinct [OF ok1] c(2) _ this, of "([], [], fs)" "trk_threshold tr1" prior]
    show ?thesis unfolding loop c(1) by simp
  qed
  have "\<exists>c. map_of (trk_configs tr1) p = Some c \<and> market_prices answer c b = Inr pr" if "map_of prices p = Some pr" for p pr
  proof -
    have "map_of now p = Some (Inr pr)"
      using step_loop_prices [of "trk_threshold tr1" now prior ?cs "([], [], fs)" p pr] that unfolding loop by simp
    with now(4) have "p \<in> cfg_pool ` set ?cs" by (metis option.distinct(1))
    then obtain c where c: "c \<in> set ?cs" "p = cfg_pool c" by (rule imageE)
    with now(3) have "map_of now p = Some (market_prices answer c b)" by blast
    with \<open>map_of now p = Some (Inr pr)\<close> have "market_prices answer c b = Inr pr" by simp
    with configs_ok_of [OF ok1 c(1)] c(2) show ?thesis by blast
  qed
  then have "tracker_ok answer ?tr" using ok1 by (auto simp: tracker_ok_def simp del: map_of_eq_Some_iff)
  moreover have "trk_threshold ?tr = trk_threshold tr" using kept by simp
  moreover have "map_of (obs_steps ?obs) p = the_steps (trk_threshold tr) (Some prev) nw
       \<and> map_of (obs_previous ?obs) p = Some prev \<and> map_of (obs_prices ?obs) p = Some nw"
    if "map_of (trk_configs ?tr) p = Some c" "market_prices answer c b = Inr nw" "0 < b"
      "market_prices answer c (b - 1) = Inr prev" for p c nw prev
    using at [of p c nw] prior [of p c prev] that kept by (simp del: map_of_eq_Some_iff)
  ultimately show ?thesis using run by blast
qed

lemma tracks_ok: "tracks answer mkts threshold tr \<Longrightarrow> hex_answers answer \<Longrightarrow>
    tracker_ok answer tr \<and> trk_threshold tr = threshold"
proof (induction rule: tracks.induct)
  case fresh
  then show ?case by (simp add: tracker_ok_def new_price_tracker_def)
next
  case (observed tr b logs)
  then show ?case using observe_ok [of answer tr b logs] by auto
qed

text \<open>What a market's prices are depends on the oracle and the reserves of its configuration only.\<close>

lemma market_prices_same:
  assumes "cfg_oracle d = cfg_oracle c" "cfg_reserves d = cfg_reserves c" "market_prices answer c b = Inr now"
  shows "market_prices answer d b = Inr now"
proof -
  have "batch_prices answer d b = batch_prices answer c b" "single_request d = single_request c"
    by (simp_all add: batch_prices_def batch_request_def single_request_def fun_eq_iff assms(1,2) cong: option.case_cong)
  with assms(2,3) show ?thesis by (auto simp: market_prices_def split: option.splits if_splits)
qed

text \<open>An observation reports, of every market it reads at both blocks, those reads and the steps between them.\<close>

definition as_read ::
  "(eth_call \<Rightarrow> int \<Rightarrow> string option) \<Rightarrow> int \<Rightarrow> int \<Rightarrow> price_tracker \<Rightarrow> price_observation \<Rightarrow> bool" where
  "as_read answer threshold b u obs \<longleftrightarrow>
     (\<forall>p c now prev. map_of (trk_configs u) p = Some c \<longrightarrow> market_prices answer c b = Inr now \<longrightarrow>
        market_prices answer c (b - 1) = Inr prev \<longrightarrow>
        map_of (obs_steps obs) p = the_steps threshold (Some prev) now
      \<and> map_of (obs_previous obs) p = Some prev \<and> map_of (obs_prices obs) p = Some now)"

text \<open>C38: Workers agree on the steps of the markets they can read. Take two workers with the same threshold on one
  node, which answers every call with hexadecimal text or nothing, each come to the block in its own way: as its first,
  after a gap or in sequence. Neither observation throws. For every market that both hold, after the observation, with
  the same oracle and the same reserves, and whose prices that configuration reads at the block and at the one before
  it, both report as steps those between the two reads, and as prices and previous prices those reads. Nothing is
  claimed where the configurations differ or a read is empty: there workers may disagree.\<close>

theorem steps_from_chain:
  assumes "tracks answer mkts threshold tr" and "tracks answer mkts' threshold tr'" and "hex_answers answer" and "0 < b"
  shows "\<exists>obs u obs' u'. observe_prices (pure_node answer) b logs tr = (Inr obs, u)
    \<and> observe_prices (pure_node answer) b logs tr' = (Inr obs', u') \<and>
    (\<forall>p c c' now prev. map_of (trk_configs u) p = Some c \<longrightarrow> map_of (trk_configs u') p = Some c' \<longrightarrow>
       cfg_oracle c' = cfg_oracle c \<longrightarrow> cfg_reserves c' = cfg_reserves c \<longrightarrow>
       market_prices answer c b = Inr now \<longrightarrow> market_prices answer c (b - 1) = Inr prev \<longrightarrow>
       map_of (obs_steps obs) p = the_steps threshold (Some prev) now
     \<and> map_of (obs_steps obs') p = the_steps threshold (Some prev) now
     \<and> map_of (obs_previous obs) p = Some prev \<and> map_of (obs_previous obs') p = Some prev
     \<and> map_of (obs_prices obs) p = Some now \<and> map_of (obs_prices obs') p = Some now)"
proof -
  have one: "\<exists>obs u. observe_prices (pure_node answer) b logs t = (Inr obs, u) \<and> as_read answer threshold b u obs"
    if "tracks answer ms threshold t" for ms t
    using observe_ok [of answer t b logs] tracks_ok [OF that assms(3)] assms(3,4)
    unfolding as_read_def by (auto simp del: map_of_eq_Some_iff)
  obtain obs u where run: "observe_prices (pure_node answer) b logs tr = (Inr obs, u)" "as_read answer threshold b u obs"
    using one [OF assms(1)] by (elim exE conjE)
  obtain obs' u' where run': "observe_prices (pure_node answer) b logs tr' = (Inr obs', u')" "as_read answer threshold b u' obs'"
    using one [OF assms(2)] by (elim exE conjE)
  show ?thesis
  proof (intro exI conjI allI impI)
    fix p c c' now prev
    assume c: "map_of (trk_configs u) p = Some c" "map_of (trk_configs u') p = Some c'"
        "cfg_oracle c' = cfg_oracle c" "cfg_reserves c' = cfg_reserves c"
      and reads: "market_prices answer c b = Inr now" "market_prices answer c (b - 1) = Inr prev"
    note same = market_prices_same [OF c(3,4)]
    note first = run(2) [unfolded as_read_def, rule_format, OF c(1) reads]
      and second = run'(2) [unfolded as_read_def, rule_format, OF c(2) same [OF reads(1)] same [OF reads(2)]]
    show "map_of (obs_steps obs) p = the_steps threshold (Some prev) now" by (rule first [THEN conjunct1])
    show "map_of (obs_steps obs') p = the_steps threshold (Some prev) now" by (rule second [THEN conjunct1])
    show "map_of (obs_previous obs) p = Some prev" by (rule first [THEN conjunct2, THEN conjunct1])
    show "map_of (obs_previous obs') p = Some prev" by (rule second [THEN conjunct2, THEN conjunct1])
    show "map_of (obs_prices obs) p = Some now" by (rule first [THEN conjunct2, THEN conjunct2])
    show "map_of (obs_prices obs') p = Some now" by (rule second [THEN conjunct2, THEN conjunct2])
  qed (rule run(1) run'(1))+
qed

text \<open>A node with one market, whose oracle's price alternates between two blocks.\<close>

definition alternating_node :: "eth_call \<Rightarrow> int \<Rightarrow> string option" where
  "alternating_node c b =
     (let sel = take 10 (call_data c) in
      if sel = sel_addressesProvider then Some (''0x'' @ abi_encode 1)
      else if sel = sel_getReservesList then Some (abi_array [7])
      else if sel = sel_getPriceOracle then Some (''0x'' @ abi_encode 2)
      else if sel = sel_getPoolConfigurator then Some (''0x'' @ abi_encode 3)
      else if sel = sel_getReserveData then Some (''0x'' @ concat (map abi_encode [0,1,2,3,4,5,6,7,8,9,10]))
      else if sel = sel_getAssetsPrices then Some (abi_array [if b mod 2 = 0 then 100 else 101])
      else None)"

definition one_market :: "mm_market list" where
  "one_market = [\<lparr>market_key = ''core'', market_pool = ''0xAA''\<rparr>]"

definition reserve_7 :: string where
  "reserve_7 = ''0x0000000000000000000000000000000000000007''"

lemma alternating_node_hex: "hex_answers alternating_node"
proof -
  have "list_all is_hex_digit (drop 2 (''0x'' @ abi_encode 1))" "list_all is_hex_digit (drop 2 (abi_array [7]))"
    "list_all is_hex_digit (drop 2 (''0x'' @ abi_encode 2))" "list_all is_hex_digit (drop 2 (''0x'' @ abi_encode 3))"
    "list_all is_hex_digit (drop 2 (''0x'' @ concat (map abi_encode [0,1,2,3,4,5,6,7,8,9,10])))"
    "list_all is_hex_digit (drop 2 (abi_array [100]))" "list_all is_hex_digit (drop 2 (abi_array [101]))"
    by code_simp+
  then show ?thesis
    unfolding hex_answers_def alternating_node_def Let_def by (auto simp del: drop_append split: if_splits)
qed

text \<open>A worker that starts at block 9, and one that observed block 8.\<close>

definition starts_at_9 :: price_tracker where
  "starts_at_9 = new_price_tracker one_market 100"

definition observed_8 :: price_tracker where
  "observed_8 = snd (observe_prices (pure_node alternating_node) 8 [] (new_price_tracker one_market 100))"

theorem steps_from_chain_witness:
  "\<exists>obs obs'. fst (observe_prices (pure_node alternating_node) 9 [] starts_at_9) = Inr obs
     \<and> fst (observe_prices (pure_node alternating_node) 9 [] observed_8) = Inr obs'
     \<and> map_of (obs_steps obs) ''0xaa'' = Some [reserve_7] \<and> map_of (obs_steps obs') ''0xaa'' = Some [reserve_7]"
proof -
  let ?run = "observe_prices (pure_node alternating_node) 9 [] starts_at_9"
  let ?run' = "observe_prices (pure_node alternating_node) 9 [] observed_8"
  let ?c = "\<lambda>h. \<lparr>cfg_key = ''core'', cfg_pool = ''0xaa'', cfg_provider = ''0x0000000000000000000000000000000000000001'',
      cfg_oracle = ''0x0000000000000000000000000000000000000002'',
      cfg_configurator = Some ''0x0000000000000000000000000000000000000003'', cfg_reserves = [reserve_7],
      cfg_reserveTokens = [\<lparr>rt_reserve = reserve_7, rt_tokens = [''0x0000000000000000000000000000000000000008'',
          ''0x000000000000000000000000000000000000000a'']\<rparr>], resolvedAt = h\<rparr>"
  have c: "map_of (trk_configs (snd ?run)) ''0xaa'' = Some (?c 9)" by code_simp
  have c': "map_of (trk_configs (snd ?run')) ''0xaa'' = Some (?c 8)" by code_simp
  have m: "market_prices alternating_node (?c 9) 9 = Inr [(reserve_7, 101)]"
    "market_prices alternating_node (?c 9) (9 - 1) = Inr [(reserve_7, 100)]" by code_simp+
  have s: "the_steps 100 (Some [(reserve_7, 100)]) [(reserve_7, 101)] = Some [reserve_7]" by code_simp
  have t: "tracks alternating_node one_market 100 starts_at_9" "tracks alternating_node one_market 100 observed_8"
    unfolding starts_at_9_def observed_8_def by (rule tracks.fresh, rule tracks.observed [OF tracks.fresh])
  obtain obs u obs' u' where run: "?run = (Inr obs, u)" "?run' = (Inr obs', u')" and
    all: "\<And>p c c' now prev. map_of (trk_configs u) p = Some c \<Longrightarrow> map_of (trk_configs u') p = Some c' \<Longrightarrow>
       cfg_oracle c' = cfg_oracle c \<Longrightarrow> cfg_reserves c' = cfg_reserves c \<Longrightarrow>
       market_prices alternating_node c 9 = Inr now \<Longrightarrow> market_prices alternating_node c (9 - 1) = Inr prev \<Longrightarrow>
       map_of (obs_steps obs) p = the_steps 100 (Some prev) now \<and> map_of (obs_steps obs') p = the_steps 100 (Some prev) now"
    using steps_from_chain [OF t alternating_node_hex, where b = 9 and logs = "[]"]
    by (auto simp del: map_of_eq_Some_iff)
  have "map_of (obs_steps obs) ''0xaa'' = Some [reserve_7] \<and> map_of (obs_steps obs') ''0xaa'' = Some [reserve_7]"
    using all [of "''0xaa''" "?c 9" "?c 8", OF _ _ _ _ m] c c' s run by simp
  with run show ?thesis by simp
qed

text \<open>The configuration held must be readable at both blocks. A market re-resolved to an oracle that did not
  answer at the block before keeps the previous oracle's prices in a worker that observed that block, and
  has none in a worker that starts here: only the first reports a step.\<close>

definition new_oracle_node :: "eth_call \<Rightarrow> int \<Rightarrow> string option" where
  "new_oracle_node c b =
     (let sel = take 10 (call_data c) in
      if sel = sel_getPriceOracle then Some (''0x'' @ abi_encode (if b < 9 then 2 else 4))
      else if sel = sel_getAssetsPrices
      then (if call_to c = ''0x0000000000000000000000000000000000000002'' then Some (abi_array [100])
            else if b < 9 then None else Some (abi_array [200]))
      else alternating_node c b)"

definition provider_log :: log_like where
  "provider_log = \<lparr>contract_address = ''0x0000000000000000000000000000000000000001'', log_event_name = Some ''PriceOracleUpdated'', decoded_args = None, decode_status = None\<rparr>"

definition went_on :: price_tracker where
  "went_on = snd (observe_prices (pure_node new_oracle_node) 8 [] (new_price_tracker one_market 100))"

definition steps_of :: "price_tracker \<Rightarrow> (string, string list) jsmap option" where
  "steps_of tr =
     (case fst (observe_prices (pure_node new_oracle_node) 9 [provider_log] tr) of
        Inl e \<Rightarrow> None | Inr obs \<Rightarrow> Some (obs_steps obs))"

text \<open>The tracker after the block before the change: the old oracle, with its price at that block.\<close>

lemma went_on_held:
  "map_of (trk_configs went_on) ''0xaa'' =
     Some \<lparr>cfg_key = ''core'', cfg_pool = ''0xaa'', cfg_provider = ''0x0000000000000000000000000000000000000001'',
       cfg_oracle = ''0x0000000000000000000000000000000000000002'',
       cfg_configurator = Some ''0x0000000000000000000000000000000000000003'', cfg_reserves = [reserve_7],
       cfg_reserveTokens = [\<lparr>rt_reserve = reserve_7, rt_tokens = [''0x0000000000000000000000000000000000000008'',
          ''0x000000000000000000000000000000000000000a'']\<rparr>], resolvedAt = 8\<rparr>"
  by code_simp

lemma fresh_worker_sees_no_step: "steps_of (new_price_tracker one_market 100) = Some []"
  by code_simp

lemma stale_previous_prices: "steps_of went_on = Some [(''0xaa'', [reserve_7])]"
  by code_simp

end
