(* ===== verification/Raw_Rows.thy ===== *)
theory Raw_Rows
  imports Evm_Hex
begin

text \<open>
  The rows several handlers write (\<^verbatim>\<open>src/raw/types.ts\<close>) and the JSON text of their columns
  (\<^verbatim>\<open>src/raw/json.ts\<close>).

  A column that holds JSON text is the value \<open>JSON.parse\<close> gives for it, and \<open>toJsonString\<close> is the value its text
  parses to: the replacer turns a \<open>bigint\<close> into its decimal text and an array of byte values into
  hexadecimal text, \<open>JSON.stringify\<close> leaves out undefined properties and writes \<open>null\<close> for an undefined item.
  Typed arrays, maps and sets of the JavaScript values are not JSON values of the model.
\<close>

record parser_warning =
  warn_block :: int
  warn_timestamp :: string
  warn_parser :: string
  warn_source_kind :: string
  warn_source_name :: string
  warn_source_index :: string
  warning_code :: string
  warning_text :: string
  warn_evidence :: json
  warn_ingest_source :: string

record call_row =
  cr_block :: int
  cr_timestamp :: string
  cr_extrinsic :: "int option"
  cr_address :: string
  cr_parent :: "string option"
  cr_name :: string
  cr_origin :: "json option"
  cr_args :: "json option"
  cr_success :: "int option"
  cr_error :: "json option"
  cr_ingest_source :: string

section \<open>JSON text\<close>

definition is_byte :: "json \<Rightarrow> bool" where
  "is_byte v = (case v of JNum n \<Rightarrow> 0 \<le> n \<and> n \<le> 255 | _ \<Rightarrow> False)"

definition isPlainBytesArray :: "json \<Rightarrow> bool" where
  "isPlainBytesArray v = (case v of JArr xs \<Rightarrow> xs \<noteq> [] \<and> list_all is_byte xs | _ \<Rightarrow> False)"

definition byte_hex :: "json \<Rightarrow> string" where
  "byte_hex v = (case v of JNum n \<Rightarrow> pad_start 2 (CHR ''0'') (nat_to_base 16 (nat n)) | _ \<Rightarrow> [])"

definition toHex :: "json \<Rightarrow> string" where
  "toHex v =
     (case v of JStr s \<Rightarrow> if starts_with ''0x'' s then s else ''0x'' @ s
      | JArr xs \<Rightarrow> ''0x'' @ concat (map byte_hex xs)
      | _ \<Rightarrow> ''0x'')"

fun toJsonString :: "json \<Rightarrow> json" where
  "toJsonString (JBig n) = JStr (int_to_string n)"
| "toJsonString (JArr xs) =
     (if isPlainBytesArray (JArr xs) then JStr (toHex (JArr xs)) else JArr (map toJsonString xs))"
| "toJsonString (JObj ps) =
     JObj (map (\<lambda>(k, v). (k, toJsonString v)) (filter (\<lambda>(k, v). v \<noteq> JUndefined) ps))"
| "toJsonString JUndefined = JNull"
| "toJsonString v = v"

text \<open>An address inside a signature: the text itself, bytes as hexadecimal, or the first of four properties that holds
  one.\<close>

lemma prop_smaller: "map_of ps k = Some v \<Longrightarrow> size v < Suc (size_list (size_prod f size) ps)"
  by (induction ps) (auto split: if_splits)

function extractAddressLike :: "json \<Rightarrow> string option" where
  "extractAddressLike (JStr s) = Some s"
| "extractAddressLike (JArr xs) = (if isPlainBytesArray (JArr xs) then Some (toHex (JArr xs)) else None)"
| "extractAddressLike (JObj ps) =
     (let nested = (\<lambda>key. case map_of ps key of None \<Rightarrow> None | Some v \<Rightarrow> extractAddressLike v);
          pick = (\<lambda>key rest. case nested key of None \<Rightarrow> rest | Some s \<Rightarrow> if s = [] then rest else Some s)
      in pick ''id'' (pick ''value'' (pick ''address'' (pick ''key'' None))))"
| "extractAddressLike JUndefined = None"
| "extractAddressLike JNull = None"
| "extractAddressLike (JBool b) = None"
| "extractAddressLike (JNum n) = None"
| "extractAddressLike (JBig n) = None"
  by pat_completeness auto
termination
  by (relation "measure size") (auto dest!: prop_smaller)

definition extractSigner :: "json \<Rightarrow> string option" where
  "extractSigner signature = extractAddressLike (get_prop signature ''address'')"

end
