(* ===== verification/Trigger_Phase.thy ===== *)
theory Trigger_Phase
  imports Oracle_Prices Raw_Rows
begin

text \<open>
  The money-market trigger phase of a block (\<^verbatim>\<open>src/raw/moneyMarketTriggerPhase.ts\<close>): observe the block's
  prices, fold its token logs into the holder index, plan the reads the price steps, the
  configuration changes and the cadence ask for, and run them.

  The position and collateral reads are arguments of the phase: a read gives its rows or throws
  (\<open>Inl\<close> of the message). The reads of a block run together under \<open>Promise.all\<close>; they are modelled in
  the order they are started, which is one of their completion orders: the rows are sorted
  afterwards, and only the order of the warnings depends on it. \<open>localeCompare\<close> is the argument
  \<open>collate\<close>. The columns of a position row the phase does not look at are one JSON value, and the
  two holder seeds, which are SQL queries, are not modelled.
\<close>

section \<open>Rows and options\<close>

record position_row = mm_position +
  observation_id :: string
  position_columns :: json

record collateral_flag =
  flag_user :: string
  flag_pool :: string
  flag_reserve :: string
  flag_block :: int
  flag_enabled :: bool
  observed_at :: string

record read_options =
  marketKeys :: "string list"
  tombstoneFor :: "string list"
  evidenceFor :: "string \<Rightarrow> string \<Rightarrow> trigger_evidence"
  warningSourceKind :: string

type_synonym read_positions =
  "string list \<Rightarrow> int \<Rightarrow> string \<Rightarrow> string \<Rightarrow> read_options \<Rightarrow> string + (position_row list \<times> parser_warning list)"

type_synonym read_collateral = "string list \<Rightarrow> int \<Rightarrow> string \<Rightarrow> string + (collateral_flag list \<times> string list)"

record trigger_options =
  opt_markets :: "mm_market list"
  opt_mode :: holder_index_mode
  opt_threshold :: int
  opt_cadence :: mm_cadence
  opt_ethCall :: eth_call_batch
  opt_readPositions :: read_positions
  opt_readCollateral :: read_collateral

record trigger_block =
  tb_height :: int
  tb_timestamp :: string
  tb_timestampMs :: "js_num option"
  tb_previousMs :: "js_num option"
  tb_ingestSource :: string

record trigger_stats =
  steppedReserves :: nat
  configPools :: nat
  cadencePools :: nat
  planned :: nat
  priceCalls :: nat
  stat_legs :: nat
  collateralReads :: nat

record trigger_result =
  res_positions :: "position_row list"
  res_warnings :: "parser_warning list"
  res_oraclePrices :: "oracle_price_row list"
  res_collateral :: "collateral_flag list"
  res_stats :: trigger_stats

text \<open>\<open>minutes\<close> of a variable: its text, and the whole number \<open>Number\<close> reads from the trimmed text
  (\<^const>\<open>None\<close> for any other number).\<close>

definition minutes_of :: "string \<Rightarrow> (string \<times> int option) option \<Rightarrow> int \<Rightarrow> string + int" where
  "minutes_of name variable fallback =
     (case variable of None \<Rightarrow> Inr fallback
      | Some (text, reading) \<Rightarrow>
          if js_trim text = [] then Inr fallback
          else
            (case reading of
               Some value \<Rightarrow>
                 if is_safe_integer value \<and> value \<ge> 0 then Inr value
                 else Inl (name @ '' must be a non-negative integer number of minutes'')
             | None \<Rightarrow> Inl (name @ '' must be a non-negative integer number of minutes'')))"

definition cadenceFromEnvironment ::
  "(string \<Rightarrow> (string \<times> int option) option) \<Rightarrow> string + mm_cadence" where
  "cadenceFromEnvironment env =
     (case minutes_of ''RAW_MM_CADENCE_MINUTES'' (env ''RAW_MM_CADENCE_MINUTES'') 60 of
        Inl e \<Rightarrow> Inl e
      | Inr a \<Rightarrow>
          (case minutes_of ''RAW_MM_GIGAHDX_CADENCE_MINUTES'' (env ''RAW_MM_GIGAHDX_CADENCE_MINUTES'') 5 of
             Inl e \<Rightarrow> Inl e
           | Inr g \<Rightarrow> Inr \<lparr>allMinutes = a, marketMinutes = [(''gigahdx'', g)]\<rparr>))"

definition collateralWarning :: "trigger_block \<Rightarrow> string \<Rightarrow> string \<Rightarrow> string \<Rightarrow> parser_warning" where
  "collateralWarning block pool user reason =
     \<lparr>warn_block = tb_height block, warn_timestamp = tb_timestamp block, warn_parser = ''raw_money_market'',
      warn_source_kind = ''collateral_snapshot'', warn_source_name = ''getUserConfiguration'',
      warn_source_index = pool @ '':'' @ user, warning_code = ''collateral_eth_call_failed'', warning_text = reason,
      warn_evidence = JObj [(''pool'', JStr pool), (''user_address'', JStr user)], warn_ingest_source = tb_ingestSource block\<rparr>"

definition oracleWarning :: "trigger_block \<Rightarrow> string \<Rightarrow> string \<Rightarrow> parser_warning" where
  "oracleWarning block pool reason =
     \<lparr>warn_block = tb_height block, warn_timestamp = tb_timestamp block, warn_parser = ''raw_money_market'',
      warn_source_kind = ''oracle'', warn_source_name = ''getAssetsPrices'', warn_source_index = pool,
      warning_code = ''oracle_price_read_failed'', warning_text = reason, warn_evidence = JObj [(''pool'', JStr pool)],
      warn_ingest_source = tb_ingestSource block\<rparr>"

section \<open>Collateral reads\<close>

type_synonym pool_users = "(string, string list) jsmap"

text \<open>\<open>indexOf(':')\<close> and the two slices around it; \<^const>\<open>None\<close> when the colon is missing or first.\<close>

definition split_key :: "string \<Rightarrow> (string \<times> string) option" where
  "split_key key =
     (let pool = takeWhile (\<lambda>c. c \<noteq> CHR '':'') key in
      if pool = [] \<or> pool = key then None else Some (pool, drop (length pool + 1) key))"

definition collateral_add :: "pool_users \<Rightarrow> string \<times> string \<Rightarrow> pool_users" where
  "collateral_add byPool pair =
     (let u = to_lower (snd pair); p = to_lower (fst pair) in
      if u = ZERO_ADDRESS then byPool
      else (case map_of byPool p of None \<Rightarrow> byPool | Some us \<Rightarrow> map_set p (set_add u us) byPool))"

definition pairs_of :: "pool_users \<Rightarrow> (string \<times> string) list" where
  "pairs_of m = concat (map (\<lambda>(pool, us). map (Pair pool) us) m)"

definition collateralReadPlan ::
  "string list \<Rightarrow> string list \<Rightarrow> pool_users \<Rightarrow> pool_users \<Rightarrow> pool_users" where
  "collateralReadPlan pools eventReads legHolders configReads =
     (let byPool0 = foldl (\<lambda>m p. map_set (to_lower p) [] m) [] pools;
          byPool1 = foldl (\<lambda>m key. case split_key key of None \<Rightarrow> m | Some pr \<Rightarrow> collateral_add m pr) byPool0 eventReads;
          byPool2 = foldl collateral_add byPool1 (pairs_of legHolders);
          byPool3 = foldl collateral_add byPool2 (pairs_of configReads)
      in map (\<lambda>(pool, us). (pool, sort us)) (filter (\<lambda>(pool, us). us \<noteq> []) byPool3))"

section \<open>The phase\<close>

record trigger_phase =
  phase_index :: holder_index
  phase_tracker :: price_tracker
  phase_pools :: "string list"
  keyByPool :: "(string, string) jsmap"
  foldedThrough :: int

definition new_phase :: "trigger_options \<Rightarrow> trigger_phase" where
  "new_phase opts =
     \<lparr>phase_index = new_index (opt_mode opts),
      phase_tracker = new_price_tracker (opt_markets opts) (opt_threshold opts),
      phase_pools = map (\<lambda>m. to_lower (market_pool m)) (opt_markets opts),
      keyByPool = foldl (\<lambda>k m. map_set (to_lower (market_pool m)) (market_key m) k) [] (opt_markets opts),
      foldedThrough = -1\<rparr>"

definition declare_resolved :: "price_observation \<Rightarrow> price_tracker \<Rightarrow> holder_index \<Rightarrow> holder_index" where
  "declare_resolved obs tr idx =
     foldl (\<lambda>i c. if cfg_pool c \<in> set (obs_resolved obs) then setMarket (cfg_pool c) (cfg_reserveTokens c) i else i)
       idx (map snd (trk_configs tr))"

definition observe_phase ::
  "trigger_options \<Rightarrow> trigger_block \<Rightarrow> log_like list \<Rightarrow> trigger_phase
    \<Rightarrow> (string + price_observation) \<times> trigger_phase" where
  "observe_phase opts block logs ph =
     (case observe_prices (opt_ethCall opts) (tb_height block) logs (phase_tracker ph) of
        (Inl e, tr) \<Rightarrow> (Inl e, ph\<lparr>phase_tracker := tr\<rparr>)
      | (Inr obs, tr) \<Rightarrow>
          (Inr obs, ph\<lparr>phase_tracker := tr, phase_index := declare_resolved obs tr (phase_index ph)\<rparr>))"

definition leg_holders :: "holder_index \<Rightarrow> log_like list \<Rightarrow> pool_users" where
  "leg_holders idx logs =
     foldl (\<lambda>m l. foldl (\<lambda>m' pool. map_set pool
                 (set_add (leg_holder l) (case map_of m' pool of None \<Rightarrow> [] | Some hs \<Rightarrow> hs)) m')
               m (poolsOfToken idx (leg_contract l)))
       [] (legs_of_logs logs)"

definition config_reads :: "read_plan \<Rightarrow> pool_users" where
  "config_reads plan =
     filter (\<lambda>(pool, us). us \<noteq> [])
       (map (\<lambda>(pool, reads). (pool, map fst (filter (\<lambda>(u, r). ConfigTrigger \<in> set (read_triggers r)) reads))) plan)"

fun read_collateral_plan ::
  "trigger_options \<Rightarrow> trigger_block \<Rightarrow> pool_users \<Rightarrow> collateral_flag list \<times> parser_warning list" where
  "read_collateral_plan opts block [] = ([], [])"
| "read_collateral_plan opts block ((pool, us) # rest) =
     (let (flags, warnings) = read_collateral_plan opts block rest in
      case opt_readCollateral opts us (tb_height block) pool of
        Inr (fs, failedUsers) \<Rightarrow>
          (fs @ flags, map (\<lambda>u. collateralWarning block pool u ''getUserConfiguration returned no word'') failedUsers @ warnings)
      | Inl reason \<Rightarrow> (flags, map (\<lambda>u. collateralWarning block pool u reason) us @ warnings))"

definition EMPTY_READ :: planned_read where
  "EMPTY_READ = \<lparr>read_triggers = [CadenceTrigger], read_reserves = []\<rparr>"

definition evidence_for :: "(string, planned_read) jsmap \<Rightarrow> string \<Rightarrow> string \<Rightarrow> trigger_evidence" where
  "evidence_for reads pool user =
     triggerEvidence (case map_of reads (to_lower user) of None \<Rightarrow> EMPTY_READ | Some r \<Rightarrow> r)"

text \<open>The position reads: their rows, their warnings and how many pairs were planned. A read that throws
  rejects the whole.\<close>

fun read_position_plan ::
  "trigger_options \<Rightarrow> trigger_block \<Rightarrow> string list \<Rightarrow> (string, string) jsmap \<Rightarrow> read_plan
    \<Rightarrow> string + (position_row list \<times> parser_warning list \<times> nat)" where
  "read_position_plan opts block opn keys [] = Inr ([], [], 0)"
| "read_position_plan opts block opn keys ((pool, reads) # rest) =
     (case map_of keys pool of
        None \<Rightarrow> read_position_plan opts block opn keys rest
      | Some key \<Rightarrow>
          if reads = [] then read_position_plan opts block opn keys rest
          else
            (case opt_readPositions opts (sort (map fst reads)) (tb_height block) (tb_timestamp block) (tb_ingestSource block)
                    \<lparr>marketKeys = [key], tombstoneFor = opn, evidenceFor = evidence_for reads, warningSourceKind = ''trigger_snapshot''\<rparr> of
               Inl e \<Rightarrow> Inl e
             | Inr (ps, ws) \<Rightarrow>
                 map_sum id (\<lambda>(ps', ws', n). (ps @ ps', ws @ ws', length reads + n))
                   (read_position_plan opts block opn keys rest)))"

definition cohort_of :: "holder_index \<Rightarrow> int \<Rightarrow> string list \<Rightarrow> string \<Rightarrow> string list" where
  "cohort_of idx height opn pool = js_unique (openHoldersOfPool opn pool @ holdersOfMarket idx pool height)"

record run_context =
  ctx_alreadyRead :: "string list"
  ctx_eventReads :: "string list"
  ctx_openPositions :: "string list"

definition observed_steps :: "string + price_observation \<Rightarrow> (string, string list) jsmap" where
  "observed_steps observation = (case observation of Inl _ \<Rightarrow> [] | Inr obs \<Rightarrow> obs_steps obs)"

definition observed_config :: "string + price_observation \<Rightarrow> string list" where
  "observed_config observation = (case observation of Inl _ \<Rightarrow> [] | Inr obs \<Rightarrow> obs_configChanged obs)"

definition observed_warnings ::
  "trigger_block \<Rightarrow> string list \<Rightarrow> string + price_observation \<Rightarrow> parser_warning list" where
  "observed_warnings block pools observation =
     (case observation of
        Inl e \<Rightarrow> map (\<lambda>pool. oracleWarning block pool e) pools
      | Inr obs \<Rightarrow> map (\<lambda>(pool, reason). oracleWarning block pool reason) (obs_failed obs))"

definition fold_logs :: "trigger_block \<Rightarrow> log_like list \<Rightarrow> trigger_phase \<Rightarrow> nat \<times> trigger_phase" where
  "fold_logs block logs ph =
     (let (n, idx) = (if tb_height block > foldedThrough ph then apply_logs logs (tb_height block) (phase_index ph)
                      else (0, phase_index ph))
      in (n, ph\<lparr>phase_index := idx, foldedThrough := max (foldedThrough ph) (tb_height block)\<rparr>))"

definition due_markets :: "trigger_options \<Rightarrow> trigger_block \<Rightarrow> string list" where
  "due_markets opts block =
     cadenceDueMarkets (tb_previousMs block) (tb_timestampMs block) (opt_markets opts) (opt_cadence opts) crossedChainTimeBoundary"

definition plan_of_block ::
  "trigger_options \<Rightarrow> trigger_block \<Rightarrow> string + price_observation \<Rightarrow> run_context \<Rightarrow> trigger_phase \<Rightarrow> read_plan" where
  "plan_of_block opts block observation context ph =
     planTriggerReads
       \<lparr>in_pools = phase_pools ph, configChanged = observed_config observation, in_steps = observed_steps observation,
        cadenceDue = due_markets opts block,
        holders_of_reserve = (\<lambda>pool reserve. holdersOfReserve (phase_index ph) pool reserve (tb_height block)),
        holders_of_market = (\<lambda>pool. holdersOfMarket (phase_index ph) pool (tb_height block)),
        cadenceCohort = cohort_of (phase_index ph) (tb_height block) (ctx_openPositions context),
        alreadyRead = ctx_alreadyRead context\<rparr>"

definition collateral_plan_of_block ::
  "trigger_options \<Rightarrow> trigger_block \<Rightarrow> log_like list \<Rightarrow> run_context \<Rightarrow> read_plan \<Rightarrow> trigger_phase \<Rightarrow> pool_users" where
  "collateral_plan_of_block opts block logs context plan ph =
     collateralReadPlan (phase_pools ph) (ctx_eventReads context) (leg_holders (phase_index ph) logs) (config_reads plan)"

definition prices_of_block ::
  "trigger_options \<Rightarrow> trigger_block \<Rightarrow> string + price_observation \<Rightarrow> trigger_phase \<Rightarrow> oracle_price_row list" where
  "prices_of_block opts block observation ph =
     (case observation of Inl _ \<Rightarrow> []
      | Inr obs \<Rightarrow>
          (let allCadence = allMinutes (opt_cadence opts) > 0
                 \<and> crossedChainTimeBoundary (tb_previousMs block) (tb_timestampMs block) (allMinutes (opt_cadence opts) * 60000);
               baseline = js_unique (obs_resolved obs @ (if allCadence then phase_pools ph else []))
           in oraclePriceRows (tb_height block) (tb_timestamp block) (map snd (trk_configs (phase_tracker ph)))
                (obs_previous obs) (obs_prices obs) baseline))"

text \<open>The sort of the collateral rows: by pool, user and reserve.\<close>

definition cmp_flag :: "(string \<Rightarrow> string \<Rightarrow> int) \<Rightarrow> collateral_flag \<Rightarrow> collateral_flag \<Rightarrow> int" where
  "cmp_flag collate =
     cmp_or (\<lambda>a b. collate (flag_pool a) (flag_pool b))
       (cmp_or (\<lambda>a b. collate (flag_user a) (flag_user b)) (\<lambda>a b. collate (flag_reserve a) (flag_reserve b)))"

definition run_phase ::
  "(string \<Rightarrow> string \<Rightarrow> int) \<Rightarrow> trigger_options \<Rightarrow> trigger_block \<Rightarrow> log_like list \<Rightarrow> string + price_observation
    \<Rightarrow> run_context \<Rightarrow> trigger_phase \<Rightarrow> (string + trigger_result) \<times> trigger_phase" where
  "run_phase collate opts block logs observation context ph0 =
     (let (n, ph) = fold_logs block logs ph0;
          plan = plan_of_block opts block observation context ph;
          collateralPlan = collateral_plan_of_block opts block logs context plan ph;
          (flags, collateral_warnings) = read_collateral_plan opts block collateralPlan
      in case read_position_plan opts block (ctx_openPositions context) (keyByPool ph) plan of
           Inl e \<Rightarrow> (Inl e, ph)
         | Inr (ps, ws, reads) \<Rightarrow>
             (Inr \<lparr>res_positions = sort_cmp (\<lambda>a b. collate (observation_id a) (observation_id b)) ps,
                   res_warnings = observed_warnings block (phase_pools ph) observation @ collateral_warnings @ ws,
                   res_oraclePrices = prices_of_block opts block observation ph,
                   res_collateral = sort_cmp (cmp_flag collate) flags,
                   res_stats = \<lparr>steppedReserves = sum_list (map (\<lambda>(p, rs). length rs) (observed_steps observation)),
                     configPools = length (observed_config observation), cadencePools = length (due_markets opts block),
                     planned = reads, priceCalls = (case observation of Inl _ \<Rightarrow> 0 | Inr obs \<Rightarrow> obs_calls obs),
                     stat_legs = n, collateralReads = sum_list (map (\<lambda>(p, us). length us) collateralPlan)\<rparr>\<rparr>,
              ph))"

definition readPairs :: "(string \<times> string) list \<Rightarrow> string list \<Rightarrow> string list" where
  "readPairs rows into =
     foldl (\<lambda>acc (pool, user). if user = [] then acc else set_add (openPositionKey pool user) acc) into rows"

section \<open>Every block is folded once\<close>

lemma snd_run_phase [simp]:
  "snd (run_phase collate opts block logs observation context ph) = snd (fold_logs block logs ph)"
  by (simp add: run_phase_def Let_def split: prod.split sum.split)

text \<open>One delivery of a block: observed, then run.\<close>

record delivery =
  del_block :: trigger_block
  del_context :: run_context

definition work_block ::
  "(string \<Rightarrow> string \<Rightarrow> int) \<Rightarrow> trigger_options \<Rightarrow> (int \<Rightarrow> log_like list) \<Rightarrow> trigger_phase \<Rightarrow> delivery \<Rightarrow> trigger_phase" where
  "work_block collate opts logs_at ph d =
     (let logs = logs_at (tb_height (del_block d));
          (observation, ph1) = observe_phase opts (del_block d) logs ph
      in snd (run_phase collate opts (del_block d) logs observation (del_context d) ph1))"

text \<open>The deliveries of a stream: each block is the next new one, or one delivered before.\<close>

fun in_order :: "int \<Rightarrow> int list \<Rightarrow> bool" where
  "in_order nxt [] = True"
| "in_order nxt (h # hs) \<longleftrightarrow> h \<le> nxt \<and> in_order (max nxt (h + 1)) hs"

definition same_holdings :: "holder_index \<Rightarrow> holder_index \<Rightarrow> bool" where
  "same_holdings i j \<longleftrightarrow> i\<lparr>markets := []\<rparr> = j\<lparr>markets := []\<rparr>"

lemma same_holdings_refl [simp]: "same_holdings i i"
  by (simp add: same_holdings_def)

lemma same_holdings_trans: "same_holdings i j \<Longrightarrow> same_holdings j k \<Longrightarrow> same_holdings i k"
  by (simp add: same_holdings_def)

lemma same_holdings_fields:
  "same_holdings i j \<Longrightarrow> index_mode i = index_mode j \<and> balances i = balances j \<and> firstSeen i = firstSeen j
     \<and> negativeBalances i = negativeBalances j"
  by (cases i; cases j) (simp add: same_holdings_def)

lemma same_holdings_markets: "same_holdings (i\<lparr>markets := m\<rparr>) i"
  by (simp add: same_holdings_def)

lemma apply_leg_markets: "(apply_leg b l i)\<lparr>markets := m\<rparr> = apply_leg b l (i\<lparr>markets := m\<rparr>)"
  by (simp add: apply_leg_def addBalance_def markSeen_def Let_def)

lemma apply_logs_markets:
  "(snd (apply_logs logs b i))\<lparr>markets := m\<rparr> = snd (apply_logs logs b (i\<lparr>markets := m\<rparr>))"
proof -
  have "(foldl (\<lambda>i l. apply_leg b l i) i ls)\<lparr>markets := m\<rparr> = foldl (\<lambda>i l. apply_leg b l i) (i\<lparr>markets := m\<rparr>) ls" for ls
    by (induction ls arbitrary: i) (simp_all add: apply_leg_markets)
  then show ?thesis by (simp add: apply_logs_def)
qed

lemma same_holdings_apply:
  "same_holdings i j \<Longrightarrow> same_holdings (snd (apply_logs logs b i)) (snd (apply_logs logs b j))"
  unfolding same_holdings_def by (metis apply_logs_markets)

lemma declare_resolved_holdings: "same_holdings (declare_resolved obs tr i) i"
proof -
  have "same_holdings (foldl (\<lambda>i c. if P c then setMarket (f c) (g c) i else i) i cs) i" for P f g and cs :: "market_oracle_config list"
  proof (induction cs arbitrary: i)
    case (Cons c cs)
    have "same_holdings (setMarket (f c) (g c) i) i" by (simp add: setMarket_def Let_def same_holdings_markets)
    with Cons [of "setMarket (f c) (g c) i"] Cons [of i] show ?case by (auto intro: same_holdings_trans)
  qed simp
  then show ?thesis by (simp add: declare_resolved_def)
qed

lemma observe_phase_kept:
  "same_holdings (phase_index (snd (observe_phase opts block logs ph))) (phase_index ph)
   \<and> foldedThrough (snd (observe_phase opts block logs ph)) = foldedThrough ph"
  by (simp add: observe_phase_def declare_resolved_holdings split: prod.split sum.split)

lemma work_block_old:
  assumes "tb_height (del_block d) \<le> foldedThrough ph"
  shows "same_holdings (phase_index (work_block collate opts logs_at ph d)) (phase_index ph)
     \<and> foldedThrough (work_block collate opts logs_at ph d) = foldedThrough ph"
  using assms observe_phase_kept [of opts "del_block d" "logs_at (tb_height (del_block d))" ph]
  by (auto simp: work_block_def fold_logs_def Let_def split: prod.split)

lemma work_block_new:
  assumes "foldedThrough ph < tb_height (del_block d)"
  shows "same_holdings (phase_index (work_block collate opts logs_at ph d))
       (run_blocks [(tb_height (del_block d), logs_at (tb_height (del_block d)))] (phase_index ph))
     \<and> foldedThrough (work_block collate opts logs_at ph d) = tb_height (del_block d)"
  using assms observe_phase_kept [of opts "del_block d" "logs_at (tb_height (del_block d))" ph]
  by (auto simp: work_block_def fold_logs_def Let_def split_beta intro: same_holdings_apply)

lemma run_blocks_append: "run_blocks (xs @ ys) i = run_blocks ys (run_blocks xs i)"
  by (simp add: run_blocks_def)

lemma same_holdings_run: "same_holdings i j \<Longrightarrow> same_holdings (run_blocks bs i) (run_blocks bs j)"
  by (induction bs arbitrary: i j) (auto simp: same_holdings_apply)

definition blocks_between :: "(int \<Rightarrow> log_like list) \<Rightarrow> int \<Rightarrow> int \<Rightarrow> (int \<times> log_like list) list" where
  "blocks_between logs_at f t = map (\<lambda>h. (h, logs_at h)) [f..t]"

lemma deliveries_fold:
  assumes "foldedThrough ph = nxt - 1" and "f \<le> nxt" and "in_order nxt (map (tb_height \<circ> del_block) ds)"
    and "same_holdings (phase_index ph) (run_blocks (blocks_between logs_at f (nxt - 1)) i)"
  shows "\<exists>m. foldedThrough (foldl (work_block collate opts logs_at) ph ds) = m
     \<and> m = fold max (map (tb_height \<circ> del_block) ds) (nxt - 1)
     \<and> same_holdings (phase_index (foldl (work_block collate opts logs_at) ph ds))
         (run_blocks (blocks_between logs_at f m) i)"
  using assms
proof (induction ds arbitrary: ph nxt)
  case (Cons d ds)
  let ?h = "tb_height (del_block d)"
  let ?ph = "work_block collate opts logs_at ph d"
  show ?case
  proof (cases "?h < nxt")
    case True
    then have kept: "same_holdings (phase_index ?ph) (phase_index ph)" "foldedThrough ?ph = nxt - 1"
      using work_block_old [of d ph collate opts logs_at] Cons.prems(1) by auto
    have "max nxt (?h + 1) = nxt" using True by simp
    then have "in_order nxt (map (tb_height \<circ> del_block) ds)" using Cons.prems(3) by (simp add: o_def)
    moreover have "max ?h (nxt - 1) = nxt - 1" using True by simp
    ultimately show ?thesis
      using Cons.IH [OF kept(2) Cons.prems(2) _ same_holdings_trans [OF kept(1) Cons.prems(4)]] by (auto simp: o_def)
  next
    case False
    then have h: "?h = nxt" using Cons.prems(3) by simp
    from False have new: "same_holdings (phase_index ?ph) (run_blocks [(nxt, logs_at nxt)] (phase_index ph))"
      "foldedThrough ?ph = nxt"
      using work_block_new [of ph d collate opts logs_at] Cons.prems(1) h by auto
    have "blocks_between logs_at f nxt = blocks_between logs_at f (nxt - 1) @ [(nxt, logs_at nxt)]"
      using Cons.prems(2) by (simp add: blocks_between_def upto_rec2)
    then have "same_holdings (phase_index ?ph) (run_blocks (blocks_between logs_at f nxt) i)"
      using new(1) same_holdings_run [OF Cons.prems(4), of "[(nxt, logs_at nxt)]"]
      by (auto simp: run_blocks_append intro: same_holdings_trans)
    moreover have "max ?h (nxt - 1) = nxt" "max nxt (?h + 1) = nxt + 1" using h by simp_all
    ultimately show ?thesis using Cons.IH [of ?ph "nxt + 1"] new(2) Cons.prems(2,3) by (auto simp: o_def)
  qed
qed simp

text \<open>A block delivered again is not folded again. Whatever blocks the stream delivers twice, and in whatever
  order after their first delivery, the balances and first sightings the index holds are those of
  folding each block's logs once, in height order, from the first block to the highest.\<close>

lemma redelivery_folds_once:
  assumes "foldedThrough ph < tb_height (del_block d)"
    and "in_order (tb_height (del_block d) + 1) (map (tb_height \<circ> del_block) ds)"
  shows "same_holdings (phase_index (foldl (work_block collate opts logs_at) ph (d # ds)))
    (run_blocks (blocks_between logs_at (tb_height (del_block d)) (Max (set (map (tb_height \<circ> del_block) (d # ds)))))
       (phase_index ph))"
proof -
  let ?h = "tb_height (del_block d)"
  let ?ph = "work_block collate opts logs_at ph d"
  have new: "same_holdings (phase_index ?ph) (run_blocks (blocks_between logs_at ?h ?h) (phase_index ph))"
    "foldedThrough ?ph = ?h"
    using work_block_new [OF assms(1)] by (simp_all add: blocks_between_def)
  from deliveries_fold [of ?ph "?h + 1" ?h ds logs_at "phase_index ph" collate opts] new assms(2)
  show ?thesis unfolding list.map Max.set_eq_fold by (auto simp: o_def)
qed

section \<open>Whose collateral is read\<close>

definition collateral_named :: "string list \<Rightarrow> pool_users \<Rightarrow> pool_users \<Rightarrow> (string \<times> string) list" where
  "collateral_named eventReads legHolders configReads =
     List.map_filter split_key eventReads @ pairs_of legHolders @ pairs_of configReads"

definition users_of :: "pool_users \<Rightarrow> string \<Rightarrow> string list" where
  "users_of m pool = (case map_of m pool of None \<Rightarrow> [] | Some us \<Rightarrow> us)"

lemma users_of_set [simp]: "users_of (map_set p us m) q = (if q = p then us else users_of m q)"
  by (simp add: users_of_def)

lemma collateral_add_has:
  "map_has (collateral_add m pr) p = map_has m p"
  "u \<in> set (users_of (collateral_add m pr) p) \<longleftrightarrow> u \<in> set (users_of m p)
     \<or> map_has m p \<and> u \<noteq> ZERO_ADDRESS \<and> p = to_lower (fst pr) \<and> u = to_lower (snd pr)"
  "map_wf m \<Longrightarrow> map_wf (collateral_add m pr)"
  by (auto simp: collateral_add_def Let_def map_has_iff users_of_def split: option.splits)

definition lower_pair :: "string \<times> string \<Rightarrow> string \<times> string" where
  "lower_pair pr = (to_lower (fst pr), to_lower (snd pr))"

lemma collateral_adds_has:
  "map_has (foldl collateral_add m prs) p = map_has m p"
  "u \<in> set (users_of (foldl collateral_add m prs) p) \<longleftrightarrow> u \<in> set (users_of m p)
     \<or> map_has m p \<and> u \<noteq> ZERO_ADDRESS \<and> (p, u) \<in> lower_pair ` set prs"
  "map_wf m \<Longrightarrow> map_wf (foldl collateral_add m prs)"
  by (induction prs arbitrary: m) (auto simp: collateral_add_has lower_pair_def)

lemma foldl_map_filter:
  "foldl (\<lambda>m k. case f k of None \<Rightarrow> m | Some x \<Rightarrow> g m x) m ks = foldl g m (List.map_filter f ks)"
  by (induction ks arbitrary: m) (auto simp: List.map_filter_simps split: option.split)

lemma empty_pools:
  "map_has (foldl (\<lambda>m p. map_set (to_lower p) [] m) m pools) q \<longleftrightarrow> map_has m q \<or> q \<in> to_lower ` set pools"
  "map_wf m \<Longrightarrow> map_wf (foldl (\<lambda>m p. map_set (to_lower p) [] m) m pools)"
  "\<forall>q. users_of m q = [] \<Longrightarrow> users_of (foldl (\<lambda>m p. map_set (to_lower p) [] m) m pools) q = []"
  by (induction pools arbitrary: m) auto

lemma sort_Nil_iff: "sort xs = [] \<longleftrightarrow> xs = []" for xs :: "'a :: linorder list"
  by (metis set_empty set_sort)

lemma map_of_sorted_users:
  "map_wf m \<Longrightarrow> map_of (map (\<lambda>(pool, us). (pool, sort us)) (filter (\<lambda>(pool, us). us \<noteq> []) m)) p =
     (case map_of m p of None \<Rightarrow> None | Some us \<Rightarrow> if us = [] then None else Some (sort us))"
proof (induction m)
  case (Cons e m)
  obtain q us where e: "e = (q, us)" by (cases e)
  have "map_of m q = None" using Cons.prems e by (simp add: map_of_eq_None_iff)
  moreover have "map_wf m" using Cons.prems by simp
  ultimately show ?case using Cons.IH e by (cases "p = q") (simp_all del: map_of_eq_Some_iff)
qed simp

text \<open>The collateral reads of a block are exactly those named: a user is read in a pool if and only if the
  pool is one of the markets, the user is not the zero address, and the block's event-driven reads,
  the holders of its reserve-token legs or its configuration reads name the pair; no pool is planned
  without a user, and the users of a pool are sorted.\<close>

lemma collateral_plan_exact:
  "(user \<in> set (users_of (collateralReadPlan pools eventReads legHolders configReads) pool) \<longleftrightarrow>
      pool \<in> to_lower ` set pools \<and> user \<noteq> ZERO_ADDRESS
      \<and> (pool, user) \<in> lower_pair ` set (collateral_named eventReads legHolders configReads))
   \<and> map_of (collateralReadPlan pools eventReads legHolders configReads) pool \<noteq> Some []
   \<and> sorted (users_of (collateralReadPlan pools eventReads legHolders configReads) pool)"
proof -
  define m where "m = foldl collateral_add (foldl (\<lambda>m p. map_set (to_lower p) [] m) [] pools)
    (collateral_named eventReads legHolders configReads)"
  have wf: "map_wf m" unfolding m_def by (simp add: collateral_adds_has(3) empty_pools(2))
  have plan: "collateralReadPlan pools eventReads legHolders configReads =
      map (\<lambda>(pool, us). (pool, sort us)) (filter (\<lambda>(pool, us). us \<noteq> []) m)"
    by (simp add: collateralReadPlan_def m_def collateral_named_def foldl_map_filter Let_def)
  have "user \<in> set (users_of m pool) \<longleftrightarrow> pool \<in> to_lower ` set pools \<and> user \<noteq> ZERO_ADDRESS
      \<and> (pool, user) \<in> lower_pair ` set (collateral_named eventReads legHolders configReads)"
    unfolding m_def collateral_adds_has(2) empty_pools(1) using empty_pools(3) [of "[]"] by (simp add: users_of_def [of "[]"])
  then show ?thesis unfolding plan
    by (auto simp: users_of_def map_of_sorted_users [OF wf] sort_Nil_iff simp del: map_of_eq_Some_iff split: option.split)
qed

section \<open>A price step reads the holders of its reserve\<close>

text \<open>The phases of a worker whose observations have all succeeded, from an index seeded before its first
  block.\<close>

inductive healthy :: "trigger_options \<Rightarrow> trigger_phase \<Rightarrow> bool" for opts where
  seeded: "markets idx = [] \<Longrightarrow> healthy opts ((new_phase opts)\<lparr>phase_index := idx\<rparr>)"
| observed: "healthy opts ph \<Longrightarrow> observe_phase opts block logs ph = (Inr obs, ph') \<Longrightarrow> healthy opts ph'"
| run: "healthy opts ph \<Longrightarrow> healthy opts (snd (run_phase collate opts block logs observation context ph))"

definition market_tokens :: "reserve_tokens list \<Rightarrow> (string, string list) jsmap" where
  "market_tokens rs = foldl (\<lambda>m r. map_set (to_lower (rt_reserve r))
      (filter (\<lambda>t. t \<noteq> [] \<and> t \<noteq> ZERO_ADDRESS) (map to_lower (rt_tokens r))) m) [] rs"

lemma setMarket_markets: "markets (setMarket p rs i) = map_set (to_lower p) (market_tokens rs) (markets i)"
  by (simp add: setMarket_def market_tokens_def Let_def)

definition declared :: "trigger_phase \<Rightarrow> bool" where
  "declared ph \<longleftrightarrow> configs_ok (trk_configs (phase_tracker ph)) \<and>
     (\<forall>p c. map_of (trk_configs (phase_tracker ph)) p = Some c \<longrightarrow>
        to_lower p = p \<and> map_of (markets (phase_index ph)) p = Some (market_tokens (cfg_reserveTokens c)))"

lemma observe_prices_resolved:
  assumes "observe_prices call b logs tr = (Inr obs, tr')"
  shows "\<exists>rs fs tr1. resolve_markets call b (configLogPools tr logs) tr = ((rs, fs), tr1)
     \<and> trk_configs tr' = trk_configs tr1 \<and> set (obs_resolved obs) = set rs"
  using assms by (auto simp: observe_prices_def Let_def split: prod.splits sum.splits if_splits)

lemma resolve_loop_lower:
  assumes "resolve_loop call b want ms tr rs fs = ((rs', fs'), tr')"
    and "\<forall>p \<in> fst ` set (trk_configs tr). to_lower p = p"
  shows "\<forall>p \<in> fst ` set (trk_configs tr'). to_lower p = p"
  using assms
proof (induction ms arbitrary: tr rs fs)
  case (Cons m ms)
  obtain r n where r: "resolveMarketOracleConfig m b call = (r, n)" by force
  show ?case
  proof (cases "map_has (trk_configs tr) (to_lower (market_pool m)) \<and> to_lower (market_pool m) \<notin> set want")
    case True
    with Cons show ?thesis by simp
  next
    case False
    show ?thesis
    proof (cases r)
      case (Inl e)
      have "resolve_loop call b want ms (tr\<lparr>trk_calls := trk_calls tr + n\<rparr>) rs
          (map_set (to_lower (market_pool m)) e fs) = ((rs', fs'), tr')"
        using Cons.prems(1) False r Inl by (simp add: Let_def)
      from Cons.IH [OF this] Cons.prems(2) show ?thesis by simp
    next
      case (Inr c)
      let ?tr = "tr\<lparr>trk_calls := trk_calls tr + n, trk_configs := map_set (to_lower (market_pool m)) c (trk_configs tr)\<rparr>"
      have "\<forall>p \<in> fst ` set (trk_configs ?tr). to_lower p = p" using Cons.prems(2) by simp
      moreover have "resolve_loop call b want ms ?tr (rs @ [to_lower (market_pool m)]) fs = ((rs', fs'), tr')"
        using Cons.prems(1) False r Inr by (simp add: Let_def)
      ultimately show ?thesis using Cons.IH by blast
    qed
  qed
qed simp

lemma declare_resolved_markets:
  assumes "configs_ok m" and "\<forall>p \<in> fst ` set m. to_lower p = p"
  shows "map_of (markets (foldl (\<lambda>i c. if cfg_pool c \<in> R then setMarket (cfg_pool c) (cfg_reserveTokens c) i else i) idx (map snd m))) p =
    (case map_of m p of None \<Rightarrow> map_of (markets idx) p
     | Some c \<Rightarrow> if p \<in> R then Some (market_tokens (cfg_reserveTokens c)) else map_of (markets idx) p)"
  using assms
proof (induction m arbitrary: idx)
  case (Cons e m)
  obtain q c where e: "e = (q, c)" by (cases e)
  have q: "cfg_pool c = q" "to_lower q = q" "map_of m q = None" "configs_ok m"
    using Cons.prems e by (auto simp: configs_ok_def map_of_eq_None_iff)
  have "\<forall>p \<in> fst ` set m. to_lower p = p" using Cons.prems(2) by simp
  note IH = Cons.IH [OF q(4) this]
  show ?case using q IH e by (cases "p = q"; cases "q \<in> R") (simp_all add: setMarket_markets del: map_of_eq_Some_iff split: option.split)
qed simp

lemma declared_observe:
  assumes "declared ph" and "observe_phase opts block logs ph = (Inr obs, ph')"
  shows "declared ph'"
proof -
  let ?tr = "phase_tracker ph"
  obtain tr' where tr': "observe_prices (opt_ethCall opts) (tb_height block) logs ?tr = (Inr obs, tr')"
    "ph' = ph\<lparr>phase_tracker := tr', phase_index := declare_resolved obs tr' (phase_index ph)\<rparr>"
    using assms(2) by (auto simp: observe_phase_def split: prod.splits sum.splits)
  from observe_prices_resolved [OF tr'(1)] obtain rs fs tr1 where
    res: "resolve_markets (opt_ethCall opts) (tb_height block) (configLogPools ?tr logs) ?tr = ((rs, fs), tr1)"
    "trk_configs tr' = trk_configs tr1" "set (obs_resolved obs) = set rs" by blast
  have ok: "configs_ok (trk_configs ?tr)" using assms(1) by (simp add: declared_def)
  have low: "\<forall>p \<in> fst ` set (trk_configs ?tr). to_lower p = p"
    using assms(1) ok unfolding declared_def by (metis map_of_eq_None_iff option.exhaust)
  note kept = resolve_loop_ok [OF res(1) [unfolded resolve_markets_def] ok]
  have low1: "\<forall>p \<in> fst ` set (trk_configs tr1). to_lower p = p"
    using resolve_loop_lower [OF res(1) [unfolded resolve_markets_def] low] .
  have "map_of (markets (phase_index ph')) p = Some (market_tokens (cfg_reserveTokens c)) \<and> to_lower p = p"
    if c: "map_of (trk_configs tr1) p = Some c" for p c
  proof -
    have "p \<in> fst ` set (trk_configs tr1)" using c by (metis map_of_eq_None_iff option.distinct(1))
    moreover have "map_of (markets (phase_index ph')) p = Some (market_tokens (cfg_reserveTokens c))"
    proof (cases "p \<in> set rs")
      case True
      with c show ?thesis unfolding tr'(2) declare_resolved_def res(2,3)
        using declare_resolved_markets [OF _ low1] kept by (simp del: map_of_eq_Some_iff map_map)
    next
      case False
      with kept c have "map_of (trk_configs ?tr) p = Some c" by simp
      with assms(1) have "map_of (markets (phase_index ph)) p = Some (market_tokens (cfg_reserveTokens c))"
        by (simp add: declared_def del: map_of_eq_Some_iff)
      with c False show ?thesis unfolding tr'(2) declare_resolved_def res(2,3)
        using declare_resolved_markets [OF _ low1] kept by (simp del: map_of_eq_Some_iff map_map)
    qed
    ultimately show ?thesis using low1 by blast
  qed
  moreover have "phase_tracker ph' = tr'" using tr'(2) by simp
  ultimately show ?thesis using kept res(2) by (simp add: declared_def del: map_of_eq_Some_iff)
qed

lemma healthy_declared: "healthy opts ph \<Longrightarrow> declared ph"
proof (induction rule: healthy.induct)
  case (seeded idx)
  then show ?case by (simp add: declared_def new_phase_def new_price_tracker_def)
next
  case (observed ph block logs obs ph')
  then show ?case using declared_observe by blast
next
  case (run ph collate block logs observation ctx)
  then show ?case by (simp add: declared_def fold_logs_def Let_def split_beta)
qed

text \<open>Whom the index knows as a holder of a token at a block: a positive balance, or a first sighting by then.\<close>

definition holds_at :: "int \<Rightarrow> holder_index \<Rightarrow> string \<Rightarrow> string \<Rightarrow> bool" where
  "holds_at b idx token holder \<longleftrightarrow>
     (if index_mode idx = Exact then 0 < held idx token holder else seen_by b idx token holder)"

lemma holds_at_collected:
  "holds_at b idx token holder \<Longrightarrow> token \<in> set tokens \<Longrightarrow> holder \<in> set (holders_of_tokens idx tokens b)"
  by (fastforce simp: holds_at_def held_def seen_by_def set_holders_of_tokens simp del: map_of_eq_Some_iff
      split: if_splits option.splits dest: map_of_SomeD)

lemma market_tokens_get:
  "distinct (map (to_lower \<circ> rt_reserve) rs) \<Longrightarrow> rt \<in> set rs \<Longrightarrow>
     map_of (market_tokens rs) (to_lower (rt_reserve rt)) =
       Some (filter (\<lambda>t. t \<noteq> [] \<and> t \<noteq> ZERO_ADDRESS) (map to_lower (rt_tokens rt)))"
proof (induction rs rule: rev_induct)
  case (snoc r rs)
  have "r = rt \<or> rt \<in> set rs \<and> to_lower (rt_reserve r) \<noteq> to_lower (rt_reserve rt)"
    using snoc.prems by auto
  moreover have "distinct (map (to_lower \<circ> rt_reserve) rs)" using snoc.prems(1) by (simp add: o_def)
  ultimately show ?case using snoc.IH by (auto simp: market_tokens_def o_def)
qed simp

text \<open>A token of a reserve that the configuration of a market names.\<close>

definition token_of_reserve :: "market_oracle_config \<Rightarrow> string \<Rightarrow> string \<Rightarrow> bool" where
  "token_of_reserve c reserve token \<longleftrightarrow>
     distinct (map (to_lower \<circ> rt_reserve) (cfg_reserveTokens c)) \<and> token \<noteq> [] \<and> token \<noteq> ZERO_ADDRESS \<and>
     (\<exists>rt \<in> set (cfg_reserveTokens c). to_lower (rt_reserve rt) = to_lower reserve \<and> token \<in> to_lower ` set (rt_tokens rt))"

lemma stepped_holders_planned:
  assumes "healthy opts ph0" and "observe_phase opts block logs ph0 = (Inr obs, ph1)"
    and "map_of (trk_configs (phase_tracker ph1)) pool = Some c" and "pool \<in> set (phase_pools ph1)"
    and "map_of (obs_steps obs) pool = Some rs" and "reserve \<in> set rs"
    and "token_of_reserve c reserve token"
    and "holds_at (tb_height block) (phase_index (snd (fold_logs block logs ph1))) token holder"
    and "openPositionKey pool (to_lower holder) \<notin> set (ctx_alreadyRead ctx)"
  shows "plan_has (plan_of_block opts block (Inr obs) ctx (snd (fold_logs block logs ph1))) pool
    (to_lower holder) PriceStepTrigger"
proof -
  let ?ph = "snd (fold_logs block logs ph1)"
  have "declared ph1" using assms(1,2) healthy_declared healthy.observed by blast
  then have low: "to_lower pool = pool" and
    market: "map_of (markets (phase_index ph1)) pool = Some (market_tokens (cfg_reserveTokens c))"
    using assms(3) by (auto simp: declared_def)
  have kept: "markets (phase_index ?ph) = markets (phase_index ph1)" "phase_pools ?ph = phase_pools ph1"
    by (simp_all add: fold_logs_def Let_def split_beta)
  obtain rt where rt: "rt \<in> set (cfg_reserveTokens c)" "to_lower (rt_reserve rt) = to_lower reserve"
    "token \<in> to_lower ` set (rt_tokens rt)" "token \<noteq> []" "token \<noteq> ZERO_ADDRESS"
    "distinct (map (to_lower \<circ> rt_reserve) (cfg_reserveTokens c))"
    using assms(7) by (auto simp: token_of_reserve_def)
  have "holder \<in> set (holdersOfReserve (phase_index ?ph) pool reserve (tb_height block))"
    unfolding holdersOfReserve_def inner_map_def kept(1) low market
    using holds_at_collected [OF assms(8)] market_tokens_get [OF rt(6,1)] rt(2-5) by (simp del: map_of_eq_Some_iff)
  moreover have "pool \<in> to_lower ` set (phase_pools ?ph)" using assms(4) low kept(2) by (metis image_eqI)
  ultimately show ?thesis
    using assms(5,6,9) low unfolding plan_of_block_def
    by (auto simp: plan_reads named_by_def observed_steps_def simp del: map_of_eq_Some_iff)
qed

text \<open>The call of the position reader for some accounts of a market, as the phase makes it.\<close>

definition call_reader ::
  "trigger_options \<Rightarrow> trigger_block \<Rightarrow> string list \<Rightarrow> string \<Rightarrow> (string, planned_read) jsmap
    \<Rightarrow> string + (position_row list \<times> parser_warning list)" where
  "call_reader opts block opn key reads =
     opt_readPositions opts (sort (map fst reads)) (tb_height block) (tb_timestamp block) (tb_ingestSource block)
       \<lparr>marketKeys = [key], tombstoneFor = opn, evidenceFor = evidence_for reads, warningSourceKind = ''trigger_snapshot''\<rparr>"

lemma map_sum_eq:
  "map_sum f g r = Inr y \<longleftrightarrow> (\<exists>x. r = Inr x \<and> y = g x)" "map_sum id g r = Inl e \<longleftrightarrow> r = Inl e"
  by (cases r; auto)+

lemma read_position_plan_call:
  "map_of keys q = Some key \<Longrightarrow> rs \<noteq> [] \<Longrightarrow> read_position_plan opts block opn keys ((q, rs) # rest) =
     (case call_reader opts block opn key rs of Inl e \<Rightarrow> Inl e
      | Inr (ps, ws) \<Rightarrow> map_sum id (\<lambda>(ps', ws', n). (ps @ ps', ws @ ws', length rs + n))
          (read_position_plan opts block opn keys rest))"
  by (simp add: call_reader_def)

lemma read_position_plan_reads:
  assumes "(pool, reads) \<in> set plan" "reads \<noteq> []" "map_of keys pool = Some key"
    and "read_position_plan opts block opn keys plan = Inr (ps, ws, n)"
  shows "\<exists>ps' ws'. call_reader opts block opn key reads = Inr (ps', ws') \<and> set ps' \<subseteq> set ps \<and> set ws' \<subseteq> set ws"
  using assms
proof (induction plan arbitrary: ps ws n)
  case (Cons x rest)
  obtain q rs where x: "x = (q, rs)" by (cases x)
  show ?case
  proof (cases "map_of keys q = None \<or> rs = []")
    case True
    then have "read_position_plan opts block opn keys rest = Inr (ps, ws, n)" "(pool, reads) \<in> set rest"
      using Cons.prems x by (auto split: option.splits)
    with Cons show ?thesis by blast
  next
    case False
    then obtain key' where key': "map_of keys q = Some key'" by auto
    with False Cons.prems(4) obtain ps1 ws1 ps2 ws2 n2 where
      r: "call_reader opts block opn key' rs = Inr (ps1, ws1)" "read_position_plan opts block opn keys rest = Inr (ps2, ws2, n2)"
        "ps = ps1 @ ps2" "ws = ws1 @ ws2"
      by (auto simp: x read_position_plan_call map_sum_eq simp del: read_position_plan.simps split: sum.splits prod.splits)
    show ?thesis
    proof (cases "(pool, reads) = (q, rs)")
      case True
      with r key' Cons.prems(3) show ?thesis by auto
    next
      case False
      with Cons.prems(1) x have "(pool, reads) \<in> set rest" by auto
      from Cons.IH [OF this Cons.prems(2,3) r(2)] r show ?thesis by auto
    qed
  qed
qed simp

lemma read_position_plan_throws:
  "read_position_plan opts block opn keys plan = Inl e \<Longrightarrow> \<exists>key reads. call_reader opts block opn key reads = Inl e"
proof (induction plan)
  case (Cons x rest)
  obtain q rs where x: "x = (q, rs)" by (cases x)
  show ?case
  proof (cases "map_of keys q = None \<or> rs = []")
    case True
    then have "read_position_plan opts block opn keys rest = Inl e" using Cons.prems x by (auto split: option.splits)
    then show ?thesis by (rule Cons.IH)
  next
    case False
    then obtain key where key: "map_of keys q = Some key" "rs \<noteq> []" by auto
    show ?thesis
    proof (cases "call_reader opts block opn key rs")
      case (Inl e')
      with Cons.prems show ?thesis by (auto simp: x read_position_plan_call [OF key] simp del: read_position_plan.simps)
    next
      case (Inr r)
      with Cons.prems have "read_position_plan opts block opn keys rest = Inl e"
        by (simp add: x read_position_plan_call [OF key] map_sum_eq split_beta del: read_position_plan.simps)
      then show ?thesis by (rule Cons.IH)
    qed
  qed
qed simp

lemma fold_has_key:
  "map_has (foldl (\<lambda>k m. map_set (to_lower (market_pool m)) (market_key m) k) k0 ms) p
   \<longleftrightarrow> map_has k0 p \<or> p \<in> (to_lower \<circ> market_pool) ` set ms"
  by (induction ms arbitrary: k0) auto

lemma healthy_keys:
  "healthy opts ph \<Longrightarrow> phase_pools ph = phase_pools (new_phase opts) \<and> keyByPool ph = keyByPool (new_phase opts)"
proof (induction rule: healthy.induct)
  case (observed ph block logs obs ph')
  then show ?case by (auto simp: observe_phase_def split: prod.splits sum.splits)
qed (simp_all add: fold_logs_def Let_def split_beta)

definition names_trigger :: "trigger_evidence \<Rightarrow> mm_trigger \<Rightarrow> bool" where
  "names_trigger e t \<longleftrightarrow> evidence_trigger e = t \<or> (\<exists>ts. evidence_triggers e = Some ts \<and> t \<in> set ts)"

lemma triggerEvidence_names: "t \<in> set (read_triggers r) \<Longrightarrow> names_trigger (triggerEvidence r) t"
proof -
  assume t: "t \<in> set (read_triggers r)"
  define ts where "ts = filter (\<lambda>t. t \<in> set (read_triggers r)) TRIGGER_ORDER"
  have "t \<in> set TRIGGER_ORDER" by (cases t) (simp_all add: TRIGGER_ORDER_def)
  with t have mem: "t \<in> set ts" by (simp add: ts_def)
  have e: "evidence_trigger (triggerEvidence r) = (if ts = [] then CadenceTrigger else ts ! 0)"
    "evidence_triggers (triggerEvidence r) = (if length ts > 1 then Some ts else None)"
    by (simp_all add: triggerEvidence_def ts_def Let_def)
  show ?thesis
  proof (cases "length ts > 1")
    case False
    with mem obtain u where "ts = [u]" by (cases ts) auto
    with mem e show ?thesis by (simp add: names_trigger_def)
  qed (use mem e in \<open>simp add: names_trigger_def\<close>)
qed

text \<open>C13: A price step reads every holder it moves. Take a worker whose index was seeded before its first block and
  whose observations have all succeeded, the one of this block included. When a reserve steps at the block, every
  account the index knows to hold a token of the reserve, the block's own logs included, was read in the block already,
  or running the phase calls the market's position reader with the account among those to read and the price step
  among its evidence, and returns the rows and the warnings of that call; a run that rejects does so with the error of
  one of its position reads.\<close>

theorem stepped_holders_read:
  assumes "healthy opts ph0" and "observe_phase opts block logs ph0 = (Inr obs, ph1)"
    and "map_of (trk_configs (phase_tracker ph1)) pool = Some c" and "pool \<in> set (phase_pools ph1)"
    and "map_of (obs_steps obs) pool = Some rs" and "reserve \<in> set rs"
    and "token_of_reserve c reserve token"
    and "holds_at (tb_height block) (phase_index (snd (fold_logs block logs ph1))) token holder"
  shows "case fst (run_phase collate opts block logs (Inr obs) ctx ph1) of
      Inl e \<Rightarrow> \<exists>key reads. call_reader opts block (ctx_openPositions ctx) key reads = Inl e
    | Inr res \<Rightarrow> openPositionKey pool (to_lower holder) \<in> set (ctx_alreadyRead ctx)
        \<or> (\<exists>key reads ps ws. map_of (keyByPool ph1) pool = Some key \<and> to_lower holder \<in> set (map fst reads)
            \<and> names_trigger (evidence_for reads pool (to_lower holder)) PriceStepTrigger
            \<and> call_reader opts block (ctx_openPositions ctx) key reads = Inr (ps, ws)
            \<and> set ps \<subseteq> set (res_positions res) \<and> set ws \<subseteq> set (res_warnings res))"
proof -
  let ?ph = "snd (fold_logs block logs ph1)" and ?u = "to_lower holder"
  let ?plan = "plan_of_block opts block (Inr obs) ctx ?ph"
  let ?run = "read_position_plan opts block (ctx_openPositions ctx) (keyByPool ?ph) ?plan"
  have keys: "keyByPool ?ph = keyByPool ph1" by (simp add: fold_logs_def Let_def split_beta)
  show ?thesis
  proof (cases ?run)
    case (Inl e)
    with read_position_plan_throws [OF Inl] show ?thesis by (simp add: run_phase_def Let_def split_beta)
  next
    case (Inr r)
    then obtain ps ws n where run: "?run = Inr (ps, ws, n)" by (cases r) auto
    have "\<exists>key reads ps' ws'. map_of (keyByPool ph1) pool = Some key \<and> ?u \<in> set (map fst reads)
        \<and> names_trigger (evidence_for reads pool ?u) PriceStepTrigger
        \<and> call_reader opts block (ctx_openPositions ctx) key reads = Inr (ps', ws') \<and> set ps' \<subseteq> set ps \<and> set ws' \<subseteq> set ws"
      if "openPositionKey pool ?u \<notin> set (ctx_alreadyRead ctx)"
    proof -
      have "plan_has ?plan pool ?u PriceStepTrigger" by (rule stepped_holders_planned [OF assms that])
      then obtain reads r where reads: "map_of ?plan pool = Some reads" "map_of reads ?u = Some r" "PriceStepTrigger \<in> set (read_triggers r)"
        by (auto simp: plan_has_def inner_map_def simp del: map_of_eq_Some_iff split: option.splits)
      then have "?u \<in> fst ` set reads" "reads \<noteq> []" by (metis fst_conv image_eqI map_of_SomeD, auto)
      moreover have "healthy opts ph1" using assms(1,2) by (rule healthy.observed)
      then have "map_has (keyByPool ph1) pool"
        using healthy_keys [of opts ph1] assms(4) by (auto simp: new_phase_def fold_has_key)
      then obtain key where key: "map_of (keyByPool ph1) pool = Some key" by (auto simp: map_has_iff)
      moreover have "names_trigger (evidence_for reads pool ?u) PriceStepTrigger"
        using triggerEvidence_names [OF reads(3)] reads(2) by (simp add: evidence_for_def del: map_of_eq_Some_iff)
      ultimately show ?thesis
        using read_position_plan_reads [OF map_of_SomeD [OF reads(1)] _ key [folded keys] run] by auto
    qed
    moreover obtain res where "fst (run_phase collate opts block logs (Inr obs) ctx ph1) = Inr res"
        "set ps \<subseteq> set (res_positions res)" "set ws \<subseteq> set (res_warnings res)"
      using run by (auto simp: run_phase_def Let_def split_beta)
    ultimately show ?thesis by (simp only: sum.case) (meson order_trans)
  qed
qed

text \<open>A worker on the node with the alternating price, its exact index seeded with one holder.\<close>

definition demo_position :: "string \<Rightarrow> position_row" where
  "demo_position user =
     \<lparr>pos_pool = ''0xaa'', pos_user = user, total_collateral_base = ''1'', total_debt_base = ''0'',
      observation_id = user, position_columns = JNull\<rparr>"

definition demo_options :: "eth_call_batch \<Rightarrow> trigger_options" where
  "demo_options call =
     \<lparr>opt_markets = one_market, opt_mode = Exact, opt_threshold = 100, opt_cadence = \<lparr>allMinutes = 60, marketMinutes = []\<rparr>,
      opt_ethCall = call, opt_readPositions = (\<lambda>us b ts src ro. Inr (map demo_position us, [])), opt_readCollateral = (\<lambda>us b p. Inr ([], []))\<rparr>"

definition demo_block :: "int \<Rightarrow> trigger_block" where
  "demo_block b = \<lparr>tb_height = b, tb_timestamp = [], tb_timestampMs = None, tb_previousMs = None, tb_ingestSource = []\<rparr>"

definition demo_phase :: "eth_call_batch \<Rightarrow> trigger_phase" where
  "demo_phase call = (new_phase (demo_options call))\<lparr>phase_index :=
     seedBalances [\<lparr>leg_contract = ''0x0000000000000000000000000000000000000008'', leg_holder = ''0xb2'', leg_delta = 7\<rparr>]
       (new_index Exact)\<rparr>"

definition demo_context :: run_context where
  "demo_context = \<lparr>ctx_alreadyRead = [], ctx_eventReads = [], ctx_openPositions = []\<rparr>"

theorem stepped_holders_read_witness:
  "\<exists>obs ph1 res. observe_phase (demo_options (pure_node alternating_node)) (demo_block 9) [] (demo_phase (pure_node alternating_node)) = (Inr obs, ph1)
    \<and> fst (run_phase (\<lambda>_ _. 0) (demo_options (pure_node alternating_node)) (demo_block 9) [] (Inr obs) demo_context ph1) = Inr res
    \<and> (\<exists>row \<in> set (res_positions res). pos_user row = ''0xb2'')"
proof -
  let ?opts = "demo_options (pure_node alternating_node)" and ?ph = "demo_phase (pure_node alternating_node)"
  let ?run = "observe_phase ?opts (demo_block 9) [] ?ph"
  let ?c = "\<lparr>cfg_key = ''core'', cfg_pool = ''0xaa'', cfg_provider = ''0x0000000000000000000000000000000000000001'',
      cfg_oracle = ''0x0000000000000000000000000000000000000002'',
      cfg_configurator = Some ''0x0000000000000000000000000000000000000003'', cfg_reserves = [reserve_7],
      cfg_reserveTokens = [\<lparr>rt_reserve = reserve_7, rt_tokens = [''0x0000000000000000000000000000000000000008'',
          ''0x000000000000000000000000000000000000000a'']\<rparr>], resolvedAt = 9\<rparr>"
  have healthy: "healthy ?opts ?ph"
    unfolding demo_phase_def by (rule healthy.seeded) (simp add: seedBalances_def new_index_def)
  have "(case ?run of (Inl e, ph1) \<Rightarrow> False | (Inr obs, ph1) \<Rightarrow>
      map_of (obs_steps obs) ''0xaa'' = Some [reserve_7] \<and>
      map_of (trk_configs (phase_tracker ph1)) ''0xaa'' = Some ?c \<and> ''0xaa'' \<in> set (phase_pools ph1) \<and>
      0 < held (phase_index (snd (fold_logs (demo_block 9) [] ph1))) ''0x0000000000000000000000000000000000000008'' ''0xb2'' \<and>
      index_mode (phase_index (snd (fold_logs (demo_block 9) [] ph1))) = Exact)"
    by code_simp
  then obtain obs ph1 where run: "?run = (Inr obs, ph1)" and
    ok: "map_of (obs_steps obs) ''0xaa'' = Some [reserve_7]" "map_of (trk_configs (phase_tracker ph1)) ''0xaa'' = Some ?c"
      "''0xaa'' \<in> set (phase_pools ph1)"
      "0 < held (phase_index (snd (fold_logs (demo_block 9) [] ph1))) ''0x0000000000000000000000000000000000000008'' ''0xb2''"
      "index_mode (phase_index (snd (fold_logs (demo_block 9) [] ph1))) = Exact"
    by (auto simp del: map_of_eq_Some_iff split: prod.splits sum.splits)
  have "token_of_reserve ?c reserve_7 ''0x0000000000000000000000000000000000000008''" by code_simp
  moreover have "holds_at (tb_height (demo_block 9)) (phase_index (snd (fold_logs (demo_block 9) [] ph1)))
      ''0x0000000000000000000000000000000000000008'' ''0xb2''"
    using ok(4,5) by (simp add: holds_at_def)
  ultimately have main: "case fst (run_phase (\<lambda>_ _. 0) ?opts (demo_block 9) [] (Inr obs) demo_context ph1) of
      Inl e \<Rightarrow> \<exists>key reads. call_reader ?opts (demo_block 9) (ctx_openPositions demo_context) key reads = Inl e
    | Inr res \<Rightarrow> openPositionKey ''0xaa'' (to_lower ''0xb2'') \<in> set (ctx_alreadyRead demo_context)
        \<or> (\<exists>key reads ps ws. map_of (keyByPool ph1) ''0xaa'' = Some key \<and> to_lower ''0xb2'' \<in> set (map fst reads)
            \<and> names_trigger (evidence_for reads ''0xaa'' (to_lower ''0xb2'')) PriceStepTrigger
            \<and> call_reader ?opts (demo_block 9) (ctx_openPositions demo_context) key reads = Inr (ps, ws)
            \<and> set ps \<subseteq> set (res_positions res) \<and> set ws \<subseteq> set (res_warnings res))"
    by (intro stepped_holders_read [OF healthy run ok(2,3,1), where reserve = reserve_7]) simp_all
  have lower: "to_lower ''0xb2'' = ''0xb2''" by code_simp
  have reader: "call_reader ?opts block opn key reads = Inr (map demo_position (sort (map fst reads)), [])" for block opn key reads
    by (simp add: call_reader_def demo_options_def)
  have user: "pos_user (demo_position u) = u" for u by (simp add: demo_position_def)
  show ?thesis
  proof (cases "fst (run_phase (\<lambda>_ _. 0) ?opts (demo_block 9) [] (Inr obs) demo_context ph1)")
    case (Inr res)
    have "openPositionKey ''0xaa'' (to_lower ''0xb2'') \<notin> set (ctx_alreadyRead demo_context)" by (simp add: demo_context_def)
    with main [unfolded Inr sum.case] obtain key reads ps ws where r: "to_lower ''0xb2'' \<in> set (map fst reads)"
        "call_reader ?opts (demo_block 9) (ctx_openPositions demo_context) key reads = Inr (ps, ws)" "set ps \<subseteq> set (res_positions res)"
      by (elim disjE exE conjE) (rule notE, assumption+)
    from r(2) have "ps = map demo_position (sort (map fst reads))" unfolding reader by simp
    with r(1,3) have "demo_position ''0xb2'' \<in> set (res_positions res)" unfolding lower by (auto simp del: map_map)
    with run Inr user show ?thesis by blast
  qed (use main reader in simp)
qed

section \<open>A failed first read loses its market\<close>

text \<open>A node whose price reads at block 8 time out.\<close>

definition flaky_node :: eth_call_batch where
  "flaky_node calls b =
     (if b = 8 \<and> list_ex (\<lambda>c. take 10 (call_data c) = sel_getAssetsPrices) calls then Inl ''timeout''
      else pure_node alternating_node calls b)"

definition after_timeout :: trigger_phase where
  "after_timeout = snd (observe_phase (demo_options flaky_node) (demo_block 8) [] (demo_phase flaky_node))"

text \<open>The tracker resolves a market and then reads its prices; when that read throws, the phase does not hear of
  the market, and since it is resolved it is not named again. Here a block that observes well two blocks later
  finds the price step, and the index knows no reserve of the market: the step reads nobody, though
  the index holds the balance of a holder.\<close>

lemma failed_read_loses_market:
  "(case observe_phase (demo_options flaky_node) (demo_block 10) [] after_timeout of
      (Inl e, ph) \<Rightarrow> False
    | (Inr obs, ph) \<Rightarrow> map_of (obs_steps obs) ''0xaa'' = Some [reserve_7]
        \<and> plan_of_block (demo_options flaky_node) (demo_block 10) (Inr obs) demo_context (snd (fold_logs (demo_block 10) [] ph)) = []
        \<and> held (phase_index ph) ''0x0000000000000000000000000000000000000008'' ''0xb2'' = 7)"
  by code_simp

end
