(* ===== verification/Nested_Calls.thy ===== *)
theory Nested_Calls
  imports Raw_Rows
begin

text \<open>
  Synthetic rows for the calls inside wrappers the upstream parser leaves whole
  (\<^verbatim>\<open>src/raw/nestedCalls.ts\<close>): an EVM transaction or a permit that targets the dispatch precompile, a
  \<open>Dispatcher\<close> call, and the batches and proxies below them.

  The decoder of runtime calls, bound to the block's metadata, is the argument \<open>decode\<close>: a call, or \<open>Inl\<close> of the message
  it throws. The columns that hold JSON text are JSON values (theory \<^verbatim>\<open>Raw_Rows\<close>).
\<close>

section \<open>Calls\<close>

definition DISPATCH_PRECOMPILE :: string where
  "DISPATCH_PRECOMPILE = ''0x0000000000000000000000000000000000000401''"

record decoded_call =
  dc_name :: string
  dc_args :: json

type_synonym call_decoder = "string \<Rightarrow> string + decoded_call"

record evm_execution =
  exec_from :: "string option"
  exitKind :: "string option"

record synthesis_input =
  syn_rows :: "call_row list"
  evmExecutionByExtrinsic :: "(int, evm_execution) jsmap"
  decodeCall :: call_decoder

definition ORIGIN_PRESERVING_DISPATCHER_CALLS :: "string list" where
  "ORIGIN_PRESERVING_DISPATCHER_CALLS = [''Dispatcher.dispatch_with_extra_gas'', ''Dispatcher.dispatch_with_fee_payer'']"

definition BATCH_CALLS :: "string list" where
  "BATCH_CALLS = [''Utility.batch'', ''Utility.batch_all'', ''Utility.force_batch'']"

definition MAX_SYNTHETIC_DEPTH :: nat where
  "MAX_SYNTHETIC_DEPTH = 8"

definition asRecord :: "json \<Rightarrow> json option" where
  "asRecord v = (case v of JObj ps \<Rightarrow> Some (JObj ps) | _ \<Rightarrow> None)"

text \<open>\<open>asRecord(v)?.key\<close>\<close>

definition record_prop :: "json \<Rightarrow> string \<Rightarrow> json" where
  "record_prop v key = (case asRecord v of None \<Rightarrow> JUndefined | Some r \<Rightarrow> get_prop r key)"

definition signedOriginJson :: "string option \<Rightarrow> json option" where
  "signedOriginJson accountId32 =
     (case accountId32 of None \<Rightarrow> None
      | Some a \<Rightarrow> Some (JObj [(''__kind'', JStr ''system''), (''value'', JObj [(''__kind'', JStr ''Signed''), (''value'', JStr a)])]))"

definition accountFromAddressArg :: "json \<Rightarrow> string option" where
  "accountFromAddressArg v =
     (case v of JStr s \<Rightarrow> Some s
      | _ \<Rightarrow> (case record_prop v ''value'' of JStr s \<Rightarrow> Some s | _ \<Rightarrow> None))"

definition drop_key :: "string \<Rightarrow> json \<Rightarrow> json" where
  "drop_key key v = (case v of JObj ps \<Rightarrow> JObj (filter (\<lambda>(k, x). k \<noteq> key) ps) | _ \<Rightarrow> v)"

definition liftRuntimeCallEnum :: "json \<Rightarrow> decoded_call option" where
  "liftRuntimeCallEnum node =
     (case record_prop node ''__kind'' of
        JStr pallet \<Rightarrow>
          (let inner = get_prop node ''value'' in
           case record_prop inner ''__kind'' of
             JStr call \<Rightarrow> Some \<lparr>dc_name = pallet @ ''.'' @ call, dc_args = drop_key ''__kind'' inner\<rparr>
           | _ \<Rightarrow> None)
      | _ \<Rightarrow> None)"

definition hasDecomposedChildren :: "string list \<Rightarrow> string \<Rightarrow> bool" where
  "hasDecomposedChildren sameExtrinsicAddresses wrapperAddress =
     (if wrapperAddress = ''root''
      then list_ex (\<lambda>a. a \<noteq> ''root'' \<and> CHR ''.'' \<notin> set a) sameExtrinsicAddresses
      else list_ex (starts_with (wrapperAddress @ ''.'')) sameExtrinsicAddresses)"

record synthetic_node =
  node_call :: decoded_call
  node_address :: string
  node_parent :: string
  node_origin :: "json option"
  node_success :: "int option"

section \<open>The call a wrapper dispatches\<close>

text \<open>The functions that push warnings return them.\<close>

definition decodeOrWarn ::
  "string \<Rightarrow> call_row \<Rightarrow> synthesis_input \<Rightarrow> bool \<Rightarrow> decoded_call option \<times> parser_warning list" where
  "decodeOrWarn hex row inp dispatchSucceeded =
     (case decodeCall inp hex of
        Inr call \<Rightarrow> (Some call, [])
      | Inl e \<Rightarrow>
          (None,
           if dispatchSucceeded
           then [\<lparr>warn_block = cr_block row, warn_timestamp = cr_timestamp row, warn_parser = ''nested_calls'',
                  warn_source_kind = ''call'', warn_source_name = cr_name row,
                  warn_source_index = (case cr_extrinsic row of None \<Rightarrow> ''none'' | Some i \<Rightarrow> int_to_string i) @ '':'' @ cr_address row,
                  warning_code = ''evm_dispatch_undecodable'',
                  warning_text = ''successful dispatch-precompile call could not be decoded: '' @ e,
                  warn_evidence = JObj [(''call'', JStr (cr_name row)), (''data'', JStr hex)],
                  warn_ingest_source = cr_ingest_source row\<rparr>]
           else []))"

definition child_of ::
  "string \<Rightarrow> string \<Rightarrow> json option \<Rightarrow> int option \<Rightarrow> decoded_call option \<times> parser_warning list
    \<Rightarrow> synthetic_node option \<times> parser_warning list" where
  "child_of address segment origin success decoded =
     (map_option (\<lambda>call. \<lparr>node_call = call, node_address = address @ ''.'' @ segment, node_parent = address,
                          node_origin = origin, node_success = success\<rparr>) (fst decoded), snd decoded)"

definition targets_precompile :: "json \<Rightarrow> bool" where
  "targets_precompile v = (case v of JStr s \<Rightarrow> to_lower s = DISPATCH_PRECOMPILE | _ \<Rightarrow> False)"

definition evmCallDispatchNode ::
  "json \<Rightarrow> string \<Rightarrow> int option \<Rightarrow> call_row \<Rightarrow> synthesis_input \<Rightarrow> synthetic_node option \<times> parser_warning list" where
  "evmCallDispatchNode args address parentSuccess wrapperRow inp =
     (if \<not> targets_precompile (get_prop args ''target'') then (None, [])
      else case get_prop args ''input'' of
        JStr hex \<Rightarrow>
          child_of address ''evm'' (signedOriginJson (evmAccountForm (get_prop args ''source'')))
            (if parentSuccess = Some 0 then Some 0 else None) (decodeOrWarn hex wrapperRow inp False)
      | _ \<Rightarrow> (None, []))"

definition permitNode ::
  "json \<Rightarrow> string \<Rightarrow> int option \<Rightarrow> call_row \<Rightarrow> synthesis_input \<Rightarrow> synthetic_node option \<times> parser_warning list" where
  "permitNode args address success row inp =
     (if \<not> targets_precompile (get_prop args ''to'') then (None, [])
      else case get_prop args ''data'' of
        JStr hex \<Rightarrow>
          child_of address ''evm'' (signedOriginJson (evmAccountForm (get_prop args ''from''))) success
            (decodeOrWarn hex row inp (success = Some 1))
      | _ \<Rightarrow> (None, []))"

text \<open>The outcome of a dispatch inside an EVM transaction.\<close>

definition transact_success :: "call_row \<Rightarrow> evm_execution option \<Rightarrow> int option" where
  "transact_success row execution =
     (if cr_success row \<noteq> Some 1 then cr_success row
      else case Option.bind execution exitKind of
        None \<Rightarrow> None
      | Some k \<Rightarrow> if k = ''Succeed'' then Some 1 else Some 0)"

definition transactNode ::
  "json \<Rightarrow> call_row \<Rightarrow> synthesis_input \<Rightarrow> synthetic_node option \<times> parser_warning list" where
  "transactNode args row inp =
     (let transaction = record_prop (get_prop args ''transaction'') ''value'';
          action = record_prop transaction ''action'' in
      if record_prop action ''__kind'' \<noteq> JStr ''Call'' \<or> \<not> targets_precompile (record_prop action ''value'') then (None, [])
      else case record_prop transaction ''input'' of
        JStr hex \<Rightarrow>
          (let execution = map_of (evmExecutionByExtrinsic inp) (case cr_extrinsic row of None \<Rightarrow> -1 | Some i \<Rightarrow> i);
               success = transact_success row execution in
           child_of (cr_address row) ''evm''
             (signedOriginJson (case Option.bind execution exec_from of None \<Rightarrow> None | Some f \<Rightarrow> evmAccountForm (JStr f)))
             success (decodeOrWarn hex row inp (success = Some 1)))
      | _ \<Rightarrow> (None, []))"

definition dispatcherNode ::
  "json \<Rightarrow> string \<Rightarrow> string \<Rightarrow> json option \<Rightarrow> int option \<Rightarrow> synthetic_node option" where
  "dispatcherNode args name address origin success =
     fst (child_of address ''inner'' (if name \<in> set ORIGIN_PRESERVING_DISPATCHER_CALLS then origin else None) success
            (liftRuntimeCallEnum (get_prop args ''call''), []))"

definition dispatchedCallFromRow ::
  "call_row \<Rightarrow> synthesis_input \<Rightarrow> synthetic_node option \<times> parser_warning list" where
  "dispatchedCallFromRow row inp =
     (case Option.bind (cr_args row) asRecord of
        None \<Rightarrow> (None, [])
      | Some args \<Rightarrow>
          if cr_name row = ''Ethereum.transact'' then transactNode args row inp
          else if cr_name row = ''MultiTransactionPayment.dispatch_permit''
          then permitNode args (cr_address row) (cr_success row) row inp
          else if starts_with ''Dispatcher.'' (cr_name row)
          then (dispatcherNode args (cr_name row) (cr_address row) (cr_origin row) (cr_success row), [])
          else if cr_name row = ''EVM.call''
          then evmCallDispatchNode args (cr_address row) (cr_success row) row inp
          else (None, []))"

section \<open>The subtree below it\<close>

definition row_of_node :: "synthetic_node \<Rightarrow> call_row \<Rightarrow> call_row" where
  "row_of_node n wrapperRow =
     \<lparr>cr_block = cr_block wrapperRow, cr_timestamp = cr_timestamp wrapperRow, cr_extrinsic = cr_extrinsic wrapperRow,
      cr_address = node_address n, cr_parent = Some (node_parent n), cr_name = dc_name (node_call n),
      cr_origin = node_origin n,
      cr_args = Some (toJsonString (if is_nullish (dc_args (node_call n)) then JNull else dc_args (node_call n))),
      cr_success = node_success n, cr_error = None, cr_ingest_source = cr_ingest_source wrapperRow\<rparr>"

definition nat_text :: "nat \<Rightarrow> string" where
  "nat_text i = int_to_string (int i)"

text \<open>The items of a batch that are calls, under their index in the batch.\<close>

definition batch_children :: "synthetic_node \<Rightarrow> json list \<Rightarrow> synthetic_node list" where
  "batch_children n items =
     concat (map (\<lambda>(i, item). case liftRuntimeCallEnum item of
          None \<Rightarrow> []
        | Some call \<Rightarrow>
            [\<lparr>node_call = call, node_address = node_address n @ ''.'' @ nat_text i, node_parent = node_address n,
              node_origin = node_origin n,
              node_success = (if dc_name (node_call n) = ''Utility.batch_all'' then node_success n else None)\<rparr>])
       (enumerate 0 items))"

definition inner_child :: "synthetic_node \<Rightarrow> json \<Rightarrow> json option \<Rightarrow> int option \<Rightarrow> synthetic_node option" where
  "inner_child n call origin success =
     fst (child_of (node_address n) ''inner'' origin success (liftRuntimeCallEnum call, []))"

definition opt_list :: "'a option \<Rightarrow> 'a list" where
  "opt_list x = (case x of None \<Rightarrow> [] | Some y \<Rightarrow> [y])"

definition single_child ::
  "synthetic_node \<Rightarrow> json \<Rightarrow> call_row \<Rightarrow> synthesis_input \<Rightarrow> synthetic_node option \<times> parser_warning list" where
  "single_child n args wrapperRow inp =
     (let name = dc_name (node_call n) in
      if name = ''Proxy.proxy'' \<or> name = ''Proxy.proxy_announced''
      then (inner_child n (get_prop args ''call'') (signedOriginJson (accountFromAddressArg (get_prop args ''real''))) None, [])
      else if name = ''Utility.as_derivative''
      then (inner_child n (get_prop args ''call'') None (node_success n), [])
      else if starts_with ''Dispatcher.'' name
      then (dispatcherNode args name (node_address n) (node_origin n) (node_success n), [])
      else if name = ''MultiTransactionPayment.dispatch_permit''
      then permitNode args (node_address n) (node_success n) wrapperRow inp
      else if name = ''EVM.call''
      then evmCallDispatchNode args (node_address n) (node_success n) wrapperRow inp
      else (None, []))"

definition child_nodes :: "synthetic_node \<Rightarrow> call_row \<Rightarrow> synthesis_input \<Rightarrow> synthetic_node list \<times> parser_warning list" where
  "child_nodes n wrapperRow inp =
     (case asRecord (dc_args (node_call n)) of
        None \<Rightarrow> ([], [])
      | Some args \<Rightarrow>
          (case get_prop args ''calls'' of
             JArr items \<Rightarrow>
               if dc_name (node_call n) \<in> set BATCH_CALLS then (batch_children n items, [])
               else map_prod opt_list id (single_child n args wrapperRow inp)
           | _ \<Rightarrow> map_prod opt_list id (single_child n args wrapperRow inp)))"

function emitSubtree ::
  "synthetic_node \<Rightarrow> call_row \<Rightarrow> synthesis_input \<Rightarrow> nat \<Rightarrow> call_row list \<times> parser_warning list" where
  "emitSubtree n wrapperRow inp depth =
     (if depth > MAX_SYNTHETIC_DEPTH then ([], [])
      else
        (let (children, warnings) = child_nodes n wrapperRow inp;
             below = map (\<lambda>c. emitSubtree c wrapperRow inp (depth + 1)) children
         in (row_of_node n wrapperRow # concat (map fst below), warnings @ concat (map snd below))))"
  by pat_completeness auto
termination
  by (relation "measure (\<lambda>(n, w, i, depth). Suc MAX_SYNTHETIC_DEPTH - depth)") auto

declare emitSubtree.simps [simp del]

definition addresses_of :: "int \<Rightarrow> call_row list \<Rightarrow> string list" where
  "addresses_of extrinsic rows = map cr_address (filter (\<lambda>r. cr_extrinsic r = Some extrinsic) rows)"

definition synthesize_row :: "synthesis_input \<Rightarrow> call_row \<Rightarrow> call_row list \<times> parser_warning list" where
  "synthesize_row inp row =
     (case cr_extrinsic row of None \<Rightarrow> ([], [])
      | Some x \<Rightarrow>
          (case dispatchedCallFromRow row inp of
             (None, ws) \<Rightarrow> ([], ws)
           | (Some seed, ws) \<Rightarrow>
               if hasDecomposedChildren (addresses_of x (syn_rows inp)) (cr_address row) then ([], ws)
               else map_prod id ((@) ws) (emitSubtree seed row inp 0)))"

definition synthesizeNestedCallRows :: "synthesis_input \<Rightarrow> call_row list \<times> parser_warning list" where
  "synthesizeNestedCallRows inp =
     (let each = map (synthesize_row inp) (syn_rows inp) in (concat (map fst each), concat (map snd each)))"

section \<open>Addresses as paths\<close>

definition segs :: "string \<Rightarrow> string list" where
  "segs a = split_on (CHR ''.'') a"

lemma split_on_nonempty [simp]: "split_on c s \<noteq> []"
  by (induction s) (auto split: list.split)

lemma join_split_on: "join_with [c] (split_on c s) = s"
proof (induction s)
  case (Cons x s)
  then show ?case by (cases "split_on c s"; cases "tl (split_on c s)") auto
qed simp

lemma segs_inj: "segs a = segs b \<longleftrightarrow> a = b"
  unfolding segs_def by (metis join_split_on)

lemma split_on_snoc: "c \<notin> set t \<Longrightarrow> split_on c (s @ c # t) = split_on c s @ [t]"
  by (induction s) (auto simp: split_on_none split: list.split)

lemma segs_child: "CHR ''.'' \<notin> set t \<Longrightarrow> segs (a @ CHR ''.'' # t) = segs a @ [t]"
  by (simp add: segs_def split_on_snoc)

lemma split_on_chars: "s \<in> set (split_on c x) \<Longrightarrow> set s \<subseteq> set x"
  by (induction x arbitrary: s) (fastforce split: list.splits if_splits)+

lemma nat_text_inj [simp]: "nat_text i = nat_text j \<longleftrightarrow> i = j"
  by (simp add: nat_text_def)

lemma nat_text_no_dot: "CHR ''.'' \<notin> set (nat_text i)"
  using nat_to_string_digits [of "CHR ''.''" i] by (auto simp: nat_text_def int_to_string_def)

text \<open>The last segment of a child, which is what tells siblings apart.\<close>

definition child_segment :: "synthetic_node \<Rightarrow> synthetic_node \<Rightarrow> string \<Rightarrow> bool" where
  "child_segment n c t \<longleftrightarrow> CHR ''.'' \<notin> set t \<and> node_address c = node_address n @ ''.'' @ t \<and> node_parent c = node_address n"

lemma child_of_cases:
  assumes "fst (child_of a t origin success decoded) = Some c"
  shows "node_address c = a @ ''.'' @ t \<and> node_parent c = a \<and> node_success c = success"
  using assms by (auto simp: child_of_def)

lemma permit_cases:
  "fst (permitNode args a success row inp) = Some c \<Longrightarrow>
     node_address c = a @ ''.evm'' \<and> node_parent c = a \<and> node_success c = success"
  by (auto simp: permitNode_def dest!: child_of_cases split: if_splits json.splits)

lemma evm_call_cases:
  "fst (evmCallDispatchNode args a success row inp) = Some c \<Longrightarrow>
     node_address c = a @ ''.evm'' \<and> node_parent c = a \<and> node_success c \<noteq> Some 1"
  by (auto simp: evmCallDispatchNode_def dest!: child_of_cases split: if_splits json.splits)

lemma dispatcher_cases:
  "dispatcherNode args name a origin success = Some c \<Longrightarrow>
     node_address c = a @ ''.inner'' \<and> node_parent c = a \<and> node_success c = success"
  by (auto simp: dispatcherNode_def dest!: child_of_cases)

lemma inner_cases:
  "inner_child n call origin success = Some c \<Longrightarrow>
     node_address c = node_address n @ ''.inner'' \<and> node_parent c = node_address n \<and> node_success c = success"
  by (auto simp: inner_child_def dest!: child_of_cases)

definition UNKNOWABLE :: "string list" where
  "UNKNOWABLE = [''Utility.batch'', ''Utility.force_batch'', ''Proxy.proxy'', ''Proxy.proxy_announced'', ''EVM.call'']"

lemma batch_children_shape:
  "map node_address (batch_children n items) =
     map (\<lambda>i. node_address n @ ''.'' @ nat_text i)
       (map fst (filter (\<lambda>(i, item). liftRuntimeCallEnum item \<noteq> None) (enumerate 0 items)))"
proof -
  have "map node_address (concat (map (\<lambda>(i, item). case liftRuntimeCallEnum item of None \<Rightarrow> []
        | Some call \<Rightarrow> [\<lparr>node_call = call, node_address = node_address n @ ''.'' @ nat_text i, node_parent = node_address n,
              node_origin = node_origin n, node_success = f\<rparr>]) xs)) =
      map (\<lambda>i. node_address n @ ''.'' @ nat_text i) (map fst (filter (\<lambda>(i, item). liftRuntimeCallEnum item \<noteq> None) xs))" for f xs
    by (induction xs) (auto split: option.split)
  then show ?thesis by (simp add: batch_children_def)
qed

lemma batch_children_node:
  "c \<in> set (batch_children n items) \<Longrightarrow> (\<exists>i. child_segment n c (nat_text i))
     \<and> (node_success c = Some 1 \<longrightarrow> dc_name (node_call n) = ''Utility.batch_all'' \<and> node_success n = Some 1)"
  by (auto simp: batch_children_def child_segment_def nat_text_no_dot split: option.splits if_splits)

lemma unknowable_names:
  "starts_with ''Dispatcher.'' name \<Longrightarrow> name \<notin> set UNKNOWABLE"
  "''Utility.as_derivative'' \<notin> set UNKNOWABLE" "''MultiTransactionPayment.dispatch_permit'' \<notin> set UNKNOWABLE"
  "''Utility.batch_all'' \<notin> set UNKNOWABLE"
  by (auto simp: UNKNOWABLE_def starts_with_def)

text \<open>What every child of a node has: a segment of its own below the node, and no success the node does not warrant.\<close>

definition good_child :: "synthetic_node \<Rightarrow> synthetic_node \<Rightarrow> bool" where
  "good_child n c \<longleftrightarrow> (\<exists>t. child_segment n c t) \<and>
     (node_success c = Some 1 \<longrightarrow> node_success n = Some 1 \<and> dc_name (node_call n) \<notin> set UNKNOWABLE)"

lemma good_childI:
  "node_address c = node_address n @ ''.evm'' \<or> node_address c = node_address n @ ''.inner'' \<Longrightarrow> node_parent c = node_address n \<Longrightarrow>
     node_success c = Some 1 \<longrightarrow> node_success n = Some 1 \<and> dc_name (node_call n) \<notin> set UNKNOWABLE \<Longrightarrow> good_child n c"
  by (auto simp: good_child_def child_segment_def intro: exI [of _ "''evm''"] exI [of _ "''inner''"])

lemma single_child_good:
  assumes "fst (single_child n args w inp) = Some c"
  shows "good_child n c"
proof -
  let ?name = "dc_name (node_call n)"
  consider "?name = ''Proxy.proxy'' \<or> ?name = ''Proxy.proxy_announced''"
    | "\<not> (?name = ''Proxy.proxy'' \<or> ?name = ''Proxy.proxy_announced'')" "?name = ''Utility.as_derivative''"
    | "\<not> (?name = ''Proxy.proxy'' \<or> ?name = ''Proxy.proxy_announced'')" "?name \<noteq> ''Utility.as_derivative''"
      "starts_with ''Dispatcher.'' ?name"
    | "\<not> (?name = ''Proxy.proxy'' \<or> ?name = ''Proxy.proxy_announced'')" "?name \<noteq> ''Utility.as_derivative''"
      "\<not> starts_with ''Dispatcher.'' ?name" "?name = ''MultiTransactionPayment.dispatch_permit''"
    | "\<not> (?name = ''Proxy.proxy'' \<or> ?name = ''Proxy.proxy_announced'')" "?name \<noteq> ''Utility.as_derivative''"
      "\<not> starts_with ''Dispatcher.'' ?name" "?name \<noteq> ''MultiTransactionPayment.dispatch_permit''"
    by blast
  then show ?thesis
  proof cases
    case 1
    with assms have "inner_child n (get_prop args ''call'') (signedOriginJson (accountFromAddressArg (get_prop args ''real''))) None = Some c"
      unfolding single_child_def Let_def by (simp only: if_True fst_conv)
    from inner_cases [OF this] show ?thesis by (intro good_childI) simp_all
  next
    case 2
    with assms have "inner_child n (get_prop args ''call'') None (node_success n) = Some c"
      unfolding single_child_def Let_def by (simp only: if_True if_False fst_conv refl)
    from inner_cases [OF this] 2(2) unknowable_names(2) show ?thesis by (intro good_childI) simp_all
  next
    case 3
    with assms have "dispatcherNode args ?name (node_address n) (node_origin n) (node_success n) = Some c"
      unfolding single_child_def Let_def by (simp only: if_True if_False fst_conv)
    from dispatcher_cases [OF this] unknowable_names(1) [OF 3(3)] show ?thesis by (intro good_childI) simp_all
  next
    case 4
    with assms have "fst (permitNode args (node_address n) (node_success n) w inp) = Some c"
      unfolding single_child_def Let_def by (simp only: if_True if_False refl)
    from permit_cases [OF this] 4(4) unknowable_names(3) show ?thesis by (intro good_childI) simp_all
  next
    case 5
    with assms have "fst (evmCallDispatchNode args (node_address n) (node_success n) w inp) = Some c"
      unfolding single_child_def Let_def by (simp only: if_False split: if_splits) simp_all
    from evm_call_cases [OF this] show ?thesis by (intro good_childI) simp_all
  qed
qed

lemma batch_child_good: "c \<in> set (batch_children n items) \<Longrightarrow> good_child n c"
  using batch_children_node [of c n items] unknowable_names(4) by (auto simp: good_child_def)

lemma child_nodes_good: "c \<in> set (fst (child_nodes n w inp)) \<Longrightarrow> good_child n c"
  by (auto simp: child_nodes_def opt_list_def split: option.splits if_splits json.splits
      intro: batch_child_good single_child_good)

lemma child_nodes_distinct: "distinct (map node_address (fst (child_nodes n w inp)))"
proof -
  have "inj_on (\<lambda>i. node_address n @ ''.'' @ nat_text i) X" for X by (auto intro: inj_onI)
  moreover have "distinct (map fst (filter P (enumerate 0 items)))" for P and items :: "json list"
    by (rule distinct_map_filter) (simp add: enumerate_eq_zip)
  ultimately have "distinct (map node_address (batch_children n items))" for items
    unfolding batch_children_shape by (subst distinct_map) blast
  moreover have "distinct (map node_address (opt_list x))" for x :: "synthetic_node option" by (simp add: opt_list_def split: option.split)
  ultimately show ?thesis by (simp add: child_nodes_def split: option.split json.split)
qed

section \<open>The rows of a subtree\<close>

lemma child_segs: "child_segment n c t \<Longrightarrow> segs (node_address c) = segs (node_address n) @ [t]"
  by (simp add: child_segment_def segs_child)

definition warrants :: "call_row \<Rightarrow> call_row \<Rightarrow> bool" where
  "warrants p r \<longleftrightarrow> cr_extrinsic p = cr_extrinsic r \<and> cr_parent r = Some (cr_address p)
     \<and> cr_success p = Some 1 \<and> cr_name p \<notin> set UNKNOWABLE"

lemma row_of_node_simps [simp]:
  "cr_address (row_of_node n w) = node_address n" "cr_parent (row_of_node n w) = Some (node_parent n)"
  "cr_name (row_of_node n w) = dc_name (node_call n)" "cr_success (row_of_node n w) = node_success n"
  "cr_extrinsic (row_of_node n w) = cr_extrinsic w" "cr_block (row_of_node n w) = cr_block w"
  by (simp_all add: row_of_node_def)

text \<open>What holds of the rows below a node: each has a path below the node's address no longer than the depth left,
  a parent among them (the node's own parent for the node), and no success its parent does not warrant.\<close>

definition subtree_row :: "synthetic_node \<Rightarrow> call_row \<Rightarrow> nat \<Rightarrow> call_row list \<Rightarrow> call_row \<Rightarrow> bool" where
  "subtree_row n w left rows r \<longleftrightarrow> cr_extrinsic r = cr_extrinsic w
     \<and> (\<exists>path. segs (cr_address r) = segs (node_address n) @ path \<and> length path \<le> left)
     \<and> (r = row_of_node n w \<or> (\<exists>p \<in> set rows. cr_parent r = Some (cr_address p) \<and> (cr_success r = Some 1 \<longrightarrow> warrants p r)))"

lemma subtree_row_mono: "subtree_row n w left rows r \<Longrightarrow> set rows \<subseteq> set rows' \<Longrightarrow> subtree_row n w left rows' r"
  by (auto simp: subtree_row_def)

lemma emitSubtree_rows:
  "depth \<le> MAX_SYNTHETIC_DEPTH \<Longrightarrow> r \<in> set (fst (emitSubtree n w inp depth)) \<Longrightarrow>
     subtree_row n w (MAX_SYNTHETIC_DEPTH - depth) (fst (emitSubtree n w inp depth)) r"
proof (induction n w inp depth arbitrary: r rule: emitSubtree.induct)
  case (1 n w inp depth)
  let ?cs = "fst (child_nodes n w inp)"
  let ?rows = "row_of_node n w # concat (map (\<lambda>c. fst (emitSubtree c w inp (depth + 1))) ?cs)"
  have rows: "fst (emitSubtree n w inp depth) = ?rows"
    using 1(2) by (subst emitSubtree.simps) (simp add: split_beta o_def)
  show ?case unfolding rows
  proof (cases "r = row_of_node n w")
    case True
    then show "subtree_row n w (MAX_SYNTHETIC_DEPTH - depth) ?rows r" by (simp add: subtree_row_def)
  next
    case False
    then obtain c where c: "c \<in> set ?cs" "r \<in> set (fst (emitSubtree c w inp (depth + 1)))"
      using 1(3) unfolding rows by auto
    have "\<not> depth + 1 > MAX_SYNTHETIC_DEPTH"
    proof
      assume "depth + 1 > MAX_SYNTHETIC_DEPTH"
      then have "fst (emitSubtree c w inp (depth + 1)) = []" by (subst emitSubtree.simps) simp
      with c(2) show False by simp
    qed
    then have depth: "depth + 1 \<le> MAX_SYNTHETIC_DEPTH" by simp
    have "subtree_row c w (MAX_SYNTHETIC_DEPTH - (depth + 1)) (fst (emitSubtree c w inp (depth + 1))) r"
      using 1(1) [OF _ _ _ c(1) depth c(2)] 1(2) by (metis not_le prod.collapse)
    then have sub: "subtree_row c w (MAX_SYNTHETIC_DEPTH - (depth + 1)) ?rows r"
      by (rule subtree_row_mono) (use c(1) in auto)
    obtain t where t: "child_segment n c t" and ok: "node_success c = Some 1 \<longrightarrow> node_success n = Some 1 \<and> dc_name (node_call n) \<notin> set UNKNOWABLE"
      using child_nodes_good [OF c(1)] by (auto simp: good_child_def)
    obtain path where path: "segs (cr_address r) = segs (node_address c) @ path" "length path \<le> MAX_SYNTHETIC_DEPTH - (depth + 1)"
      and ext: "cr_extrinsic r = cr_extrinsic w" using sub by (auto simp: subtree_row_def)
    have "\<exists>p \<in> set ?rows. cr_parent r = Some (cr_address p) \<and> (cr_success r = Some 1 \<longrightarrow> warrants p r)"
    proof (cases "r = row_of_node c w")
      case True
      then show ?thesis using t ok by (intro bexI [of _ "row_of_node n w"]) (auto simp: child_segment_def warrants_def)
    next
      case False
      with sub show ?thesis by (simp add: subtree_row_def)
    qed
    then show "subtree_row n w (MAX_SYNTHETIC_DEPTH - depth) ?rows r"
      using ext path depth child_segs [OF t] unfolding subtree_row_def by (intro conjI disjI2 exI [of _ "t # path"]) auto
  qed
qed

lemma distinct_concat_keys:
  assumes "distinct (map k cs)" and "\<And>c. c \<in> set cs \<Longrightarrow> distinct (f c)"
    and "\<And>c x. c \<in> set cs \<Longrightarrow> x \<in> set (f c) \<Longrightarrow> g x = k c"
  shows "distinct (concat (map f cs))"
  using assms
proof (induction cs)
  case (Cons c cs)
  have "x \<notin> set (f d)" if "x \<in> set (f c)" "d \<in> set cs" for x d
  proof
    assume "x \<in> set (f d)"
    with Cons.prems(3) that have "k c = k d" by (metis list.set_intros)
    with Cons.prems(1) that(2) show False by auto
  qed
  then show ?case using Cons by auto
qed simp

lemma emitSubtree_distinct: "distinct (map cr_address (fst (emitSubtree n w inp depth)))"
proof (induction n w inp depth rule: emitSubtree.induct)
  case (1 n w inp depth)
  show ?case
  proof (cases "depth > MAX_SYNTHETIC_DEPTH")
    case True
    then show ?thesis by (subst emitSubtree.simps) simp
  next
    case False
    let ?cs = "fst (child_nodes n w inp)"
    let ?f = "\<lambda>c. map cr_address (fst (emitSubtree c w inp (depth + 1)))"
    have below: "\<exists>path. segs a = segs (node_address c) @ path" if "c \<in> set ?cs" "a \<in> set (?f c)" for a c
    proof -
      have "depth + 1 \<le> MAX_SYNTHETIC_DEPTH"
      proof (rule ccontr)
        assume "\<not> depth + 1 \<le> MAX_SYNTHETIC_DEPTH"
        then have "fst (emitSubtree c w inp (depth + 1)) = []" by (subst emitSubtree.simps) simp
        with that(2) show False by simp
      qed
      then show ?thesis using emitSubtree_rows that(2) by (fastforce simp: subtree_row_def)
    qed
    have "distinct (concat (map ?f ?cs))"
    proof (rule distinct_concat_keys [where k = node_address and g = "\<lambda>a. join_with ''.'' (take (length (segs (node_address n)) + 1) (segs a))"])
      show "distinct (map node_address ?cs)" by (rule child_nodes_distinct)
      show "distinct (?f c)" if "c \<in> set ?cs" for c
        using 1 [OF False, of "child_nodes n w inp" ?cs "snd (child_nodes n w inp)" c] that by simp
      show "join_with ''.'' (take (length (segs (node_address n)) + 1) (segs a)) = node_address c"
        if c: "c \<in> set ?cs" and a: "a \<in> set (?f c)" for c a
      proof -
        obtain t where "child_segment n c t" using child_nodes_good [OF c] by (auto simp: good_child_def)
        with below [OF c a] have "take (length (segs (node_address n)) + 1) (segs a) = segs (node_address c)"
          by (auto simp: child_segs)
        then show ?thesis by (simp add: segs_def join_split_on)
      qed
    qed
    moreover have "node_address n \<notin> set (concat (map ?f ?cs))"
    proof
      assume "node_address n \<in> set (concat (map ?f ?cs))"
      then obtain c where c: "c \<in> set ?cs" "node_address n \<in> set (?f c)" by auto
      obtain t where "child_segment n c t" using child_nodes_good [OF c(1)] by (auto simp: good_child_def)
      with below [OF c] show False by (auto simp: child_segs)
    qed
    ultimately show ?thesis using False by (subst emitSubtree.simps) (simp add: split_beta o_def map_concat)
  qed
qed

section \<open>The rows of a block\<close>

text \<open>The addresses the upstream parser writes: \<open>root\<close>, or the path of the call in numbers.\<close>

definition upstream_address :: "string \<Rightarrow> bool" where
  "upstream_address a \<longleftrightarrow> (\<exists>path. callAddressToString (Some path) = Some a)"

definition call_key :: "call_row \<Rightarrow> int option \<times> string" where
  "call_key r = (cr_extrinsic r, cr_address r)"

definition keyed_rows :: "call_row list \<Rightarrow> call_row list" where
  "keyed_rows rows = filter (\<lambda>r. cr_extrinsic r \<noteq> None) rows"

definition upstream_rows :: "call_row list \<Rightarrow> bool" where
  "upstream_rows rows \<longleftrightarrow> list_all (\<lambda>r. upstream_address (cr_address r)) rows \<and> distinct (map call_key (keyed_rows rows))"

lemma join_with_chars: "c \<in> set (join_with sep xs) \<Longrightarrow> c \<in> set sep \<or> (\<exists>x \<in> set xs. c \<in> set x)"
  by (induction sep xs rule: join_with.induct) auto

lemma upstream_segment:
  assumes "upstream_address a" and "s \<in> set (segs a)"
  shows "s \<noteq> ''evm'' \<and> s \<noteq> ''inner''"
proof -
  obtain path where path: "a = (if path = [] then ''root'' else join_with ''.'' (map int_to_string path))"
    using assms(1) by (auto simp: upstream_address_def callAddressToString_def)
  show ?thesis
  proof (cases "path = []")
    case True
    with assms(2) path have "s = ''root''" by (simp add: segs_def split_on_none)
    then show ?thesis by simp
  next
    case False
    have "c = CHR ''.'' \<or> c = CHR ''-'' \<or> is_dec_digit c" if "c \<in> set a" for c
      using that path False join_with_chars [of c "''.''" "map int_to_string path"] nat_to_string_digits
      by (auto simp: int_to_string_def split: if_splits)
    then have "CHR ''e'' \<notin> set a" by (force simp: is_dec_digit_def)
    moreover have "set s \<subseteq> set a" using assms(2) unfolding segs_def by (rule split_on_chars)
    ultimately show ?thesis by auto
  qed
qed

lemma transact_cases:
  assumes "fst (transactNode args row inp) = Some c" and "cr_extrinsic row = Some x"
  shows "node_address c = cr_address row @ ''.evm'' \<and> node_parent c = cr_address row
    \<and> (node_success c = Some 1 \<longrightarrow> cr_success row = Some 1
         \<and> Option.bind (map_of (evmExecutionByExtrinsic inp) x) exitKind = Some ''Succeed'')"
  using assms
  by (auto simp: transactNode_def Let_def transact_success_def simp del: map_of_eq_Some_iff
      dest!: child_of_cases split: if_splits json.splits option.splits)

lemma seed_cases:
  assumes "dispatchedCallFromRow row inp = (Some seed, ws)" and "cr_extrinsic row = Some x"
  shows "(node_address seed = cr_address row @ ''.evm'' \<or> node_address seed = cr_address row @ ''.inner'')
    \<and> node_parent seed = cr_address row
    \<and> (node_success seed = Some 1 \<longrightarrow> cr_success row = Some 1 \<and> cr_name row \<notin> set UNKNOWABLE \<and>
        (cr_name row = ''Ethereum.transact'' \<longrightarrow>
           Option.bind (map_of (evmExecutionByExtrinsic inp) x) exitKind = Some ''Succeed''))"
proof -
  obtain args where args: "Option.bind (cr_args row) asRecord = Some args"
    using assms(1) by (auto simp: dispatchedCallFromRow_def split: option.splits)
  let ?name = "cr_name row"
  consider "?name = ''Ethereum.transact''" | "?name \<noteq> ''Ethereum.transact''" "?name = ''MultiTransactionPayment.dispatch_permit''"
    | "?name \<noteq> ''Ethereum.transact''" "?name \<noteq> ''MultiTransactionPayment.dispatch_permit''" "starts_with ''Dispatcher.'' ?name"
    | "?name \<noteq> ''Ethereum.transact''" "?name \<noteq> ''MultiTransactionPayment.dispatch_permit''" "\<not> starts_with ''Dispatcher.'' ?name"
    by blast
  then show ?thesis
  proof cases
    case 1
    with assms(1) args have "fst (transactNode args row inp) = Some seed" by (simp add: dispatchedCallFromRow_def)
    from transact_cases [OF this assms(2)] 1 show ?thesis by (simp add: UNKNOWABLE_def)
  next
    case 2
    with assms(1) args have "fst (permitNode args (cr_address row) (cr_success row) row inp) = Some seed"
      by (simp add: dispatchedCallFromRow_def)
    from permit_cases [OF this] 2 unknowable_names(3) show ?thesis by simp
  next
    case 3
    with assms(1) args have "dispatcherNode args ?name (cr_address row) (cr_origin row) (cr_success row) = Some seed"
      by (simp add: dispatchedCallFromRow_def)
    from dispatcher_cases [OF this] show ?thesis using 3(1) unknowable_names(1) [OF 3(3)] by simp
  next
    case 4
    with assms(1) args have "fst (evmCallDispatchNode args (cr_address row) (cr_success row) row inp) = Some seed"
      by (simp add: dispatchedCallFromRow_def split: if_splits)
    from evm_call_cases [OF this] show ?thesis by simp
  qed
qed

text \<open>What the walk from one row writes.\<close>

lemma synthesize_row_rows:
  assumes "r \<in> set (fst (synthesize_row inp row))"
  shows "\<exists>seed ws. dispatchedCallFromRow row inp = (Some seed, ws) \<and> cr_extrinsic row \<noteq> None
    \<and> fst (synthesize_row inp row) = fst (emitSubtree seed row inp 0)
    \<and> subtree_row seed row MAX_SYNTHETIC_DEPTH (fst (synthesize_row inp row)) r"
proof -
  obtain x seed ws where x: "cr_extrinsic row = Some x" "dispatchedCallFromRow row inp = (Some seed, ws)"
    "fst (synthesize_row inp row) = fst (emitSubtree seed row inp 0)"
    using assms by (auto simp: synthesize_row_def split: option.splits prod.splits if_splits)
  with assms emitSubtree_rows [of 0 r seed row inp] show ?thesis by auto
qed

lemma synthesize_row_distinct: "distinct (map cr_address (fst (synthesize_row inp row)))"
  by (auto simp: synthesize_row_def emitSubtree_distinct split: option.split prod.split)

text \<open>The address of the wrapper is read off the address of a row: the segments before the first synthetic one.\<close>

definition wrapper_part :: "string \<Rightarrow> string list" where
  "wrapper_part a = takeWhile (\<lambda>s. s \<noteq> ''evm'' \<and> s \<noteq> ''inner'') (segs a)"

lemma synthesized_path:
  assumes "r \<in> set (fst (synthesize_row inp row))" and "upstream_address (cr_address row)"
  shows "cr_extrinsic r = cr_extrinsic row \<and> cr_extrinsic row \<noteq> None \<and> wrapper_part (cr_address r) = segs (cr_address row)
    \<and> (\<exists>s \<in> set (segs (cr_address r)). s = ''evm'' \<or> s = ''inner'')
    \<and> length (segs (cr_address r)) \<le> length (segs (cr_address row)) + 9"
proof -
  obtain seed ws where seed: "dispatchedCallFromRow row inp = (Some seed, ws)" "cr_extrinsic row \<noteq> None"
    "subtree_row seed row MAX_SYNTHETIC_DEPTH (fst (synthesize_row inp row)) r"
    using synthesize_row_rows [OF assms(1)] by blast
  obtain x where "cr_extrinsic row = Some x" using seed(2) by blast
  from seed_cases [OF seed(1) this]
  have "node_address seed = cr_address row @ ''.evm'' \<or> node_address seed = cr_address row @ ''.inner''" by blast
  then obtain t where t: "t = ''evm'' \<or> t = ''inner''" "segs (node_address seed) = segs (cr_address row) @ [t]"
  proof
    assume "node_address seed = cr_address row @ ''.evm''"
    then show thesis by (intro that [of "''evm''"]) (simp_all add: segs_child)
  next
    assume "node_address seed = cr_address row @ ''.inner''"
    then show thesis by (intro that [of "''inner''"]) (simp_all add: segs_child)
  qed
  obtain path where path: "segs (cr_address r) = segs (cr_address row) @ t # path" "length path \<le> 8"
    using seed(3) t(2) by (auto simp: subtree_row_def MAX_SYNTHETIC_DEPTH_def)
  let ?up = "\<lambda>s. s \<noteq> ''evm'' \<and> s \<noteq> ''inner''"
  have "takeWhile ?up (segs (cr_address row) @ t # path) = segs (cr_address row) @ takeWhile ?up (t # path)"
    by (rule takeWhile_append2) (rule upstream_segment [OF assms(2)])
  moreover have "takeWhile ?up (t # path) = []" using t(1) by (elim disjE) simp_all
  ultimately have "takeWhile ?up (segs (cr_address row) @ t # path) = segs (cr_address row)" by (simp only: append_Nil2)
  then have "wrapper_part (cr_address r) = segs (cr_address row)" by (simp only: wrapper_part_def path(1))
  moreover have "\<exists>s \<in> set (segs (cr_address r)). s = ''evm'' \<or> s = ''inner''"
    using path(1) t(1) by (intro bexI [of _ t]) simp_all
  moreover have "length (segs (cr_address r)) \<le> length (segs (cr_address row)) + 9" using path by simp
  moreover have "cr_extrinsic r = cr_extrinsic row" using seed(3) by (simp add: subtree_row_def)
  ultimately show ?thesis using seed(2) by blast
qed

lemma synthesized_from:
  "r \<in> set (fst (synthesizeNestedCallRows inp)) \<longleftrightarrow> (\<exists>row \<in> set (syn_rows inp). r \<in> set (fst (synthesize_row inp row)))"
  by (simp add: synthesizeNestedCallRows_def Let_def)

lemma concat_map_filter: "(\<And>x. \<not> P x \<Longrightarrow> f x = []) \<Longrightarrow> concat (map f xs) = concat (map f (filter P xs))"
  by (induction xs) auto

lemma synthesized_rows:
  "fst (synthesizeNestedCallRows inp) = concat (map (\<lambda>row. fst (synthesize_row inp row)) (keyed_rows (syn_rows inp)))"
proof -
  have "fst (synthesize_row inp row) = []" if "\<not> cr_extrinsic row \<noteq> None" for row
    using that by (simp add: synthesize_row_def)
  from concat_map_filter [where P = "\<lambda>row. cr_extrinsic row \<noteq> None", OF this] show ?thesis
    unfolding keyed_rows_def synthesizeNestedCallRows_def Let_def by (simp add: o_def)
qed

lemma synthesized_distinct:
  assumes "upstream_rows (syn_rows inp)"
  shows "distinct (map call_key (fst (synthesizeNestedCallRows inp)))"
proof -
  let ?f = "\<lambda>row. map call_key (fst (synthesize_row inp row))"
  have up: "upstream_address (cr_address row)" if "row \<in> set (keyed_rows (syn_rows inp))" for row
    using assms that by (auto simp: upstream_rows_def list_all_iff keyed_rows_def)
  have "distinct (concat (map ?f (keyed_rows (syn_rows inp))))"
  proof (rule distinct_concat_keys [where k = call_key and g = "\<lambda>(e, a). (e, join_with ''.'' (wrapper_part a))"])
    show "distinct (map call_key (keyed_rows (syn_rows inp)))" using assms by (simp add: upstream_rows_def)
    show "distinct (?f row)" for row
    proof -
      have "distinct (map snd (?f row))" using synthesize_row_distinct by (simp add: call_key_def o_def)
      then show ?thesis by (metis distinct_map)
    qed
    show "(\<lambda>(e, a). (e, join_with ''.'' (wrapper_part a))) key = call_key row"
      if row: "row \<in> set (keyed_rows (syn_rows inp))" and key: "key \<in> set (?f row)" for row key
    proof -
      obtain r where r: "r \<in> set (fst (synthesize_row inp row))" "key = call_key r" using key by auto
      from synthesized_path [OF r(1) up [OF row]] show ?thesis
        by (simp add: r(2) call_key_def segs_def join_split_on)
    qed
  qed
  then show ?thesis by (simp add: synthesized_rows map_concat o_def)
qed

text \<open>A row's parent, among the rows given.\<close>

definition parent_among :: "call_row list \<Rightarrow> call_row \<Rightarrow> bool" where
  "parent_among rows r \<longleftrightarrow> (\<exists>p \<in> set rows. cr_extrinsic p = cr_extrinsic r \<and> cr_parent r = Some (cr_address p))"

lemma synthesized_parent:
  assumes "r \<in> set (fst (synthesizeNestedCallRows inp))"
  shows "(\<exists>p \<in> set (fst (synthesizeNestedCallRows inp)). cr_extrinsic p = cr_extrinsic r
        \<and> cr_parent r = Some (cr_address p) \<and> (cr_success r = Some 1 \<longrightarrow> warrants p r))
    \<or> (\<exists>p \<in> set (keyed_rows (syn_rows inp)). cr_extrinsic p = cr_extrinsic r
        \<and> cr_parent r = Some (cr_address p) \<and> (cr_success r = Some 1 \<longrightarrow> warrants p r \<and>
          (cr_name p = ''Ethereum.transact'' \<longrightarrow>
             Option.bind (Option.bind (cr_extrinsic p) (map_of (evmExecutionByExtrinsic inp))) exitKind = Some ''Succeed'')))"
proof -
  obtain row where row: "row \<in> set (syn_rows inp)" "r \<in> set (fst (synthesize_row inp row))"
    using assms by (auto simp: synthesized_from)
  obtain seed ws where seed: "dispatchedCallFromRow row inp = (Some seed, ws)" "cr_extrinsic row \<noteq> None"
    "subtree_row seed row MAX_SYNTHETIC_DEPTH (fst (synthesize_row inp row)) r"
    "fst (synthesize_row inp row) = fst (emitSubtree seed row inp 0)"
    using synthesize_row_rows [OF row(2)] by blast
  show ?thesis
  proof (cases "r = row_of_node seed row")
    case True
    obtain x where x: "cr_extrinsic row = Some x" using seed(2) by blast
    have "row \<in> set (keyed_rows (syn_rows inp))" using row(1) x by (simp add: keyed_rows_def)
    with seed_cases [OF seed(1) x] x show ?thesis
      by (intro disjI2 bexI [of _ row]) (simp_all add: True warrants_def)
  next
    case False
    with seed(3) obtain p where p: "p \<in> set (fst (synthesize_row inp row))" "cr_parent r = Some (cr_address p)"
      "cr_success r = Some 1 \<longrightarrow> warrants p r" by (auto simp: subtree_row_def)
    have "subtree_row seed row MAX_SYNTHETIC_DEPTH (fst (synthesize_row inp row)) p"
      using emitSubtree_rows [of 0 p seed row inp] p(1) seed(4) by simp
    then have "cr_extrinsic p = cr_extrinsic r" using seed(3) by (simp add: subtree_row_def)
    with p row show ?thesis by (intro disjI1 bexI [of _ p]) (auto simp: synthesized_from)
  qed
qed

text \<open>Synthetic rows extend the tree of a block's calls without a collision. With the addresses the upstream parser
  writes, the replacement key (extrinsic and address) of every row, stored or synthetic, is its own, and
  the parent of every synthetic row is a row of its extrinsic.\<close>

lemma synthetic_rows_own_keys:
  assumes "upstream_rows (syn_rows inp)"
  shows "distinct (map call_key (fst (synthesizeNestedCallRows inp) @ keyed_rows (syn_rows inp)))
    \<and> list_all (parent_among (fst (synthesizeNestedCallRows inp) @ keyed_rows (syn_rows inp)))
        (fst (synthesizeNestedCallRows inp))"
proof -
  have up: "upstream_address (cr_address row)" if "row \<in> set (syn_rows inp)" for row
    using assms that by (simp add: upstream_rows_def list_all_iff)
  have "call_key r \<noteq> call_key row" if r: "r \<in> set (fst (synthesizeNestedCallRows inp))" and row: "row \<in> set (syn_rows inp)" for r row
  proof -
    obtain w where w: "w \<in> set (syn_rows inp)" "r \<in> set (fst (synthesize_row inp w))" using r by (auto simp: synthesized_from)
    obtain s where s: "s \<in> set (segs (cr_address r))" "s = ''evm'' \<or> s = ''inner''"
      using synthesized_path [OF w(2) up [OF w(1)]] by blast
    have "cr_address r \<noteq> cr_address row"
    proof
      assume "cr_address r = cr_address row"
      with s(1) upstream_segment [OF up [OF row], of s] s(2) show False by argo
    qed
    then show ?thesis by (simp add: call_key_def)
  qed
  then have "call_key ` set (fst (synthesizeNestedCallRows inp)) \<inter> call_key ` set (keyed_rows (syn_rows inp)) = {}"
    by (fastforce simp: keyed_rows_def)
  moreover have "distinct (map call_key (keyed_rows (syn_rows inp)))" using assms by (simp add: upstream_rows_def)
  moreover have "list_all (parent_among (fst (synthesizeNestedCallRows inp) @ keyed_rows (syn_rows inp)))
      (fst (synthesizeNestedCallRows inp))"
    unfolding list_all_iff parent_among_def using synthesized_parent by (metis UnI1 UnI2 set_append)
  ultimately show ?thesis using synthesized_distinct [OF assms] by simp
qed

text \<open>C12: Success is never guessed. A synthetic row is successful only where the chain says so: its parent row, of the same
  extrinsic, is successful and of a kind whose success tells its inner call's (no batch that goes on after a
  failure, no proxy, no \<open>EVM.call\<close>), and for the call of an EVM transaction the execution's exit reason
  is a success.\<close>

theorem success_is_warranted:
  assumes "r \<in> set (fst (synthesizeNestedCallRows inp))" and "cr_success r = Some 1"
  shows "(\<exists>p \<in> set (fst (synthesizeNestedCallRows inp)). warrants p r)
    \<or> (\<exists>p \<in> set (keyed_rows (syn_rows inp)). warrants p r
        \<and> (cr_name p \<noteq> ''Ethereum.transact''
           \<or> Option.bind (Option.bind (cr_extrinsic p) (map_of (evmExecutionByExtrinsic inp))) exitKind = Some ''Succeed''))"
  using synthesized_parent [OF assms(1)] assms(2) by blast

text \<open>C40: The walk ends whatever the decoder answers, a call that decodes to itself included: no synthetic row lies more
  than nine levels below the wrapper it came from.\<close>

theorem synthesis_depth_bounded:
  assumes "upstream_rows (syn_rows inp)" and "r \<in> set (fst (synthesizeNestedCallRows inp))"
  shows "\<exists>w \<in> set (syn_rows inp). cr_extrinsic r = cr_extrinsic w
    \<and> take (length (segs (cr_address w))) (segs (cr_address r)) = segs (cr_address w)
    \<and> length (segs (cr_address r)) \<le> length (segs (cr_address w)) + 9"
proof -
  obtain w where w: "w \<in> set (syn_rows inp)" "r \<in> set (fst (synthesize_row inp w))"
    using assms(2) by (auto simp: synthesized_from)
  have "upstream_address (cr_address w)" using assms(1) w(1) by (simp add: upstream_rows_def list_all_iff)
  from synthesized_path [OF w(2) this] have path: "cr_extrinsic r = cr_extrinsic w"
    "wrapper_part (cr_address r) = segs (cr_address w)" "length (segs (cr_address r)) \<le> length (segs (cr_address w)) + 9"
    by blast+
  have "take (length (wrapper_part (cr_address r))) (segs (cr_address r)) = wrapper_part (cr_address r)"
    unfolding wrapper_part_def by (rule takeWhile_eq_take [symmetric])
  then have "take (length (segs (cr_address w))) (segs (cr_address r)) = segs (cr_address w)" by (simp only: path(2))
  with path(1,3) w(1) show ?thesis by (intro bexI [of _ w] conjI)
qed

section \<open>A decoder that loops\<close>

text \<open>A gasless call whose payload decodes to itself.\<close>

definition permit_args :: json where
  "permit_args = JObj [(''to'', JStr DISPATCH_PRECOMPILE), (''data'', JStr ''0x'')]"

definition looping_input :: synthesis_input where
  "looping_input =
     \<lparr>syn_rows = [\<lparr>cr_block = 5, cr_timestamp = [], cr_extrinsic = Some 2, cr_address = ''root'', cr_parent = None,
        cr_name = ''MultiTransactionPayment.dispatch_permit'', cr_origin = None, cr_args = Some permit_args,
        cr_success = Some 1, cr_error = None, cr_ingest_source = []\<rparr>],
      evmExecutionByExtrinsic = [],
      decodeCall = (\<lambda>hex. Inr \<lparr>dc_name = ''MultiTransactionPayment.dispatch_permit'', dc_args = permit_args\<rparr>)\<rparr>"

lemma looping_upstream: "upstream_rows (syn_rows looping_input)"
proof -
  have "upstream_address ''root''" unfolding upstream_address_def by (rule exI [of _ "[]"]) (simp add: callAddressToString_def)
  then show ?thesis by (simp add: upstream_rows_def looping_input_def keyed_rows_def)
qed

lemma looping_rows: "map cr_address (fst (synthesizeNestedCallRows looping_input)) =
    map (\<lambda>k. ''root'' @ concat (replicate k ''.evm'')) [1, 2, 3, 4, 5, 6, 7, 8, 9]"
  by code_simp

lemma looping_last:
  "last (fst (synthesizeNestedCallRows looping_input)) \<in> set (fst (synthesizeNestedCallRows looping_input))"
  using looping_rows [THEN arg_cong, of length] by (intro last_in_set) auto

lemma looping_success: "map cr_success (fst (synthesizeNestedCallRows looping_input)) = replicate 9 (Some 1)"
  by code_simp

theorem success_is_warranted_witness:
  "\<exists>p \<in> set (fst (synthesizeNestedCallRows looping_input) @ keyed_rows (syn_rows looping_input)).
     warrants p (last (fst (synthesizeNestedCallRows looping_input)))"
proof -
  have "set (map cr_success (fst (synthesizeNestedCallRows looping_input))) = {Some 1}"
    unfolding looping_success by simp
  then have "cr_success (last (fst (synthesizeNestedCallRows looping_input))) = Some 1"
    using looping_last by auto
  from success_is_warranted [OF looping_last this] show ?thesis by auto
qed

theorem synthesis_depth_bounded_witness:
  "length (segs (cr_address (last (fst (synthesizeNestedCallRows looping_input))))) \<le> 10"
proof -
  have "segs ''root'' = [''root'']" by code_simp
  then show ?thesis
    using synthesis_depth_bounded [OF looping_upstream looping_last] by (auto simp: looping_input_def)
qed

end
