(* ===== verification/Pool_Cache.thy ===== *)
theory Pool_Cache
  imports Raw_Rows
begin

text \<open>
  The composition of the pools at a block (\<^verbatim>\<open>src/pool/compositionCache.ts\<close>): which assets the Omnipool
  holds, which XYK and stableswap pools exist, read from storage once and then kept up to date from
  the blocks' events.

  The storage of a block is an argument: per pallet, whether its codec fits the runtime, and the pairs it
  enumerates. A method that throws gives \<open>Inl\<close> of the message beside the cache it leaves,
  with what it assigned before the throw. The arrays a getter returns are the cache's own in the code; the
  model returns their value at the call.
\<close>

section \<open>State\<close>

record xyk_pool_entry =
  poolAccount :: string
  xyk_assetA :: int
  xyk_assetB :: int

record stableswap_pool_entry =
  sp_poolId :: int
  sp_assets :: "int list"
  initialAmplification :: int
  finalAmplification :: int
  initialBlock :: int
  finalBlock :: int
  sp_fee :: int

record pool_info =
  info_assets :: "int list"
  info_initialAmplification :: int
  info_finalAmplification :: int
  info_initialBlock :: int
  info_finalBlock :: int
  info_fee :: int

text \<open>The storage of a block: the codec check of each pallet and the pairs of its map, an undefined value \<^const>\<open>None\<close>,
  or the error its read ends in. The asset state of the Omnipool is not looked at.\<close>

record pool_storage =
  sto_height :: int
  omnipool_is :: bool
  omnipool_pairs :: "string + (int \<times> json option) list"
  xyk_is :: bool
  xyk_pairs :: "string + (string \<times> (int \<times> int) option) list"
  stableswap_is :: bool
  stableswap_pairs :: "string + (int \<times> pool_info option) list"

record pool_cache =
  omnipoolAssets :: "int list option"
  xykPools :: "xyk_pool_entry list option"
  stableswapPools :: "stableswap_pool_entry list option"
  omnipoolBootstrapped :: bool
  xykBootstrapped :: bool
  stableswapBootstrapped :: bool
  omnipoolSupported :: bool
  xykSupported :: bool
  stableswapSupported :: bool

definition new_pool_cache :: pool_cache where
  "new_pool_cache =
     \<lparr>omnipoolAssets = None, xykPools = None, stableswapPools = None,
      omnipoolBootstrapped = False, xykBootstrapped = False, stableswapBootstrapped = False,
      omnipoolSupported = False, xykSupported = False, stableswapSupported = False\<rparr>"

section \<open>Arguments of an event\<close>

definition eventArgs :: "json \<Rightarrow> string \<Rightarrow> string + json" where
  "eventArgs value eventName =
     (if is_nullish value \<or> \<not> js_typeof_object value then Inl (eventName @ '' has no decodable arguments'') else Inr value)"

definition is_count :: "json \<Rightarrow> bool" where
  "is_count v = (case v of JNum n \<Rightarrow> is_safe_integer n \<and> 0 \<le> n | _ \<Rightarrow> False)"

definition num_of :: "json \<Rightarrow> int" where
  "num_of v = (case v of JNum n \<Rightarrow> n | _ \<Rightarrow> 0)"

definition numberArg :: "json \<Rightarrow> string \<Rightarrow> string \<Rightarrow> string + int" where
  "numberArg args name eventName =
     (if is_count (get_prop args name) then Inr (num_of (get_prop args name))
      else Inl (eventName @ ''.'' @ name @ '' is not a non-negative integer''))"

definition stringArg :: "json \<Rightarrow> string \<Rightarrow> string \<Rightarrow> string + string" where
  "stringArg args name eventName =
     (case get_prop args name of
        JStr s \<Rightarrow> if s = [] then Inl (eventName @ ''.'' @ name @ '' is not a non-empty string'') else Inr s
      | _ \<Rightarrow> Inl (eventName @ ''.'' @ name @ '' is not a non-empty string''))"

definition numberArrayArg :: "json \<Rightarrow> string \<Rightarrow> string \<Rightarrow> string + int list" where
  "numberArrayArg args name eventName =
     (case get_prop args name of
        JArr xs \<Rightarrow>
          if list_all is_count xs then Inr (map num_of xs)
          else Inl (eventName @ ''.'' @ name @ '' is not an array of non-negative integers'')
      | _ \<Rightarrow> Inl (eventName @ ''.'' @ name @ '' is not an array of non-negative integers''))"

text \<open>Reading several arguments in turn, the first that throws first.\<close>

definition and_then :: "'e + 'a \<Rightarrow> ('a \<Rightarrow> 'e + 'b) \<Rightarrow> 'e + 'b" where
  "and_then r f = (case r of Inl e \<Rightarrow> Inl e | Inr x \<Rightarrow> f x)"

section \<open>Events\<close>

record pool_changes =
  omnipoolChanged :: bool
  xykChanged :: bool
  stableswapChanged :: bool

definition no_changes :: pool_changes where
  "no_changes = \<lparr>omnipoolChanged = False, xykChanged = False, stableswapChanged = False\<rparr>"

type_synonym cache_result = "(string + pool_changes) \<times> pool_cache"

text \<open>The first entry with the key of a new one is replaced, otherwise it is appended
  (\<open>findIndex\<close>, then \<open>push\<close> or an assignment).\<close>

fun upsert :: "('a \<Rightarrow> 'b) \<Rightarrow> 'a \<Rightarrow> 'a list \<Rightarrow> 'a list" where
  "upsert key x [] = [x]"
| "upsert key x (y # ys) = (if key y = key x then x # ys else y # upsert key x ys)"

text \<open>Mutating the first entry \<open>find\<close> gives.\<close>

fun update_first :: "('a \<Rightarrow> bool) \<Rightarrow> ('a \<Rightarrow> 'a) \<Rightarrow> 'a list \<Rightarrow> 'a list" where
  "update_first P f [] = []"
| "update_first P f (x # xs) = (if P x then f x # xs else x # update_first P f xs)"

definition token_added :: "string \<Rightarrow> json \<Rightarrow> pool_changes \<Rightarrow> pool_cache \<Rightarrow> cache_result" where
  "token_added name args ch c =
     (case and_then (eventArgs args name) (\<lambda>a. numberArg a ''assetId'' name) of
        Inl e \<Rightarrow> (Inl e, c)
      | Inr assetId \<Rightarrow>
          (Inr (ch\<lparr>omnipoolChanged := True\<rparr>),
           c\<lparr>omnipoolAssets := map_option (set_add assetId) (omnipoolAssets c)\<rparr>))"

definition token_removed :: "string \<Rightarrow> json \<Rightarrow> pool_changes \<Rightarrow> pool_cache \<Rightarrow> cache_result" where
  "token_removed name args ch c =
     (case and_then (eventArgs args name) (\<lambda>a. numberArg a ''assetId'' name) of
        Inl e \<Rightarrow> (Inl e, c)
      | Inr assetId \<Rightarrow>
          (Inr (ch\<lparr>omnipoolChanged := True\<rparr>),
           c\<lparr>omnipoolAssets := map_option (filter (\<lambda>i. i \<noteq> assetId)) (omnipoolAssets c)\<rparr>))"

definition xyk_entry_args :: "string \<Rightarrow> json \<Rightarrow> string + xyk_pool_entry" where
  "xyk_entry_args name a =
     and_then (stringArg a ''pool'' name) (\<lambda>account.
     and_then (numberArg a ''assetA'' name) (\<lambda>x.
     and_then (numberArg a ''assetB'' name) (\<lambda>y.
       Inr \<lparr>poolAccount = account, xyk_assetA = x, xyk_assetB = y\<rparr>)))"

definition xyk_pool_created :: "string \<Rightarrow> json \<Rightarrow> pool_changes \<Rightarrow> pool_cache \<Rightarrow> cache_result" where
  "xyk_pool_created name args ch c =
     (case eventArgs args name of Inl e \<Rightarrow> (Inl e, c)
      | Inr a \<Rightarrow>
         (case xykPools c of
            None \<Rightarrow> (Inr (ch\<lparr>xykChanged := True\<rparr>), c)
          | Some pools \<Rightarrow>
             (case xyk_entry_args name a of Inl e \<Rightarrow> (Inl e, c)
              | Inr entry \<Rightarrow>
                  (Inr (ch\<lparr>xykChanged := True\<rparr>), c\<lparr>xykPools := Some (upsert poolAccount entry pools)\<rparr>))))"

text \<open>The pool is out before the log line reads the two assets, so a missing one throws after the removal.\<close>

definition xyk_pool_destroyed :: "string \<Rightarrow> json \<Rightarrow> pool_changes \<Rightarrow> pool_cache \<Rightarrow> cache_result" where
  "xyk_pool_destroyed name args ch c =
     (case and_then (eventArgs args name) (\<lambda>a. and_then (stringArg a ''pool'' name) (\<lambda>s. Inr (a, s))) of
        Inl e \<Rightarrow> (Inl e, c)
      | Inr (a, account) \<Rightarrow>
         (case xykPools c of
            None \<Rightarrow> (Inr (ch\<lparr>xykChanged := True\<rparr>), c)
          | Some pools \<Rightarrow>
             (let c' = c\<lparr>xykPools := Some (filter (\<lambda>p. poolAccount p \<noteq> account) pools)\<rparr>
              in case and_then (numberArg a ''assetA'' name) (\<lambda>_. numberArg a ''assetB'' name) of
                   Inl e \<Rightarrow> (Inl e, c')
                 | Inr _ \<Rightarrow> (Inr (ch\<lparr>xykChanged := True\<rparr>), c'))))"

definition stableswap_entry_args :: "string \<Rightarrow> json \<Rightarrow> string + stableswap_pool_entry" where
  "stableswap_entry_args name a =
     and_then (numberArg a ''poolId'' name) (\<lambda>poolId.
     and_then (numberArrayArg a ''assets'' name) (\<lambda>assets.
     and_then (numberArg a ''amplification'' name) (\<lambda>amplification.
     and_then (numberArg a ''fee'' name) (\<lambda>fee.
       Inr \<lparr>sp_poolId = poolId, sp_assets = assets, initialAmplification = amplification,
            finalAmplification = amplification, initialBlock = 0, finalBlock = 0, sp_fee = fee\<rparr>))))"

definition stableswap_pool_created :: "string \<Rightarrow> json \<Rightarrow> pool_changes \<Rightarrow> pool_cache \<Rightarrow> cache_result" where
  "stableswap_pool_created name args ch c =
     (case eventArgs args name of Inl e \<Rightarrow> (Inl e, c)
      | Inr a \<Rightarrow>
         (case stableswapPools c of
            None \<Rightarrow> (Inr (ch\<lparr>stableswapChanged := True\<rparr>), c)
          | Some pools \<Rightarrow>
             (case stableswap_entry_args name a of Inl e \<Rightarrow> (Inl e, c)
              | Inr entry \<Rightarrow>
                  (Inr (ch\<lparr>stableswapChanged := True\<rparr>),
                   c\<lparr>stableswapPools := Some (upsert sp_poolId entry pools)\<rparr>))))"

text \<open>Assignments to an entry's fields in turn, each reading its argument first: the ones before a throw stay.\<close>

fun assign_args ::
  "(string \<times> (int \<Rightarrow> 'a \<Rightarrow> 'a)) list \<Rightarrow> json \<Rightarrow> string \<Rightarrow> 'a \<Rightarrow> string option \<times> 'a" where
  "assign_args [] a name entry = (None, entry)"
| "assign_args ((arg, assign) # rest) a name entry =
     (case numberArg a arg name of
        Inl e \<Rightarrow> (Some e, entry)
      | Inr v \<Rightarrow> assign_args rest a name (assign v entry))"

definition ramp_assignments :: "(string \<times> (int \<Rightarrow> stableswap_pool_entry \<Rightarrow> stableswap_pool_entry)) list" where
  "ramp_assignments =
     [(''currentAmplification'', \<lambda>v. initialAmplification_update (\<lambda>_. v)),
      (''finalAmplification'', \<lambda>v. finalAmplification_update (\<lambda>_. v)),
      (''startBlock'', \<lambda>v. initialBlock_update (\<lambda>_. v)),
      (''endBlock'', \<lambda>v. finalBlock_update (\<lambda>_. v))]"

definition fee_assignments :: "(string \<times> (int \<Rightarrow> stableswap_pool_entry \<Rightarrow> stableswap_pool_entry)) list" where
  "fee_assignments = [(''fee'', \<lambda>v. sp_fee_update (\<lambda>_. v))]"

text \<open>\<open>AmplificationChanging\<close> and \<open>FeeUpdated\<close> differ in the fields they assign.\<close>

definition stableswap_pool_updated ::
  "(string \<times> (int \<Rightarrow> stableswap_pool_entry \<Rightarrow> stableswap_pool_entry)) list \<Rightarrow> string \<Rightarrow> json
   \<Rightarrow> pool_changes \<Rightarrow> pool_cache \<Rightarrow> cache_result" where
  "stableswap_pool_updated assignments name args ch c =
     (case and_then (eventArgs args name) (\<lambda>a. and_then (numberArg a ''poolId'' name) (\<lambda>i. Inr (a, i))) of
        Inl e \<Rightarrow> (Inl e, c)
      | Inr (a, poolId) \<Rightarrow>
         (let pools = (case stableswapPools c of None \<Rightarrow> [] | Some ps \<Rightarrow> ps)
          in case List.find (\<lambda>p. sp_poolId p = poolId) pools of
               None \<Rightarrow> (Inr (ch\<lparr>stableswapChanged := True\<rparr>), c)
             | Some entry \<Rightarrow>
                (let (err, entry') = assign_args assignments a name entry;
                     c' = c\<lparr>stableswapPools := Some (update_first (\<lambda>p. sp_poolId p = poolId) (\<lambda>_. entry') pools)\<rparr>
                 in case err of
                      Some e \<Rightarrow> (Inl e, c')
                    | None \<Rightarrow> (Inr (ch\<lparr>stableswapChanged := True\<rparr>), c'))))"

definition process_event :: "string \<times> json \<Rightarrow> pool_changes \<Rightarrow> pool_cache \<Rightarrow> cache_result" where
  "process_event ev ch c =
     (let (name, args) = ev in
      if name = ''Omnipool.TokenAdded'' then token_added name args ch c
      else if name = ''Omnipool.TokenRemoved'' then token_removed name args ch c
      else if name = ''XYK.PoolCreated'' then xyk_pool_created name args ch c
      else if name = ''XYK.PoolDestroyed'' then xyk_pool_destroyed name args ch c
      else if name = ''Stableswap.PoolCreated'' then stableswap_pool_created name args ch c
      else if name = ''Stableswap.AmplificationChanging'' then stableswap_pool_updated ramp_assignments name args ch c
      else if name = ''Stableswap.FeeUpdated'' then stableswap_pool_updated fee_assignments name args ch c
      else (Inr ch, c))"

fun event_loop :: "(string \<times> json) list \<Rightarrow> pool_changes \<Rightarrow> pool_cache \<Rightarrow> cache_result" where
  "event_loop [] ch c = (Inr ch, c)"
| "event_loop (ev # events) ch c =
     (case process_event ev ch c of
        (Inl e, c') \<Rightarrow> (Inl e, c')
      | (Inr ch', c') \<Rightarrow> event_loop events ch' c')"

definition processEvents :: "(string \<times> json) list \<Rightarrow> pool_cache \<Rightarrow> cache_result" where
  "processEvents events c = event_loop events no_changes c"

definition invalidateAll :: "pool_cache \<Rightarrow> pool_cache" where
  "invalidateAll c =
     c\<lparr>omnipoolBootstrapped := False, omnipoolAssets := None,
       xykBootstrapped := False, xykPools := None,
       stableswapBootstrapped := False, stableswapPools := None\<rparr>"

section \<open>Reads\<close>

definition unsupported_storage :: "string \<Rightarrow> int \<Rightarrow> string" where
  "unsupported_storage what height = ''Unsupported '' @ what @ '' storage at block '' @ int_to_string height"

definition defined_pairs :: "('k \<times> 'v option) list \<Rightarrow> ('k \<times> 'v option) list" where
  "defined_pairs pairs = filter (\<lambda>(_, v). v \<noteq> None) pairs"

definition getOmnipoolAssets :: "pool_storage \<Rightarrow> pool_cache \<Rightarrow> (string + int list option) \<times> pool_cache" where
  "getOmnipoolAssets sto c =
     (if \<not> omnipool_is sto then
        (if omnipoolSupported c then Inl (unsupported_storage ''Omnipool.Assets'' (sto_height sto)) else Inr None, c)
      else
        (let c = c\<lparr>omnipoolSupported := True\<rparr> in
         if omnipoolBootstrapped c then (Inr (omnipoolAssets c), c)
         else case omnipool_pairs sto of
                Inl e \<Rightarrow> (Inl e, c)
              | Inr pairs \<Rightarrow>
                  (let c = c\<lparr>omnipoolAssets := Some (map fst (defined_pairs pairs)),
                             omnipoolBootstrapped := True\<rparr>
                   in (Inr (omnipoolAssets c), c))))"

definition xyk_entry_of :: "string \<times> (int \<times> int) option \<Rightarrow> xyk_pool_entry" where
  "xyk_entry_of p = \<lparr>poolAccount = fst p, xyk_assetA = fst (the (snd p)), xyk_assetB = snd (the (snd p))\<rparr>"

definition getXYKPools :: "pool_storage \<Rightarrow> pool_cache \<Rightarrow> (string + xyk_pool_entry list option) \<times> pool_cache" where
  "getXYKPools sto c =
     (if \<not> xyk_is sto then
        (if xykSupported c then Inl (unsupported_storage ''XYK.PoolAssets'' (sto_height sto)) else Inr None, c)
      else
        (let c = c\<lparr>xykSupported := True\<rparr> in
         if xykBootstrapped c then (Inr (xykPools c), c)
         else case xyk_pairs sto of
                Inl e \<Rightarrow> (Inl e, c)
              | Inr pairs \<Rightarrow>
                  (let c = c\<lparr>xykPools := Some (map xyk_entry_of (defined_pairs pairs)),
                             xykBootstrapped := True\<rparr>
                   in (Inr (xykPools c), c))))"

definition stableswap_entry_of :: "int \<times> pool_info option \<Rightarrow> stableswap_pool_entry" where
  "stableswap_entry_of p =
     (let poolInfo = the (snd p)
      in \<lparr>sp_poolId = fst p, sp_assets = info_assets poolInfo,
          initialAmplification = info_initialAmplification poolInfo,
          finalAmplification = info_finalAmplification poolInfo,
          initialBlock = info_initialBlock poolInfo, finalBlock = info_finalBlock poolInfo,
          sp_fee = info_fee poolInfo\<rparr>)"

definition getStableswapPools ::
  "pool_storage \<Rightarrow> pool_cache \<Rightarrow> (string + stableswap_pool_entry list option) \<times> pool_cache" where
  "getStableswapPools sto c =
     (if \<not> stableswap_is sto then
        (if stableswapSupported c then Inl (unsupported_storage ''Stableswap.Pools'' (sto_height sto)) else Inr None, c)
      else
        (let c = c\<lparr>stableswapSupported := True\<rparr> in
         if stableswapBootstrapped c then (Inr (stableswapPools c), c)
         else case stableswap_pairs sto of
                Inl e \<Rightarrow> (Inl e, c)
              | Inr pairs \<Rightarrow>
                  (let c = c\<lparr>stableswapPools :=
                               Some (map stableswap_entry_of (defined_pairs pairs)),
                             stableswapBootstrapped := True\<rparr>
                   in (Inr (stableswapPools c), c))))"

section \<open>What the events say\<close>

text \<open>
  The events with their arguments, and what each says about the pools: an abstract specification
  over the set of assets and the pools by account or id. A family that was never read is \<^const>\<open>None\<close>.
\<close>

datatype pool_event =
    TokenAdded int
  | TokenRemoved int
  | XykPoolCreated string int int
  | XykPoolDestroyed string int int
  | StableswapPoolCreated int "int list" int int
  | AmplificationChanging int int int int int
  | FeeUpdated int int
  | OtherEvent string json

definition pool_event_names :: "string list" where
  "pool_event_names =
     [''Omnipool.TokenAdded'', ''Omnipool.TokenRemoved'', ''XYK.PoolCreated'', ''XYK.PoolDestroyed'',
      ''Stableswap.PoolCreated'', ''Stableswap.AmplificationChanging'', ''Stableswap.FeeUpdated'']"

definition count_ok :: "int \<Rightarrow> bool" where
  "count_ok n \<longleftrightarrow> is_safe_integer n \<and> 0 \<le> n"

fun pool_event_ok :: "pool_event \<Rightarrow> bool" where
  "pool_event_ok (TokenAdded i) = count_ok i"
| "pool_event_ok (TokenRemoved i) = count_ok i"
| "pool_event_ok (XykPoolCreated s x y) = (s \<noteq> [] \<and> count_ok x \<and> count_ok y)"
| "pool_event_ok (XykPoolDestroyed s x y) = (s \<noteq> [] \<and> count_ok x \<and> count_ok y)"
| "pool_event_ok (StableswapPoolCreated i assets amp fee) = (count_ok i \<and> list_all count_ok assets \<and> count_ok amp \<and> count_ok fee)"
| "pool_event_ok (AmplificationChanging i now final start end') =
     (count_ok i \<and> count_ok now \<and> count_ok final \<and> count_ok start \<and> count_ok end')"
| "pool_event_ok (FeeUpdated i fee) = (count_ok i \<and> count_ok fee)"
| "pool_event_ok (OtherEvent name args) = (name \<notin> set pool_event_names)"

fun encode_event :: "pool_event \<Rightarrow> string \<times> json" where
  "encode_event (TokenAdded i) = (''Omnipool.TokenAdded'', JObj [(''assetId'', JNum i)])"
| "encode_event (TokenRemoved i) = (''Omnipool.TokenRemoved'', JObj [(''assetId'', JNum i)])"
| "encode_event (XykPoolCreated s x y) =
     (''XYK.PoolCreated'', JObj [(''assetA'', JNum x), (''assetB'', JNum y), (''pool'', JStr s)])"
| "encode_event (XykPoolDestroyed s x y) =
     (''XYK.PoolDestroyed'', JObj [(''assetA'', JNum x), (''assetB'', JNum y), (''pool'', JStr s)])"
| "encode_event (StableswapPoolCreated i assets amp fee) =
     (''Stableswap.PoolCreated'',
      JObj [(''poolId'', JNum i), (''assets'', JArr (map JNum assets)), (''amplification'', JNum amp), (''fee'', JNum fee)])"
| "encode_event (AmplificationChanging i now final start end') =
     (''Stableswap.AmplificationChanging'',
      JObj [(''poolId'', JNum i), (''currentAmplification'', JNum now), (''finalAmplification'', JNum final),
            (''startBlock'', JNum start), (''endBlock'', JNum end')])"
| "encode_event (FeeUpdated i fee) = (''Stableswap.FeeUpdated'', JObj [(''poolId'', JNum i), (''fee'', JNum fee)])"
| "encode_event (OtherEvent name args) = (name, args)"

record pools_view =
  view_assets :: "int set option"
  view_xyk :: "(string \<rightharpoonup> xyk_pool_entry) option"
  view_stableswap :: "(int \<rightharpoonup> stableswap_pool_entry) option"

fun says :: "pool_event \<Rightarrow> pools_view \<Rightarrow> pools_view" where
  "says (TokenAdded i) v = v\<lparr>view_assets := map_option (insert i) (view_assets v)\<rparr>"
| "says (TokenRemoved i) v = v\<lparr>view_assets := map_option (\<lambda>A. A - {i}) (view_assets v)\<rparr>"
| "says (XykPoolCreated s x y) v =
     v\<lparr>view_xyk := map_option (\<lambda>m. m(s \<mapsto> \<lparr>poolAccount = s, xyk_assetA = x, xyk_assetB = y\<rparr>)) (view_xyk v)\<rparr>"
| "says (XykPoolDestroyed s x y) v = v\<lparr>view_xyk := map_option (\<lambda>m. m(s := None)) (view_xyk v)\<rparr>"
| "says (StableswapPoolCreated i assets amp fee) v =
     v\<lparr>view_stableswap := map_option (\<lambda>m. m(i \<mapsto>
         \<lparr>sp_poolId = i, sp_assets = assets, initialAmplification = amp, finalAmplification = amp,
          initialBlock = 0, finalBlock = 0, sp_fee = fee\<rparr>)) (view_stableswap v)\<rparr>"
| "says (AmplificationChanging i now final start end') v =
     v\<lparr>view_stableswap := map_option (\<lambda>m. m(i := map_option (\<lambda>p.
         p\<lparr>initialAmplification := now, finalAmplification := final, initialBlock := start,
           finalBlock := end'\<rparr>) (m i))) (view_stableswap v)\<rparr>"
| "says (FeeUpdated i fee) v =
     v\<lparr>view_stableswap := map_option (\<lambda>m. m(i := map_option (\<lambda>p. p\<lparr>sp_fee := fee\<rparr>) (m i))) (view_stableswap v)\<rparr>"
| "says (OtherEvent name args) v = v"

definition index_by :: "('a \<Rightarrow> 'k) \<Rightarrow> 'a list \<Rightarrow> 'k \<rightharpoonup> 'a" where
  "index_by key xs = (\<lambda>k. List.find (\<lambda>x. key x = k) xs)"

definition view_of :: "pool_cache \<Rightarrow> pools_view" where
  "view_of c =
     \<lparr>view_assets = map_option set (omnipoolAssets c),
      view_xyk = map_option (index_by poolAccount) (xykPools c),
      view_stableswap = map_option (index_by sp_poolId) (stableswapPools c)\<rparr>"

lemma index_by_upsert [simp]: "index_by key (upsert key x xs) = (index_by key xs)(key x \<mapsto> x)"
  by (induction xs) (auto simp: index_by_def fun_eq_iff)

lemma index_by_filter [simp]: "index_by key (filter (\<lambda>x. key x \<noteq> k) xs) = (index_by key xs)(k := None)"
  by (induction xs) (auto simp: index_by_def fun_eq_iff)

lemma index_by_update_first:
  assumes "index_by key xs k = Some x" "key x' = k"
  shows "index_by key (update_first (\<lambda>y. key y = k) (\<lambda>_. x') xs) = (index_by key xs)(k \<mapsto> x')"
  using assms by (induction xs) (auto simp: index_by_def fun_eq_iff)

lemma index_by_key: "index_by key xs k = Some x \<Longrightarrow> key x = k"
  by (auto simp: index_by_def find_Some_iff)

text \<open>Which families an event reports as changed.\<close>

fun reports :: "pool_event \<Rightarrow> pool_changes \<Rightarrow> pool_changes" where
  "reports (TokenAdded i) ch = ch\<lparr>omnipoolChanged := True\<rparr>"
| "reports (TokenRemoved i) ch = ch\<lparr>omnipoolChanged := True\<rparr>"
| "reports (XykPoolCreated s x y) ch = ch\<lparr>xykChanged := True\<rparr>"
| "reports (XykPoolDestroyed s x y) ch = ch\<lparr>xykChanged := True\<rparr>"
| "reports (StableswapPoolCreated i assets amp fee) ch = ch\<lparr>stableswapChanged := True\<rparr>"
| "reports (AmplificationChanging i now final start end') ch = ch\<lparr>stableswapChanged := True\<rparr>"
| "reports (FeeUpdated i fee) ch = ch\<lparr>stableswapChanged := True\<rparr>"
| "reports (OtherEvent name args) ch = ch"

lemmas arg_defs = eventArgs_def numberArg_def stringArg_def numberArrayArg_def is_count_def num_of_def
  and_then_def get_prop_def is_nullish_def js_typeof_object_def

lemma counts_of_nums [simp]: "list_all is_count (map JNum xs) = list_all count_ok xs" "map num_of (map JNum xs) = xs"
  by (induction xs) (auto simp: is_count_def count_ok_def num_of_def)

lemma num_of_JNum [simp]: "num_of \<circ> JNum = id"
  by (auto simp: num_of_def)

text \<open>An update of the first entry of an id, when every argument is there.\<close>

lemma stableswap_pool_updated_says:
  assumes args: "eventArgs a name = Inr a" "numberArg a ''poolId'' name = Inr i"
    and assign: "\<And>entry. assign_args assignments a name entry = (None, f entry)"
    and key: "\<And>entry. sp_poolId (f entry) = sp_poolId entry"
  shows "\<exists>c'. stableswap_pool_updated assignments name a ch c = (Inr (ch\<lparr>stableswapChanged := True\<rparr>), c') \<and>
    view_of c' = (view_of c)\<lparr>view_stableswap := map_option (\<lambda>m. m(i := map_option f (m i))) (view_stableswap (view_of c))\<rparr>"
proof (cases "stableswapPools c")
  case None
  then show ?thesis by (simp add: stableswap_pool_updated_def args and_then_def view_of_def)
next
  case (Some pools)
  show ?thesis
  proof (cases "index_by sp_poolId pools i")
    case None
    then have "(index_by sp_poolId pools)(i := None) = index_by sp_poolId pools" by auto
    then show ?thesis using None
      by (simp add: stableswap_pool_updated_def args and_then_def Some view_of_def index_by_def)
  next
    case (Some entry)
    then have f: "List.find (\<lambda>p. sp_poolId p = i) pools = Some entry" by (simp add: index_by_def)
    have "sp_poolId (f entry) = i" using key index_by_key [OF Some] by simp
    note u = index_by_update_first [OF Some this]
    show ?thesis using u Some \<open>stableswapPools c = Some pools\<close>
      by (simp add: stableswap_pool_updated_def args and_then_def f assign view_of_def)
  qed
qed

text \<open>One event: the cache does what the event says, and nothing throws.\<close>

lemma process_event_says:
  assumes "pool_event_ok e"
  shows "\<exists>c'. process_event (encode_event e) ch c = (Inr (reports e ch), c') \<and> view_of c' = says e (view_of c)"
proof (cases e)
  case (TokenAdded i)
  show ?thesis using assms
    by (cases "omnipoolAssets c")
      (auto simp: TokenAdded process_event_def token_added_def arg_defs count_ok_def view_of_def)
next
  case (TokenRemoved i)
  show ?thesis using assms
    by (cases "omnipoolAssets c")
      (auto simp: TokenRemoved process_event_def token_removed_def arg_defs count_ok_def view_of_def)
next
  case (XykPoolCreated s x y)
  show ?thesis using assms
    by (cases "xykPools c")
      (auto simp: XykPoolCreated process_event_def xyk_pool_created_def xyk_entry_args_def arg_defs count_ok_def view_of_def)
next
  case (XykPoolDestroyed s x y)
  show ?thesis using assms
    by (cases "xykPools c")
      (auto simp: XykPoolDestroyed process_event_def xyk_pool_destroyed_def arg_defs count_ok_def view_of_def Let_def)
next
  case (StableswapPoolCreated i assets amp fee)
  show ?thesis using assms
    by (cases "stableswapPools c")
      (auto simp: StableswapPoolCreated process_event_def stableswap_pool_created_def stableswap_entry_args_def
        arg_defs count_ok_def view_of_def simp del: list.map_comp)
next
  case (OtherEvent name args)
  then show ?thesis using assms by (auto simp: process_event_def pool_event_names_def)
next
  case (AmplificationChanging i now final start end')
  let ?a = "snd (encode_event e)" and ?n = "''Stableswap.AmplificationChanging''"
  let ?f = "\<lambda>p. p\<lparr>initialAmplification := now, finalAmplification := final, initialBlock := start, finalBlock := end'\<rparr>"
  have "eventArgs ?a ?n = Inr ?a" "numberArg ?a ''poolId'' ?n = Inr i"
    "\<And>entry. assign_args ramp_assignments ?a ?n entry = (None, ?f entry)"
    using assms by (auto simp: AmplificationChanging arg_defs count_ok_def ramp_assignments_def)
  from stableswap_pool_updated_says [OF this] show ?thesis
    by (simp add: AmplificationChanging process_event_def)
next
  case (FeeUpdated i fee)
  let ?a = "snd (encode_event e)" and ?n = "''Stableswap.FeeUpdated''"
  have "eventArgs ?a ?n = Inr ?a" "numberArg ?a ''poolId'' ?n = Inr i"
    "\<And>entry. assign_args fee_assignments ?a ?n entry = (None, entry\<lparr>sp_fee := fee\<rparr>)"
    using assms by (auto simp: FeeUpdated arg_defs count_ok_def fee_assignments_def)
  from stableswap_pool_updated_says [OF this] show ?thesis
    by (simp add: FeeUpdated process_event_def)
qed

lemma event_loop_says:
  assumes "list_all pool_event_ok es"
  shows "\<exists>c'. event_loop (map encode_event es) ch c = (Inr (fold reports es ch), c') \<and>
    view_of c' = fold says es (view_of c)"
  using assms
proof (induction es arbitrary: ch c)
  case (Cons e es)
  then obtain c1 where 1: "process_event (encode_event e) ch c = (Inr (reports e ch), c1)"
      "view_of c1 = says e (view_of c)"
    using process_event_says [of e ch c] by auto
  from Cons obtain c' where "event_loop (map encode_event es) (reports e ch) c1 = (Inr (fold reports es (reports e ch)), c')"
      "view_of c' = fold says es (view_of c1)"
    by fastforce
  with 1 show ?case by auto
qed simp

section \<open>Against storage\<close>

text \<open>The pools a storage enumerates, by key.\<close>

definition storage_keys_ok :: "pool_storage \<Rightarrow> bool" where
  "storage_keys_ok sto =
     ((case omnipool_pairs sto of Inl _ \<Rightarrow> True | Inr ps \<Rightarrow> distinct (map fst ps))
      \<and> (case xyk_pairs sto of Inl _ \<Rightarrow> True | Inr ps \<Rightarrow> distinct (map fst ps))
      \<and> (case stableswap_pairs sto of Inl _ \<Rightarrow> True | Inr ps \<Rightarrow> distinct (map fst ps)))"

definition storage_readable :: "pool_storage \<Rightarrow> bool" where
  "storage_readable sto \<longleftrightarrow>
     omnipool_is sto \<and> xyk_is sto \<and> stableswap_is sto
     \<and> \<not> isl (omnipool_pairs sto) \<and> \<not> isl (xyk_pairs sto) \<and> \<not> isl (stableswap_pairs sto)"

definition stored :: "('k \<times> 'v option) list \<Rightarrow> 'k \<rightharpoonup> 'v" where
  "stored pairs k = (case map_of pairs k of Some v \<Rightarrow> v | None \<Rightarrow> None)"

definition storage_view :: "pool_storage \<Rightarrow> pools_view" where
  "storage_view sto =
     \<lparr>view_assets = Some {i \<in> fst ` set (projr (omnipool_pairs sto)). stored (projr (omnipool_pairs sto)) i \<noteq> None},
      view_xyk = Some (\<lambda>k. map_option (\<lambda>v. xyk_entry_of (k, Some v)) (stored (projr (xyk_pairs sto)) k)),
      view_stableswap =
        Some (\<lambda>k. map_option (\<lambda>v. stableswap_entry_of (k, Some v)) (stored (projr (stableswap_pairs sto)) k))\<rparr>"

text \<open>
  On the chain a new pool's ramp starts and ends at its own block, which its event does not carry: the cached
  pool has the same parameters up to the blocks of a ramp that goes nowhere.
\<close>

fun chain_says :: "int \<times> pool_event \<Rightarrow> pools_view \<Rightarrow> pools_view" where
  "chain_says (height, StableswapPoolCreated i assets amp fee) v =
     v\<lparr>view_stableswap := map_option (\<lambda>m. m(i \<mapsto>
         \<lparr>sp_poolId = i, sp_assets = assets, initialAmplification = amp, finalAmplification = amp,
          initialBlock = height, finalBlock = height, sp_fee = fee\<rparr>)) (view_stableswap v)\<rparr>"
| "chain_says (height, e) v = says e v"

definition same_ramp :: "stableswap_pool_entry \<Rightarrow> stableswap_pool_entry \<Rightarrow> bool" where
  "same_ramp p q \<longleftrightarrow>
     sp_poolId p = sp_poolId q \<and> sp_assets p = sp_assets q \<and> sp_fee p = sp_fee q
     \<and> initialAmplification p = initialAmplification q \<and> finalAmplification p = finalAmplification q
     \<and> (initialAmplification p = finalAmplification p
        \<or> initialBlock p = initialBlock q \<and> finalBlock p = finalBlock q)"

definition same_pools :: "pools_view \<Rightarrow> pools_view \<Rightarrow> bool" where
  "same_pools v w \<longleftrightarrow>
     view_assets v = view_assets w \<and> view_xyk v = view_xyk w
     \<and> rel_option (rel_fun (=) (rel_option same_ramp)) (view_stableswap v) (view_stableswap w)"

lemma same_ramp_refl [simp]: "same_ramp p p"
  by (simp add: same_ramp_def)

lemma same_pools_refl [simp]: "same_pools v v"
  by (auto simp: same_pools_def intro!: option.rel_refl rel_funI)

lemma rel_map_option:
  "rel_option R x y \<Longrightarrow> (\<And>p q. R p q \<Longrightarrow> R (f p) (f q)) \<Longrightarrow> rel_option R (map_option f x) (map_option f y)"
  by (cases x; cases y) auto

lemma rel_updated:
  assumes "rel_option (rel_fun (=) (rel_option same_ramp)) m n"
    and "\<And>p q. same_ramp p q \<Longrightarrow> same_ramp (f p) (f q)"
  shows "rel_option (rel_fun (=) (rel_option same_ramp))
    (map_option (\<lambda>m. m(i := map_option f (m i))) m) (map_option (\<lambda>m. m(i := map_option f (m i))) n)"
  using assms by (cases m; cases n) (auto simp: rel_fun_def intro: rel_map_option)

lemma rel_inserted:
  assumes "rel_option (rel_fun (=) (rel_option same_ramp)) m n" "same_ramp p q"
  shows "rel_option (rel_fun (=) (rel_option same_ramp))
    (map_option (\<lambda>m. m(i \<mapsto> p)) m) (map_option (\<lambda>m. m(i \<mapsto> q)) n)"
  using assms by (cases m; cases n) (auto simp: rel_fun_def)

lemma same_pools_says:
  assumes "same_pools v w"
  shows "same_pools (says e v) (chain_says (h, e) w)"
proof (cases e)
  case (StableswapPoolCreated i assets amp fee)
  with assms show ?thesis
    by (auto simp: same_pools_def same_ramp_def intro!: rel_inserted)
next
  case (AmplificationChanging i now final start end')
  with assms show ?thesis
    by (auto simp: same_pools_def same_ramp_def intro!: rel_updated)
next
  case (FeeUpdated i fee)
  with assms show ?thesis
    by (auto simp: same_pools_def same_ramp_def intro!: rel_updated)
qed (use assms in \<open>auto simp: same_pools_def\<close>)

lemma same_pools_history:
  "same_pools v w \<Longrightarrow> same_pools (fold says (map snd hes) v) (fold chain_says hes w)"
proof (induction hes arbitrary: v w)
  case (Cons he hes)
  then show ?case using same_pools_says [of v w "snd he" "fst he"] by simp
qed simp

lemma index_by_stored:
  assumes "distinct (map fst ps)" "\<And>p. key (f p) = fst p"
  shows "index_by key (map f (defined_pairs ps)) =
    (\<lambda>k. map_option (\<lambda>v. f (k, Some v)) (stored ps k))"
  using assms(1)
proof (induction ps)
  case (Cons p ps)
  obtain k v where p: "p = (k, v)" by fastforce
  have new: "stored ps k = None" using Cons.prems by (auto simp: p stored_def map_of_eq_None_iff image_iff split: option.splits dest!: map_of_SomeD)
  show ?case
    using Cons new assms(2) by (cases v) (auto simp: p index_by_def stored_def fun_eq_iff defined_pairs_def)
qed (simp add: index_by_def stored_def defined_pairs_def)

lemma stored_assets:
  assumes "distinct (map fst ps)"
  shows "set (map fst (defined_pairs ps)) = {i \<in> fst ` set ps. stored ps i \<noteq> None}"
  using assms by (force simp: stored_def defined_pairs_def)

lemma keys_of_entries [simp]:
  "poolAccount (xyk_entry_of p) = fst p" "sp_poolId (stableswap_entry_of q) = fst q"
  by (simp_all add: xyk_entry_of_def stableswap_entry_of_def Let_def)

definition read_pools ::
  "pool_storage \<Rightarrow> pool_cache \<Rightarrow>
   ((string + int list option) \<times> (string + xyk_pool_entry list option) \<times> (string + stableswap_pool_entry list option))
   \<times> pool_cache" where
  "read_pools sto c =
     (let (assets, c1) = getOmnipoolAssets sto c;
          (xyk, c2) = getXYKPools sto c1;
          (stableswap, c3) = getStableswapPools sto c2
      in ((assets, xyk, stableswap), c3))"

definition warm :: "pool_cache \<Rightarrow> bool" where
  "warm c \<longleftrightarrow> omnipoolBootstrapped c \<and> xykBootstrapped c \<and> stableswapBootstrapped c
     \<and> omnipoolAssets c \<noteq> None \<and> xykPools c \<noteq> None \<and> stableswapPools c \<noteq> None"

lemma read_pools_fresh:
  assumes "storage_readable sto" "storage_keys_ok sto"
  shows "view_of (snd (read_pools sto new_pool_cache)) = storage_view sto"
    and "warm (snd (read_pools sto new_pool_cache))"
    and "fst (read_pools sto new_pool_cache) =
      (let c = snd (read_pools sto new_pool_cache)
       in (Inr (omnipoolAssets c), Inr (xykPools c), Inr (stableswapPools c)))"
  using assms
  by (auto simp: read_pools_def getOmnipoolAssets_def getXYKPools_def getStableswapPools_def new_pool_cache_def
      storage_readable_def storage_keys_ok_def storage_view_def view_of_def warm_def Let_def index_by_stored
      stored_assets [unfolded set_map] split: sum.splits)

lemma read_pools_warm:
  assumes "storage_readable sto" "warm c"
  shows "fst (read_pools sto c) = (Inr (omnipoolAssets c), Inr (xykPools c), Inr (stableswapPools c))"
  using assms
  by (simp add: read_pools_def getOmnipoolAssets_def getXYKPools_def getStableswapPools_def
      storage_readable_def warm_def Let_def)

text \<open>Events neither read a family nor forget one, and leave the flags alone.\<close>

definition same_frame :: "pool_cache \<Rightarrow> pool_cache \<Rightarrow> bool" where
  "same_frame c c' \<longleftrightarrow>
     omnipoolBootstrapped c' = omnipoolBootstrapped c \<and> xykBootstrapped c' = xykBootstrapped c
     \<and> stableswapBootstrapped c' = stableswapBootstrapped c
     \<and> omnipoolSupported c' = omnipoolSupported c \<and> xykSupported c' = xykSupported c
     \<and> stableswapSupported c' = stableswapSupported c
     \<and> (omnipoolAssets c' = None \<longleftrightarrow> omnipoolAssets c = None) \<and> (xykPools c' = None \<longleftrightarrow> xykPools c = None)
     \<and> (stableswapPools c' = None \<longleftrightarrow> stableswapPools c = None)"

lemmas handler_defs = token_added_def token_removed_def xyk_pool_created_def xyk_pool_destroyed_def
  stableswap_pool_created_def stableswap_pool_updated_def

lemma find_Nil_known: "List.find P (case x of None \<Rightarrow> [] | Some ps \<Rightarrow> ps) = Some y \<Longrightarrow> x \<noteq> None"
  by (cases x) auto

lemma same_frame_refl [simp]: "same_frame c c"
  by (simp add: same_frame_def)

lemma same_frame_updates [simp]:
  "same_frame c (c\<lparr>omnipoolAssets := map_option f (omnipoolAssets c)\<rparr>)"
  "xykPools c = Some xs \<Longrightarrow> same_frame c (c\<lparr>xykPools := Some ys\<rparr>)"
  "stableswapPools c = Some ps \<Longrightarrow> same_frame c (c\<lparr>stableswapPools := Some qs\<rparr>)"
  by (simp_all add: same_frame_def)

lemma token_frame:
  "same_frame c (snd (token_added name args ch c))" "same_frame c (snd (token_removed name args ch c))"
  by (simp_all add: token_added_def token_removed_def split: sum.split)

lemma xyk_frame:
  "same_frame c (snd (xyk_pool_created name args ch c))" "same_frame c (snd (xyk_pool_destroyed name args ch c))"
  by (simp_all add: xyk_pool_created_def xyk_pool_destroyed_def Let_def split: sum.split option.split prod.split)

lemma created_frame: "same_frame c (snd (stableswap_pool_created name args ch c))"
  by (simp add: stableswap_pool_created_def split: sum.split option.split)

lemma updated_frame: "same_frame c (snd (stableswap_pool_updated assignments name args ch c))"
  by (cases "stableswapPools c")
    (simp_all add: stableswap_pool_updated_def Let_def split: sum.split option.split prod.split)

lemma process_event_frame: "same_frame c (snd (process_event ev ch c))"
  by (cases ev) (simp add: process_event_def token_frame xyk_frame created_frame updated_frame)

lemma same_frame_trans: "same_frame a b \<Longrightarrow> same_frame b c \<Longrightarrow> same_frame a c"
  by (simp add: same_frame_def)

lemma event_loop_induct:
  assumes "I c" "\<And>ev ch c. I c \<Longrightarrow> I (snd (process_event ev ch c))"
  shows "I (snd (event_loop es ch c))"
  using assms(1)
proof (induction es arbitrary: ch c)
  case (Cons ev es)
  obtain r c' where p: "process_event ev ch c = (r, c')" by fastforce
  have "I c'" using assms(2) [OF Cons.prems, of ev ch] by (simp add: p)
  then show ?case using Cons.IH by (cases r) (simp_all add: p)
qed simp

lemma event_loop_frame: "same_frame c (snd (event_loop es ch c))"
  by (rule event_loop_induct) (auto intro: same_frame_trans process_event_frame)

lemma warm_frame: "same_frame c c' \<Longrightarrow> warm c \<Longrightarrow> warm c'"
  by (simp add: same_frame_def warm_def)

text \<open>A warmed cache that saw the events of the blocks up to a storage agrees with a cold read of it.\<close>

lemma cache_follows_storage:
  assumes ok: "list_all pool_event_ok (map snd hes)"
    and sto: "storage_readable sto" "storage_keys_ok sto"
    and sto': "storage_readable sto'" "storage_keys_ok sto'"
    and chain: "storage_view sto' = fold chain_says hes (storage_view sto)"
    and c1: "c1 = snd (read_pools sto new_pool_cache)"
    and c2: "c2 = snd (processEvents (map (encode_event \<circ> snd) hes) c1)"
  shows "fst (processEvents (map (encode_event \<circ> snd) hes) c1) = Inr (fold reports (map snd hes) no_changes)"
    and "fst (read_pools sto' c2) = (Inr (omnipoolAssets c2), Inr (xykPools c2), Inr (stableswapPools c2))"
    and "warm c2"
    and "same_pools (view_of c2) (view_of (snd (read_pools sto' new_pool_cache)))"
proof -
  obtain c where "event_loop (map encode_event (map snd hes)) no_changes c1 = (Inr (fold reports (map snd hes) no_changes), c)"
      and says: "view_of c = fold says (map snd hes) (view_of c1)"
    using event_loop_says [OF ok, of no_changes c1] by blast
  then have run: "processEvents (map (encode_event \<circ> snd) hes) c1 = (Inr (fold reports (map snd hes) no_changes), c)"
    by (simp add: processEvents_def)
  then show "fst (processEvents (map (encode_event \<circ> snd) hes) c1) = Inr (fold reports (map snd hes) no_changes)" by simp
  have c: "c = c2" using run by (simp add: c2)
  have "same_frame c1 c2" by (simp add: c2 processEvents_def event_loop_frame)
  then show warm: "warm c2" using read_pools_fresh(2) [OF sto] warm_frame by (simp add: c1)
  show "fst (read_pools sto' c2) = (Inr (omnipoolAssets c2), Inr (xykPools c2), Inr (stableswapPools c2))"
    using read_pools_warm [OF sto'(1) warm] .
  have "same_pools (fold says (map snd hes) (storage_view sto)) (fold chain_says hes (storage_view sto))"
    by (rule same_pools_history) simp
  then show "same_pools (view_of c2) (view_of (snd (read_pools sto' new_pool_cache)))"
    using says c read_pools_fresh(1) [OF sto] read_pools_fresh(1) [OF sto'] by (simp add: c1 chain)
qed

section \<open>The cache's invariant\<close>

text \<open>Ids and accounts are unique, no account is empty, all numbers are counts, a family is there exactly when it was read, and only
  after its storage was seen.\<close>

definition typed_xyk :: "xyk_pool_entry \<Rightarrow> bool" where
  "typed_xyk p \<longleftrightarrow> poolAccount p \<noteq> [] \<and> count_ok (xyk_assetA p) \<and> count_ok (xyk_assetB p)"

definition typed_stableswap :: "stableswap_pool_entry \<Rightarrow> bool" where
  "typed_stableswap p \<longleftrightarrow>
     count_ok (sp_poolId p) \<and> list_all count_ok (sp_assets p) \<and> count_ok (initialAmplification p)
     \<and> count_ok (finalAmplification p) \<and> count_ok (initialBlock p) \<and> count_ok (finalBlock p) \<and> count_ok (sp_fee p)"

definition pool_cache_ok :: "pool_cache \<Rightarrow> bool" where
  "pool_cache_ok c \<longleftrightarrow>
     (omnipoolAssets c \<noteq> None \<longleftrightarrow> omnipoolBootstrapped c) \<and> (omnipoolBootstrapped c \<longrightarrow> omnipoolSupported c)
     \<and> (xykPools c \<noteq> None \<longleftrightarrow> xykBootstrapped c) \<and> (xykBootstrapped c \<longrightarrow> xykSupported c)
     \<and> (stableswapPools c \<noteq> None \<longleftrightarrow> stableswapBootstrapped c) \<and> (stableswapBootstrapped c \<longrightarrow> stableswapSupported c)
     \<and> (\<forall>xs. omnipoolAssets c = Some xs \<longrightarrow> distinct xs \<and> list_all count_ok xs)
     \<and> (\<forall>ps. xykPools c = Some ps \<longrightarrow> distinct (map poolAccount ps) \<and> list_all typed_xyk ps)
     \<and> (\<forall>ps. stableswapPools c = Some ps \<longrightarrow> distinct (map sp_poolId ps) \<and> list_all typed_stableswap ps)"

definition storage_typed :: "pool_storage \<Rightarrow> bool" where
  "storage_typed sto \<longleftrightarrow>
     (\<forall>ps. omnipool_pairs sto = Inr ps \<longrightarrow> list_all count_ok (map fst ps))
     \<and> (\<forall>ps. xyk_pairs sto = Inr ps \<longrightarrow> list_all typed_xyk (map xyk_entry_of (defined_pairs ps)))
     \<and> (\<forall>ps. stableswap_pairs sto = Inr ps \<longrightarrow> list_all typed_stableswap (map stableswap_entry_of (defined_pairs ps)))"

inductive cache_step :: "pool_cache \<Rightarrow> pool_cache \<Rightarrow> bool" where
  read_omnipool: "storage_keys_ok sto \<Longrightarrow> storage_typed sto \<Longrightarrow> cache_step c (snd (getOmnipoolAssets sto c))"
| read_xyk: "storage_keys_ok sto \<Longrightarrow> storage_typed sto \<Longrightarrow> cache_step c (snd (getXYKPools sto c))"
| read_stableswap: "storage_keys_ok sto \<Longrightarrow> storage_typed sto \<Longrightarrow> cache_step c (snd (getStableswapPools sto c))"
| block_events: "cache_step c (snd (processEvents events c))"
| runtime_upgrade: "cache_step c (invalidateAll c)"

inductive_cases cache_stepE: "cache_step c c'"

lemma typed_upsert:
  "list_all P xs \<Longrightarrow> P x \<Longrightarrow> list_all P (upsert key x xs)"
  "distinct (map key xs) \<Longrightarrow> distinct (map key (upsert key x xs))"
proof -
  show "list_all P xs \<Longrightarrow> P x \<Longrightarrow> list_all P (upsert key x xs)" by (induction xs) auto
  have "set (map key (upsert key x xs)) = insert (key x) (set (map key xs))" for xs
    by (induction xs) auto
  then have "key ` set (upsert key x xs) = insert (key x) (key ` set xs)" for xs by simp
  then show "distinct (map key xs) \<Longrightarrow> distinct (map key (upsert key x xs))" by (induction xs) auto
qed

lemma numberArg_count: "numberArg a name ev = Inr n \<Longrightarrow> count_ok n"
  by (auto simp: numberArg_def is_count_def num_of_def count_ok_def split: if_splits json.splits)

lemma numberArrayArg_count: "numberArrayArg a name ev = Inr xs \<Longrightarrow> list_all count_ok xs"
  by (auto simp: numberArrayArg_def is_count_def num_of_def count_ok_def list_all_iff split: if_splits json.splits)

lemma stringArg_nonempty: "stringArg a name ev = Inr s \<Longrightarrow> s \<noteq> []"
  by (auto simp: stringArg_def split: if_splits json.splits)

lemma and_then_Inr: "and_then r f = Inr y \<longleftrightarrow> (\<exists>x. r = Inr x \<and> f x = Inr y)"
  by (cases r) (auto simp: and_then_def)

lemma typed_entry_args:
  "xyk_entry_args name a = Inr p \<Longrightarrow> typed_xyk p"
  "stableswap_entry_args name a = Inr q \<Longrightarrow> typed_stableswap q"
  by (auto simp: xyk_entry_args_def stableswap_entry_args_def and_then_Inr typed_xyk_def typed_stableswap_def
      dest!: numberArg_count numberArrayArg_count stringArg_nonempty) (simp_all add: count_ok_def is_safe_integer_def MAX_SAFE_INTEGER_def)

lemma distinct_update_first:
  "(\<And>x. P x \<Longrightarrow> key x = k) \<Longrightarrow> key x' = k \<Longrightarrow> map key (update_first P (\<lambda>_. x') xs) = map key xs"
  by (induction xs) auto

lemma list_all_update_first: "list_all Q xs \<Longrightarrow> Q x' \<Longrightarrow> list_all Q (update_first P (\<lambda>_. x') xs)"
  by (induction xs) auto

text \<open>Assignments keep an entry typed and its id, also when one of them throws.\<close>

lemma assign_args_keep:
  assumes "\<And>arg f v e. (arg, f) \<in> set assignments \<Longrightarrow> count_ok v \<Longrightarrow> I e \<Longrightarrow> I (f v e)" "I entry"
  shows "I (snd (assign_args assignments a name entry))"
  using assms
proof (induction assignments arbitrary: entry)
  case (Cons p rest)
  obtain arg f where p: "p = (arg, f)" by fastforce
  show ?case
  proof (cases "numberArg a arg name")
    case (Inr v)
    then have "I (f v entry)" using Cons.prems numberArg_count [OF Inr] by (auto simp: p)
    then have "I (snd (assign_args rest a name (f v entry)))" using Cons.prems(1) by (intro Cons.IH) auto
    then show ?thesis by (simp add: p Inr)
  qed (simp add: p Cons.prems)
qed simp

lemma assignments_keep:
  assumes "(arg, f) \<in> set ramp_assignments \<or> (arg, f) \<in> set fee_assignments" "count_ok v"
  shows "typed_stableswap e \<and> sp_poolId e = i \<Longrightarrow> typed_stableswap (f v e) \<and> sp_poolId (f v e) = i"
  using assms by (auto simp: ramp_assignments_def fee_assignments_def typed_stableswap_def)

lemma ok_token:
  assumes "pool_cache_ok c"
  shows "pool_cache_ok (snd (token_added name args ch c))" "pool_cache_ok (snd (token_removed name args ch c))"
  using assms
  by (auto simp: token_added_def token_removed_def pool_cache_ok_def and_then_Inr set_add_def list_all_iff
      dest!: numberArg_count split: sum.split)

lemma ok_lists:
  "pool_cache_ok c \<Longrightarrow> xykPools c = Some ps \<Longrightarrow> distinct (map poolAccount ps) \<and> list_all typed_xyk ps"
  "pool_cache_ok c \<Longrightarrow> stableswapPools c = Some qs \<Longrightarrow> distinct (map sp_poolId qs) \<and> list_all typed_stableswap qs"
  by (auto simp: pool_cache_ok_def)

lemma ok_set_lists:
  "pool_cache_ok c \<Longrightarrow> xykPools c = Some ps \<Longrightarrow> distinct (map poolAccount ps') \<Longrightarrow> list_all typed_xyk ps'
   \<Longrightarrow> pool_cache_ok (c\<lparr>xykPools := Some ps'\<rparr>)"
  "pool_cache_ok c \<Longrightarrow> stableswapPools c = Some qs \<Longrightarrow> distinct (map sp_poolId qs') \<Longrightarrow> list_all typed_stableswap qs'
   \<Longrightarrow> pool_cache_ok (c\<lparr>stableswapPools := Some qs'\<rparr>)"
  by (auto simp: pool_cache_ok_def)

lemma list_all_filter: "list_all P xs \<Longrightarrow> list_all P (filter Q xs)"
  by (auto simp: list_all_iff)

lemma ok_xyk:
  assumes "pool_cache_ok c"
  shows "pool_cache_ok (snd (xyk_pool_created name args ch c))" "pool_cache_ok (snd (xyk_pool_destroyed name args ch c))"
  using assms ok_lists(1) [OF assms]
  by (simp_all add: xyk_pool_created_def xyk_pool_destroyed_def Let_def ok_set_lists(1) typed_upsert
      typed_entry_args(1) distinct_map_filter list_all_filter split: sum.split option.split prod.split)

lemma ok_stableswap_created:
  assumes "pool_cache_ok c"
  shows "pool_cache_ok (snd (stableswap_pool_created name args ch c))"
  using assms ok_lists(2) [OF assms]
  by (simp add: stableswap_pool_created_def ok_set_lists(2) typed_upsert typed_entry_args(2)
      split: sum.split option.split)

lemma ok_stableswap_updated:
  assumes ok: "pool_cache_ok c" and "assignments = ramp_assignments \<or> assignments = fee_assignments"
  shows "pool_cache_ok (snd (stableswap_pool_updated assignments name args ch c))"
proof (cases "stableswapPools c")
  case None
  then show ?thesis
    using ok by (simp add: stableswap_pool_updated_def Let_def split: sum.split prod.split)
next
  case (Some pools)
  have *: "pool_cache_ok (c\<lparr>stableswapPools := Some (update_first (\<lambda>p. sp_poolId p = i) (\<lambda>_. e') pools)\<rparr>)"
    if "List.find (\<lambda>p. sp_poolId p = i) pools = Some entry" "assign_args assignments a name entry = (r, e')"
    for a i entry r e'
  proof -
    have e: "typed_stableswap entry \<and> sp_poolId entry = i"
      using that(1) ok_lists(2) [OF ok Some] by (auto simp: find_Some_iff list_all_length)
    have "typed_stableswap (snd (assign_args assignments a name entry)) \<and> sp_poolId (snd (assign_args assignments a name entry)) = i"
      by (rule assign_args_keep) (use e assms(2) assignments_keep in blast)+
    then have e': "typed_stableswap e'" "sp_poolId e' = i" by (simp_all add: that(2))
    have "map sp_poolId (update_first (\<lambda>p. sp_poolId p = i) (\<lambda>_. e') pools) = map sp_poolId pools"
      by (rule distinct_update_first) (use e' in auto)
    then show ?thesis
      using ok_lists(2) [OF ok Some] by (intro ok_set_lists(2) [OF ok Some] list_all_update_first e'(1)) simp_all
  qed
  then show ?thesis using ok
    by (simp add: stableswap_pool_updated_def Some Let_def split: sum.split option.split prod.split)
qed

lemma ok_event: "pool_cache_ok c \<Longrightarrow> pool_cache_ok (snd (process_event ev ch c))"
  by (cases ev) (simp add: process_event_def ok_token ok_xyk ok_stableswap_created ok_stableswap_updated)

lemma typed_pairs:
  "distinct (map fst ps) \<Longrightarrow> distinct (map fst (defined_pairs ps))"
  "list_all P (map fst ps) \<Longrightarrow> list_all P (map fst (defined_pairs ps))"
  by (auto simp: defined_pairs_def distinct_map_filter list_all_iff)

lemma ok_reads:
  assumes "pool_cache_ok c" "storage_keys_ok sto" "storage_typed sto"
  shows "pool_cache_ok (snd (getOmnipoolAssets sto c))" "pool_cache_ok (snd (getXYKPools sto c))"
    "pool_cache_ok (snd (getStableswapPools sto c))"
proof -
  have names: "map poolAccount (map xyk_entry_of ps) = map fst ps" "map sp_poolId (map stableswap_entry_of qs) = map fst qs"
    for ps qs by simp_all
  note read_simps = Let_def storage_keys_ok_def storage_typed_def pool_cache_ok_def typed_pairs names
  show "pool_cache_ok (snd (getOmnipoolAssets sto c))"
    using assms by (cases "omnipool_pairs sto") (simp_all add: getOmnipoolAssets_def read_simps)
  show "pool_cache_ok (snd (getXYKPools sto c))"
    using assms by (cases "xyk_pairs sto") (simp_all add: getXYKPools_def read_simps del: map_map)
  show "pool_cache_ok (snd (getStableswapPools sto c))"
    using assms by (cases "stableswap_pairs sto") (simp_all add: getStableswapPools_def read_simps del: map_map)
qed

lemma ok_step: "cache_step c c' \<Longrightarrow> pool_cache_ok c \<Longrightarrow> pool_cache_ok c'"
proof (induction rule: cache_step.induct)
  case (block_events c events)
  then show ?case unfolding processEvents_def by (rule event_loop_induct) (rule ok_event)
next
  case (runtime_upgrade c)
  then show ?case by (simp add: invalidateAll_def pool_cache_ok_def)
qed (simp_all add: ok_reads)

lemma ok_new: "pool_cache_ok new_pool_cache"
  by (simp add: new_pool_cache_def pool_cache_ok_def)

text \<open>A family once seen stays so, whatever comes.\<close>

lemma supported_step:
  assumes "cache_step c c'"
  shows "(omnipoolSupported c \<longrightarrow> omnipoolSupported c') \<and> (xykSupported c \<longrightarrow> xykSupported c')
    \<and> (stableswapSupported c \<longrightarrow> stableswapSupported c')"
  using assms
proof (induction rule: cache_step.induct)
  case (block_events c events)
  have "same_frame c (snd (processEvents events c))" by (simp add: processEvents_def event_loop_frame)
  then show ?case by (simp add: same_frame_def)
qed (simp_all add: getOmnipoolAssets_def getXYKPools_def getStableswapPools_def Let_def invalidateAll_def
    split: sum.split)

lemma supported_steps:
  assumes "cache_step\<^sup>*\<^sup>* c c'"
  shows "omnipoolSupported c \<Longrightarrow> omnipoolSupported c'" "xykSupported c \<Longrightarrow> xykSupported c'"
    "stableswapSupported c \<Longrightarrow> stableswapSupported c'"
  using assms by (induction rule: rtranclp_induct) (auto dest: supported_step)

section \<open>Properties\<close>

text \<open>
  C26: A pool family fails closed. Once a cache returned a family's pools, a later block whose storage the codec
  no longer fits is refused with an error naming the storage and the block, whatever events, reads and runtime
  upgrades came between; it is never reported as an absent or stale family.
\<close>

theorem lost_codec_fails_closed:
  assumes read: "read_pools sto c0 = ((assets, xyk, pools), c1)" and later: "cache_step\<^sup>*\<^sup>* c1 c2"
  shows
    "(assets = Inr (Some xs) \<and> \<not> omnipool_is sto' \<longrightarrow>
        getOmnipoolAssets sto' c2 = (Inl (unsupported_storage ''Omnipool.Assets'' (sto_height sto')), c2))
     \<and> (xyk = Inr (Some ys) \<and> \<not> xyk_is sto' \<longrightarrow>
        getXYKPools sto' c2 = (Inl (unsupported_storage ''XYK.PoolAssets'' (sto_height sto')), c2))
     \<and> (pools = Inr (Some zs) \<and> \<not> stableswap_is sto' \<longrightarrow>
        getStableswapPools sto' c2 = (Inl (unsupported_storage ''Stableswap.Pools'' (sto_height sto')), c2))"
proof -
  note read_frames = getOmnipoolAssets_def getXYKPools_def getStableswapPools_def Let_def
  have "assets = Inr (Some xs) \<Longrightarrow> omnipoolSupported c1" "xyk = Inr (Some ys) \<Longrightarrow> xykSupported c1"
    "pools = Inr (Some zs) \<Longrightarrow> stableswapSupported c1"
    using read by (auto simp: read_pools_def read_frames split: prod.splits if_splits sum.splits)
  with supported_steps [OF later] show ?thesis
    by (simp add: getOmnipoolAssets_def getXYKPools_def getStableswapPools_def)
qed

definition example_storage :: "int \<Rightarrow> bool \<Rightarrow> pool_storage" where
  "example_storage height fits =
     \<lparr>sto_height = height, omnipool_is = fits, omnipool_pairs = Inr [(5, Some JNull), (0, Some JNull), (9, None)],
      xyk_is = fits, xyk_pairs = Inr [(''0xaa'', Some (5, 0))],
      stableswap_is = fits,
      stableswap_pairs = Inr [(100, Some \<lparr>info_assets = [10, 18], info_initialAmplification = 50,
        info_finalAmplification = 80, info_initialBlock = 6, info_finalBlock = 9, info_fee = 200\<rparr>)]\<rparr>"

text \<open>
  C30: The composition cache stays well typed. From a new cache, after any reads of typed storages (unique keys,
  non-empty pool accounts, all numbers non-negative safe integers), events of any content (also ones that throw half
  way) and runtime upgrades, every cached family holds unique ids or accounts, no empty account and non-negative safe
  integers only, is present exactly when it was read, and only once its storage was seen.
\<close>

theorem pool_cache_typed:
  assumes "cache_step\<^sup>*\<^sup>* new_pool_cache c"
  shows "pool_cache_ok c"
  using assms by (induction rule: rtranclp_induct) (auto intro: ok_new ok_step)

text \<open>A created pool, and one refused for its empty account.\<close>

definition example_created :: "(string \<times> json) list" where
  "example_created =
     [(''XYK.PoolCreated'', JObj [(''pool'', JStr ''0xbb''), (''assetA'', JNum 7), (''assetB'', JNum 9)]),
      (''XYK.PoolCreated'', JObj [(''pool'', JStr []), (''assetA'', JNum 7), (''assetB'', JNum 9)])]"

definition example_cache :: pool_cache where
  "example_cache = snd (processEvents example_created (snd (read_pools (example_storage 7 True) new_pool_cache)))"

theorem pool_cache_typed_witness:
  "pool_cache_ok example_cache \<and> omnipoolAssets example_cache = Some [5, 0]
   \<and> map_option (map poolAccount) (xykPools example_cache) = Some [''0xaa'', ''0xbb'']
   \<and> map_option (map sp_poolId) (stableswapPools example_cache) = Some [100]"
proof (intro conjI)
  let ?sto = "example_storage 7 True"
  have typed: "storage_keys_ok ?sto" "storage_typed ?sto"
    by (simp_all add: storage_keys_ok_def storage_typed_def example_storage_def defined_pairs_def xyk_entry_of_def
        stableswap_entry_of_def typed_xyk_def typed_stableswap_def count_ok_def is_safe_integer_def MAX_SAFE_INTEGER_def)
  note reads = read_omnipool [OF typed] read_xyk [OF typed] read_stableswap [OF typed]
  have "snd (read_pools ?sto c) = snd (getStableswapPools ?sto (snd (getXYKPools ?sto (snd (getOmnipoolAssets ?sto c)))))" for c
    by (simp add: read_pools_def split_def Let_def)
  moreover have "cache_step\<^sup>*\<^sup>* new_pool_cache (snd (getOmnipoolAssets ?sto new_pool_cache))"
    by (rule r_into_rtranclp, rule reads)
  then have "cache_step\<^sup>*\<^sup>* new_pool_cache (snd (getXYKPools ?sto (snd (getOmnipoolAssets ?sto new_pool_cache))))"
    by (rule rtranclp.rtrancl_into_rtrancl, intro reads)
  then have "cache_step\<^sup>*\<^sup>* new_pool_cache
      (snd (getStableswapPools ?sto (snd (getXYKPools ?sto (snd (getOmnipoolAssets ?sto new_pool_cache))))))"
    by (rule rtranclp.rtrancl_into_rtrancl, intro reads)
  ultimately have "cache_step\<^sup>*\<^sup>* new_pool_cache (snd (read_pools ?sto new_pool_cache))" by simp
  then have "cache_step\<^sup>*\<^sup>* new_pool_cache example_cache"
    unfolding example_cache_def by (rule rtranclp.rtrancl_into_rtrancl) (rule block_events)
  then show "pool_cache_ok example_cache" by (rule pool_cache_typed)
  show "omnipoolAssets example_cache = Some [5, 0]"
    "map_option (map poolAccount) (xykPools example_cache) = Some [''0xaa'', ''0xbb'']"
    "map_option (map sp_poolId) (stableswapPools example_cache) = Some [100]"
    by code_simp+
qed

theorem lost_codec_fails_closed_witness:
  "getXYKPools (example_storage 12 False) (invalidateAll (snd (read_pools (example_storage 7 True) new_pool_cache))) =
     (Inl ''Unsupported XYK.PoolAssets storage at block 12'',
      invalidateAll (snd (read_pools (example_storage 7 True) new_pool_cache)))"
proof -
  let ?c1 = "snd (read_pools (example_storage 7 True) new_pool_cache)"
  have read: "read_pools (example_storage 7 True) new_pool_cache =
      ((Inr (omnipoolAssets ?c1), Inr (Some [\<lparr>poolAccount = ''0xaa'', xyk_assetA = 5, xyk_assetB = 0\<rparr>]),
        Inr (stableswapPools ?c1)), ?c1)"
    by (simp add: read_pools_def getOmnipoolAssets_def getXYKPools_def getStableswapPools_def Let_def
        example_storage_def new_pool_cache_def defined_pairs_def xyk_entry_of_def)
  have "cache_step\<^sup>*\<^sup>* ?c1 (invalidateAll ?c1)" using runtime_upgrade by (rule r_into_rtranclp)
  from lost_codec_fails_closed [OF read this, where sto' = "example_storage 12 False"] show ?thesis
    by (simp add: example_storage_def unsupported_storage_def int_to_string_def, code_simp)
qed

definition example_events :: "(int \<times> pool_event) list" where
  "example_events =
     [(8, TokenAdded 20), (8, TokenRemoved 5), (9, XykPoolDestroyed ''0xaa'' 5 0),
      (9, StableswapPoolCreated 101 [10, 22] 30 5), (10, AmplificationChanging 100 60 90 10 20)]"

definition example_later :: pool_storage where
  "example_later =
     \<lparr>sto_height = 11, omnipool_is = True, omnipool_pairs = Inr [(0, Some JNull), (20, Some JNull)],
      xyk_is = True, xyk_pairs = Inr [],
      stableswap_is = True,
      stableswap_pairs =
        Inr [(101, Some \<lparr>info_assets = [10, 22], info_initialAmplification = 30, info_finalAmplification = 30,
               info_initialBlock = 9, info_finalBlock = 9, info_fee = 5\<rparr>),
             (100, Some \<lparr>info_assets = [10, 18], info_initialAmplification = 60, info_finalAmplification = 90,
               info_initialBlock = 10, info_finalBlock = 20, info_fee = 200\<rparr>)]\<rparr>"

text \<open>
  C25: The cache refines the chain's storage. Read once, then fed the blocks' events, it returns for a later
  block the pools a cold read of that block's storage returns: the same Omnipool assets, the same XYK pools and the
  same stableswap pools with the same fee and ramp, up to the blocks of a ramp whose ends are equal. No
  event throws and the reported families are those the events name. Storage and events correspond as the pallets
  document it: each event is the change of its entry.
\<close>

theorem cache_refines_storage:
  assumes ok: "list_all pool_event_ok (map snd hes)"
    and sto: "storage_readable sto" "storage_keys_ok sto"
    and sto': "storage_readable sto'" "storage_keys_ok sto'"
    and chain: "storage_view sto' = fold chain_says hes (storage_view sto)"
  shows "\<exists>c assets xyk pools assets' xyk' pools'.
    processEvents (map (encode_event \<circ> snd) hes) (snd (read_pools sto new_pool_cache)) =
      (Inr (fold reports (map snd hes) no_changes), c)
    \<and> fst (read_pools sto' c) = (Inr (Some assets), Inr (Some xyk), Inr (Some pools))
    \<and> fst (read_pools sto' new_pool_cache) = (Inr (Some assets'), Inr (Some xyk'), Inr (Some pools'))
    \<and> set assets = set assets' \<and> index_by poolAccount xyk = index_by poolAccount xyk'
    \<and> rel_fun (=) (rel_option same_ramp) (index_by sp_poolId pools) (index_by sp_poolId pools')"
proof -
  let ?c1 = "snd (read_pools sto new_pool_cache)" and ?evs = "map (encode_event \<circ> snd) hes"
  let ?c = "snd (processEvents ?evs ?c1)" and ?d = "snd (read_pools sto' new_pool_cache)"
  note follows = cache_follows_storage [OF ok sto sto' chain refl refl]
  note cold = read_pools_fresh [OF sto']
  obtain assets xyk pools where c: "omnipoolAssets ?c = Some assets" "xykPools ?c = Some xyk" "stableswapPools ?c = Some pools"
    using follows(3) by (auto simp: warm_def)
  obtain assets' xyk' pools' where d: "omnipoolAssets ?d = Some assets'" "xykPools ?d = Some xyk'" "stableswapPools ?d = Some pools'"
    using cold(2) by (auto simp: warm_def)
  have "processEvents ?evs ?c1 = (Inr (fold reports (map snd hes) no_changes), ?c)"
    using follows(1) by (metis prod.collapse)
  moreover have "fst (read_pools sto' ?c) = (Inr (Some assets), Inr (Some xyk), Inr (Some pools))"
    using follows(2) by (simp add: c)
  moreover have "fst (read_pools sto' new_pool_cache) = (Inr (Some assets'), Inr (Some xyk'), Inr (Some pools'))"
    using cold(3) by (simp add: d Let_def)
  moreover have "set assets = set assets' \<and> index_by poolAccount xyk = index_by poolAccount xyk'
      \<and> rel_fun (=) (rel_option same_ramp) (index_by sp_poolId pools) (index_by sp_poolId pools')"
    using follows(4) by (simp add: same_pools_def view_of_def c d)
  ultimately show ?thesis by blast
qed

theorem cache_refines_storage_witness:
  "\<exists>c assets xyk pools assets' xyk' pools'.
    processEvents (map (encode_event \<circ> snd) example_events) (snd (read_pools (example_storage 7 True) new_pool_cache)) =
      (Inr \<lparr>omnipoolChanged = True, xykChanged = True, stableswapChanged = True\<rparr>, c)
    \<and> fst (read_pools example_later c) = (Inr (Some assets), Inr (Some xyk), Inr (Some pools))
    \<and> fst (read_pools example_later new_pool_cache) = (Inr (Some assets'), Inr (Some xyk'), Inr (Some pools'))
    \<and> set assets = set assets' \<and> index_by poolAccount xyk = index_by poolAccount xyk'
    \<and> rel_fun (=) (rel_option same_ramp) (index_by sp_poolId pools) (index_by sp_poolId pools')"
proof -
  note safe = count_ok_def is_safe_integer_def MAX_SAFE_INTEGER_def
  have "list_all pool_event_ok (map snd example_events)" by (simp add: example_events_def safe)
  moreover have "storage_readable (example_storage 7 True)" "storage_keys_ok (example_storage 7 True)"
    "storage_readable example_later" "storage_keys_ok example_later"
    by (simp_all add: storage_readable_def storage_keys_ok_def example_storage_def example_later_def)
  moreover have "storage_view example_later = fold chain_says example_events (storage_view (example_storage 7 True))"
    by (auto simp: storage_view_def example_later_def example_storage_def example_events_def stored_def fun_eq_iff
        stableswap_entry_of_def Let_def)
  moreover have "fold reports (map snd example_events) no_changes =
      \<lparr>omnipoolChanged = True, xykChanged = True, stableswapChanged = True\<rparr>"
    by (simp add: example_events_def no_changes_def)
  ultimately show ?thesis using cache_refines_storage [of example_events "example_storage 7 True" example_later] by simp
qed

end
