(* ===== verification/Evm_Balances.thy ===== *)
theory Evm_Balances
  imports Raw_Rows
begin

text \<open>
  Balances of ERC-20 contracts read from EVM storage (\<^verbatim>\<open>src/evm/balances.ts\<close>): the registry of contracts,
  the storage keys of Solidity mappings, Aave's interest accrual, and the batched read of the balances of several
  holders in one storage query.

  The registry the module keeps in variables is a record the reads take. The Keccak digest (a library) is an argument:
  the number its 32 bytes make, for the hexadecimal text it hashes. The storage query (Subsquid codec) is a field of
  the block; a value that is no text counts as missing. Warnings on the console are left out.
\<close>

unbundle bit_operations_syntax

section \<open>Constants\<close>

definition ERC20_BALANCE_SLOT :: int where "ERC20_BALANCE_SLOT = 3"
definition AAVE_USER_STATE_SLOT :: int where "AAVE_USER_STATE_SLOT = 52"
definition AAVE_POOL_RESERVES_SLOT :: int where "AAVE_POOL_RESERVES_SLOT = 52"
definition RESERVE_WORD_LIQUIDITY :: int where "RESERVE_WORD_LIQUIDITY = 1"
definition RESERVE_WORD_TIMESTAMP :: int where "RESERVE_WORD_TIMESTAMP = 3"
definition RESERVE_WORD_ATOKEN :: int where "RESERVE_WORD_ATOKEN = 4"
definition RAY :: int where "RAY = 10 ^ 27"
definition HALF_RAY :: int where "HALF_RAY = RAY div 2"
definition SECONDS_PER_YEAR :: int where "SECONDS_PER_YEAR = 31536000"
definition UINT128_MASK :: int where "UINT128_MASK = push_bit 128 1 - 1"
definition UINT40_MASK :: int where "UINT40_MASK = push_bit 40 1 - 1"
definition UINT160_MASK :: int where "UINT160_MASK = push_bit 160 1 - 1"

lemma and_masks [simp]:
  "w AND UINT128_MASK = take_bit 128 w" "w AND UINT40_MASK = take_bit 40 w" "w AND UINT160_MASK = take_bit 160 w"
proof -
  have "push_bit n 1 - 1 = (mask n :: int)" for n by (simp add: mask_eq_exp_minus_1 push_bit_eq_mult)
  then show "w AND UINT128_MASK = take_bit 128 w" "w AND UINT40_MASK = take_bit 40 w" "w AND UINT160_MASK = take_bit 160 w"
    by (simp_all only: UINT128_MASK_def UINT40_MASK_def UINT160_MASK_def take_bit_eq_mask)
qed

section \<open>Registry\<close>

record atoken_reserve_ref =
  ref_poolProxy :: string
  ref_assetAddress :: string

record erc20_registry =
  erc20Contracts :: "(int, string) jsmap"
  atokenIds :: "int list"
  atokenReserves :: "(string, atoken_reserve_ref) jsmap"

definition updateErc20Registry ::
  "(int, string) jsmap \<Rightarrow> int list \<Rightarrow> (string, atoken_reserve_ref) jsmap \<Rightarrow> erc20_registry" where
  "updateErc20Registry contracts aTokenIdSet reserves =
     \<lparr>erc20Contracts = contracts, atokenIds = aTokenIdSet,
      atokenReserves =
        foldl (\<lambda>m (atoken, ref). map_set (to_lower atoken)
            \<lparr>ref_poolProxy = to_lower (ref_poolProxy ref), ref_assetAddress = to_lower (ref_assetAddress ref)\<rparr> m)
          [] reserves\<rparr>"

definition isKnownErc20 :: "erc20_registry \<Rightarrow> int \<Rightarrow> bool" where
  "isKnownErc20 reg assetId = map_has (erc20Contracts reg) assetId"

section \<open>Storage keys\<close>

text \<open>\<open>s.replace('0x', '')\<close>: the first occurrence.\<close>

fun replace_0x :: "string \<Rightarrow> string" where
  "replace_0x [] = []"
| "replace_0x (c # s) = (if starts_with ''0x'' (c # s) then tl s else c # replace_0x s)"

definition mapping_preimage :: "string \<Rightarrow> int \<Rightarrow> string" where
  "mapping_preimage evmAddress slot =
     pad_start 64 (CHR ''0'') (replace_0x evmAddress) @ pad_start 64 (CHR ''0'') (nat_to_base 16 (nat slot))"

definition mappingStorageKey :: "(string \<Rightarrow> int) \<Rightarrow> string \<Rightarrow> int \<Rightarrow> string" where
  "mappingStorageKey keccak evmAddress slot = ''0x'' @ abi_encode (keccak (mapping_preimage evmAddress slot))"

definition mappingStructWordKey :: "(string \<Rightarrow> int) \<Rightarrow> string \<Rightarrow> int \<Rightarrow> int \<Rightarrow> string" where
  "mappingStructWordKey keccak evmAddress slot offset =
     (let base = keccak (mapping_preimage evmAddress slot) mod 2 ^ 256
      in ''0x'' @ abi_encode (base + offset))"

definition substrateToEvmAddress :: "string \<Rightarrow> string" where
  "substrateToEvmAddress accountHex = take 42 accountHex"

section \<open>Accrual\<close>

definition scaledBalanceFromUserState :: "int \<Rightarrow> int" where
  "scaledBalanceFromUserState word = word AND UINT128_MASK"

definition normalizedIncomeFromReserveWords :: "int \<Rightarrow> int \<Rightarrow> int \<Rightarrow> int option" where
  "normalizedIncomeFromReserveWords liquidityWord timestampWord timestampSec =
     (let liquidityIndex = liquidityWord AND UINT128_MASK;
          liquidityRate = drop_bit 128 liquidityWord;
          lastUpdate = drop_bit 128 timestampWord AND UINT40_MASK
      in if liquidityIndex = 0 then None
         else if timestampSec \<le> lastUpdate then Some liquidityIndex
         else
           (let linear = RAY + bdiv (liquidityRate * (timestampSec - lastUpdate)) SECONDS_PER_YEAR
            in Some (bdiv (linear * liquidityIndex + HALF_RAY) RAY)))"

definition atokenBalanceFromUserState :: "int \<Rightarrow> int \<Rightarrow> int" where
  "atokenBalanceFromUserState word normalizedIncome =
     (let scaledBalance = scaledBalanceFromUserState word
      in if scaledBalance = 0 then 0 else bdiv (scaledBalance * normalizedIncome + HALF_RAY) RAY)"

section \<open>Batched read\<close>

record evm_block =
  eb_height :: int
  eb_timestamp :: "int option"
  accountStorages_is :: bool
  accountStorages_getMany :: "(string \<times> string) list \<Rightarrow> string + string option list"

definition blockTimestampSeconds :: "evm_block \<Rightarrow> int option" where
  "blockTimestampSeconds block =
     (case eb_timestamp block of None \<Rightarrow> None | Some timestamp \<Rightarrow> if timestamp \<le> 0 then None else Some (timestamp div 1000))"

record holder_request =
  rq_assetIds :: "int list"
  rq_poolAccountHex :: string

record erc20_query =
  q_request :: nat
  q_index :: nat
  q_contract :: string
  q_storageKey :: string
  q_reserve :: "atoken_reserve_ref option"
  q_isAToken :: bool

text \<open>The query of one leg; an asset without a contract has none.\<close>

definition leg_query ::
  "(string \<Rightarrow> int) \<Rightarrow> erc20_registry \<Rightarrow> string \<Rightarrow> nat \<Rightarrow> nat \<Rightarrow> int \<Rightarrow> erc20_query list" where
  "leg_query keccak reg evmAddr request i assetId =
     (case map_of (erc20Contracts reg) assetId of
        None \<Rightarrow> []
      | Some contract \<Rightarrow>
          if contract = [] then []
          else
            (let isAToken = assetId \<in> set (atokenIds reg);
                 slot = (if isAToken then AAVE_USER_STATE_SLOT else ERC20_BALANCE_SLOT)
             in [\<lparr>q_request = request, q_index = i, q_contract = contract,
                  q_storageKey = mappingStorageKey keccak evmAddr slot,
                  q_reserve = (if isAToken then map_of (atokenReserves reg) (to_lower contract) else None),
                  q_isAToken = isAToken\<rparr>]))"

definition request_queries ::
  "(string \<Rightarrow> int) \<Rightarrow> erc20_registry \<Rightarrow> nat \<times> holder_request \<Rightarrow> erc20_query list" where
  "request_queries keccak reg p =
     (let (request, r) = p; evmAddr = substrateToEvmAddress (rq_poolAccountHex r)
      in concat (map (\<lambda>(i, assetId). leg_query keccak reg evmAddr request i assetId) (List.enumerate 0 (rq_assetIds r))))"

definition reserve_key :: "atoken_reserve_ref \<Rightarrow> string" where
  "reserve_key r = ref_poolProxy r @ '':'' @ ref_assetAddress r"

definition reserve_words :: "(string \<Rightarrow> int) \<Rightarrow> atoken_reserve_ref \<Rightarrow> (string \<times> string) list" where
  "reserve_words keccak r =
     map (\<lambda>offset. (ref_poolProxy r, mappingStructWordKey keccak (ref_assetAddress r) AAVE_POOL_RESERVES_SLOT offset))
       [RESERVE_WORD_LIQUIDITY, RESERVE_WORD_TIMESTAMP, RESERVE_WORD_ATOKEN]"

text \<open>One set of reserve words per reserve, after the balance keys.\<close>

definition reserve_step ::
  "(string \<Rightarrow> int) \<Rightarrow> (string, nat) jsmap \<times> (string \<times> string) list \<Rightarrow> erc20_query
   \<Rightarrow> (string, nat) jsmap \<times> (string \<times> string) list" where
  "reserve_step keccak st query =
     (case q_reserve query of None \<Rightarrow> st
      | Some r \<Rightarrow>
         (let (offsets, keys) = st
          in if map_has offsets (reserve_key r) then st
             else (map_set (reserve_key r) (length keys) offsets, keys @ reserve_words keccak r)))"

definition storage_keys ::
  "(string \<Rightarrow> int) \<Rightarrow> erc20_query list \<Rightarrow> (string, nat) jsmap \<times> (string \<times> string) list" where
  "storage_keys keccak queries =
     foldl (reserve_step keccak) ([], map (\<lambda>q. (q_contract q, q_storageKey q)) queries) queries"

text \<open>\<open>BigInt('0x' + hex)\<close> and \<open>BigInt(text)\<close>; \<^const>\<open>None\<close> is their \<open>SyntaxError\<close>.\<close>

definition parse_hex :: "string \<Rightarrow> int option" where
  "parse_hex hex = (if hex = [] then None else map_option int (digits_value 16 0 hex))"

definition bigint_of_text :: "string \<Rightarrow> int option" where
  "bigint_of_text s = (if starts_with ''0x'' s then parse_hex (drop 2 s) else parse_bigint s)"

definition raw_hex :: "string option \<Rightarrow> string" where
  "raw_hex raw = (case raw of None \<Rightarrow> [] | Some r \<Rightarrow> replace_0x r)"

definition raw_word :: "string option \<Rightarrow> int option" where
  "raw_word raw = (if raw_hex raw = [] then Some 0 else parse_hex (raw_hex raw))"

definition value_at :: "'a option list \<Rightarrow> nat \<Rightarrow> 'a option" where
  "value_at values i = (if i < length values then values ! i else None)"

text \<open>What a query's values give: the outer \<^const>\<open>None\<close> throws, the inner one leaves the leg at zero.\<close>

definition query_value ::
  "int option \<Rightarrow> (string, nat) jsmap \<Rightarrow> string option list \<Rightarrow> erc20_query \<Rightarrow> string option \<Rightarrow> int option option" where
  "query_value timestampSec offsets rawValues query raw =
     (let hex = raw_hex raw in
      if hex = [] \<or> hex = replicate 64 (CHR ''0'') then Some None
      else if q_isAToken query then
        do {
          userState \<leftarrow> parse_hex hex;
          if scaledBalanceFromUserState userState = 0 then Some None
          else case (q_reserve query, timestampSec) of
              (Some r, Some t) \<Rightarrow>
                (let offset = the (map_of offsets (reserve_key r))
                 in do {
                   atoken \<leftarrow> raw_word (value_at rawValues (offset + 2));
                   contract \<leftarrow> bigint_of_text (q_contract query);
                   if atoken AND UINT160_MASK \<noteq> contract then Some None
                   else do {
                     liquidity \<leftarrow> raw_word (value_at rawValues offset);
                     stamp \<leftarrow> raw_word (value_at rawValues (offset + 1));
                     Some (map_option (atokenBalanceFromUserState userState)
                       (normalizedIncomeFromReserveWords liquidity stamp t))
                   }
                 })
            | _ \<Rightarrow> Some None
        }
      else map_option Some (parse_hex hex))"

definition set_result :: "int list list \<Rightarrow> erc20_query \<Rightarrow> int \<Rightarrow> int list list" where
  "set_result results query v = results[q_request query := (results ! q_request query)[q_index query := v]]"

fun query_loop ::
  "int option \<Rightarrow> (string, nat) jsmap \<Rightarrow> string option list \<Rightarrow> (nat \<times> erc20_query) list \<Rightarrow> int list list
   \<Rightarrow> int list list option" where
  "query_loop t offsets rawValues [] results = Some results"
| "query_loop t offsets rawValues ((qi, query) # queries) results =
     (case query_value t offsets rawValues query (value_at rawValues qi) of
        None \<Rightarrow> None
      | Some None \<Rightarrow> query_loop t offsets rawValues queries results
      | Some (Some v) \<Rightarrow> query_loop t offsets rawValues queries (set_result results query v))"

definition erc20_read_failed :: "evm_block \<Rightarrow> string" where
  "erc20_read_failed block = ''Failed to read ERC20 balances at block '' @ int_to_string (eb_height block)"

definition readErc20BalancesForHolders ::
  "(string \<Rightarrow> int) \<Rightarrow> erc20_registry \<Rightarrow> evm_block \<Rightarrow> holder_request list \<Rightarrow> string + int list list" where
  "readErc20BalancesForHolders keccak reg block requests =
     (let queries = concat (map (request_queries keccak reg) (List.enumerate 0 requests));
          results = map (\<lambda>r. replicate (length (rq_assetIds r)) 0) requests
      in if queries = [] then Inr results
         else if \<not> accountStorages_is block
         then Inl (''Unsupported EVM.AccountStorages storage at block '' @ int_to_string (eb_height block))
         else
           (let (offsets, keys) = storage_keys keccak queries
            in case accountStorages_getMany block keys of
                 Inl _ \<Rightarrow> Inl (erc20_read_failed block)
               | Inr rawValues \<Rightarrow>
                  (case query_loop (blockTimestampSeconds block) offsets rawValues (List.enumerate 0 queries) results of
                     None \<Rightarrow> Inl (erc20_read_failed block)
                   | Some results \<Rightarrow> Inr results)))"

definition readErc20Balances ::
  "(string \<Rightarrow> int) \<Rightarrow> erc20_registry \<Rightarrow> evm_block \<Rightarrow> int list \<Rightarrow> string \<Rightarrow> string + int list" where
  "readErc20Balances keccak reg block assetIds poolAccountHex =
     map_sum id hd (readErc20BalancesForHolders keccak reg block
       [\<lparr>rq_assetIds = assetIds, rq_poolAccountHex = poolAccountHex\<rparr>])"

section \<open>Interest only adds\<close>

lemma income_bounds:
  assumes "0 \<le> liquidityWord" "t \<le> t'"
    and i: "normalizedIncomeFromReserveWords liquidityWord timestampWord t = Some i"
    and i': "normalizedIncomeFromReserveWords liquidityWord timestampWord t' = Some i'"
  shows "0 < take_bit 128 liquidityWord" "take_bit 128 liquidityWord \<le> i" "i \<le> i'"
proof -
  define x where "x = take_bit 128 liquidityWord"
  define rate where "rate = drop_bit 128 liquidityWord"
  define u where "u = take_bit 40 (drop_bit 128 timestampWord)"
  have x: "0 \<le> x" "x \<noteq> 0" using i by (auto simp: x_def normalizedIncomeFromReserveWords_def Let_def split: if_splits)
  have rate: "0 \<le> rate" using assms(1) by (simp add: rate_def)
  define linear where "linear s = RAY + (rate * (s - u)) div SECONDS_PER_YEAR" for s
  have ray: "0 < RAY" "0 \<le> HALF_RAY" "0 < SECONDS_PER_YEAR" by (simp_all add: RAY_def HALF_RAY_def SECONDS_PER_YEAR_def)
  have inc: "normalizedIncomeFromReserveWords liquidityWord timestampWord s =
      Some (if s \<le> u then x else (linear s * x + HALF_RAY) div RAY)" for s
  proof (cases "s \<le> u")
    case False
    have nn: "0 \<le> rate * (s - u)" using rate False by simp
    then have "0 \<le> linear s" using ray by (simp add: linear_def pos_imp_zdiv_nonneg_iff)
    then have "0 \<le> linear s * x + HALF_RAY" using x ray by simp
    then show ?thesis
      using False x nn ray by (simp add: normalizedIncomeFromReserveWords_def Let_def x_def rate_def u_def linear_def bdiv_nonneg_eq)
  qed (use x in \<open>simp add: normalizedIncomeFromReserveWords_def Let_def x_def u_def\<close>)
  have up: "linear s \<le> linear s'" if "s \<le> s'" for s s'
    using that rate ray(3) by (auto simp: linear_def intro!: zdiv_mono1 mult_left_mono)
  have base: "x \<le> (linear s * x + HALF_RAY) div RAY" if "u < s" for s
  proof -
    have "0 \<le> rate * (s - u)" using rate that by simp
    then have "RAY \<le> linear s" using ray by (simp add: linear_def pos_imp_zdiv_nonneg_iff)
    then have "RAY * x \<le> linear s * x + HALF_RAY" using x ray by (meson add_increasing2 mult_right_mono)
    then have "RAY * x div RAY \<le> (linear s * x + HALF_RAY) div RAY" using ray(1) by (rule zdiv_mono1)
    then show ?thesis using ray(1) by simp
  qed
  show "0 < take_bit 128 liquidityWord" unfolding x_def [symmetric] using x by linarith
  show "take_bit 128 liquidityWord \<le> i" using i base [of t] inc [of t] by (auto simp: x_def split: if_splits)
  show "i \<le> i'"
  proof (cases "t \<le> u")
    case True
    then show ?thesis using i i' inc [of t] inc [of t'] base [of t'] by (auto split: if_splits)
  next
    case False
    have "linear t * x + HALF_RAY \<le> linear t' * x + HALF_RAY"
      using up [OF assms(2)] x by (simp add: mult_right_mono)
    then have "(linear t * x + HALF_RAY) div RAY \<le> (linear t' * x + HALF_RAY) div RAY"
      using ray(1) by (rule zdiv_mono1)
    then show ?thesis using False assms(2) i i' inc [of t] inc [of t'] by simp
  qed
qed

lemma half_up: "0 \<le> a \<Longrightarrow> \<bar>((a + HALF_RAY) div RAY) * RAY - a\<bar> \<le> HALF_RAY"
proof -
  assume "0 \<le> a"
  have "RAY = 2 * HALF_RAY" "0 < HALF_RAY" by (simp_all add: RAY_def HALF_RAY_def)
  moreover have "(a + HALF_RAY) div RAY * RAY = a + HALF_RAY - (a + HALF_RAY) mod RAY"
    by (simp add: minus_mod_eq_div_mult)
  moreover have "0 \<le> (a + HALF_RAY) mod RAY" "(a + HALF_RAY) mod RAY < RAY" using calculation by simp_all
  ultimately show ?thesis by linarith
qed

lemma balance_div:
  assumes "0 \<le> income"
  shows "atokenBalanceFromUserState word income = (take_bit 128 word * income + HALF_RAY) div RAY"
proof -
  have "(0::int) \<le> take_bit 128 word" by simp
  then have "0 \<le> take_bit 128 word * income + HALF_RAY" using assms by (simp add: HALF_RAY_def RAY_def)
  moreover have "HALF_RAY div RAY = 0" by (simp add: HALF_RAY_def RAY_def)
  ultimately show ?thesis
    by (simp add: atokenBalanceFromUserState_def scaledBalanceFromUserState_def Let_def bdiv_nonneg_eq RAY_def)
qed

section \<open>A batch is its single reads\<close>

text \<open>What a query's value depends on, with the reserve's words in place.\<close>

definition query_spec ::
  "(string \<Rightarrow> int) \<Rightarrow> int option \<Rightarrow> (string \<times> string \<Rightarrow> string option) \<Rightarrow> erc20_query \<Rightarrow> int option option" where
  "query_spec keccak t f q =
     query_value t (case q_reserve q of None \<Rightarrow> [] | Some r \<Rightarrow> [(reserve_key r, 0)])
       (case q_reserve q of None \<Rightarrow> [] | Some r \<Rightarrow> map f (reserve_words keccak r)) q (f (q_contract q, q_storageKey q))"

definition words_placed ::
  "(string \<Rightarrow> int) \<Rightarrow> erc20_query \<Rightarrow> (string, nat) jsmap \<Rightarrow> (string \<times> string) list \<Rightarrow> bool" where
  "words_placed keccak q offsets keys =
     (case q_reserve q of None \<Rightarrow> True
      | Some r \<Rightarrow> (\<exists>off. map_of offsets (reserve_key r) = Some off \<and> off + 3 \<le> length keys
                     \<and> take 3 (drop off keys) = reserve_words keccak r))"

lemma length_reserve_words [simp]: "length (reserve_words keccak r) = 3"
  by (simp add: reserve_words_def)

lemma query_value_spec:
  assumes "words_placed keccak q offsets keys"
  shows "query_value t offsets (map f keys) q (f (q_contract q, q_storageKey q)) = query_spec keccak t f q"
proof (cases "q_reserve q")
  case None
  then show ?thesis by (auto simp: query_spec_def query_value_def Let_def split: option.splits bind_splits)
next
  case (Some r)
  then obtain off where off: "map_of offsets (reserve_key r) = Some off" "off + 3 \<le> length keys"
      "take 3 (drop off keys) = reserve_words keccak r"
    using assms by (auto simp: words_placed_def)
  have at: "value_at (map f keys) (off + j) = value_at (map f (reserve_words keccak r)) j" if "j < 3" for j
  proof -
    have "reserve_words keccak r ! j = keys ! (off + j)"
      unfolding off(3) [symmetric] using that off(2) by simp
    then show ?thesis using that off(2) by (simp add: value_at_def)
  qed
  have "value_at (map f keys) off = value_at (map f (reserve_words keccak r)) 0"
    "value_at (map f keys) (Suc off) = value_at (map f (reserve_words keccak r)) (Suc 0)"
    "value_at (map f keys) (Suc (Suc off)) = value_at (map f (reserve_words keccak r)) (Suc (Suc 0))"
    using at [of 0] at [of 1] at [of 2] by (simp_all add: numeral_2_eq_2)
  then show ?thesis
    by (simp add: query_spec_def query_value_def Some off(1) Let_def numeral_2_eq_2 cong: if_cong option.case_cong)
qed

text \<open>The words of every query's reserve are among the keys, at its offset.\<close>

definition reserves_apart :: "erc20_query list \<Rightarrow> bool" where
  "reserves_apart queries \<longleftrightarrow> (\<forall>q \<in> set queries. \<forall>r. q_reserve q = Some r \<longrightarrow> CHR '':'' \<notin> set (ref_poolProxy r))"

lemma reserve_key_inj:
  assumes "CHR '':'' \<notin> set (ref_poolProxy r)" "CHR '':'' \<notin> set (ref_poolProxy r')" "reserve_key r = reserve_key r'"
  shows "reserve_words keccak r = reserve_words keccak r'"
proof -
  have "takeWhile (\<lambda>c. c \<noteq> CHR '':'') (reserve_key x) = ref_poolProxy x"
    "dropWhile (\<lambda>c. c \<noteq> CHR '':'') (reserve_key x) = CHR '':'' # ref_assetAddress x"
    if "CHR '':'' \<notin> set (ref_poolProxy x)" for x :: atoken_reserve_ref
    using that by (simp_all add: reserve_key_def takeWhile_append dropWhile_append)
  from this [of r] this [of r'] assms have "ref_poolProxy r = ref_poolProxy r'" "ref_assetAddress r = ref_assetAddress r'"
    by (metis, metis list.inject)
  then show ?thesis by (simp add: reserve_words_def)
qed

definition offsets_ok ::
  "(string \<Rightarrow> int) \<Rightarrow> atoken_reserve_ref set \<Rightarrow> (string, nat) jsmap \<times> (string \<times> string) list \<Rightarrow> bool" where
  "offsets_ok keccak R st \<longleftrightarrow>
     (\<forall>k off. map_of (fst st) k = Some off \<longrightarrow>
        (\<exists>r \<in> R. reserve_key r = k \<and> off + 3 \<le> length (snd st) \<and> take 3 (drop off (snd st)) = reserve_words keccak r))"

lemma offsets_okE:
  assumes "offsets_ok keccak R st" "map_of (fst st) k = Some off"
  obtains r where "r \<in> R" "reserve_key r = k" "off + 3 \<le> length (snd st)"
    "take 3 (drop off (snd st)) = reserve_words keccak r"
  using assms unfolding offsets_ok_def by blast

lemma offsets_ok_step:
  assumes ok: "offsets_ok keccak R st" and "\<And>r. q_reserve q = Some r \<Longrightarrow> r \<in> R"
  shows "offsets_ok keccak R (reserve_step keccak st q)"
proof (cases "q_reserve q")
  case None
  then show ?thesis using ok by (simp add: reserve_step_def)
next
  case (Some r)
  then have r: "r \<in> R" using assms(2) by simp
  obtain offsets keys where st: "st = (offsets, keys)" by fastforce
  show ?thesis
  proof (cases "map_has offsets (reserve_key r)")
    case False
    have "\<exists>r' \<in> R. reserve_key r' = k \<and> off + 3 \<le> length (keys @ reserve_words keccak r)
        \<and> take 3 (drop off (keys @ reserve_words keccak r)) = reserve_words keccak r'"
      if "map_of (map_set (reserve_key r) (length keys) offsets) k = Some off" for k off
    proof (cases "k = reserve_key r")
      case True
      then show ?thesis using that r by auto
    next
      case False
      then have "map_of (fst st) k = Some off" using that by (simp add: st)
      then obtain r' where "r' \<in> R" "reserve_key r' = k" "off + 3 \<le> length keys"
          "take 3 (drop off keys) = reserve_words keccak r'"
        using offsets_okE [OF ok] by (metis st snd_conv)
      then show ?thesis by auto
    qed
    then show ?thesis using False by (simp add: reserve_step_def Some st offsets_ok_def)
  qed (use ok in \<open>simp add: reserve_step_def Some st\<close>)
qed

lemma offsets_ok_fold:
  "offsets_ok keccak R st \<Longrightarrow> (\<And>q r. q \<in> set qs \<Longrightarrow> q_reserve q = Some r \<Longrightarrow> r \<in> R)
   \<Longrightarrow> offsets_ok keccak R (foldl (reserve_step keccak) st qs)"
proof (induction qs arbitrary: st)
  case (Cons q qs)
  have "offsets_ok keccak R (reserve_step keccak st q)" using Cons.prems by (intro offsets_ok_step) auto
  then have "offsets_ok keccak R (foldl (reserve_step keccak) (reserve_step keccak st q) qs)"
    by (rule Cons.IH) (use Cons.prems(2) in auto)
  then show ?case by simp
qed simp

lemma offsets_grow: "map_has (fst st) k \<Longrightarrow> map_has (fst (foldl (reserve_step keccak) st qs)) k"
  by (induction qs arbitrary: st) (auto simp: reserve_step_def Let_def split: option.split prod.split)

lemma offsets_complete:
  "q \<in> set qs \<Longrightarrow> q_reserve q = Some r \<Longrightarrow> map_has (fst (foldl (reserve_step keccak) st qs)) (reserve_key r)"
proof (induction qs arbitrary: st)
  case (Cons q' qs)
  show ?case
  proof (cases "q = q'")
    case True
    have "map_has (fst (reserve_step keccak st q)) (reserve_key r)"
      using Cons.prems by (auto simp: reserve_step_def Let_def split: prod.split)
    then show ?thesis using offsets_grow by (auto simp: True)
  qed (use Cons in simp)
qed simp

lemma keys_prefix: "\<exists>ks. snd (foldl (reserve_step keccak) st qs) = snd st @ ks"
proof (induction qs arbitrary: st)
  case (Cons q qs)
  have "\<exists>ks. snd (reserve_step keccak st q) = snd st @ ks"
    by (auto simp: reserve_step_def Let_def split: option.split prod.split)
  then show ?case using Cons [of "reserve_step keccak st q"] by auto
qed simp

lemma storage_keys_place:
  assumes apart: "reserves_apart queries" and q: "q \<in> set queries"
  shows "words_placed keccak q (fst (storage_keys keccak queries)) (snd (storage_keys keccak queries))"
proof (cases "q_reserve q")
  case (Some r)
  let ?st = "storage_keys keccak queries" and ?R = "{r. \<exists>q \<in> set queries. q_reserve q = Some r}"
  have ok: "offsets_ok keccak ?R ?st"
    unfolding storage_keys_def by (rule offsets_ok_fold) (auto simp: offsets_ok_def)
  have "map_has (fst ?st) (reserve_key r)"
    unfolding storage_keys_def using q Some by (rule offsets_complete)
  then obtain off where off: "map_of (fst ?st) (reserve_key r) = Some off" by (auto simp: map_has_iff)
  then obtain r' where r': "r' \<in> ?R" "reserve_key r' = reserve_key r" "off + 3 \<le> length (snd ?st)"
      "take 3 (drop off (snd ?st)) = reserve_words keccak r'"
    by (rule offsets_okE [OF ok])
  have "reserve_words keccak r' = reserve_words keccak r"
    using apart q Some r'(1,2) by (intro reserve_key_inj) (auto simp: reserves_apart_def)
  then show ?thesis using off r' by (auto simp: words_placed_def Some)
qed (simp add: words_placed_def)

lemma storage_keys_prefix:
  assumes "i < length queries"
  shows "i < length (snd (storage_keys keccak queries))"
    "snd (storage_keys keccak queries) ! i = (q_contract (queries ! i), q_storageKey (queries ! i))"
proof -
  obtain ks where "snd (storage_keys keccak queries) = map (\<lambda>q. (q_contract q, q_storageKey q)) queries @ ks"
    using keys_prefix [of keccak "([], map (\<lambda>q. (q_contract q, q_storageKey q)) queries)" queries]
    by (auto simp: storage_keys_def)
  then show "i < length (snd (storage_keys keccak queries))"
    "snd (storage_keys keccak queries) ! i = (q_contract (queries ! i), q_storageKey (queries ! i))"
    using assms by (simp_all add: nth_append)
qed

text \<open>The loop writes each query's value at its place.\<close>

definition put_value :: "(erc20_query \<Rightarrow> int option) \<Rightarrow> int list list \<Rightarrow> erc20_query \<Rightarrow> int list list" where
  "put_value w results q = (case w q of None \<Rightarrow> results | Some v \<Rightarrow> set_result results q v)"

definition in_bounds :: "int list list \<Rightarrow> erc20_query \<Rightarrow> bool" where
  "in_bounds results q \<longleftrightarrow> q_request q < length results \<and> q_index q < length (results ! q_request q)"

lemma query_loop_puts:
  assumes "\<And>qi q. (qi, q) \<in> set iqs \<Longrightarrow> query_value t offsets raws q (value_at raws qi) = Some (w q)"
  shows "query_loop t offsets raws iqs results = Some (foldl (put_value w) results (map snd iqs))"
  using assms
proof (induction iqs arbitrary: results)
  case (Cons p iqs)
  obtain qi q where p: "p = (qi, q)" by fastforce
  have "query_value t offsets raws q (value_at raws qi) = Some (w q)" using Cons.prems by (simp add: p)
  then show ?case using Cons by (auto simp: p put_value_def split: option.split)
qed simp

lemma query_loop_throws:
  assumes "(qi, q) \<in> set iqs" "query_value t offsets raws q (value_at raws qi) = None"
  shows "query_loop t offsets raws iqs results = None"
  using assms by (induction iqs arbitrary: results) (auto split: option.split)

lemma put_value_shape [simp]: "map length (put_value w results q) = map length results"
proof (cases "q_request q < length results")
  case True
  then show ?thesis by (auto simp: put_value_def set_result_def map_update list_update_same_conv split: option.split)
qed (simp add: put_value_def set_result_def list_update_beyond split: option.split)

lemma puts_shape [simp]: "map length (foldl (put_value w) results qs) = map length results"
  by (induction qs arbitrary: results) (simp_all del: map_eq_conv)

lemma shape_bounds:
  assumes "map length rs = map length results"
  shows "length rs = length results" "r < length results \<Longrightarrow> length (rs ! r) = length (results ! r)"
  using assms by (metis length_map, metis assms length_map nth_map)

lemma put_value_entry:
  assumes "in_bounds results q"
  shows "put_value w results q ! r ! i =
    (if (q_request q, q_index q) = (r, i) then (case w q of None \<Rightarrow> results ! r ! i | Some v \<Rightarrow> v) else results ! r ! i)"
  using assms by (auto simp: put_value_def set_result_def in_bounds_def nth_list_update split: option.split)

lemma puts_entry:
  assumes "\<And>q. q \<in> set qs \<Longrightarrow> in_bounds results q"
    and "\<And>q. q \<in> set qs \<Longrightarrow> (q_request q, q_index q) = (r, i) \<Longrightarrow> q = q0"
    and "(q_request q0, q_index q0) = (r, i)"
  shows "foldl (put_value w) results qs ! r ! i =
    (if q0 \<in> set qs then (case w q0 of None \<Rightarrow> results ! r ! i | Some v \<Rightarrow> v) else results ! r ! i)"
  using assms(1,2)
proof (induction qs rule: rev_induct)
  case (snoc q qs)
  let ?rs = "foldl (put_value w) results qs"
  have "in_bounds results q" using snoc.prems(1) by simp
  then have "in_bounds ?rs q"
    using shape_bounds [OF puts_shape [of w results qs]] by (auto simp: in_bounds_def)
  note e = put_value_entry [OF this, of w r i]
  have IH: "?rs ! r ! i = (if q0 \<in> set qs then (case w q0 of None \<Rightarrow> results ! r ! i | Some v \<Rightarrow> v) else results ! r ! i)"
    using snoc by simp
  show ?case
  proof (cases "q = q0")
    case True
    then show ?thesis using e IH assms(3) by (auto split: option.split)
  next
    case False
    then have "(q_request q, q_index q) \<noteq> (r, i)" using snoc.prems(2) by auto
    then show ?thesis using e IH False by auto
  qed
qed simp

text \<open>One leg, on its own.\<close>

definition leg_balance ::
  "(string \<Rightarrow> int) \<Rightarrow> erc20_registry \<Rightarrow> int option \<Rightarrow> (string \<times> string \<Rightarrow> string option) \<Rightarrow> string \<Rightarrow> int \<Rightarrow> int option" where
  "leg_balance keccak reg t f account assetId =
     (case leg_query keccak reg (substrateToEvmAddress account) 0 0 assetId of
        [] \<Rightarrow> Some 0
      | q # _ \<Rightarrow> map_option (case_option 0 id) (query_spec keccak t f q))"

lemma leg_query_at:
  "leg_query keccak reg addr r i a = map (\<lambda>q. q\<lparr>q_request := r, q_index := i\<rparr>) (leg_query keccak reg addr 0 0 a)"
  by (simp add: leg_query_def Let_def split: option.split)

lemma query_spec_at [simp]: "query_spec keccak t f (q\<lparr>q_request := r, q_index := i\<rparr>) = query_spec keccak t f q"
  by (simp add: query_spec_def query_value_def Let_def cong: if_cong option.case_cong)

lemma leg_query_cases:
  "leg_query keccak reg addr r i a = [] \<or>
   (\<exists>q. leg_query keccak reg addr r i a = [q] \<and> q_request q = r \<and> q_index q = i
        \<and> (\<forall>ref. q_reserve q = Some ref \<longrightarrow> ref \<in> snd ` set (atokenReserves reg)))"
proof (cases "map_of (erc20Contracts reg) a")
  case (Some c)
  have "map_of (atokenReserves reg) k = Some ref \<Longrightarrow> ref \<in> snd ` set (atokenReserves reg)" for k ref
    by (force dest: map_of_SomeD)
  then show ?thesis by (auto simp: leg_query_def Let_def Some)
qed (simp add: leg_query_def)

definition all_queries :: "(string \<Rightarrow> int) \<Rightarrow> erc20_registry \<Rightarrow> holder_request list \<Rightarrow> erc20_query list" where
  "all_queries keccak reg requests = concat (map (request_queries keccak reg) (List.enumerate 0 requests))"

lemma set_concat_enumerate:
  "x \<in> set (concat (map g (List.enumerate 0 xs))) \<longleftrightarrow> (\<exists>i < length xs. x \<in> set (g (i, xs ! i)))"
proof -
  have "x \<in> set (concat (map g (List.enumerate 0 xs))) \<longleftrightarrow> (\<exists>p \<in> set (List.enumerate 0 xs). x \<in> set (g p))"
    by simp
  also have "\<dots> \<longleftrightarrow> (\<exists>i < length xs. x \<in> set (g (i, xs ! i)))"
    by (force simp: in_set_enumerate_eq)
  finally show ?thesis .
qed

lemma all_queries_iff:
  "q \<in> set (all_queries keccak reg requests) \<longleftrightarrow>
   (\<exists>r < length requests. \<exists>i < length (rq_assetIds (requests ! r)).
      q \<in> set (leg_query keccak reg (substrateToEvmAddress (rq_poolAccountHex (requests ! r))) r i (rq_assetIds (requests ! r) ! i)))"
  unfolding all_queries_def request_queries_def
  by (simp only: set_concat_enumerate Let_def split_conv)

text \<open>The general form of the batch: every leg's own value, or a throw as soon as one leg's throws.\<close>

definition zero_results :: "holder_request list \<Rightarrow> int list list" where
  "zero_results requests = map (\<lambda>r. replicate (length (rq_assetIds r)) 0) requests"

lemma query_placed:
  assumes apart: "\<forall>ref \<in> snd ` set (atokenReserves reg). CHR '':'' \<notin> set (ref_poolProxy ref)"
    and i: "(i, q) \<in> set (List.enumerate 0 (all_queries keccak reg requests))"
  shows "query_value t (fst (storage_keys keccak (all_queries keccak reg requests)))
      (map f (snd (storage_keys keccak (all_queries keccak reg requests)))) q
      (value_at (map f (snd (storage_keys keccak (all_queries keccak reg requests)))) i) = query_spec keccak t f q"
proof -
  let ?qs = "all_queries keccak reg requests"
  have "reserves_apart ?qs"
    unfolding reserves_apart_def
  proof (intro ballI allI impI)
    fix q r assume "q \<in> set ?qs" "q_reserve q = Some r"
    then obtain a b c d where "q \<in> set (leg_query keccak reg a b c d)" by (auto simp: all_queries_iff)
    then show "CHR '':'' \<notin> set (ref_poolProxy r)"
      using leg_query_cases [of keccak reg a b c d] apart \<open>q_reserve q = Some r\<close> by auto
  qed
  moreover have q: "i < length ?qs" "?qs ! i = q" using i by (auto simp: in_set_enumerate_eq)
  ultimately have "words_placed keccak q (fst (storage_keys keccak ?qs)) (snd (storage_keys keccak ?qs))"
    using storage_keys_place nth_mem by metis
  moreover have "value_at (map f (snd (storage_keys keccak ?qs))) i = f (q_contract q, q_storageKey q)"
    using storage_keys_prefix [OF q(1), of keccak] q(2) by (simp add: value_at_def)
  ultimately show ?thesis using query_value_spec by metis
qed

lemma leg_of_query:
  assumes "q \<in> set (leg_query keccak reg (substrateToEvmAddress account) r i a)"
  shows "leg_balance keccak reg t f account a = map_option (case_option 0 id) (query_spec keccak t f q)"
    and "leg_query keccak reg (substrateToEvmAddress account) r i a = [q]"
    and "q_request q = r" "q_index q = i"
  using assms leg_query_cases [of keccak reg "substrateToEvmAddress account" 0 0 a]
  by (subst (asm) leg_query_at, force simp: leg_balance_def)
    (use assms leg_query_cases [of keccak reg "substrateToEvmAddress account" r i a] in auto)

lemma leg_without_query:
  "leg_query keccak reg (substrateToEvmAddress account) r i a = [] \<Longrightarrow> leg_balance keccak reg t f account a = Some 0"
  by (subst (asm) leg_query_at) (simp add: leg_balance_def)

lemma read_unfold:
  "readErc20BalancesForHolders keccak reg block requests =
     (let queries = all_queries keccak reg requests; results = zero_results requests
      in if queries = [] then Inr results
         else if \<not> accountStorages_is block
         then Inl (''Unsupported EVM.AccountStorages storage at block '' @ int_to_string (eb_height block))
         else
           (case accountStorages_getMany block (snd (storage_keys keccak queries)) of
              Inl _ \<Rightarrow> Inl (erc20_read_failed block)
            | Inr rawValues \<Rightarrow>
               (case query_loop (blockTimestampSeconds block) (fst (storage_keys keccak queries)) rawValues
                    (List.enumerate 0 queries) results of
                  None \<Rightarrow> Inl (erc20_read_failed block)
                | Some results \<Rightarrow> Inr results)))"
  unfolding readErc20BalancesForHolders_def all_queries_def zero_results_def Let_def
  by (simp only: case_prod_beta)

text \<open>The entry of a leg after the loop is the leg's balance.\<close>

lemma batch_entry:
  fixes requests :: "holder_request list" and keccak :: "string \<Rightarrow> int" and reg :: erc20_registry
  defines "qs \<equiv> all_queries keccak reg requests"
  assumes r: "r < length requests" and i: "i < length (rq_assetIds (requests ! r))"
    and w: "\<And>q. q \<in> set qs \<Longrightarrow> query_spec keccak t f q = Some (w q)"
    and leg: "leg_balance keccak reg t f (rq_poolAccountHex (requests ! r)) (rq_assetIds (requests ! r) ! i) = Some v"
  shows "foldl (put_value w) (zero_results requests) qs ! r ! i = v"
proof -
  let ?leg = "leg_query keccak reg (substrateToEvmAddress (rq_poolAccountHex (requests ! r))) r i (rq_assetIds (requests ! r) ! i)"
  have zero: "zero_results requests ! r ! i = 0" using r i by (simp add: zero_results_def)
  have bounds: "in_bounds (zero_results requests) q" if "q \<in> set qs" for q
    using that leg_of_query(3,4) by (fastforce simp: all_queries_iff in_bounds_def zero_results_def qs_def)
  have here: "q \<in> set ?leg" if q: "q \<in> set qs" "(q_request q, q_index q) = (r, i)" for q
    using q leg_of_query(3,4) by (fastforce simp: all_queries_iff qs_def)
  show ?thesis
  proof (cases ?leg)
    case Nil
    define q0 where "q0 = \<lparr>q_request = r, q_index = i, q_contract = [], q_storageKey = [], q_reserve = None, q_isAToken = False\<rparr>"
    have none: "(q_request q, q_index q) \<noteq> (r, i)" if "q \<in> set qs" for q using here [OF that] Nil by auto
    then have only: "q = q0" if "q \<in> set qs" "(q_request q, q_index q) = (r, i)" for q
      using that by blast
    have "(q_request q0, q_index q0) = (r, i)" by (simp add: q0_def)
    from puts_entry [where qs = qs and w = w, OF bounds only this]
    have "foldl (put_value w) (zero_results requests) qs ! r ! i = 0"
      using none [of q0] zero \<open>(q_request q0, q_index q0) = (r, i)\<close> by (cases "q0 \<in> set qs") simp_all
    then show ?thesis using leg leg_without_query [OF Nil] by simp
  next
    case (Cons q0 rest)
    then have q0: "q0 \<in> set ?leg" by simp
    note at = leg_of_query [OF q0]
    have mem: "q0 \<in> set qs" using q0 r i by (auto simp: all_queries_iff qs_def)
    have only: "q = q0" if "q \<in> set qs" "(q_request q, q_index q) = (r, i)" for q
      using here [OF that] at(2) by simp
    have "(q_request q0, q_index q0) = (r, i)" using at(3,4) by simp
    from puts_entry [where qs = qs and w = w, OF bounds only this]
    have "foldl (put_value w) (zero_results requests) qs ! r ! i = (case w q0 of None \<Rightarrow> 0 | Some v \<Rightarrow> v)"
      by (cases "w q0") (simp_all add: mem zero)
    moreover have "Some v = map_option (case_option 0 id) (Some (w q0))"
      using trans [OF leg [symmetric] at(1)] unfolding w [OF mem] .
    ultimately show ?thesis by (simp add: option.case_eq_if split: if_splits)
  qed
qed

lemma leg_query_defined:
  assumes "q \<in> set (all_queries keccak reg requests)"
    and "\<And>r a. r \<in> set requests \<Longrightarrow> a \<in> set (rq_assetIds r) \<Longrightarrow> leg_balance keccak reg t f (rq_poolAccountHex r) a \<noteq> None"
  shows "query_spec keccak t f q \<noteq> None"
proof -
  obtain r i where "r < length requests" "i < length (rq_assetIds (requests ! r))"
    and q: "q \<in> set (leg_query keccak reg (substrateToEvmAddress (rq_poolAccountHex (requests ! r))) r i (rq_assetIds (requests ! r) ! i))"
    using assms(1) by (auto simp: all_queries_iff)
  then have "leg_balance keccak reg t f (rq_poolAccountHex (requests ! r)) (rq_assetIds (requests ! r) ! i) \<noteq> None"
    using assms(2) by simp
  then show ?thesis using leg_of_query(1) [OF q] by auto
qed

lemma batch_loop:
  assumes apart: "\<forall>ref \<in> snd ` set (atokenReserves reg). CHR '':'' \<notin> set (ref_poolProxy ref)"
    and codec: "accountStorages_is block"
    and pointwise: "\<And>keys. accountStorages_getMany block keys = Inr (map f keys)"
    and w: "\<And>q. q \<in> set (all_queries keccak reg requests) \<Longrightarrow> query_spec keccak (blockTimestampSeconds block) f q = Some (w q)"
  shows "readErc20BalancesForHolders keccak reg block requests =
    Inr (foldl (put_value w) (zero_results requests) (all_queries keccak reg requests))"
proof -
  let ?qs = "all_queries keccak reg requests" and ?t = "blockTimestampSeconds block"
  let ?st = "storage_keys keccak ?qs"
  have "query_value ?t (fst ?st) (map f (snd ?st)) q (value_at (map f (snd ?st)) i) = Some (w q)"
    if "(i, q) \<in> set (List.enumerate 0 ?qs)" for i q
    using query_placed [OF apart that, of ?t f] w that by (auto simp: in_set_enumerate_eq)
  from query_loop_puts [of "List.enumerate 0 ?qs", OF this]
  have "query_loop ?t (fst ?st) (map f (snd ?st)) (List.enumerate 0 ?qs) (zero_results requests) =
      Some (foldl (put_value w) (zero_results requests) ?qs)"
    by simp
  then show ?thesis
    using codec pointwise by (cases "?qs = []") (simp_all add: read_unfold Let_def)
qed

lemma batch_balances:
  assumes apart: "\<forall>ref \<in> snd ` set (atokenReserves reg). CHR '':'' \<notin> set (ref_poolProxy ref)"
    and codec: "accountStorages_is block"
    and pointwise: "\<And>keys. accountStorages_getMany block keys = Inr (map f keys)"
    and legs: "\<And>r a. r \<in> set requests \<Longrightarrow> a \<in> set (rq_assetIds r) \<Longrightarrow>
      leg_balance keccak reg (blockTimestampSeconds block) f (rq_poolAccountHex r) a = Some (bal (rq_poolAccountHex r) a)"
  shows "readErc20BalancesForHolders keccak reg block requests =
    Inr (map (\<lambda>r. map (bal (rq_poolAccountHex r)) (rq_assetIds r)) requests)"
proof -
  let ?qs = "all_queries keccak reg requests" and ?t = "blockTimestampSeconds block"
  define w where "w q = the (query_spec keccak ?t f q)" for q
  have w: "query_spec keccak ?t f q = Some (w q)" if "q \<in> set ?qs" for q
    using leg_query_defined [OF that] legs by (fastforce simp: w_def)
  let ?final = "foldl (put_value w) (zero_results requests) ?qs"
  have shape: "map length ?final = map length (zero_results requests)" by simp
  have rows: "length (?final ! r) = length (rq_assetIds (requests ! r))" if "r < length requests" for r
    using shape_bounds(2) [OF shape] that by (simp add: zero_results_def)
  have "?final ! r = map (bal (rq_poolAccountHex (requests ! r))) (rq_assetIds (requests ! r))" if "r < length requests" for r
    using batch_entry [OF that _ w] legs that by (intro nth_equalityI) (auto simp: rows)
  then have "?final = map (\<lambda>r. map (bal (rq_poolAccountHex r)) (rq_assetIds r)) requests"
    using shape_bounds(1) [OF shape] by (intro nth_equalityI) (auto simp: zero_results_def)
  then show ?thesis using batch_loop [OF apart codec pointwise w] by simp
qed

lemma single_leg:
  assumes apart: "\<forall>ref \<in> snd ` set (atokenReserves reg). CHR '':'' \<notin> set (ref_poolProxy ref)"
    and codec: "accountStorages_is block"
    and pointwise: "\<And>keys. accountStorages_getMany block keys = Inr (map f keys)"
    and single: "readErc20Balances keccak reg block [a] account = Inr [v]"
  shows "leg_balance keccak reg (blockTimestampSeconds block) f account a = Some v"
proof (cases "leg_balance keccak reg (blockTimestampSeconds block) f account a")
  case (Some x)
  let ?req = "\<lparr>rq_assetIds = [a], rq_poolAccountHex = account\<rparr>"
  have "readErc20BalancesForHolders keccak reg block [?req] = Inr [[x]]"
    using batch_balances [OF apart codec pointwise, of "[?req]" keccak "\<lambda>_ _. x"] Some by simp
  then show ?thesis using single Some by (simp add: readErc20Balances_def)
next
  case None
  let ?req = "\<lparr>rq_assetIds = [a], rq_poolAccountHex = account\<rparr>" and ?t = "blockTimestampSeconds block"
  let ?qs = "all_queries keccak reg [?req]"
  obtain q where "leg_query keccak reg (substrateToEvmAddress account) 0 0 a = [q]"
    using None leg_query_cases [of keccak reg "substrateToEvmAddress account" 0 0 a] by (auto simp: leg_balance_def)
  then have qs: "?qs = [q]" and q: "query_spec keccak ?t f q = None"
    using None by (auto simp: all_queries_def request_queries_def leg_balance_def)
  have i: "(0, q) \<in> set (List.enumerate 0 ?qs)" by (simp add: qs)
  have "readErc20BalancesForHolders keccak reg block [?req] = Inl (erc20_read_failed block)"
    using query_placed [OF apart i, of ?t f] q codec pointwise by (simp add: read_unfold qs Let_def)
  then show ?thesis using single by (simp add: readErc20Balances_def)
qed

section \<open>Properties\<close>

text \<open>
  C29: Batching is transparent. When the storage query returns each key's own word, one batched read of several
  holders, with the reserve words of all their aTokens shared and appended once, returns for every leg exactly
  what reading that leg alone returns.
\<close>

theorem batched_reads_are_single_reads:
  assumes "accountStorages_is block" "\<And>keys. accountStorages_getMany block keys = Inr (map f keys)"
    and "\<forall>ref \<in> snd ` set (atokenReserves reg). CHR '':'' \<notin> set (ref_poolProxy ref)"
    and "\<And>r a. r \<in> set requests \<Longrightarrow> a \<in> set (rq_assetIds r) \<Longrightarrow>
      readErc20Balances keccak reg block [a] (rq_poolAccountHex r) = Inr [bal (rq_poolAccountHex r) a]"
  shows "readErc20BalancesForHolders keccak reg block requests =
    Inr (map (\<lambda>r. map (bal (rq_poolAccountHex r)) (rq_assetIds r)) requests)"
  using batch_balances [OF assms(3,1,2)] single_leg [OF assms(3,1,2) assms(4)] by blast

text \<open>A plain ERC-20, an aToken and an asset without a contract, with a digest that is its text's length.\<close>

text \<open>One word serves as the reserve's index (one ray), its time stamp (second 5) and its aToken address.\<close>

definition example_reserve_word :: string where
  "example_reserve_word = ''0x500000000033b2e3c9fd0803ce8000000''"

definition example_registry :: erc20_registry where
  "example_registry =
     updateErc20Registry [(222, ''0x22''), (1001, example_reserve_word)] [1001]
       [(example_reserve_word, \<lparr>ref_poolProxy = ''0xP1'', ref_assetAddress = ''0x05''\<rparr>)]"

definition example_word :: "string \<times> string \<Rightarrow> string option" where
  "example_word key =
     (if fst key = ''0x22'' then Some ''0x07''
      else if fst key = ''0xp1'' then Some example_reserve_word
      else Some ''0x64'')"

definition example_block :: evm_block where
  "example_block = \<lparr>eb_height = 9, eb_timestamp = Some 5000, accountStorages_is = True,
     accountStorages_getMany = (\<lambda>keys. Inr (map example_word keys))\<rparr>"

theorem batched_reads_are_single_reads_witness:
  "readErc20BalancesForHolders (\<lambda>text. int (length text)) example_registry example_block
     [\<lparr>rq_assetIds = [222, 1001], rq_poolAccountHex = ''0xa1''\<rparr>, \<lparr>rq_assetIds = [5], rq_poolAccountHex = ''0xb2''\<rparr>] =
   Inr [[7, 100], [0]]"
proof -
  let ?k = "\<lambda>text. int (length text)"
  let ?bal = "\<lambda>account a. if a = 222 then 7 else if a = 1001 then 100 else (0 :: int)"
  have "readErc20BalancesForHolders ?k example_registry example_block
      [\<lparr>rq_assetIds = [222, 1001], rq_poolAccountHex = ''0xa1''\<rparr>, \<lparr>rq_assetIds = [5], rq_poolAccountHex = ''0xb2''\<rparr>] =
    Inr (map (\<lambda>r. map (?bal (rq_poolAccountHex r)) (rq_assetIds r))
      [\<lparr>rq_assetIds = [222, 1001], rq_poolAccountHex = ''0xa1''\<rparr>, \<lparr>rq_assetIds = [5], rq_poolAccountHex = ''0xb2''\<rparr>])"
  proof (rule batched_reads_are_single_reads [where f = example_word])
    show "\<forall>ref \<in> snd ` set (atokenReserves example_registry). CHR '':'' \<notin> set (ref_poolProxy ref)"
      by code_simp
    have reg: "erc20Contracts example_registry = [(222, ''0x22''), (1001, example_reserve_word)]"
      "atokenIds example_registry = [1001]"
      "atokenReserves example_registry = [(example_reserve_word, \<lparr>ref_poolProxy = ''0xp1'', ref_assetAddress = ''0x05''\<rparr>)]"
      "to_lower example_reserve_word = example_reserve_word" "example_reserve_word \<noteq> ''0x22''"
      "example_reserve_word \<noteq> ''0xp1''" "example_reserve_word \<noteq> []"
      by code_simp+
    have words: "parse_hex ''500000000033b2e3c9fd0803ce8000000'' = Some (1701411834605692317316873037158841057280)"
      "parse_hex ''64'' = Some 100" "parse_hex ''07'' = Some 7"
      by (simp_all add: parse_hex_def digit_val_def)
    have hex: "raw_hex (Some example_reserve_word) = ''500000000033b2e3c9fd0803ce8000000''"
      "raw_hex (Some ''0x64'') = ''64''" "raw_hex (Some ''0x07'') = ''07''" 
      by (simp_all add: raw_hex_def example_reserve_word_def starts_with_def)
    have contract: "bigint_of_text example_reserve_word = Some (1701411834605692317316873037158841057280)"
      using words(1) by (simp add: bigint_of_text_def example_reserve_word_def starts_with_def)
    have rest: "normalizedIncomeFromReserveWords (1701411834605692317316873037158841057280) (1701411834605692317316873037158841057280) 5 = Some (1000000000000000000000000000)"
      "take_bit 160 (1701411834605692317316873037158841057280 :: int) = 1701411834605692317316873037158841057280"
      "atokenBalanceFromUserState 100 (1000000000000000000000000000) = 100" "scaledBalanceFromUserState 100 = 100"
      by (simp_all add: normalizedIncomeFromReserveWords_def atokenBalanceFromUserState_def scaledBalanceFromUserState_def
          bdiv_def RAY_def HALF_RAY_def Let_def)
    have "''07'' \<noteq> replicate 64 (CHR ''0'')" "''64'' \<noteq> replicate 64 (CHR ''0'')"
      "''500000000033b2e3c9fd0803ce8000000'' \<noteq> replicate 64 (CHR ''0'')"
      by (simp_all add: numeral_eq_Suc)
    note rest = rest this
    have "readErc20Balances ?k example_registry example_block [222] ''0xa1'' = Inr [7]"
      "readErc20Balances ?k example_registry example_block [1001] ''0xa1'' = Inr [100]"
      "readErc20Balances ?k example_registry example_block [5] ''0xb2'' = Inr [0]"
      by (simp_all add: readErc20Balances_def read_unfold all_queries_def request_queries_def leg_query_def Let_def
          reg example_block_def storage_keys_def reserve_step_def reserve_words_def reserve_key_def example_word_def
          query_value_def value_at_def raw_word_def hex words contract rest zero_results_def set_result_def
          blockTimestampSeconds_def)
    then show "readErc20Balances ?k example_registry example_block [a] (rq_poolAccountHex r) = Inr [?bal (rq_poolAccountHex r) a]"
      if "r \<in> set [\<lparr>rq_assetIds = [222, 1001], rq_poolAccountHex = ''0xa1''\<rparr>, \<lparr>rq_assetIds = [5], rq_poolAccountHex = ''0xb2''\<rparr>]"
        "a \<in> set (rq_assetIds r)" for r a
      using that by auto
  qed (simp_all add: example_block_def)
  then show ?thesis by simp
qed

text \<open>
  C31: Interest only adds, and rounding is half a unit. At a later time a reserve's normalized income is no
  smaller and never below its liquidity index, so a holder's balance never shrinks while the stored words stand;
  and the balance differs from the exact product of scaled balance and income by at most half a ray.
\<close>

theorem atoken_balance_accrues:
  assumes "0 \<le> liquidityWord" "t \<le> t'"
    and "normalizedIncomeFromReserveWords liquidityWord timestampWord t = Some i"
    and "normalizedIncomeFromReserveWords liquidityWord timestampWord t' = Some i'"
  shows "take_bit 128 liquidityWord \<le> i \<and> i \<le> i'
    \<and> 0 \<le> atokenBalanceFromUserState word i
    \<and> atokenBalanceFromUserState word i \<le> atokenBalanceFromUserState word i'
    \<and> \<bar>atokenBalanceFromUserState word i * RAY - scaledBalanceFromUserState word * i\<bar> \<le> HALF_RAY"
proof -
  note b = income_bounds [OF assms]
  have i: "0 \<le> i" "0 \<le> i'" using b by linarith+
  have ray: "0 < RAY" "0 \<le> HALF_RAY" by (simp_all add: RAY_def HALF_RAY_def)
  have s: "0 \<le> take_bit 128 word" by simp
  have "take_bit 128 word * i + HALF_RAY \<le> take_bit 128 word * i' + HALF_RAY"
    using b(3) s by (simp add: mult_left_mono)
  then have "atokenBalanceFromUserState word i \<le> atokenBalanceFromUserState word i'"
    using i ray(1) by (simp add: balance_div zdiv_mono1)
  moreover have "0 \<le> atokenBalanceFromUserState word i"
    using i s ray by (simp add: balance_div pos_imp_zdiv_nonneg_iff)
  moreover have "\<bar>atokenBalanceFromUserState word i * RAY - scaledBalanceFromUserState word * i\<bar> \<le> HALF_RAY"
    using half_up [of "take_bit 128 word * i"] i s by (simp add: balance_div scaledBalanceFromUserState_def)
  ultimately show ?thesis using b by blast
qed

theorem atoken_balance_accrues_witness:
  "take_bit 128 (10 ^ 27 + 2 ^ 128 * 10 ^ 26) \<le> (10 ^ 27 :: int) \<and> (10 ^ 27 :: int) \<le> 1100000000000000000000000000
    \<and> 0 \<le> atokenBalanceFromUserState 1000 (10 ^ 27)
    \<and> atokenBalanceFromUserState 1000 (10 ^ 27) \<le> atokenBalanceFromUserState 1000 1100000000000000000000000000
    \<and> \<bar>atokenBalanceFromUserState 1000 (10 ^ 27) * RAY - scaledBalanceFromUserState 1000 * 10 ^ 27\<bar> \<le> HALF_RAY"
proof (rule atoken_balance_accrues)
  show "normalizedIncomeFromReserveWords (10 ^ 27 + 2 ^ 128 * 10 ^ 26) 0 0 = Some (10 ^ 27)" by code_simp
  show "normalizedIncomeFromReserveWords (10 ^ 27 + 2 ^ 128 * 10 ^ 26) 0 31536000 = Some 1100000000000000000000000000"
    by code_simp
qed simp_all

end
