(* ===== verification/Pool_Snapshot.thy ===== *)
theory Pool_Snapshot
  imports Pool_Cache Evm_Balances
begin

text \<open>
  The state of the pools at a block as the price snapshots store it (\<^verbatim>\<open>src/raw/snapshot.ts\<close>): reads of each pool
  family, the fields of a reused family that move with time, and what an event says about which family to
  read again.

  The storage of a block is a record of the codec checks and batched reads the module makes, each of which may end
  in an error; a missing entry is \<^const>\<open>None\<close>. The amplification curve (package
  \<^verbatim>\<open>math-stableswap\<close>), the pool accounts and the Keccak digest (libraries), and the order
  \<open>localeCompare\<close> gives to accounts are fields of a record. Reads that the code issues side by side are in a row
  here, so of several errors the first is reported. Where the code keeps an array when nothing in it changed, the
  model has the equal value.
\<close>

section \<open>Inputs\<close>

record omnipool_asset_state =
  oas_hubReserve :: int
  oas_shares :: int
  oas_protocolShares :: int
  oas_cap :: int
  oas_tradable :: int

record pool_block =
  pb_height :: int
  pb_evm :: evm_block
  omnipoolAssets_is :: bool
  omnipoolAssets_getMany :: "int list \<Rightarrow> string + omnipool_asset_state option list"
  tokensAccounts_is :: bool
  tokensAccounts_getMany :: "(string \<times> int) list \<Rightarrow> string + int option list"
  totalIssuance_is :: bool
  totalIssuance_getMany :: "int list \<Rightarrow> string + int option list"
  account205_is :: bool
  account205_getMany :: "string list \<Rightarrow> string + int option list"
  account100_is :: bool
  account100_getMany :: "string list \<Rightarrow> string + int option list"
  stablePools_is :: bool
  stablePools_getMany :: "int list \<Rightarrow> string + pool_info option list"
  poolPegs378_is :: bool
  poolPegs378_get :: "int \<Rightarrow> string + (int \<times> int) list option"
  poolPegs323_is :: bool
  poolPegs323_get :: "int \<Rightarrow> string + (int \<times> int) list option"
  poolPegs305_is :: bool
  poolPegs305_get :: "int \<Rightarrow> string + (int \<times> int) list option"

record snapshot_env =
  env_keccak :: "string \<Rightarrow> int"
  env_registry :: erc20_registry
  omnipoolAccount :: string
  stableswapPoolAccount :: "int \<Rightarrow> string"
  calculate_amplification :: "string \<Rightarrow> string \<Rightarrow> string \<Rightarrow> string \<Rightarrow> string \<Rightarrow> string option"
  poolStoragePrefixes :: "string list"
  localeCompare :: "string \<Rightarrow> string \<Rightarrow> int"
  batchSize :: nat

section \<open>Rows\<close>

record snapshot_omnipool_asset =
  so_asset_id :: int
  so_hub_reserve :: string
  so_reserve :: string
  so_shares :: string
  so_protocol_shares :: string
  so_cap :: string
  so_tradable :: int

record snapshot_xyk_pool =
  sx_pool_account :: string
  sx_asset_a :: int
  sx_asset_b :: int
  sx_reserve_a :: string
  sx_reserve_b :: string

record snapshot_stableswap_pool =
  ss_pool_id :: int
  ss_pool_assets :: "int list"
  ss_reserves :: "string list"
  ss_amplification :: string
  ss_pool_fee :: int
  ss_total_issuance :: "string option"
  ss_peg_multipliers :: "(string \<times> string) list option"
  ss_initial_amplification :: int
  ss_final_amplification :: int
  ss_initial_block :: int
  ss_final_block :: int

record asset_metadata =
  am_assetId :: int
  am_symbol :: string
  am_name :: string
  am_decimals :: int
  am_assetType :: "string option"
  am_evmAddress :: "string option"
  am_parachainId :: "int option"
  am_originEcosystem :: "string option"
  am_originChainId :: "string option"
  am_originAssetId :: "string option"

record snapshot_state =
  st_assets :: "asset_metadata list"
  st_atoken_equivalences :: "(int \<times> int) list"
  st_lp_equivalences :: "(int \<times> int) list"
  st_omnipool_account :: string
  st_omnipool_assets :: "snapshot_omnipool_asset list"
  st_xyk_pools :: "snapshot_xyk_pool list"
  st_stableswap_pools :: "snapshot_stableswap_pool list"

section \<open>Chunked reads\<close>

text \<open>The configured number after \<open>Number.parseInt\<close>, \<^const>\<open>None\<close> when that is no number.\<close>

definition snapshotReadBatchSize :: "int option \<Rightarrow> int" where
  "snapshotReadBatchSize configured =
     (case configured of None \<Rightarrow> 100
      | Some n \<Rightarrow> if is_safe_integer n \<and> n > 0 then min n 500 else 100)"

definition snapshotReadBatchConcurrency :: "int option \<Rightarrow> int" where
  "snapshotReadBatchConcurrency configured =
     (case configured of None \<Rightarrow> 2
      | Some n \<Rightarrow> if is_safe_integer n \<and> n > 0 then min n 8 else 2)"

text \<open>The loop steps by the batch size, which is positive; the guard makes a step of none the whole rest.\<close>

function chunk_indexed_from :: "nat \<Rightarrow> nat \<Rightarrow> 'a list \<Rightarrow> ('a \<times> nat) list list" where
  "chunk_indexed_from width index items =
     (if index < length items
      then zip (take (max 1 width) (drop index items)) [index..<index + max 1 width] # chunk_indexed_from width (index + max 1 width) items
      else [])"
  by pat_completeness auto
termination
  by (relation "measure (\<lambda>(width, index, items). length items - index)") auto

declare chunk_indexed_from.simps [simp del]

definition chunkIndexed :: "'a list \<Rightarrow> nat \<Rightarrow> ('a \<times> nat) list list" where
  "chunkIndexed items width = chunk_indexed_from width 0 items"

text \<open>The values of a chunk at their places; a short answer leaves the rest undefined.\<close>

definition put_chunk :: "'v option list \<Rightarrow> ('k \<times> nat) list \<Rightarrow> 'v option list \<Rightarrow> 'v option list" where
  "put_chunk results chunk values =
     foldl (\<lambda>rs (j, (_, i)). rs[i := value_at values j]) results (List.enumerate 0 chunk)"

fun read_chunks ::
  "('k list \<Rightarrow> string + 'v option list) \<Rightarrow> ('k \<times> nat) list list \<Rightarrow> 'v option list \<Rightarrow> string + 'v option list" where
  "read_chunks read [] results = Inr results"
| "read_chunks read (chunk # chunks) results =
     and_then (read (map fst chunk)) (\<lambda>values. read_chunks read chunks (put_chunk results chunk values))"

definition getManyChunked ::
  "nat \<Rightarrow> 'k list \<Rightarrow> ('k list \<Rightarrow> string + 'v option list) \<Rightarrow> string + 'v option list" where
  "getManyChunked width keys read =
     (if keys = [] then Inr []
      else read_chunks read (chunkIndexed keys width) (replicate (length keys) None))"

section \<open>Omnipool\<close>

definition with_cause :: "string \<Rightarrow> string + 'a \<Rightarrow> string + 'a" where
  "with_cause message r = (case r of Inl _ \<Rightarrow> Inl message | Inr x \<Rightarrow> Inr x)"

definition at_block :: "string \<Rightarrow> pool_block \<Rightarrow> string" where
  "at_block message block = message @ '' at block '' @ int_to_string (pb_height block)"

definition positive :: "int option \<Rightarrow> bool" where
  "positive v = (case v of None \<Rightarrow> False | Some n \<Rightarrow> n > 0)"

definition omnipool_row ::
  "snapshot_env \<Rightarrow> int \<Rightarrow> omnipool_asset_state \<Rightarrow> int option \<Rightarrow> snapshot_omnipool_asset" where
  "omnipool_row env assetId assetState free =
     (let reserve = (if isKnownErc20 (env_registry env) assetId then oas_shares assetState
                     else if positive free then the free else oas_shares assetState)
      in \<lparr>so_asset_id = assetId, so_hub_reserve = int_to_string (oas_hubReserve assetState),
          so_reserve = int_to_string reserve, so_shares = int_to_string (oas_shares assetState),
          so_protocol_shares = int_to_string (oas_protocolShares assetState),
          so_cap = int_to_string (oas_cap assetState), so_tradable = oas_tradable assetState\<rparr>)"

text \<open>The rows of the assets that have a state, and the places of those whose balance is in a contract.\<close>

fun omnipool_rows ::
  "snapshot_env \<Rightarrow> (int \<times> omnipool_asset_state option \<times> int option) list
   \<Rightarrow> snapshot_omnipool_asset list \<times> (nat \<times> int) list \<Rightarrow> snapshot_omnipool_asset list \<times> (nat \<times> int) list" where
  "omnipool_rows env [] acc = acc"
| "omnipool_rows env ((assetId, None, free) # rest) acc = omnipool_rows env rest acc"
| "omnipool_rows env ((assetId, Some assetState, free) # rest) (assets, gaps) =
     omnipool_rows env rest
       (assets @ [omnipool_row env assetId assetState free],
        if isKnownErc20 (env_registry env) assetId then gaps @ [(length assets, assetId)] else gaps)"

definition hdx_free :: "snapshot_env \<Rightarrow> pool_block \<Rightarrow> string + int option" where
  "hdx_free env block =
     (if account205_is block then map_sum id (\<lambda>vs. value_at vs 0) (account205_getMany block [omnipoolAccount env])
      else if account100_is block then map_sum id (\<lambda>vs. value_at vs 0) (account100_getMany block [omnipoolAccount env])
      else Inl (at_block ''Unsupported System.Account storage'' block))"

definition hdx_reserve ::
  "snapshot_env \<Rightarrow> pool_block \<Rightarrow> snapshot_omnipool_asset list \<Rightarrow> string + snapshot_omnipool_asset list" where
  "hdx_reserve env block assets =
     (case List.find (\<lambda>a. so_asset_id a = 0) assets of
        None \<Rightarrow> Inr assets
      | Some _ \<Rightarrow>
          and_then (with_cause (at_block ''System.Account HDX reserve read failed'' block) (hdx_free env block)) (\<lambda>free.
            Inr (if positive free
                 then update_first (\<lambda>a. so_asset_id a = 0) (\<lambda>a. a\<lparr>so_reserve := int_to_string (the free)\<rparr>) assets
                 else assets)))"

fun fill_gaps :: "((nat \<times> int) \<times> int) list \<Rightarrow> snapshot_omnipool_asset list \<Rightarrow> snapshot_omnipool_asset list" where
  "fill_gaps [] assets = assets"
| "fill_gaps (((index, assetId), balance) # rest) assets =
     fill_gaps rest
       (if balance > 0 then assets[index := (assets ! index)\<lparr>so_reserve := int_to_string balance\<rparr>] else assets)"

definition readOmnipoolState ::
  "snapshot_env \<Rightarrow> pool_block \<Rightarrow> int list \<Rightarrow> string + snapshot_omnipool_asset list" where
  "readOmnipoolState env block assetIds =
     (if \<not> omnipoolAssets_is block then Inl (at_block ''Unsupported Omnipool.Assets storage'' block)
      else if \<not> tokensAccounts_is block then Inl (at_block ''Unsupported Tokens.Accounts storage'' block)
      else
        and_then (omnipoolAssets_getMany block assetIds) (\<lambda>assetStates.
        and_then (getManyChunked (batchSize env) (map (\<lambda>a. (omnipoolAccount env, a)) assetIds)
                    (tokensAccounts_getMany block)) (\<lambda>balances.
          (let (assets, gaps) =
                 omnipool_rows env
                   (map (\<lambda>(i, a). (a, value_at assetStates i, value_at balances i)) (List.enumerate 0 assetIds)) ([], [])
           in and_then (hdx_reserve env block assets) (\<lambda>assets.
              and_then
                (if gaps = [] then Inr []
                 else readErc20Balances (env_keccak env) (env_registry env) (pb_evm block) (map snd gaps) (omnipoolAccount env))
                (\<lambda>evmBalances.
                  Inr (sort_cmp (cmp_by so_asset_id) (fill_gaps (zip gaps evmBalances) assets))))))))"

section \<open>Native balances\<close>

definition NATIVE_ASSET_ID :: int where "NATIVE_ASSET_ID = 0"

definition or_zero :: "int option \<Rightarrow> int" where
  "or_zero v = (case v of None \<Rightarrow> 0 | Some n \<Rightarrow> n)"

definition readNativeFreeBalances :: "snapshot_env \<Rightarrow> pool_block \<Rightarrow> string list \<Rightarrow> string + int list" where
  "readNativeFreeBalances env block accounts =
     (if accounts = [] then Inr []
      else if account205_is block
        then map_sum id (map or_zero) (getManyChunked (batchSize env) accounts (account205_getMany block))
      else if account100_is block
        then map_sum id (map or_zero) (getManyChunked (batchSize env) accounts (account100_getMany block))
      else Inl (at_block ''Unsupported System.Account storage'' block))"

section \<open>XYK pools\<close>

text \<open>The two sides of the pools in order: the pool's index, the side, its account and asset.\<close>

definition xyk_sides :: "xyk_pool_entry list \<Rightarrow> ((nat \<times> bool) \<times> string \<times> int) list" where
  "xyk_sides pools =
     concat (map (\<lambda>(index, pool).
         [((index, False), poolAccount pool, xyk_assetA pool), ((index, True), poolAccount pool, xyk_assetB pool)])
       (List.enumerate 0 pools))"

text \<open>\<open>reserves[index][side] = v\<close>, side B being \<^const>\<open>True\<close>.\<close>

definition set_side :: "(int \<times> int) list \<Rightarrow> nat \<times> bool \<Rightarrow> int \<Rightarrow> (int \<times> int) list" where
  "set_side reserves slot v =
     (let (index, side) = slot; (a, b) = reserves ! index
      in reserves[index := (if side then (a, v) else (v, b))])"

definition set_sides :: "(int \<times> int) list \<Rightarrow> ((nat \<times> bool) \<times> int) list \<Rightarrow> (int \<times> int) list" where
  "set_sides reserves slots = foldl (\<lambda>rs (slot, v). set_side rs slot v) reserves slots"

text \<open>A zero side of an ERC-20 asset is read from its contract; a zero from there never overwrites.\<close>

definition xyk_pool_gap :: "snapshot_env \<Rightarrow> xyk_pool_entry \<Rightarrow> int \<times> int \<Rightarrow> bool" where
  "xyk_pool_gap env pool reserves \<longleftrightarrow>
     fst reserves = 0 \<and> isKnownErc20 (env_registry env) (xyk_assetA pool)
     \<or> snd reserves = 0 \<and> isKnownErc20 (env_registry env) (xyk_assetB pool)"

definition fill_side :: "int \<Rightarrow> int \<Rightarrow> int" where
  "fill_side reserve evm = (if reserve = 0 \<and> evm > 0 then evm else reserve)"

fun fill_xyk ::
  "snapshot_env \<Rightarrow> pool_block \<Rightarrow> (nat \<times> xyk_pool_entry) list \<Rightarrow> (int \<times> int) list \<Rightarrow> string + (int \<times> int) list" where
  "fill_xyk env block [] reserves = Inr reserves"
| "fill_xyk env block ((index, pool) # rest) reserves =
     and_then (readErc20Balances (env_keccak env) (env_registry env) (pb_evm block)
                [xyk_assetA pool, xyk_assetB pool] (poolAccount pool)) (\<lambda>evm.
       fill_xyk env block rest
         (reserves[index := (fill_side (fst (reserves ! index)) (evm ! 0), fill_side (snd (reserves ! index)) (evm ! 1))]))"

definition xyk_row :: "xyk_pool_entry \<Rightarrow> int \<times> int \<Rightarrow> snapshot_xyk_pool" where
  "xyk_row pool reserves =
     \<lparr>sx_pool_account = poolAccount pool, sx_asset_a = xyk_assetA pool, sx_asset_b = xyk_assetB pool,
      sx_reserve_a = int_to_string (fst reserves), sx_reserve_b = int_to_string (snd reserves)\<rparr>"

definition readXYKState ::
  "snapshot_env \<Rightarrow> pool_block \<Rightarrow> xyk_pool_entry list \<Rightarrow> string + snapshot_xyk_pool list" where
  "readXYKState env block pools =
     (if \<not> tokensAccounts_is block then Inl (at_block ''Unsupported Tokens.Accounts storage for XYK pools'' block)
      else
        (let sides = xyk_sides pools;
             native = filter (\<lambda>(slot, account, assetId). assetId = NATIVE_ASSET_ID) sides;
             tokens = filter (\<lambda>(slot, account, assetId). assetId \<noteq> NATIVE_ASSET_ID) sides
         in and_then (getManyChunked (batchSize env) (map snd tokens) (tokensAccounts_getMany block)) (\<lambda>tokenBalances.
            and_then (with_cause (at_block ''System.Account HDX reserve read failed for XYK pools'' block)
                       (readNativeFreeBalances env block (map (fst \<circ> snd) native))) (\<lambda>nativeBalances.
              (let reserves = set_sides (map (\<lambda>_. (0, 0)) pools) (zip (map fst tokens) (map or_zero tokenBalances));
                   reserves = set_sides reserves (zip (map fst native) nativeBalances);
                   erc20Pools = filter (\<lambda>(index, pool). xyk_pool_gap env pool (reserves ! index)) (List.enumerate 0 pools)
               in and_then (fill_xyk env block erc20Pools reserves) (\<lambda>reserves.
                    Inr (map (\<lambda>(index, pool). xyk_row pool (reserves ! index)) (List.enumerate 0 pools))))))))"

section \<open>Stableswap pools\<close>

definition stableswapAmplificationAt :: "snapshot_env \<Rightarrow> int \<Rightarrow> int \<Rightarrow> int \<Rightarrow> int \<Rightarrow> int \<Rightarrow> int" where
  "stableswapAmplificationAt env initial final startBlock endBlock height =
     (case Option.bind (calculate_amplification env (int_to_string initial) (int_to_string final)
             (int_to_string startBlock) (int_to_string endBlock) (int_to_string height)) parse_bigint of
        Some amplification \<Rightarrow> amplification
      | None \<Rightarrow>
          if height \<ge> endBlock then final
          else if height \<le> startBlock then initial
          else initial + bdiv ((final - initial) * (height - startBlock)) (endBlock - startBlock))"

definition withStoredStableswapParams ::
  "snapshot_env \<Rightarrow> pool_block \<Rightarrow> stableswap_pool_entry list \<Rightarrow> string + stableswap_pool_entry list" where
  "withStoredStableswapParams env block pools =
     (if pools = [] \<or> \<not> stablePools_is block then Inr pools
      else
        map_sum id (\<lambda>infos. map (\<lambda>(index, pool).
            case value_at infos index of None \<Rightarrow> pool
            | Some info \<Rightarrow>
                pool\<lparr>initialAmplification := info_initialAmplification info, finalAmplification := info_finalAmplification info,
                     initialBlock := info_initialBlock info, finalBlock := info_finalBlock info, sp_fee := info_fee info\<rparr>)
            (List.enumerate 0 pools))
          (getManyChunked (batchSize env) (map sp_poolId pools) (stablePools_getMany block)))"

text \<open>The peg storage of the block's runtime, and whether any codec fits.\<close>

definition peg_read :: "pool_block \<Rightarrow> int \<Rightarrow> bool \<times> (string + (int \<times> int) list option)" where
  "peg_read block poolId =
     (if poolPegs378_is block then (True, poolPegs378_get block poolId)
      else if poolPegs323_is block then (True, poolPegs323_get block poolId)
      else if poolPegs305_is block then (True, poolPegs305_get block poolId)
      else (False, Inr None))"

definition peg_multipliers_of :: "(int \<times> int) list option \<Rightarrow> (string \<times> string) list option" where
  "peg_multipliers_of peg =
     (case peg of None \<Rightarrow> None
      | Some ps \<Rightarrow> if ps = [] then None
                   else Some (map (\<lambda>(numerator, denominator). (int_to_string numerator, int_to_string denominator)) ps))"

text \<open>A pool's pegs; the flag is the module's memory of having seen the storage.\<close>

definition read_pegs ::
  "pool_block \<Rightarrow> int \<Rightarrow> bool \<Rightarrow> (string + (string \<times> string) list option) \<times> bool" where
  "read_pegs block poolId pegStorageSeen =
     (let message = at_block ''Stableswap peg read failed'' block @ '' for pool '' @ int_to_string poolId;
          (supported, peg) = peg_read block poolId
      in case peg of
           Inl _ \<Rightarrow> (Inl message, pegStorageSeen)
         | Inr p \<Rightarrow>
             if \<not> supported \<and> pegStorageSeen then (Inl message, pegStorageSeen)
             else (Inr (peg_multipliers_of p), pegStorageSeen \<or> supported))"

definition stableswap_reserves ::
  "snapshot_env \<Rightarrow> pool_block \<Rightarrow> stableswap_pool_entry \<Rightarrow> int list \<Rightarrow> string + int list" where
  "stableswap_reserves env block pool reserves =
     (if list_ex (\<lambda>(index, assetId). reserves ! index = 0 \<and> isKnownErc20 (env_registry env) assetId)
          (List.enumerate 0 (sp_assets pool))
      then map_sum id (\<lambda>evm. map (\<lambda>(reserve, balance). fill_side reserve balance) (zip reserves evm))
             (readErc20Balances (env_keccak env) (env_registry env) (pb_evm block) (sp_assets pool)
               (stableswapPoolAccount env (sp_poolId pool)))
      else Inr reserves)"

definition positive_or_zero :: "int option \<Rightarrow> int" where
  "positive_or_zero v = (if positive v then the v else 0)"

definition stableswap_row ::
  "snapshot_env \<Rightarrow> int \<Rightarrow> stableswap_pool_entry \<Rightarrow> int list \<Rightarrow> int option \<Rightarrow> (string \<times> string) list option
   \<Rightarrow> snapshot_stableswap_pool" where
  "stableswap_row env height pool reserves issuance pegs =
     \<lparr>ss_pool_id = sp_poolId pool, ss_pool_assets = sp_assets pool, ss_reserves = map int_to_string reserves,
      ss_amplification = int_to_string (stableswapAmplificationAt env (initialAmplification pool)
        (finalAmplification pool) (initialBlock pool) (finalBlock pool) height),
      ss_pool_fee = sp_fee pool, ss_total_issuance = map_option int_to_string issuance, ss_peg_multipliers = pegs,
      ss_initial_amplification = initialAmplification pool, ss_final_amplification = finalAmplification pool,
      ss_initial_block = initialBlock pool, ss_final_block = finalBlock pool\<rparr>"

text \<open>The pools in turn: balances start at the pool's offset among the keys.\<close>

fun stableswap_rows ::
  "snapshot_env \<Rightarrow> pool_block \<Rightarrow> int option list \<Rightarrow> (int \<Rightarrow> int option) \<Rightarrow> (nat \<times> stableswap_pool_entry) list
   \<Rightarrow> bool \<Rightarrow> (string + snapshot_stableswap_pool list) \<times> bool" where
  "stableswap_rows env block balances totalIssuances [] pegStorageSeen = (Inr [], pegStorageSeen)"
| "stableswap_rows env block balances totalIssuances ((start, pool) # pools) pegStorageSeen =
     (case stableswap_reserves env block pool
        (map (\<lambda>(reserveIndex, _). positive_or_zero (value_at balances (start + reserveIndex)))
          (List.enumerate 0 (sp_assets pool))) of
        Inl e \<Rightarrow> (Inl e, pegStorageSeen)
      | Inr reserves \<Rightarrow>
          (case read_pegs block (sp_poolId pool) pegStorageSeen of
             (Inl e, seen) \<Rightarrow> (Inl e, seen)
           | (Inr pegs, seen) \<Rightarrow>
               (case stableswap_rows env block balances totalIssuances pools seen of
                  (Inl e, seen') \<Rightarrow> (Inl e, seen')
                | (Inr rows, seen') \<Rightarrow>
                    (Inr (stableswap_row env (pb_height block) pool reserves (totalIssuances (sp_poolId pool)) pegs # rows),
                     seen'))))"

fun pool_offsets :: "nat \<Rightarrow> stableswap_pool_entry list \<Rightarrow> (nat \<times> stableswap_pool_entry) list" where
  "pool_offsets start [] = []"
| "pool_offsets start (pool # pools) = (start, pool) # pool_offsets (start + length (sp_assets pool)) pools"

definition stableswap_keys :: "snapshot_env \<Rightarrow> stableswap_pool_entry list \<Rightarrow> (string \<times> int) list" where
  "stableswap_keys env pools =
     concat (map (\<lambda>pool. map (\<lambda>assetId. (stableswapPoolAccount env (sp_poolId pool), assetId)) (sp_assets pool)) pools)"

text \<open>\<open>totalIssuances.set\<close> for the pools that have one, the last of an id counting.\<close>

definition issuance_map :: "int list \<Rightarrow> int option list \<Rightarrow> (int, int) jsmap" where
  "issuance_map ids issuances =
     foldl (\<lambda>m (i, poolId). case value_at issuances i of None \<Rightarrow> m | Some v \<Rightarrow> map_set poolId v m) [] (List.enumerate 0 ids)"

definition readStableswapState ::
  "snapshot_env \<Rightarrow> pool_block \<Rightarrow> stableswap_pool_entry list \<Rightarrow> bool
   \<Rightarrow> (string + snapshot_stableswap_pool list) \<times> bool" where
  "readStableswapState env block cachedPools pegStorageSeen =
     (if \<not> tokensAccounts_is block
      then (Inl (at_block ''Unsupported Tokens.Accounts storage for Stableswap pools'' block), pegStorageSeen)
      else
        case and_then (withStoredStableswapParams env block cachedPools) (\<lambda>pools.
             and_then (getManyChunked (batchSize env) (stableswap_keys env pools) (tokensAccounts_getMany block)) (\<lambda>balances.
             and_then (if totalIssuance_is block
                       then getManyChunked (batchSize env) (map sp_poolId pools) (totalIssuance_getMany block)
                       else Inl (at_block ''Unsupported Tokens.TotalIssuance storage'' block)) (\<lambda>issuances.
               Inr (pools, balances, issuances)))) of
          Inl e \<Rightarrow> (Inl e, pegStorageSeen)
        | Inr (pools, balances, issuances) \<Rightarrow>
            (case stableswap_rows env block balances (map_of (issuance_map (map sp_poolId pools) issuances))
               (pool_offsets 0 pools) pegStorageSeen of
               (Inl e, seen) \<Rightarrow> (Inl e, seen)
             | (Inr rows, seen) \<Rightarrow> (Inr (sort_cmp (cmp_by ss_pool_id) rows), seen)))"

section \<open>Fields of a reused family that move with time\<close>

record reused_families =
  reused_omnipool :: bool
  reused_xyk :: bool
  reused_stableswap :: bool

definition accrual_omnipool_legs ::
  "snapshot_env \<Rightarrow> snapshot_state \<Rightarrow> reused_families \<Rightarrow> (nat \<times> snapshot_omnipool_asset) list" where
  "accrual_omnipool_legs env state reused =
     (if reused_omnipool reused
      then filter (\<lambda>(index, asset). isKnownErc20 (env_registry env) (so_asset_id asset))
             (List.enumerate 0 (st_omnipool_assets state))
      else [])"

definition accrual_xyk_pools ::
  "snapshot_env \<Rightarrow> snapshot_state \<Rightarrow> reused_families \<Rightarrow> (nat \<times> snapshot_xyk_pool) list" where
  "accrual_xyk_pools env state reused =
     (if reused_xyk reused
      then filter (\<lambda>(index, pool). isKnownErc20 (env_registry env) (sx_asset_a pool)
                                    \<or> isKnownErc20 (env_registry env) (sx_asset_b pool))
             (List.enumerate 0 (st_xyk_pools state))
      else [])"

definition accrual_stableswap_pools ::
  "snapshot_env \<Rightarrow> snapshot_state \<Rightarrow> reused_families \<Rightarrow> (nat \<times> snapshot_stableswap_pool) list" where
  "accrual_stableswap_pools env state reused =
     (if reused_stableswap reused
      then filter (\<lambda>(index, pool). list_ex (isKnownErc20 (env_registry env)) (ss_pool_assets pool))
             (List.enumerate 0 (st_stableswap_pools state))
      else [])"

text \<open>All legs in one list of requests: the Omnipool's, then a request of each XYK pool and of each stableswap pool.\<close>

definition accrual_requests ::
  "snapshot_env \<Rightarrow> snapshot_state \<Rightarrow> reused_families \<Rightarrow> holder_request list" where
  "accrual_requests env state reused =
     (let legs = accrual_omnipool_legs env state reused
      in (if legs = [] then []
          else [\<lparr>rq_assetIds = map (so_asset_id \<circ> snd) legs, rq_poolAccountHex = st_omnipool_account state\<rparr>]))
     @ map (\<lambda>(index, pool). \<lparr>rq_assetIds = [sx_asset_a pool, sx_asset_b pool], rq_poolAccountHex = sx_pool_account pool\<rparr>)
         (accrual_xyk_pools env state reused)
     @ map (\<lambda>(index, pool). \<lparr>rq_assetIds = ss_pool_assets pool,
                              rq_poolAccountHex = stableswapPoolAccount env (ss_pool_id pool)\<rparr>)
         (accrual_stableswap_pools env state reused)"

text \<open>The request of a pool by its index in the family's list.\<close>

definition request_index :: "nat \<Rightarrow> (nat \<times> 'a) list \<Rightarrow> nat \<Rightarrow> nat option" where
  "request_index first pools = map_of (zip (map fst pools) [first..<first + length pools])"

definition leg_read :: "int list list \<Rightarrow> nat \<Rightarrow> nat \<Rightarrow> string option" where
  "leg_read balances request index =
     (let value = balances ! request ! index in if value > 0 then Some (int_to_string value) else None)"

definition or_else :: "'a option \<Rightarrow> 'a \<Rightarrow> 'a" where
  "or_else v d = (case v of None \<Rightarrow> d | Some x \<Rightarrow> x)"

definition accrued_omnipool ::
  "int list list \<Rightarrow> (nat \<times> snapshot_omnipool_asset) list \<Rightarrow> snapshot_omnipool_asset list \<Rightarrow> snapshot_omnipool_asset list" where
  "accrued_omnipool balances legs assets =
     foldl (\<lambda>next (i, (index, asset)).
         case leg_read balances 0 i of
           None \<Rightarrow> next
         | Some reserve \<Rightarrow> if reserve \<noteq> so_reserve asset then next[index := asset\<lparr>so_reserve := reserve\<rparr>] else next)
       assets (List.enumerate 0 legs)"

definition accrued_xyk_pool ::
  "snapshot_env \<Rightarrow> int list list \<Rightarrow> nat option \<Rightarrow> snapshot_xyk_pool \<Rightarrow> snapshot_xyk_pool" where
  "accrued_xyk_pool env balances request pool =
     (case request of None \<Rightarrow> pool
      | Some request \<Rightarrow>
          pool\<lparr>sx_reserve_a := (if isKnownErc20 (env_registry env) (sx_asset_a pool)
                                  then or_else (leg_read balances request 0) (sx_reserve_a pool) else sx_reserve_a pool),
               sx_reserve_b := (if isKnownErc20 (env_registry env) (sx_asset_b pool)
                                  then or_else (leg_read balances request 1) (sx_reserve_b pool) else sx_reserve_b pool)\<rparr>)"

definition accrued_stableswap_pool ::
  "snapshot_env \<Rightarrow> int \<Rightarrow> int list list \<Rightarrow> nat option \<Rightarrow> snapshot_stableswap_pool \<Rightarrow> snapshot_stableswap_pool" where
  "accrued_stableswap_pool env height balances request pool =
     pool\<lparr>ss_reserves :=
            (case request of None \<Rightarrow> ss_reserves pool
             | Some request \<Rightarrow>
                 map (\<lambda>(i, reserve). if isKnownErc20 (env_registry env) (ss_pool_assets pool ! i)
                                      then or_else (leg_read balances request i) reserve else reserve)
                   (List.enumerate 0 (ss_reserves pool))),
          ss_amplification :=
            int_to_string (stableswapAmplificationAt env (ss_initial_amplification pool) (ss_final_amplification pool)
              (ss_initial_block pool) (ss_final_block pool) height)\<rparr>"

definition refreshAccruingPoolFields ::
  "snapshot_env \<Rightarrow> pool_block \<Rightarrow> snapshot_state \<Rightarrow> reused_families
   \<Rightarrow> string + snapshot_omnipool_asset list \<times> snapshot_xyk_pool list \<times> snapshot_stableswap_pool list" where
  "refreshAccruingPoolFields env block state reused =
     (let requests = accrual_requests env state reused;
          legs = accrual_omnipool_legs env state reused;
          xyk = accrual_xyk_pools env state reused;
          stableswap = accrual_stableswap_pools env state reused;
          firstXyk = (if legs = [] then 0 else 1);
          firstStableswap = firstXyk + length xyk
      in and_then (if requests = [] then Inr []
                   else readErc20BalancesForHolders (env_keccak env) (env_registry env) (pb_evm block) requests) (\<lambda>balances.
           Inr (accrued_omnipool balances legs (st_omnipool_assets state),
                map (\<lambda>(index, pool). accrued_xyk_pool env balances (request_index firstXyk xyk index) pool)
                  (List.enumerate 0 (st_xyk_pools state)),
                if reused_stableswap reused
                then map (\<lambda>(index, pool).
                         accrued_stableswap_pool env (pb_height block) balances
                           (request_index firstStableswap stableswap index) pool)
                       (List.enumerate 0 (st_stableswap_pools state))
                else st_stableswap_pools state)))"

section \<open>Events and calls\<close>

fun visit_accounts :: "nat \<Rightarrow> json \<Rightarrow> string list" where
  "visit_accounts depth (JStr s) = (if length s = 66 \<and> starts_with ''0x'' s then [s] else [])"
| "visit_accounts depth (JArr xs) = (if depth > 6 then [] else concat (map (visit_accounts (Suc depth)) xs))"
| "visit_accounts depth (JObj ps) = (if depth > 6 then [] else concat (map (\<lambda>(k, v). visit_accounts (Suc depth) v) ps))"
| "visit_accounts depth JUndefined = []"
| "visit_accounts depth JNull = []"
| "visit_accounts depth (JBool b) = []"
| "visit_accounts depth (JNum n) = []"
| "visit_accounts depth (JBig n) = []"

definition eventAccounts :: "string \<times> json \<Rightarrow> string list" where
  "eventAccounts event = js_unique (visit_accounts 0 (snd event))"

definition eventCurrencyId :: "string \<times> json \<Rightarrow> int option" where
  "eventCurrencyId event =
     (if \<not> (starts_with ''Tokens.'' (fst event) \<or> starts_with ''Currencies.'' (fst event)) then None
      else case get_prop (snd event) ''currencyId'' of
             JNum n \<Rightarrow> if is_safe_integer n then Some n else None
           | _ \<Rightarrow> None)"

datatype pool_family = OmnipoolFamily | XykFamily | StableswapFamily

definition POOL_PALLET_FAMILIES :: "(string, pool_family) jsmap" where
  "POOL_PALLET_FAMILIES = [(''Omnipool'', OmnipoolFamily), (''XYK'', XykFamily), (''Stableswap'', StableswapFamily)]"

definition poolPalletEventFamily :: "string \<times> json \<Rightarrow> pool_family option" where
  "poolPalletEventFamily event =
     (let pallet = takeWhile (\<lambda>c. c \<noteq> CHR ''.'') (fst event)
      in if pallet = [] \<or> pallet = fst event then None else map_of POOL_PALLET_FAMILIES pallet)"

text \<open>The storage key prefixes written by \<open>System.set_storage\<close>; \<^const>\<open>None\<close> for items that are no pairs of text.\<close>

fun scan_items :: "string list \<Rightarrow> json list \<Rightarrow> bool option" where
  "scan_items prefixes [] = Some False"
| "scan_items prefixes (JArr (JStr key # _) # items) =
     (let prefix = (if starts_with ''0x'' key then take 32 (drop 2 key) else take 32 key)
      in if prefix \<in> set prefixes then Some True else scan_items prefixes items)"
| "scan_items prefixes (_ # items) = None"

fun detectPoolAffectingSetStorage :: "string list \<Rightarrow> (string \<times> json) list \<Rightarrow> bool option" where
  "detectPoolAffectingSetStorage prefixes [] = Some False"
| "detectPoolAffectingSetStorage prefixes ((name, args) # calls) =
     (if name \<noteq> ''System.set_storage'' \<or> is_nullish (get_prop args ''items'')
      then detectPoolAffectingSetStorage prefixes calls
      else case get_prop args ''items'' of
             JArr items \<Rightarrow>
               (case scan_items prefixes items of
                  None \<Rightarrow> None
                | Some True \<Rightarrow> Some True
                | Some False \<Rightarrow> detectPoolAffectingSetStorage prefixes calls)
           | _ \<Rightarrow> None)"

section \<open>State and payload\<close>

definition cmp_pair :: "int \<times> int \<Rightarrow> int \<times> int \<Rightarrow> int" where
  "cmp_pair = cmp_or (cmp_by fst) (cmp_by snd)"

definition buildSnapshotState ::
  "snapshot_env \<Rightarrow> asset_metadata list \<Rightarrow> (int \<times> int) list \<Rightarrow> (int \<times> int) list
   \<Rightarrow> snapshot_omnipool_asset list \<Rightarrow> snapshot_xyk_pool list \<Rightarrow> snapshot_stableswap_pool list \<Rightarrow> snapshot_state" where
  "buildSnapshotState env assets atokenEquivalences lpEquivalences omnipoolRows xykRows stableswapRows =
     \<lparr>st_assets = sort_cmp (cmp_by am_assetId) assets,
      st_atoken_equivalences = sort_cmp cmp_pair atokenEquivalences,
      st_lp_equivalences = sort_cmp cmp_pair lpEquivalences,
      st_omnipool_account = omnipoolAccount env,
      st_omnipool_assets = sort_cmp (cmp_by so_asset_id) omnipoolRows,
      st_xyk_pools = sort_cmp (\<lambda>a b. localeCompare env (sx_pool_account a) (sx_pool_account b)) xykRows,
      st_stableswap_pools = sort_cmp (cmp_by ss_pool_id) stableswapRows\<rparr>"

record snapshot_payload =
  pl_schema_version :: int
  pl_height :: int
  pl_hash :: string
  pl_timestamp :: string
  pl_spec_version :: int
  pl_assets :: "asset_metadata list"
  pl_atoken_equivalences :: "(int \<times> int) list"
  pl_lp_equivalences :: "(int \<times> int) list"
  pl_omnipool_account :: string
  pl_omnipool_assets :: "snapshot_omnipool_asset list"
  pl_xyk_pools :: "snapshot_xyk_pool list"
  pl_stableswap_pools :: "snapshot_stableswap_pool list"

definition buildSnapshotPayload ::
  "int \<Rightarrow> string \<Rightarrow> string \<Rightarrow> int \<Rightarrow> snapshot_state \<Rightarrow> snapshot_payload" where
  "buildSnapshotPayload height hash timestamp specVersion state =
     \<lparr>pl_schema_version = 1, pl_height = height, pl_hash = hash, pl_timestamp = timestamp,
      pl_spec_version = specVersion, pl_assets = st_assets state,
      pl_atoken_equivalences = st_atoken_equivalences state, pl_lp_equivalences = st_lp_equivalences state,
      pl_omnipool_account = st_omnipool_account state, pl_omnipool_assets = st_omnipool_assets state,
      pl_xyk_pools = st_xyk_pools state, pl_stableswap_pools = st_stableswap_pools state\<rparr>"

section \<open>Chunking is transparent\<close>

lemma put_chunk_run:
  assumes "length ks \<le> length rest" "\<And>k. k < length ks \<Longrightarrow> value_at values (j + k) = f (ks ! k)"
  shows "foldl (\<lambda>rs (j, (_, i)). rs[i := value_at values j]) (pre @ rest)
      (List.enumerate j (zip ks [length pre..<length pre + m])) = pre @ map f (take m ks) @ drop (min m (length ks)) rest"
  using assms
proof (induction ks arbitrary: pre rest j m)
  case (Cons k ks)
  show ?case
  proof (cases m)
    case (Suc m')
    obtain r rest' where rest: "rest = r # rest'" using Cons.prems(1) by (cases rest) auto
    have upt: "[length pre..<length pre + m] = length pre # [Suc (length pre)..<Suc (length pre) + m']"
      by (simp add: Suc upt_conv_Cons)
    have "value_at values j = f k" using Cons.prems(2) [of 0] by simp
    then have "foldl (\<lambda>rs (j, (_, i)). rs[i := value_at values j]) (pre @ rest)
        (List.enumerate j (zip (k # ks) [length pre..<length pre + m]))
      = foldl (\<lambda>rs (j, (_, i)). rs[i := value_at values j]) ((pre @ [f k]) @ rest')
        (List.enumerate (Suc j) (zip ks [length (pre @ [f k])..<length (pre @ [f k]) + m']))"
      by (simp add: upt rest)
    also have "\<dots> = (pre @ [f k]) @ map f (take m' ks) @ drop (min m' (length ks)) rest'"
      using Cons.prems rest by (intro Cons.IH) (auto simp: add_Suc_right [symmetric] simp del: add_Suc_right)
    finally show ?thesis by (simp add: Suc rest)
  qed simp
qed simp

lemma read_chunks_pointwise:
  assumes "read = (\<lambda>ks. Inr (map f ks))" "results = map f (take i keys) @ replicate (length keys - i) None"
  shows "read_chunks read (chunk_indexed_from width i keys) results = Inr (map f keys)"
  using assms(2)
proof (induction width i keys arbitrary: results rule: chunk_indexed_from.induct)
  case (1 width i keys)
  show ?case
  proof (cases "i < length keys")
    case True
    let ?w = "max 1 width" and ?ks = "take (max 1 width) (drop i keys)"
    let ?chunk = "zip ?ks [i..<i + ?w]"
    have keys: "map fst ?chunk = ?ks" by (simp add: map_fst_zip_take min_def)
    have len: "length (map f (take i keys)) = i" using True by simp
    have "put_chunk results ?chunk (map f (map fst ?chunk)) =
        map f (take i keys) @ map f (take ?w ?ks) @ drop (min ?w (length ?ks)) (replicate (length keys - i) None)"
      unfolding put_chunk_def 1(2) keys
      using put_chunk_run [of ?ks "replicate (length keys - i) None" "map f ?ks" 0 f "map f (take i keys)" ?w]
      by (simp only: len) (simp add: value_at_def)
    also have "\<dots> = map f (take (i + ?w) keys) @ replicate (length keys - (i + ?w)) None"
      using True by (auto simp: take_add min_def)
    finally have put: "put_chunk results ?chunk (map f (map fst ?chunk)) =
      map f (take (i + ?w) keys) @ replicate (length keys - (i + ?w)) None" .
    show ?thesis
      using 1(1) [OF True put] by (subst chunk_indexed_from.simps) (simp add: True and_then_def assms(1))
  next
    case False
    then show ?thesis using 1(2) by (subst chunk_indexed_from.simps) simp
  qed
qed

lemma getManyChunked_pointwise:
  "(\<And>ks. read ks = Inr (map f ks)) \<Longrightarrow> getManyChunked width keys read = Inr (map f keys)"
  using read_chunks_pointwise [of read f "replicate (length keys) None" 0 keys width]
  by (auto simp: getManyChunked_def chunkIndexed_def fun_eq_iff)

end
