(* ===== verification/Pool_Answers.thy ===== *)
theory Pool_Answers
  imports Pool_Snapshot
begin

text \<open>
  What the reads of \<^verbatim>\<open>src/raw/snapshot.ts\<close> return when the storage of a block answers every key on its own:
  each row as a function of the asset or pool, without batches, chunks, offsets and gaps. The accrual of a reused
  family is such a function as well.
\<close>

section \<open>Answers of a storage\<close>

record pool_answers =
  ans_state :: "int \<Rightarrow> omnipool_asset_state option"
  ans_free :: "string \<times> int \<Rightarrow> int option"
  ans_issuance :: "int \<Rightarrow> int option"
  ans_native :: "string \<Rightarrow> int option"
  ans_info :: "int \<Rightarrow> pool_info option"
  ans_pegs :: "int \<Rightarrow> (int \<times> int) list option"
  ans_evm :: "string \<Rightarrow> int \<Rightarrow> int"

definition registry_apart :: "erc20_registry \<Rightarrow> bool" where
  "registry_apart reg \<longleftrightarrow> (\<forall>ref \<in> snd ` set (atokenReserves reg). CHR '':'' \<notin> set (ref_poolProxy ref))"

definition answers :: "snapshot_env \<Rightarrow> pool_block \<Rightarrow> pool_answers \<Rightarrow> bool" where
  "answers env b q \<longleftrightarrow>
     omnipoolAssets_is b \<and> (\<forall>ks. omnipoolAssets_getMany b ks = Inr (map (ans_state q) ks))
     \<and> tokensAccounts_is b \<and> (\<forall>ks. tokensAccounts_getMany b ks = Inr (map (ans_free q) ks))
     \<and> totalIssuance_is b \<and> (\<forall>ks. totalIssuance_getMany b ks = Inr (map (ans_issuance q) ks))
     \<and> account205_is b \<and> (\<forall>ks. account205_getMany b ks = Inr (map (ans_native q) ks))
     \<and> stablePools_is b \<and> (\<forall>ks. stablePools_getMany b ks = Inr (map (ans_info q) ks))
     \<and> (\<forall>i. snd (peg_read b i) = Inr (ans_pegs q i))
     \<and> accountStorages_is (pb_evm b) \<and> registry_apart (env_registry env)
     \<and> (\<exists>f. \<forall>ks. accountStorages_getMany (pb_evm b) ks = Inr (map f ks))
     \<and> (\<forall>account a. readErc20Balances (env_keccak env) (env_registry env) (pb_evm b) [a] account = Inr [ans_evm q account a])"

lemma answers_reads:
  assumes "answers env b q"
  shows "getManyChunked w ks1 (tokensAccounts_getMany b) = Inr (map (ans_free q) ks1)"
    "getManyChunked w ks2 (totalIssuance_getMany b) = Inr (map (ans_issuance q) ks2)"
    "getManyChunked w ks3 (account205_getMany b) = Inr (map (ans_native q) ks3)"
    "getManyChunked w ks2 (stablePools_getMany b) = Inr (map (ans_info q) ks2)"
  using assms by (auto simp: answers_def intro!: getManyChunked_pointwise)

lemma answers_batch:
  assumes "answers env b q"
  shows "readErc20BalancesForHolders (env_keccak env) (env_registry env) (pb_evm b) requests =
    Inr (map (\<lambda>r. map (ans_evm q (rq_poolAccountHex r)) (rq_assetIds r)) requests)"
proof -
  obtain f where f: "\<And>ks. accountStorages_getMany (pb_evm b) ks = Inr (map f ks)"
    using assms by (auto simp: answers_def)
  have apart: "\<forall>ref \<in> snd ` set (atokenReserves (env_registry env)). CHR '':'' \<notin> set (ref_poolProxy ref)"
    and codec: "accountStorages_is (pb_evm b)"
    and single: "\<And>account a. readErc20Balances (env_keccak env) (env_registry env) (pb_evm b) [a] account = Inr [ans_evm q account a]"
    using assms by (simp_all add: answers_def registry_apart_def)
  show ?thesis by (rule batch_balances [OF apart codec f]) (rule single_leg [OF apart codec f single])
qed

lemma answers_erc20:
  assumes "answers env b q"
  shows "readErc20Balances (env_keccak env) (env_registry env) (pb_evm b) ids account = Inr (map (ans_evm q account) ids)"
  by (simp add: readErc20Balances_def answers_batch [OF assms])

lemma answers_unknown:
  assumes "answers env b q" "\<not> isKnownErc20 (env_registry env) a"
  shows "ans_evm q account a = 0"
proof -
  have "leg_query (env_keccak env) (env_registry env) addr r i a = []" for addr r i
    using assms(2) by (simp add: leg_query_def isKnownErc20_def map_has_iff)
  then have "readErc20Balances (env_keccak env) (env_registry env) (pb_evm b) [a] account = Inr [0]"
    by (simp add: readErc20Balances_def read_unfold all_queries_def request_queries_def zero_results_def Let_def)
  then show ?thesis using assms(1) by (simp add: answers_def)
qed

lemma value_at_map [simp]: "i < length xs \<Longrightarrow> value_at (map f xs) i = f (xs ! i)"
  by (simp add: value_at_def)

lemma map_enumerate_at:
  "length vs = length xs \<Longrightarrow> map (\<lambda>(i, x). g x (vs ! i)) (List.enumerate 0 xs) = map (\<lambda>(x, v). g x v) (zip xs vs)"
  by (rule nth_equalityI) (auto simp: nth_enumerate_eq)

section \<open>Omnipool\<close>

definition reserve_with :: "bool \<Rightarrow> int \<Rightarrow> int \<Rightarrow> int" where
  "reserve_with known evm reserve = (if known \<and> evm > 0 then evm else reserve)"

definition omni_base :: "snapshot_env \<Rightarrow> pool_answers \<Rightarrow> int \<Rightarrow> omnipool_asset_state \<Rightarrow> int" where
  "omni_base env q a s =
     (if a = 0 \<and> positive (ans_native q (omnipoolAccount env)) then the (ans_native q (omnipoolAccount env))
      else if \<not> isKnownErc20 (env_registry env) a \<and> positive (ans_free q (omnipoolAccount env, a))
      then the (ans_free q (omnipoolAccount env, a)) else oas_shares s)"

definition omni_row :: "snapshot_env \<Rightarrow> pool_answers \<Rightarrow> int \<Rightarrow> omnipool_asset_state \<Rightarrow> snapshot_omnipool_asset" where
  "omni_row env q a s =
     \<lparr>so_asset_id = a, so_hub_reserve = int_to_string (oas_hubReserve s),
      so_reserve = int_to_string (reserve_with (isKnownErc20 (env_registry env) a)
        (ans_evm q (omnipoolAccount env) a) (omni_base env q a s)),
      so_shares = int_to_string (oas_shares s), so_protocol_shares = int_to_string (oas_protocolShares s),
      so_cap = int_to_string (oas_cap s), so_tradable = oas_tradable s\<rparr>"

definition omni_rows :: "snapshot_env \<Rightarrow> pool_answers \<Rightarrow> int list \<Rightarrow> snapshot_omnipool_asset list" where
  "omni_rows env q ids = List.map_filter (\<lambda>a. map_option (omni_row env q a) (ans_state q a)) ids"

text \<open>The same before balances of contracts and the native balance are in.\<close>

definition plain_rows :: "snapshot_env \<Rightarrow> pool_answers \<Rightarrow> int list \<Rightarrow> snapshot_omnipool_asset list" where
  "plain_rows env q ids =
     List.map_filter (\<lambda>a. map_option (\<lambda>s. omnipool_row env a s (ans_free q (omnipoolAccount env, a))) (ans_state q a)) ids"

definition known_asset :: "snapshot_env \<Rightarrow> snapshot_omnipool_asset \<Rightarrow> bool" where
  "known_asset env r = isKnownErc20 (env_registry env) (so_asset_id r)"

definition gaps_of :: "snapshot_env \<Rightarrow> nat \<Rightarrow> snapshot_omnipool_asset list \<Rightarrow> (nat \<times> int) list" where
  "gaps_of env first rows =
     map (\<lambda>(i, r). (i, so_asset_id r)) (filter (\<lambda>(i, r). known_asset env r) (List.enumerate first rows))"

lemma omnipool_row_id [simp]: "so_asset_id (omnipool_row env a s v) = a"
  by (simp add: omnipool_row_def Let_def)

lemma omnipool_rows_plain:
  "omnipool_rows env (map (\<lambda>a. (a, ans_state q a, ans_free q (omnipoolAccount env, a))) ids) (assets, gaps) =
   (assets @ plain_rows env q ids, gaps @ gaps_of env (length assets) (plain_rows env q ids))"
proof (induction ids arbitrary: assets gaps)
  case (Cons a ids)
  then show ?case
    by (cases "ans_state q a") (auto simp: plain_rows_def map_filter_simps gaps_of_def known_asset_def)
qed (simp add: plain_rows_def map_filter_simps gaps_of_def)

lemma fill_gaps_rows:
  assumes "map so_asset_id rows = map so_asset_id rows'"
  shows "fill_gaps (zip (gaps_of env (length pre) rows) (map e (map snd (gaps_of env (length pre) rows)))) (pre @ rows') =
    pre @ map (\<lambda>r. if known_asset env r \<and> e (so_asset_id r) > 0 then r\<lparr>so_reserve := int_to_string (e (so_asset_id r))\<rparr> else r) rows'"
  using assms
proof (induction rows arbitrary: pre rows')
  case (Cons r rows)
  obtain r' rest where rows': "rows' = r' # rest" "so_asset_id r = so_asset_id r'" "map so_asset_id rows = map so_asset_id rest"
    using Cons.prems by (cases rows') auto
  have len: "Suc (length pre) = length (pre @ [x])" for x :: snapshot_omnipool_asset by simp
  show ?case
  proof (cases "known_asset env r")
    case False
    then show ?thesis
      using Cons.IH [OF rows'(3), of "pre @ [r']"] by (simp add: rows'(1,2) gaps_of_def known_asset_def)
  next
    case True
    let ?r = "if e (so_asset_id r') > 0 then r'\<lparr>so_reserve := int_to_string (e (so_asset_id r'))\<rparr> else r'"
    show ?thesis
      using True Cons.IH [OF rows'(3), of "pre @ [?r]"]
      by (cases "e (so_asset_id r') > 0") (simp_all add: rows'(1,2) gaps_of_def known_asset_def)
  qed
qed (simp add: gaps_of_def)

lemma update_first_map:
  "distinct (map key xs) \<Longrightarrow> update_first (\<lambda>x. key x = k) f xs = map (\<lambda>x. if key x = k then f x else x) xs"
proof (induction xs)
  case (Cons a xs)
  have "map (\<lambda>x. if key x = key a then f x else x) xs = xs"
    using Cons.prems by (intro map_idI) (auto simp: image_iff)
  then show ?case using Cons by auto
qed simp

lemma plain_rows_ids: "map so_asset_id (plain_rows env q ids) = filter (\<lambda>a. ans_state q a \<noteq> None) ids"
  by (induction ids) (auto simp: plain_rows_def map_filter_simps split: option.split)

lemma readOmnipoolState_rows:
  assumes q: "answers env b q" and ids: "distinct ids"
  shows "readOmnipoolState env b ids = Inr (sort_cmp (cmp_by so_asset_id) (omni_rows env q ids))"
proof -
  let ?rows = "plain_rows env q ids" and ?acc = "omnipoolAccount env"
  let ?native = "ans_native q ?acc"
  let ?h = "\<lambda>r. if so_asset_id r = 0 \<and> positive ?native then r\<lparr>so_reserve := int_to_string (the ?native)\<rparr> else r"
  let ?g = "\<lambda>r. if known_asset env r \<and> ans_evm q ?acc (so_asset_id r) > 0
      then r\<lparr>so_reserve := int_to_string (ans_evm q ?acc (so_asset_id r))\<rparr> else r"
  have zipped: "map (\<lambda>(i, a). (a, value_at (map (ans_state q) ids) i, value_at (map (ans_free q) (map (\<lambda>a. (?acc, a)) ids)) i))
      (List.enumerate 0 ids) = map (\<lambda>a. (a, ans_state q a, ans_free q (?acc, a))) ids"
    by (rule nth_equalityI) (auto simp: nth_enumerate_eq)
  have dist: "distinct (map so_asset_id ?rows)" using ids by (simp add: plain_rows_ids)
  have hdx: "hdx_reserve env b ?rows = Inr (map ?h ?rows)"
  proof (cases "List.find (\<lambda>a. so_asset_id a = 0) ?rows")
    case None
    then have "\<forall>r \<in> set ?rows. so_asset_id r \<noteq> 0" by (simp add: find_None_iff)
    then show ?thesis using None by (auto simp: hdx_reserve_def intro!: map_idI [symmetric])
  next
    case (Some r)
    have "hdx_free env b = Inr ?native" using q by (simp add: hdx_free_def answers_def value_at_def)
    then show ?thesis
      by (auto simp: hdx_reserve_def Some and_then_def with_cause_def update_first_map [OF dist] intro!: map_idI [symmetric])
  qed
  have fill: "fill_gaps (zip (gaps_of env 0 ?rows) (map (ans_evm q ?acc) (map snd (gaps_of env 0 ?rows)))) (map ?h ?rows) =
      map ?g (map ?h ?rows)"
    using fill_gaps_rows [of ?rows "map ?h ?rows" env "[]" "ans_evm q ?acc"] by (simp cong: map_cong)
  have rows: "map ?g (map ?h ?rows) = omni_rows env q ids"
  proof (induction ids)
    case (Cons a ids)
    then show ?case
      by (cases "ans_state q a")
        (auto simp: plain_rows_def omni_rows_def map_filter_simps omni_row_def omni_base_def omnipool_row_def
          reserve_with_def known_asset_def Let_def)
  qed (simp add: plain_rows_def omni_rows_def map_filter_simps)
  have evm: "(if gaps_of env 0 ?rows = [] then Inr []
      else readErc20Balances (env_keccak env) (env_registry env) (pb_evm b) (map snd (gaps_of env 0 ?rows)) ?acc) =
    (Inr (map (ans_evm q ?acc) (map snd (gaps_of env 0 ?rows))) :: string + int list)"
    by (simp add: answers_erc20 [OF q])
  have "omnipoolAssets_is b" "tokensAccounts_is b" "omnipoolAssets_getMany b ids = Inr (map (ans_state q) ids)"
    using q by (simp_all add: answers_def)
  then show ?thesis
    using omnipool_rows_plain [of env q ids "[]" "[]"]
    by (simp only: readOmnipoolState_def answers_reads(1) [OF q] and_then_def sum.case zipped list.size append.left_neutral
        Let_def split_conv hdx evm fill rows if_False not_not if_True simp_thms)
qed

section \<open>XYK pools\<close>

definition side_base :: "pool_answers \<Rightarrow> string \<Rightarrow> int \<Rightarrow> int" where
  "side_base q account a =
     (if a = NATIVE_ASSET_ID then or_zero (ans_native q account) else or_zero (ans_free q (account, a)))"

definition xyk_base :: "pool_answers \<Rightarrow> xyk_pool_entry \<Rightarrow> int \<times> int" where
  "xyk_base q p = (side_base q (poolAccount p) (xyk_assetA p), side_base q (poolAccount p) (xyk_assetB p))"

definition xyk_filled :: "pool_answers \<Rightarrow> xyk_pool_entry \<Rightarrow> int \<times> int" where
  "xyk_filled q p =
     (fill_side (fst (xyk_base q p)) (ans_evm q (poolAccount p) (xyk_assetA p)),
      fill_side (snd (xyk_base q p)) (ans_evm q (poolAccount p) (xyk_assetB p)))"

definition slot_value :: "pool_answers \<Rightarrow> xyk_pool_entry list \<Rightarrow> nat \<times> bool \<Rightarrow> int" where
  "slot_value q pools slot = (if snd slot then snd (xyk_base q (pools ! fst slot)) else fst (xyk_base q (pools ! fst slot)))"

lemma set_sides_Cons [simp]: "set_sides rs ((slot, v) # rest) = set_sides (set_side rs slot v) rest"
  by (simp add: set_sides_def)

lemma length_set_side [simp]: "length (set_side rs slot v) = length rs"
  by (cases slot) (simp add: set_side_def split: prod.split)

lemma length_set_sides [simp]: "length (set_sides rs slots) = length rs"
proof (induction slots arbitrary: rs)
  case (Cons p slots)
  then show ?case by (cases p) simp
qed (simp add: set_sides_def)

lemma set_sides_entry:
  assumes "\<forall>slot \<in> set slots. fst slot < length rs" "i < length rs"
  shows "set_sides rs (map (\<lambda>s. (s, v s)) slots) ! i =
      (if (i, False) \<in> set slots then v (i, False) else fst (rs ! i),
       if (i, True) \<in> set slots then v (i, True) else snd (rs ! i))"
  using assms
proof (induction slots arbitrary: rs)
  case (Cons slot slots)
  obtain j side where slot: "slot = (j, side)" by fastforce
  let ?rs = "set_side rs slot (v slot)"
  have at: "?rs ! i = (if j = i then (if side then (fst (rs ! i), v slot) else (v slot, snd (rs ! i))) else rs ! i)"
    using Cons.prems by (auto simp: slot set_side_def split: prod.split)
  have "\<forall>slot \<in> set slots. fst slot < length ?rs" "i < length ?rs" using Cons.prems by simp_all
  from Cons.IH [OF this] show ?case unfolding at by (auto simp: slot)
qed (simp add: set_sides_def)

lemma set_sides_cover:
  assumes bounds: "\<forall>slot \<in> set T \<union> set N. fst slot < length z"
    and every: "\<And>i side. i < length z \<Longrightarrow> (i, side) \<in> set T \<or> (i, side) \<in> set N"
  shows "set_sides (set_sides z (map (\<lambda>s. (s, v s)) T)) (map (\<lambda>s. (s, v s)) N) =
    map (\<lambda>i. (v (i, False), v (i, True))) [0..<length z]"
proof (rule nth_equalityI)
  let ?one = "set_sides z (map (\<lambda>s. (s, v s)) T)"
  have t: "\<forall>slot \<in> set T. fst slot < length z" and n: "\<forall>slot \<in> set N. fst slot < length ?one" using bounds by auto
  fix i assume "i < length (set_sides ?one (map (\<lambda>s. (s, v s)) N))"
  then have i: "i < length z" and i': "i < length ?one" by simp_all
  have "set_sides ?one (map (\<lambda>s. (s, v s)) N) ! i = (v (i, False), v (i, True))"
    unfolding set_sides_entry [OF n i'] set_sides_entry [OF t i]
    using every [OF i, of False] every [OF i, of True] by auto
  then show "set_sides ?one (map (\<lambda>s. (s, v s)) N) ! i = map (\<lambda>i. (v (i, False), v (i, True))) [0..<length z] ! i"
    using i by simp
qed simp

lemma xyk_sides_in:
  "(slot, account, a) \<in> set (xyk_sides pools) \<longleftrightarrow>
   fst slot < length pools \<and> account = poolAccount (pools ! fst slot)
   \<and> a = (if snd slot then xyk_assetB (pools ! fst slot) else xyk_assetA (pools ! fst slot))"
  unfolding xyk_sides_def set_concat_enumerate by (cases slot) (auto split: if_splits)

lemma xyk_reserves:
  assumes tokens: "tokens = filter (\<lambda>(slot, account, a). a \<noteq> NATIVE_ASSET_ID) (xyk_sides pools)"
    and native: "native = filter (\<lambda>(slot, account, a). a = NATIVE_ASSET_ID) (xyk_sides pools)"
  shows "set_sides (set_sides (map (\<lambda>_. (0, 0)) pools) (zip (map fst tokens) (map or_zero (map (ans_free q) (map snd tokens)))))
      (zip (map fst native) (map or_zero (map (ans_native q) (map (fst \<circ> snd) native)))) = map (xyk_base q) pools"
proof -
  let ?v = "slot_value q pools" and ?z = "map (\<lambda>_. (0, 0)) pools :: (int \<times> int) list"
  have in_sides: "fst (fst x) < length pools" if "x \<in> set tokens \<or> x \<in> set native" for x
  proof -
    obtain slot account a where "x = (slot, account, a)" by (metis surj_pair)
    then show ?thesis using that by (auto simp: tokens native xyk_sides_in)
  qed
  have "or_zero (ans_free q (snd x)) = ?v (fst x)" if "x \<in> set tokens" for x
  proof -
    obtain slot account a where "x = (slot, account, a)" by (metis surj_pair)
    then show ?thesis using that
      by (cases "snd slot") (auto simp: tokens xyk_sides_in slot_value_def xyk_base_def side_base_def)
  qed
  then have 1: "zip (map fst tokens) (map or_zero (map (ans_free q) (map snd tokens))) = map (\<lambda>s. (s, ?v s)) (map fst tokens)"
    by (simp add: zip_map_map zip_same_conv_map cong: map_cong)
  have "or_zero (ans_native q (fst (snd x))) = ?v (fst x)" if "x \<in> set native" for x
  proof -
    obtain slot account a where "x = (slot, account, a)" by (metis surj_pair)
    then show ?thesis using that
      by (cases "snd slot") (auto simp: native xyk_sides_in slot_value_def xyk_base_def side_base_def)
  qed
  then have 2: "zip (map fst native) (map or_zero (map (ans_native q) (map (fst \<circ> snd) native))) = map (\<lambda>s. (s, ?v s)) (map fst native)"
    by (simp add: zip_map_map zip_same_conv_map cong: map_cong)
  have every: "(i, side) \<in> set (map fst tokens) \<or> (i, side) \<in> set (map fst native)" if "i < length pools" for i side
  proof -
    let ?x = "((i, side), poolAccount (pools ! i), if side then xyk_assetB (pools ! i) else xyk_assetA (pools ! i))"
    have "?x \<in> set tokens \<or> ?x \<in> set native" using that by (simp add: tokens native xyk_sides_in)
    then show ?thesis by (metis fst_conv image_eqI set_map)
  qed
  have "set_sides (set_sides ?z (map (\<lambda>s. (s, ?v s)) (map fst tokens))) (map (\<lambda>s. (s, ?v s)) (map fst native)) =
      map (\<lambda>i. (?v (i, False), ?v (i, True))) [0..<length ?z]"
  proof (rule set_sides_cover)
    show "\<forall>slot \<in> set (map fst tokens) \<union> set (map fst native). fst slot < length ?z"
      using in_sides by fastforce
    show "(i, side) \<in> set (map fst tokens) \<or> (i, side) \<in> set (map fst native)" if "i < length ?z" for i side
      using every that by simp
  qed
  also have "\<dots> = map (xyk_base q) pools"
    by (rule nth_equalityI) (simp_all add: slot_value_def)
  finally show ?thesis unfolding 1 2 .
qed

lemma fill_xyk_pools:
  assumes q: "answers env b q"
  shows "fill_xyk env b (filter (\<lambda>(i, p). xyk_pool_gap env p (xyk_base q p)) (List.enumerate (length pre) pools))
      (pre @ map (xyk_base q) pools) = Inr (pre @ map (xyk_filled q) pools)"
proof (induction pools arbitrary: pre)
  case (Cons p pools)
  show ?case
  proof (cases "xyk_pool_gap env p (xyk_base q p)")
    case True
    then show ?thesis
      using Cons [of "pre @ [xyk_filled q p]"] by (simp add: answers_erc20 [OF q] and_then_def xyk_filled_def)
  next
    case False
    have "fill_side r (ans_evm q acc a) = r" if "r \<noteq> 0 \<or> \<not> isKnownErc20 (env_registry env) a" for r acc a
      using that answers_unknown [OF q] by (auto simp: fill_side_def)
    then have "xyk_filled q p = xyk_base q p" using False by (auto simp: xyk_filled_def xyk_pool_gap_def prod_eq_iff)
    then show ?thesis using False Cons [of "pre @ [xyk_base q p]"] by simp
  qed
qed simp

lemma readNativeFreeBalances_answers:
  assumes "answers env b q"
  shows "readNativeFreeBalances env b accounts = Inr (map or_zero (map (ans_native q) accounts))"
  using assms answers_reads(3) [OF assms] by (simp add: readNativeFreeBalances_def answers_def)

lemma enumerate_filter_map:
  "filter (\<lambda>(i, p). P p (map f xs ! i)) (List.enumerate 0 xs) = filter (\<lambda>(i, p). P p (f p)) (List.enumerate 0 xs)"
  by (rule filter_cong) (auto simp: in_set_enumerate_eq)

lemma readXYKState_rows:
  assumes q: "answers env b q"
  shows "readXYKState env b pools = Inr (map (\<lambda>p. xyk_row p (xyk_filled q p)) pools)"
proof -
  define tokens where "tokens = filter (\<lambda>(slot, account, a). a \<noteq> NATIVE_ASSET_ID) (xyk_sides pools)"
  define native where "native = filter (\<lambda>(slot, account, a). a = NATIVE_ASSET_ID) (xyk_sides pools)"
  note reserves = xyk_reserves [OF tokens_def native_def, of q]
  have fill: "fill_xyk env b (filter (\<lambda>(i, p). xyk_pool_gap env p (map (xyk_base q) pools ! i)) (List.enumerate 0 pools))
      (map (xyk_base q) pools) = Inr (map (xyk_filled q) pools)"
    using fill_xyk_pools [OF q, of "[]" pools] by (simp add: enumerate_filter_map [of "xyk_pool_gap env"])
  have rows: "map (\<lambda>(i, p). xyk_row p (map (xyk_filled q) pools ! i)) (List.enumerate 0 pools) =
      map (\<lambda>p. xyk_row p (xyk_filled q p)) pools"
    by (rule nth_equalityI) (auto simp: nth_enumerate_eq)
  have "tokensAccounts_is b" using q by (simp add: answers_def)
  then show ?thesis
    by (simp only: readXYKState_def Let_def tokens_def [symmetric] native_def [symmetric] answers_reads(1) [OF q]
        readNativeFreeBalances_answers [OF q] with_cause_def and_then_def sum.case reserves fill rows not_not if_False simp_thms)
qed

section \<open>Stableswap pools\<close>

definition stored_pool :: "pool_answers \<Rightarrow> stableswap_pool_entry \<Rightarrow> stableswap_pool_entry" where
  "stored_pool q p =
     (case ans_info q (sp_poolId p) of None \<Rightarrow> p
      | Some info \<Rightarrow>
          p\<lparr>initialAmplification := info_initialAmplification info, finalAmplification := info_finalAmplification info,
            initialBlock := info_initialBlock info, finalBlock := info_finalBlock info, sp_fee := info_fee info\<rparr>)"

definition stable_reserves :: "snapshot_env \<Rightarrow> pool_answers \<Rightarrow> stableswap_pool_entry \<Rightarrow> int list" where
  "stable_reserves env q p =
     map (\<lambda>a. fill_side (positive_or_zero (ans_free q (stableswapPoolAccount env (sp_poolId p), a)))
                (ans_evm q (stableswapPoolAccount env (sp_poolId p)) a)) (sp_assets p)"

definition stable_row :: "snapshot_env \<Rightarrow> int \<Rightarrow> pool_answers \<Rightarrow> stableswap_pool_entry \<Rightarrow> snapshot_stableswap_pool" where
  "stable_row env height q p =
     stableswap_row env height (stored_pool q p) (stable_reserves env q p) (ans_issuance q (sp_poolId p))
       (peg_multipliers_of (ans_pegs q (sp_poolId p)))"

lemma stored_pool_same [simp]: "sp_poolId (stored_pool q p) = sp_poolId p" "sp_assets (stored_pool q p) = sp_assets p"
  by (auto simp: stored_pool_def split: option.split)

lemma stable_reserves_stored [simp]: "stable_reserves env q (stored_pool q p) = stable_reserves env q p"
  by (simp add: stable_reserves_def)

lemma withStored_answers:
  assumes "answers env b q"
  shows "withStoredStableswapParams env b pools = Inr (map (stored_pool q) pools)"
proof (cases "pools = []")
  case False
  have "map (\<lambda>(i, p). case value_at (map (ans_info q) (map sp_poolId pools)) i of None \<Rightarrow> p
          | Some info \<Rightarrow>
              p\<lparr>initialAmplification := info_initialAmplification info, finalAmplification := info_finalAmplification info,
                initialBlock := info_initialBlock info, finalBlock := info_finalBlock info, sp_fee := info_fee info\<rparr>)
        (List.enumerate 0 pools) = map (stored_pool q) pools"
    by (rule nth_equalityI) (auto simp: nth_enumerate_eq stored_pool_def simp del: map_map)
  moreover have "stablePools_is b" using assms by (simp add: answers_def)
  ultimately show ?thesis
    using False by (simp add: withStoredStableswapParams_def answers_reads(4) [OF assms])
qed (simp add: withStoredStableswapParams_def)

lemma stableswap_reserves_answers:
  assumes q: "answers env b q"
  shows "stableswap_reserves env b p
      (map (\<lambda>a. positive_or_zero (ans_free q (stableswapPoolAccount env (sp_poolId p), a))) (sp_assets p)) =
    Inr (stable_reserves env q p)"
proof -
  let ?acc = "stableswapPoolAccount env (sp_poolId p)"
  let ?base = "map (\<lambda>a. positive_or_zero (ans_free q (?acc, a))) (sp_assets p)"
  have filled: "map (\<lambda>(r, v). fill_side r v) (zip ?base (map (ans_evm q ?acc) (sp_assets p))) = stable_reserves env q p"
    by (simp add: stable_reserves_def zip_map_map zip_same_conv_map)
  show ?thesis
  proof (cases "list_ex (\<lambda>(i, a). ?base ! i = 0 \<and> isKnownErc20 (env_registry env) a) (List.enumerate 0 (sp_assets p))")
    case True
    then show ?thesis
      unfolding stableswap_reserves_def answers_erc20 [OF q] by (simp only: if_True map_sum.simps filled)
  next
    case False
    have "fill_side r (ans_evm q ?acc a) = r" if "r \<noteq> 0 \<or> \<not> isKnownErc20 (env_registry env) a" for r a
      using that answers_unknown [OF q] by (auto simp: fill_side_def)
    moreover have "positive_or_zero (ans_free q (?acc, a)) \<noteq> 0 \<or> \<not> isKnownErc20 (env_registry env) a"
      if "a \<in> set (sp_assets p)" for a
    proof -
      obtain i where "i < length (sp_assets p)" "sp_assets p ! i = a" using \<open>a \<in> set (sp_assets p)\<close> by (auto simp: in_set_conv_nth)
      then have "(i, a) \<in> set (List.enumerate 0 (sp_assets p))" by (auto simp: in_set_enumerate_eq)
      then show ?thesis using False \<open>i < length (sp_assets p)\<close> \<open>sp_assets p ! i = a\<close> by (fastforce simp: list_ex_iff)
    qed
    ultimately have "stable_reserves env q p = ?base" by (auto simp: stable_reserves_def)
    then show ?thesis using False unfolding stableswap_reserves_def by simp
  qed
qed

definition pegs_supported :: "pool_block \<Rightarrow> bool" where
  "pegs_supported b \<longleftrightarrow> poolPegs378_is b \<or> poolPegs323_is b \<or> poolPegs305_is b"

lemma peg_read_supported: "fst (peg_read b i) = pegs_supported b"
  by (simp add: peg_read_def pegs_supported_def)

definition param_row :: "snapshot_env \<Rightarrow> int \<Rightarrow> pool_answers \<Rightarrow> stableswap_pool_entry \<Rightarrow> snapshot_stableswap_pool" where
  "param_row env height q p =
     stableswap_row env height p (stable_reserves env q p) (ans_issuance q (sp_poolId p))
       (peg_multipliers_of (ans_pegs q (sp_poolId p)))"

lemma read_pegs_answers:
  assumes "answers env b q"
  shows "read_pegs b i seen =
    (if \<not> pegs_supported b \<and> seen
     then (Inl (at_block ''Stableswap peg read failed'' b @ '' for pool '' @ int_to_string i), seen)
     else (Inr (peg_multipliers_of (ans_pegs q i)), seen \<or> pegs_supported b))"
proof -
  have "peg_read b i = (pegs_supported b, Inr (ans_pegs q i))"
    using assms peg_read_supported [of b i] by (auto simp: answers_def prod_eq_iff)
  then show ?thesis by (simp add: read_pegs_def Let_def)
qed

text \<open>Any balances that hold the pools' keys from the offset on give the rows; the peg memory only decides whether a
  missing storage throws.\<close>

lemma stableswap_rows_answers:
  assumes q: "answers env b q"
    and iss: "\<And>p. p \<in> set pools \<Longrightarrow> iss (sp_poolId p) = ans_issuance q (sp_poolId p)"
    and bal: "\<And>j. j < length (stableswap_keys env pools) \<Longrightarrow>
      value_at balances (start + j) = ans_free q (stableswap_keys env pools ! j)"
  shows "stableswap_rows env b balances iss (pool_offsets start pools) seen =
    (if pools \<noteq> [] \<and> \<not> pegs_supported b \<and> seen
     then (Inl (at_block ''Stableswap peg read failed'' b @ '' for pool '' @ int_to_string (sp_poolId (hd pools))), seen)
     else (Inr (map (param_row env (pb_height b) q) pools), seen \<or> (pools \<noteq> [] \<and> pegs_supported b)))"
  using iss bal
proof (induction pools arbitrary: start seen)
  case (Cons p pools)
  let ?acc = "stableswapPoolAccount env (sp_poolId p)" and ?n = "length (sp_assets p)"
  have keys: "stableswap_keys env (p # pools) = map (\<lambda>a. (?acc, a)) (sp_assets p) @ stableswap_keys env pools"
    by (simp add: stableswap_keys_def)
  have "map (\<lambda>(i, _). positive_or_zero (value_at balances (start + i))) (List.enumerate 0 (sp_assets p)) =
      map (\<lambda>a. positive_or_zero (ans_free q (?acc, a))) (sp_assets p)"
    using Cons.prems(2) by (intro nth_equalityI) (auto simp: nth_enumerate_eq keys nth_append)
  then have reserves: "stableswap_reserves env b p
      (map (\<lambda>(i, _). positive_or_zero (value_at balances (start + i))) (List.enumerate 0 (sp_assets p))) =
      Inr (stable_reserves env q p)"
    by (simp only: stableswap_reserves_answers [OF q])
  have rest: "value_at balances (start + ?n + j) = ans_free q (stableswap_keys env pools ! j)"
    if "j < length (stableswap_keys env pools)" for j
    using Cons.prems(2) [of "?n + j"] that by (simp add: keys nth_append add.assoc)
  have IH: "stableswap_rows env b balances iss (pool_offsets (start + ?n) pools) seen' =
      (if pools \<noteq> [] \<and> \<not> pegs_supported b \<and> seen'
       then (Inl (at_block ''Stableswap peg read failed'' b @ '' for pool '' @ int_to_string (sp_poolId (hd pools))), seen')
       else (Inr (map (param_row env (pb_height b) q) pools), seen' \<or> (pools \<noteq> [] \<and> pegs_supported b)))" for seen'
    using Cons.prems(1) rest by (intro Cons.IH) auto
  have "iss (sp_poolId p) = ans_issuance q (sp_poolId p)" using Cons.prems(1) by simp
  then show ?case
    by (auto simp: reserves read_pegs_answers [OF q] IH param_row_def)
qed simp

lemma issuance_map_answers:
  "p \<in> set ids \<Longrightarrow> map_of (issuance_map ids (map f ids)) p = f p"
proof -
  have "map_of (foldl (\<lambda>m (i, poolId). case value_at vs i of None \<Rightarrow> m | Some v \<Rightarrow> map_set poolId v m) m (List.enumerate n ids)) p =
      (if p \<in> set ids then f p else map_of m p)"
    if "\<And>j. j < length ids \<Longrightarrow> value_at vs (n + j) = f (ids ! j)" "map_of m p = None \<or> map_of m p = f p" for vs n m
    using that
  proof (induction ids arbitrary: n m)
    case (Cons a ids)
    have here: "value_at vs n = f a" using Cons.prems(1) [of 0] by simp
    have later: "value_at vs (Suc n + j) = f (ids ! j)" if "j < length ids" for j
      using Cons.prems(1) [of "Suc j"] that by simp
    show ?case
      using Cons.IH [OF later] Cons.prems(2) by (auto simp: here split: option.split)
  qed simp
  from this [where vs = "map f ids" and n = 0 and m = "[]"] show "p \<in> set ids \<Longrightarrow> map_of (issuance_map ids (map f ids)) p = f p"
    by (simp add: issuance_map_def)
qed

lemma readStableswapState_rows:
  assumes q: "answers env b q"
  shows "readStableswapState env b pools seen =
    (if pools \<noteq> [] \<and> \<not> pegs_supported b \<and> seen
     then (Inl (at_block ''Stableswap peg read failed'' b @ '' for pool '' @ int_to_string (sp_poolId (hd pools))), seen)
     else (Inr (sort_cmp (cmp_by ss_pool_id) (map (stable_row env (pb_height b) q) pools)),
           seen \<or> (pools \<noteq> [] \<and> pegs_supported b)))"
proof -
  let ?ps = "map (stored_pool q) pools"
  have keys: "stableswap_keys env ?ps = stableswap_keys env pools" by (simp add: stableswap_keys_def comp_def)
  have rows: "map (param_row env (pb_height b) q) ?ps = map (stable_row env (pb_height b) q) pools"
    by (simp add: param_row_def stable_row_def)
  have bal: "value_at (map (ans_free q) (stableswap_keys env ?ps)) (0 + j) = ans_free q (stableswap_keys env ?ps ! j)"
    if "j < length (stableswap_keys env ?ps)" for j
    using that by simp
  have iss: "map_of (issuance_map (map sp_poolId ?ps) (map (ans_issuance q) (map sp_poolId ?ps))) (sp_poolId p) =
      ans_issuance q (sp_poolId p)" if "p \<in> set ?ps" for p
    using that by (intro issuance_map_answers) auto
  have hd: "pools \<noteq> [] \<Longrightarrow> sp_poolId (hd ?ps) = sp_poolId (hd pools)" by (cases pools) auto
  have "tokensAccounts_is b" "totalIssuance_is b" using q by (simp_all add: answers_def)
  then show ?thesis
    using stableswap_rows_answers [OF q iss bal, where seen = seen] hd
    by (simp add: readStableswapState_def withStored_answers [OF q] answers_reads [OF q] and_then_def rows
        del: map_map)
qed

section \<open>Accrual\<close>

definition accrue_omni :: "snapshot_env \<Rightarrow> pool_answers \<Rightarrow> string \<Rightarrow> snapshot_omnipool_asset \<Rightarrow> snapshot_omnipool_asset" where
  "accrue_omni env q account r =
     (if known_asset env r \<and> ans_evm q account (so_asset_id r) > 0
      then r\<lparr>so_reserve := int_to_string (ans_evm q account (so_asset_id r))\<rparr> else r)"

definition accrue_text :: "snapshot_env \<Rightarrow> pool_answers \<Rightarrow> string \<Rightarrow> int \<Rightarrow> string \<Rightarrow> string" where
  "accrue_text env q account a reserve =
     (if isKnownErc20 (env_registry env) a \<and> ans_evm q account a > 0 then int_to_string (ans_evm q account a) else reserve)"

definition accrue_xyk :: "snapshot_env \<Rightarrow> pool_answers \<Rightarrow> snapshot_xyk_pool \<Rightarrow> snapshot_xyk_pool" where
  "accrue_xyk env q p =
     p\<lparr>sx_reserve_a := accrue_text env q (sx_pool_account p) (sx_asset_a p) (sx_reserve_a p),
       sx_reserve_b := accrue_text env q (sx_pool_account p) (sx_asset_b p) (sx_reserve_b p)\<rparr>"

definition accrue_stable :: "snapshot_env \<Rightarrow> int \<Rightarrow> pool_answers \<Rightarrow> snapshot_stableswap_pool \<Rightarrow> snapshot_stableswap_pool" where
  "accrue_stable env height q p =
     p\<lparr>ss_reserves := map (\<lambda>(i, reserve). accrue_text env q (stableswapPoolAccount env (ss_pool_id p)) (ss_pool_assets p ! i) reserve)
          (List.enumerate 0 (ss_reserves p)),
       ss_amplification := int_to_string (stableswapAmplificationAt env (ss_initial_amplification p)
          (ss_final_amplification p) (ss_initial_block p) (ss_final_block p) height)\<rparr>"

lemma request_index_cases:
  assumes "k \<in> set (map fst L)"
  obtains j where "j < length L" "fst (L ! j) = k" "request_index first L k = Some (first + j)"
proof -
  have len: "length (map fst L) = length [first..<first + length L]" by simp
  obtain r where r: "request_index first L k = Some r"
    using assms map_of_zip_is_Some [OF len] by (auto simp: request_index_def)
  then have "(k, r) \<in> set (zip (map fst L) [first..<first + length L])" by (simp add: request_index_def map_of_SomeD)
  then obtain j where "j < length L" "map fst L ! j = k" "[first..<first + length L] ! j = r"
    by (auto simp: in_set_zip)
  then show ?thesis using that [of j] r by simp
qed

lemma request_index_None: "k \<notin> set (map fst L) \<Longrightarrow> request_index first L k = None"
proof -
  assume "k \<notin> set (map fst L)"
  moreover have "length (map fst L) = length [first..<first + length L]" by simp
  ultimately show ?thesis by (metis map_of_zip_is_None request_index_def)
qed

text \<open>The balances of a family's requests, at their place in the whole list.\<close>

lemma part_of_batch:
  assumes "j < length ys" "length xs = n"
  shows "(xs @ map f ys @ zs) ! (n + j) = f (ys ! j)"
  using assms by (simp add: nth_append)

lemma accrued_omnipool_rows:
  assumes bal: "\<And>i. i < length (filter (\<lambda>(_, r). known_asset env r) (List.enumerate (length pre) rows)) \<Longrightarrow>
      balances ! 0 ! (n + i) = ans_evm q account (so_asset_id (snd (filter (\<lambda>(_, r). known_asset env r) (List.enumerate (length pre) rows) ! i)))"
  shows "foldl (\<lambda>next (i, (index, asset)).
         case leg_read balances 0 i of
           None \<Rightarrow> next
         | Some reserve \<Rightarrow> if reserve \<noteq> so_reserve asset then next[index := asset\<lparr>so_reserve := reserve\<rparr>] else next)
       (pre @ rows) (List.enumerate n (filter (\<lambda>(_, r). known_asset env r) (List.enumerate (length pre) rows))) =
     pre @ map (accrue_omni env q account) rows"
  using bal
proof (induction rows arbitrary: pre n)
  case (Cons r rows)
  show ?case
  proof (cases "known_asset env r")
    case False
    then have "accrue_omni env q account r = r" by (simp add: accrue_omni_def)
    then show ?thesis using False Cons.IH [of "pre @ [r]" n] Cons.prems by simp
  next
    case True
    let ?v = "ans_evm q account (so_asset_id r)"
    have here: "balances ! 0 ! n = ?v" using Cons.prems [of 0] True by simp
    have later: "balances ! 0 ! (Suc n + i) = ans_evm q account (so_asset_id (snd (filter (\<lambda>(_, r). known_asset env r) (List.enumerate (Suc (length pre)) rows) ! i)))"
      if "i < length (filter (\<lambda>(_, r). known_asset env r) (List.enumerate (Suc (length pre)) rows))" for i
      using Cons.prems [of "Suc i"] that True by simp
    have step: "(case leg_read balances 0 n of None \<Rightarrow> pre @ r # rows
        | Some reserve \<Rightarrow> if reserve \<noteq> so_reserve r then (pre @ r # rows)[length pre := r\<lparr>so_reserve := reserve\<rparr>] else pre @ r # rows) =
      pre @ accrue_omni env q account r # rows"
      using True by (auto simp: leg_read_def here accrue_omni_def Let_def)
    show ?thesis
      using Cons.IH [of "pre @ [accrue_omni env q account r]" "Suc n"] later True step by simp
  qed
qed simp

definition leg_balances :: "pool_answers \<Rightarrow> holder_request \<Rightarrow> int list" where
  "leg_balances q r = map (ans_evm q (rq_poolAccountHex r)) (rq_assetIds r)"

lemma accrued_xyk_request:
  assumes bal: "\<And>j. j < length L \<Longrightarrow> balances ! (first + j) =
      leg_balances q \<lparr>rq_assetIds = [sx_asset_a (snd (L ! j)), sx_asset_b (snd (L ! j))], rq_poolAccountHex = sx_pool_account (snd (L ! j))\<rparr>"
    and L: "L = filter (\<lambda>(i, p). isKnownErc20 (env_registry env) (sx_asset_a p) \<or> isKnownErc20 (env_registry env) (sx_asset_b p))
      (List.enumerate 0 pools)"
    and i: "i < length pools"
  shows "accrued_xyk_pool env balances (request_index first L i) (pools ! i) = accrue_xyk env q (pools ! i)"
proof (cases "i \<in> set (map fst L)")
  case True
  then obtain j where j: "j < length L" "fst (L ! j) = i" "request_index first L i = Some (first + j)"
    by (rule request_index_cases)
  have "L ! j \<in> set L" using j(1) by simp
  then have "snd (L ! j) = pools ! i" using j(2) by (auto simp: L in_set_enumerate_eq)
  then show ?thesis
    using bal [OF j(1)] j(3)
    by (simp add: accrued_xyk_pool_def accrue_xyk_def accrue_text_def leg_read_def leg_balances_def or_else_def Let_def)
next
  case False
  have "(i, pools ! i) \<in> set (List.enumerate 0 pools)" using i by (simp add: in_set_enumerate_eq)
  then have "\<not> isKnownErc20 (env_registry env) (sx_asset_a (pools ! i))" "\<not> isKnownErc20 (env_registry env) (sx_asset_b (pools ! i))"
    using False by (force simp: L)+
  then show ?thesis
    by (simp add: request_index_None [OF False] accrued_xyk_pool_def accrue_xyk_def accrue_text_def)
qed

lemma accrued_stable_request:
  assumes bal: "\<And>j. j < length L \<Longrightarrow> balances ! (first + j) =
      leg_balances q \<lparr>rq_assetIds = ss_pool_assets (snd (L ! j)), rq_poolAccountHex = stableswapPoolAccount env (ss_pool_id (snd (L ! j)))\<rparr>"
    and L: "L = filter (\<lambda>(i, p). list_ex (isKnownErc20 (env_registry env)) (ss_pool_assets p)) (List.enumerate 0 pools)"
    and i: "i < length pools" and fits: "length (ss_reserves (pools ! i)) \<le> length (ss_pool_assets (pools ! i))"
  shows "accrued_stableswap_pool env h balances (request_index first L i) (pools ! i) = accrue_stable env h q (pools ! i)"
proof (cases "i \<in> set (map fst L)")
  case True
  then obtain j where j: "j < length L" "fst (L ! j) = i" "request_index first L i = Some (first + j)"
    by (rule request_index_cases)
  have "L ! j \<in> set L" using j(1) by simp
  then have p: "snd (L ! j) = pools ! i" using j(2) by (auto simp: L in_set_enumerate_eq)
  have "map (\<lambda>(k, reserve). if isKnownErc20 (env_registry env) (ss_pool_assets (pools ! i) ! k)
        then or_else (leg_read balances (first + j) k) reserve else reserve) (List.enumerate 0 (ss_reserves (pools ! i))) =
      map (\<lambda>(k, reserve). accrue_text env q (stableswapPoolAccount env (ss_pool_id (pools ! i))) (ss_pool_assets (pools ! i) ! k) reserve)
        (List.enumerate 0 (ss_reserves (pools ! i)))"
    using fits bal [OF j(1)]
    by (intro nth_equalityI) (auto simp: nth_enumerate_eq accrue_text_def leg_read_def leg_balances_def or_else_def p Let_def)
  then show ?thesis using j(3) by (simp add: accrued_stableswap_pool_def accrue_stable_def)
next
  case False
  have "(i, pools ! i) \<in> set (List.enumerate 0 pools)" using i by (simp add: in_set_enumerate_eq)
  then have none: "\<not> list_ex (isKnownErc20 (env_registry env)) (ss_pool_assets (pools ! i))" using False by (force simp: L)
  have "map (\<lambda>(k, reserve). accrue_text env q (stableswapPoolAccount env (ss_pool_id (pools ! i))) (ss_pool_assets (pools ! i) ! k) reserve)
        (List.enumerate 0 (ss_reserves (pools ! i))) = ss_reserves (pools ! i)"
    using fits none by (intro nth_equalityI) (auto simp: nth_enumerate_eq accrue_text_def list_ex_iff)
  then show ?thesis by (simp add: request_index_None [OF False] accrued_stableswap_pool_def accrue_stable_def)
qed

lemma refreshAccruing_answers:
  assumes q: "answers env b q"
    and fits: "\<forall>p \<in> set (st_stableswap_pools state). length (ss_reserves p) \<le> length (ss_pool_assets p)"
  shows "refreshAccruingPoolFields env b state reused =
    Inr (if reused_omnipool reused then map (accrue_omni env q (st_omnipool_account state)) (st_omnipool_assets state)
         else st_omnipool_assets state,
         if reused_xyk reused then map (accrue_xyk env q) (st_xyk_pools state) else st_xyk_pools state,
         if reused_stableswap reused then map (accrue_stable env (pb_height b) q) (st_stableswap_pools state)
         else st_stableswap_pools state)"
proof -
  define legs where "legs = accrual_omnipool_legs env state reused"
  define X where "X = accrual_xyk_pools env state reused"
  define S where "S = accrual_stableswap_pools env state reused"
  let ?O = "if legs = [] then [] else [\<lparr>rq_assetIds = map (so_asset_id \<circ> snd) legs, rq_poolAccountHex = st_omnipool_account state\<rparr>]"
  let ?fx = "\<lambda>(index :: nat, pool). \<lparr>rq_assetIds = [sx_asset_a pool, sx_asset_b pool], rq_poolAccountHex = sx_pool_account pool\<rparr>"
  let ?fs = "\<lambda>(index :: nat, pool). \<lparr>rq_assetIds = ss_pool_assets pool, rq_poolAccountHex = stableswapPoolAccount env (ss_pool_id pool)\<rparr>"
  let ?n = "if legs = [] then 0 else 1 :: nat"
  define balances where "balances = map (leg_balances q) ?O @ map (leg_balances q \<circ> ?fx) X @ map (leg_balances q \<circ> ?fs) S"
  have requests: "accrual_requests env state reused = ?O @ map ?fx X @ map ?fs S"
    by (simp add: accrual_requests_def legs_def X_def S_def Let_def)
  have read: "(if accrual_requests env state reused = [] then Inr []
      else readErc20BalancesForHolders (env_keccak env) (env_registry env) (pb_evm b) (accrual_requests env state reused)) =
      (Inr balances :: string + int list list)"
    by (simp add: answers_batch [OF q] requests balances_def leg_balances_def comp_def)
  have atX: "balances ! (?n + j) = leg_balances q (?fx (X ! j))" if "j < length X" for j
    unfolding balances_def using that by (auto simp: nth_append)
  have atS: "balances ! (?n + length X + j) = leg_balances q (?fs (S ! j))" if "j < length S" for j
    unfolding balances_def using that by (auto simp: nth_append)
  have atO: "balances ! 0 ! i = ans_evm q (st_omnipool_account state) (so_asset_id (snd (legs ! i)))" if "i < length legs" for i
    unfolding balances_def using that by (auto simp: leg_balances_def)
  have omni: "accrued_omnipool balances legs (st_omnipool_assets state) =
      (if reused_omnipool reused then map (accrue_omni env q (st_omnipool_account state)) (st_omnipool_assets state)
       else st_omnipool_assets state)"
  proof (cases "reused_omnipool reused")
    case True
    then have legs: "legs = filter (\<lambda>(_, r). known_asset env r) (List.enumerate 0 (st_omnipool_assets state))"
      by (simp add: legs_def accrual_omnipool_legs_def known_asset_def)
    show ?thesis
      using accrued_omnipool_rows [of env "[]" "st_omnipool_assets state" balances 0] atO True
      by (simp add: accrued_omnipool_def legs)
  qed (simp add: legs_def accrual_omnipool_legs_def accrued_omnipool_def)
  have xyk: "map (\<lambda>(index, pool). accrued_xyk_pool env balances (request_index ?n X index) pool) (List.enumerate 0 (st_xyk_pools state)) =
      (if reused_xyk reused then map (accrue_xyk env q) (st_xyk_pools state) else st_xyk_pools state)"
  proof (cases "reused_xyk reused")
    case True
    have X: "X = filter (\<lambda>(i, p). isKnownErc20 (env_registry env) (sx_asset_a p) \<or> isKnownErc20 (env_registry env) (sx_asset_b p))
        (List.enumerate 0 (st_xyk_pools state))"
      using True by (simp add: X_def accrual_xyk_pools_def)
    have "accrued_xyk_pool env balances (request_index ?n X i) (st_xyk_pools state ! i) = accrue_xyk env q (st_xyk_pools state ! i)"
      if "i < length (st_xyk_pools state)" for i
      by (rule accrued_xyk_request [OF _ X that]) (simp add: atX case_prod_beta)
    then show ?thesis using True by (intro nth_equalityI) (auto simp: nth_enumerate_eq)
  next
    case False
    then have "X = []" by (simp add: X_def accrual_xyk_pools_def)
    then show ?thesis using False
      by (intro nth_equalityI) (auto simp: nth_enumerate_eq request_index_def accrued_xyk_pool_def)
  qed
  have stable: "map (\<lambda>(index, pool). accrued_stableswap_pool env (pb_height b) balances (request_index (?n + length X) S index) pool)
      (List.enumerate 0 (st_stableswap_pools state)) = map (accrue_stable env (pb_height b) q) (st_stableswap_pools state)"
    if "reused_stableswap reused"
  proof -
    have S: "S = filter (\<lambda>(i, p). list_ex (isKnownErc20 (env_registry env)) (ss_pool_assets p)) (List.enumerate 0 (st_stableswap_pools state))"
      using that by (simp add: S_def accrual_stableswap_pools_def)
    have "accrued_stableswap_pool env (pb_height b) balances (request_index (?n + length X) S i) (st_stableswap_pools state ! i) =
        accrue_stable env (pb_height b) q (st_stableswap_pools state ! i)"
      if "i < length (st_stableswap_pools state)" for i
      by (rule accrued_stable_request [OF _ S that]) (use that fits in \<open>simp_all add: atS case_prod_beta\<close>)
    then show ?thesis by (intro nth_equalityI) (auto simp: nth_enumerate_eq)
  qed
  show ?thesis
    unfolding refreshAccruingPoolFields_def legs_def [symmetric] X_def [symmetric] S_def [symmetric] Let_def read and_then_def sum.case
    using omni xyk stable by simp
qed

end
