(* ===== verification/Snapshot_Refresh.thy ===== *)
theory Snapshot_Refresh
  imports Pool_Answers Swap_Decoding Ingest_Policy
begin

text \<open>
  Which pool families the raw indexer reads again at a block, and the snapshot it carries to the next
  (\<^verbatim>\<open>src/raw/indexer.ts\<close>, the snapshot part of \<open>runRaw\<close>'s block loop).

  A block is its events and calls with the storages the modules read; what the asset registry gives for the block is part
  of it. An error leaves the loop, so the state after one is not modelled. Tracing and counters are left out.
\<close>

section \<open>A block and the loop's state\<close>

record raw_block =
  rb_height :: int
  rb_specVersion :: int
  rb_events :: "(string \<times> json) list"
  rb_calls :: "(string \<times> json) list"
  rb_storage :: pool_storage
  rb_pools :: pool_block
  rb_env :: snapshot_env
  rb_assetsChanged :: bool
  rb_assets :: "asset_metadata list"
  rb_atokenEquivalences :: "(int \<times> int) list"
  rb_lpEquivalences :: "(int \<times> int) list"

record snapshot_loop =
  compositionCache :: pool_cache
  currentState :: "snapshot_state option"
  previousSpecVersion :: "int option"
  upgradeMigrationPending :: bool
  pegStorageSeen :: bool

definition new_loop :: snapshot_loop where
  "new_loop =
     \<lparr>compositionCache = new_pool_cache, currentState = None, previousSpecVersion = None,
      upgradeMigrationPending = False, pegStorageSeen = False\<rparr>"

section \<open>Triggers\<close>

record refresh_flags =
  refreshFamilies :: "pool_family list"
  forceAllPoolFamilies :: bool

definition add_family :: "pool_family \<Rightarrow> refresh_flags \<Rightarrow> refresh_flags" where
  "add_family f flags = flags\<lparr>refreshFamilies := set_add f (refreshFamilies flags)\<rparr>"

definition force_all :: "refresh_flags \<Rightarrow> refresh_flags" where
  "force_all flags = flags\<lparr>forceAllPoolFamilies := True\<rparr>"

definition addSwapFamilies :: "string \<times> json \<Rightarrow> int \<Rightarrow> refresh_flags \<Rightarrow> refresh_flags" where
  "addSwapFamilies event specVersion flags =
     (let (name, args) = event in
      if \<not> isSwapEvent name (Some specVersion) then flags
      else if starts_with ''Omnipool.'' name then add_family OmnipoolFamily flags
      else if starts_with ''XYK.'' name then add_family XykFamily flags
      else if starts_with ''Stableswap.'' name then add_family StableswapFamily flags
      else if starts_with ''Broadcast.Swapped'' name then
        (let fillerKind = get_prop (get_prop args ''fillerType'') ''__kind''
         in if fillerKind = JStr ''Omnipool'' then add_family OmnipoolFamily flags
            else if fillerKind = JStr ''XYK'' then add_family XykFamily flags
            else if fillerKind = JStr ''Stableswap'' then add_family StableswapFamily flags
            else if is_nullish fillerKind then force_all flags else flags)
      else flags)"

record pool_accounts =
  pa_omnipool :: string
  pa_xyk :: "string list"
  pa_stableswap :: "string list"
  pa_shareIds :: "int list"

definition pool_accounts_of ::
  "snapshot_env \<Rightarrow> xyk_pool_entry list option \<Rightarrow> stableswap_pool_entry list option \<Rightarrow> pool_accounts" where
  "pool_accounts_of env xyk stableswap =
     \<lparr>pa_omnipool = omnipoolAccount env,
      pa_xyk = map poolAccount (or_else xyk []),
      pa_stableswap = map (\<lambda>p. stableswapPoolAccount env (sp_poolId p)) (or_else stableswap []),
      pa_shareIds = map sp_poolId (or_else stableswap [])\<rparr>"

text \<open>Every pool account is the Omnipool's, an XYK or a stableswap pool's, so the branch that forces all families for
  another pool account never runs and is left out.\<close>

definition account_trigger :: "pool_accounts \<Rightarrow> string \<Rightarrow> refresh_flags \<Rightarrow> refresh_flags" where
  "account_trigger accounts account flags =
     (if account = pa_omnipool accounts then add_family OmnipoolFamily flags
      else if account \<in> set (pa_xyk accounts) then add_family XykFamily flags
      else if account \<in> set (pa_stableswap accounts) then add_family StableswapFamily flags
      else flags)"

definition event_trigger :: "pool_accounts \<Rightarrow> int \<Rightarrow> string \<times> json \<Rightarrow> refresh_flags \<Rightarrow> refresh_flags" where
  "event_trigger accounts specVersion event flags =
     (let flags = fold (account_trigger accounts) (eventAccounts event) flags;
          flags = (case eventCurrencyId event of None \<Rightarrow> flags
                   | Some currencyId \<Rightarrow>
                       if currencyId \<in> set (pa_shareIds accounts) then add_family StableswapFamily flags else flags);
          flags = (case poolPalletEventFamily event of None \<Rightarrow> flags | Some f \<Rightarrow> add_family f flags)
      in addSwapFamilies event specVersion flags)"

definition changed_families :: "pool_changes \<Rightarrow> pool_family list" where
  "changed_families ch =
     (if omnipoolChanged ch then [OmnipoolFamily] else []) @ (if xykChanged ch then [XykFamily] else [])
     @ (if stableswapChanged ch then [StableswapFamily] else [])"

record refresh_plan =
  rp_cache :: pool_cache
  rp_omnipool :: "int list option"
  rp_xyk :: "xyk_pool_entry list option"
  rp_stableswap :: "stableswap_pool_entry list option"
  rp_flags :: refresh_flags

text \<open>Up to the reads: the cache kept up to date, its pools, and the families to read.\<close>

definition plan_refresh :: "raw_block \<Rightarrow> snapshot_loop \<Rightarrow> string + refresh_plan" where
  "plan_refresh block st =
     (let specChanged = previousSpecVersion st \<noteq> None \<and> previousSpecVersion st \<noteq> Some (rb_specVersion block);
          cache = (if specChanged then invalidateAll (compositionCache st) else compositionCache st)
      in case Pool_Cache.processEvents (rb_events block) cache of
           (Inl e, _) \<Rightarrow> Inl e
         | (Inr ch, cache) \<Rightarrow>
            (let force = currentState st = None \<or> specChanged \<or> upgradeMigrationPending st
                         \<or> isMvSnapshotGridHeight (rb_height block)
             in case detectPoolAffectingSetStorage (poolStoragePrefixes (rb_env block)) (rb_calls block) of
                  None \<Rightarrow> Inl ''System.set_storage items''
                | Some setStorage \<Rightarrow>
                   (let cache = (if setStorage then invalidateAll cache else cache);
                        ((omnipool, xyk, stableswap), cache) = read_pools (rb_storage block) cache
                    in and_then omnipool (\<lambda>omnipool. and_then xyk (\<lambda>xyk. and_then stableswap (\<lambda>stableswap.
                         (let accounts = pool_accounts_of (rb_env block) xyk stableswap
                          in Inr \<lparr>rp_cache = cache, rp_omnipool = omnipool, rp_xyk = xyk, rp_stableswap = stableswap,
                                  rp_flags = fold (event_trigger accounts (rb_specVersion block)) (rb_events block)
                                    \<lparr>refreshFamilies = changed_families ch, forceAllPoolFamilies = force \<or> setStorage\<rparr>\<rparr>)))))))"

definition refreshes :: "pool_family \<Rightarrow> refresh_plan \<Rightarrow> bool" where
  "refreshes f plan \<longleftrightarrow> forceAllPoolFamilies (rp_flags plan) \<or> f \<in> set (refreshFamilies (rp_flags plan))"

section \<open>The block\<close>

text \<open>A family that is read again and exists is read, any other keeps what the state has.\<close>

definition read_family :: "bool \<Rightarrow> 'p list option \<Rightarrow> ('p list \<Rightarrow> string + 'r list) \<Rightarrow> 'r list \<Rightarrow> string + 'r list" where
  "read_family refresh pools read kept =
     (case pools of Some ps \<Rightarrow> if refresh then read ps else Inr kept | None \<Rightarrow> Inr kept)"

definition read_state :: "raw_block \<Rightarrow> snapshot_loop \<Rightarrow> refresh_plan \<Rightarrow> string + snapshot_state option \<times> bool" where
  "read_state block st plan =
     (let env = rb_env block; pools = rb_pools block; kept = currentState st;
          omnipool = refreshes OmnipoolFamily plan; xyk = refreshes XykFamily plan; stableswap = refreshes StableswapFamily plan
      in if omnipool \<or> xyk \<or> stableswap then
           and_then (read_family omnipool (rp_omnipool plan) (readOmnipoolState env pools)
                      (or_else (map_option st_omnipool_assets kept) [])) (\<lambda>omnipoolRows.
           and_then (read_family xyk (rp_xyk plan) (readXYKState env pools)
                      (or_else (map_option st_xyk_pools kept) [])) (\<lambda>xykRows.
             (let (stableswapRows, seen) =
                    (case rp_stableswap plan of
                       Some ps \<Rightarrow> if stableswap then readStableswapState env pools ps (pegStorageSeen st)
                                  else (Inr (or_else (map_option st_stableswap_pools kept) []), pegStorageSeen st)
                     | None \<Rightarrow> (Inr (or_else (map_option st_stableswap_pools kept) []), pegStorageSeen st))
              in and_then stableswapRows (\<lambda>stableswapRows.
                   Inr (Some (buildSnapshotState env (rb_assets block) (rb_atokenEquivalences block)
                          (rb_lpEquivalences block) omnipoolRows xykRows stableswapRows), seen)))))
         else
           Inr (if rb_assetsChanged block
                then map_option (\<lambda>s. s\<lparr>st_assets := rb_assets block,
                       st_atoken_equivalences := sort_cmp cmp_pair (rb_atokenEquivalences block),
                       st_lp_equivalences := sort_cmp cmp_pair (rb_lpEquivalences block)\<rparr>) kept
                else kept, pegStorageSeen st))"

definition accrue_state :: "raw_block \<Rightarrow> refresh_plan \<Rightarrow> snapshot_state \<Rightarrow> string + snapshot_state" where
  "accrue_state block plan state =
     (let reused = \<lparr>reused_omnipool = \<not> refreshes OmnipoolFamily plan, reused_xyk = \<not> refreshes XykFamily plan,
                    reused_stableswap = \<not> refreshes StableswapFamily plan\<rparr>
      in if reused_omnipool reused \<or> reused_xyk reused \<or> reused_stableswap reused
         then map_sum id (\<lambda>(omnipool, xyk, stableswap).
                state\<lparr>st_omnipool_assets := omnipool, st_xyk_pools := xyk, st_stableswap_pools := stableswap\<rparr>)
                (refreshAccruingPoolFields (rb_env block) (rb_pools block) state reused)
         else Inr state)"

definition snapshot_block :: "raw_block \<Rightarrow> snapshot_loop \<Rightarrow> string + snapshot_loop" where
  "snapshot_block block st =
     and_then (plan_refresh block st) (\<lambda>plan.
     and_then (read_state block st plan) (\<lambda>(state, seen).
       (case state of
          None \<Rightarrow> Inl (''Snapshot state not initialized at block '' @ int_to_string (rb_height block))
        | Some state \<Rightarrow>
            and_then (accrue_state block plan state) (\<lambda>state.
              Inr \<lparr>compositionCache = rp_cache plan, currentState = Some state,
                   previousSpecVersion = Some (rb_specVersion block),
                   upgradeMigrationPending =
                     (previousSpecVersion st \<noteq> None \<and> previousSpecVersion st \<noteq> Some (rb_specVersion block)),
                   pegStorageSeen = seen\<rparr>))))"

section \<open>What a quiet family keeps\<close>

lemma sort_cmp_map:
  "(\<And>x y. cmp (g x) (g y) = cmp x y) \<Longrightarrow> sort_cmp cmp (map g xs) = map g (sort_cmp cmp xs)"
proof -
  assume g: "\<And>x y. cmp (g x) (g y) = cmp x y"
  have "insert_cmp cmp (g x) (map g ys) = map g (insert_cmp cmp x ys)" for x ys
    by (induction ys) (auto simp: g)
  then show ?thesis by (induction xs) auto
qed

text \<open>An ERC-20 leg read once stays readable; any other leg, and everything else the reads use, stands still.\<close>

definition quiet_leg :: "snapshot_env \<Rightarrow> pool_answers \<Rightarrow> snapshot_env \<Rightarrow> pool_answers \<Rightarrow> string \<Rightarrow> int \<Rightarrow> bool" where
  "quiet_leg env0 q0 env1 q1 account a \<longleftrightarrow>
     isKnownErc20 (env_registry env1) a = isKnownErc20 (env_registry env0) a
     \<and> (isKnownErc20 (env_registry env1) a \<and> ans_evm q1 account a \<le> 0 \<longrightarrow> ans_evm q0 account a \<le> 0)"

definition quiet_omnipool :: "snapshot_env \<Rightarrow> pool_answers \<Rightarrow> snapshot_env \<Rightarrow> pool_answers \<Rightarrow> int list \<Rightarrow> bool" where
  "quiet_omnipool env0 q0 env1 q1 ids \<longleftrightarrow>
     (\<forall>a \<in> set ids. quiet_leg env0 q0 env1 q1 (omnipoolAccount env1) a \<and> ans_state q1 a = ans_state q0 a
        \<and> ans_free q1 (omnipoolAccount env1, a) = ans_free q0 (omnipoolAccount env1, a))
     \<and> ans_native q1 (omnipoolAccount env1) = ans_native q0 (omnipoolAccount env1)"

text \<open>An ERC-20 leg of an XYK or stableswap pool has no balance of its own pallet.\<close>

definition quiet_xyk :: "snapshot_env \<Rightarrow> pool_answers \<Rightarrow> snapshot_env \<Rightarrow> pool_answers \<Rightarrow> xyk_pool_entry list \<Rightarrow> bool" where
  "quiet_xyk env0 q0 env1 q1 pools \<longleftrightarrow>
     (\<forall>p \<in> set pools. \<forall>a \<in> {xyk_assetA p, xyk_assetB p}.
        quiet_leg env0 q0 env1 q1 (poolAccount p) a
        \<and> side_base q1 (poolAccount p) a = side_base q0 (poolAccount p) a
        \<and> (isKnownErc20 (env_registry env1) a \<longrightarrow> side_base q1 (poolAccount p) a = 0))"

definition quiet_stableswap ::
  "snapshot_env \<Rightarrow> pool_answers \<Rightarrow> snapshot_env \<Rightarrow> pool_answers \<Rightarrow> stableswap_pool_entry list \<Rightarrow> bool" where
  "quiet_stableswap env0 q0 env1 q1 pools \<longleftrightarrow>
     (\<forall>p \<in> set pools.
        ans_info q1 (sp_poolId p) = ans_info q0 (sp_poolId p)
        \<and> ans_issuance q1 (sp_poolId p) = ans_issuance q0 (sp_poolId p)
        \<and> ans_pegs q1 (sp_poolId p) = ans_pegs q0 (sp_poolId p)
        \<and> (\<forall>a \<in> set (sp_assets p). let account = stableswapPoolAccount env1 (sp_poolId p) in
             quiet_leg env0 q0 env1 q1 account a
             \<and> positive_or_zero (ans_free q1 (account, a)) = positive_or_zero (ans_free q0 (account, a))
             \<and> (isKnownErc20 (env_registry env1) a \<longrightarrow> positive_or_zero (ans_free q1 (account, a)) = 0)))"

definition same_accounts :: "snapshot_env \<Rightarrow> snapshot_env \<Rightarrow> bool" where
  "same_accounts env0 env1 \<longleftrightarrow>
     omnipoolAccount env1 = omnipoolAccount env0 \<and> stableswapPoolAccount env1 = stableswapPoolAccount env0
     \<and> localeCompare env1 = localeCompare env0"

lemma accrued_omni_rows:
  assumes quiet: "quiet_omnipool env0 q0 env1 q1 ids" and "same_accounts env0 env1"
  shows "map (accrue_omni env1 q1 (omnipoolAccount env1)) (omni_rows env0 q0 ids) = omni_rows env1 q1 ids"
proof -
  let ?acc = "omnipoolAccount env1"
  have row: "accrue_omni env1 q1 ?acc (omni_row env0 q0 a s) = omni_row env1 q1 a s" if "a \<in> set ids" for a s
    using that assms
    by (auto simp: quiet_omnipool_def quiet_leg_def same_accounts_def accrue_omni_def known_asset_def omni_row_def
        omni_base_def reserve_with_def)
  have "set ids' \<subseteq> set ids \<Longrightarrow>
      map (accrue_omni env1 q1 ?acc) (omni_rows env0 q0 ids') = omni_rows env1 q1 ids'" for ids'
  proof (induction ids')
    case (Cons a ids')
    then have a: "a \<in> set ids" by auto
    have "ans_state q1 a = ans_state q0 a" using quiet a by (simp add: quiet_omnipool_def)
    then show ?case
      using Cons row [OF a] by (cases "ans_state q0 a") (auto simp: omni_rows_def map_filter_simps)
  qed (simp add: omni_rows_def map_filter_simps)
  then show ?thesis by simp
qed

lemma fill_accrues:
  assumes "answers env0 b0 q0" "answers env1 b1 q1" "quiet_leg env0 q0 env1 q1 account a"
    and "isKnownErc20 (env_registry env1) a \<longrightarrow> base = 0"
  shows "accrue_text env1 q1 account a (int_to_string (fill_side base (ans_evm q0 account a))) =
    int_to_string (fill_side base (ans_evm q1 account a))"
proof (cases "isKnownErc20 (env_registry env1) a")
  case False
  then have "ans_evm q0 account a = 0" "ans_evm q1 account a = 0"
    using answers_unknown assms(1-3) by (auto simp: quiet_leg_def)
  then show ?thesis using False by (simp add: accrue_text_def)
qed (use assms in \<open>auto simp: quiet_leg_def accrue_text_def fill_side_def\<close>)

lemma accrued_xyk_rows:
  assumes "answers env0 b0 q0" "answers env1 b1 q1" "quiet_xyk env0 q0 env1 q1 pools"
  shows "map (accrue_xyk env1 q1) (map (\<lambda>p. xyk_row p (xyk_filled q0 p)) pools) = map (\<lambda>p. xyk_row p (xyk_filled q1 p)) pools"
  using assms(3) fill_accrues [OF assms(1,2)]
  by (auto simp: quiet_xyk_def accrue_xyk_def xyk_row_def xyk_filled_def xyk_base_def)

lemma accrued_stable_row:
  assumes "answers env0 b0 q0" "answers env1 b1 q1" "quiet_stableswap env0 q0 env1 q1 pools" "same_accounts env0 env1"
    and "p \<in> set pools"
  shows "accrue_stable env1 h1 q1 (stable_row env0 h0 q0 p) = stable_row env1 h1 q1 p"
proof -
  let ?acc = "stableswapPoolAccount env1 (sp_poolId p)"
  have same: "stableswapPoolAccount env0 = stableswapPoolAccount env1" using assms(4) by (simp add: same_accounts_def)
  have quiet: "ans_info q1 (sp_poolId p) = ans_info q0 (sp_poolId p)" "ans_issuance q1 (sp_poolId p) = ans_issuance q0 (sp_poolId p)"
      "ans_pegs q1 (sp_poolId p) = ans_pegs q0 (sp_poolId p)"
    and legs: "\<And>a. a \<in> set (sp_assets p) \<Longrightarrow> quiet_leg env0 q0 env1 q1 ?acc a
      \<and> positive_or_zero (ans_free q1 (?acc, a)) = positive_or_zero (ans_free q0 (?acc, a))
      \<and> (isKnownErc20 (env_registry env1) a \<longrightarrow> positive_or_zero (ans_free q1 (?acc, a)) = 0)"
    using assms(3,5) unfolding quiet_stableswap_def Let_def by blast+
  have stored: "stored_pool q0 p = stored_pool q1 p" using quiet(1) by (simp add: stored_pool_def)
  have "map (\<lambda>(i, reserve). accrue_text env1 q1 ?acc (sp_assets p ! i) reserve)
      (List.enumerate 0 (map int_to_string (stable_reserves env0 q0 p))) = map int_to_string (stable_reserves env1 q1 p)"
  proof (rule nth_equalityI)
    fix i assume "i < length (map (\<lambda>(i, reserve). accrue_text env1 q1 ?acc (sp_assets p ! i) reserve)
      (List.enumerate 0 (map int_to_string (stable_reserves env0 q0 p))))"
    then have i: "i < length (sp_assets p)" by (simp add: stable_reserves_def)
    let ?a = "sp_assets p ! i"
    have "accrue_text env1 q1 ?acc ?a (int_to_string (fill_side (positive_or_zero (ans_free q0 (?acc, ?a))) (ans_evm q0 ?acc ?a))) =
        int_to_string (fill_side (positive_or_zero (ans_free q0 (?acc, ?a))) (ans_evm q1 ?acc ?a))"
      using legs [of ?a] i by (intro fill_accrues [OF assms(1,2)]) auto
    then show "map (\<lambda>(i, reserve). accrue_text env1 q1 ?acc (sp_assets p ! i) reserve)
        (List.enumerate 0 (map int_to_string (stable_reserves env0 q0 p))) ! i = map int_to_string (stable_reserves env1 q1 p) ! i"
      using i legs [of ?a] by (simp add: nth_enumerate_eq stable_reserves_def same)
  qed (simp add: stable_reserves_def)
  then show ?thesis
    by (simp add: accrue_stable_def stable_row_def stableswap_row_def stored quiet)
qed

section \<open>The plan\<close>

lemma process_event_unchanged:
  assumes "process_event ev ch c = (Inr ch', c')"
  shows "(omnipoolChanged ch \<longrightarrow> omnipoolChanged ch') \<and> (xykChanged ch \<longrightarrow> xykChanged ch')
    \<and> (stableswapChanged ch \<longrightarrow> stableswapChanged ch')
    \<and> (omnipoolChanged ch' \<or> omnipoolAssets c' = omnipoolAssets c) \<and> (xykChanged ch' \<or> xykPools c' = xykPools c)
    \<and> (stableswapChanged ch' \<or> stableswapPools c' = stableswapPools c)"
proof -
  obtain name args where ev: "ev = (name, args)" by fastforce
  have "token_added name args ch c = (Inr ch', c') \<or> token_removed name args ch c = (Inr ch', c')
      \<Longrightarrow> omnipoolChanged ch' \<and> xykChanged ch' = xykChanged ch \<and> stableswapChanged ch' = stableswapChanged ch
        \<and> xykPools c' = xykPools c \<and> stableswapPools c' = stableswapPools c"
    by (auto simp: token_added_def token_removed_def split: sum.splits)
  moreover have "xyk_pool_created name args ch c = (Inr ch', c') \<or> xyk_pool_destroyed name args ch c = (Inr ch', c')
      \<Longrightarrow> xykChanged ch' \<and> omnipoolChanged ch' = omnipoolChanged ch \<and> stableswapChanged ch' = stableswapChanged ch
        \<and> omnipoolAssets c' = omnipoolAssets c \<and> stableswapPools c' = stableswapPools c"
    by (auto simp: xyk_pool_created_def xyk_pool_destroyed_def Let_def split: sum.splits option.splits prod.splits)
  moreover have "stableswap_pool_created name args ch c = (Inr ch', c') \<or> stableswap_pool_updated as name args ch c = (Inr ch', c')
      \<Longrightarrow> stableswapChanged ch' \<and> omnipoolChanged ch' = omnipoolChanged ch \<and> xykChanged ch' = xykChanged ch
        \<and> omnipoolAssets c' = omnipoolAssets c \<and> xykPools c' = xykPools c" for as
    by (auto simp: stableswap_pool_created_def stableswap_pool_updated_def Let_def split: sum.splits option.splits prod.splits)
  ultimately show ?thesis
    using assms unfolding ev process_event_def Let_def split_conv by (smt (verit) Inr_inject Pair_inject)
qed

lemma event_loop_unchanged:
  assumes "event_loop events ch c = (Inr ch', c')"
  shows "(omnipoolChanged ch \<longrightarrow> omnipoolChanged ch') \<and> (xykChanged ch \<longrightarrow> xykChanged ch')
    \<and> (stableswapChanged ch \<longrightarrow> stableswapChanged ch')
    \<and> (omnipoolChanged ch' \<or> omnipoolAssets c' = omnipoolAssets c) \<and> (xykChanged ch' \<or> xykPools c' = xykPools c)
    \<and> (stableswapChanged ch' \<or> stableswapPools c' = stableswapPools c)"
  using assms
proof (induction events arbitrary: ch c)
  case (Cons ev events)
  obtain ch1 c1 where 1: "process_event ev ch c = (Inr ch1, c1)" "event_loop events ch1 c1 = (Inr ch', c')"
    using Cons.prems by (auto split: prod.splits sum.splits)
  show ?case using process_event_unchanged [OF 1(1)] Cons.IH [OF 1(2)] by auto
qed simp

text \<open>Triggers only add.\<close>

definition flags_le :: "refresh_flags \<Rightarrow> refresh_flags \<Rightarrow> bool" where
  "flags_le f g \<longleftrightarrow> set (refreshFamilies f) \<subseteq> set (refreshFamilies g) \<and> (forceAllPoolFamilies f \<longrightarrow> forceAllPoolFamilies g)"

lemma flags_le_steps [simp, intro]:
  "flags_le f f" "flags_le f g \<Longrightarrow> flags_le f (add_family x g)" "flags_le f g \<Longrightarrow> flags_le f (force_all g)"
  by (auto simp: flags_le_def add_family_def force_all_def)

lemma flags_le_fold: "(\<And>x g. flags_le f g \<Longrightarrow> flags_le f (t x g)) \<Longrightarrow> flags_le f g \<Longrightarrow> flags_le f (fold t xs g)"
  by (induction xs arbitrary: g) auto

lemma event_trigger_adds: "flags_le f g \<Longrightarrow> flags_le f (event_trigger accounts spec ev g)"
proof -
  assume "flags_le f g"
  then have 1: "flags_le f (fold (account_trigger accounts) (eventAccounts ev) g)"
    by (rule flags_le_fold [rotated]) (simp add: account_trigger_def)
  have swap: "flags_le f h \<Longrightarrow> flags_le f (addSwapFamilies ev spec h)" for h
    by (cases ev) (simp add: addSwapFamilies_def Let_def)
  show ?thesis unfolding event_trigger_def Let_def
    by (rule swap) (simp add: 1 split: option.split)
qed

text \<open>Reading readable storages returns the cache's pools; a family that was there stays as it is.\<close>

lemma read_pools_readable:
  assumes sto: "storage_readable sto" "storage_keys_ok sto" "storage_typed sto" and ok: "pool_cache_ok c"
    and read: "read_pools sto c = ((omnipool, xyk, stableswap), c')"
  shows "pool_cache_ok c'" "warm c'"
    "omnipool = Inr (omnipoolAssets c')" "xyk = Inr (xykPools c')" "stableswap = Inr (stableswapPools c')"
    "omnipoolAssets c \<noteq> None \<longrightarrow> omnipoolAssets c' = omnipoolAssets c"
    "xykPools c \<noteq> None \<longrightarrow> xykPools c' = xykPools c"
    "stableswapPools c \<noteq> None \<longrightarrow> stableswapPools c' = stableswapPools c"
proof -
  obtain c1 c2 where g: "getOmnipoolAssets sto c = (omnipool, c1)" "getXYKPools sto c1 = (xyk, c2)"
    "getStableswapPools sto c2 = (stableswap, c')"
    using read by (auto simp: read_pools_def Let_def split: prod.splits)
  have ok1: "pool_cache_ok c1" using ok_reads(1) [OF ok sto(2,3)] g(1) by simp
  have ok2: "pool_cache_ok c2" using ok_reads(2) [OF ok1 sto(2,3)] g(2) by simp
  show ok3: "pool_cache_ok c'" using ok_reads(3) [OF ok2 sto(2,3)] g(3) by simp
  have 1: "omnipoolBootstrapped c1" "xykPools c1 = xykPools c" "stableswapPools c1 = stableswapPools c"
    "omnipool = Inr (omnipoolAssets c1)" "omnipoolBootstrapped c \<longrightarrow> omnipoolAssets c1 = omnipoolAssets c"
    using sto(1) g(1) by (auto simp: getOmnipoolAssets_def storage_readable_def Let_def split: if_splits sum.splits)
  have 2: "xykBootstrapped c2" "omnipoolBootstrapped c2 = omnipoolBootstrapped c1" "omnipoolAssets c2 = omnipoolAssets c1"
    "stableswapPools c2 = stableswapPools c1" "xyk = Inr (xykPools c2)" "xykBootstrapped c1 \<longrightarrow> xykPools c2 = xykPools c1"
    using sto(1) g(2) by (auto simp: getXYKPools_def storage_readable_def Let_def split: if_splits sum.splits)
  have 3: "stableswapBootstrapped c'" "omnipoolBootstrapped c' = omnipoolBootstrapped c2" "omnipoolAssets c' = omnipoolAssets c2"
    "xykBootstrapped c' = xykBootstrapped c2" "xykPools c' = xykPools c2" "stableswap = Inr (stableswapPools c')"
    "stableswapBootstrapped c2 \<longrightarrow> stableswapPools c' = stableswapPools c2"
    using sto(1) g(3) by (auto simp: getStableswapPools_def storage_readable_def Let_def split: if_splits sum.splits)
  have known: "omnipoolBootstrapped d \<longleftrightarrow> omnipoolAssets d \<noteq> None" "xykBootstrapped d \<longleftrightarrow> xykPools d \<noteq> None"
    "stableswapBootstrapped d \<longleftrightarrow> stableswapPools d \<noteq> None" if "pool_cache_ok d" for d
    using that by (simp_all add: pool_cache_ok_def)
  show "warm c'" using 1 2 3 known [OF ok3] by (simp add: warm_def)
  show "omnipool = Inr (omnipoolAssets c')" "xyk = Inr (xykPools c')" "stableswap = Inr (stableswapPools c')"
    using 1 2 3 by simp_all
  show "omnipoolAssets c \<noteq> None \<longrightarrow> omnipoolAssets c' = omnipoolAssets c" "xykPools c \<noteq> None \<longrightarrow> xykPools c' = xykPools c"
    "stableswapPools c \<noteq> None \<longrightarrow> stableswapPools c' = stableswapPools c"
    using 1 2 3 known [OF ok] known [OF ok1] known [OF ok2] by simp_all
qed

definition block_ok :: "raw_block \<Rightarrow> pool_answers \<Rightarrow> bool" where
  "block_ok block q \<longleftrightarrow>
     storage_readable (rb_storage block) \<and> storage_keys_ok (rb_storage block) \<and> storage_typed (rb_storage block)
     \<and> answers (rb_env block) (rb_pools block) q \<and> js_comparator (localeCompare (rb_env block))"

text \<open>The pools a plan names are the cache's, and those of a quiet family were the cache's before the block.\<close>

lemma plan_pools:
  assumes plan: "plan_refresh block st = Inr plan" and block: "block_ok block q" and ok: "pool_cache_ok (compositionCache st)"
  shows "pool_cache_ok (rp_cache plan)" "warm (rp_cache plan)"
    "rp_omnipool plan = omnipoolAssets (rp_cache plan)" "rp_xyk plan = xykPools (rp_cache plan)"
    "rp_stableswap plan = stableswapPools (rp_cache plan)"
    "\<not> refreshes f plan \<Longrightarrow> currentState st \<noteq> None"
    "\<not> refreshes OmnipoolFamily plan \<Longrightarrow> omnipoolAssets (compositionCache st) \<noteq> None
      \<Longrightarrow> omnipoolAssets (rp_cache plan) = omnipoolAssets (compositionCache st)"
    "\<not> refreshes XykFamily plan \<Longrightarrow> xykPools (compositionCache st) \<noteq> None
      \<Longrightarrow> xykPools (rp_cache plan) = xykPools (compositionCache st)"
    "\<not> refreshes StableswapFamily plan \<Longrightarrow> stableswapPools (compositionCache st) \<noteq> None
      \<Longrightarrow> stableswapPools (rp_cache plan) = stableswapPools (compositionCache st)"
proof -
  let ?spec = "previousSpecVersion st \<noteq> None \<and> previousSpecVersion st \<noteq> Some (rb_specVersion block)"
  let ?c0 = "if ?spec then invalidateAll (compositionCache st) else compositionCache st"
  let ?force = "currentState st = None \<or> ?spec \<or> upgradeMigrationPending st \<or> isMvSnapshotGridHeight (rb_height block)"
  obtain ch c1 where events: "Pool_Cache.processEvents (rb_events block) ?c0 = (Inr ch, c1)"
    using plan by (auto simp: plan_refresh_def Let_def split: prod.splits sum.splits)
  obtain setStorage where set: "detectPoolAffectingSetStorage (poolStoragePrefixes (rb_env block)) (rb_calls block) = Some setStorage"
    using plan events by (auto simp: plan_refresh_def Let_def split: option.splits)
  let ?c2 = "if setStorage then invalidateAll c1 else c1"
  obtain omnipool xyk stableswap c3 where read: "read_pools (rb_storage block) ?c2 = ((omnipool, xyk, stableswap), c3)"
    by (metis surj_pair)
  have ok0: "pool_cache_ok ?c0" using ok ok_step [OF runtime_upgrade ok] by simp
  have ok1: "pool_cache_ok c1"
    using ok_step [OF block_events ok0, of "rb_events block"] events by simp
  have ok2: "pool_cache_ok ?c2" using ok1 ok_step [OF runtime_upgrade ok1] by simp
  note r = read_pools_readable [OF _ _ _ ok2 read]
  have sto: "storage_readable (rb_storage block)" "storage_keys_ok (rb_storage block)" "storage_typed (rb_storage block)"
    using block by (simp_all add: block_ok_def)
  let ?accounts = "pool_accounts_of (rb_env block) (xykPools c3) (stableswapPools c3)"
  let ?start = "\<lparr>refreshFamilies = changed_families ch, forceAllPoolFamilies = ?force \<or> setStorage\<rparr>"
  define flags where "flags = fold (event_trigger ?accounts (rb_specVersion block)) (rb_events block) ?start"
  have p: "plan = \<lparr>rp_cache = c3, rp_omnipool = omnipoolAssets c3, rp_xyk = xykPools c3, rp_stableswap = stableswapPools c3,
      rp_flags = flags\<rparr>"
    using plan r(3,4,5) [OF sto]
    by (simp add: plan_refresh_def Let_def events [simplified] set read [simplified] and_then_def flags_def)
  show "pool_cache_ok (rp_cache plan)" "warm (rp_cache plan)" "rp_omnipool plan = omnipoolAssets (rp_cache plan)"
    "rp_xyk plan = xykPools (rp_cache plan)" "rp_stableswap plan = stableswapPools (rp_cache plan)"
    using r(1,2) [OF sto] by (simp_all add: p)
  have le: "flags_le ?start flags" unfolding flags_def by (rule flags_le_fold [OF event_trigger_adds]) simp_all
  have quiet: "\<not> ?force \<and> \<not> setStorage \<and> f \<notin> set (changed_families ch)" if "\<not> refreshes f plan" for f
    using that le by (auto simp: refreshes_def p flags_le_def simp del: de_Morgan_disj)
  show "currentState st \<noteq> None" if "\<not> refreshes f plan" using quiet [OF that] by simp
  have run: "event_loop (rb_events block) no_changes ?c0 = (Inr ch, c1)" using events by (simp add: Pool_Cache.processEvents_def)
  note same = event_loop_unchanged [OF run]
  show "omnipoolAssets (rp_cache plan) = omnipoolAssets (compositionCache st)"
    if "\<not> refreshes OmnipoolFamily plan" "omnipoolAssets (compositionCache st) \<noteq> None"
    using quiet [OF that(1)] that(2) same r(6) [OF sto] by (auto simp: p changed_families_def split: if_splits)
  show "xykPools (rp_cache plan) = xykPools (compositionCache st)"
    if "\<not> refreshes XykFamily plan" "xykPools (compositionCache st) \<noteq> None"
    using quiet [OF that(1)] that(2) same r(7) [OF sto] by (auto simp: p changed_families_def split: if_splits)
  show "stableswapPools (rp_cache plan) = stableswapPools (compositionCache st)"
    if "\<not> refreshes StableswapFamily plan" "stableswapPools (compositionCache st) \<noteq> None"
    using quiet [OF that(1)] that(2) same r(8) [OF sto] by (auto simp: p changed_families_def split: if_splits)
qed

section \<open>The carried state\<close>

text \<open>The families of a state are what whole reads of the block give, in the state's order.\<close>

definition fresh_omnipool :: "snapshot_env \<Rightarrow> pool_answers \<Rightarrow> int list \<Rightarrow> snapshot_omnipool_asset list" where
  "fresh_omnipool env q ids = sort_cmp (cmp_by so_asset_id) (sort_cmp (cmp_by so_asset_id) (omni_rows env q ids))"

definition fresh_xyk :: "snapshot_env \<Rightarrow> pool_answers \<Rightarrow> xyk_pool_entry list \<Rightarrow> snapshot_xyk_pool list" where
  "fresh_xyk env q pools =
     sort_cmp (\<lambda>a b. localeCompare env (sx_pool_account a) (sx_pool_account b)) (map (\<lambda>p. xyk_row p (xyk_filled q p)) pools)"

definition fresh_stableswap :: "snapshot_env \<Rightarrow> int \<Rightarrow> pool_answers \<Rightarrow> stableswap_pool_entry list \<Rightarrow> snapshot_stableswap_pool list" where
  "fresh_stableswap env height q pools =
     sort_cmp (cmp_by ss_pool_id) (sort_cmp (cmp_by ss_pool_id) (map (stable_row env height q) pools))"

definition fresh_state :: "raw_block \<Rightarrow> pool_answers \<Rightarrow> pool_cache \<Rightarrow> snapshot_state \<Rightarrow> bool" where
  "fresh_state block q c s \<longleftrightarrow>
     st_omnipool_account s = omnipoolAccount (rb_env block)
     \<and> st_omnipool_assets s = fresh_omnipool (rb_env block) q (the (omnipoolAssets c))
     \<and> st_xyk_pools s = fresh_xyk (rb_env block) q (the (xykPools c))
     \<and> st_stableswap_pools s = fresh_stableswap (rb_env block) (pb_height (rb_pools block)) q (the (stableswapPools c))"

text \<open>From one block to the next: the accounts of the pools are the same, and what no trigger announces stands still.\<close>

definition carries :: "raw_block \<Rightarrow> pool_answers \<Rightarrow> raw_block \<Rightarrow> pool_answers \<Rightarrow> refresh_plan \<Rightarrow> bool" where
  "carries block0 q0 block q plan \<longleftrightarrow>
     same_accounts (rb_env block0) (rb_env block)
     \<and> (refreshes OmnipoolFamily plan \<or> quiet_omnipool (rb_env block0) q0 (rb_env block) q (the (rp_omnipool plan)))
     \<and> (refreshes XykFamily plan \<or> quiet_xyk (rb_env block0) q0 (rb_env block) q (the (rp_xyk plan)))
     \<and> (refreshes StableswapFamily plan \<or> quiet_stableswap (rb_env block0) q0 (rb_env block) q (the (rp_stableswap plan)))"

inductive snapshot_run :: "raw_block \<Rightarrow> pool_answers \<Rightarrow> snapshot_loop \<Rightarrow> bool" where
  first_block:
    "block_ok block q \<Longrightarrow> snapshot_block block new_loop = Inr st \<Longrightarrow> snapshot_run block q st"
| next_block:
    "snapshot_run block0 q0 st \<Longrightarrow> block_ok block q \<Longrightarrow> plan_refresh block st = Inr plan
     \<Longrightarrow> carries block0 q0 block q plan \<Longrightarrow> snapshot_block block st = Inr st' \<Longrightarrow> snapshot_run block q st'"

lemma accrue_keys [simp]:
  "so_asset_id (accrue_omni env q acc r) = so_asset_id r" "sx_pool_account (accrue_xyk env q p) = sx_pool_account p"
  "ss_pool_id (accrue_stable env h q s) = ss_pool_id s"
  by (simp_all add: accrue_omni_def accrue_xyk_def accrue_stable_def)

lemma fresh_omnipool_accrues:
  "quiet_omnipool env0 q0 env1 q1 ids \<Longrightarrow> same_accounts env0 env1 \<Longrightarrow>
   map (accrue_omni env1 q1 (omnipoolAccount env1)) (fresh_omnipool env0 q0 ids) = fresh_omnipool env1 q1 ids"
  by (simp add: fresh_omnipool_def accrued_omni_rows [symmetric] sort_cmp_map cmp_by_def)

lemma fresh_xyk_accrues:
  "answers env0 b0 q0 \<Longrightarrow> answers env1 b1 q1 \<Longrightarrow> quiet_xyk env0 q0 env1 q1 pools \<Longrightarrow> same_accounts env0 env1 \<Longrightarrow>
   map (accrue_xyk env1 q1) (fresh_xyk env0 q0 pools) = fresh_xyk env1 q1 pools"
  unfolding fresh_xyk_def
  by (simp add: accrued_xyk_rows [symmetric] sort_cmp_map same_accounts_def del: map_map)

lemma fresh_stableswap_accrues:
  assumes "answers env0 b0 q0" "answers env1 b1 q1" "quiet_stableswap env0 q0 env1 q1 pools" "same_accounts env0 env1"
  shows "map (accrue_stable env1 h1 q1) (fresh_stableswap env0 h0 q0 pools) = fresh_stableswap env1 h1 q1 pools"
proof -
  have "map (stable_row env1 h1 q1) pools = map (accrue_stable env1 h1 q1) (map (stable_row env0 h0 q0) pools)"
    using accrued_stable_row [OF assms, of _ h1 h0] by simp
  then show ?thesis by (simp add: fresh_stableswap_def sort_cmp_map cmp_by_def del: map_map)
qed

lemma fresh_stableswap_fits:
  "p \<in> set (fresh_stableswap env h q pools) \<Longrightarrow> length (ss_reserves p) \<le> length (ss_pool_assets p)"
  by (auto simp: fresh_stableswap_def stable_row_def stableswap_row_def stable_reserves_def)

text \<open>Reading leaves every refreshed family fresh and keeps the others; accrual then makes these fresh too.\<close>

definition in_order :: "snapshot_env \<Rightarrow> snapshot_state \<Rightarrow> bool" where
  "in_order env s \<longleftrightarrow>
     sort_cmp (cmp_by so_asset_id) (st_omnipool_assets s) = st_omnipool_assets s
     \<and> sort_cmp (\<lambda>a b. localeCompare env (sx_pool_account a) (sx_pool_account b)) (st_xyk_pools s) = st_xyk_pools s
     \<and> sort_cmp (cmp_by ss_pool_id) (st_stableswap_pools s) = st_stableswap_pools s"

lemma read_state_families:
  assumes q: "answers (rb_env block) (rb_pools block) q"
    and read: "read_state block st plan = Inr (Some s, seen)"
    and pools: "rp_omnipool plan = Some ids" "rp_xyk plan = Some xyk" "rp_stableswap plan = Some stables" and ids: "distinct ids"
    and kept: "(\<forall>f. refreshes f plan) \<or> currentState st = Some s0"
    and s0: "st_omnipool_account s0 = omnipoolAccount (rb_env block)" "in_order (rb_env block) s0"
  shows "st_omnipool_account s = omnipoolAccount (rb_env block)"
    "st_omnipool_assets s = (if refreshes OmnipoolFamily plan then fresh_omnipool (rb_env block) q ids else st_omnipool_assets s0)"
    "st_xyk_pools s = (if refreshes XykFamily plan then fresh_xyk (rb_env block) q xyk else st_xyk_pools s0)"
    "st_stableswap_pools s =
      (if refreshes StableswapFamily plan then fresh_stableswap (rb_env block) (pb_height (rb_pools block)) q stables
       else st_stableswap_pools s0)"
proof -
  note reads = readOmnipoolState_rows [OF q ids] readXYKState_rows [OF q] readStableswapState_rows [OF q]
  note fresh = fresh_omnipool_def fresh_xyk_def fresh_stableswap_def
  have kept': "currentState st = Some s0" if "\<not> refreshes f plan" for f using kept that by blast
  show "st_omnipool_account s = omnipoolAccount (rb_env block)"
    "st_omnipool_assets s = (if refreshes OmnipoolFamily plan then fresh_omnipool (rb_env block) q ids else st_omnipool_assets s0)"
    "st_xyk_pools s = (if refreshes XykFamily plan then fresh_xyk (rb_env block) q xyk else st_xyk_pools s0)"
    "st_stableswap_pools s =
      (if refreshes StableswapFamily plan then fresh_stableswap (rb_env block) (pb_height (rb_pools block)) q stables
       else st_stableswap_pools s0)"
    using read s0 kept' [of OmnipoolFamily] kept' [of XykFamily] kept' [of StableswapFamily]
    by (cases "refreshes OmnipoolFamily plan"; cases "refreshes XykFamily plan"; cases "refreshes StableswapFamily plan";
        auto simp: read_state_def Let_def pools reads read_family_def and_then_def buildSnapshotState_def or_else_def
          in_order_def fresh split: if_splits prod.splits)+
qed

lemma accrue_state_families:
  assumes q: "answers (rb_env block) (rb_pools block) q"
    and acc: "accrue_state block plan s = Inr s'" and account: "st_omnipool_account s = omnipoolAccount (rb_env block)"
    and fits: "\<forall>p \<in> set (st_stableswap_pools s). length (ss_reserves p) \<le> length (ss_pool_assets p)"
  shows "st_omnipool_account s' = omnipoolAccount (rb_env block)"
    "st_omnipool_assets s' = (if refreshes OmnipoolFamily plan then st_omnipool_assets s
      else map (accrue_omni (rb_env block) q (omnipoolAccount (rb_env block))) (st_omnipool_assets s))"
    "st_xyk_pools s' = (if refreshes XykFamily plan then st_xyk_pools s else map (accrue_xyk (rb_env block) q) (st_xyk_pools s))"
    "st_stableswap_pools s' = (if refreshes StableswapFamily plan then st_stableswap_pools s
      else map (accrue_stable (rb_env block) (pb_height (rb_pools block)) q) (st_stableswap_pools s))"
  using acc account
  by (auto simp: accrue_state_def Let_def refreshAccruing_answers [OF q fits] split: if_splits)

lemma sort_twice:
  "js_comparator cmp \<Longrightarrow> sort_cmp cmp (sort_cmp cmp xs) = sort_cmp cmp xs"
  by (simp add: js_comparator.sort_sorted js_comparator.sorted_sort)

lemma comparator_on: "js_comparator cmp \<Longrightarrow> js_comparator (\<lambda>a b. cmp (f a) (f b))"
  unfolding js_comparator_def by blast

lemma fresh_in_order:
  assumes "js_comparator (localeCompare env)" "same_accounts env0 env" "st_omnipool_assets s = fresh_omnipool env0 q ids"
    "st_xyk_pools s = fresh_xyk env0 q xyk" "st_stableswap_pools s = fresh_stableswap env0 h q stables"
  shows "in_order env s"
  using assms
  by (simp add: in_order_def fresh_omnipool_def fresh_xyk_def fresh_stableswap_def same_accounts_def sort_twice
      cmp_by.js_comparator_axioms comparator_on [where cmp = "localeCompare env0"])

definition loop_fresh :: "raw_block \<Rightarrow> pool_answers \<Rightarrow> snapshot_loop \<Rightarrow> bool" where
  "loop_fresh block q st \<longleftrightarrow>
     pool_cache_ok (compositionCache st) \<and> warm (compositionCache st) \<and> block_ok block q
     \<and> (\<exists>s. currentState st = Some s \<and> fresh_state block q (compositionCache st) s)"

text \<open>One block: whatever the plan, the new state is fresh, given that a kept family was fresh and stood still.\<close>

lemma block_fresh:
  assumes block: "block_ok block q" and cache: "pool_cache_ok (compositionCache st)"
    and step: "snapshot_block block st = Inr st'"
    and plan: "plan_refresh block st = Inr plan"
    and before: "currentState st = None \<or> (\<exists>block0 q0. loop_fresh block0 q0 st \<and> carries block0 q0 block q plan)"
  shows "loop_fresh block q st'"
proof -
  note p = plan_pools [OF plan block cache]
  obtain s seen where read: "read_state block st plan = Inr (Some s, seen)"
    using step plan by (auto simp: snapshot_block_def and_then_Inr split: option.splits prod.splits)
  obtain s' where acc: "accrue_state block plan s = Inr s'" and st': "compositionCache st' = rp_cache plan" "currentState st' = Some s'"
    using step plan read by (auto simp: snapshot_block_def and_then_Inr)
  obtain ids xyk stables where lists: "omnipoolAssets (rp_cache plan) = Some ids" "xykPools (rp_cache plan) = Some xyk"
      "stableswapPools (rp_cache plan) = Some stables"
    using p(2) by (auto simp: warm_def)
  have ids: "distinct ids" using p(1) lists(1) by (simp add: pool_cache_ok_def)
  have q: "answers (rb_env block) (rb_pools block) q" and lc: "js_comparator (localeCompare (rb_env block))"
    using block by (simp_all add: block_ok_def)
  have pools: "rp_omnipool plan = Some ids" "rp_xyk plan = Some xyk" "rp_stableswap plan = Some stables"
    using p(3-5) lists by simp_all
  have "\<exists>s0. ((\<forall>f. refreshes f plan) \<or> currentState st = Some s0)
      \<and> st_omnipool_account s0 = omnipoolAccount (rb_env block) \<and> in_order (rb_env block) s0
      \<and> (refreshes OmnipoolFamily plan \<or>
          map (accrue_omni (rb_env block) q (omnipoolAccount (rb_env block))) (st_omnipool_assets s0) = fresh_omnipool (rb_env block) q ids)
      \<and> (refreshes XykFamily plan \<or> map (accrue_xyk (rb_env block) q) (st_xyk_pools s0) = fresh_xyk (rb_env block) q xyk)
      \<and> (refreshes StableswapFamily plan \<or>
          map (accrue_stable (rb_env block) (pb_height (rb_pools block)) q) (st_stableswap_pools s0) =
            fresh_stableswap (rb_env block) (pb_height (rb_pools block)) q stables
          \<and> (\<forall>x \<in> set (st_stableswap_pools s0). length (ss_reserves x) \<le> length (ss_pool_assets x)))"
  proof (cases "currentState st")
    case None
    let ?s0 = "buildSnapshotState (rb_env block) [] [] [] [] [] []"
    have "\<forall>f. refreshes f plan" using p(6) None by blast
    moreover have "in_order (rb_env block) ?s0" by (simp add: in_order_def buildSnapshotState_def)
    ultimately show ?thesis by (intro exI [of _ ?s0]) (simp add: buildSnapshotState_def)
  next
    case (Some s0)
    then obtain block0 q0 where f: "loop_fresh block0 q0 st" and c: "carries block0 q0 block q plan" using before by auto
    have fresh: "fresh_state block0 q0 (compositionCache st) s0" and w: "warm (compositionCache st)"
      and q0: "answers (rb_env block0) (rb_pools block0) q0"
      using f Some by (auto simp: loop_fresh_def block_ok_def)
    have same: "same_accounts (rb_env block0) (rb_env block)" using c by (simp add: carries_def)
    note fs = fresh [unfolded fresh_state_def]
    have "in_order (rb_env block) s0" using fresh_in_order [OF lc same] fs by blast
    moreover have "st_omnipool_account s0 = omnipoolAccount (rb_env block)" using fs same by (simp add: same_accounts_def)
    moreover have "map (accrue_omni (rb_env block) q (omnipoolAccount (rb_env block))) (st_omnipool_assets s0) = fresh_omnipool (rb_env block) q ids"
      if n: "\<not> refreshes OmnipoolFamily plan"
    proof -
      have "omnipoolAssets (compositionCache st) = Some ids" using p(7) [OF n] w lists by (simp add: warm_def)
      then show ?thesis using fs fresh_omnipool_accrues [OF _ same] c n pools by (simp add: carries_def)
    qed
    moreover have "map (accrue_xyk (rb_env block) q) (st_xyk_pools s0) = fresh_xyk (rb_env block) q xyk"
      if n: "\<not> refreshes XykFamily plan"
    proof -
      have "xykPools (compositionCache st) = Some xyk" using p(8) [OF n] w lists by (simp add: warm_def)
      then show ?thesis using fs fresh_xyk_accrues [OF q0 q _ same] c n pools by (simp add: carries_def)
    qed
    moreover have "map (accrue_stable (rb_env block) (pb_height (rb_pools block)) q) (st_stableswap_pools s0) =
        fresh_stableswap (rb_env block) (pb_height (rb_pools block)) q stables" if n: "\<not> refreshes StableswapFamily plan"
    proof -
      have "stableswapPools (compositionCache st) = Some stables" using p(9) [OF n] w lists by (simp add: warm_def)
      then show ?thesis using fs fresh_stableswap_accrues [OF q0 q _ same] c n pools by (simp add: carries_def)
    qed
    moreover have "\<forall>x \<in> set (st_stableswap_pools s0). length (ss_reserves x) \<le> length (ss_pool_assets x)"
      using fs fresh_stableswap_fits by auto
    ultimately show ?thesis using Some by blast
  qed
  then obtain s0 where s0: "(\<forall>f. refreshes f plan) \<or> currentState st = Some s0" "st_omnipool_account s0 = omnipoolAccount (rb_env block)"
      "in_order (rb_env block) s0"
      "refreshes OmnipoolFamily plan \<or>
          map (accrue_omni (rb_env block) q (omnipoolAccount (rb_env block))) (st_omnipool_assets s0) = fresh_omnipool (rb_env block) q ids"
      "refreshes XykFamily plan \<or> map (accrue_xyk (rb_env block) q) (st_xyk_pools s0) = fresh_xyk (rb_env block) q xyk"
      "refreshes StableswapFamily plan \<or>
          map (accrue_stable (rb_env block) (pb_height (rb_pools block)) q) (st_stableswap_pools s0) =
            fresh_stableswap (rb_env block) (pb_height (rb_pools block)) q stables
          \<and> (\<forall>x \<in> set (st_stableswap_pools s0). length (ss_reserves x) \<le> length (ss_pool_assets x))"
    by blast
  note r = read_state_families [OF q read pools ids s0(1-3)]
  have fits: "\<forall>x \<in> set (st_stableswap_pools s). length (ss_reserves x) \<le> length (ss_pool_assets x)"
    using r(4) s0(6) fresh_stableswap_fits by auto
  note a = accrue_state_families [OF q acc r(1) fits]
  have "fresh_state block q (rp_cache plan) s'"
    using a r s0(4-6) by (auto simp: fresh_state_def lists split: if_splits)
  then show ?thesis using p(1,2) block st' by (auto simp: loop_fresh_def)
qed

lemma run_step_fresh:
  "block_ok block q \<Longrightarrow> snapshot_block block new_loop = Inr st \<Longrightarrow> loop_fresh block q st"
proof -
  assume block: "block_ok block q" and step: "snapshot_block block new_loop = Inr st"
  obtain plan where "plan_refresh block new_loop = Inr plan"
    using step by (auto simp: snapshot_block_def and_then_Inr)
  moreover have "pool_cache_ok (compositionCache new_loop)" "currentState new_loop = None"
    by (simp_all add: new_loop_def ok_new)
  ultimately show ?thesis using block_fresh [OF block _ step] by blast
qed

lemma snapshot_run_fresh: "snapshot_run block q st \<Longrightarrow> loop_fresh block q st"
proof (induction rule: snapshot_run.induct)
  case (next_block block0 q0 st block q plan st')
  then show ?case using block_fresh [of block q st st' plan] by (auto simp: loop_fresh_def)
qed (rule run_step_fresh)

section \<open>Property\<close>

text \<open>Reading every pool of the block again, as a forced block does.\<close>

definition whole_read :: "raw_block \<Rightarrow> pool_cache \<Rightarrow> string + snapshot_state" where
  "whole_read block c =
     (let env = rb_env block; pools = rb_pools block
      in and_then (readOmnipoolState env pools (or_else (omnipoolAssets c) [])) (\<lambda>omnipool.
         and_then (readXYKState env pools (or_else (xykPools c) [])) (\<lambda>xyk.
         and_then (fst (readStableswapState env pools (or_else (stableswapPools c) []) False)) (\<lambda>stableswap.
           Inr (buildSnapshotState env [] [] [] omnipool xyk stableswap)))))"

definition pool_part :: "snapshot_state \<Rightarrow>
    string \<times> snapshot_omnipool_asset list \<times> snapshot_xyk_pool list \<times> snapshot_stableswap_pool list" where
  "pool_part s = (st_omnipool_account s, st_omnipool_assets s, st_xyk_pools s, st_stableswap_pools s)"

text \<open>
  A step of the loop from one block to the next, with what the two blocks' storages answer, and what the theorem
  supposes of it. The legs are those of the families the step carries over unread.
\<close>

record carry =
  cy_from :: raw_block
  cy_from_answers :: pool_answers
  cy_to :: raw_block
  cy_to_answers :: pool_answers
  cy_plan :: refresh_plan

definition carried_legs :: "carry \<Rightarrow> (string \<times> int) list" where
  "carried_legs c =
     (let env = rb_env (cy_to c); plan = cy_plan c in
      (if refreshes OmnipoolFamily plan then [] else map (Pair (omnipoolAccount env)) (the (rp_omnipool plan)))
      @ (if refreshes XykFamily plan then []
         else concat (map (\<lambda>p. [(poolAccount p, xyk_assetA p), (poolAccount p, xyk_assetB p)]) (the (rp_xyk plan))))
      @ (if refreshes StableswapFamily plan then []
         else concat (map (\<lambda>p. map (Pair (stableswapPoolAccount env (sp_poolId p))) (sp_assets p)) (the (rp_stableswap plan)))))"

text \<open>The pallets' values behind the carried rows are those of the block before, and the accounts of the pools too.\<close>

definition storage_still :: "carry \<Rightarrow> bool" where
  "storage_still c \<longleftrightarrow>
     (let env = rb_env (cy_to c); q0 = cy_from_answers c; q1 = cy_to_answers c; plan = cy_plan c in
      same_accounts (rb_env (cy_from c)) env
      \<and> (refreshes OmnipoolFamily plan \<or>
          ans_native q1 (omnipoolAccount env) = ans_native q0 (omnipoolAccount env)
          \<and> (\<forall>a \<in> set (the (rp_omnipool plan)). ans_state q1 a = ans_state q0 a
               \<and> ans_free q1 (omnipoolAccount env, a) = ans_free q0 (omnipoolAccount env, a)))
      \<and> (refreshes XykFamily plan \<or>
          (\<forall>p \<in> set (the (rp_xyk plan)). \<forall>a \<in> {xyk_assetA p, xyk_assetB p}.
             side_base q1 (poolAccount p) a = side_base q0 (poolAccount p) a))
      \<and> (refreshes StableswapFamily plan \<or>
          (\<forall>p \<in> set (the (rp_stableswap plan)).
             ans_info q1 (sp_poolId p) = ans_info q0 (sp_poolId p)
             \<and> ans_issuance q1 (sp_poolId p) = ans_issuance q0 (sp_poolId p)
             \<and> ans_pegs q1 (sp_poolId p) = ans_pegs q0 (sp_poolId p)
             \<and> (\<forall>a \<in> set (sp_assets p). positive_or_zero (ans_free q1 (stableswapPoolAccount env (sp_poolId p), a))
                  = positive_or_zero (ans_free q0 (stableswapPoolAccount env (sp_poolId p), a))))))"

text \<open>The ERC-20 legs of the carried XYK and stableswap pools have no balance in the pallets, only in their contract.\<close>

definition contract_legs_only :: "carry \<Rightarrow> bool" where
  "contract_legs_only c \<longleftrightarrow>
     (let env = rb_env (cy_to c); q1 = cy_to_answers c; plan = cy_plan c in
      (refreshes XykFamily plan \<or>
          (\<forall>p \<in> set (the (rp_xyk plan)). \<forall>a \<in> {xyk_assetA p, xyk_assetB p}.
             isKnownErc20 (env_registry env) a \<longrightarrow> side_base q1 (poolAccount p) a = 0))
      \<and> (refreshes StableswapFamily plan \<or>
          (\<forall>p \<in> set (the (rp_stableswap plan)). \<forall>a \<in> set (sp_assets p).
             isKnownErc20 (env_registry env) a \<longrightarrow>
               positive_or_zero (ans_free q1 (stableswapPoolAccount env (sp_poolId p), a)) = 0)))"

text \<open>No carried leg becomes an ERC-20 or stops being one, and the contract balance of none drops to zero.\<close>

definition balances_kept :: "carry \<Rightarrow> bool" where
  "balances_kept c \<longleftrightarrow>
     (\<forall>(account, a) \<in> set (carried_legs c).
        quiet_leg (rb_env (cy_from c)) (cy_from_answers c) (rb_env (cy_to c)) (cy_to_answers c) account a)"

inductive loop_run :: "carry list \<Rightarrow> raw_block \<Rightarrow> pool_answers \<Rightarrow> snapshot_loop \<Rightarrow> bool" where
  cold_start: "block_ok block q \<Longrightarrow> snapshot_block block new_loop = Inr st \<Longrightarrow> loop_run [] block q st"
| follow: "loop_run cs block0 q0 st \<Longrightarrow> block_ok block q \<Longrightarrow> plan_refresh block st = Inr plan
     \<Longrightarrow> snapshot_block block st = Inr st'
     \<Longrightarrow> loop_run (cs @ [\<lparr>cy_from = block0, cy_from_answers = q0, cy_to = block, cy_to_answers = q, cy_plan = plan\<rparr>]) block q st'"

lemma carry_carries:
  assumes "storage_still c" "contract_legs_only c" "balances_kept c"
  shows "carries (cy_from c) (cy_from_answers c) (cy_to c) (cy_to_answers c) (cy_plan c)"
proof -
  let ?env0 = "rb_env (cy_from c)" and ?q0 = "cy_from_answers c" and ?env1 = "rb_env (cy_to c)" and ?q1 = "cy_to_answers c"
  have omni: "quiet_omnipool ?env0 ?q0 ?env1 ?q1 (the (rp_omnipool (cy_plan c)))" if "\<not> refreshes OmnipoolFamily (cy_plan c)"
    using that assms by (auto simp: quiet_omnipool_def storage_still_def balances_kept_def carried_legs_def Let_def)
  have legs: "quiet_leg ?env0 ?q0 ?env1 ?q1 (poolAccount p) a"
    if "\<not> refreshes XykFamily (cy_plan c)" "p \<in> set (the (rp_xyk (cy_plan c)))" "a \<in> {xyk_assetA p, xyk_assetB p}" for p a
    using that assms(3) by (fastforce simp: balances_kept_def carried_legs_def Let_def)
  have xyk: "quiet_xyk ?env0 ?q0 ?env1 ?q1 (the (rp_xyk (cy_plan c)))" if "\<not> refreshes XykFamily (cy_plan c)"
    using that assms(1,2) legs [OF that] unfolding quiet_xyk_def storage_still_def contract_legs_only_def Let_def by blast
  have legs: "quiet_leg ?env0 ?q0 ?env1 ?q1 (stableswapPoolAccount ?env1 (sp_poolId p)) a"
    if "\<not> refreshes StableswapFamily (cy_plan c)" "p \<in> set (the (rp_stableswap (cy_plan c)))" "a \<in> set (sp_assets p)" for p a
    using that assms(3) by (fastforce simp: balances_kept_def carried_legs_def Let_def)
  have "quiet_stableswap ?env0 ?q0 ?env1 ?q1 (the (rp_stableswap (cy_plan c)))" if "\<not> refreshes StableswapFamily (cy_plan c)"
    using that assms(1,2) legs [OF that] unfolding quiet_stableswap_def storage_still_def contract_legs_only_def Let_def by blast
  with omni xyk show ?thesis using assms(1) by (auto simp: carries_def storage_still_def Let_def)
qed

lemma loop_run_snapshots:
  assumes "loop_run cs block q st"
    and "\<forall>c \<in> set cs. storage_still c" "\<forall>c \<in> set cs. contract_legs_only c" "\<forall>c \<in> set cs. balances_kept c"
  shows "snapshot_run block q st"
  using assms
proof (induction rule: loop_run.induct)
  case (follow cs block0 q0 st block q plan st')
  let ?c = "\<lparr>cy_from = block0, cy_from_answers = q0, cy_to = block, cy_to_answers = q, cy_plan = plan\<rparr>"
  have "snapshot_run block0 q0 st" using follow.IH follow.prems by auto
  moreover have "carries block0 q0 block q plan" using carry_carries [of ?c] follow.prems by simp
  ultimately show ?case using next_block [OF _ follow.hyps(2,3) _ follow.hyps(4)] by blast
qed (rule first_block)

text \<open>
  C10: A carried family is as good as read again, where its rows can be carried at all. From a cold start, block after block, whatever families
  the triggers (pool events, transfers to and from pool accounts, swaps, runtime upgrades, storage writes, grid heights)
  leave unread, those are carried over with the contract balances of their ERC-20 legs and the amplifications
  refreshed, and the snapshot of the block has the rows that reading all its pools again gives. This supposes, of each
  step and of the families it carries: the pallets' values behind their rows stand still; the ERC-20 legs of XYK and
  stableswap pools have no balance in the pallets (a whole read prefers that balance, the refresh the contract's);
  and no leg's contract balance drops to zero (the refresh then keeps the last one) nor does a leg become
  or stop being an ERC-20.
\<close>

theorem carried_snapshot_is_fresh:
  assumes "loop_run cs block q st"
    and "\<forall>c \<in> set cs. storage_still c" and "\<forall>c \<in> set cs. contract_legs_only c" and "\<forall>c \<in> set cs. balances_kept c"
  shows "\<exists>s r. currentState st = Some s \<and> whole_read block (compositionCache st) = Inr r \<and> pool_part s = pool_part r"
proof -
  obtain s where s: "currentState st = Some s" "fresh_state block q (compositionCache st) s"
    and ok: "pool_cache_ok (compositionCache st)" "warm (compositionCache st)" "block_ok block q"
    using snapshot_run_fresh [OF loop_run_snapshots [OF assms]] by (auto simp: loop_fresh_def)
  obtain ids xyk stables where lists: "omnipoolAssets (compositionCache st) = Some ids" "xykPools (compositionCache st) = Some xyk"
      "stableswapPools (compositionCache st) = Some stables"
    using ok(2) by (auto simp: warm_def)
  have q: "answers (rb_env block) (rb_pools block) q" using ok(3) by (simp add: block_ok_def)
  have "distinct ids" using ok(1) lists(1) by (simp add: pool_cache_ok_def)
  note reads = readOmnipoolState_rows [OF q this] readXYKState_rows [OF q] readStableswapState_rows [OF q, of stables False]
  show ?thesis using s
    by (simp add: whole_read_def lists reads and_then_def or_else_def Let_def pool_part_def buildSnapshotState_def
        fresh_state_def fresh_omnipool_def fresh_xyk_def fresh_stableswap_def)
qed

text \<open>Two blocks, the second without events: the balance of asset 222's contract goes from 7 to 9.\<close>

definition example_env :: snapshot_env where
  "example_env =
     \<lparr>env_keccak = (\<lambda>_. 0), env_registry = updateErc20Registry [(222, ''0x22'')] [] [], omnipoolAccount = ''0x0a'',
      stableswapPoolAccount = (\<lambda>_. ''0x0b''), calculate_amplification = (\<lambda>_ _ _ _ _. None), poolStoragePrefixes = [],
      localeCompare = (\<lambda>_ _. 0), batchSize = 200\<rparr>"

definition example_answers :: "int \<Rightarrow> pool_answers" where
  "example_answers balance =
     \<lparr>ans_state = (\<lambda>a. Some \<lparr>oas_hubReserve = 3, oas_shares = 2, oas_protocolShares = 1, oas_cap = 4, oas_tradable = 15\<rparr>),
      ans_free = (\<lambda>(account, a). if a = 5 then Some 50 else None), ans_issuance = (\<lambda>_. Some 1000),
      ans_native = (\<lambda>_. Some 60), ans_info = (\<lambda>_. None), ans_pegs = (\<lambda>_. None),
      ans_evm = (\<lambda>account a. if a = 222 then balance else 0)\<rparr>"

definition example_pools :: "int \<Rightarrow> int \<Rightarrow> pool_block" where
  "example_pools height balance =
     (let q = example_answers balance in
      \<lparr>pb_height = height,
       pb_evm = \<lparr>eb_height = height, eb_timestamp = Some (height * 6000), accountStorages_is = True,
         accountStorages_getMany = (\<lambda>keys. Inr (map (\<lambda>_. Some (''0x'' @ int_to_string balance)) keys))\<rparr>,
       omnipoolAssets_is = True, omnipoolAssets_getMany = Inr \<circ> map (ans_state q),
       tokensAccounts_is = True, tokensAccounts_getMany = Inr \<circ> map (ans_free q),
       totalIssuance_is = True, totalIssuance_getMany = Inr \<circ> map (ans_issuance q),
       account205_is = True, account205_getMany = Inr \<circ> map (ans_native q),
       account100_is = False, account100_getMany = (\<lambda>_. Inr []),
       stablePools_is = True, stablePools_getMany = Inr \<circ> map (ans_info q),
       poolPegs378_is = True, poolPegs378_get = (\<lambda>_. Inr None), poolPegs323_is = False, poolPegs323_get = (\<lambda>_. Inr None),
       poolPegs305_is = False, poolPegs305_get = (\<lambda>_. Inr None)\<rparr>)"

definition example_raw_block :: "int \<Rightarrow> int \<Rightarrow> raw_block" where
  "example_raw_block height balance =
     \<lparr>rb_height = height, rb_specVersion = 400, rb_events = [], rb_calls = [],
      rb_storage = \<lparr>sto_height = height, omnipool_is = True, omnipool_pairs = Inr [(222, Some JNull), (0, Some JNull)],
        xyk_is = True, xyk_pairs = Inr [(''0xaa'', Some (5, 222))], stableswap_is = True, stableswap_pairs = Inr []\<rparr>,
      rb_pools = example_pools height balance, rb_env = example_env, rb_assetsChanged = False,
      rb_assets = [], rb_atokenEquivalences = [], rb_lpEquivalences = []\<rparr>"

lemma example_block_ok:
  assumes "balance = 7 \<or> balance = 9"
  shows "block_ok (example_raw_block height balance) (example_answers balance)"
proof -
  have word: "parse_hex ''7'' = Some 7" "parse_hex ''9'' = Some 9"
    by (simp_all add: parse_hex_def digit_val_def)
  have bal: "int_to_string 7 = ''7''" "int_to_string 9 = ''9''" by code_simp+
  have zeros: "[c] \<noteq> replicate 64 z" for c z :: char by (simp add: numeral_eq_Suc)
  have reg: "erc20Contracts (env_registry example_env) = [(222, ''0x22'')]" "atokenIds (env_registry example_env) = []"
    "atokenReserves (env_registry example_env) = []"
    by (simp_all add: example_env_def updateErc20Registry_def)
  have "readErc20Balances (env_keccak example_env) (env_registry example_env) (pb_evm (example_pools height balance)) [a] account =
      Inr [if a = 222 then balance else 0]" for account a
    using assms
    by (cases "a = 222")
      (auto simp: readErc20Balances_def read_unfold all_queries_def request_queries_def leg_query_def Let_def reg
        example_pools_def storage_keys_def reserve_step_def query_value_def value_at_def raw_hex_def bal word zeros
        zero_results_def set_result_def starts_with_def)
  moreover have "js_comparator (\<lambda>_ _ :: string. 0)" by unfold_locales auto
  ultimately show ?thesis
    by (auto simp: block_ok_def storage_readable_def storage_keys_ok_def storage_typed_def answers_def example_raw_block_def
        example_pools_def example_answers_def example_env_def peg_read_def registry_apart_def updateErc20Registry_def Let_def
        defined_pairs_def typed_xyk_def count_ok_def is_safe_integer_def MAX_SAFE_INTEGER_def xyk_entry_of_def)
qed

definition example_st1 :: snapshot_loop where "example_st1 = projr (snapshot_block (example_raw_block 7 7) new_loop)"

definition example_plan :: refresh_plan where "example_plan = projr (plan_refresh (example_raw_block 8 9) example_st1)"

definition example_st2 :: snapshot_loop where "example_st2 = projr (snapshot_block (example_raw_block 8 9) example_st1)"

lemma example_steps:
  "\<not> isl (snapshot_block (example_raw_block 7 7) new_loop)"
  "\<not> isl (plan_refresh (example_raw_block 8 9) example_st1)"
  "\<not> isl (snapshot_block (example_raw_block 8 9) example_st1)"
  by code_simp+

lemma example_planned:
  "the (rp_omnipool example_plan) = [222, 0]" "the (rp_xyk example_plan) = [\<lparr>poolAccount = ''0xaa'', xyk_assetA = 5, xyk_assetB = 222\<rparr>]"
  "the (rp_stableswap example_plan) = []" "rp_flags example_plan = \<lparr>refreshFamilies = [], forceAllPoolFamilies = False\<rparr>"
  by code_simp+

lemma example_carried:
  "map_option pool_part (currentState example_st2) = Some (''0x0a'',
     [\<lparr>so_asset_id = 0, so_hub_reserve = ''3'', so_reserve = ''60'', so_shares = ''2'', so_protocol_shares = ''1'',
       so_cap = ''4'', so_tradable = 15\<rparr>,
      \<lparr>so_asset_id = 222, so_hub_reserve = ''3'', so_reserve = ''9'', so_shares = ''2'', so_protocol_shares = ''1'',
       so_cap = ''4'', so_tradable = 15\<rparr>],
     [\<lparr>sx_pool_account = ''0xaa'', sx_asset_a = 5, sx_asset_b = 222, sx_reserve_a = ''50'', sx_reserve_b = ''9''\<rparr>], [])"
  by code_simp+

definition example_carry :: carry where
  "example_carry = \<lparr>cy_from = example_raw_block 7 7, cy_from_answers = example_answers 7,
     cy_to = example_raw_block 8 9, cy_to_answers = example_answers 9, cy_plan = example_plan\<rparr>"

lemma example_carries: "storage_still example_carry" "contract_legs_only example_carry" "balances_kept example_carry"
  by (simp_all add: storage_still_def contract_legs_only_def balances_kept_def carried_legs_def example_carry_def Let_def
    refreshes_def example_planned quiet_leg_def
    same_accounts_def example_raw_block_def example_answers_def example_env_def updateErc20Registry_def isKnownErc20_def side_base_def
    NATIVE_ASSET_ID_def or_zero_def)

theorem carried_snapshot_is_fresh_witness:
  "\<exists>st1 st2 r. snapshot_block (example_raw_block 7 7) new_loop = Inr st1
    \<and> snapshot_block (example_raw_block 8 9) st1 = Inr st2
    \<and> whole_read (example_raw_block 8 9) (compositionCache st2) = Inr r
    \<and> pool_part r = (''0x0a'',
     [\<lparr>so_asset_id = 0, so_hub_reserve = ''3'', so_reserve = ''60'', so_shares = ''2'', so_protocol_shares = ''1'',
       so_cap = ''4'', so_tradable = 15\<rparr>,
      \<lparr>so_asset_id = 222, so_hub_reserve = ''3'', so_reserve = ''9'', so_shares = ''2'', so_protocol_shares = ''1'',
       so_cap = ''4'', so_tradable = 15\<rparr>],
     [\<lparr>sx_pool_account = ''0xaa'', sx_asset_a = 5, sx_asset_b = 222, sx_reserve_a = ''50'', sx_reserve_b = ''9''\<rparr>], [])
    \<and> map_option pool_part (currentState st2) = Some (pool_part r)"
proof -
  have st1: "snapshot_block (example_raw_block 7 7) new_loop = Inr example_st1"
    and plan: "plan_refresh (example_raw_block 8 9) example_st1 = Inr example_plan"
    and st2: "snapshot_block (example_raw_block 8 9) example_st1 = Inr example_st2"
    using example_steps by (simp_all add: example_st1_def example_plan_def example_st2_def)
  have "loop_run [example_carry] (example_raw_block 8 9) (example_answers 9) example_st2"
    using follow [OF cold_start [OF _ st1] _ plan st2] by (simp add: example_carry_def example_block_ok)
  from carried_snapshot_is_fresh [OF this] show ?thesis
    using st1 st2 example_carries example_carried by auto
qed

end
