(* ===== verification/Lm_Entries.thy ===== *)
theory Lm_Entries
  imports Raw_Rows
begin

text \<open>
  Liquidity-mining farm entries captured from storage at the end of the block that created them
  (\<^verbatim>\<open>src/raw/lmFarmEntries.ts\<close>): which deposits a block's entry events name, how a decoded deposit becomes rows, and
  the capture with its warnings.

  The runtime that decodes storage is a record of functions; a typed array is not a value of the model, so an XYK pool
  account arrives as hexadecimal text.
\<close>

section \<open>Entry events\<close>

datatype lm_pallet = Omnipool_LM | Xyk_LM

fun pallet_name :: "lm_pallet \<Rightarrow> string" where
  "pallet_name Omnipool_LM = ''omnipool''"
| "pallet_name Xyk_LM = ''xyk''"

fun LM_STORAGE :: "lm_pallet \<Rightarrow> string" where
  "LM_STORAGE Omnipool_LM = ''OmnipoolWarehouseLM.Deposit''"
| "LM_STORAGE Xyk_LM = ''XYKWarehouseLM.Deposit''"

definition ENTRY_EVENTS :: "(string, lm_pallet) jsmap" where
  "ENTRY_EVENTS =
     [(''OmnipoolLiquidityMining.SharesDeposited'', Omnipool_LM),
      (''OmnipoolLiquidityMining.SharesRedeposited'', Omnipool_LM),
      (''XYKLiquidityMining.SharesDeposited'', Xyk_LM),
      (''XYKLiquidityMining.SharesRedeposited'', Xyk_LM)]"

definition ENTRY_EVENT_NAMES :: "string list" where
  "ENTRY_EVENT_NAMES = map_keys ENTRY_EVENTS"

record deposit_event =
  de_blockHeight :: int
  de_eventIndex :: int
  de_eventName :: string
  de_depositId :: string
  de_globalFarmId :: int
  de_yieldFarmId :: int

record entry_event_source =
  es_block_height :: int
  es_event_index :: int
  es_event_name :: string
  es_args :: json

definition rawIdOf :: "json \<Rightarrow> string" where
  "rawIdOf v = (case v of JStr s \<Rightarrow> s | JNum n \<Rightarrow> int_to_string n | JBig n \<Rightarrow> int_to_string n | _ \<Rightarrow> [])"

definition farmIdOf :: "json \<Rightarrow> int" where
  "farmIdOf v = (case v of JNum n \<Rightarrow> if is_safe_integer n \<and> 0 \<le> n \<and> n \<le> 4294967295 then n else 0 | _ \<Rightarrow> 0)"

definition entry_event_of :: "entry_event_source \<Rightarrow> deposit_event" where
  "entry_event_of r =
     \<lparr>de_blockHeight = es_block_height r, de_eventIndex = es_event_index r, de_eventName = es_event_name r,
      de_depositId = rawIdOf (get_prop (es_args r) ''depositId''),
      de_globalFarmId = farmIdOf (get_prop (es_args r) ''globalFarmId''),
      de_yieldFarmId = farmIdOf (get_prop (es_args r) ''yieldFarmId'')\<rparr>"

definition entryEventsFromRawEvents :: "entry_event_source list \<Rightarrow> deposit_event list" where
  "entryEventsFromRawEvents rows = map entry_event_of (filter (\<lambda>r. map_has ENTRY_EVENTS (es_event_name r)) rows)"

section \<open>Capture targets\<close>

record event_farm =
  ef_globalFarmId :: int
  ef_yieldFarmId :: int

record capture_target =
  ct_blockHeight :: int
  ct_pallet :: lm_pallet
  ct_depositId :: string
  ct_eventIndex :: int
  ct_eventName :: string
  ct_eventFarms :: "event_farm list"

definition targetKey :: "lm_pallet \<Rightarrow> string \<Rightarrow> int \<Rightarrow> string" where
  "targetKey pallet depositId blockHeight = pallet_name pallet @ '':'' @ depositId @ '':'' @ int_to_string blockHeight"

definition isNumericDepositId :: "string \<Rightarrow> bool" where
  "isNumericDepositId s \<longleftrightarrow> s \<noteq> [] \<and> list_all is_dec_digit s"

definition event_order :: "deposit_event \<Rightarrow> deposit_event \<Rightarrow> int" where
  "event_order = cmp_or (cmp_by de_blockHeight) (cmp_by de_eventIndex)"

definition event_id :: "deposit_event \<Rightarrow> string" where
  "event_id e = int_to_string (de_blockHeight e) @ '':'' @ int_to_string (de_eventIndex e)"

definition unparsed_step :: "string list \<times> deposit_event list \<Rightarrow> deposit_event \<Rightarrow> string list \<times> deposit_event list" where
  "unparsed_step st e =
     (let (seen, out) = st
      in if \<not> map_has ENTRY_EVENTS (de_eventName e) \<or> isNumericDepositId (de_depositId e) then st
         else if event_id e \<in> set seen then st
         else (set_add (event_id e) seen, out @ [e]))"

definition unparsedDepositEvents :: "deposit_event list \<Rightarrow> deposit_event list" where
  "unparsedDepositEvents events = snd (foldl unparsed_step ([], []) (sort_cmp event_order events))"

definition add_farm :: "deposit_event \<Rightarrow> capture_target \<Rightarrow> capture_target" where
  "add_farm e t =
     (if \<exists>f \<in> set (ct_eventFarms t). ef_yieldFarmId f = de_yieldFarmId e then t
      else t\<lparr>ct_eventFarms := ct_eventFarms t @
             [\<lparr>ef_globalFarmId = de_globalFarmId e, ef_yieldFarmId = de_yieldFarmId e\<rparr>]\<rparr>)"

definition target_step ::
  "string list \<times> (string, capture_target) jsmap \<Rightarrow> deposit_event \<Rightarrow> string list \<times> (string, capture_target) jsmap" where
  "target_step st e =
     (let (seen, byKey) = st
      in case map_of ENTRY_EVENTS (de_eventName e) of
           None \<Rightarrow> st
         | Some pallet \<Rightarrow>
             if \<not> isNumericDepositId (de_depositId e) then st
             else if event_id e \<in> set seen then st
             else
               (let key = targetKey pallet (de_depositId e) (de_blockHeight e);
                    t = (case map_of byKey key of
                           Some t \<Rightarrow> t
                         | None \<Rightarrow> \<lparr>ct_blockHeight = de_blockHeight e, ct_pallet = pallet, ct_depositId = de_depositId e,
                                    ct_eventIndex = de_eventIndex e, ct_eventName = de_eventName e, ct_eventFarms = []\<rparr>)
                in (set_add (event_id e) seen, map_set key (add_farm e t) byKey)))"

definition captureTargets :: "deposit_event list \<Rightarrow> capture_target list" where
  "captureTargets events = map snd (snd (foldl target_step ([], []) (sort_cmp event_order events)))"

section \<open>Decoded storage\<close>

record captured_entry =
  ce_globalFarmId :: int
  ce_yieldFarmId :: int
  ce_valuedShares :: int
  ce_accumulatedRpvs :: int
  ce_accumulatedClaimedRewards :: int
  ce_enteredAt :: int
  ce_updatedAt :: int
  ce_stoppedAtCreation :: int

record captured_deposit =
  cd_shares :: int
  cd_ammPoolId :: string
  cd_entries :: "captured_entry list"

text \<open>\<open>String(v)\<close>.\<close>

fun js_to_string :: "json \<Rightarrow> string" where
  "js_to_string (JStr s) = s"
| "js_to_string (JNum n) = int_to_string n"
| "js_to_string (JBig n) = int_to_string n"
| "js_to_string (JBool b) = (if b then ''true'' else ''false'')"
| "js_to_string JNull = ''null''"
| "js_to_string JUndefined = ''undefined''"
| "js_to_string (JArr vs) = join_with '','' (map (\<lambda>v. if is_nullish v then [] else js_to_string v) vs)"
| "js_to_string (JObj ps) = ''[object Object]''"

definition bigOf :: "json \<Rightarrow> string \<Rightarrow> string + int" where
  "bigOf v what =
     (let s = (if is_nullish v then [] else js_to_string v)
      in if isNumericDepositId s then Inr (the (parse_dec s))
         else Inl (what @ '': not an unsigned integer ('' @ s @ '')''))"

definition numOf :: "json \<Rightarrow> string \<Rightarrow> string + int" where
  "numOf v what =
     (case bigOf v what of Inl e \<Rightarrow> Inl e
      | Inr n \<Rightarrow> if is_safe_integer n then Inr n else Inl (what @ '': not a safe integer''))"

text \<open>One step of a sequence of reads, the first that fails ends it.\<close>

definition or_fail :: "'e + 'a \<Rightarrow> ('a \<Rightarrow> 'e + 'b) \<Rightarrow> 'e + 'b" where
  "or_fail r k = (case r of Inl e \<Rightarrow> Inl e | Inr x \<Rightarrow> k x)"

definition pool_account_text :: "json \<Rightarrow> string" where
  "pool_account_text v = (case v of JStr s \<Rightarrow> to_lower s | _ \<Rightarrow> [])"

definition is_account_text :: "string \<Rightarrow> bool" where
  "is_account_text hex \<longleftrightarrow> starts_with ''0x'' hex \<and> length hex = 66 \<and> list_all is_lower_hex (drop 2 hex)"

definition amm_pool_id :: "json \<Rightarrow> lm_pallet \<Rightarrow> string + string" where
  "amm_pool_id v pallet =
     (case pallet of
        Omnipool_LM \<Rightarrow> or_fail (numOf v ''ammPoolId'') (\<lambda>n. Inr (int_to_string n))
      | Xyk_LM \<Rightarrow>
          if is_account_text (pool_account_text v) then Inr (pool_account_text v)
          else Inl ''deposit: ammPoolId is not an AccountId32'')"

definition entry_of :: "nat \<Rightarrow> json \<Rightarrow> string + captured_entry" where
  "entry_of i raw =
     (if \<not> js_typeof_object raw \<or> is_nullish raw then Inl (''entry '' @ nat_to_string i @ '': not a struct'')
      else
        or_fail (numOf (get_prop raw ''globalFarmId'') ''globalFarmId'') (\<lambda>g.
        or_fail (numOf (get_prop raw ''yieldFarmId'') ''yieldFarmId'') (\<lambda>y.
        or_fail (bigOf (get_prop raw ''valuedShares'') ''valuedShares'') (\<lambda>v.
        or_fail (bigOf (get_prop raw ''accumulatedRpvs'') ''accumulatedRpvs'') (\<lambda>r.
        or_fail (bigOf (get_prop raw ''accumulatedClaimedRewards'') ''accumulatedClaimedRewards'') (\<lambda>c.
        or_fail (numOf (get_prop raw ''enteredAt'') ''enteredAt'') (\<lambda>e.
        or_fail (numOf (get_prop raw ''updatedAt'') ''updatedAt'') (\<lambda>u.
        or_fail (numOf (get_prop raw ''stoppedAtCreation'') ''stoppedAtCreation'') (\<lambda>s.
          Inr \<lparr>ce_globalFarmId = g, ce_yieldFarmId = y, ce_valuedShares = v, ce_accumulatedRpvs = r,
               ce_accumulatedClaimedRewards = c, ce_enteredAt = e, ce_updatedAt = u, ce_stoppedAtCreation = s\<rparr>)))))))))"

fun entries_of :: "nat \<Rightarrow> json list \<Rightarrow> string + captured_entry list" where
  "entries_of i [] = Inr []"
| "entries_of i (raw # raws) =
     or_fail (entry_of i raw) (\<lambda>e. or_fail (entries_of (Suc i) raws) (\<lambda>es. Inr (e # es)))"

definition normalizeDeposit :: "json \<Rightarrow> lm_pallet \<Rightarrow> string + captured_deposit" where
  "normalizeDeposit value pallet =
     (if is_nullish value \<or> \<not> js_typeof_object value then Inl ''deposit: not a struct''
      else case get_prop value ''yieldFarmEntries'' of
        JArr entries \<Rightarrow>
          or_fail (amm_pool_id (get_prop value ''ammPoolId'') pallet) (\<lambda>pool.
          or_fail (bigOf (get_prop value ''shares'') ''shares'') (\<lambda>shares.
          or_fail (entries_of 0 entries) (\<lambda>es.
            Inr \<lparr>cd_shares = shares, cd_ammPoolId = pool, cd_entries = es\<rparr>)))
      | _ \<Rightarrow> Inl ''deposit: no yieldFarmEntries'')"

section \<open>Rows\<close>

datatype capture_status = Ok_Status | Gone_Status

record lm_entry_row =
  lm_pallet :: lm_pallet
  lm_deposit_id :: string
  lm_yield_farm_id :: int
  lm_global_farm_id :: int
  lm_valued_shares :: string
  lm_rpvs_entry :: string
  lm_claimed_raw :: string
  lm_entered_at_period :: int
  lm_updated_at_period :: int
  lm_stopped_at_creation :: int
  lm_deposit_shares :: string
  lm_amm_pool_id :: string
  lm_is_event_entry :: bool
  lm_block_height :: int
  lm_event_index :: int
  lm_event_name :: string
  lm_block_hash :: string
  lm_spec_version :: int
  lm_capture_status :: capture_status

record capture_context =
  cx_blockHash :: string
  cx_specVersion :: int

definition gone_row ::
  "capture_target \<Rightarrow> captured_deposit option \<Rightarrow> capture_context \<Rightarrow> event_farm \<Rightarrow> lm_entry_row" where
  "gone_row t deposit cx f =
     \<lparr>lm_pallet = ct_pallet t, lm_deposit_id = ct_depositId t, lm_yield_farm_id = ef_yieldFarmId f,
      lm_global_farm_id = ef_globalFarmId f, lm_valued_shares = ''0'', lm_rpvs_entry = ''0'', lm_claimed_raw = ''0'',
      lm_entered_at_period = 0, lm_updated_at_period = 0, lm_stopped_at_creation = 0,
      lm_deposit_shares = (case deposit of Some d \<Rightarrow> int_to_string (cd_shares d) | None \<Rightarrow> ''0''),
      lm_amm_pool_id = (case deposit of Some d \<Rightarrow> cd_ammPoolId d | None \<Rightarrow> []),
      lm_is_event_entry = True, lm_block_height = ct_blockHeight t, lm_event_index = ct_eventIndex t,
      lm_event_name = ct_eventName t, lm_block_hash = cx_blockHash cx, lm_spec_version = cx_specVersion cx,
      lm_capture_status = Gone_Status\<rparr>"

definition live_row ::
  "capture_target \<Rightarrow> captured_deposit \<Rightarrow> capture_context \<Rightarrow> captured_entry \<Rightarrow> lm_entry_row" where
  "live_row t deposit cx e =
     \<lparr>lm_pallet = ct_pallet t, lm_deposit_id = ct_depositId t, lm_yield_farm_id = ce_yieldFarmId e,
      lm_global_farm_id = ce_globalFarmId e, lm_valued_shares = int_to_string (ce_valuedShares e),
      lm_rpvs_entry = int_to_string (ce_accumulatedRpvs e),
      lm_claimed_raw = int_to_string (ce_accumulatedClaimedRewards e),
      lm_entered_at_period = ce_enteredAt e, lm_updated_at_period = ce_updatedAt e,
      lm_stopped_at_creation = ce_stoppedAtCreation e, lm_deposit_shares = int_to_string (cd_shares deposit),
      lm_amm_pool_id = cd_ammPoolId deposit,
      lm_is_event_entry = (ce_yieldFarmId e \<in> ef_yieldFarmId ` set (ct_eventFarms t)),
      lm_block_height = ct_blockHeight t, lm_event_index = ct_eventIndex t,
      lm_event_name = ct_eventName t, lm_block_hash = cx_blockHash cx, lm_spec_version = cx_specVersion cx,
      lm_capture_status = Ok_Status\<rparr>"

definition entryRows :: "capture_target \<Rightarrow> captured_deposit option \<Rightarrow> capture_context \<Rightarrow> lm_entry_row list" where
  "entryRows t deposit cx =
     (case deposit of
        None \<Rightarrow> map (gone_row t deposit cx) (ct_eventFarms t)
      | Some d \<Rightarrow>
          map (live_row t d cx) (cd_entries d)
          @ map (gone_row t deposit cx)
              (filter (\<lambda>f. ef_yieldFarmId f \<notin> ce_yieldFarmId ` set (cd_entries d)) (ct_eventFarms t)))"

definition compareEntryRows :: "(string \<Rightarrow> string \<Rightarrow> int) \<Rightarrow> lm_entry_row \<Rightarrow> lm_entry_row \<Rightarrow> int" where
  "compareEntryRows localeCompare =
     cmp_or (cmp_by lm_block_height) (cmp_or (\<lambda>a b. localeCompare (pallet_name (lm_pallet a)) (pallet_name (lm_pallet b)))
       (cmp_or (\<lambda>a b. localeCompare (lm_deposit_id a) (lm_deposit_id b)) (cmp_by lm_yield_farm_id)))"

section \<open>The capture\<close>

text \<open>An error is \<^const>\<open>None\<close> when what was thrown is not an \<open>Error\<close>.\<close>

record lm_runtime =
  rt_specVersion :: int
  rt_hasStorageItem :: "string \<Rightarrow> bool"
  rt_queryStorage :: "string \<Rightarrow> string \<Rightarrow> int list \<Rightarrow> string option + json list"

record lm_block =
  lb_height :: int
  lb_hash :: string
  lb_timestamp :: string

definition LM_ENTRY_WARNING_PARSER :: string where
  "LM_ENTRY_WARNING_PARSER = ''raw_lm_farm_entries''"

definition LM_ENTRY_WARNING_CODE :: string where
  "LM_ENTRY_WARNING_CODE = ''lm_entry_capture_failed''"

definition LM_ENTRY_UNPARSED_DEPOSIT_ID_CODE :: string where
  "LM_ENTRY_UNPARSED_DEPOSIT_ID_CODE = ''lm_entry_unparsed_deposit_id''"

text \<open>\<open>JSON.stringify\<close> of an ASCII text.\<close>

definition json_escape :: "char \<Rightarrow> string" where
  "json_escape c =
     (let n = of_char c :: nat; escape = CHR 0x5C in
      if c = CHR 0x22 \<or> c = escape then [escape, c]
      else if n = 8 then escape # ''b'' else if n = 9 then escape # ''t'' else if n = 10 then escape # ''n''
      else if n = 12 then escape # ''f'' else if n = 13 then escape # ''r''
      else if n < 32 then escape # ''u'' @ pad_start 4 (CHR ''0'') (nat_to_base 16 n)
      else [c])"

definition json_quote :: "string \<Rightarrow> string" where
  "json_quote s = CHR 0x22 # concat (map json_escape s) @ [CHR 0x22]"

definition unparsedWarning :: "deposit_event \<Rightarrow> lm_block \<Rightarrow> int \<Rightarrow> string \<Rightarrow> parser_warning" where
  "unparsedWarning e block specVersion ingestSource =
     \<lparr>warn_block = lb_height block, warn_timestamp = lb_timestamp block, warn_parser = LM_ENTRY_WARNING_PARSER,
      warn_source_kind = ''event'', warn_source_name = de_eventName e, warn_source_index = int_to_string (de_eventIndex e),
      warning_code = LM_ENTRY_UNPARSED_DEPOSIT_ID_CODE,
      warning_text = ''entry event has no decimal deposit id ('' @ json_quote (de_depositId e) @ '')'',
      warn_evidence = JObj [(''event_index'', JNum (de_eventIndex e)), (''event_name'', JStr (de_eventName e)),
        (''deposit_id'', JStr (de_depositId e)), (''global_farm_id'', JNum (de_globalFarmId e)),
        (''yield_farm_id'', JNum (de_yieldFarmId e)), (''spec_version'', JNum specVersion)],
      warn_ingest_source = ingestSource\<rparr>"

definition captureWarning :: "capture_target \<Rightarrow> lm_block \<Rightarrow> int \<Rightarrow> string \<Rightarrow> string option \<Rightarrow> parser_warning" where
  "captureWarning t block specVersion ingestSource error =
     \<lparr>warn_block = lb_height block, warn_timestamp = lb_timestamp block, warn_parser = LM_ENTRY_WARNING_PARSER,
      warn_source_kind = ''storage'', warn_source_name = LM_STORAGE (ct_pallet t),
      warn_source_index = pallet_name (ct_pallet t) @ '':'' @ ct_depositId t,
      warning_code = LM_ENTRY_WARNING_CODE,
      warning_text = (case error of Some message \<Rightarrow> message | None \<Rightarrow> ''LM deposit storage read failed''),
      warn_evidence = JObj [(''pallet'', JStr (pallet_name (ct_pallet t))), (''deposit_id'', JStr (ct_depositId t)),
        (''event_index'', JNum (ct_eventIndex t)), (''event_name'', JStr (ct_eventName t)),
        (''yield_farm_ids'', JArr (map (\<lambda>f. JNum (ef_yieldFarmId f)) (ct_eventFarms t))), (''spec_version'', JNum specVersion)],
      warn_ingest_source = ingestSource\<rparr>"

text \<open>The read of one pallet's targets, and what one value of it gives.\<close>

definition read_deposits :: "lm_runtime \<Rightarrow> lm_block \<Rightarrow> lm_pallet \<Rightarrow> capture_target list \<Rightarrow> string option + json list" where
  "read_deposits rt block pallet ts =
     (if \<not> rt_hasStorageItem rt (LM_STORAGE pallet)
      then Inl (Some (''spec '' @ int_to_string (rt_specVersion rt) @ '' has no '' @ LM_STORAGE pallet))
      else case rt_queryStorage rt (lb_hash block) (LM_STORAGE pallet) (map (\<lambda>t. the (parse_dec (ct_depositId t))) ts) of
        Inl e \<Rightarrow> Inl e
      | Inr values \<Rightarrow>
          if length values \<noteq> length ts
          then Inl (Some (nat_to_string (length values) @ '' values for '' @ nat_to_string (length ts) @ '' deposits''))
          else Inr values)"

definition capture_value ::
  "lm_runtime \<Rightarrow> lm_block \<Rightarrow> string \<Rightarrow> capture_target \<Rightarrow> json \<Rightarrow> lm_entry_row list \<times> parser_warning list" where
  "capture_value rt block ingestSource t value =
     (case (if is_nullish value then Inr None else map_sum id Some (normalizeDeposit value (ct_pallet t))) of
        Inr deposit \<Rightarrow> (entryRows t deposit \<lparr>cx_blockHash = lb_hash block, cx_specVersion = rt_specVersion rt\<rparr>, [])
      | Inl e \<Rightarrow> ([], [captureWarning t block (rt_specVersion rt) ingestSource (Some e)]))"

definition capture_pallet ::
  "lm_runtime \<Rightarrow> lm_block \<Rightarrow> string \<Rightarrow> capture_target list \<Rightarrow> lm_pallet \<Rightarrow> lm_entry_row list \<times> parser_warning list \<times> nat" where
  "capture_pallet rt block ingestSource targets pallet =
     (let ts = filter (\<lambda>t. ct_pallet t = pallet) targets;
          reads = (if rt_hasStorageItem rt (LM_STORAGE pallet) then 1 else 0)
      in if ts = [] then ([], [], 0)
         else case read_deposits rt block pallet ts of
           Inl e \<Rightarrow> ([], map (\<lambda>t. captureWarning t block (rt_specVersion rt) ingestSource e) ts, reads)
         | Inr values \<Rightarrow>
             (let results = map (\<lambda>(t, value). capture_value rt block ingestSource t value) (zip ts values)
              in (concat (map fst results), concat (map snd results), reads)))"

record capture_result =
  cap_rows :: "lm_entry_row list"
  cap_warnings :: "parser_warning list"
  cap_reads :: nat

definition captureLmFarmEntries ::
  "(string \<Rightarrow> string \<Rightarrow> int) \<Rightarrow> lm_block \<Rightarrow> deposit_event list \<Rightarrow> lm_runtime \<Rightarrow> string \<Rightarrow> capture_result" where
  "captureLmFarmEntries localeCompare block events rt ingestSource =
     (let unparsed = map (\<lambda>e. unparsedWarning e block (rt_specVersion rt) ingestSource) (unparsedDepositEvents events);
          targets = captureTargets events
      in if targets = [] then \<lparr>cap_rows = [], cap_warnings = unparsed, cap_reads = 0\<rparr>
         else
           (let (rows1, warnings1, reads1) = capture_pallet rt block ingestSource targets Omnipool_LM;
                (rows2, warnings2, reads2) = capture_pallet rt block ingestSource targets Xyk_LM
            in \<lparr>cap_rows = sort_cmp (compareEntryRows localeCompare) (rows1 @ rows2),
                cap_warnings = unparsed @ warnings1 @ warnings2, cap_reads = reads1 + reads2\<rparr>))"

section \<open>One event, once\<close>

text \<open>Both passes look at the first event of each identity, in block order.\<close>

fun firsts :: "string list \<Rightarrow> deposit_event list \<Rightarrow> deposit_event list" where
  "firsts seen [] = []"
| "firsts seen (e # es) =
     (if event_id e \<in> set seen then firsts seen es else e # firsts (set_add (event_id e) seen) es)"

definition readable :: "deposit_event \<Rightarrow> bool" where
  "readable e \<longleftrightarrow> map_has ENTRY_EVENTS (de_eventName e) \<and> isNumericDepositId (de_depositId e)"

definition unreadable :: "deposit_event \<Rightarrow> bool" where
  "unreadable e \<longleftrightarrow> map_has ENTRY_EVENTS (de_eventName e) \<and> \<not> isNumericDepositId (de_depositId e)"

definition pallet_of :: "deposit_event \<Rightarrow> lm_pallet" where
  "pallet_of e = the (map_of ENTRY_EVENTS (de_eventName e))"

definition event_key :: "deposit_event \<Rightarrow> string" where
  "event_key e = targetKey (pallet_of e) (de_depositId e) (de_blockHeight e)"

definition new_target :: "deposit_event \<Rightarrow> capture_target" where
  "new_target e =
     \<lparr>ct_blockHeight = de_blockHeight e, ct_pallet = pallet_of e, ct_depositId = de_depositId e,
      ct_eventIndex = de_eventIndex e, ct_eventName = de_eventName e, ct_eventFarms = []\<rparr>"

definition enter :: "(string, capture_target) jsmap \<Rightarrow> deposit_event \<Rightarrow> (string, capture_target) jsmap" where
  "enter m e =
     map_set (event_key e) (add_farm e (case map_of m (event_key e) of Some t \<Rightarrow> t | None \<Rightarrow> new_target e)) m"

lemma target_step_enter:
  "target_step (seen, m) e =
     (if \<not> readable e \<or> event_id e \<in> set seen then (seen, m) else (set_add (event_id e) seen, enter m e))"
  by (auto simp: target_step_def readable_def map_has_iff enter_def event_key_def pallet_of_def new_target_def Let_def
      split: option.split)

lemma target_fold: "snd (foldl target_step (seen, m) es) = foldl enter m (firsts seen (filter readable es))"
  by (induction es arbitrary: seen m) (auto simp: target_step_enter)

lemma unparsed_fold: "snd (foldl unparsed_step (seen, out) es) = out @ firsts seen (filter unreadable es)"
  by (induction es arbitrary: seen out) (auto simp: unparsed_step_def unreadable_def Let_def)

lemmas capture_folds =
  captureTargets_def target_fold unparsedDepositEvents_def unparsed_fold

lemma event_id_inj: "event_id e = event_id e' \<longleftrightarrow> de_blockHeight e = de_blockHeight e' \<and> de_eventIndex e = de_eventIndex e'"
  unfolding event_id_def using sep_inj [OF int_to_string_no_colon int_to_string_no_colon] by fastforce

lemma set_firsts: "set (firsts seen es) \<subseteq> set es"
  by (induction es arbitrary: seen) auto

lemma firsts_id: "e \<in> set es \<Longrightarrow> event_id e \<in> set seen \<union> event_id ` set (firsts seen es)"
proof (induction es arbitrary: seen)
  case (Cons x es)
  show ?case
  proof (cases "event_id x \<in> set seen")
    case True
    then show ?thesis using Cons.prems Cons.IH [of seen] by auto
  next
    case False
    then show ?thesis using Cons.prems Cons.IH [of "set_add (event_id x) seen"] by auto
  qed
qed simp

text \<open>An event row delivered twice is the same row.\<close>

definition rows_agree :: "deposit_event list \<Rightarrow> bool" where
  "rows_agree es \<longleftrightarrow> (\<forall>e \<in> set es. \<forall>e' \<in> set es. event_id e = event_id e' \<longrightarrow> e = e')"

lemma set_firsts_agree:
  assumes "rows_agree es"
  shows "set (firsts [] es) = set es"
proof
  show "set es \<subseteq> set (firsts [] es)"
  proof
    fix e assume e: "e \<in> set es"
    then obtain e' where "e' \<in> set (firsts [] es)" "event_id e = event_id e'" using firsts_id [OF e, of "[]"] by auto
    then show "e \<in> set (firsts [] es)" using assms e set_firsts [of "[]" es] unfolding rows_agree_def by blast
  qed
qed (rule set_firsts)

interpretation event_order: js_comparator event_order
  by unfold_locales (auto simp: event_order_def cmp_or_def cmp_by_def split: if_splits)

text \<open>A list without repeated identities is determined by its events.\<close>

definition earlier :: "deposit_event \<Rightarrow> deposit_event \<Rightarrow> bool" where
  "earlier e e' \<longleftrightarrow> event_order e e' < 0"

lemma firsts_fresh: "x \<in> set (firsts seen es) \<Longrightarrow> event_id x \<notin> set seen"
proof (induction es arbitrary: seen)
  case (Cons e es)
  then show ?case by (cases "event_id e \<in> set seen") force+
qed simp

lemma sorted_firsts:
  "sorted_wrt (\<lambda>a b. event_order a b \<le> 0) es \<Longrightarrow> sorted_wrt earlier (firsts seen es)"
proof (induction es arbitrary: seen)
  case (Cons e es)
  have "earlier e x" if x: "x \<in> set (firsts (set_add (event_id e) seen) es)" for x
  proof -
    have "event_order e x \<le> 0" using x Cons.prems set_firsts by fastforce
    moreover have "event_id x \<noteq> event_id e" using firsts_fresh [OF x] by auto
    ultimately show ?thesis by (auto simp: earlier_def event_order_def cmp_or_def cmp_by_def event_id_inj split: if_splits)
  qed
  then show ?case using Cons by auto
qed simp

lemma sorted_by_set:
  "sorted_wrt earlier xs \<Longrightarrow> sorted_wrt earlier ys \<Longrightarrow> set xs = set ys \<Longrightarrow> xs = ys"
proof (induction xs arbitrary: ys)
  case (Cons x xs)
  obtain y ys' where ys: "ys = y # ys'" using Cons.prems(3) by (cases ys) auto
  have asym: "\<not> (earlier a b \<and> earlier b a)" "\<not> earlier a a" for a b
    by (auto simp: earlier_def event_order_def cmp_or_def cmp_by_def split: if_splits)
  have "x = y" using Cons.prems asym ys by (metis insert_iff list.simps(15) sorted_wrt.simps(2))
  moreover have "x \<notin> set xs" "y \<notin> set ys'" using Cons.prems asym ys by auto
  ultimately have "set xs = set ys'" using Cons.prems(3) ys by auto
  then show ?case using Cons ys \<open>x = y\<close> by auto
qed simp

lemma firsts_by_set:
  assumes "set es = set es'" "rows_agree es"
  shows "firsts [] (filter P (sort_cmp event_order es)) = firsts [] (filter P (sort_cmp event_order es'))"
proof (rule sorted_by_set)
  have agree: "rows_agree (filter P (sort_cmp event_order es))" "rows_agree (filter P (sort_cmp event_order es'))"
    using assms by (auto simp: rows_agree_def)
  show "set (firsts [] (filter P (sort_cmp event_order es))) = set (firsts [] (filter P (sort_cmp event_order es')))"
    using assms(1) by (simp add: set_firsts_agree agree)
  have "sorted_wrt earlier (firsts [] (filter P (sort_cmp event_order xs)))" for xs
    using sorted_firsts [of "filter P (sort_cmp event_order xs)"] sorted_wrt_filter [OF event_order.sorted_sort] by blast
  then show "sorted_wrt earlier (firsts [] (filter P (sort_cmp event_order es)))"
    "sorted_wrt earlier (firsts [] (filter P (sort_cmp event_order es')))" by auto
qed

section \<open>Targets\<close>

lemma targetKey_inj:
  assumes "isNumericDepositId d" "isNumericDepositId d'"
  shows "targetKey p d h = targetKey p' d' h' \<longleftrightarrow> p = p' \<and> d = d' \<and> h = h'"
proof
  assume eq: "targetKey p d h = targetKey p' d' h'"
  have names: "CHR '':'' \<notin> set (pallet_name q)" for q by (cases q) auto
  have digits: "CHR '':'' \<notin> set d" "CHR '':'' \<notin> set d'" using assms by (auto simp: isNumericDepositId_def list_all_iff)
  have "pallet_name p = pallet_name p' \<and> d @ CHR '':'' # int_to_string h = d' @ CHR '':'' # int_to_string h'"
    using sep_inj [OF names names] eq by (simp add: targetKey_def)
  moreover from this have "d = d' \<and> int_to_string h = int_to_string h'" using sep_inj [OF digits] by blast
  ultimately show "p = p' \<and> d = d' \<and> h = h'" by (cases p; cases p') auto
qed simp

text \<open>What the targets are of the events behind them.\<close>

definition farm_of :: "deposit_event \<Rightarrow> int" where
  "farm_of e = de_yieldFarmId e"

definition target_for :: "deposit_event \<Rightarrow> capture_target \<Rightarrow> bool" where
  "target_for e t \<longleftrightarrow> ct_pallet t = pallet_of e \<and> ct_depositId t = de_depositId e \<and> ct_blockHeight t = de_blockHeight e"

definition targets_ok :: "deposit_event list \<Rightarrow> (string, capture_target) jsmap \<Rightarrow> bool" where
  "targets_ok es m \<longleftrightarrow>
     map_wf m
     \<and> (\<forall>e \<in> set es. \<exists>t. map_of m (event_key e) = Some t \<and> farm_of e \<in> ef_yieldFarmId ` set (ct_eventFarms t))
     \<and> (\<forall>(k, t) \<in> set m. \<exists>e \<in> set es. k = event_key e \<and> target_for e t)
     \<and> (\<forall>(k, t) \<in> set m. distinct (map ef_yieldFarmId (ct_eventFarms t))
         \<and> (\<forall>f \<in> set (ct_eventFarms t). \<exists>e \<in> set es. k = event_key e \<and> farm_of e = ef_yieldFarmId f))"

lemma targets_okD:
  assumes "targets_ok es m"
  shows "map_wf m"
    "e \<in> set es \<Longrightarrow> \<exists>t. map_of m (event_key e) = Some t \<and> farm_of e \<in> ef_yieldFarmId ` set (ct_eventFarms t)"
    "(k, t) \<in> set m \<Longrightarrow> \<exists>e \<in> set es. k = event_key e \<and> target_for e t"
    "(k, t) \<in> set m \<Longrightarrow> distinct (map ef_yieldFarmId (ct_eventFarms t))"
    "(k, t) \<in> set m \<Longrightarrow> f \<in> set (ct_eventFarms t) \<Longrightarrow> \<exists>e \<in> set es. k = event_key e \<and> farm_of e = ef_yieldFarmId f"
  using assms unfolding targets_ok_def by fastforce+

lemma add_farm_fields [simp]:
  "ct_pallet (add_farm e t) = ct_pallet t" "ct_depositId (add_farm e t) = ct_depositId t"
  "ct_blockHeight (add_farm e t) = ct_blockHeight t"
  "ef_yieldFarmId ` set (ct_eventFarms (add_farm e t)) = insert (farm_of e) (ef_yieldFarmId ` set (ct_eventFarms t))"
  "distinct (map ef_yieldFarmId (ct_eventFarms (add_farm e t))) = distinct (map ef_yieldFarmId (ct_eventFarms t))"
  by (auto simp: add_farm_def farm_of_def) (metis imageI)

lemma add_farm_farms:
  "f \<in> set (ct_eventFarms (add_farm e t)) \<Longrightarrow> f \<in> set (ct_eventFarms t) \<or> ef_yieldFarmId f = farm_of e"
  by (auto simp: add_farm_def farm_of_def split: if_splits)

lemma targets_ok_enter:
  assumes ok: "targets_ok es m"
  shows "targets_ok (es @ [e]) (enter m e)"
proof -
  let ?k = "event_key e"
  define t where "t = (case map_of m ?k of Some t \<Rightarrow> t | None \<Rightarrow> new_target e)"
  have enter: "enter m e = map_set ?k (add_farm e t) m" by (simp add: enter_def t_def)
  have old: "(?k, t) \<in> set m \<or> t = new_target e"
    by (auto simp: t_def split: option.split dest: map_of_SomeD)
  have t1: "\<exists>x \<in> set (es @ [e]). ?k = event_key x \<and> target_for x t"
    using old ok by (auto simp: targets_ok_def target_for_def new_target_def)
  have t2: "distinct (map ef_yieldFarmId (ct_eventFarms t))"
    and t3: "f \<in> set (ct_eventFarms t) \<Longrightarrow> \<exists>x \<in> set es. ?k = event_key x \<and> farm_of x = ef_yieldFarmId f" for f
    using old ok by (auto simp: targets_ok_def new_target_def)
  have mem: "p = (?k, add_farm e t) \<or> p \<in> set m" if "p \<in> set (enter m e)" for p
    using that map_set_entries [of ?k "add_farm e t" m] by (auto simp: enter)
  have t4: "farm_of x \<in> ef_yieldFarmId ` set (ct_eventFarms t)" if x: "x \<in> set es" "event_key x = ?k" for x
  proof -
    obtain t' where "map_of m ?k = Some t'" "farm_of x \<in> ef_yieldFarmId ` set (ct_eventFarms t')"
      using targets_okD(2) [OF ok x(1)] x(2) by auto
    then show ?thesis by (simp add: t_def)
  qed
  show ?thesis
    unfolding targets_ok_def
  proof (intro conjI)
    show "map_wf (enter m e)" using ok by (simp add: enter targets_ok_def)
    show "\<forall>x \<in> set (es @ [e]). \<exists>t. map_of (enter m e) (event_key x) = Some t
        \<and> farm_of x \<in> ef_yieldFarmId ` set (ct_eventFarms t)"
    proof
      fix x assume x: "x \<in> set (es @ [e])"
      show "\<exists>t. map_of (enter m e) (event_key x) = Some t \<and> farm_of x \<in> ef_yieldFarmId ` set (ct_eventFarms t)"
      proof (cases "event_key x = ?k")
        case True
        then show ?thesis using x t4 by (cases "x = e") (auto simp: enter)
      next
        case False
        then have "x \<in> set es" using x by auto
        then show ?thesis using ok False by (auto simp: enter targets_ok_def)
      qed
    qed
    show "\<forall>(k, t) \<in> set (enter m e). \<exists>x \<in> set (es @ [e]). k = event_key x \<and> target_for x t"
    proof clarify
      fix k t' assume kt: "(k, t') \<in> set (enter m e)"
      show "\<exists>x \<in> set (es @ [e]). k = event_key x \<and> target_for x t'"
        using mem [OF kt] t1 targets_okD(3) [OF ok, of k t'] by (auto simp: target_for_def)
    qed
    show "\<forall>(k, t) \<in> set (enter m e). distinct (map ef_yieldFarmId (ct_eventFarms t))
        \<and> (\<forall>f \<in> set (ct_eventFarms t). \<exists>x \<in> set (es @ [e]). k = event_key x \<and> farm_of x = ef_yieldFarmId f)"
    proof clarify
      fix k t' assume kt: "(k, t') \<in> set (enter m e)"
      show "distinct (map ef_yieldFarmId (ct_eventFarms t'))
        \<and> (\<forall>f \<in> set (ct_eventFarms t'). \<exists>x \<in> set (es @ [e]). k = event_key x \<and> farm_of x = ef_yieldFarmId f)"
      proof (cases "(k, t') \<in> set m")
        case True
        then show ?thesis using ok unfolding targets_ok_def by fastforce
      next
        case False
        then have "k = ?k" "t' = add_farm e t" using mem [OF kt] by auto
        then show ?thesis using t2 t3 add_farm_farms by fastforce
      qed
    qed
  qed
qed

lemma targets_ok_all: "targets_ok es (foldl enter [] es)"
  by (induction es rule: rev_induct) (auto simp: targets_ok_enter, simp add: targets_ok_def)

definition entry_events :: "deposit_event list \<Rightarrow> deposit_event list" where
  "entry_events events = firsts [] (filter readable (sort_cmp event_order events))"

lemma captureTargets_eq: "captureTargets events = map snd (foldl enter [] (entry_events events))"
  by (simp add: captureTargets_def target_fold entry_events_def)

lemma set_entry_events: "rows_agree events \<Longrightarrow> set (entry_events events) = {e \<in> set events. readable e}"
  unfolding entry_events_def by (subst set_firsts_agree) (auto simp: rows_agree_def)

lemma entry_events_sub: "set (entry_events events) \<subseteq> {e \<in> set events. readable e}"
  using set_firsts [of "[]" "filter readable (sort_cmp event_order events)"] by (auto simp: entry_events_def)

lemma target_exists:
  assumes "rows_agree events" "e \<in> set events" "readable e"
  shows "\<exists>t \<in> set (captureTargets events). target_for e t \<and> farm_of e \<in> ef_yieldFarmId ` set (ct_eventFarms t)"
proof -
  let ?m = "foldl enter [] (entry_events events)"
  note ok = targets_okD [OF targets_ok_all [of "entry_events events"]]
  have e: "e \<in> set (entry_events events)" using assms by (simp add: set_entry_events)
  then obtain t where t: "map_of ?m (event_key e) = Some t" "farm_of e \<in> ef_yieldFarmId ` set (ct_eventFarms t)"
    using ok(2) by blast
  obtain x where x: "x \<in> set (entry_events events)" "event_key e = event_key x" "target_for x t"
    using ok(3) [OF map_of_SomeD [OF t(1)]] by blast
  have "readable x" using x(1) entry_events_sub by blast
  then have "target_for e t"
    using x assms(3) by (auto simp: target_for_def event_key_def targetKey_inj readable_def)
  then show ?thesis using t map_of_SomeD [OF t(1)] by (force simp: captureTargets_eq)
qed

lemma target_origin:
  assumes "t \<in> set (captureTargets events)"
  shows "\<exists>e \<in> set events. readable e \<and> target_for e t" "distinct (map ef_yieldFarmId (ct_eventFarms t))"
    "f \<in> set (ct_eventFarms t) \<Longrightarrow> \<exists>e \<in> set events. readable e \<and> target_for e t \<and> farm_of e = ef_yieldFarmId f"
proof -
  note ok = targets_okD [OF targets_ok_all [of "entry_events events"]]
  obtain k where k: "(k, t) \<in> set (foldl enter [] (entry_events events))"
    using assms by (auto simp: captureTargets_eq)
  then obtain e where e: "e \<in> set (entry_events events)" "k = event_key e" "target_for e t" using ok(3) by blast
  then show "\<exists>e \<in> set events. readable e \<and> target_for e t" using entry_events_sub by blast
  show "distinct (map ef_yieldFarmId (ct_eventFarms t))" by (rule ok(4) [OF k])
  show "\<exists>e \<in> set events. readable e \<and> target_for e t \<and> farm_of e = ef_yieldFarmId f" if f: "f \<in> set (ct_eventFarms t)"
  proof -
    obtain x where x: "x \<in> set (entry_events events)" "k = event_key x" "farm_of x = ef_yieldFarmId f"
      using ok(5) [OF k f] by blast
    have r: "readable x" "readable e" using x(1) e(1) entry_events_sub by blast+
    then have "target_for x t" using x e by (auto simp: target_for_def event_key_def targetKey_inj readable_def)
    then show ?thesis using x r entry_events_sub by blast
  qed
qed

text \<open>Targets are told apart by pallet, deposit and block.\<close>

definition target_key :: "capture_target \<Rightarrow> lm_pallet \<times> string \<times> int" where
  "target_key t = (ct_pallet t, ct_depositId t, ct_blockHeight t)"

lemma distinct_targets: "distinct (map target_key (captureTargets events))"
proof -
  let ?m = "foldl enter [] (entry_events events)"
  note ok = targets_okD [OF targets_ok_all [of "entry_events events"]]
  have key: "k = targetKey (ct_pallet t) (ct_depositId t) (ct_blockHeight t)" if "(k, t) \<in> set ?m" for k t
    using ok(3) [OF that] by (auto simp: event_key_def target_for_def)
  have "inj_on (\<lambda>p. target_key (snd p)) (set ?m)"
  proof (rule inj_onI, clarify)
    fix k t k' t' assume m: "(k, t) \<in> set ?m" "(k', t') \<in> set ?m" and "target_key (snd (k, t)) = target_key (snd (k', t'))"
    then have "k = k'" using key [OF m(1)] key [OF m(2)] by (simp add: target_key_def)
    moreover have "map_wf ?m" by (rule ok(1))
    ultimately show "k = k' \<and> t = t'" using m eq_key_imp_eq_value by fastforce
  qed
  moreover have "distinct ?m" using ok(1) distinct_map by blast
  ultimately show ?thesis by (simp add: captureTargets_eq distinct_map comp_def inj_on_def)
qed

section \<open>What a capture writes\<close>

text \<open>The read of one target, as the capture sees it: nothing when its pallet's read failed.\<close>

definition target_value :: "lm_runtime \<Rightarrow> lm_block \<Rightarrow> capture_target list \<Rightarrow> capture_target \<Rightarrow> json \<Rightarrow> bool" where
  "target_value rt block targets t value \<longleftrightarrow>
     (let ts = filter (\<lambda>u. ct_pallet u = ct_pallet t) targets
      in \<exists>values. read_deposits rt block (ct_pallet t) ts = Inr values \<and> (t, value) \<in> set (zip ts values))"

lemma read_deposits_length: "read_deposits rt block pallet ts = Inr values \<Longrightarrow> length values = length ts"
  by (auto simp: read_deposits_def split: if_splits sum.splits)

lemma capture_pallet_rows:
  "row \<in> set (fst (capture_pallet rt block src targets pallet)) \<longleftrightarrow>
     (\<exists>t \<in> set targets. \<exists>value. ct_pallet t = pallet \<and> target_value rt block targets t value
        \<and> row \<in> set (fst (capture_value rt block src t value)))"
proof -
  let ?ts = "filter (\<lambda>u. ct_pallet u = pallet) targets"
  have in_targets: "(t, v) \<in> set (zip ?ts vs) \<Longrightarrow> t \<in> set targets \<and> ct_pallet t = pallet" for t v vs
    by (auto dest: set_zip_leftD)
  have tv: "target_value rt block targets t v \<longleftrightarrow>
      (\<exists>values. read_deposits rt block pallet ?ts = Inr values \<and> (t, v) \<in> set (zip ?ts values))" if "ct_pallet t = pallet" for t v
    using that by (simp add: target_value_def Let_def)
  show ?thesis
  proof (cases "?ts = []")
    case True
    then have "\<forall>t \<in> set targets. ct_pallet t \<noteq> pallet" by (simp add: filter_empty_conv)
    then show ?thesis using True by (auto simp: capture_pallet_def)
  next
    case False
    note ts = this
    show ?thesis
    proof (cases "read_deposits rt block pallet ?ts")
      case (Inl e)
      then show ?thesis using ts tv by (auto simp: capture_pallet_def Let_def)
    next
      case (Inr vs)
      have row: "row \<in> set (fst (capture_pallet rt block src targets pallet)) \<longleftrightarrow>
          (\<exists>t v. (t, v) \<in> set (zip ?ts vs) \<and> row \<in> set (fst (capture_value rt block src t v)))"
        using ts Inr by (auto simp: capture_pallet_def Let_def Bex_def)
      have tv': "(t, v) \<in> set (zip ?ts vs) \<longleftrightarrow> t \<in> set targets \<and> ct_pallet t = pallet \<and> target_value rt block targets t v" for t v
        using tv [of t v] in_targets [of t v vs] Inr by (cases "ct_pallet t = pallet") auto
      show ?thesis unfolding row tv' by auto
    qed
  qed
qed

lemma capture_pallet_answers:
  assumes "t \<in> set targets" "ct_pallet t = pallet"
  shows "(\<exists>value. target_value rt block targets t value)
    \<or> (\<exists>e. captureWarning t block (rt_specVersion rt) src e \<in> set (fst (snd (capture_pallet rt block src targets pallet))))"
proof -
  let ?ts = "filter (\<lambda>u. ct_pallet u = pallet) targets"
  have t: "t \<in> set ?ts" using assms by simp
  show ?thesis
  proof (cases "read_deposits rt block pallet ?ts")
    case (Inl e)
    moreover have "?ts \<noteq> []" using t by (metis empty_iff empty_set)
    ultimately show ?thesis using t by (auto simp: capture_pallet_def Let_def)
  next
    case (Inr vs)
    then have "length vs = length ?ts" by (rule read_deposits_length)
    then obtain v where "(t, v) \<in> set (zip ?ts vs)" using t by (metis in_set_impl_in_set_zip1)
    then show ?thesis using Inr assms(2) by (auto simp: target_value_def Let_def)
  qed
qed

lemma capture_pallet_value_warning:
  "target_value rt block targets t value \<Longrightarrow> ct_pallet t = pallet \<Longrightarrow>
   set (snd (capture_value rt block src t value)) \<subseteq> set (fst (snd (capture_pallet rt block src targets pallet)))"
  by (cases "filter (\<lambda>u. ct_pallet u = pallet) targets = []") (force simp: capture_pallet_def target_value_def Let_def)+

lemma capture_rows:
  "row \<in> set (cap_rows (captureLmFarmEntries lc block events rt src)) \<longleftrightarrow>
     (\<exists>t \<in> set (captureTargets events). \<exists>value. target_value rt block (captureTargets events) t value
        \<and> row \<in> set (fst (capture_value rt block src t value)))"
proof -
  let ?ts = "captureTargets events"
  have "row \<in> set (fst (capture_pallet rt block src ?ts Omnipool_LM)) \<or> row \<in> set (fst (capture_pallet rt block src ?ts Xyk_LM))
    \<longleftrightarrow> (\<exists>t \<in> set ?ts. \<exists>value. target_value rt block ?ts t value \<and> row \<in> set (fst (capture_value rt block src t value)))"
    unfolding capture_pallet_rows by (meson lm_pallet.exhaust)
  then show ?thesis by (auto simp: captureLmFarmEntries_def Let_def split: prod.splits)
qed

lemma capture_warnings:
  "set (cap_warnings (captureLmFarmEntries lc block events rt src)) =
     (\<lambda>e. unparsedWarning e block (rt_specVersion rt) src) ` set (unparsedDepositEvents events)
     \<union> set (fst (snd (capture_pallet rt block src (captureTargets events) Omnipool_LM)))
     \<union> set (fst (snd (capture_pallet rt block src (captureTargets events) Xyk_LM)))"
  by (auto simp: captureLmFarmEntries_def capture_pallet_def Let_def split: prod.splits)

lemma entryRows_farm:
  "y \<in> ef_yieldFarmId ` set (ct_eventFarms t) \<Longrightarrow>
   \<exists>row \<in> set (entryRows t deposit cx). lm_yield_farm_id row = y \<and> lm_is_event_entry row
     \<and> lm_pallet row = ct_pallet t \<and> lm_deposit_id row = ct_depositId t \<and> lm_block_height row = ct_blockHeight t"
proof (cases deposit)
  case (Some d)
  assume "y \<in> ef_yieldFarmId ` set (ct_eventFarms t)"
  then obtain f where f: "f \<in> set (ct_eventFarms t)" "y = ef_yieldFarmId f" by auto
  show ?thesis
  proof (cases "y \<in> ce_yieldFarmId ` set (cd_entries d)")
    case True
    then obtain e where e: "e \<in> set (cd_entries d)" "ce_yieldFarmId e = y" by auto
    then have "live_row t d cx e \<in> set (entryRows t deposit cx)" using Some by (simp add: entryRows_def)
    then show ?thesis using e f by (auto simp: live_row_def intro!: bexI)
  next
    case False
    then have "gone_row t deposit cx f \<in> set (entryRows t deposit cx)" using f Some by (auto simp: entryRows_def)
    then show ?thesis using f by (auto simp: gone_row_def intro!: bexI)
  qed
qed (auto simp: entryRows_def gone_row_def)

lemma capture_value_rows:
  assumes "row \<in> set (fst (capture_value rt block src t v))"
  shows "(lm_pallet row, lm_deposit_id row, lm_block_height row) = target_key t
    \<and> (case lm_capture_status row of
         Ok_Status \<Rightarrow> \<exists>d e. normalizeDeposit v (ct_pallet t) = Inr d \<and> e \<in> set (cd_entries d)
           \<and> lm_yield_farm_id row = ce_yieldFarmId e \<and> lm_valued_shares row = int_to_string (ce_valuedShares e)
           \<and> lm_rpvs_entry row = int_to_string (ce_accumulatedRpvs e)
           \<and> lm_claimed_raw row = int_to_string (ce_accumulatedClaimedRewards e)
           \<and> lm_deposit_shares row = int_to_string (cd_shares d)
       | Gone_Status \<Rightarrow> is_nullish v \<or> (\<exists>d. normalizeDeposit v (ct_pallet t) = Inr d
           \<and> lm_yield_farm_id row \<notin> ce_yieldFarmId ` set (cd_entries d)))"
proof (cases "is_nullish v")
  case True
  then show ?thesis using assms by (auto simp: capture_value_def entryRows_def gone_row_def target_key_def)
next
  case False
  then obtain d where d: "normalizeDeposit v (ct_pallet t) = Inr d"
    using assms by (cases "normalizeDeposit v (ct_pallet t)") (auto simp: capture_value_def)
  then show ?thesis using assms False
    by (auto simp: capture_value_def entryRows_def gone_row_def live_row_def target_key_def)
qed

section \<open>Properties\<close>

text \<open>A block with an entry delivered twice, one whose pallet has no storage item, and one with an unreadable id.\<close>

definition example_lm_events :: "deposit_event list" where
  "example_lm_events =
     entryEventsFromRawEvents
       (map (\<lambda>(i, name, args). \<lparr>es_block_height = 5, es_event_index = i, es_event_name = name, es_args = args\<rparr>)
         [(4, ''XYKLiquidityMining.SharesDeposited'', JObj [(''depositId'', JStr ''9''), (''yieldFarmId'', JNum 6)]),
          (2, ''OmnipoolLiquidityMining.SharesDeposited'',
             JObj [(''depositId'', JStr ''7''), (''globalFarmId'', JNum 1), (''yieldFarmId'', JNum 3)]),
          (3, ''Tokens.Transfer'', JNull),
          (8, ''OmnipoolLiquidityMining.SharesRedeposited'', JObj [(''yieldFarmId'', JNum 3)]),
          (2, ''OmnipoolLiquidityMining.SharesDeposited'',
             JObj [(''depositId'', JStr ''7''), (''globalFarmId'', JNum 1), (''yieldFarmId'', JNum 3)])])"

definition example_deposit :: json where
  "example_deposit =
     JObj [(''ammPoolId'', JNum 5), (''shares'', JBig 100),
       (''yieldFarmEntries'', JArr [JObj [(''globalFarmId'', JNum 1), (''yieldFarmId'', JNum 3), (''valuedShares'', JBig 40),
          (''accumulatedRpvs'', JBig 2), (''accumulatedClaimedRewards'', JBig 0), (''enteredAt'', JNum 11),
          (''updatedAt'', JNum 11), (''stoppedAtCreation'', JNum 0)]])]"

definition example_lm_runtime :: lm_runtime where
  "example_lm_runtime =
     \<lparr>rt_specVersion = 400, rt_hasStorageItem = (\<lambda>name. name = ''OmnipoolWarehouseLM.Deposit''),
      rt_queryStorage = (\<lambda>hash name keys. Inr (map (\<lambda>_. example_deposit) keys))\<rparr>"

definition example_capture :: capture_result where
  "example_capture = captureLmFarmEntries (\<lambda>_ _. 0) \<lparr>lb_height = 5, lb_hash = ''0x05'', lb_timestamp = ''t''\<rparr>
     example_lm_events example_lm_runtime ''rpc''"

text \<open>
  C8: No entry is lost in silence. Every entry event of a block, whatever its deposit id, whatever the storage read
  returns or throws and however often its row is delivered, is answered: by a row of its own deposit and farm marked as
  the event's entry, or by the warning the reconcile reads (of the deposit, or of the event when its id is no number).
\<close>

theorem no_entry_lost:
  assumes "rows_agree events" "e \<in> set events" "map_of ENTRY_EVENTS (de_eventName e) = Some pallet"
  shows "if isNumericDepositId (de_depositId e)
    then (\<exists>row \<in> set (cap_rows (captureLmFarmEntries lc block events rt src)).
            lm_pallet row = pallet \<and> lm_deposit_id row = de_depositId e \<and> lm_yield_farm_id row = de_yieldFarmId e
            \<and> lm_block_height row = de_blockHeight e \<and> lm_is_event_entry row)
       \<or> (\<exists>w \<in> set (cap_warnings (captureLmFarmEntries lc block events rt src)).
            warning_code w = LM_ENTRY_WARNING_CODE
            \<and> warn_source_index w = pallet_name pallet @ '':'' @ de_depositId e)
    else (\<exists>w \<in> set (cap_warnings (captureLmFarmEntries lc block events rt src)).
            warning_code w = LM_ENTRY_UNPARSED_DEPOSIT_ID_CODE
            \<and> warn_source_index w = int_to_string (de_eventIndex e))"
proof (cases "isNumericDepositId (de_depositId e)")
  case True
  have r: "readable e" "pallet_of e = pallet" using assms(3) True by (auto simp: readable_def map_has_iff pallet_of_def)
  obtain t where t: "t \<in> set (captureTargets events)" "target_for e t" "farm_of e \<in> ef_yieldFarmId ` set (ct_eventFarms t)"
    using target_exists [OF assms(1,2) r(1)] by blast
  have pallet: "ct_pallet t = pallet" "ct_depositId t = de_depositId e" "ct_blockHeight t = de_blockHeight e"
    using t(2) r by (auto simp: target_for_def)
  let ?warnings = "set (fst (snd (capture_pallet rt block src (captureTargets events) pallet)))"
  have sub: "?warnings \<subseteq> set (cap_warnings (captureLmFarmEntries lc block events rt src))"
    by (cases pallet) (auto simp: capture_warnings)
  have warned: ?thesis if "captureWarning t block (rt_specVersion rt) src m \<in> ?warnings" for m
    using that sub True pallet by (fastforce simp: captureWarning_def)
  from capture_pallet_answers [OF t(1) pallet(1), of rt block src] show ?thesis
  proof (elim disjE exE)
    fix x assume v: "target_value rt block (captureTargets events) t x"
    note warnings = capture_pallet_value_warning [OF v pallet(1), of src]
    show ?thesis
    proof (cases "snd (capture_value rt block src t x) = []")
      case False
      then obtain m where "captureWarning t block (rt_specVersion rt) src m \<in> ?warnings"
        using warnings by (auto simp: capture_value_def split: sum.splits if_splits)
      then show ?thesis by (rule warned)
    next
      case none: True
      then obtain deposit cx where "fst (capture_value rt block src t x) = entryRows t deposit cx"
        by (auto simp: capture_value_def split: sum.splits if_splits)
      then obtain row where row: "row \<in> set (fst (capture_value rt block src t x))" "lm_yield_farm_id row = de_yieldFarmId e"
          "lm_is_event_entry row" "lm_pallet row = pallet" "lm_deposit_id row = de_depositId e" "lm_block_height row = de_blockHeight e"
        using entryRows_farm [OF t(3), of deposit cx] pallet by (auto simp: farm_of_def)
      then have "row \<in> set (cap_rows (captureLmFarmEntries lc block events rt src))"
        using t(1) v unfolding capture_rows by blast
      then show ?thesis using row True by auto
    qed
  qed (rule warned)
next
  case False
  have "e \<in> set (filter unreadable (sort_cmp event_order events))"
    using False assms(2,3) by (auto simp: unreadable_def map_has_iff)
  moreover have "rows_agree (filter unreadable (sort_cmp event_order events))" using assms(1) by (auto simp: rows_agree_def)
  ultimately have "e \<in> set (unparsedDepositEvents events)" by (simp add: capture_folds set_firsts_agree)
  then show ?thesis using False by (auto simp: capture_warnings unparsedWarning_def intro!: bexI)
qed

theorem no_entry_lost_witness:
  "((\<exists>row \<in> set (cap_rows example_capture).
        lm_pallet row = Omnipool_LM \<and> lm_deposit_id row = ''7'' \<and> lm_yield_farm_id row = 3 \<and> lm_block_height row = 5
        \<and> lm_is_event_entry row)
     \<or> (\<exists>w \<in> set (cap_warnings example_capture).
          warning_code w = LM_ENTRY_WARNING_CODE \<and> warn_source_index w = ''omnipool:7''))
   \<and> (\<exists>w \<in> set (cap_warnings example_capture).
        warning_code w = LM_ENTRY_UNPARSED_DEPOSIT_ID_CODE \<and> warn_source_index w = ''8'')"
proof -
  have agree: "rows_agree example_lm_events" by code_simp
  have num: "isNumericDepositId ''7''" "\<not> isNumericDepositId []" "int_to_string 8 = ''8''" by code_simp+
  let ?e = "example_lm_events ! 1" and ?e' = "example_lm_events ! 2"
  have e: "?e \<in> set example_lm_events" "map_of ENTRY_EVENTS (de_eventName ?e) = Some Omnipool_LM"
    "?e' \<in> set example_lm_events" "map_of ENTRY_EVENTS (de_eventName ?e') = Some Omnipool_LM" by code_simp+
  have f: "de_depositId ?e = ''7''" "de_yieldFarmId ?e = 3" "de_blockHeight ?e = 5" "de_depositId ?e' = []" "de_eventIndex ?e' = 8"
    by code_simp+
  note inst = no_entry_lost [OF agree, where lc = "\<lambda>_ _. 0" and block = "\<lparr>lb_height = 5, lb_hash = ''0x05'', lb_timestamp = ''t''\<rparr>"
    and rt = example_lm_runtime and src = "''rpc''", folded example_capture_def]
  show ?thesis using inst [OF e(1,2), unfolded f] inst [OF e(3,4), unfolded f] by (simp add: num)
qed

text \<open>A replay writes the same rows. The capture depends on the set of event rows only: rows delivered in another order
  or more than once (a source read before its merge) give the same targets, rows, warnings and reads, in the same order.
\<close>

lemma capture_replays:
  assumes "rows_agree events" "set events' = set events"
  shows "captureLmFarmEntries lc block events' rt src = captureLmFarmEntries lc block events rt src"
  using firsts_by_set [OF assms(2) [symmetric] assms(1)]
  by (simp add: captureLmFarmEntries_def capture_folds)

text \<open>
  C9: Rows state what the chain answered. A row is written for a target only from a read of that deposit that
  succeeded: an \<open>ok\<close> row carries an entry the decoded deposit holds, and a \<open>gone_at_block_end\<close> row is written only when
  the chain held no deposit or the deposit no such farm, never after a failed read.
\<close>

theorem rows_state_storage:
  assumes "row \<in> set (cap_rows (captureLmFarmEntries lc block events rt src))"
  shows "\<exists>t \<in> set (captureTargets events). \<exists>v. target_value rt block (captureTargets events) t v
    \<and> (lm_pallet row, lm_deposit_id row, lm_block_height row) = target_key t
    \<and> (case lm_capture_status row of
         Ok_Status \<Rightarrow> \<exists>d e. normalizeDeposit v (ct_pallet t) = Inr d \<and> e \<in> set (cd_entries d)
           \<and> lm_yield_farm_id row = ce_yieldFarmId e \<and> lm_valued_shares row = int_to_string (ce_valuedShares e)
           \<and> lm_rpvs_entry row = int_to_string (ce_accumulatedRpvs e)
           \<and> lm_claimed_raw row = int_to_string (ce_accumulatedClaimedRewards e)
           \<and> lm_deposit_shares row = int_to_string (cd_shares d)
       | Gone_Status \<Rightarrow> is_nullish v \<or> (\<exists>d. normalizeDeposit v (ct_pallet t) = Inr d
           \<and> lm_yield_farm_id row \<notin> ce_yieldFarmId ` set (cd_entries d)))"
  using assms capture_value_rows unfolding capture_rows by blast

theorem rows_state_storage_witness:
  "\<exists>v d e. normalizeDeposit v Omnipool_LM = Inr d \<and> e \<in> set (cd_entries d) \<and> ce_yieldFarmId e = 3
    \<and> int_to_string (ce_valuedShares e) = ''40'' \<and> int_to_string (cd_shares d) = ''100''"
proof -
  obtain row where row: "cap_rows example_capture = [row]" "lm_pallet row = Omnipool_LM" "lm_capture_status row = Ok_Status"
      "lm_yield_farm_id row = 3" "lm_valued_shares row = ''40''" "lm_deposit_shares row = ''100''"
  proof -
    have "cap_rows example_capture = [hd (cap_rows example_capture)]" "lm_pallet (hd (cap_rows example_capture)) = Omnipool_LM"
      "lm_capture_status (hd (cap_rows example_capture)) = Ok_Status" "lm_yield_farm_id (hd (cap_rows example_capture)) = 3"
      "lm_valued_shares (hd (cap_rows example_capture)) = ''40''" "lm_deposit_shares (hd (cap_rows example_capture)) = ''100''"
      by code_simp+
    then show ?thesis by (rule that)
  qed
  then have "row \<in> set (cap_rows example_capture)" by simp
  from rows_state_storage [OF this [unfolded example_capture_def]] row show ?thesis
    by (fastforce simp: target_key_def)
qed

text \<open>The keys of the rows.\<close>

definition row_key :: "lm_entry_row \<Rightarrow> (lm_pallet \<times> string \<times> int) \<times> int" where
  "row_key row = ((lm_pallet row, lm_deposit_id row, lm_block_height row), lm_yield_farm_id row)"

lemma entryRows_keys:
  assumes "distinct (map ef_yieldFarmId (ct_eventFarms t))"
    and "\<And>d. deposit = Some d \<Longrightarrow> distinct (map ce_yieldFarmId (cd_entries d))"
  shows "distinct (map row_key (entryRows t deposit cx))" "row \<in> set (entryRows t deposit cx) \<Longrightarrow> fst (row_key row) = target_key t"
proof -
  have keys: "map row_key (map (gone_row t dd cx) fs) = map (Pair (target_key t)) (map ef_yieldFarmId fs)"
    "map row_key (map (live_row t d cx) es) = map (Pair (target_key t)) (map ce_yieldFarmId es)" for fs d es dd
    by (simp_all add: row_key_def gone_row_def live_row_def target_key_def)
  have inj: "distinct (map (Pair k) xs) = distinct xs" for k :: "lm_pallet \<times> string \<times> int" and xs :: "int list"
    by (auto simp: distinct_map inj_on_def)
  show "distinct (map row_key (entryRows t deposit cx))"
  proof (cases deposit)
    case None
    have "map row_key (entryRows t deposit cx) = map (Pair (target_key t)) (map ef_yieldFarmId (ct_eventFarms t))"
      using None by (simp only: entryRows_def option.case keys)
    then show ?thesis using assms(1) by (simp only: inj)
  next
    case (Some d)
    let ?fs = "filter (\<lambda>f. ef_yieldFarmId f \<notin> ce_yieldFarmId ` set (cd_entries d)) (ct_eventFarms t)"
    have "map row_key (entryRows t deposit cx) =
        map (Pair (target_key t)) (map ce_yieldFarmId (cd_entries d) @ map ef_yieldFarmId ?fs)"
      using Some by (simp add: entryRows_def keys del: map_map)
    moreover have "distinct (map ce_yieldFarmId (cd_entries d) @ map ef_yieldFarmId ?fs)"
      
      using assms(2) [OF Some] distinct_map_filter [OF assms(1)] by (auto simp: image_iff)
    ultimately show ?thesis by (simp only: inj)
  qed
  show "fst (row_key row) = target_key t" if "row \<in> set (entryRows t deposit cx)"
    using that by (auto simp: entryRows_def row_key_def gone_row_def live_row_def target_key_def split: option.splits)
qed

lemma distinct_blocks:
  assumes "distinct (map key ts)"
    and "\<And>t v. (t, v) \<in> set (zip ts vs) \<Longrightarrow> distinct (map rk (g t v)) \<and> (\<forall>r \<in> set (g t v). fst (rk r) = key t)"
  shows "distinct (map rk (concat (map (\<lambda>(t, v). g t v) (zip ts vs))))
    \<and> fst ` rk ` set (concat (map (\<lambda>(t, v). g t v) (zip ts vs))) \<subseteq> key ` set ts"
  using assms
proof (induction ts arbitrary: vs)
  case (Cons t ts)
  show ?case
  proof (cases vs)
    case (Cons v vs')
    define rest where "rest = concat (map (\<lambda>(t, v). g t v) (zip ts vs'))"
    have IH: "distinct (map rk rest)" "fst ` rk ` set rest \<subseteq> key ` set ts"
      using Cons.prems Cons Cons.IH [of vs'] by (auto simp only: rest_def distinct.simps list.map zip_Cons_Cons list.set)
    have t: "distinct (map rk (g t v))" "\<And>r. r \<in> set (g t v) \<Longrightarrow> fst (rk r) = key t"
      using Cons.prems(2) [of t v] Cons by auto
    have "rk r \<noteq> rk r'" if "r \<in> set (g t v)" "r' \<in> set rest" for r r'
    proof -
      have "fst (rk r') \<in> key ` set ts" using IH that(2) by blast
      moreover have "key t \<notin> key ` set ts" using Cons.prems(1) by simp
      ultimately show ?thesis using t(2) [OF that(1)] by metis
    qed
    then have "rk ` set (g t v) \<inter> rk ` set rest = {}" by blast
    then have "distinct (map rk (g t v @ rest))"
      using IH(1) t(1) by (simp only: map_append distinct_append set_map simp_thms)
    moreover have "fst ` rk ` set (g t v) \<subseteq> {key t}" using t(2) by auto
    then have "fst ` rk ` set (g t v @ rest) \<subseteq> key ` set (t # ts)"
      using IH(2) unfolding set_append image_Un list.set image_insert by blast
    moreover have "concat (map (\<lambda>(t, v). g t v) (zip (t # ts) vs)) = g t v @ rest" using Cons by (simp add: rest_def)
    ultimately show ?thesis by (simp only: simp_thms)
  qed simp
qed simp

lemma capture_pallet_keys:
  assumes t: "distinct (map target_key targets)" "\<And>t. t \<in> set targets \<Longrightarrow> distinct (map ef_yieldFarmId (ct_eventFarms t))"
    and d: "\<And>t v d. target_value rt block targets t v \<Longrightarrow> normalizeDeposit v (ct_pallet t) = Inr d
      \<Longrightarrow> distinct (map ce_yieldFarmId (cd_entries d))"
  shows "distinct (map row_key (fst (capture_pallet rt block src targets pallet)))"
proof (cases "read_deposits rt block pallet (filter (\<lambda>u. ct_pallet u = pallet) targets)")
  case (Inl e)
  then show ?thesis by (simp add: capture_pallet_def Let_def)
next
  case (Inr vs)
  let ?ts = "filter (\<lambda>u. ct_pallet u = pallet) targets" and ?g = "\<lambda>t v. fst (capture_value rt block src t v)"
  have "distinct (map row_key (?g t v)) \<and> (\<forall>r \<in> set (?g t v). fst (row_key r) = target_key t)"
    if tv: "(t, v) \<in> set (zip ?ts vs)" for t v
  proof -
    have m: "t \<in> set targets" "ct_pallet t = pallet" using set_zip_leftD [OF tv] by auto
    then have "target_value rt block targets t v" using Inr tv by (auto simp: target_value_def)
    note dd = d [OF this]
    show ?thesis
    proof (cases "is_nullish v")
      case True
      then show ?thesis using entryRows_keys [OF t(2) [OF m(1)], of None] by (simp add: capture_value_def)
    next
      case False
      then show ?thesis using dd entryRows_keys [OF t(2) [OF m(1)], of "Some (projr (normalizeDeposit v (ct_pallet t)))"]
        by (cases "normalizeDeposit v (ct_pallet t)") (auto simp: capture_value_def)
    qed
  qed
  with distinct_blocks [of target_key ?ts vs row_key ?g] distinct_map_filter [OF t(1)]
  have "distinct (map row_key (concat (map (\<lambda>(t, v). ?g t v) (zip ?ts vs))))" by blast
  moreover have "map fst (map (\<lambda>(t, value). capture_value rt block src t value) (zip ?ts vs)) = map (\<lambda>(t, v). ?g t v) (zip ?ts vs)"
    by auto
  ultimately show ?thesis using Inr by (simp add: capture_pallet_def Let_def del: map_map)
qed

text \<open>Rows do not overwrite each other. As long as a deposit holds a farm once, no two rows of a capture share pallet,
  deposit, farm and block, the key the table replaces on, although one deposit may be entered several times in a block.
\<close>

lemma capture_keys_apart:
  assumes "\<And>t v d. target_value rt block (captureTargets events) t v \<Longrightarrow> normalizeDeposit v (ct_pallet t) = Inr d
      \<Longrightarrow> distinct (map ce_yieldFarmId (cd_entries d))"
  shows "distinct (map row_key (cap_rows (captureLmFarmEntries lc block events rt src)))"
proof -
  let ?ts = "captureTargets events" and ?rows = "\<lambda>p. fst (capture_pallet rt block src (captureTargets events) p)"
  have keys: "distinct (map row_key (?rows p))" for p
    by (rule capture_pallet_keys [OF distinct_targets target_origin(2) assms])
  have pallet: "lm_pallet r = p" if "r \<in> set (?rows p)" for r p
    using that capture_value_rows unfolding capture_pallet_rows by (fastforce simp: target_key_def)
  have "distinct (map row_key (?rows Omnipool_LM @ ?rows Xyk_LM))"
  proof -
    have "row_key r \<noteq> row_key r'" if "r \<in> set (?rows Omnipool_LM)" "r' \<in> set (?rows Xyk_LM)" for r r'
      using pallet that by (auto simp: row_key_def)
    then have "row_key ` set (?rows Omnipool_LM) \<inter> row_key ` set (?rows Xyk_LM) = {}" by blast
    then show ?thesis using keys by (simp only: map_append distinct_append set_map simp_thms)
  qed
  moreover have "distinct (map f xs) = distinct (map f ys)" if "mset xs = mset ys" for f :: "lm_entry_row \<Rightarrow> _" and xs ys
    using that by (metis mset_eq_imp_distinct_iff mset_map)
  ultimately have "distinct (map row_key (sort_cmp (compareEntryRows lc) (?rows Omnipool_LM @ ?rows Xyk_LM)))"
    by (metis mset_sort_cmp)
  then show ?thesis by (auto simp: captureLmFarmEntries_def Let_def split: prod.splits)
qed

end
