(* ===== verification/Block_Clock.thy ===== *)
theory Block_Clock
  imports Prelude
begin

text \<open>
  The index from wall-clock hours to block heights every history reconstruction dates its buckets by
  (\<^verbatim>\<open>src/api/src/services/blockClock.ts\<close>): building it from the blocks table, extending it at the head, and the searches.

  The blocks table is the list of its rows, and the query of \<open>load\<close> the definition \<open>hour_rows\<close>. Times are whole
  seconds. Concurrent refreshes share one load, so a refresh is one step.
\<close>

section \<open>The clock\<close>

definition HOUR :: int where "HOUR = 3600"

record block_clock =
  hours :: "int list"
  heights :: "int list"
  atMark :: "int list option"
  lastTime :: "int option"
  builtAt :: int

record chain_block =
  blk_height :: int
  blk_time :: int

record hour_row =
  hr_h :: int
  hr_top :: int
  hr_at_mark :: int
  hr_top_ts :: int

definition hour_start :: "int \<Rightarrow> int" where
  "hour_start t = t div HOUR * HOUR"

text \<open>\<open>max\<close> over a column of unsigned integers, 0 on no rows.\<close>

definition column_max :: "int list \<Rightarrow> int" where
  "column_max xs = foldr max xs 0"

definition hour_row_of :: "chain_block list \<Rightarrow> int \<Rightarrow> hour_row" where
  "hour_row_of blocks h =
     (let group = filter (\<lambda>b. hour_start (blk_time b) = h) blocks
      in \<lparr>hr_h = h, hr_top = column_max (map blk_height group),
          hr_at_mark = column_max (map blk_height (filter (\<lambda>b. blk_time b = h) group)),
          hr_top_ts = column_max (map blk_time group)\<rparr>)"

definition hour_rows :: "int \<Rightarrow> chain_block list \<Rightarrow> hour_row list" where
  "hour_rows since blocks =
     (let picked = filter (\<lambda>b. since \<le> blk_time b) blocks
      in map (hour_row_of picked) (sort (remdups (map (hour_start \<circ> blk_time) picked))))"

text \<open>2020-01-01, before the chain.\<close>

definition FIRST_TIME :: int where "FIRST_TIME = 1577836800"

definition later_time :: "int option \<Rightarrow> hour_row \<Rightarrow> int option" where
  "later_time seen row =
     (if hr_top_ts row > 0 then Some (max (case seen of None \<Rightarrow> 0 | Some t \<Rightarrow> t) (hr_top_ts row)) else seen)"

definition load :: "int \<Rightarrow> chain_block list \<Rightarrow> block_clock option \<Rightarrow> block_clock" where
  "load now blocks from_clock =
     (let since = (case from_clock of None \<Rightarrow> FIRST_TIME
                   | Some c \<Rightarrow> if hours c = [] then FIRST_TIME else last (hours c));
          fresh = hour_rows since blocks;
          n = (case from_clock of None \<Rightarrow> 0 | Some c \<Rightarrow> length (hours c) - 1);
          old = (\<lambda>f. case from_clock of None \<Rightarrow> [] | Some c \<Rightarrow> take n (f c))
      in \<lparr>hours = old hours @ map hr_h fresh,
          heights = old heights @ map hr_top fresh,
          atMark = Some (old (\<lambda>c. case atMark c of Some m \<Rightarrow> m | None \<Rightarrow> replicate (length (hours c)) 0)
                         @ map hr_at_mark fresh),
          lastTime = foldl later_time (Option.bind from_clock lastTime) fresh,
          builtAt = now\<rparr>)"

definition clockCoveredSec :: "block_clock \<Rightarrow> int option" where
  "clockCoveredSec c =
     (if hours c = [] then None else Some (max (last (hours c)) (case lastTime c of None \<Rightarrow> 0 | Some t \<Rightarrow> t)))"

section \<open>The shared clock\<close>

definition REFRESH_MS :: int where "REFRESH_MS = 60000"
definition FORCED_REFRESH_MS :: int where "FORCED_REFRESH_MS = 2000"

text \<open>A read of the table: \<^const>\<open>None\<close> when the query failed. A failed refresh keeps the clock there is.\<close>

definition refresh_clock ::
  "int \<Rightarrow> chain_block list option \<Rightarrow> block_clock option \<Rightarrow> block_clock option \<times> block_clock option" where
  "refresh_clock now blocks shared =
     (case blocks of
        Some bs \<Rightarrow> (Some (load now bs shared), Some (load now bs shared))
      | None \<Rightarrow> (shared, shared))"

definition blockClock ::
  "int \<Rightarrow> chain_block list option \<Rightarrow> block_clock option \<Rightarrow> block_clock option \<times> block_clock option" where
  "blockClock now blocks shared =
     (case shared of
        Some c \<Rightarrow> if now - builtAt c < REFRESH_MS then (Some c, shared) else refresh_clock now blocks shared
      | None \<Rightarrow> refresh_clock now blocks shared)"

text \<open>The forced refresh is a second read of the table, \<open>again\<close>.\<close>

definition blockClockCovering ::
  "int \<Rightarrow> chain_block list option \<Rightarrow> chain_block list option \<Rightarrow> int \<Rightarrow> block_clock option
    \<Rightarrow> block_clock option \<times> block_clock option" where
  "blockClockCovering now blocks again sec shared =
     (case blockClock now blocks shared of
        (None, cached) \<Rightarrow> (None, cached)
      | (Some current, cached) \<Rightarrow>
          if (case clockCoveredSec current of Some covered \<Rightarrow> covered \<ge> sec | None \<Rightarrow> False) then (Some current, cached)
          else if now - builtAt current < FORCED_REFRESH_MS then (Some current, cached)
          else refresh_clock now again cached)"

section \<open>Searches\<close>

text \<open>The greatest index in \<open>[lo, hi]\<close> that satisfies a test which holds at \<open>lo\<close> and stays false once it fails.\<close>

function last_index :: "(nat \<Rightarrow> bool) \<Rightarrow> nat \<Rightarrow> nat \<Rightarrow> nat" where
  "last_index ok lo hi =
     (if lo < hi then
        (let mid = (lo + hi + 1) div 2 in if ok mid then last_index ok mid hi else last_index ok lo (mid - 1))
      else lo)"
  by pat_completeness auto
termination by (relation "measure (\<lambda>(ok, lo, hi). hi - lo)") auto

text \<open>The least such index of a test that stays true once it holds.\<close>

function first_index :: "(nat \<Rightarrow> bool) \<Rightarrow> nat \<Rightarrow> nat \<Rightarrow> nat" where
  "first_index ok lo hi =
     (if lo < hi then
        (let mid = (lo + hi) div 2 in if ok mid then first_index ok lo mid else first_index ok (mid + 1) hi)
      else lo)"
  by pat_completeness auto
termination by (relation "measure (\<lambda>(ok, lo, hi). hi - lo)") auto

declare last_index.simps [simp del] first_index.simps [simp del]

definition hourIndex :: "block_clock \<Rightarrow> int \<Rightarrow> nat option" where
  "hourIndex c mark =
     (if hours c = [] \<or> mark < hd (hours c) then None
      else Some (last_index (\<lambda>i. hours c ! i \<le> mark) 0 (length (hours c) - 1)))"

definition heightAtOrBefore :: "block_clock \<Rightarrow> int \<Rightarrow> int option" where
  "heightAtOrBefore c tsSec = map_option (\<lambda>i. heights c ! i) (hourIndex c (hour_start tsSec))"

definition heightAtOrBeforeExact :: "block_clock \<Rightarrow> int \<Rightarrow> int option" where
  "heightAtOrBeforeExact c tsSec =
     (let mark = hour_start tsSec
      in case hourIndex c mark of
           None \<Rightarrow> None
         | Some i \<Rightarrow>
             if hours c ! i < mark then Some (heights c ! i)
             else if tsSec > mark \<and> i = length (hours c) - 1 then Some (heights c ! i)
             else
               (let onMark = (case atMark c of None \<Rightarrow> 0 | Some m \<Rightarrow> if i < length m then m ! i else 0)
                in if onMark > 0 then Some onMark
                   else if i > 0 then Some (heights c ! (i - 1)) else None))"

definition timeUpperBoundOfHeight :: "block_clock \<Rightarrow> int \<Rightarrow> int option" where
  "timeUpperBoundOfHeight c height =
     (if heights c = [] \<or> last (heights c) < height then None
      else Some (hours c ! first_index (\<lambda>i. heights c ! i \<ge> height) 0 (length (heights c) - 1) + HOUR))"

definition heightsForBoundaries :: "block_clock \<Rightarrow> int list \<Rightarrow> int \<Rightarrow> int list" where
  "heightsForBoundaries c boundariesSec floorHeight =
     map (\<lambda>t. case heightAtOrBefore c t of Some h \<Rightarrow> h | None \<Rightarrow> floorHeight) boundariesSec"

section \<open>Search correctness\<close>

lemma last_index_correct:
  assumes "lo \<le> hi" "ok lo" "\<And>i j. i \<le> j \<Longrightarrow> j \<le> hi \<Longrightarrow> ok j \<Longrightarrow> ok i"
  shows "ok (last_index ok lo hi) \<and> lo \<le> last_index ok lo hi \<and> last_index ok lo hi \<le> hi
    \<and> (\<forall>j. last_index ok lo hi < j \<and> j \<le> hi \<longrightarrow> \<not> ok j)"
  using assms
proof (induction ok lo hi rule: last_index.induct)
  case (1 ok lo hi)
  let ?mid = "(lo + hi + 1) div 2"
  show ?case
  proof (cases "lo < hi")
    case False
    then have "last_index ok lo hi = lo" by (simp add: last_index.simps [of ok lo hi])
    moreover have "lo = hi" using False 1(3) by simp
    ultimately show ?thesis using 1(4) by auto
  next
    case lt: True
    then have mid: "lo < ?mid" "?mid \<le> hi" by auto
    show ?thesis
    proof (cases "ok ?mid")
      case True
      have "ok (last_index ok ?mid hi) \<and> ?mid \<le> last_index ok ?mid hi \<and> last_index ok ?mid hi \<le> hi
          \<and> (\<forall>j. last_index ok ?mid hi < j \<and> j \<le> hi \<longrightarrow> \<not> ok j)"
      proof (rule 1(1) [OF lt refl True])
        show "ok i" if "i \<le> j" "j \<le> hi" "ok j" for i j using 1(5) [of i j] that by simp
      qed (use mid True in auto)
      then show ?thesis using mid lt True by (simp add: last_index.simps [of ok lo hi] Let_def)
    next
      case False
      have R: "ok (last_index ok lo (?mid - 1)) \<and> lo \<le> last_index ok lo (?mid - 1) \<and> last_index ok lo (?mid - 1) \<le> ?mid - 1
          \<and> (\<forall>j. last_index ok lo (?mid - 1) < j \<and> j \<le> ?mid - 1 \<longrightarrow> \<not> ok j)"
      proof (rule 1(2) [OF lt refl False])
        show "ok i" if "i \<le> j" "j \<le> ?mid - 1" "ok j" for i j using 1(5) [of i j] that mid by simp
      qed (use mid 1(4) in auto)
      have far: "\<not> ok j" if "?mid - 1 < j" "j \<le> hi" for j
      proof -
        have "?mid \<le> j" using that(1) mid(1) by linarith
        then show ?thesis using False 1(5) [of ?mid j] that(2) by blast
      qed
      have eq: "last_index ok lo hi = last_index ok lo (?mid - 1)"
        using lt False by (simp add: last_index.simps [of ok lo hi] Let_def)
      have "\<not> ok j" if "last_index ok lo (?mid - 1) < j" "j \<le> hi" for j
      proof (cases "?mid - 1 < j")
        case True
        then show ?thesis using far that(2) by blast
      next
        case False
        then show ?thesis using R that(1) by simp
      qed
      moreover have "last_index ok lo (?mid - 1) \<le> hi" using R mid(2) by linarith
      ultimately show ?thesis using R by (simp add: eq)
    qed
  qed
qed

lemma first_index_correct:
  assumes "lo \<le> hi" "ok hi" "\<And>i j. lo \<le> i \<Longrightarrow> i \<le> j \<Longrightarrow> j \<le> hi \<Longrightarrow> ok i \<Longrightarrow> ok j"
  shows "ok (first_index ok lo hi) \<and> lo \<le> first_index ok lo hi \<and> first_index ok lo hi \<le> hi
    \<and> (\<forall>j. lo \<le> j \<and> j < first_index ok lo hi \<longrightarrow> \<not> ok j)"
  using assms
proof (induction ok lo hi rule: first_index.induct)
  case (1 ok lo hi)
  let ?mid = "(lo + hi) div 2"
  show ?case
  proof (cases "lo < hi")
    case False
    then have "first_index ok lo hi = lo" by (simp add: first_index.simps [of ok lo hi])
    moreover have "lo = hi" using False 1(3) by simp
    ultimately show ?thesis using 1(4) by auto
  next
    case lt: True
    then have mid: "lo \<le> ?mid" "?mid < hi" by auto
    show ?thesis
    proof (cases "ok ?mid")
      case True
      have "ok (first_index ok lo ?mid) \<and> lo \<le> first_index ok lo ?mid \<and> first_index ok lo ?mid \<le> ?mid
          \<and> (\<forall>j. lo \<le> j \<and> j < first_index ok lo ?mid \<longrightarrow> \<not> ok j)"
      proof (rule 1(1) [OF lt refl True])
        show "ok j" if "lo \<le> i" "i \<le> j" "j \<le> ?mid" "ok i" for i j using 1(5) [of i j] that mid by simp
      qed (use mid True in auto)
      then show ?thesis using mid lt True by (auto simp: first_index.simps [of ok lo hi] Let_def)
    next
      case False
      have "ok (first_index ok (?mid + 1) hi) \<and> ?mid + 1 \<le> first_index ok (?mid + 1) hi \<and> first_index ok (?mid + 1) hi \<le> hi
          \<and> (\<forall>j. ?mid + 1 \<le> j \<and> j < first_index ok (?mid + 1) hi \<longrightarrow> \<not> ok j)"
      proof (rule 1(2) [OF lt refl False])
        show "ok j" if "?mid + 1 \<le> i" "i \<le> j" "j \<le> hi" "ok i" for i j using 1(5) [of i j] that mid by simp
      qed (use mid 1(4) in auto)
      moreover have "\<not> ok j" if "lo \<le> j" "j \<le> ?mid" for j
        using False 1(5) [of j ?mid] that mid by auto
      moreover have "first_index ok lo hi = first_index ok (?mid + 1) hi"
        using lt False by (simp add: first_index.simps [of ok lo hi] Let_def)
      ultimately show ?thesis using mid by (metis Suc_eq_plus1 le_SucI le_trans not_less_eq_eq)
    qed
  qed
qed


section \<open>The rows of the table\<close>

text \<open>What the chain promises: blocks in height order, their times increasing, only genesis without a time.\<close>

definition chain_ok :: "chain_block list \<Rightarrow> bool" where
  "chain_ok bs \<longleftrightarrow> sorted_wrt (<) (map blk_height bs) \<and> sorted_wrt (<) (map blk_time bs)
     \<and> list_all (\<lambda>b. 0 \<le> blk_height b \<and> (FIRST_TIME \<le> blk_time b \<longrightarrow> 0 < blk_height b)) bs"

definition hour_marks :: "int \<Rightarrow> chain_block list \<Rightarrow> int list" where
  "hour_marks since bs = sort (remdups (map (hour_start \<circ> blk_time) (filter (\<lambda>b. since \<le> blk_time b) bs)))"

lemma hour_start_le: "hour_start t \<le> t"
  by (simp add: hour_start_def HOUR_def minus_mod_eq_div_mult [symmetric])

lemma hour_start_gt: "t < hour_start t + HOUR"
  using pos_mod_bound [of 3600 t] div_mult_mod_eq [of t 3600] by (simp add: hour_start_def HOUR_def)

lemma hour_start_idem [simp]: "hour_start (hour_start t) = hour_start t"
  by (simp add: hour_start_def HOUR_def)

lemma hour_start_mono: "s \<le> t \<Longrightarrow> hour_start s \<le> hour_start t"
  by (simp add: hour_start_def HOUR_def zdiv_mono1)

lemma hour_start_iff: "hour_start h = h \<Longrightarrow> h \<le> hour_start t \<longleftrightarrow> h \<le> t"
  by (metis hour_start_le hour_start_mono order_trans)

lemma hour_start_FIRST: "hour_start FIRST_TIME = FIRST_TIME"
  by (simp add: hour_start_def HOUR_def FIRST_TIME_def)

lemma hour_marks_facts:
  "sorted (hour_marks since bs)" "distinct (hour_marks since bs)"
  "set (hour_marks since bs) = {hour_start (blk_time b) |b. b \<in> set bs \<and> since \<le> blk_time b}"
  by (auto simp: hour_marks_def)

lemma hour_marks_ge:
  assumes "hour_start since = since" "h \<in> set (hour_marks since bs)"
  shows "since \<le> h" "hour_start h = h"
  using assms by (auto simp: hour_marks_facts hour_start_iff)

lemma hour_row_of_filter:
  assumes "hour_start since = since" "since \<le> h"
  shows "hour_row_of (filter (\<lambda>b. since \<le> blk_time b) bs) h = hour_row_of bs h"
proof -
  have "since \<le> blk_time b" if "hour_start (blk_time b) = h" for b
    using that assms(2) hour_start_le [of "blk_time b"] by linarith
  then have "filter (\<lambda>b. hour_start (blk_time b) = h) (filter (\<lambda>b. since \<le> blk_time b) bs)
      = filter (\<lambda>b. hour_start (blk_time b) = h) bs"
    unfolding filter_filter by (intro filter_cong refl) auto
  then show ?thesis by (simp add: hour_row_of_def)
qed

lemma hour_rows_eq:
  assumes "hour_start since = since"
  shows "hour_rows since bs = map (hour_row_of bs) (hour_marks since bs)"
proof -
  have "map (hour_row_of (filter (\<lambda>b. since \<le> blk_time b) bs)) (hour_marks since bs)
      = map (hour_row_of bs) (hour_marks since bs)"
    by (rule map_cong [OF refl], rule hour_row_of_filter [OF assms], erule hour_marks_ge(1) [OF assms])
  then show ?thesis unfolding hour_rows_def Let_def hour_marks_def .
qed

lemma column_max_ge: "x \<in> set xs \<Longrightarrow> x \<le> column_max xs"
  by (induction xs) (auto simp: column_max_def)

lemma column_max_nonneg: "0 \<le> column_max xs"
  by (induction xs) (auto simp: column_max_def)

lemma column_max_in: "xs \<noteq> [] \<Longrightarrow> \<forall>x\<in>set xs. 0 \<le> x \<Longrightarrow> column_max xs \<in> set xs"
proof (induction xs)
  case (Cons x xs)
  then show ?case by (cases "xs = []") (auto simp: column_max_def max_def)
qed simp

lemma column_max_eqI:
  assumes "x \<in> set xs" "\<And>y. y \<in> set xs \<Longrightarrow> y \<le> x" "0 \<le> x"
  shows "column_max xs = x"
proof (rule antisym)
  have "xs \<noteq> []" using assms(1) by auto
  moreover have "\<forall>y\<in>set (map (max 0) xs). 0 \<le> y" by simp
  moreover have "column_max (map (max 0) xs) = column_max xs"
  proof (induction xs)
    case (Cons y ys)
    then show ?case using column_max_nonneg [of ys] by (simp add: column_max_def)
  qed simp
  ultimately have "column_max xs \<in> set (map (max 0) xs)" using column_max_in [of "map (max 0) xs"] by simp
  then show "column_max xs \<le> x" using assms(2,3) by auto
qed (rule column_max_ge [OF assms(1)])

section \<open>Extending the clock\<close>

lemma chain_ok_append_times:
  assumes "chain_ok (c1 @ c2)" "b \<in> set c1" "d \<in> set c2"
  shows "blk_time b < blk_time d" "blk_height b < blk_height d"
  using assms by (auto simp: chain_ok_def sorted_wrt_append)

lemma chain_ok_appendD: "chain_ok (c1 @ c2) \<Longrightarrow> chain_ok c1"
  by (simp add: chain_ok_def sorted_wrt_append)

lemma chain_ok_take: "chain_ok chain \<Longrightarrow> chain_ok (take n chain)"
  by (metis append_take_drop_id chain_ok_appendD)

lemma hour_marks_split:
  assumes ok: "chain_ok (c1 @ c2)" and marks: "hour_marks since c1 = A @ [L]" and since: "hour_start since = since"
  shows "hour_marks since (c1 @ c2) = A @ hour_marks L (c1 @ c2)"
proof (rule sorted_distinct_set_unique)
  have sd: "sorted (A @ [L])" "distinct (A @ [L])" using hour_marks_facts(1,2) [of since c1] by (simp_all add: marks)
  then have A: "a < L" if "a \<in> set A" for a
    using that by (auto simp: sorted_append order.strict_iff_order)
  have "L \<in> set (hour_marks since c1)" by (simp add: marks)
  then obtain b where b: "b \<in> set c1" "since \<le> blk_time b" "L = hour_start (blk_time b)"
    by (auto simp: hour_marks_facts)
  have L: "hour_start L = L" by (simp add: b(3))
  have since_L: "since \<le> L" by (rule hour_marks_ge(1) [OF since, of _ c1]) (simp add: marks)
  have up: "L \<le> x" if "x \<in> set (hour_marks L (c1 @ c2))" for x using hour_marks_ge(1) [OF L that] .
  show "sorted (A @ hour_marks L (c1 @ c2))"
    using sd(1) hour_marks_facts(1) [of L "c1 @ c2"] A up by (fastforce simp: sorted_append)
  show "distinct (A @ hour_marks L (c1 @ c2))"
    using sd(2) hour_marks_facts(2) [of L "c1 @ c2"] A up by fastforce
  show "set (hour_marks since (c1 @ c2)) = set (A @ hour_marks L (c1 @ c2))"
  proof (intro set_eqI iffI)
    fix x assume "x \<in> set (hour_marks since (c1 @ c2))"
    then obtain d where d: "d \<in> set (c1 @ c2)" "since \<le> blk_time d" "x = hour_start (blk_time d)"
      by (auto simp: hour_marks_facts)
    show "x \<in> set (A @ hour_marks L (c1 @ c2))"
    proof (cases "L \<le> blk_time d")
      case True
      then show ?thesis using d by (auto simp: hour_marks_facts)
    next
      case False
      have "L \<le> blk_time b" using b(3) hour_start_le by simp
      then have "d \<in> set c1" using False d(1) chain_ok_append_times(1) [OF ok b(1), of d] by auto
      then have "x \<in> set (A @ [L])" using d by (auto simp: hour_marks_facts simp flip: marks)
      moreover have "x \<noteq> L" using False d(3) hour_start_le [of "blk_time d"] by auto
      ultimately show ?thesis by simp
    qed
  next
    fix x assume "x \<in> set (A @ hour_marks L (c1 @ c2))"
    then consider "x \<in> set (hour_marks since c1)" | "x \<in> set (hour_marks L (c1 @ c2))" by (auto simp: marks)
    then show "x \<in> set (hour_marks since (c1 @ c2))"
    proof cases
      case 1
      then show ?thesis by (auto simp: hour_marks_facts)
    next
      case 2
      then obtain d where d: "d \<in> set (c1 @ c2)" "L \<le> blk_time d" "x = hour_start (blk_time d)"
        by (auto simp: hour_marks_facts)
      have "since \<le> blk_time d" using d(2) since_L by linarith
      then show ?thesis using d by (auto simp: hour_marks_facts)
    qed
  qed
qed (rule hour_marks_facts)+

lemma load_scratch:
  "load now bs None =
     \<lparr>hours = hour_marks FIRST_TIME bs, heights = map (hr_top \<circ> hour_row_of bs) (hour_marks FIRST_TIME bs),
      atMark = Some (map (hr_at_mark \<circ> hour_row_of bs) (hour_marks FIRST_TIME bs)),
      lastTime = foldl later_time None (map (hour_row_of bs) (hour_marks FIRST_TIME bs)), builtAt = now\<rparr>"
proof -
  have "map hr_h (map (hour_row_of bs) hs) = hs" for hs by (induction hs) (simp_all add: hour_row_of_def Let_def)
  then show ?thesis by (simp add: load_def hour_rows_eq [OF hour_start_FIRST])
qed

lemma hr_h_row [simp]: "hr_h (hour_row_of bs h) = h"
  by (simp add: hour_row_of_def Let_def)

lemma hour_row_of_append:
  assumes ok: "chain_ok (c1 @ c2)" and b: "b \<in> set c1" "a < hour_start (blk_time b)"
  shows "hour_row_of (c1 @ c2) a = hour_row_of c1 a"
proof -
  have "hour_start (blk_time d) \<noteq> a" if "d \<in> set c2" for d
    using hour_start_mono [of "blk_time b" "blk_time d"] chain_ok_append_times(1) [OF ok b(1) that] b(2) by linarith
  then have "filter (\<lambda>d. hour_start (blk_time d) = a) c2 = []" by (simp add: filter_empty_conv)
  then show ?thesis by (simp add: hour_row_of_def)
qed

lemma column_max_append: "column_max (xs @ ys) = max (column_max xs) (column_max ys)"
proof (induction xs)
  case Nil
  then show ?case using column_max_nonneg [of ys] by (simp add: column_max_def)
next
  case (Cons x xs)
  then show ?case by (simp add: column_max_def max.assoc)
qed

lemma later_time_absorb:
  "hr_top_ts r \<le> hr_top_ts r' \<Longrightarrow> later_time (later_time s r) r' = later_time s r'"
  by (auto simp: later_time_def split: option.splits)

lemma sorted_least_first:
  assumes "sorted xs" "x \<in> set xs" "\<And>y. y \<in> set xs \<Longrightarrow> x \<le> y"
  shows "xs = x # tl xs"
  using assms by (cases xs) (auto simp: antisym)

lemma load_extends:
  assumes ok: "chain_ok (c1 @ c2)"
  shows "load now (c1 @ c2) (Some (load t c1 None)) = load now (c1 @ c2) None"
proof (cases "hour_marks FIRST_TIME c1" rule: rev_cases)
  case Nil
  then have e: "hours (load t c1 None) = []" "heights (load t c1 None) = []" "lastTime (load t c1 None) = None"
    "atMark (load t c1 None) = Some []"
    by (simp_all add: load_scratch)
  then show ?thesis by (simp add: load_def [of now "c1 @ c2"])
next
  case (snoc A L)
  let ?c = "load t c1 None" and ?R = "hour_row_of c1" and ?R' = "hour_row_of (c1 @ c2)"
  let ?M = "hour_marks L (c1 @ c2)"
  have marks: "hour_marks FIRST_TIME (c1 @ c2) = A @ ?M"
    by (rule hour_marks_split [OF ok snoc hour_start_FIRST])
  have "L \<in> set (hour_marks FIRST_TIME c1)" by (simp add: snoc)
  then obtain b where b: "b \<in> set c1" "FIRST_TIME \<le> blk_time b" "L = hour_start (blk_time b)"
    by (auto simp: hour_marks_facts)
  have L: "hour_start L = L" by (simp add: b(3))
  have "L \<in> set ?M" using b hour_start_le [of "blk_time b"] by (auto simp: hour_marks_facts)
  then have M: "?M = L # tl ?M"
    by (rule sorted_least_first [OF hour_marks_facts(1)]) (rule hour_marks_ge(1) [OF L])
  have lt: "a < L" if "a \<in> set A" for a
    using that hour_marks_facts(1,2) [of FIRST_TIME c1] by (auto simp: snoc sorted_append order.strict_iff_order)
  have same: "?R' a = ?R a" if "a \<in> set A" for a
    using lt [OF that] by (intro hour_row_of_append [OF ok b(1)]) (simp add: b(3))
  have top: "hr_top_ts (?R L) \<le> hr_top_ts (?R' L)"
    by (simp add: hour_row_of_def Let_def column_max_append)
  have fields: "hours ?c = A @ [L]" "heights ?c = map (hr_top \<circ> ?R) (A @ [L])"
    "atMark ?c = Some (map (hr_at_mark \<circ> ?R) (A @ [L]))"
    "lastTime ?c = later_time (foldl later_time None (map ?R A)) (?R L)"
    by (simp_all add: load_scratch snoc)
  have fold: "foldl later_time (later_time s (?R L)) (map ?R' ?M) = foldl later_time s (map ?R' ?M)" for s
    by (subst (1 2) M) (simp add: later_time_absorb [OF top])
  have A: "map ?R' A = map ?R A" "map (hr_top \<circ> ?R') A = map (hr_top \<circ> ?R) A"
    "map (hr_at_mark \<circ> ?R') A = map (hr_at_mark \<circ> ?R) A"
    using same by simp_all
  show ?thesis
    unfolding load_scratch [of now "c1 @ c2"] marks
    by (simp add: load_def [of now "c1 @ c2"] fields hour_rows_eq [OF L] fold A(1) same comp_def)
qed

section \<open>The shared clock\<close>

text \<open>
  The requests that reach the shared clock: \<open>n\<close> is the number of rows the blocks table holds, and a read gives the
  rows there are or fails.
\<close>

definition table_read :: "chain_block list \<Rightarrow> nat \<Rightarrow> chain_block list option \<Rightarrow> bool" where
  "table_read chain n r \<longleftrightarrow> r = None \<or> r = Some (take n chain)"

inductive clock_reached :: "chain_block list \<Rightarrow> nat \<Rightarrow> block_clock option \<Rightarrow> bool" for chain where
  start: "clock_reached chain 0 None"
| asked: "clock_reached chain n shared \<Longrightarrow> n \<le> n' \<Longrightarrow> table_read chain n' r
    \<Longrightarrow> clock_reached chain n' (snd (blockClock now r shared))"
| asked_covering: "clock_reached chain n shared \<Longrightarrow> n \<le> n' \<Longrightarrow> n' \<le> n'' \<Longrightarrow> table_read chain n' r
    \<Longrightarrow> table_read chain n'' r' \<Longrightarrow> clock_reached chain n'' (snd (blockClockCovering now r r' sec shared))"

definition rebuilt :: "chain_block list \<Rightarrow> nat \<Rightarrow> block_clock option \<Rightarrow> bool" where
  "rebuilt chain n shared \<longleftrightarrow>
     (case shared of None \<Rightarrow> True | Some c \<Rightarrow> \<exists>m\<le>n. c = load (builtAt c) (take m chain) None)"

lemma rebuilt_mono: "rebuilt chain n shared \<Longrightarrow> n \<le> n' \<Longrightarrow> rebuilt chain n' shared"
  by (auto simp: rebuilt_def split: option.splits) (meson order_trans)

lemma refresh_clock_rebuilt:
  assumes ok: "chain_ok chain" and sh: "rebuilt chain n shared" and n: "n \<le> n'" and r: "table_read chain n' r"
  shows "rebuilt chain n' (snd (refresh_clock now r shared))"
proof (cases r)
  case None
  then show ?thesis using rebuilt_mono [OF sh n] by (simp add: refresh_clock_def)
next
  case (Some bs)
  then have bs: "bs = take n' chain" using r by (simp add: table_read_def)
  have built: "builtAt (load t b c) = t" for t b c by (simp add: load_def Let_def)
  have "load now bs shared = load now bs None"
  proof (cases shared)
    case (Some c)
    then obtain m where m: "m \<le> n" "c = load (builtAt c) (take m chain) None"
      using sh by (auto simp: rebuilt_def)
    have split: "bs = take m chain @ drop m bs"
    proof -
      have "take m bs = take m chain" using m(1) n by (simp add: bs min_def)
      then show ?thesis by (metis append_take_drop_id)
    qed
    have "chain_ok (take m chain @ drop m bs)" using chain_ok_take [OF ok, of n'] split by (simp add: bs)
    from load_extends [OF this, of now "builtAt c"] show ?thesis using Some m(2) split by simp
  qed simp
  then show ?thesis by (auto simp: refresh_clock_def Some rebuilt_def built bs)
qed

lemma refresh_clock_answer: "fst (refresh_clock now r shared) = snd (refresh_clock now r shared)"
  by (simp add: refresh_clock_def split: option.split)

lemma blockClock_answer: "fst (blockClock now r shared) = snd (blockClock now r shared)"
  by (simp add: blockClock_def refresh_clock_answer split: option.split)

lemma blockClockCovering_answer:
  "fst (blockClockCovering now r r' sec shared) = snd (blockClockCovering now r r' sec shared)"
  using blockClock_answer [of now r shared]
  by (auto simp: blockClockCovering_def refresh_clock_answer split: prod.split option.split)

lemma blockClock_rebuilt:
  assumes "chain_ok chain" "rebuilt chain n shared" "n \<le> n'" "table_read chain n' r"
  shows "rebuilt chain n' (snd (blockClock now r shared))"
  using refresh_clock_rebuilt [OF assms, of now] rebuilt_mono [OF assms(2,3)]
  by (cases shared) (auto simp: blockClock_def)

lemma blockClockCovering_cases:
  "snd (blockClockCovering now r r' sec shared) \<in>
     {snd (blockClock now r shared), snd (refresh_clock now r' (snd (blockClock now r shared)))}"
  by (auto simp: blockClockCovering_def split: prod.split option.split)

lemma reached_rebuilt:
  assumes "chain_ok chain" "clock_reached chain n shared"
  shows "rebuilt chain n shared"
  using assms(2)
proof (induction rule: clock_reached.induct)
  case start
  then show ?case by (simp add: rebuilt_def)
next
  case (asked n shared n' r now)
  show ?case by (rule blockClock_rebuilt [OF assms(1) asked(4,2,3)])
next
  case (asked_covering n shared n' n'' r r' now sec)
  have one: "rebuilt chain n' (snd (blockClock now r shared))"
    by (rule blockClock_rebuilt [OF assms(1) asked_covering(6,2,4)])
  with blockClockCovering_cases [of now r r' sec shared] refresh_clock_rebuilt [OF assms(1) one asked_covering(3,5), of now]
    rebuilt_mono [OF one asked_covering(3)]
  show ?case by auto
qed

section \<open>What a mark resolves to\<close>

text \<open>The greatest height stamped at or before an instant, read off the chain itself.\<close>

definition height_at :: "chain_block list \<Rightarrow> int \<Rightarrow> int option" where
  "height_at bs t =
     (let hs = map blk_height (filter (\<lambda>b. FIRST_TIME \<le> blk_time b \<and> blk_time b \<le> t) bs)
      in if hs = [] then None else Some (column_max hs))"

lemma sorted_wrt_map_order:
  fixes f g :: "'a \<Rightarrow> int"
  assumes "sorted_wrt (<) (map f xs)" "sorted_wrt (<) (map g xs)" "x \<in> set xs" "y \<in> set xs"
  shows "f x < f y \<longleftrightarrow> g x < g y"
proof -
  obtain i j where ij: "i < length xs" "x = xs ! i" "j < length xs" "y = xs ! j"
    using assms(3,4) by (metis in_set_conv_nth)
  have o: "k < l \<Longrightarrow> l < length xs \<Longrightarrow> f (xs ! k) < f (xs ! l) \<and> g (xs ! k) < g (xs ! l)" for k l
    using assms(1,2) by (simp add: sorted_wrt_iff_nth_less)
  show ?thesis using o [of i j] o [of j i] ij by (cases i j rule: linorder_cases) auto
qed

lemma chain_order:
  assumes "chain_ok bs" "b \<in> set bs" "d \<in> set bs"
  shows "blk_height b < blk_height d \<longleftrightarrow> blk_time b < blk_time d"
  using assms by (intro sorted_wrt_map_order [of blk_height bs blk_time]) (auto simp: chain_ok_def)

lemma chain_height:
  assumes "chain_ok bs" "b \<in> set bs"
  shows "0 \<le> blk_height b" "FIRST_TIME \<le> blk_time b \<Longrightarrow> 0 < blk_height b"
  using assms by (auto simp: chain_ok_def list_all_iff)

lemma row_top:
  assumes ok: "chain_ok bs" and h: "h \<in> set (hour_marks FIRST_TIME bs)"
  obtains b where "b \<in> set bs" "FIRST_TIME \<le> blk_time b" "hour_start (blk_time b) = h"
    "hr_top (hour_row_of bs h) = blk_height b"
    "\<And>d. d \<in> set bs \<Longrightarrow> hour_start (blk_time d) \<le> h \<Longrightarrow> blk_height d \<le> blk_height b"
proof -
  let ?group = "filter (\<lambda>b. hour_start (blk_time b) = h) bs"
  have "?group \<noteq> []" using h by (auto simp: hour_marks_facts filter_empty_conv)
  then have "column_max (map blk_height ?group) \<in> set (map blk_height ?group)"
    using chain_height(1) [OF ok] by (intro column_max_in) auto
  then obtain b where b: "b \<in> set ?group" "column_max (map blk_height ?group) = blk_height b" by auto
  have F: "FIRST_TIME \<le> blk_time b"
    using hour_marks_ge(1) [OF hour_start_FIRST h] b(1) hour_start_le [of "blk_time b"] by auto
  have max: "blk_height d \<le> blk_height b" if d: "d \<in> set bs" "hour_start (blk_time d) \<le> h" for d
  proof (cases "hour_start (blk_time d) = h")
    case True
    then show ?thesis using d(1) unfolding b(2) [symmetric] by (intro column_max_ge) auto
  next
    case False
    then have "hour_start (blk_time d) < hour_start (blk_time b)" using d(2) b(1) by simp
    then have "blk_time d < blk_time b" using hour_start_mono [of "blk_time b" "blk_time d"] by linarith
    then show ?thesis using chain_order [OF ok d(1), of b] b(1) by simp
  qed
  show thesis using that [of b] b F max by (simp add: hour_row_of_def Let_def)
qed

lemma height_at_row:
  assumes ok: "chain_ok bs" and h: "h \<in> set (hour_marks FIRST_TIME bs)"
    and cut: "\<And>b. b \<in> set bs \<Longrightarrow> FIRST_TIME \<le> blk_time b \<Longrightarrow> blk_time b \<le> t \<longleftrightarrow> hour_start (blk_time b) \<le> h"
  shows "height_at bs t = Some (hr_top (hour_row_of bs h))"
proof -
  obtain b where b: "b \<in> set bs" "FIRST_TIME \<le> blk_time b" "hour_start (blk_time b) = h"
    "hr_top (hour_row_of bs h) = blk_height b"
    "\<And>d. d \<in> set bs \<Longrightarrow> hour_start (blk_time d) \<le> h \<Longrightarrow> blk_height d \<le> blk_height b"
    using row_top [OF ok h] by blast
  have bt: "blk_time b \<le> t" using cut [OF b(1,2)] b(3) by simp
  have "column_max (map blk_height (filter (\<lambda>b. FIRST_TIME \<le> blk_time b \<and> blk_time b \<le> t) bs)) = blk_height b"
  proof (rule column_max_eqI)
    show "y \<le> blk_height b"
      if "y \<in> set (map blk_height (filter (\<lambda>b. FIRST_TIME \<le> blk_time b \<and> blk_time b \<le> t) bs))" for y
      using that b(5) cut by auto
  qed (use b bt chain_height(1) [OF ok b(1)] in auto)
  then show ?thesis using b bt by (auto simp: height_at_def Let_def filter_empty_conv)
qed

lemma at_mark_row:
  assumes ok: "chain_ok bs" and h: "hour_start h = h" "FIRST_TIME \<le> h"
  shows "hr_at_mark (hour_row_of bs h) > 0 \<longleftrightarrow> (\<exists>b\<in>set bs. blk_time b = h)"
    and "hr_at_mark (hour_row_of bs h) > 0 \<Longrightarrow> height_at bs h = Some (hr_at_mark (hour_row_of bs h))"
proof -
  let ?at = "filter (\<lambda>b. blk_time b = h) bs"
  have row: "hr_at_mark (hour_row_of bs h) = column_max (map blk_height ?at)"
  proof -
    have "filter (\<lambda>b. blk_time b = h) (filter (\<lambda>b. hour_start (blk_time b) = h) bs) = ?at"
      unfolding filter_filter using h by (intro filter_cong refl) auto
    then show ?thesis by (simp add: hour_row_of_def Let_def)
  qed
  have hit: "column_max (map blk_height ?at) = blk_height b" if b: "b \<in> set bs" "blk_time b = h" for b
  proof (rule column_max_eqI)
    show "y \<le> blk_height b" if "y \<in> set (map blk_height ?at)" for y
      using that chain_order [OF ok b(1)] b by (force simp flip: not_less)
  qed (use b chain_height(1) [OF ok b(1)] in auto)
  show iff: "hr_at_mark (hour_row_of bs h) > 0 \<longleftrightarrow> (\<exists>b\<in>set bs. blk_time b = h)"
  proof
    assume "\<exists>b\<in>set bs. blk_time b = h"
    then obtain b where b: "b \<in> set bs" "blk_time b = h" by blast
    show "hr_at_mark (hour_row_of bs h) > 0" using hit [OF b] chain_height(2) [OF ok b(1)] b(2) h(2) by (simp add: row)
  next
    assume *: "hr_at_mark (hour_row_of bs h) > 0"
    show "\<exists>b\<in>set bs. blk_time b = h"
    proof (rule ccontr)
      assume "\<not> (\<exists>b\<in>set bs. blk_time b = h)"
      then have "?at = []" by (simp add: filter_empty_conv)
      with * show False by (simp add: row column_max_def)
    qed
  qed
  assume "hr_at_mark (hour_row_of bs h) > 0"
  then obtain b where b: "b \<in> set bs" "blk_time b = h" using iff by blast
  have "column_max (map blk_height (filter (\<lambda>b. FIRST_TIME \<le> blk_time b \<and> blk_time b \<le> h) bs)) = blk_height b"
  proof (rule column_max_eqI)
    show "y \<le> blk_height b"
      if "y \<in> set (map blk_height (filter (\<lambda>b. FIRST_TIME \<le> blk_time b \<and> blk_time b \<le> h) bs))" for y
      using that chain_order [OF ok b(1)] b by (force simp flip: not_less)
  qed (use b h chain_height(1) [OF ok b(1)] in auto)
  then show "height_at bs h = Some (hr_at_mark (hour_row_of bs h))"
    using b h hit [OF b] by (auto simp: height_at_def Let_def filter_empty_conv row)
qed

lemma hourIndex_marks:
  assumes "sorted (hours c)"
  shows "hourIndex c mark = None \<longleftrightarrow> (\<forall>h\<in>set (hours c). mark < h)"
    and "hourIndex c mark = Some i \<Longrightarrow> i < length (hours c) \<and> hours c ! i \<le> mark
      \<and> (\<forall>j. i < j \<and> j < length (hours c) \<longrightarrow> mark < hours c ! j)"
proof -
  show "hourIndex c mark = None \<longleftrightarrow> (\<forall>h\<in>set (hours c). mark < h)"
    using assms by (cases "hours c") (auto simp: hourIndex_def)
  assume "hourIndex c mark = Some i"
  then have ne: "hours c \<noteq> []" "hours c ! 0 \<le> mark"
    and i: "i = last_index (\<lambda>i. hours c ! i \<le> mark) 0 (length (hours c) - 1)"
    by (auto simp: hourIndex_def hd_conv_nth split: if_splits)
  have "hours c ! i \<le> mark \<and> 0 \<le> i \<and> i \<le> length (hours c) - 1
      \<and> (\<forall>j. i < j \<and> j \<le> length (hours c) - 1 \<longrightarrow> \<not> hours c ! j \<le> mark)"
    unfolding i
  proof (rule last_index_correct)
    show "hours c ! k \<le> mark" if "k \<le> j" "j \<le> length (hours c) - 1" "hours c ! j \<le> mark" for k j
      using that ne(1) sorted_nth_mono [OF assms that(1)] by (cases "hours c") auto
  qed (use ne in auto)
  then show "i < length (hours c) \<and> hours c ! i \<le> mark
      \<and> (\<forall>j. i < j \<and> j < length (hours c) \<longrightarrow> mark < hours c ! j)"
    using ne(1) by (cases "hours c") (auto simp: not_le)
qed

lemma hour_gap:
  assumes "hour_start a = a" "hour_start b = b" "a < b"
  shows "a + HOUR \<le> b"
proof -
  have "a = a div 3600 * 3600" "b = b div 3600 * 3600" using assms(1,2) by (simp_all add: hour_start_def HOUR_def)
  then have "a div 3600 < b div 3600" using assms(3) by (smt (verit))
  then have "(a div 3600 + 1) * 3600 \<le> b div 3600 * 3600" by (intro mult_right_mono) auto
  then show ?thesis using \<open>a = _\<close> \<open>b = _\<close> by (simp add: HOUR_def algebra_simps)
qed

lemma before_hour_iff: "hour_start m = m \<Longrightarrow> t < m + HOUR \<longleftrightarrow> hour_start t \<le> m"
  using hour_gap [of m "hour_start t"] hour_start_le [of t] hour_start_gt [of t] by force

lemma height_at_none:
  assumes "\<And>b. b \<in> set bs \<Longrightarrow> FIRST_TIME \<le> blk_time b \<Longrightarrow> t < blk_time b"
  shows "height_at bs t = None"
  using assms by (force simp: height_at_def Let_def filter_empty_conv not_le)

lemma load_scratch_marks:
  "hours (load t bs None) = hour_marks FIRST_TIME bs"
  "heights (load t bs None) = map (hr_top \<circ> hour_row_of bs) (hour_marks FIRST_TIME bs)"
  "atMark (load t bs None) = Some (map (hr_at_mark \<circ> hour_row_of bs) (hour_marks FIRST_TIME bs))"
  by (simp_all add: load_scratch)

text \<open>A block at or before a mark lies in an hour the index holds, so the hour the search picks bounds it.\<close>

lemma hour_of_block:
  assumes "b \<in> set bs" "FIRST_TIME \<le> blk_time b"
  obtains j where "j < length (hour_marks FIRST_TIME bs)" "hour_marks FIRST_TIME bs ! j = hour_start (blk_time b)"
proof -
  have "hour_start (blk_time b) \<in> set (hour_marks FIRST_TIME bs)" using assms by (auto simp: hour_marks_facts)
  then show thesis using that by (metis in_set_conv_nth)
qed

lemma picked_hour:
  assumes i: "hourIndex (load t bs None) mark = Some i"
  shows "i < length (hour_marks FIRST_TIME bs)" "hour_marks FIRST_TIME bs ! i \<le> mark"
    and "\<And>b. b \<in> set bs \<Longrightarrow> FIRST_TIME \<le> blk_time b
      \<Longrightarrow> hour_start (blk_time b) \<le> mark \<longleftrightarrow> hour_start (blk_time b) \<le> hour_marks FIRST_TIME bs ! i"
    and "i > 0 \<Longrightarrow> b \<in> set bs \<Longrightarrow> FIRST_TIME \<le> blk_time b
      \<Longrightarrow> hour_start (blk_time b) < hour_marks FIRST_TIME bs ! i \<longleftrightarrow> hour_start (blk_time b) \<le> hour_marks FIRST_TIME bs ! (i - 1)"
    and "i = 0 \<Longrightarrow> b \<in> set bs \<Longrightarrow> FIRST_TIME \<le> blk_time b \<Longrightarrow> hour_marks FIRST_TIME bs ! i \<le> hour_start (blk_time b)"
proof -
  let ?M = "hour_marks FIRST_TIME bs"
  have srt: "sorted ?M" "distinct ?M" by (rule hour_marks_facts)+
  have f: "i < length ?M" "?M ! i \<le> mark" "\<And>j. i < j \<Longrightarrow> j < length ?M \<Longrightarrow> mark < ?M ! j"
    using hourIndex_marks(2) [OF _ i] srt by (simp_all add: load_scratch_marks)
  have ord: "j < k \<Longrightarrow> k < length ?M \<Longrightarrow> ?M ! j < ?M ! k" for j k
    using srt by (simp add: sorted_iff_nth_mono_less distinct_conv_nth order.strict_iff_order)
  show "i < length ?M" "?M ! i \<le> mark" by (rule f)+
  show "hour_start (blk_time b) \<le> mark \<longleftrightarrow> hour_start (blk_time b) \<le> ?M ! i"
    if b: "b \<in> set bs" "FIRST_TIME \<le> blk_time b" for b
  proof -
    obtain j where j: "j < length ?M" "?M ! j = hour_start (blk_time b)" using hour_of_block [OF b] .
    show ?thesis using f(1) f(2) f(3) [of j] ord [of j i] j by (cases i j rule: linorder_cases) auto
  qed
  show "hour_start (blk_time b) < ?M ! i \<longleftrightarrow> hour_start (blk_time b) \<le> ?M ! (i - 1)"
    if q: "i > 0" "b \<in> set bs" "FIRST_TIME \<le> blk_time b"
  proof -
    obtain j where j: "j < length ?M" "?M ! j = hour_start (blk_time b)" using hour_of_block [OF q(2,3)] .
    have "j < i \<longleftrightarrow> j \<le> i - 1" using q(1) by auto
    moreover have "?M ! j < ?M ! i \<longleftrightarrow> j < i" using ord [of j i] ord [of i j] f(1) j(1) by (cases i j rule: linorder_cases) auto
    moreover have "?M ! j \<le> ?M ! (i - 1) \<longleftrightarrow> j \<le> i - 1"
    proof -
      have "i - 1 < length ?M" using f(1) by simp
      then show ?thesis using ord [of j "i - 1"] ord [of "i - 1" j] j(1) by (cases "i - 1" j rule: linorder_cases) auto
    qed
    ultimately show ?thesis using j(2) by simp
  qed
  show "?M ! i \<le> hour_start (blk_time b)" if q: "i = 0" "b \<in> set bs" "FIRST_TIME \<le> blk_time b"
  proof -
    obtain j where j: "j < length ?M" "?M ! j = hour_start (blk_time b)" using hour_of_block [OF q(2,3)] .
    show ?thesis using ord [of 0 j] j q(1) by (cases j) auto
  qed
qed

lemma hour_index_none:
  assumes "hourIndex (load t bs None) mark = None" "b \<in> set bs" "FIRST_TIME \<le> blk_time b"
  shows "mark < hour_start (blk_time b)"
  using assms by (auto simp: hourIndex_marks(1) load_scratch_marks hour_marks_facts)

lemma closing_scratch:
  assumes ok: "chain_ok bs"
  shows "heightAtOrBefore (load t bs None) ts = height_at bs (hour_start ts + HOUR - 1)"
proof (cases "hourIndex (load t bs None) (hour_start ts)")
  case None
  have "height_at bs (hour_start ts + HOUR - 1) = None"
  proof (rule height_at_none)
    show "hour_start ts + HOUR - 1 < blk_time b" if b: "b \<in> set bs" "FIRST_TIME \<le> blk_time b" for b
      using hour_index_none [OF None b] before_hour_iff [of "hour_start ts" "blk_time b"] by force
  qed
  then show ?thesis by (simp add: heightAtOrBefore_def None)
next
  case (Some i)
  note p = picked_hour [OF Some]
  have "height_at bs (hour_start ts + HOUR - 1) = Some (hr_top (hour_row_of bs (hour_marks FIRST_TIME bs ! i)))"
  proof (rule height_at_row [OF ok])
    show "blk_time b \<le> hour_start ts + HOUR - 1 \<longleftrightarrow> hour_start (blk_time b) \<le> hour_marks FIRST_TIME bs ! i"
      if b: "b \<in> set bs" "FIRST_TIME \<le> blk_time b" for b
      using before_hour_iff [of "hour_start ts" "blk_time b"] p(3) [OF b] by simp
  qed (use p(1) in simp)
  then show ?thesis using p(1) by (simp add: heightAtOrBefore_def Some load_scratch_marks)
qed

lemma exact_scratch:
  assumes ok: "chain_ok bs" and mark: "hour_start mark = mark"
  shows "heightAtOrBeforeExact (load t bs None) mark = height_at bs mark"
proof (cases "hourIndex (load t bs None) mark")
  case None
  have "height_at bs mark = None"
  proof (rule height_at_none)
    show "mark < blk_time b" if b: "b \<in> set bs" "FIRST_TIME \<le> blk_time b" for b
      using hour_index_none [OF None b] hour_start_le [of "blk_time b"] by linarith
  qed
  then show ?thesis by (simp add: heightAtOrBeforeExact_def mark None)
next
  case (Some i)
  note p = picked_hour [OF Some]
  let ?M = "hour_marks FIRST_TIME bs" and ?R = "hour_row_of bs"
  have Mi: "?M ! i \<in> set ?M" using p(1) by simp
  have al: "hour_start (?M ! i) = ?M ! i" "FIRST_TIME \<le> ?M ! i"
    using hour_marks_ge [OF hour_start_FIRST Mi] by simp_all
  note val = heightAtOrBeforeExact_def mark Some load_scratch_marks
  consider "?M ! i < mark" | "?M ! i = mark" "hr_at_mark (?R mark) > 0"
    | "?M ! i = mark" "\<not> hr_at_mark (?R mark) > 0" "i > 0" | "?M ! i = mark" "\<not> hr_at_mark (?R mark) > 0" "i = 0"
    using p(2) by linarith
  then show ?thesis
  proof cases
    case 1
    have "height_at bs mark = Some (hr_top (?R (?M ! i)))"
    proof (rule height_at_row [OF ok Mi])
      show "blk_time b \<le> mark \<longleftrightarrow> hour_start (blk_time b) \<le> ?M ! i" if b: "b \<in> set bs" "FIRST_TIME \<le> blk_time b" for b
        using p(3) [OF b] hour_start_mono [of "blk_time b" mark] mark hour_gap [OF al(1) mark 1]
          hour_start_gt [of "blk_time b"] by force
    qed
    then show ?thesis using 1 p(1) by (simp add: val)
  next
    case 2
    then show ?thesis using at_mark_row(2) [OF ok mark] al(2) p(1) by (simp add: val)
  next
    case 3
    have no: "blk_time b \<noteq> mark" if "b \<in> set bs" for b
      using at_mark_row(1) [OF ok mark] al(2) 3 that by auto
    have "height_at bs mark = Some (hr_top (?R (?M ! (i - 1))))"
    proof (rule height_at_row [OF ok])
      show "blk_time b \<le> mark \<longleftrightarrow> hour_start (blk_time b) \<le> ?M ! (i - 1)"
        if b: "b \<in> set bs" "FIRST_TIME \<le> blk_time b" for b
        using p(4) [OF 3(3) b] no [OF b(1)] hour_start_iff [OF mark, of "blk_time b"] 3(1) by force
    qed (use p(1) 3(3) in simp)
    then show ?thesis using 3 p(1) by (simp add: val)
  next
    case 4
    have "height_at bs mark = None"
    proof (rule height_at_none)
      show "mark < blk_time b" if b: "b \<in> set bs" "FIRST_TIME \<le> blk_time b" for b
      proof -
        have "blk_time b \<noteq> mark" using at_mark_row(1) [OF ok mark] al(2) 4 b(1) by auto
        then show ?thesis using p(5) [OF 4(3) b] 4(1) hour_start_le [of "blk_time b"] by linarith
      qed
    qed
    then show ?thesis using 4 p(1) by (simp add: val)
  qed
qed

lemma later_times:
  assumes "\<forall>r\<in>set rows. 0 < hr_top_ts r" "rows \<noteq> []"
  shows "\<exists>r\<in>set rows. foldl later_time None rows = Some (hr_top_ts r) \<and> (\<forall>r'\<in>set rows. hr_top_ts r' \<le> hr_top_ts r)"
  using assms
proof (induction rows rule: rev_induct)
  case (snoc x xs)
  show ?case
  proof (cases "xs = []")
    case True
    then show ?thesis using snoc.prems by (simp add: later_time_def)
  next
    case False
    then obtain r where r: "r \<in> set xs" "foldl later_time None xs = Some (hr_top_ts r)"
      "\<forall>r'\<in>set xs. hr_top_ts r' \<le> hr_top_ts r"
      using snoc by auto
    have step: "foldl later_time None (xs @ [x]) = Some (max (hr_top_ts r) (hr_top_ts x))"
      using snoc.prems by (simp add: r(2)) (simp add: later_time_def)
    show ?thesis
    proof (cases "hr_top_ts r \<le> hr_top_ts x")
      case True
      then show ?thesis unfolding step using r by (intro bexI [of _ x]) (auto intro: order_trans)
    next
      case False
      then show ?thesis unfolding step using r by (intro bexI [of _ r]) auto
    qed
  qed
qed simp

lemma row_time:
  assumes h: "h \<in> set (hour_marks FIRST_TIME bs)"
  obtains b where "b \<in> set bs" "FIRST_TIME \<le> blk_time b" "hr_top_ts (hour_row_of bs h) = blk_time b" "h \<le> blk_time b"
proof -
  let ?group = "filter (\<lambda>b. hour_start (blk_time b) = h) bs"
  have F: "FIRST_TIME \<le> h" by (rule hour_marks_ge(1) [OF hour_start_FIRST h])
  have "?group \<noteq> []" using h by (auto simp: hour_marks_facts filter_empty_conv)
  moreover have "\<forall>x\<in>set (map blk_time ?group). 0 \<le> x"
  proof
    fix x assume "x \<in> set (map blk_time ?group)"
    then obtain b where "b \<in> set bs" "x = blk_time b" "hour_start (blk_time b) = h" by auto
    then show "0 \<le> x" using F hour_start_le [of "blk_time b"] by (simp add: FIRST_TIME_def)
  qed
  ultimately have "column_max (map blk_time ?group) \<in> set (map blk_time ?group)"
    by (intro column_max_in) auto
  then obtain b where b: "b \<in> set ?group" "column_max (map blk_time ?group) = blk_time b" by auto
  moreover have "h \<le> blk_time b" using b(1) hour_start_le [of "blk_time b"] by auto
  ultimately show thesis using that [of b] F by (simp add: hour_row_of_def Let_def)
qed

lemma covered_block:
  assumes "clockCoveredSec (load t bs None) = Some s"
  obtains b where "b \<in> set bs" "FIRST_TIME \<le> blk_time b" "blk_time b = s"
proof -
  let ?M = "hour_marks FIRST_TIME bs"
  have ne: "?M \<noteq> []" using assms by (auto simp: clockCoveredSec_def load_scratch_marks split: if_splits)
  have "\<forall>r\<in>set (map (hour_row_of bs) ?M). 0 < hr_top_ts r"
  proof
    fix r assume "r \<in> set (map (hour_row_of bs) ?M)"
    then obtain h where h: "h \<in> set ?M" "r = hour_row_of bs h" by auto
    obtain b where "b \<in> set bs" "FIRST_TIME \<le> blk_time b" "hr_top_ts (hour_row_of bs h) = blk_time b" using row_time [OF h(1)] by blast
    then show "0 < hr_top_ts r" by (simp add: h FIRST_TIME_def)
  qed
  then have "\<exists>r\<in>set (map (hour_row_of bs) ?M). lastTime (load t bs None) = Some (hr_top_ts r)
      \<and> (\<forall>r'\<in>set (map (hour_row_of bs) ?M). hr_top_ts r' \<le> hr_top_ts r)"
    using later_times [of "map (hour_row_of bs) ?M"] ne unfolding load_scratch by simp
  then obtain h where h: "h \<in> set ?M" "lastTime (load t bs None) = Some (hr_top_ts (hour_row_of bs h))"
    "\<forall>k\<in>set ?M. hr_top_ts (hour_row_of bs k) \<le> hr_top_ts (hour_row_of bs h)"
    unfolding set_map by blast
  obtain b where b: "b \<in> set bs" "FIRST_TIME \<le> blk_time b" "hr_top_ts (hour_row_of bs h) = blk_time b"
    using row_time [OF h(1)] by blast
  obtain l where l: "l \<in> set bs" "hr_top_ts (hour_row_of bs (last ?M)) = blk_time l" "last ?M \<le> blk_time l"
    using row_time [OF last_in_set [OF ne]] by blast
  have "last ?M \<le> blk_time b" using h(3) last_in_set [OF ne] l(2,3) b(3) by force
  then have "blk_time b = s" using assms h(2) b(2,3) ne
    by (simp add: clockCoveredSec_def load_scratch_marks FIRST_TIME_def)
  with b that show thesis by blast
qed

lemma reached_scratch:
  assumes "chain_ok chain" "clock_reached chain n (Some c)"
  obtains m where "m \<le> n" "c = load (builtAt c) (take m chain) None"
  using reached_rebuilt [OF assms] by (auto simp: rebuilt_def)

lemma heights_nth:
  assumes ok: "chain_ok bs" and i: "i < length (hour_marks FIRST_TIME bs)"
    and b: "b \<in> set bs" "FIRST_TIME \<le> blk_time b"
  shows "blk_height b \<le> heights (load t bs None) ! i \<longleftrightarrow> hour_start (blk_time b) \<le> hour_marks FIRST_TIME bs ! i"
proof -
  let ?h = "hour_marks FIRST_TIME bs ! i"
  have "?h \<in> set (hour_marks FIRST_TIME bs)" using i by simp
  then obtain d where d: "d \<in> set bs" "hour_start (blk_time d) = ?h" "hr_top (hour_row_of bs ?h) = blk_height d"
    "\<And>e. e \<in> set bs \<Longrightarrow> hour_start (blk_time e) \<le> ?h \<Longrightarrow> blk_height e \<le> blk_height d"
    using row_top [OF ok] by blast
  have "hour_start (blk_time b) \<le> ?h" if "blk_height b \<le> blk_height d"
    using chain_order [OF ok d(1) b(1)] that hour_start_mono [of "blk_time b" "blk_time d"] d(2) by force
  then show ?thesis using d(3) d(4) [OF b(1)] i by (auto simp: load_scratch_marks)
qed

lemma bound_scratch:
  assumes ok: "chain_ok bs" and b: "b \<in> set bs" "FIRST_TIME \<le> blk_time b"
  shows "timeUpperBoundOfHeight (load t bs None) (blk_height b) = Some (hour_start (blk_time b) + HOUR)"
proof -
  let ?M = "hour_marks FIRST_TIME bs" and ?c = "load t bs None"
  let ?ok = "\<lambda>i. heights ?c ! i \<ge> blk_height b"
  have len: "length (heights ?c) = length ?M" by (simp add: load_scratch_marks)
  have srt: "sorted ?M" "distinct ?M" by (rule hour_marks_facts)+
  obtain j where j: "j < length ?M" "?M ! j = hour_start (blk_time b)" using hour_of_block [OF b] .
  have ord: "k < l \<Longrightarrow> l < length ?M \<Longrightarrow> ?M ! k < ?M ! l" for k l
    using srt by (simp add: sorted_iff_nth_mono_less distinct_conv_nth order.strict_iff_order)
  have le: "?ok i \<longleftrightarrow> j \<le> i" if "i < length ?M" for i
    using heights_nth [OF ok that b, of t] j that ord [of i j] ord [of j i]
    by (cases i j rule: linorder_cases) auto
  have ne: "heights ?c \<noteq> []" using j len by auto
  have ok_last: "?ok (length ?M - 1)" using le [of "length ?M - 1"] j(1) by simp
  let ?f = "first_index ?ok 0 (length ?M - 1)"
  have f: "?ok ?f \<and> 0 \<le> ?f \<and> ?f \<le> length ?M - 1 \<and> (\<forall>k. 0 \<le> k \<and> k < ?f \<longrightarrow> \<not> ?ok k)"
  proof (rule first_index_correct)
    show "?ok l" if "k \<le> l" "l \<le> length ?M - 1" "?ok k" for k l
      using that le [of k] le [of l] j(1) by simp
  qed (use ok_last in simp_all)
  then have "?f < length ?M" using j(1) by linarith
  then have "j \<le> ?f" using le [of ?f] f by simp
  moreover have "\<not> j < ?f" using f le [of j] j(1) by blast
  ultimately have "?f = j" by simp
  moreover have "blk_height b \<le> last (heights ?c)" using ok_last ne len by (simp add: last_conv_nth)
  ultimately show ?thesis using ne len j(2) by (simp add: timeUpperBoundOfHeight_def not_less load_scratch_marks(1))
qed

section \<open>Properties\<close>

lemma in_take_or_later:
  assumes ok: "chain_ok chain" and b: "b \<in> set chain" "b \<notin> set (take m chain)" and d: "d \<in> set (take m chain)"
  shows "blk_time d < blk_time b" "blk_height d < blk_height b"
proof -
  have "b \<in> set (drop m chain)" using b by (metis append_take_drop_id UnE set_append)
  moreover have "chain_ok (take m chain @ drop m chain)" using ok by simp
  ultimately show "blk_time d < blk_time b" "blk_height d < blk_height b" using chain_ok_append_times d by blast+
qed

text \<open>
  However often the shared clock was refreshed at the head, by failed reads too, and whatever was asked of it, it is
  the clock a rebuild over the whole table would give: for the rows there were when it was last refreshed.
\<close>

lemma shared_clock_rebuilds:
  assumes "chain_ok chain" "clock_reached chain n (Some c)"
  shows "\<exists>m\<le>n. c = load (builtAt c) (take m chain) None"
  using reached_scratch [OF assms] by blast

definition sample_chain :: "chain_block list" where
  "sample_chain =
     [\<lparr>blk_height = 0, blk_time = 0\<rparr>, \<lparr>blk_height = 1, blk_time = 1640995194\<rparr>, \<lparr>blk_height = 2, blk_time = 1640995200\<rparr>,
      \<lparr>blk_height = 3, blk_time = 1640998794\<rparr>, \<lparr>blk_height = 4, blk_time = 1641006000\<rparr>]"

lemma sample_chain_ok: "chain_ok sample_chain"
  by (simp add: chain_ok_def sample_chain_def FIRST_TIME_def)

lemma sample_reached: "clock_reached sample_chain 5 (Some (load 120000 sample_chain (Some (load 0 (take 3 sample_chain) None))))"
proof -
  have one: "clock_reached sample_chain 3 (Some (load 0 (take 3 sample_chain) None))"
    using clock_reached.asked [OF clock_reached.start, where chain = sample_chain and n' = 3 and r = "Some (take 3 sample_chain)" and now = 0]
    by (simp add: table_read_def blockClock_def refresh_clock_def)
  have built: "builtAt (load t b k) = t" for t b k by (simp add: load_def Let_def)
  have "take 5 sample_chain = sample_chain" by (simp add: sample_chain_def)
  then show ?thesis
    using clock_reached.asked [OF one, where n' = 5 and r = "Some sample_chain" and now = 120000]
    by (simp add: table_read_def blockClock_def refresh_clock_def built REFRESH_MS_def)
qed

lemma covered_mark:
  assumes ok: "chain_ok chain" and c: "clock_reached chain n (Some c)"
    and s: "clockCoveredSec c = Some s" and mark: "hour_start mark = mark" "mark \<le> s"
  shows "heightAtOrBeforeExact c mark = height_at chain mark"
proof -
  obtain m where m: "c = load (builtAt c) (take m chain) None" using reached_scratch [OF ok c] by blast
  let ?bs = "take m chain"
  have "clockCoveredSec (load (builtAt c) ?bs None) = Some s" using s by (simp flip: m)
  then obtain b where b: "b \<in> set ?bs" "blk_time b = s" using covered_block by blast
  have "\<not> (FIRST_TIME \<le> blk_time d \<and> blk_time d \<le> mark)" if d: "d \<in> set (drop m chain)" for d
  proof -
    have "chain_ok (?bs @ drop m chain)" using ok by simp
    then have "blk_time b < blk_time d" using chain_ok_append_times(1) b(1) d by blast
    then show ?thesis using b(2) mark(2) by simp
  qed
  then have "filter (\<lambda>d. FIRST_TIME \<le> blk_time d \<and> blk_time d \<le> mark) (drop m chain) = []"
    by (simp add: filter_empty_conv)
  then have "filter (\<lambda>d. FIRST_TIME \<le> blk_time d \<and> blk_time d \<le> mark) chain
      = filter (\<lambda>d. FIRST_TIME \<le> blk_time d \<and> blk_time d \<le> mark) ?bs"
    by (subst (1) append_take_drop_id [of m chain, symmetric]) (simp only: filter_append append_Nil2)
  then have "height_at chain mark = height_at ?bs mark" by (simp add: height_at_def)
  then show ?thesis using exact_scratch [OF chain_ok_take [OF ok] mark(1), of "builtAt c" m] by (simp flip: m)
qed

text \<open>
  C15: An hour mark the clock covers resolves to the greatest height the chain ever stamps at or before it, and is
  final: blocks still to come change no answer.
\<close>

theorem covered_marks_exact:
  assumes ok: "chain_ok chain" and c: "clock_reached chain n (Some c)"
    and s: "clockCoveredSec c = Some s" and mark: "hour_start mark = mark" "mark \<le> s"
  shows "heightAtOrBeforeExact c mark = height_at chain mark"
  by (rule covered_mark [OF assms])

theorem covered_marks_exact_witness:
  "heightAtOrBeforeExact (load 120000 sample_chain (Some (load 0 (take 3 sample_chain) None))) 1640998800 = Some 3"
proof -
  let ?c = "load 120000 sample_chain (Some (load 0 (take 3 sample_chain) None))"
  have "chain_ok (take 3 sample_chain @ drop 3 sample_chain)" using sample_chain_ok by simp
  then have "?c = load 120000 sample_chain None" using load_extends [of "take 3 sample_chain" "drop 3 sample_chain"] by simp
  then have "clockCoveredSec ?c = Some 1641006000"
    by (simp add: load_def clockCoveredSec_def hour_rows_def sample_chain_def FIRST_TIME_def hour_start_def HOUR_def
        hour_row_of_def column_max_def later_time_def insort_key_def)
  from covered_marks_exact [OF sample_chain_ok sample_reached this, of 1640998800]
  show ?thesis by (simp add: hour_start_def HOUR_def height_at_def sample_chain_def FIRST_TIME_def column_max_def)
qed

text \<open>
  The instant a block is bounded by is the end of its own hour, for every block the clock has seen, and there is
  none for a block it has not.
\<close>

lemma block_time_bounded:
  assumes ok: "chain_ok chain" and c: "clock_reached chain n (Some c)" and b: "b \<in> set chain" "FIRST_TIME \<le> blk_time b"
  shows "timeUpperBoundOfHeight c (blk_height b) =
    (if heights c \<noteq> [] \<and> blk_height b \<le> last (heights c) then Some (hour_start (blk_time b) + HOUR) else None)"
proof -
  obtain m where m: "c = load (builtAt c) (take m chain) None" using reached_scratch [OF ok c] by blast
  let ?bs = "take m chain"
  have oks: "chain_ok ?bs" by (rule chain_ok_take [OF ok])
  show ?thesis
  proof (cases "b \<in> set ?bs")
    case True
    then have bound: "timeUpperBoundOfHeight c (blk_height b) = Some (hour_start (blk_time b) + HOUR)"
      using bound_scratch [OF oks True b(2), of "builtAt c"] by (simp flip: m)
    then show ?thesis by (auto simp: timeUpperBoundOfHeight_def not_less split: if_splits)
  next
    case False
    have "last (heights c) < blk_height b" if ne: "heights c \<noteq> []"
    proof -
      have "last (heights c) \<in> set (heights c)" using ne by simp
      then obtain h where h: "h \<in> set (hour_marks FIRST_TIME ?bs)" "last (heights c) = hr_top (hour_row_of ?bs h)"
        using load_scratch_marks(2) [of "builtAt c" ?bs] by (auto simp flip: m)
      obtain d where "d \<in> set ?bs" "hr_top (hour_row_of ?bs h) = blk_height d" using row_top [OF oks h(1)] by blast
      then show ?thesis using in_take_or_later(2) [OF ok b(1) False] h(2) by simp
    qed
    then show ?thesis by (auto simp: timeUpperBoundOfHeight_def)
  qed
qed

end
