(* ===== verification/Bucket_Ladder.thy ===== *)
theory Bucket_Ladder
  imports Block_Clock Js_Strings
begin

text \<open>
  The wall-clock buckets every history series runs on (\<^verbatim>\<open>src/api/src/services/bucketLadder.ts\<close>): the ladder of steps,
  the bucketing of a range by time and by block height, and the canonical grid that lets accounts share one fold.

  Instants are whole seconds. The SQL expressions the bucketing hands out are modelled by the index they compute for a
  row; dividing by the step in floating point is exact at these sizes.
\<close>

section \<open>Steps\<close>

definition BUCKET_STEPS_SEC :: "int list" where
  "BUCKET_STEPS_SEC =
     [3600, 3 * 3600, 6 * 3600, 12 * 3600, 86400, 2 * 86400, 3 * 86400, 5 * 86400, 7 * 86400, 10 * 86400,
      14 * 86400, 21 * 86400, 30 * 86400, 45 * 86400, 60 * 86400, 90 * 86400, 180 * 86400]"

definition FINEST_STEP_SEC :: int where "FINEST_STEP_SEC = hd BUCKET_STEPS_SEC"

definition chooseBucketStep :: "int \<Rightarrow> int \<Rightarrow> int \<Rightarrow> int \<Rightarrow> int" where
  "chooseBucketStep fromSec toSec budget minStepSec =
     (let span = max 0 (toSec - fromSec);
          cap = max 1 budget
      in case find (\<lambda>step. \<not> step < minStepSec \<and> span \<le> cap * step) BUCKET_STEPS_SEC of
           Some step \<Rightarrow> step
         | None \<Rightarrow> last BUCKET_STEPS_SEC)"

section \<open>Bucketing\<close>

definition MONDAY_ANCHOR_SEC :: int where "MONDAY_ANCHOR_SEC = 4 * 86400"

record bucket_dating =
  bd_key :: string
  bd_heightAt :: "int \<Rightarrow> int option"

record bucketing_options =
  bo_stepSec :: "int option"
  bo_anchorSec :: "int option"
  bo_heightAt :: "(int \<Rightarrow> int option) option"
  bo_dating :: "bucket_dating option"

definition no_options :: bucketing_options where
  "no_options = \<lparr>bo_stepSec = None, bo_anchorSec = None, bo_heightAt = None, bo_dating = None\<rparr>"

record bucketing =
  bk_t0 :: int
  bk_step :: int
  bk_N :: int
  bk_toSec :: int
  bk_floorHeight :: int
  bk_endHeights :: "int list"
  bk_startHeights :: "int list"
  bk_dating :: "bucket_dating option"

definition ceil_div :: "int \<Rightarrow> int \<Rightarrow> int" where
  "ceil_div a b = - ((- a) div b)"

definition end_sec :: "int \<Rightarrow> int \<Rightarrow> int \<Rightarrow> int \<Rightarrow> int" where
  "end_sec t0 step toSec b = min (t0 + (b + 1) * step) toSec"

definition makeBucketing ::
  "block_clock \<Rightarrow> int \<Rightarrow> int \<Rightarrow> int \<Rightarrow> int \<Rightarrow> int \<Rightarrow> bucketing_options \<Rightarrow> bucketing option" where
  "makeBucketing clock fromSec toSec floorHeight budget minStepSec opts =
     (let step = (case bo_stepSec opts of Some s \<Rightarrow> s | None \<Rightarrow> chooseBucketStep fromSec toSec budget minStepSec)
      in if step \<le> 0 \<or> step mod 3600 \<noteq> 0 then None
         else
           (let anchor = (case bo_anchorSec opts of Some a \<Rightarrow> a | None \<Rightarrow> 0);
                t0 = anchor + (fromSec - anchor) div step * step;
                N = max 0 (ceil_div (toSec - t0) step - 1);
                ends = map (\<lambda>b. end_sec t0 step toSec (int b)) [0..<nat (N + 1)];
                dating = (case bo_dating opts of
                            Some d \<Rightarrow> Some d
                          | None \<Rightarrow> (case bo_heightAt opts of
                              Some _ \<Rightarrow> None
                            | None \<Rightarrow> Some \<lparr>bd_key = ''chart'', bd_heightAt = heightAtOrBefore clock\<rparr>));
                endHeights = (case bo_heightAt opts of
                    Some heightAt \<Rightarrow> map (\<lambda>t. case heightAt t of Some h \<Rightarrow> h | None \<Rightarrow> floorHeight) ends
                  | None \<Rightarrow> heightsForBoundaries clock ends floorHeight)
            in Some \<lparr>bk_t0 = t0, bk_step = step, bk_N = N, bk_toSec = toSec, bk_floorHeight = floorHeight,
                 bk_endHeights = endHeights,
                 bk_startHeights = floorHeight # map (\<lambda>h. h + 1) (take (nat N) endHeights),
                 bk_dating = dating\<rparr>))"

definition endSec :: "bucketing \<Rightarrow> int \<Rightarrow> int" where
  "endSec bk b = end_sec (bk_t0 bk) (bk_step bk) (bk_toSec bk) b"

definition endHeight :: "bucketing \<Rightarrow> int \<Rightarrow> int" where
  "endHeight bk b = bk_endHeights bk ! nat (max 0 (min (bk_N bk) b))"

definition ofTs :: "bucketing \<Rightarrow> int \<Rightarrow> int" where
  "ofTs bk ts = min (max (bdiv (ts - bk_t0 bk - 1) (bk_step bk)) 0) (bk_N bk)"

definition ofTsCarry :: "bucketing \<Rightarrow> int \<Rightarrow> int" where
  "ofTsCarry bk ts = max (- 1) (min (bk_N bk) ((ts - bk_t0 bk - 1) div bk_step bk))"

text \<open>\<open>roundDown(x, bounds)\<close>: the greatest bound at or below, or the least bound; \<open>indexOf\<close>: the first position, from 1.\<close>

definition round_down :: "int \<Rightarrow> int list \<Rightarrow> int" where
  "round_down x bounds =
     (case filter (\<lambda>e. e \<le> x) bounds of
        e # es \<Rightarrow> foldl max e es
      | [] \<Rightarrow> foldl min (hd bounds) (tl bounds))"

definition sql_index_of :: "'a list \<Rightarrow> 'a \<Rightarrow> int" where
  "sql_index_of xs x = (if x \<in> set xs then int (length (takeWhile (\<lambda>y. y \<noteq> x) xs)) + 1 else 0)"

definition ofHeight :: "bucketing \<Rightarrow> int \<Rightarrow> int" where
  "ofHeight bk h = sql_index_of (bk_startHeights bk) (round_down (max h (bk_floorHeight bk)) (bk_startHeights bk)) - 1"

definition ofHeightCarry :: "bucketing \<Rightarrow> int \<Rightarrow> int" where
  "ofHeightCarry bk h =
     (if h < bk_floorHeight bk then - 1
      else sql_index_of (bk_startHeights bk) (round_down h (bk_startHeights bk)) - 1)"

definition bucketOfHeight :: "bucketing \<Rightarrow> int \<Rightarrow> int" where
  "bucketOfHeight bk h =
     (if h \<le> bk_startHeights bk ! 0 then 0
      else int (last_index (\<lambda>i. bk_startHeights bk ! i \<le> h) 0 (nat (bk_N bk))))"

section \<open>Canonical grids\<close>

definition CANONICAL_GRID_STEPS :: int where "CANONICAL_GRID_STEPS = 200"

definition STUB_CLOCK :: block_clock where
  "STUB_CLOCK = \<lparr>hours = [], heights = [], atMark = None, lastTime = None, builtAt = 0\<rparr>"

record canonical_grid =
  cg_key :: string
  cg_bk :: bucketing
  cg_map :: "int option list"

definition grid_index :: "bucketing \<Rightarrow> bucketing \<Rightarrow> int \<Rightarrow> int \<Rightarrow> int \<Rightarrow> int option" where
  "grid_index bk cb from newest b =
     (let t = endSec bk b; step = bk_step bk
      in if t \<le> from \<or> t > newest \<or> (t - from) mod step \<noteq> 0 then None
         else (let i = (t - from) div step - 1 in if endHeight cb i = endHeight bk b then Some i else None))"

definition canonicalGrid :: "bucketing \<Rightarrow> int \<Rightarrow> canonical_grid option" where
  "canonicalGrid bk steps =
     (case bk_dating bk of
        None \<Rightarrow> None
      | Some dating \<Rightarrow>
          if steps < 1 then None
          else
            (let step = bk_step bk;
                 phase = (bk_t0 bk mod step + step) mod step;
                 newest = bk_t0 bk + (endSec bk (bk_N bk) - bk_t0 bk) div step * step
             in if newest \<le> bk_t0 bk - step * steps then None
                else
                  (let from = newest - steps * step;
                       floor = (case bd_heightAt dating from of Some h \<Rightarrow> h | None \<Rightarrow> 0) + 1
                   in map_option
                        (\<lambda>cb. \<lparr>cg_key = join_with '':''
                                 [int_to_string step, int_to_string phase, bd_key dating, int_to_string newest,
                                  int_to_string steps], cg_bk = cb,
                               cg_map = map (\<lambda>b. grid_index bk cb from newest (int b)) [0..<nat (bk_N bk + 1)]\<rparr>)
                        (makeBucketing STUB_CLOCK from newest floor 180 FINEST_STEP_SEC
                           \<lparr>bo_stepSec = Some step, bo_anchorSec = Some phase, bo_heightAt = Some (bd_heightAt dating),
                            bo_dating = Some dating\<rparr>))))"

record plan_tail =
  pt_b :: int
  pt_prev :: int
  pt_fromHeight :: int
  pt_toHeight :: int

record canonical_plan =
  cp_grid :: canonical_grid
  cp_tail :: "plan_tail option"

definition canonicalPlan :: "bucketing \<Rightarrow> int \<Rightarrow> canonical_plan option" where
  "canonicalPlan bk steps =
     (case canonicalGrid bk steps of
        None \<Rightarrow> None
      | Some grid \<Rightarrow>
          (let N = nat (bk_N bk)
           in if \<not> list_all (\<lambda>m. m \<noteq> None) (take N (cg_map grid)) then None
              else if cg_map grid ! N \<noteq> None then Some \<lparr>cp_grid = grid, cp_tail = None\<rparr>
              else
                (let g0 = bk_t0 (cg_bk grid);
                     lattice = g0 + (endSec bk (bk_N bk) - g0) div bk_step bk * bk_step bk;
                     prev = (lattice - g0) div bk_step bk - 1
                 in if prev < 0 \<or> prev > bk_N (cg_bk grid) then None
                    else if N > 0 \<and> cg_map grid ! (N - 1) \<noteq> Some prev then None
                    else
                      (let fromHeight = endHeight (cg_bk grid) prev + 1;
                           toHeight = endHeight bk (bk_N bk)
                       in if toHeight < fromHeight - 1 then None
                          else Some \<lparr>cp_grid = grid,
                                 cp_tail = Some \<lparr>pt_b = bk_N bk, pt_prev = prev, pt_fromHeight = fromHeight,
                                                 pt_toHeight = toHeight\<rparr>\<rparr>))))"

section \<open>The grid of a range\<close>

lemma step_positive: "s \<in> set BUCKET_STEPS_SEC \<Longrightarrow> 0 < s \<and> s mod 3600 = 0"
  by (auto simp: BUCKET_STEPS_SEC_def)

lemma chooseBucketStep_ladder: "chooseBucketStep f t budget m \<in> set BUCKET_STEPS_SEC"
proof -
  have "find P xs = Some x \<Longrightarrow> x \<in> set xs" for P and xs :: "int list" and x
    by (metis find_Some_iff nth_mem)
  moreover have "last BUCKET_STEPS_SEC \<in> set BUCKET_STEPS_SEC" by (rule last_in_set) (simp add: BUCKET_STEPS_SEC_def)
  ultimately show ?thesis by (simp add: chooseBucketStep_def Let_def split: option.split)
qed

lemma ceil_div_bounds:
  assumes "0 < b"
  shows "a \<le> ceil_div a b * b" "(ceil_div a b - 1) * b < a"
proof -
  have "(- a) div b * b \<le> - a" "- a < (- a) div b * b + b"
    using assms pos_mod_bound [of b "- a"] pos_mod_sign [of b "- a"] div_mult_mod_eq [of "- a" b] by linarith+
  then show "a \<le> ceil_div a b * b" "(ceil_div a b - 1) * b < a" by (simp_all add: ceil_div_def algebra_simps)
qed

text \<open>What every bucketing built here satisfies.\<close>

definition grid_ok :: "bucketing \<Rightarrow> bool" where
  "grid_ok bk \<longleftrightarrow> 0 < bk_step bk \<and> bk_step bk mod 3600 = 0 \<and> 0 \<le> bk_N bk
     \<and> bk_toSec bk \<le> bk_t0 bk + (bk_N bk + 1) * bk_step bk
     \<and> (bk_N bk = 0 \<or> bk_t0 bk + bk_N bk * bk_step bk < bk_toSec bk)
     \<and> length (bk_endHeights bk) = nat (bk_N bk + 1)
     \<and> bk_startHeights bk = bk_floorHeight bk # map (\<lambda>h. h + 1) (take (nat (bk_N bk)) (bk_endHeights bk))"

lemma made_endHeights:
  assumes made: "makeBucketing clock fromSec toSec floorHeight budget minStep opts = Some bk"
  shows "bk_endHeights bk =
    (case bo_heightAt opts of
       Some heightAt \<Rightarrow> map (\<lambda>t. case heightAt t of Some h \<Rightarrow> h | None \<Rightarrow> floorHeight)
         (map (\<lambda>b. endSec bk (int b)) [0..<nat (bk_N bk + 1)])
     | None \<Rightarrow> heightsForBoundaries clock (map (\<lambda>b. endSec bk (int b)) [0..<nat (bk_N bk + 1)]) floorHeight)"
  using made unfolding makeBucketing_def Let_def
  by (auto simp only: option.inject option.distinct bucketing.select_convs endSec_def split: if_split_asm)

lemma made_grid:
  assumes made: "makeBucketing clock fromSec toSec floorHeight budget minStep opts = Some bk"
  shows "grid_ok bk" "bk_toSec bk = toSec" "bk_floorHeight bk = floorHeight"
    "bk_t0 bk \<le> fromSec" "fromSec < bk_t0 bk + bk_step bk"
    "bk_step bk = (case bo_stepSec opts of Some s \<Rightarrow> s | None \<Rightarrow> chooseBucketStep fromSec toSec budget minStep)"
    "bk_t0 bk = (case bo_anchorSec opts of Some a \<Rightarrow> a | None \<Rightarrow> 0)
      + (fromSec - (case bo_anchorSec opts of Some a \<Rightarrow> a | None \<Rightarrow> 0)) div bk_step bk * bk_step bk"
    "bk_N bk = max 0 (ceil_div (toSec - bk_t0 bk) (bk_step bk) - 1)"
proof -
  note d = made [unfolded makeBucketing_def Let_def]
  show step: "bk_step bk = (case bo_stepSec opts of Some s \<Rightarrow> s | None \<Rightarrow> chooseBucketStep fromSec toSec budget minStep)"
    and to: "bk_toSec bk = toSec" and "bk_floorHeight bk = floorHeight"
    and t0: "bk_t0 bk = (case bo_anchorSec opts of Some a \<Rightarrow> a | None \<Rightarrow> 0)
      + (fromSec - (case bo_anchorSec opts of Some a \<Rightarrow> a | None \<Rightarrow> 0)) div bk_step bk * bk_step bk"
    using d by (auto simp only: option.inject option.distinct bucketing.select_convs split: if_split_asm)
  show N: "bk_N bk = max 0 (ceil_div (toSec - bk_t0 bk) (bk_step bk) - 1)"
    using d by (auto simp only: option.inject option.distinct bucketing.select_convs not_le split: if_split_asm)
  have pos: "0 < bk_step bk" "bk_step bk mod 3600 = 0"
  proof -
    have "\<not> (bk_step bk \<le> 0 \<or> bk_step bk mod 3600 \<noteq> 0)"
      unfolding step
    proof
      assume bad: "(case bo_stepSec opts of Some s \<Rightarrow> s | None \<Rightarrow> chooseBucketStep fromSec toSec budget minStep) \<le> 0
        \<or> (case bo_stepSec opts of Some s \<Rightarrow> s | None \<Rightarrow> chooseBucketStep fromSec toSec budget minStep) mod 3600 \<noteq> 0"
      show False using d unfolding if_P [OF bad] by simp
    qed
    then show "0 < bk_step bk" "bk_step bk mod 3600 = 0" by simp_all
  qed
  obtain a where a: "bk_t0 bk = a + (fromSec - a) div bk_step bk * bk_step bk" using t0 by blast
  show "bk_t0 bk \<le> fromSec" "fromSec < bk_t0 bk + bk_step bk"
    using a pos(1) pos_mod_bound [of "bk_step bk" "fromSec - a"] pos_mod_sign [of "bk_step bk" "fromSec - a"]
      div_mult_mod_eq [of "fromSec - a" "bk_step bk"] by linarith+
  have len: "length (bk_endHeights bk) = nat (bk_N bk + 1)"
    unfolding made_endHeights [OF made] heightsForBoundaries_def by (simp split: option.split)
  have starts: "bk_startHeights bk = bk_floorHeight bk # map (\<lambda>h. h + 1) (take (nat (bk_N bk)) (bk_endHeights bk))"
    using d by (auto simp only: option.inject option.distinct bucketing.select_convs not_le split: if_split_asm)
  note c = ceil_div_bounds [OF pos(1), of "toSec - bk_t0 bk"]
  have up: "bk_toSec bk \<le> bk_t0 bk + (bk_N bk + 1) * bk_step bk"
  proof -
    have "ceil_div (toSec - bk_t0 bk) (bk_step bk) * bk_step bk \<le> (bk_N bk + 1) * bk_step bk"
      using pos(1) N by (intro mult_right_mono) auto
    then show ?thesis using c(1) to by linarith
  qed
  have "bk_t0 bk + bk_N bk * bk_step bk < bk_toSec bk" if "bk_N bk \<noteq> 0"
  proof -
    have "bk_N bk = ceil_div (toSec - bk_t0 bk) (bk_step bk) - 1" using N that by (auto simp: max_def split: if_splits)
    then show ?thesis using c(2) to by simp
  qed
  moreover have "0 \<le> bk_N bk" by (simp add: N)
  ultimately show "grid_ok bk" unfolding grid_ok_def using pos up len starts by (intro conjI) blast+
qed

lemma endSec_inner:
  assumes "grid_ok bk" "0 \<le> b" "b < bk_N bk"
  shows "endSec bk b = bk_t0 bk + (b + 1) * bk_step bk" "endSec bk b < bk_toSec bk"
proof -
  have "(b + 1) * bk_step bk \<le> bk_N bk * bk_step bk" using assms by (intro mult_right_mono) (auto simp: grid_ok_def)
  moreover have "bk_t0 bk + bk_N bk * bk_step bk < bk_toSec bk" using assms by (auto simp: grid_ok_def)
  ultimately have "bk_t0 bk + (b + 1) * bk_step bk < bk_toSec bk" by linarith
  then show "endSec bk b = bk_t0 bk + (b + 1) * bk_step bk" "endSec bk b < bk_toSec bk"
    by (simp_all add: endSec_def end_sec_def)
qed

lemma endSec_last: "grid_ok bk \<Longrightarrow> endSec bk (bk_N bk) = bk_toSec bk"
  by (simp add: grid_ok_def endSec_def end_sec_def)

lemma quotient_bucket:
  fixes x s b :: int
  assumes "0 < s"
  shows "(x - 1) div s = b \<longleftrightarrow> b * s < x \<and> x \<le> (b + 1) * s"
proof
  assume b: "(x - 1) div s = b"
  have "b * s + (x - 1) mod s = x - 1" using div_mult_mod_eq [of "x - 1" s] by (simp only: b)
  moreover have "0 \<le> (x - 1) mod s" "(x - 1) mod s < s" using assms by simp_all
  moreover have "(b + 1) * s = b * s + s" by (simp add: distrib_right)
  ultimately show "b * s < x \<and> x \<le> (b + 1) * s" by linarith
next
  assume "b * s < x \<and> x \<le> (b + 1) * s"
  then show "(x - 1) div s = b" by (intro int_div_pos_eq [of _ _ _ "x - 1 - b * s"]) (auto simp: algebra_simps)
qed

lemma ofTs_le_start: "grid_ok bk \<Longrightarrow> ts \<le> bk_t0 bk \<Longrightarrow> ofTs bk ts = 0"
proof -
  assume ok: "grid_ok bk" and ts: "ts \<le> bk_t0 bk"
  have "0 \<le> \<bar>ts - bk_t0 bk - 1\<bar> div \<bar>bk_step bk\<bar>" using ok by (simp add: grid_ok_def pos_imp_zdiv_nonneg_iff)
  then have "bdiv (ts - bk_t0 bk - 1) (bk_step bk) \<le> 0" using ok ts by (simp add: bdiv_def grid_ok_def sgn_if)
  then show ?thesis using ok by (simp add: ofTs_def grid_ok_def)
qed

lemma ofTs_inside:
  assumes ok: "grid_ok bk" and ts: "bk_t0 bk < ts" "ts \<le> bk_toSec bk"
  shows "ofTs bk ts = (ts - bk_t0 bk - 1) div bk_step bk" "0 \<le> ofTs bk ts" "ofTs bk ts \<le> bk_N bk"
proof -
  have s: "0 < bk_step bk" using ok by (simp add: grid_ok_def)
  have q0: "0 \<le> (ts - bk_t0 bk - 1) div bk_step bk" using ts s by (simp add: pos_imp_zdiv_nonneg_iff)
  have "ts - bk_t0 bk - 1 < (bk_N bk + 1) * bk_step bk" using ok ts by (simp add: grid_ok_def)
  moreover have "(ts - bk_t0 bk - 1) div bk_step bk * bk_step bk \<le> ts - bk_t0 bk - 1"
    using pos_mod_sign [OF s, of "ts - bk_t0 bk - 1"] div_mult_mod_eq [of "ts - bk_t0 bk - 1" "bk_step bk"] by linarith
  ultimately have "(ts - bk_t0 bk - 1) div bk_step bk * bk_step bk < (bk_N bk + 1) * bk_step bk" by linarith
  then have "(ts - bk_t0 bk - 1) div bk_step bk < bk_N bk + 1" using s by (simp only: mult_less_cancel_right_pos)
  then show "ofTs bk ts = (ts - bk_t0 bk - 1) div bk_step bk" "0 \<le> ofTs bk ts" "ofTs bk ts \<le> bk_N bk"
    using q0 ts s by (simp_all add: ofTs_def bdiv_nonneg_eq)
qed

lemma bucket_of_instant:
  assumes ok: "grid_ok bk" and ts: "ts \<le> bk_toSec bk" and b: "0 \<le> b" "b \<le> bk_N bk"
  shows "ofTs bk ts = b \<longleftrightarrow> (b = 0 \<or> bk_t0 bk + b * bk_step bk < ts) \<and> ts \<le> endSec bk b"
proof (cases "bk_t0 bk < ts")
  case True
  have s: "0 < bk_step bk" using ok by (simp add: grid_ok_def)
  have "ofTs bk ts = b \<longleftrightarrow> b * bk_step bk < ts - bk_t0 bk \<and> ts - bk_t0 bk \<le> (b + 1) * bk_step bk"
    using ofTs_inside(1) [OF ok True ts] quotient_bucket [OF s, of "ts - bk_t0 bk" b] by simp
  moreover have "ts \<le> endSec bk b \<longleftrightarrow> ts \<le> bk_t0 bk + (b + 1) * bk_step bk"
    using ts by (simp add: endSec_def end_sec_def)
  ultimately show ?thesis using True by auto
next
  case False
  have "0 \<le> b * bk_step bk" using b ok by (simp add: grid_ok_def)
  moreover have "ts \<le> endSec bk 0" using False ts ok by (simp add: endSec_def end_sec_def grid_ok_def)
  ultimately show ?thesis using ofTs_le_start [OF ok, of ts] False by auto
qed

section \<open>Buckets by height\<close>

lemma height_at_less:
  assumes ok: "chain_ok chain" and b: "b \<in> set chain" "FIRST_TIME \<le> blk_time b"
  shows "(case height_at chain t of Some h \<Rightarrow> h < blk_height b | None \<Rightarrow> True) \<longleftrightarrow> t < blk_time b"
proof -
  let ?seen = "filter (\<lambda>d. FIRST_TIME \<le> blk_time d \<and> blk_time d \<le> t) chain"
  show ?thesis
  proof (cases "?seen = []")
    case True
    then have "t < blk_time b" using b by (auto simp: filter_empty_conv not_le)
    then show ?thesis using True by (simp add: height_at_def)
  next
    case False
    then have at: "height_at chain t = Some (column_max (map blk_height ?seen))" by (simp add: height_at_def Let_def)
    have "column_max (map blk_height ?seen) \<in> set (map blk_height ?seen)"
      using False chain_height(1) [OF ok] by (intro column_max_in) auto
    then obtain d where d: "d \<in> set ?seen" "column_max (map blk_height ?seen) = blk_height d" by auto
    show ?thesis
    proof (cases "t < blk_time b")
      case True
      then have "blk_time d < blk_time b" using d(1) by simp
      then show ?thesis using at d chain_order [OF ok, of d b] b(1) True by simp
    next
      case False
      then have "blk_height b \<le> column_max (map blk_height ?seen)" using b by (intro column_max_ge) auto
      then show ?thesis using at False by simp
    qed
  qed
qed

lemma starts_nth:
  assumes "grid_ok bk"
  shows "length (bk_startHeights bk) = nat (bk_N bk) + 1" "bk_startHeights bk ! 0 = bk_floorHeight bk"
    "0 < i \<Longrightarrow> i \<le> nat (bk_N bk) \<Longrightarrow> bk_startHeights bk ! i = bk_endHeights bk ! (i - 1) + 1"
  using assms by (auto simp: grid_ok_def nth_Cons' nat_add_distrib)

text \<open>The boundaries between buckets are dated exactly.\<close>

definition dated_exactly :: "chain_block list \<Rightarrow> bucketing \<Rightarrow> bool" where
  "dated_exactly chain bk \<longleftrightarrow>
     (\<forall>i<nat (bk_N bk). bk_endHeights bk ! i =
        (case height_at chain (endSec bk (int i)) of Some h \<Rightarrow> h | None \<Rightarrow> bk_floorHeight bk))"

lemma start_reached:
  assumes ok: "chain_ok chain" and g: "grid_ok bk" and dated: "dated_exactly chain bk"
    and b: "b \<in> set chain" "FIRST_TIME \<le> blk_time b" and above: "bk_floorHeight bk < blk_height b"
    and i: "0 < i" "i \<le> nat (bk_N bk)"
  shows "bk_startHeights bk ! i \<le> blk_height b \<longleftrightarrow> endSec bk (int i - 1) < blk_time b"
proof -
  have e: "bk_endHeights bk ! (i - 1) = (case height_at chain (endSec bk (int i - 1)) of Some h \<Rightarrow> h | None \<Rightarrow> bk_floorHeight bk)"
    using dated i by (simp add: dated_exactly_def of_nat_diff Suc_le_eq)
  have "bk_startHeights bk ! i \<le> blk_height b \<longleftrightarrow> bk_endHeights bk ! (i - 1) < blk_height b"
    using starts_nth(3) [OF g i] by linarith
  also have "\<dots> \<longleftrightarrow> endSec bk (int i - 1) < blk_time b"
    unfolding e using height_at_less [OF ok b, of "endSec bk (int i - 1)"] above by (simp split: option.splits)
  finally show ?thesis .
qed

lemma dated_agrees:
  assumes ok: "chain_ok chain" and g: "grid_ok bk" and dated: "dated_exactly chain bk"
    and floor: "\<And>d. d \<in> set chain \<Longrightarrow> blk_height d \<le> bk_floorHeight bk \<Longrightarrow> blk_time d \<le> endSec bk 0"
    and b: "b \<in> set chain" "FIRST_TIME \<le> blk_time b" "blk_time b \<le> bk_toSec bk"
  shows "bucketOfHeight bk (blk_height b) = ofTs bk (blk_time b)"
proof (cases "blk_height b \<le> bk_floorHeight bk")
  case True
  have "ofTs bk (blk_time b) = 0"
    using bucket_of_instant [OF g b(3), of 0] floor [OF b(1) True] g by (simp add: grid_ok_def)
  then show ?thesis using True starts_nth(2) [OF g] by (simp add: bucketOfHeight_def)
next
  case False
  let ?h = "blk_height b" and ?N = "nat (bk_N bk)"
  let ?ok = "\<lambda>i. bk_startHeights bk ! i \<le> ?h"
  have N: "0 \<le> bk_N bk" and s: "0 < bk_step bk" using g by (simp_all add: grid_ok_def)
  have above: "bk_floorHeight bk < ?h" using False by simp
  note reach = start_reached [OF ok g dated b(1,2) above]
  have inner: "endSec bk (int i - 1) = bk_t0 bk + int i * bk_step bk" if "0 < i" "i \<le> ?N" for i
    using endSec_inner(1) [OF g, of "int i - 1"] that by simp
  let ?L = "last_index ?ok 0 ?N"
  have L: "?ok ?L \<and> 0 \<le> ?L \<and> ?L \<le> ?N \<and> (\<forall>j. ?L < j \<and> j \<le> ?N \<longrightarrow> \<not> ?ok j)"
  proof (rule last_index_correct)
    show "?ok 0" using above starts_nth(2) [OF g] by simp
    show "?ok i" if q: "i \<le> j" "j \<le> ?N" "?ok j" for i j
    proof (cases "i = 0")
      case True
      then show ?thesis using above starts_nth(2) [OF g] by simp
    next
      case False
      have "int i * bk_step bk \<le> int j * bk_step bk" using q(1) s by (intro mult_right_mono) auto
      then show ?thesis using False q reach [of i] reach [of j] inner [of i] inner [of j] by auto
    qed
  qed simp
  have lo: "int ?L = 0 \<or> bk_t0 bk + int ?L * bk_step bk < blk_time b"
    using L reach [of ?L] inner [of ?L] by auto
  have hi: "blk_time b \<le> endSec bk (int ?L)"
  proof (cases "?L = ?N")
    case True
    then show ?thesis using endSec_last [OF g] b(3) N by simp
  next
    case False
    then have "\<not> ?ok (?L + 1)" using L by auto
    then show ?thesis using reach [of "?L + 1"] False L by simp
  qed
  have "ofTs bk (blk_time b) = int ?L"
  proof -
    have "int ?L \<le> bk_N bk" using L N by linarith
    then show ?thesis using bucket_of_instant [OF g b(3), of "int ?L"] lo hi by auto
  qed
  then show ?thesis using False starts_nth(2) [OF g] by (simp add: bucketOfHeight_def)
qed

section \<open>The index in SQL\<close>

lemma foldl_max: "foldl max a xs = Max (insert (a :: int) (set xs))"
proof (induction xs arbitrary: a)
  case (Cons y ys)
  have "Max (insert (max a y) (set ys)) = Max (insert a (insert y (set ys)))"
    by (cases "ys = []") (simp_all add: max.assoc)
  then show ?case using Cons [of "max a y"] by simp
qed simp

lemma round_down_strict:
  assumes srt: "sorted_wrt (<) xs" and l: "l < length xs" "xs ! l \<le> x" "\<And>j. l < j \<Longrightarrow> j < length xs \<Longrightarrow> x < xs ! j"
  shows "sql_index_of xs (round_down x xs) = int l + 1"
proof -
  have mem: "xs ! l \<in> set (filter (\<lambda>e. e \<le> x) xs)" using l by simp
  then obtain e es where es: "filter (\<lambda>e. e \<le> x) xs = e # es" by (cases "filter (\<lambda>e. e \<le> x) xs") auto
  have ord: "i < j \<Longrightarrow> j < length xs \<Longrightarrow> xs ! i < xs ! j" for i j
    using srt by (simp add: sorted_wrt_iff_nth_less)
  have "Max (set (filter (\<lambda>e. e \<le> x) xs)) = xs ! l"
  proof (rule Max_eqI)
    fix y assume "y \<in> set (filter (\<lambda>e. e \<le> x) xs)"
    then obtain j where j: "j < length xs" "y = xs ! j" "y \<le> x" by (auto simp: in_set_conv_nth)
    then show "y \<le> xs ! l" using l(3) [of j] ord [of j l] l(1) by (cases j l rule: linorder_cases) auto
  qed (use mem in auto)
  then have r: "round_down x xs = xs ! l" by (simp add: round_down_def es foldl_max)
  have "takeWhile (\<lambda>y. y \<noteq> xs ! l) xs = take l xs"
  proof (rule takeWhile_eq_take_P_nth)
    show "xs ! i \<noteq> xs ! l" if "i < l" "i < length xs" for i using ord [of i l] that l(1) by simp
  qed simp
  then show ?thesis using l(1) by (simp add: r sql_index_of_def)
qed

lemma sql_height:
  assumes g: "grid_ok bk" and srt: "sorted_wrt (<) (bk_startHeights bk)"
  shows "ofHeight bk h = bucketOfHeight bk h"
    "ofHeightCarry bk h = (if h < bk_floorHeight bk then - 1 else bucketOfHeight bk h)"
proof -
  let ?S = "bk_startHeights bk" and ?N = "nat (bk_N bk)"
  have len: "length ?S = ?N + 1" and first: "?S ! 0 = bk_floorHeight bk" by (rule starts_nth [OF g])+
  have ord: "i < j \<Longrightarrow> j < length ?S \<Longrightarrow> ?S ! i < ?S ! j" for i j
    using srt by (simp add: sorted_wrt_iff_nth_less)
  have at: "sql_index_of ?S (round_down x ?S) - 1 = bucketOfHeight bk x" if x: "bk_floorHeight bk \<le> x" for x
  proof (cases "x \<le> ?S ! 0")
    case True
    then have "sql_index_of ?S (round_down x ?S) = int 0 + 1"
      using x first len ord [of 0] by (intro round_down_strict [OF srt]) auto
    then show ?thesis using True by (simp add: bucketOfHeight_def)
  next
    case False
    let ?L = "last_index (\<lambda>i. ?S ! i \<le> x) 0 ?N"
    have L: "?S ! ?L \<le> x \<and> 0 \<le> ?L \<and> ?L \<le> ?N \<and> (\<forall>j. ?L < j \<and> j \<le> ?N \<longrightarrow> \<not> ?S ! j \<le> x)"
    proof (rule last_index_correct)
      show "?S ! i \<le> x" if "i \<le> j" "j \<le> ?N" "?S ! j \<le> x" for i j
        using ord [of i j] that len by (cases "i = j") auto
    qed (use False in auto)
    then have "sql_index_of ?S (round_down x ?S) = int ?L + 1"
      using len by (intro round_down_strict [OF srt]) auto
    then show ?thesis using False by (simp add: bucketOfHeight_def)
  qed
  show "ofHeight bk h = bucketOfHeight bk h"
  proof (cases "h \<le> bk_floorHeight bk")
    case True
    then show ?thesis using at [of "bk_floorHeight bk"] first by (simp add: ofHeight_def bucketOfHeight_def)
  next
    case False
    then show ?thesis using at [of h] by (simp add: ofHeight_def max_def)
  qed
  show "ofHeightCarry bk h = (if h < bk_floorHeight bk then - 1 else bucketOfHeight bk h)"
    using at [of h] by (simp add: ofHeightCarry_def)
qed

section \<open>Reading a canonical grid\<close>

lemma ceil_div_mult: "0 < s \<Longrightarrow> ceil_div (k * s) s = k"
  by (simp add: ceil_div_def flip: mult_minus_left)

lemma canonical_fields:
  assumes g: "grid_ok bk" and grid: "canonicalGrid bk steps = Some grid"
  obtains dating newest where
    "bk_dating bk = Some dating" "1 \<le> steps"
    "newest = bk_t0 bk + (bk_toSec bk - bk_t0 bk) div bk_step bk * bk_step bk"
    "bk_t0 (cg_bk grid) = newest - steps * bk_step bk" "bk_step (cg_bk grid) = bk_step bk"
    "bk_N (cg_bk grid) = steps - 1" "bk_toSec (cg_bk grid) = newest" "grid_ok (cg_bk grid)"
    "makeBucketing STUB_CLOCK (newest - steps * bk_step bk) newest
       ((case bd_heightAt dating (newest - steps * bk_step bk) of Some h \<Rightarrow> h | None \<Rightarrow> 0) + 1) 180 FINEST_STEP_SEC
       \<lparr>bo_stepSec = Some (bk_step bk), bo_anchorSec = Some ((bk_t0 bk mod bk_step bk + bk_step bk) mod bk_step bk),
        bo_heightAt = Some (bd_heightAt dating), bo_dating = Some dating\<rparr> = Some (cg_bk grid)"
    "cg_map grid = map (\<lambda>b. grid_index bk (cg_bk grid) (newest - steps * bk_step bk) newest (int b)) [0..<nat (bk_N bk + 1)]"
proof -
  let ?s = "bk_step bk"
  have s: "0 < ?s" using g by (simp add: grid_ok_def)
  let ?phase = "(bk_t0 bk mod ?s + ?s) mod ?s"
  define newest where "newest = bk_t0 bk + (bk_toSec bk - bk_t0 bk) div ?s * ?s"
  let ?from = "newest - steps * ?s"
  obtain dating where dating: "bk_dating bk = Some dating" using grid by (auto simp: canonicalGrid_def split: option.splits)
  note d = grid [unfolded canonicalGrid_def dating Let_def, simplified endSec_last [OF g], folded newest_def, simplified]
  have steps: "1 \<le> steps" using d by (auto split: if_splits)
  have made: "makeBucketing STUB_CLOCK ?from newest
       ((case bd_heightAt dating ?from of Some h \<Rightarrow> h | None \<Rightarrow> 0) + 1) 180 FINEST_STEP_SEC
       \<lparr>bo_stepSec = Some ?s, bo_anchorSec = Some ?phase, bo_heightAt = Some (bd_heightAt dating),
        bo_dating = Some dating\<rparr> = Some (cg_bk grid)"
    and gm: "cg_map grid = map (\<lambda>b. grid_index bk (cg_bk grid) ?from newest (int b)) [0..<nat (bk_N bk + 1)]"
    using d by (auto split: if_splits)
  have step: "bk_step (cg_bk grid) = ?s" using made_grid(6) [OF made] by simp
  have phase: "?phase = bk_t0 bk mod ?s" using s by simp
  have "?from - ?phase = (bk_t0 bk div ?s + (bk_toSec bk - bk_t0 bk) div ?s - steps) * ?s"
    using div_mult_mod_eq [of "bk_t0 bk" ?s] unfolding phase newest_def by (simp add: algebra_simps)
  then have "(?from - ?phase) div ?s * ?s = ?from - ?phase" using s by simp
  then have t0: "bk_t0 (cg_bk grid) = ?from" using made_grid(7) [OF made] step by simp
  have "ceil_div (newest - ?from) ?s = steps" using ceil_div_mult [OF s, of steps] by simp
  then have N: "bk_N (cg_bk grid) = steps - 1" using made_grid(8) [OF made] step t0 steps by simp
  show thesis
    by (rule that [OF dating steps newest_def t0 step N made_grid(2) [OF made] made_grid(1) [OF made] made gm])
qed

lemma canonical_endSec:
  assumes "grid_ok bk" "canonicalGrid bk steps = Some grid" "0 \<le> i" "i < steps"
  shows "endSec (cg_bk grid) i = bk_t0 (cg_bk grid) + (i + 1) * bk_step bk"
  using assms(1,2)
proof (rule canonical_fields)
  fix newest
  assume f: "bk_t0 (cg_bk grid) = newest - steps * bk_step bk" "bk_step (cg_bk grid) = bk_step bk"
    "bk_toSec (cg_bk grid) = newest"
  have "(i + 1) * bk_step bk \<le> steps * bk_step bk" using assms by (intro mult_right_mono) (auto simp: grid_ok_def)
  then show ?thesis using f by (simp add: endSec_def end_sec_def)
qed

lemma grid_index_sound:
  assumes g: "grid_ok bk" and grid: "canonicalGrid bk steps = Some grid"
    and b: "b \<le> nat (bk_N bk)" and i: "cg_map grid ! b = Some i"
  shows "0 \<le> i" "i \<le> bk_N (cg_bk grid)" "endSec (cg_bk grid) i = endSec bk (int b)"
    "endHeight (cg_bk grid) i = endHeight bk (int b)"
proof -
  obtain newest where f: "bk_t0 (cg_bk grid) = newest - steps * bk_step bk" "bk_N (cg_bk grid) = steps - 1"
    "cg_map grid = map (\<lambda>b. grid_index bk (cg_bk grid) (newest - steps * bk_step bk) newest (int b)) [0..<nat (bk_N bk + 1)]"
    by (rule canonical_fields [OF g grid])
  let ?from = "newest - steps * bk_step bk" and ?t = "endSec bk (int b)"
  have s: "0 < bk_step bk" using g by (simp add: grid_ok_def)
  have "b < nat (bk_N bk + 1)" using b g by (simp add: grid_ok_def nat_add_distrib)
  then have "grid_index bk (cg_bk grid) ?from newest (int b) = Some i" using i f(3) by simp
  then have t: "?from < ?t" "?t \<le> newest" "(?t - ?from) mod bk_step bk = 0" "i = (?t - ?from) div bk_step bk - 1"
    and h: "endHeight (cg_bk grid) i = endHeight bk (int b)"
    by (auto simp: grid_index_def Let_def split: if_splits)
  have e: "(i + 1) * bk_step bk = ?t - ?from" using t(3,4) div_mult_mod_eq [of "?t - ?from" "bk_step bk"] by simp
  then have "0 < (i + 1) * bk_step bk" using t(1) by simp
  then show i0: "0 \<le> i" using s by (simp add: zero_less_mult_iff)
  have "(i + 1) * bk_step bk \<le> steps * bk_step bk" using e t(2) by simp
  then have "i < steps" using s by (simp add: mult_le_cancel_right)
  then show "i \<le> bk_N (cg_bk grid)" using f(2) by simp
  show "endSec (cg_bk grid) i = ?t" using canonical_endSec [OF g grid i0 \<open>i < steps\<close>] e f(1) by simp
  show "endHeight (cg_bk grid) i = endHeight bk (int b)" by (rule h)
qed

text \<open>
  A global fold over height-keyed rows, and how a bucketing reads it off the canonical grid: the state at the
  mapped bucket's end, and for the tail the state at the boundary below plus the rows in between.
\<close>

type_synonym 'a height_rows = "(int \<times> 'a) list"

definition state_at :: "('s \<Rightarrow> 'a \<Rightarrow> 's) \<Rightarrow> 's \<Rightarrow> 'a height_rows \<Rightarrow> int \<Rightarrow> 's" where
  "state_at f s0 rows h = foldl f s0 (map snd (filter (\<lambda>r. fst r \<le> h) rows))"

definition read_plan :: "('s \<Rightarrow> 'a \<Rightarrow> 's) \<Rightarrow> 's \<Rightarrow> 'a height_rows \<Rightarrow> canonical_plan \<Rightarrow> nat \<Rightarrow> 's option" where
  "read_plan f s0 rows plan b =
     (case cg_map (cp_grid plan) ! b of
        Some i \<Rightarrow> Some (state_at f s0 rows (endHeight (cg_bk (cp_grid plan)) i))
      | None \<Rightarrow>
          (case cp_tail plan of
             None \<Rightarrow> None
           | Some t \<Rightarrow>
               if int b = pt_b t
               then Some (foldl f (state_at f s0 rows (endHeight (cg_bk (cp_grid plan)) (pt_prev t)))
                           (map snd (filter (\<lambda>r. pt_fromHeight t \<le> fst r \<and> fst r \<le> pt_toHeight t) rows)))
               else None))"

lemma state_at_extend:
  assumes "sorted (map fst rows)" "h \<le> h'"
  shows "foldl f (state_at f s0 rows h) (map snd (filter (\<lambda>r. h + 1 \<le> fst r \<and> fst r \<le> h') rows)) = state_at f s0 rows h'"
proof -
  have "filter (\<lambda>r. fst r \<le> h') rows = filter (\<lambda>r. fst r \<le> h) rows @ filter (\<lambda>r. h + 1 \<le> fst r \<and> fst r \<le> h') rows"
    using assms
  proof (induction rows)
    case (Cons r rows)
    show ?case
    proof (cases "fst r \<le> h")
      case True
      then show ?thesis using Cons by auto
    next
      case False
      then have "filter (\<lambda>r. fst r \<le> h) rows = []" using Cons.prems(1) by (auto simp: filter_empty_conv)
      then show ?thesis using False Cons by auto
    qed
  qed simp
  then show ?thesis by (simp add: state_at_def)
qed

lemma plan_cases:
  assumes plan: "canonicalPlan bk steps = Some plan"
  shows "canonicalGrid bk steps = Some (cp_grid plan)"
    "list_all (\<lambda>m. m \<noteq> None) (take (nat (bk_N bk)) (cg_map (cp_grid plan)))"
    "cg_map (cp_grid plan) ! nat (bk_N bk) \<noteq> None \<or>
       (\<exists>t. cp_tail plan = Some t \<and> pt_b t = bk_N bk
          \<and> pt_fromHeight t = endHeight (cg_bk (cp_grid plan)) (pt_prev t) + 1
          \<and> pt_toHeight t = endHeight bk (bk_N bk) \<and> pt_fromHeight t - 1 \<le> pt_toHeight t
          \<and> 0 \<le> pt_prev t \<and> pt_prev t \<le> bk_N (cg_bk (cp_grid plan))
          \<and> (0 < nat (bk_N bk) \<longrightarrow> cg_map (cp_grid plan) ! (nat (bk_N bk) - 1) = Some (pt_prev t)))"
  using plan by (auto simp: canonicalPlan_def Let_def split: option.splits if_splits)

section \<open>Every ladder grid fits\<close>

lemma made_total:
  assumes "bo_stepSec opts = Some s" "0 < s" "s mod 3600 = 0"
  shows "makeBucketing clock fromSec toSec floorHeight budget minStep opts \<noteq> None"
proof -
  have "\<not> (s \<le> 0 \<or> s mod 3600 \<noteq> 0)" using assms(2,3) by simp
  then show ?thesis unfolding makeBucketing_def Let_def assms(1) by (simp only: option.case if_False) blast
qed

lemma canonical_made:
  assumes g: "grid_ok bk" and to: "bk_t0 bk \<le> bk_toSec bk" and d: "bk_dating bk = Some d" and steps: "1 \<le> steps"
  shows "canonicalGrid bk steps \<noteq> None"
proof -
  have s: "0 < bk_step bk" "bk_step bk mod 3600 = 0" using g by (simp_all add: grid_ok_def)
  have "0 \<le> (bk_toSec bk - bk_t0 bk) div bk_step bk * bk_step bk"
    using s to by (simp add: pos_imp_zdiv_nonneg_iff)
  moreover have "0 < bk_step bk * steps" using s steps by simp
  ultimately have far: "\<not> bk_t0 bk + (bk_toSec bk - bk_t0 bk) div bk_step bk * bk_step bk \<le> bk_t0 bk - bk_step bk * steps"
    by linarith
  show ?thesis unfolding canonicalGrid_def d Let_def endSec_last [OF g]
    using far steps made_total [of _ "bk_step bk"] s by simp
qed

lemma endHeight_nth: "0 \<le> b \<Longrightarrow> b \<le> bk_N bk \<Longrightarrow> endHeight bk b = bk_endHeights bk ! nat b"
  by (simp add: endHeight_def)

lemma div_step_bounds:
  fixes x s :: int
  assumes "0 < s"
  shows "x div s * s \<le> x" "x < (x div s + 1) * s"
proof -
  have "0 \<le> x mod s" "x mod s < s" "x div s * s + x mod s = x" using assms by simp_all
  moreover have "(x div s + 1) * s = x div s * s + s" by (simp add: distrib_right)
  ultimately show "x div s * s \<le> x" "x < (x div s + 1) * s" by linarith+
qed

lemma ladder_grid_fits:
  assumes g: "grid_ok bk" and d: "bk_dating bk = Some dating" and to: "bk_t0 bk < bk_toSec bk"
    and N: "bk_N bk \<le> 180"
    and at: "\<And>b. 0 \<le> b \<Longrightarrow> b \<le> bk_N bk \<Longrightarrow> endHeight bk b =
      (case bd_heightAt dating (endSec bk b) of Some h \<Rightarrow> h | None \<Rightarrow> bk_floorHeight bk)"
    and opened: "bd_heightAt dating (bk_t0 bk) \<noteq> None"
    and mono: "\<And>s t h. s \<le> t \<Longrightarrow> bd_heightAt dating s = Some h \<Longrightarrow> \<exists>h'\<ge>h. bd_heightAt dating t = Some h'"
  shows "canonicalPlan bk 200 \<noteq> None"
proof -
  let ?s = "bk_step bk"
  define q where "q = (bk_toSec bk - bk_t0 bk) div ?s"
  have s: "0 < ?s" using g by (simp add: grid_ok_def)
  have qs: "q * ?s \<le> bk_toSec bk - bk_t0 bk" "bk_toSec bk - bk_t0 bk < (q + 1) * ?s"
    using div_step_bounds [OF s, of "bk_toSec bk - bk_t0 bk"] by (simp_all add: q_def)
  have q0: "0 \<le> q" using to s by (simp add: q_def pos_imp_zdiv_nonneg_iff)
  have ub: "bk_toSec bk \<le> bk_t0 bk + (bk_N bk + 1) * ?s" using g by (simp add: grid_ok_def)
  have lb: "bk_t0 bk + bk_N bk * ?s < bk_toSec bk" using g to by (auto simp: grid_ok_def)
  have "q * ?s \<le> (bk_N bk + 1) * ?s" using qs(1) ub by linarith
  then have q181: "q \<le> 181" using s N by (simp add: mult_le_cancel_right)
  obtain grid where grid: "canonicalGrid bk 200 = Some grid"
    using canonical_made [OF g _ d, of 200] to by auto
  obtain dt newest where f: "bk_dating bk = Some dt"
    "newest = bk_t0 bk + (bk_toSec bk - bk_t0 bk) div ?s * ?s"
    "bk_t0 (cg_bk grid) = newest - 200 * ?s" "bk_step (cg_bk grid) = ?s"
    "bk_N (cg_bk grid) = 200 - 1" "grid_ok (cg_bk grid)"
    "makeBucketing STUB_CLOCK (newest - 200 * ?s) newest
       ((case bd_heightAt dt (newest - 200 * ?s) of Some h \<Rightarrow> h | None \<Rightarrow> 0) + 1) 180 FINEST_STEP_SEC
       \<lparr>bo_stepSec = Some ?s, bo_anchorSec = Some ((bk_t0 bk mod ?s + ?s) mod ?s),
        bo_heightAt = Some (bd_heightAt dt), bo_dating = Some dt\<rparr> = Some (cg_bk grid)"
    "cg_map grid = map (\<lambda>b. grid_index bk (cg_bk grid) (newest - 200 * ?s) newest (int b)) [0..<nat (bk_N bk + 1)]"
    by (rule canonical_fields [OF g grid])
  let ?cb = "cg_bk grid" and ?from = "newest - 200 * ?s"
  have dt: "dt = dating" using f(1) d by simp
  have newest: "newest = bk_t0 bk + q * ?s" using f(2) by (simp add: q_def)
  have from_le: "?from \<le> bk_t0 bk - 19 * ?s"
    using mult_right_mono [of q 181 ?s] q181 s by (simp add: newest)
  text \<open>The canonical height of a lattice point at or after the start.\<close>
  have cb: "bd_heightAt dating (bk_t0 bk + k * ?s) = Some (endHeight ?cb (k - q + 199))"
    if k: "0 \<le> k" "k \<le> q" for k
  proof -
    let ?i = "k - q + 199"
    have i: "0 \<le> ?i" "?i < 200" using k q181 by linarith+
    have e: "endSec ?cb ?i = bk_t0 bk + k * ?s"
      using canonical_endSec [OF g grid i] by (simp add: f(3) newest algebra_simps)
    have "endHeight ?cb ?i = bk_endHeights ?cb ! nat ?i" using i f(5) by (intro endHeight_nth) auto
    also have "\<dots> = (case bd_heightAt dating (endSec ?cb ?i) of Some h \<Rightarrow> h
        | None \<Rightarrow> (case bd_heightAt dt ?from of Some h \<Rightarrow> h | None \<Rightarrow> 0) + 1)"
      using made_endHeights [OF f(7)] i f(5) by (simp add: dt)
    finally have h: "endHeight ?cb ?i = (case bd_heightAt dating (bk_t0 bk + k * ?s) of Some h \<Rightarrow> h
        | None \<Rightarrow> (case bd_heightAt dt ?from of Some h \<Rightarrow> h | None \<Rightarrow> 0) + 1)" by (simp only: e)
    obtain h0 where "bd_heightAt dating (bk_t0 bk) = Some h0" using opened by blast
    then obtain h' where "bd_heightAt dating (bk_t0 bk + k * ?s) = Some h'"
      using mono [of "bk_t0 bk" "bk_t0 bk + k * ?s"] k s by auto
    then show ?thesis using h by simp
  qed
  have index: "cg_map grid ! nat b = Some (k - q + 199)"
    if b: "0 \<le> b" "b \<le> bk_N bk" and e: "endSec bk b = bk_t0 bk + k * ?s" and k: "1 \<le> k" "k \<le> q" for b k
  proof -
    define i where "i = k - q + 199"
    have diff: "bk_t0 bk + k * ?s - ?from = (i + 1) * ?s" by (simp add: newest i_def algebra_simps)
    have "bk_t0 bk + k * ?s \<le> newest" using mult_right_mono [of k q ?s] k s by (simp add: newest)
    moreover have "0 < (i + 1) * ?s" using s k q181 by (simp add: i_def)
    then have "\<not> bk_t0 bk + k * ?s \<le> ?from" using diff by linarith
    moreover have "endHeight ?cb i = endHeight bk b" using at [OF b] e cb [of k] k by (simp add: i_def)
    ultimately have "grid_index bk ?cb ?from newest b = Some i"
      using s by (simp add: grid_index_def Let_def e diff)
    moreover have "nat b < nat (bk_N bk + 1)" using b by simp
    ultimately show ?thesis using b(1) by (simp add: f(8) i_def)
  qed
  have inner: "cg_map grid ! b = Some (int b + 1 - q + 199)" if b: "b < nat (bk_N bk)" for b
  proof -
    have e: "endSec bk (int b) = bk_t0 bk + (int b + 1) * ?s" "endSec bk (int b) < bk_toSec bk"
      using endSec_inner [OF g, of "int b"] b by auto
    then have "(int b + 1) * ?s < (q + 1) * ?s" using qs(2) by linarith
    then have "int b + 1 \<le> q" using s by (simp add: mult_less_cancel_right)
    then show ?thesis using index [of "int b" "int b + 1"] e(1) b by simp
  qed
  have all: "list_all (\<lambda>m. m \<noteq> None) (take (nat (bk_N bk)) (cg_map grid))"
    using inner by (auto simp: list_all_length)
  show ?thesis
  proof (cases "cg_map grid ! nat (bk_N bk)")
    case (Some i)
    then show ?thesis using all by (simp add: canonicalPlan_def grid Let_def)
  next
    case None
    have N0: "0 \<le> bk_N bk" using g by (simp add: grid_ok_def)
    have "bk_toSec bk \<noteq> bk_t0 bk + q * ?s"
    proof
      assume eq: "bk_toSec bk = bk_t0 bk + q * ?s"
      then have "1 \<le> q" using to s by (simp add: zero_less_mult_iff)
      then show False using index [of "bk_N bk" q] N0 endSec_last [OF g] eq None by simp
    qed
    then have "q * ?s < bk_toSec bk - bk_t0 bk" using qs(1) by linarith
    then have "q * ?s < (bk_N bk + 1) * ?s" using ub by linarith
    then have "q \<le> bk_N bk" using s by (simp add: mult_less_cancel_right)
    moreover have "bk_N bk * ?s < (q + 1) * ?s" using lb qs(2) by linarith
    then have "bk_N bk \<le> q" using s by (simp add: mult_less_cancel_right)
    ultimately have Nq: "bk_N bk = q" by simp
    have "(bk_toSec bk - ?from) div ?s = 200"
    proof -
      have eq: "bk_toSec bk - ?from = (bk_toSec bk - bk_t0 bk) + (200 - q) * ?s" by (simp add: newest algebra_simps)
      have "(bk_toSec bk - ?from) div ?s = (bk_toSec bk - bk_t0 bk) div ?s + (200 - q)"
        unfolding eq using s by simp
      then show ?thesis by (simp flip: q_def)
    qed
    then have prev: "(bk_t0 ?cb + (endSec bk (bk_N bk) - bk_t0 ?cb) div ?s * ?s - bk_t0 ?cb) div ?s - 1 = 199"
      using s by (simp add: endSec_last [OF g] f(3))
    have before: "\<not> (0 < nat (bk_N bk) \<and> cg_map grid ! (nat (bk_N bk) - 1) \<noteq> Some 199)"
      using inner [of "nat (bk_N bk) - 1"] Nq by (auto simp: of_nat_diff)
    have here: "bd_heightAt dating newest = Some (endHeight ?cb 199)" using cb [of q] q0 by (simp add: newest)
    obtain h' where "endHeight ?cb 199 \<le> h'" "bd_heightAt dating (bk_toSec bk) = Some h'"
      using mono [OF _ here, of "bk_toSec bk"] qs(1) by (auto simp: newest)
    then have "endHeight ?cb 199 \<le> endHeight bk (bk_N bk)" using at [of "bk_N bk"] N0 endSec_last [OF g] by simp
    then show ?thesis using all None prev before by (simp add: canonicalPlan_def grid Let_def f(5))
  qed
qed

lemma find_sorted_least:
  "sorted xs \<Longrightarrow> find P xs = Some x \<Longrightarrow> P x \<and> x \<in> set xs \<and> (\<forall>y\<in>set xs. P y \<longrightarrow> x \<le> y)"
  by (induction xs) (auto split: if_splits)

lemma find_some_ex: "y \<in> set xs \<Longrightarrow> P y \<Longrightarrow> \<exists>x. find P xs = Some x"
  by (induction xs) auto

lemma ladder_sorted: "sorted BUCKET_STEPS_SEC"
  by (simp add: BUCKET_STEPS_SEC_def)

lemma choose_step_least:
  fixes fromSec toSec budget minStepSec
  defines "fits \<equiv> \<lambda>s. minStepSec \<le> s \<and> max 0 (toSec - fromSec) \<le> max 1 budget * s"
  assumes "y \<in> set BUCKET_STEPS_SEC" "fits y"
  shows "fits (chooseBucketStep fromSec toSec budget minStepSec)"
    "\<forall>s\<in>set BUCKET_STEPS_SEC. fits s \<longrightarrow> chooseBucketStep fromSec toSec budget minStepSec \<le> s"
proof -
  have P: "(\<lambda>step. \<not> step < minStepSec \<and> max 0 (toSec - fromSec) \<le> max 1 budget * step) = fits"
    by (auto simp: fits_def not_less)
  obtain x where x: "find fits BUCKET_STEPS_SEC = Some x" using find_some_ex [OF assms(2), of fits] assms(3) by blast
  then have "chooseBucketStep fromSec toSec budget minStepSec = x" unfolding chooseBucketStep_def Let_def P by simp
  then show "fits (chooseBucketStep fromSec toSec budget minStepSec)"
    "\<forall>s\<in>set BUCKET_STEPS_SEC. fits s \<longrightarrow> chooseBucketStep fromSec toSec budget minStepSec \<le> s"
    using find_sorted_least [OF ladder_sorted x] by auto
qed

lemma choose_step_coarsest:
  assumes "\<And>s. s \<in> set BUCKET_STEPS_SEC \<Longrightarrow> minStepSec \<le> s \<Longrightarrow> max 1 budget * s < max 0 (toSec - fromSec)"
  shows "chooseBucketStep fromSec toSec budget minStepSec = 180 * 86400"
proof -
  have "find (\<lambda>step. \<not> step < minStepSec \<and> max 0 (toSec - fromSec) \<le> max 1 budget * step) BUCKET_STEPS_SEC = None"
    using assms by (fastforce simp: find_None_iff not_less)
  then show ?thesis unfolding chooseBucketStep_def Let_def by (simp add: BUCKET_STEPS_SEC_def)
qed

lemma column_max_mono: "set xs \<subseteq> set ys \<Longrightarrow> column_max xs \<le> column_max ys"
proof (induction xs)
  case Nil
  then show ?case using column_max_nonneg [of ys] by (simp add: column_max_def)
next
  case (Cons x xs)
  then show ?case using column_max_ge [of x ys] by (simp add: column_max_def)
qed

lemma height_at_mono:
  assumes "height_at bs s = Some h" "s \<le> t"
  shows "\<exists>h'\<ge>h. height_at bs t = Some h'"
proof -
  let ?f = "\<lambda>t. filter (\<lambda>b. FIRST_TIME \<le> blk_time b \<and> blk_time b \<le> t) bs"
  have h: "?f s \<noteq> []" "h = column_max (map blk_height (?f s))"
    using assms(1) by (auto simp: height_at_def Let_def split: if_splits)
  have sub: "set (?f s) \<subseteq> set (?f t)" using assms(2) by auto
  have "h \<le> column_max (map blk_height (?f t))" unfolding h(2) by (rule column_max_mono) (use sub in auto)
  moreover have "last (?f s) \<in> set (?f t)" using sub last_in_set [OF h(1)] by blast
  then have "?f t \<noteq> []" by (metis empty_iff list.set(1))
  ultimately show ?thesis by (simp add: height_at_def Let_def)
qed

section \<open>Properties\<close>

text \<open>
  The step chosen for a span is the finest of the ladder, not below the caller's floor, whose bucket count fits the
  budget, and the coarsest of the ladder when none fits.
\<close>

lemma ladder_step_finest:
  "let step = chooseBucketStep fromSec toSec budget minStepSec;
       fits = (\<lambda>s. minStepSec \<le> s \<and> max 0 (toSec - fromSec) \<le> max 1 budget * s)
   in step \<in> set BUCKET_STEPS_SEC
      \<and> (if \<exists>s\<in>set BUCKET_STEPS_SEC. fits s
         then fits step \<and> step = Min {s \<in> set BUCKET_STEPS_SEC. fits s}
         else step = 180 * 86400)"
proof -
  let ?step = "chooseBucketStep fromSec toSec budget minStepSec"
  let ?fits = "\<lambda>s. minStepSec \<le> s \<and> max 0 (toSec - fromSec) \<le> max 1 budget * s"
  have ladder: "?step \<in> set BUCKET_STEPS_SEC" by (rule chooseBucketStep_ladder)
  have "if \<exists>s\<in>set BUCKET_STEPS_SEC. ?fits s
        then ?fits ?step \<and> ?step = Min {s \<in> set BUCKET_STEPS_SEC. ?fits s} else ?step = 180 * 86400"
  proof (cases "\<exists>s\<in>set BUCKET_STEPS_SEC. ?fits s")
    case True
    then obtain y where y: "y \<in> set BUCKET_STEPS_SEC" "?fits y" by blast
    note least = choose_step_least [OF y]
    have "Min {s \<in> set BUCKET_STEPS_SEC. ?fits s} = ?step"
      by (rule Min_eqI) (use least ladder in auto)
    then show ?thesis using True least(1) by simp
  next
    case False
    then have "?step = 180 * 86400" by (intro choose_step_coarsest) (auto simp: not_le)
    then show ?thesis using False by (simp only: if_False)
  qed
  then show ?thesis using ladder by (simp only: Let_def)
qed

text \<open>
  The buckets partition the range: an instant is in bucket \<open>b\<close> exactly when it lies after the previous bucket's end
  and no later than its own, the last bucket ends with the range, and what lies at or before the start is the carry.
\<close>

lemma buckets_partition:
  assumes made: "makeBucketing clock fromSec toSec floorHeight budget minStep opts = Some bk"
    and ts: "ts \<le> toSec" and b: "0 \<le> b" "b \<le> bk_N bk"
  shows "(ofTs bk ts = b \<longleftrightarrow> (b = 0 \<or> endSec bk (b - 1) < ts) \<and> ts \<le> endSec bk b)
    \<and> endSec bk (bk_N bk) = toSec
    \<and> ofTsCarry bk ts = (if ts \<le> bk_t0 bk then - 1 else ofTs bk ts)"
proof -
  note g = made_grid(1) [OF made] and to = made_grid(2) [OF made]
  have s: "0 < bk_step bk" using g by (simp add: grid_ok_def)
  have prev: "endSec bk (b - 1) = bk_t0 bk + b * bk_step bk" if "b \<noteq> 0"
    using endSec_inner(1) [OF g, of "b - 1"] that b by simp
  have "ofTs bk ts = b \<longleftrightarrow> (b = 0 \<or> bk_t0 bk + b * bk_step bk < ts) \<and> ts \<le> endSec bk b"
    by (rule bucket_of_instant [OF g _ b]) (use ts to in simp)
  then have "ofTs bk ts = b \<longleftrightarrow> (b = 0 \<or> endSec bk (b - 1) < ts) \<and> ts \<le> endSec bk b"
    using prev by (cases "b = 0") simp_all
  moreover have "ofTsCarry bk ts = (if ts \<le> bk_t0 bk then - 1 else ofTs bk ts)"
  proof (cases "ts \<le> bk_t0 bk")
    case True
    then have "(ts - bk_t0 bk - 1) div bk_step bk < 0" using s by (subst pos_imp_zdiv_neg_iff) linarith+
    then show ?thesis using True g by (simp add: ofTsCarry_def grid_ok_def)
  next
    case False
    then show ?thesis using ofTs_inside [OF g, of ts] ts to by (simp add: ofTsCarry_def)
  qed
  ultimately show ?thesis using endSec_last [OF g] to by simp
qed

text \<open>
  C14: Where the boundaries are dated by the shared clock's exact heights, the bucket of a block by its height is the
  bucket of its time, so height-keyed and timestamped sources agree bucket for bucket.
\<close>

theorem height_keyed_agrees:
  assumes ok: "chain_ok chain" and c: "clock_reached chain n (Some c)" and s: "clockCoveredSec c = Some s"
    and made: "makeBucketing c fromSec toSec floorHeight budget minStep opts = Some bk"
    and exact: "bo_heightAt opts = Some (heightAtOrBeforeExact c)"
    and aligned: "hour_start (bk_t0 bk) = bk_t0 bk" and covered: "toSec \<le> s"
    and floor: "\<And>d. d \<in> set chain \<Longrightarrow> blk_height d \<le> floorHeight \<Longrightarrow> blk_time d \<le> endSec bk 0"
    and b: "b \<in> set chain" "FIRST_TIME \<le> blk_time b" "blk_time b \<le> toSec"
  shows "bucketOfHeight bk (blk_height b) = ofTs bk (blk_time b)"
proof -
  note g = made_grid(1) [OF made] and to = made_grid(2) [OF made] and fl = made_grid(3) [OF made]
  have "bk_endHeights bk ! i = (case height_at chain (endSec bk (int i)) of Some h \<Rightarrow> h | None \<Rightarrow> bk_floorHeight bk)"
    if i: "i < nat (bk_N bk)" for i
  proof -
    have e: "endSec bk (int i) = bk_t0 bk + (int i + 1) * bk_step bk" "endSec bk (int i) < toSec"
      using endSec_inner [OF g, of "int i"] i to by auto
    have "hour_start (endSec bk (int i)) = endSec bk (int i)"
    proof -
      have "bk_step bk mod 3600 = 0" using g by (simp add: grid_ok_def)
      then obtain k where k: "bk_step bk = 3600 * k" by auto
      obtain m where "bk_t0 bk = 3600 * m" using aligned by (metis HOUR_def hour_start_def mult.commute)
      then have "endSec bk (int i) = 3600 * (m + (int i + 1) * k)" unfolding e(1) k by (simp add: algebra_simps)
      then show ?thesis by (simp add: hour_start_def HOUR_def)
    qed
    then have "heightAtOrBeforeExact c (endSec bk (int i)) = height_at chain (endSec bk (int i))"
      using covered_mark [OF ok c s] e(2) covered by simp
    moreover have "i < nat (bk_N bk + 1)" using i by linarith
    ultimately show ?thesis unfolding made_endHeights [OF made] exact by (simp add: fl split: option.split)
  qed
  then have "dated_exactly chain bk" by (simp add: dated_exactly_def)
  moreover have "blk_time d \<le> endSec bk 0" if "d \<in> set chain" "blk_height d \<le> bk_floorHeight bk" for d
    using floor that fl by simp
  moreover have "blk_time b \<le> bk_toSec bk" using b(3) to by simp
  ultimately show ?thesis using dated_agrees [OF ok g] b(1,2) by blast
qed

text \<open>The sample clock, rebuilt over the whole sample chain.\<close>

definition sample_clock :: block_clock where
  "sample_clock = load 120000 sample_chain (Some (load 0 (take 3 sample_chain) None))"

lemma sample_clock_value:
  "sample_clock = \<lparr>hours = [1640991600, 1640995200, 1641006000], heights = [1, 3, 4], atMark = Some [0, 2, 4],
     lastTime = Some 1641006000, builtAt = 120000\<rparr>"
proof -
  have "chain_ok (take 3 sample_chain @ drop 3 sample_chain)" using sample_chain_ok by simp
  then have "sample_clock = load 120000 sample_chain None"
    using load_extends [of "take 3 sample_chain" "drop 3 sample_chain"] by (simp add: sample_clock_def)
  then show ?thesis
    by (simp add: load_def hour_rows_def sample_chain_def FIRST_TIME_def hour_start_def HOUR_def
        hour_row_of_def column_max_def later_time_def insort_key_def)
qed

theorem height_keyed_agrees_witness:
  "\<exists>bk. makeBucketing sample_clock 1640995194 1641006000 1 180 3600
       (no_options\<lparr>bo_heightAt := Some (heightAtOrBeforeExact sample_clock)\<rparr>) = Some bk \<and> bucketOfHeight bk 3 = 1"
proof -
  let ?b = "\<lparr>blk_height = 3, blk_time = 1640998794\<rparr>"
  let ?opts = "no_options\<lparr>bo_heightAt := Some (heightAtOrBeforeExact sample_clock)\<rparr>"
  have step: "chooseBucketStep 1640995194 1641006000 180 3600 = 3600"
    by (simp add: chooseBucketStep_def BUCKET_STEPS_SEC_def)
  have "makeBucketing sample_clock 1640995194 1641006000 1 180 3600 ?opts \<noteq> None"
    unfolding makeBucketing_def Let_def by (simp add: no_options_def step)
  then obtain bk where bk: "makeBucketing sample_clock 1640995194 1641006000 1 180 3600 ?opts = Some bk" by blast
  have s: "bk_step bk = 3600" using made_grid(6) [OF bk] by (simp add: no_options_def step)
  then have t0: "bk_t0 bk = 1640991600" using made_grid(7) [OF bk] by (simp add: no_options_def)
  have N: "bk_N bk = 3" using made_grid(8) [OF bk] s t0 by (simp add: ceil_div_def)
  have "bucketOfHeight bk (blk_height ?b) = ofTs bk (blk_time ?b)"
  proof (rule height_keyed_agrees [OF sample_chain_ok sample_reached [folded sample_clock_def] _ bk])
    show "clockCoveredSec sample_clock = Some 1641006000" by (simp add: sample_clock_value clockCoveredSec_def)
    show "bo_heightAt ?opts = Some (heightAtOrBeforeExact sample_clock)" by simp
    show "hour_start (bk_t0 bk) = bk_t0 bk" by (simp add: t0 hour_start_def HOUR_def)
    show "blk_time d \<le> endSec bk 0" if "d \<in> set sample_chain" "blk_height d \<le> 1" for d
      using that by (auto simp: sample_chain_def endSec_def end_sec_def t0 s made_grid(2) [OF bk])
  qed (simp_all add: sample_chain_def FIRST_TIME_def)
  also have "\<dots> = 1" by (simp add: ofTs_def t0 s N bdiv_def)
  finally show ?thesis using bk by simp
qed

text \<open>
  C16: A global fold read off the canonical grid gives every bucket the state its own heights would give: mapped buckets
  take the canonical state, the last one the state at the boundary below and the rows since.
\<close>

theorem canonical_reading_exact:
  assumes made: "makeBucketing clock fromSec toSec floorHeight budget minStep opts = Some bk"
    and plan: "canonicalPlan bk steps = Some plan" and rows: "sorted (map fst rows)" and b: "b \<le> nat (bk_N bk)"
  shows "read_plan f s0 rows plan b = Some (state_at f s0 rows (endHeight bk (int b)))"
proof -
  note g = made_grid(1) [OF made]
  note p = plan_cases [OF plan]
  have N0: "0 \<le> bk_N bk" using g by (simp add: grid_ok_def)
  show ?thesis
  proof (cases "cg_map (cp_grid plan) ! b")
    case (Some i)
    then show ?thesis using grid_index_sound(4) [OF g p(1) b Some] by (simp add: read_plan_def)
  next
    case None
    have "b = nat (bk_N bk)"
    proof (rule ccontr)
      assume "b \<noteq> nat (bk_N bk)"
      then have lt: "b < nat (bk_N bk)" using b by simp
      have "length (cg_map (cp_grid plan)) = nat (bk_N bk + 1)" by (rule canonical_fields [OF g p(1)]) simp
      then have "b < length (take (nat (bk_N bk)) (cg_map (cp_grid plan)))" using lt N0 by simp
      then show False using p(2) None lt by (auto simp: list_all_length)
    qed
    then obtain t where t: "cp_tail plan = Some t" "pt_b t = bk_N bk" "int b = bk_N bk"
      "pt_fromHeight t = endHeight (cg_bk (cp_grid plan)) (pt_prev t) + 1"
      "pt_toHeight t = endHeight bk (bk_N bk)" "pt_fromHeight t - 1 \<le> pt_toHeight t"
      using p(3) None N0 by auto
    have "foldl f (state_at f s0 rows (endHeight (cg_bk (cp_grid plan)) (pt_prev t)))
        (map snd (filter (\<lambda>r. pt_fromHeight t \<le> fst r \<and> fst r \<le> pt_toHeight t) rows))
      = state_at f s0 rows (pt_toHeight t)"
      unfolding t(4) by (rule state_at_extend [OF rows]) (use t(4,6) in simp)
    then show ?thesis using t None by (simp add: read_plan_def)
  qed
qed

text \<open>
  C17: A chart's ladder grid over the shared clock always has a canonical plan, once the chain has a block by the
  grid's start: the fallback to a fold of its own is never taken.
\<close>

theorem canonical_always_fits:
  assumes ok: "chain_ok chain" and c: "clock_reached chain n (Some c)"
    and made: "makeBucketing c fromSec toSec floorHeight 180 FINEST_STEP_SEC no_options = Some bk"
    and span: "fromSec < toSec" "toSec - fromSec \<le> 180 * (180 * 86400)"
    and opened: "heightAtOrBefore c (bk_t0 bk) \<noteq> None"
  shows "canonicalPlan bk CANONICAL_GRID_STEPS \<noteq> None"
proof -
  note g = made_grid(1) [OF made] and to = made_grid(2) [OF made]
  let ?d = "\<lparr>bd_key = ''chart'', bd_heightAt = heightAtOrBefore c\<rparr>"
  have d: "bk_dating bk = Some ?d"
    using made by (auto simp: makeBucketing_def Let_def no_options_def split: if_splits)
  have step: "bk_step bk = chooseBucketStep fromSec toSec 180 FINEST_STEP_SEC"
    using made_grid(6) [OF made] by (simp add: no_options_def)
  have "toSec - fromSec \<le> 180 * bk_step bk"
    using choose_step_least(1) [of "180 * 86400" FINEST_STEP_SEC toSec fromSec 180] span step
    by (simp add: BUCKET_STEPS_SEC_def FINEST_STEP_SEC_def)
  then have "toSec - bk_t0 bk < 181 * bk_step bk" using made_grid(5) [OF made] by linarith
  moreover have "bk_N bk = 0 \<or> bk_N bk * bk_step bk < toSec - bk_t0 bk" using g to by (auto simp: grid_ok_def)
  ultimately have "bk_N bk = 0 \<or> bk_N bk * bk_step bk < 181 * bk_step bk" by linarith
  then have N: "bk_N bk \<le> 180" using g by (auto simp: grid_ok_def mult_less_cancel_right)
  obtain m where m: "c = load (builtAt c) (take m chain) None" using reached_scratch [OF ok c] by blast
  have closing: "heightAtOrBefore c ts = height_at (take m chain) (hour_start ts + HOUR - 1)" for ts
    using closing_scratch [OF chain_ok_take [OF ok], of "builtAt c" m ts] by (simp flip: m)
  show ?thesis unfolding CANONICAL_GRID_STEPS_def
  proof (rule ladder_grid_fits [OF g d _ N])
    show "bk_t0 bk < bk_toSec bk" using made_grid(4) [OF made] span(1) to by simp
    show "endHeight bk b = (case bd_heightAt ?d (endSec bk b) of Some h \<Rightarrow> h | None \<Rightarrow> bk_floorHeight bk)"
      if b: "0 \<le> b" "b \<le> bk_N bk" for b
    proof -
      have "nat b < nat (bk_N bk + 1)" using b by linarith
      then show ?thesis using b made_endHeights [OF made] made_grid(3) [OF made]
        by (simp add: endHeight_nth no_options_def heightsForBoundaries_def split: option.split)
    qed
    show "bd_heightAt ?d (bk_t0 bk) \<noteq> None" using opened by simp
    show "\<exists>h'\<ge>h. bd_heightAt ?d t = Some h'" if "s \<le> t" "bd_heightAt ?d s = Some h" for s t h
      using that hour_start_mono [OF that(1)] height_at_mono [of "take m chain" _ h] by (simp add: closing)
  qed
qed


definition block_rate :: "int \<Rightarrow> int option" where
  "block_rate t = Some (t div 12)"

definition rate_dating :: bucket_dating where
  "rate_dating = \<lparr>bd_key = ''rate'', bd_heightAt = block_rate\<rparr>"

lemma rate_bucketing:
  obtains bk where
    "makeBucketing STUB_CLOCK 36000 43205 0 180 3600
       \<lparr>bo_stepSec = Some 3600, bo_anchorSec = None, bo_heightAt = Some block_rate, bo_dating = Some rate_dating\<rparr> = Some bk"
    "bk_N bk = 2" "endHeight bk 2 = 3600" "canonicalPlan bk 200 \<noteq> None"
proof -
  let ?opts = "\<lparr>bo_stepSec = Some 3600, bo_anchorSec = None, bo_heightAt = Some block_rate, bo_dating = Some rate_dating\<rparr>"
  have "makeBucketing STUB_CLOCK 36000 43205 0 180 3600 ?opts \<noteq> None"
    by (rule made_total [of _ 3600]) simp_all
  then obtain bk where made: "makeBucketing STUB_CLOCK 36000 43205 0 180 3600 ?opts = Some bk" by blast
  note g = made_grid(1) [OF made]
  have s: "bk_step bk = 3600" using made_grid(6) [OF made] by simp
  then have t0: "bk_t0 bk = 36000" using made_grid(7) [OF made] by simp
  have N: "bk_N bk = 2" using made_grid(8) [OF made] s t0 by (simp add: ceil_div_def)
  have at: "endHeight bk b = (case block_rate (endSec bk b) of Some h \<Rightarrow> h | None \<Rightarrow> bk_floorHeight bk)"
    if b: "0 \<le> b" "b \<le> bk_N bk" for b
  proof -
    have "nat b < nat (bk_N bk + 1)" using b by linarith
    then show ?thesis using b made_endHeights [OF made] by (simp add: endHeight_nth block_rate_def)
  qed
  have dating: "bk_dating bk = Some rate_dating"
    using made by (auto simp: makeBucketing_def Let_def)
  have "canonicalPlan bk 200 \<noteq> None"
  proof (rule ladder_grid_fits [OF g dating])
    show "bk_t0 bk < bk_toSec bk" "bk_N bk \<le> 180" using t0 N made_grid(2) [OF made] by simp_all
    show "endHeight bk b = (case bd_heightAt rate_dating (endSec bk b) of Some h \<Rightarrow> h | None \<Rightarrow> bk_floorHeight bk)"
      if "0 \<le> b" "b \<le> bk_N bk" for b using at [OF that] by (simp add: rate_dating_def)
    show "\<exists>h'\<ge>h. bd_heightAt rate_dating t = Some h'" if "s \<le> t" "bd_heightAt rate_dating s = Some h" for s t h
      using that by (auto simp: rate_dating_def block_rate_def zdiv_mono1)
  qed (simp add: rate_dating_def block_rate_def)
  moreover have "endHeight bk 2 = 3600"
    using at [of 2] N endSec_last [OF g] made_grid(2) [OF made] by (simp add: block_rate_def)
  ultimately show thesis using that made N by blast
qed

theorem canonical_reading_exact_witness:
  "\<exists>bk plan. canonicalPlan bk 200 = Some plan
     \<and> read_plan (+) 0 [(3000 :: int, 5 :: int), (3590, 7), (3700, 9)] plan 2 = Some 12"
proof -
  obtain bk where bk:
    "makeBucketing STUB_CLOCK 36000 43205 0 180 3600
       \<lparr>bo_stepSec = Some 3600, bo_anchorSec = None, bo_heightAt = Some block_rate, bo_dating = Some rate_dating\<rparr> = Some bk"
    "bk_N bk = 2" "endHeight bk 2 = 3600" "canonicalPlan bk 200 \<noteq> None"
    by (rule rate_bucketing)
  obtain plan where plan: "canonicalPlan bk 200 = Some plan" using bk(4) by blast
  have "read_plan (+) 0 [(3000 :: int, 5 :: int), (3590, 7), (3700, 9)] plan 2
      = Some (state_at (+) 0 [(3000, 5), (3590, 7), (3700, 9)] (endHeight bk (int 2)))"
    by (rule canonical_reading_exact [OF bk(1) plan]) (simp_all add: bk(2))
  then show ?thesis using plan by (auto simp: state_at_def bk(3))
qed

theorem canonical_always_fits_witness:
  "\<exists>bk. makeBucketing sample_clock 1640998800 1641006000 1 180 FINEST_STEP_SEC no_options = Some bk
     \<and> canonicalPlan bk CANONICAL_GRID_STEPS \<noteq> None"
proof -
  have step: "chooseBucketStep 1640998800 1641006000 180 FINEST_STEP_SEC = 3600"
    by (simp add: chooseBucketStep_def BUCKET_STEPS_SEC_def FINEST_STEP_SEC_def)
  have "makeBucketing sample_clock 1640998800 1641006000 1 180 FINEST_STEP_SEC no_options \<noteq> None"
    unfolding makeBucketing_def Let_def by (simp add: no_options_def step)
  then obtain bk where bk: "makeBucketing sample_clock 1640998800 1641006000 1 180 FINEST_STEP_SEC no_options = Some bk" by blast
  have s: "bk_step bk = 3600" using made_grid(6) [OF bk] by (simp add: no_options_def step)
  then have t0: "bk_t0 bk = 1640998800" using made_grid(7) [OF bk] by (simp add: no_options_def)
  have "heightAtOrBefore sample_clock (bk_t0 bk) \<noteq> None"
    by (simp add: heightAtOrBefore_def hourIndex_def sample_clock_value t0 hour_start_def HOUR_def)
  then have "canonicalPlan bk CANONICAL_GRID_STEPS \<noteq> None"
    using canonical_always_fits [OF sample_chain_ok sample_reached [folded sample_clock_def] bk] by simp
  then show ?thesis using bk by blast
qed

section \<open>Where the two keyings part\<close>

text \<open>Under the chart's own dating a block after a boundary on the hour is still in the bucket that ends there.\<close>

lemma chart_dating_parts:
  "\<exists>bk. makeBucketing sample_clock 1640991600 1641006000 1 180 3600 no_options = Some bk
     \<and> bucketOfHeight bk 3 = 0 \<and> ofTs bk 1640998794 = 1"
proof -
  have step: "chooseBucketStep 1640991600 1641006000 180 3600 = 3600"
    by (simp add: chooseBucketStep_def BUCKET_STEPS_SEC_def)
  have upt: "[0..<4] = [0, 1, 2, 3]" by (simp add: upt_rec)
  have at: "heightAtOrBefore sample_clock 1640995200 = Some 3" "heightAtOrBefore sample_clock 1640998800 = Some 3"
    "heightAtOrBefore sample_clock 1641002400 = Some 3" "heightAtOrBefore sample_clock 1641006000 = Some 4"
    by (simp_all add: heightAtOrBefore_def hourIndex_def sample_clock_value hour_start_def HOUR_def last_index.simps)
  have "makeBucketing sample_clock 1640991600 1641006000 1 180 3600 no_options
      = Some \<lparr>bk_t0 = 1640991600, bk_step = 3600, bk_N = 3, bk_toSec = 1641006000, bk_floorHeight = 1,
          bk_endHeights = [3, 3, 3, 4], bk_startHeights = [1, 4, 4, 4],
          bk_dating = Some \<lparr>bd_key = ''chart'', bd_heightAt = heightAtOrBefore sample_clock\<rparr>\<rparr>"
    unfolding makeBucketing_def Let_def
    by (simp add: no_options_def step ceil_div_def heightsForBoundaries_def end_sec_def upt at eval_nat_numeral)
  then show ?thesis by (simp add: bucketOfHeight_def ofTs_def bdiv_def last_index.simps)
qed

text \<open>
  The SQL index of a height that opens a bucket after an empty one is the empty bucket's: \<open>indexOf\<close> takes the first of
  the equal start heights, the search in memory the last.
\<close>

lemma sql_index_parts:
  "let bk = \<lparr>bk_t0 = 0, bk_step = 3600, bk_N = 2, bk_toSec = 10800, bk_floorHeight = 1,
             bk_endHeights = [5, 5, 9], bk_startHeights = [1, 6, 6], bk_dating = None\<rparr>
   in makeBucketing STUB_CLOCK 0 10800 1 180 3600
        \<lparr>bo_stepSec = Some 3600, bo_anchorSec = None,
         bo_heightAt = Some (\<lambda>t. Some (if t < 10800 then 5 else 9)), bo_dating = None\<rparr> = Some bk
      \<and> ofHeight bk 6 = 1 \<and> bucketOfHeight bk 6 = 2 \<and> endHeight bk 1 < 6"
proof -
  let ?bk = "\<lparr>bk_t0 = 0, bk_step = 3600, bk_N = 2, bk_toSec = 10800, bk_floorHeight = 1,
             bk_endHeights = [5, 5, 9], bk_startHeights = [1, 6, 6], bk_dating = None\<rparr>"
  have upt: "[0..<3] = [0, 1, 2]" by (simp add: upt_rec)
  have "makeBucketing STUB_CLOCK 0 10800 1 180 3600
        \<lparr>bo_stepSec = Some 3600, bo_anchorSec = None,
         bo_heightAt = Some (\<lambda>t. Some (if t < 10800 then 5 else 9)), bo_dating = None\<rparr> = Some ?bk"
    unfolding makeBucketing_def Let_def by (simp add: ceil_div_def end_sec_def upt eval_nat_numeral)
  moreover have "ofHeight ?bk 6 = 1" by (simp add: ofHeight_def round_down_def sql_index_of_def)
  moreover have "bucketOfHeight ?bk 6 = 2" by (simp add: bucketOfHeight_def last_index.simps)
  moreover have "endHeight ?bk 1 < 6" by (simp add: endHeight_def)
  ultimately show ?thesis by (simp only: Let_def)
qed

end
