(* ===== verification/Lp_Math.thy ===== *)
theory Lp_Math
  imports Prelude Complex_Main
begin

text \<open>
  The liquidity-position arithmetic every valuing surface shares (\<^verbatim>\<open>src/api/src/services/lpMath.ts\<close>): what an Omnipool
  position, an XYK share and a stableswap share redeem for, and the share-token prices a price map is completed with.
\<close>

section \<open>Omnipool positions\<close>

definition OMNI_FIXED :: int where "OMNI_FIXED = 10 ^ 18"
definition HUB_ASSET_ID :: int where "HUB_ASSET_ID = 1"

record decoded_position =
  dp_assetId :: int
  dp_amount :: int
  dp_shares :: int
  dp_priceNum :: int
  dp_priceDen :: int

record omnipool_pool_state =
  oa_reserve :: int
  oa_hub :: int
  oa_shares :: int

definition omnipoolRemoveLiquidity :: "omnipool_pool_state \<Rightarrow> decoded_position \<Rightarrow> int \<times> int" where
  "omnipoolRemoveLiquidity st pos =
     (let R = oa_reserve st; Q = oa_hub st; S = oa_shares st
      in if S \<le> 0 \<or> dp_priceDen pos = 0 then (0, 0)
         else
           (let price = bdiv (dp_priceNum pos * OMNI_FIXED) (dp_priceDen pos);
                pxr = bdiv (price * R) OMNI_FIXED + 1;
                lt = Q * OMNI_FIXED < price * R;
                gt = Q * OMNI_FIXED > price * R;
                deltaB = (if lt then bdiv ((pxr - Q) * dp_shares pos) (pxr + Q) + 1 else 0);
                deltaShares = dp_shares pos - deltaB;
                liquidity = bdiv (R * deltaShares) S;
                hub = (if gt then bdiv (bdiv (Q * (Q - pxr)) (Q + pxr) * deltaShares) S else 0)
            in (liquidity, hub)))"

section \<open>Pro-rata shares\<close>

definition xykShareLegs :: "int \<Rightarrow> int \<Rightarrow> int \<Rightarrow> int \<Rightarrow> int \<times> int" where
  "xykShareLegs shares reserveA reserveB totalShares =
     (if totalShares \<le> 0 \<or> shares \<le> 0 then (0, 0)
      else (bdiv (reserveA * shares) totalShares, bdiv (reserveB * shares) totalShares))"

definition xykReserveAssets :: "bool \<Rightarrow> int \<Rightarrow> int \<Rightarrow> int \<Rightarrow> int \<Rightarrow> int \<times> int" where
  "xykReserveAssets hasIds snapA snapB registryA registryB =
     (if hasIds then (snapA, snapB) else (registryA, registryB))"

definition stableswapShareLegs :: "int \<Rightarrow> int list \<Rightarrow> int \<Rightarrow> int list" where
  "stableswapShareLegs shares reserves totalIssuance =
     (if totalIssuance \<le> 0 \<or> shares \<le> 0 then map (\<lambda>_. 0) reserves
      else map (\<lambda>reserve. bdiv (reserve * shares) totalIssuance) reserves)"

section \<open>Share-token prices\<close>

record stableswap_share_pool =
  sp_poolId :: int
  sp_assetIds :: "int list"
  sp_reserves :: "int list"
  sp_totalIssuance :: int

definition SHARE_POOL_MAX_AGE_SECONDS :: int where "SHARE_POOL_MAX_AGE_SECONDS = 3600"

text \<open>Decimals are the registry's numbers; \<open>Number.isInteger\<close> is what makes them \<^typ>\<open>int\<close>.\<close>

definition leg_ok :: "int option \<Rightarrow> int option \<Rightarrow> bool" where
  "leg_ok price decimals =
     (case (price, decimals) of (Some p, Some d) \<Rightarrow> \<not> p \<le> 0 \<and> \<not> d < 0 | _ \<Rightarrow> False)"

text \<open>\<open>10n ** BigInt(n)\<close> throws a \<open>RangeError\<close> for a negative \<open>n\<close>: nothing is said of its value then.\<close>

definition ten_to :: "int \<Rightarrow> int" where "ten_to n = (if n < 0 then undefined else 10 ^ nat n)"

definition stableswapSharePriceScaled ::
  "stableswap_share_pool \<Rightarrow> int option list \<Rightarrow> int option list \<Rightarrow> int \<Rightarrow> int option" where
  "stableswapSharePriceScaled pool legPrices legDecimals shareDecimals =
     (let n = length (sp_assetIds pool)
      in if n = 0 \<or> length (sp_reserves pool) \<noteq> n \<or> length legPrices \<noteq> n \<or> length legDecimals \<noteq> n then None
         else if sp_totalIssuance pool \<le> 0 then None
         else if \<not> list_all (\<lambda>i. leg_ok (legPrices ! i) (legDecimals ! i)) [0..<n] then None
         else
           (let maxDecimals = foldl (\<lambda>m i. max m (the (legDecimals ! i))) 0 [0..<n];
                numerator = foldl (\<lambda>acc i. acc + sp_reserves pool ! i * the (legPrices ! i)
                                             * ten_to (maxDecimals - the (legDecimals ! i))) 0 [0..<n]
            in Some (bdiv (numerator * ten_to shareDecimals) (ten_to maxDecimals * sp_totalIssuance pool))))"

text \<open>
  The recursion over share legs. \<open>path\<close> is \<open>inProgress\<close>: an id is added on entry and deleted on exit, and is never
  entered twice, so the set holds exactly the ids on the way down. The memo \<open>out\<close> is threaded.
\<close>

type_synonym share_memo = "(int, int option) jsmap"



record share_env =
  se_byId :: "(int, stableswap_share_pool) jsmap"
  se_legPrice :: "int \<Rightarrow> int option"
  se_decimalsOf :: "int \<Rightarrow> int option"
  se_isShare :: "int \<Rightarrow> bool"

lemma path_grows:
  assumes "map_of m k = Some v" "k \<notin> set path"
  shows "card (fst ` set m - insert k (set path)) < card (fst ` set m - set path)"
proof (rule psubset_card_mono)
  have "k \<in> fst ` set m" using assms(1) by (metis domI dom_map_of_conv_image_fst)
  then show "fst ` set m - insert k (set path) \<subset> fst ` set m - set path" using assms(2) by blast
qed simp

definition share_price_of :: "share_env \<Rightarrow> stableswap_share_pool \<Rightarrow> int \<Rightarrow> int option list \<Rightarrow> int option" where
  "share_price_of env pool poolId legPrices =
     (case se_decimalsOf env poolId of
        None \<Rightarrow> None
      | Some shareDecimals \<Rightarrow>
          stableswapSharePriceScaled pool legPrices (map (se_decimalsOf env) (sp_assetIds pool)) shareDecimals)"

definition is_share_leg :: "share_env \<Rightarrow> int \<Rightarrow> bool" where
  "is_share_leg env i \<longleftrightarrow> map_has (se_byId env) i \<or> se_isShare env i"

function (sequential) price_share :: "share_env \<Rightarrow> int list \<Rightarrow> share_memo \<Rightarrow> int \<Rightarrow> int option \<times> share_memo"
  and price_legs :: "share_env \<Rightarrow> int list \<Rightarrow> share_memo \<Rightarrow> int list \<Rightarrow> int option list \<times> share_memo"
where
  "price_share env path out poolId =
     (case map_of out poolId of
        Some v \<Rightarrow> (v, out)
      | None \<Rightarrow>
          (case map_of (se_byId env) poolId of
             None \<Rightarrow> (None, out)
           | Some pool \<Rightarrow>
               if poolId \<in> set path then (None, out)
               else
                 (case price_legs env (poolId # path) out (sp_assetIds pool) of
                    (legPrices, out) \<Rightarrow>
                      (let price = share_price_of env pool poolId legPrices
                       in (price, map_set poolId price out)))))"
| "price_legs env path out [] = ([], out)"
| "price_legs env path out (i # ids) =
     (case (if is_share_leg env i then price_share env path out i else (se_legPrice env i, out)) of
        (p, out) \<Rightarrow>
          (case price_legs env path out ids of
             (ps, out) \<Rightarrow> (p # ps, out)))"
  by pat_completeness auto
termination
  by (relation "measures
     [\<lambda>x. case x of Inl (env, path, _, _) \<Rightarrow> card (fst ` set (se_byId env) - set path)
             | Inr (env, path, _, _) \<Rightarrow> card (fst ` set (se_byId env) - set path),
      \<lambda>x. case x of Inl _ \<Rightarrow> 0 | Inr (_, _, _, ids) \<Rightarrow> Suc (length ids)]")
    (auto simp: path_grows)

declare price_share.simps [simp del] price_legs.simps(2) [simp del]

definition share_pools :: "stableswap_share_pool list \<Rightarrow> (int, stableswap_share_pool) jsmap" where
  "share_pools pools = foldl (\<lambda>m pool. map_set (sp_poolId pool) pool m) [] pools"

definition stableswapSharePrices ::
  "stableswap_share_pool list \<Rightarrow> (int \<Rightarrow> int option) \<Rightarrow> (int \<Rightarrow> int option) \<Rightarrow> (int \<Rightarrow> bool) \<Rightarrow> share_memo" where
  "stableswapSharePrices pools legPrice decimalsOf isShare =
     (let env = \<lparr>se_byId = share_pools pools, se_legPrice = legPrice, se_decimalsOf = decimalsOf, se_isShare = isShare\<rparr>
      in foldl (\<lambda>out poolId. snd (price_share env [] out poolId)) [] (map_keys (se_byId env)))"

definition withStableswapSharePrices ::
  "(int, int) jsmap \<Rightarrow> stableswap_share_pool list option \<Rightarrow> (int \<Rightarrow> int option) \<Rightarrow> (int \<Rightarrow> int option) \<Rightarrow> (int \<Rightarrow> bool)
    \<Rightarrow> (int, int) jsmap" where
  "withStableswapSharePrices prices pools legPrice decimalsOf isShare =
     (let derived = (case pools of None \<Rightarrow> [] | Some ps \<Rightarrow> stableswapSharePrices ps legPrice decimalsOf isShare);
          out = foldl (\<lambda>out id. if isShare id \<or> map_has derived id then map_delete id out else out) prices (map_keys prices)
      in foldl (\<lambda>out (id, price). case price of Some p \<Rightarrow> map_set id p out | None \<Rightarrow> out) out derived)"

section \<open>Positions of one bucket\<close>

record historical_owned_position =
  ho_positionId :: string
  ho_assetId :: int
  ho_state :: decoded_position
  ho_pool :: "omnipool_pool_state option"
  ho_farmed :: "bool option"
  ho_depositId :: "string option"

record omnipool_bucket_leg =
  bl_positionId :: string
  bl_assetId :: int
  bl_liquidity :: int
  bl_hub :: int
  bl_shares :: int
  bl_farmed :: bool
  bl_depositId :: "string option"

record bucket_walk =
  bw_legs :: "omnipool_bucket_leg list"
  bw_unvalued :: nat
  bw_seen :: "string list"

definition bucket_position :: "bucket_walk \<Rightarrow> historical_owned_position \<Rightarrow> bucket_walk" where
  "bucket_position w h =
     (if ho_positionId h \<in> set (bw_seen w) then w
      else
        (let w = w\<lparr>bw_seen := set_add (ho_positionId h) (bw_seen w)\<rparr>
         in if dp_shares (ho_state h) \<le> 0 then w
            else (case ho_pool h of
                    None \<Rightarrow> w\<lparr>bw_unvalued := bw_unvalued w + 1\<rparr>
                  | Some pool \<Rightarrow>
                      (case omnipoolRemoveLiquidity pool (ho_state h) of
                         (liquidity, hub) \<Rightarrow>
                           w\<lparr>bw_legs := bw_legs w @
                             [\<lparr>bl_positionId = ho_positionId h, bl_assetId = ho_assetId h, bl_liquidity = liquidity,
                               bl_hub = hub, bl_shares = dp_shares (ho_state h),
                               bl_farmed = (case ho_farmed h of Some f \<Rightarrow> f | None \<Rightarrow> False),
                               bl_depositId = ho_depositId h\<rparr>]\<rparr>))))"

definition omnipoolBucket :: "historical_owned_position list \<Rightarrow> omnipool_bucket_leg list \<times> nat" where
  "omnipoolBucket positions =
     (let w = foldl bucket_position \<lparr>bw_legs = [], bw_unvalued = 0, bw_seen = []\<rparr> positions
      in (bw_legs w, bw_unvalued w))"

definition omnipoolLegsForBucket :: "historical_owned_position list \<Rightarrow> omnipool_bucket_leg list" where
  "omnipoolLegsForBucket positions = fst (omnipoolBucket positions)"

section \<open>What a share is worth\<close>

text \<open>
  The meaning of a derived share price: a share has one when every leg has one, share legs by this same rule. It is the
  least such relation, so a share that depends on itself, or on a share without a pool, has none.
\<close>

inductive share_priced :: "share_env \<Rightarrow> int \<Rightarrow> int \<Rightarrow> bool" for env where
  derived: "map_of (se_byId env) poolId = Some pool \<Longrightarrow> length legPrices = length (sp_assetIds pool)
    \<Longrightarrow> (\<And>i. i < length (sp_assetIds pool) \<Longrightarrow> is_share_leg env (sp_assetIds pool ! i)
          \<Longrightarrow> \<exists>r. legPrices ! i = Some r \<and> share_priced env (sp_assetIds pool ! i) r)
    \<Longrightarrow> (\<And>i. i < length (sp_assetIds pool) \<Longrightarrow> \<not> is_share_leg env (sp_assetIds pool ! i)
          \<Longrightarrow> legPrices ! i = se_legPrice env (sp_assetIds pool ! i))
    \<Longrightarrow> share_price_of env pool poolId legPrices = Some p
    \<Longrightarrow> share_priced env poolId p"

inductive_cases share_pricedE: "share_priced env poolId p"

definition leg_of :: "share_env \<Rightarrow> (int \<times> int) set" where
  "leg_of env = {(a, j). \<exists>pool. map_of (se_byId env) a = Some pool \<and> j \<in> set (sp_assetIds pool) \<and> is_share_leg env j}"

lemma priced_not_cyclic: "share_priced env a p \<Longrightarrow> (a, a) \<notin> (leg_of env)\<^sup>+"
proof (induction rule: share_priced.induct)
  case (derived poolId pool legPrices p)
  show ?case
  proof
    assume "(poolId, poolId) \<in> (leg_of env)\<^sup>+"
    then obtain j where j: "(poolId, j) \<in> leg_of env" "(j, poolId) \<in> (leg_of env)\<^sup>*" by (auto dest: tranclD)
    then obtain i where i: "i < length (sp_assetIds pool)" "j = sp_assetIds pool ! i" "is_share_leg env j"
      using derived(1) by (auto simp: leg_of_def in_set_conv_nth)
    have "(j, j) \<in> (leg_of env)\<^sup>+" using j by (metis rtrancl_into_trancl1)
    then show False using derived.IH [OF i(1)] i(3) unfolding i(2) by blast
  qed
qed

definition memo_ok :: "share_env \<Rightarrow> share_memo \<Rightarrow> bool" where
  "memo_ok env out \<longleftrightarrow> map_wf out \<and> (\<forall>k v. map_of out k = Some v \<longrightarrow>
     map_has (se_byId env) k \<and> (\<forall>p. v = Some p \<longleftrightarrow> share_priced env k p))"

lemma share_price_legs:
  assumes "share_price_of env pool poolId ps = Some p"
  shows "length ps = length (sp_assetIds pool)" "i < length (sp_assetIds pool) \<Longrightarrow> ps ! i \<noteq> None"
proof -
  from assms obtain d where d: "stableswapSharePriceScaled pool ps (map (se_decimalsOf env) (sp_assetIds pool)) d = Some p"
    by (auto simp: share_price_of_def split: option.splits)
  then show len: "length ps = length (sp_assetIds pool)"
    by (auto simp: stableswapSharePriceScaled_def Let_def split: if_splits)
  have "list_all (\<lambda>i. leg_ok (ps ! i) (map (se_decimalsOf env) (sp_assetIds pool) ! i)) [0..<length (sp_assetIds pool)]"
    using d by (auto simp: stableswapSharePriceScaled_def Let_def split: if_splits)
  then have "leg_ok (ps ! i) (map (se_decimalsOf env) (sp_assetIds pool) ! i)" if "i < length (sp_assetIds pool)"
    using that by (simp add: list_all_iff)
  then show "ps ! i \<noteq> None" if "i < length (sp_assetIds pool)" using that
    by (auto simp: leg_ok_def split: option.splits)
qed

definition leg_correct :: "share_env \<Rightarrow> int \<Rightarrow> int option \<Rightarrow> bool" where
  "leg_correct env j q \<longleftrightarrow>
     (if is_share_leg env j then \<forall>p. q = Some p \<longleftrightarrow> share_priced env j p else q = se_legPrice env j)"

lemma pool_priced_iff:
  assumes pool: "map_of (se_byId env) a = Some pool" and legs: "list_all2 (leg_correct env) (sp_assetIds pool) ps"
  shows "share_price_of env pool a ps = Some p \<longleftrightarrow> share_priced env a p"
proof
  assume p: "share_price_of env pool a ps = Some p"
  show "share_priced env a p"
  proof (rule share_priced.derived [OF pool _ _ _ p])
    show "length ps = length (sp_assetIds pool)" using list_all2_lengthD [OF legs] by simp
    show "\<exists>r. ps ! i = Some r \<and> share_priced env (sp_assetIds pool ! i) r"
      if "i < length (sp_assetIds pool)" "is_share_leg env (sp_assetIds pool ! i)" for i
      using list_all2_nthD [OF legs that(1)] that(2) share_price_legs(2) [OF p that(1)]
      by (auto simp: leg_correct_def)
    show "ps ! i = se_legPrice env (sp_assetIds pool ! i)"
      if "i < length (sp_assetIds pool)" "\<not> is_share_leg env (sp_assetIds pool ! i)" for i
      using list_all2_nthD [OF legs that(1)] that(2) by (simp add: leg_correct_def)
  qed
next
  assume "share_priced env a p"
  then obtain qs where qs: "length qs = length (sp_assetIds pool)" "share_price_of env pool a qs = Some p"
    "\<And>i. i < length (sp_assetIds pool) \<Longrightarrow> is_share_leg env (sp_assetIds pool ! i)
        \<Longrightarrow> \<exists>r. qs ! i = Some r \<and> share_priced env (sp_assetIds pool ! i) r"
    "\<And>i. i < length (sp_assetIds pool) \<Longrightarrow> \<not> is_share_leg env (sp_assetIds pool ! i)
        \<Longrightarrow> qs ! i = se_legPrice env (sp_assetIds pool ! i)"
    by (rule share_pricedE) (use pool in auto)
  have len: "length ps = length (sp_assetIds pool)" using list_all2_lengthD [OF legs] by simp
  have "ps = qs"
  proof (rule nth_equalityI)
    show "ps ! i = qs ! i" if "i < length ps" for i
    proof -
      have i: "i < length (sp_assetIds pool)" using that len by simp
      show ?thesis using list_all2_nthD [OF legs i] qs(3,4) [OF i]
        by (cases "is_share_leg env (sp_assetIds pool ! i)") (auto simp: leg_correct_def)
    qed
  qed (simp add: len qs(1))
  then show "share_price_of env pool a ps = Some p" using qs(2) by simp
qed

lemma memo_ok_set:
  "memo_ok env out \<Longrightarrow> map_has (se_byId env) a \<Longrightarrow> (\<And>p. v = Some p \<longleftrightarrow> share_priced env a p)
    \<Longrightarrow> memo_ok env (map_set a v out)"
  unfolding memo_ok_def by simp

lemma unpriced_without_pool: "map_of (se_byId env) a = None \<Longrightarrow> \<not> share_priced env a p"
  by (auto elim: share_pricedE)

lemma price_share_correct:
  "memo_ok env out \<Longrightarrow> \<forall>a\<in>set path. (a, poolId) \<in> (leg_of env)\<^sup>+ \<Longrightarrow> price_share env path out poolId = (v, out')
    \<Longrightarrow> memo_ok env out' \<and> (\<forall>p. v = Some p \<longleftrightarrow> share_priced env poolId p) \<and> fst ` set out \<subseteq> fst ` set out'
      \<and> (map_has (se_byId env) poolId \<and> poolId \<notin> set path \<longrightarrow> map_has out' poolId)"
  "memo_ok env out \<Longrightarrow> \<forall>a\<in>set path. \<forall>j\<in>set ids. is_share_leg env j \<longrightarrow> (a, j) \<in> (leg_of env)\<^sup>+
    \<Longrightarrow> price_legs env path out ids = (ps, out')
    \<Longrightarrow> memo_ok env out' \<and> list_all2 (leg_correct env) ids ps \<and> fst ` set out \<subseteq> fst ` set out'"
proof (induction env path out poolId and env path out ids arbitrary: v out' and ps out' rule: price_share_price_legs.induct)
  case (1 env path out poolId)
  show ?case
  proof (cases "map_of out poolId")
    case (Some w)
    then have "v = w" "out' = out" using "1.prems"(3) by (simp_all add: price_share.simps)
    moreover have "map_has out poolId" using Some by (simp add: map_has_iff)
    ultimately show ?thesis using "1.prems"(1) Some by (auto simp: memo_ok_def)
  next
    case fresh: None
    show ?thesis
    proof (cases "map_of (se_byId env) poolId")
      case None
      then have "v = None" "out' = out" using "1.prems"(3) fresh by (simp_all add: price_share.simps)
      moreover have "\<not> map_has (se_byId env) poolId" using None by (simp add: map_has_iff)
      ultimately show ?thesis using "1.prems"(1) unpriced_without_pool [OF None] by auto
    next
      case (Some pool)
      have has: "map_has (se_byId env) poolId" using Some by (simp add: map_has_iff)
      show ?thesis
      proof (cases "poolId \<in> set path")
        case True
        then have "v = None" "out' = out" using "1.prems"(3) fresh Some by (simp_all add: price_share.simps)
        moreover have "\<not> share_priced env poolId p" for p using priced_not_cyclic "1.prems"(2) True by blast
        ultimately show ?thesis using "1.prems"(1) True by auto
      next
        case False
        obtain ps mid where legs: "price_legs env (poolId # path) out (sp_assetIds pool) = (ps, mid)" by fastforce
        have res: "v = share_price_of env pool poolId ps" "out' = map_set poolId v mid"
          using "1.prems"(3) fresh Some False legs by (auto simp: price_share.simps Let_def)
        have "\<forall>a\<in>set (poolId # path). \<forall>j\<in>set (sp_assetIds pool). is_share_leg env j \<longrightarrow> (a, j) \<in> (leg_of env)\<^sup>+"
        proof (intro ballI impI)
          fix a j assume a: "a \<in> set (poolId # path)" and j: "j \<in> set (sp_assetIds pool)" "is_share_leg env j"
          have "(poolId, j) \<in> leg_of env" using Some j by (auto simp: leg_of_def)
          then show "(a, j) \<in> (leg_of env)\<^sup>+" using a "1.prems"(2) by (auto intro: trancl_into_trancl)
        qed
        from "1.IH" [OF fresh Some False "1.prems"(1) this legs]
        have mid: "memo_ok env mid" "list_all2 (leg_correct env) (sp_assetIds pool) ps" "fst ` set out \<subseteq> fst ` set mid"
          by auto
        have spec: "v = Some p \<longleftrightarrow> share_priced env poolId p" for p
          unfolding res(1) by (rule pool_priced_iff [OF Some mid(2)])
        have "memo_ok env out'" unfolding res(2) by (rule memo_ok_set [OF mid(1) has spec])
        then show ?thesis using spec mid(3) by (auto simp: res(2))
      qed
    qed
  qed
next
  case (2 env path out)
  then show ?case by simp
next
  case (3 env path out i ids)
  show ?case
  proof (cases "is_share_leg env i")
    case True
    obtain p mid where one: "price_share env path out i = (p, mid)" by fastforce
    obtain qs where rest: "price_legs env path mid ids = (qs, out')" "ps = p # qs"
      using "3.prems"(3) one True by (auto simp: price_legs.simps(2) split: prod.splits)
    have m: "memo_ok env mid" "\<forall>r. p = Some r \<longleftrightarrow> share_priced env i r" "fst ` set out \<subseteq> fst ` set mid"
      using "3.IH"(1) [OF True "3.prems"(1) _ one] "3.prems"(2) True by auto
    have r: "memo_ok env out' \<and> list_all2 (leg_correct env) ids qs \<and> fst ` set mid \<subseteq> fst ` set out'"
      using "3.IH"(2) [OF _ m(1) _ rest(1)] "3.prems"(2) one True by auto
    have "leg_correct env i p" using m(2) True by (simp add: leg_correct_def)
    moreover have "fst ` set out \<subseteq> fst ` set out'" using r m(3) by (meson subset_trans)
    ultimately show ?thesis using r by (simp add: rest(2))
  next
    case False
    obtain qs where rest: "price_legs env path out ids = (qs, out')" "ps = se_legPrice env i # qs"
      using "3.prems"(3) False by (auto simp: price_legs.simps(2) split: prod.splits)
    have "memo_ok env out' \<and> list_all2 (leg_correct env) ids qs \<and> fst ` set out \<subseteq> fst ` set out'"
      using "3.IH"(2) [OF _ "3.prems"(1) _ rest(1)] "3.prems"(2) False by auto
    moreover have "leg_correct env i (se_legPrice env i)" using False by (simp add: leg_correct_def)
    ultimately show ?thesis using rest(2) by simp
  qed
qed

abbreviation env_of ::
  "stableswap_share_pool list \<Rightarrow> (int \<Rightarrow> int option) \<Rightarrow> (int \<Rightarrow> int option) \<Rightarrow> (int \<Rightarrow> bool) \<Rightarrow> share_env" where
  "env_of pools legPrice decimalsOf isShare \<equiv>
     \<lparr>se_byId = share_pools pools, se_legPrice = legPrice, se_decimalsOf = decimalsOf, se_isShare = isShare\<rparr>"

lemma price_all_correct:
  assumes "memo_ok env out" "\<forall>k\<in>set ks. map_has (se_byId env) k"
  shows "memo_ok env (foldl (\<lambda>out k. snd (price_share env [] out k)) out ks)
    \<and> fst ` set out \<union> set ks \<subseteq> fst ` set (foldl (\<lambda>out k. snd (price_share env [] out k)) out ks)"
  using assms
proof (induction ks arbitrary: out)
  case (Cons k ks)
  obtain v mid where mid: "price_share env [] out k = (v, mid)" by fastforce
  have one: "memo_ok env mid" "fst ` set out \<subseteq> fst ` set mid" "map_has mid k"
    using price_share_correct(1) [OF Cons.prems(1) _ mid] Cons.prems(2) by auto
  have k: "k \<in> fst ` set mid" using one(3) by (simp add: map_has_def)
  have rest: "memo_ok env (foldl (\<lambda>out k. snd (price_share env [] out k)) mid ks)"
    "fst ` set mid \<union> set ks \<subseteq> fst ` set (foldl (\<lambda>out k. snd (price_share env [] out k)) mid ks)"
    using Cons.IH [OF one(1)] Cons.prems(2) by auto
  show ?case using rest one(2) k by (simp add: mid) (meson subsetD subset_trans)
qed simp

lemma memo_spec:
  "map_has (share_pools pools) i = map_has (stableswapSharePrices pools lp dec sh) i"
  "map_of (stableswapSharePrices pools lp dec sh) i = Some (Some p) \<longleftrightarrow> share_priced (env_of pools lp dec sh) i p"
  "map_wf (stableswapSharePrices pools lp dec sh)"
proof -
  let ?env = "env_of pools lp dec sh" and ?out = "stableswapSharePrices pools lp dec sh"
  have empty: "memo_ok ?env []" by (simp add: memo_ok_def)
  have all: "memo_ok ?env ?out \<and> fst ` set (share_pools pools) \<subseteq> fst ` set ?out"
    using price_all_correct [OF empty, of "map_keys (share_pools pools)"]
    by (simp add: stableswapSharePrices_def Let_def map_has_def)
  then show wf: "map_wf ?out" by (simp add: memo_ok_def)
  have sub: "map_has ?out k \<Longrightarrow> map_has (share_pools pools) k" for k
    using all by (auto simp: memo_ok_def map_has_iff [of ?out])
  show has: "map_has (share_pools pools) i = map_has ?out i"
    using all sub by (auto simp: map_has_def)
  show "map_of ?out i = Some (Some p) \<longleftrightarrow> share_priced ?env i p"
  proof (cases "map_of ?out i")
    case None
    then have "\<not> map_has (share_pools pools) i" using has by (simp add: map_has_iff)
    then have "\<not> share_priced ?env i p" by (intro unpriced_without_pool) (simp add: map_has_iff)
    then show ?thesis using None by simp
  next
    case (Some v)
    then show ?thesis using all by (auto simp: memo_ok_def)
  qed
qed

lemma delete_all:
  "map_of (foldl (\<lambda>out i. if P i then map_delete i out else out) m ks) k = (if k \<in> set ks \<and> P k then None else map_of m k)"
  by (induction ks arbitrary: m) auto

lemma set_all:
  "map_wf d \<Longrightarrow> map_of (foldl (\<lambda>out (i, price). case price of Some p \<Rightarrow> map_set i p out | None \<Rightarrow> out) m d) k =
    (case map_of d k of Some (Some p) \<Rightarrow> Some p | _ \<Rightarrow> map_of m k)"
proof (induction d arbitrary: m)
  case (Cons e d)
  then have "fst e = k \<Longrightarrow> map_of d k = None" by (auto simp: map_of_eq_None_iff)
  then show ?case using Cons by (cases e; cases "snd e") (auto split: option.splits)
qed simp

section \<open>Redeeming a position\<close>

lemma div_le_part:
  fixes a b s S :: int
  assumes "0 < S" "0 \<le> a" "0 \<le> d" "d \<le> s"
  shows "0 \<le> a * d div S" "a * d div S * S \<le> a * s"
proof -
  show "0 \<le> a * d div S" using assms by (simp add: pos_imp_zdiv_nonneg_iff)
  have "a * d div S * S \<le> a * d"
    using pos_mod_sign [OF assms(1), of "a * d"] div_mult_mod_eq [of "a * d" S] by linarith
  also have "\<dots> \<le> a * s" using assms by (simp add: mult_left_mono)
  finally show "a * d div S * S \<le> a * s" .
qed

text \<open>
  C18: The derived share prices are the least solution of "a share is worth its legs": whatever order the pools come in
  and whichever share is asked first, a pool has a price exactly when all its legs have one, cycles and missing pools
  being unpriced, and the price is the one its legs give.
\<close>

theorem share_prices_least:
  "(map_of (stableswapSharePrices pools legPrice decimalsOf isShare) poolId = Some (Some p)
      \<longleftrightarrow> share_priced (env_of pools legPrice decimalsOf isShare) poolId p)
   \<and> (map_of (stableswapSharePrices pools legPrice decimalsOf isShare) poolId = None \<longleftrightarrow> \<not> map_has (share_pools pools) poolId)"
  using memo_spec(1,2) [where pools = pools and lp = legPrice and dec = decimalsOf and sh = isShare and i = poolId]
  by (simp add: map_has_iff [of "stableswapSharePrices pools legPrice decimalsOf isShare"])

text \<open>
  In the completed price map no share token keeps a price of its own: every share has its derived price or none, and
  every other asset keeps what it had; with no pool state at all every share is unpriced.
\<close>

lemma share_prices_replaced:
  "(map_of (withStableswapSharePrices prices (Some pools) legPrice decimalsOf isShare) a = Some p \<longleftrightarrow>
      (if isShare a \<or> map_has (share_pools pools) a then share_priced (env_of pools legPrice decimalsOf isShare) a p
       else map_of prices a = Some p))
   \<and> map_of (withStableswapSharePrices prices None legPrice decimalsOf isShare) a = (if isShare a then None else map_of prices a)"
proof -
  let ?d = "stableswapSharePrices pools legPrice decimalsOf isShare"
  note spec = memo_spec [where pools = pools and lp = legPrice and dec = decimalsOf and sh = isShare]
  have absent: "map_of prices a = None" if "a \<notin> fst ` set prices" using that by (simp add: map_of_eq_None_iff)
  have "map_of (withStableswapSharePrices prices None legPrice decimalsOf isShare) a = (if isShare a then None else map_of prices a)"
    using absent by (auto simp: withStableswapSharePrices_def delete_all)
  moreover have "map_of (withStableswapSharePrices prices (Some pools) legPrice decimalsOf isShare) a =
    (case map_of ?d a of Some (Some p) \<Rightarrow> Some p
     | _ \<Rightarrow> if isShare a \<or> map_has ?d a then None else map_of prices a)"
    using absent by (auto simp: withStableswapSharePrices_def Let_def set_all [OF spec(3)] delete_all split: option.splits)
  moreover have "map_of ?d a = None \<longleftrightarrow> \<not> map_has (share_pools pools) a"
    using spec(1) [of a] by (simp add: map_has_iff [of ?d])
  moreover have "map_of ?d a = Some (Some p) \<longleftrightarrow> share_priced (env_of pools legPrice decimalsOf isShare) a p" by (rule spec(2))
  moreover have "share_priced (env_of pools legPrice decimalsOf isShare) a p \<Longrightarrow> map_has (share_pools pools) a"
    using unpriced_without_pool [of "env_of pools legPrice decimalsOf isShare" a p] by (auto simp: map_has_iff)
  ultimately show ?thesis using spec(1) [of a] by (auto split: option.splits)
qed

text \<open>
  C19: A position never redeems more than its pro-rata part of either reserve, neither leg is negative, and hub asset is
  only paid out beside the full pro-rata part of the asset itself.
\<close>

theorem position_redeems_within:
  assumes st: "0 \<le> oa_reserve st" "0 < oa_hub st" "0 < oa_shares st"
    and pos: "0 < dp_shares pos" "0 \<le> dp_priceNum pos" "0 < dp_priceDen pos"
    and out: "omnipoolRemoveLiquidity st pos = (liquidity, hub)"
  shows "0 \<le> liquidity \<and> liquidity * oa_shares st \<le> oa_reserve st * dp_shares pos
    \<and> 0 \<le> hub \<and> hub * oa_shares st \<le> oa_hub st * dp_shares pos
    \<and> (hub = 0 \<or> liquidity = oa_reserve st * dp_shares pos div oa_shares st)"
proof -
  let ?R = "oa_reserve st" and ?Q = "oa_hub st" and ?S = "oa_shares st" and ?s = "dp_shares pos"
  have F: "0 < OMNI_FIXED" by (simp add: OMNI_FIXED_def)
  define price where "price = bdiv (dp_priceNum pos * OMNI_FIXED) (dp_priceDen pos)"
  have price0: "0 \<le> price" unfolding price_def using pos F by (intro bdiv_nonneg) auto
  define pxr where "pxr = bdiv (price * ?R) OMNI_FIXED + 1"
  have pxr: "pxr = price * ?R div OMNI_FIXED + 1" using price0 st F by (simp add: pxr_def bdiv_nonneg_eq)
  have pxr1: "1 \<le> pxr" using price0 st(1) F by (simp add: pxr pos_imp_zdiv_nonneg_iff)
  define deltaB where "deltaB = (if ?Q * OMNI_FIXED < price * ?R then bdiv ((pxr - ?Q) * ?s) (pxr + ?Q) + 1 else 0)"
  define d where "d = ?s - deltaB"
  have gtF: "?Q < pxr" if "?Q * OMNI_FIXED < price * ?R"
    using zdiv_mono1 [of "?Q * OMNI_FIXED" "price * ?R" OMNI_FIXED] that F by (simp add: pxr)
  have leF: "pxr \<le> ?Q" if "?Q * OMNI_FIXED > price * ?R"
  proof -
    have "price * ?R div OMNI_FIXED * OMNI_FIXED \<le> price * ?R"
      using pos_mod_sign [OF F, of "price * ?R"] div_mult_mod_eq [of "price * ?R" OMNI_FIXED] by linarith
    then have "price * ?R div OMNI_FIXED * OMNI_FIXED < ?Q * OMNI_FIXED" using that by linarith
    then show ?thesis using F by (simp add: pxr)
  qed
  have B: "0 \<le> deltaB" "deltaB \<le> ?s"
  proof -
    show "0 \<le> deltaB" using gtF pos pxr1 st by (auto simp: deltaB_def intro!: add_nonneg_nonneg bdiv_nonneg mult_nonneg_nonneg)
    show "deltaB \<le> ?s"
    proof (cases "?Q * OMNI_FIXED < price * ?R")
      case True
      have pq: "0 < pxr + ?Q" using pxr1 st by simp
      have "(pxr - ?Q) * ?s < (pxr + ?Q) * ?s" using st pos by (intro mult_strict_right_mono) auto
      moreover have "(pxr - ?Q) * ?s div (pxr + ?Q) * (pxr + ?Q) \<le> (pxr - ?Q) * ?s"
        using pos_mod_sign [OF pq, of "(pxr - ?Q) * ?s"] div_mult_mod_eq [of "(pxr - ?Q) * ?s" "pxr + ?Q"] by linarith
      ultimately have "(pxr - ?Q) * ?s div (pxr + ?Q) * (pxr + ?Q) < ?s * (pxr + ?Q)" by (simp add: mult.commute)
      then have "(pxr - ?Q) * ?s div (pxr + ?Q) < ?s" using pq by (simp add: mult_less_cancel_right)
      moreover have "bdiv ((pxr - ?Q) * ?s) (pxr + ?Q) = (pxr - ?Q) * ?s div (pxr + ?Q)"
        using gtF [OF True] pos pq by (intro bdiv_nonneg_eq) auto
      ultimately show ?thesis using True by (simp add: deltaB_def)
    next
      case False
      then show ?thesis using pos by (simp add: deltaB_def)
    qed
  qed
  then have d: "0 \<le> d" "d \<le> ?s" by (simp_all add: d_def)
  define part where "part = (if ?Q * OMNI_FIXED > price * ?R then bdiv (?Q * (?Q - pxr)) (?Q + pxr) else 0)"
  have part: "0 \<le> part" "part \<le> ?Q"
  proof -
    show "0 \<le> part" using leF st pxr1 by (auto simp: part_def intro!: bdiv_nonneg mult_nonneg_nonneg)
    show "part \<le> ?Q"
    proof (cases "?Q * OMNI_FIXED > price * ?R")
      case True
      have pq: "0 < ?Q + pxr" using pxr1 st by simp
      have "?Q * (?Q - pxr) div (?Q + pxr) \<le> ?Q * (?Q + pxr) div (?Q + pxr)"
        using pq st pxr1 by (intro zdiv_mono1 mult_left_mono) auto
      moreover have "bdiv (?Q * (?Q - pxr)) (?Q + pxr) = ?Q * (?Q - pxr) div (?Q + pxr)"
        using leF [OF True] st pq by (intro bdiv_nonneg_eq) auto
      ultimately show ?thesis using pq True by (simp add: part_def)
    next
      case False
      then show ?thesis using st by (simp add: part_def)
    qed
  qed
  have "omnipoolRemoveLiquidity st pos =
    (bdiv (?R * d) ?S, if ?Q * OMNI_FIXED > price * ?R then bdiv (part * d) ?S else 0)"
    using st pos
    unfolding omnipoolRemoveLiquidity_def Let_def price_def [symmetric] pxr_def [symmetric] deltaB_def [symmetric]
      d_def [symmetric]
    by (simp add: part_def)
  then have liq: "liquidity = ?R * d div ?S"
    and hub: "hub = (if ?Q * OMNI_FIXED > price * ?R then part * d div ?S else 0)"
    using out st d part by (auto simp: bdiv_nonneg_eq)
  have full: "hub = 0 \<or> d = ?s" using hub by (auto simp: d_def deltaB_def split: if_splits)
  have pay: "part * d div ?S * ?S \<le> ?Q * ?s"
    using div_le_part(2) [OF st(3) part(1) d] part(2) pos mult_right_mono [of part ?Q ?s] by linarith
  show ?thesis
  proof (intro conjI)
    show "0 \<le> liquidity" "liquidity * ?S \<le> ?R * ?s" unfolding liq by (rule div_le_part [OF st(3) st(1) d])+
    show "0 \<le> hub" using hub div_le_part(1) [OF st(3) part(1) d] by presburger
    have "0 \<le> ?Q * ?s" using st(2) pos(1) by simp
    then show "hub * ?S \<le> ?Q * ?s" using hub pay by (simp split: if_splits)
    show "hub = 0 \<or> liquidity = ?R * ?s div ?S" using full unfolding liq by blast
  qed
qed

theorem position_redeems_within_witness:
  "(let (liquidity, hub) = omnipoolRemoveLiquidity \<lparr>oa_reserve = 1000, oa_hub = 500, oa_shares = 2000\<rparr>
      \<lparr>dp_assetId = 5, dp_amount = 100, dp_shares = 200, dp_priceNum = 1, dp_priceDen = 4\<rparr>
    in hub * 2000 \<le> 500 * 200 \<and> liquidity = 100)"
proof -
  let ?st = "\<lparr>oa_reserve = 1000, oa_hub = 500, oa_shares = 2000\<rparr>"
  let ?pos = "\<lparr>dp_assetId = 5, dp_amount = 100, dp_shares = 200, dp_priceNum = 1, dp_priceDen = 4\<rparr>"
  have out: "omnipoolRemoveLiquidity ?st ?pos = (100, 16)"
    by code_simp
  from position_redeems_within [OF _ _ _ _ _ _ out] show ?thesis by (simp add: out)
qed


text \<open>The sum of a pool's legs, in whole units of the price's scale per leg unit.\<close>

definition pool_value :: "stableswap_share_pool \<Rightarrow> int list \<Rightarrow> int list \<Rightarrow> rat" where
  "pool_value pool prices decimals =
     (\<Sum>i<length (sp_assetIds pool). of_int (sp_reserves pool ! i * prices ! i) / 10 ^ nat (decimals ! i))"

lemma foldl_max_ge:
  "m \<le> foldl (\<lambda>m i. max m (f i)) m xs" "x \<in> set xs \<Longrightarrow> f x \<le> foldl (\<lambda>m i. max m (f i)) m xs" for m :: int
proof -
  show ge: "m \<le> foldl (\<lambda>m i. max m (f i)) m xs" for m :: int and xs
  proof (induction xs arbitrary: m)
    case (Cons a xs)
    then show ?case using order_trans [OF max.cobounded1 Cons [of "max m (f a)"]] by simp
  qed simp
  show "x \<in> set xs \<Longrightarrow> f x \<le> foldl (\<lambda>m i. max m (f i)) m xs"
  proof (induction xs arbitrary: m)
    case (Cons a xs)
    then show ?case using ge [of "max m (f a)" xs] by auto
  qed simp
qed

lemma foldl_add_sum: "foldl (\<lambda>acc i. acc + f i) a [0..<n] = a + (\<Sum>i<n. f i)" for a :: int
  by (induction n) (simp_all add: add.assoc)

lemma floor_bdiv: "0 \<le> a \<Longrightarrow> 0 < b \<Longrightarrow> bdiv a b = \<lfloor>(of_int a :: rat) / of_int b\<rfloor>"
  by (simp add: bdiv_nonneg_eq floor_divide_of_int_eq)

text \<open>
  C39: A share's scaled price is the exact value of the pool's legs per whole share with one final floor, for every mix
  of leg decimals: for a pool with legs and shares issued, reserves that are not negative, positive prices and decimals that are not negative.
\<close>

theorem share_price_exact:
  fixes pool :: stableswap_share_pool and prices decimals :: "int list"
  defines "n \<equiv> length (sp_assetIds pool)"
  assumes len: "0 < n" "length (sp_reserves pool) = n" "length prices = n" "length decimals = n"
    and pos: "0 < sp_totalIssuance pool" "\<forall>r\<in>set (sp_reserves pool). 0 \<le> r" "\<forall>p\<in>set prices. 0 < p"
      "\<forall>d\<in>set decimals. 0 \<le> d" "0 \<le> shareDecimals"
  shows "stableswapSharePriceScaled pool (map Some prices) (map Some decimals) shareDecimals =
    Some \<lfloor>pool_value pool prices decimals * 10 ^ nat shareDecimals / of_int (sp_totalIssuance pool)\<rfloor>"
proof -
  let ?T = "sp_totalIssuance pool" and ?R = "sp_reserves pool"
  let ?D = "foldl (\<lambda>m i. max m (decimals ! i)) 0 [0..<n]"
  let ?f = "\<lambda>i. ?R ! i * prices ! i * 10 ^ nat (?D - decimals ! i)"
  have D: "decimals ! i \<le> ?D" "0 \<le> decimals ! i" if "i < n" for i
    using foldl_max_ge(2) [of i "[0..<n]" "\<lambda>i. decimals ! i" 0] that pos(4) len by auto
  have D0: "0 \<le> ?D" by (rule foldl_max_ge(1))
  have legs: "list_all (\<lambda>i. leg_ok (map Some prices ! i) (map Some decimals ! i)) [0..<n]"
    using len pos by (auto simp: list_all_iff leg_ok_def not_le not_less)
  have eqD: "foldl (\<lambda>m i. max m (the (map Some decimals ! i))) 0 [0..<n] = ?D"
    by (rule foldl_cong) (use len in auto)
  have eqN: "foldl (\<lambda>acc i. acc + ?R ! i * the (map Some prices ! i) * ten_to (?D - the (map Some decimals ! i))) 0 [0..<n]
      = (\<Sum>i<n. ?f i)"
  proof -
    have "foldl (\<lambda>acc i. acc + ?R ! i * the (map Some prices ! i) * ten_to (?D - the (map Some decimals ! i))) 0 [0..<n]
        = foldl (\<lambda>acc i. acc + ?f i) 0 [0..<n]"
    proof (rule foldl_cong)
      fix acc i assume "i \<in> set [0..<n]"
      then have "\<not> ?D < decimals ! i" "i < n" using D(1) [of i] by (auto simp: not_less)
      then show "acc + ?R ! i * the (map Some prices ! i) * ten_to (?D - the (map Some decimals ! i)) = acc + ?f i"
        using len by (simp add: ten_to_def)
    qed simp_all
    then show ?thesis by (simp add: foldl_add_sum)
  qed
  have scaled: "(of_int (?f i) :: rat) = of_int (?R ! i * prices ! i) / 10 ^ nat (decimals ! i) * 10 ^ nat ?D" if "i < n" for i
  proof -
    have "nat ?D = nat (decimals ! i) + nat (?D - decimals ! i)" using D [OF that] by linarith
    then have "(10 :: rat) ^ nat ?D = 10 ^ nat (decimals ! i) * 10 ^ nat (?D - decimals ! i)" by (simp only: power_add)
    then show ?thesis by simp
  qed
  have sum: "(of_int (\<Sum>i<n. ?f i) :: rat) = pool_value pool prices decimals * 10 ^ nat ?D"
    unfolding pool_value_def n_def [symmetric] of_int_sum sum_distrib_right by (rule sum.cong) (use scaled in auto)
  have num0: "0 \<le> (\<Sum>i<n. ?f i) * 10 ^ nat shareDecimals"
  proof (intro mult_nonneg_nonneg sum_nonneg)
    fix i assume "i \<in> {..<n}"
    then have "?R ! i \<in> set ?R" "prices ! i \<in> set prices" using len by auto
    then show "0 \<le> ?R ! i" "0 \<le> prices ! i" using pos by force+
  qed simp_all
  have tens: "ten_to ?D = 10 ^ nat ?D" "ten_to shareDecimals = 10 ^ nat shareDecimals"
    using pos(5) leD [OF D0] by (simp_all add: ten_to_def)
  have den0: "0 < 10 ^ nat ?D * ?T" using pos(1) by simp
  have "stableswapSharePriceScaled pool (map Some prices) (map Some decimals) shareDecimals
      = Some (bdiv ((\<Sum>i<n. ?f i) * 10 ^ nat shareDecimals) (10 ^ nat ?D * ?T))"
    using len pos(1) legs unfolding stableswapSharePriceScaled_def Let_def n_def [symmetric] eqD eqN tens by simp
  also have "bdiv ((\<Sum>i<n. ?f i) * 10 ^ nat shareDecimals) (10 ^ nat ?D * ?T)
      = \<lfloor>(of_int (\<Sum>i<n. ?f i) * 10 ^ nat shareDecimals :: rat) / (10 ^ nat ?D * of_int ?T)\<rfloor>"
    using floor_bdiv [OF num0 den0] by (simp del: of_int_sum)
  also have "\<dots> = \<lfloor>pool_value pool prices decimals * 10 ^ nat shareDecimals / of_int ?T\<rfloor>"
    unfolding sum by simp
  finally show ?thesis .
qed

theorem share_price_exact_witness:
  "stableswapSharePriceScaled \<lparr>sp_poolId = 100, sp_assetIds = [10, 22], sp_reserves = [3000000, 5 * 10 ^ 18], sp_totalIssuance = 7 * 10 ^ 18\<rparr>
     (map Some [100, 99]) (map Some [6, 18]) 18 = Some 113"
proof -
  let ?pool = "\<lparr>sp_poolId = 100, sp_assetIds = [10, 22], sp_reserves = [3000000, 5 * 10 ^ 18], sp_totalIssuance = 7 * 10 ^ 18\<rparr>"
  have v: "pool_value ?pool [100, 99] [6, 18] * 10 ^ nat 18 / of_int (sp_totalIssuance ?pool) = 795 / 7"
    by (simp add: pool_value_def lessThan_Suc eval_nat_numeral)
  have "stableswapSharePriceScaled ?pool (map Some [100, 99]) (map Some [6, 18]) 18
    = Some \<lfloor>pool_value ?pool [100, 99] [6, 18] * 10 ^ nat 18 / of_int (sp_totalIssuance ?pool)\<rfloor>"
    by (rule share_price_exact) auto
  moreover have "\<lfloor>(795 / 7 :: rat)\<rfloor> = 113" by (simp add: floor_eq_iff)
  ultimately show ?thesis unfolding v by simp
qed

section \<open>One leg per position\<close>

fun first_by_id :: "string list \<Rightarrow> historical_owned_position list \<Rightarrow> historical_owned_position list" where
  "first_by_id seen [] = []"
| "first_by_id seen (h # hs) =
     (if ho_positionId h \<in> set seen then first_by_id seen hs
      else h # first_by_id (ho_positionId h # seen) hs)"

definition holds_shares :: "historical_owned_position \<Rightarrow> bool" where
  "holds_shares h \<longleftrightarrow> 0 < dp_shares (ho_state h)"

lemma first_by_id_cong: "set seen = set seen' \<Longrightarrow> first_by_id seen hs = first_by_id seen' hs"
proof (induction hs arbitrary: seen seen')
  case (Cons h hs)
  show ?case using Cons.prems Cons.IH [OF Cons.prems]
      Cons.IH [of "ho_positionId h # seen" "ho_positionId h # seen'"] by (simp only: first_by_id.simps list.set)
qed simp

lemma first_by_id_distinct:
  "distinct (map ho_positionId (first_by_id seen hs)) \<and> set (map ho_positionId (first_by_id seen hs)) \<inter> set seen = {}"
proof (induction hs arbitrary: seen)
  case (Cons h hs)
  then show ?case using Cons [of "ho_positionId h # seen"] by (auto simp del: set_map)
qed simp

lemma bucket_walk:
  "map bl_positionId (bw_legs (foldl bucket_position w hs)) = map bl_positionId (bw_legs w)
      @ map ho_positionId (filter (\<lambda>h. holds_shares h \<and> ho_pool h \<noteq> None) (first_by_id (bw_seen w) hs))
   \<and> bw_unvalued (foldl bucket_position w hs) = bw_unvalued w
      + length (filter (\<lambda>h. holds_shares h \<and> ho_pool h = None) (first_by_id (bw_seen w) hs))"
proof (induction hs arbitrary: w)
  case (Cons h hs)
  have seen: "first_by_id (set_add (ho_positionId h) (bw_seen w)) hs = first_by_id (ho_positionId h # bw_seen w) hs"
    by (rule first_by_id_cong) simp
  consider "ho_positionId h \<in> set (bw_seen w)"
    | "ho_positionId h \<notin> set (bw_seen w)" "\<not> holds_shares h"
    | "ho_positionId h \<notin> set (bw_seen w)" "holds_shares h" "ho_pool h = None"
    | pool where "ho_positionId h \<notin> set (bw_seen w)" "holds_shares h" "ho_pool h = Some pool" by blast
  then show ?case
    by cases (simp_all add: Cons seen bucket_position_def [of w h] Let_def holds_shares_def [of h] split: prod.split)
qed simp

text \<open>Every position held in the bucket is valued once, by its first entry, or counted as not valued.\<close>

lemma positions_valued_once:
  "distinct (map bl_positionId (omnipoolLegsForBucket hs))
   \<and> map bl_positionId (omnipoolLegsForBucket hs)
       = map ho_positionId (filter (\<lambda>h. holds_shares h \<and> ho_pool h \<noteq> None) (first_by_id [] hs))
   \<and> snd (omnipoolBucket hs) = length (filter (\<lambda>h. holds_shares h \<and> ho_pool h = None) (first_by_id [] hs))"
  using bucket_walk [of "\<lparr>bw_legs = [], bw_unvalued = 0, bw_seen = []\<rparr>" hs] first_by_id_distinct [of "[]" hs]
  by (simp add: omnipoolLegsForBucket_def omnipoolBucket_def Let_def distinct_map_filter)

end
