(* ===== verification/Lm_Rewards.thy ===== *)
theory Lm_Rewards
  imports Prelude
begin

text \<open>
  The liquidity-mining reward of a farm entry (\<^verbatim>\<open>src/api/src/services/lmRewardMath.ts\<close>): the runtime's fixed-point
  steps, each floored and refused outside u128, the loyalty curve, and what a claim pays.
\<close>

section \<open>Fixed-point steps\<close>

definition FIXED_ONE :: int where "FIXED_ONE = 10 ^ 18"
definition LM_U128_MAX :: int where "LM_U128_MAX = 2 ^ 128 - 1"

text \<open>\<open>LmMathError\<close>: its message.\<close>

type_synonym 'a lm_result = "string + 'a"

fun lm_bind :: "'a lm_result \<Rightarrow> ('a \<Rightarrow> 'b lm_result) \<Rightarrow> 'b lm_result" where
  "lm_bind (Inl e) f = Inl e"
| "lm_bind (Inr x) f = f x"

definition u128_check :: "int \<Rightarrow> string \<Rightarrow> int lm_result" where
  "u128_check x what = (if x < 0 \<or> x > LM_U128_MAX then Inl (what @ '' outside u128'') else Inr x)"

definition fixedMulInt :: "int \<Rightarrow> int \<Rightarrow> int lm_result" where
  "fixedMulInt fixed n = u128_check (bdiv (fixed * n) FIXED_ONE) ''checked_mul_int''"

definition fixedDiv :: "int \<Rightarrow> int \<Rightarrow> int lm_result" where
  "fixedDiv a b = (if b = 0 then Inl ''division by zero'' else u128_check (bdiv (a * FIXED_ONE) b) ''checked_div'')"

definition fixedFromInt :: "int \<Rightarrow> int lm_result" where
  "fixedFromInt n = u128_check (n * FIXED_ONE) ''from''"

section \<open>Loyalty\<close>

record loyalty_curve =
  initialRewardPercentage :: int
  scaleCoef :: int

definition loyaltyMultiplier :: "int \<Rightarrow> loyalty_curve option \<Rightarrow> int lm_result" where
  "loyaltyMultiplier periods curve =
     (case curve of
        None \<Rightarrow> Inr FIXED_ONE
      | Some lc \<Rightarrow>
          lm_bind (fixedFromInt periods) (\<lambda>t.
          lm_bind (fixedFromInt (scaleCoef lc)) (\<lambda>scale.
          lm_bind (u128_check (bdiv (initialRewardPercentage lc * scale) FIXED_ONE + t) ''loyalty numerator'') (\<lambda>num.
          lm_bind (u128_check (t + scale) ''loyalty denominator'') (\<lambda>den.
          lm_bind (fixedDiv num den) (\<lambda>m.
            if m > FIXED_ONE then Inl ''loyalty multiplier above 1'' else Inr m))))))"

section \<open>Rewards\<close>

definition rewardBetween :: "int \<Rightarrow> int \<Rightarrow> int \<Rightarrow> int lm_result" where
  "rewardBetween rpsStart rpsNow shares =
     (if rpsNow < rpsStart then Inl ''rps went backwards'' else fixedMulInt (rpsNow - rpsStart) shares)"

record user_reward =
  ur_userRewards :: int
  ur_unclaimable :: int
  ur_gross :: int

definition userReward :: "int \<Rightarrow> int \<Rightarrow> int \<Rightarrow> int \<Rightarrow> int \<Rightarrow> user_reward lm_result" where
  "userReward entryRpvs valuedShares claimed rpvsNow loyalty =
     lm_bind (rewardBetween entryRpvs rpvsNow valuedShares) (\<lambda>gross.
       if gross = 0 then Inr \<lparr>ur_userRewards = 0, ur_unclaimable = 0, ur_gross = gross\<rparr>
       else lm_bind (fixedMulInt loyalty gross) (\<lambda>earned.
         if earned < claimed then Inl ''claimed more than earned''
         else Inr \<lparr>ur_userRewards = earned - claimed, ur_unclaimable = gross - earned, ur_gross = gross\<rparr>))"

datatype farm_state = Active | Stopped | Terminated

record yield_farm_data =
  yf_id :: int
  yf_updatedAt :: int
  yf_totalShares :: int
  yf_totalValuedShares :: int
  yf_accumulatedRpvs :: int
  yf_accumulatedRpz :: int
  yf_loyaltyCurve :: "loyalty_curve option"
  yf_multiplier :: int
  yf_state :: farm_state
  yf_entriesCount :: int
  yf_leftToDistribute :: int
  yf_totalStopped :: int

record farm_entry =
  fe_globalFarmId :: int
  fe_yieldFarmId :: int
  fe_valuedShares :: int
  fe_accumulatedRpvs :: int
  fe_accumulatedClaimedRewards :: int
  fe_enteredAt :: int
  fe_updatedAt :: int
  fe_stoppedAtCreation :: int

definition periodOf :: "int \<Rightarrow> int \<Rightarrow> int lm_result" where
  "periodOf relayBlock blocksPerPeriod =
     (if blocksPerPeriod \<le> 0 then Inl ''invalid blocks per period'' else Inr (relayBlock div blocksPerPeriod))"

definition entryPeriods :: "farm_entry \<Rightarrow> yield_farm_data \<Rightarrow> int lm_result" where
  "entryPeriods entry yf =
     (let stoppedSince = yf_totalStopped yf - fe_stoppedAtCreation entry;
          periods = yf_updatedAt yf - fe_enteredAt entry - stoppedSince
      in if stoppedSince < 0 \<or> yf_updatedAt yf < fe_enteredAt entry \<or> periods < 0 then Inl ''invalid entry period''
         else Inr periods)"

record entry_reward =
  er_periods :: int
  er_loyalty :: int
  er_claimable :: int
  er_maxReward :: int
  er_forfeitIfWithdrawnNow :: int

definition entryReward :: "farm_entry \<Rightarrow> yield_farm_data \<Rightarrow> int \<Rightarrow> entry_reward lm_result" where
  "entryReward entry yf rpvsNow =
     (if yf_state yf = Terminated
      then Inr \<lparr>er_periods = 0, er_loyalty = 0, er_claimable = 0, er_maxReward = 0, er_forfeitIfWithdrawnNow = 0\<rparr>
      else
        lm_bind (entryPeriods entry yf) (\<lambda>periods.
        lm_bind (loyaltyMultiplier periods (yf_loyaltyCurve yf)) (\<lambda>loyalty.
        lm_bind (userReward (fe_accumulatedRpvs entry) (fe_valuedShares entry) (fe_accumulatedClaimedRewards entry)
                   rpvsNow loyalty) (\<lambda>r.
          Inr \<lparr>er_periods = periods, er_loyalty = loyalty, er_claimable = ur_userRewards r,
                er_maxReward = ur_gross r - fe_accumulatedClaimedRewards entry,
                er_forfeitIfWithdrawnNow = ur_unclaimable r\<rparr>))))"

section \<open>Facts\<close>

lemma lm_bind_Inr: "lm_bind r f = Inr y \<longleftrightarrow> (\<exists>x. r = Inr x \<and> f x = Inr y)"
  by (cases r) auto

lemma u128_check_Inr: "u128_check x what = Inr y \<longleftrightarrow> y = x \<and> 0 \<le> x \<and> x \<le> LM_U128_MAX"
  by (auto simp: u128_check_def)

lemma FIXED_ONE_pos: "0 < FIXED_ONE"
  by (simp add: FIXED_ONE_def)

lemma fixedMulInt_Inr:
  "0 \<le> a \<Longrightarrow> 0 \<le> n \<Longrightarrow> fixedMulInt a n = Inr y \<longleftrightarrow> y = a * n div FIXED_ONE \<and> a * n div FIXED_ONE \<le> LM_U128_MAX"
  using FIXED_ONE_pos
  by (auto simp: fixedMulInt_def u128_check_Inr bdiv_nonneg_eq pos_imp_zdiv_nonneg_iff)

text \<open>The multiplier as a floored fraction, and the conditions under which the runtime gives it.\<close>

definition loyalty_fraction :: "int \<Rightarrow> loyalty_curve \<Rightarrow> int" where
  "loyalty_fraction t lc =
     (initialRewardPercentage lc * scaleCoef lc + t * FIXED_ONE) * FIXED_ONE div ((t + scaleCoef lc) * FIXED_ONE)"

lemma loyalty_fraction_mono:
  assumes "0 \<le> t" "t \<le> t'" "0 \<le> scaleCoef lc" "0 < t + scaleCoef lc" "initialRewardPercentage lc \<le> FIXED_ONE"
  shows "loyalty_fraction t lc \<le> loyalty_fraction t' lc"
proof -
  let ?i = "initialRewardPercentage lc" and ?s = "scaleCoef lc" and ?F = FIXED_ONE
  note F = FIXED_ONE_pos
  have e: "loyalty_fraction x lc = (?i * ?s + x * ?F) div (x + ?s)" for x
    using F by (simp add: loyalty_fraction_def)
  let ?q = "(?i * ?s + t * ?F) div (t + ?s)"
  have d: "0 < t' + ?s" using assms by linarith
  have q: "?q * (t + ?s) \<le> ?i * ?s + t * ?F"
    using pos_mod_sign [OF assms(4), of "?i * ?s + t * ?F"] div_mult_mod_eq [of "?i * ?s + t * ?F" "t + ?s"] by linarith
  have "?i * ?s \<le> ?F * ?s" using assms(3,5) by (simp add: mult_right_mono)
  then have "?q * (t + ?s) \<le> ?F * (t + ?s)" using q by (simp add: algebra_simps)
  then have qF: "?q \<le> ?F" using assms(4) by (simp add: mult_le_cancel_right)
  have "?q * (t' + ?s) = ?q * (t + ?s) + ?q * (t' - t)" by (simp add: algebra_simps)
  also have "\<dots> \<le> (?i * ?s + t * ?F) + ?F * (t' - t)"
    using q mult_right_mono [OF qF, of "t' - t"] assms(2) by linarith
  also have "\<dots> = ?i * ?s + t' * ?F" by (simp add: algebra_simps)
  finally have "?q * (t' + ?s) div (t' + ?s) \<le> (?i * ?s + t' * ?F) div (t' + ?s)" using d by (rule zdiv_mono1)
  then show ?thesis using d by (simp add: e)
qed


definition curve_ok :: "loyalty_curve option \<Rightarrow> bool" where
  "curve_ok c = (case c of None \<Rightarrow> True
     | Some lc \<Rightarrow> 0 \<le> initialRewardPercentage lc \<and> initialRewardPercentage lc \<le> FIXED_ONE \<and> 0 < scaleCoef lc)"

lemma loyalty_fraction_nonneg:
  assumes "0 \<le> t" "0 \<le> initialRewardPercentage lc" "0 < scaleCoef lc"
  shows "0 \<le> loyalty_fraction t lc"
proof -
  have "0 \<le> (initialRewardPercentage lc * scaleCoef lc + t * FIXED_ONE) * FIXED_ONE" "0 < (t + scaleCoef lc) * FIXED_ONE"
    using assms FIXED_ONE_pos by simp_all
  then show ?thesis unfolding loyalty_fraction_def by (simp only: pos_imp_zdiv_nonneg_iff)
qed

lemma loyaltyMultiplier_Inr:
  assumes "0 \<le> t" "0 \<le> initialRewardPercentage lc" "0 < scaleCoef lc"
  shows "loyaltyMultiplier t (Some lc) = Inr m \<longleftrightarrow>
    m = loyalty_fraction t lc \<and> t * FIXED_ONE \<le> LM_U128_MAX \<and> scaleCoef lc * FIXED_ONE \<le> LM_U128_MAX
    \<and> initialRewardPercentage lc * scaleCoef lc + t * FIXED_ONE \<le> LM_U128_MAX
    \<and> (t + scaleCoef lc) * FIXED_ONE \<le> LM_U128_MAX \<and> m \<le> FIXED_ONE"
proof -
  let ?i = "initialRewardPercentage lc" and ?s = "scaleCoef lc"
  note F = FIXED_ONE_pos
  have F_max: "FIXED_ONE \<le> LM_U128_MAX" by (simp add: FIXED_ONE_def LM_U128_MAX_def)
  have mul: "bdiv (?i * (?s * FIXED_ONE)) FIXED_ONE = ?i * ?s"
    using assms F by (simp add: bdiv_nonneg_eq flip: mult.assoc)
  have den: "t * FIXED_ONE + ?s * FIXED_ONE = (t + ?s) * FIXED_ONE" by (simp add: distrib_right)
  have den_pos: "0 < (t + ?s) * FIXED_ONE" using assms F by simp
  have num_pos: "0 \<le> ?i * ?s + t * FIXED_ONE" using assms F by simp
  have q: "bdiv ((?i * ?s + t * FIXED_ONE) * FIXED_ONE) ((t + ?s) * FIXED_ONE) = loyalty_fraction t lc"
    using num_pos den_pos F by (simp add: bdiv_nonneg_eq loyalty_fraction_def)
  have q0: "0 \<le> loyalty_fraction t lc" by (rule loyalty_fraction_nonneg [OF assms])
  have "0 \<le> t * FIXED_ONE" "0 \<le> ?s * FIXED_ONE" "(t + ?s) * FIXED_ONE \<noteq> 0" using assms F den_pos by simp_all
  then show ?thesis
    using num_pos den_pos q0 F_max
    by (auto simp: loyaltyMultiplier_def fixedFromInt_def fixedDiv_def lm_bind_Inr u128_check_Inr mul den q
        split: if_splits)
qed

lemma multiplier_mono:
  assumes c: "curve_ok c" and t: "0 \<le> t" "t \<le> t'" and m': "loyaltyMultiplier t' c = Inr m'"
  shows "\<exists>m. loyaltyMultiplier t c = Inr m \<and> 0 \<le> m \<and> m \<le> m' \<and> m' \<le> FIXED_ONE"
proof (cases c)
  case None
  then show ?thesis using m' FIXED_ONE_pos by (simp add: loyaltyMultiplier_def)
next
  case (Some lc)
  then have lc: "0 \<le> initialRewardPercentage lc" "initialRewardPercentage lc \<le> FIXED_ONE" "0 < scaleCoef lc"
    using c by (simp_all add: curve_ok_def)
  note F = FIXED_ONE_pos
  have tF: "t * FIXED_ONE \<le> t' * FIXED_ONE" using t F by simp
  have sF: "(t + scaleCoef lc) * FIXED_ONE \<le> (t' + scaleCoef lc) * FIXED_ONE" using t F by simp
  have le: "loyalty_fraction t lc \<le> loyalty_fraction t' lc"
    using t lc by (intro loyalty_fraction_mono) auto
  have "0 \<le> t'" using t by simp
  note m = m' [unfolded Some loyaltyMultiplier_Inr [OF \<open>0 \<le> t'\<close> lc(1,3)]]
  have "loyaltyMultiplier t c = Inr (loyalty_fraction t lc)"
    unfolding Some loyaltyMultiplier_Inr [OF t(1) lc(1,3)] using m tF sF le by auto
  moreover have "0 \<le> loyalty_fraction t lc" by (rule loyalty_fraction_nonneg [OF t(1) lc(1,3)])
  ultimately show ?thesis using m le by auto
qed

definition gross_of :: "farm_entry \<Rightarrow> int \<Rightarrow> int" where
  "gross_of entry rpvs = (rpvs - fe_accumulatedRpvs entry) * fe_valuedShares entry div FIXED_ONE"

definition earned_of :: "farm_entry \<Rightarrow> int \<Rightarrow> int \<Rightarrow> int" where
  "earned_of entry rpvs m = m * gross_of entry rpvs div FIXED_ONE"

lemma gross_nonneg: "0 \<le> fe_valuedShares entry \<Longrightarrow> fe_accumulatedRpvs entry \<le> rpvs \<Longrightarrow> 0 \<le> gross_of entry rpvs"
  using FIXED_ONE_pos by (simp add: gross_of_def pos_imp_zdiv_nonneg_iff)

lemma earned_mono:
  assumes "0 \<le> fe_valuedShares entry" "fe_accumulatedRpvs entry \<le> rpvs" "rpvs \<le> rpvs'" "0 \<le> m" "m \<le> m'"
  shows "gross_of entry rpvs \<le> gross_of entry rpvs'" "earned_of entry rpvs m \<le> earned_of entry rpvs' m'"
proof -
  note F = FIXED_ONE_pos
  have "(rpvs - fe_accumulatedRpvs entry) * fe_valuedShares entry \<le> (rpvs' - fe_accumulatedRpvs entry) * fe_valuedShares entry"
    using assms by (intro mult_right_mono) auto
  then show g: "gross_of entry rpvs \<le> gross_of entry rpvs'" unfolding gross_of_def using F by (rule zdiv_mono1)
  have "m * gross_of entry rpvs \<le> m' * gross_of entry rpvs'"
    using assms g gross_nonneg [OF assms(1,2)] by (intro mult_mono) auto
  then show "earned_of entry rpvs m \<le> earned_of entry rpvs' m'" unfolding earned_of_def using F by (rule zdiv_mono1)
qed

lemma earned_le_gross:
  assumes "0 \<le> fe_valuedShares entry" "fe_accumulatedRpvs entry \<le> rpvs" "0 \<le> m" "m \<le> FIXED_ONE"
  shows "0 \<le> earned_of entry rpvs m" "earned_of entry rpvs m \<le> gross_of entry rpvs"
proof -
  note F = FIXED_ONE_pos and g = gross_nonneg [OF assms(1,2)]
  show "0 \<le> earned_of entry rpvs m" using F g assms(3) by (simp add: earned_of_def pos_imp_zdiv_nonneg_iff)
  have "m * gross_of entry rpvs div FIXED_ONE \<le> FIXED_ONE * gross_of entry rpvs div FIXED_ONE"
    using g assms(4) F by (intro zdiv_mono1 mult_right_mono) auto
  then show "earned_of entry rpvs m \<le> gross_of entry rpvs" using F by (simp add: earned_of_def)
qed

lemma userReward_Inr:
  assumes "0 \<le> fe_valuedShares entry" "0 \<le> m" "m \<le> FIXED_ONE"
  shows "userReward (fe_accumulatedRpvs entry) (fe_valuedShares entry) claimed rpvs m = Inr r \<longleftrightarrow>
    fe_accumulatedRpvs entry \<le> rpvs \<and> gross_of entry rpvs \<le> LM_U128_MAX
    \<and> (if gross_of entry rpvs = 0 then r = \<lparr>ur_userRewards = 0, ur_unclaimable = 0, ur_gross = 0\<rparr>
       else claimed \<le> earned_of entry rpvs m
         \<and> r = \<lparr>ur_userRewards = earned_of entry rpvs m - claimed,
                ur_unclaimable = gross_of entry rpvs - earned_of entry rpvs m, ur_gross = gross_of entry rpvs\<rparr>)"
proof (cases "fe_accumulatedRpvs entry \<le> rpvs")
  case True
  note g0 = gross_nonneg [OF assms(1) True] and e = earned_le_gross [OF assms(1) True assms(2,3)]
  have bd: "bdiv ((rpvs - fe_accumulatedRpvs entry) * fe_valuedShares entry) FIXED_ONE = gross_of entry rpvs"
    "bdiv (m * gross_of entry rpvs) FIXED_ONE = earned_of entry rpvs m"
    using assms True g0 FIXED_ONE_pos by (simp_all add: bdiv_nonneg_eq gross_of_def earned_of_def)
  show ?thesis
  proof (cases "gross_of entry rpvs \<le> LM_U128_MAX")
    case big: True
    have "fixedMulInt (rpvs - fe_accumulatedRpvs entry) (fe_valuedShares entry) = Inr (gross_of entry rpvs)"
      "fixedMulInt m (gross_of entry rpvs) = Inr (earned_of entry rpvs m)"
      using g0 e big by (simp_all add: fixedMulInt_def bd u128_check_def)
    then show ?thesis using True big by (auto simp: userReward_def rewardBetween_def not_less)
  next
    case False
    then have "fixedMulInt (rpvs - fe_accumulatedRpvs entry) (fe_valuedShares entry)
        = Inl (''checked_mul_int'' @ '' outside u128'')"
      by (simp add: fixedMulInt_def bd u128_check_def)
    then show ?thesis using True False by (simp add: userReward_def rewardBetween_def)
  qed
next
  case False
  then show ?thesis by (simp add: userReward_def rewardBetween_def)
qed

section \<open>Claims over time\<close>

text \<open>What a claim leaves of an entry, and the claims made against a series of farm states.\<close>

definition after_claim :: "farm_entry \<Rightarrow> int \<Rightarrow> farm_entry" where
  "after_claim entry paid = entry\<lparr>fe_accumulatedClaimedRewards := fe_accumulatedClaimedRewards entry + paid\<rparr>"

fun claim_all :: "farm_entry \<Rightarrow> yield_farm_data list \<Rightarrow> int lm_result" where
  "claim_all entry [] = Inr 0"
| "claim_all entry (yf # yfs) =
     lm_bind (entryReward entry yf (yf_accumulatedRpvs yf)) (\<lambda>r.
     lm_bind (claim_all (after_claim entry (er_claimable r)) yfs) (\<lambda>rest. Inr (er_claimable r + rest)))"

text \<open>A farm only accumulates: its reward index and its counted periods never fall, and its curve is fixed.\<close>

definition farm_later :: "yield_farm_data \<Rightarrow> yield_farm_data \<Rightarrow> bool" where
  "farm_later yf yf' \<longleftrightarrow> yf_loyaltyCurve yf' = yf_loyaltyCurve yf \<and> yf_accumulatedRpvs yf \<le> yf_accumulatedRpvs yf'
     \<and> yf_updatedAt yf \<le> yf_updatedAt yf' \<and> yf_totalStopped yf \<le> yf_totalStopped yf'
     \<and> yf_updatedAt yf - yf_totalStopped yf \<le> yf_updatedAt yf' - yf_totalStopped yf'"

definition entered_before :: "farm_entry \<Rightarrow> yield_farm_data \<Rightarrow> bool" where
  "entered_before entry yf \<longleftrightarrow> fe_accumulatedRpvs entry \<le> yf_accumulatedRpvs yf
     \<and> fe_enteredAt entry \<le> yf_updatedAt yf \<and> fe_stoppedAtCreation entry \<le> yf_totalStopped yf
     \<and> fe_enteredAt entry - fe_stoppedAtCreation entry \<le> yf_updatedAt yf - yf_totalStopped yf"

abbreviation periods_of :: "farm_entry \<Rightarrow> yield_farm_data \<Rightarrow> int" where
  "periods_of entry yf \<equiv> yf_updatedAt yf - fe_enteredAt entry - (yf_totalStopped yf - fe_stoppedAtCreation entry)"

lemma entryPeriods_entered: "entered_before entry yf \<Longrightarrow> entryPeriods entry yf = Inr (periods_of entry yf)"
  by (auto simp: entered_before_def entryPeriods_def Let_def)

lemma reward_at:
  assumes "yf_state yf \<noteq> Terminated" "entered_before entry yf" "0 \<le> fe_valuedShares entry"
    and m: "loyaltyMultiplier (periods_of entry yf) (yf_loyaltyCurve yf) = Inr m" "0 \<le> m" "m \<le> FIXED_ONE"
    and "gross_of entry (yf_accumulatedRpvs yf) \<le> LM_U128_MAX"
    and c: "0 \<le> fe_accumulatedClaimedRewards entry"
      "fe_accumulatedClaimedRewards entry \<le> earned_of entry (yf_accumulatedRpvs yf) m"
  shows "entryReward entry yf (yf_accumulatedRpvs yf) =
    Inr \<lparr>er_periods = periods_of entry yf, er_loyalty = m,
         er_claimable = earned_of entry (yf_accumulatedRpvs yf) m - fe_accumulatedClaimedRewards entry,
         er_maxReward = gross_of entry (yf_accumulatedRpvs yf) - fe_accumulatedClaimedRewards entry,
         er_forfeitIfWithdrawnNow = gross_of entry (yf_accumulatedRpvs yf) - earned_of entry (yf_accumulatedRpvs yf) m\<rparr>"
proof -
  let ?g = "gross_of entry (yf_accumulatedRpvs yf)" and ?e = "earned_of entry (yf_accumulatedRpvs yf) m"
  have rp: "fe_accumulatedRpvs entry \<le> yf_accumulatedRpvs yf" using assms(2) by (simp add: entered_before_def)
  have "?g = 0 \<Longrightarrow> ?e = 0" by (simp add: earned_of_def)
  then have "userReward (fe_accumulatedRpvs entry) (fe_valuedShares entry) (fe_accumulatedClaimedRewards entry)
      (yf_accumulatedRpvs yf) m
    = Inr \<lparr>ur_userRewards = ?e - fe_accumulatedClaimedRewards entry, ur_unclaimable = ?g - ?e, ur_gross = ?g\<rparr>"
    unfolding userReward_Inr [OF assms(3) m(2,3)] using rp assms(7) c by auto
  then show ?thesis using assms(1) by (simp add: entryReward_def entryPeriods_entered [OF assms(2)] m(1))
qed

lemma entered_later: "entered_before entry yf \<Longrightarrow> farm_later yf yf' \<Longrightarrow> entered_before entry yf'"
  by (auto simp: entered_before_def farm_later_def)

lemma reward_earlier:
  assumes c: "curve_ok (yf_loyaltyCurve yf)" and sh: "0 \<le> fe_valuedShares entry"
    and yf: "yf_state yf \<noteq> Terminated" "entered_before entry yf" and later: "farm_later yf yf'"
    and m': "loyaltyMultiplier (periods_of entry yf') (yf_loyaltyCurve yf') = Inr m'"
    and g': "gross_of entry (yf_accumulatedRpvs yf') \<le> LM_U128_MAX"
  shows "\<exists>m. loyaltyMultiplier (periods_of entry yf) (yf_loyaltyCurve yf) = Inr m \<and> 0 \<le> m \<and> m \<le> m' \<and> m' \<le> FIXED_ONE
    \<and> gross_of entry (yf_accumulatedRpvs yf) \<le> LM_U128_MAX
    \<and> earned_of entry (yf_accumulatedRpvs yf) m \<le> earned_of entry (yf_accumulatedRpvs yf') m'"
proof -
  have p: "0 \<le> periods_of entry yf" "periods_of entry yf \<le> periods_of entry yf'"
    using yf(2) later by (auto simp: entered_before_def farm_later_def)
  have same: "yf_loyaltyCurve yf' = yf_loyaltyCurve yf" and rp: "fe_accumulatedRpvs entry \<le> yf_accumulatedRpvs yf"
    "yf_accumulatedRpvs yf \<le> yf_accumulatedRpvs yf'"
    using yf(2) later by (simp_all add: entered_before_def farm_later_def)
  obtain m where m: "loyaltyMultiplier (periods_of entry yf) (yf_loyaltyCurve yf) = Inr m" "0 \<le> m" "m \<le> m'" "m' \<le> FIXED_ONE"
    using multiplier_mono [OF c p] m' same by auto
  then show ?thesis using earned_mono [OF sh rp m(2,3)] g' by auto
qed

lemma claims_telescope:
  assumes "curve_ok (yf_loyaltyCurve (hd yfs))" "0 \<le> fe_valuedShares entry" "yfs \<noteq> []"
    "\<forall>yf\<in>set yfs. yf_state yf \<noteq> Terminated" "entered_before entry (hd yfs)" "sorted_wrt farm_later yfs"
    "loyaltyMultiplier (periods_of entry (last yfs)) (yf_loyaltyCurve (last yfs)) = Inr m"
    "gross_of entry (yf_accumulatedRpvs (last yfs)) \<le> LM_U128_MAX"
    "0 \<le> fe_accumulatedClaimedRewards entry"
    "\<exists>m. loyaltyMultiplier (periods_of entry (hd yfs)) (yf_loyaltyCurve (hd yfs)) = Inr m
      \<and> fe_accumulatedClaimedRewards entry \<le> earned_of entry (yf_accumulatedRpvs (hd yfs)) m"
  shows "claim_all entry yfs = Inr (earned_of entry (yf_accumulatedRpvs (last yfs)) m - fe_accumulatedClaimedRewards entry)"
  using assms
proof (induction yfs arbitrary: entry)
  case (Cons yf yfs)
  let ?c = "fe_accumulatedClaimedRewards entry"
  have later: "farm_later x x" for x by (simp add: farm_later_def)
  have toL: "farm_later yf (last (yf # yfs))" using Cons.prems(6) later by (auto simp: last_ConsR)
  obtain k where k: "loyaltyMultiplier (periods_of entry yf) (yf_loyaltyCurve yf) = Inr k" "0 \<le> k" "k \<le> m" "m \<le> FIXED_ONE"
    "gross_of entry (yf_accumulatedRpvs yf) \<le> LM_U128_MAX"
    using reward_earlier [OF _ Cons.prems(2) _ _ toL Cons.prems(7,8)] Cons.prems(1,4,5) by auto
  let ?e = "earned_of entry (yf_accumulatedRpvs yf) k"
  have ce: "?c \<le> ?e" using Cons.prems(10) k(1) by auto
  have r: "entryReward entry yf (yf_accumulatedRpvs yf) =
    Inr \<lparr>er_periods = periods_of entry yf, er_loyalty = k, er_claimable = ?e - ?c,
         er_maxReward = gross_of entry (yf_accumulatedRpvs yf) - ?c,
         er_forfeitIfWithdrawnNow = gross_of entry (yf_accumulatedRpvs yf) - ?e\<rparr>"
    by (rule reward_at) (use Cons.prems k ce in auto)
  let ?next = "after_claim entry (?e - ?c)"
  have same: "fe_valuedShares ?next = fe_valuedShares entry" "periods_of ?next x = periods_of entry x"
    "gross_of ?next y = gross_of entry y" "earned_of ?next y j = earned_of entry y j"
    "entered_before ?next x = entered_before entry x" "fe_accumulatedClaimedRewards ?next = ?e" for x y j
    by (simp_all add: after_claim_def gross_of_def earned_of_def entered_before_def)
  show ?case
  proof (cases "yfs = []")
    case True
    then have "k = m" using k(1) Cons.prems(7) by simp
    then show ?thesis using True r by simp
  next
    case False
    have step: "farm_later yf (hd yfs)" using Cons.prems(6) False by auto
    have curve: "yf_loyaltyCurve (hd yfs) = yf_loyaltyCurve yf" using step by (simp add: farm_later_def)
    have hdL: "farm_later (hd yfs) (last yfs)"
      using Cons.prems(6) False later by (cases yfs) (auto split: if_splits)
    have lst: "last (yf # yfs) = last yfs" using False by simp
    have ent: "entered_before entry (hd yfs)" using entered_later [OF _ step] Cons.prems(5) by simp
    obtain h where h: "loyaltyMultiplier (periods_of entry (hd yfs)) (yf_loyaltyCurve (hd yfs)) = Inr h"
      "gross_of entry (yf_accumulatedRpvs (hd yfs)) \<le> LM_U128_MAX"
      using reward_earlier [OF _ Cons.prems(2) _ ent hdL] Cons.prems(1,4,7,8) False curve lst by auto
    have e: "?e \<le> earned_of entry (yf_accumulatedRpvs (hd yfs)) h"
      using reward_earlier [OF _ Cons.prems(2) _ _ step h] Cons.prems(1,4,5) k(1) by auto
    have "claim_all ?next yfs = Inr (earned_of ?next (yf_accumulatedRpvs (last yfs)) m - fe_accumulatedClaimedRewards ?next)"
    proof (rule Cons.IH)
      show "0 \<le> fe_accumulatedClaimedRewards ?next" using ce Cons.prems(9) same(6) by simp
      show "\<exists>m. loyaltyMultiplier (periods_of ?next (hd yfs)) (yf_loyaltyCurve (hd yfs)) = Inr m
          \<and> fe_accumulatedClaimedRewards ?next \<le> earned_of ?next (yf_accumulatedRpvs (hd yfs)) m"
        unfolding same using h(1) e by blast
      show "loyaltyMultiplier (periods_of ?next (last yfs)) (yf_loyaltyCurve (last yfs)) = Inr m"
        unfolding same using Cons.prems(7) lst by simp
    qed (use Cons.prems False curve ent lst in \<open>auto simp: same\<close>)
    then show ?thesis using r False by (simp add: same)
  qed
qed simp

text \<open>
  C20: Claiming early loses nothing: an entry that claims against every state of a farm, however often, is paid in all
  exactly what the last claim alone would have paid, and no earlier claim is refused when that one is not.
\<close>

theorem early_claims_lose_nothing:
  assumes curve: "curve_ok (yf_loyaltyCurve (hd yfs))" and sh: "0 \<le> fe_valuedShares entry"
    and new: "fe_accumulatedClaimedRewards entry = 0"
    and yfs: "yfs \<noteq> []" "\<forall>yf\<in>set yfs. yf_state yf \<noteq> Terminated" "entered_before entry (hd yfs)" "sorted_wrt farm_later yfs"
    and once: "entryReward entry (last yfs) (yf_accumulatedRpvs (last yfs)) = Inr r"
  shows "claim_all entry yfs = Inr (er_claimable r)"
proof -
  let ?yf = "last yfs"
  have later: "farm_later x x" for x by (simp add: farm_later_def)
  have hdL: "farm_later (hd yfs) ?yf" using yfs(1,4) later by (cases yfs) (auto split: if_splits)
  have ent: "entered_before entry ?yf" by (rule entered_later [OF yfs(3) hdL])
  have curveL: "yf_loyaltyCurve ?yf = yf_loyaltyCurve (hd yfs)" using hdL by (simp add: farm_later_def)
  obtain m u where m: "loyaltyMultiplier (periods_of entry ?yf) (yf_loyaltyCurve ?yf) = Inr m"
    and u: "userReward (fe_accumulatedRpvs entry) (fe_valuedShares entry) 0 (yf_accumulatedRpvs ?yf) m = Inr u"
      "er_claimable r = ur_userRewards u"
    using once yfs(1,2) by (auto simp: entryReward_def entryPeriods_entered [OF ent] lm_bind_Inr new)
  have p: "0 \<le> periods_of entry ?yf" using ent by (auto simp: entered_before_def)
  have m01: "0 \<le> m" "m \<le> FIXED_ONE"
    using multiplier_mono [OF _ p order_refl m] curve curveL m by auto
  have rp: "fe_accumulatedRpvs entry \<le> yf_accumulatedRpvs ?yf" using ent by (simp add: entered_before_def)
  have g: "gross_of entry (yf_accumulatedRpvs ?yf) \<le> LM_U128_MAX"
    and paid: "er_claimable r = earned_of entry (yf_accumulatedRpvs ?yf) m"
    using u by (auto simp: userReward_Inr [OF sh m01] earned_of_def split: if_splits)
  have first: "yf_state (hd yfs) \<noteq> Terminated" using yfs(1,2) by simp
  obtain k where k: "loyaltyMultiplier (periods_of entry (hd yfs)) (yf_loyaltyCurve (hd yfs)) = Inr k" "0 \<le> k" "k \<le> FIXED_ONE"
    using reward_earlier [OF curve sh first yfs(3) hdL m g] by auto
  have "0 \<le> earned_of entry (yf_accumulatedRpvs (hd yfs)) k"
    using yfs(3) by (intro earned_le_gross(1) [OF sh _ k(2,3)]) (simp add: entered_before_def)
  then have "claim_all entry yfs = Inr (earned_of entry (yf_accumulatedRpvs ?yf) m - fe_accumulatedClaimedRewards entry)"
    using k(1) by (intro claims_telescope [OF curve sh yfs(1,2,3,4) m g]) (auto simp: new)
  then show ?thesis by (simp add: paid new)
qed

definition sample_farm :: "int \<Rightarrow> int \<Rightarrow> yield_farm_data" where
  "sample_farm at rpvs =
     \<lparr>yf_id = 1, yf_updatedAt = at, yf_totalShares = 10, yf_totalValuedShares = 100, yf_accumulatedRpvs = rpvs,
      yf_accumulatedRpz = 0,
      yf_loyaltyCurve = Some \<lparr>initialRewardPercentage = 500000000000000000, scaleCoef = 100\<rparr>,
      yf_multiplier = FIXED_ONE, yf_state = Active, yf_entriesCount = 1, yf_leftToDistribute = 5, yf_totalStopped = 0\<rparr>"

definition sample_entry :: farm_entry where
  "sample_entry =
     \<lparr>fe_globalFarmId = 1, fe_yieldFarmId = 1, fe_valuedShares = 1000, fe_accumulatedRpvs = 0,
      fe_accumulatedClaimedRewards = 0, fe_enteredAt = 0, fe_updatedAt = 0, fe_stoppedAtCreation = 0\<rparr>"

theorem early_claims_lose_nothing_witness:
  "claim_all sample_entry [sample_farm 10 FIXED_ONE, sample_farm 100 (3 * FIXED_ONE)] = Inr 2250"
proof -
  let ?yfs = "[sample_farm 10 FIXED_ONE, sample_farm 100 (3 * FIXED_ONE)]"
  have "entryReward sample_entry (last ?yfs) (yf_accumulatedRpvs (last ?yfs)) =
    Inr \<lparr>er_periods = 100, er_loyalty = 750000000000000000, er_claimable = 2250, er_maxReward = 3000,
         er_forfeitIfWithdrawnNow = 750\<rparr>"
    by (simp add: entryReward_def sample_farm_def sample_entry_def entryPeriods_def loyaltyMultiplier_def fixedFromInt_def
        u128_check_def fixedDiv_def userReward_def rewardBetween_def fixedMulInt_def bdiv_def FIXED_ONE_def LM_U128_MAX_def)
  from early_claims_lose_nothing [OF _ _ _ _ _ _ _ this] show ?thesis
    by (simp add: sample_farm_def sample_entry_def curve_ok_def FIXED_ONE_def entered_before_def farm_later_def)
qed

end
