(* ===== verification/Account_Identity.thy ===== *)
theory Account_Identity
  imports Lm_Entries Complex_Main
begin

text \<open>
  Who an address is (\<^verbatim>\<open>src/raw/accountIdentity.ts\<close>): the address forms the decoded arguments hold, the
  account an EVM address stands for, and the alias rows that bind the two.

  Decoding an SS58 text is a library call: \<open>ss58 s\<close> is the hexadecimal text of the decoded bytes, \<^const>\<open>None\<close> when the
  decoder throws. A confidence is the rational number the code writes in decimals.
\<close>

section \<open>Address forms\<close>

text \<open>Here, unlike in \<^verbatim>\<open>json.ts\<close>, an empty array counts as bytes.\<close>

definition is_bytes_array :: "json \<Rightarrow> bool" where
  "is_bytes_array v = (case v of JArr xs \<Rightarrow> list_all is_byte xs | _ \<Rightarrow> False)"

definition normalizeHexLike :: "string \<Rightarrow> string option" where
  "normalizeHexLike s =
     (let prefixed = (if starts_with ''0x'' s then s else ''0x'' @ s)
      in if drop 2 prefixed = [] \<or> \<not> list_all is_hex_digit (drop 2 prefixed) then None
         else if odd (length prefixed) then None
         else Some (to_lower prefixed))"

function extractHexLike :: "json \<Rightarrow> string option" where
  "extractHexLike (JStr s) = normalizeHexLike s"
| "extractHexLike (JArr xs) = (if is_bytes_array (JArr xs) then Some (to_lower (toHex (JArr xs))) else None)"
| "extractHexLike (JObj ps) =
     (let nested = (\<lambda>key. case map_of ps key of None \<Rightarrow> None | Some v \<Rightarrow> if is_nullish v then None else extractHexLike v);
          pick = (\<lambda>key rest. case nested key of None \<Rightarrow> rest | Some s \<Rightarrow> Some s)
      in pick ''id'' (pick ''value'' (pick ''address'' (pick ''account'' (pick ''key''
           (pick ''AccountId32'' (pick ''AccountKey20'' None)))))))"
| "extractHexLike JUndefined = None"
| "extractHexLike JNull = None"
| "extractHexLike (JBool b) = None"
| "extractHexLike (JNum n) = None"
| "extractHexLike (JBig n) = None"
  by pat_completeness auto
termination
  by (relation "measure size") (auto dest!: prop_smaller)

definition H160_HEX_LENGTH :: nat where
  "H160_HEX_LENGTH = 42"

definition ACCOUNT_ID_HEX_LENGTH :: nat where
  "ACCOUNT_ID_HEX_LENGTH = 66"

definition normalizeH160 :: "json \<Rightarrow> string option" where
  "normalizeH160 v =
     (case extractHexLike v of None \<Rightarrow> None
      | Some hex \<Rightarrow> if length hex \<noteq> H160_HEX_LENGTH then None else Some hex)"

definition ss58_account :: "(string \<Rightarrow> string option) \<Rightarrow> json \<Rightarrow> string option" where
  "ss58_account ss58 v =
     (case v of
        JStr s \<Rightarrow> if starts_with ''0x'' s then None else
          (case ss58 s of None \<Rightarrow> None
           | Some d \<Rightarrow> if length (to_lower d) = ACCOUNT_ID_HEX_LENGTH then Some (to_lower d) else None)
      | _ \<Rightarrow> None)"

definition normalizeAccountId :: "(string \<Rightarrow> string option) \<Rightarrow> json \<Rightarrow> string option" where
  "normalizeAccountId ss58 v =
     (case extractHexLike v of
        Some hex \<Rightarrow> if length hex = ACCOUNT_ID_HEX_LENGTH then Some hex else ss58_account ss58 v
      | None \<Rightarrow> ss58_account ss58 v)"

definition ETH_PREFIX_HEX :: string where
  "ETH_PREFIX_HEX = ''45544800''"

definition EVM_ACCOUNT_SUFFIX_HEX :: string where
  "EVM_ACCOUNT_SUFFIX_HEX = ''0000000000000000''"

definition deriveTruncatedAccountId :: "string \<Rightarrow> string + string" where
  "deriveTruncatedAccountId evmAddress =
     (case normalizeH160 (JStr evmAddress) of
        None \<Rightarrow> Inl (''Cannot derive truncated AccountId32 from invalid H160: '' @ evmAddress)
      | Some h160 \<Rightarrow> Inr (to_lower (''0x'' @ ETH_PREFIX_HEX @ drop 2 h160 @ EVM_ACCOUNT_SUFFIX_HEX)))"

definition primaryProfileForEvmAddress :: "string \<Rightarrow> string + string" where
  "primaryProfileForEvmAddress evmAddress =
     (case normalizeH160 (JStr evmAddress) of
        None \<Rightarrow> Inl (''Cannot create EVM profile for invalid H160: '' @ evmAddress)
      | Some h160 \<Rightarrow> Inr (''evm:'' @ h160))"

section \<open>Alias rows\<close>

text \<open>The part of a decoded event the handlers read.\<close>

record raw_event =
  rev_block :: int
  rev_index :: int
  rev_extrinsicIndex :: "int option"
  rev_callAddress :: "int list option"
  rev_name :: "string option"
  rev_args :: json

record alias_row =
  al_block_height :: int
  al_block_timestamp :: string
  al_event_index :: "int option"
  al_extrinsic_index :: "int option"
  al_account_id :: "string option"
  al_alias_type :: string
  al_alias_value :: string
  al_evm_address :: "string option"
  al_primary_profile :: string
  al_relationship :: string
  al_evidence :: json
  al_confidence :: rat
  al_ingest_source :: string

record alias_context =
  ax_blockHeight :: int
  ax_blockTimestamp :: string
  ax_eventIndex :: "int option"
  ax_extrinsicIndex :: "int option"
  ax_ingestSource :: string
  ax_evidence :: json

definition aliasRow ::
  "alias_context \<Rightarrow> string option \<Rightarrow> string \<Rightarrow> string \<Rightarrow> string option \<Rightarrow> string \<Rightarrow> rat \<Rightarrow> string + alias_row" where
  "aliasRow cx accountId aliasType aliasValue evmAddress relationship confidence =
     or_fail (case evmAddress of None \<Rightarrow> Inr (''substrate:'' @ aliasValue) | Some a \<Rightarrow> primaryProfileForEvmAddress a)
       (\<lambda>profile. Inr \<lparr>al_block_height = ax_blockHeight cx, al_block_timestamp = ax_blockTimestamp cx,
          al_event_index = ax_eventIndex cx, al_extrinsic_index = ax_extrinsicIndex cx, al_account_id = accountId,
          al_alias_type = aliasType, al_alias_value = aliasValue, al_evm_address = evmAddress,
          al_primary_profile = profile, al_relationship = relationship, al_evidence = toJsonString (ax_evidence cx),
          al_confidence = confidence, al_ingest_source = ax_ingestSource cx\<rparr>)"

definition aliasRowsForEvmAddress :: "string \<Rightarrow> alias_context \<Rightarrow> string \<Rightarrow> rat \<Rightarrow> string + alias_row list" where
  "aliasRowsForEvmAddress evmAddress cx relationship confidence =
     (case normalizeH160 (JStr evmAddress) of None \<Rightarrow> Inr []
      | Some h160 \<Rightarrow>
          or_fail (deriveTruncatedAccountId h160) (\<lambda>accountId.
          or_fail (aliasRow cx (Some accountId) ''evm_address'' h160 (Some h160) relationship confidence) (\<lambda>r1.
          or_fail (aliasRow cx (Some accountId) ''evm_truncated_account_id'' accountId (Some h160) ''runtime_truncated'' confidence)
            (\<lambda>r2. Inr [r1, r2]))))"

text \<open>\<open>v ?? w\<close> on JSON values, and a value that is \<open>null\<close> where it is missing.\<close>

definition json_or :: "json \<Rightarrow> json \<Rightarrow> json" where
  "json_or v w = (if is_nullish v then w else v)"

definition json_of_int :: "int option \<Rightarrow> json" where
  "json_of_int n = (case n of None \<Rightarrow> JNull | Some i \<Rightarrow> JNum i)"

definition json_of_name :: "string option \<Rightarrow> json" where
  "json_of_name n = (case n of None \<Rightarrow> JUndefined | Some s \<Rightarrow> JStr s)"

definition name_or_empty :: "string option \<Rightarrow> string" where
  "name_or_empty n = (case n of None \<Rightarrow> [] | Some s \<Rightarrow> s)"

definition bound_context :: "raw_event \<Rightarrow> string \<Rightarrow> string \<Rightarrow> alias_context" where
  "bound_context e blockTimestamp ingestSource =
     \<lparr>ax_blockHeight = rev_block e, ax_blockTimestamp = blockTimestamp, ax_eventIndex = Some (rev_index e),
      ax_extrinsicIndex = rev_extrinsicIndex e, ax_ingestSource = ingestSource,
      ax_evidence = JObj [(''event'', json_of_name (rev_name e)), (''args'', json_or (rev_args e) JNull),
        (''reference'', JStr ''hydration-node pallet-evm-accounts Bound event'')]\<rparr>"

definition bound_account :: "(string \<Rightarrow> string option) \<Rightarrow> json \<Rightarrow> string option" where
  "bound_account ss58 args =
     normalizeAccountId ss58 (json_or (get_prop args ''account'') (json_or (get_prop args ''who'') (get_prop args ''owner'')))"

definition bound_address :: "json \<Rightarrow> string option" where
  "bound_address args =
     normalizeH160 (json_or (get_prop args ''address'') (json_or (get_prop args ''evmAddress'') (get_prop args ''evm_address'')))"

definition aliasRowsForBoundEvent ::
  "(string \<Rightarrow> string option) \<Rightarrow> raw_event \<Rightarrow> string \<Rightarrow> string \<Rightarrow> string + alias_row list" where
  "aliasRowsForBoundEvent ss58 e blockTimestamp ingestSource =
     (if name_or_empty (rev_name e) \<noteq> ''EVMAccounts.Bound'' \<and> name_or_empty (rev_name e) \<noteq> ''EvmAccounts.Bound'' then Inr []
      else case (bound_account ss58 (rev_args e), bound_address (rev_args e)) of
        (Some accountId, Some evmAddress) \<Rightarrow>
          (let cx = bound_context e blockTimestamp ingestSource in
           or_fail (deriveTruncatedAccountId evmAddress) (\<lambda>truncated.
           or_fail (aliasRow cx (Some accountId) ''substrate_account_id'' accountId (Some evmAddress) ''explicit_binding'' 1) (\<lambda>r1.
           or_fail (aliasRow cx (Some accountId) ''evm_address'' evmAddress (Some evmAddress) ''explicit_binding'' 1) (\<lambda>r2.
           or_fail (aliasRow cx (Some truncated) ''evm_truncated_account_id'' truncated (Some evmAddress) ''runtime_truncated'' (19 / 20))
             (\<lambda>r3. Inr [r1, r2, r3])))))
      | _ \<Rightarrow> Inr [])"

text \<open>The parts of the key are separated by the NUL character.\<close>

definition alias_key :: "alias_row \<Rightarrow> string" where
  "alias_key r =
     int_to_string (al_block_height r) @ [CHR 0x00] @ al_primary_profile r @ [CHR 0x00] @ al_alias_type r @ [CHR 0x00] @ al_alias_value r"

definition dedupe_step :: "(string, alias_row) jsmap \<Rightarrow> alias_row \<Rightarrow> (string, alias_row) jsmap" where
  "dedupe_step best row =
     (case map_of best (alias_key row) of
        None \<Rightarrow> map_set (alias_key row) row best
      | Some held \<Rightarrow> if al_confidence held < al_confidence row then map_set (alias_key row) row best else best)"

definition dedupeAliasRows :: "alias_row list \<Rightarrow> alias_row list" where
  "dedupeAliasRows rows = map snd (foldl dedupe_step [] rows)"

definition participant_context :: "int \<Rightarrow> string \<Rightarrow> int \<Rightarrow> string \<Rightarrow> int option \<Rightarrow> alias_context" where
  "participant_context blockHeight blockTimestamp sourceEventIndex ingestSource sourceExtrinsicIndex =
     \<lparr>ax_blockHeight = blockHeight, ax_blockTimestamp = blockTimestamp, ax_eventIndex = Some sourceEventIndex,
      ax_extrinsicIndex = sourceExtrinsicIndex, ax_ingestSource = ingestSource,
      ax_evidence = JObj [(''source'', JStr ''EVM.Log participant''), (''event_index'', JNum sourceEventIndex),
        (''extrinsic_index'', json_of_int sourceExtrinsicIndex)]\<rparr>"

fun participant_rows :: "alias_context \<Rightarrow> string list \<Rightarrow> string list \<Rightarrow> string + alias_row list" where
  "participant_rows cx seen [] = Inr []"
| "participant_rows cx seen (address # rest) =
     (case normalizeH160 (JStr address) of
        None \<Rightarrow> participant_rows cx seen rest
      | Some h160 \<Rightarrow>
          if h160 \<in> set seen then participant_rows cx seen rest
          else or_fail (aliasRowsForEvmAddress h160 cx ''observed_evm_log_participant'' (4 / 5)) (\<lambda>rows.
               or_fail (participant_rows cx (set_add h160 seen) rest) (\<lambda>more. Inr (rows @ more))))"

definition aliasRowsForEvmParticipants ::
  "string list \<Rightarrow> int \<Rightarrow> string \<Rightarrow> int \<Rightarrow> string \<Rightarrow> int option \<Rightarrow> string + alias_row list" where
  "aliasRowsForEvmParticipants evmAddresses blockHeight blockTimestamp sourceEventIndex ingestSource sourceExtrinsicIndex =
     participant_rows (participant_context blockHeight blockTimestamp sourceEventIndex ingestSource sourceExtrinsicIndex) []
       evmAddresses"

section \<open>Address forms are hexadecimal text\<close>

definition hex_form :: "string \<Rightarrow> bool" where
  "hex_form h \<longleftrightarrow> starts_with ''0x'' h \<and> list_all is_lower_hex (drop 2 h) \<and> even (length h) \<and> 2 \<le> length h"

lemma hex_form_0x: "hex_form h \<Longrightarrow> h = ''0x'' @ drop 2 h"
  unfolding hex_form_def starts_with_def by (metis append_take_drop_id length_Cons list.size(3) One_nat_def Suc_1)

lemma lower_char_hex: "is_hex_digit c \<Longrightarrow> is_lower_hex (lower_char c)"
  by (auto simp: is_lower_hex_def is_hex_digit_def digit_val_def of_char_lower Let_def split: if_splits)

lemma to_lower_hex: "list_all is_hex_digit s \<Longrightarrow> list_all is_lower_hex (to_lower s)"
  by (auto simp: to_lower_def list_all_iff lower_char_hex)

lemma to_lower_lower: "list_all is_lower_hex s \<Longrightarrow> to_lower s = s"
  by (auto simp: to_lower_def list_all_iff is_lower_hex_def intro: map_idI)

lemma lower_hex_hex: "list_all is_lower_hex s \<Longrightarrow> list_all is_hex_digit s"
  by (auto simp: list_all_iff is_lower_hex_def)

lemma lower_0x [simp]: "to_lower (CHR ''0'' # CHR ''x'' # s) = CHR ''0'' # CHR ''x'' # to_lower s"
  by (simp add: to_lower_def lower_char_def)

lemma starts_0x_iff: "starts_with ''0x'' s \<longleftrightarrow> (\<exists>t. s = CHR ''0'' # CHR ''x'' # t)"
  unfolding starts_with_def by (cases s; cases "tl s") auto

lemma normalizeHexLike_form: "normalizeHexLike s = Some h \<Longrightarrow> hex_form h"
  by (auto simp: normalizeHexLike_def hex_form_def Let_def starts_0x_iff to_lower_hex split: if_splits)

lemma normalizeHexLike_id: "hex_form h \<Longrightarrow> 2 < length h \<Longrightarrow> normalizeHexLike h = Some h"
  by (auto simp: normalizeHexLike_def hex_form_def starts_0x_iff to_lower_lower lower_hex_hex)

lemma hex_digit_char: "d < 16 \<Longrightarrow> is_lower_hex (digit_char d)"
  by (auto simp: is_lower_hex_def is_hex_digit_def lower_char_def digit_char_def Let_def of_char_of digit_val_def)

lemma hex_digits_lower [simp]:
  "is_lower_hex (CHR ''0'')" "is_lower_hex (CHR ''4'')" "is_lower_hex (CHR ''5'')" "is_lower_hex (CHR ''8'')"
  by code_simp+

lemma nat_to_hex_lower: "list_all is_lower_hex (nat_to_base 16 n)"
proof (induction n rule: less_induct)
  case (less n)
  then show ?case using hex_digit_char [of n] hex_digit_char [of "n mod 16"]
    by (cases "n < 16") (simp_all add: nat_to_base.simps [of 16 n])
qed

lemma byte_hex_form: "is_byte v \<Longrightarrow> list_all is_lower_hex (byte_hex v) \<and> length (byte_hex v) = 2"
proof -
  assume "is_byte v"
  then obtain n where v: "v = JNum n" "0 \<le> n" "n \<le> 255" by (cases v) (auto simp: is_byte_def)
  have "length (nat_to_base 16 (nat n)) \<le> 2"
    using v by (simp add: nat_to_base.simps [of 16 "nat n"] nat_to_base.simps [of 16 "nat n div 16"])
  then show ?thesis using v nat_to_hex_lower [of "nat n"] by (auto simp: byte_hex_def pad_start_def list_all_iff)
qed

lemma bytes_hex_form:
  assumes "list_all is_byte xs"
  shows "list_all is_lower_hex (concat (map byte_hex xs)) \<and> length (concat (map byte_hex xs)) = 2 * length xs"
  using assms byte_hex_form by (induction xs) auto

lemma pick_iff:
  "(case x of None \<Rightarrow> rest | Some s \<Rightarrow> Some s) = Some h \<longleftrightarrow> x = Some h \<or> x = None \<and> rest = Some h"
  by (cases x) auto

lemma extractHexLike_form: "extractHexLike v = Some h \<Longrightarrow> hex_form h"
proof (induction v arbitrary: h rule: extractHexLike.induct)
  case (1 s)
  then show ?case by (simp add: normalizeHexLike_form)
next
  case (2 xs)
  then have "list_all is_byte xs" "h = to_lower (toHex (JArr xs))" by (auto simp: is_bytes_array_def split: if_splits)
  with bytes_hex_form [of xs] show ?case by (auto simp: hex_form_def toHex_def starts_with_def to_lower_lower)
next
  case (3 ps)
  have "(case map_of ps key of None \<Rightarrow> None | Some v \<Rightarrow> if is_nullish v then None else extractHexLike v) = Some h \<Longrightarrow> hex_form h"
    for key h
    by (auto split: option.splits if_splits intro: 3(1))
  with 3(2) show ?case unfolding extractHexLike.simps Let_def pick_iff by blast
qed simp_all

lemma normalizeH160_form: "normalizeH160 v = Some h \<Longrightarrow> hex_form h \<and> length h = 42"
  by (auto simp: normalizeH160_def H160_HEX_LENGTH_def extractHexLike_form split: option.splits if_splits)

lemma normalizeH160_id: "hex_form h \<Longrightarrow> length h = 42 \<Longrightarrow> normalizeH160 (JStr h) = Some h"
  by (simp add: normalizeH160_def H160_HEX_LENGTH_def normalizeHexLike_id)

lemma normalizeAccountId_id: "hex_form h \<Longrightarrow> length h = 66 \<Longrightarrow> normalizeAccountId ss58 (JStr h) = Some h"
  by (simp add: normalizeAccountId_def ACCOUNT_ID_HEX_LENGTH_def normalizeHexLike_id)

lemma derive_form:
  assumes "hex_form h" "length h = 42"
  shows "deriveTruncatedAccountId h = Inr (''0x45544800'' @ drop 2 h @ ''0000000000000000'')"
proof -
  have "to_lower (''0x'' @ ETH_PREFIX_HEX @ drop 2 h @ EVM_ACCOUNT_SUFFIX_HEX) =
      ''0x45544800'' @ to_lower (drop 2 h) @ ''0000000000000000''"
    by (simp add: ETH_PREFIX_HEX_def EVM_ACCOUNT_SUFFIX_HEX_def) (simp add: to_lower_def lower_char_def)
  then show ?thesis using assms by (simp add: deriveTruncatedAccountId_def normalizeH160_id to_lower_lower hex_form_def)
qed

text \<open>
  One account for an EVM address. Whatever form the address arrives in, the account derived from its normal form is the one
  \<open>evmAccountForm\<close> gives, it reads back as itself, and the address is found in it again.
\<close>

lemma truncated_account_roundtrip:
  assumes "normalizeH160 v = Some h"
  shows "\<exists>acc. deriveTruncatedAccountId h = Inr acc \<and> evmAccountForm (JStr h) = Some acc
    \<and> normalizeAccountId ss58 (JStr acc) = Some acc \<and> h = ''0x'' @ take 40 (drop 10 acc)"
proof -
  have h: "hex_form h" "length h = 42" using normalizeH160_form [OF assms] by auto
  obtain b where b: "h = ''0x'' @ b" using hex_form_0x [OF h(1)] by blast
  have lb: "list_all is_lower_hex b" "length b = 40" using h b by (auto simp: hex_form_def)
  have "hex_form (''0x45544800'' @ b @ ''0000000000000000'')" using lb by (simp add: hex_form_def starts_with_def)
  then have "normalizeAccountId ss58 (JStr (''0x45544800'' @ b @ ''0000000000000000'')) = Some (''0x45544800'' @ b @ ''0000000000000000'')"
    using lb by (intro normalizeAccountId_id) simp_all
  moreover have "evmAccountForm (JStr h) = Some (''0x45544800'' @ b @ ''0000000000000000'')"
    using lb b by (simp add: evmAccountForm_def strip_0x_def starts_with_def to_lower_lower)
  moreover have "deriveTruncatedAccountId h = Inr (''0x45544800'' @ b @ ''0000000000000000'')"
    using derive_form [OF h] b by simp
  ultimately show ?thesis using b lb by simp
qed

section \<open>Alias rows never throw\<close>

lemma aliasRow_evm:
  assumes "hex_form h" "length h = 42"
  shows "aliasRow cx acc ty val (Some h) rel conf =
    Inr \<lparr>al_block_height = ax_blockHeight cx, al_block_timestamp = ax_blockTimestamp cx, al_event_index = ax_eventIndex cx,
      al_extrinsic_index = ax_extrinsicIndex cx, al_account_id = acc, al_alias_type = ty, al_alias_value = val,
      al_evm_address = Some h, al_primary_profile = ''evm:'' @ h, al_relationship = rel,
      al_evidence = toJsonString (ax_evidence cx), al_confidence = conf, al_ingest_source = ax_ingestSource cx\<rparr>"
  using assms by (simp add: aliasRow_def primaryProfileForEvmAddress_def normalizeH160_id or_fail_def)

lemma or_fail_Inr [simp]: "or_fail (Inr x) k = k x" "or_fail (Inl e) k = Inl e"
  by (simp_all add: or_fail_def)

definition good_alias :: "alias_row \<Rightarrow> bool" where
  "good_alias r \<longleftrightarrow> (\<exists>h. al_evm_address r = Some h \<and> hex_form h \<and> length h = 42 \<and> al_primary_profile r = ''evm:'' @ h)
     \<and> al_alias_type r \<in> {''substrate_account_id'', ''evm_address'', ''evm_truncated_account_id''}
     \<and> al_confidence r \<le> 1 \<and> (al_confidence r = 1 \<longleftrightarrow> al_relationship r = ''explicit_binding'')"

lemma bound_rows:
  "\<exists>rows. aliasRowsForBoundEvent ss58 e ts src = Inr rows \<and> (\<forall>r \<in> set rows. good_alias r)"
proof (cases "bound_account ss58 (rev_args e)")
  case None
  then show ?thesis by (simp add: aliasRowsForBoundEvent_def)
next
  case (Some acc)
  show ?thesis
  proof (cases "bound_address (rev_args e)")
    case None
    with Some show ?thesis by (simp add: aliasRowsForBoundEvent_def)
  next
    case h: (Some h)
    then have f: "hex_form h" "length h = 42" using normalizeH160_form by (auto simp: bound_address_def)
    show ?thesis using f
      by (auto simp: aliasRowsForBoundEvent_def Some h Let_def derive_form aliasRow_evm good_alias_def)
  qed
qed

lemma evm_address_rows:
  assumes "rel \<noteq> ''explicit_binding''" "conf < 1"
  shows "\<exists>rows. aliasRowsForEvmAddress a cx rel conf = Inr rows \<and> (\<forall>r \<in> set rows. good_alias r)"
proof (cases "normalizeH160 (JStr a)")
  case (Some h)
  then have "hex_form h" "length h = 42" using normalizeH160_form by blast+
  then show ?thesis using assms Some
    by (auto simp: aliasRowsForEvmAddress_def derive_form aliasRow_evm good_alias_def)
qed (simp add: aliasRowsForEvmAddress_def)

lemma participant_rows_ok: "\<exists>rows. participant_rows cx seen as = Inr rows \<and> (\<forall>r \<in> set rows. good_alias r)"
proof (induction as arbitrary: seen)
  case (Cons a as)
  show ?case
  proof (cases "normalizeH160 (JStr a)")
    case None
    then show ?thesis using Cons by simp
  next
    case (Some h)
    obtain rs where rs: "aliasRowsForEvmAddress h cx ''observed_evm_log_participant'' (4 / 5) = Inr rs" "\<forall>r \<in> set rs. good_alias r"
      using evm_address_rows [of "''observed_evm_log_participant''" "4 / 5" h cx] by auto
    obtain more where "participant_rows cx (set_add h seen) as = Inr more" "\<forall>r \<in> set more. good_alias r"
      using Cons by blast
    then show ?thesis using Some rs Cons [of seen] by auto
  qed
qed simp

section \<open>The strongest evidence of a key\<close>

text \<open>The earliest of the rows of a key with the greatest confidence.\<close>

definition strongest :: "alias_row list \<Rightarrow> alias_row \<Rightarrow> bool" where
  "strongest rows r \<longleftrightarrow> (\<exists>i < length rows. rows ! i = r \<and>
     (\<forall>j < length rows. alias_key (rows ! j) = alias_key r \<longrightarrow>
        al_confidence (rows ! j) \<le> al_confidence r \<and> (j < i \<longrightarrow> al_confidence (rows ! j) < al_confidence r)))"

lemma strongest_other:
  assumes "strongest rows r" "alias_key x \<noteq> alias_key r \<or> al_confidence x \<le> al_confidence r"
  shows "strongest (rows @ [x]) r"
proof -
  obtain i where i: "i < length rows" "rows ! i = r"
    "\<And>j. j < length rows \<Longrightarrow> alias_key (rows ! j) = alias_key r \<Longrightarrow>
      al_confidence (rows ! j) \<le> al_confidence r \<and> (j < i \<longrightarrow> al_confidence (rows ! j) < al_confidence r)"
    using assms(1) by (auto simp: strongest_def)
  show ?thesis unfolding strongest_def
    by (rule exI [of _ i]) (use i assms(2) in \<open>auto simp: nth_append less_Suc_eq\<close>)
qed

lemma strongest_last:
  assumes "\<And>y. y \<in> set rows \<Longrightarrow> alias_key y = alias_key x \<Longrightarrow> al_confidence y < al_confidence x"
  shows "strongest (rows @ [x]) x"
  unfolding strongest_def
  by (rule exI [of _ "length rows"]) (auto simp: nth_append less_Suc_eq intro!: less_imp_le [OF assms] assms)

lemma strongest_bound: "strongest rows r \<Longrightarrow> y \<in> set rows \<Longrightarrow> alias_key y = alias_key r \<Longrightarrow> al_confidence y \<le> al_confidence r"
  by (auto simp: strongest_def in_set_conv_nth)

lemma strongest_in: "strongest rows r \<Longrightarrow> r \<in> set rows"
  by (auto simp: strongest_def)

lemma js_unique_snoc: "js_unique (xs @ [x]) = set_add x (js_unique xs)"
  by (simp add: js_unique_def)

lemma map_set_keys_list: "map_keys (map_set k v m) = set_add k (map_keys m)"
  by (induction m) (auto simp: set_add_def)

lemma dedupe_fold:
  "map_keys (foldl dedupe_step [] rows) = js_unique (map alias_key rows) \<and>
   (\<forall>(k, r) \<in> set (foldl dedupe_step [] rows). alias_key r = k \<and> strongest rows r)"
proof (induction rows rule: rev_induct)
  case Nil
  show ?case by (simp add: js_unique_def)
next
  case (snoc x rows)
  define m where "m = foldl dedupe_step [] rows"
  have keys: "map_keys m = js_unique (map alias_key rows)"
    and ok: "\<And>k r. (k, r) \<in> set m \<Longrightarrow> alias_key r = k \<and> strongest rows r" using snoc by (auto simp: m_def)
  have step: "foldl dedupe_step [] (rows @ [x]) = dedupe_step m x" by (simp add: m_def)
  have wf: "map_wf m" using keys by simp
  show ?case
  proof (cases "map_of m (alias_key x)")
    case None
    then have new: "alias_key x \<notin> set (map alias_key rows)" using keys by (metis map_of_eq_None_iff set_js_unique set_map)
    then have st: "strongest (rows @ [x]) x" by (intro strongest_last) (metis image_eqI set_map)
    have "alias_key x \<noteq> k" if "(k, r) \<in> set m" for k r
      using ok [OF that] new by (auto dest!: strongest_in)
    then show ?thesis using None keys st ok unfolding step
      by (auto simp: dedupe_step_def js_unique_snoc map_set_keys_list dest!: subsetD [OF map_set_entries] intro!: strongest_other)
  next
    case (Some held)
    have held: "alias_key held = alias_key x" "strongest rows held" using ok [OF map_of_in_set [OF Some]] by auto
    have only: "r = held" if "(alias_key x, r) \<in> set m" for r using that wf Some by simp
    have keep: "strongest (rows @ [x]) r" if "(k, r) \<in> set m" "k \<noteq> alias_key x \<or> al_confidence x \<le> al_confidence held" for k r
    proof -
      have "alias_key x \<noteq> alias_key r \<or> al_confidence x \<le> al_confidence r" using ok [OF that(1)] that only by metis
      then show ?thesis using ok [OF that(1)] by (intro strongest_other) auto
    qed
    have hk: "alias_key x \<in> set (map_keys m)" using Some by (metis list.set_map map_of_eq_None_iff option.distinct(1))
    show ?thesis
    proof (cases "al_confidence held < al_confidence x")
      case True
      have "strongest (rows @ [x]) x"
        by (intro strongest_last) (use strongest_bound [OF held(2)] held(1) True in fastforce)
      moreover have "alias_key r = k \<and> strongest (rows @ [x]) r" if kr: "(k, r) \<in> set (map_set (alias_key x) x m)" for k r
      proof (cases "k = alias_key x")
        case True
        then have "r = x" using kr map_wf_set [OF wf, of "alias_key x" x] by (metis eq_key_imp_eq_value map_get_set map_of_in_set)
        with True calculation show ?thesis by simp
      next
        case False
        then have "(k, r) \<in> set m" using kr map_set_entries [of "alias_key x" x m] by auto
        with False keep ok show ?thesis by blast
      qed
      moreover have "dedupe_step m x = map_set (alias_key x) x m" using True Some by (simp add: dedupe_step_def)
      ultimately show ?thesis using keys unfolding step by (auto simp: js_unique_snoc map_set_keys_list)
    next
      case False
      then show ?thesis using Some keys ok keep hk unfolding step by (auto simp: dedupe_step_def js_unique_snoc set_add_def)
    qed
  qed
qed

text \<open>
  The strongest evidence of a key survives. The rows kept carry each key of the input once, in the order the keys first
  appear, and the row kept for a key is the earliest of those with the greatest confidence.
\<close>

lemma dedupe_keeps_strongest:
  "map alias_key (dedupeAliasRows rows) = js_unique (map alias_key rows) \<and>
   (\<forall>r \<in> set (dedupeAliasRows rows). strongest rows r)"
proof -
  define m where "m = foldl dedupe_step [] rows"
  have m: "map_keys m = js_unique (map alias_key rows)" "\<forall>(k, r) \<in> set m. alias_key r = k \<and> strongest rows r"
    using dedupe_fold [of rows] by (auto simp: m_def)
  from m(2) have "map alias_key (map snd m) = map_keys m" by (induction m) auto
  with m show ?thesis by (auto simp: dedupeAliasRows_def m_def [symmetric])
qed

text \<open>The text of a key names its four parts.\<close>

lemma int_to_string_no_nul: "CHR 0x00 \<notin> set (int_to_string i)"
proof -
  have "\<not> is_dec_digit (CHR 0x00)" by code_simp
  then have "CHR 0x00 \<notin> set (nat_to_string n)" for n using nat_to_string_digits [of "CHR 0x00" n] by auto
  then show ?thesis by (simp add: int_to_string_def)
qed

lemma hex_form_no_nul: "hex_form h \<Longrightarrow> CHR 0x00 \<notin> set h"
proof -
  assume h: "hex_form h"
  have "\<not> is_lower_hex (CHR 0x00)" by code_simp
  then have "CHR 0x00 \<notin> set (drop 2 h)" using h by (auto simp: hex_form_def list_all_iff)
  moreover obtain t where "h = ''0x'' @ t" using hex_form_0x [OF h] by blast
  ultimately show ?thesis by simp
qed

lemma alias_key_inj:
  assumes "good_alias r" "good_alias r'" "alias_key r = alias_key r'"
  shows "al_block_height r = al_block_height r'" "al_primary_profile r = al_primary_profile r'"
    "al_alias_type r = al_alias_type r'" "al_alias_value r = al_alias_value r'"
proof -
  have sp: "CHR 0x00 \<notin> set (al_primary_profile q)" "CHR 0x00 \<notin> set (al_alias_type q)" if "good_alias q" for q
    using that hex_form_no_nul by (auto simp: good_alias_def)
  have k: "int_to_string (al_block_height r) @ CHR 0x00 # (al_primary_profile r @ CHR 0x00 # (al_alias_type r @ CHR 0x00 # al_alias_value r)) =
      int_to_string (al_block_height r') @ CHR 0x00 # (al_primary_profile r' @ CHR 0x00 # (al_alias_type r' @ CHR 0x00 # al_alias_value r'))"
    using assms(3) by (simp add: alias_key_def)
  note a = sep_inj [OF int_to_string_no_nul int_to_string_no_nul k]
  note b = sep_inj [OF sp(1) [OF assms(1)] sp(1) [OF assms(2)] conjunct2 [OF a]]
  note c = sep_inj [OF sp(2) [OF assms(1)] sp(2) [OF assms(2)] conjunct2 [OF b]]
  show "al_block_height r = al_block_height r'" "al_primary_profile r = al_primary_profile r'"
    "al_alias_type r = al_alias_type r'" "al_alias_value r = al_alias_value r'" using a b c by simp_all
qed

text \<open>The alias rows a block can produce: those of its binding events and those of its EVM participants.\<close>

definition block_alias_row :: "(string \<Rightarrow> string option) \<Rightarrow> alias_row \<Rightarrow> bool" where
  "block_alias_row ss58 r \<longleftrightarrow>
     (\<exists>e ts src rows. aliasRowsForBoundEvent ss58 e ts src = Inr rows \<and> r \<in> set rows)
     \<or> (\<exists>as h ts i src x rows. aliasRowsForEvmParticipants as h ts i src x = Inr rows \<and> r \<in> set rows)"

lemma block_alias_good: "block_alias_row ss58 r \<Longrightarrow> good_alias r"
proof -
  assume "block_alias_row ss58 r"
  then consider e ts src rows where "aliasRowsForBoundEvent ss58 e ts src = Inr rows" "r \<in> set rows"
    | as h ts i src x rows where "aliasRowsForEvmParticipants as h ts i src x = Inr rows" "r \<in> set rows"
    by (auto simp: block_alias_row_def)
  then show ?thesis
  proof cases
    case (1 e ts src rows)
    then show ?thesis using bound_rows [of ss58 e ts src] by auto
  next
    case (2 as h ts i src x rows)
    then show ?thesis using participant_rows_ok [of "participant_context h ts i src x" "[]" as]
      by (auto simp: aliasRowsForEvmParticipants_def)
  qed
qed

text \<open>
  C5: A binding is never lost to an observation. Among the rows of a block, whatever their order, the row kept under the key of
  an explicitly bound alias is an explicit binding of the same address, with full confidence.
\<close>

lemma bound_row_survives:
  assumes "\<And>r. r \<in> set rows \<Longrightarrow> block_alias_row ss58 r"
    and "bound \<in> set rows" "al_relationship bound = ''explicit_binding''"
  shows "\<exists>r \<in> set (dedupeAliasRows rows). alias_key r = alias_key bound \<and> al_relationship r = ''explicit_binding''
    \<and> al_confidence r = 1 \<and> al_evm_address r = al_evm_address bound \<and> al_alias_value r = al_alias_value bound"
proof -
  have good: "good_alias r" if "r \<in> set rows" for r using block_alias_good [OF assms(1) [OF that]] .
  have "alias_key bound \<in> set (map alias_key (dedupeAliasRows rows))"
    using assms(2) dedupe_keeps_strongest [of rows] by simp
  then obtain r where r: "r \<in> set (dedupeAliasRows rows)" "alias_key r = alias_key bound" by auto
  then have st: "strongest rows r" using dedupe_keeps_strongest [of rows] by blast
  have gr: "good_alias r" "good_alias bound" using good strongest_in [OF st] assms(2) by auto
  have "al_confidence bound \<le> al_confidence r" using strongest_bound [OF st assms(2)] r by simp
  then have c: "al_confidence r = 1" using gr assms(3) by (auto simp: good_alias_def)
  then have "al_relationship r = ''explicit_binding''" using gr by (simp add: good_alias_def)
  moreover have "al_evm_address r = al_evm_address bound"
    using alias_key_inj(2) [OF gr r(2)] gr by (auto simp: good_alias_def)
  ultimately show ?thesis using r c alias_key_inj(4) [OF gr r(2)] by blast
qed

definition example_bound :: raw_event where
  "example_bound = \<lparr>rev_block = 7, rev_index = 2, rev_extrinsicIndex = Some 1, rev_callAddress = None,
     rev_name = Some ''EVMAccounts.Bound'',
     rev_args = JObj [(''account'', JStr (''0x'' @ replicate 64 (CHR ''a''))), (''address'', JStr (''0x'' @ replicate 40 (CHR ''b'')))]\<rparr>"

definition example_alias_rows :: "alias_row list" where
  "example_alias_rows =
     projr (aliasRowsForEvmParticipants [''0x'' @ replicate 40 (CHR ''B'')] 7 ''t'' 1 ''rpc'' None)
     @ projr (aliasRowsForBoundEvent (\<lambda>_. None) example_bound ''t'' ''rpc'')"

lemma bound_row_survives_witness:
  "\<exists>r \<in> set (dedupeAliasRows example_alias_rows). al_relationship r = ''explicit_binding'' \<and> al_confidence r = 1
     \<and> al_evm_address r = Some (''0x'' @ replicate 40 (CHR ''b'')) \<and> al_alias_type r = ''evm_address''"
proof -
  let ?ps = "aliasRowsForEvmParticipants [''0x'' @ replicate 40 (CHR ''B'')] 7 ''t'' 1 ''rpc'' None"
    and ?bs = "aliasRowsForBoundEvent (\<lambda>_. None) example_bound ''t'' ''rpc''"
  define bound where "bound = projr ?bs ! 1"
  have ps: "?ps = Inr (projr ?ps)"
    using participant_rows_ok [of "participant_context 7 ''t'' 1 ''rpc'' None" "[]"] unfolding aliasRowsForEvmParticipants_def
    by (metis sum.sel(2))
  have bs: "?bs = Inr (projr ?bs)" using bound_rows by (metis sum.sel(2))
  have all: "block_alias_row (\<lambda>_. None) r" if "r \<in> set example_alias_rows" for r
    using that ps bs unfolding example_alias_rows_def block_alias_row_def by (auto 0 4)
  let ?h = "''0x'' @ replicate 40 (CHR ''b'')"
  have args: "bound_account (\<lambda>_. None) (rev_args example_bound) = Some (''0x'' @ replicate 64 (CHR ''a''))"
      "bound_address (rev_args example_bound) = Some ?h" "hex_form ?h" "length ?h = 42"
      "name_or_empty (rev_name example_bound) = ''EVMAccounts.Bound''"
    by code_simp+
  have len: "length (projr ?bs) = 3 \<and> al_relationship (projr ?bs ! 1) = ''explicit_binding''
      \<and> al_evm_address (projr ?bs ! 1) = Some ?h \<and> al_alias_type (projr ?bs ! 1) = ''evm_address''"
    using args(3,4) by (simp add: aliasRowsForBoundEvent_def args(1,2,5) Let_def derive_form aliasRow_evm del: replicate.simps)
  then have b: "bound \<in> set example_alias_rows" by (auto simp: bound_def example_alias_rows_def)
  obtain r where r: "r \<in> set (dedupeAliasRows example_alias_rows)" "alias_key r = alias_key bound"
      "al_relationship r = ''explicit_binding''" "al_confidence r = 1" "al_evm_address r = al_evm_address bound"
    using bound_row_survives [OF all b] len by (auto simp: bound_def)
  have "r \<in> set example_alias_rows" using r(1) dedupe_keeps_strongest strongest_in by blast
  then have "al_alias_type r = al_alias_type bound" using alias_key_inj(3) [OF _ _ r(2)] block_alias_good all b by blast
  then show ?thesis using r len by (auto simp: bound_def)
qed

lemma truncated_account_roundtrip_witness:
  "\<exists>acc. deriveTruncatedAccountId (''0x'' @ replicate 40 (CHR ''b'')) = Inr acc \<and> take 40 (drop 10 acc) = replicate 40 (CHR ''b'')"
proof -
  have "normalizeH160 (JObj [(''id'', JStr (replicate 40 (CHR ''B'')))]) = Some (''0x'' @ replicate 40 (CHR ''b''))" by code_simp
  from truncated_account_roundtrip [OF this, of "\<lambda>_. None"] show ?thesis by auto
qed

end
