(* ===== verification/Balance_Observations.thy ===== *)
theory Balance_Observations
  imports Account_Identity Batching
begin

text \<open>
  Balances observed at the end of a block (\<^verbatim>\<open>src/raw/balance.ts\<close>): which accounts and assets a block's events, calls
  and storage mutations name, the reads of their balances, single and batched, and the full snapshot of an anchor block.

  The storage items of a block are records of functions, a thrown value is \<^const>\<open>None\<close> when it is not an \<open>Error\<close>.
  A page size that is not a number is \<^const>\<open>None\<close>. Concurrent readers are taken one after the other, in the order of
  their items, and the two settings of their number (\<open>balanceReadConcurrency\<close>, \<open>balanceReadBatchConcurrency\<close>) are not
  modelled: nothing here speaks of other schedules. Console
  output is left out, and so is the per-process set that keeps a warning from being printed twice. The hash of the
  storage prefixes and the decoder of SS58 texts are library calls and are arguments.
\<close>

section \<open>Storage\<close>

record ('k, 'p, 'v) storage_item =
  si_is :: bool
  si_get :: "'k \<Rightarrow> string option + 'v option"
  si_getMany :: "'k list \<Rightarrow> string option + 'v option list"
  si_default :: 'v
  si_keysPaged :: "int option \<Rightarrow> (string option + 'p list) list"
  si_pairsPaged :: "int option \<Rightarrow> (string option + ('p \<times> 'v option) list) list"

record native_v205 =
  n2_free :: json
  n2_reserved :: json
  n2_frozen :: json
  n2_flags :: json
  n2_nonce :: int

record native_v100 =
  n1_free :: json
  n1_reserved :: json
  n1_miscFrozen :: json
  n1_feeFrozen :: json
  n1_nonce :: int

record token_value =
  tv_free :: json
  tv_reserved :: json
  tv_frozen :: json

record balance_block =
  bb_height :: int
  bb_account205 :: "(string, json, native_v205) storage_item"
  bb_account100 :: "(string, json, native_v100) storage_item"
  bb_tokens :: "(string \<times> int, json \<times> int, token_value) storage_item"

record balance_candidate =
  bc_accountId :: string
  bc_assetId :: string
  bc_assetKind :: string
  bc_sourceKind :: string
  bc_sourceName :: string
  bc_sourceEventIndex :: "int option"
  bc_sourceCallAddress :: "string option"
  bc_evidence :: json

record balance_read =
  br_free :: "string option"
  br_reserved :: "string option"
  br_frozen :: "string option"
  br_total :: "string option"
  br_nonce :: "int option"
  br_flags :: "string option"

record observation_row =
  ob_block_height :: int
  ob_block_timestamp :: string
  ob_observation_id :: string
  ob_account_id :: string
  ob_asset_kind :: string
  ob_asset_id :: string
  ob_balance :: balance_read
  ob_source_kind :: string
  ob_source_name :: string
  ob_source_event_index :: "int option"
  ob_source_call_address :: "string option"
  ob_evidence :: json
  ob_ingest_source :: string

record raw_call = call_identity +
  rc_block :: int
  rc_name :: "string option"
  rc_args :: json

definition NATIVE_ASSET_ID :: string where
  "NATIVE_ASSET_ID = ''0''"

definition GENESIS_BOOTSTRAP_BLOCK :: int where
  "GENESIS_BOOTSTRAP_BLOCK = 1"

section \<open>Storage keys\<close>

type_synonym hash_fn = "string \<Rightarrow> string"

definition storagePrefix :: "hash_fn \<Rightarrow> string \<Rightarrow> string \<Rightarrow> string" where
  "storagePrefix xxhash128 pallet item = to_lower (xxhash128 pallet @ drop 2 (xxhash128 item))"

definition system_prefix :: "hash_fn \<Rightarrow> string" where
  "system_prefix xx = storagePrefix xx ''System'' ''Account''"

definition tokens_prefix :: "hash_fn \<Rightarrow> string" where
  "tokens_prefix xx = storagePrefix xx ''Tokens'' ''Accounts''"

text \<open>\<open>Buffer.from(s, 'hex')\<close> stops at the first pair that is not hexadecimal.\<close>

fun hex_bytes :: "string \<Rightarrow> nat list" where
  "hex_bytes (a # b # rest) =
     (case (digit_val a, digit_val b) of (Some h, Some l) \<Rightarrow> (16 * h + l) # hex_bytes rest | _ \<Rightarrow> [])"
| "hex_bytes _ = []"

fun little_endian :: "nat list \<Rightarrow> nat" where
  "little_endian [] = 0"
| "little_endian (b # bs) = b + 256 * little_endian bs"

definition decodeLittleEndianUInt :: "string \<Rightarrow> int option" where
  "decodeLittleEndianUInt s =
     (if length s < 2 \<or> odd (length s) then None
      else let n = int (little_endian (hex_bytes s)) in if is_safe_integer n then Some n else None)"

fun key_visit :: "json \<Rightarrow> string list" where
  "key_visit v =
     (case (case extractHexLike v of None \<Rightarrow> None | Some hex \<Rightarrow> if 66 < length hex then Some hex else None) of
        Some hex \<Rightarrow> [hex]
      | None \<Rightarrow>
          (case v of
             JArr items \<Rightarrow> concat (map key_visit items)
           | JObj ps \<Rightarrow> concat (map (\<lambda>(k, nested). key_visit nested) ps)
           | _ \<Rightarrow> []))"

declare key_visit.simps [simp del]

definition storageKeyCandidates :: "json \<Rightarrow> string list" where
  "storageKeyCandidates v = js_unique (map to_lower (key_visit v))"

datatype balance_item = System_Account | Tokens_Accounts

fun item_name :: "balance_item \<Rightarrow> string" where
  "item_name System_Account = ''System.Account''"
| "item_name Tokens_Accounts = ''Tokens.Accounts''"

record decoded_key =
  dk_storageItem :: balance_item
  dk_accountId :: string
  dk_assetId :: string

definition hex_slice :: "nat \<Rightarrow> nat \<Rightarrow> string \<Rightarrow> string" where
  "hex_slice a b s = take (b - a) (drop a s)"

definition decodeBalanceStorageKey :: "(string \<Rightarrow> string option) \<Rightarrow> hash_fn \<Rightarrow> string \<Rightarrow> decoded_key option" where
  "decodeBalanceStorageKey ss58 xx key =
     (let normalized = to_lower key in
      if starts_with (system_prefix xx) normalized then
        (let remainder = drop (length (system_prefix xx)) normalized
         in case normalizeAccountId ss58 (JStr (''0x'' @ hex_slice 32 96 remainder)) of
              None \<Rightarrow> None
            | Some accountId \<Rightarrow>
                Some \<lparr>dk_storageItem = System_Account, dk_accountId = accountId, dk_assetId = NATIVE_ASSET_ID\<rparr>)
      else if starts_with (tokens_prefix xx) normalized then
        (let remainder = drop (length (tokens_prefix xx)) normalized;
             assetHexStart = 96 + 16;
             assetHex = hex_slice assetHexStart (assetHexStart + 8) remainder
         in case (normalizeAccountId ss58 (JStr (''0x'' @ hex_slice 32 96 remainder)), decodeLittleEndianUInt assetHex) of
              (Some accountId, Some assetId) \<Rightarrow>
                Some \<lparr>dk_storageItem = Tokens_Accounts, dk_accountId = accountId, dk_assetId = int_to_string assetId\<rparr>
            | _ \<Rightarrow> None)
      else None)"

definition call_warning :: "raw_call \<Rightarrow> string \<Rightarrow> string \<Rightarrow> json \<Rightarrow> string \<Rightarrow> string \<Rightarrow> parser_warning" where
  "call_warning call blockTimestamp ingestSource evidence code text =
     \<lparr>warn_block = rc_block call, warn_timestamp = blockTimestamp, warn_parser = ''raw_balance'', warn_source_kind = ''call'',
      warn_source_name = name_or_empty (rc_name call), warn_source_index = callSourceIndex (call_identity.truncate call),
      warning_code = code, warning_text = text, warn_evidence = toJsonString evidence, warn_ingest_source = ingestSource\<rparr>"

definition key_candidate :: "decoded_key \<Rightarrow> string \<Rightarrow> raw_call \<Rightarrow> balance_candidate" where
  "key_candidate d key call =
     \<lparr>bc_accountId = dk_accountId d, bc_assetId = dk_assetId d, bc_assetKind = ''substrate'',
      bc_sourceKind = ''storage_mutation'',
      bc_sourceName = (case rc_name call of None \<Rightarrow> ''System.set_storage'' | Some n \<Rightarrow> n),
      bc_sourceEventIndex = None, bc_sourceCallAddress = callAddressToString (call_address call),
      bc_evidence = JObj [(''call'', json_of_name (rc_name call)), (''storage_key'', JStr key),
        (''storage_item'', JStr (item_name (dk_storageItem d))), (''reason'', JStr ''post-state read after System.set_storage'')]\<rparr>"

definition extractStorageBalanceCandidate ::
  "(string \<Rightarrow> string option) \<Rightarrow> hash_fn \<Rightarrow> string \<Rightarrow> raw_call \<Rightarrow> string \<Rightarrow> string
     \<Rightarrow> balance_candidate option \<times> parser_warning option" where
  "extractStorageBalanceCandidate ss58 xx key call blockTimestamp ingestSource =
     (let normalized = to_lower key;
          baseWarning = call_warning call blockTimestamp ingestSource
            (JObj [(''call'', json_of_name (rc_name call)), (''key'', JStr key), (''args'', json_or (rc_args call) JNull)])
      in if starts_with (system_prefix xx) normalized then
           (case decodeBalanceStorageKey ss58 xx normalized of
              None \<Rightarrow> (None, Some (baseWarning ''unparsed_system_account_key''
                        ''System.Account storage key did not contain a decodable AccountId32''))
            | Some d \<Rightarrow> (Some (key_candidate (d\<lparr>dk_storageItem := System_Account\<rparr>) key call), None))
         else if starts_with (tokens_prefix xx) normalized then
           (case decodeBalanceStorageKey ss58 xx normalized of
              None \<Rightarrow> (None, Some (baseWarning ''unparsed_tokens_account_key''
                        ''Tokens.Accounts storage key did not contain a decodable account/asset pair''))
            | Some d \<Rightarrow> (Some (key_candidate (d\<lparr>dk_storageItem := Tokens_Accounts\<rparr>) key call), None))
         else (None, None))"

section \<open>Balance values\<close>

definition toBigIntString :: "json \<Rightarrow> string option" where
  "toBigIntString v =
     (case v of JBig n \<Rightarrow> Some (int_to_string n) | JNum n \<Rightarrow> Some (int_to_string n)
      | JStr s \<Rightarrow> if s \<noteq> [] \<and> list_all is_dec_digit s then Some s else None
      | _ \<Rightarrow> None)"

definition bigintOrZero :: "json \<Rightarrow> int" where
  "bigintOrZero v = (case toBigIntString v of None \<Rightarrow> 0 | Some s \<Rightarrow> the (parse_bigint s))"

definition nativeV205Balance :: "native_v205 \<Rightarrow> balance_read" where
  "nativeV205Balance v =
     (let free = bigintOrZero (n2_free v); reserved = bigintOrZero (n2_reserved v)
      in \<lparr>br_free = Some (int_to_string free), br_reserved = Some (int_to_string reserved),
          br_frozen = Some (int_to_string (bigintOrZero (n2_frozen v))), br_total = Some (int_to_string (free + reserved)),
          br_nonce = Some (n2_nonce v), br_flags = Some (js_to_string (n2_flags v))\<rparr>)"

definition nativeV100Balance :: "native_v100 \<Rightarrow> balance_read" where
  "nativeV100Balance v =
     (let free = bigintOrZero (n1_free v); reserved = bigintOrZero (n1_reserved v);
          frozen = (if bigintOrZero (n1_miscFrozen v) > bigintOrZero (n1_feeFrozen v)
                    then bigintOrZero (n1_miscFrozen v) else bigintOrZero (n1_feeFrozen v))
      in \<lparr>br_free = Some (int_to_string free), br_reserved = Some (int_to_string reserved),
          br_frozen = Some (int_to_string frozen), br_total = Some (int_to_string (free + reserved)),
          br_nonce = Some (n1_nonce v), br_flags = None\<rparr>)"

definition tokenBalance :: "token_value \<Rightarrow> balance_read" where
  "tokenBalance v =
     (let free = bigintOrZero (tv_free v); reserved = bigintOrZero (tv_reserved v)
      in \<lparr>br_free = Some (int_to_string free), br_reserved = Some (int_to_string reserved),
          br_frozen = Some (int_to_string (bigintOrZero (tv_frozen v))), br_total = Some (int_to_string (free + reserved)),
          br_nonce = None, br_flags = None\<rparr>)"

section \<open>Accounts and assets of decoded arguments\<close>

fun js_includes :: "string \<Rightarrow> string \<Rightarrow> bool" where
  "js_includes needle [] = (needle = [])"
| "js_includes needle (c # cs) = (starts_with needle (c # cs) \<or> js_includes needle cs)"

text \<open>\<open>/a|b|c/i.test(s)\<close>.\<close>

definition has_word :: "string list \<Rightarrow> string \<Rightarrow> bool" where
  "has_word words s \<longleftrightarrow> (\<exists>w \<in> set words. js_includes w (to_lower s))"

function assetIdFromUnknown :: "json \<Rightarrow> string option" where
  "assetIdFromUnknown (JNum n) = (if is_safe_integer n then Some (int_to_string n) else None)"
| "assetIdFromUnknown (JBig n) = Some (int_to_string n)"
| "assetIdFromUnknown (JStr s) = (if s \<noteq> [] \<and> list_all is_dec_digit s then Some s else None)"
| "assetIdFromUnknown (JObj ps) =
     (let nested = (\<lambda>key. case map_of ps key of None \<Rightarrow> None | Some v \<Rightarrow> assetIdFromUnknown v);
          pick = (\<lambda>key rest. case nested key of None \<Rightarrow> rest | Some s \<Rightarrow> Some s)
      in if (get_prop (JObj ps) ''__kind'' = JStr ''Token'' \<or> get_prop (JObj ps) ''__kind'' = JStr ''ForeignAsset'')
            \<and> \<not> is_nullish (get_prop (JObj ps) ''value'')
         then nested ''value''
         else pick ''id'' (pick ''value'' (pick ''assetId'' (pick ''asset_id'' (pick ''currencyId'' (pick ''currency_id'' None))))))"
| "assetIdFromUnknown (JArr xs) = None"
| "assetIdFromUnknown JUndefined = None"
| "assetIdFromUnknown JNull = None"
| "assetIdFromUnknown (JBool b) = None"
  by pat_completeness auto
termination
  by (relation "measure size") (auto dest!: prop_smaller)

definition asset_hint :: "string \<Rightarrow> bool" where
  "asset_hint keyHint \<longleftrightarrow>
     to_lower keyHint \<in> {''asset'', ''assetid'', ''asset_id'', ''currency'', ''currencyid'', ''currency_id'', ''token'', ''tokenid'', ''token_id''}
     \<or> has_word [''asset'', ''currency'', ''token''] keyHint"

fun asset_visit :: "json \<Rightarrow> string \<Rightarrow> string list" where
  "asset_visit v keyHint =
     (if asset_hint keyHint then (case assetIdFromUnknown v of None \<Rightarrow> [] | Some a \<Rightarrow> [a]) else [])
     @ (case v of
          JArr items \<Rightarrow> concat (map (\<lambda>i. asset_visit i []) items)
        | JObj ps \<Rightarrow> concat (map (\<lambda>(key, nested). asset_visit nested key) ps)
        | _ \<Rightarrow> [])"

declare asset_visit.simps [simp del]

definition collectAssets :: "json \<Rightarrow> string list" where
  "collectAssets v = js_unique (asset_visit v [])"

definition evm_hint :: "string \<Rightarrow> bool" where
  "evm_hint keyHint \<longleftrightarrow> has_word
     [''address'', ''evm'', ''h160'', ''account'', ''from'', ''to'', ''who'', ''owner'', ''user'', ''recipient'', ''sender''] keyHint"

definition account_hint :: "string \<Rightarrow> bool" where
  "account_hint key \<longleftrightarrow> has_word
     [''from'', ''to'', ''who'', ''account'', ''owner'', ''source'', ''dest'', ''beneficiary'', ''sender'', ''recipient'',
      ''user'', ''target'', ''address''] key"

text \<open>A derived account of a normalized address never throws, see \<open>derive_form\<close>.\<close>

definition visited_account :: "(string \<Rightarrow> string option) \<Rightarrow> json \<Rightarrow> string \<Rightarrow> string option" where
  "visited_account ss58 v keyHint =
     (case normalizeAccountId ss58 v of
        Some account \<Rightarrow> Some account
      | None \<Rightarrow>
          (case normalizeH160 v of
             Some h160 \<Rightarrow> if evm_hint keyHint then Some (projr (deriveTruncatedAccountId h160)) else None
           | None \<Rightarrow> None))"

fun account_visit :: "(string \<Rightarrow> string option) \<Rightarrow> json \<Rightarrow> string \<Rightarrow> string list" where
  "account_visit ss58 v keyHint =
     (case visited_account ss58 v keyHint of
        Some account \<Rightarrow> [account]
      | None \<Rightarrow>
          (case v of
             JArr items \<Rightarrow> concat (map (\<lambda>i. account_visit ss58 i keyHint) items)
           | JObj ps \<Rightarrow> concat (map (\<lambda>(key, nested).
               if account_hint key \<or> js_typeof_object nested then account_visit ss58 nested key else []) ps)
           | _ \<Rightarrow> []))"

declare account_visit.simps [simp del]

definition collectAccounts :: "(string \<Rightarrow> string option) \<Rightarrow> json \<Rightarrow> string list" where
  "collectAccounts ss58 v = js_unique (account_visit ss58 v [])"

section \<open>Candidates of events and calls\<close>

definition isBalanceEvent :: "string \<Rightarrow> bool" where
  "isBalanceEvent name \<longleftrightarrow>
     name \<noteq> ''EVM.Log'' \<and>
     (starts_with ''Balances.'' name \<or> starts_with ''Tokens.'' name \<or> starts_with ''Currencies.'' name
      \<or> name = ''System.NewAccount'' \<or> name = ''System.KilledAccount''
      \<or> starts_with ''EVM.'' name \<or> starts_with ''EVMAccounts.'' name)"

definition isBalanceCall :: "string \<Rightarrow> bool" where
  "isBalanceCall name \<longleftrightarrow>
     (\<exists>p \<in> set [''Balances.'', ''Tokens.'', ''Currencies.'', ''EVM.'', ''EVMAccounts.'']. starts_with p name)"

definition isAdministrativeCall :: "string \<Rightarrow> bool" where
  "isAdministrativeCall name \<longleftrightarrow>
     name = ''System.set_storage'' \<or>
     (\<exists>p \<in> set [''Sudo.'', ''Utility.'', ''Scheduler.'', ''Democracy.'', ''Referenda.'', ''Whitelist.'', ''Preimage.'',
                 ''Council.'', ''TechnicalCommittee.'']. starts_with p name)"

definition isNativeImpliedEventSource :: "string \<Rightarrow> bool" where
  "isNativeImpliedEventSource name \<longleftrightarrow>
     starts_with ''Balances.'' name \<or> starts_with ''System.'' name \<or> starts_with ''EVM.'' name \<or> starts_with ''EVMAccounts.'' name"

definition isNativeImpliedCallSource :: "string \<Rightarrow> bool" where
  "isNativeImpliedCallSource name \<longleftrightarrow>
     starts_with ''Balances.'' name \<or> starts_with ''EVM.'' name \<or> starts_with ''EVMAccounts.'' name"

definition event_candidate :: "raw_event \<Rightarrow> string \<Rightarrow> string \<Rightarrow> balance_candidate" where
  "event_candidate e accountId assetId =
     \<lparr>bc_accountId = accountId, bc_assetId = assetId, bc_assetKind = ''substrate'', bc_sourceKind = ''event'',
      bc_sourceName = name_or_empty (rev_name e), bc_sourceEventIndex = Some (rev_index e),
      bc_sourceCallAddress = callAddressToString (rev_callAddress e),
      bc_evidence = JObj [(''event'', JStr (name_or_empty (rev_name e))), (''event_index'', JNum (rev_index e)),
        (''args'', json_or (rev_args e) JNull)]\<rparr>"

definition candidatesFromEvent :: "(string \<Rightarrow> string option) \<Rightarrow> raw_event \<Rightarrow> balance_candidate list" where
  "candidatesFromEvent ss58 e =
     (let name = name_or_empty (rev_name e) in
      if \<not> isBalanceEvent name then []
      else
        (let accounts = collectAccounts ss58 (rev_args e) in
         if accounts = [] then []
         else
           (let assets = (if isNativeImpliedEventSource name then [NATIVE_ASSET_ID] else collectAssets (rev_args e))
            in concat (map (\<lambda>accountId. map (event_candidate e accountId) assets) accounts))))"

record call_candidates =
  cc_candidates :: "balance_candidate list"
  cc_warningNeeded :: bool
  cc_warning :: "(string \<times> string) option"

definition call_candidate :: "raw_call \<Rightarrow> json \<Rightarrow> string \<Rightarrow> string \<Rightarrow> balance_candidate" where
  "call_candidate c evidenceArgs accountId assetId =
     \<lparr>bc_accountId = accountId, bc_assetId = assetId, bc_assetKind = ''substrate'', bc_sourceKind = ''call'',
      bc_sourceName = name_or_empty (rc_name c), bc_sourceEventIndex = None,
      bc_sourceCallAddress = callAddressToString (call_address c),
      bc_evidence = JObj [(''call'', JStr (name_or_empty (rc_name c))),
        (''call_address'', case callAddressToString (call_address c) of None \<Rightarrow> JNull | Some a \<Rightarrow> JStr a),
        (''args'', evidenceArgs)]\<rparr>"

definition candidatesFromCall :: "(string \<Rightarrow> string option) \<Rightarrow> raw_call \<Rightarrow> call_candidates" where
  "candidatesFromCall ss58 c =
     (let name = name_or_empty (rc_name c) in
      if \<not> isBalanceCall name
      then \<lparr>cc_candidates = [], cc_warningNeeded = isAdministrativeCall name, cc_warning = None\<rparr>
      else
        (let accounts = collectAccounts ss58 (rc_args c) in
         if accounts = [] then \<lparr>cc_candidates = [], cc_warningNeeded = True, cc_warning = None\<rparr>
         else
           (let assets = (if isNativeImpliedCallSource name then [NATIVE_ASSET_ID] else collectAssets (rc_args c)) in
            if assets = [] then
              \<lparr>cc_candidates = [], cc_warningNeeded = True,
               cc_warning = Some (''undecoded_multi_asset_call'',
                 name @ '' did not include a decodable asset id; skipping balance candidate(s) instead of assuming the native asset'')\<rparr>
            else
              (let evidenceArgs =
                 (if name = ''Balances.upgrade_accounts'' then
                    JObj [(''accounts_count'', JNum (int (length accounts))), (''args_omitted'', JBool True),
                      (''reason'', JStr ''large account list stored in raw_calls.args_json'')]
                  else json_or (rc_args c) JNull)
               in \<lparr>cc_candidates = concat (map (\<lambda>accountId. map (call_candidate c evidenceArgs accountId) assets) accounts),
                   cc_warningNeeded = False, cc_warning = None\<rparr>))))"

section \<open>Reads\<close>

text \<open>\<open>Number.parseInt(s, 10)\<close>; \<^const>\<open>None\<close> is \<open>NaN\<close>.\<close>

definition js_parse_int :: "string \<Rightarrow> int option" where
  "js_parse_int s =
     (let t = dropWhile is_space s;
          negative = (t \<noteq> [] \<and> hd t = CHR ''-'');
          body = (if t \<noteq> [] \<and> (hd t = CHR ''-'' \<or> hd t = CHR ''+'') then tl t else t);
          digits = takeWhile is_dec_digit body
      in if digits = [] then None
         else map_option (\<lambda>n. if negative then - n else n) (parse_dec digits))"

text \<open>The variables of the environment the reads look at.\<close>

record balance_env =
  be_batchEnabled :: "string option"
  be_batchSize :: "string option"
  be_bootstrapPageSize :: "string option"
  be_snapshotPageSize :: "string option"

definition positive_setting :: "string option \<Rightarrow> int \<Rightarrow> int \<Rightarrow> int" where
  "positive_setting configured fallback most =
     (case js_parse_int (case configured of None \<Rightarrow> int_to_string fallback | Some s \<Rightarrow> s) of
        Some n \<Rightarrow> if is_safe_integer n \<and> n > 0 then min n most else fallback
      | None \<Rightarrow> fallback)"

definition balanceReadBatchSize :: "balance_env \<Rightarrow> int" where
  "balanceReadBatchSize env = positive_setting (be_batchSize env) 250 1000"

definition balanceBatchReadsEnabled :: "balance_env \<Rightarrow> bool" where
  "balanceBatchReadsEnabled env = (be_batchEnabled env = Some ''true'')"

definition value_or :: "'v \<Rightarrow> 'v option \<Rightarrow> 'v" where
  "value_or fallback v = (case v of None \<Rightarrow> fallback | Some x \<Rightarrow> x)"

definition read_item :: "('k, 'p, 'v) storage_item \<Rightarrow> ('v \<Rightarrow> balance_read) \<Rightarrow> 'k \<Rightarrow> string option + balance_read" where
  "read_item it decode key = or_fail (si_get it key) (\<lambda>v. Inr (decode (value_or (si_default it) v)))"

definition readNativeBalance :: "balance_block \<Rightarrow> string \<Rightarrow> string option + balance_read" where
  "readNativeBalance b accountId =
     (if si_is (bb_account205 b) then read_item (bb_account205 b) nativeV205Balance accountId
      else if si_is (bb_account100 b) then read_item (bb_account100 b) nativeV100Balance accountId
      else Inl (Some ''No supported System.Account storage type at block''))"

definition numeric_asset :: "string \<Rightarrow> string option + int" where
  "numeric_asset assetId =
     (case js_parse_int assetId of
        Some n \<Rightarrow> if is_safe_integer n then Inr n
                  else Inl (Some (''Asset id '' @ assetId @ '' is not a safe integer for Tokens.Accounts''))
      | None \<Rightarrow> Inl (Some (''Asset id '' @ assetId @ '' is not a safe integer for Tokens.Accounts'')))"

definition readTokenBalance :: "balance_block \<Rightarrow> string \<Rightarrow> string \<Rightarrow> string option + balance_read" where
  "readTokenBalance b accountId assetId =
     or_fail (numeric_asset assetId) (\<lambda>n.
       if \<not> si_is (bb_tokens b) then Inl (Some ''No supported Tokens.Accounts storage type at block'')
       else read_item (bb_tokens b) tokenBalance (accountId, n))"

definition readBalance :: "balance_block \<Rightarrow> balance_candidate \<Rightarrow> string option + balance_read" where
  "readBalance b c =
     (if bc_assetId c = NATIVE_ASSET_ID then readNativeBalance b (bc_accountId c)
      else readTokenBalance b (bc_accountId c) (bc_assetId c))"

section \<open>Batched reads\<close>

type_synonym indexed_candidate = "string \<times> balance_candidate"

text \<open>The candidates of one storage key, the keys in the order they first appear.\<close>

definition add_group :: "'k \<Rightarrow> 'a \<Rightarrow> ('k, 'a list) jsmap \<Rightarrow> ('k, 'a list) jsmap" where
  "add_group k x m = (case map_of m k of None \<Rightarrow> map_set k [x] m | Some xs \<Rightarrow> map_set k (xs @ [x]) m)"

definition put_page ::
  "('v \<Rightarrow> balance_read) \<Rightarrow> 'v \<Rightarrow> ('k \<Rightarrow> string list) \<Rightarrow> 'k list \<Rightarrow> 'v option list
     \<Rightarrow> (string, balance_read) jsmap \<Rightarrow> (string, balance_read) jsmap" where
  "put_page decode fallback ids page values balances =
     foldl (\<lambda>m index.
       let balance = decode (value_or fallback (if index < length values then values ! index else None))
       in foldl (\<lambda>m id. map_set id balance m) m (ids (page ! index)))
       balances [0..<length page]"

fun read_pages ::
  "('k list \<Rightarrow> string option + 'v option list) \<Rightarrow> ('v \<Rightarrow> balance_read) \<Rightarrow> 'v \<Rightarrow> ('k \<Rightarrow> string list)
     \<Rightarrow> 'k list list \<Rightarrow> (string, balance_read) jsmap \<Rightarrow> string option + (string, balance_read) jsmap" where
  "read_pages getMany decode fallback ids [] balances = Inr balances"
| "read_pages getMany decode fallback ids (page # pages) balances =
     or_fail (getMany page) (\<lambda>values. read_pages getMany decode fallback ids pages (put_page decode fallback ids page values balances))"

definition ids_of :: "('k, string list) jsmap \<Rightarrow> 'k \<Rightarrow> string list" where
  "ids_of m k = (case map_of m k of None \<Rightarrow> [] | Some ids \<Rightarrow> ids)"

definition read_many ::
  "('k, 'p, 'v) storage_item \<Rightarrow> ('v \<Rightarrow> balance_read) \<Rightarrow> int \<Rightarrow> ('k, string list) jsmap
     \<Rightarrow> string option + (string, balance_read) jsmap" where
  "read_many it decode pageSize groups =
     read_pages (si_getMany it) decode (si_default it) (ids_of groups) (the (chunk (map_keys groups) pageSize)) []"

definition readNativeBalances ::
  "balance_env \<Rightarrow> balance_block \<Rightarrow> indexed_candidate list \<Rightarrow> string option + (string, balance_read) jsmap" where
  "readNativeBalances env b candidates =
     (if candidates = [] then Inr []
      else
        (let idsByAccount = foldl (\<lambda>m (id, c). add_group (bc_accountId c) id m) [] candidates;
             pageSize = balanceReadBatchSize env
         in if si_is (bb_account205 b) then read_many (bb_account205 b) nativeV205Balance pageSize idsByAccount
            else if si_is (bb_account100 b) then read_many (bb_account100 b) nativeV100Balance pageSize idsByAccount
            else Inl (Some ''No supported System.Account storage type at block'')))"

text \<open>The token entries are keyed by the text \<open>account:asset\<close>; the entry keeps the pair to read.\<close>

definition token_key :: "string \<times> int \<Rightarrow> string" where
  "token_key k = fst k @ '':'' @ int_to_string (snd k)"

fun token_groups ::
  "indexed_candidate list \<Rightarrow> (string, (string \<times> int) \<times> string list) jsmap
     \<Rightarrow> string option + (string, (string \<times> int) \<times> string list) jsmap" where
  "token_groups [] m = Inr m"
| "token_groups ((oid, c) # rest) m =
     or_fail (numeric_asset (bc_assetId c)) (\<lambda>n.
       (let key = token_key (bc_accountId c, n) in
        case map_of m key of
          None \<Rightarrow> token_groups rest (map_set key ((bc_accountId c, n), [oid]) m)
        | Some (k, ids) \<Rightarrow> token_groups rest (map_set key (k, ids @ [oid]) m)))"

definition readTokenBalances ::
  "balance_env \<Rightarrow> balance_block \<Rightarrow> indexed_candidate list \<Rightarrow> string option + (string, balance_read) jsmap" where
  "readTokenBalances env b candidates =
     (if candidates = [] then Inr []
      else if \<not> si_is (bb_tokens b) then Inl (Some ''No supported Tokens.Accounts storage type at block'')
      else
        or_fail (token_groups candidates []) (\<lambda>groups.
          read_many (bb_tokens b) tokenBalance (balanceReadBatchSize env) (map snd groups)))"

definition readBalancesBatched ::
  "balance_env \<Rightarrow> balance_block \<Rightarrow> indexed_candidate list \<Rightarrow> string option + (string, balance_read) jsmap" where
  "readBalancesBatched env b candidates =
     or_fail (readNativeBalances env b (filter (\<lambda>(id, c). bc_assetId c = NATIVE_ASSET_ID) candidates)) (\<lambda>native.
     or_fail (readTokenBalances env b (filter (\<lambda>(id, c). bc_assetId c \<noteq> NATIVE_ASSET_ID) candidates)) (\<lambda>tokens.
       Inr (foldl (\<lambda>m (id, r). map_set id r m) [] (native @ tokens))))"

section \<open>Rows\<close>

definition source_index_text :: "balance_candidate \<Rightarrow> string" where
  "source_index_text c =
     (case bc_sourceEventIndex c of
        None \<Rightarrow> (case bc_sourceCallAddress c of None \<Rightarrow> ''none'' | Some a \<Rightarrow> a)
      | Some i \<Rightarrow> int_to_string i)"

definition observationId :: "balance_candidate \<Rightarrow> string" where
  "observationId c =
     join_with '':'' [bc_sourceKind c, bc_sourceName c, source_index_text c, bc_accountId c, bc_assetKind c, bc_assetId c]"

definition observationRow ::
  "balance_block \<Rightarrow> string \<Rightarrow> string \<Rightarrow> string \<Rightarrow> balance_candidate \<Rightarrow> balance_read \<Rightarrow> observation_row" where
  "observationRow b blockTimestamp ingestSource oid c balance =
     \<lparr>ob_block_height = bb_height b, ob_block_timestamp = blockTimestamp, ob_observation_id = oid,
      ob_account_id = bc_accountId c, ob_asset_kind = bc_assetKind c, ob_asset_id = bc_assetId c, ob_balance = balance,
      ob_source_kind = bc_sourceKind c, ob_source_name = bc_sourceName c, ob_source_event_index = bc_sourceEventIndex c,
      ob_source_call_address = bc_sourceCallAddress c, ob_evidence = toJsonString (bc_evidence c),
      ob_ingest_source = ingestSource\<rparr>"

definition read_warning :: "balance_block \<Rightarrow> string \<Rightarrow> string \<Rightarrow> balance_candidate \<Rightarrow> string \<Rightarrow> parser_warning" where
  "read_warning b blockTimestamp ingestSource c text =
     \<lparr>warn_block = bb_height b, warn_timestamp = blockTimestamp, warn_parser = ''raw_balance'',
      warn_source_kind = bc_sourceKind c, warn_source_name = bc_sourceName c, warn_source_index = source_index_text c,
      warning_code = ''post_state_read_failed'', warning_text = text, warn_evidence = toJsonString (bc_evidence c),
      warn_ingest_source = ingestSource\<rparr>"

definition unique_candidates :: "balance_candidate list \<Rightarrow> indexed_candidate list" where
  "unique_candidates candidates =
     fst (foldl (\<lambda>(out, seen) c.
       if observationId c \<in> set seen then (out, seen)
       else (out @ [(observationId c, c)], set_add (observationId c) seen)) ([], []) candidates)"

record balance_rows =
  rows_observations :: "observation_row list"
  rows_warnings :: "parser_warning list"

definition batched_rows ::
  "balance_block \<Rightarrow> string \<Rightarrow> string \<Rightarrow> indexed_candidate list \<Rightarrow> (string, balance_read) jsmap \<Rightarrow> balance_rows" where
  "batched_rows b ts src candidates balances =
     \<lparr>rows_observations = concat (map (\<lambda>(id, c).
        case map_of balances id of None \<Rightarrow> [] | Some r \<Rightarrow> [observationRow b ts src id c r]) candidates),
      rows_warnings = concat (map (\<lambda>(id, c).
        case map_of balances id of
          None \<Rightarrow> [read_warning b ts src c ''Batched post-state balance read did not return a result'']
        | Some r \<Rightarrow> []) candidates)\<rparr>"

definition read_key :: "balance_candidate \<Rightarrow> string" where
  "read_key c = bc_assetKind c @ '':'' @ bc_assetId c @ '':'' @ bc_accountId c"

type_synonym read_group = "balance_candidate \<times> (nat \<times> string \<times> balance_candidate) list"

definition read_groups :: "indexed_candidate list \<Rightarrow> (string, read_group) jsmap" where
  "read_groups candidates =
     foldl (\<lambda>m index.
       let (id, c) = candidates ! index in
       case map_of m (read_key c) of
         None \<Rightarrow> map_set (read_key c) (c, [(index, id, c)]) m
       | Some (leader, entries) \<Rightarrow> map_set (read_key c) (leader, entries @ [(index, id, c)]) m)
       [] [0..<length candidates]"

definition group_results ::
  "balance_block \<Rightarrow> string \<Rightarrow> string \<Rightarrow> (parser_warning + observation_row) option list \<Rightarrow> read_group
     \<Rightarrow> (parser_warning + observation_row) option list" where
  "group_results b ts src results g =
     (case readBalance b (fst g) of
        Inr balance \<Rightarrow>
          foldl (\<lambda>rs (index, id, c). rs[index := Some (Inr (observationRow b ts src id c balance))]) results (snd g)
      | Inl err \<Rightarrow>
          foldl (\<lambda>rs (index, id, c). rs[index := Some (Inl (read_warning b ts src c
            (case err of Some message \<Rightarrow> message | None \<Rightarrow> ''Failed to read post-state balance'')))]) results (snd g))"

definition grouped_results ::
  "balance_block \<Rightarrow> string \<Rightarrow> string \<Rightarrow> indexed_candidate list \<Rightarrow> (parser_warning + observation_row) option list" where
  "grouped_results b ts src candidates =
     foldl (group_results b ts src) (replicate (length candidates) None) (map snd (read_groups candidates))"

definition single_rows :: "balance_block \<Rightarrow> string \<Rightarrow> string \<Rightarrow> indexed_candidate list \<Rightarrow> balance_rows" where
  "single_rows b ts src candidates =
     (let results = grouped_results b ts src candidates in
      \<lparr>rows_observations = concat (map (\<lambda>r. case r of Some (Inr row) \<Rightarrow> [row] | _ \<Rightarrow> []) results),
       rows_warnings = concat (map (\<lambda>r. case r of Some (Inl w) \<Rightarrow> [w] | _ \<Rightarrow> []) results)\<rparr>)"

definition buildRowsFromCandidates ::
  "balance_env \<Rightarrow> balance_block \<Rightarrow> string \<Rightarrow> string \<Rightarrow> balance_candidate list \<Rightarrow> balance_rows" where
  "buildRowsFromCandidates env b ts src candidates =
     (let unique = unique_candidates candidates in
      if balanceBatchReadsEnabled env then
        (case readBalancesBatched env b unique of
           Inr balances \<Rightarrow> batched_rows b ts src unique balances
         | Inl _ \<Rightarrow> single_rows b ts src unique)
      else single_rows b ts src unique)"

section \<open>The genesis block\<close>

text \<open>A paged iteration ends at its first failing page.\<close>

fun all_pages :: "('e + 'p list) list \<Rightarrow> 'e + 'p list" where
  "all_pages [] = Inr []"
| "all_pages (r # rs) = or_fail r (\<lambda>page. or_fail (all_pages rs) (\<lambda>rest. Inr (page @ rest)))"

definition bootstrap_candidate :: "string \<Rightarrow> string \<Rightarrow> balance_item \<Rightarrow> balance_candidate" where
  "bootstrap_candidate accountId assetId it =
     \<lparr>bc_accountId = accountId, bc_assetId = assetId, bc_assetKind = ''substrate'', bc_sourceKind = ''genesis_bootstrap'',
      bc_sourceName = item_name it, bc_sourceEventIndex = None, bc_sourceCallAddress = None,
      bc_evidence = JObj [(''storage_item'', JStr (item_name it)), (''reason'', JStr ''genesis bootstrap'')]\<rparr>"

definition native_keys :: "balance_block \<Rightarrow> int option \<Rightarrow> (string option + json list) list" where
  "native_keys b pageSize =
     (if si_is (bb_account205 b) then si_keysPaged (bb_account205 b) pageSize
      else if si_is (bb_account100 b) then si_keysPaged (bb_account100 b) pageSize
      else [])"

definition genesisBootstrapCandidates ::
  "(string \<Rightarrow> string option) \<Rightarrow> balance_env \<Rightarrow> balance_block \<Rightarrow> string option + balance_candidate list" where
  "genesisBootstrapCandidates ss58 env b =
     (if bb_height b \<noteq> GENESIS_BOOTSTRAP_BLOCK then Inr []
      else
        (let pageSize = js_parse_int (case be_bootstrapPageSize env of None \<Rightarrow> ''1000'' | Some s \<Rightarrow> s) in
         or_fail (all_pages (native_keys b pageSize)) (\<lambda>accounts.
         or_fail (all_pages (if si_is (bb_tokens b) then si_keysPaged (bb_tokens b) pageSize else [])) (\<lambda>entries.
           Inr (concat (map (\<lambda>account. case normalizeAccountId ss58 account of None \<Rightarrow> []
                  | Some accountId \<Rightarrow> [bootstrap_candidate accountId NATIVE_ASSET_ID System_Account]) accounts)
                @ concat (map (\<lambda>(account, assetId). case normalizeAccountId ss58 account of None \<Rightarrow> []
                  | Some accountId \<Rightarrow> [bootstrap_candidate accountId (int_to_string assetId) Tokens_Accounts]) entries))))))"

section \<open>The full snapshot\<close>

datatype snapshot_source = Snapshot_Bootstrap | Snapshot_Reconcile

fun source_kind_name :: "snapshot_source \<Rightarrow> string" where
  "source_kind_name Snapshot_Bootstrap = ''snapshot_bootstrap''"
| "source_kind_name Snapshot_Reconcile = ''snapshot_reconcile''"

definition snapshot_candidate :: "balance_block \<Rightarrow> string \<Rightarrow> string \<Rightarrow> balance_item \<Rightarrow> snapshot_source \<Rightarrow> balance_candidate" where
  "snapshot_candidate b accountId assetId it kind =
     \<lparr>bc_accountId = accountId, bc_assetId = assetId, bc_assetKind = ''substrate'', bc_sourceKind = source_kind_name kind,
      bc_sourceName = item_name it, bc_sourceEventIndex = None, bc_sourceCallAddress = None,
      bc_evidence = JObj [(''storage_item'', JStr (item_name it)),
        (''reason'', JStr (if kind = Snapshot_Reconcile then ''reconcile: projection differed from storage''
                         else ''full-state snapshot'')),
        (''anchor_block'', JNum (bb_height b))]\<rparr>"

definition snapshotRow ::
  "balance_block \<Rightarrow> string \<Rightarrow> string \<Rightarrow> string \<Rightarrow> string \<Rightarrow> balance_item \<Rightarrow> balance_read \<Rightarrow> snapshot_source \<Rightarrow> observation_row" where
  "snapshotRow b ts src accountId assetId it balance kind =
     (let c = snapshot_candidate b accountId assetId it kind in observationRow b ts src (observationId c) c balance)"

text \<open>The accessor of the native item: its pages with the values decoded, and what a missing value decodes to.\<close>

record native_accessor =
  na_keysPaged :: "int option \<Rightarrow> (string option + json list) list"
  na_pairsPaged :: "int option \<Rightarrow> (string option + (json \<times> balance_read) list) list"
  na_fallback :: balance_read

definition decoded_pairs ::
  "('k, 'p, 'v) storage_item \<Rightarrow> ('v \<Rightarrow> balance_read) \<Rightarrow> int option \<Rightarrow> (string option + ('p \<times> balance_read) list) list" where
  "decoded_pairs it decode pageSize =
     map (map_sum id (map (\<lambda>(k, v). (k, decode (value_or (si_default it) v))))) (si_pairsPaged it pageSize)"

definition nativeStorageAccessor :: "balance_block \<Rightarrow> native_accessor option" where
  "nativeStorageAccessor b =
     (if si_is (bb_account205 b) then
        Some \<lparr>na_keysPaged = si_keysPaged (bb_account205 b), na_pairsPaged = decoded_pairs (bb_account205 b) nativeV205Balance,
              na_fallback = nativeV205Balance (si_default (bb_account205 b))\<rparr>
      else if si_is (bb_account100 b) then
        Some \<lparr>na_keysPaged = si_keysPaged (bb_account100 b), na_pairsPaged = decoded_pairs (bb_account100 b) nativeV100Balance,
              na_fallback = nativeV100Balance (si_default (bb_account100 b))\<rparr>
      else None)"

fun absent_rows ::
  "balance_block \<Rightarrow> string \<Rightarrow> string \<Rightarrow> snapshot_source \<Rightarrow> native_accessor option \<Rightarrow> balance_read option
     \<Rightarrow> (string \<times> string) list \<Rightarrow> string + observation_row list" where
  "absent_rows b ts src kind native tokenFallback [] = Inr []"
| "absent_rows b ts src kind native tokenFallback ((accountId, assetId) # pairs) =
     or_fail
       (if assetId = NATIVE_ASSET_ID then
          (case native of None \<Rightarrow> Inl ''No supported System.Account storage type at snapshot block''
           | Some n \<Rightarrow> Inr (snapshotRow b ts src accountId assetId System_Account (na_fallback n) kind))
        else
          (case tokenFallback of None \<Rightarrow> Inl ''No supported Tokens.Accounts storage type at snapshot block''
           | Some r \<Rightarrow> Inr (snapshotRow b ts src accountId assetId Tokens_Accounts r kind)))
       (\<lambda>row. or_fail (absent_rows b ts src kind native tokenFallback pairs) (\<lambda>rows. Inr (row # rows)))"

definition snapshotAbsentRows ::
  "balance_block \<Rightarrow> string \<Rightarrow> string \<Rightarrow> snapshot_source \<Rightarrow> (string \<times> string) list \<Rightarrow> string + observation_row list" where
  "snapshotAbsentRows b ts src kind pairs =
     (let native = (if \<exists>p \<in> set pairs. snd p = NATIVE_ASSET_ID then nativeStorageAccessor b else None);
          tokenFallback = (if (\<exists>p \<in> set pairs. snd p \<noteq> NATIVE_ASSET_ID) \<and> si_is (bb_tokens b)
                           then Some (tokenBalance (si_default (bb_tokens b))) else None)
      in absent_rows b ts src kind native tokenFallback pairs)"

record snapshot_counts =
  sn_nativeAccounts :: int
  sn_tokenEntries :: int

record snapshot_options =
  so_pageSize :: "int option"
  so_includeNative :: "bool option"
  so_includeTokens :: "bool option"
  so_ingestSource :: "string option"
  so_sourceKind :: "snapshot_source option"
  so_countOnly :: "bool option"

text \<open>What the snapshot hands to its two callbacks, in order; both callbacks are given and return.\<close>

datatype snapshot_effect = Observed "observation_row list" | Progress snapshot_counts

fun count_pages ::
  "(int \<Rightarrow> snapshot_counts \<Rightarrow> snapshot_counts) \<Rightarrow> ('p \<Rightarrow> string option) \<Rightarrow> (string option + 'p list) list
     \<Rightarrow> snapshot_effect list \<Rightarrow> snapshot_counts \<Rightarrow> snapshot_effect list \<times> (string option + snapshot_counts)" where
  "count_pages bump account [] effects counts = (effects, Inr counts)"
| "count_pages bump account (r # rs) effects counts =
     (case r of Inl e \<Rightarrow> (effects, Inl e)
      | Inr page \<Rightarrow>
          (let counts' = bump (int (length (filter (\<lambda>p. account p \<noteq> None) page))) counts
           in count_pages bump account rs (effects @ [Progress counts']) counts'))"

fun emit_pages ::
  "(int \<Rightarrow> snapshot_counts \<Rightarrow> snapshot_counts) \<Rightarrow> ('p \<Rightarrow> observation_row option) \<Rightarrow> (string option + 'p list) list
     \<Rightarrow> snapshot_effect list \<Rightarrow> snapshot_counts \<Rightarrow> snapshot_effect list \<times> (string option + snapshot_counts)" where
  "emit_pages bump row_of [] effects counts = (effects, Inr counts)"
| "emit_pages bump row_of (r # rs) effects counts =
     (case r of Inl e \<Rightarrow> (effects, Inl e)
      | Inr page \<Rightarrow>
          (let rows = List.map_filter row_of page;
               counts' = bump (int (length rows)) counts
           in emit_pages bump row_of rs
                (effects @ (if rows = [] then [] else [Observed rows]) @ [Progress counts']) counts'))"

definition add_native :: "int \<Rightarrow> snapshot_counts \<Rightarrow> snapshot_counts" where
  "add_native n counts = counts\<lparr>sn_nativeAccounts := sn_nativeAccounts counts + n\<rparr>"

definition add_tokens :: "int \<Rightarrow> snapshot_counts \<Rightarrow> snapshot_counts" where
  "add_tokens n counts = counts\<lparr>sn_tokenEntries := sn_tokenEntries counts + n\<rparr>"

definition snapshot_page_size :: "balance_env \<Rightarrow> snapshot_options \<Rightarrow> int" where
  "snapshot_page_size env opts =
     (let configured = (case so_pageSize opts of Some n \<Rightarrow> Some n
        | None \<Rightarrow> js_parse_int (case be_snapshotPageSize env of None \<Rightarrow> ''1000'' | Some s \<Rightarrow> s))
      in case configured of Some n \<Rightarrow> if is_safe_integer n \<and> n > 0 then n else 1000 | None \<Rightarrow> 1000)"

definition snapshot_native ::
  "(string \<Rightarrow> string option) \<Rightarrow> balance_block \<Rightarrow> string \<Rightarrow> string \<Rightarrow> snapshot_source \<Rightarrow> bool \<Rightarrow> int
     \<Rightarrow> snapshot_counts \<Rightarrow> snapshot_effect list \<times> (string option + snapshot_counts)" where
  "snapshot_native ss58 b ts src kind countOnly pageSize counts =
     (case nativeStorageAccessor b of
        None \<Rightarrow> ([], Inl (Some ''No supported System.Account storage type at snapshot block''))
      | Some native \<Rightarrow>
          if countOnly then count_pages add_native (normalizeAccountId ss58) (na_keysPaged native (Some pageSize)) [] counts
          else emit_pages add_native
                 (\<lambda>(account, balance). map_option (\<lambda>a. snapshotRow b ts src a NATIVE_ASSET_ID System_Account balance kind)
                    (normalizeAccountId ss58 account))
                 (na_pairsPaged native (Some pageSize)) [] counts)"

definition snapshot_tokens ::
  "(string \<Rightarrow> string option) \<Rightarrow> balance_block \<Rightarrow> string \<Rightarrow> string \<Rightarrow> snapshot_source \<Rightarrow> bool \<Rightarrow> int
     \<Rightarrow> snapshot_effect list \<Rightarrow> snapshot_counts \<Rightarrow> snapshot_effect list \<times> (string option + snapshot_counts)" where
  "snapshot_tokens ss58 b ts src kind countOnly pageSize effects counts =
     (if \<not> si_is (bb_tokens b) then (effects, Inl (Some ''No supported Tokens.Accounts storage type at snapshot block''))
      else if countOnly then
        count_pages add_tokens (\<lambda>(account, assetId). normalizeAccountId ss58 account) (si_keysPaged (bb_tokens b) (Some pageSize)) effects counts
      else emit_pages add_tokens
             (\<lambda>((account, assetId), balance).
                map_option (\<lambda>a. snapshotRow b ts src a (int_to_string assetId) Tokens_Accounts balance kind)
                  (normalizeAccountId ss58 account))
             (decoded_pairs (bb_tokens b) tokenBalance (Some pageSize)) effects counts)"

definition streamBalanceSnapshot ::
  "(string \<Rightarrow> string option) \<Rightarrow> balance_env \<Rightarrow> balance_block \<Rightarrow> string \<Rightarrow> snapshot_options
     \<Rightarrow> snapshot_effect list \<times> (string option + snapshot_counts)" where
  "streamBalanceSnapshot ss58 env b ts opts =
     (let pageSize = snapshot_page_size env opts;
          src = (case so_ingestSource opts of None \<Rightarrow> ''rpc'' | Some s \<Rightarrow> s);
          kind = (case so_sourceKind opts of None \<Rightarrow> Snapshot_Bootstrap | Some k \<Rightarrow> k);
          countOnly = (so_countOnly opts = Some True);
          zero = \<lparr>sn_nativeAccounts = 0, sn_tokenEntries = 0\<rparr>;
          (effects, r) = (if so_includeNative opts \<noteq> Some False then snapshot_native ss58 b ts src kind countOnly pageSize zero
                          else ([], Inr zero))
      in case r of Inl e \<Rightarrow> (effects, Inl e)
         | Inr counts \<Rightarrow>
             if so_includeTokens opts \<noteq> Some False then snapshot_tokens ss58 b ts src kind countOnly pageSize effects counts
             else (effects, Inr counts))"

section \<open>A block\<close>

definition is_currencies :: "balance_candidate \<Rightarrow> bool" where
  "is_currencies c \<longleftrightarrow> (bc_sourceKind c = ''event'' \<or> bc_sourceKind c = ''call'') \<and> starts_with ''Currencies.'' (bc_sourceName c)"

definition withoutUnbackedCurrenciesCandidates :: "balance_candidate list \<Rightarrow> balance_candidate list" where
  "withoutUnbackedCurrenciesCandidates candidates =
     (let backed = js_unique (map read_key (filter (\<lambda>c. \<not> is_currencies c) candidates))
      in filter (\<lambda>c. \<not> is_currencies c \<or> read_key c \<in> set backed) candidates)"

definition call_evidence :: "raw_call \<Rightarrow> json" where
  "call_evidence c =
     JObj [(''call'', JStr (name_or_empty (rc_name c))),
       (''call_address'', JStr (case callAddressToString (call_address c) of Some a \<Rightarrow> a | None \<Rightarrow> call_id c)),
       (''args'', json_or (rc_args c) JNull)]"

definition set_storage_results ::
  "(string \<Rightarrow> string option) \<Rightarrow> hash_fn \<Rightarrow> string \<Rightarrow> string \<Rightarrow> raw_call \<Rightarrow> (balance_candidate option \<times> parser_warning option) list" where
  "set_storage_results ss58 xx ts src c =
     map (\<lambda>key. extractStorageBalanceCandidate ss58 xx key c ts src) (storageKeyCandidates (rc_args c))"

definition call_step ::
  "(string \<Rightarrow> string option) \<Rightarrow> hash_fn \<Rightarrow> string \<Rightarrow> string \<Rightarrow> balance_candidate list \<times> parser_warning list \<Rightarrow> raw_call
     \<Rightarrow> balance_candidate list \<times> parser_warning list" where
  "call_step ss58 xx ts src st c =
     (let (candidates, warnings) = st; name = name_or_empty (rc_name c) in
      if name = ''System.set_storage'' then
        (let rs = set_storage_results ss58 xx ts src c;
             found = List.map_filter fst rs
         in (candidates @ found,
             warnings @ List.map_filter snd rs
             @ (if found = [] then
                  [call_warning c ts src (call_evidence c) ''unmatched_set_storage''
                     ''System.set_storage did not include a decodable System.Account or Tokens.Accounts key'']
                else [])))
      else
        (let r = candidatesFromCall ss58 c in
         (candidates @ cc_candidates r,
          warnings
          @ (case cc_warning r of
               Some (code, text) \<Rightarrow> [call_warning c ts src (call_evidence c) code text]
             | None \<Rightarrow>
                 if cc_warningNeeded r \<and> isAdministrativeCall name then
                   [call_warning c ts src (call_evidence c) ''administrative_balance_surface''
                      ''Administrative call may affect balances through nested dispatch or governance execution; raw call arguments are preserved for targeted validation'']
                 else []))))"

definition block_candidates ::
  "(string \<Rightarrow> string option) \<Rightarrow> hash_fn \<Rightarrow> string \<Rightarrow> string \<Rightarrow> balance_candidate list \<Rightarrow> raw_event list \<Rightarrow> raw_call list
     \<Rightarrow> balance_candidate list \<times> parser_warning list" where
  "block_candidates ss58 xx ts src initial events calls =
     foldl (call_step ss58 xx ts src) (initial @ concat (map (candidatesFromEvent ss58) events), []) calls"

definition extractBalanceObservations ::
  "(string \<Rightarrow> string option) \<Rightarrow> hash_fn \<Rightarrow> balance_env \<Rightarrow> balance_block \<Rightarrow> string \<Rightarrow> raw_event list \<Rightarrow> raw_call list
     \<Rightarrow> string \<Rightarrow> balance_candidate list \<Rightarrow> string option + balance_rows" where
  "extractBalanceObservations ss58 xx env b ts events calls src extraCandidates =
     or_fail (genesisBootstrapCandidates ss58 env b) (\<lambda>bootstrap.
       (let (candidates, warnings) = block_candidates ss58 xx ts src (extraCandidates @ bootstrap) events calls;
            rows = buildRowsFromCandidates env b ts src (withoutUnbackedCurrenciesCandidates candidates)
        in Inr (rows\<lparr>rows_warnings := warnings @ rows_warnings rows\<rparr>)))"

section \<open>Single reads\<close>

text \<open>What a candidate becomes when its own balance is read.\<close>

definition result_of :: "balance_block \<Rightarrow> string \<Rightarrow> string \<Rightarrow> indexed_candidate \<Rightarrow> parser_warning + observation_row" where
  "result_of b ts src p =
     (case readBalance b (snd p) of
        Inr balance \<Rightarrow> Inr (observationRow b ts src (fst p) (snd p) balance)
      | Inl err \<Rightarrow> Inl (read_warning b ts src (snd p)
          (case err of Some message \<Rightarrow> message | None \<Rightarrow> ''Failed to read post-state balance'')))"

definition exact_rows :: "balance_block \<Rightarrow> string \<Rightarrow> string \<Rightarrow> indexed_candidate list \<Rightarrow> balance_rows" where
  "exact_rows b ts src ps =
     \<lparr>rows_observations = List.map_filter (\<lambda>p. case result_of b ts src p of Inr row \<Rightarrow> Some row | Inl _ \<Rightarrow> None) ps,
      rows_warnings = List.map_filter (\<lambda>p. case result_of b ts src p of Inl w \<Rightarrow> Some w | Inr _ \<Rightarrow> None) ps\<rparr>"

text \<open>The text of a read key tells asset and account apart.\<close>

definition keys_apart :: "balance_candidate list \<Rightarrow> bool" where
  "keys_apart cs \<longleftrightarrow> (\<forall>c \<in> set cs. \<forall>c' \<in> set cs. read_key c = read_key c' \<longrightarrow>
     bc_assetId c = bc_assetId c' \<and> bc_accountId c = bc_accountId c')"

lemma readBalance_cong: "bc_assetId c = bc_assetId c' \<Longrightarrow> bc_accountId c = bc_accountId c' \<Longrightarrow> readBalance b c = readBalance b c'"
  by (simp add: readBalance_def)

lemma foldl_update_values:
  assumes "\<And>e. e \<in> set es \<Longrightarrow> f e = V (fst e)"
  shows "length (foldl (\<lambda>rs e. rs[fst e := f e]) rs es) = length rs \<and>
    (\<forall>i < length rs. foldl (\<lambda>rs e. rs[fst e := f e]) rs es ! i = (if i \<in> fst ` set es then V i else rs ! i))"
  using assms
proof (induction es arbitrary: rs)
  case (Cons e es)
  have "length (foldl (\<lambda>rs e. rs[fst e := f e]) (rs[fst e := f e]) es) = length rs \<and>
    (\<forall>i < length rs. foldl (\<lambda>rs e. rs[fst e := f e]) (rs[fst e := f e]) es ! i =
      (if i \<in> fst ` set es then V i else rs[fst e := f e] ! i))"
    using Cons.IH [of "rs[fst e := f e]"] Cons.prems by simp
  then show ?case using Cons.prems by (auto simp: nth_list_update)
qed simp

text \<open>Every entry of a group is a candidate at its index, of the group's key, and every index is in a group.\<close>

definition groups_ok :: "indexed_candidate list \<Rightarrow> nat \<Rightarrow> (string, read_group) jsmap \<Rightarrow> bool" where
  "groups_ok cs n m \<longleftrightarrow>
     (\<forall>kg \<in> set m. fst (snd kg) \<in> snd ` set cs \<and> read_key (fst (snd kg)) = fst kg
        \<and> (\<forall>e \<in> set (snd (snd kg)). fst e < n \<and> snd e = cs ! fst e \<and> read_key (snd (snd e)) = fst kg))
     \<and> (\<forall>i < n. \<exists>kg \<in> set m. i \<in> fst ` set (snd (snd kg)))"

lemma groups_ok_step:
  assumes m: "groups_ok cs n m" "map_wf m" and n: "n < length cs"
  shows "groups_ok cs (Suc n) (case map_of m (read_key (snd (cs ! n))) of
      None \<Rightarrow> map_set (read_key (snd (cs ! n))) (snd (cs ! n), [(n, cs ! n)]) m
    | Some (leader, entries) \<Rightarrow> map_set (read_key (snd (cs ! n))) (leader, entries @ [(n, cs ! n)]) m)"
proof -
  let ?k = "read_key (snd (cs ! n))"
  let ?ok = "\<lambda>kg. fst (snd kg) \<in> snd ` set cs \<and> read_key (fst (snd kg)) = fst kg
        \<and> (\<forall>e \<in> set (snd (snd kg)). fst e < Suc n \<and> snd e = cs ! fst e \<and> read_key (snd (snd e)) = fst kg)"
  have entry: "?ok kg" if "kg \<in> set m" for kg using m(1) that unfolding groups_ok_def by (meson less_SucI)
  define g where "g = (case map_of m ?k of None \<Rightarrow> (snd (cs ! n), [(n, cs ! n)])
    | Some (leader, entries) \<Rightarrow> (leader, entries @ [(n, cs ! n)]))"
  have new: "?ok (?k, g)"
  proof (cases "map_of m ?k")
    case None
    then show ?thesis using n by (simp add: g_def)
  next
    case (Some q)
    have "?ok (?k, q)" by (rule entry [OF map_of_in_set [OF Some]])
    then show ?thesis using Some n by (cases q) (auto simp: g_def)
  qed
  have new_in: "(?k, g) \<in> set (map_set ?k g m)" by (rule map_of_in_set) simp
  have keep: "\<exists>kg \<in> set (map_set ?k g m). i \<in> fst ` set (snd (snd kg))" if i: "i < Suc n" for i
  proof (cases "i = n")
    case True
    have "n \<in> fst ` set (snd g)" by (auto simp: g_def split: option.split)
    then show ?thesis using True new_in by (intro bexI [of _ "(?k, g)"]) simp_all
  next
    case False
    then obtain kq where q: "kq \<in> set m" "i \<in> fst ` set (snd (snd kq))" using m(1) i unfolding groups_ok_def by (meson less_SucE)
    have mq: "map_of m (fst kq) = Some (snd kq)" using m(2) q(1) by simp
    show ?thesis
    proof (cases "fst kq = ?k")
      case True
      then have "i \<in> fst ` set (snd g)" using q(2) mq by (cases "snd kq") (auto simp: g_def)
      then show ?thesis using new_in by (intro bexI [of _ "(?k, g)"]) simp_all
    next
      case False
      then have "map_of (map_set ?k g m) (fst kq) = Some (snd kq)" using mq by simp
      then show ?thesis using q(2) map_of_in_set [of "map_set ?k g m" "fst kq" "snd kq"]
        by (intro bexI [of _ "(fst kq, snd kq)"]) simp_all
    qed
  qed
  have "?ok kg" if "kg \<in> set (map_set ?k g m)" for kg
    using subsetD [OF map_set_entries that] entry new by blast
  then have "groups_ok cs (Suc n) (map_set ?k g m)" using keep unfolding groups_ok_def by blast
  moreover have "(case map_of m ?k of None \<Rightarrow> map_set ?k (snd (cs ! n), [(n, cs ! n)]) m
    | Some (leader, entries) \<Rightarrow> map_set ?k (leader, entries @ [(n, cs ! n)]) m) = map_set ?k g m"
    by (auto simp: g_def split: option.split)
  ultimately show ?thesis by simp
qed

lemma read_groups_ok: "groups_ok cs (length cs) (read_groups cs)"
proof -
  define step where "step = (\<lambda>m index. let (id, c) = cs ! index in
       case map_of m (read_key c) of
         None \<Rightarrow> map_set (read_key c) (c, [(index, id, c)]) m
       | Some (leader, entries) \<Rightarrow> map_set (read_key c) (leader, entries @ [(index, id, c)]) m)"
  have step: "step m n = (case map_of m (read_key (snd (cs ! n))) of
        None \<Rightarrow> map_set (read_key (snd (cs ! n))) (snd (cs ! n), [(n, cs ! n)]) m
      | Some (leader, entries) \<Rightarrow> map_set (read_key (snd (cs ! n))) (leader, entries @ [(n, cs ! n)]) m)" for m n
    by (simp add: step_def split_def Let_def split: option.split)
  have "groups_ok cs n (foldl step [] [0..<n]) \<and> map_wf (foldl step [] [0..<n])" if "n \<le> length cs" for n
    using that
  proof (induction n)
    case 0
    show ?case by (simp add: groups_ok_def)
  next
    case (Suc n)
    define m where "m = foldl step [] [0..<n]"
    have m: "groups_ok cs n m" "map_wf m" using Suc by (simp_all add: m_def)
    have "foldl step [] [0..<Suc n] = step m n" by (simp add: m_def)
    then show ?case using groups_ok_step [OF m] Suc.prems m(2) unfolding step by (auto split: option.split)
  qed
  moreover have "read_groups cs = foldl step [] [0..<length cs]" unfolding read_groups_def step_def ..
  ultimately show ?thesis by simp
qed

lemma group_results_values:
  assumes "\<And>i p. (i, p) \<in> set (snd g) \<Longrightarrow> p = cs ! i \<and> readBalance b (fst g) = readBalance b (snd p)"
  shows "length (group_results b ts src rs g) = length rs \<and>
    (\<forall>i < length rs. group_results b ts src rs g ! i =
       (if i \<in> fst ` set (snd g) then Some (result_of b ts src (cs ! i)) else rs ! i))"
proof -
  have entry: "cs ! fst e = snd e" "readBalance b (snd (snd e)) = readBalance b (fst g)" if "e \<in> set (snd g)" for e
    using assms [of "fst e" "snd e"] that by simp_all
  show ?thesis
proof (cases "readBalance b (fst g)")
  case (Inr r)
  have e: "group_results b ts src rs g = foldl (\<lambda>rs e. rs[fst e := Some (Inr (observationRow b ts src (fst (snd e)) (snd (snd e)) r))]) rs (snd g)"
    using Inr by (simp add: group_results_def split_def)
  show ?thesis unfolding e
    by (rule foldl_update_values) (use entry Inr in \<open>simp add: result_of_def\<close>)
next
  case (Inl err)
  have e: "group_results b ts src rs g = foldl (\<lambda>rs e. rs[fst e := Some (Inl (read_warning b ts src (snd (snd e))
      (case err of Some message \<Rightarrow> message | None \<Rightarrow> ''Failed to read post-state balance'')))]) rs (snd g)"
    using Inl by (simp add: group_results_def split_def)
  show ?thesis unfolding e
    by (rule foldl_update_values) (use entry Inl in \<open>simp add: result_of_def\<close>)
qed
qed

lemma grouped_results_exact:
  assumes "keys_apart (map snd cs)"
  shows "grouped_results b ts src cs = map (\<lambda>p. Some (result_of b ts src p)) cs"
proof -
  let ?gs = "map snd (read_groups cs)"
  have g: "p = cs ! i \<and> readBalance b (fst g) = readBalance b (snd p)" if "g \<in> set ?gs" "(i, p) \<in> set (snd g)" for g i p
  proof -
    have "g \<in> snd ` set (read_groups cs)" using that(1) unfolding list.set_map .
    then obtain kg where kg: "g = snd kg" "kg \<in> set (read_groups cs)" by (rule imageE)
    have k: "fst (snd kg) \<in> snd ` set cs" "read_key (fst (snd kg)) = fst kg"
        "\<forall>e \<in> set (snd (snd kg)). fst e < length cs \<and> snd e = cs ! fst e \<and> read_key (snd (snd e)) = fst kg"
      using read_groups_ok [of cs, unfolded groups_ok_def] kg(2) by blast+
    have ok: "fst g \<in> set (map snd cs)" "read_key (fst g) = fst kg" "i < length cs" "p = cs ! i" "read_key (snd p) = fst kg"
      using k(1,2) bspec [OF k(3), of "(i, p)"] that(2) unfolding kg(1) by auto
    then have "snd p \<in> set (map snd cs)" by simp
    with ok have "bc_assetId (fst g) = bc_assetId (snd p) \<and> bc_accountId (fst g) = bc_accountId (snd p)"
      using assms unfolding keys_apart_def by metis
    then show ?thesis using ok readBalance_cong by blast
  qed
  have fold: "length (foldl (group_results b ts src) rs gs) = length rs \<and>
    (\<forall>i < length rs. foldl (group_results b ts src) rs gs ! i =
       (if \<exists>g \<in> set gs. i \<in> fst ` set (snd g) then Some (result_of b ts src (cs ! i)) else rs ! i))"
    if "set gs \<subseteq> set ?gs" for rs gs
    using that
  proof (induction gs arbitrary: rs)
    case (Cons g' gs)
    have "g' \<in> set ?gs" using Cons.prems by simp
    note v = group_results_values [of g' cs b ts src rs, OF g [OF this]]
    show ?case using Cons.IH [of "group_results b ts src rs g'"] Cons.prems v by auto
  qed simp
  have all: "\<exists>g \<in> set ?gs. i \<in> fst ` set (snd g)" if "i < length cs" for i
    using read_groups_ok [of cs] that unfolding groups_ok_def by fastforce
  show ?thesis unfolding grouped_results_def
    using fold [OF order_refl, of "replicate (length cs) None"] all by (intro nth_equalityI) auto
qed

lemma map_filter_concat: "concat (map (\<lambda>x. case f x of None \<Rightarrow> [] | Some y \<Rightarrow> [y]) xs) = List.map_filter f xs"
  by (induction xs) (auto simp: map_filter_simps split: option.split)

lemma single_rows_exact: "keys_apart (map snd cs) \<Longrightarrow> single_rows b ts src cs = exact_rows b ts src cs"
  unfolding single_rows_def exact_rows_def Let_def
  by (simp add: grouped_results_exact map_filter_concat [symmetric] comp_def)
     (intro conjI arg_cong [of _ _ concat] map_cong refl; simp split: sum.split)

section \<open>Distinct observations\<close>

lemma unique_candidates_inv:
  "map fst (unique_candidates cs) = js_unique (map observationId cs)
   \<and> (\<forall>p \<in> set (unique_candidates cs). snd p \<in> set cs \<and> fst p = observationId (snd p))"
proof -
  let ?step = "\<lambda>(out, seen) c.
       if observationId c \<in> set seen then (out, seen)
       else (out @ [(observationId c, c)], set_add (observationId c) seen)"
  have "(let (out, seen) = foldl ?step ([], []) cs in seen = js_unique (map observationId cs) \<and> map fst out = seen
      \<and> (\<forall>p \<in> set out. snd p \<in> set cs \<and> fst p = observationId (snd p)))"
  proof (induction cs rule: rev_induct)
    case Nil
    show ?case by (simp add: js_unique_def)
  next
    case (snoc c cs)
    obtain out seen where st: "foldl ?step ([], []) cs = (out, seen)" by (cases "foldl ?step ([], []) cs")
    have ih: "seen = js_unique (map observationId cs)" "map fst out = seen"
      "\<forall>p \<in> set out. snd p \<in> set cs \<and> fst p = observationId (snd p)" using snoc unfolding st Let_def prod.case by blast+
    have "foldl ?step ([], []) (cs @ [c]) = ?step (out, seen) c" by (simp only: foldl_append foldl.simps st)
    then show ?case using ih by (auto simp: js_unique_snoc set_add_def)
  qed
  then show ?thesis unfolding unique_candidates_def by (auto simp add: split_def Let_def)
qed

lemma unique_candidates_distinct: "distinct (map fst (unique_candidates cs))"
  using unique_candidates_inv [of cs] by simp


lemma unique_candidates_sub: "snd ` set (unique_candidates cs) \<subseteq> set cs"
  using unique_candidates_inv [of cs] by auto

lemma keys_apart_sub: "keys_apart cs \<Longrightarrow> set cs' \<subseteq> set cs \<Longrightarrow> keys_apart cs'"
  unfolding keys_apart_def by blast

section \<open>Batched reads are single reads\<close>

text \<open>A storage whose pages answer key by key what a single read of the key answers.\<close>

definition pages_answer :: "('k, 'p, 'v) storage_item \<Rightarrow> bool" where
  "pages_answer it \<longleftrightarrow> (\<forall>ks vs. si_getMany it ks = Inr vs \<longrightarrow>
     length vs = length ks \<and> (\<forall>i < length ks. si_get it (ks ! i) = Inr (vs ! i)))"

text \<open>The balances of some candidates: each is the candidate's own, and none of the candidates is missing.\<close>

definition own_balances :: "balance_block \<Rightarrow> indexed_candidate list \<Rightarrow> (string, balance_read) jsmap \<Rightarrow> bool" where
  "own_balances b cs m \<longleftrightarrow> (\<forall>p \<in> set m. \<exists>c. (fst p, c) \<in> set cs \<and> readBalance b c = Inr (snd p))"

lemma own_balances_set:
  "own_balances b cs m \<Longrightarrow> (i, c) \<in> set cs \<Longrightarrow> readBalance b c = Inr r \<Longrightarrow> own_balances b cs (map_set i r m)"
  unfolding own_balances_def using map_set_entries [of i r m] by fastforce

lemma own_balances_ids:
  assumes "own_balances b cs m" "\<And>i. i \<in> set ids \<Longrightarrow> \<exists>c. (i, c) \<in> set cs \<and> readBalance b c = Inr r"
  shows "own_balances b cs (foldl (\<lambda>m i. map_set i r m) m ids)
    \<and> fst ` set (foldl (\<lambda>m i. map_set i r m) m ids) = fst ` set m \<union> set ids"
  using assms
proof (induction ids arbitrary: m)
  case (Cons i ids)
  obtain c where "(i, c) \<in> set cs" "readBalance b c = Inr r" using Cons.prems(2) by auto
  from Cons.IH [OF own_balances_set [OF Cons.prems(1) this]] Cons.prems(2) show ?case by auto
qed simp

lemma put_page_own:
  assumes "own_balances b cs m" "length vs = length page"
    and "\<And>j i. j < length page \<Longrightarrow> i \<in> set (ids (page ! j)) \<Longrightarrow>
      \<exists>c. (i, c) \<in> set cs \<and> readBalance b c = Inr (decode (value_or fallback (vs ! j)))"
  shows "own_balances b cs (put_page decode fallback ids page vs m)
    \<and> fst ` set (put_page decode fallback ids page vs m) = fst ` set m \<union> (\<Union>k \<in> set page. set (ids k))"
proof -
  let ?step = "\<lambda>m j. let balance = decode (value_or fallback (if j < length vs then vs ! j else None))
       in foldl (\<lambda>m i. map_set i balance m) m (ids (page ! j))"
  have "own_balances b cs (foldl ?step m [0..<n]) \<and> fst ` set (foldl ?step m [0..<n]) = fst ` set m \<union> (\<Union>j < n. set (ids (page ! j)))"
    if "n \<le> length page" for n
    using that
  proof (induction n)
    case 0
    show ?case using assms(1) by simp
  next
    case (Suc n)
    let ?m = "foldl ?step m [0..<n]"
    have ih: "own_balances b cs ?m" "fst ` set ?m = fst ` set m \<union> (\<Union>j < n. set (ids (page ! j)))" using Suc by simp_all
    have n: "n < length page" "n < length vs" using Suc.prems assms(2) by simp_all
    have "foldl ?step m [0..<Suc n] = foldl (\<lambda>m i. map_set i (decode (value_or fallback (vs ! n))) m) ?m (ids (page ! n))"
      using n by (simp add: Let_def)
    then show ?case using own_balances_ids [OF ih(1), OF assms(3) [OF n(1)]] ih(2) by (auto simp: lessThan_Suc)
  qed
  from this [OF order_refl] show ?thesis
    unfolding put_page_def by (auto simp: set_conv_nth)
qed

lemma read_pages_own:
  assumes "own_balances b cs m" "read_pages (si_getMany it) decode (si_default it) ids pages m = Inr out" "pages_answer it"
    and "\<And>k i r. k \<in> set (concat pages) \<Longrightarrow> i \<in> set (ids k) \<Longrightarrow> read_item it decode k = Inr r \<Longrightarrow>
      \<exists>c. (i, c) \<in> set cs \<and> readBalance b c = Inr r"
  shows "own_balances b cs out \<and> fst ` set out = fst ` set m \<union> (\<Union>k \<in> set (concat pages). set (ids k))"
  using assms
proof (induction pages arbitrary: m)
  case (Cons page pages)
  obtain vs where vs: "si_getMany it page = Inr vs" using Cons.prems(2) by (cases "si_getMany it page") auto
  have ans: "length vs = length page" "\<And>j. j < length page \<Longrightarrow> si_get it (page ! j) = Inr (vs ! j)"
    using Cons.prems(3) vs by (auto simp: pages_answer_def)
  have "\<exists>c. (i, c) \<in> set cs \<and> readBalance b c = Inr (decode (value_or (si_default it) (vs ! j)))"
    if "j < length page" "i \<in> set (ids (page ! j))" for i j
    using Cons.prems(4) [of "page ! j" i] that ans(2) by (simp add: read_item_def)
  note p = put_page_own [of b cs m vs page ids decode "si_default it", OF Cons.prems(1) ans(1) this]
  have rest: "read_pages (si_getMany it) decode (si_default it) ids pages (put_page decode (si_default it) ids page vs m) = Inr out"
    using Cons.prems(2) vs by simp
  have "\<exists>c. (i, c) \<in> set cs \<and> readBalance b c = Inr r"
    if "k \<in> set (concat pages)" "i \<in> set (ids k)" "read_item it decode k = Inr r" for k i r
    by (rule Cons.prems(4) [OF _ that(2,3)]) (use that(1) in simp)
  from Cons.IH [OF conjunct1 [OF p] rest Cons.prems(3) this] p show ?case by auto
qed simp

lemma positive_setting_bounds: "0 < fallback \<Longrightarrow> fallback \<le> most \<Longrightarrow> 0 < positive_setting s fallback most \<and> positive_setting s fallback most \<le> most"
  by (auto simp: positive_setting_def split: option.split)

lemma page_size_positive: "0 < balanceReadBatchSize env"
  using positive_setting_bounds [of 250 1000] by (simp add: balanceReadBatchSize_def)

lemma chunk_concat: "0 < sz \<Longrightarrow> \<exists>cs. chunk xs sz = Some cs \<and> concat cs = xs"
  using concat_slices [of "nat sz" xs] chunk_from_slices [of sz 0 xs] by (simp add: chunk_def)

lemma read_many_own:
  assumes "read_many it decode (balanceReadBatchSize env) groups = Inr out" "pages_answer it"
    and "\<And>k i r. i \<in> set (ids_of groups k) \<Longrightarrow> read_item it decode k = Inr r \<Longrightarrow> \<exists>c. (i, c) \<in> set cs \<and> readBalance b c = Inr r"
  shows "own_balances b cs out \<and> fst ` set out = (\<Union>k \<in> set (map_keys groups). set (ids_of groups k))"
proof -
  obtain pages where p: "chunk (map_keys groups) (balanceReadBatchSize env) = Some pages" "concat pages = map_keys groups"
    using chunk_concat [OF page_size_positive] by blast
  have "own_balances b cs []" by (simp add: own_balances_def)
  from read_pages_own [OF this _ assms(2), of decode "ids_of groups" pages out] assms(1,3) p
  show ?thesis by (auto simp: read_many_def)
qed

lemma ids_of_add_group: "ids_of (add_group k x m) k' = (if k' = k then ids_of m k @ [x] else ids_of m k')"
  by (auto simp: ids_of_def add_group_def split: option.split)

lemma add_group_keys: "fst ` set (add_group k x m) = insert k (fst ` set m)"
  by (auto simp: add_group_def split: option.split)

lemma group_fold_ids:
  "set (ids_of (foldl (\<lambda>m (i, c). add_group (f c) i m) m cs) k) = set (ids_of m k) \<union> {i. \<exists>c. (i, c) \<in> set cs \<and> f c = k}
   \<and> fst ` set (foldl (\<lambda>m (i, c). add_group (f c) i m) m cs) = fst ` set m \<union> f ` snd ` set cs"
proof (induction cs arbitrary: m)
  case (Cons p cs)
  obtain i c where p: "p = (i, c)" by (cases p)
  from Cons.IH [of "add_group (f c) i m"] show ?case by (auto simp: p ids_of_add_group add_group_keys)
qed simp

lemma token_key_inj: "token_key k = token_key k' \<Longrightarrow> k = k'"
proof -
  assume "token_key k = token_key k'"
  then have "rev (int_to_string (snd k)) @ CHR '':'' # rev (fst k) = rev (int_to_string (snd k')) @ CHR '':'' # rev (fst k')"
    by (metis (no_types, lifting) append_Cons append_Nil append_assoc rev.simps(2) rev_append token_key_def)
  from sep_inj [OF _ _ this] int_to_string_no_colon have "int_to_string (snd k) = int_to_string (snd k')" "fst k = fst k'"
    by simp_all
  then show ?thesis by (simp add: prod_eq_iff)
qed

definition token_groups_wf :: "(string, (string \<times> int) \<times> string list) jsmap \<Rightarrow> bool" where
  "token_groups_wf m \<longleftrightarrow> (\<forall>e \<in> set m. fst e = token_key (fst (snd e)))"

lemma token_groups_lookup: "token_groups_wf m \<Longrightarrow> map_of (map snd m) k = map_option snd (map_of m (token_key k))"
  by (induction m) (auto simp: token_groups_wf_def dest: token_key_inj)

lemma token_ids:
  "token_groups_wf m \<Longrightarrow> ids_of (map snd m) k = (case map_of m (token_key k) of None \<Rightarrow> [] | Some q \<Rightarrow> snd q)"
  by (simp add: ids_of_def token_groups_lookup split: option.split)

lemma token_groups_ids:
  assumes "token_groups cs m = Inr out" "token_groups_wf m"
  shows "token_groups_wf out
    \<and> set (ids_of (map snd out) k) = set (ids_of (map snd m) k)
        \<union> {i. \<exists>c n. (i, c) \<in> set cs \<and> numeric_asset (bc_assetId c) = Inr n \<and> k = (bc_accountId c, n)}
    \<and> fst ` set (map snd out) = fst ` set (map snd m) \<union> {k. \<exists>i c n. (i, c) \<in> set cs \<and> numeric_asset (bc_assetId c) = Inr n \<and> k = (bc_accountId c, n)}
    \<and> (\<forall>(i, c) \<in> set cs. \<exists>n. numeric_asset (bc_assetId c) = Inr n)"
  using assms
proof (induction cs arbitrary: m)
  case Nil
  then show ?case by simp
next
  case (Cons p cs)
  obtain i c where p: "p = (i, c)" by (cases p)
  obtain n where n: "numeric_asset (bc_assetId c) = Inr n" using Cons.prems(1) p by (cases "numeric_asset (bc_assetId c)") auto
  let ?k = "(bc_accountId c, n)"
  define g where "g = (case map_of m (token_key ?k) of None \<Rightarrow> (?k, [i]) | Some (k, ids) \<Rightarrow> (k, ids @ [i]))"
  have out: "token_groups cs (map_set (token_key ?k) g m) = Inr out"
    using Cons.prems(1) p n by (auto simp: g_def Let_def split: option.splits)
  have held: "fst q = ?k" if "map_of m (token_key ?k) = Some q" for q
    using map_of_in_set [OF that] Cons.prems(2) token_key_inj by (fastforce simp: token_groups_wf_def)
  have g: "fst g = ?k" "set (snd g) = insert i (set (ids_of (map snd m) ?k))"
    using held by (auto simp: g_def token_ids [OF Cons.prems(2)] split: option.split)
  have wf: "token_groups_wf (map_set (token_key ?k) g m)"
    using Cons.prems(2) g(1) map_set_entries [of "token_key ?k" g m] unfolding token_groups_wf_def by fastforce
  have ids: "set (ids_of (map snd (map_set (token_key ?k) g m)) k) = (if k = ?k then insert i (set (ids_of (map snd m) ?k)) else set (ids_of (map snd m) k))"
    for k
  proof (cases "k = ?k")
    case True
    then show ?thesis using g(2) by (simp add: token_ids [OF wf])
  next
    case False
    then have "token_key k \<noteq> token_key ?k" using token_key_inj by blast
    with False show ?thesis by (simp add: token_ids [OF wf] token_ids [OF Cons.prems(2)])
  qed
  have dom: "k \<in> fst ` set (map snd m') \<longleftrightarrow> map_has m' (token_key k)" if "token_groups_wf m'" for k m'
    using token_groups_lookup [OF that, of k] unfolding map_has_iff by (metis map_of_eq_None_iff map_option_is_None)
  have "k \<in> fst ` set (map snd (map_set (token_key ?k) g m)) \<longleftrightarrow> k \<in> insert ?k (fst ` set (map snd m))" for k
    unfolding insert_iff dom [OF wf] dom [OF Cons.prems(2)] map_has_set using token_key_inj [of k ?k] by blast
  then have keys: "fst ` set (map snd (map_set (token_key ?k) g m)) = insert ?k (fst ` set (map snd m))" by blast
  let ?ids = "\<lambda>cs. {i. \<exists>c n. (i, c) \<in> set cs \<and> numeric_asset (bc_assetId c) = Inr n \<and> k = (bc_accountId c, n)}"
    and ?keys = "\<lambda>cs. {k. \<exists>i c n. (i, c) \<in> set cs \<and> numeric_asset (bc_assetId c) = Inr n \<and> k = (bc_accountId c, n)}"
  have sets: "?ids (p # cs) = (if k = ?k then {i} else {}) \<union> ?ids cs" "?keys (p # cs) = insert ?k (?keys cs)"
    using n by (auto simp: p)
  note ih = Cons.IH [OF out wf]
  show ?case
  proof (intro conjI)
    show "token_groups_wf out" using ih by blast
    show "set (ids_of (map snd out) k) = set (ids_of (map snd m) k) \<union> ?ids (p # cs)"
      using ih ids [of k] unfolding sets by (simp split: if_splits)
    show "fst ` set (map snd out) = fst ` set (map snd m) \<union> ?keys (p # cs)"
      using ih unfolding sets keys by blast
    show "\<forall>(i, c) \<in> set (p # cs). \<exists>n. numeric_asset (bc_assetId c) = Inr n"
      using ih n by (simp add: p)
  qed
qed

definition reads_answer :: "balance_block \<Rightarrow> bool" where
  "reads_answer b \<longleftrightarrow> pages_answer (bb_account205 b) \<and> pages_answer (bb_account100 b) \<and> pages_answer (bb_tokens b)"

lemma keyed_union: "(\<Union>k \<in> f ` snd ` set cs. {i. \<exists>c. (i, c) \<in> set cs \<and> f c = k}) = fst ` set cs"
  by force

lemma native_own:
  assumes "readNativeBalances env b cs = Inr m" "reads_answer b" "\<And>p. p \<in> set cs \<Longrightarrow> bc_assetId (snd p) = NATIVE_ASSET_ID"
  shows "own_balances b cs m \<and> fst ` set m = fst ` set cs"
proof (cases "cs = []")
  case True
  then show ?thesis using assms(1) by (simp add: readNativeBalances_def own_balances_def)
next
  case False
  define g where "g = foldl (\<lambda>m (i, c). add_group (bc_accountId c) i m) [] cs"
  have ids: "set (ids_of g k) = {i. \<exists>c. (i, c) \<in> set cs \<and> bc_accountId c = k}" for k
    using group_fold_ids [of bc_accountId "[]" cs k] by (simp add: g_def ids_of_def)
  have keys: "set (map_keys g) = bc_accountId ` snd ` set cs" using group_fold_ids [of bc_accountId "[]" cs] by (simp add: g_def)
  have all: "(\<Union>k \<in> set (map_keys g). set (ids_of g k)) = fst ` set cs" unfolding keys ids by (rule keyed_union)
  have cand: "\<exists>c. (i, c) \<in> set cs \<and> readBalance b c = Inr r" if "i \<in> set (ids_of g k)" "readNativeBalance b k = Inr r" for i k r
    using that assms(3) unfolding ids by (force simp: readBalance_def)
  show ?thesis
  proof (cases "si_is (bb_account205 b)")
    case True
    then have "read_many (bb_account205 b) nativeV205Balance (balanceReadBatchSize env) g = Inr m"
      using assms(1) False by (simp add: readNativeBalances_def g_def [symmetric] Let_def)
    from read_many_own [OF this, of cs b] cand assms(2) True all show ?thesis by (simp add: reads_answer_def readNativeBalance_def)
  next
    case f: False
    show ?thesis
    proof (cases "si_is (bb_account100 b)")
      case True
      then have "read_many (bb_account100 b) nativeV100Balance (balanceReadBatchSize env) g = Inr m"
        using assms(1) False f by (simp add: readNativeBalances_def g_def [symmetric] Let_def)
      from read_many_own [OF this, of cs b] cand assms(2) True f all show ?thesis by (simp add: reads_answer_def readNativeBalance_def)
    next
      case False
      then show ?thesis using assms(1) f \<open>cs \<noteq> []\<close> by (simp add: readNativeBalances_def Let_def)
    qed
  qed
qed

lemma token_own:
  assumes "readTokenBalances env b cs = Inr m" "reads_answer b" "\<And>p. p \<in> set cs \<Longrightarrow> bc_assetId (snd p) \<noteq> NATIVE_ASSET_ID"
  shows "own_balances b cs m \<and> fst ` set m = fst ` set cs"
proof (cases "cs = []")
  case True
  then show ?thesis using assms(1) by (simp add: readTokenBalances_def own_balances_def)
next
  case False
  then have supported: "si_is (bb_tokens b)" using assms(1) by (auto simp: readTokenBalances_def split: if_splits)
  obtain g where g: "token_groups cs [] = Inr g"
    using assms(1) False supported by (cases "token_groups cs []") (auto simp: readTokenBalances_def)
  have r: "read_many (bb_tokens b) tokenBalance (balanceReadBatchSize env) (map snd g) = Inr m"
    using assms(1) False supported g by (simp add: readTokenBalances_def)
  have wf0: "token_groups_wf []" by (simp add: token_groups_wf_def)
  have ids: "set (ids_of (map snd g) k) = {i. \<exists>c n. (i, c) \<in> set cs \<and> numeric_asset (bc_assetId c) = Inr n \<and> k = (bc_accountId c, n)}" for k
    using token_groups_ids [OF g wf0, of k] by (simp add: ids_of_def)
  have keys: "set (map_keys (map snd g)) = {k. \<exists>i c n. (i, c) \<in> set cs \<and> numeric_asset (bc_assetId c) = Inr n \<and> k = (bc_accountId c, n)}"
    and num: "\<forall>(i, c) \<in> set cs. \<exists>n. numeric_asset (bc_assetId c) = Inr n"
    using token_groups_ids [OF g wf0] by (simp_all add: image_comp comp_def)
  have all: "(\<Union>k \<in> set (map_keys (map snd g)). set (ids_of (map snd g) k)) = fst ` set cs"
    unfolding keys ids using num by force
  have "\<exists>c. (i, c) \<in> set cs \<and> readBalance b c = Inr r"
    if "i \<in> set (ids_of (map snd g) k)" "read_item (bb_tokens b) tokenBalance k = Inr r" for i k r
    using that assms(3) supported unfolding ids by (force simp: readBalance_def readTokenBalance_def)
  from read_many_own [OF r, of cs b, OF _ this] assms(2) all show ?thesis by (simp add: reads_answer_def)
qed

lemma merged_own:
  assumes "\<And>p. p \<in> set xs \<Longrightarrow> \<exists>c. (fst p, c) \<in> set cs \<and> readBalance b c = Inr (snd p)" "own_balances b cs m"
  shows "own_balances b cs (foldl (\<lambda>m (i, r). map_set i r m) m xs)
    \<and> fst ` set (foldl (\<lambda>m (i, r). map_set i r m) m xs) = fst ` set m \<union> fst ` set xs"
  using assms
proof (induction xs arbitrary: m)
  case (Cons p xs)
  obtain i r where p: "p = (i, r)" by (cases p)
  obtain c where c: "(i, c) \<in> set cs" "readBalance b c = Inr r" using Cons.prems(1) [of p] by (auto simp: p)
  from Cons.IH [OF _ own_balances_set [OF Cons.prems(2) c]] Cons.prems(1) show ?case by (auto simp: p)
qed simp

lemma batched_own:
  assumes "readBalancesBatched env b cs = Inr m" "reads_answer b"
  shows "own_balances b cs m \<and> fst ` set m = fst ` set cs"
proof -
  let ?n = "filter (\<lambda>p. bc_assetId (snd p) = NATIVE_ASSET_ID) cs" and ?t = "filter (\<lambda>p. bc_assetId (snd p) \<noteq> NATIVE_ASSET_ID) cs"
  obtain n t where nt: "readNativeBalances env b ?n = Inr n" "readTokenBalances env b ?t = Inr t"
      "m = foldl (\<lambda>m (i, r). map_set i r m) [] (n @ t)"
    using assms(1) by (cases "readNativeBalances env b ?n"; cases "readTokenBalances env b ?t") (auto simp: readBalancesBatched_def split_def)
  have n: "own_balances b ?n n" "fst ` set n = fst ` set ?n" using native_own [OF nt(1) assms(2)] by (simp_all add: split_def)
  have t: "own_balances b ?t t" "fst ` set t = fst ` set ?t" using token_own [OF nt(2) assms(2)] by (simp_all add: split_def)
  have own: "\<exists>c. (fst p, c) \<in> set cs \<and> readBalance b c = Inr (snd p)" if "p \<in> set (n @ t)" for p
    using that n(1) t(1) unfolding own_balances_def by fastforce
  have "fst ` set (n @ t) = fst ` set cs" using n(2) t(2) by (force simp: image_Un)
  moreover have nil: "own_balances b cs []" by (simp add: own_balances_def)
  from merged_own [of "n @ t", OF own nil]
  have "own_balances b cs m" "fst ` set m = fst ` set (n @ t)" unfolding nt(3) by simp_all
  ultimately show ?thesis by metis
qed

lemma batched_rows_exact:
  assumes "own_balances b cs m" "fst ` set m = fst ` set cs" "distinct (map fst cs)"
  shows "batched_rows b ts src cs m = exact_rows b ts src cs"
proof -
  have look: "\<exists>r. map_of m (fst p) = Some r \<and> readBalance b (snd p) = Inr r" if p: "p \<in> set cs" for p
  proof -
    have "map_of m (fst p) \<noteq> None" using p assms(2) by (metis image_eqI map_of_eq_None_iff)
    then obtain r where r: "map_of m (fst p) = Some r" by blast
    obtain c where c: "(fst p, c) \<in> set cs" "readBalance b c = Inr r"
      using assms(1) map_of_in_set [OF r] by (fastforce simp: own_balances_def)
    then have "c = snd p" using assms(3) p by (metis eq_key_imp_eq_value prod.collapse)
    with r c show ?thesis by blast
  qed
  have "map (\<lambda>(i, c). case map_of m i of None \<Rightarrow> [] | Some r \<Rightarrow> [observationRow b ts src i c r]) cs =
      map (\<lambda>p. case (case result_of b ts src p of Inr row \<Rightarrow> Some row | Inl _ \<Rightarrow> None) of None \<Rightarrow> [] | Some y \<Rightarrow> [y]) cs"
    by (intro map_cong refl) (use look in \<open>force simp: result_of_def\<close>)
  moreover have "map (\<lambda>(i, c). case map_of m i of
        None \<Rightarrow> [read_warning b ts src c ''Batched post-state balance read did not return a result''] | Some r \<Rightarrow> []) cs =
      map (\<lambda>p. case (case result_of b ts src p of Inl w \<Rightarrow> Some w | Inr _ \<Rightarrow> None) of None \<Rightarrow> [] | Some y \<Rightarrow> [y]) cs"
    by (intro map_cong refl) (use look in \<open>force simp: result_of_def\<close>)
  ultimately show ?thesis unfolding batched_rows_def exact_rows_def map_filter_concat [symmetric] by (simp only:)
qed

text \<open>
  Every candidate becomes the row its own storage read gives, or the warning of its failed read, once per observation and in
  order, whether balances are read one by one or in batches, for pages of any size.
\<close>

lemma build_rows_exact:
  assumes "keys_apart cs" "balanceBatchReadsEnabled env \<Longrightarrow> reads_answer b"
  shows "buildRowsFromCandidates env b ts src cs = exact_rows b ts src (unique_candidates cs)"
proof -
  have "keys_apart (map snd (unique_candidates cs))"
    by (rule keys_apart_sub [OF assms(1)]) (use unique_candidates_sub in auto)
  note single = single_rows_exact [OF this, of b ts src]
  show ?thesis
  proof (cases "balanceBatchReadsEnabled env")
    case True
    show ?thesis
    proof (cases "readBalancesBatched env b (unique_candidates cs)")
      case (Inr m)
      from batched_own [OF Inr assms(2) [OF True]] unique_candidates_distinct
      have "batched_rows b ts src (unique_candidates cs) m = exact_rows b ts src (unique_candidates cs)"
        by (intro batched_rows_exact) blast+
      then show ?thesis using True Inr by (simp add: buildRowsFromCandidates_def)
    qed (simp add: buildRowsFromCandidates_def Let_def single)
  qed (simp add: buildRowsFromCandidates_def Let_def single)
qed

section \<open>The candidates of a block\<close>

text \<open>What every candidate of the module is: a substrate balance of a 32-byte account, its asset in decimal digits.\<close>

definition decimal_text :: "string \<Rightarrow> bool" where
  "decimal_text s \<longleftrightarrow> (\<forall>ch \<in> set s. is_dec_digit ch \<or> ch = CHR ''-'')"

definition candidate_ok :: "balance_candidate \<Rightarrow> bool" where
  "candidate_ok c \<longleftrightarrow> bc_assetKind c = ''substrate'' \<and> length (bc_accountId c) = 66 \<and> decimal_text (bc_assetId c)"

lemma candidates_keys_apart:
  assumes "\<And>c. c \<in> set cs \<Longrightarrow> candidate_ok c"
  shows "keys_apart cs"
  unfolding keys_apart_def
proof (intro ballI impI)
  fix c c' assume c: "c \<in> set cs" "c' \<in> set cs" "read_key c = read_key c'"
  have no: "CHR '':'' \<notin> set (bc_assetId q)" if "candidate_ok q" for q
    using that by (auto simp: candidate_ok_def decimal_text_def)
  have "bc_assetId c @ CHR '':'' # bc_accountId c = bc_assetId c' @ CHR '':'' # bc_accountId c'"
    using c assms by (simp add: read_key_def candidate_ok_def)
  from sep_inj [OF no no this] c assms show "bc_assetId c = bc_assetId c' \<and> bc_accountId c = bc_accountId c'" by blast
qed

lemma normalizeAccountId_length: "normalizeAccountId ss58 v = Some a \<Longrightarrow> length a = 66"
  by (auto simp: normalizeAccountId_def ss58_account_def ACCOUNT_ID_HEX_LENGTH_def split: option.splits if_splits json.splits)

lemma derived_length: "normalizeH160 v = Some h \<Longrightarrow> length (projr (deriveTruncatedAccountId h)) = 66"
  using normalizeH160_form [of v h] by (simp add: derive_form)

lemma visited_account_length: "visited_account ss58 v k = Some a \<Longrightarrow> length a = 66"
  by (auto simp: visited_account_def normalizeAccountId_length derived_length split: option.splits if_splits)

lemma account_visit_length: "a \<in> set (account_visit ss58 v k) \<Longrightarrow> length a = 66"
proof (induction ss58 v k rule: account_visit.induct)
  case (1 ss58 v k)
  show ?case
  proof (cases "visited_account ss58 v k")
    case None
    then show ?thesis using 1 account_visit.simps [of ss58 v k] by (auto split: json.splits if_splits)
  next
    case (Some acc)
    then show ?thesis using 1(3) account_visit.simps [of ss58 v k] visited_account_length by auto
  qed
qed

lemma collectAccounts_length: "a \<in> set (collectAccounts ss58 v) \<Longrightarrow> length a = 66"
  using account_visit_length by (simp add: collectAccounts_def)

lemma decimal_int [simp]: "decimal_text (int_to_string n)"
  by (auto simp: decimal_text_def int_to_string_def dest: nat_to_string_digits)

lemma decimal_native [simp]: "decimal_text NATIVE_ASSET_ID"
  by (auto simp: decimal_text_def NATIVE_ASSET_ID_def is_dec_digit_def)

lemma if_Some: "(if P then x else y) = Some s \<Longrightarrow> x = Some s \<or> y = Some s"
  by (cases P) auto

lemma assetIdFromUnknown_decimal: "assetIdFromUnknown v = Some s \<Longrightarrow> decimal_text s"
proof (induction v arbitrary: s rule: assetIdFromUnknown.induct)
  case (3 s')
  then show ?case by (auto simp: decimal_text_def list_all_iff split: if_splits)
next
  case (4 ps)
  have n: "(case map_of ps key of None \<Rightarrow> None | Some v \<Rightarrow> assetIdFromUnknown v) = Some s \<Longrightarrow> decimal_text s" for key s
    using 4(1) by (auto split: option.splits)
  show ?case using if_Some [OF 4(2) [unfolded assetIdFromUnknown.simps Let_def]] n unfolding pick_iff by blast
qed (auto split: if_splits)

lemma asset_visit_cases:
  assumes "a \<in> set (asset_visit v k)"
  obtains (own) "assetIdFromUnknown v = Some a"
    | (arr) xs x where "v = JArr xs" "x \<in> set xs" "a \<in> set (asset_visit x [])"
    | (obj) ps key y where "v = JObj ps" "(key, y) \<in> set ps" "a \<in> set (asset_visit y key)"
proof -
  have "assetIdFromUnknown v = Some a \<or> a \<in> set (case v of
          JArr items \<Rightarrow> concat (map (\<lambda>i. asset_visit i []) items)
        | JObj ps \<Rightarrow> concat (map (\<lambda>(key, nested). asset_visit nested key) ps)
        | _ \<Rightarrow> [])"
    using assms [unfolded asset_visit.simps [of v k]] by (cases "asset_hint k"; cases "assetIdFromUnknown v") (simp_all, blast)
  then show thesis
  proof
    assume "a \<in> set (case v of
          JArr items \<Rightarrow> concat (map (\<lambda>i. asset_visit i []) items)
        | JObj ps \<Rightarrow> concat (map (\<lambda>(key, nested). asset_visit nested key) ps)
        | _ \<Rightarrow> [])"
    then show thesis using arr obj by (cases v) auto
  qed (rule own)
qed

lemma asset_visit_decimal: "a \<in> set (asset_visit v k) \<Longrightarrow> decimal_text a"
proof (induction v k rule: asset_visit.induct)
  case (1 v k)
  from 1(3) show ?case
  proof (cases rule: asset_visit_cases)
    case own
    then show ?thesis by (rule assetIdFromUnknown_decimal)
  next
    case (arr xs x)
    then show ?thesis using 1(1) by blast
  next
    case (obj ps key y)
    then show ?thesis using 1(2) by blast
  qed
qed

lemma collectAssets_decimal: "a \<in> set (collectAssets v) \<Longrightarrow> decimal_text a"
  using asset_visit_decimal by (simp add: collectAssets_def)

lemma event_candidates_ok: "c \<in> set (candidatesFromEvent ss58 e) \<Longrightarrow> candidate_ok c"
  using collectAccounts_length collectAssets_decimal decimal_native
  by (fastforce simp: candidatesFromEvent_def Let_def event_candidate_def candidate_ok_def split: if_splits)

lemma call_candidates_ok: "c \<in> set (cc_candidates (candidatesFromCall ss58 call)) \<Longrightarrow> candidate_ok c"
  using collectAccounts_length collectAssets_decimal decimal_native
  by (fastforce simp: candidatesFromCall_def Let_def call_candidate_def candidate_ok_def split: if_splits)

lemma decoded_key_ok: "decodeBalanceStorageKey ss58 xx key = Some d \<Longrightarrow> length (dk_accountId d) = 66 \<and> decimal_text (dk_assetId d)"
  by (auto simp: decodeBalanceStorageKey_def Let_def normalizeAccountId_length split: if_splits option.splits)

lemma storage_candidate_ok: "fst (extractStorageBalanceCandidate ss58 xx key call ts src) = Some c \<Longrightarrow> candidate_ok c"
  using decoded_key_ok [of ss58 xx "to_lower key"]
  by (auto simp: extractStorageBalanceCandidate_def Let_def key_candidate_def candidate_ok_def split: if_splits option.splits)

lemma map_filter_set: "y \<in> set (List.map_filter f xs) \<longleftrightarrow> (\<exists>x \<in> set xs. f x = Some y)"
  by (induction xs) (auto simp: map_filter_simps split: option.splits)

lemma call_step_ok:
  assumes "\<And>c. c \<in> set (fst st) \<Longrightarrow> candidate_ok c" "c \<in> set (fst (call_step ss58 xx ts src st call))"
  shows "candidate_ok c"
proof (cases "name_or_empty (rc_name call) = ''System.set_storage''")
  case True
  then have "c \<in> set (fst st) \<or> c \<in> set (List.map_filter fst (set_storage_results ss58 xx ts src call))"
    using assms(2) by (auto simp: call_step_def split_def Let_def)
  then show ?thesis using assms(1) storage_candidate_ok by (auto simp: map_filter_set set_storage_results_def)
next
  case False
  then have "c \<in> set (fst st) \<or> c \<in> set (cc_candidates (candidatesFromCall ss58 call))"
    using assms(2) by (auto simp: call_step_def split_def Let_def)
  then show ?thesis using assms(1) call_candidates_ok by blast
qed

lemma block_candidates_ok:
  assumes "\<And>c. c \<in> set initial \<Longrightarrow> candidate_ok c"
  shows "c \<in> set (fst (block_candidates ss58 xx ts src initial events calls)) \<Longrightarrow> candidate_ok c"
proof -
  have fold: "\<forall>c \<in> set (fst (foldl (call_step ss58 xx ts src) st calls)). candidate_ok c"
    if "\<forall>c \<in> set (fst st). candidate_ok c" for st
    using that
  proof (induction calls arbitrary: st)
    case (Cons call calls)
    have "\<forall>c \<in> set (fst (call_step ss58 xx ts src st call)). candidate_ok c" using call_step_ok Cons.prems by blast
    then show ?case using Cons.IH by simp
  qed simp
  have "\<forall>c \<in> set (initial @ concat (map (candidatesFromEvent ss58) events)). candidate_ok c"
    using assms event_candidates_ok by auto
  with fold show "c \<in> set (fst (block_candidates ss58 xx ts src initial events calls)) \<Longrightarrow> candidate_ok c"
    unfolding block_candidates_def by (metis fst_conv)
qed

lemma bootstrap_ok: "genesisBootstrapCandidates ss58 env b = Inr cs \<Longrightarrow> c \<in> set cs \<Longrightarrow> candidate_ok c"
  using normalizeAccountId_length decimal_int decimal_native
  by (auto simp: genesisBootstrapCandidates_def Let_def bootstrap_candidate_def candidate_ok_def or_fail_def
      split: if_splits sum.splits option.splits)

section \<open>The rows of a block\<close>

text \<open>
  Dropping unbacked Currencies candidates loses no balance another source names: the pairs that remain are those of the other
  sources, all of whose candidates stay.
\<close>

lemma unbacked_only:
  "read_key ` set (withoutUnbackedCurrenciesCandidates cs) = read_key ` {c \<in> set cs. \<not> is_currencies c}
   \<and> (\<forall>c \<in> set cs. \<not> is_currencies c \<longrightarrow> c \<in> set (withoutUnbackedCurrenciesCandidates cs))"
  by (auto simp: withoutUnbackedCurrenciesCandidates_def Let_def)






text \<open>C4: Batching is invisible. As long as the node answers a page of keys with what it answers for each key, and both
  settings bootstrap the genesis with the same page size, the rows and warnings of a block do not depend on whether reads
  are batched, nor on the size of a batch.
\<close>

lemma batching_invisible:
  assumes "reads_answer b" "be_bootstrapPageSize env = be_bootstrapPageSize env'" "\<And>c. c \<in> set extra \<Longrightarrow> candidate_ok c"
  shows "extractBalanceObservations ss58 xx env b ts events calls src extra =
    extractBalanceObservations ss58 xx env' b ts events calls src extra"
proof -
  have boot: "genesisBootstrapCandidates ss58 env b = genesisBootstrapCandidates ss58 env' b"
    using assms(2) by (simp add: genesisBootstrapCandidates_def)
  show ?thesis
  proof (cases "genesisBootstrapCandidates ss58 env b")
    case (Inl e)
    then show ?thesis using boot by (simp add: extractBalanceObservations_def)
  next
    case (Inr bs)
    let ?cs = "withoutUnbackedCurrenciesCandidates (fst (block_candidates ss58 xx ts src (extra @ bs) events calls))"
    have "candidate_ok c" if "c \<in> set (extra @ bs)" for c using that assms(3) bootstrap_ok [OF Inr] by auto
    from block_candidates_ok [where initial = "extra @ bs", OF this] have "candidate_ok c" if "c \<in> set ?cs" for c
      using that by (auto simp: withoutUnbackedCurrenciesCandidates_def Let_def)
    then have k: "keys_apart ?cs" by (rule candidates_keys_apart)
    show ?thesis using Inr boot build_rows_exact [OF k assms(1), where env = env and ts = ts and src = src]
        build_rows_exact [OF k assms(1), where env = env' and ts = ts and src = src]
      by (simp add: extractBalanceObservations_def split_def Let_def)
  qed
qed

section \<open>Storage keys read back\<close>

definition byte_text :: "nat \<Rightarrow> string" where
  "byte_text n = [digit_char (n div 16), digit_char (n mod 16)]"

text \<open>An unsigned number in so many bytes, least significant first, as hexadecimal text.\<close>

fun le_hex :: "nat \<Rightarrow> nat \<Rightarrow> string" where
  "le_hex 0 n = []"
| "le_hex (Suc k) n = byte_text (n mod 256) @ le_hex k (n div 256)"

lemma le_hex_length [simp]: "length (le_hex k n) = 2 * k"
  by (induction k arbitrary: n) (auto simp: byte_text_def)

lemma le_hex_value: "n < 256 ^ k \<Longrightarrow> little_endian (hex_bytes (le_hex k n)) = n"
proof (induction k arbitrary: n)
  case (Suc k)
  have d: "n mod 256 div 16 < 16" "n mod 256 mod 16 < 16" by simp_all
  have "n div 256 < 256 ^ k" using Suc.prems by (simp add: less_mult_imp_div_less mult.commute)
  then have "little_endian (hex_bytes (le_hex k (n div 256))) = n div 256" by (rule Suc.IH)
  then show ?case using d by (simp add: byte_text_def)
qed simp

lemma decode_le_hex: "0 < k \<Longrightarrow> k \<le> 6 \<Longrightarrow> n < 256 ^ k \<Longrightarrow> decodeLittleEndianUInt (le_hex k n) = Some (int n)"
proof -
  assume k: "0 < k" "k \<le> 6" "n < 256 ^ k"
  have "(256::nat) ^ k \<le> 256 ^ 6" using k by (intro power_increasing) simp_all
  then have "n < 281474976710656" using k by simp
  then show ?thesis using k by (simp add: decodeLittleEndianUInt_def le_hex_value is_safe_integer_def MAX_SAFE_INTEGER_def)
qed

lemma starts_with_append: "starts_with p (p @ s)"
  by (simp add: starts_with_def)

text \<open>C7: Storage keys read back. The key of an account's native balance, and that of an account's balance of an asset, decode
  to that account and asset whatever the case of their letters and whatever the two hashes inside, for every 32-bit asset.
\<close>

theorem storage_key_roundtrip:
  assumes "length (system_prefix xx) = length (tokens_prefix xx)" "system_prefix xx \<noteq> tokens_prefix xx"
    and "hex_form acc" "length acc = 66" "length h1 = 32" "length h2 = 16" "n < 2 ^ 32"
    and "to_lower key = tokens_prefix xx @ h1 @ drop 2 acc @ h2 @ le_hex 4 n"
    and "to_lower key0 = system_prefix xx @ h1 @ drop 2 acc"
  shows "decodeBalanceStorageKey ss58 xx key =
      Some \<lparr>dk_storageItem = Tokens_Accounts, dk_accountId = acc, dk_assetId = nat_to_string n\<rparr>
    \<and> decodeBalanceStorageKey ss58 xx key0 =
      Some \<lparr>dk_storageItem = System_Account, dk_accountId = acc, dk_assetId = NATIVE_ASSET_ID\<rparr>"
proof -
  have acc: "''0x'' @ drop 2 acc = acc" using hex_form_0x [OF assms(3)] by simp
  have norm: "normalizeAccountId ss58 (JStr acc) = Some acc" by (rule normalizeAccountId_id [OF assms(3,4)])
  have other: "\<not> starts_with (system_prefix xx) (tokens_prefix xx @ s)" for s
    using assms(1,2) by (simp add: starts_with_def)
  have account: "hex_slice 32 96 (h1 @ drop 2 acc @ s) = drop 2 acc" for s
    using assms(4,5) by (simp add: hex_slice_def)
  have asset: "hex_slice 112 120 (h1 @ drop 2 acc @ h2 @ le_hex 4 n) = le_hex 4 n"
    using assms(4,5,6) by (simp add: hex_slice_def)
  have "decodeLittleEndianUInt (le_hex 4 n) = Some (int n)" using assms(7) by (intro decode_le_hex) simp_all
  moreover have "int_to_string (int n) = nat_to_string n" by (simp add: int_to_string_def)
  ultimately have "decodeBalanceStorageKey ss58 xx key =
      Some \<lparr>dk_storageItem = Tokens_Accounts, dk_accountId = acc, dk_assetId = nat_to_string n\<rparr>"
    using norm asset account [of "h2 @ le_hex 4 n"]
    by (simp add: decodeBalanceStorageKey_def assms(8) other starts_with_append Let_def acc [simplified])
  moreover have "decodeBalanceStorageKey ss58 xx key0 =
      Some \<lparr>dk_storageItem = System_Account, dk_accountId = acc, dk_assetId = NATIVE_ASSET_ID\<rparr>"
    using norm account [of "[]"]
    by (simp add: decodeBalanceStorageKey_def assms(9) starts_with_append Let_def acc [simplified])
  ultimately show ?thesis by blast
qed

text \<open>The hashes of the four names, as the chain's storage uses them.\<close>

definition chain_hash :: hash_fn where
  "chain_hash s =
     (if s = ''System'' then ''0x26aa394eea5630e07c48ae0c9558cef7''
      else if s = ''Account'' then ''0xb99d880ec681799c0cf30e8886371da9''
      else if s = ''Tokens'' then ''0x99971b5749ac43e0235e41b0d3786918''
      else ''0x8ee7418a6531173d60d1f6a82d8f4d51'')"

definition example_account :: string where
  "example_account = ''0x'' @ concat (replicate 32 ''d4'')"

theorem storage_key_roundtrip_witness:
  "decodeBalanceStorageKey (\<lambda>_. None) chain_hash
     (tokens_prefix chain_hash @ replicate 32 (CHR ''e'') @ drop 2 example_account @ replicate 16 (CHR ''f'') @ ''d2040000'')
   = Some \<lparr>dk_storageItem = Tokens_Accounts, dk_accountId = example_account, dk_assetId = ''1234''\<rparr>"
proof -
  have p: "length (system_prefix chain_hash) = length (tokens_prefix chain_hash)" "system_prefix chain_hash \<noteq> tokens_prefix chain_hash"
    by code_simp+
  have a: "hex_form example_account" "length example_account = 66" by code_simp+
  have l: "length (replicate 32 (CHR ''e'')) = 32" "length (replicate 16 (CHR ''f'')) = 16" "(1234::nat) < 2 ^ 32" by simp_all
  have v: "le_hex 4 1234 = ''d2040000''" "nat_to_string 1234 = ''1234''" by code_simp+
  have k: "to_lower (tokens_prefix chain_hash @ replicate 32 (CHR ''e'') @ drop 2 example_account @ replicate 16 (CHR ''f'') @ le_hex 4 1234) =
      tokens_prefix chain_hash @ replicate 32 (CHR ''e'') @ drop 2 example_account @ replicate 16 (CHR ''f'') @ le_hex 4 1234"
    "to_lower (system_prefix chain_hash @ replicate 32 (CHR ''e'') @ drop 2 example_account) =
      system_prefix chain_hash @ replicate 32 (CHR ''e'') @ drop 2 example_account"
    by code_simp+
  from storage_key_roundtrip [OF p a l k, of "\<lambda>_. None"] show ?thesis unfolding v by blast
qed

section \<open>Absent entries and the snapshot\<close>

text \<open>Storage holds no entry for a pair.\<close>

definition no_entry :: "balance_block \<Rightarrow> string \<Rightarrow> string \<Rightarrow> bool" where
  "no_entry b accountId assetId \<longleftrightarrow>
     (if assetId = NATIVE_ASSET_ID then
        (if si_is (bb_account205 b) then si_get (bb_account205 b) accountId = Inr None else si_get (bb_account100 b) accountId = Inr None)
      else \<exists>n. numeric_asset assetId = Inr n \<and> si_get (bb_tokens b) (accountId, n) = Inr None)"

definition reads_as :: "balance_block \<Rightarrow> string \<Rightarrow> string \<Rightarrow> balance_read \<Rightarrow> bool" where
  "reads_as b accountId assetId r \<longleftrightarrow>
     (\<forall>c. bc_accountId c = accountId \<longrightarrow> bc_assetId c = assetId \<longrightarrow> readBalance b c = Inr r)"

lemma native_default:
  "nativeStorageAccessor b = Some n \<Longrightarrow> no_entry b a NATIVE_ASSET_ID \<Longrightarrow> reads_as b a NATIVE_ASSET_ID (na_fallback n)"
  by (auto simp: nativeStorageAccessor_def no_entry_def reads_as_def readBalance_def readNativeBalance_def read_item_def value_or_def
      split: if_splits)

lemma token_default:
  "si_is (bb_tokens b) \<Longrightarrow> s \<noteq> NATIVE_ASSET_ID \<Longrightarrow> no_entry b a s \<Longrightarrow> reads_as b a s (tokenBalance (si_default (bb_tokens b)))"
  by (auto simp: no_entry_def reads_as_def readBalance_def readTokenBalance_def read_item_def value_or_def)

lemma snapshotRow_fields [simp]:
  "ob_account_id (snapshotRow b ts src a s it r k) = a" "ob_asset_id (snapshotRow b ts src a s it r k) = s"
  "ob_balance (snapshotRow b ts src a s it r k) = r"
  by (simp_all add: snapshotRow_def observationRow_def snapshot_candidate_def Let_def)

lemma absent_rows_reads:
  assumes "absent_rows b ts src kind native fallback pairs = Inr rows"
    and "\<And>n. native = Some n \<Longrightarrow> nativeStorageAccessor b = Some n"
    and "\<And>r. fallback = Some r \<Longrightarrow> si_is (bb_tokens b) \<and> r = tokenBalance (si_default (bb_tokens b))"
  shows "list_all2 (\<lambda>(a, s) row. ob_account_id row = a \<and> ob_asset_id row = s \<and>
    (no_entry b a s \<longrightarrow> reads_as b a s (ob_balance row))) pairs rows"
  using assms(1)
proof (induction pairs arbitrary: rows)
  case (Cons p pairs)
  obtain a s where p: "p = (a, s)" by (cases p)
  let ?row = "if s = NATIVE_ASSET_ID then
          (case native of None \<Rightarrow> Inl ''No supported System.Account storage type at snapshot block''
           | Some n \<Rightarrow> Inr (snapshotRow b ts src a s System_Account (na_fallback n) kind))
        else
          (case fallback of None \<Rightarrow> Inl ''No supported Tokens.Accounts storage type at snapshot block''
           | Some r \<Rightarrow> Inr (snapshotRow b ts src a s Tokens_Accounts r kind))"
  obtain row rest where r: "?row = Inr row" "absent_rows b ts src kind native fallback pairs = Inr rest" "rows = row # rest"
    using Cons.prems unfolding p absent_rows.simps by (auto simp: or_fail_def split: sum.splits)
  have "ob_account_id row = a \<and> ob_asset_id row = s \<and> (no_entry b a s \<longrightarrow> reads_as b a s (ob_balance row))"
  proof (cases "s = NATIVE_ASSET_ID")
    case True
    then show ?thesis using r(1) assms(2) native_default by (auto split: option.splits)
  next
    case False
    then show ?thesis using r(1) assms(3) token_default [OF _ False] by (auto split: option.splits)
  qed
  then show ?case using Cons.IH [OF r(2)] r(3) p by simp
qed simp

text \<open>A row written for a pair that storage no longer holds is the row a read of the missing entry would have given.\<close>

lemma absent_rows_are_reads:
  assumes "snapshotAbsentRows b ts src kind pairs = Inr rows"
  shows "list_all2 (\<lambda>(a, s) row. ob_account_id row = a \<and> ob_asset_id row = s \<and>
    (no_entry b a s \<longrightarrow> reads_as b a s (ob_balance row))) pairs rows"
  by (rule absent_rows_reads [OF assms [unfolded snapshotAbsentRows_def Let_def]]) (auto split: if_splits)

fun observed_rows :: "snapshot_effect \<Rightarrow> observation_row list" where
  "observed_rows (Observed rows) = rows"
| "observed_rows (Progress _) = []"

definition observed :: "snapshot_effect list \<Rightarrow> observation_row list" where
  "observed effects = concat (map observed_rows effects)"

definition total_count :: "snapshot_counts \<Rightarrow> int" where
  "total_count c = sn_nativeAccounts c + sn_tokenEntries c"

lemma observed_simps [simp]: "observed [] = []" "observed (e # es) = observed_rows e @ observed es" "observed (es @ es') = observed es @ observed es'"
  by (simp_all add: observed_def)

lemma emit_pages_rows:
  assumes "row \<in> set (observed (fst (emit_pages bump row_of rs effects counts)))"
  shows "row \<in> set (observed effects) \<or> (\<exists>page p. Inr page \<in> set rs \<and> p \<in> set page \<and> row_of p = Some row)"
  using assms
proof (induction rs arbitrary: effects counts)
  case (Cons r rs)
  show ?case
  proof (cases r)
    case (Inr page)
    let ?rows = "List.map_filter row_of page"
    have "row \<in> set (observed (effects @ (if ?rows = [] then [] else [Observed ?rows]) @ [Progress (bump (int (length ?rows)) counts)]))
        \<or> (\<exists>page p. Inr page \<in> set rs \<and> p \<in> set page \<and> row_of p = Some row)"
      using Cons.prems Inr by (intro Cons.IH) (simp add: Let_def)
    then have "row \<in> set (observed effects) \<or> row \<in> set ?rows \<or> (\<exists>page p. Inr page \<in> set rs \<and> p \<in> set page \<and> row_of p = Some row)"
      by (auto split: if_splits)
    then show ?thesis unfolding map_filter_set using Inr by auto
  qed (use Cons.prems in simp)
qed simp

lemma emit_pages_total:
  assumes "\<And>n c. total_count (bump n c) = total_count c + n"
    and "emit_pages bump row_of rs effects counts = (out, Inr c')"
  shows "total_count c' + int (length (observed effects)) = total_count counts + int (length (observed out))"
  using assms(2)
proof (induction rs arbitrary: effects counts)
  case (Cons r rs)
  obtain page where r: "r = Inr page" using Cons.prems by (cases r) auto
  from Cons.IH [OF Cons.prems [unfolded r emit_pages.simps sum.case Let_def]] assms(1)
  show ?case by (auto split: if_splits)
qed simp

lemma emit_counts:
  assumes "\<And>p. row_of p = None \<longleftrightarrow> account (g p) = None"
  shows "snd (emit_pages bump row_of rs effects counts) = snd (count_pages bump account (map (map_sum id (map g)) rs) effects' counts)"
proof (induction rs arbitrary: effects effects' counts)
  case (Cons r rs)
  have len: "length (List.map_filter row_of page) = length (filter (\<lambda>p. account p \<noteq> None) (map g page))" for page
  proof (induction page)
    case (Cons p page)
    show ?case
    proof (cases "row_of p")
      case None
      then have "account (g p) = None" using assms by simp
      then show ?thesis using None Cons.IH by (simp add: map_filter_simps)
    next
      case (Some row)
      then have "account (g p) \<noteq> None" using assms [of p] by simp
      then show ?thesis using Some Cons.IH by (simp add: map_filter_simps)
    qed
  qed (simp add: map_filter_simps)
  show ?case
  proof (cases r)
    case (Inr page)
    show ?thesis unfolding Inr list.map map_sum.simps emit_pages.simps count_pages.simps sum.case Let_def len by (rule Cons.IH)
  qed simp
qed simp

lemma js_parse_int_nat: "js_parse_int (nat_to_string n) = Some (int n)"
proof -
  have digits: "\<And>c. c \<in> set (nat_to_string n) \<Longrightarrow> is_dec_digit c" by (rule nat_to_string_digits)
  obtain c cs where s: "nat_to_string n = c # cs" by (cases "nat_to_string n") auto
  have c: "is_dec_digit c" using digits s by simp
  have "\<not> is_space c" "c \<noteq> CHR ''-''" "c \<noteq> CHR ''+''"
    using c by (auto simp: is_space_def is_dec_digit_def Let_def)
  moreover have "takeWhile is_dec_digit (nat_to_string n) = nat_to_string n"
    using digits by (simp add: takeWhile_eq_all_conv)
  moreover have "parse_dec (nat_to_string n) = Some (int n)" by (simp add: parse_dec_def)
  ultimately show ?thesis using s by (simp add: js_parse_int_def Let_def)
qed

lemma numeric_asset_u32: "0 < n \<Longrightarrow> n < 2 ^ 32 \<Longrightarrow> numeric_asset (int_to_string n) = Inr n \<and> int_to_string n \<noteq> NATIVE_ASSET_ID"
proof -
  assume n: "0 < n" "n < 2 ^ 32"
  have s: "int_to_string n = nat_to_string (nat n)" using n by (simp add: int_to_string_def)
  have "int_to_string n \<noteq> int_to_string 0" using n by simp
  moreover have "int_to_string 0 = NATIVE_ASSET_ID" by code_simp
  ultimately show ?thesis using n by (simp add: s numeric_asset_def js_parse_int_nat is_safe_integer_def MAX_SAFE_INTEGER_def)
qed

text \<open>Pages of pairs that hold what a read of each key answers; the chain's asset ids are 32-bit and not the native one.\<close>

definition pairs_answer :: "(string \<Rightarrow> string option) \<Rightarrow> balance_block \<Rightarrow> bool" where
  "pairs_answer ss58 b \<longleftrightarrow>
     (\<forall>n page p v a. Inr page \<in> set (si_pairsPaged (bb_account205 b) n) \<longrightarrow> (p, v) \<in> set page \<longrightarrow>
        normalizeAccountId ss58 p = Some a \<longrightarrow> si_get (bb_account205 b) a = Inr v)
   \<and> (\<forall>n page p v a. Inr page \<in> set (si_pairsPaged (bb_account100 b) n) \<longrightarrow> (p, v) \<in> set page \<longrightarrow>
        normalizeAccountId ss58 p = Some a \<longrightarrow> si_get (bb_account100 b) a = Inr v)
   \<and> (\<forall>n page p k v a. Inr page \<in> set (si_pairsPaged (bb_tokens b) n) \<longrightarrow> ((p, k), v) \<in> set page \<longrightarrow>
        normalizeAccountId ss58 p = Some a \<longrightarrow> 0 < k \<and> k < 2 ^ 32 \<and> si_get (bb_tokens b) (a, k) = Inr v)"

lemma decoded_pairs_in:
  assumes "Inr page \<in> set (decoded_pairs it decode n)" "(p, r) \<in> set page"
  shows "\<exists>raw v. Inr raw \<in> set (si_pairsPaged it n) \<and> (p, v) \<in> set raw \<and> r = decode (value_or (si_default it) v)"
proof -
  obtain x where x: "x \<in> set (si_pairsPaged it n)" "Inr page = map_sum id (map (\<lambda>(k, v). (k, decode (value_or (si_default it) v)))) x"
    using assms(1) by (auto simp: decoded_pairs_def)
  have "\<exists>raw. x = Inr raw \<and> page = map (\<lambda>(k, v). (k, decode (value_or (si_default it) v))) raw"
    using x(2) by (cases x) simp_all
  then obtain raw where "x = Inr raw" "page = map (\<lambda>(k, v). (k, decode (value_or (si_default it) v))) raw" by blast
  with x(1) assms(2) show ?thesis by auto
qed

lemma native_row_reads:
  assumes "pairs_answer ss58 b" "nativeStorageAccessor b = Some native" "Inr page \<in> set (na_pairsPaged native n)"
    and "(p, r) \<in> set page" "normalizeAccountId ss58 p = Some a"
  shows "reads_as b a NATIVE_ASSET_ID r"
proof (cases "si_is (bb_account205 b)")
  case True
  then have "na_pairsPaged native = decoded_pairs (bb_account205 b) nativeV205Balance"
    using assms(2) by (auto simp: nativeStorageAccessor_def)
  then obtain raw v where v: "Inr raw \<in> set (si_pairsPaged (bb_account205 b) n)" "(p, v) \<in> set raw"
      "r = nativeV205Balance (value_or (si_default (bb_account205 b)) v)"
    using decoded_pairs_in assms(3,4) by metis
  then have "si_get (bb_account205 b) a = Inr v" using assms(1,5) unfolding pairs_answer_def by blast
  then show ?thesis using True v(3) by (simp add: reads_as_def readBalance_def readNativeBalance_def read_item_def)
next
  case False
  then have is100: "si_is (bb_account100 b)" "na_pairsPaged native = decoded_pairs (bb_account100 b) nativeV100Balance"
    using assms(2) by (auto simp: nativeStorageAccessor_def split: if_splits)
  then obtain raw v where v: "Inr raw \<in> set (si_pairsPaged (bb_account100 b) n)" "(p, v) \<in> set raw"
      "r = nativeV100Balance (value_or (si_default (bb_account100 b)) v)"
    using decoded_pairs_in assms(3,4) by metis
  then have "si_get (bb_account100 b) a = Inr v" using assms(1,5) unfolding pairs_answer_def by blast
  then show ?thesis using False is100(1) v(3) by (simp add: reads_as_def readBalance_def readNativeBalance_def read_item_def)
qed

lemma token_row_reads:
  assumes "pairs_answer ss58 b" "si_is (bb_tokens b)" "Inr page \<in> set (decoded_pairs (bb_tokens b) tokenBalance n)"
    and "((p, k), r) \<in> set page" "normalizeAccountId ss58 p = Some a"
  shows "reads_as b a (int_to_string k) r"
proof -
  obtain raw v where v: "Inr raw \<in> set (si_pairsPaged (bb_tokens b) n)" "((p, k), v) \<in> set raw"
      "r = tokenBalance (value_or (si_default (bb_tokens b)) v)"
    using decoded_pairs_in [OF assms(3,4)] by blast
  then have "0 < k" "k < 2 ^ 32" "si_get (bb_tokens b) (a, k) = Inr v" using assms(1,5) unfolding pairs_answer_def by blast+
  with numeric_asset_u32 [of k] show ?thesis using assms(2) v(3)
    by (simp add: reads_as_def readBalance_def readTokenBalance_def read_item_def)
qed

abbreviation full_snapshot :: "snapshot_options \<Rightarrow> bool" where
  "full_snapshot opts \<equiv> so_countOnly opts \<noteq> Some True"

lemma snapshot_native_rows:
  assumes "snapshot_native ss58 b ts src kind False n counts = (effects, r)" "pairs_answer ss58 b" "row \<in> set (observed effects)"
  shows "reads_as b (ob_account_id row) (ob_asset_id row) (ob_balance row)"
proof -
  obtain native where native: "nativeStorageAccessor b = Some native"
    using assms(1,3) by (cases "nativeStorageAccessor b") (auto simp: snapshot_native_def)
  let ?row = "\<lambda>(account, balance). map_option (\<lambda>a. snapshotRow b ts src a NATIVE_ASSET_ID System_Account balance kind)
      (normalizeAccountId ss58 account)"
  have e: "effects = fst (emit_pages add_native ?row (na_pairsPaged native (Some n)) [] counts)"
    using assms(1) by (simp add: snapshot_native_def native)
  obtain page p where p: "Inr page \<in> set (na_pairsPaged native (Some n))" "p \<in> set page" "?row p = Some row"
    using emit_pages_rows [OF assms(3) [unfolded e]] by auto
  obtain account balance where q: "p = (account, balance)" by (cases p)
  obtain a where a: "normalizeAccountId ss58 account = Some a" "row = snapshotRow b ts src a NATIVE_ASSET_ID System_Account balance kind"
    using p(3) q by auto
  show ?thesis using native_row_reads [OF assms(2) native p(1) p(2) [unfolded q] a(1)] a(2) by simp
qed

lemma snapshot_token_rows:
  assumes "snapshot_tokens ss58 b ts src kind False n effects counts = (effects', r)" "pairs_answer ss58 b"
    and "row \<in> set (observed effects')"
  shows "row \<in> set (observed effects) \<or> reads_as b (ob_account_id row) (ob_asset_id row) (ob_balance row)"
proof (cases "si_is (bb_tokens b)")
  case True
  let ?row = "\<lambda>((account, assetId), balance).
        map_option (\<lambda>a. snapshotRow b ts src a (int_to_string assetId) Tokens_Accounts balance kind) (normalizeAccountId ss58 account)"
  have e: "effects' = fst (emit_pages add_tokens ?row (decoded_pairs (bb_tokens b) tokenBalance (Some n)) effects counts)"
    using assms(1) True by (simp add: snapshot_tokens_def)
  consider "row \<in> set (observed effects)"
    | page p where "Inr page \<in> set (decoded_pairs (bb_tokens b) tokenBalance (Some n))" "p \<in> set page" "?row p = Some row"
    using emit_pages_rows [OF assms(3) [unfolded e]] by blast
  then show ?thesis
  proof cases
    case (2 page p)
    obtain account k balance where q: "p = ((account, k), balance)" by (cases p) auto
    obtain a where a: "normalizeAccountId ss58 account = Some a" "row = snapshotRow b ts src a (int_to_string k) Tokens_Accounts balance kind"
      using 2(3) q by auto
    show ?thesis using token_row_reads [OF assms(2) True 2(1) 2(2) [unfolded q] a(1)] a(2) by simp
  qed simp
next
  case False
  then show ?thesis using assms(1,3) by (simp add: snapshot_tokens_def)
qed

text \<open>C6: A snapshot seeds what reading would observe. Every row a full snapshot hands over states the balance a per-block
  read of its account and asset gives at the anchor block, whatever happens to the later pages; and when the snapshot ends,
  its counts are the number of rows handed over.
\<close>

theorem snapshot_rows_are_reads:
  assumes "pairs_answer ss58 b" "full_snapshot opts" "streamBalanceSnapshot ss58 env b ts opts = (effects, r)"
  shows "(\<forall>row \<in> set (observed effects). reads_as b (ob_account_id row) (ob_asset_id row) (ob_balance row))
    \<and> (\<forall>counts. r = Inr counts \<longrightarrow> total_count counts = int (length (observed effects)))"
proof -
  define n where "n = snapshot_page_size env opts"
  define src where "src = (case so_ingestSource opts of None \<Rightarrow> ''rpc'' | Some s \<Rightarrow> s)"
  define kind where "kind = (case so_sourceKind opts of None \<Rightarrow> Snapshot_Bootstrap | Some k \<Rightarrow> k)"
  define zero where "zero = \<lparr>sn_nativeAccounts = 0, sn_tokenEntries = 0\<rparr>"
  define first where "first = (if so_includeNative opts \<noteq> Some False then snapshot_native ss58 b ts src kind False n zero else ([], Inr zero))"
  obtain e1 r1 where f: "first = (e1, r1)" by (cases first)
  have s: "streamBalanceSnapshot ss58 env b ts opts = (case r1 of Inl e \<Rightarrow> (e1, Inl e)
      | Inr counts \<Rightarrow> if so_includeTokens opts \<noteq> Some False then snapshot_tokens ss58 b ts src kind False n e1 counts else (e1, Inr counts))"
  proof -
    have c: "(so_countOnly opts = Some True) = False" using assms(2) by simp
    have "streamBalanceSnapshot ss58 env b ts opts = (let (effects, r) = first in case r of Inl e \<Rightarrow> (effects, Inl e)
      | Inr counts \<Rightarrow> if so_includeTokens opts \<noteq> Some False then snapshot_tokens ss58 b ts src kind False n effects counts else (effects, Inr counts))"
      unfolding streamBalanceSnapshot_def first_def n_def src_def kind_def zero_def Let_def c ..
    then show ?thesis unfolding f Let_def prod.case .
  qed
  have z: "total_count zero = 0" by (simp add: zero_def total_count_def)
  have nat: "total_count (add_native k c) = total_count c + k" and tok: "total_count (add_tokens k c) = total_count c + k" for k c
    by (simp_all add: add_native_def add_tokens_def total_count_def)
  have rows1: "\<forall>row \<in> set (observed e1). reads_as b (ob_account_id row) (ob_asset_id row) (ob_balance row)"
  proof (cases "so_includeNative opts = Some False")
    case False
    then have "snapshot_native ss58 b ts src kind False n zero = (e1, r1)" using f by (simp add: first_def)
    then show ?thesis using snapshot_native_rows assms(1) by blast
  qed (use f in \<open>auto simp: first_def\<close>)
  have count1: "total_count c = int (length (observed e1))" if "r1 = Inr c" for c
  proof (cases "so_includeNative opts = Some False")
    case True
    then show ?thesis using f that z by (auto simp: first_def)
  next
    case False
    then have sn: "snapshot_native ss58 b ts src kind False n zero = (e1, Inr c)" using f that by (simp add: first_def)
    then obtain native where native: "nativeStorageAccessor b = Some native"
      by (cases "nativeStorageAccessor b") (auto simp: snapshot_native_def)
    from sn [unfolded snapshot_native_def native option.case if_False] emit_pages_total [OF nat] z show ?thesis by fastforce
  qed
  show ?thesis
  proof (cases r1)
    case (Inl e)
    then show ?thesis using s rows1 assms(3) by simp
  next
    case (Inr c)
    show ?thesis
    proof (cases "so_includeTokens opts = Some False")
      case True
      then show ?thesis using s rows1 count1 Inr assms(3) by auto
    next
      case False
      then have st: "snapshot_tokens ss58 b ts src kind False n e1 c = (effects, r)" using s Inr assms(3) by simp
      have "total_count counts = int (length (observed effects))" if "r = Inr counts" for counts
      proof -
        have supported: "si_is (bb_tokens b)" using st that by (auto simp: snapshot_tokens_def split: if_splits)
        from st [unfolded snapshot_tokens_def that] supported emit_pages_total [OF tok] count1 [OF Inr] show ?thesis by fastforce
      qed
      then show ?thesis using snapshot_token_rows [OF st assms(1)] rows1 by blast
    qed
  qed
qed

text \<open>A balance call that names no account leaves no trace: the warning the code asks for is only written for
  administrative calls, which no balance call is.
\<close>

lemma balance_call_not_administrative: "isBalanceCall name \<Longrightarrow> \<not> isAdministrativeCall name"
  unfolding isBalanceCall_def isAdministrativeCall_def by (cases name; cases "tl name") (auto simp: starts_with_def)

lemma unnamed_balance_call_silent:
  assumes "isBalanceCall (name_or_empty (rc_name call))" "collectAccounts ss58 (rc_args call) = []"
  shows "cc_warningNeeded (candidatesFromCall ss58 call) \<and> call_step ss58 xx ts src st call = st"
proof -
  have "name_or_empty (rc_name call) \<noteq> ''System.set_storage''"
    using balance_call_not_administrative [OF assms(1)] by (auto simp: isAdministrativeCall_def)
  then show ?thesis using assms balance_call_not_administrative [OF assms(1)]
    by (simp add: call_step_def candidatesFromCall_def Let_def split_def)
qed

section \<open>A block in full\<close>

definition example_native :: native_v205 where
  "example_native = \<lparr>n2_free = JBig 10, n2_reserved = JBig 2, n2_frozen = JNum 0, n2_flags = JBig 8, n2_nonce = 3\<rparr>"

definition example_balance_block :: balance_block where
  "example_balance_block =
     \<lparr>bb_height = 5,
      bb_account205 = \<lparr>si_is = True, si_get = (\<lambda>a. Inr (Some example_native)), si_getMany = (\<lambda>ks. Inr (map (\<lambda>k. Some example_native) ks)),
        si_default = example_native, si_keysPaged = (\<lambda>n. [Inr [JStr example_account]]),
        si_pairsPaged = (\<lambda>n. [Inr [(JStr example_account, Some example_native)]])\<rparr>,
      bb_account100 = \<lparr>si_is = False, si_get = (\<lambda>a. Inl None), si_getMany = (\<lambda>ks. Inl None),
        si_default = \<lparr>n1_free = JNull, n1_reserved = JNull, n1_miscFrozen = JNull, n1_feeFrozen = JNull, n1_nonce = 0\<rparr>,
        si_keysPaged = (\<lambda>n. []), si_pairsPaged = (\<lambda>n. [])\<rparr>,
      bb_tokens = \<lparr>si_is = False, si_get = (\<lambda>k. Inl None), si_getMany = (\<lambda>ks. Inl None),
        si_default = \<lparr>tv_free = JNull, tv_reserved = JNull, tv_frozen = JNull\<rparr>, si_keysPaged = (\<lambda>n. []), si_pairsPaged = (\<lambda>n. [])\<rparr>\<rparr>"

definition example_transfer :: raw_event where
  "example_transfer = \<lparr>rev_block = 5, rev_index = 4, rev_extrinsicIndex = Some 1, rev_callAddress = None,
     rev_name = Some ''Balances.Deposit'', rev_args = JObj [(''who'', JStr example_account), (''amount'', JBig 7)]\<rparr>"

definition batching_env :: balance_env where
  "batching_env = \<lparr>be_batchEnabled = Some ''true'', be_batchSize = None, 
     be_bootstrapPageSize = None, be_snapshotPageSize = None\<rparr>"


lemma example_reads_answer: "reads_answer example_balance_block" "pairs_answer (\<lambda>_. None) example_balance_block"
  by (auto simp: reads_answer_def pages_answer_def pairs_answer_def example_balance_block_def)


definition example_snapshot :: "snapshot_effect list \<times> (string option + snapshot_counts)" where
  "example_snapshot = streamBalanceSnapshot (\<lambda>_. None) batching_env example_balance_block ''t''
     \<lparr>so_pageSize = None, so_includeNative = None, so_includeTokens = Some False, so_ingestSource = None, so_sourceKind = None,
      so_countOnly = None\<rparr>"

theorem snapshot_rows_are_reads_witness:
  "\<exists>row. observed (fst example_snapshot) = [row] \<and> ob_account_id row = example_account
     \<and> reads_as example_balance_block example_account ''0'' (ob_balance row)"
proof -
  let ?opts = "\<lparr>so_pageSize = None, so_includeNative = None, so_includeTokens = Some False, so_ingestSource = None,
    so_sourceKind = None, so_countOnly = None\<rparr>"
  have s: "streamBalanceSnapshot (\<lambda>_. None) batching_env example_balance_block ''t'' ?opts = (fst example_snapshot, snd example_snapshot)"
    by (simp add: example_snapshot_def)
  have r: "\<forall>row \<in> set (observed (fst example_snapshot)).
      reads_as example_balance_block (ob_account_id row) (ob_asset_id row) (ob_balance row)"
    using snapshot_rows_are_reads [OF example_reads_answer(2) _ s] by simp
  have v: "length (observed (fst example_snapshot)) = 1 \<and> ob_account_id (observed (fst example_snapshot) ! 0) = example_account
      \<and> ob_asset_id (observed (fst example_snapshot) ! 0) = ''0''"
    by code_simp
  then obtain row where "observed (fst example_snapshot) = [row]" by (metis One_nat_def length_0_conv length_Suc_conv)
  with r v show ?thesis by simp
qed

lemma batching_invisible_witness:
  "extractBalanceObservations (\<lambda>_. None) chain_hash batching_env example_balance_block ''t'' [example_transfer] [] ''rpc'' [] =
   extractBalanceObservations (\<lambda>_. None) chain_hash (batching_env\<lparr>be_batchEnabled := None\<rparr>) example_balance_block ''t'' [example_transfer] []
     ''rpc'' []"
  by (rule batching_invisible [OF example_reads_answer(1)]) (simp_all add: batching_env_def)

end
