(* ===== verification/Spec2Isabelle.thy ===== *)
theory Spec2Isabelle
  imports Chain_Time Batching Worker_Pool Ingest_Policy Raw_Ranges Raw_Store Price_Engine Uniswap_V3 Balance_Reconcile Volume_Booking Trigger_Phase Nested_Calls Snapshot_Refresh Lm_Entries Bucket_Ladder Lp_Math Lm_Rewards Balance_Observations
begin

text \<open>
  A verification library of the Hydration indexer (\<^verbatim>\<open>hydration-neckwork\<close>), the TypeScript program that
  streams the blocks of the Hydration chain, stores what they hold in ClickHouse and prices every asset
  of a block. Paths below are relative to the repository.

  \<^bold>\<open>The program and its parts.\<close> The raw indexer takes batches of blocks from the Subsquid processor, decodes
  them into rows, buffers the rows in a store and flushes the store before it saves its checkpoint. A
  bounded worker owns a range of heights and finalizes it when it reaches the end; raw-live follows the
  head. From the pool state of a block the price engine computes a dollar price for every asset it can
  reach, and the volume extractor turns the trades of the block into candle and account rows with those
  prices. The money-market phase watches the oracle prices and re-reads the positions a block moved.

  \<^bold>\<open>Theories and sources.\<close>
  \<^item> \<^verbatim>\<open>Prelude\<close>, \<^verbatim>\<open>Js_Strings\<close>: JavaScript's maps, sets, stable sort, big-integer division and strings, shared by
    all theories. A \<open>Map\<close> is an association list in insertion order, a \<open>Set\<close> a duplicate-free list.
  \<^item> \<^verbatim>\<open>Price_Types\<close>, \<^verbatim>\<open>Omnipool_Price\<close>, \<^verbatim>\<open>Stableswap_Price\<close>, \<^verbatim>\<open>Weighted_Median\<close>, \<^verbatim>\<open>Usd_Reference\<close>, \<^verbatim>\<open>Price_Search\<close>,
    \<^verbatim>\<open>Price_Graph\<close>, \<^verbatim>\<open>Resolve_Prices\<close>, \<^verbatim>\<open>Price_Engine\<close>: \<^verbatim>\<open>src/src/price/{types,omnipool,stableswap,graph}.ts\<close>.
    Prices are 12- and 24-decimal integers and their printed strings; \<open>resolvePrices\<close> anchors the dollar,
    prices the Omnipool, searches the pool graph for the weighted median of all routes and prices pool
    shares by net asset value. The curve of package \<open>math-stableswap\<close> is an argument.
  \<^item> \<^verbatim>\<open>Raw_Ranges\<close>, \<^verbatim>\<open>Raw_Store\<close>, \<^verbatim>\<open>Batching\<close>, \<^verbatim>\<open>Worker_Pool\<close>, \<^verbatim>\<open>Ingest_Policy\<close>, \<^verbatim>\<open>Chain_Time\<close>:
    \<^verbatim>\<open>src/src/raw/{ranges,store,checkpoint,database,flushPolicy,snapshotCadence}.ts\<close>,
    \<^verbatim>\<open>src/src/{blockRange.ts,store/batch.ts,util}\<close>. The three ClickHouse tables of the range life cycle are lists of
    rows with their versions; inserts may fail before or after the rows are durable and a process may
    crash between any two of them. The asynchronous worker pool is a step relation over interleavings.
  \<^item> \<^verbatim>\<open>Evm_Hex\<close>, \<^verbatim>\<open>Uniswap_V3\<close>: \<^verbatim>\<open>src/src/price/uniswapV3.ts\<close> and the address forms of \<^verbatim>\<open>src/src/raw/json.ts\<close> and
    \<^verbatim>\<open>src/src/registry/atokenReserves.ts\<close>: log decoding, pool state, the tracker and its reload from the tables.
  \<^item> \<^verbatim>\<open>Balance_Reconcile\<close>: \<^verbatim>\<open>src/src/raw/balanceReconcile.ts\<close>, the sweep that compares storage with the projection.
  \<^item> \<^verbatim>\<open>Account_Identity\<close>: \<^verbatim>\<open>src/src/raw/accountIdentity.ts\<close>, the address forms of decoded arguments, the account an
    EVM address stands for, and the alias rows of a block with the choice between them.
  \<^item> \<^verbatim>\<open>Balance_Observations\<close>: \<^verbatim>\<open>src/src/raw/balance.ts\<close>: the accounts and assets a block names, their balances read
    singly or in batches at the end of the block, the full snapshot of an anchor block and the storage keys it is read by.
  \<^item> \<^verbatim>\<open>Volume_Math\<close>, \<^verbatim>\<open>Trade_Sides\<close>, \<^verbatim>\<open>Swap_Decoding\<close>, \<^verbatim>\<open>Extract_Volume\<close>, \<^verbatim>\<open>Volume_Booking\<close>:
    \<^verbatim>\<open>src/src/blocks/{volumeMath,hubHops,otcCounterparty,icePotSettlement,extractVolume}.ts\<close> and
    \<^verbatim>\<open>src/src/registry/swapEvents.ts\<close>: decoding of every swap event family, attribution, dollar volume and rows.
  \<^item> \<^verbatim>\<open>Holder_Index\<close>, \<^verbatim>\<open>Oracle_Prices\<close>, \<^verbatim>\<open>Trigger_Phase\<close>:
    \<^verbatim>\<open>src/src/raw/{moneyMarketSnapshot,moneyMarketPrices,moneyMarketTriggerPhase}.ts\<close>: holders of reserves, the oracle
    price tracker over a node given as an argument, and the phase that composes them per block.
  \<^item> \<^verbatim>\<open>Raw_Rows\<close>, \<^verbatim>\<open>Nested_Calls\<close>: JSON values, call identities and \<^verbatim>\<open>src/src/raw/nestedCalls.ts\<close>, the rows synthesized
    for calls dispatched inside other calls and EVM transactions.
  \<^item> \<^verbatim>\<open>Pool_Cache\<close>, \<^verbatim>\<open>Evm_Balances\<close>, \<^verbatim>\<open>Pool_Snapshot\<close>, \<^verbatim>\<open>Pool_Answers\<close>, \<^verbatim>\<open>Snapshot_Refresh\<close>:
    \<^verbatim>\<open>src/src/pool/compositionCache.ts\<close>, \<^verbatim>\<open>src/src/evm/balances.ts\<close>, \<^verbatim>\<open>src/src/raw/snapshot.ts\<close> and the snapshot part of the
    block loop in \<^verbatim>\<open>src/src/raw/indexer.ts\<close>: which pools exist, what is read of them, what a block may carry over.
    \<^verbatim>\<open>Pool_Answers\<close> says what the readers return from storages that answer key by key.
  \<^item> \<^verbatim>\<open>Lm_Entries\<close>: \<^verbatim>\<open>src/src/raw/lmFarmEntries.ts\<close>, the liquidity-mining deposits captured at the end of the block that
    created them. The storage read is an argument.
  \<^item> \<^verbatim>\<open>Block_Clock\<close>, \<^verbatim>\<open>Bucket_Ladder\<close>: \<^verbatim>\<open>src/api/src/services/{blockClock,bucketLadder}.ts\<close>: the block clock of the
    public interface with its incremental refresh and searches, and the grids that charts and tables bucket by.
  \<^item> \<^verbatim>\<open>Lp_Math\<close>, \<^verbatim>\<open>Lm_Rewards\<close>: \<^verbatim>\<open>src/api/src/services/{lpMath,lmRewardMath}.ts\<close>: share prices of liquidity positions,
    what a position redeems, and the liquidity-mining reward of an entry.

  \<^bold>\<open>How the code maps to definitions.\<close> A class is a record and each method a function from the record to
  its result and the new record; a thrown error is \<open>Inl\<close> of an error or of its message, \<open>null\<close> is \<^const>\<open>None\<close>,
  \<open>bigint\<close> is \<open>int\<close> with truncating division. A division by \<open>0n\<close> throws: its value is left \<^const>\<open>undefined\<close>, so nothing
  that depends on it can be proved, and where a theorem says that nothing is thrown the code's unguarded division is
  \<open>checked_bdiv\<close>, whose failure is a value. A \<open>number\<close> is \<open>int\<close> with the safe-integer bound
  written out where the code tests or relies on it. SQL statements are definitions over the lists of rows of their tables.

  \<^bold>\<open>What the lemmas show.\<close> Pricing: that no division throws on non-negative state and every price is a printed number that is
  not negative, that route prices are prices of actual simple routes and their selection is the weighted median,
  that anchored prices win. Ingestion: in any interleaving of failures and crashes the checkpoint stays behind
  the durable rows, a completed range is final and has every height, coverage assertions are exact. Volume:
  account rows are exactly what the trades moved; candles and accounts differ by the trades without an attributable
  trader and by the second parties that are booked as well; naming parties moves no volume of any asset but the hub.
  Balances: a row states the storage at the end of its block, every pair a block names is a row or a warning, batching
  is invisible, the rows of a snapshot are single reads, storage keys read back, and an alias that was bound explicitly
  is not replaced. Money market: the exact index
  is the sum of its legs, the superset never misses, the plan reads exactly the pairs named, workers with one threshold agree on the
  steps of the markets they hold alike and can read at both blocks, the holders of a market whose price stepped are read
  as long as no observation failed before, redelivered blocks change nothing. Calls: synthetic rows have keys of their own, the walk is bounded and a
  success it records is warranted. Snapshots: the composition cache refines storage and fails closed, batched EVM reads
  are single reads, aToken balances only accrue, and a snapshot carried with families left unread equals a whole read of a storage that
  stood still, whose pools hold ERC-20 legs in their contracts alone and whose contract balances do not fall to zero.
  Trackers: a new tracker reloaded from the tables is the live one, and a tracker that is not new is so for a pool that
  has swapped.
  Farm entries: every entry event of a block becomes a row or a warning, an \<open>ok\<close> row states the storage. Interface: the
  refreshed clock equals a clock rebuilt from the table, buckets keyed by height and by time agree on exact marks,
  folding a canonical grid is exact and always possible, share prices are the least solution of their equations and
  positions redeem within the pool, claiming early loses no reward.

  \<^bold>\<open>Locales.\<close> \<open>js_comparator\<close> is what \<open>Array.prototype.sort\<close> asks of a comparator and is interpreted on each comparator of
  the code; \<open>median_order\<close> extends it for the weighted medians; \<open>chain_clock\<close> is what the cadence asks of the boundary
  test; \<open>keyed_sum\<close> and \<open>leg_booking\<close> are what merging rows by key and booking a leg keep.

  \<^bold>\<open>Bounds and termination.\<close> The breadth-first and the route search are recursive functions on a measure (the hops left, and
  the observations an asset can still improve), so no fuel is chosen; a loop that does not end for some argument
  (\<open>chunk_from\<close> with a non-positive size) is a partial function in \<open>option\<close>. The hop limit, the observations kept per asset
  and the beam are the code's options.

  \<^bold>\<open>Not modelled.\<close> The Subsquid processor and its generated codecs (\<^verbatim>\<open>src/src/types\<close>), RPC and
  ClickHouse clients, the number of concurrent readers of \<^verbatim>\<open>balance.ts\<close> (its reads are taken in turn), the HTTP services of \<^verbatim>\<open>src/api\<close> apart from the pure modules named above (the rest assembles SQL
  and formats answers), front ends, SQL schemas and operational scripts; console output
  throughout. Codec answers, contract calls and stored rows enter as arguments.
\<close>

end
